(* ===== verification/Prelude.thy ===== *)
theory Prelude
  imports Main "HOL-Library.Word"
begin

text \<open>
  Shared vocabulary of the development: machine integer types, the results of C++ code that
  may throw or be undefined, and the parts of the C and C++ standard libraries that the
  modelled code relies on (character classes, number parsing and printing, tokenizing).
\<close>

unbundle bit_operations_syntax

text \<open>The equations that let the simplifier run the model on a concrete input.\<close>

named_theorems cpp_eval

subsection \<open>Machine integers\<close>

type_synonym u64 = "64 word"
type_synonym i64 = "64 word"
type_synonym u32 = "32 word"
type_synonym i32 = "32 word"

text \<open>
  \<open>abs\<close> on a C \<open>int\<close>; the most negative value is its own absolute value (two's complement).
\<close>

definition abs_i32 :: "i32 \<Rightarrow> i32" where
  "abs_i32 x = (if sint x < 0 then - x else x)"

subsection \<open>Results of code that may throw\<close>

text \<open>
  \<open>RuntimeError\<close> carries the message of a \<open>std::runtime_error\<close> (also the one thrown by
  \<open>dd4hep::except\<close>), \<open>OutOfRange\<close> stands for \<open>std::out_of_range\<close> and \<open>UndefinedBehaviour\<close>
  for a step to which the C++ standard gives no meaning (named by its argument).
\<close>

datatype cpp_error =
    RuntimeError string
  | OutOfRange string
  | UndefinedBehaviour string

type_synonym 'a cpp = "cpp_error + 'a"

definition bindE :: "'e + 'a \<Rightarrow> ('a \<Rightarrow> 'e + 'b) \<Rightarrow> 'e + 'b" where
  "bindE r f = (case r of Inl e \<Rightarrow> Inl e | Inr x \<Rightarrow> f x)"

fun foldE :: "('s \<Rightarrow> 'x \<Rightarrow> 'e + 's) \<Rightarrow> 's \<Rightarrow> 'x list \<Rightarrow> 'e + 's" where
  "foldE f s [] = Inr s"
| "foldE f s (x # xs) = bindE (f s x) (\<lambda>s'. foldE f s' xs)"

fun is_ok :: "'e + 'a \<Rightarrow> bool" where
  "is_ok (Inl e) = False"
| "is_ok (Inr x) = True"

lemma bindE_simps [simp]:
  "bindE (Inl e) f = Inl e"
  "bindE (Inr x) f = f x"
  by (simp_all add: bindE_def)

lemma bindE_Inr_iff: "bindE r f = Inr y \<longleftrightarrow> (\<exists>x. r = Inr x \<and> f x = Inr y)"
  by (cases r) auto

lemma bindE_Inl_iff: "bindE r f = Inl e \<longleftrightarrow> r = Inl e \<or> (\<exists>x. r = Inr x \<and> f x = Inl e)"
  by (cases r) auto

lemma is_ok_iff: "is_ok r \<longleftrightarrow> (\<exists>x. r = Inr x)"
  by (cases r) auto

lemma foldE_append: "foldE f s (xs @ ys) = bindE (foldE f s xs) (\<lambda>s'. foldE f s' ys)"
proof (induction xs arbitrary: s)
  case (Cons x xs)
  then show ?case by (cases "f s x") auto
qed simp

text \<open>An invariant of the step is an invariant of the fold.\<close>

lemma foldE_invariant:
  assumes "foldE f s xs = Inr t" and "P s"
    and "\<And>s x t. P s \<Longrightarrow> x \<in> set xs \<Longrightarrow> f s x = Inr t \<Longrightarrow> P t"
  shows "P t"
  using assms
proof (induction xs arbitrary: s)
  case (Cons x xs)
  from Cons.prems(1) obtain s' where s': "f s x = Inr s'" and t: "foldE f s' xs = Inr t"
    by (simp add: bindE_Inr_iff) blast
  have "P s'" by (rule Cons.prems(3) [OF Cons.prems(2) _ s']) simp
  then show ?case
  proof (rule Cons.IH [OF t])
    fix s x t
    assume "P s" and "x \<in> set xs" and "f s x = Inr t"
    then show "P t" by (intro Cons.prems(3) [of s x t]) simp_all
  qed
qed simp

text \<open>A fold whose step never fails on its elements does not fail.\<close>

lemma foldE_total:
  assumes "P s" and "\<And>s x. P s \<Longrightarrow> x \<in> set xs \<Longrightarrow> \<exists>t. f s x = Inr t \<and> P t"
  shows "\<exists>t. foldE f s xs = Inr t \<and> P t"
  using assms
proof (induction xs arbitrary: s)
  case (Cons x xs)
  have "\<exists>t. f s x = Inr t \<and> P t" using Cons.prems(1) by (rule Cons.prems(2)) simp
  then obtain s' where s': "f s x = Inr s'" "P s'" by blast
  have "\<exists>t. foldE f s' xs = Inr t \<and> P t"
    using s'(2) by (rule Cons.IH) (simp add: Cons.prems(2))
  with s'(1) show ?case by simp
qed simp

subsection \<open>Characters and numbers\<close>

definition char_code :: "char \<Rightarrow> nat" where
  "char_code c = of_char c"

definition isspace :: "char \<Rightarrow> bool" where
  "isspace c \<longleftrightarrow> char_code c = 32 \<or> (9 \<le> char_code c \<and> char_code c \<le> 13)"

definition isdigit :: "char \<Rightarrow> bool" where
  "isdigit c \<longleftrightarrow> 48 \<le> char_code c \<and> char_code c \<le> 57"

definition isalpha :: "char \<Rightarrow> bool" where
  "isalpha c \<longleftrightarrow> (65 \<le> char_code c \<and> char_code c \<le> 90) \<or> (97 \<le> char_code c \<and> char_code c \<le> 122)"

definition digit_char :: "nat \<Rightarrow> char" where
  "digit_char d = (char_of (48 + d) :: char)"

definition hex_char :: "nat \<Rightarrow> char" where
  "hex_char d = (char_of (if d < 10 then 48 + d else 87 + d) :: char)"

text \<open>Decimal and hexadecimal output of an unsigned number, decimal output of a signed one.\<close>

fun show_nat :: "nat \<Rightarrow> string" where
  "show_nat n = (if n < 10 then [digit_char n] else show_nat (n div 10) @ [digit_char (n mod 10)])"

fun show_hex :: "nat \<Rightarrow> string" where
  "show_hex n = (if n < 16 then [hex_char n] else show_hex (n div 16) @ [hex_char (n mod 16)])"

declare show_nat.simps [simp del] show_hex.simps [simp del]

definition show_int :: "int \<Rightarrow> string" where
  "show_int i = (if i < 0 then CHR ''-'' # show_nat (nat (- i)) else show_nat (nat i))"

text \<open>
  \<open>atol\<close>: leading white space, an optional sign, then decimal digits up to the first other
  character; no digit gives 0. The C library saturates at the limits of \<open>long\<close>.
\<close>

fun read_digits :: "nat \<Rightarrow> string \<Rightarrow> nat" where
  "read_digits acc [] = acc"
| "read_digits acc (c # cs) =
     (if isdigit c then read_digits (10 * acc + (char_code c - 48)) cs else acc)"

definition clamp_long :: "int \<Rightarrow> int" where
  "clamp_long i = max (- (2 ^ 63)) (min (2 ^ 63 - 1) i)"

definition atol :: "string \<Rightarrow> int" where
  "atol s = (case dropWhile isspace s of
       [] \<Rightarrow> 0
     | c # cs \<Rightarrow>
         if c = CHR ''-'' then clamp_long (- int (read_digits 0 cs))
         else if c = CHR ''+'' then clamp_long (int (read_digits 0 cs))
         else clamp_long (int (read_digits 0 (c # cs))))"

lemma digit_char_eval [cpp_eval]:
  "digit_char 0 = CHR ''0''" "digit_char (Suc 0) = CHR ''1''" "digit_char 2 = CHR ''2''"
  "digit_char 3 = CHR ''3''" "digit_char 4 = CHR ''4''" "digit_char 5 = CHR ''5''"
  "digit_char 6 = CHR ''6''" "digit_char 7 = CHR ''7''" "digit_char 8 = CHR ''8''"
  "digit_char 9 = CHR ''9''"
  by code_simp+

lemmas [cpp_eval] = abs_i32_def atol_def clamp_long_def isspace_def isdigit_def isalpha_def
  char_code_def show_nat.simps show_int_def Let_def

lemma isdigit_digit_char [simp]: "d < 10 \<Longrightarrow> isdigit (digit_char d)"
  by (simp add: isdigit_def digit_char_def char_code_def of_char_of)

lemma char_code_digit_char [simp]: "d < 10 \<Longrightarrow> char_code (digit_char d) = 48 + d"
  by (simp add: digit_char_def char_code_def of_char_of)

lemma show_nat_digits: "c \<in> set (show_nat n) \<Longrightarrow> isdigit c"
proof (induction n rule: show_nat.induct)
  case (1 n)
  show ?case
  proof (cases "n < 10")
    case True
    with 1 show ?thesis by (simp add: show_nat.simps [of n])
  next
    case False
    with "1.prems" have "c \<in> set (show_nat (n div 10)) \<or> c = digit_char (n mod 10)"
      by (auto simp: show_nat.simps [of n])
    then show ?thesis using "1.IH" False by auto
  qed
qed

lemma show_nat_nonempty [simp]: "show_nat n \<noteq> []"
  by (simp add: show_nat.simps)

lemma read_digits_append:
  "\<forall>c \<in> set xs. isdigit c \<Longrightarrow> read_digits acc (xs @ ys) = read_digits (read_digits acc xs) ys"
  by (induction xs arbitrary: acc) auto

lemma read_digits_show_nat: "read_digits 0 (show_nat n) = n"
proof (induction n rule: show_nat.induct)
  case (1 n)
  show ?case
  proof (cases "n < 10")
    case True
    then show ?thesis by (simp add: show_nat.simps [of n])
  next
    case False
    then have "read_digits 0 (show_nat n) = 10 * (n div 10) + n mod 10"
      using 1 by (simp add: show_nat.simps [of n] read_digits_append show_nat_digits)
    then show ?thesis by simp
  qed
qed

lemma isdigit_not_special:
  "isdigit c \<Longrightarrow> \<not> isspace c \<and> c \<noteq> CHR ''-'' \<and> c \<noteq> CHR ''+'' \<and> c \<noteq> CHR '','' \<and> c \<noteq> CHR '':''"
  by (auto simp: isdigit_def isspace_def char_code_def)

lemma atol_show_nat: "int n < 2 ^ 63 \<Longrightarrow> atol (show_nat n) = int n"
proof -
  assume n: "int n < 2 ^ 63"
  obtain c cs where s: "show_nat n = c # cs" by (cases "show_nat n") auto
  then have c: "isdigit c" using show_nat_digits [of c n] by simp
  have "read_digits 0 (c # cs) = n" using read_digits_show_nat [of n] s by simp
  then show ?thesis
    using c isdigit_not_special [OF c] n
    by (simp add: s atol_def clamp_long_def del: read_digits.simps)
qed

lemma atol_neg_show_nat: "int n \<le> 2 ^ 63 \<Longrightarrow> atol (CHR ''-'' # show_nat n) = - int n"
  by (simp add: atol_def isspace_def char_code_def read_digits_show_nat clamp_long_def)

lemma atol_show_int: "- (2 ^ 63) \<le> i \<Longrightarrow> i < 2 ^ 63 \<Longrightarrow> atol (show_int i) = i"
  using atol_show_nat [of "nat i"] atol_neg_show_nat [of "nat (- i)"]
  by (simp add: show_int_def)

end
