(* ===== verification/BitFieldCoder.thy ===== *)
theory BitFieldCoder
  imports Prelude
begin

text \<open>
  The 64-bit cell ID codec of \<open>DDSegmentation\<close>: \<open>BitFieldElement\<close> (one named slice of a
  64-bit word), \<open>StringTokenizer\<close> and \<open>BitFieldCoder\<close> (the list of slices described by a
  string such as \<open>system:8,layer:-3,x:32:11\<close>).
  Sources: \<open>DDCore/include/DDSegmentation/BitFieldCoder.h\<close> and
  \<open>DDCore/src/segmentations/BitFieldCoder.cpp\<close>.

  Signed arithmetic of the code is two's complement on 64 bits; the one operation to which no
  compiler gives a stable meaning, the shift by 64 of a field that is 64 bits wide, is an
  \<open>UndefinedBehaviour\<close> result of the constructor.
\<close>

unbundle bit_operations_syntax

section \<open>One field\<close>

record BitFieldElement =
  bf_mask :: u64
  bf_offset :: u32
  bf_width :: u32
  bf_minVal :: i32
  bf_maxVal :: i32
  bf_isSigned :: bool
  bf_name :: string

abbreviation bf_off :: "BitFieldElement \<Rightarrow> nat" where
  "bf_off f \<equiv> unat (bf_offset f)"

abbreviation bf_wid :: "BitFieldElement \<Rightarrow> nat" where
  "bf_wid f \<equiv> unat (bf_width f)"

definition BitFieldElement_new :: "string \<Rightarrow> u32 \<Rightarrow> i32 \<Rightarrow> BitFieldElement cpp" where
  "BitFieldElement_new fieldName fieldOffset signedWidth =
     (let width = abs_i32 signedWidth; isSigned = sint signedWidth < 0; w = unat width in
      if fieldOffset > 63 \<or> fieldOffset + width > 64
      then Inl (RuntimeError ('' BitFieldElement '' @ [CHR 0x27] @ fieldName @ [CHR 0x27] @
                  '': out of range -  offset : '' @ show_nat (unat fieldOffset) @
                  '' width '' @ show_nat w))
      else if width = 64 then Inl (UndefinedBehaviour ''shift count'')
      else Inr \<lparr>
        bf_mask = push_bit (unat fieldOffset) (push_bit w 1 - 1),
        bf_offset = fieldOffset,
        bf_width = width,
        bf_minVal = (if isSigned then ucast (push_bit (w - 1) 1 - push_bit w 1 :: i64) else 0),
        bf_maxVal = (if isSigned then ucast (push_bit (w - 1) 1 - 1 :: i64)
                     else ucast (push_bit w 1 :: i64)),
        bf_isSigned = isSigned,
        bf_name = fieldName \<rparr>)"

definition bf_value :: "BitFieldElement \<Rightarrow> u64 \<Rightarrow> i64" where
  "bf_value f vid =
     (let val = drop_bit (bf_off f) (vid AND bf_mask f) in
      if bf_isSigned f then
        (if val AND push_bit (bf_wid f - 1) 1 \<noteq> 0 then val - push_bit (bf_wid f) 1 else val)
      else val)"

definition bf_set :: "BitFieldElement \<Rightarrow> u64 \<Rightarrow> i64 \<Rightarrow> u64 cpp" where
  "bf_set f field inval =
     (if sint inval < sint (bf_minVal f) \<or> sint inval > sint (bf_maxVal f)
      then Inl (RuntimeError ('' BitFieldElement '' @ [CHR 0x27] @ bf_name f @ [CHR 0x27] @
                  '': out of range : '' @ show_int (sint inval) @
                  '' for width '' @ show_nat (bf_wid f)))
      else Inr ((field AND NOT (bf_mask f)) OR (push_bit (bf_off f) inval AND bf_mask f)))"

section \<open>The tokenizer\<close>

text \<open>The functor's state is the token vector and the last character seen.\<close>

fun StringTokenizer_call :: "char \<Rightarrow> string list \<times> char \<Rightarrow> char \<Rightarrow> string list \<times> char" where
  "StringTokenizer_call del (tokens, last_c) c =
     (let tokens' = (if c \<noteq> del
                     then (let ts = (if last_c = del then tokens @ [''''] else tokens)
                           in butlast ts @ [last ts @ [c]])
                     else tokens)
      in (tokens', c))"

definition tokenize :: "char \<Rightarrow> string \<Rightarrow> string list" where
  "tokenize del s = fst (foldl (StringTokenizer_call del) ([], del) s)"

section \<open>The coder\<close>

record BitFieldCoder =
  bc_fields :: "BitFieldElement list"
  bc_map :: "string \<rightharpoonup> u32"
  bc_joined :: u64

definition BitFieldCoder_empty :: BitFieldCoder where
  "BitFieldCoder_empty = \<lparr>bc_fields = [], bc_map = Map.empty, bc_joined = 0\<rparr>"

definition addField :: "BitFieldCoder \<Rightarrow> string \<Rightarrow> u32 \<Rightarrow> i32 \<Rightarrow> BitFieldCoder cpp" where
  "addField c nam offset width =
     bindE (BitFieldElement_new nam offset width) (\<lambda>bfv.
       let fields = bc_fields c @ [bfv];
           m = (bc_map c)(nam \<mapsto> of_nat (length fields - 1)) in
       if bc_joined c AND bf_mask bfv \<noteq> 0
       then Inl (RuntimeError ('' BitFieldElement::addField('' @ nam @ ''): bits already used '' @
                   show_hex (unat (bc_joined c)) @ '' for mask '' @
                   show_hex (unat (bf_mask bfv))))
       else Inr \<lparr>bc_fields = fields, bc_map = m, bc_joined = bc_joined c OR bf_mask bfv\<rparr>)"

text \<open>
  One round of the loop of \<open>init\<close>: the state is the coder and the running offset.
  \<open>width = atol(..)\<close> narrows \<open>long\<close> to \<open>int\<close>, \<open>thisOffset = atol(..)\<close> to \<open>unsigned\<close>.
\<close>

definition init_step :: "BitFieldCoder \<times> u32 \<Rightarrow> string \<Rightarrow> (BitFieldCoder \<times> u32) cpp" where
  "init_step st descriptor =
     (let c = fst st; offset = snd st in
      case tokenize (CHR '':'') descriptor of
        [nam, w] \<Rightarrow>
          (let width = word_of_int (atol w) in
           bindE (addField c nam offset width) (\<lambda>c'. Inr (c', offset + abs_i32 width)))
      | [nam, ofs, w] \<Rightarrow>
          (let thisOffset = word_of_int (atol ofs); width = word_of_int (atol w) in
           bindE (addField c nam thisOffset width) (\<lambda>c'. Inr (c', thisOffset + abs_i32 width)))
      | _ \<Rightarrow> Inl (RuntimeError ('' BitFieldCoder: invalid number of subfields '' @ descriptor)))"

definition BitFieldCoder_new :: "string \<Rightarrow> BitFieldCoder cpp" where
  "BitFieldCoder_new initString =
     bindE (foldE init_step (BitFieldCoder_empty, 0) (tokenize (CHR '','') initString))
       (\<lambda>st. Inr (fst st))"

definition toLong :: "u32 \<Rightarrow> u32 \<Rightarrow> u64" where
  "toLong low_Word high_Word =
     (ucast low_Word AND 0xffffffff) OR push_bit 32 (ucast high_Word AND 0xffffffff)"

definition lowWord :: "u64 \<Rightarrow> u32" where
  "lowWord bitfield = ucast (bitfield AND 0xffffffff)"

definition highWord :: "u64 \<Rightarrow> u32" where
  "highWord bitfield = ucast (drop_bit 32 bitfield)"

definition fields_at :: "BitFieldCoder \<Rightarrow> nat \<Rightarrow> BitFieldElement cpp" where
  "fields_at c idx = (if idx < length (bc_fields c) then Inr (bc_fields c ! idx)
                      else Inl (OutOfRange ''vector::at''))"

definition bc_index :: "BitFieldCoder \<Rightarrow> string \<Rightarrow> nat cpp" where
  "bc_index c nam = (case bc_map c nam of
       Some i \<Rightarrow> Inr (unat i)
     | None \<Rightarrow> Inl (RuntimeError ('' BitFieldElement: unknown name: '' @ nam)))"

definition bc_get_idx :: "BitFieldCoder \<Rightarrow> u64 \<Rightarrow> nat \<Rightarrow> i64 cpp" where
  "bc_get_idx c bitfield idx = bindE (fields_at c idx) (\<lambda>f. Inr (bf_value f bitfield))"

definition bc_get :: "BitFieldCoder \<Rightarrow> u64 \<Rightarrow> string \<Rightarrow> i64 cpp" where
  "bc_get c bitfield nam =
     bindE (bc_index c nam) (\<lambda>i. bindE (fields_at c i) (\<lambda>f. Inr (bf_value f bitfield)))"

definition bc_set_idx :: "BitFieldCoder \<Rightarrow> u64 \<Rightarrow> nat \<Rightarrow> i64 \<Rightarrow> u64 cpp" where
  "bc_set_idx c bitfield idx v = bindE (fields_at c idx) (\<lambda>f. bf_set f bitfield v)"

definition bc_set :: "BitFieldCoder \<Rightarrow> u64 \<Rightarrow> string \<Rightarrow> i64 \<Rightarrow> u64 cpp" where
  "bc_set c bitfield nam v =
     bindE (bc_index c nam) (\<lambda>i. bindE (fields_at c i) (\<lambda>f. bf_set f bitfield v))"

definition highestBit :: "BitFieldCoder \<Rightarrow> u32" where
  "highestBit c =
     foldl (\<lambda>hb f. if hb < bf_offset f + bf_width f then bf_offset f + bf_width f else hb)
       0 (bc_fields c)"

fun join_comma :: "string list \<Rightarrow> string" where
  "join_comma [] = ''''"
| "join_comma [s] = s"
| "join_comma (s # t # ss) = s @ '','' @ join_comma (t # ss)"

definition bc_valueString :: "BitFieldCoder \<Rightarrow> u64 \<Rightarrow> string" where
  "bc_valueString c bitfield =
     join_comma (map (\<lambda>f. bf_name f @ '':'' @ show_int (sint (bf_value f bitfield))) (bc_fields c))"

definition fieldDescriptor :: "BitFieldElement \<Rightarrow> string" where
  "fieldDescriptor f = bf_name f @ '':'' @ show_nat (bf_off f) @ '':'' @
     (if bf_isSigned f then ''-'' else '''') @ show_nat (bf_wid f)"

definition fieldDescription :: "BitFieldCoder \<Rightarrow> string" where
  "fieldDescription c = join_comma (map fieldDescriptor (bc_fields c))"

lemmas [cpp_eval] = BitFieldElement_new_def bf_value_def bf_set_def tokenize_def
  BitFieldCoder_empty_def addField_def init_step_def BitFieldCoder_new_def fields_at_def
  bc_index_def bc_get_idx_def bc_get_def bc_set_idx_def bc_set_def highestBit_def
  bc_valueString_def fieldDescriptor_def fieldDescription_def

section \<open>Lemmas on one field\<close>

definition bf_min :: "bool \<Rightarrow> nat \<Rightarrow> i32" where
  "bf_min sgd w = (if sgd then ucast (push_bit (w - 1) 1 - push_bit w 1 :: i64) else 0)"

definition bf_max :: "bool \<Rightarrow> nat \<Rightarrow> i32" where
  "bf_max sgd w = (if sgd then ucast (push_bit (w - 1) 1 - 1 :: i64) else ucast (push_bit w 1 :: i64))"

text \<open>The invariant of a constructed field.\<close>

definition bf_wf :: "BitFieldElement \<Rightarrow> bool" where
  "bf_wf f \<longleftrightarrow> bf_off f \<le> 63 \<and> bf_off f + bf_wid f \<le> 64 \<and> bf_wid f \<le> 63 \<and>
     (bf_isSigned f \<longrightarrow> 1 \<le> bf_wid f) \<and>
     bf_mask f = push_bit (bf_off f) (mask (bf_wid f)) \<and>
     bf_minVal f = bf_min (bf_isSigned f) (bf_wid f) \<and>
     bf_maxVal f = bf_max (bf_isSigned f) (bf_wid f)"

lemma unat_abs_i32: "unat (abs_i32 x) = nat \<bar>sint x\<bar>"
proof -
  have b: "- (2 ^ 31) \<le> sint x" "sint x < 2 ^ 31"
    using sint_greater_eq [of x] sint_less [of x] by simp_all
  have u: "uint y = sint y mod 2 ^ 32" for y :: i32
    using uint_sint [of y] by (simp add: take_bit_eq_mod)
  show ?thesis
  proof (cases "sint x < 0")
    case True
    have "uint (- x) = (- uint x) mod 2 ^ 32" by (simp add: uint_word_ariths)
    also have "\<dots> = (- sint x) mod 2 ^ 32" by (simp add: u mod_minus_eq)
    also have "\<dots> = - sint x" using True b by simp
    finally show ?thesis using True by (simp add: abs_i32_def flip: nat_uint_eq)
  next
    case False
    have "uint x = sint x" using False b by (simp add: u)
    then show ?thesis using False by (simp add: abs_i32_def flip: nat_uint_eq)
  qed
qed

lemma u32_range_test:
  fixes a b :: u32
  assumes "unat b \<le> 2 ^ 31"
  shows "a > 63 \<or> a + b > 64 \<longleftrightarrow> unat a > 63 \<or> unat a + unat b > 64"
proof (cases "unat a > 63")
  case False
  then have "unat (a + b) = unat a + unat b"
    using assms by (simp add: unat_word_ariths)
  then show ?thesis by (simp add: word_less_nat_alt)
qed (simp add: word_less_nat_alt)

lemma abs_i32_bound: "unat (abs_i32 x) \<le> 2 ^ 31"
  using sint_greater_eq [of x] sint_less [of x] by (simp add: unat_abs_i32)

text \<open>Exactly when construction succeeds, and with what.\<close>

lemma BitFieldElement_new_iff:
  "BitFieldElement_new nam offset sw = Inr f \<longleftrightarrow>
     bf_wf f \<and> bf_name f = nam \<and> bf_offset f = offset \<and> bf_width f = abs_i32 sw \<and>
     bf_isSigned f = (sint sw < 0)"
proof -
  have w64: "abs_i32 sw = 64 \<longleftrightarrow> unat (abs_i32 sw) = 64"
    by (simp add: word_unat_eq_iff)
  have pos: "1 \<le> unat (abs_i32 sw)" if "sint sw < 0"
    using that by (simp add: unat_abs_i32)
  note rng = u32_range_test [OF abs_i32_bound, of offset sw]
  show ?thesis
    using pos
    by (cases f)
      (auto simp: BitFieldElement_new_def bf_wf_def Let_def rng w64 bf_min_def bf_max_def mask_eq_exp_minus_1
        push_bit_eq_mult)
qed

lemma bf_mask_bit:
  "bf_wf f \<Longrightarrow> bit (bf_mask f) i \<longleftrightarrow> bf_off f \<le> i \<and> i < bf_off f + bf_wid f"
  by (auto simp: bf_wf_def bit_simps)

definition bf_trunc :: "BitFieldElement \<Rightarrow> i64 \<Rightarrow> i64" where
  "bf_trunc f v = (if bf_isSigned f then signed_take_bit (bf_wid f - 1) v else take_bit (bf_wid f) v)"

text \<open>Reading a field is the truncation of the shifted word.\<close>

lemma drop_masked:
  "bf_wf f \<Longrightarrow> drop_bit (bf_off f) (x AND bf_mask f) = take_bit (bf_wid f) (drop_bit (bf_off f) x)"
  by (rule bit_eqI) (auto simp: bit_simps bf_mask_bit)

lemma bf_value_trunc: "bf_wf f \<Longrightarrow> bf_value f x = bf_trunc f (drop_bit (bf_off f) x)"
proof -
  assume wf: "bf_wf f"
  show ?thesis
  proof (cases "bf_isSigned f")
    case True
    then obtain k where k: "bf_wid f = Suc k" and k62: "k < 63"
      using wf by (cases "bf_wid f") (auto simp: bf_wf_def)
    define val where "val = take_bit (Suc k) (drop_bit (bf_off f) x)"
    have test: "val AND push_bit k 1 \<noteq> 0 \<longleftrightarrow> bit (drop_bit (bf_off f) x) k"
    proof -
      have "val AND push_bit k 1 \<noteq> 0 \<longleftrightarrow> bit val k"
        using k62 by (simp add: and_exp_eq_0_iff_not_bit push_bit_eq_mult)
      also have "\<dots> \<longleftrightarrow> bit (drop_bit (bf_off f) x) k"
        by (simp add: val_def bit_simps)
      finally show ?thesis .
    qed
    have "bf_value f x = signed_take_bit k (drop_bit (bf_off f) x)"
      using True test unfolding bf_value_def drop_masked [OF wf]
      by (simp add: Let_def k val_def signed_take_bit_eq_take_bit_minus push_bit_eq_mult)
    then show ?thesis using True by (simp add: bf_trunc_def k)
  next
    case False
    then show ?thesis unfolding bf_value_def drop_masked [OF wf] by (simp add: bf_trunc_def)
  qed
qed

text \<open>The values a field of that width can hold.\<close>

definition bf_rep :: "BitFieldElement \<Rightarrow> i64 \<Rightarrow> bool" where
  "bf_rep f v \<longleftrightarrow> (if bf_isSigned f then - (2 ^ (bf_wid f - 1)) \<le> sint v \<and> sint v < 2 ^ (bf_wid f - 1)
                   else 0 \<le> sint v \<and> sint v < 2 ^ bf_wid f)"

lemma sint_signed_take_bit:
  "k < 63 \<Longrightarrow> sint (signed_take_bit k (v :: i64)) = signed_take_bit k (sint v)"
  by (rule bit_eqI) (auto simp: bit_simps bit_sint_iff min_def)

lemma sint_take_bit:
  "k \<le> 63 \<Longrightarrow> sint (take_bit k (v :: i64)) = take_bit k (sint v)"
  by (rule bit_eqI) (auto simp: bit_simps bit_sint_iff min_def)

lemma bf_trunc_rep: "bf_wf f \<Longrightarrow> bf_rep f (bf_trunc f v)"
  by (auto simp: bf_rep_def bf_trunc_def bf_wf_def sint_signed_take_bit sint_take_bit)

lemma bf_trunc_id: "bf_wf f \<Longrightarrow> bf_rep f v \<Longrightarrow> bf_trunc f v = v"
proof -
  assume "bf_wf f" and "bf_rep f v"
  then have "sint (bf_trunc f v) = sint v"
    by (auto simp: bf_rep_def bf_trunc_def bf_wf_def sint_signed_take_bit sint_take_bit
        signed_take_bit_int_eq_self take_bit_int_eq_self split: if_splits)
  then show ?thesis by (simp add: signed_word_eqI)
qed

lemma bf_value_rep: "bf_wf f \<Longrightarrow> bf_rep f (bf_value f x)"
  by (simp add: bf_value_trunc bf_trunc_rep)

lemma bf_trunc_eqI:
  "\<lbrakk>bf_wf f; \<And>i. i < bf_wid f \<Longrightarrow> bit a i = bit b i\<rbrakk> \<Longrightarrow> bf_trunc f a = bf_trunc f b"
  by (rule bit_eqI) (auto simp: bf_trunc_def bit_simps bf_wf_def min_def)

lemma bf_value_cong:
  "\<lbrakk>bf_wf f; x AND bf_mask f = y AND bf_mask f\<rbrakk> \<Longrightarrow> bf_value f x = bf_value f y"
  by (simp add: bf_value_def)

lemma bf_value_masked: "bf_wf f \<Longrightarrow> bf_value f (x AND bf_mask f) = bf_value f x"
  by (simp add: bf_value_def)

lemma bf_set_Inr:
  "bf_set f x v = Inr y \<longleftrightarrow>
     sint (bf_minVal f) \<le> sint v \<and> sint v \<le> sint (bf_maxVal f) \<and>
     y = (x AND NOT (bf_mask f)) OR (push_bit (bf_off f) v AND bf_mask f)"
  by (auto simp: bf_set_def)

lemma bf_value_set: "bf_wf f \<Longrightarrow> bf_set f x v = Inr y \<Longrightarrow> bf_value f y = bf_trunc f v"
  by (auto simp: bf_set_Inr bf_value_trunc bit_simps bf_mask_bit bf_wf_def [of f] intro!: bf_trunc_eqI)

lemma bf_set_frame: "bf_set f x v = Inr y \<Longrightarrow> y AND NOT (bf_mask f) = x AND NOT (bf_mask f)"
  by (auto simp: bf_set_Inr intro!: bit_eqI simp: bit_simps)

text \<open>The limits as integers, for every width.\<close>

lemma sint_u32_of_i64: "sint (ucast (x :: i64) :: i32) = signed_take_bit 31 (sint x)"
  by (rule bit_eqI) (auto simp: bit_simps bit_sint_iff min_def)

lemma sint_exp_i64: "k < 63 \<Longrightarrow> sint (push_bit k 1 :: i64) = 2 ^ k"
proof (rule bit_eqI)
  fix n assume "k < 63"
  then show "bit (sint (push_bit k 1 :: i64)) n \<longleftrightarrow> bit (2 ^ k :: int) n"
    by (auto simp: bit_simps bit_sint_iff min_def)
qed

lemma sint_mask_i64: "k \<le> 63 \<Longrightarrow> sint (push_bit k 1 - 1 :: i64) = 2 ^ k - 1"
proof -
  assume "k \<le> 63"
  then have "sint (mask k :: i64) = mask k"
    by (intro bit_eqI) (auto simp: bit_simps bit_sint_iff min_def)
  then show ?thesis by (simp add: mask_eq_exp_minus_1 push_bit_eq_mult)
qed

lemma sint_neg_exp_i64: "k < 63 \<Longrightarrow> sint (push_bit k 1 - push_bit (Suc k) 1 :: i64) = - (2 ^ k)"
proof -
  assume k: "k < 63"
  have "push_bit k 1 - push_bit (Suc k) 1 = (NOT (mask k) :: i64)"
    by (simp add: push_bit_eq_mult flip: minus_exp_eq_not_mask)
  moreover have "sint (NOT (mask k) :: i64) = NOT (mask k)"
    using k by (intro bit_eqI) (auto simp: bit_simps bit_sint_iff min_def)
  ultimately show ?thesis by (simp flip: minus_exp_eq_not_mask)
qed

lemma bf_limits_signed:
  assumes "bf_wf f" and "bf_isSigned f" and "bf_wid f \<le> 32"
  shows "sint (bf_minVal f) = - (2 ^ (bf_wid f - 1))" and "sint (bf_maxVal f) = 2 ^ (bf_wid f - 1) - 1"
proof -
  from assms obtain k where k: "bf_wid f = Suc k" and k31: "k \<le> 31"
    by (cases "bf_wid f") (auto simp: bf_wf_def)
  have p: "(2::int) ^ k \<le> 2 ^ 31" using k31 by (intro power_increasing) auto
  have n: "signed_take_bit 31 (- (2 ^ k)) = (- (2 ^ k) :: int)"
    using p zero_less_power [of "2::int" k] by (intro signed_take_bit_int_eq_self) linarith+
  have m: "signed_take_bit 31 (2 ^ k - 1) = (2 ^ k - 1 :: int)"
    using p zero_less_power [of "2::int" k] by (intro signed_take_bit_int_eq_self) linarith+
  show "sint (bf_minVal f) = - (2 ^ (bf_wid f - 1))"
    using assms k k31 sint_neg_exp_i64 [of k] n
    by (simp add: bf_wf_def bf_min_def sint_u32_of_i64)
  show "sint (bf_maxVal f) = 2 ^ (bf_wid f - 1) - 1"
    using assms k k31 sint_mask_i64 [of k] m
    by (simp add: bf_wf_def bf_max_def sint_u32_of_i64)
qed

lemma bf_limits_unsigned:
  assumes "bf_wf f" and "\<not> bf_isSigned f"
  shows "sint (bf_minVal f) = 0"
    and "bf_wid f \<le> 30 \<Longrightarrow> sint (bf_maxVal f) = 2 ^ bf_wid f"
    and "bf_wid f = 31 \<Longrightarrow> sint (bf_maxVal f) = - (2 ^ 31)"
    and "32 \<le> bf_wid f \<Longrightarrow> sint (bf_maxVal f) = 0"
proof -
  show "sint (bf_minVal f) = 0" using assms by (simp add: bf_wf_def bf_min_def)
  show "sint (bf_maxVal f) = 2 ^ bf_wid f" if w: "bf_wid f \<le> 30"
  proof -
    have "(2::int) ^ bf_wid f \<le> 2 ^ 30" using w by (intro power_increasing) auto
    then have n: "signed_take_bit 31 (2 ^ bf_wid f) = (2 ^ bf_wid f :: int)"
      by (intro signed_take_bit_int_eq_self) (rule order.trans [of _ 0], simp_all)
    then show ?thesis
      using assms w sint_exp_i64 [of "bf_wid f"] n
      by (simp add: bf_wf_def bf_max_def sint_u32_of_i64)
  qed
  show "sint (bf_maxVal f) = - (2 ^ 31)" if w: "bf_wid f = 31"
    using assms w by (simp add: bf_wf_def bf_max_def sint_u32_of_i64)
  show "sint (bf_maxVal f) = 0" if w: "32 \<le> bf_wid f"
  proof -
    have "(ucast (push_bit (bf_wid f) 1 :: i64) :: i32) = 0"
      using w by (intro bit_eqI) (auto simp: bit_simps)
    then show ?thesis using assms by (simp add: bf_wf_def bf_max_def)
  qed
qed

text \<open>
  A field is \<open>wide enough for its checks\<close> when its limits fit an \<open>int\<close>: up to 30 bits
  unsigned, up to 32 bits signed.
\<close>

definition bf_ok :: "BitFieldElement \<Rightarrow> bool" where
  "bf_ok f \<longleftrightarrow> bf_wf f \<and> bf_wid f \<le> (if bf_isSigned f then 32 else 30)"

lemma bf_ok_wf [intro]: "bf_ok f \<Longrightarrow> bf_wf f"
  by (simp add: bf_ok_def)

lemma bf_set_accepts:
  assumes "bf_ok f"
  shows "is_ok (bf_set f x v) \<longleftrightarrow> bf_rep f v \<or> (\<not> bf_isSigned f \<and> sint v = 2 ^ bf_wid f)"
  using assms bf_limits_signed [of f] bf_limits_unsigned [of f]
  by (auto simp: is_ok_iff bf_set_Inr bf_ok_def bf_rep_def split: if_splits)

section \<open>The interface of a slot in a word\<close>

text \<open>
  What the users of a field rely on (segmentations, \<open>IDDescriptor\<close>, \<open>BitField64\<close>): reading
  depends on the field's own bits only, a value that fits is accepted and read back, and no
  other bit changes.
\<close>

locale word_slot =
  fixes get :: "'f \<Rightarrow> u64 \<Rightarrow> i64"
    and put :: "'f \<Rightarrow> u64 \<Rightarrow> i64 \<Rightarrow> u64 cpp"
    and msk :: "'f \<Rightarrow> u64"
    and ok :: "'f \<Rightarrow> bool"
    and rep :: "'f \<Rightarrow> i64 \<Rightarrow> bool"
  assumes get_masked: "ok f \<Longrightarrow> get f (x AND msk f) = get f x"
    and put_total: "\<lbrakk>ok f; rep f v\<rbrakk> \<Longrightarrow> \<exists>y. put f x v = Inr y"
    and put_get: "\<lbrakk>ok f; rep f v; put f x v = Inr y\<rbrakk> \<Longrightarrow> get f y = v"
    and put_frame: "\<lbrakk>ok f; put f x v = Inr y\<rbrakk> \<Longrightarrow> y AND NOT (msk f) = x AND NOT (msk f)"
begin

lemma get_frame:
  assumes f: "ok f" and g: "ok g" and d: "msk f AND msk g = 0" and p: "put f x v = Inr y"
  shows "get g y = get g x"
proof -
  have sub: "z AND msk g = (z AND NOT (msk f)) AND msk g" for z
    using d by (auto simp: bit_eq_iff bit_simps)
  have "y AND msk g = x AND msk g"
    using put_frame [OF f p] by (metis sub)
  then show ?thesis using get_masked [OF g] by metis
qed

lemma put_all_frame:
  assumes "foldE (\<lambda>x (f, v). put f x v) x fvs = Inr y" and "ok g"
    and "\<forall>(f, v) \<in> set fvs. ok f \<and> msk f AND msk g = 0"
  shows "get g y = get g x"
proof (rule foldE_invariant [OF assms(1), where P = "\<lambda>z. get g z = get g x"])
  fix s fv t
  assume s: "get g s = get g x" and fv: "fv \<in> set fvs" and put: "(case fv of (f, v) \<Rightarrow> put f s v) = Inr t"
  obtain f v where "fv = (f, v)" by (cases fv)
  then have "get g t = get g s" using assms fv put by (intro get_frame [of f]) auto
  then show "get g t = get g x" using s by simp
qed simp

text \<open>Fields with disjoint masks can be written in sequence and all be read back.\<close>

lemma put_all_get:
  assumes "\<forall>(f, v) \<in> set fvs. ok f \<and> rep f v"
    and "sorted_wrt (\<lambda>(f, v) (g, w). msk f AND msk g = 0) fvs"
  shows "\<exists>y. foldE (\<lambda>x (f, v). put f x v) x fvs = Inr y \<and> (\<forall>(f, v) \<in> set fvs. get f y = v)"
  using assms
proof (induction fvs arbitrary: x)
  case (Cons fv fvs)
  obtain f v where fv: "fv = (f, v)" by (cases fv)
  have f: "ok f" "rep f v" using Cons.prems(1) fv by auto
  then obtain z where z: "put f x v = Inr z" using put_total by blast
  obtain y where y: "foldE (\<lambda>x (f, v). put f x v) z fvs = Inr y" "\<forall>(g, w) \<in> set fvs. get g y = w"
    using Cons by fastforce
  have "get f y = get f z"
    using Cons.prems fv f by (intro put_all_frame [OF y(1)]) (auto simp: and.commute)
  also have "\<dots> = v" using f z by (rule put_get)
  finally show ?case using fv z y by auto
qed simp

end

lemma bf_ok_set_total: "bf_ok f \<Longrightarrow> bf_rep f v \<Longrightarrow> \<exists>y. bf_set f x v = Inr y"
  using bf_set_accepts [of f x v] by (auto simp: is_ok_iff)

interpretation bf: word_slot bf_value bf_set bf_mask bf_ok bf_rep
proof
  show "bf_value f (x AND bf_mask f) = bf_value f x" if "bf_ok f" for f x
    using that by (auto intro: bf_value_masked)
  show "\<exists>y. bf_set f x v = Inr y" if "bf_ok f" "bf_rep f v" for f x v
    using that by (rule bf_ok_set_total)
  show "bf_value f y = v" if "bf_ok f" "bf_rep f v" "bf_set f x v = Inr y" for f v x y
    using that bf_value_set [of f x v y] bf_trunc_id [of f v] by (simp add: bf_ok_wf)
  show "y AND NOT (bf_mask f) = x AND NOT (bf_mask f)" if "bf_set f x v = Inr y" for f x v y
    using that by (rule bf_set_frame)
qed

section \<open>Lemmas on the tokenizer\<close>

lemma StringTokenizer_word_aux:
  "\<lbrakk>c \<noteq> del; del \<notin> set w\<rbrakk> \<Longrightarrow>
     foldl (StringTokenizer_call del) (ts @ [u], c) w = (ts @ [u @ w], last (c # w))"
  by (induction w arbitrary: u c) (auto simp: Let_def)

lemma StringTokenizer_word:
  assumes "del \<notin> set w" and "w \<noteq> []"
  shows "foldl (StringTokenizer_call del) (ts, del) w = (ts @ [w], last w)"
proof -
  from assms obtain c cs where "w = c # cs" by (cases w) auto
  then show ?thesis using assms StringTokenizer_word_aux [of c del cs ts "[c]"]
    by (auto simp: Let_def)
qed

lemma StringTokenizer_join:
  assumes "\<forall>t \<in> set ts. t \<noteq> [] \<and> CHR '','' \<notin> set t"
  shows "fst (foldl (StringTokenizer_call (CHR '','')) (ts0, CHR '','') (join_comma ts)) = ts0 @ ts"
  using assms
proof (induction ts arbitrary: ts0 rule: join_comma.induct)
  case (3 s t ss)
  have "foldl (StringTokenizer_call (CHR '','')) (ts0, CHR '','') (s @ '','')
      = (ts0 @ [s], CHR '','')"
    using "3.prems" by (simp add: StringTokenizer_word)
  then show ?case using 3 by simp
qed (simp_all add: StringTokenizer_word)

lemma tokenize_join:
  "\<forall>t \<in> set ts. t \<noteq> [] \<and> CHR '','' \<notin> set t \<Longrightarrow> tokenize (CHR '','') (join_comma ts) = ts"
  using StringTokenizer_join [of ts "[]"] by (simp add: tokenize_def)

lemma tokenize_three:
  assumes "del \<notin> set a" "a \<noteq> []" "del \<notin> set b" "b \<noteq> []" "del \<notin> set c" "c \<noteq> []"
  shows "tokenize del (a @ [del] @ b @ [del] @ c) = [a, b, c]"
  using assms by (simp add: tokenize_def StringTokenizer_word)

text \<open>Every token is non-empty and free of the delimiter.\<close>

definition tokens_ok :: "char \<Rightarrow> string \<Rightarrow> string list \<times> char \<Rightarrow> bool" where
  "tokens_ok del s st \<longleftrightarrow>
     (\<forall>t \<in> set (fst st). t \<noteq> [] \<and> del \<notin> set t \<and> set t \<subseteq> set s) \<and> (fst st = [] \<longrightarrow> snd st = del)"

lemma StringTokenizer_step_ok:
  assumes "tokens_ok del s st" and "c \<in> set s"
  shows "tokens_ok del s (StringTokenizer_call del st c)"
proof (cases st)
  case (Pair ts l)
  show ?thesis
  proof (cases "c = del \<or> l = del")
    case True
    then show ?thesis using assms Pair by (auto simp: tokens_ok_def Let_def)
  next
    case False
    then obtain us u where "ts = us @ [u]"
      using assms Pair by (cases ts rule: rev_exhaust) (auto simp: tokens_ok_def)
    then show ?thesis using False assms Pair by (auto simp: tokens_ok_def Let_def)
  qed
qed

lemma StringTokenizer_fold_ok:
  "\<lbrakk>tokens_ok del s st; set w \<subseteq> set s\<rbrakk> \<Longrightarrow> tokens_ok del s (foldl (StringTokenizer_call del) st w)"
proof (induction w arbitrary: st)
  case Nil
  then show ?case by simp
next
  case (Cons a w)
  have "tokens_ok del s (StringTokenizer_call del st a)"
    using Cons.prems by (intro StringTokenizer_step_ok) simp_all
  then have "tokens_ok del s (foldl (StringTokenizer_call del) (StringTokenizer_call del st a) w)"
    using Cons.prems(2) by (intro Cons.IH) simp_all
  then show ?case by (subst foldl_Cons)
qed

lemma tokenize_ok: "tokens_ok del s (foldl (StringTokenizer_call del) ([], del) s)"
  by (rule StringTokenizer_fold_ok) (simp_all add: tokens_ok_def)

lemma tokenize_tokens:
  assumes "t \<in> set (tokenize del s)"
  shows "t \<noteq> []" and "del \<notin> set t" and "set t \<subseteq> set s"
  using assms tokenize_ok [of del s] by (auto simp: tokens_ok_def tokenize_def)

section \<open>Lemmas on the coder\<close>

definition names_map :: "string list \<Rightarrow> string \<rightharpoonup> u32" where
  "names_map ns = foldl (\<lambda>m (i, n). m(n \<mapsto> of_nat i)) Map.empty (enumerate 0 ns)"

definition masks_or :: "BitFieldElement list \<Rightarrow> u64" where
  "masks_or fs = foldl (\<lambda>j f. j OR bf_mask f) 0 fs"

definition coder_of :: "BitFieldElement list \<Rightarrow> BitFieldCoder" where
  "coder_of fs = \<lparr>bc_fields = fs, bc_map = names_map (map bf_name fs), bc_joined = masks_or fs\<rparr>"

definition name_ok :: "string \<Rightarrow> bool" where
  "name_ok n \<longleftrightarrow> n \<noteq> [] \<and> CHR '','' \<notin> set n \<and> CHR '':'' \<notin> set n"

text \<open>The invariant of a constructed coder: sound fields whose masks do not overlap.\<close>

definition fields_wf :: "BitFieldElement list \<Rightarrow> bool" where
  "fields_wf fs \<longleftrightarrow> (\<forall>f \<in> set fs. bf_wf f \<and> name_ok (bf_name f)) \<and>
     sorted_wrt (\<lambda>f g. bf_mask f AND bf_mask g = 0) fs"

definition coder_wf :: "BitFieldCoder \<Rightarrow> bool" where
  "coder_wf c \<longleftrightarrow> fields_wf (bc_fields c) \<and> c = coder_of (bc_fields c)"

lemma coder_of_empty: "coder_of [] = BitFieldCoder_empty"
  by (simp add: coder_of_def BitFieldCoder_empty_def names_map_def masks_or_def)

lemma names_map_snoc: "names_map (ns @ [n]) = (names_map ns)(n \<mapsto> of_nat (length ns))"
  by (simp add: names_map_def enumerate_append_eq)

lemma masks_or_snoc: "masks_or (fs @ [f]) = masks_or fs OR bf_mask f"
  by (simp add: masks_or_def)

lemma bit_masks_or: "bit (masks_or fs) i \<longleftrightarrow> (\<exists>f \<in> set fs. bit (bf_mask f) i)"
proof (induction fs rule: rev_induct)
  case Nil
  show ?case by (simp add: masks_or_def)
qed (auto simp: masks_or_snoc bit_simps)

lemma masks_or_disjoint: "masks_or fs AND m = 0 \<longleftrightarrow> (\<forall>f \<in> set fs. bf_mask f AND m = 0)"
  by (auto simp: bit_eq_iff bit_and_iff bit_masks_or)

lemma names_map_Some:
  "names_map ns n = Some i \<Longrightarrow> \<exists>k < length ns. i = of_nat k \<and> ns ! k = n"
proof (induction ns arbitrary: i rule: rev_induct)
  case (snoc m ns)
  show ?case
  proof (cases "n = m")
    case True
    then show ?thesis using snoc.prems by (intro exI [of _ "length ns"]) (auto simp: names_map_snoc)
  next
    case False
    then obtain k where "k < length ns" "i = of_nat k" "ns ! k = n"
      using snoc by (auto simp: names_map_snoc)
    then show ?thesis by (intro exI [of _ k]) (auto simp: nth_append)
  qed
qed (simp add: names_map_def)

lemma names_map_None: "names_map ns n = None \<longleftrightarrow> n \<notin> set ns"
proof (induction ns rule: rev_induct)
  case Nil
  show ?case by (simp add: names_map_def)
qed (auto simp: names_map_snoc)

lemma addField_coder_of:
  "addField (coder_of fs) nam offset w = Inr c \<longleftrightarrow>
     (\<exists>f. BitFieldElement_new nam offset w = Inr f \<and> (\<forall>g \<in> set fs. bf_mask g AND bf_mask f = 0) \<and>
          c = coder_of (fs @ [f]))"
proof (cases "BitFieldElement_new nam offset w")
  case (Inr f)
  then have "bf_name f = nam" by (simp add: BitFieldElement_new_iff)
  then show ?thesis using Inr
    by (auto simp: addField_def coder_of_def names_map_snoc masks_or_snoc masks_or_disjoint Let_def)
qed (simp add: addField_def)

lemma fields_wf_snoc:
  "fields_wf (fs @ [f]) \<longleftrightarrow> fields_wf fs \<and> bf_wf f \<and> name_ok (bf_name f) \<and>
     (\<forall>g \<in> set fs. bf_mask g AND bf_mask f = 0)"
  by (auto simp: fields_wf_def sorted_wrt_append)

lemma coder_wf_coder_of: "coder_wf (coder_of fs) \<longleftrightarrow> fields_wf fs"
  by (simp add: coder_wf_def coder_of_def)

lemma init_step_wf:
  assumes "init_step st d = Inr st'" and "coder_wf (fst st)" and "CHR '','' \<notin> set d"
  shows "coder_wf (fst st')"
proof -
  obtain fs where fs: "fst st = coder_of fs" "fields_wf fs"
    using assms(2) by (auto simp: coder_wf_def)
  have step: "coder_wf c'"
    if add: "addField (coder_of fs) nam ofs w = Inr c'" and nam: "nam \<in> set (tokenize (CHR '':'') d)"
    for nam ofs w c'
  proof -
    obtain f where f: "BitFieldElement_new nam ofs w = Inr f" "c' = coder_of (fs @ [f])"
      "\<forall>g \<in> set fs. bf_mask g AND bf_mask f = 0"
      using add unfolding addField_coder_of by blast
    have "name_ok nam"
      using tokenize_tokens [OF nam] assms(3) by (auto simp: name_ok_def)
    then show ?thesis
      using f fs(2) by (auto simp: coder_wf_coder_of fields_wf_snoc BitFieldElement_new_iff)
  qed
  show ?thesis
    using assms(1) step
    by (auto simp: init_step_def Let_def bindE_Inr_iff fs(1) split: list.splits)
qed

lemma BitFieldCoder_new_wf: "BitFieldCoder_new s = Inr c \<Longrightarrow> coder_wf c"
proof -
  assume "BitFieldCoder_new s = Inr c"
  then obtain st where st: "foldE init_step (BitFieldCoder_empty, 0) (tokenize (CHR '','') s) = Inr st"
    and c: "c = fst st"
    by (auto simp: BitFieldCoder_new_def bindE_Inr_iff)
  have "coder_wf (fst st)"
  proof (rule foldE_invariant [OF st])
    show "coder_wf (fst (BitFieldCoder_empty, 0))"
      using coder_wf_coder_of [of "[]"] by (simp add: coder_of_empty fields_wf_def)
    show "coder_wf (fst t)"
      if "coder_wf (fst s')" "d \<in> set (tokenize (CHR '','') s)" "init_step s' d = Inr t" for s' d t
      using that(3,1) tokenize_tokens(2) [OF that(2)] by (rule init_step_wf)
  qed
  then show ?thesis by (simp add: c)
qed

text \<open>Printing a field and parsing it back.\<close>

lemma show_nat_no_delim: "CHR '','' \<notin> set (show_nat n)" "CHR '':'' \<notin> set (show_nat n)"
  using show_nat_digits isdigit_not_special by blast+

lemma fieldDescriptor_init:
  assumes "fields_wf (fs @ [f])"
  shows "\<exists>ofs'. init_step (coder_of fs, ofs) (fieldDescriptor f) = Inr (coder_of (fs @ [f]), ofs')"
proof -
  have wf: "bf_wf f" "name_ok (bf_name f)" "\<forall>g \<in> set fs. bf_mask g AND bf_mask f = 0"
    using assms by (auto simp: fields_wf_snoc)
  define sw where "sw = (if bf_isSigned f then - int (bf_wid f) else int (bf_wid f))"
  define ws where "ws = (if bf_isSigned f then ''-'' else '''') @ show_nat (bf_wid f)"
  have small: "bf_off f \<le> 63" "bf_wid f \<le> 63" using wf by (auto simp: bf_wf_def)
  have "fieldDescriptor f = bf_name f @ [CHR '':''] @ show_nat (bf_off f) @ [CHR '':''] @ ws"
    by (simp add: fieldDescriptor_def ws_def)
  also have "tokenize (CHR '':'') \<dots> = [bf_name f, show_nat (bf_off f), ws]"
    using wf by (intro tokenize_three) (auto simp: name_ok_def ws_def show_nat_no_delim)
  finally have tok: "tokenize (CHR '':'') (fieldDescriptor f) = [bf_name f, show_nat (bf_off f), ws]" .
  have ato: "atol (show_nat (bf_off f)) = int (bf_off f)" "atol ws = sw"
    using small atol_show_nat [of "bf_off f"] atol_show_nat [of "bf_wid f"] atol_neg_show_nat [of "bf_wid f"]
    by (simp_all add: ws_def sw_def del: of_nat_unat)
  have sint_sw: "sint (word_of_int sw :: i32) = sw"
    using small by (simp add: sw_def sint_sbintrunc' signed_take_bit_int_eq_self del: of_nat_unat)
  have "BitFieldElement_new (bf_name f) (word_of_int (int (bf_off f))) (word_of_int sw) = Inr f"
  proof -
    have "bf_width f = abs_i32 (word_of_int sw)"
      unfolding word_unat_eq_iff unat_abs_i32 sint_sw by (simp add: sw_def)
    moreover have "bf_isSigned f = (sw < 0)"
      using wf by (auto simp: sw_def bf_wf_def simp del: of_nat_unat)
    ultimately show ?thesis using wf by (simp add: BitFieldElement_new_iff sint_sw)
  qed
  then have "addField (coder_of fs) (bf_name f) (word_of_int (int (bf_off f))) (word_of_int sw)
      = Inr (coder_of (fs @ [f]))"
    using wf unfolding addField_coder_of by blast
  then show ?thesis by (simp add: init_step_def tok ato Let_def)
qed

lemma init_fields:
  "fields_wf fs \<Longrightarrow>
     \<exists>ofs'. foldE init_step (BitFieldCoder_empty, 0) (map fieldDescriptor fs) = Inr (coder_of fs, ofs')"
proof (induction fs rule: rev_induct)
  case (snoc f fs)
  then obtain o1 where
    "foldE init_step (BitFieldCoder_empty, 0) (map fieldDescriptor fs) = Inr (coder_of fs, o1)"
    by (auto simp: fields_wf_snoc)
  then show ?case using fieldDescriptor_init [OF snoc.prems, of o1] by (auto simp: foldE_append)
qed (simp add: coder_of_empty)

lemma fieldDescriptor_ok:
  "name_ok (bf_name f) \<Longrightarrow> fieldDescriptor f \<noteq> [] \<and> CHR '','' \<notin> set (fieldDescriptor f)"
  by (auto simp: fieldDescriptor_def name_ok_def show_nat_no_delim)

lemma coder_wf_roundtrip: "coder_wf c \<Longrightarrow> BitFieldCoder_new (fieldDescription c) = Inr c"
proof -
  assume wf: "coder_wf c"
  then have "tokenize (CHR '','') (fieldDescription c) = map fieldDescriptor (bc_fields c)"
    unfolding fieldDescription_def
    by (intro tokenize_join) (auto simp: coder_wf_def fields_wf_def fieldDescriptor_ok)
  moreover obtain ofs' where
    "foldE init_step (BitFieldCoder_empty, 0) (map fieldDescriptor (bc_fields c)) = Inr (coder_of (bc_fields c), ofs')"
    using wf init_fields [of "bc_fields c"] by (auto simp: coder_wf_def)
  ultimately show ?thesis using wf by (simp add: BitFieldCoder_new_def coder_wf_def)
qed

lemma coder_fields_at:
  "\<lbrakk>coder_wf c; bc_map c nam = Some i; length (bc_fields c) < 2 ^ 32\<rbrakk> \<Longrightarrow>
     \<exists>k < length (bc_fields c). unat i = k \<and> bf_name (bc_fields c ! k) = nam"
proof -
  assume wf: "coder_wf c" and i: "bc_map c nam = Some i" and n: "length (bc_fields c) < 2 ^ 32"
  have "bc_map c = names_map (map bf_name (bc_fields c))"
    using wf by (metis coder_wf_def coder_of_def BitFieldCoder.select_convs(2))
  then obtain k where k: "k < length (bc_fields c)" "i = of_nat k" "bf_name (bc_fields c ! k) = nam"
    using names_map_Some [of "map bf_name (bc_fields c)" nam i] i by auto
  then have "unat i = k" using n by (simp add: unat_of_nat)
  then show ?thesis using k by blast
qed

lemma fields_wf_disjoint:
  assumes "fields_wf fs" and "i < length fs" and "j < length fs" and "i \<noteq> j"
  shows "bf_mask (fs ! i) AND bf_mask (fs ! j) = 0"
proof -
  have lt: "bf_mask (fs ! k) AND bf_mask (fs ! l) = 0" if "k < l" "l < length fs" for k l
    using assms(1) that by (simp add: fields_wf_def sorted_wrt_iff_nth_less)
  then show ?thesis using assms(2-4) lt [of i j] lt [of j i]
    by (cases "i < j") (auto simp: and.commute)
qed

lemma bf_value_frame:
  "\<lbrakk>bf_set f x v = Inr y; bf_mask f AND bf_mask g = 0\<rbrakk> \<Longrightarrow> bf_value g y = bf_value g x"
proof -
  assume set: "bf_set f x v = Inr y" and d: "bf_mask f AND bf_mask g = 0"
  have "z AND bf_mask g = (z AND NOT (bf_mask f)) AND bf_mask g" for z
    using d by (auto simp: bit_eq_iff bit_simps)
  then have "y AND bf_mask g = x AND bf_mask g"
    using bf_set_frame [OF set] by metis
  then show ?thesis by (simp add: bf_value_def)
qed

definition raise_bit :: "u32 \<Rightarrow> BitFieldElement \<Rightarrow> u32" where
  "raise_bit hb f = (if hb < bf_offset f + bf_width f then bf_offset f + bf_width f else hb)"

lemma highestBit_fold_raise: "highestBit c = foldl raise_bit 0 (bc_fields c)"
  by (simp add: highestBit_def raise_bit_def [abs_def])

lemma raise_bit_ge: "h \<le> raise_bit h f" "bf_offset f + bf_width f \<le> raise_bit h f"
  by (auto simp: raise_bit_def)

lemma raise_bits_ge: "h \<le> foldl raise_bit h fs"
proof (induction fs arbitrary: h)
  case (Cons f fs)
  have "h \<le> raise_bit h f" by (rule raise_bit_ge)
  also note Cons.IH
  finally show ?case by simp
qed simp

lemma unat_end: "bf_wf f \<Longrightarrow> unat (bf_offset f + bf_width f) = bf_off f + bf_wid f"
  by (simp add: bf_wf_def unat_word_ariths)

lemma highestBit_fold: "f \<in> set fs \<Longrightarrow> bf_offset f + bf_width f \<le> foldl raise_bit h fs"
proof (induction fs arbitrary: h)
  case (Cons g fs)
  show ?case
  proof (cases "f = g")
    case True
    have "bf_offset f + bf_width f \<le> raise_bit h f" by (rule raise_bit_ge)
    also note raise_bits_ge
    finally show ?thesis using True by simp
  next
    case False
    then show ?thesis using Cons by simp
  qed
qed simp

lemma coder_wf_joined: "coder_wf c \<Longrightarrow> bc_joined c = masks_or (bc_fields c)"
  by (metis coder_wf_def coder_of_def BitFieldCoder.select_convs(3))

section \<open>Properties\<close>

text \<open>C1. Printing a coder's description and parsing it again gives the same coder: fields, name
  map and joined mask, for every coder the constructor can build.\<close>

theorem coder_roundtrip:
  "BitFieldCoder_new s = Inr c \<Longrightarrow> BitFieldCoder_new (fieldDescription c) = Inr c"
  by (intro coder_wf_roundtrip BitFieldCoder_new_wf)

definition layer_coder :: BitFieldCoder where
  "layer_coder = projr (BitFieldCoder_new ''layer:7,system:-3,theta:32:11'')"

lemma layer_coder_ok: "BitFieldCoder_new ''layer:7,system:-3,theta:32:11'' = Inr layer_coder"
  by (simp add: layer_coder_def cpp_eval)

theorem coder_roundtrip_witness:
  "BitFieldCoder_new ''layer:0:7,system:7:-3,theta:32:11'' = Inr layer_coder"
proof -
  have "fieldDescription layer_coder = ''layer:0:7,system:7:-3,theta:32:11''"
    by (simp add: layer_coder_def cpp_eval)
  then show ?thesis using coder_roundtrip [OF layer_coder_ok] by simp
qed

text \<open>C2. Writing and reading a field of any width that lies within the word (\<open>bf_wf\<close>, as every constructed field does). A field of at most 32 bits when signed, 30 bits when
  unsigned, takes every value it can represent; of wider fields \<open>set\<close> refuses values they can
  represent, an unsigned field of 32 bits all but 0 (C3 says exactly which, for every width). Whenever \<open>set\<close> accepts a value, for
  a field of any width, reading the field gives the value truncated to the width, which is the value
  itself when the field can represent it, and every field with a disjoint mask keeps its value.\<close>

theorem bf_set_get:
  assumes "bf_wf f"
  shows "(bf_wid f \<le> (if bf_isSigned f then 32 else 30) \<longrightarrow> bf_rep f v \<longrightarrow> is_ok (bf_set f x v)) \<and>
    (\<forall>y. bf_set f x v = Inr y \<longrightarrow> bf_value f y = bf_trunc f v \<and> (bf_rep f v \<longrightarrow> bf_value f y = v) \<and>
      (\<forall>g. bf_mask f AND bf_mask g = 0 \<longrightarrow> bf_value g y = bf_value g x))"
proof (intro conjI allI impI)
  show "is_ok (bf_set f x v)" if "bf_wid f \<le> (if bf_isSigned f then 32 else 30)" "bf_rep f v"
    using bf_ok_set_total [of f v x] that assms by (auto simp: bf_ok_def is_ok_iff)
  fix y
  assume y: "bf_set f x v = Inr y"
  show "bf_value f y = bf_trunc f v" by (rule bf_value_set [OF assms y])
  then show "bf_value f y = v" if "bf_rep f v" using bf_trunc_id [OF assms that] by simp
  show "bf_value g y = bf_value g x" if "bf_mask f AND bf_mask g = 0" for g by (rule bf_value_frame [OF y that])
qed

theorem bf_set_get_witness:
  "\<exists>y. bf_set (bc_fields layer_coder ! 1) 99 (- 4) = Inr y \<and>
     bf_value (bc_fields layer_coder ! 1) y = - 4 \<and> bf_value (bc_fields layer_coder ! 0) y = 99"
proof -
  let ?f = "bc_fields layer_coder ! 1"
  have h: "bf_wf ?f" "bf_wid ?f \<le> (if bf_isSigned ?f then 32 else 30)" "bf_rep ?f (- 4)"
    and d: "bf_mask ?f AND bf_mask (bc_fields layer_coder ! 0) = 0"
    and v: "bf_value (bc_fields layer_coder ! 0) 99 = 99"
    by (simp_all add: layer_coder_def cpp_eval bf_wf_def bf_rep_def bf_min_def bf_max_def
        mask_eq_exp_minus_1 push_bit_eq_mult)
  note t = bf_set_get [OF h(1), of "- 4" 99]
  then have "is_ok (bf_set ?f 99 (- 4))" using h(2,3) by simp
  then obtain y where y: "bf_set ?f 99 (- 4) = Inr y" by (auto simp: is_ok_iff)
  then show ?thesis using conjunct2 [OF t] h(3) d v by auto
qed

text \<open>C3. Exactly which values \<open>set\<close> accepts, for every field that can be constructed: the fitting
  ones for signed fields of at most 32 bits; for unsigned fields of at most 30 bits also the value
  \<open>2 ^ width\<close>, one above the largest; for wider fields the \<open>int\<close> limits have wrapped, so that nothing
  but 0 (unsigned, 32 bits or more) or nothing at all (31 bits unsigned, 33 or more signed) is
  accepted.\<close>

theorem bf_set_accepts_exactly:
  assumes "bf_wf f"
  shows "is_ok (bf_set f x v) \<longleftrightarrow>
    (if bf_isSigned f then bf_wid f \<le> 32 \<and> bf_rep f v
     else if bf_wid f \<le> 30 then 0 \<le> sint v \<and> sint v \<le> 2 ^ bf_wid f
     else bf_wid f \<noteq> 31 \<and> v = 0)"
proof (cases "bf_isSigned f")
  case True
  show ?thesis
  proof (cases "bf_wid f \<le> 32")
    case le: True
    then show ?thesis using True bf_limits_signed [OF assms True le]
      by (auto simp: is_ok_iff bf_set_Inr bf_rep_def)
  next
    case False
    then obtain k where k: "bf_wid f = Suc k" "32 \<le> k" by (cases "bf_wid f") auto
    have "(ucast (push_bit k 1 - push_bit (Suc k) 1 :: i64) :: i32) = 0"
    proof -
      have "push_bit k 1 - push_bit (Suc k) 1 = (NOT (mask k) :: i64)"
        by (simp add: push_bit_eq_mult flip: minus_exp_eq_not_mask)
      moreover have "(ucast (NOT (mask k) :: i64) :: i32) = 0"
        using k by (intro bit_eqI) (auto simp: bit_simps)
      ultimately show ?thesis by simp
    qed
    moreover have "(ucast (push_bit k 1 - 1 :: i64) :: i32) = - 1"
    proof -
      have "(ucast (mask k :: i64) :: i32) = - 1"
        using k by (intro bit_eqI) (auto simp: bit_simps)
      then show ?thesis by (simp add: mask_eq_exp_minus_1 push_bit_eq_mult)
    qed
    ultimately have "sint (bf_minVal f) = 0 \<and> sint (bf_maxVal f) = - 1"
      using assms True k by (simp add: bf_wf_def bf_min_def bf_max_def del: push_bit_Suc)
    then show ?thesis using True False by (auto simp: is_ok_iff bf_set_Inr)
  qed
next
  case False
  have z: "sint v = 0 \<longleftrightarrow> v = 0" by (metis signed_0 signed_word_eqI)
  consider "bf_wid f \<le> 30" | "bf_wid f = 31" | "32 \<le> bf_wid f" by linarith
  then show ?thesis
    using False bf_limits_unsigned [OF assms False] z
    by cases (auto simp: is_ok_iff bf_set_Inr)
qed

definition wide_field :: BitFieldElement where
  "wide_field = projr (BitFieldElement_new ''cell'' 0 32)"

theorem bf_set_accepts_exactly_witness:
  "bf_wf wide_field \<and> bf_wid wide_field = 32 \<and> \<not> is_ok (bf_set wide_field 0 1)"
proof -
  have n: "BitFieldElement_new ''cell'' 0 32 = Inr wide_field"
    by (simp add: wide_field_def cpp_eval)
  have wf: "bf_wf wide_field \<and> bf_wid wide_field = 32 \<and> \<not> bf_isSigned wide_field"
    using n [unfolded BitFieldElement_new_iff] by (simp add: cpp_eval)
  then show ?thesis using bf_set_accepts_exactly [of wide_field 0 1] by simp
qed

text \<open>C4. The fields of a constructed coder never share a bit, its joined mask is exactly the union of
  their bit ranges, and every used bit lies below \<open>highestBit\<close>.\<close>

theorem coder_invariant:
  assumes "BitFieldCoder_new s = Inr c"
  shows "(\<forall>i < length (bc_fields c). \<forall>j < i. bf_mask (bc_fields c ! i) AND bf_mask (bc_fields c ! j) = 0) \<and>
    (\<forall>b. bit (bc_joined c) b \<longleftrightarrow>
       (\<exists>f \<in> set (bc_fields c). bf_off f \<le> b \<and> b < bf_off f + bf_wid f)) \<and>
    (\<forall>b. bit (bc_joined c) b \<longrightarrow> b < unat (highestBit c))"
proof -
  have wf: "fields_wf (bc_fields c)" and c: "c = coder_of (bc_fields c)"
    using BitFieldCoder_new_wf [OF assms] by (auto simp: coder_wf_def)
  have j: "bc_joined c = masks_or (bc_fields c)" by (subst c) (simp add: coder_of_def)
  have b: "bit (bc_joined c) b \<longleftrightarrow> (\<exists>f \<in> set (bc_fields c). bf_off f \<le> b \<and> b < bf_off f + bf_wid f)" for b
    using wf by (auto simp: j bit_masks_or bf_mask_bit fields_wf_def)
  have h: "bf_off f + bf_wid f \<le> unat (highestBit c)" if "f \<in> set (bc_fields c)" for f
    using highestBit_fold [OF that, of 0] that wf
    by (auto simp: highestBit_fold_raise word_le_nat_alt unat_end fields_wf_def)
  show ?thesis using b h fields_wf_disjoint [OF wf] by fastforce
qed

theorem coder_invariant_witness:
  "bf_mask (bc_fields layer_coder ! 1) AND bf_mask (bc_fields layer_coder ! 0) = 0 \<and>
   highestBit layer_coder = 43"
proof -
  have "length (bc_fields layer_coder) = 3 \<and> highestBit layer_coder = 43"
    by (simp add: layer_coder_def cpp_eval)
  then show ?thesis using coder_invariant [OF layer_coder_ok] by auto
qed

text \<open>Access by name: a successful \<open>set\<close> of one name leaves the value of every other name
  unchanged, and (when the field's limits fit an \<open>int\<close>) reading the name gives the value.\<close>

theorem coder_set_by_name:
  assumes "BitFieldCoder_new s = Inr c" and "length (bc_fields c) < 2 ^ 32"
    and set: "bc_set c x nam v = Inr y"
  shows "(\<forall>m. m \<noteq> nam \<longrightarrow> bc_get c y m = bc_get c x m) \<and>
    (\<exists>f \<in> set (bc_fields c). bf_name f = nam \<and> bc_get c y nam = Inr (bf_trunc f v) \<and>
       (bf_rep f v \<longrightarrow> bc_get c y nam = Inr v))"
proof -
  have cwf: "coder_wf c" by (rule BitFieldCoder_new_wf [OF assms(1)])
  then have wf: "fields_wf (bc_fields c)" by (simp add: coder_wf_def)
  obtain i where i: "bc_map c nam = Some i"
    using set by (auto simp: bc_set_def bc_index_def split: option.splits)
  let ?f = "bc_fields c ! unat i"
  have k: "unat i < length (bc_fields c)" "bf_name ?f = nam"
    using coder_fields_at [OF cwf i assms(2)] by auto
  have s: "bf_set ?f x v = Inr y"
    using set k by (simp add: bc_set_def bc_index_def i fields_at_def)
  have fwf: "bf_wf ?f" using wf k by (auto simp: fields_wf_def)
  have get: "bc_get c y nam = Inr (bf_trunc ?f v)"
    using k bf_value_set [OF fwf s] by (simp add: bc_get_def bc_index_def i fields_at_def)
  have "bc_get c y m = bc_get c x m" if m: "m \<noteq> nam" for m
  proof (cases "bc_map c m")
    case None
    then show ?thesis by (simp add: bc_get_def bc_index_def)
  next
    case (Some j)
    then have j: "unat j < length (bc_fields c)" "bf_name (bc_fields c ! unat j) = m"
      using coder_fields_at [OF cwf Some assms(2)] by auto
    then have "unat i \<noteq> unat j" using k m by metis
    then have "bf_mask ?f AND bf_mask (bc_fields c ! unat j) = 0"
      using k j fields_wf_disjoint [OF wf, of "unat i" "unat j"] by blast
    then show ?thesis
      using Some j bf_value_frame [OF s] by (simp add: bc_get_def bc_index_def fields_at_def)
  qed
  then show ?thesis using get k bf_trunc_id [OF fwf] by (metis nth_mem)
qed

theorem coder_set_by_name_witness:
  "bc_set layer_coder 5 ''system'' (- 3) = Inr 645 \<and> bc_get layer_coder 645 ''layer'' = Inr 5"
proof -
  have n: "length (bc_fields layer_coder) < 2 ^ 32"
    and g: "bc_get layer_coder 5 ''layer'' = Inr 5"
    and s: "bc_set layer_coder 5 ''system'' (- 3) = Inr 645"
    by (simp_all add: layer_coder_def cpp_eval)
  show ?thesis using coder_set_by_name [OF layer_coder_ok n s] s g by auto
qed

text \<open>All fields of a coder can be written one after the other and then all be read back.\<close>

theorem coder_write_all:
  assumes "BitFieldCoder_new s = Inr c" and "length vs = length (bc_fields c)"
    and "\<forall>i < length vs. bf_ok (bc_fields c ! i) \<and> bf_rep (bc_fields c ! i) (vs ! i)"
  shows "\<exists>y. foldE (\<lambda>x (f, v). bf_set f x v) x (zip (bc_fields c) vs) = Inr y \<and>
    (\<forall>i < length vs. bc_get_idx c y i = Inr (vs ! i))"
proof -
  have wf: "fields_wf (bc_fields c)"
    using BitFieldCoder_new_wf [OF assms(1)] by (simp add: coder_wf_def)
  have "\<forall>(f, v) \<in> set (zip (bc_fields c) vs). bf_ok f \<and> bf_rep f v"
    using assms(2,3) by (auto simp: set_zip)
  moreover have "sorted_wrt (\<lambda>(f, v) (g, w). bf_mask f AND bf_mask g = 0) (zip (bc_fields c) vs)"
    using wf assms(2) by (auto simp: sorted_wrt_iff_nth_less fields_wf_disjoint)
  ultimately obtain y where y: "foldE (\<lambda>x (f, v). bf_set f x v) x (zip (bc_fields c) vs) = Inr y"
    and get: "\<forall>(f, v) \<in> set (zip (bc_fields c) vs). bf_value f y = v"
    using bf.put_all_get [of "zip (bc_fields c) vs" x] by blast
  have "bc_get_idx c y i = Inr (vs ! i)" if "i < length vs" for i
  proof -
    have "(bc_fields c ! i, vs ! i) \<in> set (zip (bc_fields c) vs)"
      using that assms(2) by (auto simp: set_zip)
    then have "bf_value (bc_fields c ! i) y = vs ! i" using get by force
    then show ?thesis using that assms(2) by (simp add: bc_get_idx_def fields_at_def)
  qed
  then show ?thesis using y by blast
qed

theorem coder_write_all_witness:
  "\<exists>y. foldE (\<lambda>x (f, v). bf_set f x v) 0 (zip (bc_fields layer_coder) [100, - 4, 2000]) = Inr y \<and>
    (\<forall>i < 3. bc_get_idx layer_coder y i = Inr ([100, - 4, 2000] ! i))"
proof -
  have "length [100, - 4, 2000 :: i64] = length (bc_fields layer_coder)"
    by (simp add: layer_coder_def cpp_eval)
  moreover have "bf_ok (bc_fields layer_coder ! i) \<and>
      bf_rep (bc_fields layer_coder ! i) ([100, - 4, 2000] ! i)" if i: "i < 3" for i
  proof -
    consider "i = 0" | "i = 1" | "i = 2" using i by linarith
    then show ?thesis
      by cases (simp_all add: layer_coder_def cpp_eval bf_ok_def bf_wf_def bf_rep_def bf_min_def
          bf_max_def mask_eq_exp_minus_1 push_bit_eq_mult)
  qed
  moreover have "length [100, - 4, 2000 :: i64] = 3" by simp
  ultimately show ?thesis
    using coder_write_all [OF layer_coder_ok, of "[100, - 4, 2000]" 0] by metis
qed

end
