(* ===== verification/BitField64.thy ===== *)
theory BitField64
  imports BitFieldCoder
begin

text \<open>
  \<open>BitField64\<close>: a 64-bit value together with the coder that describes it, written through
  \<open>BitFieldValue\<close> proxies. Sources: \<open>DDCore/include/DDSegmentation/BitField64.h\<close> and
  \<open>DDCore/src/segmentations/BitField64.cpp\<close>. A proxy is a reference to the value and to one
  element; reading and assigning through it are the operations below. Ownership of the coder
  (\<open>_owner\<close>) has no effect on values and is left out.
\<close>

unbundle bit_operations_syntax

record BitField64 =
  bv_value :: u64
  bv_coder :: BitFieldCoder

definition BitField64_new :: "string \<Rightarrow> BitField64 cpp" where
  "BitField64_new initString =
     bindE (BitFieldCoder_new initString) (\<lambda>c. Inr \<lparr>bv_value = 0, bv_coder = c\<rparr>)"

definition BitField64_from_coder :: "BitFieldCoder \<Rightarrow> BitField64" where
  "BitField64_from_coder c = \<lparr>bv_value = 0, bv_coder = c\<rparr>"

definition setValue :: "BitField64 \<Rightarrow> u64 \<Rightarrow> BitField64" where
  "setValue b v = b\<lparr>bv_value := bc_joined (bv_coder b) AND v\<rparr>"

definition setValue_words :: "BitField64 \<Rightarrow> u32 \<Rightarrow> u32 \<Rightarrow> BitField64" where
  "setValue_words b low_Word high_Word =
     setValue b ((ucast low_Word AND 0xffffffff) OR push_bit 32 (ucast high_Word AND 0xffffffff))"

definition bv_reset :: "BitField64 \<Rightarrow> BitField64" where
  "bv_reset b = b\<lparr>bv_value := 0\<rparr>"

definition bv_lowWord :: "BitField64 \<Rightarrow> u32" where
  "bv_lowWord b = ucast (bv_value b AND 0xffffffff)"

definition bv_highWord :: "BitField64 \<Rightarrow> u32" where
  "bv_highWord b = ucast (drop_bit 32 (bv_value b))"

text \<open>
  \<open>operator[](idx)\<close> uses the unchecked \<open>vector::operator[]\<close>: an index out of range is undefined.
  \<open>operator[](name)\<close> looks the index up first and throws for an unknown name.
\<close>

definition element_idx :: "BitField64 \<Rightarrow> nat \<Rightarrow> BitFieldElement cpp" where
  "element_idx b idx = (if idx < length (bc_fields (bv_coder b)) then Inr (bc_fields (bv_coder b) ! idx)
                        else Inl (UndefinedBehaviour ''vector::operator[]''))"

definition element_name :: "BitField64 \<Rightarrow> string \<Rightarrow> BitFieldElement cpp" where
  "element_name b nam = bindE (bc_index (bv_coder b) nam) (element_idx b)"

definition proxy_value :: "BitField64 \<Rightarrow> BitFieldElement \<Rightarrow> i64" where
  "proxy_value b f = bf_value f (bv_value b)"

definition proxy_assign :: "BitField64 \<Rightarrow> BitFieldElement \<Rightarrow> i64 \<Rightarrow> BitField64 cpp" where
  "proxy_assign b f inval = bindE (bf_set f (bv_value b) inval) (\<lambda>v. Inr (b\<lparr>bv_value := v\<rparr>))"

definition bv_get :: "BitField64 \<Rightarrow> string \<Rightarrow> i64 cpp" where
  "bv_get b nam = bindE (element_name b nam) (\<lambda>f. Inr (proxy_value b f))"

definition bv_assign :: "BitField64 \<Rightarrow> string \<Rightarrow> i64 \<Rightarrow> BitField64 cpp" where
  "bv_assign b nam inval = bindE (element_name b nam) (\<lambda>f. proxy_assign b f inval)"

text \<open>The loop asks the coder for the value of every index, which throws out of range only.\<close>

definition bv_valueString :: "BitField64 \<Rightarrow> string cpp" where
  "bv_valueString b =
     bindE (foldE (\<lambda>ss i. bindE (bc_get_idx (bv_coder b) (bv_value b) i) (\<lambda>v.
              Inr (ss @ [bf_name (bc_fields (bv_coder b) ! i) @ '':'' @ show_int (sint v)])))
            [] [0..<length (bc_fields (bv_coder b))])
       (\<lambda>ss. Inr (join_comma ss))"

section \<open>Lemmas\<close>

text \<open>Bits outside the description are never set.\<close>

definition bv_wf :: "BitField64 \<Rightarrow> bool" where
  "bv_wf b \<longleftrightarrow> coder_wf (bv_coder b) \<and> bv_value b AND NOT (bc_joined (bv_coder b)) = 0"

lemma bv_wf_new: "BitField64_new s = Inr b \<Longrightarrow> bv_wf b"
  by (auto simp: BitField64_new_def bv_wf_def bindE_Inr_iff intro: BitFieldCoder_new_wf)

lemma bv_wf_setValue: "bv_wf b \<Longrightarrow> bv_wf (setValue b v)"
  by (auto simp: bv_wf_def setValue_def bit_eq_iff bit_simps)



lemma bv_wf_assign:
  assumes "bv_wf b" and "f \<in> set (bc_fields (bv_coder b))" and "proxy_assign b f v = Inr b'"
  shows "bv_wf b'"
proof -
  obtain y where y: "bf_set f (bv_value b) v = Inr y" "b' = b\<lparr>bv_value := y\<rparr>"
    using assms(3) by (auto simp: proxy_assign_def bindE_Inr_iff)
  have sub: "bit (bc_joined (bv_coder b)) i" if "bit (bf_mask f) i" for i
    using assms(1,2) that by (auto simp: bv_wf_def coder_wf_joined bit_masks_or)
  have "\<not> (bit y i \<and> \<not> bit (bc_joined (bv_coder b)) i)" for i
  proof -
    have "\<not> (bit (bv_value b) i \<and> \<not> bit (bc_joined (bv_coder b)) i)"
    proof -
      have "\<not> bit (bv_value b AND NOT (bc_joined (bv_coder b))) i"
        using assms(1) by (simp add: bv_wf_def)
      then show ?thesis by (auto simp: bit_simps dest: bit_imp_le_length)
    qed
    then show ?thesis using y(1) sub by (auto simp: bf_set_Inr bit_simps)
  qed
  then have "y AND NOT (bc_joined (bv_coder b)) = 0" by (auto simp: bit_eq_iff bit_simps)
  then show ?thesis using assms(1) y(2) by (simp add: bv_wf_def)
qed

lemma element_name_mem: "element_name b nam = Inr f \<Longrightarrow> f \<in> set (bc_fields (bv_coder b))"
  by (auto simp: element_name_def element_idx_def bindE_Inr_iff split: if_splits)

lemma bv_wf_bv_assign: "bv_wf b \<Longrightarrow> bv_assign b nam v = Inr b' \<Longrightarrow> bv_wf b'"
  by (auto simp: bv_assign_def bindE_Inr_iff intro: bv_wf_assign element_name_mem)

lemma valueString_fold:
  "n \<le> length (bc_fields (bv_coder b)) \<Longrightarrow>
   foldE (\<lambda>ss i. bindE (bc_get_idx (bv_coder b) (bv_value b) i) (\<lambda>v.
              Inr (ss @ [bf_name (bc_fields (bv_coder b) ! i) @ '':'' @ show_int (sint v)]))) [] [0..<n]
   = Inr (map (\<lambda>f. bf_name f @ '':'' @ show_int (sint (bf_value f (bv_value b))))
            (take n (bc_fields (bv_coder b))))"
  by (induction n) (auto simp: foldE_append bc_get_idx_def fields_at_def take_Suc_conv_app_nth)

section \<open>Properties\<close>

text \<open>C5. \<open>BitField64\<close> agrees with its coder: reading, writing and printing through the bit field
  is reading, writing and printing the stored word with the coder, for every name whose index is
  in range.\<close>

theorem BitField64_refines_coder:
  assumes "bv_wf b" and "length (bc_fields (bv_coder b)) < 2 ^ 32"
  shows "bv_get b nam = bc_get (bv_coder b) (bv_value b) nam \<and>
    bv_assign b nam v = map_sum id (\<lambda>y. b\<lparr>bv_value := y\<rparr>) (bc_set (bv_coder b) (bv_value b) nam v) \<and>
    bv_valueString b = Inr (bc_valueString (bv_coder b) (bv_value b))"
proof -
  have vs: "bv_valueString b = Inr (bc_valueString (bv_coder b) (bv_value b))"
    using valueString_fold [OF order.refl, of b] by (simp add: bv_valueString_def bc_valueString_def)
  have el: "element_name b nam = bindE (bc_index (bv_coder b) nam) (fields_at (bv_coder b))"
  proof (cases "bc_map (bv_coder b) nam")
    case (Some i)
    then have "unat i < length (bc_fields (bv_coder b))"
      using coder_fields_at [of "bv_coder b" nam i] assms by (auto simp: bv_wf_def)
    then show ?thesis
      by (simp add: element_name_def element_idx_def fields_at_def bc_index_def Some)
  qed (simp add: element_name_def bc_index_def)
  show ?thesis
    by (simp add: vs bv_get_def bv_assign_def el bc_get_def bc_set_def proxy_value_def proxy_assign_def)
      (simp add: bindE_def split: sum.splits)
qed

theorem BitField64_refines_coder_witness:
  "bv_get (BitField64_from_coder layer_coder) ''layer'' = bc_get layer_coder 0 ''layer''"
proof -
  have "coder_wf layer_coder" by (rule BitFieldCoder_new_wf [OF layer_coder_ok])
  then have "bv_wf (BitField64_from_coder layer_coder)"
    by (simp add: bv_wf_def BitField64_from_coder_def)
  moreover have "length (bc_fields (bv_coder (BitField64_from_coder layer_coder))) < 2 ^ 32"
    by (simp add: BitField64_from_coder_def layer_coder_def cpp_eval)
  ultimately show ?thesis
    using BitField64_refines_coder [of "BitField64_from_coder layer_coder" "''layer''"]
    by (simp add: BitField64_from_coder_def)
qed

text \<open>No operation of a bit field ever sets a bit outside the description it was built from.\<close>

theorem BitField64_confined:
  assumes "BitField64_new s = Inr b0" and "foldE (\<lambda>b (nam, v). bv_assign b nam v) b0 nvs = Inr b"
  shows "bv_value b AND NOT (bc_joined (bv_coder b)) = 0 \<and>
    bv_value (setValue b x) AND NOT (bc_joined (bv_coder b)) = 0"
proof -
  have "bv_wf b"
    using assms(2) bv_wf_new [OF assms(1)]
    by (rule foldE_invariant) (auto intro: bv_wf_bv_assign split: prod.splits)
  then show ?thesis using bv_wf_setValue [of b x] by (simp add: bv_wf_def setValue_def)
qed

theorem BitField64_confined_witness:
  "bv_value (setValue (BitField64_from_coder layer_coder) (- 1)) AND NOT (bc_joined layer_coder) = 0"
proof -
  have n: "BitField64_new ''layer:7,system:-3,theta:32:11'' = Inr (BitField64_from_coder layer_coder)"
    by (simp add: BitField64_new_def layer_coder_ok BitField64_from_coder_def)
  show ?thesis using BitField64_confined [OF n, of "[]" _ "- 1"] by (simp add: BitField64_from_coder_def)
qed

end
