(* ===== verification/StdMap.thy ===== *)
theory StdMap
  imports Prelude "HOL-Library.Char_ord" "HOL-Library.List_Lexorder"
begin

text \<open>
  \<open>std::map\<close> as a list of key/value pairs in increasing order of the keys: the order in which the
  code iterates over it. The contract of an ordered container is the locale \<open>ordered_container\<close>;
  the lemmas about sequences of insertions are proved in it once and used through its
  interpretation on the list operations.
\<close>

type_synonym ('k, 'v) std_map = "('k \<times> 'v) list"

definition map_ok :: "('k::linorder, 'v) std_map \<Rightarrow> bool" where
  "map_ok m \<longleftrightarrow> sorted_wrt (<) (List.map fst m)"

text \<open>\<open>m[k] = v\<close>: overwrites the value of a present key.\<close>

fun map_assign :: "'k::linorder \<Rightarrow> 'v \<Rightarrow> ('k, 'v) std_map \<Rightarrow> ('k, 'v) std_map" where
  "map_assign k v [] = [(k, v)]"
| "map_assign k v ((k', v') # m) =
     (if k < k' then (k, v) # (k', v') # m
      else if k = k' then (k, v) # m
      else (k', v') # map_assign k v m)"

text \<open>\<open>m.emplace(k, v)\<close>: keeps the value of a present key and reports whether it inserted.\<close>

definition map_emplace :: "'k::linorder \<Rightarrow> 'v \<Rightarrow> ('k, 'v) std_map \<Rightarrow> ('k, 'v) std_map \<times> bool" where
  "map_emplace k v m = (case map_of m k of None \<Rightarrow> (map_assign k v m, True) | Some _ \<Rightarrow> (m, False))"

definition map_erase :: "'k::linorder \<Rightarrow> ('k, 'v) std_map \<Rightarrow> ('k, 'v) std_map" where
  "map_erase k m = filter (\<lambda>(k', v). k' \<noteq> k) m"

lemma map_ok_Nil [simp]: "map_ok []"
  by (simp add: map_ok_def)

lemma map_ok_Cons: "map_ok ((k, v) # m) \<longleftrightarrow> (\<forall>k' \<in> fst ` set m. k < k') \<and> map_ok m"
  by (simp add: map_ok_def)

lemma map_ok_distinct: "map_ok m \<Longrightarrow> distinct (List.map fst m)"
  by (auto simp: map_ok_def strict_sorted_iff)

lemma map_of_assign [simp]: "map_of (map_assign k v m) = (map_of m)(k \<mapsto> v)"
  by (induction k v m rule: map_assign.induct) (auto simp: fun_eq_iff)

lemma keys_assign: "fst ` set (map_assign k v m) = insert k (fst ` set m)"
  by (induction k v m rule: map_assign.induct) auto

lemma map_ok_assign [simp]: "map_ok m \<Longrightarrow> map_ok (map_assign k v m)"
  by (induction k v m rule: map_assign.induct) (auto simp: map_ok_Cons keys_assign)

lemma map_of_erase [simp]: "map_of (map_erase k m) = (map_of m)(k := None)"
  by (induction m) (auto simp: map_erase_def fun_eq_iff)

lemma map_ok_erase [simp]: "map_ok m \<Longrightarrow> map_ok (map_erase k m)"
  by (induction m) (auto simp: map_erase_def map_ok_Cons)

lemma map_of_emplace: "map_of (fst (map_emplace k v m)) = (map_of m)(k \<mapsto> case map_of m k of None \<Rightarrow> v | Some w \<Rightarrow> w)"
  by (auto simp: map_emplace_def split: option.splits)

lemma map_ok_emplace: "map_ok m \<Longrightarrow> map_ok (fst (map_emplace k v m))"
  by (simp add: map_emplace_def split: option.splits)

lemma map_emplace_True: "map_emplace k v m = (m', True) \<longleftrightarrow> map_of m k = None \<and> m' = map_assign k v m"
  by (auto simp: map_emplace_def split: option.splits)

lemma map_emplace_False: "map_emplace k v m = (m', False) \<longleftrightarrow> map_of m k \<noteq> None \<and> m' = m"
  by (auto simp: map_emplace_def split: option.splits)

lemma map_of_mem: "map_ok m \<Longrightarrow> map_of m k = Some v \<longleftrightarrow> (k, v) \<in> set m"
  by (simp add: map_ok_distinct)

text \<open>Two ordered lists with the same contents are equal: the order carries no information.\<close>

lemma map_ok_ext: "\<lbrakk>map_ok m; map_ok m'; map_of m = map_of m'\<rbrakk> \<Longrightarrow> m = m'"
proof (induction m arbitrary: m')
  case Nil
  then show ?case by (cases m') (auto simp: fun_eq_iff split: if_splits)
next
  case (Cons p m)
  obtain k v where p: "p = (k, v)" by (cases p)
  obtain k' v' n where m': "m' = (k', v') # n"
  proof (cases m')
    case Nil
    then have "map_of ((k, v) # m) k = None" using Cons.prems(3) p by (metis map_of.simps(1))
    then show ?thesis by simp
  next
    case (Cons q n)
    then show ?thesis using that by (cases q) auto
  qed
  have le: "k'' \<le> j" if "map_ok ((k'', w) # l)" "map_of ((k'', w) # l) j \<noteq> None"
    for k'' j :: 'a and w :: 'b and l
  proof -
    from that(2) have "j \<in> fst ` set ((k'', w) # l)" by (simp only: map_of_eq_None_iff not_not)
    then show ?thesis using that(1) by (auto simp: map_ok_Cons intro: less_imp_le)
  qed
  have eq: "map_of ((k, v) # m) j = map_of ((k', v') # n) j" for j using Cons.prems(3) p m' by metis
  have "k \<le> k'" using le [of k v m k'] Cons.prems(1) p eq [of k'] by simp
  moreover have "map_of ((k', v') # n) k \<noteq> None" using eq [of k] by (metis map_of_Cons_code(2) option.distinct(1))
  then have "k' \<le> k" using le [of k' v' n k] Cons.prems(2) m' by simp
  ultimately have kk: "k = k'" by simp
  then have vv: "v = v'" using eq [of k] by simp
  have "map_of m j = map_of n j" for j
  proof (cases "j = k")
    case True
    have "k \<notin> fst ` set m" "k' \<notin> fst ` set n"
      using Cons.prems(1,2) by (auto simp: p m' map_ok_Cons)
    then show ?thesis using True kk by (metis map_of_eq_None_iff)
  next
    case False
    then show ?thesis using eq [of j] kk by simp
  qed
  then have "m = n" using Cons.IH [of n] Cons.prems(1,2) by (auto simp: p m' map_ok_Cons)
  then show ?case using p m' kk vv by simp
qed

subsection \<open>The contract of an ordered container\<close>

locale ordered_container =
  fixes ok :: "'m \<Rightarrow> bool"
    and empty :: 'm
    and assign :: "'k \<Rightarrow> 'v \<Rightarrow> 'm \<Rightarrow> 'm"
    and find :: "'m \<Rightarrow> 'k \<Rightarrow> 'v option"
  assumes ok_empty: "ok empty"
    and ok_assign: "ok m \<Longrightarrow> ok (assign k v m)"
    and find_empty: "find empty = Map.empty"
    and find_assign: "find (assign k v m) = (find m)(k \<mapsto> v)"
    and ext: "\<lbrakk>ok m; ok m'; find m = find m'\<rbrakk> \<Longrightarrow> m = m'"
begin

definition of_pairs :: "('k \<times> 'v) list \<Rightarrow> 'm" where
  "of_pairs ps = foldl (\<lambda>m (k, v). assign k v m) empty ps"

lemma of_pairs_snoc: "of_pairs (ps @ [(k, v)]) = assign k v (of_pairs ps)"
  by (simp add: of_pairs_def)

lemma ok_of_pairs: "ok (of_pairs ps)"
proof (induction ps rule: rev_induct)
  case (snoc p ps)
  then show ?case by (cases p) (simp add: of_pairs_snoc ok_assign)
qed (simp add: of_pairs_def ok_empty)

lemma find_of_pairs: "find (of_pairs ps) = map_of (rev ps)"
proof (induction ps rule: rev_induct)
  case (snoc p ps)
  then show ?case by (cases p) (simp add: of_pairs_snoc find_assign)
qed (simp add: of_pairs_def find_empty)

lemma of_pairs_perm:
  assumes "distinct (map fst ps)" and "distinct (map fst qs)" and "set ps = set qs"
  shows "of_pairs ps = of_pairs qs"
proof (rule ext [OF ok_of_pairs ok_of_pairs])
  have "map_of (rev ps) = map_of (rev qs)"
    by (rule map_of_inject_set [THEN iffD2]) (use assms in \<open>simp_all add: rev_map [symmetric]\<close>)
  then show "find (of_pairs ps) = find (of_pairs qs)" by (simp add: find_of_pairs)
qed

lemma assign_commute:
  assumes "k \<noteq> l" and "ok m"
  shows "assign k v (assign l w m) = assign l w (assign k v m)"
  by (rule ext) (use assms in \<open>simp_all add: ok_assign find_assign fun_upd_twist\<close>)

lemma assign_twice: "ok m \<Longrightarrow> assign k v (assign k w m) = assign k v m"
  by (rule ext) (simp_all add: ok_assign find_assign)

end

interpretation sm: ordered_container map_ok "[]" map_assign map_of
  by unfold_locales (auto intro: map_ok_ext)

end
