(* ===== verification/IDDescriptor.thy ===== *)
theory IDDescriptor
  imports BitFieldCoder
begin

text \<open>
  \<open>dd4hep::IDDescriptor\<close>: the named description of a cell or volume identifier; it owns a
  \<open>BitFieldCoder\<close> and encodes lists of (field name, value) pairs. Source:
  \<open>DDCore/src/IDDescriptor.cpp\<close>, \<open>reverseBits\<close> of \<open>DDCore/include/Parsers/Primitives.h\<close>.

  A handle is an optional object; the pointers of the field map, which point into the
  decoder of the same object and are rebuilt with it, are the elements they point to.
\<close>

unbundle bit_operations_syntax

type_synonym VolumeID = u64

record IDDescriptorObject =
  idd_name :: string
  idd_description :: string
  idd_decoder :: BitFieldCoder
  idd_fieldIDs :: "(nat \<times> string) list"
  idd_fieldMap :: "(string \<times> BitFieldElement) list"

type_synonym IDDescriptor = "IDDescriptorObject option"

definition idd_construct :: "IDDescriptorObject \<Rightarrow> string \<Rightarrow> IDDescriptorObject" where
  "idd_construct p dsc =
     (let bf = bc_fields (idd_decoder p) in
      p\<lparr>idd_description := dsc,
        idd_fieldIDs := map (\<lambda>i. (i, bf_name (bf ! i))) [0..<length bf],
        idd_fieldMap := map (\<lambda>f. (bf_name f, f)) bf\<rparr>)"

definition IDDescriptor_new :: "string \<Rightarrow> string \<Rightarrow> IDDescriptor cpp" where
  "IDDescriptor_new nam description =
     bindE (BitFieldCoder_new description) (\<lambda>c.
       Inr (Some (idd_construct \<lparr>idd_name = nam, idd_description = description, idd_decoder = c,
                                 idd_fieldIDs = [], idd_fieldMap = []\<rparr> description)))"

definition idd_rebuild :: "IDDescriptorObject \<Rightarrow> string \<Rightarrow> IDDescriptorObject cpp" where
  "idd_rebuild p description =
     bindE (BitFieldCoder_new description) (\<lambda>c. Inr (idd_construct (p\<lparr>idd_decoder := c\<rparr>) description))"

definition idd_toString :: "IDDescriptor \<Rightarrow> string" where
  "idd_toString h = (case h of Some p \<Rightarrow> idd_name p | None \<Rightarrow> ''----'')"

definition idd_fieldDescription :: "IDDescriptorObject \<Rightarrow> string" where
  "idd_fieldDescription p = fieldDescription (idd_decoder p)"

definition idd_maxBit :: "IDDescriptorObject \<Rightarrow> u32" where
  "idd_maxBit p = highestBit (idd_decoder p)"

definition invalid_idd :: cpp_error where
  "invalid_idd = RuntimeError
     ''IDDescriptor: dd4hep: Attempt to access an invalid IDDescriptor object.''"

definition no_such_field :: "IDDescriptorObject \<Rightarrow> string \<Rightarrow> cpp_error" where
  "no_such_field p field_name = RuntimeError (''IDDescriptor: dd4hep: '' @ idd_name p @
     '': This ID descriptor has no field with the name: '' @ field_name)"

definition idd_ids :: "IDDescriptor \<Rightarrow> (nat \<times> string) list cpp" where
  "idd_ids h = (case h of Some p \<Rightarrow> Inr (idd_fieldIDs p) | None \<Rightarrow> Inl invalid_idd)"

definition idd_fields :: "IDDescriptor \<Rightarrow> (string \<times> BitFieldElement) list cpp" where
  "idd_fields h = (case h of Some p \<Rightarrow> Inr (idd_fieldMap p) | None \<Rightarrow> Inl invalid_idd)"

text \<open>Both searches take the first entry with the name.\<close>

definition idd_field :: "IDDescriptor \<Rightarrow> string \<Rightarrow> BitFieldElement cpp" where
  "idd_field h field_name =
     bindE (idd_fields h) (\<lambda>fm.
       case find (\<lambda>i. fst i = field_name) fm of
         Some i \<Rightarrow> Inr (snd i)
       | None \<Rightarrow> Inl (no_such_field (the h) field_name))"

definition idd_field_at :: "IDDescriptor \<Rightarrow> nat \<Rightarrow> BitFieldElement cpp" where
  "idd_field_at h identifier =
     bindE (idd_fields h) (\<lambda>fm.
       if identifier < length fm then Inr (snd (fm ! identifier))
       else Inl (UndefinedBehaviour ''vector::operator[]''))"

definition idd_fieldID :: "IDDescriptor \<Rightarrow> string \<Rightarrow> nat cpp" where
  "idd_fieldID h field_name =
     bindE (idd_ids h) (\<lambda>fm.
       case find (\<lambda>i. snd i = field_name) fm of
         Some i \<Rightarrow> Inr (fst i)
       | None \<Rightarrow> Inl (no_such_field (the h) field_name))"

definition idd_get_mask :: "IDDescriptor \<Rightarrow> (string \<times> i32) list \<Rightarrow> VolumeID cpp" where
  "idd_get_mask h id_vector =
     foldE (\<lambda>msk i. bindE (idd_field h (fst i)) (\<lambda>fld. Inr (msk OR bf_mask fld))) 0 id_vector"

text \<open>
  The contribution of one field to an identifier: the value is pushed through the field's own
  decoding, so that it is truncated to the field's width, never checked.
\<close>

definition encode_field :: "BitFieldElement \<Rightarrow> VolumeID \<Rightarrow> VolumeID" where
  "encode_field fld val =
     push_bit (bf_off fld) (bf_value fld (push_bit (bf_off fld) val)) AND bf_mask fld"

definition idd_encode :: "IDDescriptor \<Rightarrow> (string \<times> i32) list \<Rightarrow> VolumeID cpp" where
  "idd_encode h id_vector =
     foldE (\<lambda>vid i. bindE (idd_field h (fst i)) (\<lambda>fld. Inr (vid OR encode_field fld (scast (snd i)))))
       0 id_vector"

text \<open>The static \<open>encode\<close> of one field; its error branch formats \<open>%s\<close> without an argument.\<close>

definition idd_encode_static :: "BitFieldElement option \<Rightarrow> VolumeID \<Rightarrow> VolumeID cpp" where
  "idd_encode_static fld v = (case fld of
       Some f \<Rightarrow> Inr (encode_field f v)
     | None \<Rightarrow> Inl (UndefinedBehaviour ''format argument missing''))"

definition reverseBits :: "u64 \<Rightarrow> u64" where
  "reverseBits num =
     foldl (\<lambda>reverse_num i. if num AND push_bit i 1 \<noteq> 0
                            then reverse_num OR push_bit (63 - i) 1 else reverse_num) 0 [0..<64]"

definition idd_encode_reverse :: "IDDescriptor \<Rightarrow> (string \<times> i32) list \<Rightarrow> VolumeID cpp" where
  "idd_encode_reverse h id_vector = bindE (idd_encode h id_vector) (\<lambda>v. Inr (reverseBits v))"

text \<open>\<open>access()\<close> checks the handle.\<close>

definition idd_access :: "IDDescriptor \<Rightarrow> IDDescriptorObject cpp" where
  "idd_access h = (case h of Some p \<Rightarrow> Inr p
     | None \<Rightarrow> Inl (RuntimeError
         ''Attempt to access invalid object of type dd4hep::IDDescriptorObject [Invalid Handle]''))"

definition idd_decodeFields :: "IDDescriptor \<Rightarrow> VolumeID \<Rightarrow> (BitFieldElement \<times> VolumeID) list cpp" where
  "idd_decodeFields h vid =
     bindE (idd_access h) (\<lambda>p. Inr (map (\<lambda>f. (f, bf_value f vid)) (bc_fields (idd_decoder p))))"

text \<open>\<open>setw(4)\<close>, \<open>setfill('0')\<close>, \<open>hex\<close>, \<open>right\<close> for the value; the last blank is cut off.\<close>

definition pad4 :: "string \<Rightarrow> string" where
  "pad4 s = replicate (4 - length s) CHR ''0'' @ s"

definition idd_str_masked :: "IDDescriptor \<Rightarrow> VolumeID \<Rightarrow> VolumeID \<Rightarrow> string cpp" where
  "idd_str_masked h vid msk =
     bindE (idd_access h) (\<lambda>p. Inr (butlast (concat (map (\<lambda>f.
       if msk AND bf_mask f = 0 then ''''
       else bf_name f @ '':'' @ pad4 (show_hex (unat (bf_value f vid))) @ '' '')
       (bc_fields (idd_decoder p))))))"

definition idd_str :: "IDDescriptor \<Rightarrow> VolumeID \<Rightarrow> string cpp" where
  "idd_str h vid =
     bindE (idd_access h) (\<lambda>p. Inr (butlast (concat (map (\<lambda>f.
       bf_name f @ '':'' @ pad4 (show_hex (unat (bf_value f vid))) @ '' '')
       (bc_fields (idd_decoder p))))))"

lemmas [cpp_eval] = idd_construct_def IDDescriptor_new_def idd_ids_def idd_fields_def idd_field_def
  idd_fieldID_def idd_get_mask_def encode_field_def idd_encode_def idd_access_def
  idd_decodeFields_def

section \<open>Lemmas\<close>

text \<open>The invariant of a descriptor: its maps mirror the decoder it owns.\<close>

definition idd_wf :: "IDDescriptorObject \<Rightarrow> bool" where
  "idd_wf p \<longleftrightarrow> coder_wf (idd_decoder p) \<and> p = idd_construct p (idd_description p)"

lemma idd_construct_idem: "idd_construct (idd_construct p d) d = idd_construct p d"
  by (simp add: idd_construct_def Let_def)

lemma idd_wf_construct: "coder_wf (idd_decoder p) \<Longrightarrow> idd_wf (idd_construct p d)"
  by (simp add: idd_wf_def idd_construct_def Let_def)

lemma idd_wf_new: "IDDescriptor_new nam dsc = Inr (Some p) \<Longrightarrow> idd_wf p"
  by (auto simp: IDDescriptor_new_def bindE_Inr_iff BitFieldCoder_new_wf intro!: idd_wf_construct)

lemma idd_wf_rebuild: "idd_rebuild p dsc = Inr q \<Longrightarrow> idd_wf q"
  by (auto simp: idd_rebuild_def bindE_Inr_iff BitFieldCoder_new_wf intro!: idd_wf_construct)

abbreviation idd_elements :: "IDDescriptorObject \<Rightarrow> BitFieldElement list" where
  "idd_elements p \<equiv> bc_fields (idd_decoder p)"

lemma idd_construct_fieldMap:
  "idd_fieldMap (idd_construct p d) = map (\<lambda>f. (bf_name f, f)) (idd_elements p)"
  by (simp add: idd_construct_def Let_def)

lemma idd_wf_fieldMap: "idd_wf p \<Longrightarrow> idd_fieldMap p = map (\<lambda>f. (bf_name f, f)) (idd_elements p)"
  using idd_construct_fieldMap [of p "idd_description p"] by (simp add: idd_wf_def)

lemma idd_field_Inr:
  assumes "idd_wf p"
  shows "idd_field (Some p) n = Inr f \<longleftrightarrow> find (\<lambda>f. bf_name f = n) (idd_elements p) = Some f"
proof -
  have "find (\<lambda>i. fst i = n) (map (\<lambda>f. (bf_name f, f)) fs) =
      map_option (\<lambda>f. (bf_name f, f)) (find (\<lambda>f. bf_name f = n) fs)" for fs :: "BitFieldElement list"
    by (induction fs) auto
  then show ?thesis
    by (simp add: idd_field_def idd_fields_def idd_wf_fieldMap [OF assms] split: option.split)
qed

lemma idd_field_mem:
  assumes "idd_wf p" and "idd_field (Some p) n = Inr f"
  shows "f \<in> set (idd_elements p)" and "bf_name f = n" and "bf_wf f"
proof -
  have "find (\<lambda>f. bf_name f = n) (idd_elements p) = Some f"
    using assms by (simp add: idd_field_Inr)
  then show "f \<in> set (idd_elements p)" "bf_name f = n"
    by (auto simp: find_Some_iff)
  then show "bf_wf f" using assms(1) by (auto simp: idd_wf_def coder_wf_def fields_wf_def)
qed

lemma idd_fields_disjoint:
  assumes "idd_wf p" and "idd_field (Some p) n = Inr f" and "idd_field (Some p) m = Inr g" and "n \<noteq> m"
  shows "bf_mask f AND bf_mask g = 0"
proof -
  obtain i j where "i < length (idd_elements p)" "idd_elements p ! i = f"
    "j < length (idd_elements p)" "idd_elements p ! j = g"
    using assms idd_field_mem by (metis in_set_conv_nth)
  moreover have "f \<noteq> g" using assms idd_field_mem by metis
  ultimately show ?thesis
    using assms(1) fields_wf_disjoint by (metis idd_wf_def coder_wf_def)
qed

lemma bit_bf_trunc: "\<lbrakk>bf_wf f; j < bf_wid f\<rbrakk> \<Longrightarrow> bit (bf_trunc f v) j = bit v j"
proof -
  assume f: "bf_wf f" and j: "j < bf_wid f"
  then have "min (bf_wid f - 1) j = j" and "j < 64" by (auto simp: bf_wf_def)
  then show ?thesis using j by (simp add: bf_trunc_def bit_simps)
qed

text \<open>A field's contribution carries exactly the low bits of the value, at the field's place.\<close>

lemma bit_encode_field:
  assumes "bf_wf f"
  shows "bit (encode_field f v) i \<longleftrightarrow> bf_off f \<le> i \<and> i < bf_off f + bf_wid f \<and> bit v (i - bf_off f)"
proof (cases "bf_off f \<le> i \<and> i < bf_off f + bf_wid f")
  case True
  then have i: "i < 64" using assms by (auto simp: bf_wf_def)
  have "bit (bf_value f (push_bit (bf_off f) v)) (i - bf_off f) \<longleftrightarrow> bit v (i - bf_off f)"
  proof -
    have "i - bf_off f < bf_wid f" using True by linarith
    then show ?thesis
      using True i bit_bf_trunc [OF assms, of "i - bf_off f"]
      by (simp add: bf_value_trunc [OF assms]) (simp add: bit_simps)
  qed
  then show ?thesis
    using True i by (simp add: encode_field_def bit_simps bf_mask_bit [OF assms])
qed (auto simp: encode_field_def bit_simps bf_mask_bit [OF assms])

lemma encode_field_mask: "bf_wf f \<Longrightarrow> encode_field f v AND bf_mask f = encode_field f v"
  by (rule bit_eqI) (auto simp: bit_simps bit_encode_field bf_mask_bit)

lemma encode_field_other:
  assumes "bf_wf f" and "bf_mask f AND bf_mask g = 0"
  shows "encode_field f v AND bf_mask g = 0"
proof -
  have "encode_field f v AND bf_mask g = encode_field f v AND (bf_mask f AND bf_mask g)"
    by (subst encode_field_mask [OF assms(1), symmetric]) (simp add: and.assoc)
  then show ?thesis using assms(2) by simp
qed

lemma bf_value_encode:
  assumes "bf_wf f" and "x AND bf_mask f = encode_field f v"
  shows "bf_value f x = bf_trunc f v"
proof -
  have "bf_value f x = bf_value f (encode_field f v)"
    using assms by (intro bf_value_cong) (simp_all add: encode_field_mask)
  also have "\<dots> = bf_trunc f v"
    unfolding bf_value_trunc [OF assms(1)]
    using assms(1) by (intro bf_trunc_eqI) (auto simp: bit_simps bit_encode_field bf_wf_def)
  finally show ?thesis .
qed

lemma encode_value: "bf_wf f \<Longrightarrow> encode_field f (bf_value f x) = x AND bf_mask f"
  by (rule bit_eqI) (auto simp: bit_encode_field bit_simps bf_mask_bit bf_value_trunc bit_bf_trunc)

text \<open>Setting a fitting value on cleared bits is the same as or-ing its encoding in.\<close>

lemma bf_set_encode:
  "\<lbrakk>bf_wf f; bf_set f x v = Inr y; x AND bf_mask f = 0\<rbrakk> \<Longrightarrow> y = x OR encode_field f v"
proof -
  assume f: "bf_wf f" and set: "bf_set f x v = Inr y" and x: "x AND bf_mask f = 0"
  have "\<not> (bit x i \<and> bit (bf_mask f) i)" for i
    using x by (metis bit_0_eq bit_and_iff bot_apply bot_bool_def)
  then show ?thesis
    using set f by (intro bit_eqI) (auto simp: bf_set_Inr bit_simps bit_encode_field bf_mask_bit)
qed

text \<open>The fold behind \<open>encode\<close> and \<open>get_mask\<close>.\<close>

definition encode_from :: "IDDescriptor \<Rightarrow> VolumeID \<Rightarrow> (string \<times> i32) list \<Rightarrow> VolumeID cpp" where
  "encode_from h = foldE (\<lambda>vid i. bindE (idd_field h (fst i)) (\<lambda>fld. Inr (vid OR encode_field fld (scast (snd i)))))"

lemma idd_encode_from: "idd_encode h ids = encode_from h 0 ids"
  by (simp add: idd_encode_def encode_from_def)

lemma encode_from_simps [simp]:
  "encode_from h x [] = Inr x"
  "encode_from h x ((n, v) # ids) =
     bindE (idd_field h n) (\<lambda>fld. encode_from h (x OR encode_field fld (scast v)) ids)"
  by (simp_all add: encode_from_def bindE_def split: sum.split)

lemma encode_from_frame:
  assumes "idd_wf p" and "encode_from (Some p) x ids = Inr y" and "idd_field (Some p) n = Inr f"
    and "n \<notin> fst ` set ids"
  shows "y AND bf_mask f = x AND bf_mask f"
  using assms(2,4)
proof (induction ids arbitrary: x)
  case (Cons i ids)
  obtain m v where i: "i = (m, v)" by (cases i)
  then obtain g where g: "idd_field (Some p) m = Inr g"
    and y: "encode_from (Some p) (x OR encode_field g (scast v)) ids = Inr y"
    using Cons.prems by (auto simp: bindE_Inr_iff)
  have "bf_mask g AND bf_mask f = 0"
    using idd_fields_disjoint [OF assms(1) g assms(3)] Cons.prems(2) i by auto
  then have "encode_field g (scast v) AND bf_mask f = 0"
    using encode_field_other idd_field_mem(3) [OF assms(1) g] by blast
  then have "(x OR encode_field g (scast v)) AND bf_mask f = x AND bf_mask f"
    by (simp add: bit.conj_disj_distrib2)
  then show ?case using Cons.IH [OF y] Cons.prems(2) by simp
qed simp

lemma encode_from_value:
  assumes "idd_wf p" and "encode_from (Some p) x ids = Inr y" and "distinct (map fst ids)"
    and "\<forall>(n, v) \<in> set ids. \<forall>f. idd_field (Some p) n = Inr f \<longrightarrow> x AND bf_mask f = 0"
    and "(n, v) \<in> set ids" and "idd_field (Some p) n = Inr f"
  shows "y AND bf_mask f = encode_field f (scast v)"
  using assms(2-5)
proof (induction ids arbitrary: x)
  case (Cons i ids)
  obtain m w where i: "i = (m, w)" by (cases i)
  then obtain g where g: "idd_field (Some p) m = Inr g"
    and y: "encode_from (Some p) (x OR encode_field g (scast w)) ids = Inr y"
    using Cons.prems(1) by (auto simp: bindE_Inr_iff)
  note gwf = idd_field_mem(3) [OF assms(1) g]
  show ?case
  proof (cases "(n, v) = (m, w)")
    case True
    then have fg: "f = g" using g assms(6) by simp
    have "y AND bf_mask f = (x OR encode_field g (scast w)) AND bf_mask f"
      using Cons.prems(2) i True by (intro encode_from_frame [OF assms(1) y assms(6)]) auto
    also have "\<dots> = encode_field f (scast v)"
      using Cons.prems(3) i True g fg gwf by (simp add: bit.conj_disj_distrib2 encode_field_mask)
    finally show ?thesis .
  next
    case False
    then have mem: "(n, v) \<in> set ids" using Cons.prems(4) i by auto
    have "\<forall>(n, v) \<in> set ids. \<forall>f. idd_field (Some p) n = Inr f \<longrightarrow>
        (x OR encode_field g (scast w)) AND bf_mask f = 0"
    proof (clarify)
      fix n' v' f' assume n': "(n', v') \<in> set ids" and f': "idd_field (Some p) n' = Inr f'"
      have "n' \<noteq> m" using Cons.prems(2) n' i by force
      then have "bf_mask g AND bf_mask f' = 0"
        using idd_fields_disjoint [OF assms(1) g f'] by simp
      then have "encode_field g (scast w) AND bf_mask f' = 0"
        using encode_field_other gwf by blast
      moreover have "x AND bf_mask f' = 0" using Cons.prems(3) n' f' by auto
      ultimately show "(x OR encode_field g (scast w)) AND bf_mask f' = 0"
        by (simp add: bit.conj_disj_distrib2)
    qed
    then show ?thesis using Cons.IH [OF y _ _ mem] Cons.prems(2) i by simp
  qed
qed simp

text \<open>\<open>reverseBits\<close> maps bit \<open>i\<close> to bit \<open>63 - i\<close>.\<close>

lemma bit_reverse_fold:
  "n \<le> 64 \<Longrightarrow>
    bit (foldl (\<lambda>r i. if num AND push_bit i 1 \<noteq> 0 then r OR push_bit (63 - i) 1 else r) (0 :: u64) [0..<n]) k
    \<longleftrightarrow> k < 64 \<and> 63 - k < n \<and> bit num (63 - k)"
proof (induction n)
  case (Suc n)
  have "num AND push_bit n 1 \<noteq> 0 \<longleftrightarrow> bit num n"
    by (simp add: and_exp_eq_0_iff_not_bit push_bit_eq_mult)
  moreover have "bit (push_bit (63 - n) (1 :: u64)) k \<longleftrightarrow> k = 63 - n"
    by (auto simp: bit_simps)
  moreover have "k = 63 - n \<longleftrightarrow> 63 - k = n \<and> k < 64" using Suc.prems by linarith
  ultimately show ?case using Suc by (auto simp: bit_or_iff less_Suc_eq)
qed simp

lemma bit_reverseBits: "bit (reverseBits x) k \<longleftrightarrow> k < 64 \<and> bit x (63 - k)"
  using bit_reverse_fold [of 64 x k] by (auto simp: reverseBits_def)

lemma reverseBits_involution: "reverseBits (reverseBits x) = x"
  by (rule bit_eqI) (auto simp: bit_reverseBits)

lemma encode_from_total: "is_ok (encode_from h x ids) \<longleftrightarrow> (\<forall>n \<in> fst ` set ids. is_ok (idd_field h n))"
proof (induction ids arbitrary: x)
  case (Cons i ids)
  then show ?case by (cases i, cases "idd_field h (fst i)") auto
qed simp

lemma get_mask_fold:
  assumes "idd_wf p"
  shows "foldE (\<lambda>msk i. bindE (idd_field (Some p) (fst i)) (\<lambda>fld. Inr (msk OR bf_mask fld))) m ids = Inr m'
    \<Longrightarrow> encode_from (Some p) x ids = Inr y \<Longrightarrow> x AND NOT m = 0 \<Longrightarrow> y AND NOT m' = 0"
proof (induction ids arbitrary: m x)
  case (Cons i ids)
  obtain n v where i: "i = (n, v)" by (cases i)
  obtain f where f: "idd_field (Some p) n = Inr f" using Cons.prems(1) i by (auto simp: bindE_Inr_iff)
  have "(x OR encode_field f (scast v)) AND NOT (m OR bf_mask f) = 0"
    using Cons.prems(3) idd_field_mem(3) [OF assms f]
    by (auto simp: bit_eq_iff bit_simps bit_encode_field bf_mask_bit)
  then show ?case using Cons.IH Cons.prems i f by simp
qed simp

lemma get_mask_ok: "is_ok (idd_get_mask h ids) \<longleftrightarrow> (\<forall>n \<in> fst ` set ids. is_ok (idd_field h n))"
proof -
  have "is_ok (foldE (\<lambda>msk i. bindE (idd_field h (fst i)) (\<lambda>fld. Inr (msk OR bf_mask fld))) m ids)
    \<longleftrightarrow> (\<forall>n \<in> fst ` set ids. is_ok (idd_field h n))" for m
  proof (induction ids arbitrary: m)
    case (Cons i ids)
    then show ?case by (cases "idd_field h (fst i)") auto
  qed simp
  then show ?thesis by (simp add: idd_get_mask_def)
qed

definition layer_idd :: IDDescriptorObject where
  "layer_idd = the (projr (IDDescriptor_new ''hits'' ''layer:7,system:-3,theta:32:11''))"

lemma layer_idd_ok: "IDDescriptor_new ''hits'' ''layer:7,system:-3,theta:32:11'' = Inr (Some layer_idd)"
  by (simp add: layer_idd_def IDDescriptor_new_def layer_coder_ok)

section \<open>Properties\<close>

text \<open>C6. Encoding a list of named values and decoding the result: the call succeeds exactly when
  every name is a field; then each named field reads back its value truncated to the field's
  width (the value itself when it fits), every other field reads 0, and no bit outside the
  mask of the names is set.\<close>

theorem idd_encode_decode:
  assumes "IDDescriptor_new nam dsc = Inr (Some p)" and "distinct (map fst ids)"
  shows "(is_ok (idd_encode (Some p) ids) \<longleftrightarrow> (\<forall>n \<in> fst ` set ids. is_ok (idd_field (Some p) n))) \<and>
    (\<forall>y. idd_encode (Some p) ids = Inr y \<longrightarrow>
       (\<forall>(n, v) \<in> set ids. \<forall>f. idd_field (Some p) n = Inr f \<longrightarrow>
          bf_value f y = bf_trunc f (scast v) \<and> (bf_rep f (scast v) \<longrightarrow> bf_value f y = scast v)) \<and>
       (\<forall>n f. n \<notin> fst ` set ids \<longrightarrow> idd_field (Some p) n = Inr f \<longrightarrow> bf_value f y = 0) \<and>
       (\<exists>m. idd_get_mask (Some p) ids = Inr m \<and> y AND NOT m = 0))"
proof (intro conjI allI impI)
  note wf = idd_wf_new [OF assms(1)]
  show "is_ok (idd_encode (Some p) ids) \<longleftrightarrow> (\<forall>n \<in> fst ` set ids. is_ok (idd_field (Some p) n))"
    by (simp add: idd_encode_from encode_from_total)
  fix y assume y: "idd_encode (Some p) ids = Inr y"
  then have e: "encode_from (Some p) 0 ids = Inr y" by (simp add: idd_encode_from)
  show "\<forall>(n, v) \<in> set ids. \<forall>f. idd_field (Some p) n = Inr f \<longrightarrow>
      bf_value f y = bf_trunc f (scast v) \<and> (bf_rep f (scast v) \<longrightarrow> bf_value f y = scast v)"
  proof (clarify)
    fix n v f assume nv: "(n, v) \<in> set ids" and f: "idd_field (Some p) n = Inr f"
    note fwf = idd_field_mem(3) [OF wf f]
    have "bf_value f y = bf_trunc f (scast v)"
      using encode_from_value [OF wf e assms(2) _ nv f] by (intro bf_value_encode [OF fwf]) simp
    then show "bf_value f y = bf_trunc f (scast v) \<and> (bf_rep f (scast v) \<longrightarrow> bf_value f y = scast v)"
      using bf_trunc_id [OF fwf] by simp
  qed
  show "bf_value f y = 0" if "n \<notin> fst ` set ids" and f: "idd_field (Some p) n = Inr f" for n f
  proof -
    have "y AND bf_mask f = 0" using encode_from_frame [OF wf e f that(1)] by simp
    then have "bf_value f y = bf_value f 0"
      by (intro bf_value_cong idd_field_mem(3) [OF wf f]) simp
    then show ?thesis by (simp add: bf_value_def)
  qed
  have "is_ok (idd_get_mask (Some p) ids)"
    using y encode_from_total [of "Some p" 0 ids] by (simp add: get_mask_ok idd_encode_from)
  then show "\<exists>m. idd_get_mask (Some p) ids = Inr m \<and> y AND NOT m = 0"
    using get_mask_fold [OF wf, of 0 ids _ 0 y] e by (auto simp: is_ok_iff idd_get_mask_def)
qed

theorem idd_encode_decode_witness:
  "idd_encode (Some layer_idd) [(''system'', - 2), (''layer'', 300)] = Inr 812 \<and>
   (\<exists>f. idd_field (Some layer_idd) ''system'' = Inr f \<and> bf_value f 812 = bf_trunc f (- 2)) \<and>
   (\<exists>f. idd_field (Some layer_idd) ''theta'' = Inr f \<and> bf_value f 812 = 0)"
proof -
  have y: "idd_encode (Some layer_idd) [(''system'', - 2), (''layer'', 300)] = Inr 812"
    by (simp add: layer_idd_def cpp_eval)
  have d: "distinct (map fst [(''system'', - 2 :: i32), (''layer'', 300)])" by simp
  note ed = idd_encode_decode [OF layer_idd_ok d, THEN conjunct2, rule_format, OF y]
  have "bf_value f 812 = 0" if "idd_field (Some layer_idd) ''theta'' = Inr f" for f
    by (rule ed [THEN conjunct2, THEN conjunct1, rule_format, of "''theta''"]) (simp_all add: that)
  moreover have "is_ok (idd_field (Some layer_idd) ''system'')" "is_ok (idd_field (Some layer_idd) ''theta'')"
    by (simp_all add: layer_idd_def cpp_eval)
  ultimately show ?thesis using ed [THEN conjunct1] y by (auto simp: is_ok_iff)
qed

text \<open>Decoding an identifier into its fields and encoding every field again gives the identifier
  back on all described bits.\<close>

theorem idd_decode_encode:
  assumes "IDDescriptor_new nam dsc = Inr (Some p)" and "idd_decodeFields (Some p) vid = Inr fvs"
  shows "foldl (\<lambda>x (f, v). x OR encode_field f v) 0 fvs = vid AND bc_joined (idd_decoder p)"
proof -
  note wf = idd_wf_new [OF assms(1)]
  have fwf: "\<forall>f \<in> set (idd_elements p). bf_wf f"
    using wf by (auto simp: idd_wf_def coder_wf_def fields_wf_def)
  have fvs: "fvs = map (\<lambda>f. (f, bf_value f vid)) (idd_elements p)"
    using assms(2) by (simp add: idd_decodeFields_def idd_access_def)
  have "foldl (\<lambda>x (f, v). x OR encode_field f v) 0 (map (\<lambda>f. (f, bf_value f vid)) fs)
      = vid AND masks_or fs" if "\<forall>f \<in> set fs. bf_wf f" for fs
    using that
  proof (induction fs rule: rev_induct)
    case (snoc f fs)
    then show ?case by (simp add: masks_or_snoc encode_value bit.conj_disj_distrib)
  qed (simp add: masks_or_def)
  then show ?thesis
    using fvs fwf wf by (simp add: idd_wf_def coder_wf_joined)
qed

theorem idd_decode_encode_witness:
  "bc_joined (idd_decoder layer_idd) = 0x7FF000003FF \<and>
   (\<exists>fvs. idd_decodeFields (Some layer_idd) 0xABC00000123 = Inr fvs \<and>
      foldl (\<lambda>x (f, v). x OR encode_field f v) 0 fvs = 0xABC00000123 AND 0x7FF000003FF)"
proof -
  have j: "bc_joined (idd_decoder layer_idd) = 0x7FF000003FF"
    by (simp add: layer_idd_def cpp_eval)
  have fvs: "idd_decodeFields (Some layer_idd) x = Inr (List.map (\<lambda>f. (f, bf_value f x)) (idd_elements layer_idd))" for x
    by (simp only: idd_decodeFields_def idd_access_def option.case bindE_simps)
  show ?thesis
    by (intro conjI exI, rule j, rule fvs) (simp only: idd_decode_encode [OF layer_idd_ok fvs] j)
qed

text \<open>Encoding by or-ing agrees with writing the fields through the coder: where a sequence of
  checked \<open>set\<close> calls with distinct names succeeds, \<open>encode\<close> gives the same word.\<close>

theorem idd_encode_eq_set:
  assumes "idd_wf p" and "distinct (map fst ids)"
    and "foldE (\<lambda>x (n, v). bindE (idd_field (Some p) n) (\<lambda>f. bf_set f x (scast v))) 0 ids = Inr y"
  shows "idd_encode (Some p) ids = Inr y"
proof -
  have "encode_from (Some p) x ids = Inr y"
    if "foldE (\<lambda>x (n, v). bindE (idd_field (Some p) n) (\<lambda>f. bf_set f x (scast v))) x ids = Inr y"
      and "\<forall>n \<in> fst ` set ids. \<forall>f. idd_field (Some p) n = Inr f \<longrightarrow> x AND bf_mask f = 0"
      and "distinct (map fst ids)" for x
    using that
  proof (induction ids arbitrary: x)
    case (Cons i ids)
    obtain n v where i: "i = (n, v)" by (cases i)
    obtain f z where f: "idd_field (Some p) n = Inr f" and z: "bf_set f x (scast v) = Inr z"
      and y: "foldE (\<lambda>x (n, v). bindE (idd_field (Some p) n) (\<lambda>f. bf_set f x (scast v))) z ids = Inr y"
      using Cons.prems(1) i by (auto simp: bindE_Inr_iff)
    note fwf = idd_field_mem(3) [OF assms(1) f]
    have ze: "z = x OR encode_field f (scast v)"
      using bf_set_encode [OF fwf z] Cons.prems(2) i f by simp
    have "z AND bf_mask g = 0" if n': "n' \<in> fst ` set ids" and g: "idd_field (Some p) n' = Inr g" for n' g
    proof -
      have "n \<noteq> n'" using Cons.prems(3) n' i by auto
      then have "encode_field f (scast v) AND bf_mask g = 0"
        using encode_field_other [OF fwf] idd_fields_disjoint [OF assms(1) f g] by blast
      moreover have "x AND bf_mask g = 0" using Cons.prems(2) n' g by auto
      ultimately show ?thesis by (simp add: ze bit.conj_disj_distrib2)
    qed
    then have "encode_from (Some p) z ids = Inr y" using Cons.IH [OF y] Cons.prems(3) i by auto
    then show ?case using i f ze by simp
  qed simp
  from this [OF assms(3)] assms(2) show ?thesis by (simp add: idd_encode_from)
qed

theorem idd_encode_eq_set_witness:
  "idd_encode (Some layer_idd) [(''system'', - 2), (''layer'', 100)] = Inr 868"
proof -
  have "foldE (\<lambda>x (n, v). bindE (idd_field (Some layer_idd) n) (\<lambda>f. bf_set f x (scast v))) 0
      [(''system'', - 2 :: i32), (''layer'', 100)] = Inr 868"
    by (simp add: layer_idd_def cpp_eval)
  then show ?thesis using idd_encode_eq_set [OF idd_wf_new [OF layer_idd_ok]] by simp
qed

text \<open>\<open>encode_reverse\<close> is the encoding with its 64 bits in opposite order, and reversing it again
  restores the encoding.\<close>

theorem idd_encode_reverse_spec:
  "idd_encode_reverse h ids = map_sum id reverseBits (idd_encode h ids) \<and>
   (\<forall>x i. bit (reverseBits x) i \<longleftrightarrow> i < 64 \<and> bit x (63 - i)) \<and>
   bindE (idd_encode_reverse h ids) (\<lambda>r. Inr (reverseBits r)) = idd_encode h ids"
  by (cases "idd_encode h ids")
    (simp_all add: idd_encode_reverse_def bit_reverseBits reverseBits_involution)

end
