(* ===== verification/DetElement.thy ===== *)
theory DetElement
  imports StdMap IDDescriptor
begin

text \<open>
  The tree of detector elements (DDCore/src/DetElement.cpp, DDCore/src/DetectorInterna.cpp): the
  objects live in an explicit store and refer to each other by address, because the code shares
  them through handles and caches paths in place. Address 0 is the null pointer, that is the
  invalid handle. The geometry below (ROOT's \<open>TGeoNode\<close>) is read only for this code and is a tree
  of nodes; a node's matrix is named by its address.
\<close>

section \<open>Model\<close>

type_synonym handle = nat
type_synonym VolIDs = "(string \<times> i32) list"

record Readout =
  ro_name :: string
  ro_idSpec :: IDDescriptor

record SensitiveDetector =
  sd_name :: string
  sd_readout :: "Readout option"

text \<open>
  A placed volume. \<open>pv_ids\<close> is None for a node without the user extension that carries the volume
  identifiers; \<open>pv_sens\<close> is None for a volume without extension and \<open>Some None\<close> for a volume
  without sensitive detector. The last component are the nodes of the node's volume.
\<close>

datatype PlacedVolume = TGeoNode
  (pv_ptr: nat) (pv_name: string) (pv_ids: "VolIDs option")
  (pv_sens: "SensitiveDetector option option") (pv_matrix: nat) (pv_nodes: "PlacedVolume list")

record Callback =
  cb_par :: nat
  cb_func :: nat

record DetElementObject =
  de_name :: string
  de_type :: string
  de_flag :: u32
  de_id :: i32
  de_combineHits :: i32
  de_typeFlag :: u32
  de_level :: i32
  de_key :: u32
  de_path :: string
  de_placementPath :: string
  de_idealPlace :: "PlacedVolume option"
  de_placement :: "PlacedVolume option"
  de_volumeID :: u64
  de_privateWorld :: handle
  de_parent :: handle
  de_children :: "(string, handle) std_map"
  de_updateCalls :: "(Callback \<times> u64) list"

record Heap =
  hp_next :: nat
  hp_obj :: "nat \<Rightarrow> DetElementObject option"

definition HAVE_SENSITIVE_DETECTOR :: u32 where
  "HAVE_SENSITIVE_DETECTOR = push_bit 29 1"

definition PLACEMENT_CHANGED :: u64 where
  "PLACEMENT_CHANGED = push_bit 1 1"

definition PLACEMENT_HIGHEST :: u64 where
  "PLACEMENT_HIGHEST = push_bit 21 1"

definition PLACEMENT_DETECTOR :: u64 where
  "PLACEMENT_DETECTOR = push_bit 22 1"

definition COPY_PLACEMENT :: i32 where
  "COPY_PLACEMENT = 1"

definition PROPAGATE_PARENT_ID :: i32 where
  "PROPAGATE_PARENT_ID = push_bit 3 1"

subsection \<open>The store\<close>

definition hp_empty :: Heap where
  "hp_empty = \<lparr>hp_next = 1, hp_obj = Map.empty\<rparr>"

definition dangling :: cpp_error where
  "dangling = UndefinedBehaviour ''access through a dangling pointer''"

definition invalid_handle :: cpp_error where
  "invalid_handle = RuntimeError ''Attempt to access invalid object [Invalid Handle]''"

text \<open>\<open>ptr()->...\<close> on a pointer that is not null.\<close>

definition deref :: "Heap \<Rightarrow> handle \<Rightarrow> DetElementObject cpp" where
  "deref h a = (case hp_obj h a of None \<Rightarrow> Inl dangling | Some ob \<Rightarrow> Inr ob)"

text \<open>\<open>access()\<close> throws on an invalid handle.\<close>

definition de_access :: "Heap \<Rightarrow> handle \<Rightarrow> DetElementObject cpp" where
  "de_access h a = (if a = 0 then Inl invalid_handle else deref h a)"

definition hp_put :: "Heap \<Rightarrow> handle \<Rightarrow> DetElementObject \<Rightarrow> Heap" where
  "hp_put h a ob = h\<lparr>hp_obj := (hp_obj h)(a \<mapsto> ob)\<rparr>"

definition hp_new :: "Heap \<Rightarrow> DetElementObject \<Rightarrow> Heap \<times> handle" where
  "hp_new h ob = (h\<lparr>hp_next := Suc (hp_next h), hp_obj := (hp_obj h)(hp_next h \<mapsto> ob)\<rparr>, hp_next h)"

text \<open>Change an object reached through \<open>access()\<close>.\<close>

definition de_modify :: "Heap \<Rightarrow> handle \<Rightarrow> (DetElementObject \<Rightarrow> DetElementObject) \<Rightarrow> Heap cpp" where
  "de_modify h a f = bindE (de_access h a) (\<lambda>ob. Inr (hp_put h a (f ob)))"

subsection \<open>Construction and attributes\<close>

definition DetElementObject_new :: "string \<Rightarrow> i32 \<Rightarrow> DetElementObject" where
  "DetElementObject_new nam ident =
     \<lparr>de_name = nam, de_type = [], de_flag = 0, de_id = ident, de_combineHits = 0, de_typeFlag = 0,
      de_level = - 1, de_key = 0, de_path = [], de_placementPath = [], de_idealPlace = None,
      de_placement = None, de_volumeID = 0, de_privateWorld = 0, de_parent = 0, de_children = [],
      de_updateCalls = []\<rparr>"

definition DetElement_new :: "Heap \<Rightarrow> string \<Rightarrow> string \<Rightarrow> i32 \<Rightarrow> Heap \<times> handle" where
  "DetElement_new h det_name det_type det_id =
     hp_new h ((DetElementObject_new det_name det_id)\<lparr>de_type := det_type, de_id := det_id\<rparr>)"

definition de_handle_name :: "Heap \<Rightarrow> handle \<Rightarrow> string cpp" where
  "de_handle_name h a = (if a = 0 then Inr [] else bindE (deref h a) (\<lambda>ob. Inr (de_name ob)))"

definition det_type :: "Heap \<Rightarrow> handle \<Rightarrow> string cpp" where
  "det_type h a = (if a = 0 then Inr [] else bindE (deref h a) (\<lambda>ob. Inr (de_type ob)))"

definition det_setType :: "Heap \<Rightarrow> handle \<Rightarrow> string \<Rightarrow> Heap cpp" where
  "det_setType h a typ = de_modify h a (de_type_update (\<lambda>_. typ))"

definition det_typeFlag :: "Heap \<Rightarrow> handle \<Rightarrow> u32 cpp" where
  "det_typeFlag h a = (if a = 0 then Inr 0 else bindE (deref h a) (\<lambda>ob. Inr (de_typeFlag ob)))"

definition det_setTypeFlag :: "Heap \<Rightarrow> handle \<Rightarrow> u32 \<Rightarrow> Heap cpp" where
  "det_setTypeFlag h a types = de_modify h a (de_typeFlag_update (\<lambda>_. types))"

definition det_id :: "Heap \<Rightarrow> handle \<Rightarrow> i32 cpp" where
  "det_id h a = bindE (de_access h a) (\<lambda>ob. Inr (de_id ob))"

definition det_combineHits :: "Heap \<Rightarrow> handle \<Rightarrow> bool cpp" where
  "det_combineHits h a = bindE (de_access h a) (\<lambda>ob. Inr (de_combineHits ob \<noteq> 0))"

definition det_children :: "Heap \<Rightarrow> handle \<Rightarrow> (string, handle) std_map cpp" where
  "det_children h a = bindE (de_access h a) (\<lambda>ob. Inr (de_children ob))"

definition det_child :: "Heap \<Rightarrow> handle \<Rightarrow> string \<Rightarrow> handle cpp" where
  "det_child h a child_name =
     (if a \<noteq> 0 then bindE (deref h a) (\<lambda>ob. case map_of (de_children ob) child_name of
          Some c \<Rightarrow> Inr c
        | None \<Rightarrow> Inl (RuntimeError (''dd4hep: DetElement::child Unknown child with name: '' @ child_name)))
      else Inl (RuntimeError ''dd4hep: DetElement::child: Self is not defined [Invalid Handle]''))"

definition det_child_opt :: "Heap \<Rightarrow> handle \<Rightarrow> string \<Rightarrow> bool \<Rightarrow> handle cpp" where
  "det_child_opt h a child_name throw_if_not_found =
     (if throw_if_not_found then det_child h a child_name
      else if a = 0 then Inr 0
      else bindE (deref h a) (\<lambda>ob. case map_of (de_children ob) child_name of
          Some c \<Rightarrow> Inr c | None \<Rightarrow> Inr 0))"

definition det_parent :: "Heap \<Rightarrow> handle \<Rightarrow> handle cpp" where
  "det_parent h a = (if a = 0 then Inr 0 else bindE (deref h a) (\<lambda>ob. Inr (de_parent ob)))"

definition det_placement :: "Heap \<Rightarrow> handle \<Rightarrow> PlacedVolume option cpp" where
  "det_placement h a = (if a = 0 then Inr None else bindE (deref h a) (\<lambda>ob. Inr (de_placement ob)))"

definition det_idealPlacement :: "Heap \<Rightarrow> handle \<Rightarrow> PlacedVolume option cpp" where
  "det_idealPlacement h a = (if a = 0 then Inr None else bindE (deref h a) (\<lambda>ob. Inr (de_idealPlace ob)))"

definition det_setPlacement :: "Heap \<Rightarrow> handle \<Rightarrow> PlacedVolume option \<Rightarrow> Heap cpp" where
  "det_setPlacement h a pv =
     (case pv of
        None \<Rightarrow> Inl (RuntimeError ''dd4hep: DetElement::setPlacement: Placement is not defined [Invalid Handle]'')
      | Some p \<Rightarrow> de_modify h a (\<lambda>ob. ob\<lparr>de_placement := Some p,
            de_idealPlace := (case de_idealPlace ob of None \<Rightarrow> Some p | Some q \<Rightarrow> Some q)\<rparr>))"

definition det_volumeID :: "Heap \<Rightarrow> handle \<Rightarrow> u64 cpp" where
  "det_volumeID h a = (if a = 0 then Inr 0 else bindE (deref h a) (\<lambda>ob. Inr (de_volumeID ob)))"

subsection \<open>Path, level and key\<close>

text \<open>The hash of a path; \<open>char\<close> is signed, so codes above 127 enter sign extended.\<close>

definition hash32_step :: "u32 \<Rightarrow> char \<Rightarrow> u32" where
  "hash32_step hash k =
     (let h1 = hash + scast (of_char k :: 8 word); h2 = h1 + push_bit 10 h1 in h2 XOR drop_bit 6 h2)"

definition hash32 :: "string \<Rightarrow> u32" where
  "hash32 key =
     (let h0 = foldl hash32_step 0 (takeWhile (\<lambda>c. char_code c \<noteq> 0) key);
          h1 = h0 + push_bit 3 h0; h2 = h1 XOR drop_bit 11 h1 in h2 + push_bit 15 h2)"

text \<open>
  \<open>make_path\<close> fills the caches of an object and, through \<open>par.path()\<close> and \<open>par.level()\<close>, those of
  its parents. On a cyclic tree it does not return: the result is None.
\<close>

partial_function (option) make_path :: "Heap \<Rightarrow> handle \<Rightarrow> Heap cpp option" where
  "make_path h a =
     (case hp_obj h a of
        None \<Rightarrow> Some (Inl dangling)
      | Some ob \<Rightarrow>
          if de_parent ob \<noteq> 0 then
            (case hp_obj h (de_parent ob) of
               None \<Rightarrow> Some (Inl dangling)
             | Some par \<Rightarrow>
                 Option.bind (if de_path par \<noteq> [] then Some (Inr h) else make_path h (de_parent ob)) (\<lambda>r.
                 case r of
                   Inl e \<Rightarrow> Some (Inl e)
                 | Inr h1 \<Rightarrow>
                     (case hp_obj h1 a of
                        None \<Rightarrow> Some (Inl dangling)
                      | Some ob1 \<Rightarrow>
                     (case hp_obj h1 (de_parent ob) of
                        None \<Rightarrow> Some (Inl dangling)
                      | Some par1 \<Rightarrow>
                          let nam = de_path par1 @ ''/'' @ de_name ob1;
                              h2 = hp_put h1 a (ob1\<lparr>de_path := nam\<rparr>) in
                          if sint (de_level ob1) < 0 then
                            Option.bind (if 0 \<le> sint (de_level par1) then Some (Inr h2)
                                         else make_path h2 (de_parent ob)) (\<lambda>r.
                            case r of
                              Inl e \<Rightarrow> Some (Inl e)
                            | Inr h3 \<Rightarrow>
                                (case hp_obj h3 a of
                                   None \<Rightarrow> Some (Inl dangling)
                                 | Some ob3 \<Rightarrow>
                                (case hp_obj h3 (de_parent ob) of
                                   None \<Rightarrow> Some (Inl dangling)
                                 | Some par3 \<Rightarrow>
                                     Some (Inr (hp_put h3 a (ob3\<lparr>de_level := de_level par3 + 1,
                                        de_key := hash32 (de_path ob3)\<rparr>))))))
                          else Some (Inr (hp_put h2 a (ob1\<lparr>de_path := nam, de_key := hash32 nam\<rparr>)))))))
          else Some (Inr (hp_put h a (ob\<lparr>de_path := ''/'' @ de_name ob, de_level := 0,
                 de_key := hash32 (''/'' @ de_name ob)\<rparr>))))"

definition cached :: "(DetElementObject \<Rightarrow> bool) \<Rightarrow> (DetElementObject \<Rightarrow> 'a) \<Rightarrow> 'a \<Rightarrow> Heap \<Rightarrow> handle \<Rightarrow> (Heap \<times> 'a) cpp option" where
  "cached have sel null h a =
     (if a = 0 then Some (Inr (h, null))
      else case hp_obj h a of
        None \<Rightarrow> Some (Inl dangling)
      | Some ob \<Rightarrow>
          if have ob then Some (Inr (h, sel ob))
          else Option.bind (make_path h a) (\<lambda>r.
            Some (bindE r (\<lambda>h'. bindE (deref h' a) (\<lambda>ob'. Inr (h', sel ob'))))))"

definition det_key :: "Heap \<Rightarrow> handle \<Rightarrow> (Heap \<times> u32) cpp option" where
  "det_key = cached (\<lambda>ob. de_key ob \<noteq> 0) de_key 0"

definition det_level :: "Heap \<Rightarrow> handle \<Rightarrow> (Heap \<times> i32) cpp option" where
  "det_level = cached (\<lambda>ob. 0 \<le> sint (de_level ob)) de_level (- 1)"

definition det_path :: "Heap \<Rightarrow> handle \<Rightarrow> (Heap \<times> string) cpp option" where
  "det_path = cached (\<lambda>ob. de_path ob \<noteq> []) de_path []"

subsection \<open>Children, callbacks and the world\<close>

text \<open>
  \<open>add\<close>: the child is entered under its name unless the name is taken, and its parent becomes this
  element. The message of the error holds the element's path, whose caches it fills; an error
  ends the use of the store here.
\<close>

definition det_add :: "Heap \<Rightarrow> handle \<Rightarrow> handle \<Rightarrow> Heap cpp" where
  "det_add h self sdet =
     (if self \<noteq> 0 then
        bindE (deref h self) (\<lambda>ob.
        bindE (de_handle_name h sdet) (\<lambda>nam.
        (case map_emplace nam sdet (de_children ob) of
           (ch, True) \<Rightarrow>
             (let h1 = hp_put h self (ob\<lparr>de_children := ch\<rparr>) in
              de_modify h1 sdet (de_parent_update (\<lambda>_. self)))
         | (ch, False) \<Rightarrow>
             Inl (RuntimeError (''DetElement::add: Element '' @ nam @ '' is already present [Double-Insert]'')))))
      else Inl (RuntimeError ''DetElement::add: Self is not defined [Invalid Handle]''))"

definition DetElement_new_child :: "Heap \<Rightarrow> handle \<Rightarrow> string \<Rightarrow> i32 \<Rightarrow> (Heap \<times> handle) cpp" where
  "DetElement_new_child h par det_name ident =
     bindE (det_type h par) (\<lambda>typ.
       case DetElement_new h det_name typ ident of
         (h1, a) \<Rightarrow> bindE (det_add h1 par a) (\<lambda>h2. Inr (h2, a)))"

definition i_addUpdateCall :: "Heap \<Rightarrow> handle \<Rightarrow> u32 \<Rightarrow> Callback \<Rightarrow> Heap cpp" where
  "i_addUpdateCall h a callback_type cb =
     de_modify h a (de_updateCalls_update (\<lambda>cs. cs @ [(cb, ucast callback_type)]))"

fun erase_first :: "('a \<Rightarrow> bool) \<Rightarrow> 'a list \<Rightarrow> 'a list" where
  "erase_first P [] = []"
| "erase_first P (x # xs) = (if P x then xs else x # erase_first P xs)"

definition removeAtUpdate :: "Heap \<Rightarrow> handle \<Rightarrow> u32 \<Rightarrow> nat \<Rightarrow> Heap cpp" where
  "removeAtUpdate h a typ pointer =
     de_modify h a (de_updateCalls_update
       (erase_first (\<lambda>(cb, t). ucast typ AND t = ucast typ \<and> cb_par cb = pointer)))"

text \<open>The callbacks that \<open>update\<close> executes for the given tags, in order.\<close>

definition update_callbacks :: "DetElementObject \<Rightarrow> u32 \<Rightarrow> Callback list" where
  "update_callbacks ob tags =
     List.map fst (filter (\<lambda>(cb, t). ucast tags AND t \<noteq> 0) (de_updateCalls ob))"

text \<open>
  \<open>world()\<close> walks to the element without parent and caches it there only: every other element
  walks again.
\<close>

partial_function (option) i_world :: "Heap \<Rightarrow> handle \<Rightarrow> (Heap \<times> handle) cpp option" where
  "i_world h a =
     (case hp_obj h a of
        None \<Rightarrow> Some (Inl dangling)
      | Some ob \<Rightarrow>
          if de_privateWorld ob \<noteq> 0 then Some (Inr (h, de_privateWorld ob))
          else if de_parent ob = 0 then Some (Inr (hp_put h a (ob\<lparr>de_privateWorld := a\<rparr>), a))
          else i_world h (de_parent ob))"

lemmas [code] = make_path.simps i_world.simps

definition det_world :: "Heap \<Rightarrow> handle \<Rightarrow> (Heap \<times> handle) cpp option" where
  "det_world h a = (if a = 0 then Some (Inr (h, 0)) else i_world h a)"

section \<open>Lemmas\<close>

lemmas det_access_simps = deref_def de_access_def hp_put_def hp_new_def de_modify_def

text \<open>The chain of an element: the element, its parent, and so on up to the one without parent.\<close>

inductive chain :: "Heap \<Rightarrow> handle \<Rightarrow> handle list \<Rightarrow> bool" for h where
  chain_root: "\<lbrakk>a \<noteq> 0; hp_obj h a = Some ob; de_parent ob = 0\<rbrakk> \<Longrightarrow> chain h a [a]"
| chain_step: "\<lbrakk>a \<noteq> 0; hp_obj h a = Some ob; de_parent ob \<noteq> 0; chain h (de_parent ob) xs\<rbrakk>
    \<Longrightarrow> chain h a (a # xs)"

inductive_cases chain_Nil [elim!]: "chain h a []"
inductive_cases chain_Cons [elim]: "chain h a (b # xs)"

lemma chain_hd: "chain h a xs \<Longrightarrow> \<exists>ys. xs = a # ys"
  by (auto elim: chain.cases)

lemma chain_0 [simp]: "\<not> chain h 0 xs"
  by (auto elim: chain.cases)

lemma chain_obj: "chain h a xs \<Longrightarrow> a \<noteq> 0 \<and> (\<exists>ob. hp_obj h a = Some ob)"
  by (auto elim: chain.cases)

lemma chain_unique: "chain h a xs \<Longrightarrow> chain h a ys \<Longrightarrow> xs = ys"
proof (induction arbitrary: ys rule: chain.induct)
  case (chain_root a ob)
  from chain_root(4) show ?case using chain_root(1-3) by cases auto
next
  case (chain_step a ob xs)
  from chain_step.prems show ?case
  proof cases
    case (chain_step ob' zs)
    then show ?thesis using \<open>hp_obj h a = Some ob\<close> chain_step.IH by simp
  qed (use chain_step in auto)
qed

text \<open>Every element of a chain has the rest of the chain as its own.\<close>

lemma chain_suffix: "chain h a xs \<Longrightarrow> xs = ys @ b # zs \<Longrightarrow> chain h b (b # zs)"
proof (induction arbitrary: ys rule: chain.induct)
  case (chain_root a ob)
  then show ?case by (auto simp: Cons_eq_append_conv intro: chain.chain_root)
next
  case (chain_step a ob xs)
  show ?case
  proof (cases ys)
    case Nil
    then show ?thesis using chain_step by (auto intro: chain.chain_step)
  next
    case (Cons y ys')
    then show ?thesis using chain_step by auto
  qed
qed

lemma chain_distinct: "chain h a xs \<Longrightarrow> distinct xs"
proof (induction rule: chain.induct)
  case (chain_step a ob xs)
  have "a \<notin> set xs"
  proof
    assume "a \<in> set xs"
    then obtain ys zs where xs: "xs = ys @ a # zs" by (auto dest: split_list)
    have "chain h a (a # zs)" using chain_suffix [OF chain_step.hyps(4) xs] .
    moreover have "chain h a (a # xs)" using chain_step.hyps by (rule chain.chain_step)
    ultimately have "a # zs = a # xs" by (rule chain_unique)
    then have "length zs = length xs" by simp
    then show False by (simp add: xs)
  qed
  then show ?case using chain_step.IH by simp
qed simp

text \<open>Two stores with the same objects, parents, names and children, up to the cached values.\<close>

definition tree_part :: "DetElementObject \<Rightarrow> string \<times> handle \<times> (string, handle) std_map" where
  "tree_part ob = (de_name ob, de_parent ob, de_children ob)"

definition same_tree :: "Heap \<Rightarrow> Heap \<Rightarrow> bool" where
  "same_tree h h' \<longleftrightarrow> hp_next h' = hp_next h \<and>
     (\<forall>a. map_option tree_part (hp_obj h' a) = map_option tree_part (hp_obj h a))"

lemma same_tree_refl [simp]: "same_tree h h"
  by (simp add: same_tree_def)

lemma same_tree_trans: "same_tree h h1 \<Longrightarrow> same_tree h1 h2 \<Longrightarrow> same_tree h h2"
  by (simp add: same_tree_def)

lemma same_tree_sym: "same_tree h h' \<Longrightarrow> same_tree h' h"
  by (simp add: same_tree_def)

lemma same_tree_put:
  "\<lbrakk>hp_obj h a = Some ob; tree_part ob' = tree_part ob\<rbrakk> \<Longrightarrow> same_tree h (hp_put h a ob')"
  by (simp add: same_tree_def hp_put_def)

lemma same_tree_obj:
  assumes "same_tree h h'" and "hp_obj h a = Some ob"
  obtains ob' where "hp_obj h' a = Some ob'" "de_name ob' = de_name ob" "de_parent ob' = de_parent ob"
    "de_children ob' = de_children ob"
proof -
  from assms have "map_option tree_part (hp_obj h' a) = Some (tree_part ob)"
    by (simp add: same_tree_def)
  then show ?thesis using that by (auto simp: tree_part_def)
qed

lemma same_tree_chain:
  assumes st: "same_tree h h'"
  shows "chain h a xs \<Longrightarrow> chain h' a xs"
proof (induction rule: chain.induct)
  case (chain_root a ob)
  obtain ob' where "hp_obj h' a = Some ob'" "de_parent ob' = de_parent ob"
    by (rule same_tree_obj [OF st chain_root(2)])
  then show ?case using chain_root chain.chain_root [of a h' ob'] by simp
next
  case (chain_step a ob xs)
  obtain ob' where "hp_obj h' a = Some ob'" "de_parent ob' = de_parent ob"
    by (rule same_tree_obj [OF st chain_step(2)])
  then show ?case using chain_step chain.chain_step [of a h' ob' xs] by simp
qed

lemma same_tree_chain_iff: "same_tree h h' \<Longrightarrow> chain h' a xs \<longleftrightarrow> chain h a xs"
  using same_tree_chain same_tree_sym by blast

definition name_of :: "Heap \<Rightarrow> handle \<Rightarrow> string" where
  "name_of h a = (case hp_obj h a of None \<Rightarrow> [] | Some ob \<Rightarrow> de_name ob)"

text \<open>The path that belongs to a chain.\<close>

fun path_of :: "Heap \<Rightarrow> handle list \<Rightarrow> string" where
  "path_of h [] = []"
| "path_of h (a # xs) = path_of h xs @ ''/'' @ name_of h a"

lemma same_tree_name: "same_tree h h' \<Longrightarrow> name_of h' a = name_of h a"
proof -
  assume "same_tree h h'"
  then have "map_option tree_part (hp_obj h' a) = map_option tree_part (hp_obj h a)"
    by (simp add: same_tree_def)
  then show ?thesis by (auto simp: name_of_def tree_part_def split: option.splits)
qed

lemma same_tree_path: "same_tree h h' \<Longrightarrow> path_of h' xs = path_of h xs"
  by (induction xs) (simp_all add: same_tree_name)

text \<open>The caches of an object are all empty or all hold the values of its chain.\<close>

definition cache_empty :: "DetElementObject \<Rightarrow> bool" where
  "cache_empty ob \<longleftrightarrow> de_path ob = [] \<and> de_level ob = - 1 \<and> de_key ob = 0"

definition cache_full :: "Heap \<Rightarrow> handle list \<Rightarrow> DetElementObject \<Rightarrow> bool" where
  "cache_full h xs ob \<longleftrightarrow> de_path ob = path_of h xs \<and> de_level ob = of_nat (length xs - 1) \<and>
     de_key ob = hash32 (path_of h xs)"

definition cache_ok :: "Heap \<Rightarrow> bool" where
  "cache_ok h \<longleftrightarrow> (\<forall>a ob xs. hp_obj h a = Some ob \<longrightarrow> chain h a xs \<longrightarrow>
     cache_empty ob \<or> cache_full h xs ob)"

lemma cache_full_same_tree: "same_tree h h' \<Longrightarrow> cache_full h' xs ob \<longleftrightarrow> cache_full h xs ob"
  by (simp add: cache_full_def same_tree_path)

lemma cache_ok_put:
  assumes ok: "cache_ok h" and ob: "hp_obj h a = Some ob" and tp: "tree_part ob' = tree_part ob"
    and a: "chain h a xs" and ob': "cache_full h xs ob'"
  shows "cache_ok (hp_put h a ob')"
proof -
  have st: "same_tree h (hp_put h a ob')" using ob tp by (rule same_tree_put)
  show ?thesis
    unfolding cache_ok_def
  proof (intro allI impI)
    fix b o2 ys assume b: "hp_obj (hp_put h a ob') b = Some o2" "chain (hp_put h a ob') b ys"
    have ch: "chain h b ys" using b(2) same_tree_chain_iff [OF st] by blast
    show "cache_empty o2 \<or> cache_full (hp_put h a ob') ys o2"
    proof (cases "b = a")
      case True
      then have "ys = xs" "o2 = ob'" using ch a chain_unique b(1) by (auto simp: hp_put_def)
      then show ?thesis using ob' st cache_full_same_tree by blast
    next
      case False
      then have "hp_obj h b = Some o2" using b(1) by (simp add: hp_put_def)
      then show ?thesis using ok ch st cache_full_same_tree unfolding cache_ok_def by blast
    qed
  qed
qed

lemma level_pos: "length xs < 2 ^ 31 \<Longrightarrow> 0 \<le> sint (of_nat (length xs - 1) :: i32)"
  by (simp add: signed_of_nat signed_take_bit_int_eq_self)

text \<open>
  \<open>make_path\<close> returns for an element with a chain, fills its caches with the right values and
  changes nothing but caches.
\<close>

lemma make_path_chain:
  assumes "chain h a xs" and "cache_ok h" and "length xs < 2 ^ 31"
  shows "\<exists>h' ob'. make_path h a = Some (Inr h') \<and> same_tree h h' \<and> cache_ok h' \<and>
    hp_obj h' a = Some ob' \<and> cache_full h xs ob'"
  using assms
proof (induction arbitrary: rule: chain.induct)
  case (chain_root a ob)
  let ?ob' = "ob\<lparr>de_path := ''/'' @ de_name ob, de_level := 0, de_key := hash32 (''/'' @ de_name ob)\<rparr>"
  have ch: "chain h a [a]" using chain_root by (auto intro: chain.chain_root)
  have full: "cache_full h [a] ?ob'" using chain_root by (simp add: cache_full_def name_of_def)
  have tp: "tree_part ?ob' = tree_part ob" by (simp add: tree_part_def)
  have "make_path h a = Some (Inr (hp_put h a ?ob'))"
    using chain_root by (subst make_path.simps) simp
  moreover have "same_tree h (hp_put h a ?ob')" by (rule same_tree_put [OF chain_root(2) tp])
  moreover have "cache_ok (hp_put h a ?ob')"
    by (rule cache_ok_put [OF chain_root(4) chain_root(2) tp ch full])
  ultimately show ?case using full by (auto simp: hp_put_def)
next
  case (chain_step a ob xs)
  let ?p = "de_parent ob"
  have len: "length xs < 2 ^ 31" using chain_step.prems by simp
  have cha: "chain h a (a # xs)" using chain_step.hyps by (rule chain.chain_step)
  have ap: "a \<noteq> ?p"
  proof
    assume "a = ?p"
    then have "chain h a xs" using chain_step.hyps(4) by simp
    then have "xs = a # xs" using cha by (rule chain_unique)
    then show False by (metis length_Cons n_not_Suc_n)
  qed
  obtain par where par: "hp_obj h ?p = Some par" using chain_obj [OF chain_step.hyps(4)] by blast
  \<comment> \<open>the parent's path\<close>
  obtain h1 par1 where h1: "(if de_path par \<noteq> [] then Some (Inr h) else make_path h ?p) = Some (Inr h1)"
    and st1: "same_tree h h1" and ok1: "cache_ok h1" and par1: "hp_obj h1 ?p = Some par1"
    and full1: "cache_full h xs par1"
  proof (cases "de_path par = []")
    case True
    then show ?thesis using that chain_step.IH [OF chain_step.prems(1) len] by auto
  next
    case False
    then have "cache_full h xs par"
      using chain_step.prems(1) par chain_step.hyps(4)
      unfolding cache_ok_def cache_empty_def by blast
    then show ?thesis using that [of h par] False par chain_step.prems(1) by simp
  qed
  obtain ob1 where ob1: "hp_obj h1 a = Some ob1" "de_name ob1 = de_name ob" "de_parent ob1 = ?p"
    "de_children ob1 = de_children ob"
    using same_tree_obj [OF st1 chain_step.hyps(2)] by metis
  have cha1: "chain h1 a (a # xs)" using cha same_tree_chain_iff [OF st1] by blast
  have nam: "de_path par1 @ ''/'' @ de_name ob1 = path_of h (a # xs)"
    using full1 ob1(2) chain_step.hyps(2) by (simp add: cache_full_def name_of_def)
  have lev: "de_level par1 + 1 = of_nat (length (a # xs) - 1)"
  proof -
    have "xs \<noteq> []" using chain_step.hyps(4) chain_hd by fastforce
    then have "Suc (length xs - 1) = length xs" by (cases xs) auto
    then have "(of_nat (length xs - 1) :: i32) + 1 = of_nat (length xs)"
      by (metis of_nat_Suc add.commute)
    then show ?thesis using full1 by (simp add: cache_full_def)
  qed
  let ?nam = "path_of h (a # xs)"
  show ?case
  proof (cases "sint (de_level ob1) < 0")
    case True
    let ?ob' = "ob1\<lparr>de_path := ?nam, de_level := de_level par1 + 1, de_key := hash32 ?nam\<rparr>"
    have "0 \<le> sint (de_level par1)" using full1 level_pos [OF len] by (simp add: cache_full_def)
    then have r: "make_path h a = Some (Inr (hp_put h1 a ?ob'))"
      using chain_step.hyps(2,3) par h1 ob1 par1 ap True nam
      by (subst make_path.simps) (simp add: hp_put_def Let_def)
    have full: "cache_full h (a # xs) ?ob'" using lev by (simp add: cache_full_def)
    have tp: "tree_part ?ob' = tree_part ob1" by (simp add: tree_part_def)
    have "cache_ok (hp_put h1 a ?ob')"
      by (rule cache_ok_put [OF ok1 ob1(1) tp cha1])
        (use full cache_full_same_tree [OF st1] in blast)
    moreover have "same_tree h (hp_put h1 a ?ob')"
      using st1 same_tree_put [OF ob1(1) tp] by (rule same_tree_trans)
    ultimately show ?thesis using r full by (auto simp: hp_put_def)
  next
    case False
    let ?ob' = "ob1\<lparr>de_path := ?nam, de_key := hash32 ?nam\<rparr>"
    have r: "make_path h a = Some (Inr (hp_put h1 a ?ob'))"
      using chain_step.hyps(2,3) par h1 ob1 par1 ap False nam
      by (subst make_path.simps) (simp add: hp_put_def Let_def)
    have "\<not> cache_empty ob1" using False by (auto simp: cache_empty_def)
    then have "cache_full h1 (a # xs) ob1" using ok1 ob1(1) cha1 unfolding cache_ok_def by blast
    then have full: "cache_full h (a # xs) ?ob'"
      using cache_full_same_tree [OF st1] by (simp add: cache_full_def)
    have tp: "tree_part ?ob' = tree_part ob1" by (simp add: tree_part_def)
    have "cache_ok (hp_put h1 a ?ob')"
      by (rule cache_ok_put [OF ok1 ob1(1) tp cha1])
        (use full cache_full_same_tree [OF st1] in blast)
    moreover have "same_tree h (hp_put h1 a ?ob')"
      using st1 same_tree_put [OF ob1(1) tp] by (rule same_tree_trans)
    ultimately show ?thesis using r full by (auto simp: hp_put_def)
  qed
qed

lemma cached_chain:
  assumes "chain h a xs" and "cache_ok h" and "length xs < 2 ^ 31"
    and hv: "\<And>ob. have_it ob \<Longrightarrow> \<not> cache_empty ob"
    and v: "\<And>ob. cache_full h xs ob \<Longrightarrow> sel ob = v"
  shows "\<exists>h'. cached have_it sel null h a = Some (Inr (h', v)) \<and> same_tree h h' \<and> cache_ok h'"
proof -
  obtain ob where a: "a \<noteq> 0" "hp_obj h a = Some ob" using chain_obj [OF assms(1)] by blast
  show ?thesis
  proof (cases "have_it ob")
    case True
    then have "cache_full h xs ob" using hv assms(1,2) a(2) unfolding cache_ok_def by blast
    then show ?thesis using True a v assms(2) by (simp add: cached_def)
  next
    case False
    then show ?thesis using make_path_chain [OF assms(1-3)] a v
      by (auto simp: cached_def deref_def)
  qed
qed

lemma path_of_nonempty: "chain h a xs \<Longrightarrow> path_of h xs \<noteq> []"
  using chain_hd by fastforce

lemma det_path_chain:
  "\<lbrakk>chain h a xs; cache_ok h; length xs < 2 ^ 31\<rbrakk> \<Longrightarrow>
   \<exists>h'. det_path h a = Some (Inr (h', path_of h xs)) \<and> same_tree h h' \<and> cache_ok h'"
  unfolding det_path_def by (rule cached_chain) (auto simp: cache_empty_def cache_full_def)

lemma det_level_chain:
  "\<lbrakk>chain h a xs; cache_ok h; length xs < 2 ^ 31\<rbrakk> \<Longrightarrow>
   \<exists>h'. det_level h a = Some (Inr (h', of_nat (length xs - 1))) \<and> same_tree h h' \<and> cache_ok h'"
  unfolding det_level_def by (rule cached_chain) (auto simp: cache_empty_def cache_full_def)

lemma det_key_chain:
  "\<lbrakk>chain h a xs; cache_ok h; length xs < 2 ^ 31\<rbrakk> \<Longrightarrow>
   \<exists>h'. det_key h a = Some (Inr (h', hash32 (path_of h xs))) \<and> same_tree h h' \<and> cache_ok h'"
  unfolding det_key_def by (rule cached_chain) (auto simp: cache_empty_def cache_full_def)

text \<open>
  A well-formed tree: every object is allocated, has a chain, and is entered in its parent's
  children exactly under its name.
\<close>

definition tree_wf :: "Heap \<Rightarrow> bool" where
  "tree_wf h \<longleftrightarrow> 0 < hp_next h \<and> hp_obj h 0 = None \<and>
     (\<forall>a ob. hp_obj h a = Some ob \<longrightarrow> a < hp_next h \<and> (\<exists>xs. chain h a xs) \<and>
        map_ok (de_children ob) \<and>
        (\<forall>n c. (n, c) \<in> set (de_children ob) \<longrightarrow>
           (\<exists>oc. hp_obj h c = Some oc \<and> de_parent oc = a \<and> de_name oc = n)) \<and>
        (de_parent ob \<noteq> 0 \<longrightarrow> (\<exists>op. hp_obj h (de_parent ob) = Some op \<and>
           (de_name ob, a) \<in> set (de_children op))))"

lemma tree_wf_obj:
  assumes "tree_wf h" and "hp_obj h a = Some ob"
  shows "a \<noteq> 0" and "a < hp_next h" and "\<exists>xs. chain h a xs" and "map_ok (de_children ob)"
    and "\<And>n c. (n, c) \<in> set (de_children ob) \<Longrightarrow> \<exists>oc. hp_obj h c = Some oc \<and> de_parent oc = a \<and> de_name oc = n"
    and "de_parent ob \<noteq> 0 \<Longrightarrow> \<exists>op. hp_obj h (de_parent ob) = Some op \<and> (de_name ob, a) \<in> set (de_children op)"
proof -
  show "a \<noteq> 0" using assms by (metis option.distinct(1) tree_wf_def)
qed (use assms in \<open>unfold tree_wf_def, blast+\<close>)

lemma tree_wf_empty: "tree_wf hp_empty"
  by (simp add: tree_wf_def hp_empty_def)

lemma chain_extend:
  assumes "chain h a xs" and "\<And>b ob. b \<in> set xs \<Longrightarrow> hp_obj h b = Some ob \<Longrightarrow>
      \<exists>ob'. hp_obj h' b = Some ob' \<and> de_parent ob' = de_parent ob"
  shows "chain h' a xs"
  using assms
proof (induction rule: chain.induct)
  case (chain_root a ob)
  then show ?case using chain_root(4) [OF _ chain_root(2)] chain.chain_root [of a h'] by auto
next
  case (chain_step a ob xs)
  obtain ob' where "hp_obj h' a = Some ob'" "de_parent ob' = de_parent ob"
    using chain_step(6) [of a ob] chain_step(2) by auto
  moreover have "chain h' (de_parent ob) xs" using chain_step by simp
  ultimately show ?case using chain_step(1,3) chain.chain_step [of a h' ob' xs] by simp
qed

lemma tree_wf_new:
  assumes "tree_wf h" and "DetElement_new h nam typ ident = (h', a)"
  shows "tree_wf h' \<and> a = hp_next h \<and> hp_obj h a = None \<and> chain h' a [a] \<and> name_of h' a = nam \<and>
    (\<forall>b. b \<noteq> a \<longrightarrow> hp_obj h' b = hp_obj h b)"
proof -
  let ?ob = "(DetElementObject_new nam ident)\<lparr>de_type := typ, de_id := ident\<rparr>"
  have a: "a = hp_next h" and h': "hp_obj h' = (hp_obj h)(a \<mapsto> ?ob)" "hp_next h' = Suc (hp_next h)"
    using assms(2) by (auto simp: DetElement_new_def hp_new_def)
  have none: "hp_obj h a = None"
    using tree_wf_obj(2) [OF assms(1), of a] a by (cases "hp_obj h a") auto
  have a0: "a \<noteq> 0" using assms(1) a by (simp add: tree_wf_def)
  have ch: "chain h' a [a]" using a0 h' by (auto intro: chain.chain_root simp: DetElementObject_new_def)
  have ext: "chain h b xs \<Longrightarrow> chain h' b xs" for b xs
    by (erule chain_extend [of h]) (use none h' in auto)
  have "tree_wf h'"
    unfolding tree_wf_def
  proof (intro conjI allI impI)
    show "0 < hp_next h'" "hp_obj h' 0 = None" using h' a0 assms(1) by (auto simp: tree_wf_def)
    fix b ob assume b: "hp_obj h' b = Some ob"
    show "b < hp_next h'" "\<exists>xs. chain h' b xs" "map_ok (de_children ob)"
      using b h' a ch ext tree_wf_obj(2,3,4) [OF assms(1), of b ob]
      by (fastforce simp: DetElementObject_new_def split: if_splits)+
    show "\<exists>oc. hp_obj h' c = Some oc \<and> de_parent oc = b \<and> de_name oc = n"
      if nc: "(n, c) \<in> set (de_children ob)" for n c
    proof -
      have ob: "hp_obj h b = Some ob"
        using b h' nc by (auto simp: DetElementObject_new_def split: if_splits)
      then obtain oc where "hp_obj h c = Some oc" "de_parent oc = b" "de_name oc = n"
        using tree_wf_obj(5) [OF assms(1) ob nc] by blast
      then show ?thesis using h' none by auto
    qed
    show "\<exists>op. hp_obj h' (de_parent ob) = Some op \<and> (de_name ob, b) \<in> set (de_children op)"
      if p: "de_parent ob \<noteq> 0"
    proof -
      have ob: "hp_obj h b = Some ob"
        using b h' p by (auto simp: DetElementObject_new_def split: if_splits)
      then obtain op where "hp_obj h (de_parent ob) = Some op" "(de_name ob, b) \<in> set (de_children op)"
        using tree_wf_obj(6) [OF assms(1) ob p] by blast
      then show ?thesis using h' none by auto
    qed
  qed
  then show ?thesis using a none ch h' by (simp add: name_of_def DetElementObject_new_def)
qed

lemma det_add_Inr:
  assumes "det_add h self sdet = Inr h'" and "sdet \<noteq> self"
  obtains os od where "self \<noteq> 0" "sdet \<noteq> 0" "hp_obj h self = Some os" "hp_obj h sdet = Some od"
    "map_of (de_children os) (de_name od) = None"
    "hp_obj h' = (hp_obj h)(self \<mapsto> os\<lparr>de_children := map_assign (de_name od) sdet (de_children os)\<rparr>,
       sdet \<mapsto> od\<lparr>de_parent := self\<rparr>)" "hp_next h' = hp_next h"
proof -
  have s0: "self \<noteq> 0" using assms(1) by (cases "self = 0") (simp_all add: det_add_def)
  then obtain os nam where os: "hp_obj h self = Some os" and nam: "de_handle_name h sdet = Inr nam"
    using assms(1) by (auto simp: det_add_def bindE_Inr_iff deref_def split: option.splits)
  obtain ch b where em: "map_emplace nam sdet (de_children os) = (ch, b)" by fastforce
  have b: b using assms(1) s0 os nam em by (cases b) (auto simp: det_add_def deref_def)
  have m: "de_modify (hp_put h self (os\<lparr>de_children := ch\<rparr>)) sdet (de_parent_update (\<lambda>_. self)) = Inr h'"
    using assms(1) s0 os nam em b by (simp add: det_add_def deref_def Let_def)
  then have d0: "sdet \<noteq> 0" by (cases "sdet = 0") (simp_all add: det_access_simps)
  then obtain od where od: "hp_obj h sdet = Some od"
    using m assms(2) by (auto simp: det_access_simps bindE_Inr_iff split: option.splits)
  have "nam = de_name od" using nam d0 od by (simp add: de_handle_name_def deref_def)
  then show ?thesis
    using that [OF s0 d0 os od] em b m d0 od assms(2)
    by (auto simp: map_emplace_True det_access_simps)
qed

lemma tree_wf_add:
  assumes wf: "tree_wf h" and add: "det_add h self sdet = Inr h'"
    and root: "det_parent h sdet = Inr 0" and ch: "chain h self xs" and new: "sdet \<notin> set xs"
  shows "tree_wf h'"
proof -
  have ne: "sdet \<noteq> self" using new ch chain_hd by fastforce
  obtain os od where s0: "self \<noteq> 0" "sdet \<noteq> 0" and os: "hp_obj h self = Some os"
    and od: "hp_obj h sdet = Some od" and free: "map_of (de_children os) (de_name od) = None"
    and h': "hp_obj h' = (hp_obj h)(self \<mapsto> os\<lparr>de_children := map_assign (de_name od) sdet (de_children os)\<rparr>,
       sdet \<mapsto> od\<lparr>de_parent := self\<rparr>)" and nx: "hp_next h' = hp_next h"
    using det_add_Inr [OF add ne] by metis
  have r0: "de_parent od = 0" using root s0 od by (simp add: det_parent_def deref_def)
  have ch': "chain h' self xs"
    using ch by (rule chain_extend) (use new h' os od ne in auto)
  have chains: "\<exists>zs. chain h' b zs" if "chain h b ys" for b ys
    using that
  proof (induction rule: chain.induct)
    case (chain_root a ob)
    show ?case
    proof (cases "a = sdet")
      case True
      then show ?thesis using chain.chain_step [of sdet h' "od\<lparr>de_parent := self\<rparr>" xs] ch' s0 h' by auto
    next
      case False
      then show ?thesis using chain_root chain.chain_root [of a h'] h' os by (cases "a = self") auto
    qed
  next
    case (chain_step a ob ys)
    then obtain zs where zs: "chain h' (de_parent ob) zs" by blast
    have "a \<noteq> sdet" using chain_step.hyps r0 od by auto
    then show ?case
      using chain_step.hyps zs chain.chain_step [of a h' _ zs] h' os by (cases "a = self") auto
  qed
  show ?thesis
    unfolding tree_wf_def
  proof (intro conjI allI impI)
    show "0 < hp_next h'" "hp_obj h' 0 = None" using wf s0 h' nx by (auto simp: tree_wf_def)
    fix b ob assume b: "hp_obj h' b = Some ob"
    obtain ob0 where b0: "hp_obj h b = Some ob0" "de_name ob = de_name ob0"
      "b \<noteq> sdet \<Longrightarrow> de_parent ob = de_parent ob0" "b \<noteq> self \<Longrightarrow> de_children ob = de_children ob0"
      using b h' os od by (auto split: if_splits)
    show "b < hp_next h'" using tree_wf_obj(2) [OF wf b0(1)] nx by simp
    show "\<exists>zs. chain h' b zs" using chains tree_wf_obj(3) [OF wf b0(1)] by blast
    show "map_ok (de_children ob)"
      using b h' tree_wf_obj(4) [OF wf os] tree_wf_obj(4) [OF wf b0(1)] b0 ne by (auto split: if_splits)
    show "\<exists>oc. hp_obj h' c = Some oc \<and> de_parent oc = b \<and> de_name oc = n"
      if nc: "(n, c) \<in> set (de_children ob)" for n c
    proof (cases "b = self \<and> n = de_name od")
      case True
      have "map_of (de_children ob) n = Some sdet" using True b h' ne by auto
      moreover have "map_of (de_children ob) n = Some c"
        using nc \<open>map_ok (de_children ob)\<close> by (simp add: map_of_mem)
      ultimately show ?thesis using True h' by simp
    next
      case False
      have "map_of (de_children ob) n = Some c"
        using nc \<open>map_ok (de_children ob)\<close> by (simp add: map_of_mem)
      then have "map_of (de_children ob0) n = Some c"
        using False b b0 h' os ne by (auto split: if_splits)
      then have "(n, c) \<in> set (de_children ob0)" by (rule map_of_SomeD)
      then obtain oc where oc: "hp_obj h c = Some oc" "de_parent oc = b" "de_name oc = n"
        using tree_wf_obj(5) [OF wf b0(1)] by blast
      then have "c \<noteq> sdet" using od r0 tree_wf_obj(1) [OF wf b0(1)] by auto
      then show ?thesis using oc h' os by auto
    qed
    show "\<exists>op. hp_obj h' (de_parent ob) = Some op \<and> (de_name ob, b) \<in> set (de_children op)"
      if p: "de_parent ob \<noteq> 0"
    proof (cases "b = sdet")
      case True
      have "map_of (map_assign (de_name od) sdet (de_children os)) (de_name od) = Some sdet" by simp
      then have "(de_name od, sdet) \<in> set (map_assign (de_name od) sdet (de_children os))"
        by (rule map_of_SomeD)
      then show ?thesis using True b h' ne by auto
    next
      case False
      then have p0: "de_parent ob0 \<noteq> 0" using p b0 by simp
      then obtain op where op: "hp_obj h (de_parent ob0) = Some op" "(de_name ob0, b) \<in> set (de_children op)"
        using tree_wf_obj(6) [OF wf b0(1)] by blast
      show ?thesis
      proof (cases "de_parent ob0 = self")
        case True
        then have "map_of (de_children os) (de_name ob0) = Some b"
          using op os tree_wf_obj(4) [OF wf os] by (simp add: map_of_mem)
        moreover from this have "de_name ob0 \<noteq> de_name od" using free by auto
        ultimately have "map_of (map_assign (de_name od) sdet (de_children os)) (de_name ob0) = Some b"
          by simp
        then have "(de_name ob0, b) \<in> set (map_assign (de_name od) sdet (de_children os))"
          by (rule map_of_SomeD)
        then show ?thesis using True False b0 h' ne by auto
      next
        case nself: False
        show ?thesis
        proof (cases "de_parent ob0 = sdet")
          case True
          then show ?thesis using op od False b0 h' by auto
        qed (use nself op False b0 h' in auto)
      qed
    qed
  qed
qed

lemma same_tree_wf:
  assumes st: "same_tree h h'" and wf: "tree_wf h"
  shows "tree_wf h'"
proof -
  have bwd: "\<exists>ob'. hp_obj h b = Some ob' \<and> de_name ob' = de_name ob \<and> de_parent ob' = de_parent ob \<and>
      de_children ob' = de_children ob" if "hp_obj h' b = Some ob" for b ob
    using same_tree_obj [OF same_tree_sym [OF st] that] by metis
  have fwd: "\<exists>ob'. hp_obj h' b = Some ob' \<and> de_name ob' = de_name ob \<and> de_parent ob' = de_parent ob \<and>
      de_children ob' = de_children ob" if "hp_obj h b = Some ob" for b ob
    using same_tree_obj [OF st that] by metis
  show ?thesis
    unfolding tree_wf_def
  proof (intro conjI allI impI)
    show "0 < hp_next h'" using wf st by (simp add: tree_wf_def same_tree_def)
    have "hp_obj h 0 = None" using wf by (simp add: tree_wf_def)
    then show "hp_obj h' 0 = None" using bwd [of 0] by (cases "hp_obj h' 0") auto
    fix b ob assume b: "hp_obj h' b = Some ob"
    obtain o0 where o0: "hp_obj h b = Some o0" "de_name o0 = de_name ob" "de_parent o0 = de_parent ob"
      "de_children o0 = de_children ob" using bwd [OF b] by blast
    note w = tree_wf_obj [OF wf o0(1)]
    show "b < hp_next h'" using w(2) st by (simp add: same_tree_def)
    show "\<exists>xs. chain h' b xs" using w(3) same_tree_chain [OF st] by blast
    show "map_ok (de_children ob)" using w(4) o0 by simp
    show "\<exists>oc. hp_obj h' c = Some oc \<and> de_parent oc = b \<and> de_name oc = n"
      if "(n, c) \<in> set (de_children ob)" for n c
      using w(5) [of n c] that o0(4) fwd by metis
    show "\<exists>op. hp_obj h' (de_parent ob) = Some op \<and> (de_name ob, b) \<in> set (de_children op)"
      if "de_parent ob \<noteq> 0"
      using w(6) that o0 fwd by metis
  qed
qed

definition tree_ok :: "Heap \<Rightarrow> bool" where
  "tree_ok h \<longleftrightarrow> tree_wf h \<and> cache_ok h"

lemma tree_ok_empty: "tree_ok hp_empty"
  using tree_wf_empty by (simp add: tree_ok_def cache_ok_def) (simp add: hp_empty_def)

lemma name_of_frame: "hp_obj h' b = hp_obj h b \<Longrightarrow> name_of h' b = name_of h b"
  by (simp add: name_of_def)

lemma path_of_cong: "\<forall>b \<in> set xs. name_of h' b = name_of h b \<Longrightarrow> path_of h' xs = path_of h xs"
  by (induction xs) auto

lemma tree_ok_new:
  assumes "tree_ok h" and "DetElement_new h nam typ ident = (h', a)"
  shows "tree_ok h'"
proof -
  have wf: "tree_wf h" and c: "cache_ok h" using assms(1) by (auto simp: tree_ok_def)
  have n: "tree_wf h'" "hp_obj h a = None" "\<And>b. b \<noteq> a \<Longrightarrow> hp_obj h' b = hp_obj h b"
    using tree_wf_new [OF wf assms(2)] by auto
  have e: "hp_obj h' a = Some ob \<Longrightarrow> cache_empty ob" for ob
    using assms(2) by (auto simp: DetElement_new_def hp_new_def DetElementObject_new_def cache_empty_def)
  have "cache_empty ob \<or> cache_full h' xs ob" if b: "hp_obj h' b = Some ob" "chain h' b xs" for b ob xs
  proof (cases "b = a")
    case True
    then show ?thesis using b e by simp
  next
    case False
    then have hb: "hp_obj h b = Some ob" using b n(3) by simp
    then obtain ys where ys: "chain h b ys" using tree_wf_obj(3) [OF wf] by blast
    have na: "\<forall>c \<in> set ys. c \<noteq> a"
      using ys n(2) by (induction rule: chain.induct) auto
    have "chain h' b ys" using ys by (rule chain_extend) (use na n(3) in auto)
    then have "xs = ys" using b(2) chain_unique by blast
    moreover have "path_of h' ys = path_of h ys"
      by (rule path_of_cong) (use na n(3) in \<open>auto simp: name_of_def\<close>)
    moreover have "cache_empty ob \<or> cache_full h ys ob" using c hb ys unfolding cache_ok_def by blast
    ultimately show ?thesis by (simp add: cache_full_def)
  qed
  then show ?thesis using n(1) by (auto simp: tree_ok_def cache_ok_def)
qed

text \<open>Adding a fresh element: its caches are empty and it has no children, so no cached path can go stale.\<close>

lemma cache_ok_add:
  assumes wf: "tree_wf h" and c: "cache_ok h" and add: "det_add h self sdet = Inr h'"
    and ch: "chain h self xs" and new: "sdet \<notin> set xs"
    and od: "hp_obj h sdet = Some od" "de_parent od = 0" "de_children od = []" "cache_empty od"
  shows "cache_ok h'"
  unfolding cache_ok_def
proof (intro allI impI)
  fix b ob ys assume b: "hp_obj h' b = Some ob" "chain h' b ys"
  have ne: "sdet \<noteq> self" using new ch chain_hd by fastforce
  obtain os where os: "hp_obj h self = Some os"
    and h': "hp_obj h' = (hp_obj h)(self \<mapsto> os\<lparr>de_children := map_assign (de_name od) sdet (de_children os)\<rparr>,
       sdet \<mapsto> od\<lparr>de_parent := self\<rparr>)"
    using det_add_Inr [OF add ne] od(1) by (metis option.inject)
  show "cache_empty ob \<or> cache_full h' ys ob"
  proof (cases "b = sdet")
    case True
    then show ?thesis using b(1) h' od(4) by (auto simp: cache_empty_def)
  next
    case False
    then obtain o0 where o0: "hp_obj h b = Some o0" "de_path o0 = de_path ob" "de_level o0 = de_level ob"
      "de_key o0 = de_key ob" using b(1) h' os by (auto split: if_splits)
    obtain zs where zs: "chain h b zs" using tree_wf_obj(3) [OF wf o0(1)] by blast
    have ns: "sdet \<notin> set zs"
    proof
      assume "sdet \<in> set zs"
      then obtain us vs where z: "zs = us @ sdet # vs" by (auto dest: split_list)
      show False
      proof (cases us rule: rev_cases)
        case Nil
        then show ?thesis using zs z False chain_hd by fastforce
      next
        case (snoc us' u)
        have "chain h u (u # sdet # vs)" by (rule chain_suffix [OF zs, of us']) (use z snoc in simp)
        then obtain ou where ou: "hp_obj h u = Some ou" "de_parent ou = sdet"
        proof cases
          case (chain_step ou)
          then show ?thesis using that chain_hd by fastforce
        qed
        moreover have "sdet \<noteq> 0" using tree_wf_obj(1) [OF wf od(1)] .
        ultimately obtain op where "hp_obj h sdet = Some op" "(de_name ou, u) \<in> set (de_children op)"
          using tree_wf_obj(6) [OF wf ou(1)] by auto
        then show False using od by simp
      qed
    qed
    have "chain h' b zs" using zs by (rule chain_extend) (use ns h' os in auto)
    then have "ys = zs" using b(2) chain_unique by blast
    moreover have "path_of h' zs = path_of h zs"
      by (rule path_of_cong) (use ns h' os in \<open>auto simp: name_of_def\<close>)
    moreover have "cache_empty o0 \<or> cache_full h zs o0" using c o0(1) zs unfolding cache_ok_def by blast
    ultimately show ?thesis using o0 by (auto simp: cache_full_def cache_empty_def)
  qed
qed

text \<open>Creating an element below another one.\<close>

lemma new_child_Inr:
  assumes ok: "tree_ok h" and nc: "DetElement_new_child h p nam ident = Inr (h', a)" and ch: "chain h p xs"
  shows "tree_ok h' \<and> a = hp_next h \<and> hp_next h' = Suc (hp_next h) \<and> chain h' a (a # xs) \<and>
    path_of h' (a # xs) = path_of h xs @ ''/'' @ nam \<and> det_child h' p nam = Inr a \<and>
    det_parent h' a = Inr p \<and> (\<exists>oa. hp_obj h' a = Some oa \<and> de_children oa = [])"
proof -
  have wf: "tree_wf h" and c: "cache_ok h" using ok by (auto simp: tree_ok_def)
  obtain ty where ty: "(case DetElement_new h nam ty ident of
      (h1, a) \<Rightarrow> bindE (det_add h1 p a) (\<lambda>h2. Inr (h2, a))) = Inr (h', a)"
    using nc by (auto simp: DetElement_new_child_def bindE_Inr_iff)
  obtain h1 a1 where h1': "DetElement_new h nam ty ident = (h1, a1)" by fastforce
  with ty have h1: "DetElement_new h nam ty ident = (h1, a)" and add: "det_add h1 p a = Inr h'"
    by (auto simp: bindE_Inr_iff)
  have n: "tree_wf h1" "a = hp_next h" "hp_obj h a = None" "chain h1 a [a]" "name_of h1 a = nam"
    "\<And>b. b \<noteq> a \<Longrightarrow> hp_obj h1 b = hp_obj h b"
    using tree_wf_new [OF wf h1] by auto
  have ok1: "tree_ok h1" by (rule tree_ok_new [OF ok h1])
  have na: "\<forall>b \<in> set xs. b \<noteq> a" using ch n(3) by (induction rule: chain.induct) auto
  have ch1: "chain h1 p xs" using ch by (rule chain_extend) (use na n(6) in auto)
  have ne: "a \<noteq> p" using na ch chain_hd by fastforce
  obtain od where od: "hp_obj h1 a = Some od" "de_parent od = 0" "de_children od = []" "cache_empty od"
    "de_name od = nam"
    using h1 by (auto simp: DetElement_new_def hp_new_def DetElementObject_new_def cache_empty_def)
  have a0: "a \<noteq> 0" using tree_wf_obj(1) [OF n(1) od(1)] .
  have wf': "tree_wf h'"
    by (rule tree_wf_add [OF n(1) add _ ch1]) (use na od a0 in \<open>auto simp: det_parent_def deref_def\<close>)
  have c': "cache_ok h'"
    by (rule cache_ok_add [OF n(1) _ add ch1 _ od(1-4)]) (use na ok1 in \<open>auto simp: tree_ok_def\<close>)
  obtain os where os: "p \<noteq> 0" "hp_obj h1 p = Some os" "hp_next h' = hp_next h1"
    and h': "hp_obj h' = (hp_obj h1)(p \<mapsto> os\<lparr>de_children := map_assign nam a (de_children os)\<rparr>,
       a \<mapsto> od\<lparr>de_parent := p\<rparr>)"
    using det_add_Inr [OF add ne] od(1,5) by (metis option.inject)
  have ch': "chain h' p xs" using ch1 by (rule chain_extend) (use na h' os in auto)
  have "chain h' a (a # xs)"
    using chain.chain_step [of a h' "od\<lparr>de_parent := p\<rparr>" xs] a0 h' os(1) ch' by simp
  moreover have "path_of h' xs = path_of h xs"
  proof (rule path_of_cong)
    show "\<forall>b \<in> set xs. name_of h' b = name_of h b"
      using na h' os n(6) by (auto simp: name_of_def)
  qed
  moreover have "hp_next h1 = Suc (hp_next h)" using h1 by (auto simp: DetElement_new_def hp_new_def)
  ultimately show ?thesis
    using wf' c' n(2) os h' ne a0 od by (simp add: tree_ok_def name_of_def det_child_def det_parent_def deref_def)
qed


section \<open>Properties\<close>

text \<open>A small tree for the concrete instances: world, a calorimeter in it and one of its modules.\<close>

definition sample_build :: "Heap cpp" where
  "sample_build =
     (case DetElement_new hp_empty ''world'' [] 0 of (h0, w) \<Rightarrow>
      bindE (DetElement_new_child h0 w ''ecal'' 4) (\<lambda>(h1, d).
      bindE (DetElement_new_child h1 d ''mod7'' 7) (\<lambda>(h2, m). Inr h2)))"

definition sample_tree :: Heap where
  "sample_tree = projr sample_build"

lemma sample_tree_facts:
  "tree_ok sample_tree \<and> chain sample_tree 3 [3, 2, 1] \<and> path_of sample_tree [3, 2, 1] = ''/world/ecal/mod7'' \<and>
   hp_next sample_tree = 4 \<and> (\<exists>om. hp_obj sample_tree 3 = Some om \<and> de_children om = [])"
proof -
  obtain h0 w where h0: "DetElement_new hp_empty ''world'' [] 0 = (h0, w)" by fastforce
  have w: "w = 1" "hp_next h0 = 2" using h0 by (auto simp: DetElement_new_def hp_new_def hp_empty_def)
  have ok0: "tree_ok h0" by (rule tree_ok_new [OF tree_ok_empty h0])
  have c0: "chain h0 1 [1]" "name_of h0 1 = ''world''"
    using tree_wf_new [OF tree_wf_empty h0] w by auto
  have "is_ok (DetElement_new_child h0 1 ''ecal'' 4)"
    using h0 by (auto simp: DetElement_new_child_def det_type_def deref_def DetElement_new_def hp_new_def
        hp_empty_def det_add_def de_handle_name_def map_emplace_def de_modify_def de_access_def hp_put_def
        DetElementObject_new_def Let_def)
  then obtain h1 d where h1: "DetElement_new_child h0 1 ''ecal'' 4 = Inr (h1, d)" by (auto simp: is_ok_iff)
  note n1 = new_child_Inr [OF ok0 h1 c0(1)]
  have d: "d = 2" "hp_next h1 = 3" "chain h1 2 [2, 1]" using n1 w by auto
  have "is_ok (DetElement_new_child h1 2 ''mod7'' 7)"
    using h0 h1 w by (auto simp: DetElement_new_child_def det_type_def deref_def DetElement_new_def hp_new_def
        hp_empty_def det_add_def de_handle_name_def map_emplace_def de_modify_def de_access_def hp_put_def
        DetElementObject_new_def Let_def)
  then obtain h2 m where h2: "DetElement_new_child h1 2 ''mod7'' 7 = Inr (h2, m)" by (auto simp: is_ok_iff)
  note n2 = new_child_Inr [OF _ h2 d(3)]
  have s: "sample_tree = h2" using h0 h1 h2 w d by (simp add: sample_tree_def sample_build_def)
  have m: "m = 3" using n1 n2 d(2) by simp
  have "path_of h1 [2, 1] = ''/world/ecal''" using n1 d(1) c0(2) by simp
  then show ?thesis using n1 n2 d(2) unfolding s m by simp
qed

text \<open>C17. The cached path, level and key of an element of a well-formed tree: the calls return, give the
  slash-joined names from the world down, the depth and the hash of the path, change nothing but
  caches, keep the tree well-formed and the caches right, and a second call gives the same.\<close>

theorem det_path_spec:
  assumes "tree_ok h" and "chain h a xs" and "length xs < 2 ^ 31"
  shows "\<exists>h'. det_path h a = Some (Inr (h', path_of h xs)) \<and> same_tree h h' \<and> tree_ok h' \<and>
      det_path h' a = Some (Inr (h', path_of h xs)) \<and>
      (\<exists>h1 h2. det_level h' a = Some (Inr (h1, of_nat (length xs - 1))) \<and>
         det_key h' a = Some (Inr (h2, hash32 (path_of h xs))) \<and> same_tree h h1 \<and> same_tree h h2)"
proof -
  have c: "cache_ok h" and wf: "tree_wf h" using assms(1) by (auto simp: tree_ok_def)
  obtain h' where h': "det_path h a = Some (Inr (h', path_of h xs))" "same_tree h h'" "cache_ok h'"
    using det_path_chain [OF assms(2) c assms(3)] by blast
  have ch': "chain h' a xs" using same_tree_chain [OF h'(2) assms(2)] .
  have p': "path_of h' xs = path_of h xs" by (rule same_tree_path [OF h'(2)])
  have "det_path h' a = Some (Inr (h', path_of h xs))"
  proof -
    obtain ob where a: "a \<noteq> 0" "hp_obj h' a = Some ob" using chain_obj [OF ch'] by blast
    have "de_path ob = path_of h xs"
    proof (rule ccontr)
      assume "de_path ob \<noteq> path_of h xs"
      obtain ob0 where a0: "hp_obj h a = Some ob0" using chain_obj [OF assms(2)] by blast
      show False
      proof (cases "de_path ob0 = []")
        case True
        then obtain h1 ob1 where "make_path h a = Some (Inr h1)" "hp_obj h1 a = Some ob1" "cache_full h xs ob1"
          using make_path_chain [OF assms(2) c assms(3)] by blast
        then show False using h'(1) a a0 True \<open>de_path ob \<noteq> path_of h xs\<close>
          by (simp add: det_path_def cached_def deref_def cache_full_def)
      next
        case False
        then show False using h'(1) a a0 \<open>de_path ob \<noteq> path_of h xs\<close>
          by (simp add: det_path_def cached_def)
      qed
    qed
    then show ?thesis using a path_of_nonempty [OF assms(2)] by (simp add: det_path_def cached_def)
  qed
  moreover obtain h1 where "det_level h' a = Some (Inr (h1, of_nat (length xs - 1)))" "same_tree h' h1"
    using det_level_chain [OF ch' h'(3) assms(3)] by blast
  moreover obtain h2 where "det_key h' a = Some (Inr (h2, hash32 (path_of h xs)))" "same_tree h' h2"
    using det_key_chain [OF ch' h'(3) assms(3)] p' by auto
  ultimately show ?thesis
    using h' same_tree_wf [OF h'(2) wf] same_tree_trans [OF h'(2)] by (auto simp: tree_ok_def)
qed

theorem det_path_spec_witness:
  "\<exists>h'. det_path sample_tree 3 = Some (Inr (h', ''/world/ecal/mod7'')) \<and> same_tree sample_tree h'"
proof -
  have s: "tree_ok sample_tree" "chain sample_tree 3 [3, 2, 1]"
    "path_of sample_tree [3, 2, 1] = ''/world/ecal/mod7''" using sample_tree_facts by auto
  have "length [3, 2, 1 :: handle] < 2 ^ 31" by simp
  from det_path_spec [OF s(1,2) this] show ?thesis using s(3) by auto
qed

text \<open>Adding a parentless element below an element that is not its descendant: the call succeeds exactly
  when the name is free among the children; then the child is found by its name, its parent is
  the element, all other children and elements are untouched, and the tree stays well-formed
  (in particular without cycle).\<close>

theorem det_add_spec:
  assumes "tree_wf h" and "chain h self xs" and "hp_obj h sdet = Some od" and "de_parent od = 0"
    and "sdet \<notin> set xs"
  shows "(is_ok (det_add h self sdet) \<longleftrightarrow> \<not> is_ok (det_child h self (de_name od))) \<and>
    (\<forall>h'. det_add h self sdet = Inr h' \<longrightarrow>
       tree_wf h' \<and> det_child h' self (de_name od) = Inr sdet \<and> det_parent h' sdet = Inr self \<and>
       (\<forall>n. n \<noteq> de_name od \<longrightarrow> det_child h' self n = det_child h self n) \<and>
       (\<forall>b. b \<noteq> self \<longrightarrow> b \<noteq> sdet \<longrightarrow> hp_obj h' b = hp_obj h b))"
proof (intro conjI allI impI)
  obtain os where os: "self \<noteq> 0" "hp_obj h self = Some os" using chain_obj [OF assms(2)] by blast
  have d0: "sdet \<noteq> 0" by (rule tree_wf_obj(1) [OF assms(1,3)])
  have ne: "sdet \<noteq> self" using assms(2,5) chain_hd by fastforce
  show "is_ok (det_add h self sdet) \<longleftrightarrow> \<not> is_ok (det_child h self (de_name od))"
    using os d0 ne assms(3)
    by (simp add: det_add_def det_child_def de_handle_name_def deref_def map_emplace_def de_modify_def
        de_access_def hp_put_def Let_def split: option.splits)
  fix h' assume add: "det_add h self sdet = Inr h'"
  have h': "hp_obj h' = (hp_obj h)(self \<mapsto> os\<lparr>de_children := map_assign (de_name od) sdet (de_children os)\<rparr>,
       sdet \<mapsto> od\<lparr>de_parent := self\<rparr>)"
    using det_add_Inr [OF add ne] os(2) assms(3) by (metis option.inject)
  show "tree_wf h'"
    by (rule tree_wf_add [OF assms(1) add _ assms(2,5)])
      (use assms(3,4) d0 in \<open>simp add: det_parent_def deref_def\<close>)
  show "det_child h' self (de_name od) = Inr sdet" "det_parent h' sdet = Inr self"
    using os ne d0 h' by (simp_all add: det_child_def det_parent_def deref_def)
  show "det_child h' self n = det_child h self n" if "n \<noteq> de_name od" for n
    using os ne d0 h' that by (simp add: det_child_def deref_def)
  show "hp_obj h' b = hp_obj h b" if "b \<noteq> self" "b \<noteq> sdet" for b
    using h' that by simp
qed

theorem det_add_spec_witness:
  "\<exists>h a h'. DetElement_new sample_tree ''mod8'' [] 8 = (h, a) \<and> det_add h 3 a = Inr h' \<and> tree_wf h' \<and>
     det_child h' 3 ''mod8'' = Inr a"
proof -
  obtain h a where h: "DetElement_new sample_tree ''mod8'' [] 8 = (h, a)" by fastforce
  have wf: "tree_wf sample_tree" "chain sample_tree 3 [3, 2, 1]" "hp_next sample_tree = 4"
    using sample_tree_facts by (auto simp: tree_ok_def)
  obtain om where om: "hp_obj sample_tree 3 = Some om" "de_children om = []" using sample_tree_facts by blast
  have n: "tree_wf h" "a = 4" "hp_obj sample_tree a = None" "\<And>b. b \<noteq> a \<Longrightarrow> hp_obj h b = hp_obj sample_tree b"
    using tree_wf_new [OF wf(1) h] wf(3) by auto
  have ch: "chain h 3 [3, 2, 1]" by (rule chain_extend [OF wf(2)]) (use n in auto)
  obtain od where od: "hp_obj h a = Some od" "de_parent od = 0" "de_name od = ''mod8''"
    using h by (auto simp: DetElement_new_def hp_new_def DetElementObject_new_def)
  have "a \<notin> set [3, 2, 1 :: handle]" using n(2) by simp
  note spec = det_add_spec [OF n(1) ch od(1,2) this]
  have "\<not> is_ok (det_child h 3 ''mod8'')"
    using om n(2,4) by (simp add: det_child_def deref_def)
  then obtain h' where "det_add h 3 a = Inr h'" using spec od(3) by (auto simp: is_ok_iff)
  then show ?thesis using spec h od(3) by auto
qed

end
