(* ===== verification/CxxString.thy ===== *)
theory CxxString
  imports StdMap
begin

text \<open>
  The part of \<open>std::string\<close> that the modelled code uses: searching, substrings and element access.
  A search gives None for \<open>npos\<close>; a position past the end throws \<open>std::out_of_range\<close> where the
  library says so.
\<close>

definition nul :: char where
  "nul = CHR 0x00"

text \<open>\<open>s[i]\<close>: the terminating character at the end, undefined beyond it.\<close>

definition char_at :: "string \<Rightarrow> nat \<Rightarrow> char cpp" where
  "char_at s i = (if i < length s then Inr (s ! i) else if i = length s then Inr nul
     else Inl (UndefinedBehaviour ''string index''))"

definition find_char :: "char \<Rightarrow> nat \<Rightarrow> string \<Rightarrow> nat option" where
  "find_char c pos s = (let t = drop pos s in
     if c \<in> set t then Some (pos + length (takeWhile (\<lambda>x. x \<noteq> c) t)) else None)"

definition rfind_char :: "char \<Rightarrow> string \<Rightarrow> nat option" where
  "rfind_char c s = (if c \<in> set s then Some (length s - 1 - length (takeWhile (\<lambda>x. x \<noteq> c) (rev s))) else None)"

text \<open>\<open>s.find(pat, pos)\<close>\<close>

fun find_from :: "string \<Rightarrow> nat \<Rightarrow> string \<Rightarrow> nat option" where
  "find_from pat pos [] = (if pat = [] then Some pos else None)"
| "find_from pat pos (c # s) = (if take (length pat) (c # s) = pat then Some pos else find_from pat (Suc pos) s)"

definition find_str :: "string \<Rightarrow> nat \<Rightarrow> string \<Rightarrow> nat option" where
  "find_str pat pos s = (if pos \<le> length s then find_from pat pos (drop pos s) else None)"

definition out_of_range :: cpp_error where
  "out_of_range = OutOfRange ''basic_string''"

definition substr :: "string \<Rightarrow> nat \<Rightarrow> nat \<Rightarrow> string cpp" where
  "substr s pos n = (if length s < pos then Inl out_of_range else Inr (take n (drop pos s)))"

definition substr_from :: "string \<Rightarrow> nat \<Rightarrow> string cpp" where
  "substr_from s pos = (if length s < pos then Inl out_of_range else Inr (drop pos s))"

definition str_erase :: "string \<Rightarrow> nat \<Rightarrow> nat \<Rightarrow> string cpp" where
  "str_erase s pos n = (if length s < pos then Inl out_of_range else Inr (take pos s @ drop (pos + n) s))"

lemma char_at_0 [simp]: "char_at [] 0 = Inr nul" "char_at (c # s) 0 = Inr c"
  by (simp_all add: char_at_def)

lemma find_char_Some:
  assumes "find_char c pos s = Some i"
  shows "pos \<le> i" "i < length s" "s ! i = c" "\<forall>j. pos \<le> j \<longrightarrow> j < i \<longrightarrow> s ! j \<noteq> c"
proof -
  let ?t = "drop pos s" and ?n = "length (takeWhile (\<lambda>x. x \<noteq> c) (drop pos s))"
  have i: "i = pos + ?n" and c: "c \<in> set ?t"
    using assms by (auto simp: find_char_def Let_def split: if_splits)
  have n: "?n < length ?t"
    using c by (metis (mono_tags, lifting) length_takeWhile_le order_le_less takeWhile_eq_all_conv
        takeWhile_eq_take take_all_iff nless_le)
  then have "?t ! ?n = c" using nth_length_takeWhile by blast
  with n i show "pos \<le> i" "i < length s" "s ! i = c" by auto
  show "\<forall>j. pos \<le> j \<longrightarrow> j < i \<longrightarrow> s ! j \<noteq> c"
  proof (intro allI impI)
    fix j assume j: "pos \<le> j" "j < i"
    then have "j - pos < ?n" using i by simp
    then have "?t ! (j - pos) \<noteq> c"
      by (metis (mono_tags, lifting) nth_mem set_takeWhileD takeWhile_nth)
    then show "s ! j \<noteq> c" using j n i by simp
  qed
qed

lemma find_char_None: "find_char c pos s = None \<longleftrightarrow> c \<notin> set (drop pos s)"
  by (simp add: find_char_def Let_def)

lemma find_char_split: "c \<notin> set xs \<Longrightarrow> find_char c 0 (xs @ c # ys) = Some (length xs)"
proof -
  assume c: "c \<notin> set xs"
  then have "takeWhile (\<lambda>x. x \<noteq> c) (xs @ c # ys) = xs" by (subst takeWhile_append2) (use c in auto)
  then show ?thesis by (simp add: find_char_def)
qed

lemma find_char_split_Cons: "c \<notin> set xs \<Longrightarrow> find_char c (Suc 0) (x # xs @ c # ys) = Some (Suc (length xs))"
proof -
  assume c: "c \<notin> set xs"
  then have "takeWhile (\<lambda>x. x \<noteq> c) (xs @ c # ys) = xs" by (subst takeWhile_append2) (use c in auto)
  then show ?thesis by (simp add: find_char_def)
qed

lemmas [cpp_eval] = find_char_def rfind_char_def find_str_def substr_def substr_from_def
  str_erase_def char_at_def nul_def

end
