(* ===== verification/DetectorTools.thy ===== *)
theory DetectorTools
  imports DetElement CxxString
begin

text \<open>
  Paths of detector elements and placements (DDCore/src/DetectorTools.cpp). Loops that follow
  \<open>parent()\<close> are partial functions: on a cyclic tree the code does not return and the result is
  None; on a well-formed tree they return, which is part of the properties. Recursions over nodes
  and over the characters of a path terminate and are total.
\<close>

section \<open>Model\<close>

definition invalid_search :: cpp_error where
  "invalid_search = RuntimeError ''Search for parent detector element with invalid handles not allowed.''"

text \<open>\<open>isParentElement\<close>: the loop falls through to the \<open>throw\<close> when the parent is not met.\<close>

partial_function (option) isParent_loop :: "Heap \<Rightarrow> handle \<Rightarrow> handle \<Rightarrow> bool cpp option" where
  "isParent_loop h parent par =
     (if par = 0 then Some (Inl invalid_search)
      else if par = parent then Some (Inr True)
      else case hp_obj h par of
        None \<Rightarrow> Some (Inl dangling)
      | Some ob \<Rightarrow> isParent_loop h parent (de_parent ob))"

definition isParentElement :: "Heap \<Rightarrow> handle \<Rightarrow> handle \<Rightarrow> bool cpp option" where
  "isParentElement h parent child =
     (if parent \<noteq> 0 \<and> child \<noteq> 0 then
        (if parent = child then Some (Inr True) else isParent_loop h parent child)
      else Some (Inl invalid_search))"

text \<open>\<open>elementPath(element, detectors)\<close> appends the chain to the container.\<close>

partial_function (option) elementPath_top :: "Heap \<Rightarrow> handle \<Rightarrow> handle list \<Rightarrow> handle list cpp option" where
  "elementPath_top h par detectors =
     (if par = 0 then Some (Inr detectors)
      else case hp_obj h par of
        None \<Rightarrow> Some (Inl dangling)
      | Some ob \<Rightarrow> elementPath_top h (de_parent ob) (detectors @ [par]))"

definition no_parent_of :: "Heap \<Rightarrow> handle \<Rightarrow> handle \<Rightarrow> cpp_error" where
  "no_parent_of h parent child =
     (case (de_handle_name h parent, de_handle_name h child) of
        (Inr p, Inr c) \<Rightarrow> RuntimeError (''The detector element '' @ p @ '' is no parent of '' @ c)
      | _ \<Rightarrow> dangling)"

partial_function (option) elementPath_loop ::
    "Heap \<Rightarrow> handle \<Rightarrow> handle \<Rightarrow> handle \<Rightarrow> handle list \<Rightarrow> handle list cpp option" where
  "elementPath_loop h parent child par elements =
     (if par = 0 then Some (Inl (no_parent_of h parent child))
      else if par = parent then Some (Inr (elements @ [par]))
      else case hp_obj h par of
        None \<Rightarrow> Some (Inl dangling)
      | Some ob \<Rightarrow> elementPath_loop h parent child (de_parent ob) (elements @ [par]))"

definition elementPath_parent :: "Heap \<Rightarrow> handle \<Rightarrow> handle \<Rightarrow> handle list cpp option" where
  "elementPath_parent h parent child =
     (if parent \<noteq> 0 \<and> child \<noteq> 0 then
        (if parent = child then Some (Inr [child]) else elementPath_loop h parent child child [])
      else Some (Inl invalid_search))"

text \<open>The placements of the elements of the chain; elements without placement are skipped.\<close>

partial_function (option) placements_top :: "Heap \<Rightarrow> handle \<Rightarrow> PlacedVolume list \<Rightarrow> PlacedVolume list cpp option" where
  "placements_top h par nodes =
     (if par = 0 then Some (Inr nodes)
      else case hp_obj h par of
        None \<Rightarrow> Some (Inl dangling)
      | Some ob \<Rightarrow> placements_top h (de_parent ob)
          (case de_placement ob of None \<Rightarrow> nodes | Some pv \<Rightarrow> nodes @ [pv]))"

partial_function (option) placements_loop ::
    "Heap \<Rightarrow> handle \<Rightarrow> handle \<Rightarrow> handle \<Rightarrow> PlacedVolume list \<Rightarrow> PlacedVolume list cpp option" where
  "placements_loop h parent element par det_nodes =
     (if par = 0 then Some (Inl (no_parent_of h parent element))
      else case hp_obj h par of
        None \<Rightarrow> Some (Inl dangling)
      | Some ob \<Rightarrow>
          (let nodes = (case de_placement ob of None \<Rightarrow> det_nodes | Some pv \<Rightarrow> det_nodes @ [pv]) in
           if par = parent then Some (Inr nodes)
           else placements_loop h parent element (de_parent ob) nodes))"

text \<open>With an invalid parent the path goes up to the world, which \<open>world()\<close> may cache in the store.\<close>

definition placements_parent :: "Heap \<Rightarrow> handle \<Rightarrow> handle \<Rightarrow> PlacedVolume list cpp option" where
  "placements_parent h parent element =
     (if element \<noteq> 0 then
        (if parent = 0 then
           Option.bind (det_world h element) (\<lambda>r. case r of
             Inl e \<Rightarrow> Some (Inl e)
           | Inr (h', w) \<Rightarrow> placements_loop h' w element element [])
         else placements_loop h parent element element [])
      else Some (Inl (RuntimeError ''Cannot access element path [Invalid DetElement]'')))"

text \<open>\<open>elementPath(nodes, reverse)\<close> and \<open>placementPath(nodes, reverse)\<close>: names joined with slashes.\<close>

definition join_path :: "string list \<Rightarrow> bool \<Rightarrow> string" where
  "join_path names rvs = foldl (\<lambda>path n. path @ ''/'' @ n) [] (if rvs then rev names else names)"

definition element_names :: "Heap \<Rightarrow> handle list \<Rightarrow> string list cpp" where
  "element_names h nodes = foldE (\<lambda>ns a. bindE (deref h a) (\<lambda>ob. Inr (ns @ [de_name ob]))) [] nodes"

definition elementPath_string :: "Heap \<Rightarrow> handle list \<Rightarrow> bool \<Rightarrow> string cpp" where
  "elementPath_string h nodes rvs = bindE (element_names h nodes) (\<lambda>ns. Inr (join_path ns rvs))"

definition elementPath :: "Heap \<Rightarrow> handle \<Rightarrow> string cpp option" where
  "elementPath h element =
     Option.bind (elementPath_top h element []) (\<lambda>r. Some (bindE r (\<lambda>nodes. elementPath_string h nodes True)))"

definition placementPath_string :: "PlacedVolume list \<Rightarrow> bool \<Rightarrow> string" where
  "placementPath_string nodes rvs = join_path (List.map pv_name nodes) rvs"

subsection \<open>Looking up elements by path\<close>

partial_function (option) topElement :: "Heap \<Rightarrow> handle \<Rightarrow> handle cpp option" where
  "topElement h child =
     (if child \<noteq> 0 then
        (case hp_obj h child of
           None \<Rightarrow> Some (Inl dangling)
         | Some ob \<Rightarrow> if de_parent ob \<noteq> 0 then topElement h (de_parent ob) else Some (Inr child))
      else Some (Inl (RuntimeError ''dd4hep: DetElement cannot determine top parent (world) [invalid handle]'')))"

lemmas [code] = topElement.simps isParent_loop.simps elementPath_top.simps elementPath_loop.simps
  placements_top.simps placements_loop.simps

definition no_such_child :: "string \<Rightarrow> cpp_error" where
  "no_such_child nam = RuntimeError (''dd4hep: DetElement has no child named:'' @ nam @ '' [No such child]'')"

function findDaughterElement :: "Heap \<Rightarrow> handle \<Rightarrow> string \<Rightarrow> handle cpp option" where
  "findDaughterElement h parent subpath =
     (if parent \<noteq> 0 then
        (case (char_at subpath 0, find_char CHR ''/'' 1 subpath) of
           (Inl e, _) \<Rightarrow> Some (Inl e)
         | (Inr c, idx) \<Rightarrow>
           if c = CHR ''/'' then
             (case topElement h parent of
                None \<Rightarrow> None
              | Some (Inl e) \<Rightarrow> Some (Inl e)
              | Some (Inr wtop) \<Rightarrow>
                  (case idx of
                     None \<Rightarrow> Some (Inr wtop)
                   | Some i \<Rightarrow> findDaughterElement h wtop (drop (i + 1) subpath)))
           else
             (case idx of
                None \<Rightarrow> Some (det_child h parent subpath)
              | Some i \<Rightarrow>
                  (case det_child h parent (take i subpath) of
                     Inl e \<Rightarrow> Some (Inl e)
                   | Inr node \<Rightarrow>
                       if node \<noteq> 0 then findDaughterElement h node (drop (i + 1) subpath)
                       else Some (Inl (no_such_child (take i subpath))))))
      else Some (Inl (RuntimeError (''dd4hep: Cannot determine child with path '' @ subpath @
             '' from invalid parent [invalid handle]''))))"
  by pat_completeness auto
termination
  by (relation "measure (\<lambda>(h, p, s). length s)") (auto dest!: sym [of "Some _"] find_char_Some(2))

declare findDaughterElement.simps [simp del]

text \<open>\<open>findElement(description, path)\<close> starts at the world of the description.\<close>

definition findElement :: "Heap \<Rightarrow> handle \<Rightarrow> string \<Rightarrow> handle cpp option" where
  "findElement h world path = findDaughterElement h world path"

function pathElements_loop :: "string \<Rightarrow> string list" where
  "pathElements_loop tmp =
     (case find_char CHR ''/'' 0 tmp of
        None \<Rightarrow> if tmp \<noteq> [] then [tmp] else []
      | Some idx \<Rightarrow> take idx tmp # pathElements_loop (drop (idx + 1) tmp))"
  by pat_completeness auto
termination
  by (relation "measure length") (auto dest!: sym [of "Some _"] find_char_Some(2))

declare pathElements_loop.simps [simp del]

definition pathElements :: "string \<Rightarrow> string list" where
  "pathElements path =
     (if path \<noteq> [] then pathElements_loop (if hd path = CHR ''/'' then tl path else path) else [])"

subsection \<open>Placements\<close>

text \<open>
  \<open>findChild\<close> and \<open>findChildByName\<close> are the same search with a different test; the result is what
  the search appends to the path, None when it returns false.
\<close>

fun find_child :: "(PlacedVolume \<Rightarrow> PlacedVolume \<Rightarrow> bool) \<Rightarrow> PlacedVolume \<Rightarrow> PlacedVolume \<Rightarrow> PlacedVolume list option"
  and find_below :: "(PlacedVolume \<Rightarrow> PlacedVolume \<Rightarrow> bool) \<Rightarrow> PlacedVolume list \<Rightarrow> PlacedVolume \<Rightarrow> PlacedVolume list option"
where
  "find_child same (TGeoNode p n ids sens m nodes) child =
     (if same (TGeoNode p n ids sens m nodes) child then Some [child]
      else case List.find (\<lambda>d. same d child) nodes of
        Some d \<Rightarrow> Some [d]
      | None \<Rightarrow> find_below same nodes child)"
| "find_below same [] child = None"
| "find_below same (d # ds) child =
     (case find_child same d child of
        Some sub_path \<Rightarrow> Some (sub_path @ [d])
      | None \<Rightarrow> find_below same ds child)"

definition findChild :: "PlacedVolume option \<Rightarrow> PlacedVolume option \<Rightarrow> PlacedVolume list option" where
  "findChild parent child =
     (case (parent, child) of
        (Some p, Some c) \<Rightarrow> find_child (\<lambda>a b. pv_ptr a = pv_ptr b) p c
      | _ \<Rightarrow> None)"

definition findChildByName :: "PlacedVolume \<Rightarrow> PlacedVolume \<Rightarrow> PlacedVolume list option" where
  "findChildByName = find_child (\<lambda>a b. pv_name a = pv_name b)"

fun placement_segments :: "PlacedVolume list \<Rightarrow> PlacedVolume list \<Rightarrow> PlacedVolume list cpp" where
  "placement_segments (c # p # rest) all_nodes =
     (case findChildByName p c of
        None \<Rightarrow> Inl (RuntimeError (''dd4hep: DetElement cannot determine placement path of '' @ pv_name c @ '' [internal error]''))
      | Some path \<Rightarrow> placement_segments (p # rest) (all_nodes @ path))"
| "placement_segments _ all_nodes = Inr all_nodes"

definition makePlacementPath :: "PlacedVolume list \<Rightarrow> PlacedVolume list \<Rightarrow> PlacedVolume list cpp" where
  "makePlacementPath det_nodes all_nodes =
     bindE (placement_segments det_nodes all_nodes) (\<lambda>nodes.
       Inr (if det_nodes \<noteq> [] then nodes @ [last det_nodes] else nodes))"

definition placementPath :: "Heap \<Rightarrow> handle \<Rightarrow> PlacedVolume list \<Rightarrow> PlacedVolume list cpp option" where
  "placementPath h element all_nodes =
     Option.bind (placements_top h element []) (\<lambda>r. Some (bindE r (\<lambda>det_nodes. makePlacementPath det_nodes all_nodes)))"

definition placementPath_parent :: "Heap \<Rightarrow> handle \<Rightarrow> handle \<Rightarrow> PlacedVolume list \<Rightarrow> PlacedVolume list cpp option" where
  "placementPath_parent h parent element all_nodes =
     Option.bind (placements_parent h parent element) (\<lambda>r. Some (bindE r (\<lambda>det_nodes. makePlacementPath det_nodes all_nodes)))"

definition placementPath_of :: "Heap \<Rightarrow> handle \<Rightarrow> string cpp option" where
  "placementPath_of h element =
     Option.bind (placementPath h element []) (\<lambda>r. Some (bindE r (\<lambda>path. Inr (placementPath_string path True))))"

text \<open>ROOT's matrices: the identity, multiplication from the left with a node's matrix, the inverse.\<close>

record 'h TGeo =
  gGeoIdentity :: 'h
  MultiplyLeft :: "'h \<Rightarrow> nat \<Rightarrow> 'h"
  Inverse :: "'h \<Rightarrow> 'h"

definition placementTrafo :: "'h TGeo \<Rightarrow> PlacedVolume list \<Rightarrow> bool \<Rightarrow> 'h" where
  "placementTrafo tg nodes invert =
     (if nodes \<noteq> [] then
        (let mat = foldl (\<lambda>mat p. MultiplyLeft tg mat (pv_matrix p)) (gGeoIdentity tg) (butlast nodes) in
         if invert then Inverse tg mat else mat)
      else gGeoIdentity tg)"

text \<open>
  \<open>findNode\<close>: the first component must be the name of the top node, the others name daughters
  (\<open>TGeoVolume::GetNode\<close>, the first node of that name). The positions are the code's \<open>int\<close>s.
\<close>

definition index_from :: "string \<Rightarrow> int \<Rightarrow> int" where
  "index_from spath start = (case find_char CHR ''/'' (nat start) spath of None \<Rightarrow> - 1 | Some i \<Rightarrow> int i)"

definition between :: "string \<Rightarrow> int \<Rightarrow> int \<Rightarrow> string" where
  "between spath ind1 ind2 = take (nat (ind2 - ind1 - 1)) (drop (nat (ind1 + 1)) spath)"

function findNode_loop :: "string \<Rightarrow> int \<Rightarrow> PlacedVolume \<Rightarrow> PlacedVolume option" where
  "findNode_loop spath ind1 node =
     (let i = index_from spath (ind1 + 1);
          ind2 = (if i < 0 then int (length spath) else i)
      in case List.find (\<lambda>d. pv_name d = between spath ind1 ind2) (pv_nodes node) of
           None \<Rightarrow> None
         | Some d \<Rightarrow>
             if int (length spath) - 1 \<le> ind2 then Some d
             else if ind1 < ind2 then findNode_loop spath ind2 d
             else None)"
  by pat_completeness auto
termination
  by (relation "measure (\<lambda>(s, i, n). nat (int (length s) - i))") (auto split: if_splits)

declare findNode_loop.simps [simp del]

definition findNode :: "PlacedVolume \<Rightarrow> string \<Rightarrow> PlacedVolume option" where
  "findNode top_place place =
     (if place = [] then None
      else let i1 = index_from place 0 in
        if i1 < 0 then (if place \<noteq> pv_name top_place then None else Some top_place)
        else
          let ind1 = (if 0 < i1 then - 1 else i1);
              i2 = (if 0 < i1 then i1 else index_from place (i1 + 1));
              ind2 = (if i2 < 0 then int (length place) else i2)
          in if between place ind1 ind2 = pv_name top_place then
               (if int (length place) - 1 \<le> ind2 then Some top_place else findNode_loop place ind2 top_place)
             else None)"

definition volIDs_toString :: "VolIDs \<Rightarrow> string" where
  "volIDs_toString ids = concat (List.map (\<lambda>(n, v). n @ ''='' @ show_int (sint v) @ ''; '') ids)"

definition volIDs_describe :: "IDDescriptor \<Rightarrow> VolIDs \<Rightarrow> u64 \<Rightarrow> string cpp" where
  "volIDs_describe dsc ids code =
     foldE (\<lambda>log (n, v). bindE (idd_field dsc n) (\<lambda>f.
        Inr (log @ n @ ''='' @ show_int (sint v) @ '','' @ show_nat (unat (bf_value f code)) @ '' ['' @
             show_nat (unat (bf_offset f)) @ '','' @ show_nat (unat (bf_width f)) @ ''] ''))) [] ids"

section \<open>Lemmas\<close>

lemma elementPath_top_chain: "chain h a xs \<Longrightarrow> elementPath_top h a acc = Some (Inr (acc @ xs))"
proof (induction arbitrary: acc rule: chain.induct)
  case (chain_root a ob)
  then show ?case by (subst elementPath_top.simps) (simp add: elementPath_top.simps [of h 0])
next
  case (chain_step a ob xs)
  then show ?case by (subst elementPath_top.simps) simp
qed

lemma isParent_loop_chain:
  "chain h a xs \<Longrightarrow> isParent_loop h parent a =
     Some (if parent \<in> set xs then Inr True else Inl invalid_search)"
proof (induction rule: chain.induct)
  case (chain_root a ob)
  then show ?case by (subst isParent_loop.simps) (simp add: isParent_loop.simps [of h parent 0])
next
  case (chain_step a ob xs)
  then show ?case by (subst isParent_loop.simps) auto
qed

lemma elementPath_loop_chain:
  "chain h a xs \<Longrightarrow> elementPath_loop h parent child a acc =
     Some (if parent \<in> set xs then Inr (acc @ takeWhile (\<lambda>b. b \<noteq> parent) xs @ [parent])
           else Inl (no_parent_of h parent child))"
proof (induction arbitrary: acc rule: chain.induct)
  case (chain_root a ob)
  then show ?case
    by (subst elementPath_loop.simps) (auto simp: elementPath_loop.simps [of h parent child 0])
next
  case (chain_step a ob xs)
  then show ?case by (subst elementPath_loop.simps) auto
qed

lemma topElement_chain: "chain h a xs \<Longrightarrow> topElement h a = Some (Inr (last xs))"
proof (induction rule: chain.induct)
  case (chain_root a ob)
  then show ?case by (subst topElement.simps) simp
next
  case (chain_step a ob xs)
  then have "xs \<noteq> []" using chain_hd by fastforce
  then show ?case using chain_step by (subst topElement.simps) simp
qed

lemma join_path_append: "foldl (\<lambda>path n. path @ ''/'' @ n) p ns = p @ concat (List.map (\<lambda>n. ''/'' @ n) ns)"
  by (induction ns arbitrary: p) simp_all

lemma join_path_simps [simp]:
  "join_path ns True = concat (List.map (\<lambda>n. ''/'' @ n) (rev ns))"
  "join_path ns False = concat (List.map (\<lambda>n. ''/'' @ n) ns)"
  by (simp_all add: join_path_def join_path_append [of "[]", simplified])

lemma path_of_concat: "path_of h xs = concat (List.map (\<lambda>a. ''/'' @ name_of h a) (rev xs))"
  by (induction xs) simp_all

lemma element_names_chain: "\<forall>a \<in> set xs. hp_obj h a \<noteq> None \<Longrightarrow> element_names h xs = Inr (List.map (name_of h) xs)"
proof (induction xs rule: rev_induct)
  case (snoc a xs)
  then obtain ob where "hp_obj h a = Some ob" by auto
  then show ?case using snoc by (simp add: element_names_def foldE_append deref_def name_of_def)
qed (simp add: element_names_def)

lemma chain_objs: "chain h a xs \<Longrightarrow> b \<in> set xs \<Longrightarrow> hp_obj h b \<noteq> None \<and> b \<noteq> 0"
  by (induction rule: chain.induct) auto

lemma elementPath_chain: "chain h a xs \<Longrightarrow> elementPath h a = Some (Inr (path_of h xs))"
  using chain_objs [of h a xs]
  by (simp add: elementPath_def elementPath_top_chain elementPath_string_def element_names_chain
      path_of_concat rev_map comp_def)

subsection \<open>Finding an element by its path\<close>

definition slash_free :: "string \<Rightarrow> bool" where
  "slash_free n \<longleftrightarrow> CHR ''/'' \<notin> set n"

fun rel_path :: "string list \<Rightarrow> string" where
  "rel_path [] = []"
| "rel_path [n] = n"
| "rel_path (n # ns) = n @ ''/'' @ rel_path ns"

lemma concat_rel_path: "ns \<noteq> [] \<Longrightarrow> concat (List.map (\<lambda>n. ''/'' @ n) ns) = ''/'' @ rel_path ns"
  by (induction ns rule: rel_path.induct) auto

text \<open>A walk from an element down to children, each found under its name.\<close>

fun descent :: "Heap \<Rightarrow> handle \<Rightarrow> handle list \<Rightarrow> bool" where
  "descent h p [] \<longleftrightarrow> True"
| "descent h p (d # ds) \<longleftrightarrow> p \<noteq> 0 \<and> d \<noteq> 0 \<and> det_child h p (name_of h d) = Inr d \<and> descent h d ds"

lemma chain_descent:
  assumes "tree_wf h" and "chain h a xs" and "xs = ys @ [w]"
  shows "descent h w (rev ys) \<and> (ys \<noteq> [] \<longrightarrow> hd ys = a)"
  using assms(2,3)
proof (induction arbitrary: ys rule: chain.induct)
  case (chain_step a ob xs)
  have "xs \<noteq> []" using chain_step.hyps(4) chain_hd by fastforce
  then obtain zs where ys: "ys = a # zs" and zs: "xs = zs @ [w]"
    using chain_step.prems by (cases ys) auto
  obtain op where op: "hp_obj h (de_parent ob) = Some op" "(de_name ob, a) \<in> set (de_children op)"
    using tree_wf_obj(6) [OF assms(1) chain_step.hyps(2,3)] by blast
  have "map_of (de_children op) (de_name ob) = Some a"
    using op tree_wf_obj(4) [OF assms(1) op(1)] by (simp add: map_of_mem)
  then have c: "det_child h (de_parent ob) (name_of h a) = Inr a"
    using op chain_step.hyps by (simp add: det_child_def deref_def name_of_def)
  have IH: "descent h w (rev zs) \<and> (zs \<noteq> [] \<longrightarrow> hd zs = de_parent ob)"
    using chain_step.IH [OF zs] .
  have last: "(if zs = [] then w else hd zs) = de_parent ob"
    using IH zs chain_hd [OF chain_step.hyps(4)] by auto
  have snoc: "descent h p (ds @ [d]) \<longleftrightarrow>
      descent h p ds \<and> (if ds = [] then p else last ds) \<noteq> 0 \<and> d \<noteq> 0 \<and>
      det_child h (if ds = [] then p else last ds) (name_of h d) = Inr d" for p ds d
    by (induction ds arbitrary: p) auto
  have "(if rev zs = [] then w else last (rev zs)) = de_parent ob"
    using last by (cases zs) (auto simp: last_rev)
  then show ?case using IH c chain_step.hyps(1,3) ys by (auto simp: snoc)
qed auto

lemma find_char_slash_free: "slash_free n \<Longrightarrow> find_char CHR ''/'' i n = None"
  by (auto simp: find_char_None slash_free_def dest: in_set_dropD)

lemma findDaughterElement_descent:
  assumes "descent h p ds" and "ds \<noteq> []" and "\<forall>d \<in> set ds. slash_free (name_of h d) \<and> name_of h d \<noteq> []"
  shows "findDaughterElement h p (rel_path (List.map (name_of h) ds)) = Some (Inr (last ds))"
  using assms
proof (induction ds arbitrary: p)
  case (Cons d ds)
  obtain c cs where n: "name_of h d = c # cs" using Cons.prems(3) by (cases "name_of h d") auto
  have c: "c \<noteq> CHR ''/''" "CHR ''/'' \<notin> set cs" using Cons.prems(3) n by (auto simp: slash_free_def)
  show ?case
  proof (cases ds)
    case Nil
    then show ?thesis using Cons.prems(1,3) n c
      by (subst findDaughterElement.simps) (simp add: find_char_slash_free)
  next
    case (Cons e es)
    have rel: "rel_path (List.map (name_of h) (d # ds)) = c # cs @ CHR ''/'' # rel_path (List.map (name_of h) ds)"
      using Cons n by simp
    have "findDaughterElement h p (c # cs @ CHR ''/'' # rel_path (List.map (name_of h) ds)) =
        findDaughterElement h d (rel_path (List.map (name_of h) ds))"
      using Cons.prems(1) n c
      by (subst findDaughterElement.simps) (simp add: find_char_split_Cons)
    then show ?thesis using Cons.IH [of d] Cons.prems Cons rel by simp
  qed
qed simp

lemma findDaughterElement_path:
  assumes "tree_wf h" and a: "chain h a xs" and b: "chain h b zs" and "last zs = last xs"
    and "\<forall>d \<in> set xs. slash_free (name_of h d)" and "\<forall>d \<in> set (butlast xs). name_of h d \<noteq> []"
  shows "findDaughterElement h b (path_of h xs) = Some (Inr a)"
proof -
  have ne: "xs \<noteq> []" using a chain_hd by fastforce
  define w ys where "w = last xs" and "ys = butlast xs"
  have xs: "xs = ys @ [w]" using ne by (simp add: w_def ys_def)
  have d: "descent h w (rev ys)" and hd: "ys \<noteq> [] \<Longrightarrow> hd ys = a"
    using chain_descent [OF assms(1) a xs] by auto
  have t: "topElement h b = Some (Inr w)" using topElement_chain [OF b] assms(4) by (simp add: w_def)
  have b0: "b \<noteq> 0" using b by (metis chain_0)
  have w: "CHR ''/'' \<notin> set (name_of h w)" using assms(5) xs by (simp add: slash_free_def)
  show ?thesis
  proof (cases "ys = []")
    case True
    then have "a = w" using a xs chain_hd by fastforce
    moreover have "path_of h xs = CHR ''/'' # name_of h w" using xs True by simp
    moreover have "find_char CHR ''/'' (Suc 0) (CHR ''/'' # name_of h w) = None"
      using w by (simp add: find_char_None)
    ultimately show ?thesis using t b0 by (subst findDaughterElement.simps) simp
  next
    case False
    let ?rel = "rel_path (List.map (name_of h) (rev ys))"
    have p: "path_of h xs = CHR ''/'' # name_of h w @ CHR ''/'' # ?rel"
      using concat_rel_path [of "List.map (name_of h) (rev ys)"] False xs
      by (simp add: path_of_concat comp_def)
    have "findDaughterElement h b (path_of h xs) = findDaughterElement h w ?rel"
      using t b0 w by (subst findDaughterElement.simps) (simp add: p find_char_split_Cons)
    also have "\<dots> = Some (Inr (last (rev ys)))"
    proof (rule findDaughterElement_descent [OF d])
      have "set ys \<subseteq> set xs" by (auto simp: xs)
      then show "\<forall>d \<in> set (rev ys). slash_free (name_of h d) \<and> name_of h d \<noteq> []"
        using assms(5,6) by (auto simp: ys_def [symmetric])
    qed (use False in simp)
    also have "last (rev ys) = a" using False hd by (simp add: last_rev)
    finally show ?thesis .
  qed
qed

lemma pathElements_loop_names:
  "\<lbrakk>ns \<noteq> []; \<forall>n \<in> set ns. slash_free n; last ns \<noteq> []\<rbrakk> \<Longrightarrow> pathElements_loop (rel_path ns) = ns"
proof (induction ns rule: rel_path.induct)
  case (2 n)
  then show ?case by (subst pathElements_loop.simps) (simp add: find_char_slash_free)
next
  case (3 n m ns)
  then show ?case by (subst pathElements_loop.simps) (simp add: find_char_split slash_free_def)
qed simp

lemma pathElements_join:
  "\<lbrakk>ns \<noteq> []; \<forall>n \<in> set ns. slash_free n; last ns \<noteq> []\<rbrakk> \<Longrightarrow>
   pathElements (concat (List.map (\<lambda>n. ''/'' @ n) ns)) = ns"
  using pathElements_loop_names [of ns] concat_rel_path [of ns] by (simp add: pathElements_def)


subsection \<open>Searching placements\<close>

text \<open>A walk down the geometry: each node is a daughter of the one before.\<close>

fun downward :: "PlacedVolume \<Rightarrow> PlacedVolume list \<Rightarrow> bool" where
  "downward p [] \<longleftrightarrow> True"
| "downward p (d # ds) \<longleftrightarrow> d \<in> set (pv_nodes p) \<and> downward d ds"

fun all_nodes :: "PlacedVolume \<Rightarrow> PlacedVolume list"
  and all_below :: "PlacedVolume list \<Rightarrow> PlacedVolume list" where
  "all_nodes (TGeoNode p n ids sens m nodes) = TGeoNode p n ids sens m nodes # all_below nodes"
| "all_below [] = []"
| "all_below (d # ds) = all_nodes d @ all_below ds"

lemma all_nodes_self: "p \<in> set (all_nodes p)"
  by (cases p) simp

lemma all_below_mem: "d \<in> set ds \<Longrightarrow> set (all_nodes d) \<subseteq> set (all_below ds)"
  by (induction ds) auto

text \<open>A search result: the sought node itself or a walk down to one that matches it.\<close>

definition found :: "(PlacedVolume \<Rightarrow> PlacedVolume \<Rightarrow> bool) \<Rightarrow> PlacedVolume \<Rightarrow> PlacedVolume \<Rightarrow> PlacedVolume list \<Rightarrow> bool" where
  "found same p c path \<longleftrightarrow> path \<noteq> [] \<and>
     (if same p c then path = [c] else downward p (rev path) \<and> (hd path = c \<or> same (hd path) c))"

lemma find_child_Some:
  "find_child same p c = Some path \<Longrightarrow> found same p c path"
  "find_below same ds c = Some path \<Longrightarrow>
     \<exists>d path'. d \<in> set ds \<and> path = path' @ [d] \<and> found same d c path'"
proof (induction same p c and same ds c arbitrary: path and path rule: find_child_find_below.induct)
  case (1 same p n ids sens m nodes child)
  let ?p = "TGeoNode p n ids sens m nodes"
  show ?case
  proof (cases "same ?p child")
    case True
    then have "path = [child]" using "1.prems" by simp
    then show ?thesis using True by (simp add: found_def)
  next
    case ns: False
    show ?thesis
    proof (cases "List.find (\<lambda>d. same d child) nodes")
      case (Some d)
      then have "d \<in> set nodes" "same d child" by (auto simp: find_Some_iff)
      moreover have "path = [d]" using Some ns "1.prems" by simp
      ultimately show ?thesis using ns by (simp add: found_def)
    next
      case None
      then have b: "find_below same nodes child = Some path" using ns "1.prems" by simp
      obtain d path' where d: "d \<in> set nodes" "path = path' @ [d]" "found same d child path'"
        using "1.IH"[OF ns None b] by blast
      then have "\<not> same d child" using None by (auto simp: find_None_iff)
      then show ?thesis using d ns by (auto simp: found_def)
    qed
  qed
next
  case (3 same d ds child)
  show ?case
  proof (cases "find_child same d child")
    case None
    then have "find_below same ds child = Some path" using "3.prems" by simp
    then show ?thesis using "3.IH"(2) [OF None] by fastforce
  next
    case (Some sub)
    then have "path = sub @ [d]" using "3.prems" by simp
    then show ?thesis using "3.IH"(1) [OF Some] by auto
  qed
qed simp

lemma find_child_None:
  "find_child same p c = None \<longleftrightarrow> (\<forall>n \<in> set (all_nodes p). \<not> same n c)"
  "(\<forall>d \<in> set ds. \<not> same d c) \<Longrightarrow>
     find_below same ds c = None \<longleftrightarrow> (\<forall>n \<in> set (all_below ds). \<not> same n c)"
proof (induction same p c and same ds c rule: find_child_find_below.induct)
  case (1 same p n ids sens m nodes child)
  let ?p = "TGeoNode p n ids sens m nodes"
  show ?case
  proof (cases "same ?p child")
    case ns: False
    show ?thesis
    proof (cases "List.find (\<lambda>d. same d child) nodes")
      case (Some d)
      then have "d \<in> set nodes" "same d child" by (auto simp: find_Some_iff)
      moreover from this have "d \<in> set (all_below nodes)"
        using all_below_mem [of d nodes] all_nodes_self [of d] by blast
      ultimately show ?thesis using Some ns by auto
    next
      case None
      then have "\<forall>d \<in> set nodes. \<not> same d child" by (auto simp: find_None_iff)
      then show ?thesis using "1.IH"[OF ns None] ns None by simp
    qed
  qed simp
next
  case (3 same d ds child)
  show ?case
  proof (cases "find_child same d child")
    case None
    then show ?thesis using "3.IH"(1) "3.IH"(2) [OF None] "3.prems" by auto
  next
    case (Some sub)
    then show ?thesis using "3.IH"(1) by auto
  qed
qed simp

text \<open>
  Two consecutive entries of a placement path: the first is a daughter of a node named like the
  second (or, where an element's placement is named like its parent's, has that name itself).
\<close>

definition linked :: "PlacedVolume \<Rightarrow> PlacedVolume \<Rightarrow> bool" where
  "linked x y \<longleftrightarrow> (\<exists>z. pv_name z = pv_name y \<and> (x \<in> set (pv_nodes z) \<or> pv_name x = pv_name z))"

fun linked_path :: "PlacedVolume list \<Rightarrow> bool" where
  "linked_path (x # y # xs) \<longleftrightarrow> linked x y \<and> linked_path (y # xs)"
| "linked_path _ \<longleftrightarrow> True"

lemma linked_path_append:
  "linked_path (xs @ y # ys) \<longleftrightarrow> linked_path (xs @ [y]) \<and> linked_path (y # ys)"
proof (induction xs)
  case (Cons x xs)
  then show ?case by (cases xs) auto
qed simp

lemma downward_snoc: "downward p (ds @ [d]) \<longleftrightarrow> downward p ds \<and> d \<in> set (pv_nodes (if ds = [] then p else last ds))"
  by (induction ds arbitrary: p) auto

text \<open>A walk down, read from its end, is a linked path up to any node named like its start.\<close>

lemma downward_linked:
  "downward p (rev path) \<Longrightarrow> path \<noteq> [] \<Longrightarrow> pv_name q = pv_name p \<Longrightarrow> linked_path (path @ [q])"
proof (induction path)
  case (Cons x xs)
  show ?case
  proof (cases xs)
    case Nil
    then show ?thesis using Cons.prems by (auto simp: linked_def)
  next
    case (Cons y ys)
    have "downward p (rev xs @ [x])" using Cons.prems(1) by simp
    then have "downward p (rev xs)" and x: "x \<in> set (pv_nodes y)"
      unfolding downward_snoc using Cons by simp_all
    then have "linked_path (xs @ [q])" using Cons.IH Cons.prems(3) Cons by simp
    moreover have "linked x y" using x by (auto simp: linked_def)
    ultimately show ?thesis using Cons by simp
  qed
qed simp

lemma findChildByName_linked:
  assumes "findChildByName p c = Some path" and "pv_name q = pv_name p"
  shows "path \<noteq> [] \<and> pv_name (hd path) = pv_name c \<and> linked_path (path @ [q])"
proof -
  have f: "found (\<lambda>a b. pv_name a = pv_name b) p c path"
    using find_child_Some(1) assms(1) unfolding findChildByName_def by blast
  show ?thesis
  proof (cases "pv_name p = pv_name c")
    case True
    then have "path = [c]" using f by (simp add: found_def)
    then show ?thesis using True assms(2) by (auto simp: linked_def)
  next
    case False
    then show ?thesis using f downward_linked [of p path q] assms(2) by (auto simp: found_def)
  qed
qed

lemma placement_segments_linked:
  "\<lbrakk>placement_segments det_nodes acc = Inr nodes; det_nodes \<noteq> [];
    acc = [] \<or> (\<forall>q. pv_name q = pv_name (hd det_nodes) \<longrightarrow> linked_path (acc @ [q]))\<rbrakk>
   \<Longrightarrow> linked_path (nodes @ [last det_nodes]) \<and> (acc = [] \<longrightarrow> pv_name (hd (nodes @ [last det_nodes])) = pv_name (hd det_nodes))"
proof (induction det_nodes acc rule: placement_segments.induct)
  case (1 c p rest acc)
  then obtain path where path: "findChildByName p c = Some path"
    and n: "placement_segments (p # rest) (acc @ path) = Inr nodes"
    by (auto split: option.splits)
  note l = findChildByName_linked [OF path]
  have "linked_path ((acc @ path) @ [q])" if q: "pv_name q = pv_name p" for q
  proof (cases "acc = []")
    case True
    then show ?thesis using l [OF q] by simp
  next
    case False
    obtain x xs where x: "path = x # xs" using l [OF q] by (cases path) auto
    then have "linked_path (acc @ [x])" using 1 False l [OF q] by auto
    moreover have "linked_path (x # xs @ [q])" using l [OF q] x by simp
    ultimately show ?thesis using x linked_path_append [of acc x "xs @ [q]"] by simp
  qed
  then have *: "linked_path (nodes @ [last (p # rest)])"
    using "1.IH"[OF path n] by simp
  have pre: "\<exists>zs. nodes = ys @ zs" if "placement_segments ds ys = Inr nodes" for ds ys
    using that by (induction ds ys rule: placement_segments.induct) (auto split: option.splits)
  obtain zs where "nodes = (acc @ path) @ zs" using pre [OF n] by blast
  then have "acc = [] \<longrightarrow> pv_name (hd (nodes @ [last (p # rest)])) = pv_name c"
    using l [of p] by (cases path) auto
  then show ?case using * by simp
qed auto


text \<open>A walk down the geometry in which every node is the first of its name.\<close>

fun named_walk :: "PlacedVolume \<Rightarrow> PlacedVolume list \<Rightarrow> bool" where
  "named_walk p [] \<longleftrightarrow> True"
| "named_walk p (d # ds) \<longleftrightarrow> List.find (\<lambda>x. pv_name x = pv_name d) (pv_nodes p) = Some d \<and> named_walk d ds"

definition slashed :: "PlacedVolume list \<Rightarrow> string" where
  "slashed ds = concat (List.map (\<lambda>d. CHR ''/'' # pv_name d) ds)"

lemma slashed_Cons [simp]: "slashed (d # ds) = CHR ''/'' # pv_name d @ slashed ds"
  by (simp add: slashed_def)

lemma slashed_Nil [simp]: "slashed [] = []"
  by (simp add: slashed_def)

lemma index_from_slashed:
  assumes "slash_free n"
  shows "index_from (pre @ CHR ''/'' # n @ slashed ds) (int (length pre) + 1) =
     (if ds = [] then - 1 else int (length pre + 1 + length n))"
proof -
  have d: "drop (nat (int (length pre) + 1)) (pre @ CHR ''/'' # n @ slashed ds) = n @ slashed ds"
    by (simp add: nat_add_distrib)
  show ?thesis
  proof (cases ds)
    case Nil
    then show ?thesis using assms d by (simp add: index_from_def find_char_def slash_free_def)
  next
    case (Cons e es)
    have "takeWhile (\<lambda>x. x \<noteq> CHR ''/'') (n @ slashed ds) = n"
      unfolding Cons slashed_Cons using assms
      by (subst takeWhile_append2) (auto simp: slash_free_def)
    moreover have "CHR ''/'' \<in> set (n @ slashed ds)" using Cons by simp
    ultimately show ?thesis unfolding index_from_def find_char_def Let_def d
      using Cons by (simp add: nat_add_distrib)
  qed
qed

lemma between_slashed:
  "ind2 = int (length pre + 1 + length n) \<Longrightarrow> between (pre @ CHR ''/'' # n @ rest) (int (length pre)) ind2 = n"
  by (simp add: between_def nat_add_distrib)

lemma findNode_loop_step:
  assumes "(if index_from s (i1 + 1) < 0 then int (length s) else index_from s (i1 + 1)) = i2"
    and "List.find (\<lambda>x. pv_name x = between s i1 i2) (pv_nodes p) = Some d"
  shows "findNode_loop s i1 p =
    (if int (length s) - 1 \<le> i2 then Some d else if i1 < i2 then findNode_loop s i2 d else None)"
  unfolding findNode_loop.simps [of s i1 p] Let_def assms(1) using assms(2) by simp

lemma findNode_first:
  assumes "index_from s 0 = 0" and "s \<noteq> []"
    and "(if index_from s 1 < 0 then int (length s) else index_from s 1) = i2" and "between s 0 i2 = pv_name p"
  shows "findNode p s = (if int (length s) - 1 \<le> i2 then Some p else findNode_loop s i2 p)"
  using assms by (simp add: findNode_def Let_def)

lemma findNode_loop_walk:
  assumes "named_walk p ds" and "ds \<noteq> []" and "\<forall>d \<in> set ds. slash_free (pv_name d) \<and> pv_name d \<noteq> []"
  shows "findNode_loop (pre @ slashed ds) (int (length pre)) p = Some (last ds)"
  using assms
proof (induction ds arbitrary: p pre)
  case (Cons d ds)
  let ?s = "pre @ slashed (d # ds)"
  have i: "index_from ?s (int (length pre) + 1) = (if ds = [] then - 1 else int (length pre + 1 + length (pv_name d)))"
    using index_from_slashed [of "pv_name d" pre ds] Cons.prems(3) by simp
  let ?i2 = "int (length pre + 1 + length (pv_name d))"
  have i2: "(if index_from ?s (int (length pre) + 1) < 0 then int (length ?s) else index_from ?s (int (length pre) + 1)) = ?i2"
    unfolding i by simp
  have f: "List.find (\<lambda>x. pv_name x = between ?s (int (length pre)) ?i2) (pv_nodes p) = Some d"
    using Cons.prems(1) between_slashed [of ?i2 pre "pv_name d" "slashed ds"] by simp
  show ?case
  proof (cases ds)
    case Nil
    have "int (length ?s) - 1 \<le> ?i2" using Nil by simp
    then show ?thesis unfolding findNode_loop_step [OF i2 f] using Nil by simp
  next
    case (Cons e es)
    have "pv_name e \<noteq> []" using Cons.prems(3) Cons by simp
    then have "\<not> int (length ?s) - 1 \<le> ?i2" using Cons by (cases "pv_name e") auto
    then have "findNode_loop ?s (int (length pre)) p = findNode_loop ?s ?i2 d"
      unfolding findNode_loop_step [OF i2 f] by simp
    also have "\<dots> = findNode_loop ((pre @ CHR ''/'' # pv_name d) @ slashed ds) (int (length (pre @ CHR ''/'' # pv_name d))) d"
      by (simp add: add.commute add.left_commute)
    also have "\<dots> = Some (last ds)"
      by (rule Cons.IH) (use Cons.prems Cons in auto)
    finally show ?thesis using Cons by simp
  qed
qed simp

lemma findNode_walk:
  assumes "named_walk p ds" and "\<forall>d \<in> set ds. slash_free (pv_name d) \<and> pv_name d \<noteq> []"
    and "slash_free (pv_name p)"
  shows "findNode p (slashed (p # ds)) = Some (last (p # ds))"
proof -
  let ?s = "slashed (p # ds)"
  have i1: "index_from ?s 0 = 0" by (simp add: index_from_def find_char_def)
  have i: "index_from ?s 1 = (if ds = [] then - 1 else int (1 + length (pv_name p)))"
    using index_from_slashed [of "pv_name p" "[]" ds] assms(3) by simp
  let ?i2 = "int (1 + length (pv_name p))"
  have i2: "(if index_from ?s 1 < 0 then int (length ?s) else index_from ?s 1) = ?i2"
    unfolding i by simp
  have b: "between ?s 0 ?i2 = pv_name p"
    using between_slashed [of ?i2 "[]" "pv_name p" "slashed ds"] by simp
  have r: "findNode p ?s = (if int (length ?s) - 1 \<le> ?i2 then Some p else findNode_loop ?s ?i2 p)"
    by (rule findNode_first [OF i1 _ i2 b]) simp
  show ?thesis
  proof (cases ds)
    case Nil
    then show ?thesis unfolding r by simp
  next
    case (Cons e es)
    have "pv_name e \<noteq> []" using assms(2) Cons by simp
    then have "\<not> int (length ?s) - 1 \<le> ?i2" using Cons by (cases "pv_name e") auto
    moreover have "findNode_loop ((CHR ''/'' # pv_name p) @ slashed ds) (int (length (CHR ''/'' # pv_name p))) p = Some (last ds)"
      by (rule findNode_loop_walk) (use assms Cons in auto)
    ultimately show ?thesis unfolding r using Cons by simp
  qed
qed


section \<open>Properties\<close>

text \<open>C18. Looking an element up by its own path finds it again, from any element of the same tree, and
  \<open>elementPath\<close> prints exactly that path: for names without slashes (and not empty, the world's
  excepted), as the path would otherwise not separate.\<close>

theorem findElement_path:
  assumes "tree_wf h" and "chain h a xs" and "chain h b zs" and "last zs = last xs"
    and "\<forall>d \<in> set xs. slash_free (name_of h d)" and "\<forall>d \<in> set (butlast xs). name_of h d \<noteq> []"
  shows "elementPath h a = Some (Inr (path_of h xs)) \<and>
    findDaughterElement h b (path_of h xs) = Some (Inr a) \<and>
    findElement h (last xs) (path_of h xs) = Some (Inr a) \<and>
    (name_of h (last xs) \<noteq> [] \<longrightarrow> pathElements (path_of h xs) = List.map (name_of h) (rev xs))"
proof -
  have ne: "xs \<noteq> []" using assms(2) chain_hd by fastforce
  have "chain h (last xs) [last xs]"
    by (rule chain_suffix [OF assms(2), of "butlast xs"]) (use ne in simp)
  then have w: "findElement h (last xs) (path_of h xs) = Some (Inr a)"
    using findDaughterElement_path [OF assms(1,2), of "last xs" "[last xs]"] assms(5,6)
    by (simp add: findElement_def)
  have "pathElements (path_of h xs) = List.map (name_of h) (rev xs)" if "name_of h (last xs) \<noteq> []"
  proof -
    have "last (List.map (name_of h) (rev xs)) \<noteq> []"
    proof (cases "butlast xs")
      case Nil
      then show ?thesis using ne that by (cases xs rule: rev_cases) auto
    next
      case (Cons y ys)
      then have "hd xs = y" by (cases xs) (auto split: if_splits)
      then show ?thesis using assms(6) Cons ne by (simp add: last_map last_rev)
    qed
    then show ?thesis
      using pathElements_join [of "List.map (name_of h) (rev xs)"] ne assms(5)
      by (simp add: path_of_concat comp_def)
  qed
  then show ?thesis
    using w elementPath_chain [OF assms(2)] findDaughterElement_path [OF assms] by blast
qed

theorem findElement_path_witness:
  "findElement sample_tree 1 ''/world/ecal/mod7'' = Some (Inr 3) \<and>
   findDaughterElement sample_tree 3 ''/world/ecal/mod7'' = Some (Inr 3)"
proof -
  have s: "tree_wf sample_tree" "chain sample_tree 3 [3, 2, 1]"
    "path_of sample_tree [3, 2, 1] = ''/world/ecal/mod7''"
    using sample_tree_facts by (auto simp: tree_ok_def)
  have n: "name_of sample_tree 1 = ''world'' \<and> name_of sample_tree 2 = ''ecal'' \<and> name_of sample_tree 3 = ''mod7''"
    by (simp add: sample_tree_def sample_build_def DetElement_new_child_def det_type_def deref_def
        DetElement_new_def hp_new_def hp_empty_def det_add_def de_handle_name_def map_emplace_def
        de_modify_def de_access_def hp_put_def DetElementObject_new_def Let_def name_of_def)
  have "\<forall>d \<in> set [3, 2, 1]. slash_free (name_of sample_tree d)"
    and "\<forall>d \<in> set (butlast [3, 2, 1]). name_of sample_tree d \<noteq> []"
    using n by (simp_all add: slash_free_def)
  from findElement_path [OF s(1,2,2) refl this] show ?thesis using s(3) by simp
qed

text \<open>Questions about ancestors, on a well-formed tree: \<open>topElement\<close> is the end of the chain;
  \<open>elementPath(parent, child)\<close> is the chain up to the parent; \<open>isParentElement\<close> answers true for
  an ancestor but never false: for two valid elements that are not related it throws, with the
  message for invalid handles.\<close>

theorem ancestor_queries:
  assumes "chain h a xs" and "p \<noteq> 0"
  shows "topElement h a = Some (Inr (last xs)) \<and>
    isParentElement h p a = Some (if p \<in> set xs then Inr True else Inl invalid_search) \<and>
    (\<forall>ys zs. xs = ys @ p # zs \<longrightarrow> elementPath_parent h p a = Some (Inr (ys @ [p]))) \<and>
    (p \<notin> set xs \<longrightarrow> elementPath_parent h p a = Some (Inl (no_parent_of h p a)))"
proof -
  have a0: "a \<noteq> 0" using assms(1) chain_obj by blast
  have hd: "\<exists>ys. xs = a # ys" using chain_hd [OF assms(1)] .
  have is_par: "isParentElement h p a = Some (if p \<in> set xs then Inr True else Inl invalid_search)"
    using isParent_loop_chain [OF assms(1)] a0 assms(2) hd by (auto simp: isParentElement_def)
  have ep: "elementPath_parent h p a = Some (if p \<in> set xs then Inr (takeWhile (\<lambda>b. b \<noteq> p) xs @ [p])
      else Inl (no_parent_of h p a))"
    using elementPath_loop_chain [OF assms(1)] a0 assms(2) hd by (auto simp: elementPath_parent_def)
  have "takeWhile (\<lambda>b. b \<noteq> p) xs = ys" if x: "xs = ys @ p # zs" for ys zs
  proof -
    have "p \<notin> set ys" using chain_distinct [OF assms(1)] x by auto
    then show ?thesis unfolding x by (subst takeWhile_append2) auto
  qed
  then show ?thesis using topElement_chain [OF assms(1)] is_par ep by auto
qed

theorem ancestor_queries_witness:
  "isParentElement sample_tree 1 3 = Some (Inr True) \<and>
   isParentElement sample_tree 3 2 = Some (Inl invalid_search) \<and>
   elementPath_parent sample_tree 2 3 = Some (Inr [3, 2])"
proof -
  have s: "chain sample_tree 3 [3, 2, 1]" using sample_tree_facts by blast
  have s2: "chain sample_tree 2 [2, 1]" by (rule chain_suffix [OF s, of "[3]"]) simp
  have n: "1 \<noteq> (0::handle)" "3 \<noteq> (0::handle)" "2 \<noteq> (0::handle)" by simp_all
  have "elementPath_parent sample_tree 2 3 = Some (Inr ([3] @ [2]))"
    using ancestor_queries [OF s n(3)] by (metis append_Cons append_Nil)
  then show ?thesis
    using ancestor_queries [OF s n(1)] ancestor_queries [OF s2 n(2)] by simp
qed

text \<open>\<open>findChild\<close> and \<open>findChildByName\<close>: the search fails exactly when no node of the whole geometry
  below (and including) the parent matches; what it returns, read backwards, is a walk from a
  daughter of the parent down to a match, or just the child when the parent itself matches.\<close>

theorem find_child_spec:
  "(find_child same p c = None \<longleftrightarrow> (\<forall>n \<in> set (all_nodes p). \<not> same n c)) \<and>
   (find_child same p c = Some path \<longrightarrow> path \<noteq> [] \<and>
      (if same p c then path = [c] else downward p (rev path) \<and> (hd path = c \<or> same (hd path) c)))"
  using find_child_None(1) [of same p c] find_child_Some(1) [of same p c path] by (auto simp: found_def)

definition sample_geo :: PlacedVolume where
  "sample_geo = TGeoNode 10 ''top'' (Some []) (Some None) 0
     [TGeoNode 11 ''vac'' (Some []) (Some None) 1 [],
      TGeoNode 12 ''box'' (Some []) (Some None) 2 [TGeoNode 13 ''cell'' (Some []) (Some None) 3 []]]"

theorem find_child_spec_witness:
  "\<exists>path. findChild (Some sample_geo) (Some (TGeoNode 13 ''cell'' (Some []) (Some None) 3 [])) = Some path \<and>
     downward sample_geo (rev path) \<and> length path = 2"
proof -
  let ?c = "TGeoNode 13 ''cell'' (Some []) (Some None) 3 []" and ?same = "\<lambda>a b. pv_ptr a = pv_ptr b"
  obtain path where p: "find_child ?same sample_geo ?c = Some path" "length path = 2"
    by (simp add: sample_geo_def)
  have "\<not> ?same sample_geo ?c" by (simp add: sample_geo_def)
  then show ?thesis
    using p find_child_spec [of ?same sample_geo ?c path] by (auto simp: findChild_def)
qed

text \<open>A placement path has no holes: every entry is a daughter of a node named like the next entry,
  up to the placement of the top element; the elements in between that have no placement do not
  break it, and a placement that is not found raises instead.\<close>

theorem placementPath_linked:
  assumes "chain h a xs"
  shows "\<exists>det_nodes. placements_top h a [] = Some (Inr det_nodes) \<and>
    det_nodes = List.map the (filter (\<lambda>p. p \<noteq> None) (List.map (\<lambda>b. de_placement (the (hp_obj h b))) xs)) \<and>
    placementPath h a [] = Some (makePlacementPath det_nodes []) \<and>
    (\<forall>nodes. makePlacementPath det_nodes [] = Inr nodes \<longrightarrow> linked_path nodes \<and>
       (det_nodes \<noteq> [] \<longrightarrow> last nodes = last det_nodes \<and> pv_name (hd nodes) = pv_name (hd det_nodes)))"
proof -
  let ?f = "\<lambda>xs. List.map the (filter (\<lambda>p. p \<noteq> None) (List.map (\<lambda>b. de_placement (the (hp_obj h b))) xs))"
  have p: "placements_top h a acc = Some (Inr (acc @ ?f xs))" for acc
    using assms
  proof (induction arbitrary: acc rule: chain.induct)
    case (chain_root a ob)
    then show ?case
      by (subst placements_top.simps) (auto simp: placements_top.simps [of h 0] split: option.splits)
  next
    case (chain_step a ob xs)
    then show ?case by (subst placements_top.simps) (auto split: option.splits)
  qed
  have "linked_path nodes \<and> (ds \<noteq> [] \<longrightarrow> last nodes = last ds \<and> pv_name (hd nodes) = pv_name (hd ds))"
    if mk: "makePlacementPath ds [] = Inr nodes" for ds nodes
  proof (cases "ds = []")
    case True
    then show ?thesis using mk by (simp add: makePlacementPath_def)
  next
    case False
    then obtain ns where ns: "placement_segments ds [] = Inr ns" "nodes = ns @ [last ds]"
      using mk by (auto simp: makePlacementPath_def bindE_Inr_iff)
    show ?thesis using placement_segments_linked [OF ns(1) False] ns(2) by simp
  qed
  then show ?thesis using p [of "[]"] by (simp add: placementPath_def)
qed

text \<open>The sample tree with the world and the module placed; the calorimeter has no placement.\<close>

definition placed_build :: "Heap cpp" where
  "placed_build =
     bindE (det_setPlacement sample_tree 1 (Some sample_geo)) (\<lambda>h.
       det_setPlacement h 3 (Some (TGeoNode 13 ''cell'' (Some []) (Some None) 3 [])))"

definition placed_tree :: Heap where
  "placed_tree = projr placed_build"

theorem placementPath_linked_witness:
  "\<exists>nodes. placementPath placed_tree 3 [] = Some (Inr nodes) \<and> linked_path nodes \<and>
     List.map pv_name nodes = [''cell'', ''box'', ''top'']"
proof -
  let ?cell = "TGeoNode 13 ''cell'' (Some []) (Some None) 3 []"
  note ev = sample_tree_def sample_build_def DetElement_new_child_def det_type_def deref_def
        DetElement_new_def hp_new_def hp_empty_def det_add_def de_handle_name_def map_emplace_def
        de_modify_def de_access_def hp_put_def DetElementObject_new_def Let_def det_setPlacement_def
        placed_build_def
  have p: "de_placement (the (hp_obj placed_tree 1)) = Some sample_geo"
    "de_placement (the (hp_obj placed_tree 2)) = None"
    "de_placement (the (hp_obj placed_tree 3)) = Some ?cell"
    by (simp_all add: placed_tree_def ev)
  have s: "chain placed_tree 3 [3, 2, 1]"
  proof (rule chain_extend)
    show "chain sample_tree 3 [3, 2, 1]" using sample_tree_facts by blast
    fix b ob assume "b \<in> set [3, 2, 1 :: handle]" and "hp_obj sample_tree b = Some ob"
    then show "\<exists>ob'. hp_obj placed_tree b = Some ob' \<and> de_parent ob' = de_parent ob"
      by (auto simp: placed_tree_def ev)
  qed
  have m: "makePlacementPath [?cell, sample_geo] [] =
      Inr [?cell, TGeoNode 12 ''box'' (Some []) (Some None) 2 [?cell], sample_geo]"
    by (simp add: makePlacementPath_def findChildByName_def sample_geo_def)
  show ?thesis
    using placementPath_linked [OF s] p m by (auto simp: sample_geo_def)
qed

text \<open>\<open>findNode\<close> resolves the printed path of every walk down the geometry in which each node is the
  first of its name, that is the path \<open>placementPath\<close> prints for it in reverse.\<close>

theorem findNode_resolves:
  assumes "named_walk p ds" and "\<forall>d \<in> set ds. slash_free (pv_name d) \<and> pv_name d \<noteq> []"
    and "slash_free (pv_name p)"
  shows "findNode p (placementPath_string (rev (p # ds)) True) = Some (last (p # ds))"
  using findNode_walk [OF assms] by (simp add: placementPath_string_def slashed_def comp_def rev_map)

theorem findNode_resolves_witness:
  "findNode sample_geo ''/top/box/cell'' = Some (TGeoNode 13 ''cell'' (Some []) (Some None) 3 [])"
proof -
  let ?box = "TGeoNode 12 ''box'' (Some []) (Some None) 2 [TGeoNode 13 ''cell'' (Some []) (Some None) 3 []]"
  let ?cell = "TGeoNode 13 ''cell'' (Some []) (Some None) 3 []"
  have "named_walk sample_geo [?box, ?cell]"
    and "\<forall>d \<in> set [?box, ?cell]. slash_free (pv_name d) \<and> pv_name d \<noteq> []"
    and "slash_free (pv_name sample_geo)"
    by (simp_all add: sample_geo_def slash_free_def)
  from findNode_resolves [OF this] show ?thesis by (simp add: placementPath_string_def sample_geo_def)
qed

end
