(* ===== verification/VolumeManager.thy ===== *)
theory VolumeManager
  imports DetectorTools
begin

text \<open>
  The volume manager (DDCore/src/VolumeManager.cpp): it scans the placements below the detector
  elements, computes the identifier of every sensitive volume from the volume IDs along the way,
  registers it with the manager of its subdetector and finds it again from the identifier of a hit.
  The managers refer to each other by pointers, so they live in a store of their own beside the
  store of detector elements, whose \<open>volumeID\<close>, caches and callbacks the code changes.
  Log output is left out, except for the calls in it that change caches or can throw; debug
  printing (environment variable DD4HEP_VOLMGR_DEBUG) is off.
\<close>

section \<open>Model\<close>

subsection \<open>State\<close>

text \<open>
  A context; \<open>vc_placement\<close> and \<open>vc_toElement\<close> are the members of the extension, present when the
  flag is not 0. The type of ROOT's matrices is a parameter.
\<close>

record 'h VolumeManagerContext =
  vc_element :: handle
  vc_identifier :: u64
  vc_mask :: u64
  vc_flag :: nat
  vc_placement :: "PlacedVolume option"
  vc_toElement :: 'h

record 'h VolumeManagerObject =
  vm_name :: string
  vm_subdetectors :: "(handle, nat) std_map"
  vm_managers :: "(u64, nat) std_map"
  vm_volumes :: "u64 \<rightharpoonup> 'h VolumeManagerContext"
  vm_detector :: handle
  vm_id :: IDDescriptor
  vm_top :: nat
  vm_system :: "BitFieldElement option"
  vm_sysID :: u64
  vm_detMask :: u64
  vm_flags :: i32

definition VolumeManagerObject_new :: "string \<Rightarrow> 'h VolumeManagerObject" where
  "VolumeManagerObject_new nam = \<lparr>vm_name = nam, vm_subdetectors = [], vm_managers = [], vm_volumes = Map.empty,
     vm_detector = 0, vm_id = None, vm_top = 0, vm_system = None, vm_sysID = 0, vm_detMask = - 1, vm_flags = 0\<rparr>"

record 'h VMState =
  vs_next :: nat
  vs_obj :: "nat \<Rightarrow> 'h VolumeManagerObject option"
  vs_det :: Heap

definition vm_TREE :: i32 where "vm_TREE = push_bit 1 1"
definition vm_ONE :: i32 where "vm_ONE = push_bit 2 1"

text \<open>What the code uses of the \<open>Detector\<close> instance, and ROOT's matrices.\<close>

record 'h Detector =
  dd_detectors :: "(string, handle) std_map"
  dd_sensitive :: "(string, SensitiveDetector) std_map"
  dd_world :: handle
  dd_geo :: "'h TGeo"

text \<open>A call that never returns overflows the stack or loops without effect: undefined behaviour.\<close>

definition returns :: "'a cpp option \<Rightarrow> 'a cpp" where
  "returns r = (case r of None \<Rightarrow> Inl (UndefinedBehaviour ''call does not return'') | Some x \<Rightarrow> x)"

definition dd_sensitiveDetector :: "'h Detector \<Rightarrow> string \<Rightarrow> SensitiveDetector option" where
  "dd_sensitiveDetector dd nam = map_of (dd_sensitive dd) nam"

definition dd_detector :: "'h Detector \<Rightarrow> Heap \<Rightarrow> string \<Rightarrow> handle cpp" where
  "dd_detector dd h nam =
     (case map_of (dd_detectors dd) nam of
        Some d \<Rightarrow> Inr d
      | None \<Rightarrow> returns (findElement h (dd_world dd) nam))"

definition vm_deref :: "'h VMState \<Rightarrow> nat \<Rightarrow> 'h VolumeManagerObject cpp" where
  "vm_deref s m = (case vs_obj s m of None \<Rightarrow> Inl dangling | Some ob \<Rightarrow> Inr ob)"

definition vm_put :: "'h VMState \<Rightarrow> nat \<Rightarrow> 'h VolumeManagerObject \<Rightarrow> 'h VMState" where
  "vm_put s m ob = s\<lparr>vs_obj := (vs_obj s)(m \<mapsto> ob)\<rparr>"

text \<open>The call \<open>element.path()\<close> in a log message fills the element's caches.\<close>

definition touch_path :: "'h VMState \<Rightarrow> handle \<Rightarrow> 'h VMState cpp" where
  "touch_path s e = bindE (returns (det_path (vs_det s) e)) (\<lambda>(h, p). Inr (s\<lparr>vs_det := h\<rparr>))"

subsection \<open>Contexts\<close>

definition elementPlacement :: "Heap \<Rightarrow> 'h VolumeManagerContext \<Rightarrow> PlacedVolume option cpp" where
  "elementPlacement h c = det_placement h (vc_element c)"

definition volumePlacement :: "Heap \<Rightarrow> 'h VolumeManagerContext \<Rightarrow> PlacedVolume option cpp" where
  "volumePlacement h c = (if vc_flag c = 0 then det_placement h (vc_element c) else Inr (vc_placement c))"

definition context_toElement :: "'h TGeo \<Rightarrow> 'h VolumeManagerContext \<Rightarrow> 'h" where
  "context_toElement tg c = (if vc_flag c = 0 then gGeoIdentity tg else vc_toElement c)"

subsection \<open>Sections\<close>

definition VolumeManager_section :: "'h VMState \<Rightarrow> handle \<Rightarrow> Readout option \<Rightarrow> ('h VMState \<times> nat) cpp" where
  "VolumeManager_section s sub_detector ro =
     bindE (de_handle_name (vs_det s) sub_detector) (\<lambda>nam.
       let ob = (VolumeManagerObject_new nam)\<lparr>vm_detector := sub_detector,
                  vm_id := (case ro of None \<Rightarrow> None | Some r \<Rightarrow> ro_idSpec r)\<rparr>;
           m = vs_next s
       in Inr (s\<lparr>vs_next := Suc m, vs_obj := (vs_obj s)(m \<mapsto> ob)\<rparr>, m))"

text \<open>The function object behind \<open>&Object::update\<close>.\<close>

definition update_function :: nat where
  "update_function = 1"

text \<open>The second half of \<open>addSubdetector\<close>, after its checks: the new section is created and entered.\<close>

definition enter_section :: "'h VMState \<Rightarrow> nat \<Rightarrow> 'h VolumeManagerObject \<Rightarrow> handle \<Rightarrow> Readout \<Rightarrow> string \<Rightarrow> i32 \<Rightarrow>
    ('h VMState \<times> nat) cpp" where
  "enter_section s m ob det r idn idv =
     bindE (VolumeManager_section s det (Some r)) (\<lambda>(s1, mgr).
     bindE (idd_field (ro_idSpec r) idn) (\<lambda>field.
     bindE (vm_deref s1 mgr) (\<lambda>mo.
     let sysID = scast idv;
         s2 = vm_put s1 mgr (mo\<lparr>vm_top := vm_top ob, vm_flags := vm_flags ob,
                vm_system := Some field, vm_sysID := sysID, vm_detMask := sysID\<rparr>);
         s3 = vm_put s2 m (ob\<lparr>vm_subdetectors := map_assign det mgr (vm_subdetectors ob),
                vm_managers := map_assign sysID mgr (vm_managers ob)\<rparr>)
     in bindE (i_addUpdateCall (vs_det s3) det (ucast (PLACEMENT_CHANGED OR PLACEMENT_DETECTOR))
                \<lparr>cb_par = mgr, cb_func = update_function\<rparr>)
          (\<lambda>h. Inr (s3\<lparr>vs_det := h\<rparr>, mgr)))))"

definition addSubdetector :: "'h VMState \<Rightarrow> nat \<Rightarrow> handle \<Rightarrow> Readout option \<Rightarrow> ('h VMState \<times> nat) cpp" where
  "addSubdetector s m det ro =
     (if m = 0 then Inl (RuntimeError ''dd4hep: VolumeManager::addSubdetector: Failed to add subdetector section. [Invalid Manager Handle]'')
      else bindE (vm_deref s m) (\<lambda>ob.
        if det = 0 then Inl (RuntimeError ''dd4hep: VolumeManager::addSubdetector: Only valid subdetectors are allowed. [Invalid DetElement]'')
        else case map_of (vm_subdetectors ob) det of
          Some mgr \<Rightarrow> Inr (s, mgr)
        | None \<Rightarrow>
            bindE (de_handle_name (vs_det s) det) (\<lambda>det_name.
            case ro of
              None \<Rightarrow> Inl (RuntimeError (''dd4hep: VolumeManager::addSubdetector: Only subdetectors with a valid readout descriptor are allowed. [Invalid DetElement:'' @ det_name @ '']''))
            | Some r \<Rightarrow>
            bindE (det_placement (vs_det s) det) (\<lambda>pv.
            case pv of
              None \<Rightarrow> Inl (RuntimeError (''dd4hep: VolumeManager::addSubdetector: Only subdetectors with a valid placement are allowed. [Invalid DetElement:'' @ det_name @ '']''))
            | Some p \<Rightarrow>
            case pv_ids p of
              None \<Rightarrow> Inl (RuntimeError ''+++ Attempt to access invalid handle of type: PlacedVolume'')
            | Some ids \<Rightarrow>
            case List.find (\<lambda>(n, v). n = ''system'') ids of
              None \<Rightarrow> Inl (RuntimeError (''dd4hep: VolumeManager::addSubdetector: Only subdetectors with valid placement VolIDs are allowed. [Invalid DetElement:'' @ det_name @ '']''))
            | Some (idn, idv) \<Rightarrow>
            enter_section s m ob det r idn idv))))"

definition null_system :: cpp_error where
  "null_system = UndefinedBehaviour ''null system field''"

text \<open>\<open>system->value(id)\<close>\<close>

definition system_value :: "'h VolumeManagerObject \<Rightarrow> u64 \<Rightarrow> u64 cpp" where
  "system_value mo x = (case vm_system mo of None \<Rightarrow> Inl null_system | Some f \<Rightarrow> Inr (bf_value f x))"

fun find_section :: "'h VMState \<Rightarrow> u64 \<Rightarrow> (handle \<times> nat) list \<Rightarrow> nat cpp" where
  "find_section s x [] = Inl (RuntimeError ''dd4hep: VolumeManager::subdetector(VolID): Attempt to access unknown subdetector section.'')"
| "find_section s x ((d, m) # js) =
     bindE (vm_deref s m) (\<lambda>mo. case vm_system mo of
         None \<Rightarrow> Inl null_system
       | Some f \<Rightarrow> if bf_value f (push_bit (unat (bf_offset f)) x) = vm_sysID mo then Inr m
                   else find_section s x js)"

definition vm_subdetector :: "'h VMState \<Rightarrow> nat \<Rightarrow> u64 \<Rightarrow> nat cpp" where
  "vm_subdetector s m x =
     (if m = 0 then Inl (RuntimeError ''dd4hep: VolumeManager::subdetector(VolID): Cannot assign ID descriptor [Invalid Manager Handle]'')
      else bindE (vm_deref s m) (\<lambda>ob. find_section s x (vm_subdetectors ob)))"

definition vm_get_detector :: "'h VMState \<Rightarrow> nat \<Rightarrow> handle cpp" where
  "vm_get_detector s m =
     (if m = 0 then Inl (RuntimeError ''dd4hep: VolumeManager::detector: Cannot access DetElement [Invalid Handle]'')
      else bindE (vm_deref s m) (\<lambda>ob. Inr (vm_detector ob)))"

definition vm_idSpec :: "'h VMState \<Rightarrow> nat \<Rightarrow> IDDescriptor cpp" where
  "vm_idSpec s m = bindE (vm_deref s m) (\<lambda>ob. Inr (vm_id ob))"

subsection \<open>Registration\<close>

text \<open>What the error messages ask of the placement: \<open>pv.volume().isSensitive()\<close> throws without volume data.\<close>

definition log_sensitive :: "PlacedVolume option \<Rightarrow> unit cpp" where
  "log_sensitive pv = (case pv of
      Some p \<Rightarrow> (if pv_sens p = None then Inl (RuntimeError ''+++ Attempt to access invalid handle of type: Volume'') else Inr ())
    | None \<Rightarrow> Inl (RuntimeError ''+++ Attempt to access invalid handle of type: Volume''))"

text \<open>\<open>adoptPlacement(sys_id, context)\<close>: the section itself registers the context.\<close>

definition adopt_in :: "'h VMState \<Rightarrow> nat \<Rightarrow> 'h VolumeManagerContext \<Rightarrow> ('h VMState \<times> bool) cpp" where
  "adopt_in s m c =
     bindE (vm_deref s m) (\<lambda>ob.
     bindE (elementPlacement (vs_det s) c) (\<lambda>pv.
       let vid = vc_identifier c; msk = vc_mask c in
       if vid AND msk \<noteq> vid then bindE (log_sensitive pv) (\<lambda>_. Inr (s, False))
       else case vm_volumes ob vid of
         None \<Rightarrow>
           (let s1 = vm_put s m (ob\<lparr>vm_volumes := (vm_volumes ob)(vid \<mapsto> c), vm_detMask := vm_detMask ob OR msk\<rparr>)
            in bindE (touch_path s1 (vc_element c)) (\<lambda>s2. Inr (s2, True)))
       | Some clash \<Rightarrow>
           bindE (de_handle_name (vs_det s) (vm_detector ob)) (\<lambda>_.
           bindE (log_sensitive pv) (\<lambda>_. Inr (s, False)))))"

text \<open>The loop over the managers, in the order of their keys.\<close>

fun find_manager :: "'h VMState \<Rightarrow> u64 \<Rightarrow> (u64 \<times> nat) list \<Rightarrow> nat option cpp" where
  "find_manager s x [] = Inr None"
| "find_manager s x ((k, m) # js) =
     bindE (vm_deref s m) (\<lambda>mo. bindE (system_value mo x) (\<lambda>sid.
       if k = sid then Inr (Some m) else find_manager s x js))"

partial_function (option) adoptPlacement ::
    "'h VMState \<Rightarrow> nat \<Rightarrow> 'h VolumeManagerContext option \<Rightarrow> ('h VMState \<times> bool) cpp option" where
  "adoptPlacement s m ctx =
     (if m = 0 then Some (Inl (RuntimeError ''dd4hep: Failed to add new physical volume [Invalid Manager Handle]''))
      else case vs_obj s m of
        None \<Rightarrow> Some (Inl dangling)
      | Some ob \<Rightarrow>
      (case ctx of
        None \<Rightarrow> Some (Inl (RuntimeError ''dd4hep: Failed to add new physical volume to detector [Invalid Context]''))
      | Some c \<Rightarrow>
          if vm_flags ob AND vm_ONE = vm_ONE then adoptPlacement s (vm_top ob) ctx
          else if vm_flags ob AND vm_TREE = vm_TREE then
            (if m \<noteq> vm_top ob then
               (case system_value ob (vc_identifier c) of
                  Inl e \<Rightarrow> Some (Inl e)
                | Inr sys_id \<Rightarrow>
                    if sys_id = vm_sysID ob then Some (adopt_in s m c)
                    else adoptPlacement s (vm_top ob) ctx)
             else
               (case find_manager s (vc_identifier c) (vm_managers ob) of
                  Inl e \<Rightarrow> Some (Inl e)
                | Inr None \<Rightarrow> Some (Inr (s, False))
                | Inr (Some mgr) \<Rightarrow> Some (adopt_in s mgr c)))
          else Some (Inr (s, False))))"

subsection \<open>Lookup\<close>

definition vm_search :: "'h VolumeManagerObject \<Rightarrow> u64 \<Rightarrow> 'h VolumeManagerContext option" where
  "vm_search ob vol_id = vm_volumes ob (vol_id AND vm_detMask ob)"

definition unknown_id :: cpp_error where
  "unknown_id = RuntimeError ''lookupContext: Failed to search Volume context [Unknown identifier]''"

definition invalid_manager :: cpp_error where
  "invalid_manager = RuntimeError ''lookupContext: Failed to search Volume context [Invalid Manager Handle]''"

fun search_sections :: "'h VMState \<Rightarrow> u64 \<Rightarrow> (handle \<times> nat) list \<Rightarrow> 'h VolumeManagerContext cpp" where
  "search_sections s x [] = Inl unknown_id"
| "search_sections s x ((d, m) # js) =
     bindE (vm_deref s m) (\<lambda>mo. case vm_search mo x of
         Some c \<Rightarrow> Inr c
       | None \<Rightarrow> search_sections s x js)"

text \<open>The part of \<open>lookupContext\<close> after the call has been passed on to the top manager.\<close>

definition lookup_here :: "'h VMState \<Rightarrow> 'h VolumeManagerObject \<Rightarrow> u64 \<Rightarrow> 'h VolumeManagerContext cpp" where
  "lookup_here s ob volume_id =
     (case vm_search ob volume_id of
        Some c \<Rightarrow> Inr c
      | None \<Rightarrow>
          if vm_flags ob AND vm_ONE = vm_ONE then Inl unknown_id
          else search_sections s volume_id (vm_subdetectors ob))"

partial_function (option) lookupContext_loop :: "'h VMState \<Rightarrow> nat \<Rightarrow> u64 \<Rightarrow> 'h VolumeManagerContext cpp option" where
  "lookupContext_loop s m volume_id =
     (if m = 0 then Some (Inl invalid_manager)
      else case vs_obj s m of
        None \<Rightarrow> Some (Inl dangling)
      | Some ob \<Rightarrow>
          if vm_top ob \<noteq> m \<and> vm_flags ob AND vm_ONE = vm_ONE then lookupContext_loop s (vm_top ob) volume_id
          else Some (lookup_here s ob volume_id))"

lemmas [code] = adoptPlacement.simps lookupContext_loop.simps

definition lookupContext :: "'h VMState \<Rightarrow> nat \<Rightarrow> u64 \<Rightarrow> 'h VolumeManagerContext cpp" where
  "lookupContext s m volume_id = returns (lookupContext_loop s m volume_id)"

definition lookupDetElementPlacement :: "'h VMState \<Rightarrow> nat \<Rightarrow> u64 \<Rightarrow> PlacedVolume option cpp" where
  "lookupDetElementPlacement s m x = bindE (lookupContext s m x) (elementPlacement (vs_det s))"

definition lookupVolumePlacement :: "'h VMState \<Rightarrow> nat \<Rightarrow> u64 \<Rightarrow> PlacedVolume option cpp" where
  "lookupVolumePlacement s m x = bindE (lookupContext s m x) (volumePlacement (vs_det s))"

definition lookupDetElement :: "'h VMState \<Rightarrow> nat \<Rightarrow> u64 \<Rightarrow> handle cpp" where
  "lookupDetElement s m x = bindE (lookupContext s m x) (\<lambda>c. Inr (vc_element c))"

fun guess_system :: "'h VMState \<Rightarrow> u64 \<Rightarrow> (handle \<times> nat) list \<Rightarrow> u64 cpp" where
  "guess_system s x [] = Inr 0"
| "guess_system s x ((d, m) # js) =
     bindE (vm_deref s m) (\<lambda>mo. case vm_system mo of
         None \<Rightarrow> guess_system s x js
       | Some f \<Rightarrow> if x AND vm_sysID mo = x AND bf_mask f then Inr (vm_sysID mo) else guess_system s x js)"

definition lookupDetector :: "'h VMState \<Rightarrow> nat \<Rightarrow> u64 \<Rightarrow> handle cpp" where
  "lookupDetector s m volume_id =
     (if m = 0 then Inl invalid_manager
      else bindE (vm_deref s m) (\<lambda>ob.
        bindE (case vm_system ob of
                 Some f \<Rightarrow> Inr (bf_value f volume_id)
               | None \<Rightarrow> guess_system s volume_id (vm_subdetectors ob)) (\<lambda>sys_id.
        bindE (lookupContext s m (volume_id AND sys_id)) (\<lambda>c. Inr (vc_element c)))))"

subsection \<open>Population\<close>

text \<open>The populator's own state: identifiers already entered and the number of nodes.\<close>

record 'h Populator =
  vp_state :: "'h VMState"
  vp_entries :: "u64 list"
  vp_numNodes :: nat

type_synonym Encoding = "u64 \<times> u64"

definition update_encoding :: "IDDescriptor \<Rightarrow> VolIDs \<Rightarrow> Encoding \<Rightarrow> Encoding cpp" where
  "update_encoding iddesc ids initial =
     foldE (\<lambda>(volume_id, msk) (nam, v).
        bindE (idd_field iddesc nam) (\<lambda>f.
          let val = scast v :: u64; off = unat (bf_offset f) in
          Inr (volume_id OR (push_bit off (bf_value f (push_bit off val)) AND bf_mask f), msk OR bf_mask f)))
       initial ids"

definition vm_encoding :: "IDDescriptor \<Rightarrow> VolIDs \<Rightarrow> Encoding cpp" where
  "vm_encoding iddesc ids =
     foldE (\<lambda>(volume_id, msk) (nam, v).
        bindE (idd_field iddesc nam) (\<lambda>f.
          let val = scast v :: u64; off = unat (bf_offset f) in
          Inr (volume_id OR (push_bit off (bf_value f (push_bit off val)) AND bf_mask f), msk OR bf_mask f)))
       (0, 0) ids"

text \<open>\<open>print_node\<close>: the calls in its messages that change caches or can throw.\<close>

definition print_node :: "'h VMState \<Rightarrow> SensitiveDetector \<Rightarrow> handle \<Rightarrow> Encoding \<Rightarrow> 'h VMState cpp" where
  "print_node s sd e code =
     (case sd_readout sd of
        None \<Rightarrow> Inl dangling
      | Some ro \<Rightarrow>
          bindE (touch_path s e) (\<lambda>s1.
          bindE (idd_str_masked (ro_idSpec ro) (fst code) (snd code)) (\<lambda>_. Inr s1)))"

definition add_entry :: "'h Detector \<Rightarrow> 'h Populator \<Rightarrow> nat \<Rightarrow> SensitiveDetector option \<Rightarrow> handle \<Rightarrow>
    PlacedVolume \<Rightarrow> Encoding \<Rightarrow> PlacedVolume list \<Rightarrow> 'h Populator cpp" where
  "add_entry dd p vm sd_handle e n code nodes =
     (case sd_handle of
        None \<Rightarrow> Inr p
      | Some sd \<Rightarrow>
          if fst code \<in> set (vp_entries p) then Inr p
          else
            bindE (dd_detector dd (vs_det (vp_state p)) (sd_name sd)) (\<lambda>sub_detector.
            bindE (addSubdetector (vp_state p) vm sub_detector (sd_readout sd)) (\<lambda>(s1, section).
            let c = \<lparr>vc_element = e, vc_identifier = fst code, vc_mask = snd code,
                     vc_flag = (if nodes = [] then 0 else 1),
                     vc_placement = (if nodes = [] then None else Some n),
                     vc_toElement = foldl (\<lambda>mat d. MultiplyLeft (dd_geo dd) mat (pv_matrix d))
                        (gGeoIdentity (dd_geo dd)) (rev (tl nodes))\<rparr>
            in bindE (returns (adoptPlacement s1 section (Some c))) (\<lambda>(s2, ok).
               bindE (if ok then Inr s2 else print_node s2 sd e code) (\<lambda>s3.
               Inr (p\<lparr>vp_state := s3, vp_entries := vp_entries p @ [fst code],
                      vp_numNodes := Suc (vp_numNodes p)\<rparr>))))))"

text \<open>The child of the element that is placed by the given node.\<close>

fun child_placed_by :: "Heap \<Rightarrow> PlacedVolume \<Rightarrow> (string \<times> handle) list \<Rightarrow> handle cpp" where
  "child_placed_by h daughter [] = Inr 0"
| "child_placed_by h daughter ((n, de) # cs) =
     bindE (det_placement h de) (\<lambda>pv.
       if (case pv of None \<Rightarrow> False | Some q \<Rightarrow> pv_ptr q = pv_ptr daughter) then Inr de
       else child_placed_by h daughter cs)"

text \<open>Which sensitive detector applies at a node: the first part of \<open>scanPhysicalVolume\<close>.\<close>

definition select_sd :: "'h Detector \<Rightarrow> Heap \<Rightarrow> handle \<Rightarrow> handle \<Rightarrow> bool \<Rightarrow> SensitiveDetector option \<Rightarrow>
    SensitiveDetector option \<Rightarrow> SensitiveDetector option cpp" where
  "select_sd dd h parent e compound vol_sd sd =
     (if compound then Inr None
      else if sd = None then
        (if vol_sd \<noteq> None then Inr vol_sd
         else bindE (deref h parent) (\<lambda>po.
           if de_flag po AND HAVE_SENSITIVE_DETECTOR \<noteq> 0 then Inr (dd_sensitiveDetector dd (de_name po))
           else bindE (deref h e) (\<lambda>eo.
             if de_flag eo AND HAVE_SENSITIVE_DETECTOR \<noteq> 0 then Inr (dd_sensitiveDetector dd (de_name eo))
             else Inr sd)))
      else Inr sd)"

text \<open>The encoding of a node and whether one was found.\<close>

definition node_encoding :: "SensitiveDetector option \<Rightarrow> VolIDs \<Rightarrow> bool \<Rightarrow> Encoding \<Rightarrow> (Encoding \<times> bool) cpp" where
  "node_encoding sd vids compound parent_encoding =
     (let vol_encoding = (if compound then (0, 0) else parent_encoding) in
      case sd of
        Some d \<Rightarrow>
          (if vids \<noteq> [] then
             (case sd_readout d of
                Some ro \<Rightarrow> bindE (update_encoding (ro_idSpec ro) vids parent_encoding) (\<lambda>enc. Inr (enc, True))
              | None \<Rightarrow> Inr (vol_encoding, False))
           else Inr (vol_encoding, True))
      | None \<Rightarrow> Inr (vol_encoding, vids = []))"

text \<open>The last part: register the node if it is sensitive or something below it was.\<close>

definition finish_node :: "'h Detector \<Rightarrow> nat \<Rightarrow> 'h Populator \<Rightarrow> handle \<Rightarrow> PlacedVolume \<Rightarrow> bool \<Rightarrow> bool \<Rightarrow> bool \<Rightarrow>
    Encoding \<Rightarrow> SensitiveDetector option \<Rightarrow> PlacedVolume list \<Rightarrow> nat \<Rightarrow> ('h Populator \<times> nat) cpp" where
  "finish_node dd vm p e pv is_sensitive have_encoding compound vol_encoding sd nodes count =
     (if sd = None then Inr (p, count)
      else
        bindE (if \<not> have_encoding \<and> \<not> compound then
                 bindE (touch_path (vp_state p) e) (\<lambda>s. Inr (p\<lparr>vp_state := s\<rparr>))
               else Inr p) (\<lambda>p1.
        if is_sensitive \<or> 0 < count then
          bindE (det_placement (vs_det (vp_state p1)) e) (\<lambda>epv.
          bindE (if (case epv of None \<Rightarrow> False | Some q \<Rightarrow> pv_ptr q = pv_ptr pv)
                 then bindE (de_modify (vs_det (vp_state p1)) e (de_volumeID_update (\<lambda>_. fst vol_encoding)))
                        (\<lambda>h. Inr (p1\<lparr>vp_state := (vp_state p1)\<lparr>vs_det := h\<rparr>\<rparr>))
                 else Inr p1) (\<lambda>p2.
          bindE (add_entry dd p2 vm sd e pv vol_encoding nodes) (\<lambda>p3. Inr (p3, Suc count))))
        else Inr (p1, count)))"

text \<open>
  \<open>scanPhysicalVolume\<close>: the sensitive detector is a reference parameter, so what a daughter sets is
  seen by its later siblings and by the caller; the chain is pushed on entry and popped on return.
\<close>

fun scanPhysicalVolume :: "'h Detector \<Rightarrow> nat \<Rightarrow> 'h Populator \<Rightarrow> handle \<Rightarrow> handle \<Rightarrow> PlacedVolume \<Rightarrow>
      Encoding \<Rightarrow> SensitiveDetector option \<Rightarrow> PlacedVolume list \<Rightarrow>
      ('h Populator \<times> nat \<times> SensitiveDetector option) cpp"
  and scan_daughters :: "'h Detector \<Rightarrow> nat \<Rightarrow> 'h Populator \<Rightarrow> handle \<Rightarrow> handle \<Rightarrow> bool \<Rightarrow> PlacedVolume list \<Rightarrow>
      Encoding \<Rightarrow> SensitiveDetector option \<Rightarrow> PlacedVolume list \<Rightarrow> nat \<Rightarrow>
      ('h Populator \<times> nat \<times> SensitiveDetector option) cpp"
where
  "scanPhysicalVolume dd vm p parent e (TGeoNode ptr nam ids sens mat nodes) parent_encoding sd chn =
     (let pv = TGeoNode ptr nam ids sens mat nodes in
      case (ids, sens) of
        (Some vids, Some vol_sd) \<Rightarrow>
          bindE (det_type (vs_det (vp_state p)) e) (\<lambda>typ.
          let compound = (typ = ''compound''); chn' = chn @ [pv] in
          bindE (select_sd dd (vs_det (vp_state p)) parent e compound vol_sd sd) (\<lambda>sd1.
          bindE (node_encoding sd1 vids compound parent_encoding) (\<lambda>(vol_encoding, have_encoding).
          bindE (scan_daughters dd vm p parent e compound nodes vol_encoding sd1 chn' 0) (\<lambda>(p1, count, sd2).
          bindE (finish_node dd vm p1 e pv (vol_sd \<noteq> None) have_encoding compound vol_encoding sd2 chn' count)
            (\<lambda>(p2, count2). Inr (p2, count2, sd2))))))
      | (None, _) \<Rightarrow> Inl (RuntimeError ''+++ Attempt to access invalid handle of type: PlacedVolume'')
      | (_, None) \<Rightarrow> Inl (RuntimeError ''+++ Attempt to access invalid handle of type: Volume''))"
| "scan_daughters dd vm p parent e compound [] vol_encoding sd chn count = Inr (p, count, sd)"
| "scan_daughters dd vm p parent e compound (d # ds) vol_encoding sd chn count =
     (if pv_ids d = None then
        Inl (RuntimeError (''Invalid not instrumented placement:'' @ pv_name d @ '' [Internal error -- bad detector constructor]''))
      else
        bindE (det_children (vs_det (vp_state p)) e) (\<lambda>ch.
        bindE (child_placed_by (vs_det (vp_state p)) d ch) (\<lambda>de_dau.
        bindE (if de_dau \<noteq> 0 then scanPhysicalVolume dd vm p parent de_dau d vol_encoding sd []
               else scanPhysicalVolume dd vm p parent e d vol_encoding sd chn) (\<lambda>(p1, n, sd1).
        scan_daughters dd vm p1 parent e compound ds vol_encoding
          (if compound then None else sd1) chn (count + n)))))"

definition vm_populate :: "'h Detector \<Rightarrow> nat \<Rightarrow> 'h Populator \<Rightarrow> handle \<Rightarrow> 'h Populator cpp" where
  "vm_populate dd vm p e =
     bindE (deref (vs_det (vp_state p)) e) (\<lambda>eo.
       let parent_sd = (if de_flag eo AND HAVE_SENSITIVE_DETECTOR \<noteq> 0 then dd_sensitiveDetector dd (de_name eo) else None) in
       foldE (\<lambda>p1 (n, de).
         bindE (det_placement (vs_det (vp_state p1)) de) (\<lambda>pv.
           case pv of
             Some v \<Rightarrow> bindE (scanPhysicalVolume dd vm (p1\<lparr>vp_entries := []\<rparr>) de de v (0, 0) parent_sd [])
                         (\<lambda>(p2, _, _). Inr p2)
           | None \<Rightarrow> Inr p1)) p (de_children eo))"

text \<open>The constructor that builds and populates a manager; the result is its address and the node count.\<close>

definition VolumeManager_new :: "'h Detector \<Rightarrow> 'h VMState \<Rightarrow> string \<Rightarrow> handle \<Rightarrow> Readout option \<Rightarrow> i32 \<Rightarrow>
    ('h VMState \<times> nat \<times> nat) cpp" where
  "VolumeManager_new dd s nam elt ro flags =
     (let m = vs_next s; ob = VolumeManagerObject_new nam in
      if elt \<noteq> 0 then
        (let ob1 = ob\<lparr>vm_detector := elt, vm_id := (case ro of None \<Rightarrow> None | Some r \<Rightarrow> ro_idSpec r),
                      vm_top := m, vm_flags := flags\<rparr>;
             s1 = s\<lparr>vs_next := Suc m, vs_obj := (vs_obj s)(m \<mapsto> ob1)\<rparr>
         in bindE (vm_populate dd m \<lparr>vp_state = s1, vp_entries = [], vp_numNodes = 0\<rparr> elt) (\<lambda>p.
              Inr (vp_state p, m, vp_numNodes p)))
      else Inr (s\<lparr>vs_next := Suc m, vs_obj := (vs_obj s)(m \<mapsto> ob)\<rparr>, m, 0))"

end
