(* ===== verification/VolumeManagerProps.thy ===== *)
theory VolumeManagerProps
  imports VolumeManager
begin

text \<open>
  The invariant of the volume managers and the properties of \<open>VolumeManager\<close>: how identifiers are
  composed, what registration accepts, what a population of the detector establishes and why a
  lookup then finds the right context.
\<close>

section \<open>Lemmas\<close>

subsection \<open>Encodings\<close>

lemma subset_or_mono: "(a :: u64) AND NOT x = 0 \<Longrightarrow> b AND NOT y = 0 \<Longrightarrow> (a OR b) AND NOT (x OR y) = 0"
  by (auto simp: bit_eq_iff bit_simps)

lemma subset_or_left: "(a :: u64) AND NOT x = 0 \<Longrightarrow> a AND NOT (x OR y) = 0"
  by (auto simp: bit_eq_iff bit_simps)

lemma subset_or_right: "(y :: u64) AND NOT (x OR y) = 0"
  by (auto simp: bit_eq_iff bit_simps)

lemma subset_and_eq: "(a :: u64) AND NOT x = 0 \<Longrightarrow> a AND x = a"
  by (auto simp: bit_eq_iff bit_simps)

lemma update_encoding_simps [simp]:
  "update_encoding idd [] enc = Inr enc"
  "update_encoding idd ((n, v) # ids) (vid, msk) =
     bindE (idd_field idd n) (\<lambda>f. update_encoding idd ids (vid OR encode_field f (scast v), msk OR bf_mask f))"
  by (simp_all add: update_encoding_def encode_field_def bindE_def Let_def split: sum.split)

lemma get_mask_simps [simp]:
  "idd_get_mask idd [] = Inr 0"
  by (simp add: idd_get_mask_def)

lemma get_mask_from:
  "foldE (\<lambda>msk i. bindE (idd_field h (fst i)) (\<lambda>fld. Inr (msk OR bf_mask fld))) m ids =
   bindE (idd_get_mask h ids) (\<lambda>m'. Inr (m OR m'))"
proof (induction ids arbitrary: m)
  case Nil
  then show ?case by (simp add: idd_get_mask_def)
next
  case (Cons i ids)
  show ?case
  proof (cases "idd_field h (fst i)")
    case (Inr f)
    have "idd_get_mask h (i # ids) = bindE (idd_get_mask h ids) (\<lambda>m'. Inr (bf_mask f OR m'))"
      using Cons [of "bf_mask f"] Inr by (simp add: idd_get_mask_def)
    then show ?thesis using Cons [of "m OR bf_mask f"] Inr
      by (cases "idd_get_mask h ids") (simp_all add: or.assoc)
  qed (simp add: idd_get_mask_def)
qed

lemma get_mask_Cons:
  "idd_get_mask h ((n, v) # ids) = bindE (idd_field h n) (\<lambda>f. bindE (idd_get_mask h ids) (\<lambda>m. Inr (bf_mask f OR m)))"
proof (cases "idd_field h n")
  case (Inr f)
  then have "idd_get_mask h ((n, v) # ids) =
      foldE (\<lambda>msk i. bindE (idd_field h (fst i)) (\<lambda>fld. Inr (msk OR bf_mask fld))) (bf_mask f) ids"
    by (simp add: idd_get_mask_def)
  then show ?thesis using Inr by (simp add: get_mask_from)
qed (simp add: idd_get_mask_def)

lemma encode_from_or: "encode_from h x ids = bindE (encode_from h 0 ids) (\<lambda>y. Inr (x OR y))"
proof (induction ids arbitrary: x)
  case (Cons i ids)
  obtain n v where i: "i = (n, v)" by (cases i)
  show ?case
  proof (cases "idd_field h n")
    case (Inr f)
    show ?thesis
      using Cons [of "x OR encode_field f (scast v)"] Cons [of "encode_field f (scast v)"] Inr
      by (cases "encode_from h 0 ids") (simp_all add: i or.assoc)
  qed (simp add: i)
qed simp

lemma update_encoding_eq:
  "update_encoding idd ids (vid, msk) =
     bindE (idd_encode idd ids) (\<lambda>x. bindE (idd_get_mask idd ids) (\<lambda>y. Inr (vid OR x, msk OR y)))"
proof (induction ids arbitrary: vid msk)
  case Nil
  then show ?case by (simp add: idd_encode_from)
next
  case (Cons i ids)
  obtain n v where i: "i = (n, v)" by (cases i)
  show ?case
  proof (cases "idd_field idd n")
    case (Inr f)
    show ?thesis
      using Cons Inr encode_from_or [of idd "encode_field f (scast v)" ids]
      by (cases "encode_from idd 0 ids"; cases "idd_get_mask idd ids")
        (simp_all add: i idd_encode_from get_mask_Cons or.assoc)
  qed (simp add: i idd_encode_from)
qed

lemma encode_subset_mask:
  "update_encoding idd ids (vid, msk) = Inr (vid', msk') \<Longrightarrow> vid AND NOT msk = 0 \<Longrightarrow> vid' AND NOT msk' = 0"
proof (induction ids arbitrary: vid msk)
  case (Cons i ids)
  obtain n v where i: "i = (n, v)" by (cases i)
  then obtain f where u: "update_encoding idd ids (vid OR encode_field f (scast v), msk OR bf_mask f) = Inr (vid', msk')"
    using Cons.prems(1) by (auto simp: bindE_Inr_iff)
  have "encode_field f (scast v) AND NOT (bf_mask f) = 0"
    by (simp add: encode_field_def and.assoc)
  then have "(vid OR encode_field f (scast v)) AND NOT (msk OR bf_mask f) = 0"
    using Cons.prems(2) by (rule subset_or_mono [rotated])
  then show ?case using Cons.IH [OF u] by blast
qed simp

subsection \<open>The invariant of the managers\<close>

definition sections :: "'h VMState \<Rightarrow> nat \<Rightarrow> nat set" where
  "sections s t = (case vs_obj s t of None \<Rightarrow> {} | Some ob \<Rightarrow> snd ` set (vm_subdetectors ob))"

text \<open>
  A section of the manager \<open>t\<close>: every registered context is entered under its identifier, the
  identifier lies within the context's mask, the mask within the section's, and the system field
  of the identifier is the section's.
\<close>

definition section_ok :: "'h VMState \<Rightarrow> nat \<Rightarrow> i32 \<Rightarrow> nat \<Rightarrow> bool" where
  "section_ok s t flags m \<longleftrightarrow> m \<noteq> t \<and> m \<noteq> 0 \<and>
     (\<exists>mo f. vs_obj s m = Some mo \<and> vm_top mo = t \<and> vm_flags mo = flags \<and> vm_system mo = Some f \<and>
        (\<forall>vid c. vm_volumes mo vid = Some c \<longrightarrow> vc_identifier c = vid \<and> vid AND vc_mask c = vid \<and>
           vc_mask c AND NOT (vm_detMask mo) = 0 \<and> bf_value f vid = vm_sysID mo))"

text \<open>The top manager itself holds no volume; its manager map leads to its sections, keyed by system.\<close>

definition top_ok :: "'h VMState \<Rightarrow> nat \<Rightarrow> i32 \<Rightarrow> 'h VolumeManagerObject \<Rightarrow> bool" where
  "top_ok s t flags ob \<longleftrightarrow> vm_top ob = t \<and> vm_flags ob = flags \<and> vm_volumes ob = Map.empty \<and>
     vm_system ob = None \<and>
     (\<forall>k m. (k, m) \<in> set (vm_managers ob) \<longrightarrow> m \<in> sections s t \<and>
        (\<exists>mo. vs_obj s m = Some mo \<and> vm_sysID mo = k))"

definition vm_ok :: "'h VMState \<Rightarrow> nat \<Rightarrow> i32 \<Rightarrow> bool" where
  "vm_ok s t flags \<longleftrightarrow> t \<noteq> 0 \<and> t < vs_next s \<and> (\<forall>a \<ge> vs_next s. vs_obj s a = None) \<and>
     (\<exists>ob. vs_obj s t = Some ob \<and> top_ok s t flags ob) \<and>
     (\<forall>m \<in> sections s t. section_ok s t flags m)"

lemma vm_ok_det [simp]: "vm_ok (s\<lparr>vs_det := h\<rparr>) t flags = vm_ok s t flags"
  by (simp add: vm_ok_def top_ok_def sections_def section_ok_def)

lemma sections_det [simp]: "sections (s\<lparr>vs_det := h\<rparr>) t = sections s t"
  by (simp add: sections_def)

lemma touch_path_state: "touch_path s e = Inr s' \<Longrightarrow> \<exists>h. s' = s\<lparr>vs_det := h\<rparr>"
  by (auto simp: touch_path_def bindE_Inr_iff)

text \<open>What a call of \<open>adopt_in\<close> does to a section.\<close>

lemma adopt_in_cases:
  assumes "adopt_in s m c = Inr (s', b)"
  obtains ob where "vs_obj s m = Some ob"
    "b \<longleftrightarrow> vc_identifier c AND vc_mask c = vc_identifier c \<and> vm_volumes ob (vc_identifier c) = None"
    "\<not> b \<Longrightarrow> s' = s"
    "b \<Longrightarrow> \<exists>h. s' = (vm_put s m (ob\<lparr>vm_volumes := (vm_volumes ob)(vc_identifier c \<mapsto> c),
        vm_detMask := vm_detMask ob OR vc_mask c\<rparr>))\<lparr>vs_det := h\<rparr>"
proof -
  obtain ob where ob: "vs_obj s m = Some ob"
    using assms by (auto simp: adopt_in_def vm_deref_def split: option.splits)
  obtain pv where r: "(let vid = vc_identifier c; msk = vc_mask c in
       if vid AND msk \<noteq> vid then bindE (log_sensitive pv) (\<lambda>_. Inr (s, False))
       else case vm_volumes ob vid of
         None \<Rightarrow>
           (let s1 = vm_put s m (ob\<lparr>vm_volumes := (vm_volumes ob)(vid \<mapsto> c), vm_detMask := vm_detMask ob OR msk\<rparr>)
            in bindE (touch_path s1 (vc_element c)) (\<lambda>s2. Inr (s2, True)))
       | Some clash \<Rightarrow>
           bindE (de_handle_name (vs_det s) (vm_detector ob)) (\<lambda>_.
           bindE (log_sensitive pv) (\<lambda>_. Inr (s, False)))) = Inr (s', b)"
    using assms ob by (auto simp: adopt_in_def vm_deref_def bindE_Inr_iff)
  show ?thesis
  proof (cases "vc_identifier c AND vc_mask c = vc_identifier c \<and> vm_volumes ob (vc_identifier c) = None")
    case True
    then have "bindE (touch_path (vm_put s m (ob\<lparr>vm_volumes := (vm_volumes ob)(vc_identifier c \<mapsto> c),
        vm_detMask := vm_detMask ob OR vc_mask c\<rparr>)) (vc_element c)) (\<lambda>s2. Inr (s2, True)) = Inr (s', b)"
      using r by (simp add: Let_def)
    then show ?thesis using that [OF ob] True by (auto simp: bindE_Inr_iff dest: touch_path_state)
  next
    case False
    then have "s' = s \<and> \<not> b" using r by (auto simp: Let_def bindE_Inr_iff split: if_splits option.splits)
    then show ?thesis using that [OF ob] False by auto
  qed
qed

lemma section_ok_obj:
  assumes "vm_ok s t flags" and "m \<in> sections s t"
  obtains mo f where "vs_obj s m = Some mo" "vm_top mo = t" "vm_flags mo = flags" "vm_system mo = Some f"
    "m \<noteq> t" "m \<noteq> 0"
    "\<And>vid c. vm_volumes mo vid = Some c \<Longrightarrow> vc_identifier c = vid \<and> vid AND vc_mask c = vid \<and>
           vc_mask c AND NOT (vm_detMask mo) = 0 \<and> bf_value f vid = vm_sysID mo"
  using assms by (auto simp: vm_ok_def section_ok_def)

lemma vm_ok_top:
  assumes "vm_ok s t flags"
  obtains ob where "vs_obj s t = Some ob" "top_ok s t flags ob" "sections s t = snd ` set (vm_subdetectors ob)"
  using assms by (auto simp: vm_ok_def sections_def)

lemma vm_ok_less: "vm_ok s t flags \<Longrightarrow> vs_obj s m = Some mo \<Longrightarrow> m < vs_next s"
  by (metis linorder_not_less option.distinct(1) vm_ok_def)

lemma vm_ok_adopt_in:
  assumes ok: "vm_ok s t flags" and m: "m \<in> sections s t"
    and sys: "\<And>mo f. vs_obj s m = Some mo \<Longrightarrow> vm_system mo = Some f \<Longrightarrow> bf_value f (vc_identifier c) = vm_sysID mo"
    and ad: "adopt_in s m c = Inr (s', b)"
  shows "vm_ok s' t flags \<and> sections s' t = sections s t"
proof (rule adopt_in_cases [OF ad])
  fix ob
  assume ob: "vs_obj s m = Some ob"
    and b: "b \<longleftrightarrow> vc_identifier c AND vc_mask c = vc_identifier c \<and> vm_volumes ob (vc_identifier c) = None"
    and nb: "\<not> b \<Longrightarrow> s' = s"
    and yb: "b \<Longrightarrow> \<exists>h. s' = (vm_put s m (ob\<lparr>vm_volumes := (vm_volumes ob)(vc_identifier c \<mapsto> c),
        vm_detMask := vm_detMask ob OR vc_mask c\<rparr>))\<lparr>vs_det := h\<rparr>"
  show ?thesis
  proof (cases b)
    case False
    then show ?thesis using nb ok by simp
  next
    case True
    let ?ob' = "ob\<lparr>vm_volumes := (vm_volumes ob)(vc_identifier c \<mapsto> c), vm_detMask := vm_detMask ob OR vc_mask c\<rparr>"
    obtain h where s': "s' = (vm_put s m ?ob')\<lparr>vs_det := h\<rparr>" using yb True by blast
    have "section_ok s t flags m" using ok m by (simp add: vm_ok_def)
    then obtain f where mt: "m \<noteq> t" "m \<noteq> 0" and f: "vm_top ob = t" "vm_flags ob = flags" "vm_system ob = Some f"
      and vol: "\<And>vid c. vm_volumes ob vid = Some c \<Longrightarrow> vc_identifier c = vid \<and> vid AND vc_mask c = vid \<and>
           vc_mask c AND NOT (vm_detMask ob) = 0 \<and> bf_value f vid = vm_sysID ob"
      using ob by (auto simp: section_ok_def)
    have sec: "sections s' t = sections s t" using mt by (simp add: s' sections_def vm_put_def)
    have "section_ok s' t flags m"
      unfolding section_ok_def
    proof (intro conjI exI allI impI)
      show "vs_obj s' m = Some ?ob'" by (simp add: s' vm_put_def)
      show "vm_system ?ob' = Some f" using f by simp
      fix vid c'
      assume v: "vm_volumes ?ob' vid = Some c'"
      note mono = subset_or_left and self = subset_or_right
      show "vc_identifier c' = vid" "vid AND vc_mask c' = vid" "vc_mask c' AND NOT (vm_detMask ?ob') = 0"
        "bf_value f vid = vm_sysID ?ob'"
        using v vol b True sys [OF ob f(3)] mono self by (auto split: if_splits)
    qed (use mt f in simp_all)
    moreover have "section_ok s' t flags m'" if "m' \<in> sections s t" "m' \<noteq> m" for m'
      using ok that by (simp add: vm_ok_def section_ok_def s' vm_put_def)
    moreover obtain tb where tb: "vs_obj s t = Some tb" "top_ok s t flags tb" "sections s t = snd ` set (vm_subdetectors tb)"
      by (rule vm_ok_top [OF ok])
    moreover have "\<exists>mo. vs_obj s' m' = Some mo \<and> vm_sysID mo = k" if km: "(k, m') \<in> set (vm_managers tb)" for k m'
    proof -
      obtain mo where "vs_obj s m' = Some mo" "vm_sysID mo = k" using tb(2) km by (auto simp: top_ok_def)
      then show ?thesis using ob by (cases "m' = m") (auto simp: s' vm_put_def)
    qed
    then have "top_ok s' t flags tb" using tb(2) sec by (simp add: top_ok_def)
    moreover have "m < vs_next s" by (rule vm_ok_less [OF ok ob])
    moreover have "vs_next s' = vs_next s" "vs_obj s' t = Some tb" "\<And>a. a \<noteq> m \<Longrightarrow> vs_obj s' a = vs_obj s a"
      using mt tb(1) by (simp_all add: s' vm_put_def)
    moreover have "\<forall>a \<ge> vs_next s'. vs_obj s' a = None"
      using ok \<open>m < vs_next s\<close> \<open>vs_next s' = vs_next s\<close> \<open>\<And>a. a \<noteq> m \<Longrightarrow> vs_obj s' a = vs_obj s a\<close>
      by (simp add: vm_ok_def)
    moreover have "\<forall>m' \<in> sections s' t. section_ok s' t flags m'"
      using \<open>section_ok s' t flags m\<close> \<open>\<And>m'. \<lbrakk>m' \<in> sections s t; m' \<noteq> m\<rbrakk> \<Longrightarrow> section_ok s' t flags m'\<close>
      unfolding sec by blast
    ultimately show ?thesis
      using ok sec unfolding vm_ok_def by auto
  qed
qed

lemma find_manager_Some: "find_manager s x js = Inr (Some m) \<Longrightarrow>
    \<exists>k mo f. (k, m) \<in> set js \<and> vs_obj s m = Some mo \<and> vm_system mo = Some f \<and> bf_value f x = k"
proof (induction js)
  case (Cons j js)
  obtain k m0 where j: "j = (k, m0)" by (cases j)
  obtain mo f where mo: "vs_obj s m0 = Some mo" "vm_system mo = Some f"
    using Cons.prems by (auto simp: j vm_deref_def system_value_def bindE_Inr_iff split: option.splits)
  show ?case
  proof (cases "k = bf_value f x")
    case True
    then show ?thesis using Cons.prems mo by (auto simp: j vm_deref_def system_value_def)
  next
    case False
    then have "find_manager s x js = Inr (Some m)"
      using Cons.prems mo by (simp add: j vm_deref_def system_value_def)
    then show ?thesis using Cons.IH by auto
  qed
qed simp

definition tree_mode :: "i32 \<Rightarrow> bool" where
  "tree_mode flags \<longleftrightarrow> flags AND vm_TREE = vm_TREE \<and> flags AND vm_ONE \<noteq> vm_ONE"

text \<open>
  In tree mode registration returns: a section registers what carries its own system identifier,
  everything else goes to the first manager with the right one, or is refused.
\<close>

definition adopt_at_top :: "'h VMState \<Rightarrow> 'h VolumeManagerObject \<Rightarrow> 'h VolumeManagerContext \<Rightarrow> ('h VMState \<times> bool) cpp" where
  "adopt_at_top s ob c =
     bindE (find_manager s (vc_identifier c) (vm_managers ob)) (\<lambda>r. case r of
         None \<Rightarrow> Inr (s, False)
       | Some mgr \<Rightarrow> adopt_in s mgr c)"

lemma adopt_top:
  assumes "vm_ok s t flags" and "tree_mode flags" and "vs_obj s t = Some ob"
  shows "adoptPlacement s t (Some c) = Some (adopt_at_top s ob c)"
proof -
  have "top_ok s t flags ob" "t \<noteq> 0" using assms by (auto simp: vm_ok_def)
  then show ?thesis
    using assms(2,3)
    by (subst adoptPlacement.simps)
      (auto simp: top_ok_def tree_mode_def adopt_at_top_def bindE_def split: sum.split option.split)
qed

lemma adopt_section:
  assumes "vm_ok s t flags" and "tree_mode flags" and "m \<in> sections s t" and "vs_obj s t = Some ob"
  obtains mo f where "vs_obj s m = Some mo" "vm_system mo = Some f"
    "adoptPlacement s m (Some c) = Some (if bf_value f (vc_identifier c) = vm_sysID mo then adopt_in s m c
       else adopt_at_top s ob c)"
proof -
  obtain mo f where mo: "vs_obj s m = Some mo" "vm_top mo = t" "vm_flags mo = flags" "vm_system mo = Some f" "m \<noteq> t" "m \<noteq> 0"
    using assms(1,3) by (auto simp: vm_ok_def section_ok_def)
  then have "adoptPlacement s m (Some c) = Some (if bf_value f (vc_identifier c) = vm_sysID mo then adopt_in s m c
       else adopt_at_top s ob c)"
    using assms(2) adopt_top [OF assms(1,2,4), of c]
    by (subst adoptPlacement.simps) (auto simp: tree_mode_def system_value_def)
  then show ?thesis using that mo by blast
qed

lemma vm_ok_adopt_top:
  assumes ok: "vm_ok s t flags" and ob: "vs_obj s t = Some ob" and ad: "adopt_at_top s ob c = Inr (s', b)"
  shows "vm_ok s' t flags \<and> sections s' t = sections s t"
proof -
  have top: "top_ok s t flags ob" using ok ob by (simp add: vm_ok_def)
  obtain r where r: "find_manager s (vc_identifier c) (vm_managers ob) = Inr r"
    using ad by (auto simp: adopt_at_top_def bindE_Inr_iff)
  show ?thesis
  proof (cases r)
    case None
    then show ?thesis using ad r ok by (simp add: adopt_at_top_def)
  next
    case (Some mgr)
    obtain k mo f where k: "(k, mgr) \<in> set (vm_managers ob)" "vs_obj s mgr = Some mo" "vm_system mo = Some f"
      "bf_value f (vc_identifier c) = k"
      using find_manager_Some r Some by blast
    have "mgr \<in> sections s t \<and> (\<exists>mo. vs_obj s mgr = Some mo \<and> vm_sysID mo = k)"
      using top k(1) unfolding top_ok_def by blast
    then have sec: "mgr \<in> sections s t" and sys: "vm_sysID mo = k" using k(2) by auto
    have "adopt_in s mgr c = Inr (s', b)" using ad r Some by (simp add: adopt_at_top_def)
    then show ?thesis
      by (rule vm_ok_adopt_in [OF ok sec, rotated]) (use k sys in auto)
  qed
qed

lemma vm_ok_adopt:
  assumes ok: "vm_ok s t flags" and tm: "tree_mode flags" and m: "m \<in> sections s t"
    and ad: "adoptPlacement s m (Some c) = Some (Inr (s', b))"
  shows "vm_ok s' t flags \<and> sections s' t = sections s t"
proof -
  obtain ob where ob: "vs_obj s t = Some ob" by (rule vm_ok_top [OF ok])
  obtain mo f where mo: "vs_obj s m = Some mo" "vm_system mo = Some f"
    and a: "adoptPlacement s m (Some c) = Some (if bf_value f (vc_identifier c) = vm_sysID mo then adopt_in s m c
       else adopt_at_top s ob c)"
    by (rule adopt_section [OF ok tm m ob])
  show ?thesis
  proof (cases "bf_value f (vc_identifier c) = vm_sysID mo")
    case True
    then have "adopt_in s m c = Inr (s', b)" using a ad by simp
    then show ?thesis by (rule vm_ok_adopt_in [OF ok m, rotated]) (use mo True in auto)
  next
    case False
    then have "adopt_at_top s ob c = Inr (s', b)" using a ad by simp
    then show ?thesis by (rule vm_ok_adopt_top [OF ok ob])
  qed
qed

subsection \<open>Sections and the scan keep the invariant\<close>

lemma set_map_assign: "set (map_assign k v m) \<subseteq> insert (k, v) (set m)"
  by (induction k v m rule: map_assign.induct) auto

lemma set_map_assign_new: "map_of m k = None \<Longrightarrow> set (map_assign k v m) = insert (k, v) (set m)"
  by (induction k v m rule: map_assign.induct) (auto split: if_splits)

lemma addSubdetector_cases:
  assumes add: "addSubdetector s t det ro = Inr (s', m)" and t: "vs_obj s t = Some ob"
  obtains (old) "s' = s" "map_of (vm_subdetectors ob) det = Some m"
  | (new) f sysID h mo where "map_of (vm_subdetectors ob) det = None" "m = vs_next s"
      "vm_top mo = vm_top ob" "vm_flags mo = vm_flags ob" "vm_system mo = Some f" "vm_sysID mo = sysID"
      "vm_detMask mo = sysID" "vm_volumes mo = Map.empty"
      "s' = s\<lparr>vs_next := Suc m, vs_obj := (vs_obj s)(m \<mapsto> mo,
          t \<mapsto> ob\<lparr>vm_subdetectors := map_assign det m (vm_subdetectors ob),
                 vm_managers := map_assign sysID m (vm_managers ob)\<rparr>), vs_det := h\<rparr>"
proof -
  have t0: "t \<noteq> 0" using add by (cases "t = 0") (simp_all add: addSubdetector_def)
  have d0: "det \<noteq> 0" using add t0 t by (cases "det = 0") (simp_all add: addSubdetector_def vm_deref_def)
  show ?thesis
  proof (cases "map_of (vm_subdetectors ob) det")
    case (Some mgr)
    then have "s' = s \<and> m = mgr" using add t0 t d0 by (simp add: addSubdetector_def vm_deref_def)
    then show ?thesis using old Some by simp
  next
    case None
    obtain r idn idv where e: "enter_section s t ob det r idn idv = Inr (s', m)"
    proof -
      obtain nam r pv where "de_handle_name (vs_det s) det = Inr nam" "ro = Some r"
        and pv: "det_placement (vs_det s) det = Inr pv"
        using add t0 t d0 None
        by (cases ro) (auto simp: addSubdetector_def vm_deref_def bindE_Inr_iff)
      moreover from this obtain p where "pv = Some p"
        using add t0 t d0 None by (cases pv) (auto simp: addSubdetector_def vm_deref_def)
      moreover from this calculation obtain ids where "pv_ids p = Some ids"
        using add t0 t d0 None by (cases "pv_ids p") (auto simp: addSubdetector_def vm_deref_def)
      moreover from this calculation obtain i where "List.find (\<lambda>(n, v). n = ''system'') ids = Some i"
        using add t0 t d0 None by (cases "List.find (\<lambda>(n, v). n = ''system'') ids")
          (auto simp: addSubdetector_def vm_deref_def)
      ultimately have "enter_section s t ob det r (fst i) (snd i) = Inr (s', m)"
        using add t0 t d0 None by (simp add: addSubdetector_def vm_deref_def split: prod.splits)
      then show ?thesis using that by blast
    qed
    obtain s1 mgr where s1: "VolumeManager_section s det (Some r) = Inr (s1, mgr)"
      using e by (auto simp: enter_section_def bindE_Inr_iff)
    obtain nam where s1': "s1 = s\<lparr>vs_next := Suc mgr, vs_obj := (vs_obj s)(mgr \<mapsto>
        (VolumeManagerObject_new nam)\<lparr>vm_detector := det, vm_id := ro_idSpec r\<rparr>)\<rparr>" "mgr = vs_next s"
      using s1 by (auto simp: VolumeManager_section_def bindE_Inr_iff Let_def)
    obtain f where f: "idd_field (ro_idSpec r) idn = Inr f"
      using e s1 by (auto simp: enter_section_def bindE_Inr_iff)
    let ?mo = "(VolumeManagerObject_new nam)\<lparr>vm_detector := det, vm_id := ro_idSpec r,
       vm_top := vm_top ob, vm_flags := vm_flags ob, vm_system := Some f, vm_sysID := scast idv, vm_detMask := scast idv\<rparr>"
    obtain h where h: "m = mgr" "s' = (vm_put (vm_put s1 mgr ?mo) t
            (ob\<lparr>vm_subdetectors := map_assign det mgr (vm_subdetectors ob),
                vm_managers := map_assign (scast idv) mgr (vm_managers ob)\<rparr>))\<lparr>vs_det := h\<rparr>"
      using e s1 f unfolding s1' by (auto simp: enter_section_def bindE_Inr_iff vm_deref_def Let_def)
    show ?thesis
      by (rule new [of ?mo f "scast idv" h])
        (use None h s1' in \<open>simp_all add: vm_put_def VolumeManagerObject_new_def\<close>)
  qed
qed

lemma vm_ok_addSubdetector:
  assumes ok: "vm_ok s t flags" and add: "addSubdetector s t det ro = Inr (s', m)"
  shows "vm_ok s' t flags \<and> m \<in> sections s' t"
proof -
  obtain ob where ob: "vs_obj s t = Some ob" "top_ok s t flags ob" "sections s t = snd ` set (vm_subdetectors ob)"
    by (rule vm_ok_top [OF ok])
  show ?thesis
  proof (rule addSubdetector_cases [OF add ob(1)])
    assume "s' = s" and "map_of (vm_subdetectors ob) det = Some m"
    then show ?thesis using ok ob(3) by (auto dest!: map_of_SomeD intro: rev_image_eqI)
  next
    fix f sysID h mo
    assume none: "map_of (vm_subdetectors ob) det = None" and m: "m = vs_next s"
      and mo: "vm_top mo = vm_top ob" "vm_flags mo = vm_flags ob" "vm_system mo = Some f" "vm_sysID mo = sysID"
        "vm_volumes mo = Map.empty"
      and s': "s' = s\<lparr>vs_next := Suc m, vs_obj := (vs_obj s)(m \<mapsto> mo,
          t \<mapsto> ob\<lparr>vm_subdetectors := map_assign det m (vm_subdetectors ob),
                 vm_managers := map_assign sysID m (vm_managers ob)\<rparr>), vs_det := h\<rparr>"
    have mt: "m \<noteq> t" "t \<noteq> 0" "m \<noteq> 0" "t < vs_next s" using ok m by (auto simp: vm_ok_def)
    let ?ob' = "ob\<lparr>vm_subdetectors := map_assign det m (vm_subdetectors ob),
                 vm_managers := map_assign sysID m (vm_managers ob)\<rparr>"
    have st: "vs_obj s' t = Some ?ob'" "vs_obj s' m = Some mo" "vs_next s' = Suc m"
      "\<And>a. a \<noteq> m \<Longrightarrow> a \<noteq> t \<Longrightarrow> vs_obj s' a = vs_obj s a"
      using mt by (simp_all add: s')
    have sec: "sections s' t = insert m (sections s t)"
      using set_map_assign_new [OF none, of m] by (simp add: sections_def st ob(1))
    have old: "m' \<noteq> m \<and> m' \<noteq> t" if m': "m' \<in> sections s t" for m'
    proof -
      obtain mo' where "vs_obj s m' = Some mo'" "m' \<noteq> t" using ok m' by (auto simp: vm_ok_def section_ok_def)
      then show ?thesis using vm_ok_less [OF ok, of m' mo'] m by auto
    qed
    have "section_ok s' t flags m'" if m': "m' \<in> sections s' t" for m'
    proof (cases "m' = m")
      case True
      have "vm_top mo = t" "vm_flags mo = flags" "vm_system mo = Some f" "vm_volumes mo = Map.empty"
        using ob(2) mo by (simp_all add: top_ok_def)
      then show ?thesis using True mt st(2) by (simp add: section_ok_def)
    next
      case False
      then have "m' \<in> sections s t" using m' sec by simp
      then show ?thesis using ok old [of m'] st(4) by (auto simp: vm_ok_def section_ok_def)
    qed
    moreover have "top_ok s' t flags ?ob'"
    proof -
      have "m' \<in> sections s' t \<and> (\<exists>mo. vs_obj s' m' = Some mo \<and> vm_sysID mo = k)"
        if km: "(k, m') \<in> set (map_assign sysID m (vm_managers ob))" for k m'
      proof (cases "(k, m') = (sysID, m)")
        case True
        then show ?thesis using mo(4) sec st(2) by simp
      next
        case False
        then have "(k, m') \<in> set (vm_managers ob)" using km set_map_assign [of sysID m "vm_managers ob"] by auto
        then have "m' \<in> sections s t" "\<exists>mo. vs_obj s m' = Some mo \<and> vm_sysID mo = k"
          using ob(2) by (auto simp: top_ok_def)
        then show ?thesis using sec old st(4) by auto
      qed
      then show ?thesis using ob(2) by (simp add: top_ok_def)
    qed
    moreover have "\<forall>a \<ge> vs_next s'. vs_obj s' a = None"
      using ok m mt st by (auto simp: vm_ok_def)
    ultimately show ?thesis using mt st(1,3) m sec by (auto simp: vm_ok_def)
  qed
qed


lemma vm_ok_new_state: "vm_ok s t flags \<Longrightarrow> vm_ok (s\<lparr>vs_det := h\<rparr>) t flags"
  by simp

lemma vm_ok_touch: "vm_ok s t flags \<Longrightarrow> touch_path s e = Inr s' \<Longrightarrow> vm_ok s' t flags"
  using touch_path_state by fastforce

lemma returns_Inr: "returns r = Inr x \<longleftrightarrow> r = Some (Inr x)"
  by (auto simp: returns_def split: option.splits)

lemma vm_ok_add_entry:
  assumes ok: "vm_ok (vp_state p) t flags" and tm: "tree_mode flags"
    and ad: "add_entry dd p t sd e n code nodes = Inr p'"
  shows "vm_ok (vp_state p') t flags"
proof (cases "sd = None \<or> fst code \<in> set (vp_entries p)")
  case True
  then have "p' = p" using ad by (cases sd) (auto simp: add_entry_def)
  then show ?thesis using ok by simp
next
  case False
  then obtain d where d: "sd = Some d" "fst code \<notin> set (vp_entries p)" by auto
  let ?c = "\<lparr>vc_element = e, vc_identifier = fst code, vc_mask = snd code,
                     vc_flag = (if nodes = [] then 0 else 1),
                     vc_placement = (if nodes = [] then None else Some n),
                     vc_toElement = foldl (\<lambda>mat d. MultiplyLeft (dd_geo dd) mat (pv_matrix d))
                        (gGeoIdentity (dd_geo dd)) (rev (tl nodes))\<rparr>"
  obtain sub s1 sctn s2 b s3 where
    add: "addSubdetector (vp_state p) t sub (sd_readout d) = Inr (s1, sctn)"
    and a2: "adoptPlacement s1 sctn (Some ?c) = Some (Inr (s2, b))"
    and s3: "(if b then Inr s2 else print_node s2 d e code) = Inr s3" and p': "vp_state p' = s3"
    using ad d by (auto simp: add_entry_def bindE_Inr_iff returns_Inr Let_def split: prod.splits)
  have "vm_ok s1 t flags" "sctn \<in> sections s1 t" using vm_ok_addSubdetector [OF ok add] by auto
  then have ok2: "vm_ok s2 t flags" using vm_ok_adopt [OF _ tm _ a2] by blast
  show ?thesis
  proof (cases b)
    case True
    then show ?thesis using ok2 s3 p' by simp
  next
    case False
    then obtain ro where "sd_readout d = Some ro" "touch_path s2 e = Inr s3"
      using s3 by (auto simp: print_node_def bindE_Inr_iff split: option.splits)
    then show ?thesis using vm_ok_touch [OF ok2] p' by simp
  qed
qed

lemma vm_ok_finish:
  assumes ok: "vm_ok (vp_state p) t flags" and tm: "tree_mode flags"
    and fin: "finish_node dd t p e pv is_sens have_enc compound enc sd nodes n = Inr (p', n')"
  shows "vm_ok (vp_state p') t flags"
proof (cases "sd = None")
  case True
  then show ?thesis using fin ok by (simp add: finish_node_def)
next
  case False
  obtain p1 where p1: "(if \<not> have_enc \<and> \<not> compound then
                 bindE (touch_path (vp_state p) e) (\<lambda>s. Inr (p\<lparr>vp_state := s\<rparr>)) else Inr p) = Inr p1"
    using fin False unfolding finish_node_def by (auto simp only: bindE_Inr_iff if_False if_True)
  have ok1: "vm_ok (vp_state p1) t flags"
    using p1 ok vm_ok_touch [OF ok] by (auto simp: bindE_Inr_iff split: if_splits)
  show ?thesis
  proof (cases "is_sens \<or> 0 < n")
    case False
    then show ?thesis using fin \<open>sd \<noteq> None\<close> p1 ok1 by (simp add: finish_node_def)
  next
    case True
    obtain epv p2 where
      p2: "(if (case epv of None \<Rightarrow> False | Some q \<Rightarrow> pv_ptr q = pv_ptr pv)
                 then bindE (de_modify (vs_det (vp_state p1)) e (de_volumeID_update (\<lambda>_. fst enc)))
                        (\<lambda>h. Inr (p1\<lparr>vp_state := (vp_state p1)\<lparr>vs_det := h\<rparr>\<rparr>))
                 else Inr p1) = Inr p2"
      and p3: "add_entry dd p2 t sd e pv enc nodes = Inr p'"
      using fin \<open>sd \<noteq> None\<close> p1 True by (auto simp: finish_node_def bindE_Inr_iff)
    have "vm_ok (vp_state p2) t flags"
      using p2 ok1 by (auto simp: bindE_Inr_iff split: if_splits)
    then show ?thesis by (rule vm_ok_add_entry [OF _ tm p3])
  qed
qed

lemma vm_ok_scan:
  "scanPhysicalVolume dd t p parent e pv enc sd chn = Inr (p', n', sd') \<Longrightarrow>
     vm_ok (vp_state p) t flags \<Longrightarrow> tree_mode flags \<Longrightarrow> vm_ok (vp_state p') t flags"
  "scan_daughters dd t p parent e compound ds enc sd chn n = Inr (p', n', sd') \<Longrightarrow>
     vm_ok (vp_state p) t flags \<Longrightarrow> tree_mode flags \<Longrightarrow> vm_ok (vp_state p') t flags"
proof (induction dd t p parent e pv enc sd chn and dd t p parent e compound ds enc sd chn n
    arbitrary: p' n' sd' and p' n' sd' rule: scanPhysicalVolume_scan_daughters.induct)
  case (1 dd vm p parent e ptr nam ids sens mat nodes parent_encoding sd chn)
  let ?pv = "TGeoNode ptr nam ids sens mat nodes"
  obtain vids vol_sd where v: "ids = Some vids" "sens = Some vol_sd"
    using "1.prems"(1) by (cases ids; cases sens) auto
  obtain ty sd1 enc1 he p1 count sd2 where
    ty: "det_type (vs_det (vp_state p)) e = Inr ty"
    and sd1: "select_sd dd (vs_det (vp_state p)) parent e (ty = ''compound'') vol_sd sd = Inr sd1"
    and enc1: "node_encoding sd1 vids (ty = ''compound'') parent_encoding = Inr (enc1, he)"
    and ds: "scan_daughters dd vm p parent e (ty = ''compound'') nodes enc1 sd1 (chn @ [?pv]) 0 = Inr (p1, count, sd2)"
    and fin: "finish_node dd vm p1 e ?pv (vol_sd \<noteq> None) he (ty = ''compound'') enc1 sd2 (chn @ [?pv]) count = Inr (p', n')"
    using "1.prems"(1) v by (auto simp: bindE_Inr_iff Let_def simp del: scan_daughters.simps)
  have "vm_ok (vp_state p1) vm flags"
    using "1.IH" [OF refl _ _ refl refl _ ] ds v "1.prems"(2,3) by metis
  then show ?case by (rule vm_ok_finish [OF _ "1.prems"(3) fin])
next
  case (3 dd vm p parent e compound d ds enc sd chn count)
  obtain ch de_dau where
    cd: "det_children (vs_det (vp_state p)) e = Inr ch" "child_placed_by (vs_det (vp_state p)) d ch = Inr de_dau"
    using "3.prems"(1) by (auto simp: bindE_Inr_iff simp del: scanPhysicalVolume.simps split: if_splits)
  have ids: "pv_ids d \<noteq> None" using "3.prems"(1) by (auto split: if_splits)
  let ?sub = "if de_dau \<noteq> 0 then scanPhysicalVolume dd vm p parent de_dau d enc sd []
               else scanPhysicalVolume dd vm p parent e d enc sd chn"
  have "bindE ?sub (\<lambda>(p1, k, sd1). scan_daughters dd vm p1 parent e compound ds enc
      (if compound then None else sd1) chn (count + k)) = Inr (p', n', sd')"
    using "3.prems"(1) cd ids by (simp only: scan_daughters.simps bindE_simps if_False)
  then obtain p1 k sd1 where sc: "?sub = Inr (p1, k, sd1)"
    and rest: "scan_daughters dd vm p1 parent e compound ds enc (if compound then None else sd1) chn (count + k)
      = Inr (p', n', sd')"
    unfolding bindE_Inr_iff by auto
  have ok1: "vm_ok (vp_state p1) vm flags"
  proof (cases "de_dau = 0")
    case True
    then show ?thesis using "3.IH"(2) sc "3.prems"(2,3) ids by simp
  next
    case False
    then show ?thesis using "3.IH"(1) sc "3.prems"(2,3) ids by simp
  qed
  show ?case using "3.IH"(3) [OF ids rest ok1 "3.prems"(3)] .
qed simp


lemma vm_ok_populate:
  assumes "vm_populate dd t p e = Inr p'" and "vm_ok (vp_state p) t flags" and "tree_mode flags"
  shows "vm_ok (vp_state p') t flags"
proof -
  let ?step = "\<lambda>sd0 p1 (n :: string, de).
         bindE (det_placement (vs_det (vp_state p1)) de) (\<lambda>pv.
           case pv of
             Some v \<Rightarrow> bindE (scanPhysicalVolume dd t (p1\<lparr>vp_entries := []\<rparr>) de de v (0, 0) sd0 [])
                         (\<lambda>(p2, _, _). Inr p2)
           | None \<Rightarrow> Inr p1)"
  obtain eo where eo: "deref (vs_det (vp_state p)) e = Inr eo"
    using assms(1) by (auto simp: vm_populate_def bindE_Inr_iff)
  define sd0 where "sd0 = (if de_flag eo AND HAVE_SENSITIVE_DETECTOR \<noteq> 0 then dd_sensitiveDetector dd (de_name eo) else None)"
  have "foldE (?step sd0) p (de_children eo) = Inr p'"
    using assms(1) eo unfolding sd0_def by (simp add: vm_populate_def Let_def)
  then show ?thesis
  proof (rule foldE_invariant [where P = "\<lambda>p. vm_ok (vp_state p) t flags"])
    show "vm_ok (vp_state p) t flags" by (rule assms(2))
    fix q x q' assume q: "vm_ok (vp_state q) t flags" and st: "?step sd0 q x = Inr q'"
    obtain n de where x: "x = (n, de)" by (cases x)
    obtain pv where pv: "det_placement (vs_det (vp_state q)) de = Inr pv"
      using st by (auto simp: x bindE_Inr_iff)
    show "vm_ok (vp_state q') t flags"
    proof (cases pv)
      case None
      then show ?thesis using st q pv by (simp add: x)
    next
      case (Some v)
      then obtain k sd' where "scanPhysicalVolume dd t (q\<lparr>vp_entries := []\<rparr>) de de v (0, 0) sd0 [] = Inr (q', k, sd')"
        using st pv by (auto simp: x bindE_Inr_iff)
      then show ?thesis by (rule vm_ok_scan(1) [OF _ _ assms(3)]) (simp add: q)
    qed
  qed
qed

lemma vm_ok_VolumeManager_new:
  assumes new: "VolumeManager_new dd s nam elt ro flags = Inr (s', t, n)" and "elt \<noteq> 0" and "tree_mode flags"
    and fresh: "0 < vs_next s" "\<forall>a \<ge> vs_next s. vs_obj s a = None"
  shows "vm_ok s' t flags \<and> t = vs_next s"
proof -
  let ?ob = "(VolumeManagerObject_new nam)\<lparr>vm_detector := elt,
     vm_id := (case ro of None \<Rightarrow> None | Some r \<Rightarrow> ro_idSpec r), vm_top := vs_next s, vm_flags := flags\<rparr>"
  let ?s1 = "s\<lparr>vs_next := Suc (vs_next s), vs_obj := (vs_obj s)(vs_next s \<mapsto> ?ob)\<rparr>"
  obtain p where p: "vm_populate dd (vs_next s) \<lparr>vp_state = ?s1, vp_entries = [], vp_numNodes = 0\<rparr> elt = Inr p"
    and s': "s' = vp_state p" "t = vs_next s"
    using new assms(2) by (auto simp: VolumeManager_new_def bindE_Inr_iff Let_def)
  have "vm_ok ?s1 (vs_next s) flags"
    using fresh by (simp add: vm_ok_def top_ok_def sections_def VolumeManagerObject_new_def)
  then show ?thesis using vm_ok_populate [OF p _ assms(3)] s' by simp
qed

subsection \<open>Lookup\<close>

lemma search_sections_find:
  assumes "(d, m) \<in> set js" and "\<And>d' m'. (d', m') \<in> set js \<Longrightarrow> vs_obj s m' \<noteq> None"
    and "vs_obj s m = Some mo" and "vm_search mo x = Some c"
    and "\<And>d' m' mo' c'. \<lbrakk>(d', m') \<in> set js; vs_obj s m' = Some mo'; vm_search mo' x = Some c'\<rbrakk> \<Longrightarrow> c' = c"
  shows "search_sections s x js = Inr c"
  using assms
proof (induction js)
  case (Cons j js)
  obtain d0 m0 where j: "j = (d0, m0)" by (cases j)
  obtain mo0 where mo0: "vs_obj s m0 = Some mo0" using Cons.prems(2) [of d0 m0] j by auto
  show ?case
  proof (cases "vm_search mo0 x")
    case (Some c')
    then have "c' = c" using Cons.prems(5) [of d0 m0 mo0 c'] j mo0 by simp
    then show ?thesis using Some mo0 by (simp add: j vm_deref_def)
  next
    case None
    then have "m \<noteq> m0" using Cons.prems(3,4) mo0 by auto
    then have "(d, m) \<in> set js" using Cons.prems(1) j by simp
    then have "search_sections s x js = Inr c"
    proof (rule Cons.IH)
      show "vs_obj s m' \<noteq> None" if "(d', m') \<in> set js" for d' m'
        using Cons.prems(2) [of d' m'] that by simp
      show "c' = c" if "(d', m') \<in> set js" "vs_obj s m' = Some mo'" "vm_search mo' x = Some c'" for d' m' mo' c'
        using Cons.prems(5) [of d' m' mo' c'] that by simp
    qed (rule Cons.prems(3), rule Cons.prems(4))
    then show ?thesis using None mo0 by (simp add: j vm_deref_def)
  qed
qed simp

text \<open>
  All sections use the same system field, the masks of the filled ones contain it, and different
  sections have different systems: what a consistent readout description provides.
\<close>

definition uniform_system :: "'h VMState \<Rightarrow> nat \<Rightarrow> BitFieldElement \<Rightarrow> bool" where
  "uniform_system s t f \<longleftrightarrow>
     (\<forall>m \<in> sections s t. \<forall>mo. vs_obj s m = Some mo \<longrightarrow> vm_system mo = Some f \<and>
        (vm_volumes mo \<noteq> Map.empty \<longrightarrow> bf_mask f AND NOT (vm_detMask mo) = 0)) \<and>
     (\<forall>m \<in> sections s t. \<forall>m' \<in> sections s t. \<forall>mo mo'. vs_obj s m = Some mo \<longrightarrow> vs_obj s m' = Some mo' \<longrightarrow>
        vm_sysID mo = vm_sysID mo' \<longrightarrow> m = m')"

lemma uniform_dest:
  assumes "uniform_system s t f" and "m \<in> sections s t" and "vs_obj s m = Some mo"
  shows "vm_system mo = Some f"
    and "vm_volumes mo vid = Some c \<Longrightarrow> bf_mask f AND NOT (vm_detMask mo) = 0"
    and "m' \<in> sections s t \<Longrightarrow> vs_obj s m' = Some mo' \<Longrightarrow> vm_sysID mo = vm_sysID mo' \<Longrightarrow> m = m'"
proof -
  have a: "vm_system mo = Some f \<and> (vm_volumes mo \<noteq> Map.empty \<longrightarrow> bf_mask f AND NOT (vm_detMask mo) = 0)"
    using assms unfolding uniform_system_def by blast
  then show "vm_system mo = Some f" ..
  show "vm_volumes mo vid = Some c \<Longrightarrow> bf_mask f AND NOT (vm_detMask mo) = 0" using a by force
  show "m' \<in> sections s t \<Longrightarrow> vs_obj s m' = Some mo' \<Longrightarrow> vm_sysID mo = vm_sysID mo' \<Longrightarrow> m = m'"
    using assms unfolding uniform_system_def by blast
qed

lemma section_volume:
  assumes "vm_ok s t flags" and "m \<in> sections s t" and "vs_obj s m = Some mo" and "vm_system mo = Some f"
    and "vm_volumes mo vid = Some c"
  shows "vc_identifier c = vid" "vid AND vc_mask c = vid" "vc_mask c AND NOT (vm_detMask mo) = 0"
    "bf_value f vid = vm_sysID mo"
  using assms by (auto simp: vm_ok_def section_ok_def)

lemma value_and_mask:
  assumes "bf_mask f AND NOT msk = 0"
  shows "bf_value f (x AND msk) = bf_value f x"
proof -
  have "(x AND msk) AND bf_mask f = x AND bf_mask f"
    using subset_and_eq [OF assms] by (metis and.assoc and.commute)
  then show ?thesis by (simp add: bf_value_def)
qed

lemma lookup_uniform:
  assumes ok: "vm_ok s t flags" and tm: "tree_mode flags" and un: "uniform_system s t f"
    and m: "m \<in> sections s t" "vs_obj s m = Some mo"
    and c: "vm_volumes mo vid = Some c" and hit: "x AND vm_detMask mo = vid"
  shows "lookupContext s t x = Inr c \<and> lookupContext s m x = Inr c"
proof -
  obtain ob where ob: "vs_obj s t = Some ob" "top_ok s t flags ob" "sections s t = snd ` set (vm_subdetectors ob)"
    by (rule vm_ok_top [OF ok])
  have sr: "vm_search mo x = Some c" using c hit by (simp add: vm_search_def)
  have uniq: "c' = c" if m': "m' \<in> sections s t" "vs_obj s m' = Some mo'" "vm_search mo' x = Some c'" for m' mo' c'
  proof -
    have c': "vm_volumes mo' (x AND vm_detMask mo') = Some c'" using m'(3) by (simp add: vm_search_def)
    note f = uniform_dest(1) [OF un m] uniform_dest(1) [OF un m'(1,2)]
    note sub = uniform_dest(2) [OF un m c] uniform_dest(2) [OF un m'(1,2) c']
    have "bf_value f vid = vm_sysID mo" by (rule section_volume(4) [OF ok m f(1) c])
    moreover have "bf_value f (x AND vm_detMask mo') = vm_sysID mo'"
      by (rule section_volume(4) [OF ok m'(1,2) f(2) c'])
    moreover have "bf_value f vid = bf_value f x" using value_and_mask [OF sub(1), of x] hit by simp
    moreover have "bf_value f (x AND vm_detMask mo') = bf_value f x" by (rule value_and_mask [OF sub(2)])
    ultimately have "vm_sysID mo = vm_sysID mo'" by simp
    then have "m = m'" using uniform_dest(3) [OF un m m'(1,2)] by simp
    then show ?thesis using m(2) m'(2,3) sr by simp
  qed
  have top: "vm_search ob x = None" using ob(2) by (simp add: vm_search_def top_ok_def)
  have flags: "vm_flags ob AND vm_ONE \<noteq> vm_ONE" "t \<noteq> 0"
    using ob(2) tm ok by (auto simp: top_ok_def tree_mode_def vm_ok_def)
  obtain d where d: "(d, m) \<in> set (vm_subdetectors ob)" using m(1) ob(3) by auto
  have "search_sections s x (vm_subdetectors ob) = Inr c"
  proof (rule search_sections_find [OF d _ m(2) sr])
    show "vs_obj s m' \<noteq> None" if "(d', m') \<in> set (vm_subdetectors ob)" for d' m'
    proof -
      have "m' \<in> sections s t" using that ob(3) by force
      then show ?thesis using ok by (auto simp: vm_ok_def section_ok_def)
    qed
    show "c' = c" if "(d', m') \<in> set (vm_subdetectors ob)" "vs_obj s m' = Some mo'" "vm_search mo' x = Some c'"
      for d' m' mo' c'
      by (rule uniq [OF _ that(2,3)]) (use that(1) ob(3) in force)
  qed
  then have "lookupContext s t x = Inr c"
    using ob(1) top flags
    by (simp add: lookupContext_def lookupContext_loop.simps [of s t] lookup_here_def returns_def)
  moreover have "lookupContext s m x = Inr c"
  proof -
    have "vm_flags mo AND vm_ONE \<noteq> vm_ONE" "m \<noteq> 0"
      using ok m tm by (auto simp: vm_ok_def section_ok_def tree_mode_def)
    then show ?thesis
      using m(2) sr by (simp add: lookupContext_def lookupContext_loop.simps [of s m] lookup_here_def returns_def)
  qed
  ultimately show ?thesis ..
qed


section \<open>A calorimeter with two modules\<close>

definition ecal_spec :: IDDescriptor where
  "ecal_spec = projr (IDDescriptor_new ''EcalHits'' ''system:8,module:4,cell:8'')"

definition ecal_ro :: Readout where
  "ecal_ro = \<lparr>ro_name = ''EcalHits'', ro_idSpec = ecal_spec\<rparr>"

definition ecal_sd :: SensitiveDetector where
  "ecal_sd = \<lparr>sd_name = ''ecal'', sd_readout = Some ecal_ro\<rparr>"

definition ecal_node :: PlacedVolume where
  "ecal_node = TGeoNode 12 ''ecal'' (Some [(''system'', 4)]) (Some None) 12
     [TGeoNode 21 ''module'' (Some [(''module'', 1)]) (Some (Some ecal_sd)) 21 [],
      TGeoNode 22 ''module'' (Some [(''module'', 2)]) (Some (Some ecal_sd)) 22 []]"

definition ecal_det :: "nat list Detector" where
  "ecal_det = \<lparr>dd_detectors = [(''ecal'', 2)], dd_sensitive = [(''ecal'', ecal_sd)], dd_world = 1,
     dd_geo = \<lparr>gGeoIdentity = [], MultiplyLeft = (\<lambda>ms m. m # ms), Inverse = rev\<rparr>\<rparr>"

definition ecal_heap :: Heap where
  "ecal_heap = projr (bindE (det_setPlacement sample_tree 2 (Some ecal_node)) (\<lambda>h. de_modify h 2 (de_flag_update (\<lambda>_. HAVE_SENSITIVE_DETECTOR))))"

lemmas tree_eval = sample_tree_def sample_build_def DetElement_new_child_def det_type_def deref_def
   DetElement_new_def hp_new_def hp_empty_def det_add_def de_handle_name_def map_emplace_def
   de_modify_def de_access_def hp_put_def DetElementObject_new_def Let_def det_setPlacement_def

definition ecal_f1 :: BitFieldElement where "ecal_f1 = projr (idd_field ecal_spec ''system'')"

definition ecal_f2 :: BitFieldElement where "ecal_f2 = projr (idd_field ecal_spec ''module'')"

lemma ecal_fields [simp]:
  "idd_field ecal_spec ''system'' = Inr ecal_f1" "idd_field ecal_spec ''module'' = Inr ecal_f2"
  by (simp_all add: ecal_spec_def ecal_f1_def ecal_f2_def cpp_eval)

lemma ecal_enc [simp]: "encode_field ecal_f1 4 = 4" "encode_field ecal_f2 1 = 0x100" "encode_field ecal_f2 2 = 0x200"
  "bf_mask ecal_f1 = 0xff" "bf_mask ecal_f2 = 0xf00"
  "bf_value ecal_f1 4 = 4" "bf_value ecal_f1 0x104 = 4" "bf_value ecal_f1 0x204 = 4"
  by (simp_all add: ecal_spec_def ecal_f1_def ecal_f2_def cpp_eval)

lemma ecal_det [simp]: "dd_sensitiveDetector ecal_det ''ecal'' = Some ecal_sd" "dd_detector ecal_det h ''ecal'' = Inr 2"
  "sd_name ecal_sd = ''ecal''" "sd_readout ecal_sd = Some ecal_ro" "ro_idSpec ecal_ro = ecal_spec"
  "gGeoIdentity (dd_geo ecal_det) = []" "MultiplyLeft (dd_geo ecal_det) = (\<lambda>ms m. m # ms)"
  by (simp_all add: ecal_det_def ecal_sd_def ecal_ro_def dd_sensitiveDetector_def dd_detector_def)

lemma ecal_child: "hp_obj ecal_heap = [1 \<mapsto> (DetElementObject_new ''world'' 0)\<lparr>de_children := [(''ecal'', 2)]\<rparr>,
    2 \<mapsto> (DetElementObject_new ''ecal'' 4)\<lparr>de_children := [(''mod7'', 3)], de_parent := 1,
     de_flag := HAVE_SENSITIVE_DETECTOR, de_placement := Some ecal_node, de_idealPlace := Some ecal_node\<rparr>,
    3 \<mapsto> (DetElementObject_new ''mod7'' 7)\<lparr>de_parent := 2\<rparr>]"
  by (rule ext) (simp add: ecal_heap_def tree_eval numeral_2_eq_2 numeral_3_eq_3)

lemmas vm_eval = VolumeManager_new_def vm_populate_def deref_def DetElementObject_new_def ecal_child
  HAVE_SENSITIVE_DETECTOR_def det_placement_def ecal_node_def select_sd_def node_encoding_def
  det_children_def det_type_def Let_def de_access_def finish_node_def add_entry_def addSubdetector_def
  vm_deref_def VolumeManagerObject_new_def de_handle_name_def enter_section_def VolumeManager_section_def
  vm_put_def i_addUpdateCall_def de_modify_def hp_put_def adoptPlacement.simps vm_TREE_def vm_ONE_def
  returns_def system_value_def adopt_in_def elementPlacement_def touch_path_def det_path_def cached_def
  make_path.simps

definition ecal_start :: "nat list VMState" where
  "ecal_start = \<lparr>vs_next = 1, vs_obj = Map.empty, vs_det = ecal_heap\<rparr>"

definition ecal_state :: "nat list VMState" where
  "ecal_state = fst (projr (VolumeManager_new ecal_det ecal_start ''World'' 1 None vm_TREE))"

text \<open>The population of this detector: three entries, all in the section of the calorimeter.\<close>

lemma ecal_populated:
  "VolumeManager_new ecal_det ecal_start ''World'' 1 None vm_TREE = Inr (ecal_state, 1, 3)"
proof -
  have "map_sum id snd (VolumeManager_new ecal_det ecal_start ''World'' 1 None vm_TREE) = Inr (1, 3)"
    by (simp add: ecal_start_def vm_eval del: One_nat_def)
  then show ?thesis
    by (cases "VolumeManager_new ecal_det ecal_start ''World'' 1 None vm_TREE") (auto simp: ecal_state_def)
qed

lemma ecal_section:
  "sections ecal_state 1 = {2}"
  "\<exists>mo c. vs_obj ecal_state 2 = Some mo \<and> vm_system mo = Some ecal_f1 \<and> vm_detMask mo = 0xfff \<and>
     vm_volumes mo 0x104 = Some c \<and> vc_element c = 2 \<and> vc_toElement c = [21] \<and> vm_volumes mo 0x300 = None"
  by (simp_all add: sections_def ecal_state_def ecal_start_def vm_eval del: One_nat_def)

section \<open>Properties\<close>

text \<open>C10. Composing the identifier along the hierarchy: adding the volume IDs of one level or-s in their
  encoding and the mask of their fields, it fails exactly as the encoding does, going down two
  levels is the same as encoding both lists at once, and an identifier never has a bit outside
  its mask.\<close>

theorem update_encoding_composes:
  "update_encoding idd ids (vid, msk) =
     bindE (idd_encode idd ids) (\<lambda>x. bindE (idd_get_mask idd ids) (\<lambda>y. Inr (vid OR x, msk OR y))) \<and>
   vm_encoding idd ids = update_encoding idd ids (0, 0) \<and>
   bindE (update_encoding idd ids (vid, msk)) (update_encoding idd ids') =
     update_encoding idd (ids @ ids') (vid, msk) \<and>
   (\<forall>vid' msk'. vid AND NOT msk = 0 \<and> update_encoding idd ids (vid, msk) = Inr (vid', msk') \<longrightarrow>
      vid' AND NOT msk' = 0)"
proof (intro conjI)
  show "update_encoding idd ids (vid, msk) =
     bindE (idd_encode idd ids) (\<lambda>x. bindE (idd_get_mask idd ids) (\<lambda>y. Inr (vid OR x, msk OR y)))"
    by (rule update_encoding_eq)
  show "vm_encoding idd ids = update_encoding idd ids (0, 0)"
    by (simp add: vm_encoding_def update_encoding_def)
  show "bindE (update_encoding idd ids (vid, msk)) (update_encoding idd ids') =
     update_encoding idd (ids @ ids') (vid, msk)"
    by (cases "update_encoding idd ids (vid, msk)") (simp_all add: update_encoding_def foldE_append)
  show "\<forall>vid' msk'. vid AND NOT msk = 0 \<and> update_encoding idd ids (vid, msk) = Inr (vid', msk') \<longrightarrow>
      vid' AND NOT msk' = 0"
    using encode_subset_mask [of idd ids vid msk] by blast
qed

theorem update_encoding_composes_witness:
  "update_encoding ecal_spec [(''module'', 2)] (4, 0xff) = Inr (0x204, 0xfff) \<and>
   (0x204 :: u64) AND NOT 0xfff = 0"
proof -
  have u: "update_encoding ecal_spec [(''module'', 2)] (4, 0xff) = Inr (0x204, 0xfff)" by simp
  show ?thesis
    using update_encoding_composes [of ecal_spec "[(''module'', 2)]" 4 "0xff" "[]",
        THEN conjunct2, THEN conjunct2, THEN conjunct2] u by simp
qed

text \<open>C9. Registration in a section accepts a context exactly when its identifier lies within its mask and
  is not registered yet. A refused context changes nothing; an accepted one is found afterwards
  by every hit identifier that agrees with it on the section's mask, which now covers the
  context's, and no earlier registration is lost.\<close>

theorem adopt_in_spec:
  assumes "adopt_in s m c = Inr (s', b)" and "vs_obj s m = Some ob"
  shows "(b \<longleftrightarrow> vc_identifier c AND vc_mask c = vc_identifier c \<and> vm_volumes ob (vc_identifier c) = None) \<and>
    (\<not> b \<longrightarrow> s' = s) \<and>
    (b \<longrightarrow> (\<exists>ob'. vs_obj s' m = Some ob' \<and> vm_volumes ob' = (vm_volumes ob)(vc_identifier c \<mapsto> c) \<and>
        vm_detMask ob' = vm_detMask ob OR vc_mask c \<and>
        (\<forall>x. x AND vm_detMask ob' = vc_identifier c \<longrightarrow> vm_search ob' x = Some c) \<and>
        (\<forall>m'. m' \<noteq> m \<longrightarrow> vs_obj s' m' = vs_obj s m')))"
proof (rule adopt_in_cases [OF assms(1)])
  fix ob1 assume o1: "vs_obj s m = Some ob1"
    and b: "b \<longleftrightarrow> vc_identifier c AND vc_mask c = vc_identifier c \<and> vm_volumes ob1 (vc_identifier c) = None"
    and nb: "\<not> b \<Longrightarrow> s' = s"
    and yb: "b \<Longrightarrow> \<exists>h. s' = (vm_put s m (ob1\<lparr>vm_volumes := (vm_volumes ob1)(vc_identifier c \<mapsto> c),
        vm_detMask := vm_detMask ob1 OR vc_mask c\<rparr>))\<lparr>vs_det := h\<rparr>"
  have e: "ob1 = ob" using o1 assms(2) by simp
  show ?thesis
  proof (cases b)
    case True
    then show ?thesis using b yb e by (auto simp: vm_put_def vm_search_def)
  next
    case False
    then show ?thesis using b [unfolded e] nb by blast
  qed
qed

definition ecal_third :: "nat list VolumeManagerContext" where
  "ecal_third = \<lparr>vc_element = 2, vc_identifier = 0x300, vc_mask = 0xf00, vc_flag = 0,
     vc_placement = None, vc_toElement = []\<rparr>"

theorem adopt_in_spec_witness:
  "\<exists>s' ob'. adopt_in ecal_state 2 ecal_third = Inr (s', True) \<and> vs_obj s' 2 = Some ob' \<and>
     vm_search ob' 0x77300 = Some ecal_third"
proof -
  obtain mo where mo: "vs_obj ecal_state 2 = Some mo" "vm_detMask mo = 0xfff" "vm_volumes mo 0x300 = None"
    using ecal_section(2) by auto
  have "is_ok (adopt_in ecal_state 2 ecal_third)"
    by (simp add: ecal_state_def ecal_start_def ecal_third_def vm_eval del: One_nat_def)
  then obtain s' b where a: "adopt_in ecal_state 2 ecal_third = Inr (s', b)"
    by (auto simp: is_ok_iff)
  note spec = adopt_in_spec [OF a mo(1)]
  have b: b using spec mo(3) by (simp add: ecal_third_def)
  then obtain ob' where ob': "vs_obj s' 2 = Some ob'" "vm_detMask ob' = vm_detMask mo OR vc_mask ecal_third"
    "\<forall>x. x AND vm_detMask ob' = vc_identifier ecal_third \<longrightarrow> vm_search ob' x = Some ecal_third"
    using spec by blast
  moreover have "vm_search ob' 0x77300 = Some ecal_third"
    using ob'(2,3) mo(2) by (simp add: ecal_third_def)
  moreover have "adopt_in ecal_state 2 ecal_third = Inr (s', True)" using a b by simp
  ultimately show ?thesis by blast
qed

text \<open>C7. A manager populated in tree mode: whatever the geometry, every context that the scan registered
  is entered in exactly the section of its system, under its identifier, which lies within the
  context's mask and that within the section's; the top manager itself holds no context.\<close>

theorem population_invariant:
  assumes "VolumeManager_new dd s nam elt ro flags = Inr (s', t, n)" and "elt \<noteq> 0" and "tree_mode flags"
    and "0 < vs_next s" and "\<forall>a \<ge> vs_next s. vs_obj s a = None"
  shows "vm_ok s' t flags \<and>
    (\<forall>m \<in> sections s' t. \<exists>mo f. vs_obj s' m = Some mo \<and> vm_top mo = t \<and> vm_system mo = Some f \<and>
       (\<forall>vid c. vm_volumes mo vid = Some c \<longrightarrow> vc_identifier c = vid \<and> vid AND vc_mask c = vid \<and>
          vc_mask c AND NOT (vm_detMask mo) = 0 \<and> bf_value f vid = vm_sysID mo))"
proof -
  have ok: "vm_ok s' t flags" using vm_ok_VolumeManager_new [OF assms] ..
  then have "section_ok s' t flags m" if "m \<in> sections s' t" for m using that by (simp add: vm_ok_def)
  then show ?thesis using ok by (fastforce simp: section_ok_def)
qed

theorem population_invariant_witness:
  "vm_ok ecal_state 1 vm_TREE \<and> 2 \<in> sections ecal_state 1"
proof -
  have tm: "tree_mode vm_TREE" by (simp add: tree_mode_def vm_TREE_def vm_ONE_def)
  have fresh: "0 < vs_next ecal_start" "\<forall>a \<ge> vs_next ecal_start. vs_obj ecal_start a = None"
    by (simp_all add: ecal_start_def)
  show ?thesis
    using population_invariant [OF ecal_populated _ tm fresh] ecal_section(1) by simp
qed

text \<open>C8. Lookup: where all sections share the system field, their masks contain it and their system
  identifiers differ, a hit is resolved, both by the top manager and by the section, to the
  context registered for its bits under the section's mask; no other section can answer first.\<close>

theorem lookup_registered:
  assumes "vm_ok s t flags" and "tree_mode flags" and "uniform_system s t f"
    and "m \<in> sections s t" and "vs_obj s m = Some mo" and "vm_volumes mo vid = Some c"
    and "x AND vm_detMask mo = vid"
  shows "lookupContext s t x = Inr c \<and> lookupContext s m x = Inr c \<and>
    lookupDetElement s t x = Inr (vc_element c) \<and>
    lookupVolumePlacement s t x = volumePlacement (vs_det s) c \<and>
    lookupDetElementPlacement s t x = elementPlacement (vs_det s) c"
  using lookup_uniform [OF assms]
  by (simp add: lookupDetElement_def lookupVolumePlacement_def lookupDetElementPlacement_def)

theorem lookup_registered_witness:
  "\<exists>c. lookupContext ecal_state 1 0x4c104 = Inr c \<and> vc_identifier c = 0x104 \<and> vc_element c = 2"
proof -
  have ok: "vm_ok ecal_state 1 vm_TREE"
    using vm_ok_VolumeManager_new [OF ecal_populated]
    by (simp add: tree_mode_def vm_TREE_def vm_ONE_def ecal_start_def)
  have tm: "tree_mode vm_TREE" by (simp add: tree_mode_def vm_TREE_def vm_ONE_def)
  obtain mo c where mo: "vs_obj ecal_state 2 = Some mo" "vm_system mo = Some ecal_f1" "vm_detMask mo = 0xfff"
    "vm_volumes mo 0x104 = Some c" "vc_element c = 2" using ecal_section(2) by blast
  have un: "uniform_system ecal_state 1 ecal_f1"
    using mo(1-3) ecal_section(1) by (simp add: uniform_system_def)
  have m: "2 \<in> sections ecal_state 1" using ecal_section(1) by simp
  have hit: "0x4c104 AND vm_detMask mo = 0x104" using mo(3) by simp
  have "vc_identifier c = 0x104" by (rule section_volume(1) [OF ok m mo(1,2,4)])
  then show ?thesis using lookup_registered [OF ok tm un m mo(1,4) hit] mo(5) by blast
qed

text \<open>No finite number of unfoldings of the registration with \<open>ONE\<close> at the top manager returns.\<close>

lemma adopt_ONE_loop:
  assumes "adoptPlacement s m (Some c) = Some y" and "vs_obj s t = Some ob" and "vm_top ob = t"
    and "t \<noteq> 0" and "vm_flags ob AND vm_ONE = vm_ONE"
  shows "m \<noteq> t"
proof -
  have "s = s \<longrightarrow> Some c = Some c \<longrightarrow> m \<noteq> t"
    by (rule adoptPlacement.raw_induct [OF _ assms(1),
          where P = "\<lambda>s' m' ctx y. s' = s \<longrightarrow> ctx = Some c \<longrightarrow> m' \<noteq> t"])
      (use assms(2-5) in fastforce)
  then show ?thesis by simp
qed

text \<open>C11. With the flag \<open>ONE\<close> registration never returns: a manager passes the context on to the top
  manager, and so does the top manager itself. As every population of a valid element makes its
  manager the top one and its sections inherit the flags, no context can be registered with
  \<open>ONE\<close>.\<close>

theorem adopt_ONE_diverges:
  assumes "vs_obj s t = Some ob" and "vm_top ob = t" and "t \<noteq> 0" and "vm_flags ob AND vm_ONE = vm_ONE"
    and "m = t \<or> (m \<noteq> 0 \<and> (\<exists>mo. vs_obj s m = Some mo \<and> vm_top mo = t \<and> vm_flags mo AND vm_ONE = vm_ONE))"
  shows "adoptPlacement s m (Some c) = None"
proof -
  have top: "adoptPlacement s t (Some c) = None"
  proof (rule ccontr)
    assume "adoptPlacement s t (Some c) \<noteq> None"
    then obtain y where "adoptPlacement s t (Some c) = Some y" by blast
    then show False using adopt_ONE_loop [OF _ assms(1-4)] by blast
  qed
  show ?thesis
  proof (cases "m = t")
    case False
    then show ?thesis using assms(5) top by (auto simp: adoptPlacement.simps [of s m])
  qed (simp add: top)
qed

definition one_state :: "nat list VMState" where
  "one_state = \<lparr>vs_next = 2, vs_obj = [1 \<mapsto> (VolumeManagerObject_new ''World'')\<lparr>vm_top := 1, vm_flags := vm_ONE\<rparr>], vs_det = ecal_heap\<rparr>"

theorem adopt_ONE_diverges_witness:
  "adoptPlacement one_state 1 (Some ecal_third) = None"
  by (rule adopt_ONE_diverges [of one_state 1 "(VolumeManagerObject_new ''World'')\<lparr>vm_top := 1, vm_flags := vm_ONE\<rparr>"])
    (simp_all add: one_state_def VolumeManagerObject_new_def)

end
