(* ===== verification/IOV.thy ===== *)
theory IOV
  imports Prelude
begin

text \<open>
  Intervals of validity: \<open>src/DDCore/include/DD4hep/IOV.h\<close> and \<open>src/DDCore/src/IOV.cpp\<close>. A key is a
  pair of signed 64-bit numbers; \<open>span\<close> is the set of times it stands for, and the lemmas relate the
  comparison predicates and the interval arithmetic of the code to sets of times.

  The type of an interval is a pointer to an entry of the manager's table in the code; only its
  content is read, so the model carries the content.
\<close>

record IOVType =
  iovt_type :: u32
  iovt_name :: string

definition UNKNOWN_IOV :: u32 where
  "UNKNOWN_IOV = NOT 0"

definition IOVType_default :: IOVType where
  "IOVType_default = \<lparr>iovt_type = UNKNOWN_IOV, iovt_name = []\<rparr>"

subsection \<open>Keys\<close>

datatype Key = Key (key_first: i64) (key_second: i64)

lemma Key_eqI: "sint (key_first a) = sint (key_first b) \<Longrightarrow> sint (key_second a) = sint (key_second b) \<Longrightarrow> a = b"
  by (rule Key.expand) (blast intro: signed_word_eqI)

text \<open>\<open>std::pair<int64_t, int64_t>\<close> is ordered lexicographically, its components as signed numbers.\<close>

definition key_less :: "Key \<Rightarrow> Key \<Rightarrow> bool" where
  "key_less a b \<longleftrightarrow> sint (key_first a) < sint (key_first b) \<or>
     (sint (key_first a) = sint (key_first b) \<and> sint (key_second a) < sint (key_second b))"

instantiation Key :: linorder
begin

definition less_Key :: "Key \<Rightarrow> Key \<Rightarrow> bool" where
  "less_Key = key_less"

definition less_eq_Key :: "Key \<Rightarrow> Key \<Rightarrow> bool" where
  "less_eq_Key (a :: Key) b \<longleftrightarrow> a < b \<or> a = b"

instance
proof
  fix x y z :: Key
  show "(x < y) = (x \<le> y \<and> \<not> y \<le> x)" "x \<le> x"
    by (auto simp: less_Key_def key_less_def less_eq_Key_def)
  show "x \<le> y \<Longrightarrow> y \<le> z \<Longrightarrow> x \<le> z" "x \<le> y \<Longrightarrow> y \<le> x \<Longrightarrow> x = y"
    by (auto simp: less_Key_def key_less_def less_eq_Key_def)
  show "x \<le> y \<or> y \<le> x"
    using Key_eqI [of x y] unfolding less_Key_def key_less_def less_eq_Key_def by linarith
qed

end

definition MIN_KEY :: i64 where "MIN_KEY = push_bit 63 1"
definition MAX_KEY :: i64 where "MAX_KEY = NOT (push_bit 63 1)"

definition key_forever :: Key where
  "key_forever = Key MIN_KEY MAX_KEY"

definition key_is_contained :: "Key \<Rightarrow> Key \<Rightarrow> bool" where
  "key_is_contained key test \<longleftrightarrow>
     sint (key_first test) \<le> sint (key_first key) \<and> sint (key_second key) \<le> sint (key_second test)"

definition key_contains_range :: "Key \<Rightarrow> Key \<Rightarrow> bool" where
  "key_contains_range key test \<longleftrightarrow>
     sint (key_first key) \<le> sint (key_first test) \<and> sint (key_second test) \<le> sint (key_second key)"

definition key_overlaps_lower_end :: "Key \<Rightarrow> Key \<Rightarrow> bool" where
  "key_overlaps_lower_end key test \<longleftrightarrow>
     sint (key_first key) \<le> sint (key_second test) \<and> sint (key_first test) \<le> sint (key_first key)"

definition key_overlaps_higher_end :: "Key \<Rightarrow> Key \<Rightarrow> bool" where
  "key_overlaps_higher_end key test \<longleftrightarrow>
     sint (key_first test) \<le> sint (key_second key) \<and> sint (key_second key) \<le> sint (key_second test)"

definition key_partially_contained :: "Key \<Rightarrow> Key \<Rightarrow> bool" where
  "key_partially_contained key test \<longleftrightarrow>
     (sint (key_first test) \<le> sint (key_first key) \<and> sint (key_second test) \<le> sint (key_second key)) \<or>
     (sint (key_first test) \<le> sint (key_first key) \<and> sint (key_first key) \<le> sint (key_second test)) \<or>
     (sint (key_first test) \<le> sint (key_second key) \<and> sint (key_second key) \<le> sint (key_second test))"

text \<open>The arithmetic on keys, \<open>iov_intersection(const IOV::Key&)\<close> and \<open>iov_union(const IOV::Key&)\<close>.\<close>

definition key_intersection :: "Key \<Rightarrow> Key \<Rightarrow> Key" where
  "key_intersection key validity =
     Key (if sint (key_first key) < sint (key_first validity) then key_first validity else key_first key)
         (if sint (key_second validity) < sint (key_second key) then key_second validity else key_second key)"

definition key_union :: "Key \<Rightarrow> Key \<Rightarrow> Key" where
  "key_union key validity =
     Key (if sint (key_first validity) < sint (key_first key) then key_first validity else key_first key)
         (if sint (key_second key) < sint (key_second validity) then key_second validity else key_second key)"

subsection \<open>Intervals\<close>

record IOV =
  iov_iovType :: "IOVType option"
  iov_keyData :: Key
  iov_optData :: i32
  iov_type :: u32

definition IOV_with_key :: "IOVType option \<Rightarrow> Key \<Rightarrow> IOV" where
  "IOV_with_key t k = \<lparr>iov_iovType = t, iov_keyData = k, iov_optData = 0,
     iov_type = (case t of None \<Rightarrow> UNKNOWN_IOV | Some t \<Rightarrow> iovt_type t)\<rparr>"

definition IOV_new :: "IOVType option \<Rightarrow> IOV" where
  "IOV_new t = IOV_with_key t (Key MIN_KEY MIN_KEY)"

definition IOV_discrete :: "IOVType option \<Rightarrow> i64 \<Rightarrow> IOV" where
  "IOV_discrete t v = IOV_with_key t (Key v v)"

definition iov_forever :: "IOVType option \<Rightarrow> IOV" where
  "iov_forever t = IOV_with_key t key_forever"

definition iov_set_key :: "IOV \<Rightarrow> Key \<Rightarrow> IOV" where
  "iov_set_key v k = v\<lparr>iov_keyData := k\<rparr>"

definition iov_set_discrete :: "IOV \<Rightarrow> i64 \<Rightarrow> IOV" where
  "iov_set_discrete v x = v\<lparr>iov_keyData := Key x x\<rparr>"

definition iov_set_range :: "IOV \<Rightarrow> i64 \<Rightarrow> i64 \<Rightarrow> IOV" where
  "iov_set_range v x y = v\<lparr>iov_keyData := Key x y\<rparr>"

definition has_range :: "IOV \<Rightarrow> bool" where
  "has_range v \<longleftrightarrow> key_first (iov_keyData v) \<noteq> key_second (iov_keyData v)"

definition is_discrete :: "IOV \<Rightarrow> bool" where
  "is_discrete v \<longleftrightarrow> key_first (iov_keyData v) = key_second (iov_keyData v)"

definition iov_reset :: "IOV \<Rightarrow> IOV" where
  "iov_reset v = v\<lparr>iov_keyData := Key MAX_KEY MIN_KEY\<rparr>"

definition iov_invert :: "IOV \<Rightarrow> IOV" where
  "iov_invert v = v\<lparr>iov_keyData := Key (key_second (iov_keyData v)) (key_first (iov_keyData v))\<rparr>"

text \<open>
  With another interval: an interval without a type is overwritten by the argument (the second
  comparison then finds equal keys), otherwise both ends are adjusted.
\<close>

definition iov_intersection :: "IOV \<Rightarrow> IOV \<Rightarrow> IOV" where
  "iov_intersection v validity =
     (let w = (if iov_iovType v = None then validity
               else if sint (key_first (iov_keyData v)) < sint (key_first (iov_keyData validity))
                 then v\<lparr>iov_keyData := Key (key_first (iov_keyData validity)) (key_second (iov_keyData v))\<rparr>
               else v)
      in if sint (key_second (iov_keyData validity)) < sint (key_second (iov_keyData w))
         then w\<lparr>iov_keyData := Key (key_first (iov_keyData w)) (key_second (iov_keyData validity))\<rparr>
         else w)"

definition iov_union :: "IOV \<Rightarrow> IOV \<Rightarrow> IOV" where
  "iov_union v validity =
     (let w = (if iov_iovType v = None then validity
               else if sint (key_first (iov_keyData validity)) < sint (key_first (iov_keyData v))
                 then v\<lparr>iov_keyData := Key (key_first (iov_keyData validity)) (key_second (iov_keyData v))\<rparr>
               else v)
      in if sint (key_second (iov_keyData w)) < sint (key_second (iov_keyData validity))
         then w\<lparr>iov_keyData := Key (key_first (iov_keyData w)) (key_second (iov_keyData validity))\<rparr>
         else w)"

definition iov_intersection_key :: "IOV \<Rightarrow> Key \<Rightarrow> IOV" where
  "iov_intersection_key v k = v\<lparr>iov_keyData := key_intersection (iov_keyData v) k\<rparr>"

definition iov_union_key :: "IOV \<Rightarrow> Key \<Rightarrow> IOV" where
  "iov_union_key v k = v\<lparr>iov_keyData := key_union (iov_keyData v) k\<rparr>"

text \<open>\<open>move\<close> returns the target and the emptied source.\<close>

definition iov_move :: "IOV \<Rightarrow> IOV \<times> IOV" where
  "iov_move from_iov = (from_iov, \<lparr>iov_iovType = None, iov_keyData = Key 0 0, iov_optData = 0, iov_type = UNKNOWN_IOV\<rparr>)"

definition type_code :: "IOV \<Rightarrow> u32" where
  "type_code v = (case iov_iovType v of Some t \<Rightarrow> iovt_type t | None \<Rightarrow> iov_type v)"

definition same_type :: "IOV \<Rightarrow> IOV \<Rightarrow> bool" where
  "same_type v test \<longleftrightarrow> type_code v = type_code test"

definition iov_contains :: "IOV \<Rightarrow> IOV \<Rightarrow> bool" where
  "iov_contains self v \<longleftrightarrow>
     (if key_is_contained (iov_keyData v) (iov_keyData self) then type_code v = type_code self else False)"

definition full_match :: "IOV \<Rightarrow> IOV \<Rightarrow> bool" where
  "full_match v test \<longleftrightarrow> same_type v test \<and> key_is_contained (iov_keyData v) (iov_keyData test)"

definition partial_match :: "IOV \<Rightarrow> IOV \<Rightarrow> bool" where
  "partial_match v test \<longleftrightarrow> same_type v test \<and> key_partially_contained (iov_keyData v) (iov_keyData test)"

definition iov_less :: "IOV \<Rightarrow> IOV \<Rightarrow> bool" where
  "iov_less v test =
     (if iov_type test < iov_type v then False
      else if sint (key_first (iov_keyData test)) < sint (key_first (iov_keyData v)) then False
      else if sint (key_second (iov_keyData test)) < sint (key_second (iov_keyData v)) then False
      else True)"

subsection \<open>Text\<close>

text \<open>
  \<open>snprintf\<close> into 256 bytes keeps 255 characters. The calendar conversion of the type \<open>epoch\<close>
  (\<open>gmtime_r\<close> and \<open>strftime\<close> of a time clamped to \<open>[0, max_time]\<close>) is the parameter \<open>time_text\<close>;
  None stands for the null pointer of \<open>gmtime_r\<close>. The two calls of \<open>gmtime_r\<close> fill one buffer and return its address, so that
  both texts are formatted after the second call, from the end of the interval.
\<close>

definition snprintf256 :: "string \<Rightarrow> string" where
  "snprintf256 s = take 255 s"

definition IOVType_str :: "IOVType \<Rightarrow> string" where
  "IOVType_str t = snprintf256 (iovt_name t @ ''('' @ show_int (sint (iovt_type t)) @ '')'')"

definition range_text :: "Key \<Rightarrow> string" where
  "range_text k = '':['' @ show_int (sint (key_first k)) @ ''-'' @ show_int (sint (key_second k)) @ '']''"

definition typed_text :: "IOVType \<Rightarrow> string" where
  "typed_text t = iovt_name t @ ''('' @ show_nat (unat (iovt_type t)) @ '')''"

definition clamp_time :: "int \<Rightarrow> i64 \<Rightarrow> int" where
  "clamp_time max_time t = min (max (sint t) 0) max_time"

definition iov_str :: "(int \<Rightarrow> string option) \<Rightarrow> int \<Rightarrow> IOV \<Rightarrow> string cpp" where
  "iov_str time_text max_time v = (case iov_iovType v of
       None \<Rightarrow> Inr (snprintf256 (show_nat (unat (iov_type v)) @ range_text (iov_keyData v)))
     | Some t \<Rightarrow>
         if (case iovt_name t of [] \<Rightarrow> True | c # _ \<Rightarrow> c \<noteq> CHR ''e'')
         then Inr (snprintf256 (typed_text t @ range_text (iov_keyData v)))
         else if iovt_name t = ''epoch'' then
           (case (time_text (clamp_time max_time (key_first (iov_keyData v))),
                  time_text (clamp_time max_time (key_second (iov_keyData v)))) of
              (Some _, Some buff) \<Rightarrow>
                Inr (snprintf256 (typed_text t @ '':['' @ buff @ '' - '' @ buff @ '']''))
            | _ \<Rightarrow> Inl (RuntimeError ''IOV::str:  Invalid epoch time stamp''))
         else Inr (snprintf256 (typed_text t @ range_text (iov_keyData v))))"

text \<open>The text of an interval of type \<open>epoch\<close> does not depend on where the interval starts.\<close>

lemma iov_str_epoch:
  assumes "iov_iovType v = Some t" and "iovt_name t = ''epoch''" and "\<And>x. time_text x \<noteq> None"
  shows "iov_str time_text max_time (v\<lparr>iov_keyData := Key a (key_second (iov_keyData v))\<rparr>) = iov_str time_text max_time v"
proof -
  obtain x where "time_text (clamp_time max_time a) = Some x" using assms(3) by blast
  moreover obtain y where "time_text (clamp_time max_time (key_first (iov_keyData v))) = Some y" using assms(3) by blast
  ultimately show ?thesis by (simp add: iov_str_def assms(1,2) split: option.split)
qed

subsection \<open>What the comparisons mean on times\<close>

definition span :: "Key \<Rightarrow> int set" where
  "span k = {t. sint (key_first k) \<le> t \<and> t \<le> sint (key_second k)}"

definition range_ok :: "Key \<Rightarrow> bool" where
  "range_ok k \<longleftrightarrow> sint (key_first k) \<le> sint (key_second k)"

lemma range_ok_span: "range_ok k \<longleftrightarrow> span k \<noteq> {}"
  by (auto simp: range_ok_def span_def)

lemma sint_limits [simp]: "sint MIN_KEY = - (2 ^ 63)" "sint MAX_KEY = 2 ^ 63 - 1"
  by (simp_all add: MIN_KEY_def MAX_KEY_def)

lemma sint_range64: "- (2 ^ 63) \<le> sint (x :: i64)" "sint (x :: i64) \<le> 2 ^ 63 - 1"
  using sint_greater_eq [of x] sint_lt [of x] by simp_all

lemma span_forever: "sint (x :: i64) \<in> span key_forever"
  using sint_range64 [of x] by (simp add: span_def key_forever_def)

lemma span_intersection: "span (key_intersection a b) = span a \<inter> span b"
  by (auto simp: key_intersection_def span_def)

lemma key_intersection_neutral [simp]: "key_intersection key_forever k = k" "key_intersection k key_forever = k"
proof -
  note r = sint_range64 [of "key_first k"] sint_range64 [of "key_second k"]
  show "key_intersection key_forever k = k"
    by (rule Key_eqI) (use r in \<open>simp_all add: key_intersection_def key_forever_def\<close>)
  show "key_intersection k key_forever = k"
    by (rule Key_eqI) (use r in \<open>simp_all add: key_intersection_def key_forever_def\<close>)
qed

lemma key_contains_span: "range_ok test \<Longrightarrow> key_contains_range key test \<longleftrightarrow> span test \<subseteq> span key"
  by (auto simp: key_contains_range_def span_def range_ok_def)

lemma key_is_contained_span: "range_ok key \<Longrightarrow> key_is_contained key test \<longleftrightarrow> span key \<subseteq> span test"
  by (auto simp: key_is_contained_def span_def range_ok_def)

lemma key_contains_flip: "key_contains_range key test \<longleftrightarrow> key_is_contained test key"
  by (auto simp: key_contains_range_def key_is_contained_def)

lemma contains_intersection:
  "key_contains_range (key_intersection a b) r \<longleftrightarrow> key_contains_range a r \<and> key_contains_range b r"
  by (auto simp: key_intersection_def key_contains_range_def)

lemma iov_intersection_typed:
  "iov_iovType v \<noteq> None \<Longrightarrow> iov_intersection v w = v\<lparr>iov_keyData := key_intersection (iov_keyData v) (iov_keyData w)\<rparr>"
  by (cases v; cases "iov_keyData v") (auto simp: iov_intersection_def key_intersection_def Let_def)

lemma iov_intersection_untyped: "iov_iovType v = None \<Longrightarrow> iov_intersection v w = w"
  by (simp add: iov_intersection_def Let_def)

lemma iov_union_typed:
  "iov_iovType v \<noteq> None \<Longrightarrow> iov_union v w = v\<lparr>iov_keyData := key_union (iov_keyData v) (iov_keyData w)\<rparr>"
  by (cases v; cases "iov_keyData v") (auto simp: iov_union_def key_union_def Let_def)

lemma iov_union_untyped: "iov_iovType v = None \<Longrightarrow> iov_union v w = w"
  by (simp add: iov_union_def Let_def)

lemma span_meet:
  assumes "range_ok k" and "range_ok r"
  shows "span k \<inter> span r \<noteq> {} \<longleftrightarrow>
      sint (key_first k) \<le> sint (key_second r) \<and> sint (key_first r) \<le> sint (key_second k)"
proof
  assume "sint (key_first k) \<le> sint (key_second r) \<and> sint (key_first r) \<le> sint (key_second k)"
  then have "max (sint (key_first k)) (sint (key_first r)) \<in> span k \<inter> span r"
    using assms by (simp add: span_def range_ok_def)
  then show "span k \<inter> span r \<noteq> {}" by blast
qed (auto simp: span_def)

text \<open>Folds over several intervals.\<close>

lemma fold_intersection_typed:
  assumes "iov_iovType v \<noteq> None"
  shows "foldl iov_intersection v ws =
    v\<lparr>iov_keyData := foldl key_intersection (iov_keyData v) (List.map iov_keyData ws)\<rparr>"
  using assms by (induction ws arbitrary: v) (simp_all add: iov_intersection_typed)

lemma fold_union_typed:
  assumes "iov_iovType v \<noteq> None"
  shows "foldl iov_union v ws = v\<lparr>iov_keyData := foldl key_union (iov_keyData v) (List.map iov_keyData ws)\<rparr>"
  using assms by (induction ws arbitrary: v) (simp_all add: iov_union_typed)

lemma span_fold_intersection: "span (foldl key_intersection k ks) = span k \<inter> (\<Inter>j \<in> set ks. span j)"
  by (induction ks arbitrary: k) (auto simp: span_intersection)

lemma fold_union_first:
  "t \<le> sint (key_first (foldl key_union k ks)) \<longleftrightarrow> t \<le> sint (key_first k) \<and> (\<forall>j \<in> set ks. t \<le> sint (key_first j))"
  by (induction ks arbitrary: k) (auto simp: key_union_def)

lemma fold_union_second:
  "sint (key_second (foldl key_union k ks)) \<le> t \<longleftrightarrow> sint (key_second k) \<le> t \<and> (\<forall>j \<in> set ks. sint (key_second j) \<le> t)"
  by (induction ks arbitrary: k) (auto simp: key_union_def)

text \<open>The order of intervals is reflexive, so it is no strict order for a container of the library.\<close>

lemma iov_less_refl: "iov_less v v"
  by (simp add: iov_less_def)

section \<open>Properties\<close>

text \<open>Arithmetic of intervals: folding the intersection over keys, from the neutral interval that \<open>reset\<close>
  and \<open>invert\<close> produce, gives exactly the times common to all of them; folding the union from
  \<open>reset\<close> gives the smallest interval that covers all of them. Without a type the argument replaces the
  interval.\<close>

theorem iov_arithmetic:
  assumes "iov_iovType v \<noteq> None" and "\<forall>w \<in> set ws. range_ok (iov_keyData w)"
  shows "span (iov_keyData (foldl iov_intersection (iov_invert (iov_reset v)) ws)) =
      span key_forever \<inter> (\<Inter>w \<in> set ws. span (iov_keyData w)) \<and>
    (\<forall>k. range_ok k \<and> (\<forall>w \<in> set ws. span (iov_keyData w) \<subseteq> span k) \<longrightarrow>
      span (iov_keyData (foldl iov_union (iov_reset v) ws)) \<subseteq> span k) \<and>
    (\<forall>w \<in> set ws. span (iov_keyData w) \<subseteq> span (iov_keyData (foldl iov_union (iov_reset v) ws))) \<and>
    foldl iov_intersection v ws = foldl (\<lambda>v w. iov_intersection_key v (iov_keyData w)) v ws \<and>
    foldl iov_union (v\<lparr>iov_iovType := None\<rparr>) [u] = u"
proof (intro conjI allI impI ballI)
  let ?keys = "List.map iov_keyData ws"
  have inv: "iov_keyData (iov_invert (iov_reset v)) = key_forever" "iov_iovType (iov_invert (iov_reset v)) \<noteq> None"
    using assms(1) by (simp_all add: iov_invert_def iov_reset_def key_forever_def)
  show "span (iov_keyData (foldl iov_intersection (iov_invert (iov_reset v)) ws)) =
      span key_forever \<inter> (\<Inter>w \<in> set ws. span (iov_keyData w))"
    using inv by (simp add: fold_intersection_typed span_fold_intersection)
  have res: "iov_keyData (foldl iov_union (iov_reset v) ws) = foldl key_union (Key MAX_KEY MIN_KEY) ?keys"
    using assms(1) by (simp add: fold_union_typed iov_reset_def)
  let ?u = "foldl key_union (Key MAX_KEY MIN_KEY) ?keys"
  show "span (iov_keyData (foldl iov_union (iov_reset v) ws)) \<subseteq> span k"
    if k: "range_ok k \<and> (\<forall>w \<in> set ws. span (iov_keyData w) \<subseteq> span k)" for k
  proof -
    have w: "sint (key_first k) \<le> sint (key_first (iov_keyData w)) \<and>
        sint (key_second (iov_keyData w)) \<le> sint (key_second k)" if "w \<in> set ws" for w
      using k assms(2) that by (auto simp: key_contains_span [symmetric] key_contains_range_def)
    have "sint (key_first k) \<le> sint (key_first ?u)"
      using w sint_range64(2) [of "key_first k"] by (simp add: fold_union_first)
    moreover have "sint (key_second ?u) \<le> sint (key_second k)"
      using w sint_range64(1) [of "key_second k"] by (simp add: fold_union_second)
    ultimately show ?thesis unfolding res by (auto simp: span_def)
  qed
  show "span (iov_keyData w) \<subseteq> span (iov_keyData (foldl iov_union (iov_reset v) ws))" if "w \<in> set ws" for w
  proof -
    have "sint (key_first ?u) \<le> sint (key_first (iov_keyData w))"
      using fold_union_first [of "sint (key_first ?u)" "Key MAX_KEY MIN_KEY" ?keys] that by simp
    moreover have "sint (key_second (iov_keyData w)) \<le> sint (key_second ?u)"
      using fold_union_second [of "Key MAX_KEY MIN_KEY" ?keys "sint (key_second ?u)"] that by simp
    ultimately show ?thesis unfolding res by (auto simp: span_def)
  qed
  show "foldl iov_intersection v ws = foldl (\<lambda>v w. iov_intersection_key v (iov_keyData w)) v ws"
    using assms(1) by (induction ws arbitrary: v) (simp_all add: iov_intersection_typed iov_intersection_key_def)
  show "foldl iov_union (v\<lparr>iov_iovType := None\<rparr>) [u] = u" by (simp add: iov_union_untyped)
qed

theorem iov_arithmetic_witness:
  "span (iov_keyData (foldl iov_intersection (iov_invert (iov_reset (IOV_new (Some IOVType_default))))
      [IOV_with_key None (Key 2 9), IOV_with_key None (Key 5 20)])) = {5..9}"
proof -
  let ?v = "IOV_new (Some IOVType_default)" and ?ws = "[IOV_with_key None (Key 2 9), IOV_with_key None (Key 5 20)]"
  have "iov_iovType ?v \<noteq> None" "\<forall>w \<in> set ?ws. range_ok (iov_keyData w)"
    by (simp_all add: IOV_new_def IOV_with_key_def range_ok_def)
  then have "span (iov_keyData (foldl iov_intersection (iov_invert (iov_reset ?v)) ?ws)) =
      span key_forever \<inter> (\<Inter>w \<in> set ?ws. span (iov_keyData w))"
    by (rule iov_arithmetic [THEN conjunct1])
  also have "\<dots> = {5..9}"
    by (auto simp: span_def key_forever_def IOV_with_key_def)
  finally show ?thesis .
qed

text \<open>C19. The overlap test of the range selection (contained, or overlapping at the lower or at the upper end)
  accepts a key exactly when it shares a time with the range and does not strictly enclose it on both
  sides; \<open>key_partially_contained\<close> accepts in addition every key that begins after the range begins
  and ends after it ends, even one that shares no time with it.\<close>

theorem range_overlap_exact:
  assumes "range_ok k" and "range_ok r"
  shows "(key_is_contained k r \<or> key_overlaps_lower_end k r \<or> key_overlaps_higher_end k r \<longleftrightarrow>
      span k \<inter> span r \<noteq> {} \<and> \<not> (sint (key_first k) < sint (key_first r) \<and> sint (key_second r) < sint (key_second k))) \<and>
    (key_partially_contained k r \<longleftrightarrow>
      (span k \<inter> span r \<noteq> {} \<and> \<not> (sint (key_first k) < sint (key_first r) \<and> sint (key_second r) < sint (key_second k))) \<or>
      sint (key_second r) < sint (key_first k))"
proof -
  have ne: "span k \<inter> span r \<noteq> {} \<longleftrightarrow>
      sint (key_first k) \<le> sint (key_second r) \<and> sint (key_first r) \<le> sint (key_second k)"
    by (rule span_meet [OF assms])
  show ?thesis
    unfolding ne using assms
    by (auto simp: key_is_contained_def key_overlaps_lower_end_def key_overlaps_higher_end_def
        key_partially_contained_def range_ok_def)
qed

theorem range_overlap_exact_witness:
  "\<not> (key_is_contained (Key 0 9) (Key 3 5) \<or> key_overlaps_lower_end (Key 0 9) (Key 3 5) \<or>
      key_overlaps_higher_end (Key 0 9) (Key 3 5)) \<and>
   key_partially_contained (Key 7 9) (Key 3 5)"
  using range_overlap_exact [of "Key 0 9" "Key 3 5"] range_overlap_exact [of "Key 7 9" "Key 3 5"]
  by (simp add: range_ok_def)

end
