(* ===== verification/MapMultiset.thy ===== *)
theory MapMultiset
  imports StdMap "HOL-Library.Multiset"
begin

text \<open>
  The contents of a map as a multiset, for the counting of entries.
\<close>

lemma mset_assign: "map_of m k = None \<Longrightarrow> mset (map_assign k v m) = add_mset (k, v) (mset m)"
  by (induction k v m rule: map_assign.induct) (auto split: if_splits)

lemma set_assign: "map_of m k = None \<Longrightarrow> set (map_assign k v m) = insert (k, v) (set m)"
  using mset_assign by (metis set_mset_add_mset_insert set_mset_mset)

end
