(* ===== verification/ConditionsPool.thy ===== *)
theory ConditionsPool
  imports IOV MapMultiset
begin

text \<open>
  Conditions and the pools that hold them: \<open>src/DDCore/include/DD4hep/Conditions.h\<close>,
  \<open>src/DDCond/src/plugins/ConditionsLinearPool.cpp\<close>, \<open>ConditionsMappedPool.cpp\<close> and
  \<open>src/DDCond/src/ConditionsIOVPool.cpp\<close>.

  Conditions, intervals of validity and pools are shared by pointer in the code (a condition in
  several pools, an interval by all conditions of a pool), so the model keeps them in a store and
  refers to them by address, 0 being the null pointer. The state also holds the fields of the
  conditions manager \<open>Manager_Type1\<close>.
\<close>

subsection \<open>Condition keys\<close>

text \<open>The union \<open>KeyMaker\<close>: the detector key in the high word, the item key in the low word.\<close>

definition KeyMaker :: "u32 \<Rightarrow> u32 \<Rightarrow> u64" where
  "KeyMaker det item = push_bit 32 (ucast det) OR ucast item"

definition key_item :: "u64 \<Rightarrow> u32" where
  "key_item hash = ucast hash"

definition key_detector :: "u64 \<Rightarrow> u32" where
  "key_detector hash = ucast (drop_bit 32 hash)"

definition FIRST_ITEM_KEY :: u32 where "FIRST_ITEM_KEY = 0"
definition LAST_ITEM_KEY :: u32 where "LAST_ITEM_KEY = NOT 0"

definition cond_ACTIVE :: u32 where "cond_ACTIVE = push_bit 0 1"
definition cond_DERIVED :: u32 where "cond_DERIVED = push_bit 3 1"

subsection \<open>Objects\<close>

type_synonym cond = nat

record ConditionObject =
  co_value :: string
  co_iov :: nat
  co_hash :: u64
  co_flags :: u32

datatype Entries = LinearPool "cond list" | MappedPool "(u64, cond) std_map"

record ConditionsPool =
  cp_entries :: Entries
  cp_iov :: nat
  cp_age :: i32

record ConditionsIOVPool =
  ip_elements :: "(Key, nat) std_map"
  ip_type :: nat

record CondState =
  cs_next :: nat
  cs_cond :: "nat \<Rightarrow> ConditionObject option"
  cs_iov :: "nat \<Rightarrow> IOV option"
  cs_pool :: "nat \<Rightarrow> ConditionsPool option"
  cs_held :: "nat list"
  cm_iovTypes :: "IOVType list"
  cm_rawPool :: "ConditionsIOVPool option list"
  cm_updates :: "cond list"
  cm_newPool :: Entries
  cm_doLoad :: bool
  cm_doOutputUnloaded :: bool
  cm_onRegister :: "nat list"
  cm_onRemove :: "nat list"
  cm_calls :: "(nat \<times> cond) list"

definition bad_pointer :: cpp_error where
  "bad_pointer = UndefinedBehaviour ''access through an invalid pointer''"

definition invalid_condition :: cpp_error where
  "invalid_condition = RuntimeError ''dd4hep: Attempt to access invalid handle of type: Condition''"

definition cond_get :: "CondState \<Rightarrow> cond \<Rightarrow> ConditionObject cpp" where
  "cond_get s c = (case cs_cond s c of Some o1 \<Rightarrow> if c = 0 then Inl bad_pointer else Inr o1 | None \<Rightarrow> Inl bad_pointer)"

text \<open>\<open>condition.access()\<close> throws on a null handle.\<close>

definition cond_access :: "CondState \<Rightarrow> cond \<Rightarrow> ConditionObject cpp" where
  "cond_access s c = (if c = 0 then Inl invalid_condition else cond_get s c)"

definition iov_get :: "CondState \<Rightarrow> nat \<Rightarrow> IOV cpp" where
  "iov_get s p = (case cs_iov s p of Some v \<Rightarrow> if p = 0 then Inl bad_pointer else Inr v | None \<Rightarrow> Inl bad_pointer)"

definition pool_get :: "CondState \<Rightarrow> nat \<Rightarrow> ConditionsPool cpp" where
  "pool_get s p = (case cs_pool s p of Some q \<Rightarrow> if p = 0 then Inl bad_pointer else Inr q | None \<Rightarrow> Inl bad_pointer)"

definition cond_put :: "CondState \<Rightarrow> cond \<Rightarrow> ConditionObject \<Rightarrow> CondState" where
  "cond_put s c ob = s\<lparr>cs_cond := (cs_cond s)(c \<mapsto> ob)\<rparr>"

definition iov_put :: "CondState \<Rightarrow> nat \<Rightarrow> IOV \<Rightarrow> CondState" where
  "iov_put s p v = s\<lparr>cs_iov := (cs_iov s)(p \<mapsto> v)\<rparr>"

definition pool_put :: "CondState \<Rightarrow> nat \<Rightarrow> ConditionsPool \<Rightarrow> CondState" where
  "pool_put s p q = s\<lparr>cs_pool := (cs_pool s)(p \<mapsto> q)\<rparr>"

text \<open>\<open>Condition(key_type)\<close> refuses the two reserved keys; \<open>Condition(name, type)\<close> starts with key 0.\<close>

definition Condition_object :: "CondState \<Rightarrow> string \<Rightarrow> u64 \<Rightarrow> CondState \<times> cond" where
  "Condition_object s val hash = (let a = cs_next s in
     (s\<lparr>cs_next := Suc a, cs_cond := (cs_cond s)(a \<mapsto> \<lparr>co_value = val, co_iov = 0, co_hash = hash, co_flags = 0\<rparr>)\<rparr>, a))"

definition Condition_new :: "CondState \<Rightarrow> u64 \<Rightarrow> (CondState \<times> cond) cpp" where
  "Condition_new s hash =
     (if hash \<noteq> 0 \<and> hash \<noteq> NOT 0 then Inr (Condition_object s [] hash)
      else Inl (RuntimeError ''Condition: +++ Cannot create a condition with an invalid key''))"

subsection \<open>Pools of conditions\<close>

text \<open>
  The two implementations of the interface \<open>ConditionsPool\<close>. Iteration follows the container:
  the order of insertion, or the order of the keys. Keyed selection compares the key stored in
  the condition, not the key of the map.
\<close>

fun entry_conds :: "Entries \<Rightarrow> cond list" where
  "entry_conds (LinearPool cs) = cs"
| "entry_conds (MappedPool m) = List.map snd m"

fun entries_size :: "Entries \<Rightarrow> nat" where
  "entries_size (LinearPool cs) = length cs"
| "entries_size (MappedPool m) = length m"

fun entries_insert :: "CondState \<Rightarrow> Entries \<Rightarrow> cond \<Rightarrow> (Entries \<times> bool) cpp" where
  "entries_insert s (LinearPool cs) c = bindE (cond_access s c) (\<lambda>_. Inr (LinearPool (cs @ [c]), True))"
| "entries_insert s (MappedPool m) c = bindE (cond_access s c) (\<lambda>ob.
     let (m', ok) = map_emplace (co_hash ob) c m in Inr (MappedPool m', ok))"

fun entries_insert_many :: "CondState \<Rightarrow> Entries \<Rightarrow> cond list \<Rightarrow> Entries cpp" where
  "entries_insert_many s (LinearPool cs) rc = Inr (LinearPool (cs @ rc))"
| "entries_insert_many s (MappedPool m) rc =
     foldE (\<lambda>e c. bindE (entries_insert s e c) (\<lambda>(e', ok). Inr e')) (MappedPool m) rc"

fun keyed_select :: "CondState \<Rightarrow> u64 \<Rightarrow> cond list \<Rightarrow> cond list cpp" where
  "keyed_select s key [] = Inr []"
| "keyed_select s key (c # cs) = bindE (cond_get s c) (\<lambda>ob. bindE (keyed_select s key cs) (\<lambda>r.
     Inr (if co_hash ob = key then c # r else r)))"

fun key_find :: "CondState \<Rightarrow> u64 \<Rightarrow> cond list \<Rightarrow> cond cpp" where
  "key_find s key [] = Inr 0"
| "key_find s key (c # cs) = bindE (cond_get s c) (\<lambda>ob. if co_hash ob = key then Inr c else key_find s key cs)"

definition entries_exists :: "CondState \<Rightarrow> Entries \<Rightarrow> u64 \<Rightarrow> cond cpp" where
  "entries_exists s e key = key_find s key (entry_conds e)"

text \<open>\<open>select(key, result)\<close> appends; \<open>select_all\<close> with a sequence appends everything.\<close>

definition entries_select :: "CondState \<Rightarrow> Entries \<Rightarrow> u64 \<Rightarrow> cond list \<Rightarrow> cond list cpp" where
  "entries_select s e key result = bindE (keyed_select s key (entry_conds e)) (\<lambda>r. Inr (result @ r))"

definition entries_select_all :: "Entries \<Rightarrow> cond list \<Rightarrow> cond list" where
  "entries_select_all e result = result @ entry_conds e"

text \<open>\<open>mapConditionsSelect\<close>: every condition is emplaced into a map under its own key.\<close>

definition map_select_step :: "CondState \<Rightarrow> (u64, cond) std_map \<Rightarrow> cond \<Rightarrow> (u64, cond) std_map cpp" where
  "map_select_step s m c = bindE (cond_get s c) (\<lambda>ob. Inr (fst (map_emplace (co_hash ob) c m)))"

definition entries_select_map :: "CondState \<Rightarrow> Entries \<Rightarrow> (u64, cond) std_map \<Rightarrow> (u64, cond) std_map cpp" where
  "entries_select_map s e m = foldE (map_select_step s) m (entry_conds e)"

text \<open>\<open>clear\<close>: the listeners see every condition before it is deleted.\<close>

definition call_listeners :: "nat list \<Rightarrow> CondState \<Rightarrow> cond \<Rightarrow> CondState" where
  "call_listeners ls s c = s\<lparr>cm_calls := cm_calls s @ List.map (\<lambda>l. (l, c)) ls\<rparr>"

definition pool_remove :: "CondState \<Rightarrow> cond \<Rightarrow> CondState cpp" where
  "pool_remove s c = bindE (cond_get s c) (\<lambda>_. let s1 = call_listeners (cm_onRemove s) s c in
     Inr (s1\<lparr>cs_cond := (cs_cond s1)(c := None)\<rparr>))"

fun entries_empty :: "Entries \<Rightarrow> Entries" where
  "entries_empty (LinearPool cs) = LinearPool []"
| "entries_empty (MappedPool m) = MappedPool []"

definition pool_clear :: "CondState \<Rightarrow> nat \<Rightarrow> CondState cpp" where
  "pool_clear s p = bindE (pool_get s p) (\<lambda>q.
     bindE (foldE pool_remove s (entry_conds (cp_entries q))) (\<lambda>s1.
       Inr (pool_put s1 p (q\<lparr>cp_entries := entries_empty (cp_entries q)\<rparr>))))"

definition pool_insert :: "CondState \<Rightarrow> nat \<Rightarrow> cond \<Rightarrow> (CondState \<times> bool) cpp" where
  "pool_insert s p c = bindE (pool_get s p) (\<lambda>q. bindE (entries_insert s (cp_entries q) c) (\<lambda>(e, ok).
     Inr (pool_put s p (q\<lparr>cp_entries := e\<rparr>), ok)))"

text \<open>The update pool: \<open>popEntries\<close> groups the conditions by the address of their interval, \<open>select_range\<close>
  collects those of the requested key and type whose interval overlaps the requested one.\<close>

definition group_step :: "CondState \<Rightarrow> (nat, cond list) std_map \<Rightarrow> cond \<Rightarrow> (nat, cond list) std_map cpp" where
  "group_step s m c = bindE (cond_get s c) (\<lambda>ob.
     Inr (map_assign (co_iov ob) ((case map_of m (co_iov ob) of None \<Rightarrow> [] | Some l \<Rightarrow> l) @ [c]) m))"

definition popEntries :: "CondState \<Rightarrow> (nat, cond list) std_map \<Rightarrow> (CondState \<times> (nat, cond list) std_map) cpp" where
  "popEntries s entries = bindE (foldE (group_step s) entries (cm_updates s)) (\<lambda>entries'.
     Inr (s\<lparr>cm_updates := []\<rparr>, entries'))"

definition range_overlap :: "Key \<Rightarrow> Key \<Rightarrow> bool" where
  "range_overlap k req \<longleftrightarrow> key_is_contained k req \<or> key_overlaps_lower_end k req \<or> key_overlaps_higher_end k req"

fun update_select_range :: "CondState \<Rightarrow> u64 \<Rightarrow> IOV \<Rightarrow> cond list \<Rightarrow> cond list \<Rightarrow> cond list cpp" where
  "update_select_range s key req [] result = Inr result"
| "update_select_range s key req (c # cs) result = bindE (cond_get s c) (\<lambda>ob.
     if key = co_hash ob then
       bindE (iov_get s (co_iov ob)) (\<lambda>v.
         update_select_range s key req cs
           (if type_code req = type_code v \<and> range_overlap (iov_keyData v) (iov_keyData req) then result @ [c] else result))
     else update_select_range s key req cs result)"

subsection \<open>The pools of one interval type\<close>

text \<open>
  \<open>ConditionsIOVPool\<close>: the pools of one type, ordered by their key. A selection takes the pools whose
  key contains the requested range; the selections that report a validity also maintain the
  age of the pools (0 when used, one more when not).
\<close>

fun iovpool_select_in :: "CondState \<Rightarrow> (Key, nat) std_map \<Rightarrow> u64 \<Rightarrow> (Key \<Rightarrow> bool) \<Rightarrow> cond list \<Rightarrow> cond list cpp" where
  "iovpool_select_in s [] key accept result = Inr result"
| "iovpool_select_in s ((k, p) # es) key accept result =
     (if accept k then
        bindE (pool_get s p) (\<lambda>q. bindE (entries_select s (cp_entries q) key result) (\<lambda>r.
          iovpool_select_in s es key accept r))
      else iovpool_select_in s es key accept result)"

definition iovpool_select :: "CondState \<Rightarrow> ConditionsIOVPool \<Rightarrow> u64 \<Rightarrow> IOV \<Rightarrow> cond list \<Rightarrow> cond list cpp" where
  "iovpool_select s ip key req result =
     iovpool_select_in s (ip_elements ip) key (\<lambda>k. key_contains_range k (iov_keyData req)) result"

definition iovpool_selectRange :: "CondState \<Rightarrow> ConditionsIOVPool \<Rightarrow> u64 \<Rightarrow> IOV \<Rightarrow> cond list \<Rightarrow> cond list cpp" where
  "iovpool_selectRange s ip key req result =
     iovpool_select_in s (ip_elements ip) key (\<lambda>k. range_overlap k (iov_keyData req)) result"

definition age_pool :: "CondState \<Rightarrow> nat \<Rightarrow> (i32 \<Rightarrow> i32) \<Rightarrow> CondState cpp" where
  "age_pool s p f = bindE (pool_get s p) (\<lambda>q. Inr (pool_put s p (q\<lparr>cp_age := f (cp_age q)\<rparr>)))"

text \<open>
  The selection of everything valid at a time. \<open>take_pool\<close> is what happens with a matching pool: its
  conditions go to a sequence or, through a \<open>ConditionsSelect\<close>, to a map; the count is what the
  pool reports, the growth of the target.
\<close>

fun select_pools :: "CondState \<Rightarrow> (Key, nat) std_map \<Rightarrow> Key \<Rightarrow> (CondState \<Rightarrow> Entries \<Rightarrow> 'r \<Rightarrow> 'r cpp) \<Rightarrow>
    ('r \<Rightarrow> nat) \<Rightarrow> 'r \<Rightarrow> IOV \<Rightarrow> nat \<Rightarrow> (CondState \<times> 'r \<times> IOV \<times> nat) cpp" where
  "select_pools s [] req take_pool size_of valid validity num = Inr (s, valid, validity, num)"
| "select_pools s ((k, p) # es) req take_pool size_of valid validity num =
     (if \<not> key_contains_range k req then
        bindE (age_pool s p (\<lambda>a. a + 1)) (\<lambda>s1. select_pools s1 es req take_pool size_of valid validity num)
      else
        bindE (pool_get s p) (\<lambda>q. bindE (take_pool s (cp_entries q) valid) (\<lambda>valid1.
          bindE (age_pool s p (\<lambda>_. 0)) (\<lambda>s1.
            select_pools s1 es req take_pool size_of valid1 (iov_intersection_key validity k)
              (num + (size_of valid1 - size_of valid))))))"

definition iovpool_select_sequence ::
    "CondState \<Rightarrow> ConditionsIOVPool \<Rightarrow> IOV \<Rightarrow> cond list \<Rightarrow> IOV \<Rightarrow> (CondState \<times> cond list \<times> IOV \<times> nat) cpp" where
  "iovpool_select_sequence s ip req valid validity =
     select_pools s (ip_elements ip) (iov_keyData req) (\<lambda>s e r. Inr (entries_select_all e r)) length valid validity 0"

definition iovpool_select_map ::
    "CondState \<Rightarrow> ConditionsIOVPool \<Rightarrow> IOV \<Rightarrow> (u64, cond) std_map \<Rightarrow> IOV \<Rightarrow>
       (CondState \<times> (u64, cond) std_map \<times> IOV \<times> nat) cpp" where
  "iovpool_select_map s ip req valid validity =
     select_pools s (ip_elements ip) (iov_keyData req) entries_select_map length valid validity 0"

text \<open>Selection of the pools themselves, as a map or as a sequence; \<open>used_pools\<close> of a slice is the latter.\<close>

definition matching_elements :: "ConditionsIOVPool \<Rightarrow> IOV \<Rightarrow> (Key \<times> nat) list" where
  "matching_elements ip req = filter (\<lambda>(k, p). key_contains_range k (iov_keyData req)) (ip_elements ip)"

definition iovpool_elements :: "ConditionsIOVPool \<Rightarrow> IOV \<Rightarrow> (Key, nat) std_map \<Rightarrow> (Key, nat) std_map \<times> nat" where
  "iovpool_elements ip req valid =
     (foldl (\<lambda>m (k, p). map_assign k p m) valid (matching_elements ip req), length (matching_elements ip req))"

definition iovpool_vector :: "ConditionsIOVPool \<Rightarrow> IOV \<Rightarrow> nat list \<Rightarrow> nat list \<times> nat" where
  "iovpool_vector ip req valid =
     (valid @ List.map snd (matching_elements ip req), length (matching_elements ip req))"

text \<open>The two variants that also report a validity fold the intersection over all selected pools.\<close>

definition pool_validity :: "CondState \<Rightarrow> IOV \<Rightarrow> nat list \<Rightarrow> IOV cpp" where
  "pool_validity s validity ps =
     foldE (\<lambda>v p. bindE (pool_get s p) (\<lambda>q. bindE (iov_get s (cp_iov q)) (\<lambda>w. Inr (iov_intersection v w))))
       (iov_reset (iov_invert validity)) ps"

definition iovpool_elements_validity ::
    "CondState \<Rightarrow> ConditionsIOVPool \<Rightarrow> IOV \<Rightarrow> (Key, nat) std_map \<Rightarrow> IOV \<Rightarrow> ((Key, nat) std_map \<times> IOV \<times> nat) cpp" where
  "iovpool_elements_validity s ip req valid validity =
     (let (valid1, n) = iovpool_elements ip req valid
      in bindE (pool_validity s validity (List.map snd valid1)) (\<lambda>v. Inr (valid1, v, n)))"

definition iovpool_vector_validity ::
    "CondState \<Rightarrow> ConditionsIOVPool \<Rightarrow> IOV \<Rightarrow> nat list \<Rightarrow> IOV \<Rightarrow> (nat list \<times> IOV \<times> nat) cpp" where
  "iovpool_vector_validity s ip req valid validity =
     (let (valid1, n) = iovpool_vector ip req valid
      in bindE (pool_validity s validity valid1) (\<lambda>v. Inr (valid1, v, n)))"

text \<open>
  Cleaning drops the pools that a policy names, or that are too old. A dropped pool that no slice
  holds is destroyed: its conditions are deleted, the listeners see them before. The destructor deletes the
  interval object of the pool as well; the store keeps that object here, so that an access to a freed interval is no error of the model.
\<close>

definition destroy_pool :: "CondState \<Rightarrow> nat \<Rightarrow> CondState cpp" where
  "destroy_pool s p =
     (if p \<in> set (cs_held s) then Inr s
      else bindE (pool_clear s p) (\<lambda>s1. Inr (s1\<lparr>cs_pool := (cs_pool s1)(p := None)\<rparr>)))"

fun clean_elements :: "CondState \<Rightarrow> (ConditionsPool \<Rightarrow> bool) \<Rightarrow> (Key, nat) std_map \<Rightarrow>
    ((Key, nat) std_map \<times> nat list \<times> nat) cpp" where
  "clean_elements s cleaner [] = Inr ([], [], 0)"
| "clean_elements s cleaner ((k, p) # es) = bindE (pool_get s p) (\<lambda>q.
     bindE (clean_elements s cleaner es) (\<lambda>(rest, gone, n).
       Inr (if cleaner q then (rest, p # gone, entries_size (cp_entries q) + n) else ((k, p) # rest, gone, n))))"

definition iovpool_clean_by ::
    "CondState \<Rightarrow> ConditionsIOVPool \<Rightarrow> (ConditionsPool \<Rightarrow> bool) \<Rightarrow> (CondState \<times> ConditionsIOVPool \<times> nat) cpp" where
  "iovpool_clean_by s ip cleaner = bindE (clean_elements s cleaner (ip_elements ip)) (\<lambda>(rest, gone, n).
     bindE (foldE destroy_pool s gone) (\<lambda>s1. Inr (s1, ip\<lparr>ip_elements := rest\<rparr>, n)))"

definition iovpool_clean :: "CondState \<Rightarrow> ConditionsIOVPool \<Rightarrow> i32 \<Rightarrow> (CondState \<times> ConditionsIOVPool \<times> nat) cpp" where
  "iovpool_clean s ip max_age = iovpool_clean_by s ip (\<lambda>q. sint max_age \<le> sint (cp_age q))"

section \<open>The contract of a pool\<close>

text \<open>
  What the clients of a pool rely on, whatever its implementation: an insertion of a live condition
  either adds exactly this condition, or refuses because its key is taken; a new key is never
  refused.
\<close>

locale condition_container =
  fixes ok :: "'e \<Rightarrow> bool"
    and content :: "'e \<Rightarrow> cond list"
    and hash :: "cond \<Rightarrow> u64"
    and live :: "cond \<Rightarrow> bool"
    and ins :: "'e \<Rightarrow> cond \<Rightarrow> 'e \<times> bool"
  assumes ins_ok: "\<lbrakk>ok e; live c; ins e c = (e', b)\<rbrakk> \<Longrightarrow> ok e'"
    and ins_added: "\<lbrakk>ok e; live c; ins e c = (e', True)\<rbrakk> \<Longrightarrow> mset (content e') = add_mset c (mset (content e))"
    and ins_refused: "\<lbrakk>ok e; live c; ins e c = (e', False)\<rbrakk> \<Longrightarrow> e' = e \<and> hash c \<in> hash ` set (content e)"
begin

lemma ins_new: "\<lbrakk>ok e; live c; hash c \<notin> hash ` set (content e)\<rbrakk> \<Longrightarrow> snd (ins e c)"
  using ins_refused [of e c "fst (ins e c)"] by (cases "ins e c") auto

lemma ins_set:
  assumes "ok e" and "live c" and "ins e c = (e', b)"
  shows "set (content e') = (if b then insert c (set (content e)) else set (content e))"
proof (cases b)
  case True
  then have "mset (content e') = add_mset c (mset (content e))" using ins_added [OF assms(1,2)] assms(3) by simp
  then have "set_mset (mset (content e')) = set_mset (add_mset c (mset (content e)))" by (rule arg_cong)
  then show ?thesis using True by simp
next
  case False
  then show ?thesis using ins_refused [OF assms(1,2)] assms(3) by simp
qed

definition ins_all :: "'e \<Rightarrow> cond list \<Rightarrow> 'e" where
  "ins_all e cs = foldl (\<lambda>e c. fst (ins e c)) e cs"

text \<open>A batch of live conditions with new and distinct keys is added completely.\<close>

lemma ins_all_new:
  assumes "ok e" and "\<forall>c \<in> set cs. live c" and "distinct (List.map hash (cs @ content e))"
  shows "ok (ins_all e cs) \<and> mset (content (ins_all e cs)) = mset cs + mset (content e)"
  using assms
proof (induction cs arbitrary: e)
  case (Cons c cs)
  obtain e' b where i: "ins e c = (e', b)" by fastforce
  have "hash c \<notin> hash ` set (content e)" using Cons.prems(3) by auto
  then have b: b using ins_new [of e c] Cons.prems(1,2) i by simp
  then have m: "mset (content e') = add_mset c (mset (content e))" and ok: "ok e'"
    using ins_added ins_ok Cons.prems(1,2) i by (simp, metis list.set_intros(1))
  have "mset (cs @ content e') = mset ((c # cs) @ content e)" using m by simp
  then have "mset (List.map hash (cs @ content e')) = mset (List.map hash ((c # cs) @ content e))"
    by (metis mset_map)
  then have "distinct (List.map hash (cs @ content e'))"
    using Cons.prems(3) mset_eq_imp_distinct_iff by blast
  then have "ok (ins_all e' cs) \<and> mset (content (ins_all e' cs)) = mset cs + mset (content e')"
    using Cons.IH [OF ok] Cons.prems(2) by simp
  then show ?case using i m by (simp add: ins_all_def)
qed (simp add: ins_all_def)

end

definition live_in :: "CondState \<Rightarrow> cond \<Rightarrow> bool" where
  "live_in s c \<longleftrightarrow> c \<noteq> 0 \<and> cs_cond s c \<noteq> None"

definition hash_in :: "CondState \<Rightarrow> cond \<Rightarrow> u64" where
  "hash_in s c = co_hash (the (cs_cond s c))"

text \<open>In a mapped pool the keys of the map are those of the conditions.\<close>

fun entries_ok :: "CondState \<Rightarrow> Entries \<Rightarrow> bool" where
  "entries_ok s (LinearPool cs) = True"
| "entries_ok s (MappedPool m) = (map_ok m \<and> (\<forall>(k, c) \<in> set m. k = hash_in s c))"

lemma live_get: "live_in s c \<Longrightarrow> cond_get s c = Inr (the (cs_cond s c))"
  by (auto simp: live_in_def cond_get_def)

lemma live_access: "live_in s c \<Longrightarrow> cond_access s c = Inr (the (cs_cond s c))"
  by (auto simp: live_get live_in_def cond_access_def)

lemma assign_subset: "set (map_assign k v m) \<subseteq> insert (k, v) (set m)"
  by (induction k v m rule: map_assign.induct) auto

interpretation ep: condition_container "entries_ok s" entry_conds "hash_in s" "live_in s"
    "\<lambda>e c. projr (entries_insert s e c)" for s
proof
  fix e e' c b
  assume ok: "entries_ok s e" and live: "live_in s c"
  note l = live_access [OF live]
  show "entries_ok s e'" if i: "projr (entries_insert s e c) = (e', b)"
  proof (cases e)
    case (MappedPool m)
    have m: "map_ok m" "\<forall>(k, d) \<in> set m. k = hash_in s d" using ok MappedPool by auto
    have "e' = MappedPool m \<or> e' = MappedPool (map_assign (hash_in s c) c m)"
      using i MappedPool l by (auto simp: map_emplace_def hash_in_def split: option.splits)
    moreover have "entries_ok s (MappedPool (map_assign (hash_in s c) c m))"
    proof -
      have "k = hash_in s d" if "(k, d) \<in> set (map_assign (hash_in s c) c m)" for k d
        using that m(2) assign_subset [of "hash_in s c" c m] by blast
      then show ?thesis using m(1) by auto
    qed
    ultimately show ?thesis using m by auto
  qed (use i l in auto)
  show "mset (entry_conds e') = add_mset c (mset (entry_conds e))" if i: "projr (entries_insert s e c) = (e', True)"
  proof (cases e)
    case (MappedPool m)
    have m: "map_ok m" using ok MappedPool by simp
    have e': "e' = MappedPool (map_assign (hash_in s c) c m)" and n: "map_of m (hash_in s c) = None"
      using i MappedPool l by (auto simp: map_emplace_def hash_in_def split: option.splits)
    have "mset (List.map snd (map_assign (hash_in s c) c m)) = image_mset snd (add_mset (hash_in s c, c) (mset m))"
      using mset_assign [OF n, of c] by (metis mset_map)
    then show ?thesis using MappedPool e' by simp
  qed (use i l in auto)
  show "e' = e \<and> hash_in s c \<in> hash_in s ` set (entry_conds e)" if i: "projr (entries_insert s e c) = (e', False)"
  proof (cases e)
    case (MappedPool m)
    have m: "map_ok m" "\<forall>(k, d) \<in> set m. k = hash_in s d" using ok MappedPool by auto
    obtain d where d: "map_of m (hash_in s c) = Some d" and e': "e' = e"
      using i MappedPool l by (auto simp: map_emplace_def hash_in_def split: option.splits)
    have "(hash_in s c, d) \<in> set m" using map_of_SomeD [OF d] .
    then have "hash_in s c = hash_in s d \<and> d \<in> snd ` set m" using m(2) by force
    then show ?thesis using MappedPool e' by auto
  qed (use i l in auto)
qed

lemma entries_insert_live: "live_in s c \<Longrightarrow> \<exists>e' b. entries_insert s e c = Inr (e', b)"
  using live_access [of s c] by (cases e) (auto simp: map_emplace_def Let_def split: option.splits)

section \<open>Selections\<close>

lemma keyed_select_live:
  "\<forall>c \<in> set cs. live_in s c \<Longrightarrow> keyed_select s key cs = Inr (filter (\<lambda>c. hash_in s c = key) cs)"
  by (induction cs) (auto simp: live_get hash_in_def)

lemma key_find_live:
  "\<forall>c \<in> set cs. live_in s c \<Longrightarrow> key_find s key cs =
     Inr (case find (\<lambda>c. hash_in s c = key) cs of Some c \<Rightarrow> c | None \<Rightarrow> 0)"
  by (induction cs) (auto simp: live_get hash_in_def)

definition pool_conds :: "CondState \<Rightarrow> nat \<Rightarrow> cond list" where
  "pool_conds s p = entry_conds (cp_entries (the (cs_pool s p)))"

definition pool_live :: "CondState \<Rightarrow> nat \<Rightarrow> bool" where
  "pool_live s p \<longleftrightarrow> p \<noteq> 0 \<and> cs_pool s p \<noteq> None \<and> (\<forall>c \<in> set (pool_conds s p). live_in s c)"

lemma pool_live_get: "pool_live s p \<Longrightarrow> pool_get s p = Inr (the (cs_pool s p))"
  by (auto simp: pool_live_def pool_get_def)

lemma select_in_live:
  assumes "\<forall>(k, p) \<in> set es. pool_live s p"
  shows "iovpool_select_in s es key accept r =
    Inr (r @ concat (List.map (\<lambda>(k, p). filter (\<lambda>c. hash_in s c = key) (pool_conds s p)) (filter (\<lambda>(k, p). accept k) es)))"
  using assms
proof (induction es arbitrary: r)
  case (Cons e es)
  obtain k p where e: "e = (k, p)" by (cases e)
  have l: "pool_live s p" using Cons.prems e by simp
  then have "\<forall>c \<in> set (pool_conds s p). live_in s c" by (simp add: pool_live_def)
  then show ?case
    using Cons pool_live_get [OF l] by (simp add: e entries_select_def keyed_select_live pool_conds_def)
qed simp

text \<open>The pools after a selection: age 0 for those that matched, one more for the others.\<close>

definition age_one :: "Key \<Rightarrow> Key \<Rightarrow> ConditionsPool \<Rightarrow> ConditionsPool" where
  "age_one k req q = q\<lparr>cp_age := if key_contains_range k req then 0 else cp_age q + 1\<rparr>"

definition aged_pools :: "(nat \<Rightarrow> ConditionsPool option) \<Rightarrow> (Key, nat) std_map \<Rightarrow> Key \<Rightarrow> nat \<Rightarrow> ConditionsPool option" where
  "aged_pools m es req p = (case map_of (List.map (\<lambda>(k, p). (p, k)) es) p of
       None \<Rightarrow> m p
     | Some k \<Rightarrow> map_option (age_one k req) (m p))"

definition aged :: "CondState \<Rightarrow> (Key, nat) std_map \<Rightarrow> Key \<Rightarrow> CondState" where
  "aged s es req = s\<lparr>cs_pool := aged_pools (cs_pool s) es req\<rparr>"

lemma aged_Nil [simp]: "aged s [] req = s"
proof -
  have "aged_pools (cs_pool s) [] req = cs_pool s" by (rule ext) (simp add: aged_pools_def)
  then show ?thesis by (simp add: aged_def)
qed

lemma aged_Cons:
  assumes "p \<notin> snd ` set es" and "cs_pool s p = Some q"
  shows "aged (pool_put s p (age_one k req q)) es req = aged s ((k, p) # es) req"
proof -
  have "map_of (List.map (\<lambda>(k, p). (p, k)) es) p = None"
    using assms(1) by (force simp: map_of_eq_None_iff)
  then have "aged_pools ((cs_pool s)(p \<mapsto> age_one k req q)) es req = aged_pools (cs_pool s) ((k, p) # es) req"
    using assms(2) by (auto simp: aged_pools_def fun_eq_iff split: option.splits)
  then show ?thesis by (simp add: aged_def pool_put_def)
qed

lemma pool_live_put:
  assumes "cs_pool s p = Some q" and "cp_entries q' = cp_entries q"
  shows "pool_live (pool_put s p q') p' = pool_live s p'"
  using assms by (auto simp: pool_live_def pool_put_def pool_conds_def live_in_def)

lemma age_pool_live:
  "pool_live s p \<Longrightarrow> age_pool s p f = Inr (pool_put s p ((the (cs_pool s p))\<lparr>cp_age := f (cp_age (the (cs_pool s p)))\<rparr>))"
  by (simp add: age_pool_def pool_live_get)

lemma select_pools_spec:
  assumes "\<forall>(k, p) \<in> set es. pool_live s p" and "distinct (List.map snd es)"
    and "\<And>s' p r. \<lbrakk>cs_cond s' = cs_cond s; pool_live s p\<rbrakk> \<Longrightarrow>
      take_pool s' (cp_entries (the (cs_pool s p))) r = Inr (t (cp_entries (the (cs_pool s p))) r)"
  shows "\<exists>num. select_pools s es req take_pool size_of valid v n =
    Inr (aged s es req, foldl (\<lambda>r (k, p). t (cp_entries (the (cs_pool s p))) r) valid (filter (\<lambda>(k, p). key_contains_range k req) es),
      v\<lparr>iov_keyData := foldl key_intersection (iov_keyData v) (List.map fst (filter (\<lambda>(k, p). key_contains_range k req) es))\<rparr>, num)"
  using assms
proof (induction es arbitrary: s valid v n)
  case (Cons e es)
  obtain k p where e: "e = (k, p)" by (cases e)
  have l: "pool_live s p" using Cons.prems(1) e by simp
  obtain q where q: "cs_pool s p = Some q" using l by (auto simp: pool_live_def)
  let ?s1 = "pool_put s p (age_one k req q)"
  have pl: "pool_live ?s1 p' = pool_live s p'" for p'
    by (rule pool_live_put [OF q]) (simp add: age_one_def)
  have same: "cp_entries (the (cs_pool ?s1 p')) = cp_entries (the (cs_pool s p'))" for p'
    using q by (simp add: pool_put_def age_one_def)
  have cond: "cs_cond ?s1 = cs_cond s" by (simp add: pool_put_def)
  have step: "\<exists>num. select_pools ?s1 es req take_pool size_of valid' v' n' =
    Inr (aged ?s1 es req, foldl (\<lambda>r (k, p). t (cp_entries (the (cs_pool s p))) r) valid' (filter (\<lambda>(k, p). key_contains_range k req) es),
      v'\<lparr>iov_keyData := foldl key_intersection (iov_keyData v') (List.map fst (filter (\<lambda>(k, p). key_contains_range k req) es))\<rparr>, num)"
    for valid' v' n'
    using Cons.IH [of ?s1 valid' v' n'] Cons.prems by (simp add: pl same cond)
  have "p \<notin> snd ` set es" using Cons.prems(2) e by simp
  then have a: "aged ?s1 es req = aged s ((k, p) # es) req" using q by (rule aged_Cons)
  show ?case
  proof (cases "key_contains_range k req")
    case True
    have t: "take_pool s (cp_entries q) valid = Inr (t (cp_entries q) valid)"
      using Cons.prems(3) [OF refl l, of valid] q by simp
    have s1: "age_pool s p (\<lambda>_. 0) = Inr ?s1" using age_pool_live [OF l] q True by (simp add: age_one_def)
    obtain num where "select_pools ?s1 es req take_pool size_of (t (cp_entries q) valid) (iov_intersection_key v k)
        (n + (size_of (t (cp_entries q) valid) - size_of valid)) =
      Inr (aged ?s1 es req, foldl (\<lambda>r (k, p). t (cp_entries (the (cs_pool s p))) r) (t (cp_entries q) valid)
          (filter (\<lambda>(k, p). key_contains_range k req) es),
        (iov_intersection_key v k)\<lparr>iov_keyData := foldl key_intersection (iov_keyData (iov_intersection_key v k))
          (List.map fst (filter (\<lambda>(k, p). key_contains_range k req) es))\<rparr>, num)"
      using step by blast
    then show ?thesis
      using True pool_live_get [OF l] q t s1 a by (simp add: e iov_intersection_key_def)
  next
    case False
    have s1: "age_pool s p (\<lambda>a. a + 1) = Inr ?s1" using age_pool_live [OF l] q False by (simp add: age_one_def)
    then show ?thesis using step [of valid v n] False a by (simp add: e)
  qed
qed simp

text \<open>What is selected is valid throughout the reported interval, which contains the requested one.\<close>

lemma matching_validity:
  assumes "key_contains_range k0 req" and "\<forall>k \<in> set ks. key_contains_range k req"
  shows "key_contains_range (foldl key_intersection k0 ks) req"
  using assms by (induction ks arbitrary: k0) (simp_all add: contains_intersection)

lemma forever_contains: "key_contains_range key_forever k"
  using sint_range64 [of "key_first k"] sint_range64 [of "key_second k"]
  by (simp add: key_contains_range_def key_forever_def)

lemma pool_validity_reset:
  assumes "iov_iovType v \<noteq> None" and "pool_validity s v ps = Inr w"
  shows "iov_keyData w = Key MAX_KEY MIN_KEY"
proof -
  let ?P = "\<lambda>v. iov_iovType v \<noteq> None \<and> iov_keyData v = Key MAX_KEY MIN_KEY"
  have "?P w"
  proof (rule foldE_invariant [OF assms(2) [unfolded pool_validity_def]])
    show "?P (iov_reset (iov_invert v))" using assms(1) by (simp add: iov_reset_def iov_invert_def)
    fix u p u'
    assume u: "?P u"
      and st: "bindE (pool_get s p) (\<lambda>q. bindE (iov_get s (cp_iov q)) (\<lambda>w. Inr (iov_intersection u w))) = Inr u'"
    obtain x where "u' = iov_intersection u x" using st by (auto simp: bindE_Inr_iff)
    moreover have "key_intersection (Key MAX_KEY MIN_KEY) k = Key MAX_KEY MIN_KEY" for k
      using sint_range64 [of "key_first k"] sint_range64 [of "key_second k"]
      by (cases k) (simp add: key_intersection_def)
    ultimately show "?P u'" using u by (simp add: iov_intersection_typed)
  qed
  then show ?thesis ..
qed

text \<open>Selecting into a map: the first condition of a key wins, a key already present is kept.\<close>

lemma select_map_live:
  assumes "\<forall>c \<in> set cs. live_in s c"
  shows "foldE (map_select_step s) m cs = Inr (foldl (\<lambda>m c. fst (map_emplace (hash_in s c) c m)) m cs)"
  using assms by (induction cs arbitrary: m) (simp_all add: map_select_step_def live_get hash_in_def)

lemma select_map_find:
  "map_of (foldl (\<lambda>m c. fst (map_emplace (h c) c m)) m cs) key =
     (case map_of m key of Some c \<Rightarrow> Some c | None \<Rightarrow> find (\<lambda>c. h c = key) cs)"
  by (induction cs arbitrary: m) (auto simp: map_of_emplace split: option.splits)

lemma select_map_ok: "map_ok m \<Longrightarrow> map_ok (foldl (\<lambda>m c. fst (map_emplace (h c) c m)) m cs)"
  by (induction cs arbitrary: m) (simp_all add: map_ok_emplace)

lemma select_map_spec:
  assumes "\<forall>(k, p) \<in> set (ip_elements ip). pool_live s p" and "distinct (List.map snd (ip_elements ip))"
  shows "\<exists>n. iovpool_select_map s ip req [] v = Inr (aged s (ip_elements ip) (iov_keyData req),
    foldl (\<lambda>m c. fst (map_emplace (hash_in s c) c m)) [] (concat (List.map (pool_conds s \<circ> snd) (matching_elements ip req))),
    v\<lparr>iov_keyData := foldl key_intersection (iov_keyData v) (List.map fst (matching_elements ip req))\<rparr>, n)"
proof -
  let ?t = "\<lambda>e r. foldl (\<lambda>m c. fst (map_emplace (hash_in s c) c m)) r (entry_conds e)"
  have step: "entries_select_map s' (cp_entries (the (cs_pool s p))) r = Inr (?t (cp_entries (the (cs_pool s p))) r)"
    if "cs_cond s' = cs_cond s" "pool_live s p" for s' p r
  proof -
    have "live_in s' = live_in s" "hash_in s' = hash_in s" using that(1) by (auto simp: live_in_def hash_in_def fun_eq_iff)
    then show ?thesis
      using select_map_live [of "pool_conds s p" s' r] that(2) by (simp add: entries_select_map_def pool_live_def pool_conds_def)
  qed
  have fold: "foldl (\<lambda>r (k, p). ?t (cp_entries (the (cs_pool s p))) r) m xs =
      foldl (\<lambda>m c. fst (map_emplace (hash_in s c) c m)) m (concat (List.map (pool_conds s \<circ> snd) xs))" for xs m
    by (induction xs arbitrary: m) (auto simp: pool_conds_def)
  show ?thesis
    using select_pools_spec [OF assms, of entries_select_map ?t "iov_keyData req" length "[]" v 0] step
    unfolding iovpool_select_map_def matching_elements_def fold by blast
qed

section \<open>Properties\<close>

text \<open>C23. Selecting everything valid for a requested interval: the call returns, gives the conditions of exactly
  the pools whose key contains the request, in the order of the keys (as a map: the first of each
  key), the reported interval is contained in the key of every pool used and still contains the
  request, and only the ages change: 0 for a used pool, one more for an unused one.\<close>

theorem pool_selection:
  assumes "\<forall>(k, p) \<in> set (ip_elements ip). pool_live s p" and "distinct (List.map snd (ip_elements ip))"
    and "key_contains_range (iov_keyData v) (iov_keyData req)"
  shows "\<exists>w n m n'. let cs = concat (List.map (pool_conds s \<circ> snd) (matching_elements ip req)) in
      iovpool_select_sequence s ip req valid v = Inr (aged s (ip_elements ip) (iov_keyData req), valid @ cs, w, n) \<and>
      iovpool_select_map s ip req [] v = Inr (aged s (ip_elements ip) (iov_keyData req), m, w, n') \<and>
      (\<forall>key. map_of m key = find (\<lambda>c. hash_in s c = key) cs) \<and> map_ok m \<and>
      (\<forall>key. iovpool_select s ip key req valid = Inr (valid @ filter (\<lambda>c. hash_in s c = key) cs)) \<and>
      key_contains_range (iov_keyData w) (iov_keyData req) \<and>
      span (iov_keyData w) = span (iov_keyData v) \<inter> (\<Inter>(k, p) \<in> set (matching_elements ip req). span k)"
proof -
  let ?es = "ip_elements ip" and ?req = "iov_keyData req"
  let ?M = "filter (\<lambda>(k, p). key_contains_range k ?req) ?es"
  let ?cs = "concat (List.map (pool_conds s \<circ> snd) ?M)"
  let ?w = "v\<lparr>iov_keyData := foldl key_intersection (iov_keyData v) (List.map fst ?M)\<rparr>"
  have cs: "?cs = concat (List.map (\<lambda>(k, p). pool_conds s p) ?M)" by (rule arg_cong [of _ _ concat]) auto
  have seq_fold: "foldl (\<lambda>r (k, p). entries_select_all (cp_entries (the (cs_pool s p))) r) valid xs =
      valid @ concat (List.map (\<lambda>(k, p). pool_conds s p) xs)" for xs valid
    by (induction xs arbitrary: valid) (auto simp: entries_select_all_def pool_conds_def)
  obtain n where n: "iovpool_select_sequence s ip req valid v = Inr (aged s ?es ?req, valid @ ?cs, ?w, n)"
    using select_pools_spec [OF assms(1,2), of "\<lambda>s e r. Inr (entries_select_all e r)" entries_select_all ?req length valid v 0]
    unfolding iovpool_select_sequence_def seq_fold cs [symmetric] by blast
  let ?m = "foldl (\<lambda>m c. fst (map_emplace (hash_in s c) c m)) [] ?cs"
  obtain n' where n': "iovpool_select_map s ip req [] v = Inr (aged s ?es ?req, ?m, ?w, n')"
    using select_map_spec [OF assms(1,2), of req v] unfolding matching_elements_def by blast
  have sel: "iovpool_select s ip key req valid = Inr (valid @ filter (\<lambda>c. hash_in s c = key) ?cs)" for key
  proof -
    have "concat (List.map (\<lambda>(k, p). filter (\<lambda>c. hash_in s c = key) (pool_conds s p)) xs) =
        filter (\<lambda>c. hash_in s c = key) (concat (List.map (\<lambda>(k, p). pool_conds s p) xs))" for xs
      by (induction xs) auto
    then show ?thesis using select_in_live [OF assms(1)] cs by (simp add: iovpool_select_def)
  qed
  have "key_contains_range (iov_keyData ?w) ?req" using assms(3) by simp (rule matching_validity, auto)
  moreover have "span (iov_keyData ?w) = span (iov_keyData v) \<inter> (\<Inter>(k, p) \<in> set ?M. span k)"
    by (auto simp: span_fold_intersection)
  moreover have "map_of ?m key = find (\<lambda>c. hash_in s c = key) ?cs" for key by (simp add: select_map_find)
  ultimately show ?thesis
    using n n' sel select_map_ok [of "[]" "hash_in s" ?cs] unfolding matching_elements_def Let_def by auto
qed

definition two_pools :: CondState where
  "two_pools = \<lparr>cs_next = 20,
     cs_cond = [10 \<mapsto> \<lparr>co_value = ''a'', co_iov = 1, co_hash = 77, co_flags = 1\<rparr>,
                11 \<mapsto> \<lparr>co_value = ''b'', co_iov = 2, co_hash = 78, co_flags = 1\<rparr>,
                12 \<mapsto> \<lparr>co_value = ''c'', co_iov = 2, co_hash = 77, co_flags = 1\<rparr>],
     cs_iov = [1 \<mapsto> IOV_with_key None (Key 1 9), 2 \<mapsto> IOV_with_key None (Key 5 20)],
     cs_pool = [3 \<mapsto> \<lparr>cp_entries = LinearPool [10], cp_iov = 1, cp_age = 4\<rparr>,
                4 \<mapsto> \<lparr>cp_entries = LinearPool [11, 12], cp_iov = 2, cp_age = 4\<rparr>],
     cs_held = [], cm_iovTypes = [], cm_rawPool = [], cm_updates = [], cm_newPool = LinearPool [], cm_doLoad = True,
     cm_doOutputUnloaded = False, cm_onRegister = [], cm_onRemove = [], cm_calls = []\<rparr>"

definition two_elements :: ConditionsIOVPool where
  "two_elements = \<lparr>ip_elements = [(Key 1 9, 3), (Key 5 20, 4)], ip_type = 0\<rparr>"

lemma two_pools_live: "\<forall>(k, p) \<in> set (ip_elements two_elements). pool_live two_pools p"
  "distinct (List.map snd (ip_elements two_elements))"
  by (simp_all add: two_elements_def two_pools_def pool_live_def pool_conds_def live_in_def)

theorem pool_selection_witness:
  "iovpool_select two_pools two_elements 77 (IOV_discrete None 6) [] = Inr [10, 12] \<and>
   iovpool_select two_pools two_elements 77 (IOV_discrete None 15) [] = Inr [12]"
proof -
  have r: "key_contains_range (iov_keyData (iov_forever None)) (iov_keyData req)" for req
    by (simp add: iov_forever_def IOV_with_key_def forever_contains)
  have e: "iovpool_select two_pools two_elements 77 req [] = Inr ([] @ filter (\<lambda>c. hash_in two_pools c = 77)
      (concat (List.map (pool_conds two_pools \<circ> snd) (matching_elements two_elements req))))" for req
    using pool_selection [OF two_pools_live r, of req "[]"] unfolding Let_def by blast
  show ?thesis
    unfolding e by (simp add: two_elements_def two_pools_def pool_conds_def matching_elements_def key_contains_range_def
        IOV_discrete_def IOV_with_key_def hash_in_def)
qed

text \<open>The two selections of pools that report a validity always report the empty interval \<open>(MAX, MIN)\<close>,
  whatever they select: the neutral interval is prepared with \<open>invert().reset()\<close>, the other
  way round than everywhere else. The pools themselves are selected correctly.\<close>

theorem pool_validity_lost:
  assumes "iov_iovType v \<noteq> None"
  shows "(iovpool_vector_validity s ip req valid v = Inr (ps, w, n) \<longrightarrow>
      iov_keyData w = Key MAX_KEY MIN_KEY \<and> span (iov_keyData w) = {} \<and> ps = valid @ List.map snd (matching_elements ip req)) \<and>
    (iovpool_elements_validity s ip req els v = Inr (els', w, n) \<longrightarrow> iov_keyData w = Key MAX_KEY MIN_KEY)"
proof -
  have "span (Key MAX_KEY MIN_KEY) = {}" by (simp add: span_def)
  then show ?thesis
    using pool_validity_reset [OF assms]
    by (auto simp: iovpool_vector_validity_def iovpool_elements_validity_def iovpool_vector_def bindE_Inr_iff
        split: prod.splits)
qed

theorem pool_validity_lost_witness:
  "\<exists>w. iovpool_vector_validity two_pools two_elements (IOV_discrete None 6) [] (IOV_new (Some IOVType_default)) = Inr ([3, 4], w, 2) \<and>
     span (iov_keyData w) = {}"
proof -
  let ?v = "IOV_new (Some IOVType_default)"
  have t: "iov_iovType ?v \<noteq> None" by (simp add: IOV_new_def IOV_with_key_def)
  obtain w where w: "iovpool_vector_validity two_pools two_elements (IOV_discrete None 6) [] ?v = Inr ([3, 4], w, 2)"
    by (simp add: iovpool_vector_validity_def iovpool_vector_def two_elements_def two_pools_def matching_elements_def
        key_contains_range_def IOV_discrete_def IOV_with_key_def pool_validity_def pool_get_def iov_get_def)
  show ?thesis using pool_validity_lost [OF t] w by blast
qed

end
