(* ===== verification/ConditionsManager.thy ===== *)
theory ConditionsManager
  imports ConditionsPool CxxString
begin

text \<open>
  The conditions manager: \<open>src/DDCond/src/Type1/Manager_Type1.cpp\<close>, the generic part
  \<open>src/DDCond/src/ConditionsManager.cpp\<close> and the cleanup policies of \<open>ConditionsCleanup.cpp\<close>.

  Types of intervals are referred to by their index in the manager's table; the listeners that a
  registration calls are recorded in \<open>cm_calls\<close>. The plugin that creates a pool is represented by
  the empty pool it returns, \<open>cm_newPool\<close>. Locks are not modelled: every operation is one step.
\<close>

definition mgr_error :: "string \<Rightarrow> cpp_error" where
  "mgr_error m = RuntimeError (''ConditionsMgr: '' @ m)"

definition Manager_new :: "Entries \<Rightarrow> nat \<Rightarrow> CondState" where
  "Manager_new newPool maxTypes = \<lparr>cs_next = 1, cs_cond = Map.empty, cs_iov = Map.empty, cs_pool = Map.empty,
     cs_held = [], cm_iovTypes = replicate maxTypes IOVType_default, cm_rawPool = replicate maxTypes None,
     cm_updates = [], cm_newPool = newPool, cm_doLoad = True, cm_doOutputUnloaded = False,
     cm_onRegister = [], cm_onRemove = [], cm_calls = []\<rparr>"

subsection \<open>Types of intervals\<close>

definition raw_pool :: "CondState \<Rightarrow> nat \<Rightarrow> ConditionsIOVPool option cpp" where
  "raw_pool s i = (if i < length (cm_rawPool s) then Inr (cm_rawPool s ! i)
     else Inl (UndefinedBehaviour ''vector index''))"

definition raw_pool_put :: "CondState \<Rightarrow> nat \<Rightarrow> ConditionsIOVPool \<Rightarrow> CondState" where
  "raw_pool_put s i ip = s\<lparr>cm_rawPool := (cm_rawPool s)[i := Some ip]\<rparr>"

definition registerIOVType :: "CondState \<Rightarrow> nat \<Rightarrow> string \<Rightarrow> (CondState \<times> bool \<times> nat) cpp" where
  "registerIOVType s iov_index iov_name =
     (if iov_index < length (cm_iovTypes s) then
        let t = cm_iovTypes s ! iov_index;
            eq_type = (unat (iovt_type t) = iov_index);
            eq_name = (iovt_name t = iov_name)
        in if eq_type \<and> eq_name then Inr (s, False, iov_index)
           else if iovt_type t \<noteq> 0 \<and> eq_type \<and> \<not> eq_name
             then Inl (mgr_error ''Cannot register IOV. Type already in use!'')
           else bindE (raw_pool s iov_index) (\<lambda>_.
             Inr (raw_pool_put (s\<lparr>cm_iovTypes := (cm_iovTypes s)[iov_index :=
                    \<lparr>iovt_type = of_nat iov_index, iovt_name = iov_name\<rparr>]\<rparr>)
                  iov_index \<lparr>ip_elements = [], ip_type = iov_index\<rparr>, True, iov_index))
      else Inl (mgr_error ''Cannot register IOV section. Value out of bounds''))"

definition iovType_at :: "CondState \<Rightarrow> nat \<Rightarrow> IOVType cpp" where
  "iovType_at s iov_index =
     (if iov_index < length (cm_iovTypes s) \<and> unat (iovt_type (cm_iovTypes s ! iov_index)) = iov_index
      then Inr (cm_iovTypes s ! iov_index)
      else Inl (mgr_error ''Request to access an unregistered IOV type''))"

definition iovType_named :: "CondState \<Rightarrow> string \<Rightarrow> IOVType cpp" where
  "iovType_named s iov_name = (case find (\<lambda>t. iovt_name t = iov_name) (cm_iovTypes s) of
       Some t \<Rightarrow> Inr t
     | None \<Rightarrow> Inl (mgr_error ''Request to access an unregistered IOV type''))"

definition iovTypesUsed :: "CondState \<Rightarrow> IOVType list" where
  "iovTypesUsed s = filter (\<lambda>t. iovt_type t \<noteq> UNKNOWN_IOV) (cm_iovTypes s)"

definition iovPool :: "CondState \<Rightarrow> IOVType \<Rightarrow> ConditionsIOVPool option cpp" where
  "iovPool s t = raw_pool s (unat (iovt_type t))"

text \<open>\<open>check_iov_type\<close>: the type of an interval, where it is registered and has a pool; None is the null pointer.\<close>

definition check_iov_type :: "CondState \<Rightarrow> IOV \<Rightarrow> IOVType option cpp" where
  "check_iov_type s v =
     bindE (case iov_iovType v of Some t \<Rightarrow> Inr t | None \<Rightarrow> iovType_at s (unat (iov_type v))) (\<lambda>t.
       Inr (if iov_type v = iovt_type t \<and> unat (iovt_type t) < length (cm_rawPool s) \<and>
               cm_rawPool s ! unat (iovt_type t) \<noteq> None
            then Some t else None))"

definition check_iov_type_discrete :: "CondState \<Rightarrow> IOV \<Rightarrow> IOVType option cpp" where
  "check_iov_type_discrete s v = bindE (check_iov_type s v) (\<lambda>t.
     Inr (if t \<noteq> None \<and> \<not> has_range v then t else None))"

subsection \<open>Registration\<close>

text \<open>
  \<open>registerIOV\<close>: the pool of a key, created on first use. The linear pool keeps the interval it is
  created with; the mapped pool is constructed without it (\<open>BASE(mgr,0)\<close>).
\<close>

definition pool_new :: "Entries \<Rightarrow> nat \<Rightarrow> ConditionsPool" where
  "pool_new kind iov = \<lparr>cp_entries = entries_empty kind,
     cp_iov = (case kind of LinearPool _ \<Rightarrow> iov | MappedPool _ \<Rightarrow> 0), cp_age = 0\<rparr>"

definition registerIOV :: "CondState \<Rightarrow> IOVType \<Rightarrow> Key \<Rightarrow> (CondState \<times> nat) cpp" where
  "registerIOV s t key = bindE (raw_pool s (unat (iovt_type t))) (\<lambda>pool.
     let ip = (case pool of Some ip \<Rightarrow> ip | None \<Rightarrow> \<lparr>ip_elements = [], ip_type = unat (iovt_type t)\<rparr>)
     in case map_of (ip_elements ip) key of
          Some p \<Rightarrow> Inr (raw_pool_put s (unat (iovt_type t)) ip, p)
        | None \<Rightarrow>
            let iov = cs_next s; p = Suc iov;
                s1 = s\<lparr>cs_next := Suc p,
                       cs_iov := (cs_iov s)(iov \<mapsto> iov_set_key (IOV_new (Some t)) key),
                       cs_pool := (cs_pool s)(p \<mapsto> pool_new (cm_newPool s) iov)\<rparr>
            in Inr (raw_pool_put s1 (unat (iovt_type t)) (ip\<lparr>ip_elements := map_assign key p (ip_elements ip)\<rparr>), p))"

text \<open>
  \<open>registerUnlocked\<close>: the condition takes the interval of the pool and becomes active. The debug
  output evaluates \<open>pool.iov->str()\<close>, whatever the output level. What \<open>insert\<close> returns is ignored.
\<close>

definition adopt_condition :: "CondState \<Rightarrow> ConditionsPool \<Rightarrow> cond \<Rightarrow> CondState cpp" where
  "adopt_condition s q c = bindE (cond_get s c) (\<lambda>ob.
     Inr (cond_put s c (ob\<lparr>co_iov := cp_iov q, co_flags := co_flags ob OR cond_ACTIVE\<rparr>)))"

definition registerUnlocked :: "CondState \<Rightarrow> nat \<Rightarrow> cond \<Rightarrow> (CondState \<times> bool) cpp" where
  "registerUnlocked s p c =
     (if c = 0 then Inl (mgr_error ''+++ Invalid condition objects may not be registered.'')
      else bindE (pool_get s p) (\<lambda>q. bindE (adopt_condition s q c) (\<lambda>s1.
        bindE (pool_insert s1 p c) (\<lambda>(s2, _). bindE (iov_get s2 (cp_iov q)) (\<lambda>_.
          Inr (call_listeners (cm_onRegister s2) s2 c, True))))))"

definition block_step :: "nat \<Rightarrow> CondState \<times> nat \<Rightarrow> cond \<Rightarrow> (CondState \<times> nat) cpp" where
  "block_step p = (\<lambda>(s, result) c.
     if c = 0 then Inl (mgr_error ''+++ Invalid condition objects may not be registered.'')
     else bindE (pool_get s p) (\<lambda>q. bindE (adopt_condition s q c) (\<lambda>s1.
       bindE (pool_insert s1 p c) (\<lambda>(s2, _). Inr (call_listeners (cm_onRegister s2) s2 c, result + 1)))))"

definition blockRegister :: "CondState \<Rightarrow> nat \<Rightarrow> cond list \<Rightarrow> (CondState \<times> nat) cpp" where
  "blockRegister s p cs = foldE (block_step p) (s, 0) cs"

text \<open>\<open>ConditionsManager::registerIOV(const IOV&)\<close>\<close>

definition registerIOV_of :: "CondState \<Rightarrow> IOV \<Rightarrow> (CondState \<times> nat) cpp" where
  "registerIOV_of s v = (case iov_iovType v of
       Some t \<Rightarrow> registerIOV s t (iov_keyData v)
     | None \<Rightarrow> Inl (RuntimeError ''ConditionsManager: +++ Attempt to register invalid IOV [FAILED]''))"

subsection \<open>Intervals from text\<close>

text \<open>
  \<open>sscanf\<close> with \<open>%ld\<close>: white space, an optional sign and at least one digit, saturating like
  \<open>strtol\<close>; None when nothing can be converted. The result is the value and the rest.
\<close>

definition scan_digits :: "string \<Rightarrow> (nat \<times> string) option" where
  "scan_digits s = (if s \<noteq> [] \<and> isdigit (hd s) then Some (read_digits 0 s, dropWhile isdigit s) else None)"

definition scan_long :: "string \<Rightarrow> (int \<times> string) option" where
  "scan_long s = (case dropWhile isspace s of
       [] \<Rightarrow> None
     | c # cs \<Rightarrow>
         if c = CHR ''-'' then map_option (\<lambda>(n, r). (clamp_long (- int n), r)) (scan_digits cs)
         else if c = CHR ''+'' then map_option (\<lambda>(n, r). (clamp_long (int n), r)) (scan_digits cs)
         else map_option (\<lambda>(n, r). (clamp_long (int n), r)) (scan_digits (c # cs)))"

text \<open>\<open>sscanf(data, "%ld,%ld#", ...) == 2\<close> and \<open>sscanf(data, "%ld#", ...) == 1\<close>: the final \<open>#\<close> does not count.\<close>

definition scan_range :: "string \<Rightarrow> Key option" where
  "scan_range s = (case scan_long s of
       None \<Rightarrow> None
     | Some (k1, r) \<Rightarrow> (case r of [] \<Rightarrow> None | c # cs \<Rightarrow>
         if c = CHR '','' then map_option (\<lambda>(k2, _). Key (word_of_int k1) (word_of_int k2)) (scan_long cs) else None))"

definition scan_single :: "string \<Rightarrow> Key option" where
  "scan_single s = map_option (\<lambda>(k1, _). Key (word_of_int k1) (word_of_int k1)) (scan_long s)"

definition iov_fromString :: "CondState \<Rightarrow> string \<Rightarrow> IOV \<Rightarrow> IOV cpp" where
  "iov_fromString s dat v = (case find_char (CHR ''#'') 0 dat of
       None \<Rightarrow> Inl (RuntimeError ''ConditionsManager: +++ Unknown IOV string representation'')
     | Some id2 \<Rightarrow>
         bindE (substr_from dat (id2 + 1)) (\<lambda>iov_name.
           case (if find_char (CHR '','') 0 dat \<noteq> None then scan_range dat else scan_single dat) of
             None \<Rightarrow> Inl (RuntimeError ''ConditionsManager: +++ Failed to read keys from IOV string representation'')
           | Some key \<Rightarrow> bindE (iovType_named s iov_name) (\<lambda>t.
               Inr (iov_set_key (v\<lparr>iov_type := iovt_type t, iov_iovType := Some t\<rparr>) key))))"

definition registerIOV_string :: "CondState \<Rightarrow> string \<Rightarrow> (CondState \<times> nat) cpp" where
  "registerIOV_string s dat = bindE (iov_fromString s dat (IOV_new None)) (\<lambda>v. registerIOV_of s v)"

subsection \<open>Selection\<close>

definition update_range :: "CondState \<Rightarrow> u64 \<Rightarrow> IOV \<Rightarrow> cond list \<Rightarrow> cond list cpp" where
  "update_range s key req result = update_select_range s key req (cm_updates s) result"

definition typed_pool :: "CondState \<Rightarrow> IOV \<Rightarrow> ConditionsIOVPool cpp" where
  "typed_pool s req = bindE (raw_pool s (unat (iov_type req))) (\<lambda>p. case p of
       Some ip \<Rightarrow> Inr ip | None \<Rightarrow> Inl bad_pointer)"

definition mgr_select :: "CondState \<Rightarrow> u64 \<Rightarrow> IOV \<Rightarrow> cond list \<Rightarrow> (cond list \<times> bool) cpp" where
  "mgr_select s key req conditions = bindE (typed_pool s req) (\<lambda>ip.
     bindE (iovpool_select s ip key req conditions) (\<lambda>r1.
       bindE (update_range s key req r1) (\<lambda>r2. Inr (r2, r2 \<noteq> []))))"

text \<open>
  \<open>is_range_complete\<close>: the covered part grows from both ends of the requested range, at most as
  many passes as there are conditions; a pass that moved nothing gives up. The sums wrap around at the largest key, where the overflow of the signed
  numbers of the code is undefined; \<open>range_complete_spec\<close> leaves intervals that reach it out.
\<close>

definition widen :: "Key \<Rightarrow> Key \<Rightarrow> Key" where
  "widen k test =
     (let f = (if sint (key_first k) \<le> sint (key_first test + 1) \<and> sint (key_first test) \<le> sint (key_second k)
               then key_second k else key_first test);
          l = (if sint (key_first k + 1) \<le> sint (key_second test) \<and> sint (key_second test) \<le> sint (key_second k)
               then key_first k else key_second test)
      in Key f l)"

fun range_pass :: "Key list \<Rightarrow> Key \<Rightarrow> Key \<times> bool" where
  "range_pass [] test = (test, False)"
| "range_pass (k # ks) test =
     (let test1 = widen k test
      in if sint (key_second test1) \<le> sint (key_first test1) then (test1, True) else range_pass ks test1)"

fun range_loop :: "nat \<Rightarrow> Key \<Rightarrow> Key list \<Rightarrow> Key \<Rightarrow> bool" where
  "range_loop 0 req ks test = False"
| "range_loop (Suc n) req ks test =
     (case range_pass ks test of (test1, done) \<Rightarrow>
        if done then True
        else if sint (key_first test1) \<le> sint (key_first req) \<and> sint (key_second req) \<le> sint (key_second test1) then False
        else range_loop n req ks test1)"

definition is_range_complete :: "Key \<Rightarrow> Key list \<Rightarrow> bool" where
  "is_range_complete req ks = range_loop (length ks) req ks req"

fun cond_keys :: "CondState \<Rightarrow> cond list \<Rightarrow> Key list cpp" where
  "cond_keys s [] = Inr []"
| "cond_keys s (c # cs) = bindE (cond_access s c) (\<lambda>ob. bindE (iov_get s (co_iov ob)) (\<lambda>v.
     bindE (cond_keys s cs) (\<lambda>ks. Inr (iov_keyData v # ks))))"

definition mgr_select_range :: "CondState \<Rightarrow> u64 \<Rightarrow> IOV \<Rightarrow> cond list \<Rightarrow> (cond list \<times> bool) cpp" where
  "mgr_select_range s key req conditions = bindE (typed_pool s req) (\<lambda>ip.
     bindE (iovpool_selectRange s ip key req conditions) (\<lambda>r1.
       bindE (update_range s key req r1) (\<lambda>r2. bindE (cond_keys s r2) (\<lambda>ks.
         Inr (r2, is_range_complete (iov_keyData req) ks)))))"

subsection \<open>Updates and cleaning\<close>

text \<open>\<open>pushUpdates\<close> refuses every pending update: the code that would insert it is commented out.\<close>

definition pushUpdates :: "CondState \<Rightarrow> CondState cpp" where
  "pushUpdates s = bindE (popEntries s []) (\<lambda>(s1, entries).
     case List.concat (List.map snd entries) of
       [] \<Rightarrow> Inr s1
     | c # _ \<Rightarrow> bindE (cond_access s1 c) (\<lambda>_.
         Inl (mgr_error ''+++ We should never end up here. FIXME!!!!'')))"

definition mgr_clean_age :: "CondState \<Rightarrow> IOVType \<Rightarrow> i32 \<Rightarrow> (CondState \<times> nat) cpp" where
  "mgr_clean_age s t max_age = bindE (raw_pool s (unat (iovt_type t))) (\<lambda>p. case p of
       None \<Rightarrow> Inr (s, 0)
     | Some ip \<Rightarrow> bindE (iovpool_clean s ip max_age) (\<lambda>(s1, ip1, n).
         Inr (raw_pool_put s1 (unat (iovt_type t)) ip1, n)))"

text \<open>A cleanup policy decides on the pool of a type and on each pool in it.\<close>

record ConditionsCleanup =
  clean_iovpool :: "ConditionsIOVPool \<Rightarrow> bool"
  clean_pool :: "ConditionsPool \<Rightarrow> bool"

definition default_cleanup :: ConditionsCleanup where
  "default_cleanup = \<lparr>clean_iovpool = (\<lambda>_. False), clean_pool = (\<lambda>_. True)\<rparr>"

definition full_cleanup :: ConditionsCleanup where
  "full_cleanup = \<lparr>clean_iovpool = (\<lambda>_. True), clean_pool = (\<lambda>_. True)\<rparr>"

text \<open>One pass over the pools of all types; \<open>accept\<close> picks the types, \<open>cleaner\<close> the pools.\<close>

fun clean_types :: "(ConditionsIOVPool \<Rightarrow> bool) \<Rightarrow> (ConditionsPool \<Rightarrow> bool) \<Rightarrow> CondState \<Rightarrow> nat list \<Rightarrow> nat \<times> nat \<Rightarrow>
    (CondState \<times> nat \<times> nat) cpp" where
  "clean_types accept cleaner s [] (n, m) = Inr (s, n, m)"
| "clean_types accept cleaner s (i # is) (n, m) = bindE (raw_pool s i) (\<lambda>p. case p of
       None \<Rightarrow> clean_types accept cleaner s is (n, m)
     | Some ip \<Rightarrow>
         if accept ip then
           bindE (iovpool_clean_by s ip cleaner) (\<lambda>(s1, ip1, k).
             clean_types accept cleaner (raw_pool_put s1 i ip1) is (n + 1, m + k))
         else clean_types accept cleaner s is (n, m))"

definition mgr_clean :: "CondState \<Rightarrow> ConditionsCleanup \<Rightarrow> (CondState \<times> nat \<times> nat) cpp" where
  "mgr_clean s cl = clean_types (clean_iovpool cl) (clean_pool cl) s [0..<length (cm_rawPool s)] (0, 0)"

definition mgr_clear :: "CondState \<Rightarrow> (CondState \<times> nat \<times> nat) cpp" where
  "mgr_clear s = clean_types (\<lambda>_. True) (\<lambda>q. 0 \<le> sint (cp_age q)) s [0..<length (cm_rawPool s)] (0, 0)"

subsection \<open>Listeners\<close>

text \<open>\<open>registerCallee\<close>: a set of listeners, ordered.\<close>

definition registerCallee :: "nat list \<Rightarrow> nat \<Rightarrow> bool \<Rightarrow> nat list" where
  "registerCallee listeners callee add = (if add then insort_insert callee listeners else remove1 callee listeners)"

definition callOnRegister :: "CondState \<Rightarrow> nat \<Rightarrow> bool \<Rightarrow> CondState" where
  "callOnRegister s callee add = s\<lparr>cm_onRegister := registerCallee (cm_onRegister s) callee add\<rparr>"

definition callOnRemove :: "CondState \<Rightarrow> nat \<Rightarrow> bool \<Rightarrow> CondState" where
  "callOnRemove s callee add = s\<lparr>cm_onRemove := registerCallee (cm_onRemove s) callee add\<rparr>"

section \<open>The invariant of the manager\<close>

definition pool_at :: "CondState \<Rightarrow> nat \<Rightarrow> Key \<Rightarrow> nat \<Rightarrow> bool" where
  "pool_at s i k p \<longleftrightarrow> i < length (cm_rawPool s) \<and> (\<exists>ip. cm_rawPool s ! i = Some ip \<and> (k, p) \<in> set (ip_elements ip))"

text \<open>
  Every existing pool holds distinct live conditions, no condition is in two pools; every entry of
  a table of pools points to its own existing pool, whose interval is the key of the entry (a
  mapped pool has none).
\<close>

definition pools_ok :: "CondState \<Rightarrow> bool" where
  "pools_ok s \<longleftrightarrow>
     (\<forall>p q. cs_pool s p = Some q \<longrightarrow> pool_live s p \<and> distinct (pool_conds s p) \<and> entries_ok s (cp_entries q)) \<and>
     (\<forall>p p'. cs_pool s p \<noteq> None \<longrightarrow> cs_pool s p' \<noteq> None \<longrightarrow> p \<noteq> p' \<longrightarrow>
        set (pool_conds s p) \<inter> set (pool_conds s p') = {})"

definition iov_ok :: "CondState \<Rightarrow> Key \<Rightarrow> ConditionsPool \<Rightarrow> bool" where
  "iov_ok s k q \<longleftrightarrow> (case cp_entries q of
       LinearPool _ \<Rightarrow> cp_iov q \<noteq> 0 \<and> (\<exists>v. cs_iov s (cp_iov q) = Some v \<and> iov_keyData v = k)
     | MappedPool _ \<Rightarrow> cp_iov q = 0)"

definition elements_ok :: "CondState \<Rightarrow> bool" where
  "elements_ok s \<longleftrightarrow>
     (\<forall>i k p. pool_at s i k p \<longrightarrow> (\<exists>q. cs_pool s p = Some q \<and> iov_ok s k q)) \<and>
     (\<forall>i j k l p. pool_at s i k p \<longrightarrow> pool_at s j l p \<longrightarrow> i = j \<and> k = l) \<and>
     (\<forall>ip. Some ip \<in> set (cm_rawPool s) \<longrightarrow> map_ok (ip_elements ip))"

definition fresh_ok :: "CondState \<Rightarrow> bool" where
  "fresh_ok s \<longleftrightarrow> 0 < cs_next s \<and> length (cm_rawPool s) = length (cm_iovTypes s) \<and>
     (\<forall>a \<ge> cs_next s. cs_cond s a = None \<and> cs_iov s a = None \<and> cs_pool s a = None)"

definition mgr_ok :: "CondState \<Rightarrow> bool" where
  "mgr_ok s \<longleftrightarrow> pools_ok s \<and> elements_ok s \<and> fresh_ok s"

definition registered :: "CondState \<Rightarrow> cond \<Rightarrow> bool" where
  "registered s c \<longleftrightarrow> (\<exists>p. cs_pool s p \<noteq> None \<and> c \<in> set (pool_conds s p))"

lemma pools_okD:
  assumes "pools_ok s" and "cs_pool s p = Some q"
  shows "pool_live s p" "distinct (pool_conds s p)" "entries_ok s (cp_entries q)"
  using assms by (simp_all add: pools_ok_def)

lemma pools_ok_disjoint:
  "\<lbrakk>pools_ok s; cs_pool s p = Some q; cs_pool s p' = Some q'; p \<noteq> p'\<rbrakk> \<Longrightarrow>
     set (pool_conds s p) \<inter> set (pool_conds s p') = {}"
  by (simp add: pools_ok_def)

lemma pools_okI:
  assumes "\<And>p q. cs_pool s p = Some q \<Longrightarrow> pool_live s p \<and> distinct (pool_conds s p) \<and> entries_ok s (cp_entries q)"
    and "\<And>p p' q q'. \<lbrakk>cs_pool s p = Some q; cs_pool s p' = Some q'; p \<noteq> p'\<rbrakk> \<Longrightarrow>
      set (pool_conds s p) \<inter> set (pool_conds s p') = {}"
  shows "pools_ok s"
  unfolding pools_ok_def using assms by blast

lemma elements_okD:
  assumes "elements_ok s"
  shows "pool_at s i k p \<Longrightarrow> \<exists>q. cs_pool s p = Some q \<and> iov_ok s k q"
    and "\<lbrakk>pool_at s i k p; pool_at s j l p\<rbrakk> \<Longrightarrow> i = j \<and> k = l"
    and "Some ip \<in> set (cm_rawPool s) \<Longrightarrow> map_ok (ip_elements ip)"
  using assms unfolding elements_ok_def by blast+

lemma elements_okI:
  assumes "\<And>i k p. pool_at s i k p \<Longrightarrow> \<exists>q. cs_pool s p = Some q \<and> iov_ok s k q"
    and "\<And>i j k l p. \<lbrakk>pool_at s i k p; pool_at s j l p\<rbrakk> \<Longrightarrow> i = j \<and> k = l"
    and "\<And>ip. Some ip \<in> set (cm_rawPool s) \<Longrightarrow> map_ok (ip_elements ip)"
  shows "elements_ok s"
  unfolding elements_ok_def using assms by blast

lemma mgr_ok_new: "mgr_ok (Manager_new kind n)"
  by (auto simp: mgr_ok_def pools_ok_def elements_ok_def fresh_ok_def pool_at_def Manager_new_def)

lemma mgr_ok_elements:
  assumes "mgr_ok s" and "i < length (cm_rawPool s)" and "cm_rawPool s ! i = Some ip"
  shows "\<forall>(k, p) \<in> set (ip_elements ip). pool_live s p" and "distinct (List.map snd (ip_elements ip))"
    and "map_ok (ip_elements ip)"
proof -
  have el: "elements_ok s" and po: "pools_ok s" using assms(1) by (auto simp: mgr_ok_def)
  have at: "pool_at s i k p" if "(k, p) \<in> set (ip_elements ip)" for k p
    using that assms(2,3) by (auto simp: pool_at_def)
  have live: "pool_live s p" if "(k, p) \<in> set (ip_elements ip)" for k p
    using elements_okD(1) [OF el at [OF that]] pools_okD(1) [OF po] by blast
  then show "\<forall>(k, p) \<in> set (ip_elements ip). pool_live s p" by blast
  have "Some ip \<in> set (cm_rawPool s)" using assms(2,3) nth_mem by fastforce
  then show m: "map_ok (ip_elements ip)" by (rule elements_okD(3) [OF el])
  have "inj_on snd (set (ip_elements ip))"
  proof (rule inj_onI)
    fix x y assume x: "x \<in> set (ip_elements ip)" and y: "y \<in> set (ip_elements ip)" and e: "snd x = snd y"
    have "pool_at s i (fst x) (snd x)" using x by (intro at) simp
    moreover have "pool_at s i (fst y) (snd x)" using y unfolding e by (intro at) simp
    ultimately have "fst x = fst y" using elements_okD(2) [OF el] by blast
    then show "x = y" using e by (simp add: prod_eq_iff)
  qed
  moreover have "distinct (ip_elements ip)" using map_ok_distinct [OF m] by (simp add: distinct_map)
  ultimately show "distinct (List.map snd (ip_elements ip))" by (simp add: distinct_map)
qed

lemma find_rawPool:
  assumes "raw_pool s i = Inr x"
  shows "i < length (cm_rawPool s)" "cm_rawPool s ! i = x"
  using assms by (auto simp: raw_pool_def split: if_splits)

lemma entries_ok_same: "cs_cond s' = cs_cond s \<Longrightarrow> entries_ok s' e = entries_ok s e"
  by (cases e) (simp_all add: hash_in_def)

lemma iov_ok_keep: "\<lbrakk>iov_ok s k q; \<And>a v. cs_iov s a = Some v \<Longrightarrow> cs_iov s' a = Some v\<rbrakk> \<Longrightarrow> iov_ok s' k q"
  by (auto simp: iov_ok_def split: Entries.splits)

lemma pools_ok_same: "\<lbrakk>cs_pool s' = cs_pool s; cs_cond s' = cs_cond s\<rbrakk> \<Longrightarrow> pools_ok s' = pools_ok s"
  using entries_ok_same [of s' s] by (simp add: pools_ok_def pool_live_def pool_conds_def live_in_def)

text \<open>A new entry in the table of intervals drops its pools from the table; they are not destroyed.\<close>

lemma mgr_ok_registerIOVType:
  assumes "mgr_ok s" and "registerIOVType s i nam = Inr (s', b, j)"
  shows "mgr_ok s'"
proof (cases "s' = s")
  case False
  have i: "i < length (cm_iovTypes s)"
    and s': "s' = raw_pool_put (s\<lparr>cm_iovTypes := (cm_iovTypes s)[i := \<lparr>iovt_type = of_nat i, iovt_name = nam\<rparr>]\<rparr>)
        i \<lparr>ip_elements = [], ip_type = i\<rparr>"
    using assms(2) False by (auto simp: registerIOVType_def Let_def bindE_Inr_iff split: if_splits)
  have at: "pool_at s' m k p \<Longrightarrow> pool_at s m k p" for m k p
    unfolding s' by (cases "m = i") (auto simp: pool_at_def raw_pool_put_def nth_list_update)
  have raw: "Some ip \<in> set (cm_rawPool s') \<Longrightarrow> Some ip \<in> set (cm_rawPool s) \<or> ip_elements ip = []" for ip
    unfolding s' raw_pool_put_def using set_update_subset_insert [of "cm_rawPool s" i] by fastforce
  have el: "elements_ok s" and po: "pools_ok s" and fr: "fresh_ok s" using assms(1) by (auto simp: mgr_ok_def)
  have same: "cs_pool s' = cs_pool s" "cs_cond s' = cs_cond s" "cs_iov s' = cs_iov s" "cs_next s' = cs_next s"
    unfolding s' raw_pool_put_def by simp_all
  have "pools_ok s'"
    using po pools_ok_same [OF same(1,2)] by simp
  moreover have "elements_ok s'"
  proof (rule elements_okI)
    show "\<exists>q. cs_pool s' p = Some q \<and> iov_ok s' k q" if "pool_at s' m k p" for m k p
      using elements_okD(1) [OF el at [OF that]] same iov_ok_keep [of s k _ s'] by force
    show "m = j \<and> k = l" if "pool_at s' m k p" "pool_at s' j l p" for m j k l p
      by (rule elements_okD(2) [OF el at [OF that(1)] at [OF that(2)]])
    show "map_ok (ip_elements ip)" if "Some ip \<in> set (cm_rawPool s')" for ip
      using raw [OF that] elements_okD(3) [OF el] by auto
  qed
  moreover have "fresh_ok s'" using fr same unfolding s' by (simp add: fresh_ok_def raw_pool_put_def)
  ultimately show ?thesis by (simp add: mgr_ok_def)
qed (use assms in simp)

text \<open>The pool of a key: found again, or created empty under the next address.\<close>

lemma registerIOV_cases:
  assumes "registerIOV s t key = Inr (s', p)"
  obtains (found) ip where "raw_pool s (unat (iovt_type t)) = Inr (Some ip)" "map_of (ip_elements ip) key = Some p" "s' = s"
  | (created) ip where "unat (iovt_type t) < length (cm_rawPool s)" "p = Suc (cs_next s)"
      "\<And>k q. pool_at s (unat (iovt_type t)) k q \<longleftrightarrow> (k, q) \<in> set (ip_elements ip)" "map_of (ip_elements ip) key = None"
      "ip_elements ip = [] \<or> Some ip \<in> set (cm_rawPool s)"
      "s' = raw_pool_put (s\<lparr>cs_next := Suc p, cs_iov := (cs_iov s)(cs_next s \<mapsto> iov_set_key (IOV_new (Some t)) key),
         cs_pool := (cs_pool s)(p \<mapsto> pool_new (cm_newPool s) (cs_next s))\<rparr>)
         (unat (iovt_type t)) (ip\<lparr>ip_elements := map_assign key p (ip_elements ip)\<rparr>)"
proof -
  obtain x where x: "raw_pool s (unat (iovt_type t)) = Inr x"
    using assms by (auto simp: registerIOV_def bindE_Inr_iff)
  note xi = find_rawPool [OF x]
  define ip where "ip = (case x of Some ip \<Rightarrow> ip | None \<Rightarrow> \<lparr>ip_elements = [], ip_type = unat (iovt_type t)\<rparr>)"
  show thesis
  proof (cases "map_of (ip_elements ip) key")
    case (Some p')
    then have "x = Some ip" unfolding ip_def by (auto split: option.splits)
    moreover have "raw_pool_put s (unat (iovt_type t)) ip = s"
      using xi calculation by (simp add: raw_pool_put_def list_update_same_conv)
    ultimately show thesis using found [of ip] assms x Some by (simp add: registerIOV_def ip_def)
  next
    case None
    have at: "pool_at s (unat (iovt_type t)) k q \<longleftrightarrow> (k, q) \<in> set (ip_elements ip)" for k q
      using xi by (auto simp: pool_at_def ip_def split: option.splits)
    have mem: "ip_elements ip = [] \<or> Some ip \<in> set (cm_rawPool s)"
      using xi nth_mem [OF xi(1)] by (auto simp: ip_def split: option.splits)
    show thesis
      by (rule created [of ip]) (use assms x xi(1) None at mem in \<open>auto simp: registerIOV_def ip_def Let_def\<close>)
  qed
qed

lemma mgr_ok_registerIOV:
  assumes "mgr_ok s" and "registerIOV s t key = Inr (s', p)"
  shows "mgr_ok s' \<and> (\<exists>ip. raw_pool s' (unat (iovt_type t)) = Inr (Some ip) \<and> map_of (ip_elements ip) key = Some p) \<and>
    pool_at s' (unat (iovt_type t)) key p \<and> cs_cond s' = cs_cond s \<and> cm_iovTypes s' = cm_iovTypes s \<and>
    cm_updates s' = cm_updates s \<and> (\<forall>c. registered s' c \<longleftrightarrow> registered s c)"
  using assms(2)
proof (cases rule: registerIOV_cases)
  case (found ip)
  have "pool_at s (unat (iovt_type t)) key p"
    using find_rawPool [OF found(1)] map_of_SomeD [OF found(2)] by (auto simp: pool_at_def)
  then show ?thesis using assms(1) found by auto
next
  case (created ip)
  note s' = created(6)
  let ?a = "cs_next s" and ?i = "unat (iovt_type t)"
  have el: "elements_ok s" and po: "pools_ok s" and fr: "fresh_ok s" using assms(1) by (auto simp: mgr_ok_def)
  have fresh: "cs_pool s p = None" "cs_iov s ?a = None" "0 < ?a" using fr created(2) by (auto simp: fresh_ok_def)
  have pool: "cs_pool s' = (cs_pool s)(p \<mapsto> pool_new (cm_newPool s) ?a)" "cs_cond s' = cs_cond s"
    "cs_iov s' = (cs_iov s)(?a \<mapsto> iov_set_key (IOV_new (Some t)) key)" "cs_next s' = Suc p"
    unfolding s' raw_pool_put_def by simp_all
  have new_conds: "pool_conds s' p = []" using pool by (cases "cm_newPool s") (simp_all add: pool_conds_def pool_new_def)
  have old_conds: "p' \<noteq> p \<Longrightarrow> pool_conds s' p' = pool_conds s p'" for p' using pool by (simp add: pool_conds_def)
  have old: "pool_live s p' \<Longrightarrow> p' \<noteq> p \<Longrightarrow> pool_live s' p'" for p'
    using pool old_conds by (simp add: pool_live_def live_in_def)
  have "pools_ok s'"
  proof (rule pools_okI)
    fix p' q assume q: "cs_pool s' p' = Some q"
    show "pool_live s' p' \<and> distinct (pool_conds s' p') \<and> entries_ok s' (cp_entries q)"
    proof (cases "p' = p")
      case True
      then have "q = pool_new (cm_newPool s) ?a" using q pool by simp
      then show ?thesis using True new_conds created(2) q by (cases "cm_newPool s") (simp_all add: pool_live_def pool_new_def)
    next
      case False
      then have "cs_pool s p' = Some q" using q pool by simp
      then show ?thesis using pools_okD [OF po] old False old_conds entries_ok_same [OF pool(2)] by simp
    qed
  next
    fix p1 p2 q1 q2 assume "cs_pool s' p1 = Some q1" "cs_pool s' p2 = Some q2" "p1 \<noteq> p2"
    then show "set (pool_conds s' p1) \<inter> set (pool_conds s' p2) = {}"
      using pools_ok_disjoint [OF po, of p1 q1 p2 q2] new_conds old_conds pool
      by (cases "p1 = p"; cases "p2 = p") simp_all
  qed
  moreover have at: "pool_at s' m k q \<longleftrightarrow> pool_at s m k q \<or> (m = ?i \<and> k = key \<and> q = p)" for m k q
  proof (cases "m = ?i")
    case True
    have "pool_at s' m k q \<longleftrightarrow> (k, q) \<in> set (map_assign key p (ip_elements ip))"
      unfolding s' using True created(1) by (simp add: pool_at_def raw_pool_put_def)
    moreover have "map_ok (ip_elements ip)" using created(5) elements_okD(3) [OF el] by auto
    then have "(k, q) \<in> set (map_assign key p (ip_elements ip)) \<longleftrightarrow> (k, q) \<in> set (ip_elements ip) \<or> (k = key \<and> q = p)"
      using created(4) by (auto simp: map_of_mem [symmetric])
    ultimately show ?thesis using True created(3) [of k q] by simp
  next
    case False
    then show ?thesis unfolding s' by (simp add: pool_at_def raw_pool_put_def)
  qed
  moreover have "elements_ok s'"
  proof (rule elements_okI)
    fix m k q assume a: "pool_at s' m k q"
    show "\<exists>r. cs_pool s' q = Some r \<and> iov_ok s' k r"
    proof (cases "pool_at s m k q")
      case True
      then obtain r where r: "cs_pool s q = Some r" "iov_ok s k r" using elements_okD(1) [OF el] by blast
      have "iov_ok s' k r" by (rule iov_ok_keep [OF r(2)]) (use pool fresh in auto)
      then show ?thesis using r fresh pool by auto
    next
      case False
      then have "k = key" "q = p" using a at by blast+
      then show ?thesis using pool fresh by (cases "cm_newPool s") (simp_all add: iov_ok_def pool_new_def iov_set_key_def)
    qed
  next
    fix m j k l q assume a: "pool_at s' m k q" "pool_at s' j l q"
    have "\<not> pool_at s i k p" for i k using elements_okD(1) [OF el, of i k p] fresh by auto
    then show "m = j \<and> k = l"
      using a elements_okD(2) [OF el, of m k q j l] unfolding at by metis
  next
    fix jp assume "Some jp \<in> set (cm_rawPool s')"
    then have "Some jp \<in> set (cm_rawPool s) \<or> jp = ip\<lparr>ip_elements := map_assign key p (ip_elements ip)\<rparr>"
      unfolding s' raw_pool_put_def using set_update_subset_insert [of "cm_rawPool s" ?i] by fastforce
    moreover have "map_ok (ip_elements ip)" using created(5) elements_okD(3) [OF el] by auto
    ultimately show "map_ok (ip_elements jp)" using elements_okD(3) [OF el] by auto
  qed
  moreover have "fresh_ok s'"
    using fr created(2) pool unfolding s' by (auto simp: fresh_ok_def raw_pool_put_def)
  moreover have "registered s' c \<longleftrightarrow> registered s c" for c
  proof -
    have "(cs_pool s' p' \<noteq> None \<and> c \<in> set (pool_conds s' p')) \<longleftrightarrow> (cs_pool s p' \<noteq> None \<and> c \<in> set (pool_conds s p'))" for p'
      using new_conds old_conds [of p'] pool fresh by (cases "p' = p") auto
    then show ?thesis unfolding registered_def by simp
  qed
  moreover have "raw_pool s' ?i = Inr (Some (ip\<lparr>ip_elements := map_assign key p (ip_elements ip)\<rparr>))"
    unfolding s' using created(1) by (simp add: raw_pool_def raw_pool_put_def)
  moreover have "cm_iovTypes s' = cm_iovTypes s" "cm_updates s' = cm_updates s" unfolding s' raw_pool_put_def by simp_all
  ultimately show ?thesis using pool(2) at [of ?i key p] by (simp add: mgr_ok_def)
qed

text \<open>Putting an unregistered condition into an existing pool.\<close>

lemma adopt_insert:
  assumes "mgr_ok s" and "live_in s c" and "\<not> registered s c" and "cs_pool s p = Some q"
  obtains s1 s2 e b where "pool_get s p = Inr q" "adopt_condition s q c = Inr s1" "pool_insert s1 p c = Inr (s2, b)"
    "entries_insert s (cp_entries q) c = Inr (e, b)"
    "s2 = s\<lparr>cs_cond := (cs_cond s)(c \<mapsto> (the (cs_cond s c))\<lparr>co_iov := cp_iov q,
        co_flags := co_flags (the (cs_cond s c)) OR cond_ACTIVE\<rparr>), cs_pool := (cs_pool s)(p \<mapsto> q\<lparr>cp_entries := e\<rparr>)\<rparr>"
    "mgr_ok s2"
    "set (pool_conds s2 p) = (if b then insert c (set (pool_conds s p)) else set (pool_conds s p))"
proof -
  have po: "pools_ok s" and el: "elements_ok s" and fr: "fresh_ok s" using assms(1) by (auto simp: mgr_ok_def)
  note q = pools_okD [OF po assms(4)]
  let ?ob = "(the (cs_cond s c))\<lparr>co_iov := cp_iov q, co_flags := co_flags (the (cs_cond s c)) OR cond_ACTIVE\<rparr>"
  let ?s1 = "s\<lparr>cs_cond := (cs_cond s)(c \<mapsto> ?ob)\<rparr>"
  have g: "pool_get s p = Inr q" using pool_live_get [OF q(1)] assms(4) by simp
  have a: "adopt_condition s q c = Inr ?s1" using live_get [OF assms(2)] by (simp add: adopt_condition_def cond_put_def)
  obtain e b where e: "entries_insert s (cp_entries q) c = Inr (e, b)" using entries_insert_live [OF assms(2)] by blast
  have l1: "live_in ?s1 d \<longleftrightarrow> live_in s d" "hash_in ?s1 d = hash_in s d" for d
    using assms(2) by (auto simp: live_in_def hash_in_def)
  have "entries_insert ?s1 (cp_entries q) c = Inr (e, b)"
    using e live_access [OF assms(2)] live_access [of ?s1 c] l1(1) [of c] assms(2)
    by (cases "cp_entries q") (simp_all split: prod.splits)
  let ?s2 = "?s1\<lparr>cs_pool := (cs_pool s)(p \<mapsto> q\<lparr>cp_entries := e\<rparr>)\<rparr>"
  have "pool_get ?s1 p = Inr q" using g by (simp add: pool_get_def)
  then have i: "pool_insert ?s1 p c = Inr (?s2, b)"
    using \<open>entries_insert ?s1 (cp_entries q) c = Inr (e, b)\<close> by (simp add: pool_insert_def pool_put_def)
  have pe: "projr (entries_insert s (cp_entries q) c) = (e, b)" using e by simp
  have eok: "entries_ok s e" by (rule ep.ins_ok [OF q(3) assms(2) pe])
  have old: "entry_conds (cp_entries q) = pool_conds s p" using assms(4) by (simp add: pool_conds_def)
  have set: "set (entry_conds e) = (if b then insert c (set (pool_conds s p)) else set (pool_conds s p))"
    using ep.ins_set [OF q(3) assms(2) pe] old by simp
  have notin: "cs_pool s p' = Some q' \<Longrightarrow> c \<notin> set (pool_conds s p')" for p' q'
    using assms(3) unfolding registered_def by (metis option.distinct(1))
  have dist: "distinct (entry_conds e)"
  proof (cases b)
    case True
    then have "mset (entry_conds e) = add_mset c (mset (pool_conds s p))"
      using ep.ins_added [OF q(3) assms(2)] pe old by simp
    then have "mset (entry_conds e) = mset (c # pool_conds s p)" by simp
    then show ?thesis using q(2) notin [OF assms(4)] mset_eq_imp_distinct_iff by fastforce
  next
    case False
    then show ?thesis using ep.ins_refused [OF q(3) assms(2)] pe old q(2) by simp
  qed
  have l2: "live_in ?s2 d \<longleftrightarrow> live_in s d" for d using l1(1) by (simp add: live_in_def)
  have pc: "pool_conds ?s2 p' = (if p' = p then entry_conds e else pool_conds s p')" for p' by (simp add: pool_conds_def)
  have eo: "entries_ok ?s2 x = entries_ok s x" for x using l1(2) by (cases x) (simp_all add: hash_in_def)
  have "pools_ok ?s2"
  proof (rule pools_okI)
    fix p' q' assume q': "cs_pool ?s2 p' = Some q'"
    show "pool_live ?s2 p' \<and> distinct (pool_conds ?s2 p') \<and> entries_ok ?s2 (cp_entries q')"
    proof (cases "p' = p")
      case True
      have "live_in s d" if "d \<in> set (entry_conds e)" for d
        using that set assms(2) q(1) by (auto simp: pool_live_def split: if_splits)
      then show ?thesis using True q' dist eok q(1) pc eo l2 by (auto simp: pool_live_def)
    next
      case False
      then have o: "cs_pool s p' = Some q'" using q' by simp
      show ?thesis using pools_okD [OF po o] False q' pc eo l2 by (auto simp: pool_live_def)
    qed
  next
    fix p1 p2 q1 q2 assume "cs_pool ?s2 p1 = Some q1" "cs_pool ?s2 p2 = Some q2" "p1 \<noteq> p2"
    then have "cs_pool s p1 \<noteq> None" "cs_pool s p2 \<noteq> None" using assms(4) by (auto split: if_splits)
    then obtain r1 r2 where r: "cs_pool s p1 = Some r1" "cs_pool s p2 = Some r2" by blast
    show "set (pool_conds ?s2 p1) \<inter> set (pool_conds ?s2 p2) = {}"
      using pools_ok_disjoint [OF po r \<open>p1 \<noteq> p2\<close>] notin [OF r(1)] notin [OF r(2)] pc set \<open>p1 \<noteq> p2\<close>
      by (auto split: if_splits)
  qed
  moreover have kind: "iov_ok ?s2 k (q\<lparr>cp_entries := e\<rparr>) = iov_ok s k q" for k
    using e live_access [OF assms(2)] by (cases "cp_entries q") (auto simp: iov_ok_def split: prod.splits)
  have other: "iov_ok ?s2 k r = iov_ok s k r" for k r by (cases "cp_entries r") (simp_all add: iov_ok_def)
  have "elements_ok ?s2"
  proof (rule elements_okI)
    show "\<exists>r. cs_pool ?s2 p' = Some r \<and> iov_ok ?s2 k r" if "pool_at ?s2 i k p'" for i k p'
    proof -
      have "pool_at s i k p'" using that by (simp add: pool_at_def)
      then obtain r where "cs_pool s p' = Some r" "iov_ok s k r" using elements_okD(1) [OF el] by blast
      then show ?thesis using kind other assms(4) by (cases "p' = p") simp_all
    qed
    show "i = j \<and> k = l" if "pool_at ?s2 i k p'" "pool_at ?s2 j l p'" for i j k l p'
      using that elements_okD(2) [OF el, of i k p' j l] by (simp add: pool_at_def)
  qed (use elements_okD(3) [OF el] in simp)
  moreover have "fresh_ok ?s2" using fr assms(2,4) by (auto simp: fresh_ok_def live_in_def)
  ultimately have ok: "mgr_ok ?s2" by (simp add: mgr_ok_def)
  show thesis
    by (rule that [OF g a i e refl ok]) (use set pc in simp)
qed

text \<open>Notifying the listeners touches nothing that the invariant is about.\<close>

lemma call_listeners_same:
  "cs_cond (call_listeners ls s c) = cs_cond s" "cs_pool (call_listeners ls s c) = cs_pool s"
  "cs_iov (call_listeners ls s c) = cs_iov s" "cm_rawPool (call_listeners ls s c) = cm_rawPool s"
  "cs_next (call_listeners ls s c) = cs_next s" "cm_iovTypes (call_listeners ls s c) = cm_iovTypes s"
  "cm_updates (call_listeners ls s c) = cm_updates s"
  by (simp_all add: call_listeners_def)

lemma mgr_ok_same:
  assumes "cs_cond s' = cs_cond s" "cs_pool s' = cs_pool s" "cs_iov s' = cs_iov s" "cm_rawPool s' = cm_rawPool s"
    "cs_next s' = cs_next s" "cm_iovTypes s' = cm_iovTypes s"
  shows "mgr_ok s' = mgr_ok s"
proof -
  have at: "pool_at s' = pool_at s" by (intro ext) (simp add: pool_at_def assms)
  have io: "iov_ok s' = iov_ok s" by (intro ext) (simp add: iov_ok_def assms split: Entries.split)
  show ?thesis
    using pools_ok_same [OF assms(2,1)] by (simp add: mgr_ok_def elements_ok_def fresh_ok_def at io assms)
qed

lemma mgr_ok_call [simp]: "mgr_ok (call_listeners ls s c) = mgr_ok s"
  by (rule mgr_ok_same) (simp_all add: call_listeners_same)

subsection \<open>Cleaning keeps the invariant\<close>

lemma restrict_map_all [simp]: "m |` UNIV = m"
  by (simp add: restrict_map_def)

lemma remove_all:
  assumes "distinct cs" and "\<forall>c \<in> set cs. live_in s c"
  shows "foldE pool_remove s cs = Inr (s\<lparr>cs_cond := cs_cond s |` (- set cs),
    cm_calls := cm_calls s @ concat (List.map (\<lambda>c. List.map (\<lambda>l. (l, c)) (cm_onRemove s)) cs)\<rparr>)"
  using assms
proof (induction cs arbitrary: s)
  case (Cons c cs)
  let ?s1 = "s\<lparr>cm_calls := cm_calls s @ List.map (\<lambda>l. (l, c)) (cm_onRemove s), cs_cond := (cs_cond s)(c := None)\<rparr>"
  have "\<forall>d \<in> set cs. live_in ?s1 d" using Cons.prems by (auto simp: live_in_def)
  moreover have "pool_remove s c = Inr ?s1"
    using live_get [of s c] Cons.prems(2) by (simp add: pool_remove_def call_listeners_def Let_def)
  moreover have "(\<lambda>a. if a = c then None else cs_cond s a) |` (- set cs) = cs_cond s |` (- insert c (set cs))"
    by (auto simp: restrict_map_def)
  ultimately show ?case using Cons.IH [of ?s1] Cons.prems(1) by simp
qed simp

definition destroyed :: "CondState \<Rightarrow> nat list \<Rightarrow> CondState \<Rightarrow> bool" where
  "destroyed s ps s' \<longleftrightarrow>
     cs_pool s' = cs_pool s |` (- (set ps - set (cs_held s))) \<and>
     cs_cond s' = cs_cond s |` (- (\<Union>p \<in> set ps - set (cs_held s). set (pool_conds s p))) \<and>
     cs_iov s' = cs_iov s \<and> cs_next s' = cs_next s \<and> cs_held s' = cs_held s \<and> cm_rawPool s' = cm_rawPool s \<and>
     cm_iovTypes s' = cm_iovTypes s \<and> cm_updates s' = cm_updates s \<and> pools_ok s'"

lemma destroy_pool_spec:
  assumes "pools_ok s" and "cs_pool s p \<noteq> None"
  shows "\<exists>s'. destroy_pool s p = Inr s' \<and> destroyed s [p] s'"
proof (cases "p \<in> set (cs_held s)")
  case True
  then show ?thesis using assms(1) by (simp add: destroy_pool_def destroyed_def)
next
  case False
  obtain q where q: "cs_pool s p = Some q" using assms(2) by blast
  note qd = pools_okD [OF assms(1) q]
  let ?cs = "pool_conds s p"
  have cs: "entry_conds (cp_entries q) = ?cs" using q by (simp add: pool_conds_def)
  have "\<forall>c \<in> set ?cs. live_in s c" using qd(1) by (simp add: pool_live_def)
  note r = remove_all [OF qd(2) this]
  let ?f = "cs_cond s |` (- set ?cs)"
  let ?s' = "s\<lparr>cs_cond := ?f, cm_calls := cm_calls s @ concat (List.map (\<lambda>c. List.map (\<lambda>l. (l, c)) (cm_onRemove s)) ?cs),
    cs_pool := (cs_pool s)(p := None)\<rparr>"
  have d: "destroy_pool s p = Inr ?s'"
    using False r cs pool_live_get [OF qd(1)] q by (simp add: destroy_pool_def pool_clear_def pool_put_def)
  have pc: "pool_conds ?s' p' = pool_conds s p'" if "p' \<noteq> p" for p' using that by (simp add: pool_conds_def)
  have "pools_ok ?s'"
  proof (rule pools_okI)
    fix p' q' assume "cs_pool ?s' p' = Some q'"
    then have p': "p' \<noteq> p" "cs_pool s p' = Some q'" by (auto split: if_splits)
    note d' = pools_okD [OF assms(1) p'(2)]
    have disj: "set (pool_conds s p') \<inter> set ?cs = {}" by (rule pools_ok_disjoint [OF assms(1) p'(2) q p'(1)])
    have "live_in ?s' c" if "c \<in> set (pool_conds s p')" for c
        using that d'(1) disj by (auto simp: live_in_def pool_live_def restrict_map_def)
    moreover have "entries_ok ?s' (cp_entries q')"
    proof (cases "cp_entries q'")
      case (MappedPool m)
      have "snd ` set m = set (pool_conds s p')" using p'(2) MappedPool by (simp add: pool_conds_def)
      then have "c \<notin> set ?cs" if "(k, c) \<in> set m" for k c using that disj by force
      then show ?thesis using d'(3) MappedPool by (fastforce simp: hash_in_def restrict_map_def)
    qed simp
    ultimately show "pool_live ?s' p' \<and> distinct (pool_conds ?s' p') \<and> entries_ok ?s' (cp_entries q')"
      using d' p' pc [OF p'(1)] by (simp add: pool_live_def)
  next
    fix p1 p2 q1 q2 assume a: "cs_pool ?s' p1 = Some q1" "cs_pool ?s' p2 = Some q2" "p1 \<noteq> p2"
    then have "p1 \<noteq> p" "p2 \<noteq> p" "cs_pool s p1 = Some q1" "cs_pool s p2 = Some q2" by (auto split: if_splits)
    then show "set (pool_conds ?s' p1) \<inter> set (pool_conds ?s' p2) = {}"
      using pools_ok_disjoint [OF assms(1)] pc a(3) by simp
  qed
  moreover have "(cs_pool s)(p := None) = cs_pool s |` (- (set [p] - set (cs_held s)))"
    using False by (auto simp: restrict_map_def)
  moreover have "?f = cs_cond s |` (- (\<Union>x \<in> set [p] - set (cs_held s). set (pool_conds s x)))"
    using False by (auto simp: restrict_map_def)
  ultimately show ?thesis using d by (simp add: destroyed_def)
qed

lemma destroy_pools_spec:
  assumes "pools_ok s" and "\<forall>p \<in> set ps. cs_pool s p \<noteq> None" and "distinct ps"
  shows "\<exists>s'. foldE destroy_pool s ps = Inr s' \<and> destroyed s ps s'"
  using assms
proof (induction ps arbitrary: s)
  case Nil
  then show ?case by (simp add: destroyed_def)
next
  case (Cons p ps)
  obtain s1 where s1: "destroy_pool s p = Inr s1" "destroyed s [p] s1"
    using destroy_pool_spec [OF Cons.prems(1), of p] Cons.prems(2) by auto
  have pool: "cs_pool s1 x = (if x = p \<and> p \<notin> set (cs_held s) then None else cs_pool s x)" for x
    using s1(2) by (auto simp: destroyed_def restrict_map_def)
  have held: "cs_held s1 = cs_held s" using s1(2) by (simp add: destroyed_def)
  have "\<forall>x \<in> set ps. cs_pool s1 x \<noteq> None" using Cons.prems(2,3) pool by auto
  then obtain s2 where s2: "foldE destroy_pool s1 ps = Inr s2" "destroyed s1 ps s2"
    using Cons.IH [of s1] s1(2) Cons.prems(3) by (auto simp: destroyed_def)
  have pc: "pool_conds s1 x = pool_conds s x" if "x \<in> set ps" for x
    using that pool Cons.prems(3) by (auto simp: pool_conds_def)
  have "cs_pool s2 = cs_pool s |` (- (set (p # ps) - set (cs_held s)))"
    using s2(2) pool held by (auto simp: destroyed_def fun_eq_iff restrict_map_def)
  moreover have "cs_cond s2 = cs_cond s |` (- (\<Union>x \<in> set (p # ps) - set (cs_held s). set (pool_conds s x)))"
  proof (rule ext)
    fix c
    have "(\<exists>x \<in> set ps - set (cs_held s1). c \<in> set (pool_conds s1 x)) \<longleftrightarrow> (\<exists>x \<in> set ps - set (cs_held s). c \<in> set (pool_conds s x))"
      using pc held by auto
    moreover have "cs_cond s2 c = (if \<exists>x \<in> set ps - set (cs_held s1). c \<in> set (pool_conds s1 x) then None else cs_cond s1 c)"
      using s2(2) by (auto simp: destroyed_def restrict_map_def)
    moreover have "cs_cond s1 c = (if p \<notin> set (cs_held s) \<and> c \<in> set (pool_conds s p) then None else cs_cond s c)"
      using s1(2) by (auto simp: destroyed_def restrict_map_def)
    ultimately show "cs_cond s2 c = (cs_cond s |` (- (\<Union>x \<in> set (p # ps) - set (cs_held s). set (pool_conds s x)))) c"
      by (auto simp: restrict_map_def)
  qed
  ultimately have "destroyed s (p # ps) s2" using s1(2) s2(2) by (simp add: destroyed_def)
  then show ?case using s1(1) s2(1) by simp
qed

lemma clean_elements_live:
  assumes "\<forall>(k, p) \<in> set es. pool_live s p"
  shows "clean_elements s cleaner es =
    Inr (filter (\<lambda>(k, p). \<not> cleaner (the (cs_pool s p))) es,
         List.map snd (filter (\<lambda>(k, p). cleaner (the (cs_pool s p))) es),
         sum_list (List.map (\<lambda>(k, p). length (pool_conds s p)) (filter (\<lambda>(k, p). cleaner (the (cs_pool s p))) es)))"
proof -
  have size: "entries_size e = length (entry_conds e)" for e by (cases e) simp_all
  show ?thesis
    using assms by (induction es) (auto simp: pool_live_get size pool_conds_def)
qed

lemma distinct_map_filter: "distinct (List.map f xs) \<Longrightarrow> distinct (List.map f (filter P xs))"
  by (induction xs) auto

lemma sorted_wrt_map_filter: "sorted_wrt R (List.map f xs) \<Longrightarrow> sorted_wrt R (List.map f (filter P xs))"
  by (induction xs) auto

lemma clean_by_spec:
  assumes "mgr_ok s" and "i < length (cm_rawPool s)" and "cm_rawPool s ! i = Some ip"
  shows "\<exists>s1 n. iovpool_clean_by s ip cleaner =
      Inr (s1, ip\<lparr>ip_elements := filter (\<lambda>(k, p). \<not> cleaner (the (cs_pool s p))) (ip_elements ip)\<rparr>, n) \<and>
    n = sum_list (List.map (\<lambda>(k, p). length (pool_conds s p)) (filter (\<lambda>(k, p). cleaner (the (cs_pool s p))) (ip_elements ip))) \<and>
    destroyed s (List.map snd (filter (\<lambda>(k, p). cleaner (the (cs_pool s p))) (ip_elements ip))) s1 \<and>
    mgr_ok (raw_pool_put s1 i (ip\<lparr>ip_elements := filter (\<lambda>(k, p). \<not> cleaner (the (cs_pool s p))) (ip_elements ip)\<rparr>))"
proof -
  have po: "pools_ok s" and el: "elements_ok s" and fr: "fresh_ok s" using assms(1) by (auto simp: mgr_ok_def)
  note me = mgr_ok_elements [OF assms]
  let ?rest = "filter (\<lambda>(k, p). \<not> cleaner (the (cs_pool s p))) (ip_elements ip)"
  let ?gone = "List.map snd (filter (\<lambda>(k, p). cleaner (the (cs_pool s p))) (ip_elements ip))"
  have "\<forall>p \<in> set ?gone. cs_pool s p \<noteq> None" using me(1) by (fastforce simp: pool_live_def)
  moreover have "distinct ?gone" using me(2) by (rule distinct_map_filter)
  ultimately obtain s1 where s1: "foldE destroy_pool s ?gone = Inr s1" "destroyed s ?gone s1"
    using destroy_pools_spec [OF po] by blast
  have at: "pool_at s j k p \<and> p \<notin> set ?gone" if a: "pool_at (raw_pool_put s1 i (ip\<lparr>ip_elements := ?rest\<rparr>)) j k p" for j k p
  proof -
    have raw: "cm_rawPool s1 = cm_rawPool s" using s1(2) by (simp add: destroyed_def)
    have s: "pool_at s j k p" and rest: "j = i \<Longrightarrow> (k, p) \<in> set ?rest"
      using a raw assms(2,3) by (cases "j = i"; auto simp: pool_at_def raw_pool_put_def)+
    have "p \<notin> set ?gone"
    proof
      assume "p \<in> set ?gone"
      then obtain k' where k': "(k', p) \<in> set (ip_elements ip)" "cleaner (the (cs_pool s p))" by auto
      then have "pool_at s i k' p" using assms(2,3) by (auto simp: pool_at_def)
      then have "j = i" using elements_okD(2) [OF el s] by blast
      then show False using rest k'(2) by auto
    qed
    then show ?thesis using s by blast
  qed
  let ?s2 = "raw_pool_put s1 i (ip\<lparr>ip_elements := ?rest\<rparr>)"
  have same: "cs_pool ?s2 = cs_pool s1" "cs_cond ?s2 = cs_cond s1" "cs_iov ?s2 = cs_iov s1" "cs_next ?s2 = cs_next s1"
    "cm_iovTypes ?s2 = cm_iovTypes s1" by (simp_all add: raw_pool_put_def)
  have d: "cs_pool s1 = cs_pool s |` (- (set ?gone - set (cs_held s)))" "cs_iov s1 = cs_iov s" "cs_next s1 = cs_next s"
    "cm_rawPool s1 = cm_rawPool s" "cm_iovTypes s1 = cm_iovTypes s" "pools_ok s1"
    "cs_cond s1 = cs_cond s |` (- (\<Union>p \<in> set ?gone - set (cs_held s). set (pool_conds s p)))"
    using s1(2) by (simp_all add: destroyed_def)
  have "elements_ok ?s2"
  proof (rule elements_okI)
    fix j k p assume "pool_at ?s2 j k p"
    then have p: "pool_at s j k p" "p \<notin> set ?gone" using at by blast+
    obtain q where q: "cs_pool s p = Some q" "iov_ok s k q" using elements_okD(1) [OF el p(1)] by blast
    have "iov_ok ?s2 k q" by (rule iov_ok_keep [OF q(2)]) (simp add: same d)
    then show "\<exists>q. cs_pool ?s2 p = Some q \<and> iov_ok ?s2 k q" using q(1) p(2) same d(1) by (auto simp: restrict_map_def)
  next
    fix j l k m p assume "pool_at ?s2 j k p" "pool_at ?s2 l m p"
    then show "j = l \<and> k = m" using at elements_okD(2) [OF el] by blast
  next
    fix jp assume "Some jp \<in> set (cm_rawPool ?s2)"
    then have "Some jp \<in> set (cm_rawPool s) \<or> jp = ip\<lparr>ip_elements := ?rest\<rparr>"
      using d(4) set_update_subset_insert [of "cm_rawPool s" i] by (fastforce simp: raw_pool_put_def)
    moreover have "map_ok ?rest"
      using me(3) unfolding map_ok_def by (rule sorted_wrt_map_filter)
    ultimately show "map_ok (ip_elements jp)" using elements_okD(3) [OF el] by auto
  qed
  moreover have "pools_ok ?s2" using d(6) pools_ok_same [OF same(1,2)] by simp
  moreover have "fresh_ok ?s2" using fr d same by (auto simp: fresh_ok_def raw_pool_put_def restrict_map_def)
  ultimately have "mgr_ok ?s2" by (simp add: mgr_ok_def)
  then show ?thesis using clean_elements_live [OF me(1), of cleaner] s1 by (simp add: iovpool_clean_by_def)
qed

text \<open>A pass over all types never fails, and leaves no pool that the policy names.\<close>

lemma clean_types_ok:
  assumes "mgr_ok s" and "\<forall>i \<in> set js. i < length (cm_rawPool s)" and "distinct js"
  shows "\<exists>s' n' m'. clean_types accept cleaner s js (n, m) = Inr (s', n', m') \<and> mgr_ok s' \<and>
    (\<forall>i k p. pool_at s' i k p \<longrightarrow> pool_at s i k p \<and> cs_pool s' p = cs_pool s p) \<and>
    (\<forall>i \<in> set js. \<forall>ip k p. cm_rawPool s ! i = Some ip \<longrightarrow> accept ip \<longrightarrow> pool_at s' i k p \<longrightarrow>
       \<not> cleaner (the (cs_pool s p)))"
  using assms
proof (induction js arbitrary: s n m)
  case (Cons i js)
  have i: "i < length (cm_rawPool s)" using Cons.prems(2) by simp
  then have r: "raw_pool s i = Inr (cm_rawPool s ! i)" by (simp add: raw_pool_def)
  have skip: ?case if eq: "clean_types accept cleaner s (i # js) (n, m) = clean_types accept cleaner s js (n, m)"
    and no: "\<And>ip. cm_rawPool s ! i = Some ip \<Longrightarrow> \<not> accept ip"
  proof -
    have "\<forall>i \<in> set js. i < length (cm_rawPool s)" "distinct js" using Cons.prems(2,3) by simp_all
    from Cons.IH [OF Cons.prems(1) this, of n m] show ?thesis using eq no by auto
  qed
  show ?case
  proof (cases "cm_rawPool s ! i")
    case None
    then show ?thesis using skip r by simp
  next
    case (Some ip)
    show ?thesis
    proof (cases "accept ip")
      case False
      then show ?thesis using skip r Some by simp
    next
      case True
      let ?ip = "ip\<lparr>ip_elements := filter (\<lambda>(k, p). \<not> cleaner (the (cs_pool s p))) (ip_elements ip)\<rparr>"
      let ?gone = "List.map snd (filter (\<lambda>(k, p). cleaner (the (cs_pool s p))) (ip_elements ip))"
      obtain s1 k where s1: "iovpool_clean_by s ip cleaner = Inr (s1, ?ip, k)" "destroyed s ?gone s1"
        "mgr_ok (raw_pool_put s1 i ?ip)"
        using clean_by_spec [OF Cons.prems(1) i Some, of cleaner] by blast
      let ?s2 = "raw_pool_put s1 i ?ip"
      have raw: "cm_rawPool ?s2 = (cm_rawPool s)[i := Some ?ip]" using s1(2) by (simp add: destroyed_def raw_pool_put_def)
      have pool2: "cs_pool ?s2 = cs_pool s |` (- (set ?gone - set (cs_held s)))"
        using s1(2) by (simp add: destroyed_def raw_pool_put_def)
      have sub: "pool_at ?s2 j l p \<Longrightarrow> pool_at s j l p" for j l p
        using raw Some i by (cases "j = i") (auto simp: pool_at_def)
      have keep: "cs_pool ?s2 p = cs_pool s p" if at: "pool_at ?s2 j l p" for j l p
      proof -
        have "elements_ok ?s2" using s1(3) by (simp add: mgr_ok_def)
        then obtain q where "cs_pool ?s2 p = Some q"
          using elements_okD(1) [OF _ at] by blast
        then show ?thesis using pool2 by (auto simp: restrict_map_def split: if_splits)
      qed
      have bound: "\<forall>j \<in> set js. j < length (cm_rawPool ?s2)" "distinct js" using Cons.prems(2,3) raw by simp_all
      obtain s' n' m' where s': "clean_types accept cleaner ?s2 js (n + 1, m + k) = Inr (s', n', m')" "mgr_ok s'"
        "\<forall>i k p. pool_at s' i k p \<longrightarrow> pool_at ?s2 i k p \<and> cs_pool s' p = cs_pool ?s2 p"
        "\<forall>i \<in> set js. \<forall>ip k p. cm_rawPool ?s2 ! i = Some ip \<longrightarrow> accept ip \<longrightarrow> pool_at s' i k p \<longrightarrow>
           \<not> cleaner (the (cs_pool ?s2 p))"
        using Cons.IH [OF s1(3) bound, of "n + 1" "m + k"] by blast
      have "\<not> cleaner (the (cs_pool s p))"
        if "j \<in> set (i # js)" "cm_rawPool s ! j = Some jp" "accept jp" "pool_at s' j l p" for j jp l p
      proof (cases "j = i")
        case True
        have "pool_at ?s2 i l p" using s'(3) that(4) True by blast
        then have "(l, p) \<in> set (ip_elements ?ip)" using raw i by (auto simp: pool_at_def)
        then show ?thesis by simp
      next
        case False
        then have "j \<in> set js" "cm_rawPool ?s2 ! j = Some jp" using that(1,2) raw by simp_all
        then have "\<not> cleaner (the (cs_pool ?s2 p))" using s'(4) that(3,4) by blast
        moreover have "pool_at ?s2 j l p" using s'(3) that(4) by blast
        ultimately show ?thesis using keep by metis
      qed
      moreover have "clean_types accept cleaner s (i # js) (n, m) = Inr (s', n', m')"
        using r Some True s1(1) s'(1) by simp
      moreover have "pool_at s j l p \<and> cs_pool s' p = cs_pool s p" if "pool_at s' j l p" for j l p
        using s'(3) that sub keep by metis
      ultimately show ?thesis using s'(2) by blast
    qed
  qed
qed simp

section \<open>Properties\<close>

text \<open>C20. The invariant of the conditions manager (pools hold distinct live conditions, no condition is in two
  pools, every table entry points to its own pool with the interval of its key) holds initially
  and is kept by every operation that changes pools: registering types and intervals, registering
  a condition that is in no pool, and cleaning, which never fails, whatever the policy.\<close>

theorem manager_invariant:
  assumes "mgr_ok s"
  shows "mgr_ok (Manager_new kind n) \<and>
    (registerIOVType s i nam = Inr (s1, b, j) \<longrightarrow> mgr_ok s1) \<and>
    (registerIOV s t key = Inr (s2, p) \<longrightarrow> mgr_ok s2) \<and>
    (live_in s c \<and> \<not> registered s c \<and> registerUnlocked s p c = Inr (s3, b) \<longrightarrow> mgr_ok s3) \<and>
    (\<exists>s4 k m. mgr_clean s cl = Inr (s4, k, m) \<and> mgr_ok s4 \<and>
       (\<forall>i ip k p. cm_rawPool s ! i = Some ip \<longrightarrow> clean_iovpool cl ip \<longrightarrow> pool_at s4 i k p \<longrightarrow>
          pool_at s i k p \<and> \<not> clean_pool cl (the (cs_pool s p))))"
proof (intro conjI impI)
  show "mgr_ok (Manager_new kind n)" by (rule mgr_ok_new)
  show "mgr_ok s1" if "registerIOVType s i nam = Inr (s1, b, j)" by (rule mgr_ok_registerIOVType [OF assms that])
  show "mgr_ok s2" if "registerIOV s t key = Inr (s2, p)" using mgr_ok_registerIOV [OF assms that] ..
  show "mgr_ok s3" if r: "live_in s c \<and> \<not> registered s c \<and> registerUnlocked s p c = Inr (s3, b)"
  proof -
    obtain q where q: "pool_get s p = Inr q" using r by (auto simp: registerUnlocked_def bindE_Inr_iff split: if_splits)
    then have q': "cs_pool s p = Some q" by (auto simp: pool_get_def split: option.splits if_splits)
    have l: "live_in s c" "\<not> registered s c" using r by blast+
    show ?thesis
      by (rule adopt_insert [OF assms l q']) (use r in \<open>auto simp: registerUnlocked_def bindE_Inr_iff split: if_splits\<close>)
  qed
  have d: "\<forall>i \<in> set [0..<length (cm_rawPool s)]. i < length (cm_rawPool s)" "distinct [0..<length (cm_rawPool s)]" by simp_all
  obtain s4 k m where s4: "mgr_clean s cl = Inr (s4, k, m)" "mgr_ok s4"
    "\<forall>i k p. pool_at s4 i k p \<longrightarrow> pool_at s i k p \<and> cs_pool s4 p = cs_pool s p"
    "\<forall>i \<in> set [0..<length (cm_rawPool s)]. \<forall>ip k p. cm_rawPool s ! i = Some ip \<longrightarrow> clean_iovpool cl ip \<longrightarrow>
       pool_at s4 i k p \<longrightarrow> \<not> clean_pool cl (the (cs_pool s p))"
    using clean_types_ok [OF assms d, of "clean_iovpool cl" "clean_pool cl" 0 0] unfolding mgr_clean_def by blast
  have "pool_at s i k p \<and> \<not> clean_pool cl (the (cs_pool s p))"
    if "cm_rawPool s ! i = Some ip" "clean_iovpool cl ip" "pool_at s4 i k p" for i ip k p
  proof -
    have "pool_at s i k p" using s4(3) that(3) by blast
    moreover from this have "i \<in> set [0..<length (cm_rawPool s)]" by (simp add: pool_at_def)
    ultimately show ?thesis using s4(4) that by blast
  qed
  then show "\<exists>s4 k m. mgr_clean s cl = Inr (s4, k, m) \<and> mgr_ok s4 \<and>
       (\<forall>i ip k p. cm_rawPool s ! i = Some ip \<longrightarrow> clean_iovpool cl ip \<longrightarrow> pool_at s4 i k p \<longrightarrow>
          pool_at s i k p \<and> \<not> clean_pool cl (the (cs_pool s p)))" using s4(1,2) by blast
qed

definition run_type :: IOVType where
  "run_type = \<lparr>iovt_type = 1, iovt_name = ''run''\<rparr>"

definition run_mgr :: CondState where
  "run_mgr = fst (projr (bindE (registerIOVType (Manager_new (LinearPool []) 2) 1 ''run'') (\<lambda>(s, _). registerIOV s run_type (Key 1 9))))"

definition run_cond :: CondState where
  "run_cond = fst (Condition_object run_mgr ''v'' 77)"

lemma two_types: "replicate 2 x = [x, x]"
  by (simp add: numeral_2_eq_2)

lemma unat_unknown: "unat UNKNOWN_IOV = 4294967295"
  by (simp add: UNKNOWN_IOV_def unsigned_minus_1_eq_mask mask_eq_exp_minus_1)

lemmas run_eval = registerIOVType_def Manager_new_def IOVType_default_def raw_pool_def registerIOV_def
  run_type_def raw_pool_put_def Let_def two_types unat_unknown

lemma run_mgr_steps:
  "\<exists>s1. registerIOVType (Manager_new (LinearPool []) 2) 1 ''run'' = Inr (s1, True, 1) \<and>
     registerIOV s1 run_type (Key 1 9) = Inr (run_mgr, 2) \<and> mgr_ok s1"
proof -
  obtain s1 where s1: "registerIOVType (Manager_new (LinearPool []) 2) 1 ''run'' = Inr (s1, True, 1)"
    by (simp add: run_eval)
  moreover have "registerIOV s1 run_type (Key 1 9) = Inr (run_mgr, 2)"
  proof -
    have "map_sum id snd (bindE (registerIOVType (Manager_new (LinearPool []) 2) 1 ''run'') (\<lambda>(s, _). registerIOV s run_type (Key 1 9))) = Inr 2"
      by (simp add: run_eval)
    then show ?thesis
      using s1 by (cases "registerIOV s1 run_type (Key 1 9)") (auto simp: run_mgr_def)
  qed
  ultimately show ?thesis using mgr_ok_registerIOVType [OF mgr_ok_new] by blast
qed

lemma run_mgr_ok: "mgr_ok run_mgr" "pool_at run_mgr 1 (Key 1 9) 2" "cm_updates run_mgr = []"
  "cm_iovTypes run_mgr ! 1 = run_type" "registerIOV run_mgr run_type (Key 1 9) = Inr (run_mgr, 2)"
proof -
  obtain s1 where s1: "registerIOVType (Manager_new (LinearPool []) 2) 1 ''run'' = Inr (s1, True, 1)"
    "registerIOV s1 run_type (Key 1 9) = Inr (run_mgr, 2)" "mgr_ok s1" using run_mgr_steps by blast
  note r = mgr_ok_registerIOV [OF s1(3,2)]
  show "mgr_ok run_mgr" "pool_at run_mgr 1 (Key 1 9) 2" using r by (simp_all add: run_type_def)
  have "cm_updates s1 = []" "cm_iovTypes s1 ! 1 = run_type" using s1(1) by (auto simp: run_eval)
  then show "cm_updates run_mgr = []" "cm_iovTypes run_mgr ! 1 = run_type" using r by simp_all
  obtain ip where ip: "raw_pool run_mgr 1 = Inr (Some ip)" "map_of (ip_elements ip) (Key 1 9) = Some 2"
    using r by (auto simp: run_type_def)
  then show "registerIOV run_mgr run_type (Key 1 9) = Inr (run_mgr, 2)"
    by (auto simp: registerIOV_def run_type_def raw_pool_put_def raw_pool_def list_update_same_conv split: if_splits)
qed

lemma run_mgr_pool: "cs_pool run_mgr = [2 \<mapsto> \<lparr>cp_entries = LinearPool [], cp_iov = 1, cp_age = 0\<rparr>]" "cs_cond run_mgr = Map.empty"
  "cs_next run_mgr = 3"
  by (simp_all add: run_mgr_def run_eval pool_new_def flip: numeral_2_eq_2)

text \<open>A new condition is live, in no pool, and does not disturb the invariant.\<close>

lemma Condition_object_ok:
  assumes "mgr_ok s" and "Condition_object s val key = (s', c)"
  shows "mgr_ok s' \<and> live_in s' c \<and> \<not> registered s' c \<and> hash_in s' c = key \<and> cs_pool s' = cs_pool s \<and>
    cm_rawPool s' = cm_rawPool s \<and> cm_updates s' = cm_updates s \<and> c = cs_next s"
proof -
  have po: "pools_ok s" and el: "elements_ok s" and fr: "fresh_ok s" using assms(1) by (auto simp: mgr_ok_def)
  have c: "c = cs_next s" and s': "s' = s\<lparr>cs_next := Suc c, cs_cond := (cs_cond s)(c \<mapsto>
      \<lparr>co_value = val, co_iov = 0, co_hash = key, co_flags = 0\<rparr>)\<rparr>"
    using assms(2) by (auto simp: Condition_object_def Let_def)
  have fresh: "\<not> live_in s c" "c \<noteq> 0" using fr c by (auto simp: fresh_ok_def live_in_def)
  have pc: "pool_conds s' = pool_conds s" by (rule ext) (simp add: pool_conds_def s')
  have old: "live_in s d \<Longrightarrow> live_in s' d \<and> hash_in s' d = hash_in s d" for d
    using fresh by (auto simp: live_in_def hash_in_def s')
  have no: "cs_pool s p = Some q \<Longrightarrow> c \<notin> set (pool_conds s p)" for p q
    using pools_okD(1) [OF po] fresh(1) by (auto simp: pool_live_def)
  have "pools_ok s'"
  proof (rule pools_okI)
    fix p q assume "cs_pool s' p = Some q"
    then have q: "cs_pool s p = Some q" by (simp add: s')
    note d = pools_okD [OF po q]
    have "entries_ok s' (cp_entries q)"
    proof (cases "cp_entries q")
      case (MappedPool m)
      have "live_in s e" if "(k, e) \<in> set m" for k e
        using that d(1) q MappedPool by (force simp: pool_live_def pool_conds_def)
      then show ?thesis using d(3) old MappedPool by fastforce
    qed simp
    then show "pool_live s' p \<and> distinct (pool_conds s' p) \<and> entries_ok s' (cp_entries q)"
      using d old pc by (simp add: pool_live_def s')
  next
    fix p p' q q' assume "cs_pool s' p = Some q" "cs_pool s' p' = Some q'" "p \<noteq> p'"
    then show "set (pool_conds s' p) \<inter> set (pool_conds s' p') = {}"
      using pools_ok_disjoint [OF po, of p q p' q'] pc by (simp add: s')
  qed
  moreover have "elements_ok s'"
  proof (rule elements_okI)
    fix i k p assume "pool_at s' i k p"
    then have "pool_at s i k p" by (simp add: pool_at_def s')
    then obtain q where q: "cs_pool s p = Some q" "iov_ok s k q" using elements_okD(1) [OF el] by blast
    have "iov_ok s' k q" by (rule iov_ok_keep [OF q(2)]) (simp add: s')
    then show "\<exists>q. cs_pool s' p = Some q \<and> iov_ok s' k q" using q(1) by (simp add: s')
  next
    fix i j k l p assume "pool_at s' i k p" "pool_at s' j l p"
    then show "i = j \<and> k = l" using elements_okD(2) [OF el, of i k p j l] by (simp add: pool_at_def s')
  qed (use elements_okD(3) [OF el] in \<open>simp add: s'\<close>)
  moreover have "fresh_ok s'" using fr c by (simp add: fresh_ok_def s')
  moreover have "\<not> registered s' c" using no pc by (auto simp: registered_def s')
  ultimately show ?thesis using c fresh by (simp add: mgr_ok_def live_in_def hash_in_def s')
qed

lemma run_cond_new: "Condition_object run_mgr ''v'' 77 = (run_cond, 3)"
  by (simp add: run_cond_def Condition_object_def run_mgr_pool)

lemmas run_cond_ok = Condition_object_ok [OF run_mgr_ok(1) run_cond_new]

theorem manager_invariant_witness:
  "\<exists>s b. registerUnlocked run_cond 2 3 = Inr (s, b) \<and> mgr_ok s"
proof -
  have q: "cs_pool run_cond 2 = Some \<lparr>cp_entries = LinearPool [], cp_iov = 1, cp_age = 0\<rparr>"
    using run_cond_ok run_mgr_pool(1) by simp
  have i: "cs_iov run_cond 1 \<noteq> None"
    by (simp add: run_cond_def Condition_object_def run_mgr_def run_eval)
  have "is_ok (registerUnlocked run_cond 2 3)"
    using q i live_get [of run_cond 3] live_access [of run_cond 3] run_cond_ok
    by (auto simp: registerUnlocked_def adopt_condition_def cond_put_def pool_get_def pool_insert_def cond_access_def
        cond_get_def pool_put_def iov_get_def live_in_def)
  then obtain s b where r: "registerUnlocked run_cond 2 3 = Inr (s, b)" by (auto simp: is_ok_iff)
  have "mgr_ok run_cond" "live_in run_cond 3 \<and> \<not> registered run_cond 3 \<and> registerUnlocked run_cond 2 3 = Inr (s, b)"
    using run_cond_ok r by blast+
  then have "mgr_ok s" using manager_invariant [THEN conjunct2, THEN conjunct2, THEN conjunct2, THEN conjunct1, rule_format] by blast
  then show ?thesis using r by blast
qed

text \<open>C21. Registering a condition: after its pool was created (or found) under a key and the condition was put in,
  a request within the key finds it by its condition key, everything found has that key and is
  valid for the request, the condition refers to the interval of the key and is active, and
  registering the same interval again gives the same pool.\<close>

theorem registration_selects:
  assumes "mgr_ok s" and "registerIOV s t key = Inr (s1, p)" and "live_in s1 c" and "\<not> registered s1 c"
    and "cp_entries (the (cs_pool s1 p)) = LinearPool cs" and "cm_updates s1 = []"
    and "iov_type req = iovt_type t" and "key_contains_range key (iov_keyData req)"
  shows "\<exists>s2 r v. registerUnlocked s1 p c = Inr (s2, True) \<and> registerIOV s2 t key = Inr (s2, p) \<and>
    mgr_select s2 (hash_in s1 c) req [] = Inr (r, True) \<and> c \<in> set r \<and>
    (\<forall>d \<in> set r. hash_in s2 d = hash_in s1 c \<and>
       (\<exists>k q. pool_at s2 (unat (iovt_type t)) k q \<and> key_contains_range k (iov_keyData req) \<and> d \<in> set (pool_conds s2 q))) \<and>
    iov_get s2 (co_iov (the (cs_cond s2 c))) = Inr v \<and> iov_keyData v = key \<and>
    co_flags (the (cs_cond s2 c)) AND cond_ACTIVE = cond_ACTIVE"
proof -
  let ?i = "unat (iovt_type t)"
  note r1 = mgr_ok_registerIOV [OF assms(1,2)]
  have ok1: "mgr_ok s1" and at: "pool_at s1 ?i key p" using r1 by blast+
  have el1: "elements_ok s1" using ok1 by (simp add: mgr_ok_def)
  obtain q where q: "cs_pool s1 p = Some q" "iov_ok s1 key q" using elements_okD(1) [OF el1 at] by blast
  then obtain v where v: "cp_iov q \<noteq> 0" "cs_iov s1 (cp_iov q) = Some v" "iov_keyData v = key"
    using assms(5) by (auto simp: iov_ok_def)
  obtain sa s2 e b where s2: "pool_get s1 p = Inr q" "adopt_condition s1 q c = Inr sa" "pool_insert sa p c = Inr (s2, b)"
    "entries_insert s1 (cp_entries q) c = Inr (e, b)"
    "s2 = s1\<lparr>cs_cond := (cs_cond s1)(c \<mapsto> (the (cs_cond s1 c))\<lparr>co_iov := cp_iov q,
        co_flags := co_flags (the (cs_cond s1 c)) OR cond_ACTIVE\<rparr>), cs_pool := (cs_pool s1)(p \<mapsto> q\<lparr>cp_entries := e\<rparr>)\<rparr>"
    "mgr_ok s2" "set (pool_conds s2 p) = (if b then insert c (set (pool_conds s1 p)) else set (pool_conds s1 p))"
    by (rule adopt_insert [OF ok1 assms(3,4) q(1)])
  have b: b using s2(4) assms(5) q(1) live_access [OF assms(3)] by auto
  let ?s3 = "call_listeners (cm_onRegister s2) s2 c"
  have iov: "iov_get s2 (cp_iov q) = Inr v" using s2(5) v by (simp add: iov_get_def)
  have reg: "registerUnlocked s1 p c = Inr (?s3, True)"
    using assms(3) s2(1-3) iov by (simp add: registerUnlocked_def live_in_def)
  have ok3: "mgr_ok ?s3" using s2(6) by simp
  note same = call_listeners_same [of "cm_onRegister s2" s2 c]
  have raw3: "cm_rawPool ?s3 = cm_rawPool s1" using same s2(5) by simp
  obtain ip where ip: "raw_pool s1 ?i = Inr (Some ip)" "map_of (ip_elements ip) key = Some p" using r1 by blast
  note ipi = find_rawPool [OF ip(1)]
  have again: "registerIOV ?s3 t key = Inr (?s3, p)"
    using ip(2) ipi raw3 by (simp add: registerIOV_def raw_pool_def raw_pool_put_def list_update_same_conv)
  have i3: "?i < length (cm_rawPool ?s3)" "cm_rawPool ?s3 ! ?i = Some ip" using ipi raw3 by simp_all
  note el3 = mgr_ok_elements [OF ok3 i3]
  define r where "r = concat (List.map (\<lambda>(k, q). filter (\<lambda>d. hash_in ?s3 d = hash_in s1 c) (pool_conds ?s3 q))
      (filter (\<lambda>(k, q). key_contains_range k (iov_keyData req)) (ip_elements ip)))"
  have hash3: "hash_in ?s3 c = hash_in s1 c" using same s2(5) by (simp add: hash_in_def)
  have pc3: "pool_conds ?s3 = pool_conds s2" using same by (simp add: pool_conds_def fun_eq_iff)
  have c: "c \<in> set r"
    using map_of_SomeD [OF ip(2)] assms(8) hash3 s2(7) b pc3 unfolding r_def by force
  then have ne: "r \<noteq> []" by auto
  have "iovpool_select ?s3 ip (hash_in s1 c) req [] = Inr r"
    using select_in_live [OF el3(1)] by (simp add: iovpool_select_def r_def)
  moreover have "cm_updates ?s3 = []" using assms(6) s2(5) same by simp
  ultimately have sel: "mgr_select ?s3 (hash_in s1 c) req [] = Inr (r, True)"
    using i3 ne assms(7) by (simp add: mgr_select_def typed_pool_def raw_pool_def update_range_def)
  have "\<forall>d \<in> set r. hash_in ?s3 d = hash_in s1 c \<and>
       (\<exists>k q. pool_at ?s3 ?i k q \<and> key_contains_range k (iov_keyData req) \<and> d \<in> set (pool_conds ?s3 q))"
    using i3 unfolding r_def by (fastforce simp: pool_at_def)
  moreover have "iov_get ?s3 (co_iov (the (cs_cond ?s3 c))) = Inr v" using iov same s2(5) by (simp add: iov_get_def)
  moreover have "co_flags (the (cs_cond ?s3 c)) AND cond_ACTIVE = cond_ACTIVE"
    using same s2(5) by (simp add: bit_eq_iff bit_simps)
  ultimately show ?thesis using reg again sel c v(3) by blast
qed

theorem registration_selects_witness:
  "\<exists>s r. registerUnlocked run_cond 2 3 = Inr (s, True) \<and>
     mgr_select s 77 (IOV_discrete (Some run_type) 5) [] = Inr (r, True) \<and> 3 \<in> set r"
proof -
  have reg: "registerIOV run_cond run_type (Key 1 9) = Inr (run_cond, 2)"
  proof -
    have raw: "cm_rawPool run_cond = cm_rawPool run_mgr" using run_cond_ok by blast
    obtain ip where ip: "raw_pool run_mgr 1 = Inr (Some ip)" "map_of (ip_elements ip) (Key 1 9) = Some 2"
      using run_mgr_steps mgr_ok_registerIOV by (fastforce simp: run_type_def)
    show ?thesis
      using ip raw find_rawPool [OF ip(1)]
      by (simp add: registerIOV_def run_type_def raw_pool_def raw_pool_put_def list_update_same_conv)
  qed
  have e: "cp_entries (the (cs_pool run_cond 2)) = LinearPool []" using run_cond_ok run_mgr_pool(1) by simp
  have u: "cm_updates run_cond = []" using run_cond_ok run_mgr_ok(3) by simp
  have t: "iov_type (IOV_discrete (Some run_type) 5) = iovt_type run_type" by (simp add: IOV_discrete_def IOV_with_key_def)
  have k: "key_contains_range (Key 1 9) (iov_keyData (IOV_discrete (Some run_type) 5))"
    by (simp add: IOV_discrete_def IOV_with_key_def key_contains_range_def)
  have l: "live_in run_cond 3" "\<not> registered run_cond 3" "hash_in run_cond 3 = 77" "mgr_ok run_cond" using run_cond_ok by blast+
  show ?thesis using registration_selects [OF l(4) reg l(1,2) e u t k] l(3) by auto
qed

text \<open>With the mapped pool a condition cannot be registered at all: the pool has no interval, and the debug
  output of the registration reads through the null pointer.\<close>

theorem mapped_pool_unusable:
  assumes "mgr_ok s" and "cm_newPool s = MappedPool m" and "registerIOV s t key = Inr (s1, p)"
    and "cs_pool s p = None" and "live_in s1 c"
  shows "registerUnlocked s1 p c = Inl bad_pointer"
  using assms(3)
proof (cases rule: registerIOV_cases)
  case (found ip)
  then have "pool_at s (unat (iovt_type t)) key p"
    using find_rawPool [OF found(1)] map_of_SomeD [OF found(2)] by (auto simp: pool_at_def)
  then show ?thesis using assms(1,4) elements_okD(1) [of s] by (fastforce simp: mgr_ok_def)
next
  case (created ip)
  then have q: "cs_pool s1 p = Some (pool_new (MappedPool m) (cs_next s))"
    using assms(2) by (simp add: raw_pool_put_def)
  let ?q = "pool_new (MappedPool m) (cs_next s)"
  have n: "cp_iov ?q = 0" by (simp add: pool_new_def)
  have g: "pool_get s1 p = Inr ?q" using q created(2) by (simp add: pool_get_def)
  obtain sa where sa: "adopt_condition s1 ?q c = Inr sa" "cs_pool sa = cs_pool s1" "live_in sa c"
    using live_get [OF assms(5)] assms(5) by (simp add: adopt_condition_def cond_put_def live_in_def)
  obtain e b where e: "entries_insert sa (cp_entries ?q) c = Inr (e, b)" using entries_insert_live [OF sa(3)] by blast
  have "pool_get sa p = Inr ?q" using g sa(2) by (simp add: pool_get_def)
  then have "pool_insert sa p c = Inr (pool_put sa p (?q\<lparr>cp_entries := e\<rparr>), b)" using e by (simp add: pool_insert_def)
  then show ?thesis
    using g sa(1) n assms(5) by (simp add: registerUnlocked_def live_in_def iov_get_def split: option.split)
qed

definition mapped_mgr :: CondState where
  "mapped_mgr = fst (Condition_object (fst (projr (registerIOVType (Manager_new (MappedPool []) 2) 1 ''run''))) ''v'' 77)"

theorem mapped_pool_unusable_witness:
  "\<exists>s1 p. registerIOV mapped_mgr run_type (Key 1 9) = Inr (s1, p) \<and> registerUnlocked s1 p 1 = Inl bad_pointer"
proof -
  obtain s0 where s0: "registerIOVType (Manager_new (MappedPool []) 2) 1 ''run'' = Inr (s0, True, 1)" by (simp add: run_eval)
  have m: "Condition_object s0 ''v'' 77 = (mapped_mgr, cs_next s0)" using s0 by (simp add: mapped_mgr_def Condition_object_def Let_def)
  have ok: "mgr_ok mapped_mgr"
    using Condition_object_ok [OF mgr_ok_registerIOVType [OF mgr_ok_new s0] m] by blast
  have f: "cm_newPool mapped_mgr = MappedPool []" "cs_pool mapped_mgr = Map.empty" "live_in mapped_mgr 1"
    by (simp_all add: mapped_mgr_def run_eval Condition_object_def live_in_def)
  have "is_ok (registerIOV mapped_mgr run_type (Key 1 9))"
    by (simp add: mapped_mgr_def run_eval Condition_object_def)
  then obtain s1 p where r: "registerIOV mapped_mgr run_type (Key 1 9) = Inr (s1, p)" by (auto simp: is_ok_iff)
  have "live_in s1 1" using f(3) mgr_ok_registerIOV [OF ok r] by (simp add: live_in_def)
  then show ?thesis using mapped_pool_unusable [OF ok f(1) r] f(2) r by simp
qed


section \<open>The coverage test of a range selection\<close>

text \<open>
  One pass moves the two ends of the part \<open>test\<close> that is still open towards each other. The invariant
  of the loop: every time strictly inside the request is covered by a key or strictly inside the
  open part. It ends within one pass per key because each pass that starts at a covered time moves
  the lower end past one more key.
\<close>

abbreviation covered :: "Key list \<Rightarrow> int set" where
  "covered ks \<equiv> \<Union> (span ` set ks)"

definition inner :: "Key \<Rightarrow> int set" where
  "inner k = {sint (key_first k) <..< sint (key_second k)}"

abbreviation key_safe :: "Key \<Rightarrow> bool" where
  "key_safe k \<equiv> range_ok k \<and> key_first k \<noteq> MAX_KEY"

lemma sint_succ: "sint (x :: i64) < 2 ^ 63 - 1 \<Longrightarrow> sint (x + 1) = sint x + 1"
  using sint_range64 [of x] by (simp add: sint_word_add signed_take_bit_int_eq_self)

lemma sint_succ_safe: "(x :: i64) \<noteq> MAX_KEY \<Longrightarrow> sint (x + 1) = sint x + 1"
  using sint_range64 [of x] sint_limits(2) by (intro sint_succ) (metis order_le_neq_trans signed_word_eqI)

lemma widen_second: "\<lbrakk>key_safe k; sint (key_first test) < sint (key_second test)\<rbrakk> \<Longrightarrow>
  sint (key_second (widen k test)) \<le> sint (key_second test)"
  by (auto simp: widen_def Let_def sint_succ_safe)

lemma widen_first: "\<lbrakk>key_safe k; sint (key_first test) < sint (key_second test)\<rbrakk> \<Longrightarrow>
  sint (key_first test) \<le> sint (key_first (widen k test))"
  by (auto simp: widen_def Let_def)

lemma sint_first_succ: "sint (key_first test) < sint (key_second test) \<Longrightarrow> sint (key_first test + 1) = sint (key_first test) + 1"
  using sint_range64 [of "key_second test"] by (intro sint_succ) simp

lemma widen_inner:
  assumes "key_safe k" "sint (key_first test) < sint (key_second test)"
  shows "inner test \<subseteq> span k \<union> inner (widen k test)"
  using assms by (auto simp: inner_def widen_def Let_def span_def sint_succ_safe sint_first_succ)

lemma widen_advance:
  assumes "key_safe k" "sint (key_first test) < sint (key_second test)" "sint (key_first test) + 1 \<in> span k"
  shows "sint (key_second k) \<le> sint (key_first (widen k test)) \<and> sint (key_first test) < sint (key_first (widen k test))"
  using assms by (auto simp: widen_def Let_def span_def sint_first_succ)

text \<open>A new lower end is always the upper end of a key.\<close>

lemma widen_first_cases: "key_first (widen k test) = key_first test \<or> key_first (widen k test) = key_second k"
  by (simp add: widen_def Let_def)

lemma range_pass_spec:
  "\<lbrakk>range_pass ks test = (test', done); \<forall>k \<in> set ks. key_safe k; sint (key_first test) < sint (key_second test)\<rbrakk> \<Longrightarrow>
     inner test \<subseteq> covered ks \<union> inner test' \<and> sint (key_first test) \<le> sint (key_first test') \<and>
     sint (key_second test') \<le> sint (key_second test) \<and>
     (done \<longleftrightarrow> sint (key_second test') \<le> sint (key_first test'))"
proof (induction ks arbitrary: test)
  case (Cons k ks)
  note w = widen_inner [of k test] widen_first [of k test] widen_second [of k test]
  show ?case
  proof (cases "sint (key_second (widen k test)) \<le> sint (key_first (widen k test))")
    case True
    then show ?thesis using Cons.prems w by (auto simp: Let_def)
  next
    case False
    then have p: "range_pass ks (widen k test) = (test', done)" using Cons.prems by (simp add: Let_def)
    from Cons.IH [OF p] False Cons.prems
    have i: "inner (widen k test) \<subseteq> covered ks \<union> inner test'" "sint (key_first (widen k test)) \<le> sint (key_first test')"
      "sint (key_second test') \<le> sint (key_second (widen k test))" "done \<longleftrightarrow> sint (key_second test') \<le> sint (key_first test')" by simp_all
    then show ?thesis using Cons.prems w by (auto simp: subset_iff)
  qed
qed auto

lemma range_pass_advance:
  "\<lbrakk>range_pass ks test = (test', False); \<forall>k \<in> set ks. key_safe k; sint (key_first test) < sint (key_second test);
    k \<in> set ks; sint (key_first test) + 1 \<in> span k\<rbrakk> \<Longrightarrow> sint (key_second k) \<le> sint (key_first test')"
proof (induction ks arbitrary: test)
  case (Cons j ks)
  let ?t = "widen j test"
  have d: "\<not> sint (key_second ?t) \<le> sint (key_first ?t)" and p: "range_pass ks ?t = (test', False)"
    using Cons.prems(1) by (auto simp: Let_def split: if_splits)
  have t: "sint (key_first ?t) < sint (key_second ?t)" "\<forall>k \<in> set ks. key_safe k" using d Cons.prems by simp_all
  note after = range_pass_spec [OF p t(2,1)]
  have le: "sint (key_first test) \<le> sint (key_first ?t)" using widen_first [of j test] Cons.prems by simp
  show ?case
  proof (cases "k = j")
    case True
    then show ?thesis using widen_advance [of j test] Cons.prems after by fastforce
  next
    case False
    then have k: "k \<in> set ks" using Cons.prems by simp
    show ?thesis
    proof (cases "sint (key_second k) \<le> sint (key_first ?t)")
      case True
      then show ?thesis using after by linarith
    next
      case False
      then have "sint (key_first ?t) + 1 \<in> span k" using Cons.prems(5) le by (simp add: span_def)
      then show ?thesis using Cons.IH [OF p t(2,1) k] by simp
    qed
  qed
qed simp

definition ahead :: "Key list \<Rightarrow> Key \<Rightarrow> nat" where
  "ahead ks test = length (filter (\<lambda>k. sint (key_first test) < sint (key_second k)) ks)"

lemma filter_less: "\<lbrakk>\<And>x. Q x \<Longrightarrow> P x; x \<in> set xs; P x; \<not> Q x\<rbrakk> \<Longrightarrow> length (filter Q xs) < length (filter P xs)"
proof (induction xs)
  case (Cons y ys)
  have le: "length (filter Q zs) \<le> length (filter P zs)" for zs by (induction zs) (auto simp: Cons.prems(1))
  show ?case
  proof (cases "x = y")
    case True
    then show ?thesis using Cons.prems le [of ys] by simp
  next
    case False
    then show ?thesis using Cons.IH [OF Cons.prems(1)] Cons.prems by auto
  qed
qed simp

lemma range_loop_sound:
  "\<lbrakk>range_loop n req ks test; \<forall>k \<in> set ks. key_safe k; sint (key_first test) < sint (key_second test)\<rbrakk> \<Longrightarrow>
     inner test \<subseteq> covered ks"
proof (induction n arbitrary: test)
  case (Suc n)
  obtain t1 d where p: "range_pass ks test = (t1, d)" by fastforce
  note sp = range_pass_spec [OF p Suc.prems(2,3)]
  show ?case
  proof (cases d)
    case True
    then have "inner t1 = {}" using sp by (simp add: inner_def)
    then show ?thesis using sp by simp
  next
    case False
    then have "range_loop n req ks t1" using Suc.prems(1) p by (auto split: if_splits)
    then have "inner t1 \<subseteq> covered ks" using Suc.IH Suc.prems(2) sp False by simp
    then show ?thesis using sp by auto
  qed
qed simp

lemma range_loop_complete:
  "\<lbrakk>\<forall>k \<in> set ks. key_safe k; sint (key_first test) < sint (key_second test); span req \<subseteq> covered ks;
    sint (key_first req) \<le> sint (key_first test); sint (key_second test) \<le> sint (key_second req);
    ahead ks test \<le> n\<rbrakk> \<Longrightarrow> range_loop n req ks test"
proof (induction n arbitrary: test)
  case (0 test)
  have "sint (key_first test) + 1 \<in> span req" using "0.prems" by (simp add: span_def)
  then obtain k where k: "k \<in> set ks" "sint (key_first test) + 1 \<in> span k" using "0.prems"(3) by blast
  then have "k \<in> set (filter (\<lambda>k. sint (key_first test) < sint (key_second k)) ks)" by (simp add: span_def)
  then show ?case using "0.prems"(6) by (metis ahead_def le_zero_eq length_0_conv list.set(1) empty_iff)
next
  case (Suc n test)
  have "sint (key_first test) + 1 \<in> span req" using Suc.prems by (simp add: span_def)
  then obtain k where k: "k \<in> set ks" "sint (key_first test) + 1 \<in> span k" using Suc.prems(3) by blast
  obtain t1 d where p: "range_pass ks test = (t1, d)" by fastforce
  note sp = range_pass_spec [OF p Suc.prems(1,2)]
  show ?case
  proof (cases d)
    case False
    then have adv: "sint (key_second k) \<le> sint (key_first t1)"
      using range_pass_advance [of ks test t1 k] p Suc.prems(1,2) k by simp
    have up: "sint (key_first test) < sint (key_first t1)" using adv k(2) by (simp add: span_def)
    have "ahead ks t1 < ahead ks test"
      unfolding ahead_def by (rule filter_less [OF _ k(1)]) (use adv up k(2) in \<open>auto simp: span_def\<close>)
    then have "range_loop n req ks t1" using Suc.IH [of t1] Suc.prems sp False by simp
    then show ?thesis using p up Suc.prems(4) False by simp
  qed (simp add: p)
qed

text \<open>C22. The test that decides whether the selected conditions cover the requested range
  (\<open>is_range_complete\<close>). It is complete: if the keys cover the whole range it says so, within as many
  passes as there are keys, whatever their order. It is sound for the inside of the range: if it says
  so, every time strictly between the two ends is covered. The ends themselves need not be, see
  the witness: the key (1,10) passes for the request (0,10).\<close>
theorem range_complete_spec:
  assumes "\<forall>k \<in> set ks. range_ok k \<and> key_first k \<noteq> MAX_KEY" "sint (key_first req) < sint (key_second req)"
  shows "(is_range_complete req ks \<longrightarrow> {sint (key_first req) <..< sint (key_second req)} \<subseteq> \<Union> (span ` set ks)) \<and>
    (span req \<subseteq> \<Union> (span ` set ks) \<longrightarrow> is_range_complete req ks)"
proof -
  have "ahead ks req \<le> length ks" by (simp add: ahead_def)
  then show ?thesis using range_loop_sound [OF _ assms] range_loop_complete [OF assms]
    by (simp add: is_range_complete_def inner_def)
qed

theorem range_complete_spec_witness:
  "is_range_complete (Key 0 10) [Key 7 12, Key 0 2, Key 3 6] \<and>
   is_range_complete (Key 0 10) [Key 1 10] \<and> {0 <..< 10} \<subseteq> span (Key 1 10) \<and> \<not> span (Key 0 10) \<subseteq> span (Key 1 10)"
proof -
  have ok: "\<forall>k \<in> set [Key 7 12, Key 0 2, Key 3 6]. range_ok k \<and> key_first k \<noteq> MAX_KEY"
    by (simp add: range_ok_def MAX_KEY_def)
  have "span (Key 0 10) \<subseteq> \<Union> (span ` set [Key 7 12, Key 0 2, Key 3 6])" by (auto simp: span_def)
  then have "is_range_complete (Key 0 10) [Key 7 12, Key 0 2, Key 3 6]"
    using range_complete_spec [OF ok, of "Key 0 10"] by simp
  moreover have ok: "\<forall>k \<in> set [Key 1 10]. range_ok k \<and> key_first k \<noteq> MAX_KEY" by (simp add: range_ok_def MAX_KEY_def)
  moreover have "is_range_complete (Key 0 10) [Key 1 10]" by (simp add: is_range_complete_def widen_def Let_def)
  moreover from this have "{0 <..< 10} \<subseteq> span (Key 1 10)" using range_complete_spec [OF ok, of "Key 0 10"] by simp
  moreover have "0 \<in> span (Key 0 10) - span (Key 1 10)" by (simp add: span_def)
  ultimately show ?thesis by blast
qed

end
