(* ===== verification/ConditionsUserPool.thy ===== *)
theory ConditionsUserPool
  imports ConditionsManager
begin

text \<open>
  The user pool, the container through which a client sees the conditions of one interval of validity:
  \<open>src/DDCond/src/plugins/ConditionsUserPool.cpp\<close>, the instance with \<open>std::map\<close>. Conditions are
  addresses of the store \<open>CondState\<close>; the pointer to the pools of the interval type is the index
  of the type. The pool keeps the conditions ordered by their keys, so a range of keys and the
  conditions of a detector element are intervals of the map. The printing switched on by the
  pool's flags is left out.
\<close>

record UserPool =
  up_conditions :: "(u64, cond) std_map"
  up_iov :: IOV
  up_iovPool :: nat

text \<open>The constructor; \<open>loader\<close> tells whether the manager has a loader of conditions.\<close>

definition UserPool_new :: "CondState \<Rightarrow> bool \<Rightarrow> nat option \<Rightarrow> UserPool cpp" where
  "UserPool_new s loader pool = (case pool of
       None \<Rightarrow> Inl (RuntimeError ''UserPool: FAILED to create mapped user pool. [Invalid IOV pool]'')
     | Some i \<Rightarrow>
         if loader then Inr \<lparr>up_conditions = [], up_iov = (IOV_new None)\<lparr>iov_iovType := Some (cm_iovTypes s ! i)\<rparr>, up_iovPool = i\<rparr>
         else Inl (RuntimeError ''UserPool: The conditions manager is not properly setup. No conditions loader present.''))"

definition i_findCondition :: "UserPool \<Rightarrow> u64 \<Rightarrow> cond" where
  "i_findCondition u key = (case map_of (up_conditions u) key of Some c \<Rightarrow> c | None \<Rightarrow> 0)"

definition i_insert :: "CondState \<Rightarrow> UserPool \<Rightarrow> cond \<Rightarrow> (UserPool \<times> bool) cpp" where
  "i_insert s u c = bindE (cond_get s c) (\<lambda>ob. let (m, ok) = map_emplace (co_hash ob) c (up_conditions u)
     in Inr (u\<lparr>up_conditions := m\<rparr>, ok))"

definition upool_size :: "UserPool \<Rightarrow> nat" where
  "upool_size u = length (up_conditions u)"

definition upool_clear :: "UserPool \<Rightarrow> UserPool" where
  "upool_clear u = u\<lparr>up_iov := IOV_new None, up_conditions := []\<rparr>"

definition upool_exists :: "UserPool \<Rightarrow> u64 \<Rightarrow> bool" where
  "upool_exists u hash \<longleftrightarrow> i_findCondition u hash \<noteq> 0"

definition upool_get :: "UserPool \<Rightarrow> u64 \<Rightarrow> cond" where
  "upool_get u hash = i_findCondition u hash"

definition upool_get_item :: "UserPool \<Rightarrow> u32 \<Rightarrow> u32 \<Rightarrow> cond" where
  "upool_get_item u det_key item_key = upool_get u (KeyMaker det_key item_key)"

text \<open>The conditions with a key between \<open>lower\<close> and \<open>upper\<close>, both included.\<close>

definition upool_range :: "UserPool \<Rightarrow> u64 \<Rightarrow> u64 \<Rightarrow> cond list" where
  "upool_range u lower upper =
     List.map snd (takeWhile (\<lambda>(k, c). k \<le> upper) (dropWhile (\<lambda>(k, c). k < lower) (up_conditions u)))"

definition upool_range_item :: "UserPool \<Rightarrow> u32 \<Rightarrow> u32 \<Rightarrow> u32 \<Rightarrow> cond list" where
  "upool_range_item u det_key lower upper = upool_range u (KeyMaker det_key lower) (KeyMaker det_key upper)"

text \<open>The scans hand the same conditions, in the same order, to a processor with a state.\<close>

definition upool_scan :: "UserPool \<Rightarrow> ('st \<Rightarrow> cond \<Rightarrow> 'st cpp) \<Rightarrow> 'st \<Rightarrow> 'st cpp" where
  "upool_scan u proc st = foldE proc st (List.map snd (up_conditions u))"

definition upool_scan_range :: "UserPool \<Rightarrow> u64 \<Rightarrow> u64 \<Rightarrow> ('st \<Rightarrow> cond \<Rightarrow> 'st cpp) \<Rightarrow> 'st \<Rightarrow> 'st cpp" where
  "upool_scan_range u lower upper proc st =
     foldE proc st (List.map snd (takeWhile (\<lambda>(k, c). k \<le> upper) (dropWhile (\<lambda>(k, c). k < lower) (up_conditions u))))"

definition upool_scan_item :: "UserPool \<Rightarrow> u32 \<Rightarrow> u32 \<Rightarrow> u32 \<Rightarrow> ('st \<Rightarrow> cond \<Rightarrow> 'st cpp) \<Rightarrow> 'st \<Rightarrow> 'st cpp" where
  "upool_scan_item u det_key lower upper = upool_scan_range u (KeyMaker det_key lower) (KeyMaker det_key upper)"

definition upool_remove :: "UserPool \<Rightarrow> u64 \<Rightarrow> UserPool \<times> bool" where
  "upool_remove u hash = (case map_of (up_conditions u) hash of
       Some c \<Rightarrow> (u\<lparr>up_conditions := map_erase hash (up_conditions u)\<rparr>, True)
     | None \<Rightarrow> (u, False))"

text \<open>\<open>insert\<close> raises when the key is taken; the first variant sets the key of the condition before.\<close>

definition double_insert :: cpp_error where
  "double_insert = RuntimeError ''UserPool: ++ Attempt to double insert condition''"

definition upool_insert :: "CondState \<Rightarrow> UserPool \<Rightarrow> cond \<Rightarrow> UserPool cpp" where
  "upool_insert s u c = bindE (i_insert s u c) (\<lambda>(u1, ok). if ok then Inr u1 else Inl double_insert)"

definition upool_insert_item :: "CondState \<Rightarrow> UserPool \<Rightarrow> u32 \<Rightarrow> u32 \<Rightarrow> cond \<Rightarrow> (CondState \<times> UserPool) cpp" where
  "upool_insert_item s u det_key item_key c = bindE (cond_get s c) (\<lambda>ob.
     let s1 = cond_put s c (ob\<lparr>co_hash := KeyMaker det_key item_key\<rparr>)
     in bindE (upool_insert s1 u c) (\<lambda>u1. Inr (s1, u1)))"

text \<open>
  Registration with the manager. A block is registered as a whole and then inserted into the user pool;
  conditions whose key is already present are silently not inserted.
\<close>

definition invalid_iov :: cpp_error where
  "invalid_iov = RuntimeError ''UserPool: ++ Cannot register conditions with invalid IOV.''"

definition upool_registerOne :: "CondState \<Rightarrow> IOV \<Rightarrow> cond \<Rightarrow> (CondState \<times> bool) cpp" where
  "upool_registerOne s iov c = (case iov_iovType iov of
       None \<Rightarrow> Inl invalid_iov
     | Some t \<Rightarrow> bindE (registerIOV s t (iov_keyData iov)) (\<lambda>(s1, p).
         if p \<noteq> 0 then registerUnlocked s1 p c
         else Inl (RuntimeError ''UserPool: ++ Failed to register IOV'')))"

definition i_insert_many :: "CondState \<Rightarrow> UserPool \<Rightarrow> cond list \<Rightarrow> UserPool cpp" where
  "i_insert_many s u cs = foldE (\<lambda>u c. bindE (i_insert s u c) (\<lambda>(u', ok). Inr u')) u cs"

definition upool_registerMany :: "CondState \<Rightarrow> UserPool \<Rightarrow> IOV \<Rightarrow> cond list \<Rightarrow> (CondState \<times> UserPool \<times> nat) cpp" where
  "upool_registerMany s u iov cs = (case iov_iovType iov of
       None \<Rightarrow> Inl invalid_iov
     | Some t \<Rightarrow> bindE (registerIOV s t (iov_keyData iov)) (\<lambda>(s1, p).
         if p \<noteq> 0 then
           bindE (blockRegister s1 p cs) (\<lambda>(s2, result).
             if result = length cs then bindE (i_insert_many s2 u cs) (\<lambda>u1. Inr (s2, u1, result))
             else Inl (RuntimeError ''UserPool: ++ Conditions registration was incomplete''))
         else Inl (RuntimeError ''UserPool: ++ Failed to register IOV'')))"

section \<open>Ranges of keys\<close>

definition upool_ok :: "CondState \<Rightarrow> UserPool \<Rightarrow> bool" where
  "upool_ok s u \<longleftrightarrow> map_ok (up_conditions u) \<and>
     (\<forall>(k, c) \<in> set (up_conditions u). live_in s c \<and> hash_in s c = k)"

text \<open>The interval of the keys of a detector element: the item keys vary over all values.\<close>

lemma unat_KeyMaker: "unat (KeyMaker det item) = 2 ^ 32 * unat det + unat item"
proof -
  have "KeyMaker det item = push_bit 32 (ucast det) + ucast item"
    unfolding KeyMaker_def by (rule disjunctive_add [symmetric]) (auto simp: bit_simps dest: bit_imp_le_length)
  moreover have lt: "unat det < 2 ^ 32" "unat item < 2 ^ 32"
    using unsigned_less [of det, where ?'a = nat] unsigned_less [of item, where ?'a = nat] by simp_all
  moreover have d: "unat (ucast det :: u64) = unat det" "unat (ucast item :: u64) = unat item"
    using lt by (simp_all add: unsigned_ucast_eq take_bit_nat_eq_self)
  moreover have "unat (push_bit 32 (ucast det :: u64)) = 2 ^ 32 * unat det"
    using d(1) lt(1) by (simp add: push_bit_eq_mult unat_word_ariths)
  ultimately show ?thesis using lt by (simp add: unat_word_ariths)
qed

lemma unat_detector: "unat (key_detector h) = unat h div 2 ^ 32"
proof -
  have "unat h < 2 ^ 64" using unsigned_less [of h] by simp
  then have lt: "unat h div 2 ^ 32 < 2 ^ 32" by (simp add: less_mult_imp_div_less)
  have "unat (drop_bit 32 h) = unat h div 2 ^ 32" by (simp add: drop_bit_eq_div unat_div)
  then show ?thesis using lt by (simp only: key_detector_def unsigned_ucast_eq) (simp add: take_bit_nat_eq_self)
qed

lemma unat_item: "unat (key_item h) = unat h mod 2 ^ 32"
  by (simp add: key_item_def unsigned_ucast_eq take_bit_eq_mod)

lemma KeyMaker_keys: "key_detector (KeyMaker det item) = det" "key_item (KeyMaker det item) = item"
  using unsigned_less [of det, where ?'a = nat] unsigned_less [of item, where ?'a = nat]
  by (simp_all add: word_unat_eq_iff unat_detector unat_item unat_KeyMaker)

lemma KeyMaker_split: "KeyMaker (key_detector h) (key_item h) = h"
  by (simp add: word_unat_eq_iff unat_KeyMaker unat_detector unat_item)

lemma KeyMaker_range: "KeyMaker det lo \<le> h \<and> h \<le> KeyMaker det hi \<longleftrightarrow> key_detector h = det \<and> lo \<le> key_item h \<and> key_item h \<le> hi"
proof -
  have "unat h = 2 ^ 32 * unat (key_detector h) + unat (key_item h)"
    using unat_KeyMaker [of "key_detector h" "key_item h"] by (simp add: KeyMaker_split)
  moreover have "unat (key_item h) < 2 ^ 32" "unat lo < 2 ^ 32" "unat hi < 2 ^ 32"
    using unsigned_less [of "key_item h", where ?'a = nat] unsigned_less [of lo, where ?'a = nat]
      unsigned_less [of hi, where ?'a = nat] by simp_all
  moreover have "(2 ^ 32 * a + l \<le> 2 ^ 32 * b + i \<and> 2 ^ 32 * b + i \<le> 2 ^ 32 * a + u) \<longleftrightarrow> (b = a \<and> l \<le> i \<and> i \<le> u)"
    if "i < 2 ^ 32" "l < 2 ^ 32" "u < 2 ^ 32" for a b i l u :: nat
    using that by (cases a b rule: linorder_cases) (auto dest: less_imp_Suc_add)
  ultimately show ?thesis by (simp add: word_le_nat_alt word_unat_eq_iff unat_KeyMaker)
qed

lemma sorted_range:
  "map_ok m \<Longrightarrow> takeWhile (\<lambda>(k, c). k \<le> u) (dropWhile (\<lambda>(k, c). k < l) m) = filter (\<lambda>(k, c). l \<le> k \<and> k \<le> u) m"
proof (induction m)
  case (Cons p m)
  obtain k c where p: "p = (k, c)" by fastforce
  have tail: "takeWhile (\<lambda>(k, c). k \<le> u) m' = filter (\<lambda>(k, c). l \<le> k \<and> k \<le> u) m'"
    if "map_ok m'" "\<forall>(k, c) \<in> set m'. l \<le> k" for m' :: "('a, 'b) std_map"
    using that
  proof (induction m')
    case (Cons q n)
    then show ?case by (cases q) (fastforce simp: map_ok_Cons intro!: filter_False [symmetric])
  qed simp
  show ?case
  proof (cases "k < l")
    case True
    then show ?thesis using Cons p by (auto simp: map_ok_Cons)
  next
    case False
    then have "\<forall>(k, c) \<in> set (p # m). l \<le> k" using Cons.prems p by (fastforce simp: map_ok_Cons)
    then show ?thesis using tail [OF Cons.prems] False p by simp
  qed
qed simp

section \<open>Registration of a block\<close>

definition adopted :: "nat \<Rightarrow> ConditionObject \<Rightarrow> ConditionObject" where
  "adopted iov ob = ob\<lparr>co_iov := iov, co_flags := co_flags ob OR cond_ACTIVE\<rparr>"

definition adopt_all :: "nat \<Rightarrow> cond list \<Rightarrow> (nat \<Rightarrow> ConditionObject option) \<Rightarrow> nat \<Rightarrow> ConditionObject option" where
  "adopt_all iov cs m c = (if c \<in> set cs then map_option (adopted iov) (m c) else m c)"

lemma adopt_all_Nil: "adopt_all iov [] m = m"
  by (rule ext) (simp add: adopt_all_def)

lemma adopt_all_Cons: "\<lbrakk>c \<notin> set cs; m c = Some ob\<rbrakk> \<Longrightarrow> adopt_all iov cs (m(c \<mapsto> adopted iov ob)) = adopt_all iov (c # cs) m"
  by (rule ext) (auto simp: adopt_all_def)

definition block_state :: "CondState \<Rightarrow> nat \<Rightarrow> ConditionsPool \<Rightarrow> cond list \<Rightarrow> cond list \<Rightarrow> CondState" where
  "block_state s p q l cs = s\<lparr>
     cs_cond := adopt_all (cp_iov q) cs (cs_cond s),
     cs_pool := (cs_pool s)(p \<mapsto> q\<lparr>cp_entries := LinearPool (l @ cs)\<rparr>),
     cm_calls := cm_calls s @ concat (List.map (\<lambda>c. List.map (\<lambda>i. (i, c)) (cm_onRegister s)) cs)\<rparr>"

lemma block_state_Cons:
  assumes "c \<notin> set cs" and "cs_cond s c = Some ob"
  shows "block_state (call_listeners (cm_onRegister s) (s\<lparr>cs_cond := (cs_cond s)(c \<mapsto> adopted (cp_iov q) ob),
      cs_pool := (cs_pool s)(p \<mapsto> q\<lparr>cp_entries := LinearPool (l @ [c])\<rparr>)\<rparr>) c) p
      (q\<lparr>cp_entries := LinearPool (l @ [c])\<rparr>) (l @ [c]) cs = block_state s p q l (c # cs)"
  using adopt_all_Cons [where m = "cs_cond s", OF assms] by (simp add: block_state_def call_listeners_def)

lemma block_step_live:
  assumes "mgr_ok s" "live_in s c" "\<not> registered s c" "cs_pool s p = Some q" "cp_entries q = LinearPool l"
  obtains s1 where "block_step p (s, n) c = Inr (call_listeners (cm_onRegister s1) s1 c, Suc n)" "mgr_ok s1"
    "s1 = s\<lparr>cs_cond := (cs_cond s)(c \<mapsto> adopted (cp_iov q) (the (cs_cond s c))),
      cs_pool := (cs_pool s)(p \<mapsto> q\<lparr>cp_entries := LinearPool (l @ [c])\<rparr>)\<rparr>"
proof -
  obtain s1 s2 e b where r: "pool_get s p = Inr q" "adopt_condition s q c = Inr s1" "pool_insert s1 p c = Inr (s2, b)"
    "entries_insert s (cp_entries q) c = Inr (e, b)"
    "s2 = s\<lparr>cs_cond := (cs_cond s)(c \<mapsto> (the (cs_cond s c))\<lparr>co_iov := cp_iov q,
        co_flags := co_flags (the (cs_cond s c)) OR cond_ACTIVE\<rparr>), cs_pool := (cs_pool s)(p \<mapsto> q\<lparr>cp_entries := e\<rparr>)\<rparr>"
    "mgr_ok s2" by (rule adopt_insert [OF assms(1-4)]) blast
  have e: "e = LinearPool (l @ [c])" using r(4) live_access [OF assms(2)] assms(5) by simp
  have "c \<noteq> 0" using assms(2) by (simp add: live_in_def)
  then have "block_step p (s, n) c = Inr (call_listeners (cm_onRegister s2) s2 c, Suc n)" using r(1-3) by (simp add: block_step_def)
  moreover have "s2 = s\<lparr>cs_cond := (cs_cond s)(c \<mapsto> adopted (cp_iov q) (the (cs_cond s c))),
      cs_pool := (cs_pool s)(p \<mapsto> q\<lparr>cp_entries := LinearPool (l @ [c])\<rparr>)\<rparr>" by (simp add: r(5) e adopted_def)
  ultimately show thesis by (rule that [OF _ r(6)])
qed

lemma blockRegister_live:
  "\<lbrakk>mgr_ok s; \<forall>c \<in> set cs. live_in s c \<and> \<not> registered s c; distinct cs; cs_pool s p = Some q; cp_entries q = LinearPool l\<rbrakk> \<Longrightarrow>
    foldE (block_step p) (s, n) cs = Inr (block_state s p q l cs, n + length cs) \<and> mgr_ok (block_state s p q l cs)"
proof (induction cs arbitrary: s q l n)
  case Nil
  have "q\<lparr>cp_entries := LinearPool l\<rparr> = q" using Nil.prems(5) by simp
  then have "block_state s p q l [] = s" using Nil.prems(4) by (simp add: block_state_def fun_upd_idem adopt_all_Nil)
  then show ?case using Nil.prems(1) by simp
next
  case (Cons c cs)
  let ?ob = "the (cs_cond s c)" and ?q = "q\<lparr>cp_entries := LinearPool (l @ [c])\<rparr>"
  have ob: "cs_cond s c = Some ?ob" using Cons.prems(2) by (auto simp: live_in_def)
  have prem: "live_in s c" "\<not> registered s c" using Cons.prems(2) by simp_all
  obtain s1 where s1: "block_step p (s, n) c = Inr (call_listeners (cm_onRegister s1) s1 c, Suc n)" "mgr_ok s1"
    "s1 = s\<lparr>cs_cond := (cs_cond s)(c \<mapsto> adopted (cp_iov q) ?ob), cs_pool := (cs_pool s)(p \<mapsto> ?q)\<rparr>"
    by (rule block_step_live [OF Cons.prems(1) prem Cons.prems(4,5)]) blast
  let ?s2 = "call_listeners (cm_onRegister s1) s1 c"
  have cl: "cm_onRegister s1 = cm_onRegister s" by (simp add: s1(3))
  have reg: "registered ?s2 d \<longleftrightarrow> registered s d" if "d \<noteq> c" for d
    unfolding registered_def using that Cons.prems(4,5)
    by (intro ex_cong1) (auto simp: call_listeners_same s1(3) pool_conds_def)
  have "\<forall>d \<in> set cs. live_in ?s2 d \<and> \<not> registered ?s2 d"
    using Cons.prems(2,3) reg by (auto simp: live_in_def call_listeners_same s1(3))
  moreover have "cs_pool ?s2 p = Some ?q" by (simp add: call_listeners_same s1(3))
  ultimately have ih: "foldE (block_step p) (?s2, Suc n) cs = Inr (block_state ?s2 p ?q (l @ [c]) cs, Suc n + length cs) \<and>
      mgr_ok (block_state ?s2 p ?q (l @ [c]) cs)"
    using Cons.IH [of ?s2 ?q "l @ [c]" "Suc n"] s1(2) Cons.prems(3) by simp
  have "block_state ?s2 p ?q (l @ [c]) cs = block_state s p q l (c # cs)"
    using block_state_Cons [where s = s and q = q and p = p and l = l, OF _ ob, of cs] Cons.prems(3) unfolding cl s1(3) by simp
  then show ?case using ih s1(1) by simp
qed

lemma i_insert_many_live:
  "\<lbrakk>\<forall>c \<in> set cs. live_in s c\<rbrakk> \<Longrightarrow> i_insert_many s u cs =
     Inr (u\<lparr>up_conditions := foldl (\<lambda>m c. fst (map_emplace (hash_in s c) c m)) (up_conditions u) cs\<rparr>)"
  by (induction cs arbitrary: u)
    (simp_all add: i_insert_many_def i_insert_def live_get hash_in_def Let_def split_beta)

lemma emplace_all_ok:
  "\<lbrakk>map_ok m; \<forall>(k, c) \<in> set m. P k c; \<forall>c \<in> set cs. P (h c) c\<rbrakk> \<Longrightarrow>
    \<forall>(k, c) \<in> set (foldl (\<lambda>m c. fst (map_emplace (h c) c m)) m cs). P k c"
proof (induction cs arbitrary: m)
  case (Cons c cs)
  let ?m = "fst (map_emplace (h c) c m)"
  have "set ?m \<subseteq> insert (h c, c) (set m)" using assign_subset [of "h c" c m] by (auto simp: map_emplace_def split: option.splits)
  then have "\<forall>(k, c) \<in> set ?m. P k c" using Cons.prems by fastforce
  then show ?case using Cons.IH [of ?m] Cons.prems map_ok_emplace [of m "h c" c] by simp
qed simp

lemma emplace_all_find:
  "map_of (foldl (\<lambda>m c. fst (map_emplace (h c) c m)) m cs) k =
     (case map_of m k of Some c \<Rightarrow> Some c | None \<Rightarrow> find (\<lambda>c. h c = k) cs)"
  by (induction cs arbitrary: m) (auto simp: map_of_emplace split: option.splits)

section \<open>Properties\<close>

text \<open>The keys of a detector element form an interval, and the range operations find exactly its
  conditions: the words built by \<open>KeyMaker\<close> are ordered first by detector, then by item, so the
  conditions of one detector with an item key in a range are a segment of the map, given in the order of
  their keys; the full range of item keys gives all conditions of the detector. A scan
  visits the same conditions.\<close>

theorem user_pool_ranges:
  assumes "upool_ok s u"
  shows "upool_range_item u det lo hi =
      filter (\<lambda>c. key_detector (hash_in s c) = det \<and> lo \<le> key_item (hash_in s c) \<and> key_item (hash_in s c) \<le> hi)
        (List.map snd (up_conditions u)) \<and>
    upool_range_item u det FIRST_ITEM_KEY LAST_ITEM_KEY =
      filter (\<lambda>c. key_detector (hash_in s c) = det) (List.map snd (up_conditions u)) \<and>
    upool_scan_item u det lo hi (\<lambda>l c. Inr (l @ [c])) [] = Inr (upool_range_item u det lo hi) \<and>
    KeyMaker (key_detector h) (key_item h) = h"
proof -
  have ok: "map_ok (up_conditions u)" and h: "\<And>k c. (k, c) \<in> set (up_conditions u) \<Longrightarrow> hash_in s c = k"
    using assms by (auto simp: upool_ok_def)
  have eq: "upool_range_item u det lo hi =
      filter (\<lambda>c. key_detector (hash_in s c) = det \<and> lo \<le> key_item (hash_in s c) \<and> key_item (hash_in s c) \<le> hi)
        (List.map snd (up_conditions u))" for lo hi
    unfolding upool_range_item_def upool_range_def sorted_range [OF ok] KeyMaker_range filter_map
    by (intro arg_cong [of _ _ "List.map snd"] filter_cong) (auto simp: h)
  have scan: "foldE (\<lambda>l c. Inr (l @ [c])) l cs = (Inr (l @ cs) :: cond list cpp)" for l cs
    by (induction cs arbitrary: l) simp_all
  have "i \<le> LAST_ITEM_KEY" "FIRST_ITEM_KEY \<le> i" for i by (simp_all add: LAST_ITEM_KEY_def FIRST_ITEM_KEY_def)
  then show ?thesis
    unfolding eq by (simp add: upool_scan_item_def upool_scan_range_def scan KeyMaker_split eq
        flip: upool_range_item_def upool_range_def)
qed


theorem user_pool_ranges_witness:
  "\<exists>s u. upool_range_item u 1 FIRST_ITEM_KEY LAST_ITEM_KEY = [5] \<and> upool_size u = 2 \<and>
     upool_scan_item u 1 FIRST_ITEM_KEY LAST_ITEM_KEY (\<lambda>l c. Inr (l @ [c])) [] = Inr [5] \<and> upool_ok s u"
proof -
  let ?ob = "\<lambda>h. \<lparr>co_value = '''', co_iov = 0, co_hash = h, co_flags = 0\<rparr>"
  let ?s = "run_mgr\<lparr>cs_cond := [4 \<mapsto> ?ob (KeyMaker 0 9), 5 \<mapsto> ?ob (KeyMaker 1 2)]\<rparr>"
  let ?u = "\<lparr>up_conditions = [(KeyMaker 0 9, 4), (KeyMaker 1 2, 5)], up_iov = IOV_new None, up_iovPool = 1\<rparr>"
  have lt: "KeyMaker 0 9 < KeyMaker 1 2" by (simp add: word_less_nat_alt unat_KeyMaker)
  then have "KeyMaker 1 2 \<noteq> KeyMaker 0 9" by simp
  then have ok: "upool_ok ?s ?u" using lt by (simp add: upool_ok_def map_ok_Cons live_in_def hash_in_def)
  have "upool_range_item ?u 1 FIRST_ITEM_KEY LAST_ITEM_KEY = [5]"
    using user_pool_ranges [OF ok, of 1, THEN conjunct2, THEN conjunct1] by (simp add: hash_in_def KeyMaker_keys)
  moreover from this have "upool_scan_item ?u 1 FIRST_ITEM_KEY LAST_ITEM_KEY (\<lambda>l c. Inr (l @ [c])) [] = Inr [5]"
    using user_pool_ranges [OF ok, of 1 FIRST_ITEM_KEY LAST_ITEM_KEY] by simp
  moreover have "upool_size ?u = 2" by (simp add: upool_size_def)
  ultimately show ?thesis using ok by blast
qed

text \<open>Inserting a condition for an item of a detector element: if the key is free the condition gets the key, is
  found under it and under no other, nothing else changes, and removing it restores the pool;
  if the key is taken the call raises.\<close>

theorem user_pool_insert:
  assumes "upool_ok s u" and "live_in s c" and "c \<notin> snd ` set (up_conditions u)"
  shows "(upool_exists u (KeyMaker det item) \<longrightarrow> upool_insert_item s u det item c = Inl double_insert) \<and>
    (\<not> upool_exists u (KeyMaker det item) \<longrightarrow> (\<exists>s1 u1. upool_insert_item s u det item c = Inr (s1, u1) \<and> upool_ok s1 u1 \<and>
       upool_get_item u1 det item = c \<and> upool_size u1 = Suc (upool_size u) \<and>
       (\<forall>k. k \<noteq> KeyMaker det item \<longrightarrow> upool_get u1 k = upool_get u k \<and> upool_get u1 k \<noteq> c) \<and>
       upool_remove u1 (KeyMaker det item) = (u, True)))"
proof -
  let ?k = "KeyMaker det item" and ?m = "up_conditions u"
  let ?s1 = "cond_put s c ((the (cs_cond s c))\<lparr>co_hash := ?k\<rparr>)"
  let ?u1 = "u\<lparr>up_conditions := map_assign ?k c ?m\<rparr>"
  have ok: "map_ok ?m" and lv: "\<And>k d. (k, d) \<in> set ?m \<Longrightarrow> live_in s d \<and> hash_in s d = k"
    using assms(1) by (auto simp: upool_ok_def)
  have nz: "(k, d) \<in> set ?m \<Longrightarrow> d \<noteq> 0 \<and> d \<noteq> c" for k d using lv assms(3) by (force simp: live_in_def)
  have g: "cond_get ?s1 c = Inr ((the (cs_cond s c))\<lparr>co_hash := ?k\<rparr>)"
    using assms(2) by (simp add: cond_get_def cond_put_def live_in_def)
  have run: "upool_insert_item s u det item c = bindE (upool_insert ?s1 u c) (\<lambda>u1. Inr (?s1, u1))"
    by (simp add: upool_insert_item_def live_get [OF assms(2)] Let_def)
  have ex: "upool_exists u k \<longleftrightarrow> map_of ?m k \<noteq> None" for k
    using nz [OF map_of_SomeD] by (auto simp: upool_exists_def i_findCondition_def split: option.splits)
  have ne: "i_findCondition u k \<noteq> c" for k
    using assms(2) nz [OF map_of_SomeD] by (auto simp: i_findCondition_def live_in_def split: option.splits)
  show ?thesis
  proof (cases "map_of ?m ?k")
    case (Some d)
    then show ?thesis using ex by (simp add: run upool_insert_def i_insert_def g map_emplace_def)
  next
    case None
    have "upool_insert_item s u det item c = Inr (?s1, ?u1)"
      using None by (simp add: run upool_insert_def i_insert_def g map_emplace_def)
    moreover have "live_in ?s1 e \<and> hash_in ?s1 e = k" if e: "(k, e) \<in> set (map_assign ?k c ?m)" for k e
    proof -
      consider "k = ?k \<and> e = c" | "(k, e) \<in> set ?m" using e assign_subset [of ?k c ?m] by blast
      then show ?thesis
        using assms(2) lv [of k e] nz [of k e] by cases (simp_all add: live_in_def hash_in_def cond_put_def)
    qed
    then have "upool_ok ?s1 ?u1" using ok by (auto simp: upool_ok_def)
    moreover have "upool_size ?u1 = Suc (upool_size u)"
      using mset_assign [OF None, of c] size_mset [of "map_assign ?k c ?m"] by (simp add: upool_size_def)
    moreover have "map_erase ?k (map_assign ?k c ?m) = ?m"
      by (rule map_ok_ext) (use ok None in \<open>auto simp: fun_eq_iff\<close>)
    then have "upool_remove ?u1 ?k = (u, True)" by (simp add: upool_remove_def)
    moreover have "upool_get ?u1 k = upool_get u k \<and> upool_get ?u1 k \<noteq> c" if "k \<noteq> ?k" for k
      using that ne [of k] by (simp add: upool_get_def i_findCondition_def)
    moreover have "upool_get_item ?u1 det item = c"
      by (simp add: upool_get_item_def upool_get_def i_findCondition_def)
    ultimately show ?thesis using ex None by blast
  qed
qed

theorem user_pool_insert_witness:
  "\<exists>s1 u1. upool_insert_item run_cond \<lparr>up_conditions = [], up_iov = IOV_new None, up_iovPool = 1\<rparr> 4 2 3 = Inr (s1, u1) \<and>
     upool_get_item u1 4 2 = 3"
proof -
  let ?u = "\<lparr>up_conditions = [], up_iov = IOV_new None, up_iovPool = 1\<rparr>"
  have ok: "upool_ok run_cond ?u" by (simp add: upool_ok_def)
  have live: "live_in run_cond 3" using run_cond_ok by simp
  have "\<not> upool_exists ?u (KeyMaker 4 2)" by (simp add: upool_exists_def i_findCondition_def)
  then show ?thesis using user_pool_insert [OF ok live, of 4 2] by auto
qed

text \<open>Registering a block of new conditions for an interval: all of them go, in this order, into the pool the
  manager keeps for the interval, refer to its interval and are active; the user pool then finds
  each key that was free under the first condition that has it, and keeps the others. The
  invariants of the manager and of the user pool are kept.\<close>

theorem user_pool_registerMany:
  assumes "mgr_ok s" and "upool_ok s u" and "\<forall>c \<in> set cs. live_in s c \<and> \<not> registered s c" and "distinct cs"
    and "iov_iovType iov = Some t" and "registerIOV s t (iov_keyData iov) = Inr (s1, p)"
    and "cp_entries (the (cs_pool s1 p)) = LinearPool l"
  shows "\<exists>s2 u1. upool_registerMany s u iov cs = Inr (s2, u1, length cs) \<and> mgr_ok s2 \<and> upool_ok s2 u1 \<and>
    pool_at s2 (unat (iovt_type t)) (iov_keyData iov) p \<and> pool_conds s2 p = l @ cs \<and>
    (\<forall>c \<in> set cs. hash_in s2 c = hash_in s c \<and> co_flags (the (cs_cond s2 c)) AND cond_ACTIVE = cond_ACTIVE \<and>
       (\<exists>v. iov_get s2 (co_iov (the (cs_cond s2 c))) = Inr v \<and> iov_keyData v = iov_keyData iov)) \<and>
    (\<forall>k. upool_get u1 k = (if upool_exists u k then upool_get u k
       else case find (\<lambda>c. hash_in s c = k) cs of Some c \<Rightarrow> c | None \<Rightarrow> 0))"
proof -
  let ?i = "unat (iovt_type t)" and ?key = "iov_keyData iov"
  note r = mgr_ok_registerIOV [OF assms(1,6)]
  have ok1: "mgr_ok s1" and at: "pool_at s1 ?i ?key p" and cond: "cs_cond s1 = cs_cond s" using r by blast+
  have el1: "elements_ok s1" using ok1 by (simp add: mgr_ok_def)
  obtain q where q: "cs_pool s1 p = Some q" "iov_ok s1 ?key q" using elements_okD(1) [OF el1 at] by blast
  have lin: "cp_entries q = LinearPool l" using assms(7) q(1) by simp
  obtain v where v: "cp_iov q \<noteq> 0" "cs_iov s1 (cp_iov q) = Some v" "iov_keyData v = ?key"
    using q(2) lin by (auto simp: iov_ok_def)
  have p0: "p \<noteq> 0" using pools_okD(1) [of s1 p q] ok1 q(1) by (simp add: mgr_ok_def pool_live_def)
  have live1: "live_in s1 c \<longleftrightarrow> live_in s c" "hash_in s1 c = hash_in s c" for c
    by (simp_all add: live_in_def hash_in_def cond)
  have pre: "\<forall>c \<in> set cs. live_in s1 c \<and> \<not> registered s1 c" using assms(3) live1 r by simp
  let ?s2 = "block_state s1 p q l cs"
  have blk: "blockRegister s1 p cs = Inr (?s2, length cs)" and ok2: "mgr_ok ?s2"
    using blockRegister_live [OF ok1 pre assms(4) q(1) lin, of 0] by (simp_all add: blockRegister_def)
  have keep: "live_in s c \<Longrightarrow> live_in ?s2 c \<and> hash_in ?s2 c = hash_in s c" for c
    by (auto simp: live_in_def hash_in_def block_state_def adopt_all_def adopted_def cond)
  let ?m = "foldl (\<lambda>m c. fst (map_emplace (hash_in ?s2 c) c m)) (up_conditions u) cs"
  let ?u1 = "u\<lparr>up_conditions := ?m\<rparr>"
  have "i_insert_many ?s2 u cs = Inr ?u1" by (rule i_insert_many_live) (use keep assms(3) in simp)
  then have run: "upool_registerMany s u iov cs = Inr (?s2, ?u1, length cs)"
    using p0 by (simp add: upool_registerMany_def assms(5,6) blk)
  have um: "map_ok (up_conditions u)" "\<forall>(k, c) \<in> set (up_conditions u). live_in s c \<and> hash_in s c = k"
    using assms(2) by (auto simp: upool_ok_def)
  have "\<forall>(k, c) \<in> set ?m. live_in ?s2 c \<and> hash_in ?s2 c = k"
    by (rule emplace_all_ok [OF um(1)]) (use um(2) assms(3) keep in auto)
  then have uok: "upool_ok ?s2 ?u1" using select_map_ok [OF um(1)] by (simp add: upool_ok_def)
  have nz: "map_of (up_conditions u) k = Some c \<Longrightarrow> c \<noteq> 0" for k c
    using um(2) map_of_SomeD [of "up_conditions u" k c] by (auto simp: live_in_def)
  have hash: "find (\<lambda>c. hash_in ?s2 c = k) cs = find (\<lambda>c. hash_in s c = k) cs" for k
    by (rule find_cong) (use keep assms(3) in auto)
  have found: "upool_get ?u1 k = (if upool_exists u k then upool_get u k
       else case find (\<lambda>c. hash_in s c = k) cs of Some c \<Rightarrow> c | None \<Rightarrow> 0)" for k
    using nz [of k] by (auto simp: upool_get_def upool_exists_def i_findCondition_def emplace_all_find hash split: option.splits)
  have at2: "pool_at ?s2 ?i ?key p" using at by (simp add: pool_at_def block_state_def)
  have conds: "pool_conds ?s2 p = l @ cs" by (simp add: pool_conds_def block_state_def)
  have new: "hash_in ?s2 c = hash_in s c \<and> co_flags (the (cs_cond ?s2 c)) AND cond_ACTIVE = cond_ACTIVE \<and>
       (\<exists>v. iov_get ?s2 (co_iov (the (cs_cond ?s2 c))) = Inr v \<and> iov_keyData v = ?key)" if c: "c \<in> set cs" for c
  proof -
    obtain ob where "cs_cond s c = Some ob" using assms(3) c by (auto simp: live_in_def)
    then have "cs_cond ?s2 c = Some (adopted (cp_iov q) ob)" using c by (simp add: block_state_def adopt_all_def cond)
    moreover have "cs_iov ?s2 = cs_iov s1" by (simp add: block_state_def)
    ultimately show ?thesis using v keep [of c] assms(3) c
      by (simp add: adopted_def iov_get_def and.assoc or.commute bit_eq_iff bit_simps)
  qed
  show ?thesis using run ok2 uok at2 conds new found by blast
qed

theorem user_pool_registerMany_witness:
  "\<exists>s2 u1. upool_registerMany run_cond \<lparr>up_conditions = [], up_iov = IOV_new None, up_iovPool = 1\<rparr>
     (IOV_with_key (Some run_type) (Key 1 9)) [3] = Inr (s2, u1, 1) \<and> pool_conds s2 2 = [3] \<and> upool_get u1 77 = 3"
proof -
  let ?u = "\<lparr>up_conditions = [], up_iov = IOV_new None, up_iovPool = 1\<rparr>" and ?v = "IOV_with_key (Some run_type) (Key 1 9)"
  have ok: "mgr_ok run_cond" "upool_ok run_cond ?u" "\<forall>c \<in> set [3]. live_in run_cond c \<and> \<not> registered run_cond c"
    "distinct [3 :: nat]" "iov_iovType ?v = Some run_type"
    using run_cond_ok by (simp_all add: upool_ok_def IOV_with_key_def)
  have raw: "cm_rawPool run_cond = cm_rawPool run_mgr" and q: "cs_pool run_cond 2 = Some \<lparr>cp_entries = LinearPool [], cp_iov = 1, cp_age = 0\<rparr>"
    using run_cond_ok run_mgr_pool(1) by simp_all
  obtain ip where ip: "raw_pool run_mgr 1 = Inr (Some ip)" "map_of (ip_elements ip) (Key 1 9) = Some 2"
    using mgr_ok_registerIOV [OF run_mgr_ok(1,5)] by (auto simp: run_type_def)
  have reg: "registerIOV run_cond run_type (iov_keyData ?v) = Inr (run_cond, 2)"
    using ip raw by (auto simp: registerIOV_def run_type_def raw_pool_put_def raw_pool_def list_update_same_conv IOV_with_key_def split: if_splits)
  have lin: "cp_entries (the (cs_pool run_cond 2)) = LinearPool []" using q by simp
  have h: "hash_in run_cond 3 = 77" using run_cond_ok by simp
  have "\<exists>s2 u1. upool_registerMany run_cond ?u ?v [3] = Inr (s2, u1, length [3 :: nat]) \<and> pool_conds s2 2 = [] @ [3] \<and>
      upool_get u1 77 = (if upool_exists ?u 77 then upool_get ?u 77
       else case find (\<lambda>c. hash_in run_cond c = 77) [3] of Some c \<Rightarrow> c | None \<Rightarrow> 0)"
    using user_pool_registerMany [OF ok reg lin] by blast
  then show ?thesis using h by (simp add: upool_exists_def i_findCondition_def)
qed

end
