(* ===== verification/DependencyHandler.thy ===== *)
theory DependencyHandler
  imports ConditionsUserPool
begin

text \<open>
  Derived conditions: \<open>src/DDCond/src/ConditionsDependencyHandler.cpp\<close>, the context handed to the user
  callbacks (\<open>src/DDCore/src/ConditionDerived.cpp\<close>) and \<open>compute\<close> of the user pool.

  A dependency names the condition to be derived and two user callbacks, one that creates the
  condition and one that resolves its references. User code is not part of the repository, so
  a callback is any value of \<open>action\<close>: the tree of the calls it makes through its context,
  each continued with the result of the call. Accessing a condition that is itself still to be
  derived enters the handler again, which runs the callback of that condition first.

  A work item is addressed by its key; its interval \<open>_iov\<close> is an object of the store, so that the
  pointers \<open>Work::iov\<close>, \<open>context.iov\<close> and \<open>condition->iov\<close> to it share it as they do in the code. The field
  \<open>hd_reads\<close> is no part of the code: it records, for the statements below, which work item got a
  condition from the pool and the interval of that condition. \<open>hd_created\<close> records in the same way the work items
  whose creation callback was entered. Nothing depends on these two fields.

  What an \<open>action\<close> leaves out: a callback cannot catch an exception raised by one of its calls, it cannot
  change the list of dependencies or the map of the user pool other than by registering conditions
  (\<open>conditionsMap()\<close> of the resolver), and it does not recurse outside the handler. Statements about
  all callbacks are statements about all values of \<open>action\<close>.
\<close>

subsection \<open>Callbacks and work items\<close>

datatype action =
    Finish cond
  | Throw string
  | NewCondition string "cond \<Rightarrow> action"
  | GetCondition u64 bool "cond \<Rightarrow> action"
  | ResolverGet u64 bool "cond \<Rightarrow> action"
  | GetConditions u32 "cond list \<Rightarrow> action"
  | GetByItem u32 "cond list \<Rightarrow> action"
  | ReadValue cond "string \<Rightarrow> action"
  | WriteValue cond string action
  | RegisterOne IOV cond "bool \<Rightarrow> action"
  | RegisterMany IOV "cond list" "nat \<Rightarrow> action"

record ConditionDependency =
  cd_target :: u64
  cd_dependencies :: "u64 list"
  cd_create :: action
  cd_resolve :: "cond \<Rightarrow> action"

datatype WorkState = INVALID | CREATED | RESOLVED

record Work =
  wk_addr :: nat
  wk_dependency :: ConditionDependency
  wk_iov :: nat
  wk_condition :: cond
  wk_callstack :: int
  wk_state :: WorkState

record Handler =
  hd_store :: CondState
  hd_pool :: UserPool
  hd_todo :: "(u64, Work) std_map"
  hd_state :: WorkState
  hd_current :: "u64 option"
  hd_iovType :: "IOVType option"
  hd_calls :: nat
  hd_reads :: "(u64 \<times> IOV) list"
  hd_created :: "u64 list"

type_synonym getter = "u64 \<Rightarrow> bool \<Rightarrow> Handler \<Rightarrow> (Handler \<times> cond) cpp"

definition handler_error :: "string \<Rightarrow> cpp_error" where
  "handler_error msg = RuntimeError (''DependencyHandler: '' @ msg)"

definition context_error :: cpp_error where
  "context_error = RuntimeError ''ConditionUpdateCall: Failed to access non-existing condition.''"

definition work_at :: "Handler \<Rightarrow> u64 \<Rightarrow> Work cpp" where
  "work_at h k = (case map_of (hd_todo h) k of Some w \<Rightarrow> Inr w | None \<Rightarrow> Inl bad_pointer)"

definition work_put :: "Handler \<Rightarrow> u64 \<Rightarrow> Work \<Rightarrow> Handler" where
  "work_put h k w = h\<lparr>hd_todo := map_assign k w (hd_todo h)\<rparr>"

definition current_work :: "Handler \<Rightarrow> u64 cpp" where
  "current_work h = (case hd_current h of Some k \<Rightarrow> Inr k | None \<Rightarrow> Inl bad_pointer)"

definition dependency_key :: "ConditionDependency \<Rightarrow> nat \<Rightarrow> u64 cpp" where
  "dependency_key d which = (if which < length (cd_dependencies d) then Inr (cd_dependencies d ! which)
     else Inl (OutOfRange ''vector::_M_range_check''))"

text \<open>The constructor makes one work item per dependency, each with its own copy of the pool's interval.\<close>

definition add_work :: "Handler \<Rightarrow> u64 \<times> ConditionDependency \<Rightarrow> Handler" where
  "add_work h d = (let s = hd_store h; a = cs_next s;
       w = \<lparr>wk_addr = a, wk_dependency = snd d, wk_iov = 0, wk_condition = 0, wk_callstack = 0, wk_state = INVALID\<rparr>
     in h\<lparr>hd_store := iov_put (s\<lparr>cs_next := Suc a\<rparr>) a (up_iov (hd_pool h)),
          hd_todo := fst (map_emplace (fst d) w (hd_todo h))\<rparr>)"

definition Handler_new :: "CondState \<Rightarrow> UserPool \<Rightarrow> (u64, ConditionDependency) std_map \<Rightarrow> Handler" where
  "Handler_new s u deps = foldl add_work
     \<lparr>hd_store = s, hd_pool = u, hd_todo = [], hd_state = CREATED, hd_current = None,
      hd_iovType = iov_iovType (up_iov u), hd_calls = 0, hd_reads = [], hd_created = []\<rparr> deps"

text \<open>The destructor frees the work items, and with them their intervals.\<close>

definition free_block :: "CondState \<Rightarrow> (u64, Work) std_map \<Rightarrow> CondState" where
  "free_block s todo = s\<lparr>cs_iov := cs_iov s |` (- wk_addr ` snd ` set todo)\<rparr>"

subsection \<open>Intervals of work items\<close>

text \<open>\<open>Work::do_intersection\<close>: the first interval is copied, the others are intersected.\<close>

definition do_intersection :: "Handler \<Rightarrow> u64 \<Rightarrow> nat \<Rightarrow> Handler cpp" where
  "do_intersection h k iov_ptr = bindE (work_at h k) (\<lambda>w.
     if iov_ptr = 0 then Inr h
     else bindE (iov_get (hd_store h) iov_ptr) (\<lambda>v.
       if wk_iov w = 0 then
         Inr (work_put (h\<lparr>hd_store := iov_put (hd_store h) (wk_addr w) v\<rparr>) k (w\<lparr>wk_iov := wk_addr w\<rparr>))
       else bindE (iov_get (hd_store h) (wk_addr w)) (\<lambda>own.
         Inr (h\<lparr>hd_store := iov_put (hd_store h) (wk_addr w) (iov_intersection own v)\<rparr>))))"

text \<open>\<open>iov->iov_intersection(c.iov())\<close> of the context; \<open>c.iov()\<close> throws when the condition has no interval.\<close>

definition invalid_iov_handle :: cpp_error where
  "invalid_iov_handle = RuntimeError ''dd4hep: Attempt to access invalid handle of type: IOV''"

definition context_intersection :: "u64 \<Rightarrow> cond \<Rightarrow> Handler \<Rightarrow> Handler cpp" where
  "context_intersection own c h = bindE (work_at h own) (\<lambda>w. bindE (cond_access (hd_store h) c) (\<lambda>ob.
     if co_iov ob = 0 then Inl invalid_iov_handle
     else bindE (iov_get (hd_store h) (co_iov ob)) (\<lambda>v. bindE (iov_get (hd_store h) (wk_addr w)) (\<lambda>mine.
       Inr (h\<lparr>hd_store := iov_put (hd_store h) (wk_addr w) (iov_intersection mine v)\<rparr>)))))"

text \<open>The current work item takes part in the interval of every condition found in the pool.\<close>

definition current_intersection :: "Handler \<Rightarrow> cond \<Rightarrow> Handler cpp" where
  "current_intersection h c = bindE (cond_get (hd_store h) c) (\<lambda>ob.
     bindE (current_work h) (\<lambda>k. bindE (do_intersection h k (co_iov ob)) (\<lambda>h1.
       Inr (case cs_iov (hd_store h) (co_iov ob) of
            Some v \<Rightarrow> if co_iov ob = 0 then h1 else h1\<lparr>hd_reads := (k, v) # hd_reads h1\<rparr>
          | None \<Rightarrow> h1))))"

subsection \<open>The resolver\<close>

text \<open>Bulk accesses, only allowed in the second pass.\<close>

definition bulk_error :: cpp_error where
  "bulk_error = handler_error ''Conditions bulk accesses are only possible during conditions resolution!''"

definition handler_get_detector :: "u32 \<Rightarrow> Handler \<Rightarrow> (Handler \<times> cond list) cpp" where
  "handler_get_detector det_key h =
     (if hd_state h = RESOLVED then
        let cs = upool_range (hd_pool h) (KeyMaker det_key FIRST_ITEM_KEY) (KeyMaker det_key LAST_ITEM_KEY)
        in bindE (foldE current_intersection h cs) (\<lambda>h1. Inr (h1, cs))
      else Inl bulk_error)"

definition item_selector :: "CondState \<Rightarrow> u32 \<Rightarrow> cond list \<Rightarrow> cond \<Rightarrow> cond list cpp" where
  "item_selector s key cs c = bindE (cond_get s c) (\<lambda>ob.
     Inr (if key_item (co_hash ob) = key then cs @ [c] else cs))"

definition handler_getByItem :: "u32 \<Rightarrow> Handler \<Rightarrow> (Handler \<times> cond list) cpp" where
  "handler_getByItem key h =
     (if hd_state h = RESOLVED then
        bindE (upool_scan (hd_pool h) (item_selector (hd_store h) key) []) (\<lambda>cs.
          bindE (foldE current_intersection h cs) (\<lambda>h1. Inr (h1, cs)))
      else Inl bulk_error)"

definition handler_registerOne :: "Handler \<Rightarrow> IOV \<Rightarrow> cond \<Rightarrow> (Handler \<times> bool) cpp" where
  "handler_registerOne h iov c = bindE (upool_registerOne (hd_store h) iov c) (\<lambda>(s, b). Inr (h\<lparr>hd_store := s\<rparr>, b))"

definition handler_registerMany :: "Handler \<Rightarrow> IOV \<Rightarrow> cond list \<Rightarrow> (Handler \<times> nat) cpp" where
  "handler_registerMany h iov cs = bindE (upool_registerMany (hd_store h) (hd_pool h) iov cs) (\<lambda>(s, u, n).
     Inr (h\<lparr>hd_store := s, hd_pool := u\<rparr>, n))"

text \<open>
  Running a callback of the work item \<open>own\<close>; \<open>get\<close> is the handler's access to a single condition.
  \<open>GetCondition\<close>, \<open>GetConditions\<close> and \<open>GetByItem\<close> are the accesses through the context,
  \<open>ResolverGet\<close> goes directly to the resolver.
\<close>

primrec run_action :: "getter \<Rightarrow> u64 \<Rightarrow> action \<Rightarrow> Handler \<Rightarrow> (Handler \<times> cond) cpp" where
  "run_action get own (Finish c) h = Inr (h, c)"
| "run_action get own (Throw msg) h = Inl (RuntimeError msg)"
| "run_action get own (NewCondition val k) h =
     (let (s, c) = Condition_object (hd_store h) val 0 in run_action get own (k c) (h\<lparr>hd_store := s\<rparr>))"
| "run_action get own (GetCondition key throw k) h = bindE (get key throw h) (\<lambda>(h1, c).
     if c \<noteq> 0 then bindE (context_intersection own c h1) (\<lambda>h2. run_action get own (k c) h2)
     else if throw then Inl context_error else run_action get own (k 0) h1)"
| "run_action get own (ResolverGet key throw k) h = bindE (get key throw h) (\<lambda>(h1, c). run_action get own (k c) h1)"
| "run_action get own (GetConditions det_key k) h = bindE (handler_get_detector det_key h) (\<lambda>(h1, cs).
     bindE (foldE (\<lambda>h c. context_intersection own c h) h1 cs) (\<lambda>h2. run_action get own (k cs) h2))"
| "run_action get own (GetByItem key k) h = bindE (handler_getByItem key h) (\<lambda>(h1, cs).
     bindE (foldE (\<lambda>h c. context_intersection own c h) h1 cs) (\<lambda>h2. run_action get own (k cs) h2))"
| "run_action get own (ReadValue c k) h = bindE (cond_access (hd_store h) c) (\<lambda>ob. run_action get own (k (co_value ob)) h)"
| "run_action get own (WriteValue c val k) h = bindE (cond_access (hd_store h) c) (\<lambda>ob.
     run_action get own k (h\<lparr>hd_store := cond_put (hd_store h) c (ob\<lparr>co_value := val\<rparr>)\<rparr>))"
| "run_action get own (RegisterOne iov c k) h = bindE (handler_registerOne h iov c) (\<lambda>(h1, b). run_action get own (k b) h1)"
| "run_action get own (RegisterMany iov cs k) h = bindE (handler_registerMany h iov cs) (\<lambda>(h1, n). run_action get own (k n) h1)"

text \<open>\<open>Work::resolve\<close>: the item counts as resolved before its callback runs.\<close>

definition enter_resolve :: "u64 \<Rightarrow> Work \<Rightarrow> Handler \<Rightarrow> Handler" where
  "enter_resolve key w h = work_put (h\<lparr>hd_current := Some key\<rparr>) key (w\<lparr>wk_state := RESOLVED\<rparr>)"

definition work_resolve :: "getter \<Rightarrow> u64 \<Rightarrow> Handler \<Rightarrow> (Handler \<times> cond) cpp" where
  "work_resolve get key h = bindE (current_work h) (\<lambda>previous. bindE (work_at h key) (\<lambda>w.
     bindE (run_action get key (cd_resolve (wk_dependency w) (wk_condition w)) (enter_resolve key w h)) (\<lambda>(h2, _).
       bindE (work_at h2 key) (\<lambda>w2. bindE (do_intersection h2 previous (wk_iov w2)) (\<lambda>h3.
         Inr (h3\<lparr>hd_current := Some previous\<rparr>, wk_condition w2))))))"

text \<open>
  \<open>do_callback\<close>: a positive \<open>callstack\<close> means that the callback of this item has not returned yet. Every
  exception is reported as a new one.
\<close>

definition rethrow :: "'a cpp \<Rightarrow> 'a cpp" where
  "rethrow r = (case r of
       Inl (UndefinedBehaviour msg) \<Rightarrow> Inl (UndefinedBehaviour msg)
     | Inl _ \<Rightarrow> Inl (handler_error ''++ Exception while creating dependent Condition'')
     | Inr x \<Rightarrow> Inr x)"

definition enter_callback :: "u64 \<Rightarrow> Work \<Rightarrow> Handler \<Rightarrow> Handler" where
  "enter_callback key w h = work_put (h\<lparr>hd_current := Some key, hd_created := key # hd_created h\<rparr>) key (w\<lparr>wk_callstack := wk_callstack w + 1\<rparr>)"

definition finish_callback :: "u64 \<Rightarrow> u64 option \<Rightarrow> cond \<Rightarrow> Handler \<Rightarrow> Handler cpp" where
  "finish_callback key previous c h = bindE (work_at h key) (\<lambda>w.
     let w1 = w\<lparr>wk_condition := c, wk_callstack := wk_callstack w - 1\<rparr>; h1 = (work_put h key w1)\<lparr>hd_current := previous\<rparr>
     in if c = 0 then Inl (RuntimeError ''Invalid derived condition callback'')
        else
          let iov = (if wk_iov w = 0 then wk_addr w else wk_iov w);
              h2 = (if wk_iov w = 0
                    then work_put (h1\<lparr>hd_store := iov_put (hd_store h1) iov (IOV_with_key (hd_iovType h) key_forever)\<rparr>) key
                           (w1\<lparr>wk_iov := iov\<rparr>)
                    else h1)
          in bindE (case previous of Some p \<Rightarrow> do_intersection h2 p iov | None \<Rightarrow> Inr h2) (\<lambda>h3.
             bindE (cond_get (hd_store h3) c) (\<lambda>ob. bindE (work_at h3 key) (\<lambda>w3.
               Inr (work_put (h3\<lparr>hd_store := cond_put (hd_store h3) c (ob\<lparr>co_iov := iov,
                      co_hash := cd_target (wk_dependency w), co_flags := co_flags ob OR cond_DERIVED\<rparr>),
                    hd_calls := hd_calls h3 + 1\<rparr>) key (w3\<lparr>wk_state := CREATED\<rparr>))))))"

definition do_callback :: "getter \<Rightarrow> u64 \<Rightarrow> Handler \<Rightarrow> Handler cpp" where
  "do_callback get key h = rethrow (bindE (work_at h key) (\<lambda>w.
     if 0 < wk_callstack w then Inl (handler_error ''++ Handler caught in infinite recursion loop.'')
     else bindE (run_action get key (cd_create (wk_dependency w)) (enter_callback key w h)) (\<lambda>(h2, c).
            finish_callback key (hd_current h) c h2)))"

text \<open>
  \<open>get\<close>: the pool first, then the items still to be derived. The number bounds the depth of nested
  callbacks; \<open>deep\<close> answers the accesses beyond this depth. The code has no bound: with a \<open>deep\<close> that
  fails with a stack overflow and the bound below it behaves the same, because no access is ever
  that deep.
\<close>

definition stack_overflow :: getter where
  "stack_overflow key throw h = Inl (UndefinedBehaviour ''stack overflow'')"

definition get_failed :: "bool \<Rightarrow> Handler \<Rightarrow> (Handler \<times> cond) cpp" where
  "get_failed throw h = (if throw then Inl (handler_error ''Failed to resolve conditon'') else Inr (h, 0))"

fun handler_get :: "getter \<Rightarrow> nat \<Rightarrow> getter" where
  "handler_get deep 0 key throw h = deep key throw h"
| "handler_get deep (Suc n) key throw h =
     (let c = upool_get (hd_pool h) key in
      if c \<noteq> 0 then bindE (current_intersection h c) (\<lambda>h1. Inr (h1, c))
      else case map_of (hd_todo h) key of
        None \<Rightarrow> get_failed throw h
      | Some w \<Rightarrow> (case wk_state w of
            RESOLVED \<Rightarrow> Inr (h, wk_condition w)
          | CREATED \<Rightarrow> work_resolve (handler_get deep n) key h
          | INVALID \<Rightarrow> bindE (do_callback (handler_get deep n) key h) (\<lambda>h1. bindE (work_at h1 key) (\<lambda>w1.
              if wk_condition w1 \<noteq> 0 \<and> wk_state w1 = RESOLVED then Inr (h1, wk_condition w1)
              else if wk_condition w1 \<noteq> 0 then work_resolve (handler_get deep n) key h1
              else get_failed throw h1))))"

subsection \<open>The two passes\<close>

definition compute_step :: "getter \<Rightarrow> nat \<Rightarrow> Handler \<Rightarrow> u64 \<Rightarrow> Handler cpp" where
  "compute_step deep n h key = bindE (work_at h key) (\<lambda>w.
     if wk_condition w \<noteq> 0 then Inr h
     else bindE (do_callback (handler_get deep n) key h) (\<lambda>h1. bindE (work_at h1 key) (\<lambda>w1.
       if wk_condition w1 = 0
       then Inl (handler_error ''Derived condition was not created after calling the creation callback!'')
       else Inr h1)))"

definition handler_compute :: "getter \<Rightarrow> nat \<Rightarrow> Handler \<Rightarrow> Handler cpp" where
  "handler_compute deep n h = foldE (compute_step deep n) (h\<lparr>hd_state := CREATED\<rparr>) (List.map fst (hd_todo h))"

text \<open>The second pass resolves, sorts the conditions by their intervals and registers them in blocks.\<close>

definition work_interval :: "Handler \<Rightarrow> Work \<Rightarrow> Key cpp" where
  "work_interval h w = bindE (iov_get (hd_store h) (wk_iov w)) (\<lambda>v. Inr (iov_keyData v))"

definition resolve_step :: "getter \<Rightarrow> nat \<Rightarrow> Handler \<times> (Key, cond list) std_map \<Rightarrow> u64 \<Rightarrow> (Handler \<times> (Key, cond list) std_map) cpp" where
  "resolve_step deep n = (\<lambda>(h, pools) key. bindE (work_at h key) (\<lambda>w.
     let h1 = h\<lparr>hd_current := Some key\<rparr>
     in bindE (if wk_state w \<noteq> RESOLVED then bindE (work_resolve (handler_get deep n) key h1) (\<lambda>(h2, _). Inr h2) else Inr h1)
       (\<lambda>h2. bindE (work_at h2 key) (\<lambda>w2. bindE (work_interval h2 w2) (\<lambda>k. Inr (h2, fst (map_emplace k [] pools)))))))"

definition section_step :: "Handler \<Rightarrow> (Key, cond list) std_map \<Rightarrow> u64 \<Rightarrow> (Key, cond list) std_map cpp" where
  "section_step h pools key = bindE (work_at h key) (\<lambda>w. bindE (work_interval h w) (\<lambda>k.
     Inr (map_assign k ((case map_of pools k of Some cs \<Rightarrow> cs | None \<Rightarrow> []) @ [wk_condition w]) pools)))"

definition register_step :: "Handler \<Rightarrow> Key \<times> cond list \<Rightarrow> Handler cpp" where
  "register_step h sec = bindE (handler_registerMany h (IOV_with_key (hd_iovType h) (fst sec)) (snd sec)) (\<lambda>(h1, n). Inr h1)"

definition resolve_all :: "getter \<Rightarrow> nat \<Rightarrow> Handler \<Rightarrow> (Handler \<times> (Key, cond list) std_map) cpp" where
  "resolve_all deep n h = foldE (resolve_step deep n) (h\<lparr>hd_state := RESOLVED\<rparr>, []) (List.map fst (hd_todo h))"

definition register_all :: "Handler \<times> (Key, cond list) std_map \<Rightarrow> Handler cpp" where
  "register_all = (\<lambda>(h, pools). bindE (foldE (section_step h) pools (List.map fst (hd_todo h)))
     (\<lambda>sections. foldE register_step h sections))"

definition handler_resolve :: "getter \<Rightarrow> nat \<Rightarrow> Handler \<Rightarrow> Handler cpp" where
  "handler_resolve deep n h = bindE (resolve_all deep n h) register_all"

text \<open>
  The depth of nested callbacks that the code can reach: every item can be entered once by its
  creation and once by its resolution.
\<close>

definition depth_bound :: "(u64, 'w) std_map \<Rightarrow> nat" where
  "depth_bound todo = Suc (2 * length todo)"

definition run_handler_to :: "getter \<Rightarrow> nat \<Rightarrow> CondState \<Rightarrow> UserPool \<Rightarrow> (u64, ConditionDependency) std_map \<Rightarrow>
    (CondState \<times> UserPool \<times> nat) cpp" where
  "run_handler_to deep n s u deps = bindE (handler_compute deep n (Handler_new s u deps)) (\<lambda>h1.
     bindE (handler_resolve deep n h1) (\<lambda>h2. Inr (free_block (hd_store h2) (hd_todo h2), hd_pool h2, hd_calls h2)))"

definition run_handler :: "CondState \<Rightarrow> UserPool \<Rightarrow> (u64, ConditionDependency) std_map \<Rightarrow> (CondState \<times> UserPool \<times> nat) cpp" where
  "run_handler s u deps = run_handler_to stack_overflow (depth_bound deps) s u deps"

subsection \<open>Derived conditions of a user pool\<close>

text \<open>
  \<open>UserPool::compute\<close>: dependencies whose condition is missing, or (without \<open>force\<close>) present but no
  longer valid for the whole interval of the pool, are derived again.
\<close>

definition missing_step :: "CondState \<Rightarrow> bool \<Rightarrow> UserPool \<times> (u64, ConditionDependency) std_map \<Rightarrow> u64 \<times> ConditionDependency \<Rightarrow>
    (UserPool \<times> (u64, ConditionDependency) std_map) cpp" where
  "missing_step s force = (\<lambda>(u, missing) (key, d). case map_of (up_conditions u) key of
       None \<Rightarrow> Inr (u, fst (map_emplace key d missing))
     | Some c \<Rightarrow>
         let u1 = u\<lparr>up_conditions := map_erase key (up_conditions u)\<rparr>
         in if force then Inr (u1, fst (map_emplace key d missing))
            else bindE (cond_get s c) (\<lambda>ob. bindE (iov_get s (co_iov ob)) (\<lambda>v.
              Inr (if \<not> key_is_contained (iov_keyData (up_iov u)) (iov_keyData v)
                   then (u1, fst (map_emplace key d missing)) else (u, missing)))))"

definition upool_compute_deps :: "CondState \<Rightarrow> UserPool \<Rightarrow> (u64, ConditionDependency) std_map \<Rightarrow> bool \<Rightarrow>
    (CondState \<times> UserPool \<times> nat) cpp" where
  "upool_compute_deps s u deps force =
     bindE (foldE (missing_step s force) (u, []) deps) (\<lambda>(u1, missing).
       if missing = [] then Inr (s, u1, 0) else run_handler s u1 missing)"
end
