(* ===== verification/ConditionsContent.thy ===== *)
theory ConditionsContent
  imports DependencyHandler
begin

text \<open>
  The contents of conditions slices: \<open>src/DDCond/src/ConditionsContent.cpp\<close>. A content names the
  conditions a client needs: keys with the information a loader needs to load them, and dependencies
  for the conditions to be derived. Load information and dependencies are shared between contents by
  counted references; an object whose count drops to 0 deletes itself. The counts are the subject of
  the theory: they are right as long as a client that adds existing objects holds a reference of its own to what it
  adds under a taken key, and wrong when it does not.

  Objects live in a store, an address is a number and 0 the null pointer. The counts are
  unbounded integers here (\<open>int\<close> in the code, where one needs a reference each).
\<close>

subsection \<open>Counted objects\<close>

record 'o counted =
  ref_count :: int
  ref_object :: 'o

type_synonym 'o counts = "nat \<Rightarrow> 'o counted option"

definition addRef :: "'o counts \<Rightarrow> nat \<Rightarrow> 'o counts cpp" where
  "addRef h a = (case h a of
       Some r \<Rightarrow> if a = 0 then Inl bad_pointer else Inr (h(a \<mapsto> r\<lparr>ref_count := ref_count r + 1\<rparr>))
     | None \<Rightarrow> Inl bad_pointer)"

definition release :: "'o counts \<Rightarrow> nat \<Rightarrow> 'o counts cpp" where
  "release h a = (case h a of
       Some r \<Rightarrow> if a = 0 then Inl bad_pointer
         else if ref_count r - 1 \<le> 0 then Inr (h(a := None))
         else Inr (h(a \<mapsto> r\<lparr>ref_count := ref_count r - 1\<rparr>))
     | None \<Rightarrow> Inl bad_pointer)"

definition releasePtr :: "'o counts \<Rightarrow> nat \<Rightarrow> 'o counts cpp" where
  "releasePtr h a = (if a \<noteq> 0 then release h a else Inr h)"

text \<open>All objects of a map, which the callers empty then.\<close>

definition releaseObjects :: "'o counts \<Rightarrow> (u64, nat) std_map \<Rightarrow> 'o counts cpp" where
  "releaseObjects h m = foldE releasePtr h (List.map snd m)"

subsection \<open>Contents\<close>

record RefStore =
  rs_next :: nat
  rs_infos :: "string counts"
  rs_deps :: "ConditionDependency counts"

record ConditionsContent =
  cc_conditions :: "(u64, nat) std_map"
  cc_derived :: "(u64, nat) std_map"

definition ConditionsContent_new :: ConditionsContent where
  "ConditionsContent_new = \<lparr>cc_conditions = [], cc_derived = []\<rparr>"

definition new_info :: "RefStore \<Rightarrow> string \<Rightarrow> RefStore \<times> nat" where
  "new_info s info = (let a = rs_next s in
     (s\<lparr>rs_next := Suc a, rs_infos := (rs_infos s)(a \<mapsto> \<lparr>ref_count = 0, ref_object = info\<rparr>)\<rparr>, a))"

definition new_dependency :: "RefStore \<Rightarrow> ConditionDependency \<Rightarrow> RefStore \<times> nat" where
  "new_dependency s d = (let a = rs_next s in
     (s\<lparr>rs_next := Suc a, rs_deps := (rs_deps s)(a \<mapsto> \<lparr>ref_count = 0, ref_object = d\<rparr>)\<rparr>, a))"

text \<open>\<open>clear\<close>, which is also what the destructor does.\<close>

definition content_clear :: "RefStore \<Rightarrow> ConditionsContent \<Rightarrow> (RefStore \<times> ConditionsContent) cpp" where
  "content_clear s c = bindE (releaseObjects (rs_deps s) (cc_derived c)) (\<lambda>d.
     bindE (releaseObjects (rs_infos s) (cc_conditions c)) (\<lambda>i.
       Inr (s\<lparr>rs_deps := d, rs_infos := i\<rparr>, c\<lparr>cc_derived := [], cc_conditions := []\<rparr>)))"

definition merge_entry :: "'o counts \<times> (u64, nat) std_map \<Rightarrow> u64 \<times> nat \<Rightarrow> ('o counts \<times> (u64, nat) std_map) cpp" where
  "merge_entry = (\<lambda>(h, m) (k, a). let (m', inserted) = map_emplace k a m in
     if inserted then bindE (addRef h a) (\<lambda>h'. Inr (h', m')) else Inr (h, m'))"

definition merge_map :: "'o counts \<Rightarrow> (u64, nat) std_map \<Rightarrow> (u64, nat) std_map \<Rightarrow> ('o counts \<times> (u64, nat) std_map) cpp" where
  "merge_map h m to_add = foldE merge_entry (h, m) to_add"

definition content_merge :: "RefStore \<Rightarrow> ConditionsContent \<Rightarrow> ConditionsContent \<Rightarrow> (RefStore \<times> ConditionsContent) cpp" where
  "content_merge s c to_add =
     bindE (merge_map (rs_infos s) (cc_conditions c) (cc_conditions to_add)) (\<lambda>(i, m).
       bindE (merge_map (rs_deps s) (cc_derived c) (cc_derived to_add)) (\<lambda>(d, n).
         Inr (s\<lparr>rs_infos := i, rs_deps := d\<rparr>, c\<lparr>cc_conditions := m, cc_derived := n\<rparr>)))"

definition content_remove :: "RefStore \<Rightarrow> ConditionsContent \<Rightarrow> u64 \<Rightarrow> (RefStore \<times> ConditionsContent \<times> bool) cpp" where
  "content_remove s c hash = (case map_of (cc_conditions c) hash of
       Some a \<Rightarrow> bindE (releasePtr (rs_infos s) a) (\<lambda>i.
         Inr (s\<lparr>rs_infos := i\<rparr>, c\<lparr>cc_conditions := map_erase hash (cc_conditions c)\<rparr>, True))
     | None \<Rightarrow> (case map_of (cc_derived c) hash of
           Some a \<Rightarrow> bindE (releasePtr (rs_deps s) a) (\<lambda>d.
             Inr (s\<lparr>rs_deps := d\<rparr>, c\<lparr>cc_derived := map_erase hash (cc_derived c)\<rparr>, True))
         | None \<Rightarrow> Inr (s, c, False)))"

text \<open>A key without load information, and with; what is returned is the entry, or zeroes.\<close>

definition content_insertKey :: "ConditionsContent \<Rightarrow> u64 \<Rightarrow> ConditionsContent \<times> (u64 \<times> nat)" where
  "content_insertKey c hash = (let (m, inserted) = map_emplace hash 0 (cc_conditions c) in
     (c\<lparr>cc_conditions := m\<rparr>, if inserted then (hash, 0) else (0, 0)))"

definition addLocationInfo :: "RefStore \<Rightarrow> ConditionsContent \<Rightarrow> u64 \<Rightarrow> nat \<Rightarrow>
    (RefStore \<times> ConditionsContent \<times> (u64 \<times> nat)) cpp" where
  "addLocationInfo s c hash info =
     (if info \<noteq> 0 then
        (let (m, inserted) = map_emplace hash info (cc_conditions c) in
         if inserted then bindE (addRef (rs_infos s) info) (\<lambda>i. Inr (s\<lparr>rs_infos := i\<rparr>, c\<lparr>cc_conditions := m\<rparr>, (hash, info)))
         else bindE (release (rs_infos s) info) (\<lambda>i. Inr (s\<lparr>rs_infos := i\<rparr>, c, (0, 0))))
      else Inr (s, c, (0, 0)))"

definition addLocation :: "RefStore \<Rightarrow> ConditionsContent \<Rightarrow> u64 \<Rightarrow> string \<Rightarrow>
    (RefStore \<times> ConditionsContent \<times> (u64 \<times> nat)) cpp" where
  "addLocation s c hash info = (let (s1, a) = new_info s info in addLocationInfo s1 c hash a)"

definition addLocation_item :: "RefStore \<Rightarrow> ConditionsContent \<Rightarrow> u32 \<Rightarrow> u32 \<Rightarrow> string \<Rightarrow>
    (RefStore \<times> ConditionsContent \<times> (u64 \<times> nat)) cpp" where
  "addLocation_item s c det_key item info = addLocation s c (KeyMaker det_key item) info"

text \<open>
  \<open>addDependency\<close> throws when the key is taken, after it has released the dependency: the outer result
  is undefined behaviour, the inner one the exception, with the state it leaves.
\<close>

definition dependency_exists :: cpp_error where
  "dependency_exists = RuntimeError ''DeConditionsRequests: ++ Dependency already exists''"

definition addDependency :: "RefStore \<Rightarrow> ConditionsContent \<Rightarrow> nat \<Rightarrow>
    (RefStore \<times> ConditionsContent \<times> (u64 \<times> nat) cpp) cpp" where
  "addDependency s c dep = (case rs_deps s dep of
       None \<Rightarrow> Inl bad_pointer
     | Some r \<Rightarrow>
         (let key = cd_target (ref_object r); (m, inserted) = map_emplace key dep (cc_derived c) in
          if inserted then bindE (addRef (rs_deps s) dep) (\<lambda>d. Inr (s\<lparr>rs_deps := d\<rparr>, c\<lparr>cc_derived := m\<rparr>, Inr (key, dep)))
          else bindE (release (rs_deps s) dep) (\<lambda>d. Inr (s\<lparr>rs_deps := d\<rparr>, c, Inl dependency_exists))))"

definition addDependency_item :: "RefStore \<Rightarrow> ConditionsContent \<Rightarrow> u32 \<Rightarrow> u32 \<Rightarrow> action \<Rightarrow> (cond \<Rightarrow> action) \<Rightarrow>
    (RefStore \<times> ConditionsContent \<times> (u64 \<times> nat) cpp) cpp" where
  "addDependency_item s c det_key item create resolve =
     (let (s1, a) = new_dependency s \<lparr>cd_target = KeyMaker det_key item, cd_dependencies = [],
        cd_create = create, cd_resolve = resolve\<rparr>
      in addDependency s1 c a)"

section \<open>Reference counts\<close>

text \<open>
  \<open>M\<close> is the multiset of all references that exist. The counts are right when every object has the
  number of its references, and no object without a reference is left.
\<close>

definition counted_ok :: "'o counts \<Rightarrow> nat \<Rightarrow> nat multiset \<Rightarrow> bool" where
  "counted_ok h n M \<longleftrightarrow> 0 \<notin># M \<and>
     (\<forall>a r. h a = Some r \<longrightarrow> ref_count r = int (count M a) \<and> a \<in># M \<and> a < n) \<and> (\<forall>a. h a = None \<longrightarrow> a \<notin># M)"

definition map_refs :: "(u64, nat) std_map \<Rightarrow> nat multiset" where
  "map_refs m = filter_mset (\<lambda>a. a \<noteq> 0) (image_mset snd (mset m))"

definition all_refs :: "('c \<Rightarrow> (u64, nat) std_map) \<Rightarrow> 'c list \<Rightarrow> nat multiset" where
  "all_refs sel cs = sum_list (List.map (\<lambda>c. map_refs (sel c)) cs)"

text \<open>\<open>I\<close> and \<open>D\<close> are the references that the client of the contents holds itself, to load information and to dependencies.\<close>

definition refs_held :: "RefStore \<Rightarrow> ConditionsContent list \<Rightarrow> nat multiset \<Rightarrow> nat multiset \<Rightarrow> bool" where
  "refs_held s cs I D \<longleftrightarrow> 0 < rs_next s \<and>
     (\<forall>c \<in> set cs. map_ok (cc_conditions c) \<and> map_ok (cc_derived c) \<and> 0 \<notin> snd ` set (cc_derived c)) \<and>
     counted_ok (rs_infos s) (rs_next s) (all_refs cc_conditions cs + I) \<and>
     counted_ok (rs_deps s) (rs_next s) (all_refs cc_derived cs + D)"

lemma counted_okI:
  assumes "0 \<notin># M" and "\<And>a r. h a = Some r \<Longrightarrow> ref_count r = int (count M a) \<and> a \<in># M \<and> a < n"
    and "\<And>a. h a = None \<Longrightarrow> a \<notin># M"
  shows "counted_ok h n M"
  using assms by (auto simp: counted_ok_def)

lemma counted_ok_object: "\<lbrakk>counted_ok h n M; h a = Some r\<rbrakk> \<Longrightarrow> ref_count r = int (count M a) \<and> a \<in># M \<and> a < n"
  by (simp add: counted_ok_def)

lemma counted_ok_dead: "\<lbrakk>counted_ok h n M; h a = None\<rbrakk> \<Longrightarrow> a \<notin># M"
  by (simp add: counted_ok_def)

lemma counted_ok_null: "counted_ok h n M \<Longrightarrow> 0 \<notin># M"
  by (simp add: counted_ok_def)

lemma counted_okD:
  assumes "counted_ok h n M" and "a \<in># M"
  obtains r where "h a = Some r" "ref_count r = int (count M a)" "a \<noteq> 0" "a < n"
proof -
  have "a \<noteq> 0" using assms(2) counted_ok_null [OF assms(1)] by metis
  moreover obtain r where "h a = Some r" using assms by (cases "h a") (auto simp: counted_ok_def)
  ultimately show thesis using that counted_ok_object [OF assms(1)] by blast
qed

lemma counted_ok_more: "\<lbrakk>counted_ok h n M; n \<le> n'\<rbrakk> \<Longrightarrow> counted_ok h n' M"
  by (auto simp: counted_ok_def dest: less_le_trans)

lemma addRef_ok:
  assumes "counted_ok h n M" and "a \<in># M"
  shows "\<exists>h'. addRef h a = Inr h' \<and> counted_ok h' n (add_mset a M)"
proof -
  obtain r where r: "h a = Some r" "ref_count r = int (count M a)" "a \<noteq> 0" "a < n"
    using counted_okD [OF assms] .
  let ?h = "h(a \<mapsto> r\<lparr>ref_count := ref_count r + 1\<rparr>)"
  have "counted_ok ?h n (add_mset a M)"
    by (rule counted_okI) (use assms(1) r counted_ok_object [OF assms(1)] in \<open>auto simp: counted_ok_def split: if_splits\<close>)
  then show ?thesis using r by (simp add: addRef_def)
qed

text \<open>The first reference to a new object.\<close>

lemma addRef_new:
  assumes "counted_ok h n M" and "h n = None" and "0 < n"
  shows "\<exists>h'. addRef (h(n \<mapsto> \<lparr>ref_count = 0, ref_object = x\<rparr>)) n = Inr h' \<and> counted_ok h' (Suc n) (add_mset n M)"
proof -
  let ?h = "h(n \<mapsto> \<lparr>ref_count = 1, ref_object = x\<rparr>)"
  have "count M n = 0" using counted_ok_dead [OF assms(1,2)] by (simp add: not_in_iff)
  then have "counted_ok ?h (Suc n) (add_mset n M)"
    by (intro counted_okI)
      (use assms counted_ok_object [OF assms(1)] in \<open>auto simp: counted_ok_def less_SucI split: if_splits\<close>)
  then show ?thesis using assms(3) by (simp add: addRef_def)
qed

lemma release_new: "\<lbrakk>h n = None; 0 < n\<rbrakk> \<Longrightarrow> release (h(n \<mapsto> \<lparr>ref_count = 0, ref_object = x\<rparr>)) n = Inr h"
  by (auto simp: release_def)

lemma release_ok:
  assumes "counted_ok h n (add_mset a M)"
  shows "\<exists>h'. release h a = Inr h' \<and> counted_ok h' n M"
proof -
  obtain r where r: "h a = Some r" "ref_count r = int (count (add_mset a M) a)" "a \<noteq> 0" "a < n"
    using counted_okD [OF assms, of a] by auto
  have m: "b \<in># M" if "b \<in># add_mset a M" "b \<noteq> a" for b using that by simp
  show ?thesis
  proof (cases "a \<in># M")
    case True
    then have "\<not> ref_count r - 1 \<le> 0" using r(2) by (simp add: count_eq_zero_iff)
    moreover have "counted_ok (h(a \<mapsto> r\<lparr>ref_count := ref_count r - 1\<rparr>)) n M"
      by (rule counted_okI)
        (use assms r True m in \<open>auto simp: counted_ok_def split: if_splits\<close>)
    ultimately show ?thesis using r(1,3) by (auto simp: release_def)
  next
    case False
    then have "ref_count r - 1 \<le> 0" using r(2) by (simp add: not_in_iff)
    moreover have "counted_ok (h(a := None)) n M"
      by (rule counted_okI)
        (use assms r False m in \<open>auto simp: counted_ok_def split: if_splits\<close>)
    ultimately show ?thesis using r by (simp add: release_def)
  qed
qed

lemma map_refs_Nil [simp]: "map_refs [] = {#}"
  by (simp add: map_refs_def)

lemma map_refs_Cons [simp]: "map_refs ((k, a) # m) = (if a = 0 then map_refs m else add_mset a (map_refs m))"
  by (simp add: map_refs_def)

lemma map_refs_assign: "\<lbrakk>map_ok m; map_of m k = None\<rbrakk> \<Longrightarrow> map_refs (map_assign k a m) = map_refs ((k, a) # m)"
  by (simp add: map_refs_def mset_assign)

lemma map_refs_erase: "\<lbrakk>map_ok m; map_of m k = Some a\<rbrakk> \<Longrightarrow> map_refs m = map_refs ((k, a) # map_erase k m)"
proof (induction m)
  case (Cons p m)
  obtain l b where p: "p = (l, b)" by fastforce
  show ?case
  proof (cases "l = k")
    case True
    then have "k \<notin> fst ` set m" using Cons.prems(1) p by (auto simp: map_ok_Cons)
    then have "map_erase k m = m" unfolding map_erase_def by (intro filter_True) force
    then show ?thesis using Cons.prems(2) p True by (simp add: map_erase_def)
  next
    case False
    then show ?thesis using Cons p by (auto simp: map_ok_Cons map_erase_def split: if_splits)
  qed
qed simp

lemma releasePtr_ok:
  "counted_ok h n (map_refs ((k, a) # m) + M) \<Longrightarrow> \<exists>h'. releasePtr h a = Inr h' \<and> counted_ok h' n (map_refs m + M)"
  using release_ok [of h n a "map_refs m + M"] by (auto simp: releasePtr_def)

lemma releaseObjects_ok:
  "counted_ok h n (map_refs m + M) \<Longrightarrow> \<exists>h'. releaseObjects h m = Inr h' \<and> counted_ok h' n M"
proof (induction m arbitrary: h)
  case (Cons p m)
  obtain k a where p: "p = (k, a)" by fastforce
  obtain h1 where h1: "releasePtr h a = Inr h1" "counted_ok h1 n (map_refs m + M)"
    using releasePtr_ok Cons.prems unfolding p by blast
  with Cons.IH [OF h1(2)] show ?case by (simp add: p releaseObjects_def)
qed (simp add: releaseObjects_def)

lemma refs_in: "\<lbrakk>(k, a) \<in> set m; a \<noteq> 0\<rbrakk> \<Longrightarrow> a \<in># map_refs m"
  by (force simp: map_refs_def)

text \<open>Merging entries that are all referenced somewhere, or the undefined access to a null entry.\<close>

definition null_new :: "(u64, nat) std_map \<Rightarrow> (u64, nat) std_map \<Rightarrow> bool" where
  "null_new m xs \<longleftrightarrow> (\<exists>k. (k, 0) \<in> set xs \<and> map_of m k = None)"

lemma merge_step:
  assumes "counted_ok h n (map_refs m + M)" and "map_ok m" and "a \<noteq> 0 \<longrightarrow> a \<in># map_refs m + M"
  shows "map_of m k = None \<and> a = 0 \<and> merge_entry (h, m) (k, a) = Inl bad_pointer \<or>
    (map_of m k = None \<longrightarrow> a \<noteq> 0) \<and> (\<exists>h'. merge_entry (h, m) (k, a) = Inr (h', fst (map_emplace k a m)) \<and>
      counted_ok h' n (map_refs (fst (map_emplace k a m)) + M))"
proof (cases "map_of m k")
  case None
  show ?thesis
  proof (cases "a = 0")
    case True
    have "h 0 = None" using counted_ok_object [OF assms(1), of 0] counted_ok_null [OF assms(1)] by (cases "h 0") auto
    then show ?thesis using None True by (simp add: merge_entry_def map_emplace_def addRef_def)
  next
    case False
    then obtain h' where "addRef h a = Inr h'" "counted_ok h' n (add_mset a (map_refs m + M))"
      using addRef_ok [OF assms(1)] assms(3) by blast
    then show ?thesis using None False map_refs_assign [OF assms(2) None, of a]
      by (simp add: merge_entry_def map_emplace_def)
  qed
next
  case (Some b)
  then show ?thesis using assms(1) by (simp add: merge_entry_def map_emplace_def)
qed

lemma merge_map_ok:
  assumes "counted_ok h n (map_refs m + M)" and "map_ok m" and "map_ok xs"
    and "\<forall>(k, a) \<in> set xs. a \<noteq> 0 \<longrightarrow> a \<in># map_refs m + M"
  shows "if null_new m xs then merge_map h m xs = Inl bad_pointer
    else \<exists>h' m'. merge_map h m xs = Inr (h', m') \<and> counted_ok h' n (map_refs m' + M) \<and> map_ok m' \<and>
      map_of m' = map_of xs ++ map_of m"
  using assms
proof (induction xs arbitrary: h m)
  case Nil
  then show ?case by (simp add: merge_map_def null_new_def)
next
  case (Cons p xs)
  obtain k a where p: "p = (k, a)" by fastforce
  let ?m = "fst (map_emplace k a m)"
  have fresh: "k \<notin> fst ` set xs" using Cons.prems(3) p by (auto simp: map_ok_Cons)
  have null: "null_new m (p # xs) \<longleftrightarrow> map_of m k = None \<and> a = 0 \<or> null_new ?m xs"
    using fresh p by (force simp: null_new_def map_of_emplace split: if_splits)
  consider "map_of m k = None" "a = 0" "merge_entry (h, m) (k, a) = Inl bad_pointer"
    | h' where "map_of m k = None \<longrightarrow> a \<noteq> 0" "merge_entry (h, m) (k, a) = Inr (h', ?m)" "counted_ok h' n (map_refs ?m + M)"
    using merge_step [OF Cons.prems(1,2), of a k] Cons.prems(4) p by auto
  then show ?case
  proof cases
    case 1
    then show ?thesis using null by (simp add: p merge_map_def)
  next
    case 2
    have "map_of m k = None \<Longrightarrow> map_refs ?m = map_refs ((k, a) # m)"
      using map_refs_assign [OF Cons.prems(2)] by (simp add: map_emplace_def)
    then have sub: "map_refs m \<subseteq># map_refs ?m" by (cases "map_of m k") (auto simp: map_emplace_def)
    have prems: "map_ok ?m" "map_ok xs" "\<forall>(k, a) \<in> set xs. a \<noteq> 0 \<longrightarrow> a \<in># map_refs ?m + M"
      using Cons.prems map_ok_emplace [OF Cons.prems(2)] mset_subset_eqD [OF sub] by (fastforce simp: p map_ok_Cons)+
    have run: "merge_map h m (p # xs) = merge_map h' ?m xs" using 2(2) by (simp add: p merge_map_def)
    have entries: "map_of (p # xs) ++ map_of m = map_of xs ++ map_of ?m"
    proof
      fix j
      show "(map_of (p # xs) ++ map_of m) j = (map_of xs ++ map_of ?m) j"
        by (auto simp: p map_of_emplace map_add_def split: option.splits)
    qed
    have nulls: "null_new m (p # xs) \<longleftrightarrow> null_new ?m xs" using null 2(1) by blast
    show ?thesis unfolding run entries nulls by (rule Cons.IH [OF 2(3) prems])
  qed
qed

section \<open>Operations of one content\<close>

text \<open>The state seen from one content; \<open>I\<close> and \<open>D\<close> are the references held by the others.\<close>

definition content_ok :: "ConditionsContent \<Rightarrow> bool" where
  "content_ok c \<longleftrightarrow> map_ok (cc_conditions c) \<and> map_ok (cc_derived c) \<and> 0 \<notin> snd ` set (cc_derived c)"

definition local_ok :: "RefStore \<Rightarrow> ConditionsContent \<Rightarrow> nat multiset \<Rightarrow> nat multiset \<Rightarrow> bool" where
  "local_ok s c I D \<longleftrightarrow> 0 < rs_next s \<and> content_ok c \<and>
     counted_ok (rs_infos s) (rs_next s) (map_refs (cc_conditions c) + I) \<and>
     counted_ok (rs_deps s) (rs_next s) (map_refs (cc_derived c) + D)"

lemma local_okD:
  assumes "local_ok s c I D"
  shows "0 < rs_next s" "map_ok (cc_conditions c)" "map_ok (cc_derived c)" "0 \<notin> snd ` set (cc_derived c)"
    "counted_ok (rs_infos s) (rs_next s) (map_refs (cc_conditions c) + I)"
    "counted_ok (rs_deps s) (rs_next s) (map_refs (cc_derived c) + D)"
  using assms by (simp_all add: local_ok_def content_ok_def)

lemma local_okI:
  assumes "0 < rs_next s" "map_ok (cc_conditions c)" "map_ok (cc_derived c)" "0 \<notin> snd ` set (cc_derived c)"
    "counted_ok (rs_infos s) (rs_next s) (map_refs (cc_conditions c) + I)"
    "counted_ok (rs_deps s) (rs_next s) (map_refs (cc_derived c) + D)"
  shows "local_ok s c I D"
  using assms by (simp add: local_ok_def content_ok_def)

text \<open>A key without load information is where merging can go wrong.\<close>

definition located :: "ConditionsContent \<Rightarrow> bool" where
  "located c \<longleftrightarrow> 0 \<notin> snd ` set (cc_conditions c)"

lemma located_map: "map_ok (cc_conditions c) \<Longrightarrow> located c \<longleftrightarrow> (\<forall>k. map_of (cc_conditions c) k \<noteq> Some 0)"
  by (force simp: located_def map_of_mem)

lemma located_null: "located c \<Longrightarrow> \<not> null_new m (cc_conditions c)"
  by (force simp: located_def null_new_def)

lemma content_clear_ok:
  assumes "local_ok s c I D"
  shows "\<exists>s' c'. content_clear s c = Inr (s', c') \<and> local_ok s' c' I D \<and> cc_conditions c' = [] \<and> cc_derived c' = []"
proof -
  note l = local_okD [OF assms]
  obtain d i where "releaseObjects (rs_deps s) (cc_derived c) = Inr d" "counted_ok d (rs_next s) D"
    "releaseObjects (rs_infos s) (cc_conditions c) = Inr i" "counted_ok i (rs_next s) I"
    using releaseObjects_ok [OF l(5)] releaseObjects_ok [OF l(6)] by blast
  then show ?thesis using l(1) by (simp add: content_clear_def local_ok_def content_ok_def)
qed

lemma content_merge_ok:
  assumes "local_ok s c I D" and "content_ok c2"
    and "map_refs (cc_conditions c2) \<subseteq># map_refs (cc_conditions c) + I"
    and "map_refs (cc_derived c2) \<subseteq># map_refs (cc_derived c) + D"
  shows "if null_new (cc_conditions c) (cc_conditions c2) then content_merge s c c2 = Inl bad_pointer
    else \<exists>s' c'. content_merge s c c2 = Inr (s', c') \<and> local_ok s' c' I D \<and>
      map_of (cc_conditions c') = map_of (cc_conditions c2) ++ map_of (cc_conditions c) \<and>
      map_of (cc_derived c') = map_of (cc_derived c2) ++ map_of (cc_derived c)"
proof -
  note l = local_okD [OF assms(1)]
  have c2: "map_ok (cc_conditions c2)" "map_ok (cc_derived c2)" "0 \<notin> snd ` set (cc_derived c2)"
    using assms(2) by (simp_all add: content_ok_def)
  have in1: "\<forall>(k, a) \<in> set (cc_conditions c2). a \<noteq> 0 \<longrightarrow> a \<in># map_refs (cc_conditions c) + I"
    using mset_subset_eqD [OF assms(3)] refs_in by fast
  have in2: "\<forall>(k, a) \<in> set (cc_derived c2). a \<noteq> 0 \<longrightarrow> a \<in># map_refs (cc_derived c) + D"
    using mset_subset_eqD [OF assms(4)] refs_in by fast
  have "\<not> null_new (cc_derived c) (cc_derived c2)" using c2(3) by (force simp: null_new_def)
  then obtain d n where d: "merge_map (rs_deps s) (cc_derived c) (cc_derived c2) = Inr (d, n)"
    "counted_ok d (rs_next s) (map_refs n + D)" "map_ok n" "map_of n = map_of (cc_derived c2) ++ map_of (cc_derived c)"
    using merge_map_ok [OF l(6,3) c2(2) in2] by auto
  have "0 \<notin> snd ` set n"
  proof
    assume "0 \<in> snd ` set n"
    then obtain k where "map_of n k = Some 0" using map_of_mem [OF d(3)] by auto
    then have "(k, 0) \<in> set (cc_derived c2) \<or> (k, 0) \<in> set (cc_derived c)"
      unfolding d(4) by (auto dest: map_of_SomeD simp: map_add_Some_iff)
    then show False using c2(3) l(4) by force
  qed
  then show ?thesis using merge_map_ok [OF l(5,2) c2(1) in1] l(1) d
    by (auto simp: content_merge_def local_ok_def content_ok_def)
qed

lemma erase_values: "a \<notin> snd ` set m \<Longrightarrow> a \<notin> snd ` set (map_erase k m)"
  by (auto simp: map_erase_def)

lemma content_remove_ok:
  assumes "local_ok s c I D"
  shows "\<exists>s' c'. content_remove s c k = Inr (s', c', map_of (cc_conditions c) k \<noteq> None \<or> map_of (cc_derived c) k \<noteq> None) \<and>
    local_ok s' c' I D \<and> (located c \<longrightarrow> located c')"
proof -
  note l = local_okD [OF assms]
  show ?thesis
  proof (cases "map_of (cc_conditions c) k")
    case (Some a)
    have "counted_ok (rs_infos s) (rs_next s) (map_refs ((k, a) # map_erase k (cc_conditions c)) + I)"
      using l(5) map_refs_erase [OF l(2) Some] by metis
    then obtain i where i: "releasePtr (rs_infos s) a = Inr i"
      "counted_ok i (rs_next s) (map_refs (map_erase k (cc_conditions c)) + I)" using releasePtr_ok by blast
    show ?thesis using Some l i erase_values [of 0 "cc_conditions c" k]
      by (simp add: content_remove_def local_ok_def content_ok_def located_def)
  next
    case none: None
    show ?thesis
    proof (cases "map_of (cc_derived c) k")
      case (Some a)
      have "counted_ok (rs_deps s) (rs_next s) (map_refs ((k, a) # map_erase k (cc_derived c)) + D)"
        using l(6) map_refs_erase [OF l(3) Some] by metis
      then obtain d where d: "releasePtr (rs_deps s) a = Inr d"
        "counted_ok d (rs_next s) (map_refs (map_erase k (cc_derived c)) + D)" using releasePtr_ok by blast
      show ?thesis using Some none l d erase_values [OF l(4), of k]
        by (simp add: content_remove_def local_ok_def content_ok_def located_def)
    qed (use none assms in \<open>simp add: content_remove_def\<close>)
  qed
qed

lemma content_insertKey_ok: "local_ok s c I D \<Longrightarrow> local_ok s (fst (content_insertKey c k)) I D"
  using map_refs_assign [of "cc_conditions c" k 0]
  by (auto simp: local_ok_def content_ok_def content_insertKey_def map_emplace_def split: option.splits)

text \<open>A new object is added, or deleted again where the key is taken.\<close>

lemma addLocation_ok:
  assumes "local_ok s c I D"
  shows "\<exists>s' c' r. addLocation s c k info = Inr (s', c', r) \<and> local_ok s' c' I D \<and>
    (if map_of (cc_conditions c) k = None then r = (k, rs_next s) \<and> map_of (cc_conditions c') = (map_of (cc_conditions c))(k \<mapsto> rs_next s)
     else r = (0, 0) \<and> c' = c)"
proof -
  note l = local_okD [OF assms]
  let ?n = "rs_next s"
  have dead: "rs_infos s ?n = None" using counted_ok_object [OF l(5), of ?n] by (cases "rs_infos s ?n") auto
  have more: "counted_ok (rs_infos s) (Suc ?n) (map_refs (cc_conditions c) + I)"
    "counted_ok (rs_deps s) (Suc ?n) (map_refs (cc_derived c) + D)" by (simp_all add: counted_ok_more [OF l(5)] counted_ok_more [OF l(6)])
  show ?thesis
  proof (cases "map_of (cc_conditions c) k")
    case None
    obtain i where i: "addRef ((rs_infos s)(?n \<mapsto> \<lparr>ref_count = 0, ref_object = info\<rparr>)) ?n = Inr i"
      "counted_ok i (Suc ?n) (add_mset ?n (map_refs (cc_conditions c) + I))"
      using addRef_new [OF l(5) dead l(1)] by blast
    show ?thesis using None i l more(2) map_refs_assign [OF l(2) None, of ?n]
      by (simp add: addLocation_def new_info_def addLocationInfo_def Let_def map_emplace_def local_ok_def content_ok_def)
  next
    case (Some b)
    then show ?thesis using l more release_new [where h = "rs_infos s" and x = info, OF dead l(1)]
      by (simp add: addLocation_def new_info_def addLocationInfo_def Let_def map_emplace_def local_ok_def content_ok_def)
  qed
qed

lemma addDependency_ok:
  assumes "local_ok s c I D" and "new_dependency s d = (s1, a)"
  shows "\<exists>s' c' r. addDependency s1 c a = Inr (s', c', r) \<and> local_ok s' c' I D \<and> cc_conditions c' = cc_conditions c \<and>
    (if map_of (cc_derived c) (cd_target d) = None
     then r = Inr (cd_target d, a) \<and> map_of (cc_derived c') = (map_of (cc_derived c))(cd_target d \<mapsto> a)
     else r = Inl dependency_exists \<and> c' = c)"
proof -
  note l = local_okD [OF assms(1)]
  let ?n = "rs_next s" and ?k = "cd_target d"
  have s1: "s1 = s\<lparr>rs_next := Suc ?n, rs_deps := (rs_deps s)(?n \<mapsto> \<lparr>ref_count = 0, ref_object = d\<rparr>)\<rparr>" and a: "a = ?n"
    using assms(2) by (auto simp: new_dependency_def Let_def)
  have dead: "rs_deps s ?n = None" using counted_ok_object [OF l(6), of ?n] by (cases "rs_deps s ?n") auto
  have more: "counted_ok (rs_infos s) (Suc ?n) (map_refs (cc_conditions c) + I)"
    "counted_ok (rs_deps s) (Suc ?n) (map_refs (cc_derived c) + D)" by (simp_all add: counted_ok_more [OF l(5)] counted_ok_more [OF l(6)])
  show ?thesis
  proof (cases "map_of (cc_derived c) ?k")
    case None
    obtain i where i: "addRef ((rs_deps s)(?n \<mapsto> \<lparr>ref_count = 0, ref_object = d\<rparr>)) ?n = Inr i"
      "counted_ok i (Suc ?n) (add_mset ?n (map_refs (cc_derived c) + D))"
      using addRef_new [OF l(6) dead l(1)] by blast
    have "0 \<notin> snd ` set (map_assign ?k ?n (cc_derived c))"
      using assign_subset [of ?k ?n "cc_derived c"] l(1,4) by force
    then show ?thesis using None i l more(1) map_refs_assign [OF l(3) None, of ?n]
      by (simp add: s1 a addDependency_def Let_def map_emplace_def local_ok_def content_ok_def)
  next
    case (Some b)
    then show ?thesis using l more release_new [where h = "rs_deps s" and x = d, OF dead l(1)]
      by (simp add: s1 a addDependency_def Let_def map_emplace_def local_ok_def content_ok_def)
  qed
qed

section \<open>All contents of a program\<close>

text \<open>
  A program that makes new objects and hands each to one content, or lets contents share by merging.
  \<open>AddDependency\<close> may throw; the state goes on after the exception. Calls on a content that does not
  exist are skipped.
\<close>

datatype content_call =
    NewContent
  | DestroyContent nat
  | Clear nat
  | Merge nat nat
  | Remove nat u64
  | InsertKey nat u64
  | AddLocation nat u64 string
  | AddDependency nat ConditionDependency

definition on_content :: "nat \<Rightarrow> (RefStore \<Rightarrow> ConditionsContent \<Rightarrow> (RefStore \<times> ConditionsContent) cpp) \<Rightarrow>
    RefStore \<times> ConditionsContent list \<Rightarrow> (RefStore \<times> ConditionsContent list) cpp" where
  "on_content i f = (\<lambda>(s, cs). if i < length cs then bindE (f s (cs ! i)) (\<lambda>(s', c'). Inr (s', cs[i := c'])) else Inr (s, cs))"

fun exec_call :: "RefStore \<times> ConditionsContent list \<Rightarrow> content_call \<Rightarrow> (RefStore \<times> ConditionsContent list) cpp" where
  "exec_call (s, cs) NewContent = Inr (s, cs @ [ConditionsContent_new])"
| "exec_call (s, cs) (DestroyContent i) = bindE (on_content i content_clear (s, cs)) (\<lambda>(s', cs').
     Inr (s', take i cs' @ drop (Suc i) cs'))"
| "exec_call (s, cs) (Clear i) = on_content i content_clear (s, cs)"
| "exec_call (s, cs) (Merge i j) = (if j < length cs then on_content i (\<lambda>s c. content_merge s c (cs ! j)) (s, cs) else Inr (s, cs))"
| "exec_call (s, cs) (Remove i k) = on_content i (\<lambda>s c. bindE (content_remove s c k) (\<lambda>(s', c', _). Inr (s', c'))) (s, cs)"
| "exec_call (s, cs) (InsertKey i k) = on_content i (\<lambda>s c. Inr (s, fst (content_insertKey c k))) (s, cs)"
| "exec_call (s, cs) (AddLocation i k info) = on_content i (\<lambda>s c. bindE (addLocation s c k info) (\<lambda>(s', c', _). Inr (s', c'))) (s, cs)"
| "exec_call (s, cs) (AddDependency i d) = on_content i (\<lambda>s c. let (s1, a) = new_dependency s d in
     bindE (addDependency s1 c a) (\<lambda>(s', c', _). Inr (s', c'))) (s, cs)"

definition RefStore_new :: RefStore where
  "RefStore_new = \<lparr>rs_next = 1, rs_infos = Map.empty, rs_deps = Map.empty\<rparr>"

lemma all_refs_split: "i < length cs \<Longrightarrow> all_refs sel cs = map_refs (sel (cs ! i)) + all_refs sel (take i cs @ drop (Suc i) cs)"
  by (subst id_take_nth_drop [of i cs]) (simp_all add: all_refs_def)

lemma all_refs_update: "i < length cs \<Longrightarrow> all_refs sel (cs[i := c]) = map_refs (sel c) + all_refs sel (take i cs @ drop (Suc i) cs)"
  by (simp add: upd_conv_take_nth_drop all_refs_def)

lemma refs_held_local:
  assumes "refs_held s cs I D" and "i < length cs"
  shows "local_ok s (cs ! i) (all_refs cc_conditions (take i cs @ drop (Suc i) cs) + I)
      (all_refs cc_derived (take i cs @ drop (Suc i) cs) + D)"
  using assms all_refs_split [OF assms(2), of cc_conditions] all_refs_split [OF assms(2), of cc_derived]
  by (simp add: refs_held_def local_ok_def content_ok_def add.assoc)

lemma refs_held_change:
  assumes "refs_held s cs I D" and "i < length cs"
    and "local_ok s' c' (all_refs cc_conditions (take i cs @ drop (Suc i) cs) + I')
      (all_refs cc_derived (take i cs @ drop (Suc i) cs) + D')"
  shows "refs_held s' (cs[i := c']) I' D'"
proof -
  have "\<forall>c \<in> set (cs[i := c']). content_ok c"
    using assms set_update_subset_insert [of cs i c'] by (auto simp: refs_held_def content_ok_def local_ok_def)
  then show ?thesis using assms(3) by (simp add: refs_held_def all_refs_update [OF assms(2)] local_ok_def content_ok_def add.assoc)
qed

lemmas refs_held_update = refs_held_change [where I' = I and I = I and D' = D and D = D for I D]

text \<open>One call on one content, given what it does there.\<close>

lemma on_content_ok:
  assumes "refs_held s cs I D" and "\<forall>c \<in> set cs. P c"
    and "\<And>I' D'. i < length cs \<Longrightarrow> local_ok s (cs ! i) I' D' \<Longrightarrow> P (cs ! i) \<Longrightarrow>
      \<exists>s' c'. f s (cs ! i) = Inr (s', c') \<and> local_ok s' c' I' D' \<and> P c'"
  shows "\<exists>s' cs'. on_content i f (s, cs) = Inr (s', cs') \<and> refs_held s' cs' I D \<and> (\<forall>c \<in> set cs'. P c) \<and> length cs' = length cs"
proof (cases "i < length cs")
  case True
  obtain s' c' where c': "f s (cs ! i) = Inr (s', c')" "P c'"
    "local_ok s' c' (all_refs cc_conditions (take i cs @ drop (Suc i) cs) + I)
      (all_refs cc_derived (take i cs @ drop (Suc i) cs) + D)"
    using assms(3) [OF True refs_held_local [OF assms(1) True]] assms(2) True by auto
  have "\<forall>c \<in> set (cs[i := c']). P c" using assms(2) c'(2) set_update_subset_insert [of cs i c'] by auto
  then show ?thesis using refs_held_update [OF assms(1) True c'(3)] True c'(1) by (simp add: on_content_def)
qed (use assms in \<open>simp add: on_content_def\<close>)

lemma exec_call_ok:
  assumes "refs_held s cs I D" and "strict \<Longrightarrow> \<forall>c \<in> set cs. located c" and "strict \<Longrightarrow> \<forall>i k. call \<noteq> InsertKey i k"
  shows "(\<exists>s' cs'. exec_call (s, cs) call = Inr (s', cs') \<and> refs_held s' cs' I D \<and> (strict \<longrightarrow> (\<forall>c \<in> set cs'. located c))) \<or>
    \<not> strict \<and> exec_call (s, cs) call = Inl bad_pointer"
proof -
  let ?P = "\<lambda>c. strict \<longrightarrow> located c"
  have P: "\<forall>c \<in> set cs. ?P c" using assms(2) by blast
  note on = on_content_ok [OF assms(1) P]
  have clear: "\<exists>s' cs'. on_content i content_clear (s, cs) = Inr (s', cs') \<and> refs_held s' cs' I D \<and>
      (\<forall>c \<in> set cs'. ?P c) \<and> length cs' = length cs" for i
    by (rule on) (use content_clear_ok in \<open>fastforce simp: located_def\<close>)
  show ?thesis
  proof (cases call)
    case NewContent
    then show ?thesis using assms(1) P by (auto simp: ConditionsContent_new_def refs_held_def all_refs_def located_def)
  next
    case (DestroyContent i)
    show ?thesis
    proof (cases "i < length cs")
      case True
      obtain s' c' where c': "content_clear s (cs ! i) = Inr (s', c')" "cc_conditions c' = []" "cc_derived c' = []"
        "local_ok s' c' (all_refs cc_conditions (take i cs @ drop (Suc i) cs) + I)
      (all_refs cc_derived (take i cs @ drop (Suc i) cs) + D)"
        using content_clear_ok [OF refs_held_local [OF assms(1) True]] by blast
      have "\<forall>c \<in> set (take i cs @ drop (Suc i) cs). c \<in> set cs" by (auto dest: in_set_takeD in_set_dropD)
      then have "refs_held s' (take i cs @ drop (Suc i) cs) I D" "\<forall>c \<in> set (take i cs @ drop (Suc i) cs). ?P c"
        using c' assms(1) P by (auto simp: refs_held_def local_ok_def)
      then show ?thesis using c'(1) True DestroyContent by (simp add: on_content_def)
    qed (use assms(1) P DestroyContent in \<open>simp add: on_content_def\<close>)
  next
    case (Clear i)
    then show ?thesis using clear [of i] by auto
  next
    case (Merge i j)
    show ?thesis
    proof (cases "i < length cs \<and> j < length cs")
      case True
      note l = refs_held_local [OF assms(1), of i]
      have sub: "map_refs (sel (cs ! j)) \<subseteq># all_refs sel cs" for sel using all_refs_split [of j cs sel] True by simp
      have sub': "map_refs (sel (cs ! j)) \<subseteq># map_refs (sel (cs ! i)) + (all_refs sel (take i cs @ drop (Suc i) cs) + M)" for sel M
        using subset_mset.trans [OF sub [of sel], of "all_refs sel cs + M"] all_refs_split [of i cs sel] True by (simp add: union_assoc)
      have ok: "content_ok (cs ! j)" using assms(1) True by (auto simp: refs_held_def content_ok_def)
      have m: "if null_new (cc_conditions (cs ! i)) (cc_conditions (cs ! j)) then content_merge s (cs ! i) (cs ! j) = Inl bad_pointer
        else \<exists>s' c'. content_merge s (cs ! i) (cs ! j) = Inr (s', c') \<and>
          local_ok s' c' (all_refs cc_conditions (take i cs @ drop (Suc i) cs) + I)
      (all_refs cc_derived (take i cs @ drop (Suc i) cs) + D) \<and>
          map_of (cc_conditions c') = map_of (cc_conditions (cs ! j)) ++ map_of (cc_conditions (cs ! i)) \<and>
          map_of (cc_derived c') = map_of (cc_derived (cs ! j)) ++ map_of (cc_derived (cs ! i))"
        by (rule content_merge_ok) (use l ok sub' True in \<open>simp_all add: all_refs_split [of i, symmetric]\<close>)
      have at: "cs ! i \<in> set cs" "cs ! j \<in> set cs" using True by auto
      show ?thesis
      proof (cases "null_new (cc_conditions (cs ! i)) (cc_conditions (cs ! j))")
        case null: True
        then have "\<not> strict" using located_null assms(2) at by blast
        then show ?thesis using null m True Merge by (simp add: on_content_def)
      next
        case False
        then obtain s' c' where c': "content_merge s (cs ! i) (cs ! j) = Inr (s', c')"
          "local_ok s' c' (all_refs cc_conditions (take i cs @ drop (Suc i) cs) + I)
      (all_refs cc_derived (take i cs @ drop (Suc i) cs) + D)"
          "map_of (cc_conditions c') = map_of (cc_conditions (cs ! j)) ++ map_of (cc_conditions (cs ! i))" using m by auto
        have "?P c'"
        proof
          assume strict
          then have "located (cs ! i)" "located (cs ! j)" using assms(2) at by blast+
          then show "located c'" using c' ok local_okD(2) [OF l] local_okD(2) [OF c'(2)] True
            by (auto simp: located_map content_ok_def map_add_Some_iff)
        qed
        then have "\<forall>c \<in> set (cs[i := c']). ?P c" using P set_update_subset_insert [of cs i c'] by auto
        then show ?thesis using c' refs_held_update [OF assms(1) _ c'(2)] True Merge by (simp add: on_content_def)
      qed
    qed (use assms(1) P Merge in \<open>auto simp: on_content_def\<close>)
  next
    case (Remove i k)
    have "\<exists>s' cs'. on_content i (\<lambda>s c. bindE (content_remove s c k) (\<lambda>(s', c', _). Inr (s', c'))) (s, cs) = Inr (s', cs') \<and>
        refs_held s' cs' I D \<and> (\<forall>c \<in> set cs'. ?P c) \<and> length cs' = length cs"
    proof (rule on)
      fix I' D' assume l: "local_ok s (cs ! i) I' D'" and p: "?P (cs ! i)"
      show "\<exists>s' c'. bindE (content_remove s (cs ! i) k) (\<lambda>(s', c', _). Inr (s', c')) = Inr (s', c') \<and>
          local_ok s' c' I' D' \<and> ?P c'" using content_remove_ok [OF l, of k] p by auto
    qed
    then show ?thesis using Remove by auto
  next
    case (InsertKey i k)
    then have "\<not> strict" using assms(3) by blast
    have "\<exists>s' cs'. on_content i (\<lambda>s c. Inr (s, fst (content_insertKey c k))) (s, cs) = Inr (s', cs') \<and>
        refs_held s' cs' I D \<and> (\<forall>c \<in> set cs'. ?P c) \<and> length cs' = length cs"
      by (rule on) (use content_insertKey_ok \<open>\<not> strict\<close> in fastforce)
    then show ?thesis using InsertKey by auto
  next
    case (AddLocation i k info)
    have "\<exists>s' cs'. on_content i (\<lambda>s c. bindE (addLocation s c k info) (\<lambda>(s', c', _). Inr (s', c'))) (s, cs) = Inr (s', cs') \<and>
        refs_held s' cs' I D \<and> (\<forall>c \<in> set cs'. ?P c) \<and> length cs' = length cs"
    proof (rule on)
      fix I' D' assume l: "local_ok s (cs ! i) I' D'" and p: "?P (cs ! i)"
      obtain s' c' r where c': "addLocation s (cs ! i) k info = Inr (s', c', r)" "local_ok s' c' I' D'"
        "map_of (cc_conditions c') = (map_of (cc_conditions (cs ! i)))(k \<mapsto> rs_next s) \<or> c' = cs ! i"
        using addLocation_ok [OF l, of k info] by (auto split: if_splits)
      have "?P c'" using p c'(3) local_okD(1,2) [OF l] local_okD(2) [OF c'(2)] by (auto simp: located_map split: if_splits)
      then show "\<exists>s' c'. bindE (addLocation s (cs ! i) k info) (\<lambda>(s', c', _). Inr (s', c')) = Inr (s', c') \<and>
          local_ok s' c' I' D' \<and> ?P c'" using c' by simp
    qed
    then show ?thesis using AddLocation by auto
  next
    case (AddDependency i d)
    obtain s1 a where d: "new_dependency s d = (s1, a)" by fastforce
    have "\<exists>s' cs'. on_content i (\<lambda>s c. let (s1, a) = new_dependency s d in
          bindE (addDependency s1 c a) (\<lambda>(s', c', _). Inr (s', c'))) (s, cs) = Inr (s', cs') \<and>
        refs_held s' cs' I D \<and> (\<forall>c \<in> set cs'. ?P c) \<and> length cs' = length cs"
      by (rule on) (use addDependency_ok [OF _ d] d in \<open>fastforce simp: located_def\<close>)
    then show ?thesis using AddDependency by auto
  qed
qed

section \<open>A client of contents\<close>

text \<open>
  A client may also keep objects itself and hand existing ones to further contents, with
  \<open>addLocationInfo\<close> and \<open>addDependency\<close>. The third and the fourth component of the state are the
  references the client has taken with \<open>addRef\<close> and not given back (they are no part of the code). Where the key of an
  addition is taken the functions release the object, that is a reference of the client.
\<close>

datatype client_call =
    ContentCall content_call
  | HoldInfo nat
  | DropInfo nat
  | ShareInfo nat u64 nat
  | HoldDependency nat
  | DropDependency nat
  | ShareDependency nat nat

type_synonym client_state = "RefStore \<times> ConditionsContent list \<times> nat multiset \<times> nat multiset"

fun client_step :: "client_state \<Rightarrow> client_call \<Rightarrow> client_state cpp" where
  "client_step (s, cs, I, D) (ContentCall call) = bindE (exec_call (s, cs) call) (\<lambda>(s', cs'). Inr (s', cs', I, D))"
| "client_step (s, cs, I, D) (HoldInfo a) = bindE (addRef (rs_infos s) a) (\<lambda>i. Inr (s\<lparr>rs_infos := i\<rparr>, cs, add_mset a I, D))"
| "client_step (s, cs, I, D) (DropInfo a) = bindE (release (rs_infos s) a) (\<lambda>i. Inr (s\<lparr>rs_infos := i\<rparr>, cs, I - {#a#}, D))"
| "client_step (s, cs, I, D) (ShareInfo i k a) = (if i < length cs
     then bindE (addLocationInfo s (cs ! i) k a) (\<lambda>(s', c', _).
       Inr (s', cs[i := c'], if a = 0 \<or> map_of (cc_conditions (cs ! i)) k = None then I else I - {#a#}, D))
     else Inr (s, cs, I, D))"
| "client_step (s, cs, I, D) (HoldDependency a) = bindE (addRef (rs_deps s) a) (\<lambda>d. Inr (s\<lparr>rs_deps := d\<rparr>, cs, I, add_mset a D))"
| "client_step (s, cs, I, D) (DropDependency a) = bindE (release (rs_deps s) a) (\<lambda>d. Inr (s\<lparr>rs_deps := d\<rparr>, cs, I, D - {#a#}))"
| "client_step (s, cs, I, D) (ShareDependency i a) = (if i < length cs
     then bindE (addDependency s (cs ! i) a) (\<lambda>(s', c', r). Inr (s', cs[i := c'], I, case r of Inr _ \<Rightarrow> D | Inl _ \<Rightarrow> D - {#a#}))
     else Inr (s, cs, I, D))"

text \<open>
  The discipline the client has to keep: it passes only existing objects, gives back only references it took, and
  holds a reference to an object it adds where the key may be taken.
\<close>

fun allowed :: "client_state \<Rightarrow> client_call \<Rightarrow> bool" where
  "allowed (s, cs, I, D) (ContentCall call) \<longleftrightarrow> True"
| "allowed (s, cs, I, D) (HoldInfo a) \<longleftrightarrow> rs_infos s a \<noteq> None"
| "allowed (s, cs, I, D) (DropInfo a) \<longleftrightarrow> a \<in># I"
| "allowed (s, cs, I, D) (ShareInfo i k a) \<longleftrightarrow> a = 0 \<or> rs_infos s a \<noteq> None \<and>
     (i < length cs \<and> map_of (cc_conditions (cs ! i)) k \<noteq> None \<longrightarrow> a \<in># I)"
| "allowed (s, cs, I, D) (HoldDependency a) \<longleftrightarrow> rs_deps s a \<noteq> None"
| "allowed (s, cs, I, D) (DropDependency a) \<longleftrightarrow> a \<in># D"
| "allowed (s, cs, I, D) (ShareDependency i a) \<longleftrightarrow> (case rs_deps s a of None \<Rightarrow> False
     | Some r \<Rightarrow> i < length cs \<and> map_of (cc_derived (cs ! i)) (cd_target (ref_object r)) \<noteq> None \<longrightarrow> a \<in># D)"

fun disciplined :: "client_state \<Rightarrow> client_call list \<Rightarrow> bool" where
  "disciplined st [] \<longleftrightarrow> True"
| "disciplined st (call # calls) \<longleftrightarrow> allowed st call \<and>
     (case client_step st call of Inl _ \<Rightarrow> True | Inr st' \<Rightarrow> disciplined st' calls)"

lemma counted_alive:
  assumes "counted_ok h n M" "h a \<noteq> None"
  shows "a \<in># M \<and> a \<noteq> 0"
proof -
  obtain r where "h a = Some r" using assms(2) by blast
  then have "a \<in># M" using counted_ok_object [OF assms(1)] by blast
  then show ?thesis using counted_ok_null [OF assms(1)] by metis
qed

lemma counted_release:
  assumes "counted_ok h n (M + I)" "a \<in># I"
  shows "\<exists>h'. release h a = Inr h' \<and> counted_ok h' n (M + (I - {#a#}))"
proof -
  have "M + I = add_mset a (M + (I - {#a#}))" using assms(2) by simp
  then show ?thesis using release_ok [of h n a "M + (I - {#a#})"] assms(1) by metis
qed

lemma share_info_ok:
  assumes "local_ok s c (R + I) D" "a \<noteq> 0" "rs_infos s a \<noteq> None" "map_of (cc_conditions c) k \<noteq> None \<Longrightarrow> a \<in># I"
  shows "\<exists>s' c' r. addLocationInfo s c k a = Inr (s', c', r) \<and>
    local_ok s' c' (R + (if map_of (cc_conditions c) k = None then I else I - {#a#})) D \<and> (located c \<longrightarrow> located c')"
proof -
  note l = local_okD [OF assms(1)]
  show ?thesis
  proof (cases "map_of (cc_conditions c) k")
    case None
    obtain h where h: "addRef (rs_infos s) a = Inr h" "counted_ok h (rs_next s) (add_mset a (map_refs (cc_conditions c) + (R + I)))"
      using addRef_ok [OF l(5)] counted_alive [OF l(5) assms(3)] by blast
    have "located c \<Longrightarrow> 0 \<notin> snd ` set (map_assign k a (cc_conditions c))"
      using assign_subset [of k a "cc_conditions c"] assms(2) by (force simp: located_def)
    then show ?thesis using None h l map_refs_assign [OF l(2) None, of a] assms(2)
      by (simp add: addLocationInfo_def map_emplace_def local_ok_def content_ok_def located_def)
  next
    case (Some b)
    have "counted_ok (rs_infos s) (rs_next s) (map_refs (cc_conditions c) + R + I)" using l(5) by (simp add: add.assoc)
    from counted_release [OF this] Some assms(4) obtain h where h: "release (rs_infos s) a = Inr h"
      "counted_ok h (rs_next s) (map_refs (cc_conditions c) + R + (I - {#a#}))" by auto
    then show ?thesis using Some l assms(2)
      by (simp add: addLocationInfo_def map_emplace_def local_ok_def content_ok_def add.assoc)
  qed
qed

lemma share_dependency_ok:
  assumes "local_ok s c I (R + D)" "rs_deps s a = Some x" "map_of (cc_derived c) (cd_target (ref_object x)) \<noteq> None \<Longrightarrow> a \<in># D"
  shows "\<exists>s' c' r. addDependency s c a = Inr (s', c', r) \<and>
    local_ok s' c' I (R + (case r of Inr _ \<Rightarrow> D | Inl _ \<Rightarrow> D - {#a#})) \<and> cc_conditions c' = cc_conditions c"
proof -
  note l = local_okD [OF assms(1)]
  let ?k = "cd_target (ref_object x)"
  have alive: "a \<in># map_refs (cc_derived c) + (R + D)" "a \<noteq> 0" using counted_alive [OF l(6), of a] assms(2) by simp_all
  show ?thesis
  proof (cases "map_of (cc_derived c) ?k")
    case None
    obtain h where h: "addRef (rs_deps s) a = Inr h" "counted_ok h (rs_next s) (add_mset a (map_refs (cc_derived c) + (R + D)))"
      using addRef_ok [OF l(6)] alive(1) by blast
    have "0 \<notin> snd ` set (map_assign ?k a (cc_derived c))"
      using assign_subset [of ?k a "cc_derived c"] alive(2) l(4) by force
    then show ?thesis using None h l map_refs_assign [OF l(3) None, of a] assms(2) alive(2)
      by (simp add: addDependency_def Let_def map_emplace_def local_ok_def content_ok_def)
  next
    case (Some b)
    have "counted_ok (rs_deps s) (rs_next s) (map_refs (cc_derived c) + R + D)" using l(6) by (simp add: add.assoc)
    from counted_release [OF this] Some assms(3) obtain h where h: "release (rs_deps s) a = Inr h"
      "counted_ok h (rs_next s) (map_refs (cc_derived c) + R + (D - {#a#}))" by auto
    then show ?thesis using Some l assms(2)
      by (simp add: addDependency_def Let_def map_emplace_def local_ok_def content_ok_def add.assoc)
  qed
qed

lemma hold_ok:
  assumes "counted_ok h n (M + I)" "h a \<noteq> None"
  shows "\<exists>h'. addRef h a = Inr h' \<and> counted_ok h' n (M + add_mset a I)"
  using addRef_ok [OF assms(1)] counted_alive [OF assms] by simp

lemma client_step_ok:
  assumes "refs_held s cs I D" and "allowed (s, cs, I, D) call"
    and "strict \<Longrightarrow> \<forall>c \<in> set cs. located c" and "strict \<Longrightarrow> \<forall>i k. call \<noteq> ContentCall (InsertKey i k)"
  shows "(\<exists>s' cs' I' D'. client_step (s, cs, I, D) call = Inr (s', cs', I', D') \<and> refs_held s' cs' I' D' \<and>
      (strict \<longrightarrow> (\<forall>c \<in> set cs'. located c))) \<or> \<not> strict \<and> client_step (s, cs, I, D) call = Inl bad_pointer"
proof -
  have ci: "counted_ok (rs_infos s) (rs_next s) (all_refs cc_conditions cs + I)"
    and cd: "counted_ok (rs_deps s) (rs_next s) (all_refs cc_derived cs + D)" using assms(1) by (simp_all add: refs_held_def)
  have loc: "strict \<longrightarrow> (\<forall>c \<in> set cs. located c)" using assms(3) by blast
  show ?thesis
  proof (cases call)
    case (ContentCall call')
    have "strict \<Longrightarrow> \<forall>i k. call' \<noteq> InsertKey i k" using assms(4) ContentCall by blast
    from exec_call_ok [OF assms(1,3) this] show ?thesis
    proof
      assume "\<exists>s' cs'. exec_call (s, cs) call' = Inr (s', cs') \<and> refs_held s' cs' I D \<and> (strict \<longrightarrow> (\<forall>c \<in> set cs'. located c))"
      then obtain s' cs' where "exec_call (s, cs) call' = Inr (s', cs')" "refs_held s' cs' I D" "strict \<longrightarrow> (\<forall>c \<in> set cs'. located c)"
        by blast
      then show ?thesis using ContentCall by simp
    next
      assume "\<not> strict \<and> exec_call (s, cs) call' = Inl bad_pointer"
      then show ?thesis using ContentCall by simp
    qed
  next
    case (HoldInfo a)
    then show ?thesis using hold_ok [OF ci, of a] assms(1,2) loc by (auto simp: refs_held_def)
  next
    case (DropInfo a)
    then show ?thesis using counted_release [OF ci, of a] assms(1,2) loc by (auto simp: refs_held_def)
  next
    case (HoldDependency a)
    then show ?thesis using hold_ok [OF cd, of a] assms(1,2) loc by (auto simp: refs_held_def)
  next
    case (DropDependency a)
    then show ?thesis using counted_release [OF cd, of a] assms(1,2) loc by (auto simp: refs_held_def)
  next
    case (ShareInfo i k a)
    show ?thesis
    proof (cases "i < length cs \<and> a \<noteq> 0")
      case True
      then have i: "i < length cs" and a: "a \<noteq> 0" by simp_all
      have al: "rs_infos s a \<noteq> None" "map_of (cc_conditions (cs ! i)) k \<noteq> None \<Longrightarrow> a \<in># I" using assms(2) ShareInfo i a by auto
      obtain s' c' r where c': "addLocationInfo s (cs ! i) k a = Inr (s', c', r)"
        "local_ok s' c' (all_refs cc_conditions (take i cs @ drop (Suc i) cs) +
           (if map_of (cc_conditions (cs ! i)) k = None then I else I - {#a#})) (all_refs cc_derived (take i cs @ drop (Suc i) cs) + D)"
        "located (cs ! i) \<longrightarrow> located c'"
        using share_info_ok [OF refs_held_local [OF assms(1) i] a al(1) al(2)] by blast
      have "strict \<longrightarrow> (\<forall>c \<in> set (cs[i := c']). located c)" using loc c'(3) i set_update_subset_insert [of cs i c'] by auto
      then show ?thesis using ShareInfo i a c'(1) refs_held_change [OF assms(1) i c'(2)] by simp
    next
      case False
      then show ?thesis using ShareInfo assms(1) loc by (auto simp: addLocationInfo_def)
    qed
  next
    case (ShareDependency i a)
    show ?thesis
    proof (cases "i < length cs")
      case True
      obtain x where x: "rs_deps s a = Some x" "map_of (cc_derived (cs ! i)) (cd_target (ref_object x)) \<noteq> None \<Longrightarrow> a \<in># D"
        using assms(2) ShareDependency True by (auto split: option.splits)
      obtain s' c' r where c': "addDependency s (cs ! i) a = Inr (s', c', r)"
        "local_ok s' c' (all_refs cc_conditions (take i cs @ drop (Suc i) cs) + I)
           (all_refs cc_derived (take i cs @ drop (Suc i) cs) + (case r of Inr _ \<Rightarrow> D | Inl _ \<Rightarrow> D - {#a#}))"
        "cc_conditions c' = cc_conditions (cs ! i)"
        using share_dependency_ok [OF refs_held_local [OF assms(1) True] x] by blast
      have "strict \<longrightarrow> located c'" using loc c'(3) True by (simp add: located_def)
      then have "strict \<longrightarrow> (\<forall>c \<in> set (cs[i := c']). located c)" using loc set_update_subset_insert [of cs i c'] by auto
      then show ?thesis using ShareDependency True c'(1) refs_held_change [OF assms(1) True c'(2)] by simp
    next
      case False
      then show ?thesis using ShareDependency assms(1) loc by simp
    qed
  qed
qed

lemma client_steps_ok:
  assumes "refs_held s cs I D" and "disciplined (s, cs, I, D) calls" and "strict \<Longrightarrow> \<forall>c \<in> set cs. located c"
    and "strict \<Longrightarrow> \<forall>i k. ContentCall (InsertKey i k) \<notin> set calls"
  shows "(\<exists>s' cs' I' D'. foldE client_step (s, cs, I, D) calls = Inr (s', cs', I', D') \<and> refs_held s' cs' I' D') \<or>
    \<not> strict \<and> foldE client_step (s, cs, I, D) calls = Inl bad_pointer"
  using assms
proof (induction calls arbitrary: s cs I D)
  case (Cons call calls)
  have al: "allowed (s, cs, I, D) call" using Cons.prems(2) by simp
  have "strict \<Longrightarrow> \<forall>i k. call \<noteq> ContentCall (InsertKey i k)" using Cons.prems(4) by auto
  from client_step_ok [OF Cons.prems(1) al Cons.prems(3) this]
  show ?case
  proof
    assume "\<exists>s' cs' I' D'. client_step (s, cs, I, D) call = Inr (s', cs', I', D') \<and> refs_held s' cs' I' D' \<and> (strict \<longrightarrow> (\<forall>c \<in> set cs'. located c))"
    then obtain s' cs' I' D' where step: "client_step (s, cs, I, D) call = Inr (s', cs', I', D')" "refs_held s' cs' I' D'"
      "strict \<longrightarrow> (\<forall>c \<in> set cs'. located c)" by blast
    have "strict \<Longrightarrow> \<forall>i k. ContentCall (InsertKey i k) \<notin> set calls" using Cons.prems(4) by auto
    moreover have "disciplined (s', cs', I', D') calls" using Cons.prems(2) step(1) by simp
    ultimately show ?case using Cons.IH [OF step(2)] step(1,3) by simp
  qed auto
qed simp

lemma held_alive:
  assumes "refs_held s cs I D" "c \<in> set cs"
  shows "(\<forall>(k, a) \<in> set (cc_conditions c). a \<noteq> 0 \<longrightarrow> rs_infos s a \<noteq> None) \<and> (\<forall>(k, a) \<in> set (cc_derived c). rs_deps s a \<noteq> None)"
proof -
  obtain m where m: "m < length cs" "c = cs ! m" using assms(2) by (auto simp: in_set_conv_nth)
  note l = local_okD [OF refs_held_local [OF assms(1) m(1)], folded m(2)]
  have "rs_infos s a \<noteq> None" if "(k, a) \<in> set (cc_conditions c)" "a \<noteq> 0" for k a
    using counted_ok_dead [OF l(5), of a] refs_in [OF that] by auto
  moreover have "rs_deps s a \<noteq> None" if k: "(k, a) \<in> set (cc_derived c)" for k a
  proof -
    have "a \<noteq> 0" using l(4) k by force
    then show ?thesis using counted_ok_dead [OF l(6), of a] refs_in [OF k] by auto
  qed
  ultimately show ?thesis by blast
qed

text \<open>An access to a deleted object is never undone.\<close>

lemma releasePtr_result: "releasePtr h b = Inl bad_pointer \<or> (\<exists>h'. releasePtr h b = Inr h' \<and> (\<forall>a. h a = None \<longrightarrow> h' a = None))"
  by (auto simp: releasePtr_def release_def split: option.splits)

lemma releaseObjects_Cons: "releaseObjects h (p # m) = bindE (releasePtr h (snd p)) (\<lambda>h'. releaseObjects h' m)"
  by (simp add: releaseObjects_def)

lemma releaseObjects_dead: "\<lbrakk>h a = None; a \<noteq> 0; a \<in> snd ` set m\<rbrakk> \<Longrightarrow> releaseObjects h m = Inl bad_pointer"
proof (induction m arbitrary: h)
  case (Cons p m)
  show ?case
  proof (cases "snd p = a")
    case True
    then show ?thesis using Cons.prems by (simp add: releaseObjects_Cons releasePtr_def release_def)
  next
    case False
    then have m: "a \<in> snd ` set m" using Cons.prems(3) by auto
    from releasePtr_result [of h "snd p"] show ?thesis
    proof
      assume "\<exists>h'. releasePtr h (snd p) = Inr h' \<and> (\<forall>a. h a = None \<longrightarrow> h' a = None)"
      then obtain h' where "releasePtr h (snd p) = Inr h'" "h' a = None" using Cons.prems(1) by blast
      then show ?thesis using Cons.IH [OF _ Cons.prems(2) m] by (simp add: releaseObjects_Cons)
    qed (simp add: releaseObjects_Cons)
  qed
qed simp

lemma releaseObjects_result: "releaseObjects h m = Inl bad_pointer \<or> (\<exists>h'. releaseObjects h m = Inr h')"
proof (induction m arbitrary: h)
  case (Cons p m)
  from releasePtr_result [of h "snd p"] show ?case
  proof
    assume "\<exists>h'. releasePtr h (snd p) = Inr h' \<and> (\<forall>a. h a = None \<longrightarrow> h' a = None)"
    then obtain h' where "releasePtr h (snd p) = Inr h'" by blast
    then show ?thesis using Cons.IH [of h'] by (simp add: releaseObjects_Cons)
  qed (simp add: releaseObjects_Cons)
qed (simp add: releaseObjects_def)

section \<open>Properties\<close>

text \<open>C30. From any state whose counts are right (\<open>refs_held\<close>; the empty one is), however a client makes, shares, merges, changes and destroys contents, and however it adds objects
  that exist already to further contents: as long as it keeps the discipline (it passes existing objects, gives back only the
  references it took, and holds a reference to an object it adds under a taken key, which the
  functions then release), the count of every load information and dependency is the number of references of contents and
  client to it. Nothing a content or the client refers to is
  ever deleted, and when the last content is gone and the client has given back its references nothing is left. Without keys inserted without
  load information no call is ever undefined.\<close>

theorem reference_counts:
  assumes "refs_held s cs I D" and "disciplined (s, cs, I, D) calls"
  shows "(\<forall>s' cs' I' D'. foldE client_step (s, cs, I, D) calls = Inr (s', cs', I', D') \<longrightarrow>
      (\<forall>a r. rs_infos s' a = Some r \<longrightarrow> ref_count r = int (count (all_refs cc_conditions cs' + I') a)) \<and>
      (\<forall>a r. rs_deps s' a = Some r \<longrightarrow> ref_count r = int (count (all_refs cc_derived cs' + D') a)) \<and>
      (\<forall>c \<in> set cs'. (\<forall>(k, a) \<in> set (cc_conditions c). a \<noteq> 0 \<longrightarrow> rs_infos s' a \<noteq> None) \<and>
        (\<forall>(k, a) \<in> set (cc_derived c). rs_deps s' a \<noteq> None)) \<and>
      (\<forall>a \<in># I'. rs_infos s' a \<noteq> None) \<and> (\<forall>a \<in># D'. rs_deps s' a \<noteq> None) \<and>
      (cs' = [] \<and> I' = {#} \<longrightarrow> rs_infos s' = Map.empty) \<and> (cs' = [] \<and> D' = {#} \<longrightarrow> rs_deps s' = Map.empty)) \<and>
    ((\<forall>c \<in> set cs. located c) \<and> (\<forall>i k. ContentCall (InsertKey i k) \<notin> set calls) \<longrightarrow> is_ok (foldE client_step (s, cs, I, D) calls))"
proof (intro conjI allI impI)
  fix s' cs' I' D' assume run: "foldE client_step (s, cs, I, D) calls = Inr (s', cs', I', D')"
  have ok: "refs_held s' cs' I' D'" using client_steps_ok [OF assms, of False] run by auto
  then have i: "counted_ok (rs_infos s') (rs_next s') (all_refs cc_conditions cs' + I')"
    and d: "counted_ok (rs_deps s') (rs_next s') (all_refs cc_derived cs' + D')" by (simp_all add: refs_held_def)
  show "ref_count r = int (count (all_refs cc_conditions cs' + I') a)" if "rs_infos s' a = Some r" for a r
    using counted_ok_object [OF i that] by simp
  show "ref_count r = int (count (all_refs cc_derived cs' + D') a)" if "rs_deps s' a = Some r" for a r
    using counted_ok_object [OF d that] by simp
  show "\<forall>c \<in> set cs'. (\<forall>(k, a) \<in> set (cc_conditions c). a \<noteq> 0 \<longrightarrow> rs_infos s' a \<noteq> None) \<and>
      (\<forall>(k, a) \<in> set (cc_derived c). rs_deps s' a \<noteq> None)"
    using held_alive [OF ok] by blast
  show "\<forall>a \<in># I'. rs_infos s' a \<noteq> None" using counted_ok_dead [OF i] by auto
  show "\<forall>a \<in># D'. rs_deps s' a \<noteq> None" using counted_ok_dead [OF d] by auto
  show "rs_infos s' = Map.empty" if "cs' = [] \<and> I' = {#}" using i that by (auto simp: counted_ok_def all_refs_def fun_eq_iff)
  show "rs_deps s' = Map.empty" if "cs' = [] \<and> D' = {#}" using d that by (auto simp: counted_ok_def all_refs_def fun_eq_iff)
next
  assume "(\<forall>c \<in> set cs. located c) \<and> (\<forall>i k. ContentCall (InsertKey i k) \<notin> set calls)"
  then show "is_ok (foldE client_step (s, cs, I, D) calls)" using client_steps_ok [OF assms, of True] by auto
qed

text \<open>Two contents that share an object by merging; the client adds the shared object again, with a reference of its own.\<close>

definition two_contents :: "client_call list" where
  "two_contents = [ContentCall NewContent, ContentCall NewContent, ContentCall (AddLocation 0 7 ''a''), ContentCall (AddLocation 0 7 ''b''),
     ContentCall (Merge 1 0), HoldInfo 1, ShareInfo 1 7 1, ShareInfo 1 8 1, ContentCall (Remove 0 7)]"

lemmas content_eval = two_contents_def RefStore_new_def ConditionsContent_new_def on_content_def addLocation_def new_info_def
  addLocationInfo_def map_emplace_def addRef_def release_def content_merge_def merge_map_def merge_entry_def
  content_remove_def releasePtr_def map_erase_def

theorem reference_counts_witness:
  "\<exists>s c. foldE client_step (RefStore_new, [], {#}, {#}) two_contents = Inr (s, [ConditionsContent_new, c], {#}, {#}) \<and>
     cc_conditions c = [(7, 1), (8, 1)] \<and> rs_infos s = [1 \<mapsto> \<lparr>ref_count = 2, ref_object = ''a''\<rparr>] \<and>
     ref_count (the (rs_infos s 1)) = int (count (all_refs cc_conditions [ConditionsContent_new, c]) 1)"
proof -
  have ok: "refs_held RefStore_new [] {#} {#}" by (simp add: refs_held_def RefStore_new_def all_refs_def counted_ok_def)
  obtain s c where run: "foldE client_step (RefStore_new, [], {#}, {#}) two_contents = Inr (s, [ConditionsContent_new, c], {#}, {#})"
    "cc_conditions c = [(7, 1), (8, 1)]" "rs_infos s = [1 \<mapsto> \<lparr>ref_count = 2, ref_object = ''a''\<rparr>]"
    by (simp add: content_eval)
  have "disciplined (RefStore_new, [], {#}, {#}) two_contents" by (simp add: content_eval)
  note r = reference_counts [OF ok this]
  have "ref_count (the (rs_infos s 1)) = int (count (all_refs cc_conditions [ConditionsContent_new, c] + {#}) 1)"
    using conjunct1 [OF r, THEN spec, THEN spec, THEN spec, THEN spec, THEN mp, OF run(1), THEN conjunct1,
        THEN spec [of _ 1], THEN spec [of _ "\<lparr>ref_count = 2, ref_object = ''a''\<rparr>"]] run(3)
    by simp
  then show ?thesis using run by simp
qed

text \<open>Merging keeps the entries of the target and adds those of the source under new keys; it is
  undefined exactly when one of these is a key that was inserted without load information.\<close>

theorem merge_of_contents:
  assumes "refs_held s cs I D" and "i < length cs" and "j < length cs"
  shows "if \<exists>k. map_of (cc_conditions (cs ! j)) k = Some 0 \<and> map_of (cc_conditions (cs ! i)) k = None
    then content_merge s (cs ! i) (cs ! j) = Inl bad_pointer
    else \<exists>s' c'. content_merge s (cs ! i) (cs ! j) = Inr (s', c') \<and> refs_held s' (cs[i := c']) I D \<and>
      map_of (cc_conditions c') = map_of (cc_conditions (cs ! j)) ++ map_of (cc_conditions (cs ! i)) \<and>
      map_of (cc_derived c') = map_of (cc_derived (cs ! j)) ++ map_of (cc_derived (cs ! i))"
proof -
  note l = refs_held_local [OF assms(1,2)]
  have sub: "map_refs (sel (cs ! j)) \<subseteq># all_refs sel cs" for sel using all_refs_split [OF assms(3), of sel] by simp
  have ok: "content_ok (cs ! j)" using assms(1,3) by (auto simp: refs_held_def content_ok_def)
  have null: "(\<exists>k. map_of (cc_conditions (cs ! j)) k = Some 0 \<and> map_of (cc_conditions (cs ! i)) k = None) \<longleftrightarrow>
      null_new (cc_conditions (cs ! i)) (cc_conditions (cs ! j))"
    using ok by (auto simp: null_new_def content_ok_def map_of_mem)
  have s: "map_refs (sel (cs ! j)) \<subseteq># map_refs (sel (cs ! i)) + (all_refs sel (take i cs @ drop (Suc i) cs) + M)" for sel M
    using subset_mset.trans [OF sub [of sel], of "all_refs sel cs + M"] all_refs_split [OF assms(2), of sel] by (simp add: add.assoc)
  note m = content_merge_ok [OF l ok s s]
  show ?thesis
  proof (cases "null_new (cc_conditions (cs ! i)) (cc_conditions (cs ! j))")
    case False
    then obtain s' c' where c': "content_merge s (cs ! i) (cs ! j) = Inr (s', c')"
      "local_ok s' c' (all_refs cc_conditions (take i cs @ drop (Suc i) cs) + I) (all_refs cc_derived (take i cs @ drop (Suc i) cs) + D)"
      "map_of (cc_conditions c') = map_of (cc_conditions (cs ! j)) ++ map_of (cc_conditions (cs ! i))"
      "map_of (cc_derived c') = map_of (cc_derived (cs ! j)) ++ map_of (cc_derived (cs ! i))" using m by auto
    then show ?thesis using refs_held_update [OF assms(1,2) c'(2)] False null by auto
  qed (use m null in simp)
qed

theorem merge_of_contents_witness:
  "content_merge RefStore_new ConditionsContent_new (fst (content_insertKey ConditionsContent_new 7)) = Inl bad_pointer"
proof -
  let ?cs = "[ConditionsContent_new, fst (content_insertKey ConditionsContent_new 7)]"
  have ok: "refs_held RefStore_new ?cs {#} {#}"
    by (simp add: refs_held_def RefStore_new_def ConditionsContent_new_def content_insertKey_def map_emplace_def
        all_refs_def counted_ok_def map_ok_Cons)
  have "map_of (cc_conditions (?cs ! 1)) 7 = Some 0 \<and> map_of (cc_conditions (?cs ! 0)) 7 = None"
    by (simp add: ConditionsContent_new_def content_insertKey_def map_emplace_def)
  then have null: "\<exists>k. map_of (cc_conditions (?cs ! 1)) k = Some 0 \<and> map_of (cc_conditions (?cs ! 0)) k = None" by blast
  have "content_merge RefStore_new (?cs ! 0) (?cs ! 1) = Inl bad_pointer"
    by (rule merge_of_contents [OF ok, of 0 1, unfolded if_P [OF null]]) simp_all
  then show ?thesis by simp
qed

text \<open>An object that a content already holds must not be added again: where the key is taken the
  functions release a reference that was never taken. With a single reference this deletes the
  object under the content, and clearing (or destroying) the content is then undefined.\<close>

theorem shared_object_deleted:
  assumes "a \<noteq> 0"
  shows "(rs_deps s a = Some \<lparr>ref_count = 1, ref_object = d\<rparr> \<and> map_of (cc_derived c) (cd_target d) = Some a \<longrightarrow>
      (\<exists>s'. addDependency s c a = Inr (s', c, Inl dependency_exists) \<and> rs_deps s' a = None \<and> content_clear s' c = Inl bad_pointer)) \<and>
    (rs_infos s a = Some \<lparr>ref_count = 1, ref_object = i\<rparr> \<and> map_of (cc_conditions c) k = Some a \<longrightarrow>
      (\<exists>s'. addLocationInfo s c k a = Inr (s', c, (0, 0)) \<and> rs_infos s' a = None \<and> content_clear s' c = Inl bad_pointer))"
proof (intro conjI impI; elim conjE)
  assume d: "rs_deps s a = Some \<lparr>ref_count = 1, ref_object = d\<rparr>" "map_of (cc_derived c) (cd_target d) = Some a"
  have "a \<in> snd ` set (cc_derived c)" using map_of_SomeD [OF d(2)] by force
  then show "\<exists>s'. addDependency s c a = Inr (s', c, Inl dependency_exists) \<and> rs_deps s' a = None \<and> content_clear s' c = Inl bad_pointer"
    using d assms releaseObjects_dead [of "(rs_deps s)(a := None)" a "cc_derived c"]
    by (simp add: addDependency_def map_emplace_def release_def content_clear_def)
next
  assume i: "rs_infos s a = Some \<lparr>ref_count = 1, ref_object = i\<rparr>" "map_of (cc_conditions c) k = Some a"
  have "a \<in> snd ` set (cc_conditions c)" using map_of_SomeD [OF i(2)] by force
  then show "\<exists>s'. addLocationInfo s c k a = Inr (s', c, (0, 0)) \<and> rs_infos s' a = None \<and> content_clear s' c = Inl bad_pointer"
    using i assms releaseObjects_dead [of "(rs_infos s)(a := None)" a "cc_conditions c"]
      releaseObjects_result [of "rs_deps s" "cc_derived c"]
    by (auto simp: addLocationInfo_def map_emplace_def release_def content_clear_def)
qed

theorem shared_object_deleted_witness:
  "\<exists>s c s'. addLocation RefStore_new ConditionsContent_new 7 ''x'' = Inr (s, c, (7, 1)) \<and>
     addLocationInfo s c 7 1 = Inr (s', c, (0, 0)) \<and> content_clear s' c = Inl bad_pointer"
proof -
  obtain s c where a: "addLocation RefStore_new ConditionsContent_new 7 ''x'' = Inr (s, c, (7, 1))"
    "rs_infos s 1 = Some \<lparr>ref_count = 1, ref_object = ''x''\<rparr>" "map_of (cc_conditions c) 7 = Some 1"
    by (simp add: addLocation_def new_info_def RefStore_new_def ConditionsContent_new_def addLocationInfo_def map_emplace_def addRef_def)
  show ?thesis using shared_object_deleted [of 1 s _ c _ 7] a by auto
qed

end
