(* ===== verification/ConditionsLoading.thy ===== *)
theory ConditionsLoading
  imports ConditionsContent
begin

text \<open>
  Filling a user pool for a point in time: \<open>prepare\<close>, \<open>load\<close> and \<open>compute\<close> of the user pool
  (\<open>src/DDCond/src/plugins/ConditionsUserPool.cpp\<close>) and of the manager (\<open>Type1/Manager_Type1.cpp\<close>), and
  the slice through which a client asks for it (\<open>ConditionsSlice.cpp\<close>, \<open>ConditionsSlice.h\<close>).

  The pool first takes everything the pools of the manager hold for the time, then asks a loader for
  the conditions of the slice's content that are missing, and derives the missing derived conditions. The
  loader is not part of the repository (two loaders that are read XML or refuse), so it is a parameter:
  from the store, the time and the missing keys it gives the new store, the
  loaded conditions and the number of updates. The vector of missing keys it is handed is taken to be
  unchanged, and the interval it could change is not read afterwards. A content is the two maps of
  \<open>ConditionsContent\<close>, its objects are in a store \<open>RefStore\<close> which is only read. Log output is left
  out, but not the accesses made for it.
\<close>

subsection \<open>Results\<close>

record Result =
  res_selected :: u64
  res_loaded :: u64
  res_computed :: u64
  res_missing :: u64

definition Result_new :: Result where
  "Result_new = \<lparr>res_selected = 0, res_loaded = 0, res_computed = 0, res_missing = 0\<rparr>"

definition result_total :: "Result \<Rightarrow> u64" where
  "result_total r = res_selected r + res_computed r + res_loaded r"

definition result_plus :: "Result \<Rightarrow> Result \<Rightarrow> Result" where
  "result_plus r q = \<lparr>res_selected = res_selected r + res_selected q, res_loaded = res_loaded r + res_loaded q,
     res_computed = res_computed r + res_computed q, res_missing = res_missing r + res_missing q\<rparr>"

definition result_minus :: "Result \<Rightarrow> Result \<Rightarrow> Result" where
  "result_minus r q = \<lparr>res_selected = res_selected r - res_selected q, res_loaded = res_loaded r - res_loaded q,
     res_computed = res_computed r - res_computed q, res_missing = res_missing r - res_missing q\<rparr>"

subsection \<open>Slices\<close>

definition REF_POOLS :: u64 where "REF_POOLS = push_bit 1 1"

record ConditionsSlice =
  sl_pool :: "UserPool option"
  sl_content :: "ConditionsContent option"
  sl_status :: Result
  sl_used_pools :: "nat list"
  sl_flags :: u64
  sl_missing_conditions :: "(u64, nat) std_map"
  sl_missing_derivations :: "(u64, nat) std_map"

definition ConditionsSlice_new :: "ConditionsContent option \<Rightarrow> ConditionsSlice" where
  "ConditionsSlice_new c = \<lparr>sl_pool = None, sl_content = c, sl_status = Result_new, sl_used_pools = [], sl_flags = 0,
     sl_missing_conditions = [], sl_missing_derivations = []\<rparr>"

text \<open>The copy shares the content only.\<close>

definition ConditionsSlice_copy :: "ConditionsSlice \<Rightarrow> ConditionsSlice" where
  "ConditionsSlice_copy sl = ConditionsSlice_new (sl_content sl)"

definition slice_content :: "ConditionsSlice \<Rightarrow> ConditionsContent cpp" where
  "slice_content sl = (case sl_content sl of Some c \<Rightarrow> Inr c | None \<Rightarrow> Inl bad_pointer)"

definition slice_size :: "ConditionsSlice \<Rightarrow> u64 cpp" where
  "slice_size sl = bindE (slice_content sl) (\<lambda>c. Inr (of_nat (length (cc_conditions c)) + of_nat (length (cc_derived c))))"

definition slice_user_pool :: "ConditionsSlice \<Rightarrow> UserPool cpp" where
  "slice_user_pool sl = (case sl_pool sl of Some u \<Rightarrow> Inr u | None \<Rightarrow> Inl bad_pointer)"

definition refPools :: "ConditionsSlice \<Rightarrow> ConditionsSlice" where
  "refPools sl = sl\<lparr>sl_flags := sl_flags sl OR REF_POOLS\<rparr>"

text \<open>
  \<open>used_pools\<close> is a vector of shared pointers: a pool that no table of the manager and no other slice
  refers to is destroyed when it is cleared.
\<close>

definition in_tables :: "CondState \<Rightarrow> nat \<Rightarrow> bool" where
  "in_tables s p \<longleftrightarrow> list_ex (\<lambda>raw. case raw of Some ip \<Rightarrow> p \<in> set (List.map snd (ip_elements ip)) | None \<Rightarrow> False) (cm_rawPool s)"

definition drop_pool :: "CondState \<Rightarrow> nat \<Rightarrow> CondState cpp" where
  "drop_pool s p = (let s1 = s\<lparr>cs_held := remove1 p (cs_held s)\<rparr> in
     if in_tables s1 p then Inr s1 else destroy_pool s1 p)"

definition drop_pools :: "CondState \<Rightarrow> nat list \<Rightarrow> CondState cpp" where
  "drop_pools s ps = foldE drop_pool s ps"

definition derefPools :: "CondState \<Rightarrow> ConditionsSlice \<Rightarrow> (CondState \<times> ConditionsSlice) cpp" where
  "derefPools s sl = bindE (drop_pools s (sl_used_pools sl)) (\<lambda>s1.
     Inr (s1, sl\<lparr>sl_used_pools := [], sl_flags := sl_flags sl AND NOT REF_POOLS\<rparr>))"

definition slice_iov :: "ConditionsSlice \<Rightarrow> IOV cpp" where
  "slice_iov sl = (case sl_pool sl of
       Some u \<Rightarrow> Inr (up_iov u)
     | None \<Rightarrow> Inl (RuntimeError ''ConditionsSlice: pool-iov: Failed to access validity of non-existing pool.''))"

definition slice_reset :: "CondState \<Rightarrow> ConditionsSlice \<Rightarrow> (CondState \<times> ConditionsSlice) cpp" where
  "slice_reset s sl = bindE (derefPools s sl) (\<lambda>(s1, sl1). Inr (s1, sl1\<lparr>sl_pool := map_option upool_clear (sl_pool sl1)\<rparr>))"

subsection \<open>Conditions given by the client\<close>

definition REGISTER_MANAGER :: u32 where "REGISTER_MANAGER = push_bit 0 1"
definition REGISTER_POOL :: u32 where "REGISTER_POOL = push_bit 1 1"
definition REGISTER_FULL :: u32 where "REGISTER_FULL = REGISTER_MANAGER OR REGISTER_POOL"

definition slice_error :: "string \<Rightarrow> cpp_error" where
  "slice_error m = RuntimeError (''ConditionsSlice: manage_condition: '' @ m)"

definition manage_in :: "CondState \<Rightarrow> ConditionsSlice \<Rightarrow> nat \<Rightarrow> cond \<Rightarrow> u32 \<Rightarrow> (CondState \<times> ConditionsSlice \<times> bool) cpp" where
  "manage_in s sl p c flg =
     (if c = 0 then Inl (slice_error ''Cannot manage invalid condition!'')
      else bindE
        (if flg AND REGISTER_MANAGER \<noteq> 0 then
           (if p = 0 then bindE (slice_user_pool sl) (\<lambda>_. Inl (slice_error ''Cannot access conditions pool''))
            else bindE (registerUnlocked s p c) (\<lambda>(s1, ret).
              if ret then Inr (s1, ret) else Inl (slice_error ''Failed to register condition'')))
         else Inr (s, False))
        (\<lambda>(s1, ret).
          if flg AND REGISTER_POOL \<noteq> 0 then
            bindE (slice_user_pool sl) (\<lambda>u. bindE (upool_insert s1 u c) (\<lambda>u1. Inr (s1, sl\<lparr>sl_pool := Some u1\<rparr>, True)))
          else Inr (s1, sl, ret)))"

definition slice_register :: "CondState \<Rightarrow> ConditionsSlice \<Rightarrow> (CondState \<times> nat) cpp" where
  "slice_register s sl = bindE (slice_user_pool sl) (\<lambda>u. registerIOV_of s (up_iov u))"

definition manage :: "CondState \<Rightarrow> ConditionsSlice \<Rightarrow> cond \<Rightarrow> u32 \<Rightarrow> (CondState \<times> ConditionsSlice \<times> bool) cpp" where
  "manage s sl c flg = bindE (if flg AND REGISTER_MANAGER \<noteq> 0 then slice_register s sl else Inr (s, 0)) (\<lambda>(s1, p).
     manage_in s1 sl p c flg)"

definition manage_all :: "CondState \<Rightarrow> ConditionsSlice \<Rightarrow> cond list \<Rightarrow> u32 \<Rightarrow> (CondState \<times> ConditionsSlice) cpp" where
  "manage_all s sl cs flg = (if cs = [] then Inr (s, sl) else
     bindE (if flg AND REGISTER_MANAGER \<noteq> 0 then slice_register s sl else Inr (s, 0)) (\<lambda>(s1, p).
       foldE (\<lambda>(s, sl) c. bindE (manage_in s sl p c flg) (\<lambda>(s2, sl2, _). Inr (s2, sl2))) (s1, sl) cs))"

definition slice_insert :: "CondState \<Rightarrow> ConditionsSlice \<Rightarrow> u32 \<Rightarrow> u32 \<Rightarrow> cond \<Rightarrow> (CondState \<times> ConditionsSlice \<times> bool) cpp" where
  "slice_insert s sl det_key key c =
     (if c \<noteq> 0 then
        bindE (slice_register s sl) (\<lambda>(s1, p).
          if p = 0 then Inl (slice_error ''Cannot access conditions pool'')
          else bindE (registerUnlocked s1 p c) (\<lambda>(s2, ret).
            if \<not> ret then Inl (slice_error ''Failed to register condition'')
            else bindE (slice_user_pool sl) (\<lambda>u. bindE (upool_insert_item s2 u det_key key c) (\<lambda>(s3, u1).
              Inr (s3, sl\<lparr>sl_pool := Some u1\<rparr>, True)))))
      else Inl (RuntimeError ''ConditionsSlice: insert_condition: Cannot insert invalid condition to the user pool!''))"

text \<open>\<open>ConditionsSlice::Inserter\<close> over a container of conditions; it asks for the interval's type unchecked.\<close>

definition slice_inserter :: "CondState \<Rightarrow> ConditionsSlice \<Rightarrow> cond list \<Rightarrow> (CondState \<times> ConditionsSlice) cpp" where
  "slice_inserter s sl cs = bindE (slice_user_pool sl) (\<lambda>u. case iov_iovType (up_iov u) of
       None \<Rightarrow> Inl bad_pointer
     | Some t \<Rightarrow> bindE (registerIOV s t (iov_keyData (up_iov u))) (\<lambda>(s1, p).
         bindE (foldE (\<lambda>(s, u) c. bindE (registerUnlocked s p c) (\<lambda>(s2, _).
             bindE (upool_insert s2 u c) (\<lambda>u2. Inr (s2, u2)))) (s1, u) cs)
           (\<lambda>(s2, u2). Inr (s2, sl\<lparr>sl_pool := Some u2\<rparr>))))"

subsection \<open>Access through a slice\<close>

definition slice_get_all :: "ConditionsSlice \<Rightarrow> u32 \<Rightarrow> cond list cpp" where
  "slice_get_all sl det_key = bindE (slice_user_pool sl) (\<lambda>u. Inr (upool_range_item u det_key FIRST_ITEM_KEY LAST_ITEM_KEY))"

definition slice_get_range :: "ConditionsSlice \<Rightarrow> u32 \<Rightarrow> u32 \<Rightarrow> u32 \<Rightarrow> cond list cpp" where
  "slice_get_range sl det_key lower upper = bindE (slice_user_pool sl) (\<lambda>u. Inr (upool_range_item u det_key lower upper))"

definition slice_get :: "ConditionsSlice \<Rightarrow> u32 \<Rightarrow> u32 \<Rightarrow> cond cpp" where
  "slice_get sl det_key key = bindE (slice_user_pool sl) (\<lambda>u. Inr (upool_get_item u det_key key))"

definition slice_scan :: "ConditionsSlice \<Rightarrow> ('st \<Rightarrow> cond \<Rightarrow> 'st cpp) \<Rightarrow> 'st \<Rightarrow> 'st cpp" where
  "slice_scan sl proc st = bindE (slice_user_pool sl) (\<lambda>u. upool_scan u proc st)"

definition slice_scan_item :: "ConditionsSlice \<Rightarrow> u32 \<Rightarrow> u32 \<Rightarrow> u32 \<Rightarrow> ('st \<Rightarrow> cond \<Rightarrow> 'st cpp) \<Rightarrow> 'st \<Rightarrow> 'st cpp" where
  "slice_scan_item sl det_key lower upper proc st = bindE (slice_user_pool sl) (\<lambda>u. upool_scan_item u det_key lower upper proc st)"

text \<open>
  \<open>fill_content\<close> visits all conditions of a type. Its one effect, \<open>addLocation\<close>, is compiled only
  without \<open>DD4HEP_MINIMAL_CONDITIONS\<close>, which \<open>config.h\<close> defines unless debugging is on.
\<close>

definition fill_content :: "CondState \<Rightarrow> ConditionsContent \<Rightarrow> IOVType \<Rightarrow> ConditionsContent cpp" where
  "fill_content s c t = bindE (iovPool s t) (\<lambda>raw. case raw of
       None \<Rightarrow> Inl bad_pointer
     | Some ip \<Rightarrow> foldE (\<lambda>c (k, p). bindE (pool_get s p) (\<lambda>q.
         foldE (\<lambda>c x. bindE (cond_get s x) (\<lambda>ob. Inr c)) c (entry_conds (cp_entries q)))) c (ip_elements ip))"

subsection \<open>Selection of what is there\<close>

text \<open>
  \<open>std::set_difference\<close> of two ordered ranges, compared by their keys: the entries of the first whose key is
  not in the second.
\<close>

fun set_difference :: "('k::linorder \<times> 'a) list \<Rightarrow> ('k \<times> 'b) list \<Rightarrow> ('k \<times> 'a) list" where
  "set_difference [] ys = []"
| "set_difference (x # xs) [] = x # xs"
| "set_difference (x # xs) (y # ys) =
     (if fst x < fst y then x # set_difference xs (y # ys)
      else if fst y < fst x then set_difference (x # xs) ys
      else set_difference xs ys)"

definition insert_all :: "('k::linorder, 'a) std_map \<Rightarrow> ('k \<times> 'a) list \<Rightarrow> ('k, 'a) std_map" where
  "insert_all m xs = foldl (\<lambda>m (k, a). fst (map_emplace k a m)) m xs"

text \<open>The pool is emptied and takes all conditions valid at the required time; its interval becomes theirs.\<close>

definition user_iovpool :: "CondState \<Rightarrow> UserPool \<Rightarrow> ConditionsIOVPool cpp" where
  "user_iovpool s u = bindE (raw_pool s (up_iovPool u)) (\<lambda>p. case p of Some ip \<Rightarrow> Inr ip | None \<Rightarrow> Inl bad_pointer)"

definition select_present :: "CondState \<Rightarrow> UserPool \<Rightarrow> IOV \<Rightarrow> (CondState \<times> UserPool) cpp" where
  "select_present s u required = bindE (user_iovpool s u) (\<lambda>ip.
     bindE (iovpool_select_map s ip required [] (iov_invert (iov_reset (IOV_new (iov_iovType required))))) (\<lambda>(s1, m, v, n).
       Inr (s1, u\<lparr>up_conditions := m, up_iov := v\<rparr>)))"

subsection \<open>Loading what is missing\<close>

type_synonym loader = "CondState \<Rightarrow> IOV \<Rightarrow> (u64, nat) std_map \<Rightarrow> (CondState \<times> (u64, cond) std_map \<times> nat) cpp"

text \<open>\<open>Inserter\<close>: a loaded condition goes into the pool and narrows its interval.\<close>

definition insert_loaded :: "CondState \<Rightarrow> UserPool \<Rightarrow> u64 \<times> cond \<Rightarrow> UserPool cpp" where
  "insert_loaded s u e = bindE (cond_get s (snd e)) (\<lambda>ob. bindE (iov_get s (co_iov ob)) (\<lambda>v.
     Inr (u\<lparr>up_conditions := fst (map_emplace (co_hash ob) (snd e) (up_conditions u)),
            up_iov := iov_intersection_key (up_iov u) (iov_keyData v)\<rparr>)))"

text \<open>The error output of \<open>prepare\<close> prints the load information of every missing condition, also a null one.\<close>

definition print_unloaded :: "RefStore \<Rightarrow> (u64, nat) std_map \<Rightarrow> unit cpp" where
  "print_unloaded refs m = foldE (\<lambda>_ (k, a). case rs_infos refs a of
       Some r \<Rightarrow> if a = 0 then Inl bad_pointer else Inr ()
     | None \<Rightarrow> Inl bad_pointer) () m"

text \<open>
  The loading step, common to \<open>prepare\<close> and \<open>load\<close>: \<open>do_load\<close> and \<open>do_output_miss\<close> are settings of the manager, \<open>slice_cond\<close> are the conditions of the content,
  \<open>num_calc_miss\<close> the derived conditions counted as missing, \<open>verbose\<close> tells that unloaded conditions are printed.
\<close>

definition load_step :: "loader \<Rightarrow> RefStore \<Rightarrow> bool \<Rightarrow> bool \<Rightarrow> bool \<Rightarrow> IOV \<Rightarrow> (u64, nat) std_map \<Rightarrow> (u64, nat) std_map \<Rightarrow> nat \<Rightarrow>
    CondState \<Rightarrow> UserPool \<Rightarrow> ConditionsSlice \<Rightarrow> Result \<Rightarrow> (CondState \<times> UserPool \<times> ConditionsSlice \<times> Result) cpp" where
  "load_step load_many refs do_load do_output_miss verbose required slice_cond cond_missing num_calc_miss s u sl result =
     (if cond_missing = [] then Inr (s, u, sl, result)
      else if do_load then
        bindE (load_many s required cond_missing) (\<lambda>(s1, loaded, updates).
          if 0 < updates then
            (let load_missing = set_difference cond_missing loaded;
                 sl1 = (if do_output_miss
                        then sl\<lparr>sl_missing_conditions := insert_all (sl_missing_conditions sl) load_missing\<rparr> else sl)
             in bindE (if do_output_miss \<and> verbose then print_unloaded refs (sl_missing_conditions sl1) else Inr ()) (\<lambda>_.
                bindE (foldE (insert_loaded s1) u loaded) (\<lambda>u1.
                  Inr (s1, u1, sl1, result\<lparr>res_loaded := of_nat (length slice_cond) - of_nat (length load_missing),
                    res_missing := of_nat (length load_missing + num_calc_miss)\<rparr>))))
          else Inr (s1, u, sl, result))
      else if do_output_miss then
        (let sl1 = sl\<lparr>sl_missing_conditions := insert_all (sl_missing_conditions sl) cond_missing\<rparr>
         in bindE (if verbose then print_unloaded refs (sl_missing_conditions sl1) else Inr ()) (\<lambda>_. Inr (s, u, sl1, result)))
      else Inr (s, u, sl, result))"

subsection \<open>Deriving what is missing\<close>

definition dependency_at :: "RefStore \<Rightarrow> u64 \<times> nat \<Rightarrow> (u64 \<times> ConditionDependency) cpp" where
  "dependency_at refs e = (case rs_deps refs (snd e) of Some r \<Rightarrow> Inr (fst e, ref_object r) | None \<Rightarrow> Inl bad_pointer)"

fun dependencies_at :: "RefStore \<Rightarrow> (u64 \<times> nat) list \<Rightarrow> (u64 \<times> ConditionDependency) list cpp" where
  "dependencies_at refs [] = Inr []"
| "dependencies_at refs (e # es) = bindE (dependency_at refs e) (\<lambda>d. bindE (dependencies_at refs es) (\<lambda>ds. Inr (d # ds)))"

text \<open>The derivation step, common to \<open>prepare\<close> and \<open>compute\<close>.\<close>

definition compute_missing :: "RefStore \<Rightarrow> bool \<Rightarrow> bool \<Rightarrow> (u64, nat) std_map \<Rightarrow>
    CondState \<Rightarrow> UserPool \<Rightarrow> ConditionsSlice \<Rightarrow> Result \<Rightarrow> (CondState \<times> UserPool \<times> ConditionsSlice \<times> Result) cpp" where
  "compute_missing refs do_load do_output_miss calc_missing s u sl result =
     (if calc_missing = [] then Inr (s, u, sl, result)
      else if do_load then
        bindE (dependencies_at refs calc_missing) (\<lambda>deps. bindE (run_handler s u deps) (\<lambda>(s1, u1, num_callback).
          Inr (s1, u1,
            if do_output_miss \<and> (of_nat num_callback :: u64) < of_nat (length deps)
            then sl\<lparr>sl_missing_derivations := insert_all (sl_missing_derivations sl)
                   (filter (\<lambda>(k, a). map_of (up_conditions u1) k = None) calc_missing)\<rparr>
            else sl,
            result\<lparr>res_computed := of_nat num_callback, res_missing := res_missing result - of_nat num_callback\<rparr>)))
      else if do_output_miss then
        Inr (s, u, sl\<lparr>sl_missing_derivations := insert_all (sl_missing_derivations sl) calc_missing\<rparr>, result)
      else Inr (s, u, sl, result))"

text \<open>The end of \<open>prepare\<close> and \<open>compute\<close>: the slice may hold the pools it uses.\<close>

definition use_pools :: "IOV \<Rightarrow> CondState \<Rightarrow> UserPool \<Rightarrow> ConditionsSlice \<Rightarrow> (CondState \<times> ConditionsSlice) cpp" where
  "use_pools required s u sl = bindE (drop_pools s (sl_used_pools sl)) (\<lambda>s1.
     if sl_flags sl AND REF_POOLS \<noteq> 0 then
       bindE (user_iovpool s1 u) (\<lambda>ip. let (ps, n) = iovpool_vector ip required [] in
         Inr (s1\<lparr>cs_held := cs_held s1 @ ps\<rparr>, sl\<lparr>sl_used_pools := ps\<rparr>))
     else Inr (s1, sl\<lparr>sl_used_pools := []\<rparr>))"

subsection \<open>The operations of the user pool\<close>

definition upool_prepare :: "loader \<Rightarrow> RefStore \<Rightarrow> IOV \<Rightarrow> CondState \<Rightarrow> UserPool \<Rightarrow> ConditionsSlice \<Rightarrow>
    (CondState \<times> UserPool \<times> ConditionsSlice \<times> Result) cpp" where
  "upool_prepare load_many refs required s u sl = bindE (slice_content sl) (\<lambda>content.
     bindE (select_present s u required) (\<lambda>(s1, u1).
       let cond_missing = set_difference (cc_conditions content) (up_conditions u1);
           calc_missing = set_difference (cc_derived content) (up_conditions u1);
           sl1 = sl\<lparr>sl_missing_conditions := [], sl_missing_derivations := []\<rparr>;
           result = Result_new\<lparr>res_selected := of_nat (length (up_conditions u1)),
                               res_missing := of_nat (length cond_missing + length calc_missing)\<rparr>
       in bindE (load_step load_many refs (cm_doLoad s) (cm_doOutputUnloaded s) True required (cc_conditions content) cond_missing (length calc_missing) s1 u1 sl1 result)
         (\<lambda>(s2, u2, sl2, r2). bindE (compute_missing refs (cm_doLoad s) (cm_doOutputUnloaded s) calc_missing s2 u2 sl2 r2) (\<lambda>(s3, u3, sl3, r3).
           bindE (use_pools required s3 u3 (sl3\<lparr>sl_status := r3\<rparr>)) (\<lambda>(s4, sl4). Inr (s4, u3, sl4, r3))))))"

definition upool_load :: "loader \<Rightarrow> RefStore \<Rightarrow> IOV \<Rightarrow> CondState \<Rightarrow> UserPool \<Rightarrow> ConditionsSlice \<Rightarrow>
    (CondState \<times> UserPool \<times> ConditionsSlice \<times> Result) cpp" where
  "upool_load load_many refs required s u sl = bindE (slice_content sl) (\<lambda>content.
     bindE (select_present s u required) (\<lambda>(s1, u1).
       let cond_missing = set_difference (cc_conditions content) (up_conditions u1);
           result = Result_new\<lparr>res_selected := of_nat (length (up_conditions u1)), res_missing := of_nat (length cond_missing)\<rparr>
       in bindE (load_step load_many refs (cm_doLoad s) (cm_doOutputUnloaded s) False required (cc_conditions content) cond_missing 0 s1 u1
            (sl\<lparr>sl_missing_conditions := []\<rparr>) result)
         (\<lambda>(s2, u2, sl2, r2). Inr (s2, u2, sl2\<lparr>sl_status := r2\<rparr>, r2))))"

definition upool_compute :: "RefStore \<Rightarrow> IOV \<Rightarrow> CondState \<Rightarrow> UserPool \<Rightarrow> ConditionsSlice \<Rightarrow>
    (CondState \<times> UserPool \<times> ConditionsSlice \<times> Result) cpp" where
  "upool_compute refs required s u sl = bindE (slice_content sl) (\<lambda>content.
     let calc_missing = set_difference (cc_derived content) (up_conditions u);
         result = Result_new\<lparr>res_selected := of_nat (length (up_conditions u)), res_missing := of_nat (length calc_missing)\<rparr>
     in bindE (compute_missing refs (cm_doLoad s) (cm_doOutputUnloaded s) calc_missing s u (sl\<lparr>sl_missing_derivations := []\<rparr>) result)
       (\<lambda>(s1, u1, sl1, r1). bindE (use_pools required s1 u1 (sl1\<lparr>sl_status := result_plus (sl_status sl1) r1\<rparr>))
         (\<lambda>(s2, sl2). Inr (s2, u1, sl2, r1))))"

subsection \<open>The operations of the manager\<close>

text \<open>
  \<open>__get_checked_pool\<close>: the type of the required time must be known; the pool is created on first use.
  The plugin that creates it is the user pool of \<open>ConditionsUserPool\<close>; \<open>has_loader\<close> tells that the manager is initialised.
\<close>

definition unknown_type :: cpp_error where
  "unknown_type = mgr_error ''+++ Unknown IOV type requested to enable conditions.''"

definition checked_pool :: "bool \<Rightarrow> CondState \<Rightarrow> IOV \<Rightarrow> ConditionsSlice \<Rightarrow> UserPool cpp" where
  "checked_pool has_loader s required sl = bindE (check_iov_type_discrete s required) (\<lambda>t. case t of
       None \<Rightarrow> Inl unknown_type
     | Some t \<Rightarrow> (case sl_pool sl of Some u \<Rightarrow> Inr u
         | None \<Rightarrow> UserPool_new s has_loader (Some (unat (iovt_type t)))))"

definition createUserPool :: "bool \<Rightarrow> CondState \<Rightarrow> IOVType option \<Rightarrow> UserPool cpp" where
  "createUserPool has_loader s t = (case t of
       None \<Rightarrow> Inl unknown_type
     | Some t \<Rightarrow> bindE (raw_pool s (unat (iovt_type t))) (\<lambda>p.
         UserPool_new s has_loader (map_option (\<lambda>_. unat (iovt_type t)) p)))"

definition auto_clean :: "ConditionsCleanup option \<Rightarrow> CondState \<Rightarrow> CondState cpp" where
  "auto_clean cleaner s = (case cleaner of None \<Rightarrow> Inr s | Some cl \<Rightarrow> bindE (mgr_clean s cl) (\<lambda>(s1, n, m). Inr s1))"

definition mgr_prepare :: "bool \<Rightarrow> loader \<Rightarrow> ConditionsCleanup option \<Rightarrow> RefStore \<Rightarrow> CondState \<Rightarrow> IOV \<Rightarrow> ConditionsSlice \<Rightarrow>
    (CondState \<times> ConditionsSlice \<times> Result) cpp" where
  "mgr_prepare has_loader load_many cleaner refs s required sl = bindE (checked_pool has_loader s required sl) (\<lambda>u.
     bindE (pushUpdates s) (\<lambda>s1. bindE (upool_prepare load_many refs required s1 u sl) (\<lambda>(s2, u2, sl2, r).
       bindE (auto_clean cleaner s2) (\<lambda>s3. Inr (s3, sl2\<lparr>sl_pool := Some u2\<rparr>, r)))))"

definition mgr_load :: "bool \<Rightarrow> loader \<Rightarrow> RefStore \<Rightarrow> CondState \<Rightarrow> IOV \<Rightarrow> ConditionsSlice \<Rightarrow>
    (CondState \<times> ConditionsSlice \<times> Result) cpp" where
  "mgr_load has_loader load_many refs s required sl = bindE (checked_pool has_loader s required sl) (\<lambda>u.
     bindE (pushUpdates s) (\<lambda>s1. bindE (upool_load load_many refs required s1 u sl) (\<lambda>(s2, u2, sl2, r).
       Inr (s2, sl2\<lparr>sl_pool := Some u2\<rparr>, r))))"

definition mgr_compute :: "ConditionsCleanup option \<Rightarrow> RefStore \<Rightarrow> CondState \<Rightarrow> IOV \<Rightarrow> ConditionsSlice \<Rightarrow>
    (CondState \<times> ConditionsSlice \<times> Result) cpp" where
  "mgr_compute cleaner refs s required sl = bindE (slice_user_pool sl) (\<lambda>u.
     bindE (upool_compute refs required s u sl) (\<lambda>(s2, u2, sl2, r).
       bindE (auto_clean cleaner s2) (\<lambda>s3. Inr (s3, sl2\<lparr>sl_pool := Some u2\<rparr>, r))))"

end
