(* ===== verification/HandlerRuns.thy ===== *)
theory HandlerRuns
  imports DependencyHandler
begin

text \<open>
  Reasoning about runs of the handler of derived conditions: the locale \<open>handler_relation\<close> lifts a relation
  that the elementary steps respect to callbacks, accesses and passes, \<open>handler_depth\<close> shows in
  addition that the accesses never nest deeper than a potential allows. Its interpretation takes
  the number of entries that the work items still allow as potential.
\<close>


section \<open>Runs of the handler\<close>

text \<open>
  The shape of every statement about a run: a relation between handler states that all elementary
  steps respect is respected by callbacks, accesses and the two passes. \<open>ok\<close> is an invariant,
  \<open>pot\<close> bounds the depth of the accesses that can still happen.
\<close>

locale handler_relation =
  fixes ok :: "Handler \<Rightarrow> bool"
    and R :: "Handler \<Rightarrow> Handler \<Rightarrow> bool"
    and pot :: "Handler \<Rightarrow> nat"
  assumes R_refl: "ok h \<Longrightarrow> R h h"
    and R_trans: "\<lbrakk>R h h1; R h1 h2\<rbrakk> \<Longrightarrow> R h h2"
    and R_ok: "\<lbrakk>ok h; R h h'\<rbrakk> \<Longrightarrow> ok h'"
    and R_pot: "\<lbrakk>ok h; R h h'\<rbrakk> \<Longrightarrow> pot h' \<le> pot h"
    and R_new: "ok h \<Longrightarrow> R h (h\<lparr>hd_store := fst (Condition_object (hd_store h) val 0)\<rparr>)"
    and R_write: "\<lbrakk>ok h; cond_access (hd_store h) c = Inr ob\<rbrakk> \<Longrightarrow>
      R h (h\<lparr>hd_store := cond_put (hd_store h) c (ob\<lparr>co_value := val\<rparr>)\<rparr>)"
    and R_current: "\<lbrakk>ok h; current_intersection h c = Inr h'\<rbrakk> \<Longrightarrow> R h h'"
    and R_context: "\<lbrakk>ok h; context_intersection own c h = Inr h'\<rbrakk> \<Longrightarrow> R h h'"
    and R_one: "\<lbrakk>ok h; handler_registerOne h iov c = Inr (h', b)\<rbrakk> \<Longrightarrow> R h h'"
    and R_many: "\<lbrakk>ok h; handler_registerMany h iov cs = Inr (h', n)\<rbrakk> \<Longrightarrow> R h h'"
    and enter_callback_ok: "\<lbrakk>ok h; map_of (hd_todo h) key = Some w; wk_state w = INVALID; wk_callstack w = 0\<rbrakk> \<Longrightarrow>
      ok (enter_callback key w h) \<and> pot (enter_callback key w h) \<le> pot h"
    and R_callback: "\<lbrakk>ok h; map_of (hd_todo h) key = Some w; wk_state w = INVALID; wk_callstack w = 0;
      R (enter_callback key w h) h1; finish_callback key (hd_current h) c h1 = Inr h2\<rbrakk> \<Longrightarrow> R h h2"
    and callback_ends: "\<lbrakk>ok h; finish_callback key prev c h1 = Inr h; map_of (hd_todo h) key = Some w\<rbrakk> \<Longrightarrow>
      wk_state w = CREATED \<and> wk_callstack w = 0"
    and enter_resolve_ok: "\<lbrakk>ok h; map_of (hd_todo h) key = Some w; wk_state w = CREATED\<rbrakk> \<Longrightarrow>
      ok (enter_resolve key w h) \<and> pot (enter_resolve key w h) \<le> pot h"
    and R_resolve: "\<lbrakk>ok h; map_of (hd_todo h) key = Some w; wk_state w = CREATED; R (enter_resolve key w h) h1;
      map_of (hd_todo h1) key = Some w1; do_intersection h1 p (wk_iov w1) = Inr h2\<rbrakk> \<Longrightarrow> R h (h2\<lparr>hd_current := Some p\<rparr>)"
    and callstack_nonneg: "\<lbrakk>ok h; map_of (hd_todo h) key = Some w\<rbrakk> \<Longrightarrow> 0 \<le> wk_callstack w"
    and no_condition: "\<lbrakk>ok h; map_of (hd_todo h) key = Some w; wk_condition w = 0\<rbrakk> \<Longrightarrow> wk_state w = INVALID"
    and condition_made: "\<lbrakk>ok h; map_of (hd_todo h) key = Some w; wk_condition w \<noteq> 0\<rbrakk> \<Longrightarrow> wk_state w \<noteq> INVALID"
    and R_made: "\<lbrakk>ok h; R h h'; map_of (hd_todo h) key = Some w; wk_state w \<noteq> INVALID\<rbrakk> \<Longrightarrow>
      \<exists>w'. map_of (hd_todo h') key = Some w' \<and> wk_state w' \<noteq> INVALID"
    and R_keys: "\<lbrakk>ok h; R h h'\<rbrakk> \<Longrightarrow> fst ` set (hd_todo h') = fst ` set (hd_todo h)"
    and R_phase: "ok h \<Longrightarrow> R h (h\<lparr>hd_state := st, hd_current := cur\<rparr>)"
begin

definition good :: "getter \<Rightarrow> nat \<Rightarrow> bool" where
  "good g N \<longleftrightarrow> (\<forall>key throw h h' c. ok h \<longrightarrow> pot h \<le> N \<longrightarrow> g key throw h = Inr (h', c) \<longrightarrow> R h h')"

lemma goodD: "\<lbrakk>good g N; ok h; pot h \<le> N; g key throw h = Inr (h', c)\<rbrakk> \<Longrightarrow> R h h'"
  unfolding good_def by blast

lemma good_mono: "\<lbrakk>good g N; M \<le> N\<rbrakk> \<Longrightarrow> good g M"
  by (auto simp: good_def)

lemma R_step: "\<lbrakk>ok h; R h h1; ok h1 \<Longrightarrow> pot h1 \<le> pot h \<Longrightarrow> R h1 h2\<rbrakk> \<Longrightarrow> R h h2"
  by (rule R_trans [of h h1]) (simp_all add: R_ok R_pot)

lemma R_fold_current: "\<lbrakk>foldE current_intersection h cs = Inr h'; ok h\<rbrakk> \<Longrightarrow> R h h'"
proof (induction cs arbitrary: h)
  case (Cons c cs)
  then obtain h1 where h1: "current_intersection h c = Inr h1" "foldE current_intersection h1 cs = Inr h'"
    by (auto simp: bindE_Inr_iff)
  have "R h h1" by (rule R_current [OF Cons.prems(2) h1(1)])
  then show ?case using Cons.IH [OF h1(2)] by (rule R_step [OF Cons.prems(2)])
qed (simp add: R_refl)

lemma R_fold_context: "\<lbrakk>foldE (\<lambda>h c. context_intersection own c h) h cs = Inr h'; ok h\<rbrakk> \<Longrightarrow> R h h'"
proof (induction cs arbitrary: h)
  case (Cons c cs)
  then obtain h1 where h1: "context_intersection own c h = Inr h1" "foldE (\<lambda>h c. context_intersection own c h) h1 cs = Inr h'"
    by (auto simp: bindE_Inr_iff)
  have "R h h1" by (rule R_context [OF Cons.prems(2) h1(1)])
  then show ?case using Cons.IH [OF h1(2)] by (rule R_step [OF Cons.prems(2)])
qed (simp add: R_refl)

lemma R_detector: "\<lbrakk>handler_get_detector det h = Inr (h', cs); ok h\<rbrakk> \<Longrightarrow> R h h'"
  by (auto simp: handler_get_detector_def Let_def bindE_Inr_iff split: if_splits intro: R_fold_current)

lemma R_item: "\<lbrakk>handler_getByItem item h = Inr (h', cs); ok h\<rbrakk> \<Longrightarrow> R h h'"
  by (auto simp: handler_getByItem_def bindE_Inr_iff split: if_splits intro: R_fold_current)

text \<open>A callback whose accesses respect the relation respects it.\<close>

lemma R_run: "\<lbrakk>run_action g own a h = Inr (h', c); good g N; ok h; pot h \<le> N\<rbrakk> \<Longrightarrow> R h h'"
proof (induction a arbitrary: h)
  case (Finish x)
  then show ?case by (simp add: R_refl)
next
  case (Throw x)
  then show ?case by simp
next
  case (NewCondition val k)
  obtain s d where sd: "Condition_object (hd_store h) val 0 = (s, d)" by fastforce
  let ?h1 = "h\<lparr>hd_store := s\<rparr>"
  have r: "run_action g own (k d) ?h1 = Inr (h', c)" using NewCondition.prems(1) sd by simp
  have R1: "R h ?h1" using R_new [OF NewCondition.prems(3), of val] sd by simp
  show ?case using NewCondition.IH [OF rangeI r NewCondition.prems(2)] NewCondition.prems(4)
    by (intro R_step [OF NewCondition.prems(3) R1]) simp
next
  case (GetCondition key throw k)
  from GetCondition.prems(1) obtain h1 d where g: "g key throw h = Inr (h1, d)" by (auto simp: bindE_Inr_iff)
  have R1: "R h h1" by (rule goodD [OF GetCondition.prems(2,3,4) g])
  note ok1 = R_ok [OF GetCondition.prems(3) R1] and pot1 = R_pot [OF GetCondition.prems(3) R1]
  show ?case
  proof (cases "d = 0")
    case True
    then have "run_action g own (k 0) h1 = Inr (h', c)" using GetCondition.prems(1) g by (auto split: if_splits)
    then have "R h1 h'" using GetCondition.IH [OF rangeI _ GetCondition.prems(2) ok1] pot1 GetCondition.prems(4) by simp
    then show ?thesis by (rule R_trans [OF R1])
  next
    case False
    then obtain h2 where h2: "context_intersection own d h1 = Inr h2" "run_action g own (k d) h2 = Inr (h', c)"
      using GetCondition.prems(1) g by (auto simp: bindE_Inr_iff)
    have R2: "R h1 h2" by (rule R_context [OF ok1 h2(1)])
    have "R h2 h'" using GetCondition.IH [OF rangeI h2(2) GetCondition.prems(2) R_ok [OF ok1 R2]] R_pot [OF ok1 R2] pot1 GetCondition.prems(4) by simp
    then show ?thesis using R_trans R1 R2 by blast
  qed
next
  case (ResolverGet key throw k)
  from ResolverGet.prems(1) obtain h1 d where g: "g key throw h = Inr (h1, d)" "run_action g own (k d) h1 = Inr (h', c)"
    by (auto simp: bindE_Inr_iff)
  have R1: "R h h1" by (rule goodD [OF ResolverGet.prems(2,3,4) g(1)])
  show ?case using ResolverGet.IH [OF rangeI g(2) ResolverGet.prems(2)] ResolverGet.prems(4)
    by (intro R_step [OF ResolverGet.prems(3) R1]) simp
next
  case (GetConditions det k)
  from GetConditions.prems(1) obtain h1 cs h2 where g: "handler_get_detector det h = Inr (h1, cs)"
    "foldE (\<lambda>h c. context_intersection own c h) h1 cs = Inr h2" "run_action g own (k cs) h2 = Inr (h', c)"
    by (auto simp: bindE_Inr_iff)
  have R1: "R h h1" by (rule R_detector [OF g(1) GetConditions.prems(3)])
  have R2: "R h1 h2" by (rule R_fold_context [OF g(2) R_ok [OF GetConditions.prems(3) R1]])
  show ?case using GetConditions.IH [OF rangeI g(3) GetConditions.prems(2)] GetConditions.prems(4)
    by (intro R_step [OF GetConditions.prems(3) R_trans [OF R1 R2]]) simp
next
  case (GetByItem item k)
  from GetByItem.prems(1) obtain h1 cs h2 where g: "handler_getByItem item h = Inr (h1, cs)"
    "foldE (\<lambda>h c. context_intersection own c h) h1 cs = Inr h2" "run_action g own (k cs) h2 = Inr (h', c)"
    by (auto simp: bindE_Inr_iff)
  have R1: "R h h1" by (rule R_item [OF g(1) GetByItem.prems(3)])
  have R2: "R h1 h2" by (rule R_fold_context [OF g(2) R_ok [OF GetByItem.prems(3) R1]])
  show ?case using GetByItem.IH [OF rangeI g(3) GetByItem.prems(2)] GetByItem.prems(4)
    by (intro R_step [OF GetByItem.prems(3) R_trans [OF R1 R2]]) simp
next
  case (ReadValue d k)
  from ReadValue.prems(1) obtain ob :: ConditionObject where "run_action g own (k (co_value ob)) h = Inr (h', c)" by (auto simp: bindE_Inr_iff)
  then show ?case using ReadValue.IH [OF rangeI _ ReadValue.prems(2,3,4)] by simp
next
  case (WriteValue d val k)
  then obtain ob where ob: "cond_access (hd_store h) d = Inr ob"
    and r: "run_action g own k (h\<lparr>hd_store := cond_put (hd_store h) d (ob\<lparr>co_value := val\<rparr>)\<rparr>) = Inr (h', c)"
    by (auto simp: bindE_Inr_iff)
  show ?case using WriteValue.IH [OF r WriteValue.prems(2)] WriteValue.prems(4)
    by (intro R_step [OF WriteValue.prems(3) R_write [OF WriteValue.prems(3) ob, where val = val]]) simp
next
  case (RegisterOne iov d k)
  then obtain h1 b where g: "handler_registerOne h iov d = Inr (h1, b)" "run_action g own (k b) h1 = Inr (h', c)"
    by (auto simp: bindE_Inr_iff)
  show ?case using RegisterOne.IH [OF rangeI g(2) RegisterOne.prems(2)] RegisterOne.prems(4)
    by (intro R_step [OF RegisterOne.prems(3) R_one [OF RegisterOne.prems(3) g(1)]]) simp
next
  case (RegisterMany iov cs k)
  then obtain h1 n where g: "handler_registerMany h iov cs = Inr (h1, n)" "run_action g own (k n) h1 = Inr (h', c)"
    by (auto simp: bindE_Inr_iff)
  show ?case using RegisterMany.IH [OF rangeI g(2) RegisterMany.prems(2)] RegisterMany.prems(4)
    by (intro R_step [OF RegisterMany.prems(3) R_many [OF RegisterMany.prems(3) g(1)]]) simp
qed

lemma rethrow_Inr: "rethrow r = Inr x \<longleftrightarrow> r = Inr x"
  by (cases r) (auto simp: rethrow_def split: cpp_error.splits)

lemma R_do_callback:
  assumes "do_callback g key h = Inr h'" "ok h" "map_of (hd_todo h) key = Some w" "wk_state w = INVALID"
    and "wk_callstack w = 0 \<Longrightarrow> good g N \<and> pot (enter_callback key w h) \<le> N"
  shows "R h h' \<and> (\<forall>w'. map_of (hd_todo h') key = Some w' \<longrightarrow> wk_state w' = CREATED \<and> wk_callstack w' = 0)"
proof -
  have cs: "wk_callstack w = 0"
    using assms(1,3) callstack_nonneg [OF assms(2,3)]
    by (auto simp: do_callback_def rethrow_Inr work_at_def split: if_splits)
  then obtain h2 c where r: "run_action g key (cd_create (wk_dependency w)) (enter_callback key w h) = Inr (h2, c)"
    and f: "finish_callback key (hd_current h) c h2 = Inr h'"
    using assms(1,3) by (auto simp: do_callback_def rethrow_Inr work_at_def bindE_Inr_iff split: if_splits)
  note e = enter_callback_ok [OF assms(2,3,4) cs]
  have "R (enter_callback key w h) h2" using R_run [OF r] assms(5) [OF cs] e by blast
  then have R: "R h h'" by (rule R_callback [OF assms(2,3,4) cs _ f])
  then show ?thesis using callback_ends [OF R_ok [OF assms(2) R] f] by blast
qed

lemma R_work_resolve:
  assumes "work_resolve g key h = Inr (h', c)" "ok h" "map_of (hd_todo h) key = Some w" "wk_state w = CREATED"
    and "good g N" "pot (enter_resolve key w h) \<le> N"
  shows "R h h'"
proof -
  obtain p h2 d w2 h3 where r: "run_action g key (cd_resolve (wk_dependency w) (wk_condition w)) (enter_resolve key w h) = Inr (h2, d)"
    "map_of (hd_todo h2) key = Some w2" "do_intersection h2 p (wk_iov w2) = Inr h3" "h' = h3\<lparr>hd_current := Some p\<rparr>"
    using assms(1,3) by (auto simp: work_resolve_def work_at_def bindE_Inr_iff split: option.splits)
  note e = enter_resolve_ok [OF assms(2,3,4)]
  have "R (enter_resolve key w h) h2" using R_run [OF r(1) assms(5)] e assms(6) by blast
  then show ?thesis unfolding r(4) by (rule R_resolve [OF assms(2,3,4) _ r(2,3)])
qed

text \<open>An access, given that the accesses one level deeper are good where they can happen.\<close>

lemma R_get:
  assumes "handler_get deep (Suc n) key throw h = Inr (h', c)" "ok h"
    and "\<And>w. \<lbrakk>map_of (hd_todo h) key = Some w; wk_state w = INVALID; wk_callstack w = 0\<rbrakk> \<Longrightarrow>
      good (handler_get deep n) N \<and> pot (enter_callback key w h) \<le> N"
    and "\<And>h1 w. \<lbrakk>ok h1; pot h1 \<le> pot h; map_of (hd_todo h1) key = Some w; wk_state w = CREATED\<rbrakk> \<Longrightarrow>
      good (handler_get deep n) N \<and> pot (enter_resolve key w h1) \<le> N"
  shows "R h h'"
proof (cases "upool_get (hd_pool h) key = 0")
  case False
  then show ?thesis using assms(1) R_current [OF assms(2)] by (auto simp: Let_def bindE_Inr_iff)
next
  case True
  show ?thesis
  proof (cases "map_of (hd_todo h) key")
    case None
    then show ?thesis using assms(1,2) True R_refl by (auto simp: get_failed_def split: if_splits)
  next
    case (Some w)
    show ?thesis
    proof (cases "wk_state w")
      case RESOLVED
      then show ?thesis using assms(1,2) True Some R_refl by simp
    next
      case CREATED
      then have "work_resolve (handler_get deep n) key h = Inr (h', c)" using assms(1) True Some by simp
      then show ?thesis using R_work_resolve [OF _ assms(2) Some CREATED] assms(4) [OF assms(2) _ Some CREATED] by blast
    next
      case INVALID
      from assms(1) True Some INVALID obtain h1 w1 where c: "do_callback (handler_get deep n) key h = Inr h1"
        "map_of (hd_todo h1) key = Some w1" and rest: "(if wk_condition w1 \<noteq> 0 \<and> wk_state w1 = RESOLVED then Inr (h1, wk_condition w1)
              else if wk_condition w1 \<noteq> 0 then work_resolve (handler_get deep n) key h1
              else get_failed throw h1) = Inr (h', c)"
        by (auto simp: Let_def bindE_Inr_iff work_at_def split: option.splits)
      note cb = R_do_callback [OF c(1) assms(2) Some INVALID assms(3) [OF Some INVALID]]
      then have R1: "R h h1" and w1: "wk_state w1 = CREATED" using c(2) by blast+
      note ok1 = R_ok [OF assms(2) R1] and pot1 = R_pot [OF assms(2) R1]
      have "R h1 h'"
      proof (cases "wk_condition w1 = 0")
        case True
        then show ?thesis using rest R_refl [OF ok1] by (auto simp: get_failed_def split: if_splits)
      next
        case False
        then have "work_resolve (handler_get deep n) key h1 = Inr (h', c)" using rest w1 by simp
        then show ?thesis using R_work_resolve [OF _ ok1 c(2) w1] assms(4) [OF ok1 pot1 c(2) w1] by blast
      qed
      then show ?thesis by (rule R_trans [OF R1])
    qed
  qed
qed

text \<open>An access that fails when it would nest too deep is good.\<close>

lemma good_overflow: "good (handler_get stack_overflow n) N"
proof (induction n arbitrary: N)
  case 0
  show ?case by (simp add: good_def stack_overflow_def)
next
  case (Suc n)
  have "R h h'" if ok: "ok h" and pot: "pot h \<le> N" and g: "handler_get stack_overflow (Suc n) key throw h = Inr (h', c)" for key throw h h' c
  proof (rule R_get [OF g ok, where N = N])
    fix w assume w: "map_of (hd_todo h) key = Some w" "wk_state w = INVALID" "wk_callstack w = 0"
    show "good (handler_get stack_overflow n) N \<and> pot (enter_callback key w h) \<le> N"
      using Suc.IH enter_callback_ok [OF ok w] pot by simp
  next
    fix h1 w assume w: "ok h1" "pot h1 \<le> pot h" "map_of (hd_todo h1) key = Some w" "wk_state w = CREATED"
    show "good (handler_get stack_overflow n) N \<and> pot (enter_resolve key w h1) \<le> N"
      using Suc.IH enter_resolve_ok [OF w(1,3,4)] w(2) pot by simp
  qed
  then show ?case unfolding good_def by blast
qed

text \<open>The two passes.\<close>

definition made :: "Handler \<Rightarrow> u64 \<Rightarrow> bool" where
  "made h key \<longleftrightarrow> (\<exists>w. map_of (hd_todo h) key = Some w \<and> wk_state w \<noteq> INVALID)"

lemma made_R: "\<lbrakk>made h key; ok h; R h h'\<rbrakk> \<Longrightarrow> made h' key"
  unfolding made_def using R_made by blast

lemma R_compute_step:
  assumes "compute_step deep n h key = Inr h'" "ok h" "good (handler_get deep n) N" "pot h \<le> N"
  shows "R h h' \<and> made h' key"
proof -
  obtain w where w: "map_of (hd_todo h) key = Some w"
    using assms(1) by (auto simp: compute_step_def work_at_def bindE_Inr_iff split: option.splits)
  show ?thesis
  proof (cases "wk_condition w = 0")
    case False
    then have "h' = h" using assms(1) w by (simp add: compute_step_def work_at_def)
    then show ?thesis using R_refl [OF assms(2)] condition_made [OF assms(2) w False] w by (auto simp: made_def)
  next
    case True
    then obtain w1 where c: "do_callback (handler_get deep n) key h = Inr h'" "map_of (hd_todo h') key = Some w1"
      using assms(1) w by (auto simp: compute_step_def work_at_def bindE_Inr_iff split: if_splits option.splits)
    note i = no_condition [OF assms(2) w True]
    have "good (handler_get deep n) N \<and> pot (enter_callback key w h) \<le> N" if "wk_callstack w = 0"
      using enter_callback_ok [OF assms(2) w i that] assms(3,4) by simp
    note R_do_callback [OF c(1) assms(2) w i this]
    then show ?thesis using c(2) by (simp add: made_def)
  qed
qed

lemma R_compute:
  "\<lbrakk>foldE (compute_step deep n) h keys = Inr h'; ok h; good (handler_get deep n) N; pot h \<le> N\<rbrakk> \<Longrightarrow>
    R h h' \<and> (\<forall>key \<in> set keys. made h' key)"
proof (induction keys arbitrary: h)
  case (Cons key keys)
  then obtain h1 where h1: "compute_step deep n h key = Inr h1" "foldE (compute_step deep n) h1 keys = Inr h'"
    by (auto simp: bindE_Inr_iff)
  note s = R_compute_step [OF h1(1) Cons.prems(2,3,4)]
  then have ok1: "ok h1" and pot1: "pot h1 \<le> N" using R_ok R_pot Cons.prems(2,4) by (blast, meson order_trans)
  note ih = Cons.IH [OF h1(2) ok1 Cons.prems(3) pot1]
  then show ?case using s made_R [OF _ ok1] R_trans by auto
qed (simp add: R_refl)

lemma R_resolve_step:
  assumes "resolve_step deep n (h, pools) key = Inr (h', pools')" "ok h" "made h key"
    and "good (handler_get deep n) N" "pot h \<le> N"
  shows "R h h'"
proof -
  obtain w where w: "map_of (hd_todo h) key = Some w" "wk_state w \<noteq> INVALID" using assms(3) by (auto simp: made_def)
  let ?h1 = "h\<lparr>hd_current := Some key\<rparr>"
  have R1: "R h ?h1" using R_phase [OF assms(2), where st = "hd_state h" and cur = "Some key"] by simp
  have ok1: "ok ?h1" and pot1: "pot ?h1 \<le> pot h" using R_ok [OF assms(2) R1] R_pot [OF assms(2) R1] by blast+
  show ?thesis
  proof (cases "wk_state w = RESOLVED")
    case True
    then have "h' = ?h1" using assms(1) w by (auto simp: resolve_step_def work_at_def bindE_Inr_iff Let_def split: option.splits)
    then show ?thesis using R1 by simp
  next
    case False
    then have st: "wk_state w = CREATED" using w(2) by (cases "wk_state w") auto
    obtain c where r: "work_resolve (handler_get deep n) key ?h1 = Inr (h', c)"
      using False assms(1) w by (auto simp: resolve_step_def work_at_def bindE_Inr_iff Let_def split: option.splits)
    have w1: "map_of (hd_todo ?h1) key = Some w" using w by simp
    have "R ?h1 h'" using R_work_resolve [OF r ok1 w1 st assms(4)] enter_resolve_ok [OF ok1 w1 st] pot1 assms(5) by simp
    then show ?thesis by (rule R_trans [OF R1])
  qed
qed

lemma R_resolve_all:
  "\<lbrakk>foldE (resolve_step deep n) (h, pools) keys = Inr (h', pools'); ok h; \<forall>key \<in> set keys. made h key;
    good (handler_get deep n) N; pot h \<le> N\<rbrakk> \<Longrightarrow> R h h'"
proof (induction keys arbitrary: h pools)
  case (Cons key keys)
  then obtain h1 pools1 where h1: "resolve_step deep n (h, pools) key = Inr (h1, pools1)"
    "foldE (resolve_step deep n) (h1, pools1) keys = Inr (h', pools')"
    by (auto simp: bindE_Inr_iff)
  have m: "made h key" "\<forall>key \<in> set keys. made h key" using Cons.prems(3) by simp_all
  have s: "R h h1" by (rule R_resolve_step [OF h1(1) Cons.prems(2) m(1) Cons.prems(4,5)])
  then have ok1: "ok h1" and pot1: "pot h1 \<le> N" using R_ok R_pot Cons.prems(2,5) by (blast, meson order_trans)
  have "\<forall>key \<in> set keys. made h1 key" using m(2) made_R [OF _ Cons.prems(2) s] by blast
  then show ?case using Cons.IH [OF h1(2) ok1 _ Cons.prems(4) pot1] R_trans [OF s] by blast
qed (simp add: R_refl)

end


subsection \<open>The depth of nested accesses\<close>

text \<open>Two folds whose steps agree as long as an invariant holds.\<close>

lemma foldE_agree:
  assumes "P s" and "\<And>s x. P s \<Longrightarrow> x \<in> set xs \<Longrightarrow> f s x = g s x \<and> (\<forall>t. f s x = Inr t \<longrightarrow> P t)"
  shows "foldE f s xs = foldE g s xs"
  using assms
proof (induction xs arbitrary: s)
  case (Cons x xs)
  have a: "f s x = g s x" "\<And>t. f s x = Inr t \<Longrightarrow> P t" using Cons.prems(2) [OF Cons.prems(1), of x] by simp_all
  show ?case
  proof (cases "f s x")
    case (Inr t)
    then show ?thesis using Cons.IH [OF a(2) [OF Inr] Cons.prems(2)] a(1) by simp
  qed (use a(1) in simp)
qed simp

locale handler_depth = handler_relation +
  assumes callback_deeper: "\<lbrakk>ok h; map_of (hd_todo h) key = Some w; wk_state w = INVALID; wk_callstack w = 0\<rbrakk> \<Longrightarrow>
      pot (enter_callback key w h) < pot h"
    and resolve_deeper: "\<lbrakk>ok h; map_of (hd_todo h) key = Some w; wk_state w = CREATED\<rbrakk> \<Longrightarrow>
      pot (enter_resolve key w h) < pot h"
begin

lemma good_depth: "N < n \<Longrightarrow> good (handler_get deep n) N"
proof (induction n arbitrary: N)
  case (Suc n)
  have "R h h'" if ok: "ok h" and pot: "pot h \<le> N" and g: "handler_get deep (Suc n) key throw h = Inr (h', c)" for key throw h h' c
  proof (rule R_get [OF g ok, where N = "pot h - 1"])
    fix w assume w: "map_of (hd_todo h) key = Some w" "wk_state w = INVALID" "wk_callstack w = 0"
    have "pot (enter_callback key w h) < pot h" by (rule callback_deeper [OF ok w])
    then show "good (handler_get deep n) (pot h - 1) \<and> pot (enter_callback key w h) \<le> pot h - 1"
      using Suc.IH [of "pot h - 1"] Suc.prems pot by simp
  next
    fix h1 w assume w: "ok h1" "pot h1 \<le> pot h" "map_of (hd_todo h1) key = Some w" "wk_state w = CREATED"
    have "pot (enter_resolve key w h1) < pot h1" by (rule resolve_deeper [OF w(1,3,4)])
    then show "good (handler_get deep n) (pot h - 1) \<and> pot (enter_resolve key w h1) \<le> pot h - 1"
      using Suc.IH [of "pot h - 1"] Suc.prems pot w(2) by simp
  qed
  then show ?case unfolding good_def by blast
qed simp

definition agree :: "getter \<Rightarrow> getter \<Rightarrow> nat \<Rightarrow> bool" where
  "agree g g' N \<longleftrightarrow> good g N \<and> (\<forall>key throw h. ok h \<longrightarrow> pot h \<le> N \<longrightarrow> g key throw h = g' key throw h)"

lemma agreeD: "\<lbrakk>agree g g' N; ok h; pot h \<le> N\<rbrakk> \<Longrightarrow> g key throw h = g' key throw h"
  by (simp add: agree_def)

lemma bindE_agree: "(\<And>x. r = Inr x \<Longrightarrow> f x = g x) \<Longrightarrow> bindE r f = bindE r g"
  by (cases r) simp_all

lemma agree_run: "\<lbrakk>agree g g' N; ok h; pot h \<le> N\<rbrakk> \<Longrightarrow> run_action g own a h = run_action g' own a h"
proof (induction a arbitrary: h)
  case (NewCondition val k)
  let ?h1 = "h\<lparr>hd_store := fst (Condition_object (hd_store h) val 0)\<rparr>"
  have R: "R h ?h1" by (rule R_new [OF NewCondition.prems(2)])
  have eq: "run_action x own (NewCondition val k) h = run_action x own (k (snd (Condition_object (hd_store h) val 0))) ?h1" for x
    by (simp add: split_beta)
  have "pot ?h1 \<le> N" using R_pot [OF NewCondition.prems(2) R] NewCondition.prems(3) by simp
  then show ?case unfolding eq by (rule NewCondition.IH [OF rangeI NewCondition.prems(1) R_ok [OF NewCondition.prems(2) R]])
next
  case (GetCondition key throw k)
  note eq = agreeD [OF GetCondition.prems, of key throw]
  have gd: "good g N" using GetCondition.prems(1) by (simp add: agree_def)
  have "(if c \<noteq> 0 then bindE (context_intersection own c h1) (\<lambda>h2. run_action g own (k c) h2)
     else if throw then Inl context_error else run_action g own (k 0) h1) =
    (if c \<noteq> 0 then bindE (context_intersection own c h1) (\<lambda>h2. run_action g' own (k c) h2)
     else if throw then Inl context_error else run_action g' own (k 0) h1)" if r: "g key throw h = Inr (h1, c)" for h1 c
  proof -
    have R1: "R h h1" by (rule goodD [OF gd GetCondition.prems(2,3) r])
    have ok1: "ok h1" and pot1: "pot h1 \<le> N"
      using R_ok [OF GetCondition.prems(2) R1] R_pot [OF GetCondition.prems(2) R1] GetCondition.prems(3) by simp_all
    have "run_action g own (k c) h2 = run_action g' own (k c) h2" if "context_intersection own c h1 = Inr h2" for h2
    proof -
      note R2 = R_context [OF ok1 that]
      show ?thesis using GetCondition.IH [OF rangeI GetCondition.prems(1) R_ok [OF ok1 R2]] R_pot [OF ok1 R2] pot1 by simp
    qed
    then show ?thesis using GetCondition.IH [OF rangeI GetCondition.prems(1) ok1 pot1, of 0] by (simp add: bindE_def split: sum.splits)
  qed
  then show ?case by (simp only: run_action.simps eq [symmetric]) (intro bindE_agree, clarsimp)
next
  case (ResolverGet key throw k)
  note eq = agreeD [OF ResolverGet.prems, of key throw]
  have gd: "good g N" using ResolverGet.prems(1) by (simp add: agree_def)
  have "run_action g own (k c) h1 = run_action g' own (k c) h1" if r: "g key throw h = Inr (h1, c)" for h1 c
  proof -
    have R1: "R h h1" by (rule goodD [OF gd ResolverGet.prems(2,3) r])
    show ?thesis using ResolverGet.IH [OF rangeI ResolverGet.prems(1) R_ok [OF ResolverGet.prems(2) R1]]
      R_pot [OF ResolverGet.prems(2) R1] ResolverGet.prems(3) by simp
  qed
  then show ?case by (simp only: run_action.simps eq [symmetric]) (intro bindE_agree, clarsimp)
next
  case (GetConditions det k)
  have "run_action g own (k cs) h2 = run_action g' own (k cs) h2"
    if "handler_get_detector det h = Inr (h1, cs)" "foldE (\<lambda>h c. context_intersection own c h) h1 cs = Inr h2" for h1 cs h2
  proof -
    have R1: "R h h1" by (rule R_detector [OF that(1) GetConditions.prems(2)])
    have R2: "R h h2" by (rule R_trans [OF R1 R_fold_context [OF that(2) R_ok [OF GetConditions.prems(2) R1]]])
    show ?thesis using GetConditions.IH [OF rangeI GetConditions.prems(1) R_ok [OF GetConditions.prems(2) R2]]
      R_pot [OF GetConditions.prems(2) R2] GetConditions.prems(3) by simp
  qed
  then show ?case by (auto simp: bindE_def split: sum.splits)
next
  case (GetByItem item k)
  have "run_action g own (k cs) h2 = run_action g' own (k cs) h2"
    if "handler_getByItem item h = Inr (h1, cs)" "foldE (\<lambda>h c. context_intersection own c h) h1 cs = Inr h2" for h1 cs h2
  proof -
    have R1: "R h h1" by (rule R_item [OF that(1) GetByItem.prems(2)])
    have R2: "R h h2" by (rule R_trans [OF R1 R_fold_context [OF that(2) R_ok [OF GetByItem.prems(2) R1]]])
    show ?thesis using GetByItem.IH [OF rangeI GetByItem.prems(1) R_ok [OF GetByItem.prems(2) R2]]
      R_pot [OF GetByItem.prems(2) R2] GetByItem.prems(3) by simp
  qed
  then show ?case by (auto simp: bindE_def split: sum.splits)
next
  case (ReadValue d k)
  then show ?case using ReadValue.IH [OF rangeI ReadValue.prems] by (simp add: bindE_def split: sum.splits)
next
  case (WriteValue d val k)
  have "run_action g own k (h\<lparr>hd_store := cond_put (hd_store h) d (ob\<lparr>co_value := val\<rparr>)\<rparr>) =
      run_action g' own k (h\<lparr>hd_store := cond_put (hd_store h) d (ob\<lparr>co_value := val\<rparr>)\<rparr>)"
    if "cond_access (hd_store h) d = Inr ob" for ob
  proof -
    note R1 = R_write [OF WriteValue.prems(2) that, of val]
    show ?thesis using WriteValue.IH [OF WriteValue.prems(1) R_ok [OF WriteValue.prems(2) R1]]
      R_pot [OF WriteValue.prems(2) R1] WriteValue.prems(3) by simp
  qed
  then show ?case by (simp add: bindE_def split: sum.splits)
next
  case (RegisterOne iov d k)
  have "run_action g own (k b) h1 = run_action g' own (k b) h1" if "handler_registerOne h iov d = Inr (h1, b)" for h1 b
  proof -
    note R1 = R_one [OF RegisterOne.prems(2) that]
    show ?thesis using RegisterOne.IH [OF rangeI RegisterOne.prems(1) R_ok [OF RegisterOne.prems(2) R1]]
      R_pot [OF RegisterOne.prems(2) R1] RegisterOne.prems(3) by simp
  qed
  then show ?case by (auto simp: bindE_def split: sum.splits)
next
  case (RegisterMany iov cs k)
  have "run_action g own (k n) h1 = run_action g' own (k n) h1" if "handler_registerMany h iov cs = Inr (h1, n)" for h1 n
  proof -
    note R1 = R_many [OF RegisterMany.prems(2) that]
    show ?thesis using RegisterMany.IH [OF rangeI RegisterMany.prems(1) R_ok [OF RegisterMany.prems(2) R1]]
      R_pot [OF RegisterMany.prems(2) R1] RegisterMany.prems(3) by simp
  qed
  then show ?case by (auto simp: bindE_def split: sum.splits)
qed simp_all

lemma agree_callback:
  assumes "agree g g' N" "ok h" "pot h \<le> Suc N" "map_of (hd_todo h) key = Some w" "wk_state w = INVALID"
  shows "do_callback g key h = do_callback g' key h"
proof (cases "0 < wk_callstack w")
  case False
  then have z: "wk_callstack w = 0" using callstack_nonneg [OF assms(2,4)] by simp
  note e = enter_callback_ok [OF assms(2,4,5) z] callback_deeper [OF assms(2,4,5) z]
  have "run_action g key a (enter_callback key w h) = run_action g' key a (enter_callback key w h)" for a
    by (rule agree_run [OF assms(1)]) (use e assms(3) in simp_all)
  then show ?thesis using assms(4) by (simp add: do_callback_def work_at_def)
qed (simp add: do_callback_def work_at_def assms(4))

lemma agree_resolve:
  assumes "agree g g' N" "ok h" "pot h \<le> Suc N" "map_of (hd_todo h) key = Some w" "wk_state w = CREATED"
  shows "work_resolve g key h = work_resolve g' key h"
proof -
  note e = enter_resolve_ok [OF assms(2,4,5)] resolve_deeper [OF assms(2,4,5)]
  have "run_action g key a (enter_resolve key w h) = run_action g' key a (enter_resolve key w h)" for a
    by (rule agree_run [OF assms(1)]) (use e assms(3) in simp_all)
  then show ?thesis using assms(4) by (simp add: work_resolve_def work_at_def bindE_def split: sum.splits)
qed

lemma agree_get_step:
  assumes "agree (handler_get deep n) (handler_get deep' m) N" "ok h" "pot h \<le> Suc N"
  shows "handler_get deep (Suc n) key throw h = handler_get deep' (Suc m) key throw h"
proof (cases "map_of (hd_todo h) key")
  case None
  then show ?thesis by (simp add: Let_def)
next
  case (Some w)
  show ?thesis
  proof (cases "wk_state w")
    case RESOLVED
    then show ?thesis using Some by (simp add: Let_def)
  next
    case CREATED
    then show ?thesis using Some agree_resolve [OF assms Some CREATED] by (simp add: Let_def)
  next
    case INVALID
    note cb = agree_callback [OF assms Some INVALID]
    have res: "work_resolve (handler_get deep n) key h1 = work_resolve (handler_get deep' m) key h1"
      if c: "do_callback (handler_get deep n) key h = Inr h1" "map_of (hd_todo h1) key = Some w1" for h1 w1
    proof -
      have "good (handler_get deep n) N \<and> pot (enter_callback key w h) \<le> N" if "wk_callstack w = 0"
        using callback_deeper [OF assms(2) Some INVALID that] assms(1,3) by (simp add: agree_def)
      note r = R_do_callback [OF c(1) assms(2) Some INVALID this]
      then have R1: "R h h1" and w1: "wk_state w1 = CREATED" using c(2) by blast+
      show ?thesis
        using agree_resolve [OF assms(1) R_ok [OF assms(2) R1] _ c(2) w1] R_pot [OF assms(2) R1] assms(3) by simp
    qed
    have "bindE (do_callback (handler_get deep n) key h) (\<lambda>h1. bindE (work_at h1 key) (\<lambda>w1.
              if wk_condition w1 \<noteq> 0 \<and> wk_state w1 = RESOLVED then Inr (h1, wk_condition w1)
              else if wk_condition w1 \<noteq> 0 then work_resolve (handler_get deep n) key h1
              else get_failed throw h1)) =
      bindE (do_callback (handler_get deep n) key h) (\<lambda>h1. bindE (work_at h1 key) (\<lambda>w1.
              if wk_condition w1 \<noteq> 0 \<and> wk_state w1 = RESOLVED then Inr (h1, wk_condition w1)
              else if wk_condition w1 \<noteq> 0 then work_resolve (handler_get deep' m) key h1
              else get_failed throw h1))"
      by (intro bindE_agree) (auto simp: work_at_def res split: option.splits)
    then show ?thesis using Some INVALID by (simp add: Let_def flip: cb)
  qed
qed

lemma agree_get: "\<lbrakk>N < n; N < m\<rbrakk> \<Longrightarrow> agree (handler_get deep n) (handler_get deep' m) N"
proof (induction n arbitrary: m N)
  case (Suc n)
  then obtain m' where m: "m = Suc m'" by (cases m) auto
  have "handler_get deep (Suc n) key throw h = handler_get deep' (Suc m') key throw h" if "ok h" "pot h \<le> N" for key throw h
  proof (cases N)
    case (Suc M)
    have "agree (handler_get deep n) (handler_get deep' m') M" using Suc.IH [of M m'] Suc.prems Suc m by simp
    then show ?thesis using agree_get_step that Suc by blast
  next
    case 0
    then have "pot h = 0" using that(2) by simp
    then have "\<not> (map_of (hd_todo h) key = Some w \<and> wk_state w = CREATED)"
      "\<not> (map_of (hd_todo h) key = Some w \<and> wk_state w = INVALID \<and> wk_callstack w = 0)" for w
      using resolve_deeper [OF that(1)] callback_deeper [OF that(1)] by fastforce+
    moreover have "do_callback g key h = Inl (handler_error ''++ Exception while creating dependent Condition'')"
      if "map_of (hd_todo h) key = Some w" "wk_callstack w \<noteq> 0" for g w
      using callstack_nonneg [OF \<open>ok h\<close> that(1)] that
      by (simp add: do_callback_def work_at_def rethrow_def handler_error_def)
    ultimately show ?thesis
      by (auto simp: Let_def split: option.splits WorkState.splits)
  qed
  then show ?case using good_depth [OF Suc.prems(1)] m by (simp add: agree_def del: handler_get.simps)
qed simp

lemma agree_compute:
  assumes "ok h" "pot h \<le> N" "N < n" "N < m"
  shows "foldE (compute_step deep n) h keys = foldE (compute_step deep' m) h keys"
proof (rule foldE_agree [where P = "\<lambda>h. ok h \<and> pot h \<le> N"])
  fix h key assume p: "ok h \<and> pot h \<le> N"
  have a: "agree (handler_get deep n) (handler_get deep' m) N" by (rule agree_get [OF assms(3,4)])
  have "compute_step deep n h key = compute_step deep' m h key"
  proof (cases "map_of (hd_todo h) key")
    case (Some w)
    then show ?thesis
      using agree_callback [OF a _ _ Some no_condition [OF _ Some]] p by (simp add: compute_step_def work_at_def)
  qed (simp add: compute_step_def work_at_def)
  moreover have "ok t \<and> pot t \<le> N" if "compute_step deep n h key = Inr t" for t
  proof -
    have "R h t" using R_compute_step [OF that _ good_depth [OF assms(3)]] p by blast
    then show ?thesis using R_ok R_pot p order_trans by blast
  qed
  ultimately show "compute_step deep n h key = compute_step deep' m h key \<and>
      (\<forall>t. compute_step deep n h key = Inr t \<longrightarrow> ok t \<and> pot t \<le> N)" by blast
qed (use assms in simp)

lemma agree_resolve_all:
  assumes "ok h" "pot h \<le> N" "\<forall>key \<in> set keys. made h key" "N < n" "N < m"
  shows "foldE (resolve_step deep n) (h, pools) keys = foldE (resolve_step deep' m) (h, pools) keys"
proof (rule foldE_agree [where P = "\<lambda>(h, pools). ok h \<and> pot h \<le> N \<and> (\<forall>key \<in> set keys. made h key)"])
  fix hp :: "Handler \<times> (Key, cond list) std_map" and key
  assume p: "case hp of (h, pools) \<Rightarrow> ok h \<and> pot h \<le> N \<and> (\<forall>key \<in> set keys. made h key)" and key: "key \<in> set keys"
  obtain h pools where hp: "hp = (h, pools)" by fastforce
  have ok: "ok h" and pot: "pot h \<le> N" and md: "made h key" using p hp key by auto
  have a: "agree (handler_get deep n) (handler_get deep' m) N" by (rule agree_get [OF assms(4,5)])
  obtain w where w: "map_of (hd_todo h) key = Some w" "wk_state w \<noteq> INVALID" using md by (auto simp: made_def)
  let ?h1 = "h\<lparr>hd_current := Some key\<rparr>"
  have R1: "R h ?h1" using R_phase [OF ok, where st = "hd_state h" and cur = "Some key"] by simp
  have "work_resolve (handler_get deep n) key ?h1 = work_resolve (handler_get deep' m) key ?h1" if "wk_state w \<noteq> RESOLVED"
  proof -
    have st: "wk_state w = CREATED" using that w(2) by (cases "wk_state w") auto
    have w1: "map_of (hd_todo ?h1) key = Some w" using w(1) by simp
    show ?thesis using agree_resolve [OF a R_ok [OF ok R1] _ w1 st] R_pot [OF ok R1] pot by simp
  qed
  then have "resolve_step deep n hp key = resolve_step deep' m hp key" using w(1) hp by (simp add: resolve_step_def work_at_def Let_def)
  moreover have "ok h' \<and> pot h' \<le> N \<and> (\<forall>key \<in> set keys. made h' key)" if "resolve_step deep n hp key = Inr (h', pools')" for h' pools'
  proof -
    have "R h h'" using R_resolve_step [OF _ ok md good_depth [OF assms(4)] pot] that hp by blast
    moreover from this have "pot h' \<le> N" using R_pot [OF ok] pot order_trans by blast
    ultimately show ?thesis using R_ok [OF ok] made_R [OF _ ok] p hp by auto
  qed
  ultimately show "resolve_step deep n hp key = resolve_step deep' m hp key \<and>
      (\<forall>t. resolve_step deep n hp key = Inr t \<longrightarrow> (case t of (h, pools) \<Rightarrow> ok h \<and> pot h \<le> N \<and> (\<forall>key \<in> set keys. made h key)))" by auto
qed (use assms in simp)

text \<open>The passes do not depend on the depth allowed, nor on what lies below it.\<close>

lemma agree_passes:
  assumes "ok h" "pot h \<le> N" "N < n" "N < m"
  shows "bindE (handler_compute deep n h) (handler_resolve deep n) = bindE (handler_compute deep' m h) (handler_resolve deep' m)"
proof -
  let ?h0 = "h\<lparr>hd_state := CREATED\<rparr>"
  have R0: "R h ?h0" using R_phase [OF assms(1), where st = CREATED and cur = "hd_current h"] by simp
  have ok0: "ok ?h0" and pot0: "pot ?h0 \<le> N" using R_ok [OF assms(1) R0] R_pot [OF assms(1) R0] assms(2) by simp_all
  have first: "handler_compute deep n h = handler_compute deep' m h"
    unfolding handler_compute_def by (rule agree_compute [OF ok0 pot0 assms(3,4)])
  have second: "handler_resolve deep n h1 = handler_resolve deep' m h1" if "handler_compute deep n h = Inr h1" for h1
  proof -
    note c = R_compute [OF that [unfolded handler_compute_def] ok0 good_depth [OF assms(3)] pot0]
    let ?h2 = "h1\<lparr>hd_state := RESOLVED\<rparr>"
    have R1: "R ?h0 h1" using c by blast
    note ok1 = R_ok [OF ok0 R1] and pot1 = R_pot [OF ok0 R1]
    have R2: "R h1 ?h2" using R_phase [OF ok1, where st = RESOLVED and cur = "hd_current h1"] by simp
    note ok2 = R_ok [OF ok1 R2] and pot2 = R_pot [OF ok1 R2]
    have "\<forall>key \<in> set (List.map fst (hd_todo h1)). made ?h2 key"
      using c made_R [OF _ ok1 R2] R_keys [OF ok0 R1] by simp
    then have "resolve_all deep n h1 = resolve_all deep' m h1" unfolding resolve_all_def
      by (intro agree_resolve_all [OF ok2 _ _ assms(3,4)]) (use pot1 pot2 pot0 in simp_all)
    then show ?thesis by (simp add: handler_resolve_def)
  qed
  show ?thesis unfolding first [symmetric] by (rule bindE_agree) (rule second)
qed

end


subsection \<open>The items still to be entered\<close>

text \<open>
  What an access depends on: the items without their interval. An item that was not entered yet can be
  entered twice, by its creation and by its resolution; one whose creation is running or done
  once more. No step ever makes more entries possible, and an item in creation stays in creation
  until its callback returns.
\<close>

definition strip :: "Work \<Rightarrow> Work" where
  "strip w = w\<lparr>wk_iov := 0\<rparr>"

definition view :: "Handler \<Rightarrow> u64 \<Rightarrow> Work option" where
  "view h k = map_option strip (map_of (hd_todo h) k)"

definition rank :: "Work \<Rightarrow> nat" where
  "rank w = (case wk_state w of INVALID \<Rightarrow> if 0 < wk_callstack w then 1 else 2 | CREATED \<Rightarrow> 1 | RESOLVED \<Rightarrow> 0)"

definition items_ok :: "(u64 \<Rightarrow> Work option) \<Rightarrow> bool" where
  "items_ok v \<longleftrightarrow> (\<forall>k w. v k = Some w \<longrightarrow> 0 \<le> wk_callstack w \<and> (0 < wk_callstack w \<longrightarrow> wk_state w = INVALID) \<and>
     (wk_state w = INVALID \<longleftrightarrow> wk_condition w = 0))"

definition item_le :: "Work \<Rightarrow> Work \<Rightarrow> bool" where
  "item_le w w' \<longleftrightarrow> wk_callstack w' = wk_callstack w \<and> rank w' \<le> rank w \<and> (0 < wk_callstack w \<longrightarrow> wk_state w' = wk_state w)"

definition progress :: "(u64 \<Rightarrow> Work option) \<Rightarrow> (u64 \<Rightarrow> Work option) \<Rightarrow> bool" where
  "progress v v' \<longleftrightarrow> items_ok v' \<and> (\<forall>k. rel_option item_le (v k) (v' k))"

definition entries_left :: "(u64 \<Rightarrow> Work option) \<Rightarrow> nat" where
  "entries_left v = (\<Sum>k \<in> dom v. rank (the (v k)))"

lemma strip_simps [simp]:
  "wk_state (strip w) = wk_state w" "wk_callstack (strip w) = wk_callstack w" "wk_condition (strip w) = wk_condition w"
  "rank (strip w) = rank w" "strip (w\<lparr>wk_iov := i\<rparr>) = strip w" "strip (strip w) = strip w"
  "strip (w\<lparr>wk_state := st\<rparr>) = (strip w)\<lparr>wk_state := st\<rparr>" "strip (w\<lparr>wk_callstack := n\<rparr>) = (strip w)\<lparr>wk_callstack := n\<rparr>"
  "strip (w\<lparr>wk_condition := c\<rparr>) = (strip w)\<lparr>wk_condition := c\<rparr>"
  by (simp_all add: strip_def rank_def)

lemma view_simps [simp]:
  "view (work_put h k w) = (view h)(k \<mapsto> strip w)"
  "view (h\<lparr>hd_store := s\<rparr>) = view h" "view (h\<lparr>hd_pool := u\<rparr>) = view h" "view (h\<lparr>hd_current := cur\<rparr>) = view h"
  "view (h\<lparr>hd_state := st\<rparr>) = view h" "view (h\<lparr>hd_calls := n\<rparr>) = view h" "view (h\<lparr>hd_reads := r\<rparr>) = view h" "view (h\<lparr>hd_created := l\<rparr>) = view h"
  by (auto simp: view_def work_put_def)

lemma view_item: "map_of (hd_todo h) k = Some w \<Longrightarrow> view h k = Some (strip w)"
  by (simp add: view_def)

lemma view_dom: "dom (view h) = fst ` set (hd_todo h)"
  by (auto simp: view_def dom_map_of_conv_image_fst [symmetric])

lemma finite_view [simp]: "finite (dom (view h))"
  by (simp add: view_dom)

lemma work_at_Inr: "work_at h k = Inr w \<longleftrightarrow> map_of (hd_todo h) k = Some w"
  by (simp add: work_at_def split: option.splits)

lemma do_intersection_view: "do_intersection h k a = Inr h' \<Longrightarrow> view h' = view h"
  by (auto simp: do_intersection_def bindE_Inr_iff work_at_Inr view_item fun_upd_idem split: if_splits)

lemma current_intersection_view: "current_intersection h c = Inr h' \<Longrightarrow> view h' = view h"
  by (auto simp: current_intersection_def bindE_Inr_iff dest!: do_intersection_view split: option.splits)

lemma context_intersection_view: "context_intersection own c h = Inr h' \<Longrightarrow> view h' = view h"
  by (auto simp: context_intersection_def bindE_Inr_iff split: if_splits)

lemma register_view:
  "handler_registerOne h iov c = Inr (h', b) \<Longrightarrow> view h' = view h"
  "handler_registerMany h iov cs = Inr (h', n) \<Longrightarrow> view h' = view h"
  by (auto simp: handler_registerOne_def handler_registerMany_def bindE_Inr_iff)

lemma finish_callback_view:
  assumes "finish_callback key prev c h = Inr h'"
  obtains w where "map_of (hd_todo h) key = Some w" "c \<noteq> 0"
    "view h' = (view h)(key \<mapsto> (strip w)\<lparr>wk_condition := c, wk_callstack := wk_callstack w - 1, wk_state := CREATED\<rparr>)"
proof -
  obtain w where w: "map_of (hd_todo h) key = Some w" and c: "c \<noteq> 0"
    using assms by (auto simp: finish_callback_def bindE_Inr_iff work_at_Inr Let_def split: if_splits)
  let ?w1 = "w\<lparr>wk_condition := c, wk_callstack := wk_callstack w - 1\<rparr>"
  let ?iov = "if wk_iov w = 0 then wk_addr w else wk_iov w"
  let ?h1 = "(work_put h key ?w1)\<lparr>hd_current := prev\<rparr>"
  let ?h2 = "if wk_iov w = 0 then work_put (?h1\<lparr>hd_store := iov_put (hd_store ?h1) ?iov (IOV_with_key (hd_iovType h) key_forever)\<rparr>) key
                 (?w1\<lparr>wk_iov := ?iov\<rparr>) else ?h1"
  obtain h3 ob w3 where h3: "(case prev of Some p \<Rightarrow> do_intersection ?h2 p ?iov | None \<Rightarrow> Inr ?h2) = Inr h3"
    and w3: "map_of (hd_todo h3) key = Some w3"
    and h': "h' = work_put (h3\<lparr>hd_store := cond_put (hd_store h3) c (ob\<lparr>co_iov := ?iov,
                      co_hash := cd_target (wk_dependency w), co_flags := co_flags ob OR cond_DERIVED\<rparr>),
                    hd_calls := hd_calls h3 + 1\<rparr>) key (w3\<lparr>wk_state := CREATED\<rparr>)"
    using assms c w by (fastforce simp: finish_callback_def bindE_Inr_iff work_at_Inr Let_def)
  have v2: "view ?h2 = (view h)(key \<mapsto> strip ?w1)" by simp
  have v3: "view h3 = (view h)(key \<mapsto> strip ?w1)" using h3 v2 do_intersection_view by (auto split: option.splits)
  then have "strip w3 = strip ?w1" using view_item [OF w3] by simp
  then have "view h' = (view h)(key \<mapsto> (strip w)\<lparr>wk_condition := c, wk_callstack := wk_callstack w - 1, wk_state := CREATED\<rparr>)"
    by (simp add: h' v3)
  then show thesis by (rule that [OF w c])
qed

lemma item_le_refl [simp]: "item_le w w"
  by (simp add: item_le_def)

lemma item_le_trans: "\<lbrakk>item_le u v; item_le v w\<rbrakk> \<Longrightarrow> item_le u w"
  by (auto simp: item_le_def)

lemma progress_refl: "items_ok v \<Longrightarrow> progress v v"
  by (simp add: progress_def option.rel_refl)

lemma progressD:
  assumes "progress v v'" "v k = Some w"
  obtains w' where "v' k = Some w'" "item_le w w'"
  using assms unfolding progress_def by (metis option_rel_Some1)

lemma progress_dom: "progress v v' \<Longrightarrow> dom v' = dom v"
proof (rule set_eqI)
  fix k assume "progress v v'"
  then have "rel_option item_le (v k) (v' k)" by (simp add: progress_def)
  then show "k \<in> dom v' \<longleftrightarrow> k \<in> dom v" by (cases "v k"; cases "v' k") auto
qed

lemma progress_trans: "\<lbrakk>progress u v; progress v w\<rbrakk> \<Longrightarrow> progress u w"
proof -
  assume uv: "progress u v" and vw: "progress v w"
  have "rel_option item_le (u k) (w k)" for k
  proof -
    have "rel_option item_le (u k) (v k)" "rel_option item_le (v k) (w k)" using uv vw by (simp_all add: progress_def)
    then show ?thesis by (cases "u k"; cases "v k"; cases "w k") (auto intro: item_le_trans)
  qed
  then show ?thesis using vw by (simp add: progress_def)
qed

lemma entries_left_mono:
  assumes "progress v v'" "finite (dom v)"
  shows "entries_left v' \<le> entries_left v"
  unfolding entries_left_def progress_dom [OF assms(1)]
proof (rule sum_mono)
  fix k assume "k \<in> dom v"
  then obtain w where w: "v k = Some w" by auto
  then show "rank (the (v' k)) \<le> rank (the (v k))" by (rule progressD [OF assms(1)]) (simp add: w item_le_def)
qed

lemma entries_left_update:
  assumes "finite (dom v)" "v k = Some w"
  shows "entries_left (v(k \<mapsto> w')) + rank w = entries_left v + rank w'"
proof -
  have "k \<in> dom v" using assms(2) by auto
  then have "entries_left v = rank w + (\<Sum>j \<in> dom v - {k}. rank (the (v j)))"
    "entries_left (v(k \<mapsto> w')) = rank w' + (\<Sum>j \<in> dom v - {k}. rank (the ((v(k \<mapsto> w')) j)))"
    using assms by (simp_all add: entries_left_def sum.remove insert_absorb)
  moreover have "(\<Sum>j \<in> dom v - {k}. rank (the ((v(k \<mapsto> w')) j))) = (\<Sum>j \<in> dom v - {k}. rank (the (v j)))"
    by (rule sum.cong) auto
  ultimately show ?thesis by simp
qed

lemma progress_update:
  assumes "progress (v(key \<mapsto> w0)) v1" "v key = Some w" "item_le w w'" "items_ok (v1(key \<mapsto> w'))"
  shows "progress v (v1(key \<mapsto> w'))"
  unfolding progress_def
proof (intro conjI allI)
  fix k
  have "rel_option item_le ((v(key \<mapsto> w0)) k) (v1 k)" using assms(1) by (simp add: progress_def)
  then show "rel_option item_le (v k) ((v1(key \<mapsto> w')) k)" using assms(2,3) by (cases "k = key") simp_all
qed (rule assms(4))

lemma items_ok_update:
  assumes "items_ok v" "0 \<le> wk_callstack w" "0 < wk_callstack w \<Longrightarrow> wk_state w = INVALID" "wk_state w = INVALID \<longleftrightarrow> wk_condition w = 0"
  shows "items_ok (v(k \<mapsto> w))"
  using assms by (auto simp: items_ok_def)

lemma items_okD:
  assumes "items_ok v" "v k = Some w"
  shows "0 \<le> wk_callstack w" "0 < wk_callstack w \<Longrightarrow> wk_state w = INVALID" "wk_state w = INVALID \<longleftrightarrow> wk_condition w = 0"
  using assms unfolding items_ok_def by blast+

lemma progress_callback:
  assumes "v key = Some w" "wk_state w = INVALID" "wk_callstack w = 0" "c \<noteq> 0"
    and "progress (v(key \<mapsto> w\<lparr>wk_callstack := 1\<rparr>)) v1" "v1 key = Some w1"
  shows "progress v (v1(key \<mapsto> w1\<lparr>wk_condition := c, wk_callstack := wk_callstack w1 - 1, wk_state := CREATED\<rparr>))"
proof (rule progress_update [OF assms(5,1)])
  have w1: "wk_callstack w1 = 1" using progressD [OF assms(5), of key] assms(6) by (fastforce simp: item_le_def)
  then show "item_le w (w1\<lparr>wk_condition := c, wk_callstack := wk_callstack w1 - 1, wk_state := CREATED\<rparr>)"
    using assms(2,3) by (simp add: item_le_def rank_def)
  show "items_ok (v1(key \<mapsto> w1\<lparr>wk_condition := c, wk_callstack := wk_callstack w1 - 1, wk_state := CREATED\<rparr>))"
    using assms(4,5) w1 by (intro items_ok_update) (simp_all add: progress_def)
qed

lemma progress_resolve:
  assumes "items_ok v" "v key = Some w" "wk_state w = CREATED" "progress (v(key \<mapsto> w\<lparr>wk_state := RESOLVED\<rparr>)) v1"
  shows "progress v v1"
proof -
  have z: "\<not> 0 < wk_callstack w" using items_okD(2) [OF assms(1,2)] assms(3) by force
  obtain w1 where w1: "v1 key = Some w1" "item_le (w\<lparr>wk_state := RESOLVED\<rparr>) w1"
    using progressD [OF assms(4), of key] by auto
  have "item_le w w1" using w1(2) z by (simp add: item_le_def rank_def)
  moreover have "items_ok (v1(key \<mapsto> w1))" using assms(4) w1(1) by (simp add: progress_def fun_upd_idem)
  ultimately have "progress v (v1(key \<mapsto> w1))" by (rule progress_update [OF assms(4,2)])
  then show ?thesis by (simp add: w1(1) fun_upd_idem)
qed

interpretation depth: handler_depth "\<lambda>h. items_ok (view h)" "\<lambda>h h'. progress (view h) (view h')" "\<lambda>h. entries_left (view h)"
proof
  fix h h1 h2 :: Handler and key w
  show "progress (view h) (view h)" if "items_ok (view h)" using that by (rule progress_refl)
  show "progress (view h) (view h2)" if "progress (view h) (view h1)" "progress (view h1) (view h2)"
    using that by (rule progress_trans)
  show "items_ok (view h1)" if "progress (view h) (view h1)" using that by (simp add: progress_def)
  show "entries_left (view h1) \<le> entries_left (view h)" if "progress (view h) (view h1)"
    using that by (rule entries_left_mono) simp
  show "progress (view h) (view h1)" if "items_ok (view h)" "current_intersection h c = Inr h1" for c
    using that progress_refl by (simp add: current_intersection_view [OF that(2)])
  show "progress (view h) (view h1)" if "items_ok (view h)" "context_intersection own c h = Inr h1" for own c
    using that progress_refl by (simp add: context_intersection_view [OF that(2)])
  show "progress (view h) (view h1)" if "items_ok (view h)" "handler_registerOne h iov c = Inr (h1, b)" for iov c b
    using that progress_refl by (simp add: register_view(1) [OF that(2)])
  show "progress (view h) (view h1)" if "items_ok (view h)" "handler_registerMany h iov cs = Inr (h1, n)" for iov cs n
    using that progress_refl by (simp add: register_view(2) [OF that(2)])
  assume ok: "items_ok (view h)"
  show "progress (view h) (view (h\<lparr>hd_store := fst (Condition_object (hd_store h) val 0)\<rparr>))" for val
    using progress_refl [OF ok] by simp
  show "progress (view h) (view (h\<lparr>hd_store := cond_put (hd_store h) c (ob\<lparr>co_value := val\<rparr>)\<rparr>))" for c ob val
    using progress_refl [OF ok] by simp
  show "progress (view h) (view (h\<lparr>hd_state := st, hd_current := cur\<rparr>))" for st cur
    using progress_refl [OF ok] by simp
  show "fst ` set (hd_todo h1) = fst ` set (hd_todo h)" if "progress (view h) (view h1)"
    using progress_dom [OF that] by (simp add: view_dom)
  assume w: "map_of (hd_todo h) key = Some w"
  have v: "view h key = Some (strip w)" by (rule view_item [OF w])
  note wd = items_okD [OF ok v, simplified]
  show "0 \<le> wk_callstack w" by (rule wd(1))
  show "wk_state w = INVALID" if "wk_condition w = 0" using wd(3) that by simp
  show "wk_state w \<noteq> INVALID" if "wk_condition w \<noteq> 0" using wd(3) that by simp
  show "\<exists>w'. map_of (hd_todo h1) key = Some w' \<and> wk_state w' \<noteq> INVALID" if p: "progress (view h) (view h1)" "wk_state w \<noteq> INVALID"
  proof -
    obtain w' where w': "view h1 key = Some w'" "item_le (strip w) w'" by (rule progressD [OF p(1) v])
    have z: "\<not> 0 < wk_callstack w" using wd(2) p(2) by blast
    have "rank w \<le> 1" using p(2) by (cases "wk_state w") (simp_all add: rank_def)
    then have "rank w' \<le> 1" "wk_callstack w' = wk_callstack w" using w'(2) by (simp_all add: item_le_def)
    then have "wk_state w' \<noteq> INVALID" using z by (auto simp: rank_def)
    then show ?thesis using w'(1) by (auto simp: view_def)
  qed
  {
    assume i: "wk_state w = INVALID" "wk_callstack w = 0"
    have e: "view (enter_callback key w h) = (view h)(key \<mapsto> (strip w)\<lparr>wk_callstack := 1\<rparr>)"
      using i by (simp add: enter_callback_def)
    have less: "entries_left (view (enter_callback key w h)) < entries_left (view h)"
      using entries_left_update [where v = "view h" and w' = "(strip w)\<lparr>wk_callstack := 1\<rparr>", OF finite_view v] i unfolding e by (simp add: rank_def)
    then show "entries_left (view (enter_callback key w h)) < entries_left (view h)" .
    have "items_ok ((view h)(key \<mapsto> (strip w)\<lparr>wk_callstack := 1\<rparr>))"
      using wd i by (intro items_ok_update [OF ok]) simp_all
    then show "items_ok (view (enter_callback key w h)) \<and> entries_left (view (enter_callback key w h)) \<le> entries_left (view h)"
      using less e by simp
    show "progress (view h) (view h2)"
      if r: "progress (view (enter_callback key w h)) (view h1)" "finish_callback key (hd_current h) c h1 = Inr h2" for c
    proof -
      obtain w1 where w1: "map_of (hd_todo h1) key = Some w1" "c \<noteq> 0"
        "view h2 = (view h1)(key \<mapsto> (strip w1)\<lparr>wk_condition := c, wk_callstack := wk_callstack w1 - 1, wk_state := CREATED\<rparr>)"
        by (rule finish_callback_view [OF r(2)])
      show ?thesis
        using progress_callback [OF v _ _ w1(2) r(1) [unfolded e] view_item [OF w1(1)]] i by (simp add: w1(3))
    qed
  }
  {
    assume cr: "wk_state w = CREATED"
    have e: "view (enter_resolve key w h) = (view h)(key \<mapsto> (strip w)\<lparr>wk_state := RESOLVED\<rparr>)" by (simp add: enter_resolve_def)
    have less: "entries_left (view (enter_resolve key w h)) < entries_left (view h)"
      using entries_left_update [where v = "view h" and w' = "(strip w)\<lparr>wk_state := RESOLVED\<rparr>", OF finite_view v] cr unfolding e by (simp add: rank_def)
    then show "entries_left (view (enter_resolve key w h)) < entries_left (view h)" .
    have "items_ok ((view h)(key \<mapsto> (strip w)\<lparr>wk_state := RESOLVED\<rparr>))"
      using wd cr by (intro items_ok_update [OF ok]) auto
    then show "items_ok (view (enter_resolve key w h)) \<and> entries_left (view (enter_resolve key w h)) \<le> entries_left (view h)"
      using less e by simp
    show "progress (view h) (view (h2\<lparr>hd_current := Some p\<rparr>))"
      if r: "progress (view (enter_resolve key w h)) (view h1)" "do_intersection h1 p i = Inr h2" for p i
      using progress_resolve [OF ok v _ r(1) [unfolded e]] cr do_intersection_view [OF r(2)] by simp
  }
next
  fix h h1 :: Handler and key prev c w
  assume f: "finish_callback key prev c h1 = Inr h" and ok: "items_ok (view h)" and w: "map_of (hd_todo h) key = Some w"
  show "wk_state w = CREATED \<and> wk_callstack w = 0"
  proof (rule finish_callback_view [OF f])
    fix w1 assume "view h = (view h1)(key \<mapsto> (strip w1)\<lparr>wk_condition := c, wk_callstack := wk_callstack w1 - 1, wk_state := CREATED\<rparr>)"
    then have "strip w = (strip w1)\<lparr>wk_condition := c, wk_callstack := wk_callstack w1 - 1, wk_state := CREATED\<rparr>"
      using view_item [OF w] by simp
    then have "wk_state (strip w) = CREATED" by (metis Work.select_convs(6) Work.surjective Work.update_convs(6))
    moreover from this have "\<not> 0 < wk_callstack w" using items_okD(2) [OF ok view_item [OF w]] by force
    ultimately show ?thesis using items_okD(1) [OF ok view_item [OF w]] by simp
  qed
qed

end
