(* ===== verification/DerivedRegistration.thy ===== *)
theory DerivedRegistration
  imports HandlerRuns
begin

text \<open>
  What the handler of derived conditions leaves behind. First the invariant of its runs about the conditions
  made so far: the addresses that the store hands out are free, the creation callback of every item
  has been entered once when it is running or has run and never otherwise, and the condition of an item has
  the key of the dependency that produced it. Then the registration at the end of the second
  pass: every derived condition is in the pool of the manager for its interval, and the user pool
  finds its key.
\<close>

section \<open>Conditions only grow\<close>

definition conds_fresh :: "CondState \<Rightarrow> bool" where
  "conds_fresh s \<longleftrightarrow> (\<forall>a \<ge> cs_next s. cs_cond s a = None \<and> cs_pool s a = None)"

text \<open>Every condition that exists is kept, with its key; the pools are kept free of fresh addresses.\<close>

definition conds_grow :: "CondState \<Rightarrow> CondState \<Rightarrow> bool" where
  "conds_grow s s' \<longleftrightarrow> (\<forall>c ob. cs_cond s c = Some ob \<longrightarrow> (\<exists>ob'. cs_cond s' c = Some ob' \<and> co_hash ob' = co_hash ob)) \<and>
     (conds_fresh s \<longrightarrow> conds_fresh s')"

lemma conds_grow_refl [simp]: "conds_grow s s"
  by (simp add: conds_grow_def)

lemma conds_grow_trans: "\<lbrakk>conds_grow s t; conds_grow t u\<rbrakk> \<Longrightarrow> conds_grow s u"
  unfolding conds_grow_def by metis

lemma conds_grow_same: "\<lbrakk>cs_cond s' = cs_cond s; cs_pool s' = cs_pool s; cs_next s \<le> cs_next s'\<rbrakk> \<Longrightarrow> conds_grow s s'"
  by (simp add: conds_grow_def conds_fresh_def)

lemma conds_grow_put:
  assumes "cond_get s c = Inr ob \<or> cs_cond s c = Some ob" "co_hash ob' = co_hash ob"
  shows "conds_grow s (cond_put s c ob')"
proof -
  have "cs_cond s c = Some ob" using assms(1) by (auto simp: cond_get_def split: option.splits if_splits)
  then show ?thesis using assms(2) by (auto simp: conds_grow_def conds_fresh_def cond_put_def)
qed

lemma conds_grow_new: "conds_fresh s \<Longrightarrow> conds_grow s (fst (Condition_object s val hash))"
  by (auto simp: conds_grow_def conds_fresh_def Condition_object_def Let_def)

lemma conds_grow_registerIOV:
  assumes "registerIOV s t key = Inr (s', p)"
  shows "conds_grow s s' \<and> cs_cond s' = cs_cond s"
  using assms
proof (cases rule: registerIOV_cases)
  case (created ip)
  then show ?thesis by (auto simp: conds_grow_def conds_fresh_def raw_pool_put_def)
qed simp

text \<open>Adding a condition to a pool, the step that single and block registration share.\<close>

definition held_by :: "CondState \<Rightarrow> Entries \<Rightarrow> cond \<Rightarrow> bool" where
  "held_by s e c \<longleftrightarrow> (case e of LinearPool cs \<Rightarrow> c \<in> set cs | MappedPool m \<Rightarrow> map_of m (hash_in s c) \<noteq> None)"

lemma adopt_condition_Inr:
  "adopt_condition s q c = Inr s1 \<Longrightarrow> \<exists>ob. cs_cond s c = Some ob \<and> c \<noteq> 0 \<and>
    s1 = cond_put s c (ob\<lparr>co_iov := cp_iov q, co_flags := co_flags ob OR cond_ACTIVE\<rparr>)"
  by (auto simp: adopt_condition_def bindE_Inr_iff cond_get_def split: option.splits if_splits)

lemma pool_get_Inr: "pool_get s p = Inr q \<longleftrightarrow> cs_pool s p = Some q \<and> p \<noteq> 0"
  by (auto simp: pool_get_def split: option.splits)

lemma adopt_and_insert:
  assumes "pool_get s p = Inr q" "adopt_condition s q c = Inr s1" "pool_insert s1 p c = Inr (s2, b)"
  obtains e where "conds_grow s s2" "hash_in s2 c = hash_in s c" "live_in s2 c" "cs_pool s2 = (cs_pool s)(p \<mapsto> q\<lparr>cp_entries := e\<rparr>)"
    "cm_rawPool s2 = cm_rawPool s" "held_by s2 e c" "\<And>d. \<lbrakk>held_by s (cp_entries q) d; live_in s d\<rbrakk> \<Longrightarrow> held_by s2 e d"
    "\<And>d. live_in s2 d = live_in s d"
proof -
  obtain ob where ob: "cs_cond s c = Some ob" "c \<noteq> 0"
    and s1: "s1 = cond_put s c (ob\<lparr>co_iov := cp_iov q, co_flags := co_flags ob OR cond_ACTIVE\<rparr>)"
    using adopt_condition_Inr [OF assms(2)] by blast
  have g1: "conds_grow s s1" unfolding s1 by (rule conds_grow_put) (use ob in auto)
  have p: "cs_pool s p = Some q" "p \<noteq> 0" using assms(1) by (simp_all add: pool_get_Inr)
  have "cs_pool s1 p = Some q" by (simp add: s1 cond_put_def p)
  then obtain e where e: "entries_insert s1 (cp_entries q) c = Inr (e, b)" and s2: "s2 = pool_put s1 p (q\<lparr>cp_entries := e\<rparr>)"
    using assms(3) by (auto simp: pool_insert_def bindE_Inr_iff pool_get_Inr)
  have cond: "cs_cond s2 = cs_cond s1" by (simp add: s2 pool_put_def)
  have hash: "hash_in s2 d = hash_in s d" for d by (simp add: hash_in_def cond s1 cond_put_def ob)
  have "conds_grow s1 s2" using p(1) by (auto simp: conds_grow_def conds_fresh_def s2 pool_put_def s1 cond_put_def)
  then have g: "conds_grow s s2" by (rule conds_grow_trans [OF g1])
  have h: "held_by s2 e c \<and> (\<forall>d. held_by s (cp_entries q) d \<longrightarrow> held_by s2 e d)"
  proof (cases "cp_entries q")
    case (LinearPool cs)
    then show ?thesis using e by (auto simp: bindE_Inr_iff held_by_def)
  next
    case (MappedPool m)
    have "co_hash (the (cs_cond s1 c)) = hash_in s c" by (simp add: s1 cond_put_def hash_in_def ob)
    moreover have "cond_access s1 c = Inr (the (cs_cond s1 c))" using ob by (simp add: cond_access_def cond_get_def s1 cond_put_def)
    ultimately have "e = MappedPool (fst (map_emplace (hash_in s c) c m))" using e MappedPool by (auto split: prod.splits)
    then show ?thesis using MappedPool by (auto simp: held_by_def hash map_of_emplace split: option.splits)
  qed
  have live: "live_in s2 c" using ob by (simp add: live_in_def cond s1 cond_put_def)
  show thesis
    by (rule that [OF g hash live _ _ conjunct1 [OF h]]) (use h ob in \<open>auto simp: s2 s1 pool_put_def cond_put_def live_in_def\<close>)
qed

lemma conds_grow_listeners [simp]: "conds_grow s (call_listeners ls s c)" "conds_grow t (call_listeners ls s c) = conds_grow t s"
  by (simp_all add: conds_grow_def conds_fresh_def call_listeners_same)

lemma conds_grow_one:
  assumes "upool_registerOne s iov c = Inr (s', b)"
  shows "conds_grow s s'"
proof -
  obtain t s1 p where r: "registerIOV s t (iov_keyData iov) = Inr (s1, p)" "registerUnlocked s1 p c = Inr (s', b)"
    using assms by (auto simp: upool_registerOne_def bindE_Inr_iff split: option.splits if_splits)
  obtain q s2 s3 b' where u: "pool_get s1 p = Inr q" "adopt_condition s1 q c = Inr s2" "pool_insert s2 p c = Inr (s3, b')"
    and s': "s' = call_listeners (cm_onRegister s3) s3 c"
    using r(2) by (auto simp: registerUnlocked_def bindE_Inr_iff split: if_splits)
  have "conds_grow s1 s3" by (rule adopt_and_insert [OF u]) simp
  then show ?thesis using conds_grow_registerIOV [OF r(1)] conds_grow_trans unfolding s' by (auto intro: conds_grow_trans)
qed

section \<open>Registration of a section\<close>

definition pool_of :: "CondState \<Rightarrow> nat \<Rightarrow> Key \<Rightarrow> nat \<Rightarrow> bool" where
  "pool_of s i key p \<longleftrightarrow> i < length (cm_rawPool s) \<and> (\<exists>ip. cm_rawPool s ! i = Some ip \<and> map_of (ip_elements ip) key = Some p)"

text \<open>What later registrations keep: the pools of the manager, and what they hold.\<close>

definition pools_grow :: "CondState \<Rightarrow> CondState \<Rightarrow> bool" where
  "pools_grow s s' \<longleftrightarrow> (\<forall>i key p. pool_of s i key p \<longrightarrow> pool_of s' i key p) \<and>
     (\<forall>p q. cs_pool s p = Some q \<longrightarrow> (\<exists>q'. cs_pool s' p = Some q' \<and>
        (\<forall>c. live_in s c \<longrightarrow> held_by s (cp_entries q) c \<longrightarrow> held_by s' (cp_entries q') c)))"

definition holds_condition :: "CondState \<Rightarrow> nat \<Rightarrow> Key \<Rightarrow> cond \<Rightarrow> bool" where
  "holds_condition s i key c \<longleftrightarrow> live_in s c \<and> (\<exists>p q. pool_of s i key p \<and> cs_pool s p = Some q \<and> held_by s (cp_entries q) c)"

lemma live_grow: "\<lbrakk>conds_grow s s'; live_in s c\<rbrakk> \<Longrightarrow> live_in s' c \<and> hash_in s' c = hash_in s c"
  by (fastforce simp: conds_grow_def live_in_def hash_in_def)

lemma pools_grow_refl [simp]: "pools_grow s s"
  by (simp add: pools_grow_def)

lemma pools_grow_trans: "\<lbrakk>pools_grow s t; pools_grow t u; conds_grow s t\<rbrakk> \<Longrightarrow> pools_grow s u"
  unfolding pools_grow_def by (meson live_grow)

lemma holds_grow: "\<lbrakk>holds_condition s i key c; pools_grow s s'; conds_grow s s'\<rbrakk> \<Longrightarrow> holds_condition s' i key c"
  unfolding holds_condition_def pools_grow_def by (meson live_grow)

lemma pools_grow_registerIOV:
  assumes "registerIOV s t key = Inr (s', p)" "conds_fresh s"
  shows "pools_grow s s' \<and> pool_of s' (unat (iovt_type t)) key p"
proof -
  let ?i = "unat (iovt_type t)"
  obtain x where x: "?i < length (cm_rawPool s)" "cm_rawPool s ! ?i = x"
    using assms(1) by (auto simp: registerIOV_def raw_pool_def bindE_Inr_iff split: if_splits)
  define ip where "ip = (case x of Some ip \<Rightarrow> ip | None \<Rightarrow> \<lparr>ip_elements = [], ip_type = ?i\<rparr>)"
  have known: "map_of (ip_elements ip) k = Some p'" if "x = Some ip'" "map_of (ip_elements ip') k = Some p'" for ip' k p'
    using that by (simp add: ip_def)
  show ?thesis
  proof (cases "map_of (ip_elements ip) key")
    case (Some p')
    then have xs: "x = Some ip" by (auto simp: ip_def split: option.splits)
    then have "raw_pool_put s ?i ip = s" using x by (simp add: raw_pool_put_def list_update_same_conv)
    then have "s' = s" "p = p'" using assms(1) x xs Some by (auto simp: registerIOV_def raw_pool_def)
    then show ?thesis using x xs Some by (auto simp: pool_of_def)
  next
    case None
    have r: "p = Suc (cs_next s)" "cs_cond s' = cs_cond s" "cs_pool s' = (cs_pool s)(p \<mapsto> pool_new (cm_newPool s) (cs_next s))"
      "cm_rawPool s' = (cm_rawPool s)[?i := Some (ip\<lparr>ip_elements := map_assign key p (ip_elements ip)\<rparr>)]"
      using assms(1) x None by (auto simp: registerIOV_def raw_pool_def ip_def [symmetric] Let_def raw_pool_put_def)
    have old: "cs_pool s p = None" using assms(2) by (simp add: conds_fresh_def r(1))
    have h: "held_by s' e c = held_by s e c" for e c by (simp add: held_by_def hash_in_def r(2) split: Entries.split)
    have "pool_of s' i k p'" if "pool_of s i k p'" for i k p'
      using that known [of _ k p'] x None by (cases "i = ?i") (auto simp: pool_of_def r(4))
    moreover have "pool_of s' ?i key p" using x by (simp add: pool_of_def r(4))
    moreover have "cs_pool s' p' = Some q" if "cs_pool s p' = Some q" for p' q
      using that old by (auto simp: r(3))
    ultimately show ?thesis by (auto simp: pools_grow_def h)
  qed
qed

lemma block_step_registers:
  assumes "block_step p (s, n) c = Inr (s', n')" "pool_of s i key p"
  shows "conds_grow s s' \<and> pools_grow s s' \<and> holds_condition s' i key c \<and> (\<forall>d. live_in s' d = live_in s d)"
proof -
  obtain q s1 s2 b where u: "pool_get s p = Inr q" "adopt_condition s q c = Inr s1" "pool_insert s1 p c = Inr (s2, b)"
    and s': "s' = call_listeners (cm_onRegister s2) s2 c" and c: "c \<noteq> 0"
    using assms(1) by (auto simp: block_step_def bindE_Inr_iff split: if_splits)
  have q: "cs_pool s p = Some q" using u(1) by (simp add: pool_get_Inr)
  obtain e where e: "conds_grow s s2" "hash_in s2 c = hash_in s c" "live_in s2 c" "cs_pool s2 = (cs_pool s)(p \<mapsto> q\<lparr>cp_entries := e\<rparr>)"
    "cm_rawPool s2 = cm_rawPool s" "held_by s2 e c" "\<And>d. \<lbrakk>held_by s (cp_entries q) d; live_in s d\<rbrakk> \<Longrightarrow> held_by s2 e d"
    "\<And>d. live_in s2 d = live_in s d"
    by (rule adopt_and_insert [OF u]) blast
  have h: "held_by s' f d = held_by s2 f d" for f d
    by (simp add: held_by_def hash_in_def s' call_listeners_same split: Entries.split)
  have hs: "held_by s2 f d" if "held_by s f d" "live_in s d" for f d
    using that live_grow [OF e(1) that(2)] by (simp add: held_by_def split: Entries.splits)
  have po: "pool_of s' j k p' = pool_of s j k p'" for j k p' by (simp add: pool_of_def s' call_listeners_same e(5))
  have cp: "cs_pool s' = (cs_pool s)(p \<mapsto> q\<lparr>cp_entries := e\<rparr>)" "cs_cond s' = cs_cond s2" by (simp_all add: s' call_listeners_same e(4))
  have "pools_grow s s'" unfolding pools_grow_def po h cp(1) using e(7) hs q by simp
  moreover have "holds_condition s' i key c"
    unfolding holds_condition_def po h cp(1) using e(3,6) assms(2) by (auto simp: live_in_def cp(2))
  moreover have "live_in s' d = live_in s d" for d using e(8) [of d] by (simp add: live_in_def cp(2))
  ultimately show ?thesis using e(1) by (simp add: s')
qed

lemma block_registers:
  "\<lbrakk>foldE (block_step p) (s, n) cs = Inr (s', n'); pool_of s i key p\<rbrakk> \<Longrightarrow>
    conds_grow s s' \<and> pools_grow s s' \<and> pool_of s' i key p \<and> (\<forall>c \<in> set cs. holds_condition s' i key c) \<and>
    (\<forall>d. live_in s' d = live_in s d)"
proof (induction cs arbitrary: s n)
  case (Cons c cs)
  obtain s1 n1 where s1: "block_step p (s, n) c = Inr (s1, n1)" "foldE (block_step p) (s1, n1) cs = Inr (s', n')"
    using Cons.prems(1) by (auto simp: bindE_Inr_iff)
  note b = block_step_registers [OF s1(1) Cons.prems(2)]
  then have "pool_of s1 i key p" using Cons.prems(2) by (simp add: pools_grow_def)
  note ih = Cons.IH [OF s1(2) this]
  have g: "conds_grow s s'" using b ih conds_grow_trans by blast
  show ?case using b ih g pools_grow_trans [of s s1 s'] holds_grow by auto
qed simp

lemma i_insert_many_Inr:
  "i_insert_many s u cs = Inr u' \<Longrightarrow>
    u' = u\<lparr>up_conditions := foldl (\<lambda>m c. fst (map_emplace (hash_in s c) c m)) (up_conditions u) cs\<rparr>"
proof (induction cs arbitrary: u)
  case (Cons c cs)
  obtain ob where "cond_get s c = Inr ob" using Cons.prems by (auto simp: i_insert_many_def i_insert_def bindE_Inr_iff)
  then have "co_hash ob = hash_in s c" by (auto simp: cond_get_def hash_in_def split: option.splits if_splits)
  then have "i_insert s u c = Inr (u\<lparr>up_conditions := fst (map_emplace (hash_in s c) c (up_conditions u))\<rparr>,
      snd (map_emplace (hash_in s c) c (up_conditions u)))"
    using \<open>cond_get s c = Inr ob\<close> by (simp add: i_insert_def Let_def split_beta)
  then have "i_insert_many s (u\<lparr>up_conditions := fst (map_emplace (hash_in s c) c (up_conditions u))\<rparr>) cs = Inr u'"
    using Cons.prems by (simp add: i_insert_many_def)
  from Cons.IH [OF this] show ?case by simp
qed (simp add: i_insert_many_def)

text \<open>What registering a block leaves: its conditions are in the pool of the interval, and the user pool finds every key.\<close>

lemma registerMany_registers:
  assumes "upool_registerMany s u iov cs = Inr (s', u', n)" "conds_fresh s"
  shows "conds_grow s s' \<and> pools_grow s s' \<and>
    (\<forall>c \<in> set cs. holds_condition s' (unat (iovt_type (the (iov_iovType iov)))) (iov_keyData iov) c) \<and>
    (\<forall>d. live_in s' d = live_in s d) \<and> up_iov u' = up_iov u \<and> up_iovPool u' = up_iovPool u \<and>
    (\<forall>k. map_of (up_conditions u') k = (case map_of (up_conditions u) k of Some c \<Rightarrow> Some c | None \<Rightarrow> find (\<lambda>c. hash_in s c = k) cs))"
proof -
  obtain t s1 p where t: "iov_iovType iov = Some t" and r: "registerIOV s t (iov_keyData iov) = Inr (s1, p)"
    "blockRegister s1 p cs = Inr (s', n)" "i_insert_many s' u cs = Inr u'"
    using assms(1) by (auto simp: upool_registerMany_def bindE_Inr_iff split: option.splits if_splits)
  note g = conds_grow_registerIOV [OF r(1)] and p = pools_grow_registerIOV [OF r(1) assms(2)]
  note b = block_registers [OF r(2) [unfolded blockRegister_def] conjunct2 [OF p]]
  have grow: "conds_grow s s'" "pools_grow s s'" using g p b conds_grow_trans pools_grow_trans by blast+
  have live: "live_in s' d = live_in s d" for d using b g by (simp add: live_in_def)
  moreover have "\<forall>c \<in> set cs. live_in s' c" using b unfolding holds_condition_def by blast
  ultimately have known: "\<forall>c \<in> set cs. live_in s c" by simp
  note u' = i_insert_many_Inr [OF r(3)]
  have "find (\<lambda>c. hash_in s' c = k) cs = find (\<lambda>c. hash_in s c = k) cs" for k
    by (intro find_cong) (use known live_grow [OF grow(1)] in auto)
  then have "map_of (up_conditions u') k = (case map_of (up_conditions u) k of Some c \<Rightarrow> Some c | None \<Rightarrow> find (\<lambda>c. hash_in s c = k) cs)" for k
    by (simp add: u' emplace_all_find split: option.split)
  then show ?thesis using grow b live t by (simp add: u')
qed

lemma conds_grow_many: "\<lbrakk>upool_registerMany s u iov cs = Inr (s', u', n); conds_fresh s\<rbrakk> \<Longrightarrow> conds_grow s s'"
  using registerMany_registers by blast

section \<open>The end of the second pass\<close>

lemma register_step_Inr:
  assumes "register_step h sec = Inr h1" "conds_fresh (hd_store h)" "hd_iovType h = Some t"
  shows "conds_grow (hd_store h) (hd_store h1) \<and> pools_grow (hd_store h) (hd_store h1) \<and>
    (\<forall>c \<in> set (snd sec). holds_condition (hd_store h1) (unat (iovt_type t)) (fst sec) c) \<and> (\<forall>d. live_in (hd_store h1) d = live_in (hd_store h) d) \<and>
    (\<forall>k. map_of (up_conditions (hd_pool h1)) k = (case map_of (up_conditions (hd_pool h)) k of
        Some c \<Rightarrow> Some c | None \<Rightarrow> find (\<lambda>c. hash_in (hd_store h) c = k) (snd sec))) \<and>
    h1 = h\<lparr>hd_store := hd_store h1, hd_pool := hd_pool h1\<rparr>"
proof -
  have v: "iov_iovType (IOV_with_key (Some t) (fst sec)) = Some t" "iov_keyData (IOV_with_key (Some t) (fst sec)) = fst sec"
    by (simp_all add: IOV_with_key_def)
  obtain s1 u1 n where r: "upool_registerMany (hd_store h) (hd_pool h) (IOV_with_key (Some t) (fst sec)) (snd sec) = Inr (s1, u1, n)"
    "h1 = h\<lparr>hd_store := s1, hd_pool := u1\<rparr>"
    using assms(1,3) by (auto simp: register_step_def handler_registerMany_def bindE_Inr_iff)
  show ?thesis using registerMany_registers [OF r(1) assms(2)] by (simp add: v r(2))
qed

lemma find_append: "find P (xs @ ys) = (case find P xs of Some x \<Rightarrow> Some x | None \<Rightarrow> find P ys)"
  by (induction xs) auto

lemma register_sections:
  "\<lbrakk>foldE register_step h secs = Inr h'; conds_fresh (hd_store h); hd_iovType h = Some t\<rbrakk> \<Longrightarrow>
    conds_grow (hd_store h) (hd_store h') \<and> pools_grow (hd_store h) (hd_store h') \<and>
    (\<forall>(key, cs) \<in> set secs. \<forall>c \<in> set cs. holds_condition (hd_store h') (unat (iovt_type t)) key c) \<and>
    (\<forall>k. map_of (up_conditions (hd_pool h')) k = (case map_of (up_conditions (hd_pool h)) k of
        Some c \<Rightarrow> Some c | None \<Rightarrow> find (\<lambda>c. hash_in (hd_store h) c = k) (concat (List.map snd secs)))) \<and>
    (\<forall>c \<in> set (concat (List.map snd secs)). live_in (hd_store h) c) \<and>
    h' = h\<lparr>hd_store := hd_store h', hd_pool := hd_pool h'\<rparr>"
proof (induction secs arbitrary: h)
  case (Cons sec secs)
  obtain h1 where h1: "register_step h sec = Inr h1" "foldE register_step h1 secs = Inr h'" using Cons.prems(1) by (auto simp: bindE_Inr_iff)
  note a = register_step_Inr [OF h1(1) Cons.prems(2,3)]
  have eq: "h1 = h\<lparr>hd_store := hd_store h1, hd_pool := hd_pool h1\<rparr>" using a by blast
  have "hd_iovType h1 = Some t" using Cons.prems(3) by (subst eq) simp
  moreover have "conds_fresh (hd_store h1)" using a Cons.prems(2) by (simp add: conds_grow_def)
  ultimately have b: "conds_grow (hd_store h1) (hd_store h')" "pools_grow (hd_store h1) (hd_store h')"
    "\<forall>(key, cs) \<in> set secs. \<forall>c \<in> set cs. holds_condition (hd_store h') (unat (iovt_type t)) key c"
    "\<And>k. map_of (up_conditions (hd_pool h')) k = (case map_of (up_conditions (hd_pool h1)) k of
        Some c \<Rightarrow> Some c | None \<Rightarrow> find (\<lambda>c. hash_in (hd_store h1) c = k) (concat (List.map snd secs)))"
    "\<forall>c \<in> set (concat (List.map snd secs)). live_in (hd_store h1) c"
    "h' = h1\<lparr>hd_store := hd_store h', hd_pool := hd_pool h'\<rparr>" using Cons.IH [OF h1(2)] by blast+
  have live: "live_in (hd_store h) c" if "live_in (hd_store h1) c" for c
    using that a by blast
  have "find (\<lambda>c. hash_in (hd_store h1) c = k) (concat (List.map snd secs)) = find (\<lambda>c. hash_in (hd_store h) c = k) (concat (List.map snd secs))" for k
    by (rule find_cong) (use b(5) live live_grow a in auto)
  then have "map_of (up_conditions (hd_pool h')) k = (case map_of (up_conditions (hd_pool h)) k of
        Some c \<Rightarrow> Some c | None \<Rightarrow> find (\<lambda>c. hash_in (hd_store h) c = k) (concat (List.map snd (sec # secs))))" for k
    using a b(4) [of k] by (auto simp: find_append split: option.splits)
  moreover have "conds_grow (hd_store h) (hd_store h')" "pools_grow (hd_store h) (hd_store h')"
    using a b(1,2) conds_grow_trans pools_grow_trans by blast+
  moreover have "\<forall>(key, cs) \<in> set (sec # secs). \<forall>c \<in> set cs. holds_condition (hd_store h') (unat (iovt_type t)) key c"
    using a b(1-3) holds_grow by (cases sec) auto
  moreover have "\<forall>c \<in> set (concat (List.map snd (sec # secs))). live_in (hd_store h) c"
    using a b(5) live by (auto simp: holds_condition_def)
  moreover have "h' = h\<lparr>hd_store := hd_store h', hd_pool := hd_pool h'\<rparr>" by (subst b(6), subst eq) simp
  ultimately show ?case by blast
qed (simp split: option.split)

section \<open>The conditions of the work items\<close>

text \<open>
  The invariant of a run: every condition of a work item has the key of a dependency whose work item it belongs to
  (of the last one, when callbacks return the same object), and the log of the creation callbacks
  names exactly the items that left their initial state, each once.
\<close>

definition entered :: "Work option \<Rightarrow> nat" where
  "entered x = (case x of Some w \<Rightarrow> if wk_state w \<noteq> INVALID \<or> 0 < wk_callstack w then 1 else 0 | None \<Rightarrow> 0)"

definition hashes_ok :: "(u64 \<Rightarrow> Work option) \<Rightarrow> CondState \<Rightarrow> bool" where
  "hashes_ok v s \<longleftrightarrow> (\<forall>k w. v k = Some w \<longrightarrow> wk_condition w \<noteq> 0 \<longrightarrow>
     (\<exists>ob k' w'. cs_cond s (wk_condition w) = Some ob \<and> v k' = Some w' \<and> wk_condition w' = wk_condition w \<and>
        co_hash ob = cd_target (wk_dependency w')))"

definition derived_ok :: "Handler \<Rightarrow> bool" where
  "derived_ok h \<longleftrightarrow> conds_fresh (hd_store h) \<and> hashes_ok (view h) (hd_store h) \<and>
     (\<forall>k. count_list (hd_created h) k = entered (view h k))"

text \<open>The dependencies and the type of the intervals never change.\<close>

definition same_deps :: "Handler \<Rightarrow> Handler \<Rightarrow> bool" where
  "same_deps h h' \<longleftrightarrow> (\<forall>k. map_option wk_dependency (view h' k) = map_option wk_dependency (view h k)) \<and> hd_iovType h' = hd_iovType h"

lemma hashes_grow: "\<lbrakk>hashes_ok v s; conds_grow s s'\<rbrakk> \<Longrightarrow> hashes_ok v s'"
  unfolding hashes_ok_def conds_grow_def by metis

lemma derived_same:
  "\<lbrakk>derived_ok h; conds_grow (hd_store h) (hd_store h'); view h' = view h; hd_created h' = hd_created h \<and> hd_iovType h' = hd_iovType h\<rbrakk> \<Longrightarrow> derived_ok h' \<and> same_deps h h'"
  using hashes_grow by (auto simp: derived_ok_def conds_grow_def same_deps_def)

lemma same_deps_trans: "\<lbrakk>same_deps h h1; same_deps h1 h2\<rbrakk> \<Longrightarrow> same_deps h h2"
  by (simp add: same_deps_def)

lemma same_deps_refl [simp]: "same_deps h h"
  by (simp add: same_deps_def)

lemma do_intersection_derived:
  "do_intersection h k a = Inr h' \<Longrightarrow> conds_grow (hd_store h) (hd_store h') \<and> hd_created h' = hd_created h \<and> hd_iovType h' = hd_iovType h"
  by (auto simp: do_intersection_def bindE_Inr_iff iov_put_def work_put_def intro!: conds_grow_same split: if_splits)

lemma current_intersection_derived:
  "current_intersection h c = Inr h' \<Longrightarrow> conds_grow (hd_store h) (hd_store h') \<and> hd_created h' = hd_created h \<and> hd_iovType h' = hd_iovType h"
  by (auto simp: current_intersection_def bindE_Inr_iff dest!: do_intersection_derived split: option.splits)

lemma context_intersection_derived:
  "context_intersection own c h = Inr h' \<Longrightarrow> conds_grow (hd_store h) (hd_store h') \<and> hd_created h' = hd_created h \<and> hd_iovType h' = hd_iovType h"
  by (auto simp: context_intersection_def bindE_Inr_iff iov_put_def intro!: conds_grow_same split: if_splits)

lemma register_derived:
  "handler_registerOne h iov c = Inr (h', b) \<Longrightarrow> conds_grow (hd_store h) (hd_store h') \<and> hd_created h' = hd_created h \<and> hd_iovType h' = hd_iovType h"
  "\<lbrakk>handler_registerMany h iov cs = Inr (h', n); conds_fresh (hd_store h)\<rbrakk> \<Longrightarrow>
     conds_grow (hd_store h) (hd_store h') \<and> hd_created h' = hd_created h \<and> hd_iovType h' = hd_iovType h"
  by (auto simp: handler_registerOne_def handler_registerMany_def bindE_Inr_iff dest: conds_grow_one conds_grow_many)

lemma do_intersection_conds:
  "do_intersection h k a = Inr h' \<Longrightarrow> cs_cond (hd_store h') = cs_cond (hd_store h) \<and> cs_pool (hd_store h') = cs_pool (hd_store h) \<and>
     cs_next (hd_store h') = cs_next (hd_store h)"
  by (auto simp: do_intersection_def bindE_Inr_iff iov_put_def work_put_def split: if_splits)

lemma finish_callback_conds:
  assumes "finish_callback key prev c h = Inr h'" "map_of (hd_todo h) key = Some w"
  obtains ob ob' where "cs_cond (hd_store h) c = Some ob" "cs_cond (hd_store h') = (cs_cond (hd_store h))(c \<mapsto> ob')"
    "co_hash ob' = cd_target (wk_dependency w)" "cs_pool (hd_store h') = cs_pool (hd_store h)"
    "cs_next (hd_store h') = cs_next (hd_store h)" "hd_created h' = hd_created h" "c \<noteq> 0" "hd_iovType h' = hd_iovType h"
proof -
  have c: "c \<noteq> 0" using assms by (auto simp: finish_callback_def work_at_def Let_def split: if_splits)
  let ?w1 = "w\<lparr>wk_condition := c, wk_callstack := wk_callstack w - 1\<rparr>"
  let ?iov = "if wk_iov w = 0 then wk_addr w else wk_iov w"
  let ?h1 = "(work_put h key ?w1)\<lparr>hd_current := prev\<rparr>"
  let ?h2 = "if wk_iov w = 0 then work_put (?h1\<lparr>hd_store := iov_put (hd_store ?h1) ?iov (IOV_with_key (hd_iovType h) key_forever)\<rparr>) key
                 (?w1\<lparr>wk_iov := ?iov\<rparr>) else ?h1"
  obtain h3 ob w3 where h3: "(case prev of Some p \<Rightarrow> do_intersection ?h2 p ?iov | None \<Rightarrow> Inr ?h2) = Inr h3"
    and ob: "cond_get (hd_store h3) c = Inr ob"
    and h': "h' = work_put (h3\<lparr>hd_store := cond_put (hd_store h3) c (ob\<lparr>co_iov := ?iov,
                      co_hash := cd_target (wk_dependency w), co_flags := co_flags ob OR cond_DERIVED\<rparr>),
                    hd_calls := hd_calls h3 + 1\<rparr>) key (w3\<lparr>wk_state := CREATED\<rparr>)"
    using assms c by (fastforce simp: finish_callback_def bindE_Inr_iff work_at_Inr Let_def)
  have two: "cs_cond (hd_store ?h2) = cs_cond (hd_store h)" "cs_pool (hd_store ?h2) = cs_pool (hd_store h)"
    "cs_next (hd_store ?h2) = cs_next (hd_store h)" "hd_created ?h2 = hd_created h" "hd_iovType ?h2 = hd_iovType h" by (simp_all add: work_put_def iov_put_def)
  then have three: "cs_cond (hd_store h3) = cs_cond (hd_store h)" "cs_pool (hd_store h3) = cs_pool (hd_store h)"
    "cs_next (hd_store h3) = cs_next (hd_store h)" "hd_created h3 = hd_created h" "hd_iovType h3 = hd_iovType h"
    using h3 do_intersection_conds [of ?h2 _ ?iov h3] do_intersection_derived [of ?h2 _ ?iov h3] by (auto split: option.splits)
  have "cs_cond (hd_store h) c = Some ob" using ob three(1) by (auto simp: cond_get_def split: option.splits if_splits)
  then show thesis
    by (rule that [where ob' = "ob\<lparr>co_iov := ?iov, co_hash := cd_target (wk_dependency w), co_flags := co_flags ob OR cond_DERIVED\<rparr>"])
      (use c three in \<open>simp_all add: h' work_put_def cond_put_def\<close>)
qed

lemma derived_callback:
  assumes "derived_ok h" "items_ok (view h)" "map_of (hd_todo h) key = Some w" "wk_callstack w = 1" "finish_callback key prev c h = Inr h'"
  shows "derived_ok h' \<and> same_deps h h'"
proof -
  have w: "view h key = Some (strip w)" by (rule view_item [OF assms(3)])
  have zero: "wk_condition w = 0" using items_okD [OF assms(2) w] assms(4) by simp
  obtain w0 where w0: "map_of (hd_todo h) key = Some w0"
    "view h' = (view h)(key \<mapsto> (strip w0)\<lparr>wk_condition := c, wk_callstack := wk_callstack w0 - 1, wk_state := CREATED\<rparr>)"
    by (rule finish_callback_view [OF assms(5)])
  then have v: "view h' = (view h)(key \<mapsto> (strip w)\<lparr>wk_condition := c, wk_callstack := 0, wk_state := CREATED\<rparr>)"
    using assms(3,4) by simp
  obtain ob ob' where o: "cs_cond (hd_store h) c = Some ob" "cs_cond (hd_store h') = (cs_cond (hd_store h))(c \<mapsto> ob')"
    "co_hash ob' = cd_target (wk_dependency w)" "cs_pool (hd_store h') = cs_pool (hd_store h)"
    "cs_next (hd_store h') = cs_next (hd_store h)" "hd_created h' = hd_created h" "c \<noteq> 0" "hd_iovType h' = hd_iovType h" by (rule finish_callback_conds [OF assms(5,3)])
  have dep: "wk_dependency (strip x) = wk_dependency x" for x by (simp add: strip_def)
  have fresh: "conds_fresh (hd_store h')"
    using assms(1) o(1) by (auto simp: derived_ok_def conds_fresh_def o(2,4,5))
  have "hashes_ok (view h') (hd_store h')"
    unfolding hashes_ok_def
  proof (intro allI impI)
    fix k x assume x: "view h' k = Some x" "wk_condition x \<noteq> 0"
    show "\<exists>ob k' w'. cs_cond (hd_store h') (wk_condition x) = Some ob \<and> view h' k' = Some w' \<and> wk_condition w' = wk_condition x \<and>
        co_hash ob = cd_target (wk_dependency w')"
    proof (cases "wk_condition x = c")
      case True
      then show ?thesis using o(3) by (intro exI [of _ ob'] exI [of _ key]) (simp add: o(2) v dep)
    next
      case False
      then have "k \<noteq> key" using x v by (auto split: if_splits)
      then have "view h k = Some x" using x(1) v by simp
      then obtain b k' w' where k': "cs_cond (hd_store h) (wk_condition x) = Some b" "view h k' = Some w'"
        "wk_condition w' = wk_condition x" "co_hash b = cd_target (wk_dependency w')"
        using assms(1) x(2) unfolding derived_ok_def hashes_ok_def by blast
      have "k' \<noteq> key" using k'(2,3) w x(2) zero by auto
      then show ?thesis using k' False by (intro exI [of _ b] exI [of _ k']) (simp add: o(2) v)
    qed
  qed
  moreover have "count_list (hd_created h') k = entered (view h' k)" for k
    using assms(1,4) w by (auto simp: derived_ok_def o(6) v entered_def)
  ultimately have "derived_ok h'" using fresh by (simp add: derived_ok_def)
  moreover have "same_deps h h'" by (simp add: same_deps_def v w dep o(8))
  ultimately show ?thesis by blast
qed

lemma derived_enter:
  assumes "derived_ok h" "map_of (hd_todo h) key = Some w"
  shows "\<lbrakk>wk_state w = INVALID; wk_callstack w = 0\<rbrakk> \<Longrightarrow> derived_ok (enter_callback key w h) \<and> same_deps h (enter_callback key w h)"
    and "wk_state w = CREATED \<Longrightarrow> derived_ok (enter_resolve key w h) \<and> same_deps h (enter_resolve key w h)"
proof -
  note v = view_item [OF assms(2)]
  have dep: "wk_dependency (strip x) = wk_dependency x" for x by (simp add: strip_def)
  have keep: "hashes_ok ((view h)(key \<mapsto> w')) (hd_store h)"
    if w': "wk_condition w' = wk_condition w" "wk_dependency w' = wk_dependency w" for w'
    unfolding hashes_ok_def
  proof (intro allI impI)
    fix k x assume x: "((view h)(key \<mapsto> w')) k = Some x" "wk_condition x \<noteq> 0"
    obtain y where y: "view h k = Some y" "wk_condition y = wk_condition x" using x(1) v w' by (cases "k = key") auto
    then obtain b k' z where z: "cs_cond (hd_store h) (wk_condition x) = Some b" "view h k' = Some z"
      "wk_condition z = wk_condition x" "co_hash b = cd_target (wk_dependency z)"
      using assms(1) x(2) unfolding derived_ok_def hashes_ok_def by metis
    have "\<exists>z'. ((view h)(key \<mapsto> w')) k' = Some z' \<and> wk_condition z' = wk_condition z \<and> wk_dependency z' = wk_dependency z"
      using z(2) v w' by (cases "k' = key") (auto simp: dep)
    then show "\<exists>ob k' z'. cs_cond (hd_store h) (wk_condition x) = Some ob \<and> ((view h)(key \<mapsto> w')) k' = Some z' \<and>
        wk_condition z' = wk_condition x \<and> co_hash ob = cd_target (wk_dependency z')" using z by metis
  qed
  {
    assume i: "wk_state w = INVALID" "wk_callstack w = 0"
    have e: "view (enter_callback key w h) = (view h)(key \<mapsto> (strip w)\<lparr>wk_callstack := 1\<rparr>)"
      "hd_store (enter_callback key w h) = hd_store h" "hd_created (enter_callback key w h) = key # hd_created h"
      "hd_iovType (enter_callback key w h) = hd_iovType h"
      using i by (simp add: enter_callback_def) (simp_all add: enter_callback_def work_put_def)
    have "count_list (key # hd_created h) k = entered (((view h)(key \<mapsto> (strip w)\<lparr>wk_callstack := 1\<rparr>)) k)" for k
      using assms(1) v i by (auto simp: derived_ok_def entered_def)
    moreover have "hashes_ok ((view h)(key \<mapsto> (strip w)\<lparr>wk_callstack := 1\<rparr>)) (hd_store h)" by (rule keep) (simp_all add: dep)
    ultimately show "derived_ok (enter_callback key w h) \<and> same_deps h (enter_callback key w h)"
      using assms(1) v by (simp add: derived_ok_def e same_deps_def dep)
  next
    assume cr: "wk_state w = CREATED"
    have e: "view (enter_resolve key w h) = (view h)(key \<mapsto> (strip w)\<lparr>wk_state := RESOLVED\<rparr>)"
      "hd_store (enter_resolve key w h) = hd_store h" "hd_created (enter_resolve key w h) = hd_created h" "hd_iovType (enter_resolve key w h) = hd_iovType h"
      by (simp add: enter_resolve_def) (simp_all add: enter_resolve_def work_put_def)
    have "count_list (hd_created h) k = entered (((view h)(key \<mapsto> (strip w)\<lparr>wk_state := RESOLVED\<rparr>)) k)" for k
      using assms(1) v cr by (auto simp: derived_ok_def entered_def)
    moreover have "hashes_ok ((view h)(key \<mapsto> (strip w)\<lparr>wk_state := RESOLVED\<rparr>)) (hd_store h)" by (rule keep) (simp_all add: dep)
    ultimately show "derived_ok (enter_resolve key w h) \<and> same_deps h (enter_resolve key w h)"
      using assms(1) v by (simp add: derived_ok_def e same_deps_def dep)
  }
qed

interpretation kept: handler_relation "\<lambda>h. items_ok (view h) \<and> derived_ok h"
  "\<lambda>h h'. progress (view h) (view h') \<and> derived_ok h' \<and> same_deps h h'" "\<lambda>h. entries_left (view h)"
proof (unfold_locales, goal_cases)
  case (1 h) then show ?case using depth.R_refl by simp
next
  case (2 h h1 h2) then show ?case using depth.R_trans same_deps_trans by blast
next
  case (3 h h') then show ?case using depth.R_ok by blast
next
  case (4 h h') then show ?case using depth.R_pot by blast
next
  case (5 h val)
  have "conds_grow (hd_store h) (fst (Condition_object (hd_store h) val 0))" using 5 by (intro conds_grow_new) (simp add: derived_ok_def)
  then show ?case using 5 depth.R_new derived_same [of h "h\<lparr>hd_store := fst (Condition_object (hd_store h) val 0)\<rparr>"] by simp
next
  case (6 h c ob val)
  have "conds_grow (hd_store h) (cond_put (hd_store h) c (ob\<lparr>co_value := val\<rparr>))"
    using 6(2) by (intro conds_grow_put [of _ _ ob]) (auto simp: cond_access_def split: if_splits)
  then show ?case using 6 depth.R_write derived_same [of h "h\<lparr>hd_store := cond_put (hd_store h) c (ob\<lparr>co_value := val\<rparr>)\<rparr>"] by simp
next
  case (7 h c h') then show ?case using depth.R_current current_intersection_view current_intersection_derived derived_same by blast
next
  case (8 h own c h') then show ?case using depth.R_context context_intersection_view context_intersection_derived derived_same by blast
next
  case (9 h iov c h' b) then show ?case using depth.R_one register_view(1) register_derived(1) derived_same by blast
next
  case (10 h iov cs h' n)
  then have "conds_fresh (hd_store h)" by (simp add: derived_ok_def)
  then show ?case using 10 depth.R_many register_view(2) register_derived(2) derived_same by blast
next
  case (11 h key w) then show ?case using depth.enter_callback_ok derived_enter(1) by blast
next
  case (12 h key w h1 c h2)
  have e: "view (enter_callback key w h) = (view h)(key \<mapsto> (strip w)\<lparr>wk_callstack := 1\<rparr>)" using 12(4) by (simp add: enter_callback_def)
  have R1: "progress (view (enter_callback key w h)) (view h1)" "derived_ok h1" "same_deps (enter_callback key w h) h1"
    using 12(5) by blast+
  obtain w1 where w1: "map_of (hd_todo h1) key = Some w1" using 12(6) by (rule finish_callback_view)
  have "item_le ((strip w)\<lparr>wk_callstack := 1\<rparr>) (strip w1)"
    using progressD [OF R1(1), of key "(strip w)\<lparr>wk_callstack := 1\<rparr>"] e view_item [OF w1] by (metis fun_upd_same option.inject)
  then have "wk_callstack w1 = 1" by (simp add: item_le_def)
  moreover have "items_ok (view h1)" using R1(1) by (simp add: progress_def)
  ultimately have "derived_ok h2 \<and> same_deps h1 h2" using derived_callback [OF R1(2) _ w1 _ 12(6)] by blast
  moreover have "same_deps h (enter_callback key w h)" using derived_enter(1) 12(1-4) by blast
  ultimately show ?case using depth.R_callback [OF _ 12(2-4) R1(1) 12(6)] 12(1) R1(3) same_deps_trans by blast
next
  case (13 h key prev c h1 w) then show ?case using depth.callback_ends by blast
next
  case (14 h key w) then show ?case using depth.enter_resolve_ok derived_enter(2) by blast
next
  case (15 h key w h1 w1 p h2)
  have "derived_ok h2 \<and> same_deps h1 h2"
    using derived_same [of h1 h2] do_intersection_derived [OF 15(6)] do_intersection_view [OF 15(6)] 15(4) by blast
  then have "derived_ok (h2\<lparr>hd_current := Some p\<rparr>) \<and> same_deps h1 (h2\<lparr>hd_current := Some p\<rparr>)"
    by (simp add: derived_ok_def same_deps_def)
  moreover have "same_deps h (enter_resolve key w h)" using derived_enter(2) 15(1-3) by blast
  ultimately show ?case using depth.R_resolve [OF _ 15(2,3) _ 15(5,6)] 15(1,4) same_deps_trans by blast
next
  case (16 h key w) then show ?case using depth.callstack_nonneg by blast
next
  case (17 h key w) then show ?case using depth.no_condition by blast
next
  case (18 h key w) then show ?case using depth.condition_made by blast
next
  case (19 h h' key w) then show ?case using depth.R_made by blast
next
  case (20 h h') then show ?case using depth.R_keys by blast
next
  case (21 h cur st) then show ?case using depth.R_phase derived_same [of h "h\<lparr>hd_state := st, hd_current := cur\<rparr>"] by simp
qed

end
