(* ===== verification/DependencyProps.thy ===== *)
theory DependencyProps
  imports DerivedRegistration
begin

text \<open>
  Properties of the derivation of conditions: it ends whatever the callbacks do, dependencies that
  need each other are refused, and the interval of a derived condition lies in the
  interval of everything its callbacks took from the pool.
\<close>

section \<open>Termination\<close>

lemma view_add_work:
  "view (add_work h d) = (view h)(fst d \<mapsto> case view h (fst d) of Some w \<Rightarrow> w | None \<Rightarrow>
     \<lparr>wk_addr = cs_next (hd_store h), wk_dependency = snd d, wk_iov = 0, wk_condition = 0, wk_callstack = 0, wk_state = INVALID\<rparr>)"
  by (rule ext) (auto simp: view_def add_work_def Let_def map_of_emplace strip_def split: option.splits)

definition untouched :: "(u64 \<Rightarrow> Work option) \<Rightarrow> bool" where
  "untouched v \<longleftrightarrow> (\<forall>k w. v k = Some w \<longrightarrow> wk_state w = INVALID \<and> wk_callstack w = 0 \<and> wk_condition w = 0)"

lemma untouched_new: "untouched (view (Handler_new s u deps)) \<and> dom (view (Handler_new s u deps)) = fst ` set deps"
proof (induction deps rule: rev_induct)
  case Nil
  then show ?case by (simp add: Handler_new_def view_def untouched_def)
next
  case (snoc d deps)
  then have u: "untouched (view (Handler_new s u deps))" and dm: "dom (view (Handler_new s u deps)) = fst ` set deps" by blast+
  have eq: "Handler_new s u (deps @ [d]) = add_work (Handler_new s u deps) d" by (simp add: Handler_new_def)
  have "untouched (view (add_work (Handler_new s u deps) d))"
    using u unfolding view_add_work untouched_def by (auto split: option.splits)
  moreover have "dom (view (add_work (Handler_new s u deps) d)) = insert (fst d) (fst ` set deps)"
    unfolding view_add_work dom_fun_upd dm by simp
  ultimately show ?case unfolding eq by simp
qed

lemma untouched_ok: "untouched v \<Longrightarrow> items_ok v"
  by (auto simp: untouched_def items_ok_def)

lemma entries_left_new: "entries_left (view (Handler_new s u deps)) \<le> 2 * length deps"
proof -
  let ?v = "view (Handler_new s u deps)"
  have "rank (the (?v k)) \<le> 2" for k by (simp add: rank_def split: WorkState.split)
  then have "entries_left ?v \<le> (\<Sum>k \<in> dom ?v. 2)" unfolding entries_left_def by (intro sum_mono) auto
  also have "\<dots> = 2 * card (fst ` set deps)" using untouched_new [of s u deps] by simp
  also have "\<dots> \<le> 2 * length deps" using card_image_le [of "set deps" fst] card_length [of deps] by simp
  finally show ?thesis .
qed

text \<open>C24. Deriving conditions always ends: whatever the callbacks of the dependencies do (they may ask for any
  conditions, in any order, in both passes), the handler never nests more accesses than two per
  dependency, so the result does not depend on how deep accesses may nest, nor on what would
  happen (\<open>deep\<close>) below this depth.\<close>

theorem derivation_terminates:
  assumes "depth_bound deps \<le> n"
  shows "run_handler_to deep n s u deps = run_handler s u deps"
proof -
  let ?h = "Handler_new s u deps" and ?N = "2 * length deps"
  have ok: "items_ok (view ?h)" using untouched_new untouched_ok by blast
  have n: "?N < n" "?N < depth_bound deps" using assms by (simp_all add: depth_bound_def)
  have "bindE (handler_compute deep n ?h) (handler_resolve deep n) =
      bindE (handler_compute stack_overflow (depth_bound deps) ?h) (handler_resolve stack_overflow (depth_bound deps))"
    by (rule depth.agree_passes [OF ok entries_left_new n])
  then have "bindE (bindE (handler_compute deep n ?h) (handler_resolve deep n)) f =
      bindE (bindE (handler_compute stack_overflow (depth_bound deps) ?h) (handler_resolve stack_overflow (depth_bound deps))) f" for f :: "Handler \<Rightarrow> (CondState \<times> UserPool \<times> nat) cpp"
    by simp
  moreover have "bindE (bindE r g) f = bindE r (\<lambda>x. bindE (g x) f)" for r :: "Handler cpp" and g and f :: "Handler \<Rightarrow> (CondState \<times> UserPool \<times> nat) cpp"
    by (cases r) simp_all
  ultimately show ?thesis by (simp add: run_handler_def run_handler_to_def)
qed

section \<open>Cycles\<close>

definition cyclic_pair :: "u64 \<Rightarrow> (cond \<Rightarrow> action) \<Rightarrow> u64 \<Rightarrow> (cond \<Rightarrow> action) \<Rightarrow> (u64, ConditionDependency) std_map" where
  "cyclic_pair k1 f1 k2 f2 = [
     (k1, \<lparr>cd_target = k1, cd_dependencies = [k2], cd_create = GetCondition k2 True f1, cd_resolve = Finish\<rparr>),
     (k2, \<lparr>cd_target = k2, cd_dependencies = [k1], cd_create = GetCondition k1 True f2, cd_resolve = Finish\<rparr>)]"

lemma rethrow_error [simp]: "rethrow (Inl (RuntimeError m)) = Inl (handler_error ''++ Exception while creating dependent Condition'')"
  by (simp add: rethrow_def)

text \<open>Two dependencies whose creation callbacks each access the condition of the other: the derivation raises
  (the second entry into the first callback is noticed), whatever the callbacks would do with
  the conditions.\<close>

theorem cyclic_dependencies_raise:
  assumes "k1 < k2" "\<not> upool_exists u k1" "\<not> upool_exists u k2"
  shows "run_handler s u (cyclic_pair k1 f1 k2 f2) = Inl (handler_error ''++ Exception while creating dependent Condition'')"
proof -
  have p: "i_findCondition u k1 = 0" "i_findCondition u k2 = 0" using assms(2,3) by (simp_all add: upool_exists_def)
  have k: "k1 \<noteq> k2" "\<not> k2 < k1" using assms(1) by auto
  show ?thesis
    using p k assms(1)
    by (simp add: run_handler_def run_handler_to_def depth_bound_def cyclic_pair_def Handler_new_def add_work_def Let_def
        map_emplace_def handler_compute_def compute_step_def work_at_def do_callback_def enter_callback_def work_put_def
        eval_nat_numeral upool_get_def) (simp add: handler_error_def)
qed

definition empty_upool :: UserPool where
  "empty_upool = \<lparr>up_conditions = [], up_iov = iov_forever (Some run_type), up_iovPool = 1\<rparr>"

theorem cyclic_dependencies_raise_witness:
  "run_handler run_mgr empty_upool (cyclic_pair 1 Finish 2 Finish) =
     Inl (handler_error ''++ Exception while creating dependent Condition'')"
  by (rule cyclic_dependencies_raise) (simp_all add: empty_upool_def upool_exists_def i_findCondition_def)

theorem derivation_terminates_witness:
  "run_handler_to (\<lambda>key throw h. Inr (h, 77)) 9 run_mgr empty_upool (cyclic_pair 1 Finish 2 Finish) =
     run_handler run_mgr empty_upool (cyclic_pair 1 Finish 2 Finish)"
  using derivation_terminates [of "cyclic_pair 1 Finish 2 Finish" 9] by (simp add: depth_bound_def cyclic_pair_def)


section \<open>The interval of a derived condition\<close>

text \<open>
  The invariant: every work item owns an interval in the store, all intervals have a type, and the interval
  of an item that read from the pool lies in that of every condition it read.
\<close>

definition typed :: "CondState \<Rightarrow> bool" where
  "typed s \<longleftrightarrow> (\<forall>a v. cs_iov s a = Some v \<longrightarrow> iov_iovType v \<noteq> None)"

definition item_store_ok :: "CondState \<Rightarrow> Work \<Rightarrow> bool" where
  "item_store_ok s w \<longleftrightarrow> wk_addr w \<noteq> 0 \<and> wk_addr w < cs_next s \<and> (wk_iov w = 0 \<or> wk_iov w = wk_addr w) \<and>
     cs_iov s (wk_addr w) \<noteq> None"

definition addresses_apart :: "(u64, Work) std_map \<Rightarrow> bool" where
  "addresses_apart m \<longleftrightarrow> (\<forall>j k w x. map_of m j = Some w \<longrightarrow> map_of m k = Some x \<longrightarrow> wk_addr w = wk_addr x \<longrightarrow> j = k)"

definition read_ok :: "Handler \<Rightarrow> u64 \<Rightarrow> IOV \<Rightarrow> bool" where
  "read_ok h k v \<longleftrightarrow> (\<exists>w x. map_of (hd_todo h) k = Some w \<and> wk_iov w \<noteq> 0 \<and> cs_iov (hd_store h) (wk_addr w) = Some x \<and>
     span (iov_keyData x) \<subseteq> span (iov_keyData v))"

definition intervals_ok :: "Handler \<Rightarrow> bool" where
  "intervals_ok h \<longleftrightarrow> typed (hd_store h) \<and> hd_iovType h \<noteq> None \<and> addresses_apart (hd_todo h) \<and>
     (\<forall>k w. map_of (hd_todo h) k = Some w \<longrightarrow> item_store_ok (hd_store h) w) \<and>
     (\<forall>(k, v) \<in> set (hd_reads h). read_ok h k v)"

lemma intervals_okD:
  assumes "intervals_ok h"
  shows "typed (hd_store h)" "hd_iovType h \<noteq> None" "addresses_apart (hd_todo h)"
    "map_of (hd_todo h) k = Some w \<Longrightarrow> item_store_ok (hd_store h) w"
    "(k, v) \<in> set (hd_reads h) \<Longrightarrow> read_ok h k v"
  using assms unfolding intervals_ok_def by blast+

lemma intervals_okI:
  assumes "typed (hd_store h)" "hd_iovType h \<noteq> None" "addresses_apart (hd_todo h)"
    "\<And>k w. map_of (hd_todo h) k = Some w \<Longrightarrow> item_store_ok (hd_store h) w"
    "\<And>k v. (k, v) \<in> set (hd_reads h) \<Longrightarrow> read_ok h k v"
  shows "intervals_ok h"
  using assms unfolding intervals_ok_def by blast

text \<open>Steps that leave the intervals of the store alone or only add new ones.\<close>

definition iovs_grow :: "CondState \<Rightarrow> CondState \<Rightarrow> bool" where
  "iovs_grow s s' \<longleftrightarrow> cs_next s \<le> cs_next s' \<and> (\<forall>a < cs_next s. cs_iov s' a = cs_iov s a) \<and> (typed s \<longrightarrow> typed s')"

lemma iovs_grow_refl [simp]: "iovs_grow s s"
  by (simp add: iovs_grow_def)

lemma iovs_grow_trans: "\<lbrakk>iovs_grow s t; iovs_grow t u\<rbrakk> \<Longrightarrow> iovs_grow s u"
  by (auto simp: iovs_grow_def)

lemma iovs_grow_same: "\<lbrakk>cs_iov s' = cs_iov s; cs_next s \<le> cs_next s'\<rbrakk> \<Longrightarrow> iovs_grow s s'"
  by (simp add: iovs_grow_def typed_def)

lemma iovs_grow_registerIOV:
  assumes "registerIOV s t key = Inr (s', p)"
  shows "iovs_grow s s'"
  using assms
proof (cases rule: registerIOV_cases)
  case (created ip)
  have "iov_iovType (iov_set_key (IOV_new (Some t)) key) \<noteq> None" by (simp add: iov_set_key_def IOV_new_def IOV_with_key_def)
  then show ?thesis unfolding created(2,6) by (auto simp: iovs_grow_def raw_pool_put_def typed_def)
qed simp

lemma pool_insert_same: "pool_insert s p c = Inr (s', b) \<Longrightarrow> cs_iov s' = cs_iov s \<and> cs_next s' = cs_next s"
  by (auto simp: pool_insert_def bindE_Inr_iff pool_put_def)

lemma adopt_same: "adopt_condition s q c = Inr s' \<Longrightarrow> cs_iov s' = cs_iov s \<and> cs_next s' = cs_next s"
  by (auto simp: adopt_condition_def bindE_Inr_iff cond_put_def)

lemma iovs_grow_block:
  assumes "blockRegister s p cs = Inr (s', n)"
  shows "iovs_grow s s'"
proof -
  have "foldE (block_step p) (s, 0) cs = Inr (s', n)" using assms by (simp add: blockRegister_def)
  then have "cs_iov (fst (s', n)) = cs_iov s \<and> cs_next (fst (s', n)) = cs_next s"
  proof (rule foldE_invariant)
    fix x c y assume x: "cs_iov (fst x) = cs_iov s \<and> cs_next (fst x) = cs_next s" and st: "block_step p x c = Inr y"
    then show "cs_iov (fst y) = cs_iov s \<and> cs_next (fst y) = cs_next s"
      by (cases x) (auto simp: block_step_def bindE_Inr_iff call_listeners_same split: if_splits dest!: adopt_same pool_insert_same)
  qed simp
  then show ?thesis by (intro iovs_grow_same) simp_all
qed

lemma iovs_grow_one:
  assumes "upool_registerOne s iov c = Inr (s', b)"
  shows "iovs_grow s s'"
proof -
  obtain t s1 p where r: "registerIOV s t (iov_keyData iov) = Inr (s1, p)" "registerUnlocked s1 p c = Inr (s', b)"
    using assms by (auto simp: upool_registerOne_def bindE_Inr_iff split: option.splits if_splits)
  have "cs_iov s' = cs_iov s1 \<and> cs_next s' = cs_next s1"
    using r(2) by (auto simp: registerUnlocked_def bindE_Inr_iff call_listeners_same split: if_splits dest!: adopt_same pool_insert_same)
  then show ?thesis using iovs_grow_trans [OF iovs_grow_registerIOV [OF r(1)]] iovs_grow_same by simp
qed

lemma iovs_grow_many:
  assumes "upool_registerMany s u iov cs = Inr (s', u', n)"
  shows "iovs_grow s s'"
proof -
  obtain t s1 p m where r: "registerIOV s t (iov_keyData iov) = Inr (s1, p)" "blockRegister s1 p cs = Inr (s', m)"
    using assms by (auto simp: upool_registerMany_def bindE_Inr_iff split: option.splits if_splits)
  show ?thesis using iovs_grow_trans [OF iovs_grow_registerIOV [OF r(1)] iovs_grow_block [OF r(2)]] .
qed

lemma intervals_ok_grow:
  assumes "intervals_ok h" "iovs_grow (hd_store h) (hd_store h')" "hd_todo h' = hd_todo h" "hd_iovType h' = hd_iovType h"
    and "hd_reads h' = hd_reads h"
  shows "intervals_ok h'"
proof (rule intervals_okI)
  note d = intervals_okD [OF assms(1)]
  show "typed (hd_store h')" using d(1) assms(2) by (simp add: iovs_grow_def)
  show "hd_iovType h' \<noteq> None" "addresses_apart (hd_todo h')" using d(2,3) assms(3,4) by simp_all
  show "item_store_ok (hd_store h') w" if "map_of (hd_todo h') k = Some w" for k w
    using d(4) [of k w] that assms(2,3) by (auto simp: item_store_ok_def iovs_grow_def)
  show "read_ok h' k v" if kv: "(k, v) \<in> set (hd_reads h')" for k v
  proof -
    obtain w x where w: "map_of (hd_todo h) k = Some w" "wk_iov w \<noteq> 0" "cs_iov (hd_store h) (wk_addr w) = Some x"
      "span (iov_keyData x) \<subseteq> span (iov_keyData v)" using d(5) [of k v] kv assms(5) by (auto simp: read_ok_def)
    have "wk_addr w < cs_next (hd_store h)" using d(4) [OF w(1)] by (simp add: item_store_ok_def)
    then have "cs_iov (hd_store h') (wk_addr w) = Some x" using w(3) assms(2) by (simp add: iovs_grow_def)
    then show ?thesis using w assms(3) by (auto simp: read_ok_def)
  qed
qed

text \<open>An item takes another interval into account: its own one is bound and shrinks.\<close>

lemma intervals_ok_shrink:
  assumes "intervals_ok h" "map_of (hd_todo h) k = Some w" "iov_iovType x' \<noteq> None"
    and "\<And>x. \<lbrakk>cs_iov (hd_store h) (wk_addr w) = Some x; wk_iov w \<noteq> 0\<rbrakk> \<Longrightarrow> span (iov_keyData x') \<subseteq> span (iov_keyData x)"
    and "hd_store h' = iov_put (hd_store h) (wk_addr w) x'" "hd_todo h' = hd_todo h" "hd_iovType h' = hd_iovType h" "hd_reads h' = hd_reads h"
  shows "intervals_ok h'"
proof (rule intervals_okI)
  note d = intervals_okD [OF assms(1)] and same = assms(5-8)
  show "typed (hd_store h')" using d(1) assms(3) by (auto simp: same typed_def iov_put_def)
  show "hd_iovType h' \<noteq> None" "addresses_apart (hd_todo h')" using d(2,3) same by simp_all
  show "item_store_ok (hd_store h') y" if "map_of (hd_todo h') j = Some y" for j y
    using d(4) [of j y] that by (auto simp: same item_store_ok_def iov_put_def)
  show "read_ok h' j v" if kv: "(j, v) \<in> set (hd_reads h')" for j v
  proof -
    obtain y x where y: "map_of (hd_todo h) j = Some y" "wk_iov y \<noteq> 0" "cs_iov (hd_store h) (wk_addr y) = Some x"
      "span (iov_keyData x) \<subseteq> span (iov_keyData v)" using d(5) [of j v] kv same by (auto simp: read_ok_def)
    show ?thesis
    proof (cases "wk_addr y = wk_addr w")
      case True
      then have "j = k" using d(3) y(1) assms(2) unfolding addresses_apart_def by blast
      then have "y = w" using y(1) assms(2) by simp
      then have "span (iov_keyData x') \<subseteq> span (iov_keyData v)" using assms(4) y by blast
      then show ?thesis using y \<open>y = w\<close> same by (auto simp: read_ok_def iov_put_def)
    next
      case False
      then show ?thesis using y same by (auto simp: read_ok_def iov_put_def)
    qed
  qed
qed

text \<open>Replacing a work item by one with the same address and interval pointer, or binding its interval.\<close>

lemma intervals_ok_put:
  assumes "intervals_ok h" "map_of (hd_todo h) k = Some w" "wk_addr w' = wk_addr w" "wk_iov w' = wk_iov w \<or> wk_iov w' = wk_addr w"
    and "hd_todo h' = map_assign k w' (hd_todo h)" "hd_store h' = hd_store h" "hd_iovType h' = hd_iovType h" "hd_reads h' = hd_reads h"
  shows "intervals_ok h'"
proof (rule intervals_okI)
  note d = intervals_okD [OF assms(1)] and same = assms(5-8)
  have w: "item_store_ok (hd_store h) w" by (rule d(4) [OF assms(2)])
  show "typed (hd_store h')" "hd_iovType h' \<noteq> None" using d(1,2) same by simp_all
  show "addresses_apart (hd_todo h')" using d(3) assms(2,3) unfolding addresses_apart_def by (auto simp: same)
  show "item_store_ok (hd_store h') y" if "map_of (hd_todo h') j = Some y" for j y
    using d(4) [of j y] w that assms(3,4) by (auto simp: same item_store_ok_def split: if_splits)
  show "read_ok h' j v" if kv: "(j, v) \<in> set (hd_reads h')" for j v
  proof -
    obtain y x where y: "map_of (hd_todo h) j = Some y" "wk_iov y \<noteq> 0" "cs_iov (hd_store h) (wk_addr y) = Some x"
      "span (iov_keyData x) \<subseteq> span (iov_keyData v)" using d(5) [of j v] kv same by (auto simp: read_ok_def)
    show ?thesis
    proof (cases "j = k")
      case True
      then have "y = w" using y(1) assms(2) by simp
      then show ?thesis using True y assms(3,4) w same by (auto simp: read_ok_def item_store_ok_def)
    qed (use y same in \<open>auto simp: read_ok_def\<close>)
  qed
qed

lemma intersection_typed:
  assumes "iov_iovType x \<noteq> None"
  shows "iov_iovType (iov_intersection x v) \<noteq> None \<and>
    span (iov_keyData (iov_intersection x v)) = span (iov_keyData x) \<inter> span (iov_keyData v)"
  using assms iov_intersection_typed [of x v] by (auto simp: span_intersection)

lemma intervals_ok_intersection:
  assumes "intervals_ok h" "do_intersection h k a = Inr h'"
  shows "intervals_ok h' \<and> (\<forall>v. a \<noteq> 0 \<longrightarrow> cs_iov (hd_store h) a = Some v \<longrightarrow> read_ok h' k v)"
proof -
  note d = intervals_okD [OF assms(1)]
  obtain w where w: "map_of (hd_todo h) k = Some w" using assms(2) by (auto simp: do_intersection_def bindE_Inr_iff work_at_Inr)
  have io: "item_store_ok (hd_store h) w" by (rule d(4) [OF w])
  show ?thesis
  proof (cases "a = 0")
    case True
    then show ?thesis using assms w by (simp add: do_intersection_def work_at_def)
  next
    case False
    then obtain v where v: "cs_iov (hd_store h) a = Some v"
      using assms(2) w by (auto simp: do_intersection_def bindE_Inr_iff work_at_Inr iov_get_def split: option.splits)
    have tv: "iov_iovType v \<noteq> None" using d(1) v by (auto simp: typed_def)
    show ?thesis
    proof (cases "wk_iov w = 0")
      case True
      let ?h1 = "h\<lparr>hd_store := iov_put (hd_store h) (wk_addr w) v\<rparr>"
      have h': "h' = work_put ?h1 k (w\<lparr>wk_iov := wk_addr w\<rparr>)"
        using assms(2) w v True False by (simp add: do_intersection_def work_at_def iov_get_def)
      have "intervals_ok ?h1" by (rule intervals_ok_shrink [OF assms(1) w tv]) (use True in simp_all)
      then have "intervals_ok h'" by (rule intervals_ok_put [where k = k and w = w and w' = "w\<lparr>wk_iov := wk_addr w\<rparr>"]) (simp_all add: h' work_put_def w)
      moreover have "read_ok h' k v" using io by (simp add: read_ok_def h' work_put_def iov_put_def item_store_ok_def)
      ultimately show ?thesis using v by simp
    next
      case False
      then obtain x where x: "cs_iov (hd_store h) (wk_addr w) = Some x"
        and h': "h' = h\<lparr>hd_store := iov_put (hd_store h) (wk_addr w) (iov_intersection x v)\<rparr>"
        using assms(2) w v \<open>a \<noteq> 0\<close> by (auto simp: do_intersection_def work_at_def iov_get_def bindE_Inr_iff split: option.splits if_splits)
      have tx: "iov_iovType x \<noteq> None" using d(1) x by (auto simp: typed_def)
      note i = intersection_typed [OF tx, of v]
      have "intervals_ok h'" by (rule intervals_ok_shrink [OF assms(1) w]) (use i x in \<open>simp_all add: h'\<close>)
      moreover have "read_ok h' k v" using w False i by (simp add: read_ok_def h' iov_put_def)
      ultimately show ?thesis using v by simp
    qed
  qed
qed


lemma intervals_ok_context:
  assumes "intervals_ok h" "context_intersection own c h = Inr h'"
  shows "intervals_ok h'"
proof -
  obtain w v x where w: "map_of (hd_todo h) own = Some w" and x: "cs_iov (hd_store h) (wk_addr w) = Some x"
    and h': "h' = h\<lparr>hd_store := iov_put (hd_store h) (wk_addr w) (iov_intersection x v)\<rparr>"
    using assms(2) by (auto simp: context_intersection_def bindE_Inr_iff work_at_Inr iov_get_def split: if_splits option.splits)
  have tx: "iov_iovType x \<noteq> None" using intervals_okD(1) [OF assms(1)] x by (auto simp: typed_def)
  note i = intersection_typed [OF tx, of v]
  show ?thesis by (rule intervals_ok_shrink [OF assms(1) w]) (use i x in \<open>simp_all add: h'\<close>)
qed

lemma intervals_ok_current:
  assumes "intervals_ok h" "current_intersection h c = Inr h'"
  shows "intervals_ok h'"
proof -
  obtain ob :: ConditionObject and k h1 where k: "do_intersection h k (co_iov ob) = Inr h1"
    and h': "h' = (case cs_iov (hd_store h) (co_iov ob) of Some v \<Rightarrow> if co_iov ob = 0 then h1 else h1\<lparr>hd_reads := (k, v) # hd_reads h1\<rparr>
          | None \<Rightarrow> h1)"
    using assms(2) by (auto simp: current_intersection_def bindE_Inr_iff)
  note i = intervals_ok_intersection [OF assms(1) k]
  have "intervals_ok (h1\<lparr>hd_reads := (k, v) # hd_reads h1\<rparr>)" if "read_ok h1 k v" for v
  proof (rule intervals_okI)
    note d = intervals_okD [OF conjunct1 [OF i]]
    show "typed (hd_store (h1\<lparr>hd_reads := (k, v) # hd_reads h1\<rparr>))" "hd_iovType (h1\<lparr>hd_reads := (k, v) # hd_reads h1\<rparr>) \<noteq> None"
      "addresses_apart (hd_todo (h1\<lparr>hd_reads := (k, v) # hd_reads h1\<rparr>))" using d(1-3) by simp_all
    show "item_store_ok (hd_store (h1\<lparr>hd_reads := (k, v) # hd_reads h1\<rparr>)) y"
      if "map_of (hd_todo (h1\<lparr>hd_reads := (k, v) # hd_reads h1\<rparr>)) j = Some y" for j y
      using d(4) [of j y] that by simp
    show "read_ok (h1\<lparr>hd_reads := (k, v) # hd_reads h1\<rparr>) j x"
      if "(j, x) \<in> set (hd_reads (h1\<lparr>hd_reads := (k, v) # hd_reads h1\<rparr>))" for j x
      using that d(5) [of j x] \<open>read_ok h1 k v\<close> by (auto simp: read_ok_def)
  qed
  then show ?thesis using i by (auto simp: h' split: option.splits)
qed

lemma intervals_ok_finish:
  assumes "intervals_ok h" "finish_callback key prev c h = Inr h'"
  shows "intervals_ok h'"
proof -
  obtain w where w: "map_of (hd_todo h) key = Some w" and c: "c \<noteq> 0"
    using assms(2) by (rule finish_callback_view) blast
  let ?w1 = "w\<lparr>wk_condition := c, wk_callstack := wk_callstack w - 1\<rparr>"
  let ?iov = "if wk_iov w = 0 then wk_addr w else wk_iov w"
  let ?h1 = "(work_put h key ?w1)\<lparr>hd_current := prev\<rparr>"
  let ?g = "?h1\<lparr>hd_store := iov_put (hd_store ?h1) ?iov (IOV_with_key (hd_iovType h) key_forever)\<rparr>"
  let ?h2 = "if wk_iov w = 0 then work_put ?g key (?w1\<lparr>wk_iov := ?iov\<rparr>) else ?h1"
  obtain h3 ob w3 where h3: "(case prev of Some p \<Rightarrow> do_intersection ?h2 p ?iov | None \<Rightarrow> Inr ?h2) = Inr h3"
    and w3: "map_of (hd_todo h3) key = Some w3"
    and h': "h' = work_put (h3\<lparr>hd_store := cond_put (hd_store h3) c (ob\<lparr>co_iov := ?iov,
                      co_hash := cd_target (wk_dependency w), co_flags := co_flags ob OR cond_DERIVED\<rparr>),
                    hd_calls := hd_calls h3 + 1\<rparr>) key (w3\<lparr>wk_state := CREATED\<rparr>)"
    using assms(2) c w by (fastforce simp: finish_callback_def bindE_Inr_iff work_at_Inr Let_def)
  have 1: "intervals_ok ?h1" by (rule intervals_ok_put [OF assms(1) w, where w' = ?w1]) (simp_all add: work_put_def)
  have 2: "intervals_ok ?h2"
  proof (cases "wk_iov w = 0")
    case True
    have w1: "map_of (hd_todo ?h1) key = Some ?w1" by (simp add: work_put_def)
    have "intervals_ok ?g"
      by (rule intervals_ok_shrink [OF 1 w1, where x' = "IOV_with_key (hd_iovType h) key_forever"])
        (use True intervals_okD(2) [OF assms(1)] in \<open>simp_all add: IOV_with_key_def\<close>)
    then have "intervals_ok (work_put ?g key (?w1\<lparr>wk_iov := ?iov\<rparr>))"
      by (rule intervals_ok_put [where k = key and w = ?w1 and w' = "?w1\<lparr>wk_iov := ?iov\<rparr>"])
        (use True in \<open>simp_all add: work_put_def\<close>)
    then show ?thesis using True by simp
  qed (simp add: 1)
  have 3: "intervals_ok h3"
  proof (cases prev)
    case (Some p)
    then have "do_intersection ?h2 p ?iov = Inr h3" using h3 by simp
    then show ?thesis using intervals_ok_intersection [OF 2] by blast
  qed (use h3 2 in simp)
  let ?h4 = "h3\<lparr>hd_store := cond_put (hd_store h3) c (ob\<lparr>co_iov := ?iov,
                      co_hash := cd_target (wk_dependency w), co_flags := co_flags ob OR cond_DERIVED\<rparr>),
                    hd_calls := hd_calls h3 + 1\<rparr>"
  have "intervals_ok ?h4" by (rule intervals_ok_grow [OF 3]) (simp_all add: cond_put_def iovs_grow_same)
  then show ?thesis unfolding h'
    by (rule intervals_ok_put [where k = key and w = w3 and w' = "w3\<lparr>wk_state := CREATED\<rparr>"]) (simp_all add: work_put_def w3)
qed

lemma intervals_ok_enter:
  assumes "intervals_ok h" "map_of (hd_todo h) key = Some w"
  shows "intervals_ok (enter_callback key w h)" "intervals_ok (enter_resolve key w h)"
proof -
  show "intervals_ok (enter_callback key w h)"
    by (rule intervals_ok_put [OF assms, where w' = "w\<lparr>wk_callstack := wk_callstack w + 1\<rparr>"]) (simp_all add: enter_callback_def work_put_def)
  show "intervals_ok (enter_resolve key w h)"
    by (rule intervals_ok_put [OF assms, where w' = "w\<lparr>wk_state := RESOLVED\<rparr>"]) (simp_all add: enter_resolve_def work_put_def)
qed

lemma intervals_ok_fields:
  "intervals_ok (h\<lparr>hd_current := cur\<rparr>) = intervals_ok h" "intervals_ok (h\<lparr>hd_state := st\<rparr>) = intervals_ok h" "intervals_ok (h\<lparr>hd_state := st, hd_current := cur\<rparr>) = intervals_ok h"
  by (simp_all add: intervals_ok_def read_ok_def)

interpretation iv: handler_relation "\<lambda>h. items_ok (view h) \<and> intervals_ok h"
  "\<lambda>h h'. progress (view h) (view h') \<and> intervals_ok h'" "\<lambda>h. entries_left (view h)"
proof
  fix h h1 h2 :: Handler and key w
  show "progress (view h) (view h2) \<and> intervals_ok h2"
    if "progress (view h) (view h1) \<and> intervals_ok h1" "progress (view h1) (view h2) \<and> intervals_ok h2"
    using that depth.R_trans by blast
  assume ok: "items_ok (view h) \<and> intervals_ok h"
  show "progress (view h) (view h) \<and> intervals_ok h" using ok depth.R_refl by blast
  show "items_ok (view h1) \<and> intervals_ok h1" if "progress (view h) (view h1) \<and> intervals_ok h1" using that ok depth.R_ok by blast
  show "entries_left (view h1) \<le> entries_left (view h)" if "progress (view h) (view h1) \<and> intervals_ok h1" using that ok depth.R_pot by blast
  show "progress (view h) (view h1) \<and> intervals_ok h1" if "current_intersection h c = Inr h1" for c
    using that ok depth.R_current intervals_ok_current by blast
  show "progress (view h) (view h1) \<and> intervals_ok h1" if "context_intersection own c h = Inr h1" for own c
    using that ok depth.R_context intervals_ok_context by blast
  show "progress (view h) (view h1) \<and> intervals_ok h1" if "handler_registerOne h iov c = Inr (h1, b)" for iov c b
    using that ok depth.R_one [OF _ that] by (auto simp: handler_registerOne_def bindE_Inr_iff dest!: iovs_grow_one intro: intervals_ok_grow)
  show "progress (view h) (view h1) \<and> intervals_ok h1" if "handler_registerMany h iov cs = Inr (h1, n)" for iov cs n
    using that ok depth.R_many [OF _ that] by (auto simp: handler_registerMany_def bindE_Inr_iff dest!: iovs_grow_many intro: intervals_ok_grow)
  show "progress (view h) (view (h\<lparr>hd_store := fst (Condition_object (hd_store h) val 0)\<rparr>)) \<and>
      intervals_ok (h\<lparr>hd_store := fst (Condition_object (hd_store h) val 0)\<rparr>)" for val
    using ok depth.R_new by (auto simp: Condition_object_def Let_def intro!: intervals_ok_grow [of h] iovs_grow_same)
  show "progress (view h) (view (h\<lparr>hd_store := cond_put (hd_store h) c (ob\<lparr>co_value := val\<rparr>)\<rparr>)) \<and>
      intervals_ok (h\<lparr>hd_store := cond_put (hd_store h) c (ob\<lparr>co_value := val\<rparr>)\<rparr>)"
    if "cond_access (hd_store h) c = Inr ob" for c ob val
    using ok depth.R_write [OF _ that] by (auto simp: cond_put_def intro!: intervals_ok_grow [of h] iovs_grow_same)
  show "progress (view h) (view (h\<lparr>hd_state := st, hd_current := cur\<rparr>)) \<and> intervals_ok (h\<lparr>hd_state := st, hd_current := cur\<rparr>)" for st cur
    using ok depth.R_phase by (auto simp: intervals_ok_fields)
  show "fst ` set (hd_todo h1) = fst ` set (hd_todo h)" if "progress (view h) (view h1) \<and> intervals_ok h1"
    using that ok depth.R_keys by blast
  show "wk_state w = CREATED \<and> wk_callstack w = 0"
    if "finish_callback key prev c h1 = Inr h" "map_of (hd_todo h) key = Some w" for prev c
    using depth.callback_ends that ok by blast
  assume w: "map_of (hd_todo h) key = Some w"
  show "0 \<le> wk_callstack w" using depth.callstack_nonneg ok w by blast
  show "wk_state w = INVALID" if "wk_condition w = 0" using depth.no_condition ok w that by blast
  show "wk_state w \<noteq> INVALID" if "wk_condition w \<noteq> 0" using depth.condition_made ok w that by blast
  show "\<exists>w'. map_of (hd_todo h1) key = Some w' \<and> wk_state w' \<noteq> INVALID"
    if "progress (view h) (view h1) \<and> intervals_ok h1" "wk_state w \<noteq> INVALID"
    using depth.R_made [OF _ _ w] that ok by blast
  show "(items_ok (view (enter_callback key w h)) \<and> intervals_ok (enter_callback key w h)) \<and>
      entries_left (view (enter_callback key w h)) \<le> entries_left (view h)" if "wk_state w = INVALID" "wk_callstack w = 0"
    using depth.enter_callback_ok [OF _ w that] intervals_ok_enter(1) [OF _ w] ok by blast
  show "(items_ok (view (enter_resolve key w h)) \<and> intervals_ok (enter_resolve key w h)) \<and>
      entries_left (view (enter_resolve key w h)) \<le> entries_left (view h)" if "wk_state w = CREATED"
    using depth.enter_resolve_ok [OF _ w that] intervals_ok_enter(2) [OF _ w] ok by blast
  show "progress (view h) (view h2) \<and> intervals_ok h2"
    if "wk_state w = INVALID" "wk_callstack w = 0" "progress (view (enter_callback key w h)) (view h1) \<and> intervals_ok h1"
      "finish_callback key (hd_current h) c h1 = Inr h2" for c
    using depth.R_callback [OF _ w that(1,2) _ that(4)] intervals_ok_finish [OF _ that(4)] that(3) ok by blast
  show "progress (view h) (view (h2\<lparr>hd_current := Some p\<rparr>)) \<and> intervals_ok (h2\<lparr>hd_current := Some p\<rparr>)"
    if "wk_state w = CREATED" "progress (view (enter_resolve key w h)) (view h1) \<and> intervals_ok h1"
      "map_of (hd_todo h1) key = Some w1" "do_intersection h1 p (wk_iov w1) = Inr h2" for w1 p
    using depth.R_resolve [OF _ w that(1) _ that(3,4)] intervals_ok_intersection [OF _ that(4)] that(2) ok
    by (simp add: intervals_ok_fields)
qed


lemma intervals_ok_add_work:
  assumes "intervals_ok h" "hd_reads h = []" "0 < cs_next (hd_store h)" "iov_iovType (up_iov (hd_pool h)) \<noteq> None"
  shows "intervals_ok (add_work h d)"
proof (rule intervals_okI)
  note i = intervals_okD [OF assms(1)]
  let ?a = "cs_next (hd_store h)" and ?h = "add_work h d"
  let ?w = "\<lparr>wk_addr = ?a, wk_dependency = snd d, wk_iov = 0, wk_condition = 0, wk_callstack = 0, wk_state = INVALID\<rparr>"
  have st: "cs_iov (hd_store ?h) = (cs_iov (hd_store h))(?a \<mapsto> up_iov (hd_pool h))" "cs_next (hd_store ?h) = Suc ?a"
    by (simp_all add: add_work_def Let_def iov_put_def)
  have td: "map_of (hd_todo ?h) k = (if k = fst d then Some (case map_of (hd_todo h) k of Some w \<Rightarrow> w | None \<Rightarrow> ?w) else map_of (hd_todo h) k)" for k
    by (auto simp: add_work_def Let_def map_of_emplace)
  show "typed (hd_store ?h)" using i(1) assms(4) by (auto simp: typed_def st)
  show "hd_iovType ?h \<noteq> None" using i(2) by (simp add: add_work_def Let_def)
  have lt: "map_of (hd_todo h) k = Some w \<Longrightarrow> wk_addr w < ?a" for k w using i(4) [of k w] by (simp add: item_store_ok_def)
  show "addresses_apart (hd_todo ?h)"
    using i(3) lt unfolding addresses_apart_def td by (fastforce split: option.splits if_splits)
  show "item_store_ok (hd_store ?h) w" if "map_of (hd_todo ?h) k = Some w" for k w
    using i(4) [of k w] that assms(3) unfolding td by (auto simp: item_store_ok_def st split: if_splits option.splits)
  show "read_ok ?h k v" if "(k, v) \<in> set (hd_reads ?h)" for k v
    using that assms(2) by (simp add: add_work_def Let_def)
qed

lemma intervals_ok_new:
  assumes "typed s" "0 < cs_next s" "iov_iovType (up_iov u) \<noteq> None"
  shows "intervals_ok (Handler_new s u deps)"
proof -
  let ?h = "Handler_new s u deps"
  have "intervals_ok ?h \<and> hd_reads ?h = [] \<and> 0 < cs_next (hd_store ?h) \<and> hd_pool ?h = u"
  proof (induction deps rule: rev_induct)
    case Nil
    show ?case using assms by (simp add: Handler_new_def intervals_ok_def addresses_apart_def)
  next
    case (snoc d deps)
    have eq: "Handler_new s u (deps @ [d]) = add_work (Handler_new s u deps) d" by (simp add: Handler_new_def)
    have "hd_reads (add_work h d) = hd_reads h" "cs_next (hd_store (add_work h d)) = Suc (cs_next (hd_store h))"
      "hd_pool (add_work h d) = hd_pool h" for h by (simp_all add: add_work_def Let_def iov_put_def)
    then show ?case using snoc intervals_ok_add_work [of "Handler_new s u deps" d] assms(3) by (simp add: eq)
  qed
  then show ?thesis by blast
qed

lemma section_keeps:
  "\<lbrakk>foldE (section_step h) pools keys = Inr secs; map_of pools k = Some cs\<rbrakk> \<Longrightarrow> \<exists>ds. map_of secs k = Some (cs @ ds)"
proof (induction keys arbitrary: pools cs)
  case (Cons key keys)
  then obtain p1 where p1: "section_step h pools key = Inr p1" "foldE (section_step h) p1 keys = Inr secs" by (auto simp: bindE_Inr_iff)
  have "\<exists>ds. map_of p1 k = Some (cs @ ds)"
    using p1(1) Cons.prems(2) by (auto simp: section_step_def bindE_Inr_iff split: if_splits)
  then obtain ds where "map_of p1 k = Some (cs @ ds)" by blast
  then show ?case using Cons.IH [OF p1(2)] by fastforce
qed auto

lemma section_has:
  "\<lbrakk>foldE (section_step h) pools keys = Inr secs; key \<in> set keys; map_of (hd_todo h) key = Some w; work_interval h w = Inr k\<rbrakk> \<Longrightarrow>
    \<exists>cs. map_of secs k = Some cs \<and> wk_condition w \<in> set cs"
proof (induction keys arbitrary: pools)
  case (Cons j keys)
  then obtain p1 where p1: "section_step h pools j = Inr p1" "foldE (section_step h) p1 keys = Inr secs" by (auto simp: bindE_Inr_iff)
  show ?case
  proof (cases "j = key")
    case True
    then have "\<exists>cs. map_of p1 k = Some (cs @ [wk_condition w])" using p1(1) Cons.prems(3,4) by (auto simp: section_step_def work_at_def)
    then show ?thesis using section_keeps [OF p1(2)] by fastforce
  next
    case False
    then show ?thesis using Cons.IH [OF p1(2)] Cons.prems by simp
  qed
qed simp

lemma section_interval:
  "\<lbrakk>foldE (section_step h) pools keys = Inr secs; key \<in> set keys\<rbrakk> \<Longrightarrow> \<exists>w k. work_at h key = Inr w \<and> work_interval h w = Inr k"
proof (induction keys arbitrary: pools)
  case (Cons j keys)
  then show ?case by (auto simp: bindE_Inr_iff section_step_def)
qed simp

lemma intervals_ok_passes:
  assumes "typed s" "0 < cs_next s" "iov_iovType (up_iov u) \<noteq> None"
    and "handler_compute stack_overflow n (Handler_new s u deps) = Inr h1" "resolve_all stack_overflow n h1 = Inr (h2, pools)"
  shows "intervals_ok h2"
proof -
  let ?start = "(Handler_new s u deps)\<lparr>hd_state := CREATED\<rparr>" and ?second = "h1\<lparr>hd_state := RESOLVED\<rparr>"
  have iok: "intervals_ok (Handler_new s u deps)" by (rule intervals_ok_new [OF assms(1-3)])
  have ok0: "items_ok (view ?start) \<and> intervals_ok ?start"
    using untouched_new untouched_ok iok by (simp add: intervals_ok_fields)
  note c = iv.R_compute [OF assms(4) [unfolded handler_compute_def] ok0 iv.good_overflow order_refl]
  then have ok1: "items_ok (view ?second) \<and> intervals_ok ?second" using iv.R_ok [OF ok0] by (simp add: intervals_ok_fields)
  have keys: "fst ` set (hd_todo h1) = fst ` set (hd_todo ?start)" using iv.R_keys [OF ok0] c by blast
  have "\<forall>key \<in> set (List.map fst (hd_todo h1)). iv.made ?second key"
    using c keys by (simp add: iv.made_def)
  then have "progress (view ?second) (view h2) \<and> intervals_ok h2"
    by (rule iv.R_resolve_all [OF assms(5) [unfolded resolve_all_def] ok1 _ iv.good_overflow order_refl])
  then show ?thesis by blast
qed

subsection \<open>The two passes and the registration\<close>

lemma derived_new:
  assumes "conds_fresh s"
  shows "derived_ok ((Handler_new s u deps)\<lparr>hd_state := st\<rparr>)" and "hd_iovType (Handler_new s u deps) = iov_iovType (up_iov u)"
proof -
  have add: "hd_created (add_work h d) = hd_created h" "cs_cond (hd_store (add_work h d)) = cs_cond (hd_store h)"
    "cs_pool (hd_store (add_work h d)) = cs_pool (hd_store h)" "cs_next (hd_store h) \<le> cs_next (hd_store (add_work h d))"
    "hd_iovType (add_work h d) = hd_iovType h" for h d
    by (simp_all add: add_work_def Let_def iov_put_def)
  have step: "conds_fresh (hd_store h) \<Longrightarrow> conds_fresh (hd_store (add_work h d))" for h d
    unfolding conds_fresh_def add(2,3) using add(4) order_trans by blast
  have "hd_created (foldl add_work h deps) = hd_created h \<and> hd_iovType (foldl add_work h deps) = hd_iovType h \<and>
      (conds_fresh (hd_store h) \<longrightarrow> conds_fresh (hd_store (foldl add_work h deps)))" for h
    by (induction deps arbitrary: h) (simp_all add: add step)
  then have h: "hd_created (Handler_new s u deps) = []" "conds_fresh (hd_store (Handler_new s u deps))"
    and t: "hd_iovType (Handler_new s u deps) = iov_iovType (up_iov u)" using assms by (simp_all add: Handler_new_def)
  have "untouched (view (Handler_new s u deps))" using untouched_new by blast
  then show "derived_ok ((Handler_new s u deps)\<lparr>hd_state := st\<rparr>)"
    using h unfolding derived_ok_def hashes_ok_def untouched_def by (auto simp: entered_def split: option.split)
  show "hd_iovType (Handler_new s u deps) = iov_iovType (up_iov u)" by (rule t)
qed

lemma passes_end:
  assumes "conds_fresh s" "handler_compute stack_overflow n (Handler_new s u deps) = Inr h1" "handler_resolve stack_overflow n h1 = Inr h"
  obtains h2 pools sections where "resolve_all stack_overflow n h1 = Inr (h2, pools)"
    "foldE (section_step h2) pools (List.map fst (hd_todo h2)) = Inr sections" "foldE register_step h2 sections = Inr h"
    "derived_ok h2" "items_ok (view h2)" "dom (view h2) = fst ` set deps" "\<forall>k \<in> fst ` set deps. kept.made h2 k"
    "same_deps (Handler_new s u deps) h2"
proof -
  let ?start = "(Handler_new s u deps)\<lparr>hd_state := CREATED\<rparr>" and ?second = "h1\<lparr>hd_state := RESOLVED\<rparr>"
  obtain h2 pools sections where r: "resolve_all stack_overflow n h1 = Inr (h2, pools)"
    "foldE (section_step h2) pools (List.map fst (hd_todo h2)) = Inr sections" "foldE register_step h2 sections = Inr h"
    using assms(3) by (auto simp: handler_resolve_def register_all_def bindE_Inr_iff)
  have un: "untouched (view ?start)" "dom (view ?start) = fst ` set deps" using untouched_new by simp_all
  have ok0: "items_ok (view ?start) \<and> derived_ok ?start"
    using untouched_ok [OF un(1)] derived_new(1) [OF assms(1)] by blast
  note c = kept.R_compute [OF assms(2) [unfolded handler_compute_def] ok0 kept.good_overflow order_refl]
  then have ok1: "items_ok (view ?second) \<and> derived_ok ?second" by (simp add: progress_def derived_ok_def)
  have keys: "fst ` set (hd_todo h1) = fst ` set (hd_todo ?start)" using kept.R_keys [OF ok0] c by blast
  have made: "\<forall>key \<in> set (List.map fst (hd_todo h1)). kept.made ?second key" using c keys by (simp add: kept.made_def)
  note s2 = kept.R_resolve_all [OF r(1) [unfolded resolve_all_def] ok1 made kept.good_overflow order_refl]
  have d1: "dom (view h1) = fst ` set deps" using progress_dom c un(2) by blast
  then have d2: "dom (view h2) = fst ` set deps" using progress_dom [OF conjunct1 [OF s2]] by simp
  have m2: "\<forall>k \<in> fst ` set deps. kept.made h2 k" using made kept.made_R [OF _ ok1 s2] d1 unfolding view_dom set_map by blast
  have "same_deps ?start h1" "same_deps ?second h2" using c s2 by blast+
  then have "same_deps (Handler_new s u deps) h2" by (simp add: same_deps_def)
  have ok2: "derived_ok h2" "items_ok (view h2)" using s2 by (simp_all add: progress_def)
  show thesis by (rule that [OF r ok2 d2 m2]) (fact)
qed

text \<open>
  What a successful derivation leaves: every creation callback was entered exactly once; the condition of every
  dependency is in the pool that the manager keeps for the interval of its work item, and the user pool finds its
  key. Unless two dependencies share a condition, its key is the one the dependency names.
\<close>

lemma register_step_types:
  "\<lbrakk>foldE register_step h secs = Inr h'; secs \<noteq> []\<rbrakk> \<Longrightarrow> hd_iovType h \<noteq> None"
  by (cases secs) (auto simp: register_step_def handler_registerMany_def upool_registerMany_def bindE_Inr_iff IOV_with_key_def
      split: option.splits)

lemma registered_at_end:
  assumes "foldE (section_step h2) pools (List.map fst (hd_todo h2)) = Inr sections" "foldE register_step h2 sections = Inr h"
    and "conds_fresh (hd_store h2)" "map_of (hd_todo h2) k = Some w"
  shows "\<exists>t key. hd_iovType h2 = Some t \<and> work_interval h2 w = Inr key \<and>
    holds_condition (hd_store h) (unat (iovt_type t)) key (wk_condition w) \<and>
    map_of (up_conditions (hd_pool h)) (hash_in (hd_store h) (wk_condition w)) \<noteq> None"
proof -
  have k: "k \<in> set (List.map fst (hd_todo h2))" using map_of_SomeD [OF assms(4)] by force
  obtain key where key: "work_interval h2 w = Inr key"
    using section_interval [OF assms(1) k] assms(4) by (auto simp: work_at_def)
  obtain cs where cs: "map_of sections key = Some cs" "wk_condition w \<in> set cs" using section_has [OF assms(1) k assms(4) key] by blast
  have sec: "(key, cs) \<in> set sections" by (rule map_of_SomeD [OF cs(1)])
  then obtain t where t: "hd_iovType h2 = Some t" using register_step_types [OF assms(2)] by fastforce
  note r = register_sections [OF assms(2,3) t]
  have mem: "wk_condition w \<in> set (concat (List.map snd sections))" using sec cs(2) by force
  then have "live_in (hd_store h2) (wk_condition w)" using r by blast
  then have same: "hash_in (hd_store h) (wk_condition w) = hash_in (hd_store h2) (wk_condition w)" using live_grow r by blast
  have "find (\<lambda>c. hash_in (hd_store h2) c = hash_in (hd_store h2) (wk_condition w)) (concat (List.map snd sections)) \<noteq> None"
    using mem unfolding find_None_iff by blast
  then have "map_of (up_conditions (hd_pool h)) (hash_in (hd_store h) (wk_condition w)) \<noteq> None"
    using r same by (simp split: option.split)
  moreover have "holds_condition (hd_store h) (unat (iovt_type t)) key (wk_condition w)" using r sec cs(2) by fastforce
  ultimately show ?thesis using t key by blast
qed

lemma registered_fields:
  assumes "foldE register_step h2 sections = Inr h"
  shows "hd_todo h = hd_todo h2 \<and> hd_created h = hd_created h2 \<and> hd_reads h = hd_reads h2 \<and> hd_iovType h = hd_iovType h2 \<and>
    iovs_grow (hd_store h2) (hd_store h)"
  using assms
  by (rule foldE_invariant [where P = "\<lambda>x. hd_todo x = hd_todo h2 \<and> hd_created x = hd_created h2 \<and> hd_reads x = hd_reads h2 \<and>
      hd_iovType x = hd_iovType h2 \<and> iovs_grow (hd_store h2) (hd_store x)"])
    (auto simp: register_step_def handler_registerMany_def bindE_Inr_iff dest!: iovs_grow_many intro: iovs_grow_trans)

lemma dependencies_new: "map_option wk_dependency (view (Handler_new s u deps) k) = map_of deps k"
proof (induction deps rule: rev_induct)
  case (snoc d deps)
  have eq: "Handler_new s u (deps @ [d]) = add_work (Handler_new s u deps) d" by (simp add: Handler_new_def)
  show ?case unfolding eq view_add_work using snoc by (cases d) (auto simp: map_add_def split: option.splits)
qed (simp add: Handler_new_def view_def)

lemma derivation_result:
  assumes "conds_fresh s" "handler_compute stack_overflow n (Handler_new s u deps) = Inr h1" "handler_resolve stack_overflow n h1 = Inr h"
    and "derived = (\<lambda>k. wk_condition (the (map_of (hd_todo h) k)))"
  shows "\<forall>k. count_list (hd_created h) k = (if k \<in> fst ` set deps then 1 else 0)"
    and "\<forall>k \<in> fst ` set deps. derived k \<noteq> 0 \<and> (\<exists>t key. iov_iovType (up_iov u) = Some t \<and>
       holds_condition (hd_store h) (unat (iovt_type t)) key (derived k)) \<and>
       map_of (up_conditions (hd_pool h)) (hash_in (hd_store h) (derived k)) \<noteq> None"
    and "\<lbrakk>inj_on derived (fst ` set deps); \<forall>(k, d) \<in> set deps. cd_target d = k\<rbrakk> \<Longrightarrow>
      \<forall>k \<in> fst ` set deps. hash_in (hd_store h) (derived k) = k"
proof -
  obtain h2 pools sections where r: "foldE (section_step h2) pools (List.map fst (hd_todo h2)) = Inr sections"
    "foldE register_step h2 sections = Inr h" and ok2: "derived_ok h2" "items_ok (view h2)"
    and keys: "dom (view h2) = fst ` set deps" and made: "\<forall>k \<in> fst ` set deps. kept.made h2 k"
    and deps: "same_deps (Handler_new s u deps) h2"
    by (rule passes_end [OF assms(1-3)]) blast
  note f = registered_fields [OF r(2)]
  have fresh: "conds_fresh (hd_store h2)" and count: "count_list (hd_created h2) k = entered (view h2 k)" for k
    using ok2(1) by (simp_all add: derived_ok_def)
  have item: "\<exists>w. map_of (hd_todo h2) k = Some w \<and> view h2 k = Some (strip w) \<and> wk_condition w \<noteq> 0 \<and> derived k = wk_condition w \<and>
      wk_state w \<noteq> INVALID" if k: "k \<in> fst ` set deps" for k
  proof -
    obtain w where w: "map_of (hd_todo h2) k = Some w" "wk_state w \<noteq> INVALID" using made k by (auto simp: kept.made_def)
    then show ?thesis using items_okD(3) [OF ok2(2) view_item [OF w(1)]] f by (simp add: assms(4) view_item)
  qed
  show "\<forall>k. count_list (hd_created h) k = (if k \<in> fst ` set deps then 1 else 0)"
  proof
    fix k
    show "count_list (hd_created h) k = (if k \<in> fst ` set deps then 1 else 0)"
    proof (cases "k \<in> fst ` set deps")
      case True
      then show ?thesis using item [OF True] f count by (auto simp: entered_def)
    next
      case False
      then have "view h2 k = None" using keys by blast
      then show ?thesis using False f count by (simp add: entered_def)
    qed
  qed
  show "\<forall>k \<in> fst ` set deps. derived k \<noteq> 0 \<and> (\<exists>t key. iov_iovType (up_iov u) = Some t \<and>
       holds_condition (hd_store h) (unat (iovt_type t)) key (derived k)) \<and>
       map_of (up_conditions (hd_pool h)) (hash_in (hd_store h) (derived k)) \<noteq> None"
  proof
    fix k assume k: "k \<in> fst ` set deps"
    obtain w where w: "map_of (hd_todo h2) k = Some w" "wk_condition w \<noteq> 0" "derived k = wk_condition w" using item [OF k] by blast
    have "hd_iovType h2 = iov_iovType (up_iov u)" using deps derived_new(2) [OF assms(1)] by (simp add: same_deps_def)
    then show "derived k \<noteq> 0 \<and> (\<exists>t key. iov_iovType (up_iov u) = Some t \<and>
       holds_condition (hd_store h) (unat (iovt_type t)) key (derived k)) \<and>
       map_of (up_conditions (hd_pool h)) (hash_in (hd_store h) (derived k)) \<noteq> None"
      using registered_at_end [OF r fresh w(1)] w(2,3) by metis
  qed
  assume inj: "inj_on derived (fst ` set deps)" and target: "\<forall>(k, d) \<in> set deps. cd_target d = k"
  show "\<forall>k \<in> fst ` set deps. hash_in (hd_store h) (derived k) = k"
  proof
    fix k assume k: "k \<in> fst ` set deps"
    obtain w where w: "map_of (hd_todo h2) k = Some w" "view h2 k = Some (strip w)" "wk_condition w \<noteq> 0" "derived k = wk_condition w"
      using item [OF k] by blast
    obtain ob k' w' where ob: "cs_cond (hd_store h2) (wk_condition w) = Some ob" "view h2 k' = Some w'"
      "wk_condition w' = wk_condition w" "co_hash ob = cd_target (wk_dependency w')"
      using ok2(1) w(2,3) unfolding derived_ok_def hashes_ok_def by fastforce
    have k': "k' \<in> fst ` set deps" using keys ob(2) by blast
    obtain v where v: "view h2 k' = Some (strip v)" "derived k' = wk_condition v" using item [OF k'] by blast
    have "derived k' = derived k" using v w(4) ob(2,3) by simp
    then have "k' = k" using inj k k' by (simp add: inj_on_eq_iff)
    have "map_option wk_dependency (view (Handler_new s u deps) k') = Some (wk_dependency w')"
      using deps ob(2) by (metis same_deps_def option.simps(9))
    then have "map_of deps k' = Some (wk_dependency w')" by (simp only: dependencies_new)
    then have "co_hash ob = k" using \<open>k' = k\<close> target ob(4) map_of_SomeD by fastforce
    then have "hash_in (hd_store h2) (wk_condition w) = k" using ob(1) by (simp add: hash_in_def)
    moreover have "live_in (hd_store h2) (wk_condition w)" using ob(1) w(3) by (simp add: live_in_def)
    moreover obtain t where "hd_iovType h2 = Some t" using registered_at_end [OF r fresh w(1)] by blast
    ultimately show "hash_in (hd_store h) (derived k) = k"
      using live_grow register_sections [OF r(2) fresh] w(4) by metis
  qed
qed

text \<open>A complete run, and the condition of a dependency at its end.\<close>

definition handler_end :: "CondState \<Rightarrow> UserPool \<Rightarrow> (u64, ConditionDependency) std_map \<Rightarrow> Handler cpp" where
  "handler_end s u deps = bindE (handler_compute stack_overflow (depth_bound deps) (Handler_new s u deps))
     (handler_resolve stack_overflow (depth_bound deps))"

definition derived_of :: "Handler \<Rightarrow> u64 \<Rightarrow> cond" where
  "derived_of h k = wk_condition (the (map_of (hd_todo h) k))"

lemma derivation_end:
  assumes "conds_fresh s" "handler_end s u deps = Inr h"
  shows "\<forall>k. count_list (hd_created h) k = (if k \<in> fst ` set deps then 1 else 0)"
    and "\<forall>k \<in> fst ` set deps. (\<exists>i key. holds_condition (hd_store h) i key (derived_of h k)) \<and>
       map_of (up_conditions (hd_pool h)) (hash_in (hd_store h) (derived_of h k)) \<noteq> None"
    and "\<lbrakk>inj_on (derived_of h) (fst ` set deps); \<forall>(k, d) \<in> set deps. cd_target d = k\<rbrakk> \<Longrightarrow>
      \<forall>k \<in> fst ` set deps. hash_in (hd_store h) (derived_of h k) = k"
proof -
  obtain h1 where h1: "handler_compute stack_overflow (depth_bound deps) (Handler_new s u deps) = Inr h1"
    "handler_resolve stack_overflow (depth_bound deps) h1 = Inr h"
    using assms(2) by (auto simp: handler_end_def bindE_Inr_iff)
  have d: "derived_of h = (\<lambda>k. wk_condition (the (map_of (hd_todo h) k)))" by (rule ext) (simp add: derived_of_def)
  note r = derivation_result [OF assms(1) h1 d]
  show "\<forall>k. count_list (hd_created h) k = (if k \<in> fst ` set deps then 1 else 0)" by (rule r(1))
  show "\<forall>k \<in> fst ` set deps. (\<exists>i key. holds_condition (hd_store h) i key (derived_of h k)) \<and>
       map_of (up_conditions (hd_pool h)) (hash_in (hd_store h) (derived_of h k)) \<noteq> None" using r(2) by blast
  show "\<forall>k \<in> fst ` set deps. hash_in (hd_store h) (derived_of h k) = k"
    if "inj_on (derived_of h) (fst ` set deps)" "\<forall>(k, d) \<in> set deps. cd_target d = k" by (rule r(3) [OF that])
qed

text \<open>C25. Validity of derived conditions: take any derivation whose two passes and final registration succeed, with
  any callbacks, from a store in which every interval has its type and the unused addresses are free (\<open>conds_fresh\<close>), into a user pool
  whose interval has a type. For every condition that the callbacks of a dependency were given from the pool, in
  either pass, by key or in bulk, through the context or directly from the resolver (which
  \<open>ConditionDerived.h\<close> says does not affect the interval, but \<open>get\<close> of the handler intersects in
  both cases), the interval of validity of the dependency lies within the interval of that condition. The
  derived condition of every dependency is registered under this interval: it is in the pool that the manager keeps for it (a pool
  indexed by keys holds its key), and the user pool finds its key.\<close>

theorem derived_validity:
  assumes "\<forall>a v. cs_iov s a = Some v \<longrightarrow> iov_iovType v \<noteq> None" "0 < cs_next s" "conds_fresh s" "iov_iovType (up_iov u) = Some t"
    and "handler_compute stack_overflow n (Handler_new s u deps) = Inr h1" "handler_resolve stack_overflow n h1 = Inr h"
  shows "(\<forall>(k, v) \<in> set (hd_reads h). \<exists>w x. map_of (hd_todo h) k = Some w \<and> iov_get (hd_store h) (wk_iov w) = Inr x \<and>
      span (iov_keyData x) \<subseteq> span (iov_keyData v)) \<and>
    (\<forall>k \<in> fst ` set deps. \<exists>w x. map_of (hd_todo h) k = Some w \<and> iov_get (hd_store h) (wk_iov w) = Inr x \<and>
      holds_condition (hd_store h) (unat (iovt_type t)) (iov_keyData x) (wk_condition w) \<and>
      map_of (up_conditions (hd_pool h)) (hash_in (hd_store h) (wk_condition w)) \<noteq> None)"
proof -
  obtain h2 pools sections where p: "resolve_all stack_overflow n h1 = Inr (h2, pools)"
    "foldE (section_step h2) pools (List.map fst (hd_todo h2)) = Inr sections" "foldE register_step h2 sections = Inr h"
    "derived_ok h2" "\<forall>k \<in> fst ` set deps. kept.made h2 k" "same_deps (Handler_new s u deps) h2"
    by (rule passes_end [OF assms(3,5,6)]) blast
  note f = registered_fields [OF p(3)]
  have fresh: "conds_fresh (hd_store h2)" using p(4) by (simp add: derived_ok_def)
  have ty: "hd_iovType h2 = Some t" using p(6) derived_new(2) [OF assms(3)] assms(4) by (simp add: same_deps_def)
  have i2: "intervals_ok h2" by (rule intervals_ok_passes [OF _ assms(2) _ assms(5) p(1)]) (use assms(1,4) in \<open>simp_all add: typed_def\<close>)
  have own: "iov_get (hd_store h) (wk_iov w) = Inr x" if "map_of (hd_todo h2) k = Some w" "iov_get (hd_store h2) (wk_iov w) = Inr x" for k w x
    using that intervals_okD(4) [OF i2 that(1)] f by (auto simp: iovs_grow_def item_store_ok_def iov_get_def split: option.splits if_splits)
  have "\<exists>w x. map_of (hd_todo h) k = Some w \<and> iov_get (hd_store h) (wk_iov w) = Inr x \<and> span (iov_keyData x) \<subseteq> span (iov_keyData v)"
    if "(k, v) \<in> set (hd_reads h)" for k v
  proof -
    have "(k, v) \<in> set (hd_reads h2)" using that f by simp
    then obtain w x where w: "map_of (hd_todo h2) k = Some w" "wk_iov w \<noteq> 0" "cs_iov (hd_store h2) (wk_addr w) = Some x"
      "span (iov_keyData x) \<subseteq> span (iov_keyData v)" using intervals_okD(5) [OF i2, of k v] by (auto simp: read_ok_def)
    have "wk_iov w = wk_addr w" using intervals_okD(4) [OF i2 w(1)] w(2) by (simp add: item_store_ok_def)
    then have "iov_get (hd_store h2) (wk_iov w) = Inr x" using w(2,3) by (simp add: iov_get_def)
    then show ?thesis using own [OF w(1)] w(1,4) f by auto
  qed
  moreover have "\<exists>w x. map_of (hd_todo h) k = Some w \<and> iov_get (hd_store h) (wk_iov w) = Inr x \<and>
      holds_condition (hd_store h) (unat (iovt_type t)) (iov_keyData x) (wk_condition w) \<and>
      map_of (up_conditions (hd_pool h)) (hash_in (hd_store h) (wk_condition w)) \<noteq> None" if k: "k \<in> fst ` set deps" for k
  proof -
    obtain w where w: "map_of (hd_todo h2) k = Some w" using bspec [OF p(5) k] unfolding kept.made_def by blast
    obtain key where key: "work_interval h2 w = Inr key" "holds_condition (hd_store h) (unat (iovt_type t)) key (wk_condition w)"
      "map_of (up_conditions (hd_pool h)) (hash_in (hd_store h) (wk_condition w)) \<noteq> None"
      using registered_at_end [OF p(2,3) fresh w] ty by auto
    obtain x where x: "iov_get (hd_store h2) (wk_iov w) = Inr x" "iov_keyData x = key"
      using key(1) by (auto simp: work_interval_def bindE_Inr_iff)
    then show ?thesis using own [OF w x(1)] key(2,3) w f by auto
  qed
  ultimately show ?thesis by blast
qed

text \<open>A run on concrete data: one condition in the pool, a condition derived from it.\<close>

definition run_pool :: UserPool where
  "run_pool = \<lparr>up_conditions = [(77, 3)], up_iov = IOV_with_key (Some run_type) (Key 3 4), up_iovPool = 1\<rparr>"

definition run_store :: CondState where
  "run_store = \<lparr>cs_next = 4, cs_cond = [3 \<mapsto> \<lparr>co_value = ''v'', co_iov = 1, co_hash = 77, co_flags = 1\<rparr>],
     cs_iov = [1 \<mapsto> IOV_with_key (Some run_type) (Key 1 9)],
     cs_pool = [2 \<mapsto> \<lparr>cp_entries = LinearPool [3], cp_iov = 1, cp_age = 0\<rparr>], cs_held = [],
     cm_iovTypes = [IOVType_default, run_type],
     cm_rawPool = [None, Some \<lparr>ip_elements = [(Key 1 9, 2)], ip_type = 1\<rparr>], cm_updates = [], cm_newPool = LinearPool [],
     cm_doLoad = True, cm_doOutputUnloaded = False, cm_onRegister = [], cm_onRemove = [], cm_calls = []\<rparr>"

definition run_deps :: "(u64, ConditionDependency) std_map" where
  "run_deps = [(90, \<lparr>cd_target = 90, cd_dependencies = [77],
     cd_create = GetCondition 77 True (\<lambda>c. ReadValue c (\<lambda>v. NewCondition (v @ ''2'') Finish)), cd_resolve = Finish\<rparr>)]"

lemmas handler_eval = Handler_new_def add_work_def Let_def handler_compute_def compute_step_def do_callback_def enter_callback_def
  finish_callback_def current_intersection_def context_intersection_def do_intersection_def work_put_def work_at_def
  current_work_def upool_get_def i_findCondition_def cond_get_def cond_access_def iov_get_def iov_put_def cond_put_def
  Condition_object_def map_emplace_def rethrow_def get_failed_def work_resolve_def enter_resolve_def resolve_all_def
  resolve_step_def work_interval_def section_step_def

lemmas register_eval = register_all_def register_step_def handler_registerMany_def upool_registerMany_def registerIOV_def raw_pool_def
  run_type_def raw_pool_put_def blockRegister_def block_step_def pool_get_def adopt_condition_def pool_insert_def pool_put_def
  i_insert_many_def i_insert_def call_listeners_def free_block_def

lemma run_compute:
  "\<exists>h1 h. handler_compute stack_overflow (Suc (Suc (Suc 0))) (Handler_new run_store run_pool run_deps) = Inr h1 \<and>
     handler_resolve stack_overflow (Suc (Suc (Suc 0))) h1 = Inr h \<and>
     hd_reads h = [(90, IOV_with_key (Some run_type) (Key 1 9))]"
  by (simp add: handler_eval run_store_def run_pool_def run_deps_def iov_intersection_def IOV_with_key_def key_intersection_def
      handler_resolve_def register_eval)

theorem derived_validity_witness:
  "\<exists>(h :: Handler) w x. hd_reads h = [(90, IOV_with_key (Some run_type) (Key 1 9))] \<and> map_of (hd_todo h) 90 = Some w \<and>
     iov_get (hd_store h) (wk_iov w) = Inr x \<and> span (iov_keyData x) \<subseteq> {1..9} \<and>
     holds_condition (hd_store h) 1 (iov_keyData x) (wk_condition w)"
proof -
  obtain h1 h where r: "handler_compute stack_overflow (Suc (Suc (Suc 0))) (Handler_new run_store run_pool run_deps) = Inr h1"
     "handler_resolve stack_overflow (Suc (Suc (Suc 0))) h1 = Inr h"
     "hd_reads h = [(90, IOV_with_key (Some run_type) (Key 1 9))]" using run_compute by blast
  have t: "\<forall>a v. cs_iov run_store a = Some v \<longrightarrow> iov_iovType v \<noteq> None" "0 < cs_next run_store" "conds_fresh run_store"
    "iov_iovType (up_iov run_pool) = Some run_type"
    by (simp_all add: run_store_def run_pool_def IOV_with_key_def conds_fresh_def)
  note d = derived_validity [OF t r(1,2)]
  have "span (iov_keyData (IOV_with_key (Some run_type) (Key 1 9))) = {1..9}" by (auto simp: span_def IOV_with_key_def)
  moreover have "(90, IOV_with_key (Some run_type) (Key 1 9)) \<in> set (hd_reads h)" by (simp add: r(3))
  ultimately obtain w x where w: "map_of (hd_todo h) 90 = Some w" "iov_get (hd_store h) (wk_iov w) = Inr x" "span (iov_keyData x) \<subseteq> {1..9}"
    using d by fastforce
  have "90 \<in> fst ` set run_deps" by (simp add: run_deps_def)
  then have "holds_condition (hd_store h) (unat (iovt_type run_type)) (iov_keyData x) (wk_condition w)" using d w(1,2) by fastforce
  then have "holds_condition (hd_store h) 1 (iov_keyData x) (wk_condition w)" by (simp add: run_type_def)
  then show ?thesis using w r(3) by blast
qed

text \<open>
  The other way round: accesses to derived conditions in the first pass. The first dependent resolves the
  condition it asks for, with its interval; a later one finds the condition resolved, and its own
  interval stays the default.
\<close>

definition chain_dep :: "u64 \<Rightarrow> u64 \<Rightarrow> u64 \<times> ConditionDependency" where
  "chain_dep key from_key = (key, \<lparr>cd_target = key, cd_dependencies = [from_key],
     cd_create = GetCondition from_key True (\<lambda>c. ReadValue c (\<lambda>v. NewCondition v Finish)), cd_resolve = Finish\<rparr>)"

text \<open>Accessing a derived condition while conditions are still created: two conditions (91 and 92) derived from
  the same derived condition (90), itself derived from a pool condition valid from 1 to 9, end up
  with different validities. The first one gets the interval 1 to 9, the second one the
  unlimited interval: \<open>get\<close> returns a resolved condition without taking its interval into account.\<close>

theorem creation_access_loses_validity:
  "\<exists>h. handler_compute stack_overflow (depth_bound [chain_dep 90 77, chain_dep 91 90, chain_dep 92 90])
       (Handler_new run_store run_pool [chain_dep 90 77, chain_dep 91 90, chain_dep 92 90]) = Inr h \<and>
     map_option (work_interval h) (map_of (hd_todo h) 91) = Some (Inr (Key 1 9)) \<and>
     map_option (work_interval h) (map_of (hd_todo h) 92) = Some (Inr key_forever)"
proof -
  have "depth_bound [chain_dep 90 77, chain_dep 91 90, chain_dep 92 90] = Suc (Suc (Suc (Suc (Suc (Suc (Suc 0))))))"
    by (simp add: depth_bound_def)
  then show ?thesis
    by (simp add: handler_eval run_store_def run_pool_def chain_dep_def iov_intersection_def IOV_with_key_def key_intersection_def)
qed

text \<open>The complete run for the pool condition alone: the derived condition is in the user pool, active, with its interval.\<close>

lemma run_derived:
  "\<exists>s u c ob. run_handler run_store run_pool run_deps = Inr (s, u, 1) \<and> up_conditions u = [(77, 3), (90, c)] \<and>
     cs_cond s c = Some ob \<and> co_value ob = ''v2'' \<and> co_iov ob = 1 \<and> cs_pool s 2 = Some \<lparr>cp_entries = LinearPool [3, c], cp_iov = 1, cp_age = 0\<rparr>"
proof -
  have "depth_bound run_deps = Suc (Suc (Suc 0))" by (simp add: depth_bound_def run_deps_def)
  then show ?thesis
    by (simp add: run_handler_def run_handler_to_def handler_resolve_def handler_eval run_store_def run_pool_def run_deps_def
      iov_intersection_def IOV_with_key_def key_intersection_def register_eval)
qed

end
