(* ===== verification/ConditionsLoadingProps.thy ===== *)
theory ConditionsLoadingProps
  imports ConditionsLoading DependencyProps
begin

text \<open>
  Properties of preparing a user pool: every missing derived condition is derived exactly once, what a pool holds
  and what is reported as missing after loading, preparing is loading followed by computing, and
  the pools a slice holds survive cleaning.
\<close>

section \<open>Every callback runs once\<close>

text \<open>
  The callbacks that returned and the items that are no longer \<open>INVALID\<close> grow together.
\<close>

definition made_count :: "(u64 \<Rightarrow> Work option) \<Rightarrow> nat" where
  "made_count v = (\<Sum>k \<in> dom v. if wk_state (the (v k)) = INVALID then 0 else 1)"

definition balanced :: "Handler \<Rightarrow> Handler \<Rightarrow> bool" where
  "balanced h h' \<longleftrightarrow> hd_calls h' + made_count (view h) = hd_calls h + made_count (view h')"

lemma balanced_same: "\<lbrakk>view h' = view h; hd_calls h' = hd_calls h\<rbrakk> \<Longrightarrow> balanced h h'"
  by (simp add: balanced_def)

lemma balanced_trans: "\<lbrakk>balanced h h1; balanced h1 h2\<rbrakk> \<Longrightarrow> balanced h h2"
  by (simp add: balanced_def)

lemma made_count_update:
  assumes "finite (dom v)" "v k = Some w"
  shows "made_count (v(k \<mapsto> w')) + (if wk_state w = INVALID then 0 else 1) = made_count v + (if wk_state w' = INVALID then 0 else 1)"
proof -
  let ?f = "\<lambda>v k. if wk_state (the (v k)) = INVALID then 0 else 1 :: nat"
  have "k \<in> dom v" using assms(2) by auto
  then have "made_count v = ?f v k + (\<Sum>j \<in> dom v - {k}. ?f v j)"
    "made_count (v(k \<mapsto> w')) = ?f (v(k \<mapsto> w')) k + (\<Sum>j \<in> dom v - {k}. ?f (v(k \<mapsto> w')) j)"
    using assms by (simp_all add: made_count_def sum.remove insert_absorb)
  moreover have "(\<Sum>j \<in> dom v - {k}. ?f (v(k \<mapsto> w')) j) = (\<Sum>j \<in> dom v - {k}. ?f v j)"
    by (rule sum.cong) auto
  ultimately show ?thesis using assms(2) by simp
qed

lemma work_put_calls [simp]: "hd_calls (work_put h k w) = hd_calls h"
  by (simp add: work_put_def)

lemma do_intersection_calls: "do_intersection h k a = Inr h' \<Longrightarrow> hd_calls h' = hd_calls h"
  by (auto simp: do_intersection_def bindE_Inr_iff split: if_splits)

lemma current_intersection_calls: "current_intersection h c = Inr h' \<Longrightarrow> hd_calls h' = hd_calls h"
  by (auto simp: current_intersection_def bindE_Inr_iff dest!: do_intersection_calls split: option.splits)

lemma context_intersection_calls: "context_intersection own c h = Inr h' \<Longrightarrow> hd_calls h' = hd_calls h"
  by (auto simp: context_intersection_def bindE_Inr_iff split: if_splits)

lemma register_calls:
  "handler_registerOne h iov c = Inr (h', b) \<Longrightarrow> hd_calls h' = hd_calls h"
  "handler_registerMany h iov cs = Inr (h', n) \<Longrightarrow> hd_calls h' = hd_calls h"
  by (auto simp: handler_registerOne_def handler_registerMany_def bindE_Inr_iff)

lemma finish_callback_calls:
  assumes "finish_callback key prev c h = Inr h'"
  shows "hd_calls h' = Suc (hd_calls h)"
proof -
  obtain w where w: "map_of (hd_todo h) key = Some w" and c: "c \<noteq> 0"
    using assms by (auto simp: finish_callback_def bindE_Inr_iff work_at_Inr Let_def split: if_splits)
  let ?w1 = "w\<lparr>wk_condition := c, wk_callstack := wk_callstack w - 1\<rparr>"
  let ?iov = "if wk_iov w = 0 then wk_addr w else wk_iov w"
  let ?h1 = "(work_put h key ?w1)\<lparr>hd_current := prev\<rparr>"
  let ?h2 = "if wk_iov w = 0 then work_put (?h1\<lparr>hd_store := iov_put (hd_store ?h1) ?iov (IOV_with_key (hd_iovType h) key_forever)\<rparr>) key
                 (?w1\<lparr>wk_iov := ?iov\<rparr>) else ?h1"
  obtain h3 ob w3 where h3: "(case prev of Some p \<Rightarrow> do_intersection ?h2 p ?iov | None \<Rightarrow> Inr ?h2) = Inr h3"
    and h': "h' = work_put (h3\<lparr>hd_store := cond_put (hd_store h3) c (ob\<lparr>co_iov := ?iov,
                      co_hash := cd_target (wk_dependency w), co_flags := co_flags ob OR cond_DERIVED\<rparr>),
                    hd_calls := hd_calls h3 + 1\<rparr>) key (w3\<lparr>wk_state := CREATED\<rparr>)"
    using assms c w by (fastforce simp: finish_callback_def bindE_Inr_iff work_at_Inr Let_def)
  have "hd_calls ?h2 = hd_calls h" by simp
  then have "hd_calls h3 = hd_calls h" using h3 by (auto dest: do_intersection_calls split: option.splits)
  then show ?thesis by (simp add: h')
qed

lemma balanced_callback:
  assumes "map_of (hd_todo h) key = Some w" "wk_state w = INVALID" "wk_callstack w = 0"
    and "progress (view (enter_callback key w h)) (view h1)" "balanced (enter_callback key w h) h1"
    and "finish_callback key prev c h1 = Inr h2"
  shows "balanced h h2"
proof -
  note v = view_item [OF assms(1)]
  have e: "view (enter_callback key w h) = (view h)(key \<mapsto> (strip w)\<lparr>wk_callstack := 1\<rparr>)" "hd_calls (enter_callback key w h) = hd_calls h"
    using assms(3) by (simp_all add: enter_callback_def)
  obtain w1 where w1: "map_of (hd_todo h1) key = Some w1"
    "view h2 = (view h1)(key \<mapsto> (strip w1)\<lparr>wk_condition := c, wk_callstack := wk_callstack w1 - 1, wk_state := CREATED\<rparr>)"
    by (rule finish_callback_view [OF assms(6)])
  have "item_le ((strip w)\<lparr>wk_callstack := 1\<rparr>) (strip w1)"
    using progressD [OF assms(4), of key "(strip w)\<lparr>wk_callstack := 1\<rparr>"] e(1) view_item [OF w1(1)] by (metis fun_upd_same option.inject)
  then have "wk_state w1 = INVALID" using assms(2) by (simp add: item_le_def)
  then have "made_count (view h2) = Suc (made_count (view h1))"
    using made_count_update [OF finite_view view_item [OF w1(1)], where w' = "(strip w1)\<lparr>wk_condition := c, wk_callstack := wk_callstack w1 - 1, wk_state := CREATED\<rparr>"]
    by (simp add: w1(2))
  moreover have "made_count (view (enter_callback key w h)) = made_count (view h)"
    using made_count_update [OF finite_view v, where w' = "(strip w)\<lparr>wk_callstack := 1\<rparr>"] assms(2) by (simp add: e)
  ultimately show ?thesis using assms(5) finish_callback_calls [OF assms(6)] e(2) by (simp add: balanced_def)
qed

lemma balanced_resolve:
  assumes "map_of (hd_todo h) key = Some w" "wk_state w = CREATED" "balanced (enter_resolve key w h) h1" "do_intersection h1 p i = Inr h2"
  shows "balanced h (h2\<lparr>hd_current := q\<rparr>)"
proof -
  have e: "view (enter_resolve key w h) = (view h)(key \<mapsto> (strip w)\<lparr>wk_state := RESOLVED\<rparr>)" "hd_calls (enter_resolve key w h) = hd_calls h"
    by (simp_all add: enter_resolve_def)
  have "made_count (view (enter_resolve key w h)) = made_count (view h)"
    using made_count_update [OF finite_view view_item [OF assms(1)], where w' = "(strip w)\<lparr>wk_state := RESOLVED\<rparr>"] assms(2) by (simp add: e)
  then show ?thesis using assms(3) e(2) do_intersection_view [OF assms(4)] do_intersection_calls [OF assms(4)] by (simp add: balanced_def)
qed

interpretation once: handler_relation "\<lambda>h. items_ok (view h)" "\<lambda>h h'. progress (view h) (view h') \<and> balanced h h'"
  "\<lambda>h. entries_left (view h)"
proof (unfold_locales, goal_cases)
  case (1 h) then show ?case using depth.R_refl by (simp add: balanced_same)
next
  case (2 h h1 h2) then show ?case using depth.R_trans balanced_trans by blast
next
  case (3 h h') then show ?case using depth.R_ok by blast
next
  case (4 h h') then show ?case using depth.R_pot by blast
next
  case (5 h val) then show ?case using depth.R_new by (simp add: balanced_same)
next
  case (6 h c ob val) then show ?case using depth.R_write by (simp add: balanced_same)
next
  case (7 h c h') then show ?case using depth.R_current current_intersection_view current_intersection_calls balanced_same by blast
next
  case (8 h own c h') then show ?case using depth.R_context context_intersection_view context_intersection_calls balanced_same by blast
next
  case (9 h iov c h' b) then show ?case using depth.R_one register_view(1) register_calls(1) balanced_same by blast
next
  case (10 h iov cs h' n) then show ?case using depth.R_many register_view(2) register_calls(2) balanced_same by blast
next
  case (11 h key w) then show ?case using depth.enter_callback_ok by blast
next
  case (12 h key w h1 c h2) then show ?case using depth.R_callback balanced_callback by blast
next
  case (13 h key prev c h1 w) then show ?case using depth.callback_ends by blast
next
  case (14 h key w) then show ?case using depth.enter_resolve_ok by blast
next
  case (15 h key w h1 w1 p h2) then show ?case using depth.R_resolve balanced_resolve by blast
next
  case (16 h key w) then show ?case using depth.callstack_nonneg by blast
next
  case (17 h key w) then show ?case using depth.no_condition by blast
next
  case (18 h key w) then show ?case using depth.condition_made by blast
next
  case (19 h h' key w) then show ?case using depth.R_made by blast
next
  case (20 h h') then show ?case using depth.R_keys by blast
next
  case (21 h st cur) then show ?case using depth.R_phase by (simp add: balanced_same)
qed

lemma made_count_all: "\<lbrakk>\<forall>k \<in> dom v. wk_state (the (v k)) \<noteq> INVALID\<rbrakk> \<Longrightarrow> made_count v = card (dom v)"
  by (simp add: made_count_def)

lemma made_count_none: "untouched v \<Longrightarrow> made_count v = 0"
  unfolding made_count_def by (rule sum.neutral) (auto simp: untouched_def)

lemma Handler_new_calls: "hd_calls (Handler_new s u deps) = 0"
proof -
  have "hd_calls (foldl add_work h deps) = hd_calls h" for h
    by (induction deps arbitrary: h) (simp_all add: add_work_def Let_def)
  then show ?thesis by (simp add: Handler_new_def)
qed

lemma register_all_calls: "register_all (h, pools) = Inr h' \<Longrightarrow> hd_calls h' = hd_calls h"
proof -
  have "hd_calls h' = hd_calls h" if "foldE register_step h secs = Inr h'" for secs
    using that by (rule foldE_invariant [where P = "\<lambda>x. hd_calls x = hd_calls h"])
      (auto simp: register_step_def bindE_Inr_iff dest: register_calls)
  then show "register_all (h, pools) = Inr h' \<Longrightarrow> hd_calls h' = hd_calls h"
    by (auto simp: register_all_def bindE_Inr_iff)
qed

lemma run_handler_calls:
  assumes "run_handler s u deps = Inr (s', u', n)" and "distinct (List.map fst deps)"
  shows "n = length deps"
proof -
  let ?start = "(Handler_new s u deps)\<lparr>hd_state := CREATED\<rparr>"
  obtain h1 h2 pools h3 where h1: "handler_compute stack_overflow (depth_bound deps) (Handler_new s u deps) = Inr h1"
    and h2: "resolve_all stack_overflow (depth_bound deps) h1 = Inr (h2, pools)"
    and h3: "register_all (h2, pools) = Inr h3" and n: "n = hd_calls h3"
    using assms(1) by (auto simp: run_handler_def run_handler_to_def handler_resolve_def bindE_Inr_iff)
  have un: "untouched (view ?start)" "dom (view ?start) = fst ` set deps" using untouched_new by simp_all
  have ok0: "items_ok (view ?start)" by (rule untouched_ok [OF un(1)])
  note c = once.R_compute [OF h1 [unfolded handler_compute_def] ok0 once.good_overflow order_refl]
  then have ok1: "items_ok (view (h1\<lparr>hd_state := RESOLVED\<rparr>))" using once.R_ok [OF ok0] by simp
  have keys: "fst ` set (hd_todo h1) = fst ` set (hd_todo ?start)" using once.R_keys [OF ok0] c by blast
  have made: "\<forall>key \<in> set (List.map fst (hd_todo h1)). once.made (h1\<lparr>hd_state := RESOLVED\<rparr>) key"
    using c keys by (simp add: once.made_def)
  then have r: "progress (view (h1\<lparr>hd_state := RESOLVED\<rparr>)) (view h2) \<and> balanced (h1\<lparr>hd_state := RESOLVED\<rparr>) h2"
    by (rule once.R_resolve_all [OF h2 [unfolded resolve_all_def] ok1 _ once.good_overflow order_refl])
  have state: "wk_state (the (view h k)) \<noteq> INVALID" if "once.made h k" for h k
    using that by (auto simp: once.made_def view_def)
  have all1: "made_count (view h1) = card (dom (view h1))"
  proof (rule made_count_all, rule ballI)
    fix k assume "k \<in> dom (view h1)"
    then have "once.made (h1\<lparr>hd_state := RESOLVED\<rparr>) k" using made by (auto simp: view_dom)
    then show "wk_state (the (view h1 k)) \<noteq> INVALID" using state by fastforce
  qed
  have "dom (view h1) = fst ` set deps" using progress_dom c un(2) by blast
  moreover have dom2: "dom (view h2) = dom (view h1)" using progress_dom r by fastforce
  moreover have "made_count (view h2) = card (dom (view h2))"
  proof (rule made_count_all, rule ballI)
    fix k assume "k \<in> dom (view h2)"
    then have "k \<in> set (List.map fst (hd_todo h1))" unfolding dom2 by (auto simp: view_dom)
    then have "once.made (h1\<lparr>hd_state := RESOLVED\<rparr>) k" using made by blast
    then show "wk_state (the (view h2 k)) \<noteq> INVALID" using state once.made_R [OF _ ok1 r] by blast
  qed
  moreover have "hd_calls h1 = made_count (view h1)"
    using c made_count_none [OF un(1)] Handler_new_calls [of s u deps] by (simp add: balanced_def)
  ultimately have "hd_calls h2 = card (fst ` set deps)" using r by (simp add: balanced_def)
  moreover have "card (fst ` set deps) = length deps" using assms(2) by (metis distinct_card length_map list.set_map)
  ultimately show ?thesis using register_all_calls [OF h3] n by simp
qed

section \<open>Preparing is loading, then computing\<close>

lemma set_difference_spec:
  "\<lbrakk>map_ok xs; map_ok ys\<rbrakk> \<Longrightarrow> set_difference xs ys = filter (\<lambda>(k, a). map_of ys k = None) xs"
proof (induction xs ys rule: set_difference.induct)
  case (2 x xs)
  then show ?case by simp
next
  case (3 x xs y ys)
  obtain k a where x: "x = (k, a)" by fastforce
  obtain l b where y: "y = (l, b)" by fastforce
  have ok: "map_ok xs" "map_ok ys" "\<forall>j \<in> fst ` set xs. k < j" "\<forall>j \<in> fst ` set ys. l < j"
    using "3.prems" by (simp_all add: x y map_ok_Cons)
  consider "k < l" | "l < k" | "k = l" by fastforce
  then show ?case
  proof cases
    case 1
    then have "map_of ys k = None" using ok(4) by (force simp: map_of_eq_None_iff)
    then show ?thesis using 3 1 ok by (simp add: x y)
  next
    case 2
    then have "filter (\<lambda>(j, a). map_of (y # ys) j = None) (x # xs) = filter (\<lambda>(j, a). map_of ys j = None) (x # xs)"
      using ok(3) by (intro filter_cong) (force simp: x y)+
    moreover have "\<not> k < l" using 2 by (simp add: not_less less_imp_le)
    ultimately show ?thesis using 3 2 ok by (simp add: x y)
  next
    case 3
    then have "filter (\<lambda>(j, a). map_of (y # ys) j = None) (x # xs) = filter (\<lambda>(j, a). map_of ys j = None) xs"
      using ok(3) by (simp add: x y) (intro filter_cong, force+)
    then show ?thesis using "3.IH"(3) 3 ok by (simp add: x y)
  qed
qed simp

lemma insert_all_spec: "map_of (insert_all m xs) k = (map_of xs ++ map_of m) k"
proof (induction xs arbitrary: m)
  case (Cons x xs)
  obtain j a where x: "x = (j, a)" by fastforce
  show ?case using Cons [of "fst (map_emplace j a m)"]
    by (auto simp: insert_all_def x map_of_emplace map_add_def split: option.splits)
qed (simp add: insert_all_def)

lemma insert_all_ok: "map_ok m \<Longrightarrow> map_ok (insert_all m xs)"
  by (induction xs arbitrary: m) (auto simp: insert_all_def map_ok_emplace)

lemma insert_all_Nil: "map_ok xs \<Longrightarrow> insert_all [] xs = xs"
  by (rule map_ok_ext) (auto simp: insert_all_ok insert_all_spec map_add_def split: option.splits)

lemma map_ok_filter: "map_ok xs \<Longrightarrow> map_ok (filter P xs)"
  unfolding map_ok_def by (rule sorted_wrt_map_filter)

text \<open>What is selected is ordered.\<close>

lemma select_map_ordered: "\<lbrakk>entries_select_map s e m = Inr m'; map_ok m\<rbrakk> \<Longrightarrow> map_ok m'"
  unfolding entries_select_map_def
  by (erule foldE_invariant) (auto simp: map_select_step_def bindE_Inr_iff map_ok_emplace)

lemma select_pools_ordered:
  "\<lbrakk>select_pools s es req entries_select_map size_of m v n = Inr (s', m', v', n'); map_ok m\<rbrakk> \<Longrightarrow> map_ok m'"
proof (induction es arbitrary: s m v n)
  case (Cons e es)
  obtain k p where e: "e = (k, p)" by fastforce
  show ?case using Cons.prems
    by (auto simp: e bindE_Inr_iff split: if_splits intro: Cons.IH select_map_ordered)
qed simp

lemma select_present_ok:
  assumes "select_present s u required = Inr (s1, u1)"
  shows "map_ok (up_conditions u1)" "up_iovPool u1 = up_iovPool u"
proof -
  obtain ip m v n where "iovpool_select_map s ip required [] (iov_invert (iov_reset (IOV_new (iov_iovType required)))) = Inr (s1, m, v, n)"
    "u1 = u\<lparr>up_conditions := m, up_iov := v\<rparr>" using assms by (auto simp: select_present_def bindE_Inr_iff)
  then show "map_ok (up_conditions u1)" "up_iovPool u1 = up_iovPool u"
    unfolding iovpool_select_map_def by (auto dest: select_pools_ordered)
qed

lemma select_pools_settings:
  "select_pools s es req take_pool size_of m v n = Inr (s', m', v', n') \<Longrightarrow>
    cm_doLoad s' = cm_doLoad s \<and> cm_doOutputUnloaded s' = cm_doOutputUnloaded s"
proof (induction es arbitrary: s m v n)
  case (Cons e es)
  obtain k p where e: "e = (k, p)" by fastforce
  have age: "cm_doLoad s1 = cm_doLoad s \<and> cm_doOutputUnloaded s1 = cm_doOutputUnloaded s" if "age_pool s p f = Inr s1" for f s1
    using that by (auto simp: age_pool_def bindE_Inr_iff pool_put_def)
  show ?case using Cons.prems by (auto simp: e bindE_Inr_iff split: if_splits dest!: Cons.IH age)
qed simp

lemma select_present_settings:
  assumes "select_present s u required = Inr (s1, u1)"
  shows "cm_doLoad s1 = cm_doLoad s" "cm_doOutputUnloaded s1 = cm_doOutputUnloaded s"
  using assms by (auto simp: select_present_def iovpool_select_map_def bindE_Inr_iff dest!: select_pools_settings)

lemma insert_loaded_keys:
  assumes "foldE (insert_loaded s) u loaded = Inr u'" and "map_ok (up_conditions u)"
  shows "map_ok (up_conditions u')" "up_iovPool u' = up_iovPool u"
    and "\<forall>k. map_of (up_conditions u') k \<noteq> None \<longleftrightarrow> map_of (up_conditions u) k \<noteq> None \<or>
      (\<exists>e \<in> set loaded. \<exists>ob. cond_get s (snd e) = Inr ob \<and> co_hash ob = k)"
proof -
  have "map_ok (up_conditions u') \<and> up_iovPool u' = up_iovPool u \<and> (\<forall>k. map_of (up_conditions u') k \<noteq> None \<longleftrightarrow>
      map_of (up_conditions u) k \<noteq> None \<or> (\<exists>e \<in> set loaded. \<exists>ob. cond_get s (snd e) = Inr ob \<and> co_hash ob = k))"
    using assms
  proof (induction loaded arbitrary: u)
    case (Cons e loaded)
    then obtain u1 where u1: "insert_loaded s u e = Inr u1" and r: "foldE (insert_loaded s) u1 loaded = Inr u'"
      by (auto simp: bindE_Inr_iff)
    obtain ob and v :: IOV where ob: "cond_get s (snd e) = Inr ob" and u1': "u1 = u\<lparr>up_conditions := fst (map_emplace (co_hash ob) (snd e) (up_conditions u)),
            up_iov := iov_intersection_key (up_iov u) (iov_keyData v)\<rparr>"
      using u1 unfolding insert_loaded_def bindE_Inr_iff sum.inject by (elim exE conjE) (rule that, assumption, rule sym)
    show ?case using Cons.IH [OF r] Cons.prems(2) ob by (auto simp: u1' map_ok_emplace map_of_emplace)
  qed simp
  then show "map_ok (up_conditions u')" "up_iovPool u' = up_iovPool u"
    "\<forall>k. map_of (up_conditions u') k \<noteq> None \<longleftrightarrow> map_of (up_conditions u) k \<noteq> None \<or>
      (\<exists>e \<in> set loaded. \<exists>ob. cond_get s (snd e) = Inr ob \<and> co_hash ob = k)" by blast+
qed

text \<open>The two steps, as functions of the results so far.\<close>

lemma print_unloaded_ok:
  "\<forall>(k, a) \<in> set m. a \<noteq> 0 \<and> rs_infos refs a \<noteq> None \<Longrightarrow> print_unloaded refs m = Inr ()"
  by (induction m) (auto simp: print_unloaded_def)

lemma load_step_verbose:
  assumes "\<forall>(k, a) \<in> set cond_missing. a \<noteq> 0 \<and> rs_infos refs a \<noteq> None" and "sl_missing_conditions sl = []" and "map_ok cond_missing"
    and "\<And>s' loaded n. load_many s required cond_missing = Inr (s', loaded, n) \<Longrightarrow> map_ok loaded"
  shows "load_step load_many refs do_load do_output True required slice_cond cond_missing n s u sl r =
    load_step load_many refs do_load do_output False required slice_cond cond_missing n s u sl r"
proof (cases "do_load")
  case True
  show ?thesis
  proof (cases "load_many s required cond_missing")
    case (Inr x)
    obtain s' loaded n' where x: "x = (s', loaded, n')" by (cases x) auto
    have "map_ok loaded" using assms(4) Inr x by blast
    then have d: "set_difference cond_missing loaded = filter (\<lambda>(k, a). map_of loaded k = None) cond_missing"
      using assms(3) by (intro set_difference_spec)
    have "print_unloaded refs (insert_all [] (set_difference cond_missing loaded)) = Inr ()"
      unfolding d insert_all_Nil [OF map_ok_filter [OF assms(3)]] using assms(1) by (intro print_unloaded_ok) auto
    then show ?thesis using Inr x assms(2) True by (simp add: load_step_def Let_def)
  qed (simp add: load_step_def True)
next
  case False
  have "print_unloaded refs (insert_all [] cond_missing) = Inr ()"
    unfolding insert_all_Nil [OF assms(3)] using assms(1) by (rule print_unloaded_ok)
  then show ?thesis using assms(2) False by (simp add: load_step_def Let_def)
qed

lemma load_step_slice:
  assumes "sl_missing_conditions sl0 = sl_missing_conditions sl"
  shows "load_step load_many refs do_load do_output verbose required slice_cond cond_missing n s u sl
      (r\<lparr>res_missing := res_missing r + of_nat n\<rparr>) =
    bindE (load_step load_many refs do_load do_output verbose required slice_cond cond_missing 0 s u sl0 r) (\<lambda>(s1, u1, sl1, q).
      Inr (s1, u1, sl\<lparr>sl_missing_conditions := sl_missing_conditions sl1\<rparr>, q\<lparr>res_missing := res_missing q + of_nat n\<rparr>))"
proof -
  have inner: "(if 0 < updates
        then let load_missing = set_difference cond_missing loaded;
                 sl1 = if do_output then sl\<lparr>sl_missing_conditions := insert_all (sl_missing_conditions sl) load_missing\<rparr> else sl
             in bindE (if do_output \<and> verbose then print_unloaded refs (sl_missing_conditions sl1) else Inr ()) (\<lambda>_.
                bindE (foldE (insert_loaded s1) u loaded) (\<lambda>u1.
                  Inr (s1, u1, sl1, r\<lparr>res_missing := res_missing r + of_nat n, res_loaded := of_nat (length slice_cond) - of_nat (length load_missing),
                    res_missing := of_nat (length load_missing + n)\<rparr>)))
        else Inr (s1, u, sl, r\<lparr>res_missing := res_missing r + of_nat n\<rparr>)) =
    bindE (if 0 < updates
        then let load_missing = set_difference cond_missing loaded;
                 sl1 = if do_output then sl0\<lparr>sl_missing_conditions := insert_all (sl_missing_conditions sl0) load_missing\<rparr> else sl0
             in bindE (if do_output \<and> verbose then print_unloaded refs (sl_missing_conditions sl1) else Inr ()) (\<lambda>_.
                bindE (foldE (insert_loaded s1) u loaded) (\<lambda>u1.
                  Inr (s1, u1, sl1, r\<lparr>res_loaded := of_nat (length slice_cond) - of_nat (length load_missing),
                    res_missing := of_nat (length load_missing + 0)\<rparr>)))
        else Inr (s1, u, sl0, r)) (\<lambda>(s1, u1, sl1, q).
      Inr (s1, u1, sl\<lparr>sl_missing_conditions := sl_missing_conditions sl1\<rparr>, q\<lparr>res_missing := res_missing q + of_nat n\<rparr>))"
    for s1 loaded and updates :: nat
  proof (cases "0 < updates")
    case True
    show ?thesis
    proof (cases "if do_output \<and> verbose then print_unloaded refs (insert_all (sl_missing_conditions sl) (set_difference cond_missing loaded)) else Inr ()")
      case (Inl e)
      then show ?thesis using True assms by (auto simp: Let_def split: if_splits)
    next
      case (Inr x)
      then show ?thesis using True assms
        by (cases "foldE (insert_loaded s1) u loaded") (auto simp: Let_def split: if_splits)
    qed
  qed (simp add: assms)
  show ?thesis
  proof (cases "cond_missing = [] \<or> \<not> do_load")
    case True
    then show ?thesis using assms
      by (cases "print_unloaded refs (insert_all (sl_missing_conditions sl) cond_missing)") (auto simp: load_step_def Let_def)
  next
    case False
    then show ?thesis unfolding load_step_def
      by (cases "load_many s required cond_missing") (simp_all add: inner split_beta)
  qed
qed

lemma compute_missing_slice:
  assumes "res_computed r = 0" and "sl_missing_derivations sl0 = sl_missing_derivations sl"
  shows "compute_missing refs do_load do_output calc_missing s u sl r =
    bindE (compute_missing refs do_load do_output calc_missing s u sl0 Result_new) (\<lambda>(s1, u1, sl1, q).
      Inr (s1, u1, sl\<lparr>sl_missing_derivations := sl_missing_derivations sl1\<rparr>, result_plus r q))"
proof (cases "calc_missing = [] \<or> \<not> do_load")
  case True
  then show ?thesis using assms by (auto simp: compute_missing_def result_plus_def Result_new_def)
next
  case False
  show ?thesis
  proof (cases "dependencies_at refs calc_missing")
    case (Inr deps)
    then show ?thesis using False assms
      by (cases "run_handler s u deps") (auto simp: compute_missing_def result_plus_def Result_new_def)
  qed (use False in \<open>simp add: compute_missing_def\<close>)
qed

lemma load_step_results:
  assumes "load_step load_many refs do_load do_output verbose required slice_cond cond_missing n s u sl r = Inr (s1, u1, sl1, q)"
    and "map_ok (up_conditions u)"
  shows "up_iovPool u1 = up_iovPool u" "map_ok (up_conditions u1)" "res_computed q = res_computed r"
    "sl1 = sl\<lparr>sl_missing_conditions := sl_missing_conditions sl1\<rparr>"
    "s1 = s \<and> u1 = u \<or> (\<exists>loaded m. load_many s required cond_missing = Inr (s1, loaded, m) \<and>
       (u1 = u \<or> foldE (insert_loaded s1) u loaded = Inr u1))"
proof -
  have *: "s1 = s \<and> u1 = u \<or> (\<exists>loaded m. load_many s required cond_missing = Inr (s1, loaded, m) \<and>
       (u1 = u \<or> foldE (insert_loaded s1) u loaded = Inr u1))"
    "res_computed q = res_computed r \<and> sl1 = sl\<lparr>sl_missing_conditions := sl_missing_conditions sl1\<rparr>"
    using assms(1) by (auto simp: load_step_def Let_def bindE_Inr_iff split: if_splits)
  then show "s1 = s \<and> u1 = u \<or> (\<exists>loaded m. load_many s required cond_missing = Inr (s1, loaded, m) \<and>
       (u1 = u \<or> foldE (insert_loaded s1) u loaded = Inr u1))" by blast
  show "up_iovPool u1 = up_iovPool u" "map_ok (up_conditions u1)"
    using *(1) assms(2) by (auto dest: insert_loaded_keys(1,2))
  show "res_computed q = res_computed r" "sl1 = sl\<lparr>sl_missing_conditions := sl_missing_conditions sl1\<rparr>" using *(2) by blast+
qed

text \<open>A loader that respects the settings of the manager and loads no condition that is to be derived.\<close>

definition loads_apart :: "loader \<Rightarrow> u64 set \<Rightarrow> bool" where
  "loads_apart load_many D \<longleftrightarrow> (\<forall>s req missing s' loaded n. load_many s req missing = Inr (s', loaded, n) \<longrightarrow>
     cm_doLoad s' = cm_doLoad s \<and> cm_doOutputUnloaded s' = cm_doOutputUnloaded s \<and> map_ok loaded \<and>
     (\<forall>e \<in> set loaded. \<forall>ob. cond_get s' (snd e) = Inr ob \<longrightarrow> co_hash ob \<notin> D))"

lemma loads_apart_ordered: "\<lbrakk>loads_apart load_many D; load_many s req missing = Inr (s', loaded, n)\<rbrakk> \<Longrightarrow> map_ok loaded"
  unfolding loads_apart_def by blast

lemma load_step_apart:
  assumes "load_step load_many refs do_load do_output verbose required slice_cond cond_missing n s u sl r = Inr (s1, u1, sl1, q)"
    and "map_ok (up_conditions u)" and "loads_apart load_many (fst ` set calc)" and "map_ok calc"
  shows "set_difference calc (up_conditions u1) = set_difference calc (up_conditions u)"
    "cm_doLoad s1 = cm_doLoad s" "cm_doOutputUnloaded s1 = cm_doOutputUnloaded s"
proof -
  note res = load_step_results [OF assms(1,2)]
  have "(\<forall>k \<in> fst ` set calc. map_of (up_conditions u1) k = None \<longleftrightarrow> map_of (up_conditions u) k = None) \<and>
      cm_doLoad s1 = cm_doLoad s \<and> cm_doOutputUnloaded s1 = cm_doOutputUnloaded s"
    using res(5)
  proof (elim disjE exE conjE)
    fix loaded m assume l: "load_many s required cond_missing = Inr (s1, loaded, m)" and f: "foldE (insert_loaded s1) u loaded = Inr u1"
    show ?thesis using insert_loaded_keys(3) [OF f assms(2)] assms(3) l unfolding loads_apart_def by blast
  next
    fix loaded m assume l: "load_many s required cond_missing = Inr (s1, loaded, m)" and "u1 = u"
    have "cm_doLoad s1 = cm_doLoad s \<and> cm_doOutputUnloaded s1 = cm_doOutputUnloaded s"
      using assms(3) l unfolding loads_apart_def by blast
    then show ?thesis using \<open>u1 = u\<close> by simp
  qed simp
  then show "set_difference calc (up_conditions u1) = set_difference calc (up_conditions u)"
    "cm_doLoad s1 = cm_doLoad s" "cm_doOutputUnloaded s1 = cm_doOutputUnloaded s"
    unfolding set_difference_spec [OF assms(4) res(2)] set_difference_spec [OF assms(4,2)]
    by (auto intro!: filter_cong)
qed

lemma use_pools_frame:
  assumes "use_pools required s u sl = Inr (s', sl')"
  obtains ps where "sl' = sl\<lparr>sl_used_pools := ps\<rparr>"
  using assms by (auto simp: use_pools_def iovpool_vector_def bindE_Inr_iff Let_def split: if_splits)

lemma use_pools_slice:
  assumes "sl_used_pools sl0 = sl_used_pools sl" and "sl_flags sl0 = sl_flags sl" and "up_iovPool u0 = up_iovPool u"
  shows "use_pools required s u sl = bindE (use_pools required s u0 sl0) (\<lambda>(s1, sl1). Inr (s1, sl\<lparr>sl_used_pools := sl_used_pools sl1\<rparr>))"
proof (cases "drop_pools s (sl_used_pools sl)")
  case (Inr s1)
  have "user_iovpool s1 u0 = user_iovpool s1 u" using assms(3) by (simp add: user_iovpool_def)
  then show ?thesis using Inr assms by (cases "user_iovpool s1 u") (simp_all add: use_pools_def split_beta)
qed (use assms in \<open>simp add: use_pools_def\<close>)

text \<open>The result of the second step counts the conditions selected by the first again; nothing else differs.\<close>

definition without_selected :: "(CondState \<times> ConditionsSlice \<times> Result) cpp \<Rightarrow> (CondState \<times> ConditionsSlice) cpp" where
  "without_selected r = bindE r (\<lambda>(s, sl, _). Inr (s, sl\<lparr>sl_status := (sl_status sl)\<lparr>res_selected := 0\<rparr>\<rparr>))"

lemma prepare_steps:
  assumes "sl_content sl = Some c" and "map_ok (cc_conditions c)" and "map_ok (cc_derived c)"
    and "loads_apart load_many (fst ` set (cc_derived c))"
    and "\<forall>(k, a) \<in> set (cc_conditions c). a \<noteq> 0 \<and> rs_infos refs a \<noteq> None"
  shows "bindE (upool_prepare load_many refs required s u sl) (\<lambda>(s1, u1, sl1, _).
      Inr (s1, u1, sl1\<lparr>sl_status := (sl_status sl1)\<lparr>res_selected := 0\<rparr>, sl_pool := Some u1\<rparr>)) =
    bindE (upool_load load_many refs required s u sl) (\<lambda>(s1, u1, sl1, _).
      bindE (upool_compute refs required s1 u1 (sl1\<lparr>sl_pool := Some u1\<rparr>)) (\<lambda>(s2, u2, sl2, _).
        Inr (s2, u2, sl2\<lparr>sl_status := (sl_status sl2)\<lparr>res_selected := 0\<rparr>, sl_pool := Some u2\<rparr>)))"
proof (cases "select_present s u required")
  case (Inr x)
  obtain s1 u1 where x: "x = (s1, u1)" by fastforce
  have u1: "map_ok (up_conditions u1)" using select_present_ok(1) Inr x by blast
  let ?miss = "set_difference (cc_conditions c) (up_conditions u1)" and ?calc = "set_difference (cc_derived c) (up_conditions u1)"
  let ?r = "Result_new\<lparr>res_selected := of_nat (length (up_conditions u1)), res_missing := of_nat (length ?miss)\<rparr>"
  let ?sl1 = "sl\<lparr>sl_missing_conditions := [], sl_missing_derivations := []\<rparr>" and ?sl0 = "sl\<lparr>sl_missing_conditions := []\<rparr>"
  let ?dl = "cm_doLoad s" and ?do = "cm_doOutputUnloaded s"
  have miss: "map_ok ?miss" "\<forall>(k, a) \<in> set ?miss. a \<noteq> 0 \<and> rs_infos refs a \<noteq> None"
    using assms(5) unfolding set_difference_spec [OF assms(2) u1] by (auto intro: map_ok_filter [OF assms(2)])
  have "load_step load_many refs ?dl ?do True required (cc_conditions c) ?miss (length ?calc) s1 u1 ?sl1
        (?r\<lparr>res_missing := res_missing ?r + of_nat (length ?calc)\<rparr>) =
      load_step load_many refs ?dl ?do False required (cc_conditions c) ?miss (length ?calc) s1 u1 ?sl1
        (?r\<lparr>res_missing := res_missing ?r + of_nat (length ?calc)\<rparr>)"
    using miss(2) _ miss(1) loads_apart_ordered [OF assms(4)] by (rule load_step_verbose) simp_all
  also have "\<dots> = bindE (load_step load_many refs ?dl ?do False required (cc_conditions c) ?miss 0 s1 u1 ?sl0 ?r) (\<lambda>(s2, u2, sl2, q).
      Inr (s2, u2, ?sl1\<lparr>sl_missing_conditions := sl_missing_conditions sl2\<rparr>, q\<lparr>res_missing := res_missing q + of_nat (length ?calc)\<rparr>))"
    by (rule load_step_slice) simp
  finally have load: "load_step load_many refs ?dl ?do True required (cc_conditions c) ?miss (length ?calc) s1 u1 ?sl1
        (Result_new\<lparr>res_selected := of_nat (length (up_conditions u1)), res_missing := of_nat (length ?miss) + of_nat (length ?calc)\<rparr>) =
      bindE (load_step load_many refs ?dl ?do False required (cc_conditions c) ?miss 0 s1 u1 ?sl0 ?r) (\<lambda>(s2, u2, sl2, q).
        Inr (s2, u2, ?sl1\<lparr>sl_missing_conditions := sl_missing_conditions sl2\<rparr>, q\<lparr>res_missing := res_missing q + of_nat (length ?calc)\<rparr>))"
    by simp
  show ?thesis
  proof (cases "load_step load_many refs ?dl ?do False required (cc_conditions c) ?miss 0 s1 u1 ?sl0 ?r")
    case l: (Inr y)
    obtain s2 u2 sl2 q where y: "y = (s2, u2, sl2, q)" by (cases y) auto
    note l = l [unfolded y]
    note res = load_step_results [OF l u1] and apart = load_step_apart [OF l u1 assms(4,3)]
    note set = select_present_settings [OF Inr [unfolded x]]
    let ?K = "compute_missing refs ?dl ?do ?calc s2 u2 ?sl1 Result_new"
    let ?A = "?sl1\<lparr>sl_missing_conditions := sl_missing_conditions sl2\<rparr>" and ?rA = "q\<lparr>res_missing := res_missing q + of_nat (length ?calc)\<rparr>"
    let ?B = "sl2\<lparr>sl_status := q, sl_pool := Some u2, sl_missing_derivations := []\<rparr>"
    let ?rB = "Result_new\<lparr>res_selected := of_nat (length (up_conditions u2)), res_missing := of_nat (length ?calc)\<rparr>"
    have A: "compute_missing refs ?dl ?do ?calc s2 u2 ?A ?rA = bindE ?K (\<lambda>(s3, u3, sl3, p).
        Inr (s3, u3, ?A\<lparr>sl_missing_derivations := sl_missing_derivations sl3\<rparr>, result_plus ?rA p))"
      by (rule compute_missing_slice) (use res(3) in \<open>simp_all add: Result_new_def\<close>)
    have B: "compute_missing refs ?dl ?do ?calc s2 u2 ?B ?rB = bindE ?K (\<lambda>(s3, u3, sl3, p).
        Inr (s3, u3, ?B\<lparr>sl_missing_derivations := sl_missing_derivations sl3\<rparr>, result_plus ?rB p))"
      by (rule compute_missing_slice) (simp_all add: Result_new_def)
    have content: "slice_content (sl2\<lparr>sl_status := q, sl_pool := Some u2\<rparr>) = Inr c"
      using res(4) assms(1) by (cases sl2) (simp add: slice_content_def)
    have P: "upool_prepare load_many refs required s u sl = bindE (compute_missing refs ?dl ?do ?calc s2 u2 ?A ?rA) (\<lambda>(s3, u3, sl3, r3).
        bindE (use_pools required s3 u3 (sl3\<lparr>sl_status := r3\<rparr>)) (\<lambda>(s4, sl4). Inr (s4, u3, sl4, r3)))"
      by (simp add: upool_prepare_def slice_content_def assms(1) Inr x Let_def load l)
    have C: "upool_compute refs required s2 u2 (sl2\<lparr>sl_status := q, sl_pool := Some u2\<rparr>) =
        bindE (compute_missing refs ?dl ?do ?calc s2 u2 ?B ?rB) (\<lambda>(s3, u3, sl3, r3).
        bindE (use_pools required s3 u3 (sl3\<lparr>sl_status := result_plus (sl_status sl3) r3\<rparr>)) (\<lambda>(s4, sl4). Inr (s4, u3, sl4, r3)))"
      by (simp add: upool_compute_def content apart set Let_def)
    have L: "upool_load load_many refs required s u sl = Inr (s2, u2, sl2\<lparr>sl_status := q\<rparr>, q)"
      by (simp add: upool_load_def slice_content_def assms(1) Inr x Let_def l)
    show ?thesis
    proof (cases ?K)
      case k: (Inr z)
      obtain s3 u3 sl3 p where z: "z = (s3, u3, sl3, p)" by (cases z) auto
      let ?A3 = "?A\<lparr>sl_missing_derivations := sl_missing_derivations sl3, sl_status := result_plus ?rA p\<rparr>"
      let ?B3 = "?B\<lparr>sl_missing_derivations := sl_missing_derivations sl3, sl_status := result_plus q (result_plus ?rB p)\<rparr>"
      have sl2: "sl_used_pools sl2 = sl_used_pools sl" "sl_flags sl2 = sl_flags sl" "sl_content sl2 = sl_content sl"
        by (subst res(4), simp)+
      have U: "use_pools required s3 u3 ?B3 = bindE (use_pools required s3 u3 ?A3) (\<lambda>(s4, sl4). Inr (s4, ?B3\<lparr>sl_used_pools := sl_used_pools sl4\<rparr>))"
        by (rule use_pools_slice) (simp_all add: sl2)
      have U': "use_pools required s3 u3 ?A3 = bindE (use_pools required s3 u3 ?A3) (\<lambda>(s4, sl4). Inr (s4, ?A3\<lparr>sl_used_pools := sl_used_pools sl4\<rparr>))"
        by (rule use_pools_slice) simp_all
      have PP: "upool_prepare load_many refs required s u sl = bindE (use_pools required s3 u3 ?A3) (\<lambda>(s4, sl4).
          Inr (s4, u3, sl4, result_plus ?rA p))"
        unfolding P A k z by simp
      have CC: "upool_compute refs required s2 u2 (sl2\<lparr>sl_status := q, sl_pool := Some u2\<rparr>) =
          bindE (use_pools required s3 u3 ?B3) (\<lambda>(s4, sl4). Inr (s4, u3, sl4, result_plus ?rB p))"
        unfolding C B k z by simp
      show ?thesis
      proof (cases "use_pools required s3 u3 ?A3")
        case v: (Inr w)
        obtain s4 sl4 where w: "w = (s4, sl4)" by fastforce
        obtain used where sl4: "sl4 = ?A3\<lparr>sl_used_pools := used\<rparr>" using U' v w by simp
        obtain m where m: "sl2 = ?sl0\<lparr>sl_missing_conditions := m\<rparr>" using res(4) by metis
        have "res_computed q = 0" using res(3) by (simp add: Result_new_def)
        then show ?thesis unfolding PP L bindE_simps prod.case CC U v w
          by (simp add: sl4 m result_plus_def Result_new_def algebra_simps)
      next
        case (Inl e)
        then show ?thesis unfolding PP L bindE_simps prod.case CC U by simp
      qed
    next
      case (Inl e)
      then show ?thesis unfolding P A L bindE_simps prod.case C B by simp
    qed
  qed (simp add: upool_prepare_def upool_load_def slice_content_def assms(1) Inr x Let_def load)
qed (simp add: upool_prepare_def upool_load_def slice_content_def assms(1))

lemma dependencies_keys: "dependencies_at refs es = Inr deps \<Longrightarrow> List.map fst deps = List.map fst es"
  by (induction es arbitrary: deps) (auto simp: bindE_Inr_iff dependency_at_def split: option.splits)

lemma compute_missing_counts:
  assumes "compute_missing refs True do_output calc_missing s u sl r = Inr (s1, u1, sl1, q)" and "distinct (List.map fst calc_missing)"
    and "res_computed r = 0"
  shows "res_computed q = of_nat (length calc_missing)" "res_missing q = res_missing r - of_nat (length calc_missing)"
    "sl_missing_derivations sl1 = sl_missing_derivations sl"
proof -
  note fst_deps = dependencies_keys
  have "res_computed q = of_nat (length calc_missing) \<and> res_missing q = res_missing r - of_nat (length calc_missing) \<and>
    sl_missing_derivations sl1 = sl_missing_derivations sl"
  proof (cases "calc_missing = []")
    case False
    then obtain deps n where d: "dependencies_at refs calc_missing = Inr deps" "run_handler s u deps = Inr (s1, u1, n)"
      "q = r\<lparr>res_computed := of_nat n, res_missing := res_missing r - of_nat n\<rparr>"
      and sl1: "sl1 = (if do_output \<and> (of_nat n :: u64) < of_nat (length deps)
            then sl\<lparr>sl_missing_derivations := insert_all (sl_missing_derivations sl)
                   (filter (\<lambda>(k, a). map_of (up_conditions u1) k = None) calc_missing)\<rparr> else sl)"
      using assms(1) by (auto simp: compute_missing_def bindE_Inr_iff)
    have "length deps = length calc_missing" using arg_cong [OF fst_deps [OF d(1)], of length] by simp
    moreover have "n = length deps" using run_handler_calls [OF d(2)] fst_deps [OF d(1)] assms(2) by simp
    ultimately show ?thesis using d(3) sl1 by simp
  qed (use assms in \<open>simp add: compute_missing_def\<close>)
  then show "res_computed q = of_nat (length calc_missing)" "res_missing q = res_missing r - of_nat (length calc_missing)"
    "sl_missing_derivations sl1 = sl_missing_derivations sl" by blast+
qed

lemma handler_end_Nil: "\<exists>h. handler_end s u [] = Inr h \<and> hd_pool h = u"
  by (simp add: handler_end_def Handler_new_def handler_compute_def handler_resolve_def resolve_all_def register_all_def)

lemma run_handler_end: "run_handler s u deps = Inr (s', u', n) \<Longrightarrow> \<exists>h. handler_end s u deps = Inr h \<and> u' = hd_pool h"
  by (auto simp: run_handler_def run_handler_to_def handler_end_def bindE_Inr_iff)

lemma compute_missing_run:
  assumes "compute_missing refs True do_output calc_missing s u sl r = Inr (s1, u1, sl1, q)"
  obtains deps h where "dependencies_at refs calc_missing = Inr deps" "handler_end s u deps = Inr h" "u1 = hd_pool h"
proof (cases "calc_missing = []")
  case True
  then show ?thesis using assms that handler_end_Nil [of s u] by (auto simp: compute_missing_def)
next
  case False
  then show ?thesis using assms that by (auto simp: compute_missing_def bindE_Inr_iff dest!: run_handler_end)
qed

section \<open>What loading leaves\<close>

definition validity_in :: "CondState \<Rightarrow> cond \<Rightarrow> Key" where
  "validity_in s x = iov_keyData (the (cs_iov s (co_iov (the (cs_cond s x)))))"

text \<open>A loaded condition exists under the key it was loaded for, and has an interval.\<close>

definition loaded_ok :: "CondState \<Rightarrow> u64 \<times> cond \<Rightarrow> bool" where
  "loaded_ok s = (\<lambda>(k, x). \<exists>ob v. cond_get s x = Inr ob \<and> co_hash ob = k \<and> iov_get s (co_iov ob) = Inr v)"

lemma insert_loaded_all:
  "\<forall>e \<in> set loaded. loaded_ok s e \<Longrightarrow> foldE (insert_loaded s) u loaded = Inr (u\<lparr>
     up_conditions := insert_all (up_conditions u) loaded,
     up_iov := (up_iov u)\<lparr>iov_keyData := foldl key_intersection (iov_keyData (up_iov u)) (List.map (validity_in s \<circ> snd) loaded)\<rparr>\<rparr>)"
proof (induction loaded arbitrary: u)
  case (Cons e loaded)
  obtain k x where e: "e = (k, x)" by fastforce
  then obtain ob v where ob: "cond_get s x = Inr ob" "co_hash ob = k" "iov_get s (co_iov ob) = Inr v"
    using Cons.prems by (auto simp: loaded_ok_def)
  then have "validity_in s x = iov_keyData v"
    by (auto simp: validity_in_def cond_get_def iov_get_def split: option.splits if_splits)
  moreover have "\<forall>e \<in> set loaded. loaded_ok s e" using Cons.prems by simp
  ultimately show ?case using Cons.IH ob
    by (simp add: e insert_loaded_def insert_all_def iov_intersection_key_def)
qed (simp add: insert_all_def)

lemma invert_reset: "iov_keyData (iov_invert (iov_reset v)) = key_forever"
  by (simp add: iov_invert_def iov_reset_def key_forever_def)

lemma select_present_spec:
  assumes "mgr_ok s" and "up_iovPool u < length (cm_rawPool s)" and "cm_rawPool s ! up_iovPool u = Some ip"
  shows "\<exists>m w. select_present s u required = Inr (aged s (ip_elements ip) (iov_keyData required), u\<lparr>up_conditions := m, up_iov := w\<rparr>) \<and>
    map_ok m \<and> (\<forall>k. map_of m k = find (\<lambda>x. hash_in s x = k) (concat (List.map (pool_conds s \<circ> snd) (matching_elements ip required)))) \<and>
    iov_keyData w = foldl key_intersection key_forever (List.map fst (matching_elements ip required))"
proof -
  note me = mgr_ok_elements [OF assms]
  let ?v = "iov_invert (iov_reset (IOV_new (iov_iovType required)))"
  obtain n where n: "iovpool_select_map s ip required [] ?v = Inr (aged s (ip_elements ip) (iov_keyData required),
    foldl (\<lambda>m c. fst (map_emplace (hash_in s c) c m)) [] (concat (List.map (pool_conds s \<circ> snd) (matching_elements ip required))),
    ?v\<lparr>iov_keyData := foldl key_intersection (iov_keyData ?v) (List.map fst (matching_elements ip required))\<rparr>, n)"
    using select_map_spec [OF me(1,2)] by blast
  have "user_iovpool s u = Inr ip" using assms(2,3) by (simp add: user_iovpool_def raw_pool_def)
  then show ?thesis by (intro exI conjI) (auto simp: select_present_def n select_map_find select_map_ok invert_reset)
qed

section \<open>Cleaning and the pools held\<close>

lemma clean_types_effect:
  assumes "mgr_ok s" and "\<forall>i \<in> set js. i < length (cm_rawPool s)" and "distinct js"
    and "clean_types accept cleaner s js (n, m) = Inr (s', n', m')"
  shows "\<exists>G. cs_pool s' = cs_pool s |` (- G) \<and> cs_cond s' = cs_cond s |` (- (\<Union>p \<in> G. set (pool_conds s p))) \<and>
    G \<inter> set (cs_held s) = {} \<and> G \<subseteq> dom (cs_pool s) \<and>
    (\<forall>i \<in> set js. \<forall>ip. cm_rawPool s ! i = Some ip \<longrightarrow> accept ip \<longrightarrow>
       (\<forall>(k, p) \<in> set (ip_elements ip). cleaner (the (cs_pool s p)) \<longrightarrow> p \<notin> set (cs_held s) \<longrightarrow> p \<in> G))"
  using assms
proof (induction js arbitrary: s n m)
  case Nil
  then show ?case by (intro exI [of _ "{}"]) simp
next
  case (Cons i js)
  have i: "i < length (cm_rawPool s)" using Cons.prems(2) by simp
  then have r: "raw_pool s i = Inr (cm_rawPool s ! i)" by (simp add: raw_pool_def)
  have js: "\<forall>i \<in> set js. i < length (cm_rawPool s)" "distinct js" using Cons.prems(2,3) by simp_all
  show ?case
  proof (cases "\<exists>ip. cm_rawPool s ! i = Some ip \<and> accept ip")
    case False
    then have "clean_types accept cleaner s js (n, m) = Inr (s', n', m')"
      using Cons.prems(4) r by (auto split: option.splits)
    from Cons.IH [OF Cons.prems(1) js this] show ?thesis using False by auto
  next
    case True
    then obtain ip where ip: "cm_rawPool s ! i = Some ip" "accept ip" by blast
    let ?ip = "ip\<lparr>ip_elements := filter (\<lambda>(k, p). \<not> cleaner (the (cs_pool s p))) (ip_elements ip)\<rparr>"
    let ?gone = "List.map snd (filter (\<lambda>(k, p). cleaner (the (cs_pool s p))) (ip_elements ip))"
    obtain s1 k where s1: "iovpool_clean_by s ip cleaner = Inr (s1, ?ip, k)" "destroyed s ?gone s1"
      "mgr_ok (raw_pool_put s1 i ?ip)"
      using clean_by_spec [OF Cons.prems(1) i ip(1), of cleaner] by blast
    let ?s2 = "raw_pool_put s1 i ?ip" and ?H = "set (cs_held s)" and ?g = "set ?gone - set (cs_held s)"
    have s2: "cm_rawPool ?s2 = (cm_rawPool s)[i := Some ?ip]" "cs_held ?s2 = cs_held s"
      "cs_pool ?s2 = cs_pool s |` (- ?g)" "cs_cond ?s2 = cs_cond s |` (- (\<Union>p \<in> ?g. set (pool_conds s p)))"
      using s1(2) by (simp_all add: destroyed_def raw_pool_put_def)
    have run: "clean_types accept cleaner ?s2 js (n + 1, m + k) = Inr (s', n', m')" using Cons.prems(4) r ip s1(1) by simp
    have bound: "\<forall>j \<in> set js. j < length (cm_rawPool ?s2)" using js(1) s2(1) by simp
    obtain G where G: "cs_pool s' = cs_pool ?s2 |` (- G)" "cs_cond s' = cs_cond ?s2 |` (- (\<Union>p \<in> G. set (pool_conds ?s2 p)))"
      "G \<inter> set (cs_held ?s2) = {}" "G \<subseteq> dom (cs_pool ?s2)"
      "\<forall>j \<in> set js. \<forall>ip. cm_rawPool ?s2 ! j = Some ip \<longrightarrow> accept ip \<longrightarrow>
       (\<forall>(k, p) \<in> set (ip_elements ip). cleaner (the (cs_pool ?s2 p)) \<longrightarrow> p \<notin> set (cs_held ?s2) \<longrightarrow> p \<in> G)"
      using Cons.IH [OF s1(3) bound js(2) run] by blast
    have same: "cs_pool ?s2 p = cs_pool s p" if "p \<notin> ?g" for p using that s2(3) by (simp add: restrict_map_def)
    have Gg: "p \<notin> ?g" if "p \<in> G" for p using that G(4) unfolding s2(3) dom_restrict by blast
    have pc: "pool_conds ?s2 p = pool_conds s p" if "p \<in> G" for p using same [OF Gg [OF that]] by (simp add: pool_conds_def)
    have gone: "?g \<subseteq> dom (cs_pool s)"
      using mgr_ok_elements(1) [OF Cons.prems(1) i ip(1)] by (fastforce simp: pool_live_def)
    have "cs_pool s' = cs_pool s |` (- (?g \<union> G))" unfolding G(1) s2(3) by (auto simp: restrict_map_def)
    moreover have "cs_cond s' = cs_cond s |` (- (\<Union>p \<in> ?g \<union> G. set (pool_conds s p)))"
      unfolding G(2) s2(4) using pc by (auto simp: restrict_map_def)
    moreover have "(?g \<union> G) \<inter> ?H = {}" using G(3) s2(2) by auto
    moreover have "?g \<union> G \<subseteq> dom (cs_pool s)" using gone G(4) unfolding s2(3) dom_restrict by blast
    moreover have "p \<in> ?g \<union> G" if "j \<in> set (i # js)" "cm_rawPool s ! j = Some jp" "accept jp" "(l, p) \<in> set (ip_elements jp)"
        "cleaner (the (cs_pool s p))" "p \<notin> ?H" for j jp l p
    proof (cases "j = i")
      case True
      then show ?thesis using that ip(1) by force
    next
      case False
      then have "j \<in> set js" "cm_rawPool ?s2 ! j = Some jp" using that(1,2) s2(1) by simp_all
      then show ?thesis using G(5) that(3-6) same [of p] s2(2) by (cases "p \<in> ?g") fastforce+
    qed
    ultimately show ?thesis by (intro exI [of _ "?g \<union> G"]) blast
  qed
qed

section \<open>Properties\<close>

text \<open>C26. Preparing a slice does the same as loading it and then computing it, errors included: the store, the user
  pool, the pools held, the missing entries and the status are the same, except that the second
  way counts the selected conditions twice. The loader must respect the manager's settings and must not load a
  condition that the content wants derived, and every condition of the content needs load
  information (\<open>prepare\<close> prints it).\<close>

theorem prepare_is_load_and_compute:
  assumes "sl_content sl = Some c" and "map_ok (cc_conditions c)" and "map_ok (cc_derived c)"
    and "loads_apart load_many (fst ` set (cc_derived c))"
    and "\<forall>(k, a) \<in> set (cc_conditions c). a \<noteq> 0 \<and> rs_infos refs a \<noteq> None"
  shows "without_selected (mgr_prepare has_loader load_many cleaner refs s required sl) =
    without_selected (bindE (mgr_load has_loader load_many refs s required sl) (\<lambda>(s1, sl1, _). mgr_compute cleaner refs s1 required sl1))"
proof (cases "checked_pool has_loader s required sl")
  case u: (Inr u)
  show ?thesis
  proof (cases "pushUpdates s")
    case s1: (Inr s1)
    let ?finish = "\<lambda>(s2, u2, sl2). bindE (auto_clean cleaner s2) (\<lambda>s3. Inr (s3, sl2))"
    let ?strip = "\<lambda>(s1, u1, sl1, _). Inr (s1, u1, sl1\<lparr>sl_status := (sl_status sl1)\<lparr>res_selected := 0\<rparr>, sl_pool := Some u1\<rparr>)"
    have fin: "without_selected (bindE r (\<lambda>(s2, u2, sl2, q). bindE (auto_clean cleaner s2) (\<lambda>s3. Inr (s3, sl2\<lparr>sl_pool := Some u2\<rparr>, q)))) =
        bindE (bindE r ?strip) ?finish" for r :: "(CondState \<times> UserPool \<times> ConditionsSlice \<times> Result) cpp"
    proof (cases r)
      case (Inr x)
      obtain s2 u2 sl2 q where "x = (s2, u2, sl2, q)" by (cases x) auto
      then show ?thesis using Inr by (cases "auto_clean cleaner s2") (simp_all add: without_selected_def)
    qed (simp add: without_selected_def)
    have assoc: "bindE (bindE r f) g = bindE r (\<lambda>x. bindE (f x) g)" for r :: "'r cpp" and f :: "'r \<Rightarrow> 't cpp" and g :: "'t \<Rightarrow> 'v cpp"
      by (cases r) simp_all
    have "without_selected (mgr_prepare has_loader load_many cleaner refs s required sl) =
        bindE (bindE (upool_prepare load_many refs required s1 u sl) ?strip) ?finish"
      by (simp add: mgr_prepare_def u s1 fin)
    also have "\<dots> = bindE (bindE (upool_load load_many refs required s1 u sl) (\<lambda>(s1, u1, sl1, _).
        bindE (upool_compute refs required s1 u1 (sl1\<lparr>sl_pool := Some u1\<rparr>)) ?strip)) ?finish"
      using prepare_steps [OF assms] by (simp add: case_prod_unfold)
    also have "\<dots> = without_selected (bindE (mgr_load has_loader load_many refs s required sl)
        (\<lambda>(s1, sl1, _). mgr_compute cleaner refs s1 required sl1))"
    proof (cases "upool_load load_many refs required s1 u sl")
      case (Inr x)
      obtain s2 u2 sl2 q where "x = (s2, u2, sl2, q)" by (cases x) auto
      then show ?thesis using Inr by (simp add: mgr_load_def u s1 mgr_compute_def slice_user_pool_def fin)
    qed (simp add: mgr_load_def u s1 without_selected_def)
    finally show ?thesis .
  qed (simp add: mgr_prepare_def mgr_load_def u without_selected_def)
qed (simp add: mgr_prepare_def mgr_load_def without_selected_def)

text \<open>C28. Computing the missing derived conditions of a slice, from a store whose unused addresses are free (\<open>conds_fresh\<close>), when it succeeds and the manager is set to load
  (\<open>doLoad\<close>, the default): there is a complete run of the handler for exactly the missing
  ones, in which the creation callback of each was entered once and no other one; the condition of each is
  then in a pool of the manager, and the user pool finds its key. When no two dependencies share a condition,
  and each is kept in the content under the key it names (as \<open>addDependency\<close> does), no key of the content is missing any more. The result
  counts every missing one as computed and none as missing, and the slice reports none. When the manager is set not to
  load, nothing is derived: the user pool stays, all are counted as missing, and the slice reports them
  if \<open>doOutputUnloaded\<close> is set.\<close>

theorem compute_derives_each_once:
  assumes "upool_compute refs required s u sl = Inr (s', u', sl', r)"
    and "sl_content sl = Some c" and "map_ok (cc_derived c)" and "map_ok (up_conditions u)" and "conds_fresh s"
    and "missing = filter (\<lambda>(k, a). map_of (up_conditions u) k = None) (cc_derived c)"
  shows "if cm_doLoad s then
      (\<exists>deps h. dependencies_at refs missing = Inr deps \<and> handler_end s u deps = Inr h \<and> u' = hd_pool h \<and>
        (\<forall>k. count_list (hd_created h) k = (if k \<in> fst ` set missing then 1 else 0)) \<and>
        (\<forall>k \<in> fst ` set missing. (\<exists>i key. holds_condition (hd_store h) i key (derived_of h k)) \<and>
           map_of (up_conditions u') (hash_in (hd_store h) (derived_of h k)) \<noteq> None) \<and>
        (inj_on (derived_of h) (fst ` set missing) \<and> (\<forall>(k, d) \<in> set deps. cd_target d = k) \<longrightarrow>
           (\<forall>k \<in> fst ` set missing. map_of (up_conditions u') k \<noteq> None))) \<and>
      res_computed r = of_nat (length missing) \<and> res_missing r = 0 \<and> sl_missing_derivations sl' = []
    else u' = u \<and> res_computed r = 0 \<and> res_missing r = of_nat (length missing) \<and>
      sl_missing_derivations sl' = (if cm_doOutputUnloaded s then missing else [])"
proof -
  let ?r = "Result_new\<lparr>res_selected := of_nat (length (up_conditions u)), res_missing := of_nat (length missing)\<rparr>"
  have sd: "set_difference (cc_derived c) (up_conditions u) = missing" unfolding assms(6) by (rule set_difference_spec [OF assms(3,4)])
  have ok: "map_ok missing" unfolding assms(6) by (rule map_ok_filter [OF assms(3)])
  obtain s1 sl1 where k: "compute_missing refs (cm_doLoad s) (cm_doOutputUnloaded s) missing s u (sl\<lparr>sl_missing_derivations := []\<rparr>) ?r = Inr (s1, u', sl1, r)"
    and up: "use_pools required s1 u' (sl1\<lparr>sl_status := result_plus (sl_status sl1) r\<rparr>) = Inr (s', sl')"
    using assms(1) by (auto simp: upool_compute_def slice_content_def assms(2) Let_def sd bindE_Inr_iff)
  have same: "sl_missing_derivations sl' = sl_missing_derivations sl1" by (rule use_pools_frame [OF up]) simp
  show ?thesis
  proof (cases "cm_doLoad s")
    case True
    then have "cm_doLoad s = True" by simp
    note k = k [unfolded this]
    note c = compute_missing_counts [OF k map_ok_distinct [OF ok]]
    obtain deps h where h: "dependencies_at refs missing = Inr deps" "handler_end s u deps = Inr h" "u' = hd_pool h"
      by (rule compute_missing_run [OF k])
    have keys: "fst ` set deps = fst ` set missing" using dependencies_keys [OF h(1)] by (metis list.set_map)
    note d = derivation_end [OF assms(5) h(2)]
    have "map_of (up_conditions u') k \<noteq> None"
      if "inj_on (derived_of h) (fst ` set missing)" "\<forall>(k, d) \<in> set deps. cd_target d = k" "k \<in> fst ` set missing" for k
      using d(2) d(3) [OF that(1) [folded keys] that(2)] that(3) unfolding h(3) keys by metis
    then show ?thesis using True c same h d(1,2) unfolding keys by (auto simp: Result_new_def)
  next
    case False
    then have "u' = u \<and> r = ?r \<and> sl_missing_derivations sl1 = (if cm_doOutputUnloaded s then missing else [])"
      using k insert_all_Nil [OF ok] by (auto simp: compute_missing_def split: if_splits)
    then show ?thesis using False same by (simp add: Result_new_def)
  qed
qed

text \<open>C27. What loading leaves, for every setting of the manager, from a consistent manager (\<open>mgr_ok\<close>), for a user pool on one of its interval
  pools and a slice that has a content. If it is asked, the loader is assumed to succeed and to return a map of conditions that exist with their intervals. The loader is asked if something is missing and
  \<open>doLoad\<close> is set; what it delivers is used if it also reports updates. The user pool then holds all conditions
  that the manager holds for the required time, the first pool in the order of the keys winning, completed by what the
  loader delivered. Counted as missing is exactly the part of the content that is neither; the
  slice reports this part if \<open>doOutputUnloaded\<close> is set (it is off by default), but not
  when the loader was asked and reported no updates. The count of loaded conditions is the content less what is missing (so selected conditions count
  as loaded) when the loader reported updates, 0 otherwise. The interval of the pool is the
  intersection of those of the pools used and the conditions loaded.\<close>

theorem loading_result:
  assumes "mgr_ok s" and "up_iovPool u < length (cm_rawPool s)" and "cm_rawPool s ! up_iovPool u = Some ip"
    and "sl_content sl = Some c" and "map_ok (cc_conditions c)"
    and "present = concat (List.map (pool_conds s \<circ> snd) (matching_elements ip required))"
    and "missing = filter (\<lambda>(k, a). \<forall>x \<in> set present. hash_in s x \<noteq> k) (cc_conditions c)"
    and "asked \<longleftrightarrow> missing \<noteq> [] \<and> cm_doLoad s"
    and "asked \<Longrightarrow> load_many (aged s (ip_elements ip) (iov_keyData required)) required missing = Inr (s2, loaded, n) \<and>
      map_ok loaded \<and> (\<forall>e \<in> set loaded. loaded_ok s2 e)"
    and "got = (if asked \<and> 0 < n then loaded else [])"
  shows "\<exists>s' u' sl' r rest. upool_load load_many refs required s u sl = Inr (s', u', sl', r) \<and>
    s' = (if asked then s2 else aged s (ip_elements ip) (iov_keyData required)) \<and>
    (\<forall>k. map_of (up_conditions u') k = (case find (\<lambda>x. hash_in s x = k) present of Some x \<Rightarrow> Some x | None \<Rightarrow> map_of got k)) \<and>
    rest = filter (\<lambda>(k, a). map_of (up_conditions u') k = None) (cc_conditions c) \<and>
    sl_missing_conditions sl' = (if cm_doOutputUnloaded s \<and> (asked \<longrightarrow> 0 < n) then rest else []) \<and>
    res_missing r = of_nat (length rest) \<and>
    res_loaded r = (if asked \<and> 0 < n then of_nat (length (cc_conditions c)) - of_nat (length rest) else 0) \<and>
    span (iov_keyData (up_iov u')) = span key_forever \<inter> (\<Inter>(k, p) \<in> set (matching_elements ip required). span k) \<inter>
      (\<Inter>(k, x) \<in> set got. span (validity_in s2 x))"
proof -
  let ?s1 = "aged s (ip_elements ip) (iov_keyData required)"
  obtain m w where sel: "select_present s u required = Inr (?s1, u\<lparr>up_conditions := m, up_iov := w\<rparr>)" "map_ok m"
    "\<forall>k. map_of m k = find (\<lambda>x. hash_in s x = k) present"
    "iov_keyData w = foldl key_intersection key_forever (List.map fst (matching_elements ip required))"
    using select_present_spec [OF assms(1-3)] assms(6) by blast
  let ?u1 = "u\<lparr>up_conditions := m, up_iov := w\<rparr>"
  have "set_difference (cc_conditions c) m = filter (\<lambda>(k, a). map_of m k = None) (cc_conditions c)"
    by (rule set_difference_spec [OF assms(5) sel(2)])
  also have "\<dots> = missing" unfolding assms(7) by (rule filter_cong) (auto simp: sel(3) find_None_iff)
  finally have miss: "set_difference (cc_conditions c) m = missing" .
  have mok: "map_ok missing" unfolding assms(7) by (rule map_ok_filter [OF assms(5)])
  have got: "map_ok got" "\<forall>e \<in> set got. loaded_ok s2 e" using assms(9,10) by auto
  let ?rest = "filter (\<lambda>(k, a). map_of got k = None) missing"
  let ?u2 = "?u1\<lparr>up_conditions := insert_all m got, up_iov := w\<lparr>iov_keyData :=
    foldl key_intersection (iov_keyData w) (List.map (validity_in s2 \<circ> snd) got)\<rparr>\<rparr>"
  have rest: "set_difference missing got = ?rest" by (rule set_difference_spec [OF mok got(1)])
  have ins: "insert_all [] ?rest = ?rest" by (rule insert_all_Nil [OF map_ok_filter [OF mok]])
  have f: "foldE (insert_loaded s2) ?u1 got = Inr ?u2" using insert_loaded_all [OF got(2), of ?u1] by simp
  let ?r = "Result_new\<lparr>res_selected := of_nat (length m), res_missing := of_nat (length ?rest),
    res_loaded := (if asked \<and> 0 < n then of_nat (length (cc_conditions c)) - of_nat (length ?rest) else 0)\<rparr>"
  let ?sl = "sl\<lparr>sl_missing_conditions := if cm_doOutputUnloaded s \<and> (asked \<longrightarrow> 0 < n) then ?rest else [], sl_status := ?r\<rparr>"
  have run: "upool_load load_many refs required s u sl = Inr (if asked then s2 else ?s1, ?u2, ?sl, ?r)"
  proof (cases "asked \<and> 0 < n")
    case True
    then have "got = loaded" "missing \<noteq> []" "cm_doLoad s" "load_many ?s1 required missing = Inr (s2, loaded, n)"
      using assms(8-10) by simp_all
    then show ?thesis
      using True rest ins f by (simp add: upool_load_def slice_content_def assms(4) sel(1) Let_def miss load_step_def)
  next
    case False
    then have g: "got = []" using assms(10) by auto
    have all: "?rest = missing" "?u2 = ?u1" by (simp_all add: g insert_all_def)
    have ins': "insert_all [] missing = missing" by (rule insert_all_Nil [OF mok])
    show ?thesis unfolding all
      using False assms(8,9) ins' by (auto simp: upool_load_def slice_content_def assms(4) sel(1) Let_def miss load_step_def Result_new_def)
  qed
  have rest2: "?rest = filter (\<lambda>(k, a). map_of (up_conditions ?u2) k = None) (cc_conditions c)"
    unfolding assms(7) filter_filter
    by (rule filter_cong) (auto simp: insert_all_spec map_add_None sel(3) find_None_iff)
  have "map_of (up_conditions ?u2) k = (case find (\<lambda>x. hash_in s x = k) present of Some x \<Rightarrow> Some x | None \<Rightarrow> map_of got k)" for k
    by (simp add: insert_all_spec map_add_def sel(3) split: option.splits)
  moreover have "span (iov_keyData (up_iov ?u2)) = span key_forever \<inter> (\<Inter>(k, p) \<in> set (matching_elements ip required). span k) \<inter>
      (\<Inter>(k, x) \<in> set got. span (validity_in s2 x))"
    by (auto simp: span_fold_intersection sel(4))
  ultimately show ?thesis
    using run rest2 by (intro exI [of _ "if asked then s2 else ?s1"] exI [of _ ?u2] exI [of _ ?sl] exI [of _ ?r] exI [of _ ?rest]) simp
qed

text \<open>C29. Cleaning and the pools of a slice: a slice that references its pools (\<open>REF_POOLS\<close>) keeps every condition
  valid at the required time alive and unchanged through any cleaning at the end of \<open>prepare\<close> or
  \<open>compute\<close>. Without the flag a full cleanup deletes all of them, and the user pool is left with dangling pointers.\<close>

theorem referenced_pools_survive:
  assumes "use_pools required s u sl = Inr (s1, sl1)" and "mgr_ok s1" and "auto_clean (Some cl) s1 = Inr s2"
    and "user_iovpool s1 u = Inr ip" and "(k, p) \<in> set (matching_elements ip required)" and "x \<in> set (pool_conds s1 p)"
  shows "(sl_flags sl AND REF_POOLS \<noteq> 0 \<longrightarrow> p \<in> set (sl_used_pools sl1) \<and> cs_pool s2 p = cs_pool s1 p \<and>
      live_in s1 x \<and> cs_cond s2 x = cs_cond s1 x) \<and>
    (sl_flags sl AND REF_POOLS = 0 \<and> cs_held s1 = [] \<and> cl = full_cleanup \<longrightarrow> cond_get s2 x = Inl bad_pointer)"
proof -
  let ?js = "[0..<length (cm_rawPool s1)]"
  obtain n m where "clean_types (clean_iovpool cl) (clean_pool cl) s1 ?js (0, 0) = Inr (s2, n, m)"
    using assms(3) by (auto simp: auto_clean_def mgr_clean_def bindE_Inr_iff)
  from clean_types_effect [OF assms(2) _ _ this]
  obtain G where G: "cs_pool s2 = cs_pool s1 |` (- G)" "cs_cond s2 = cs_cond s1 |` (- (\<Union>p \<in> G. set (pool_conds s1 p)))"
    "G \<inter> set (cs_held s1) = {}" "G \<subseteq> dom (cs_pool s1)"
    "\<forall>i \<in> set ?js. \<forall>ip. cm_rawPool s1 ! i = Some ip \<longrightarrow> clean_iovpool cl ip \<longrightarrow>
       (\<forall>(k, p) \<in> set (ip_elements ip). clean_pool cl (the (cs_pool s1 p)) \<longrightarrow> p \<notin> set (cs_held s1) \<longrightarrow> p \<in> G)" by auto
  have ip: "up_iovPool u < length (cm_rawPool s1)" "cm_rawPool s1 ! up_iovPool u = Some ip"
    using assms(4) by (auto simp: user_iovpool_def raw_pool_def bindE_Inr_iff split: if_splits option.splits)
  have kp: "(k, p) \<in> set (ip_elements ip)" using assms(5) by (simp add: matching_elements_def)
  have live: "pool_live s1 p" using mgr_ok_elements(1) [OF assms(2) ip] kp by blast
  have po: "pools_ok s1" using assms(2) by (simp add: mgr_ok_def)
  have "p \<in> set (sl_used_pools sl1) \<and> cs_pool s2 p = cs_pool s1 p \<and> live_in s1 x \<and> cs_cond s2 x = cs_cond s1 x"
    if flag: "sl_flags sl AND REF_POOLS \<noteq> 0"
  proof -
    obtain s0 ip0 where u: "s1 = s0\<lparr>cs_held := cs_held s0 @ List.map snd (matching_elements ip0 required)\<rparr>"
      "sl_used_pools sl1 = List.map snd (matching_elements ip0 required)" "user_iovpool s0 u = Inr ip0"
      using assms(1) flag by (auto simp: use_pools_def iovpool_vector_def bindE_Inr_iff Let_def)
    have "user_iovpool s1 u = user_iovpool s0 u" using u(1) by (simp add: user_iovpool_def raw_pool_def)
    then have "ip0 = ip" using u(3) assms(4) by simp
    then have used: "p \<in> set (sl_used_pools sl1)" "p \<in> set (cs_held s1)" using assms(5) u(1,2) by force+
    then have "p \<notin> G" using G(3) by blast
    moreover have "x \<notin> set (pool_conds s1 p')" if g: "p' \<in> G" for p'
    proof -
      have "p' \<noteq> p" using g \<open>p \<notin> G\<close> by blast
      moreover obtain q q' where "cs_pool s1 p = Some q" "cs_pool s1 p' = Some q'" using live subsetD [OF G(4) g] by (auto simp: pool_live_def)
      ultimately show ?thesis using pools_ok_disjoint [OF po, of p q p' q'] assms(6) by blast
    qed
    ultimately show ?thesis using used live assms(6) G(1,2) by (auto simp: pool_live_def restrict_map_def)
  qed
  moreover have "cond_get s2 x = Inl bad_pointer" if "cs_held s1 = []" "cl = full_cleanup"
  proof -
    have "p \<in> G" using G(5) ip kp that by (fastforce simp: full_cleanup_def)
    then have "cs_cond s2 x = None" using G(2) assms(6) by (auto simp: restrict_map_def)
    then show ?thesis by (simp add: cond_get_def)
  qed
  ultimately show ?thesis by blast
qed

text \<open>Concrete data for the witnesses: the store of \<open>DependencyProps\<close>, a content and a loader.\<close>

definition run_refs :: RefStore where
  "run_refs = \<lparr>rs_next = 4, rs_infos = [1 \<mapsto> \<lparr>ref_count = 1, ref_object = ''a''\<rparr>, 2 \<mapsto> \<lparr>ref_count = 1, ref_object = ''b''\<rparr>],
     rs_deps = [3 \<mapsto> \<lparr>ref_count = 1, ref_object = snd (hd run_deps)\<rparr>]\<rparr>"

definition run_content :: ConditionsContent where
  "run_content = \<lparr>cc_conditions = [(77, 1), (80, 2)], cc_derived = [(90, 3)]\<rparr>"

definition run_slice :: ConditionsSlice where
  "run_slice = refPools (ConditionsSlice_new (Some run_content))"

definition run_time :: IOV where
  "run_time = IOV_discrete (Some run_type) 4"

definition run_loader :: loader where
  "run_loader s required missing =
     Inr (s\<lparr>cs_next := Suc (cs_next s), cs_cond := (cs_cond s)(cs_next s \<mapsto> \<lparr>co_value = ''w'', co_iov = 1, co_hash = 80, co_flags = 0\<rparr>)\<rparr>,
       [(80, cs_next s)], 1)"

lemma run_content_ok: "map_ok (cc_conditions run_content)" "map_ok (cc_derived run_content)"
  by (simp_all add: run_content_def map_ok_Cons)

lemma run_store_ok: "mgr_ok run_store"
  by (auto simp: mgr_ok_def pools_ok_def elements_ok_def fresh_ok_def pool_at_def run_store_def pool_live_def pool_conds_def
      live_in_def iov_ok_def IOV_with_key_def map_ok_Cons nth_Cons split: nat.splits)

definition run_iovpool :: ConditionsIOVPool where
  "run_iovpool = \<lparr>ip_elements = [(Key 1 9, 2)], ip_type = 1\<rparr>"

lemma run_iovpool: "cm_rawPool run_store ! up_iovPool run_pool = Some run_iovpool" "up_iovPool run_pool < length (cm_rawPool run_store)"
  "matching_elements run_iovpool run_time = [(Key 1 9, 2)]"
  by (simp_all add: run_iovpool_def matching_elements_def run_time_def IOV_discrete_def IOV_with_key_def key_contains_range_def
      run_store_def run_pool_def)

lemma run_prepared: "\<exists>x. mgr_prepare True run_loader None run_refs run_store run_time run_slice = Inr x"
proof -
  have b: "depth_bound [(90 :: u64, d)] = Suc (Suc (Suc 0))" for d by (simp add: depth_bound_def)
  show ?thesis
    by (simp add:  mgr_prepare_def checked_pool_def check_iov_type_discrete_def check_iov_type_def run_store_def
      run_time_def run_slice_def UserPool_new_def IOV_discrete_def IOV_with_key_def IOV_new_def run_type_def
      has_range_def refPools_def ConditionsSlice_new_def pushUpdates_def popEntries_def upool_prepare_def
      slice_content_def select_present_def user_iovpool_def raw_pool_def iovpool_select_map_def key_contains_range_def
      age_pool_def pool_get_def pool_put_def entries_select_map_def map_select_step_def cond_get_def map_emplace_def
      run_content_def Let_def load_step_def run_loader_def insert_loaded_def iov_get_def Result_new_def
      compute_missing_def dependency_at_def run_refs_def run_deps_def b run_handler_def run_handler_to_def
      handler_resolve_def handler_eval iov_intersection_key_def iov_invert_def iov_reset_def iov_intersection_def
      key_intersection_def register_all_def register_step_def handler_registerMany_def upool_registerMany_def
      registerIOV_def raw_pool_put_def blockRegister_def block_step_def adopt_condition_def pool_insert_def
      i_insert_many_def i_insert_def call_listeners_def free_block_def use_pools_def drop_pools_def REF_POOLS_def
      iovpool_vector_def matching_elements_def auto_clean_def)
qed

theorem prepare_is_load_and_compute_witness:
  "\<exists>x. mgr_prepare True run_loader None run_refs run_store run_time run_slice = Inr x \<and>
     without_selected (Inr x) = without_selected (bindE (mgr_load True run_loader run_refs run_store run_time run_slice)
       (\<lambda>(s1, sl1, _). mgr_compute None run_refs s1 run_time sl1))"
proof -
  have c: "sl_content run_slice = Some run_content" by (simp add: run_slice_def refPools_def ConditionsSlice_new_def)
  have l: "loads_apart run_loader (fst ` set (cc_derived run_content))"
    by (auto simp: loads_apart_def run_loader_def run_content_def cond_get_def map_ok_Cons split: if_splits)
  have i: "\<forall>(k, a) \<in> set (cc_conditions run_content). a \<noteq> 0 \<and> rs_infos run_refs a \<noteq> None"
    by (simp add: run_content_def run_refs_def)
  obtain x where x: "mgr_prepare True run_loader None run_refs run_store run_time run_slice = Inr x" using run_prepared by blast
  have "without_selected (mgr_prepare True run_loader None run_refs run_store run_time run_slice) =
     without_selected (bindE (mgr_load True run_loader run_refs run_store run_time run_slice)
       (\<lambda>(s1, sl1, _). mgr_compute None run_refs s1 run_time sl1))"
    by (rule prepare_is_load_and_compute [OF c run_content_ok l i])
  then show ?thesis unfolding x by blast
qed

theorem compute_derives_each_once_witness:
  "\<exists>s' u' sl' r. upool_compute run_refs run_time run_store run_pool (ConditionsSlice_new (Some run_content)) = Inr (s', u', sl', r) \<and>
     res_computed r = 1 \<and> res_missing r = 0 \<and> (\<exists>h. handler_end run_store run_pool run_deps = Inr h \<and> hd_created h = [90] \<and>
       map_of (up_conditions u') 90 \<noteq> None)"
proof -
  let ?sl = "ConditionsSlice_new (Some run_content)"
  obtain s u n where h: "run_handler run_store run_pool run_deps = Inr (s, u, n)" using run_derived by blast
  have d: "dependencies_at run_refs [(90, 3)] = Inr run_deps"
    by (simp add: dependency_at_def run_refs_def run_deps_def)
  have c: "set_difference (cc_derived run_content) (up_conditions run_pool) = [(90, 3)]"
    by (simp add: run_content_def run_pool_def)
  have dl: "cm_doLoad run_store" "\<not> cm_doOutputUnloaded run_store" by (simp_all add: run_store_def)
  have k: "\<exists>q. compute_missing run_refs True False [(90, 3)] run_store run_pool sl r = Inr (s, u, sl, q)" for sl r
    unfolding compute_missing_def d bindE_simps h prod.case by simp
  have p: "use_pools run_time s u sl = Inr (s, sl\<lparr>sl_used_pools := []\<rparr>)" if "sl_used_pools sl = []" "sl_flags sl = 0" for sl
    by (simp add: use_pools_def drop_pools_def that)
  have "\<exists>s' sl' r. upool_compute run_refs run_time run_store run_pool ?sl = Inr (s', u, sl', r)"
  proof -
    let ?s0 = "?sl\<lparr>sl_missing_derivations := []\<rparr>"
    let ?r0 = "Result_new\<lparr>res_selected := of_nat (length (up_conditions run_pool)), res_missing := of_nat (length [(90 :: u64, 3 :: nat)])\<rparr>"
    obtain q where q: "compute_missing run_refs True False [(90, 3)] run_store run_pool ?s0 ?r0 = Inr (s, u, ?s0, q)" using k by blast
    have sc: "slice_content ?sl = Inr run_content" by (simp add: slice_content_def ConditionsSlice_new_def)
    have flags: "cm_doLoad run_store = True" "cm_doOutputUnloaded run_store = False" using dl by simp_all
    have up: "use_pools run_time s u (?s0\<lparr>sl_status := result_plus (sl_status ?s0) q\<rparr>) =
        Inr (s, ?s0\<lparr>sl_status := result_plus (sl_status ?s0) q, sl_used_pools := []\<rparr>)"
      by (subst p) (simp_all add: ConditionsSlice_new_def)
    show ?thesis unfolding upool_compute_def sc bindE_simps Let_def c flags q prod.case up by blast
  qed
  then obtain s' sl' r where run: "upool_compute run_refs run_time run_store run_pool ?sl = Inr (s', u, sl', r)" by blast
  have "sl_content ?sl = Some run_content" "map_ok (up_conditions run_pool)"
    by (simp_all add: ConditionsSlice_new_def run_pool_def map_ok_Cons)
  then have ok: "sl_content ?sl = Some run_content" "map_ok (up_conditions run_pool)" by blast+
  have fresh: "conds_fresh run_store" by (simp add: run_store_def conds_fresh_def)
  have m: "filter (\<lambda>(k, a). map_of (up_conditions run_pool) k = None) (cc_derived run_content) = [(90, 3)]"
    by (simp add: run_content_def run_pool_def)
  note t = compute_derives_each_once [OF run ok(1) run_content_ok(2) ok(2) fresh refl]
  then have counts: "res_computed r = 1 \<and> res_missing r = 0" using dl(1) by (simp add: m)
  have target: "\<forall>(k, d) \<in> set run_deps. cd_target d = k" by (simp add: run_deps_def)
  from t obtain h where h: "handler_end run_store run_pool run_deps = Inr h" "u = hd_pool h"
    "\<forall>k. count_list (hd_created h) k = (if k = 90 then 1 else 0)"
    "map_of (up_conditions u) 90 \<noteq> None"
    using dl(1) d target by (auto simp: m)
  have "hd_created h = [90]"
  proof (cases "hd_created h")
    case (Cons k l)
    have "count_list l j = 0" for j using spec [OF h(3), of j] spec [OF h(3), of k] Cons by (auto split: if_splits)
    then have "j \<notin> set l" for j by (simp add: count_list_0_iff)
    then have "l = []" by (cases l) auto
    then show ?thesis using spec [OF h(3), of k] Cons by (simp split: if_splits)
  qed (use spec [OF h(3), of 90] in simp)
  then show ?thesis using run counts h(1,4) by blast
qed

theorem loading_result_witness:
  "\<exists>s2 u' sl' r. upool_load run_loader run_refs run_time (run_store\<lparr>cm_doOutputUnloaded := True\<rparr>) run_pool run_slice = Inr (s2, u', sl', r) \<and>
     map_of (up_conditions u') 77 = Some 3 \<and> map_of (up_conditions u') 80 = Some 4 \<and> sl_missing_conditions sl' = [] \<and>
     res_loaded r = 2 \<and> span (iov_keyData (up_iov u')) = {1..9}"
proof -
  let ?s = "run_store\<lparr>cm_doOutputUnloaded := True\<rparr>"
  let ?s1 = "aged ?s (ip_elements run_iovpool) (iov_keyData run_time)"
  let ?s2 = "?s1\<lparr>cs_next := Suc (cs_next ?s1), cs_cond := (cs_cond ?s1)(cs_next ?s1 \<mapsto> \<lparr>co_value = ''w'', co_iov = 1, co_hash = 80, co_flags = 0\<rparr>)\<rparr>"
  have ok: "mgr_ok ?s" by (rule mgr_ok_same [THEN iffD2, OF _ _ _ _ _ _ run_store_ok]) simp_all
  have raw: "cm_rawPool ?s ! up_iovPool run_pool = Some run_iovpool" "up_iovPool run_pool < length (cm_rawPool ?s)"
    using run_iovpool(1,2) by simp_all
  have c: "sl_content run_slice = Some run_content" by (simp add: run_slice_def refPools_def ConditionsSlice_new_def)
  have flags: "cm_doLoad ?s" "cm_doOutputUnloaded ?s" by (simp_all add: run_store_def)
  have present: "[3] = concat (List.map (pool_conds ?s \<circ> snd) (matching_elements run_iovpool run_time))"
    by (simp add: run_iovpool(3) pool_conds_def run_store_def)
  have missing: "[(80, 2)] = filter (\<lambda>(k, a). \<forall>x \<in> set [3]. hash_in ?s x \<noteq> k) (cc_conditions run_content)"
    by (simp add: run_content_def hash_in_def run_store_def)
  have nxt: "cs_next ?s1 = 4" "cs_iov ?s1 (Suc 0) = Some (IOV_with_key (Some run_type) (Key 1 9))" by (simp_all add: aged_def run_store_def)
  have load: "run_loader ?s1 run_time [(80, 2)] = Inr (?s2, [(80, 4)], 1)" by (simp add: run_loader_def nxt)
  have lok: "\<forall>e \<in> set [(80, 4)]. loaded_ok ?s2 e" 
    by (simp add: loaded_ok_def cond_get_def iov_get_def nxt)
  have mok: "map_ok [(80 :: u64, 4 :: nat)]" by (simp add: map_ok_Cons)
  have asked: "True \<longleftrightarrow> [(80 :: u64, 2 :: nat)] \<noteq> [] \<and> cm_doLoad ?s" using flags(1) by simp
  have deliver: "run_loader ?s1 run_time [(80, 2)] = Inr (?s2, [(80, 4)], 1) \<and> map_ok [(80 :: u64, 4 :: nat)] \<and>
      (\<forall>e \<in> set [(80, 4)]. loaded_ok ?s2 e)" using load lok mok by blast
  have got: "[(80, 4)] = (if True \<and> (0 :: nat) < 1 then [(80, 4)] else [])" by simp
  from loading_result [where load_many = run_loader and asked = True and n = 1,
      OF ok raw(2,1) c run_content_ok(1) present missing asked deliver got, of run_refs]
  obtain u' sl' r rest where r: "upool_load run_loader run_refs run_time ?s run_pool run_slice = Inr (?s2, u', sl', r)"
    "\<forall>k. map_of (up_conditions u') k = (case find (\<lambda>x. hash_in ?s x = k) [3] of Some x \<Rightarrow> Some x | None \<Rightarrow> map_of [(80, 4)] k)"
    "rest = filter (\<lambda>(k, a). map_of (up_conditions u') k = None) (cc_conditions run_content)" "sl_missing_conditions sl' = rest"
    "res_loaded r = of_nat (length (cc_conditions run_content)) - of_nat (length rest)"
    "span (iov_keyData (up_iov u')) = span key_forever \<inter> (\<Inter>(k, p) \<in> set (matching_elements run_iovpool run_time). span k) \<inter>
      (\<Inter>(k, x) \<in> set [(80, 4)]. span (validity_in ?s2 x))" using flags(2) by auto
  have h: "hash_in ?s 3 = 77" by (simp add: hash_in_def run_store_def)
  have found: "map_of (up_conditions u') 77 = Some 3" "map_of (up_conditions u') 80 = Some 4" by (simp_all add: r(2) h)
  have none: "sl_missing_conditions sl' = []" by (simp add: r(3,4) run_content_def found)
  have v: "validity_in ?s2 4 = Key 1 9" by (simp add: validity_in_def nxt IOV_with_key_def)
  have "span (iov_keyData (up_iov u')) = span key_forever \<inter> span (Key 1 9) \<inter> span (Key 1 9)"
    unfolding r(6) run_iovpool(3) using v by simp
  moreover have "span (Key 1 9) = {1..9}" "{1..9} \<subseteq> span key_forever" by (auto simp: span_def key_forever_def)
  ultimately have "span (iov_keyData (up_iov u')) = {1..9}" by blast
  moreover have "res_loaded r = 2" using r(4,5) none by (simp add: run_content_def)
  ultimately show ?thesis using r(1) found none by blast
qed

theorem referenced_pools_survive_witness:
  "\<exists>s1 sl1 s2. use_pools run_time run_store run_pool run_slice = Inr (s1, sl1) \<and> auto_clean (Some full_cleanup) s1 = Inr s2 \<and>
     sl_used_pools sl1 = [2] \<and> cs_cond s2 3 = Some \<lparr>co_value = ''v'', co_iov = 1, co_hash = 77, co_flags = 1\<rparr>"
proof -
  have ip: "user_iovpool (run_store\<lparr>cs_held := h\<rparr>) run_pool = Inr run_iovpool" "user_iovpool run_store run_pool = Inr run_iovpool" for h
    using run_iovpool(1,2) by (simp_all add: user_iovpool_def raw_pool_def)
  have flag: "sl_flags run_slice AND REF_POOLS \<noteq> 0" "sl_used_pools run_slice = []" "cs_held run_store = []"
    by (simp_all add: run_slice_def refPools_def ConditionsSlice_new_def REF_POOLS_def run_store_def)
  let ?s1 = "run_store\<lparr>cs_held := [2]\<rparr>"
  have run: "use_pools run_time run_store run_pool run_slice = Inr (?s1, run_slice\<lparr>sl_used_pools := [2]\<rparr>)"
    using flag by (simp add: use_pools_def drop_pools_def iovpool_vector_def ip(2) run_iovpool(3))
  have ok: "mgr_ok ?s1"
    by (rule mgr_ok_same [THEN iffD2, OF _ _ _ _ _ _ run_store_ok]) simp_all
  obtain s2 n k where cl: "mgr_clean ?s1 full_cleanup = Inr (s2, n, k)"
    using clean_types_ok [OF ok, where js = "[0..<length (cm_rawPool ?s1)]" and accept = "clean_iovpool full_cleanup" and
        cleaner = "clean_pool full_cleanup" and n = 0 and m = 0] unfolding mgr_clean_def by auto
  then have clean: "auto_clean (Some full_cleanup) ?s1 = Inr s2" by (simp add: auto_clean_def)
  have "3 \<in> set (pool_conds ?s1 2)" by (simp add: pool_conds_def run_store_def)
  from referenced_pools_survive [OF run ok clean ip(1) [of "[2]"] _ this, of "Key 1 9"]
  have "cs_cond s2 3 = cs_cond ?s1 3" using run_iovpool(3) flag by simp
  then show ?thesis using run clean by (simp add: run_store_def)
qed

end
