(* ===== verification/Evaluator.thy ===== *)
theory Evaluator
  imports CxxString
begin

text \<open>
  The expression evaluator: \<open>src/DDParsers/src/Evaluator/Evaluator.cpp\<close>, by which every number of a compact
  detector description is read. An operator precedence parser works directly on the characters, with one stack
  of operators and one of values, driven by two tables; names are looked up in a dictionary of
  numbers, functions and expressions.

  \<^item> Double precision numbers are a type parameter \<open>'d\<close> with the operations of the record \<open>Arith\<close>; which
    characters \<open>strtod\<close> takes as a number is written out (\<open>strtod_len\<close>).
  \<^item> A pointer into the expression is an index. The code passes a pointer to the last character; here
    \<open>fin\<close> is the index behind it, so that an empty range needs no negative number. \<open>operand\<close> leaves its caller
    with a pointer to the last character it took, which the caller increments; here it returns the incremented index.
  \<^item> An expression in the dictionary is evaluated by the engine again, which need not end. The engine
    is therefore given the number of activations that may be nested; None means that more
    were needed. \<open>EvaluatorProps\<close> shows when a number suffices.
  \<^item> The locks of the dictionary are left out, one thread is modelled.
\<close>

subsection \<open>Status, numbers, dictionary\<close>

datatype status =
    OK
  | WARNING_EXISTING_VARIABLE
  | WARNING_EXISTING_FUNCTION
  | WARNING_BLANK_STRING
  | ERROR_NOT_A_NAME
  | ERROR_SYNTAX_ERROR
  | ERROR_UNPAIRED_PARENTHESIS
  | ERROR_UNEXPECTED_SYMBOL
  | ERROR_UNKNOWN_VARIABLE
  | ERROR_UNKNOWN_FUNCTION
  | ERROR_EMPTY_PARAMETER
  | ERROR_CALCULATION_ERROR

text \<open>
  The arithmetic of the machine. \<open>ar_pow\<close> and \<open>ar_number\<close> (the value \<open>strtod\<close> gives to a text) are None where
  the library sets \<open>errno\<close>.
\<close>

record 'd Arith =
  ar_zero :: 'd
  ar_one :: 'd
  ar_eq :: "'d \<Rightarrow> 'd \<Rightarrow> bool"
  ar_less :: "'d \<Rightarrow> 'd \<Rightarrow> bool"
  ar_le :: "'d \<Rightarrow> 'd \<Rightarrow> bool"
  ar_add :: "'d \<Rightarrow> 'd \<Rightarrow> 'd"
  ar_sub :: "'d \<Rightarrow> 'd \<Rightarrow> 'd"
  ar_mul :: "'d \<Rightarrow> 'd \<Rightarrow> 'd"
  ar_div :: "'d \<Rightarrow> 'd \<Rightarrow> 'd"
  ar_pow :: "'d \<Rightarrow> 'd \<Rightarrow> 'd option"
  ar_number :: "string \<Rightarrow> 'd option"

datatype what = UNKNOWN | VARIABLE | EXPRESSION | FUNCTION | STRING

text \<open>
  A function takes its parameters in the order they are written and is None where it sets \<open>errno\<close>;
  a null pointer is None. Its number of parameters is the first character of its key.
\<close>

record 'd Item =
  it_what :: what
  it_variable :: 'd
  it_expression :: string
  it_function :: "('d list \<Rightarrow> 'd option) option"

type_synonym 'd dic_type = "string \<rightharpoonup> 'd Item"

definition Item_new :: "'d Arith \<Rightarrow> 'd Item" where
  "Item_new A = \<lparr>it_what = UNKNOWN, it_variable = ar_zero A, it_expression = '''', it_function = None\<rparr>"

definition Item_variable :: "'d Arith \<Rightarrow> 'd \<Rightarrow> 'd Item" where
  "Item_variable A x = (Item_new A)\<lparr>it_what := VARIABLE, it_variable := x\<rparr>"

definition Item_expression :: "'d Arith \<Rightarrow> string \<Rightarrow> 'd Item" where
  "Item_expression A e = (Item_new A)\<lparr>it_what := EXPRESSION, it_expression := e\<rparr>"

definition Item_function :: "'d Arith \<Rightarrow> ('d list \<Rightarrow> 'd option) option \<Rightarrow> 'd Item" where
  "Item_function A f = (Item_new A)\<lparr>it_what := FUNCTION, it_function := f\<rparr>"

subsection \<open>Characters\<close>

text \<open>A C string ends at its first null character; reading there gives the null character.\<close>

definition c_str :: "string \<Rightarrow> string" where
  "c_str s = takeWhile (\<lambda>c. c \<noteq> nul) s"

definition buf_at :: "string \<Rightarrow> nat \<Rightarrow> char" where
  "buf_at buf i = (if i < length buf then buf ! i else nul)"

definition cur_char :: "string \<Rightarrow> nat \<Rightarrow> nat \<Rightarrow> char" where
  "cur_char buf fin p = (if fin \<le> p then nul else buf_at buf p)"

definition isalnum :: "char \<Rightarrow> bool" where
  "isalnum c \<longleftrightarrow> isalpha c \<or> isdigit c"

definition isxdigit :: "char \<Rightarrow> bool" where
  "isxdigit c \<longleftrightarrow> isdigit c \<or> (65 \<le> char_code c \<and> char_code c \<le> 70) \<or> (97 \<le> char_code c \<and> char_code c \<le> 102)"

definition is_name_char :: "char \<Rightarrow> bool" where
  "is_name_char c \<longleftrightarrow> c = CHR ''_'' \<or> c = CHR '':'' \<or> isalnum c"

lemma isspace_nul [simp]: "\<not> isspace nul"
  by (simp add: nul_def isspace_def char_code_def)

function skip_blanks :: "string \<Rightarrow> nat \<Rightarrow> nat \<Rightarrow> nat" where
  "skip_blanks buf fin p = (if isspace (cur_char buf fin p) then skip_blanks buf fin (Suc p) else p)"
  by pat_completeness auto
termination
  by (relation "measure (\<lambda>(buf, fin, p). fin - p)") (auto simp: cur_char_def split: if_splits)

function skip_name :: "string \<Rightarrow> nat \<Rightarrow> nat \<Rightarrow> nat" where
  "skip_name buf fin p = (if p < fin \<and> is_name_char (buf_at buf p) then skip_name buf fin (Suc p) else p)"
  by pat_completeness auto
termination
  by (relation "measure (\<lambda>(buf, fin, p). fin - p)") auto

declare skip_blanks.simps [simp del] skip_name.simps [simp del]

text \<open>
  The length of the text that \<open>strtod\<close> converts, in the C locale, for a text that starts with a digit or a
  point (the only ones it is called for): a hexadecimal or a decimal mantissa with an optional exponent.
\<close>

definition mantissa_len :: "(char \<Rightarrow> bool) \<Rightarrow> string \<Rightarrow> nat" where
  "mantissa_len dig s = (let a = takeWhile dig s in
     case dropWhile dig s of
       [] \<Rightarrow> length a
     | c # r \<Rightarrow>
         if c = CHR ''.'' \<and> (a \<noteq> [] \<or> takeWhile dig r \<noteq> []) then length a + 1 + length (takeWhile dig r)
         else length a)"

definition exponent_len :: "char list \<Rightarrow> string \<Rightarrow> nat" where
  "exponent_len marks s = (case s of
       [] \<Rightarrow> 0
     | m # r \<Rightarrow>
         if m \<notin> set marks then 0
         else case r of
             [] \<Rightarrow> 0
           | c # r' \<Rightarrow>
               if c = CHR ''+'' \<or> c = CHR ''-'' then
                 (if takeWhile isdigit r' = [] then 0 else 2 + length (takeWhile isdigit r'))
               else (if takeWhile isdigit r = [] then 0 else 1 + length (takeWhile isdigit r)))"

definition decimal_len :: "string \<Rightarrow> nat" where
  "decimal_len s = (let m = mantissa_len isdigit s in
     if m = 0 then 0 else m + exponent_len ''eE'' (drop m s))"

definition hex_len :: "string \<Rightarrow> nat" where
  "hex_len s = (case s of
       z # x # r \<Rightarrow>
         if z = CHR ''0'' \<and> (x = CHR ''x'' \<or> x = CHR ''X'') then
           (let m = mantissa_len isxdigit r in if m = 0 then 0 else 2 + m + exponent_len ''pP'' (drop m r))
         else 0
     | _ \<Rightarrow> 0)"

definition strtod_len :: "string \<Rightarrow> nat" where
  "strtod_len s = (if hex_len s \<noteq> 0 then hex_len s else decimal_len s)"

subsection \<open>Variables and functions\<close>

text \<open>
  What the engine and its callers return: the result with the index behind the operand, or the end of the
  text, or a status with the position of the problem.
\<close>

datatype 'd eval = Value 'd nat | Failed status nat

type_synonym 'd nested = "string \<Rightarrow> nat \<Rightarrow> nat \<Rightarrow> 'd eval option"

definition variable :: "'d nested \<Rightarrow> 'd dic_type \<Rightarrow> string \<Rightarrow> (status + 'd) option" where
  "variable nested dict name = (case dict name of
       None \<Rightarrow> Some (Inl ERROR_UNKNOWN_VARIABLE)
     | Some item \<Rightarrow> (case it_what item of
           VARIABLE \<Rightarrow> Some (Inr (it_variable item))
         | EXPRESSION \<Rightarrow>
             (let e = c_str (it_expression item)
              in case nested e 0 (length e) of
                  None \<Rightarrow> None
                | Some (Value v p) \<Rightarrow> Some (Inr v)
                | Some (Failed st p) \<Rightarrow> Some (Inl ERROR_CALCULATION_ERROR))
         | _ \<Rightarrow> Some (Inl ERROR_CALCULATION_ERROR)))"

definition MAX_N_PAR :: nat where "MAX_N_PAR = 5"

definition sss :: string where "sss = ''012345''"

text \<open>\<open>par\<close> is the stack of parameters, the last one on top.\<close>

definition execute_function :: "'d dic_type \<Rightarrow> string \<Rightarrow> 'd list \<Rightarrow> status + 'd" where
  "execute_function dict name par = (let npar = length par in
     if npar > MAX_N_PAR then Inl ERROR_UNKNOWN_FUNCTION
     else case dict (sss ! npar # name) of
         None \<Rightarrow> Inl ERROR_UNKNOWN_FUNCTION
       | Some item \<Rightarrow> (case it_function item of
             None \<Rightarrow> Inl ERROR_CALCULATION_ERROR
           | Some fcn \<Rightarrow> (case fcn (rev par) of
                 None \<Rightarrow> Inl ERROR_CALCULATION_ERROR
               | Some v \<Rightarrow> Inr v)))"

definition call_result :: "status + 'd \<Rightarrow> nat \<Rightarrow> nat \<Rightarrow> 'd eval" where
  "call_result r start nxt = (case r of Inl st \<Rightarrow> Failed st start | Inr v \<Rightarrow> Value v nxt)"

text \<open>
  The loop that reads the parameters of a function from its opening parenthesis on: \<open>pos\<close> is the stack of the
  open parentheses, \<open>pb\<close> the start of the current parameter (\<open>par_begin\<close>).
\<close>

function call_loop :: "'d nested \<Rightarrow> 'd dic_type \<Rightarrow> string \<Rightarrow> nat \<Rightarrow> nat \<Rightarrow> string \<Rightarrow>
    nat list \<Rightarrow> 'd list \<Rightarrow> nat \<Rightarrow> nat \<Rightarrow> 'd eval option" where
  "call_loop nested dict buf fin start name pos par pb p = (let c = cur_char buf fin p in
     if c = nul then Some (Failed ERROR_UNPAIRED_PARENTHESIS (hd pos))
     else if c = CHR ''('' then call_loop nested dict buf fin start name (p # pos) par pb (Suc p)
     else if c = CHR '','' then
       (if length pos = 1 then
          (case nested buf pb p of
             None \<Rightarrow> None
           | Some (Failed st q) \<Rightarrow>
               if st = WARNING_BLANK_STRING then Some (Failed ERROR_EMPTY_PARAMETER (q - 1)) else Some (Failed st q)
           | Some (Value v q) \<Rightarrow> call_loop nested dict buf fin start name pos (v # par) (Suc p) (Suc p))
        else call_loop nested dict buf fin start name pos par pb (Suc p))
     else if c = CHR '')'' then
       (if length pos > 1 then call_loop nested dict buf fin start name (tl pos) par pb (Suc p)
        else case nested buf pb p of
             None \<Rightarrow> None
           | Some (Value v q) \<Rightarrow> Some (call_result (execute_function dict name (v # par)) start (Suc p))
           | Some (Failed st q) \<Rightarrow>
               if st = WARNING_BLANK_STRING then
                 (if par \<noteq> [] then Some (Failed ERROR_EMPTY_PARAMETER (q - 1))
                  else Some (call_result (execute_function dict name par) start (Suc p)))
               else Some (Failed st q))
     else call_loop nested dict buf fin start name pos par pb (Suc p))"
  by pat_completeness auto
termination
  by (relation "measure (\<lambda>(nested, dict, buf, fin, start, name, pos, par, pb, p). fin - p)")
    (auto simp: cur_char_def split: if_splits)

declare call_loop.simps [simp del]

definition operand :: "'d nested \<Rightarrow> 'd Arith \<Rightarrow> 'd dic_type \<Rightarrow> string \<Rightarrow> nat \<Rightarrow> nat \<Rightarrow> 'd eval option" where
  "operand nested A dict buf fin start =
     (if \<not> isalpha (buf_at buf start) then
        (let n = strtod_len (drop start buf)
         in case ar_number A (take n (drop start buf)) of
             None \<Rightarrow> Some (Failed ERROR_CALCULATION_ERROR start)
           | Some v \<Rightarrow> Some (Value v (start + n)))
      else
        (let q = skip_name buf fin start;
             name = take (q - start) (drop start buf);
             p = skip_blanks buf fin q
         in if cur_char buf fin p \<noteq> CHR ''('' then
              (case variable nested dict name of None \<Rightarrow> None | Some r \<Rightarrow> Some (call_result r start p))
            else call_loop nested dict buf fin start name [] [] (Suc p) p))"

subsection \<open>Operators\<close>

datatype tok = ENDL | LBRA | OROR | ANDAND | EQ | NE | GE | GT | LE | LT
  | PLUS | MINUS | MULT | DIV | POW | RBRA | VALUE

text \<open>The numbers of the code's enumeration, by which the tables are indexed.\<close>

primrec tok_code :: "tok \<Rightarrow> nat" where
  "tok_code ENDL = 0"
| "tok_code LBRA = 1"
| "tok_code OROR = 2"
| "tok_code ANDAND = 3"
| "tok_code EQ = 4"
| "tok_code NE = 5"
| "tok_code GE = 6"
| "tok_code GT = 7"
| "tok_code LE = 8"
| "tok_code LT = 9"
| "tok_code PLUS = 10"
| "tok_code MINUS = 11"
| "tok_code MULT = 12"
| "tok_code DIV = 13"
| "tok_code POW = 14"
| "tok_code RBRA = 15"
| "tok_code VALUE = 16"

definition truth :: "'d Arith \<Rightarrow> bool \<Rightarrow> 'd" where
  "truth A b = (if b then ar_one A else ar_zero A)"

definition is_true :: "'d Arith \<Rightarrow> 'd \<Rightarrow> bool" where
  "is_true A x \<longleftrightarrow> \<not> ar_eq A x (ar_zero A)"

definition binary :: "'d Arith \<Rightarrow> tok \<Rightarrow> 'd \<Rightarrow> 'd \<Rightarrow> status + 'd" where
  "binary A op val1 val2 = (case op of
       OROR \<Rightarrow> Inr (truth A (is_true A val1 \<or> is_true A val2))
     | ANDAND \<Rightarrow> Inr (truth A (is_true A val1 \<and> is_true A val2))
     | EQ \<Rightarrow> Inr (truth A (ar_eq A val1 val2))
     | NE \<Rightarrow> Inr (truth A (\<not> ar_eq A val1 val2))
     | GE \<Rightarrow> Inr (truth A (ar_le A val2 val1))
     | GT \<Rightarrow> Inr (truth A (ar_less A val2 val1))
     | LE \<Rightarrow> Inr (truth A (ar_le A val1 val2))
     | LT \<Rightarrow> Inr (truth A (ar_less A val1 val2))
     | PLUS \<Rightarrow> Inr (ar_add A val1 val2)
     | MINUS \<Rightarrow> Inr (ar_sub A val1 val2)
     | MULT \<Rightarrow> Inr (ar_mul A val1 val2)
     | DIV \<Rightarrow> if ar_eq A val2 (ar_zero A) then Inl ERROR_CALCULATION_ERROR else Inr (ar_div A val1 val2)
     | POW \<Rightarrow> (case ar_pow A val1 val2 of None \<Rightarrow> Inl ERROR_CALCULATION_ERROR | Some v \<Rightarrow> Inr v)
     | _ \<Rightarrow> Inl ERROR_CALCULATION_ERROR)"

text \<open>The stack of values has its top first.\<close>

definition maker :: "'d Arith \<Rightarrow> tok \<Rightarrow> 'd list \<Rightarrow> status + 'd list" where
  "maker A op vals = (case vals of
       val2 # val1 # rest \<Rightarrow> (case binary A op val1 val2 of Inl st \<Rightarrow> Inl st | Inr v \<Rightarrow> Inr (v # rest))
     | _ \<Rightarrow> Inl ERROR_SYNTAX_ERROR)"

subsection \<open>The engine\<close>

definition SyntaxTable :: "nat list list" where
  "SyntaxTable =
    [[0, 3, 0, 0, 0, 0, 0, 0, 0, 0, 2, 2, 0, 0, 0, 0, 1],
     [0, 3, 0, 0, 0, 0, 0, 0, 0, 0, 2, 2, 0, 0, 0, 0, 1],
     [0, 3, 0, 0, 0, 0, 0, 0, 0, 0, 0, 0, 0, 0, 0, 0, 1],
     [0, 3, 0, 0, 0, 0, 0, 0, 0, 0, 0, 0, 0, 0, 0, 0, 1],
     [0, 3, 0, 0, 0, 0, 0, 0, 0, 0, 0, 0, 0, 0, 0, 0, 1],
     [0, 3, 0, 0, 0, 0, 0, 0, 0, 0, 0, 0, 0, 0, 0, 0, 1],
     [0, 3, 0, 0, 0, 0, 0, 0, 0, 0, 0, 0, 0, 0, 0, 0, 1],
     [0, 3, 0, 0, 0, 0, 0, 0, 0, 0, 0, 0, 0, 0, 0, 0, 1],
     [0, 3, 0, 0, 0, 0, 0, 0, 0, 0, 0, 0, 0, 0, 0, 0, 1],
     [0, 3, 0, 0, 0, 0, 0, 0, 0, 0, 0, 0, 0, 0, 0, 0, 1],
     [0, 3, 0, 0, 0, 0, 0, 0, 0, 0, 0, 0, 0, 0, 0, 0, 1],
     [0, 3, 0, 0, 0, 0, 0, 0, 0, 0, 0, 0, 0, 0, 0, 0, 1],
     [0, 3, 0, 0, 0, 0, 0, 0, 0, 0, 0, 0, 0, 0, 0, 0, 1],
     [0, 3, 0, 0, 0, 0, 0, 0, 0, 0, 0, 0, 0, 0, 0, 0, 1],
     [0, 3, 0, 0, 0, 0, 0, 0, 0, 0, 0, 0, 0, 0, 0, 0, 1],
     [3, 0, 3, 3, 3, 3, 3, 3, 3, 3, 3, 3, 3, 3, 3, 3, 0],
     [3, 0, 3, 3, 3, 3, 3, 3, 3, 3, 3, 3, 3, 3, 3, 3, 0]]"

definition ActionTable :: "int list list" where
  "ActionTable =
    [[ 0, 1, 1, 1, 1, 1, 1, 1, 1, 1, 1, 1, 1, 1, 1,-1],
     [-1, 1, 1, 1, 1, 1, 1, 1, 1, 1, 1, 1, 1, 1, 1, 3],
     [ 4, 1, 2, 1, 1, 1, 1, 1, 1, 1, 1, 1, 1, 1, 1, 4],
     [ 4, 1, 4, 2, 1, 1, 1, 1, 1, 1, 1, 1, 1, 1, 1, 4],
     [ 4, 1, 4, 4, 2, 2, 1, 1, 1, 1, 1, 1, 1, 1, 1, 4],
     [ 4, 1, 4, 4, 2, 2, 1, 1, 1, 1, 1, 1, 1, 1, 1, 4],
     [ 4, 1, 4, 4, 4, 4, 2, 2, 2, 2, 1, 1, 1, 1, 1, 4],
     [ 4, 1, 4, 4, 4, 4, 2, 2, 2, 2, 1, 1, 1, 1, 1, 4],
     [ 4, 1, 4, 4, 4, 4, 2, 2, 2, 2, 1, 1, 1, 1, 1, 4],
     [ 4, 1, 4, 4, 4, 4, 2, 2, 2, 2, 1, 1, 1, 1, 1, 4],
     [ 4, 1, 4, 4, 4, 4, 4, 4, 4, 4, 2, 2, 1, 1, 1, 4],
     [ 4, 1, 4, 4, 4, 4, 4, 4, 4, 4, 2, 2, 1, 1, 1, 4],
     [ 4, 1, 4, 4, 4, 4, 4, 4, 4, 4, 4, 4, 2, 2, 1, 4],
     [ 4, 1, 4, 4, 4, 4, 4, 4, 4, 4, 4, 4, 2, 2, 1, 4],
     [ 4, 1, 4, 4, 4, 4, 4, 4, 4, 4, 4, 4, 4, 4, 4, 4]]"

definition syntax_of :: "tok \<Rightarrow> tok \<Rightarrow> nat" where
  "syntax_of iPrev iCur = SyntaxTable ! tok_code iPrev ! tok_code iCur"

text \<open>
  The rows and columns of \<open>ActionTable\<close> end before the tokens that are never on the operator stack, respectively
  never looked up; -1 stands for the read behind the table, which \<open>operators_stay_in_table\<close> excludes.
\<close>

definition action_of :: "tok \<Rightarrow> tok \<Rightarrow> int" where
  "action_of iTop iCur =
     (if tok_code iTop < 15 \<and> tok_code iCur < 16 then ActionTable ! tok_code iTop ! tok_code iCur else -1)"

text \<open>The next token with the index of its last character; None for an unexpected symbol.\<close>

definition next_token :: "string \<Rightarrow> nat \<Rightarrow> nat \<Rightarrow> (tok \<times> nat) option" where
  "next_token buf fin p = (let c = cur_char buf fin p; c1 = buf_at buf (Suc p) in
     if c = nul then Some (ENDL, p)
     else if c = CHR ''('' then Some (LBRA, p)
     else if c = CHR ''|'' then (if c1 = CHR ''|'' then Some (OROR, Suc p) else None)
     else if c = CHR ''&'' then (if c1 = CHR ''&'' then Some (ANDAND, Suc p) else None)
     else if c = CHR ''='' then (if c1 = CHR ''='' then Some (EQ, Suc p) else None)
     else if c = CHR ''!'' then (if c1 = CHR ''='' then Some (NE, Suc p) else None)
     else if c = CHR ''>'' then (if c1 = CHR ''='' then Some (GE, Suc p) else Some (GT, p))
     else if c = CHR ''<'' then (if c1 = CHR ''='' then Some (LE, Suc p) else Some (LT, p))
     else if c = CHR ''+'' then Some (PLUS, p)
     else if c = CHR ''-'' then Some (MINUS, p)
     else if c = CHR ''*'' then (if c1 = CHR ''*'' then Some (POW, Suc p) else Some (MULT, p))
     else if c = CHR ''/'' then Some (DIV, p)
     else if c = CHR ''^'' then Some (POW, p)
     else if c = CHR '')'' then Some (RBRA, p)
     else if c = CHR ''.'' \<or> isalnum c then Some (VALUE, p)
     else None)"

text \<open>
  The inner loop on the stacks of operators, their positions and values: it either leaves the engine or
  goes on with new stacks.
\<close>

datatype 'd step = Exit "'d eval" | Continue "tok list" "nat list" "'d list"

fun next_operator :: "'d Arith \<Rightarrow> tok \<Rightarrow> nat \<Rightarrow> tok list \<Rightarrow> nat list \<Rightarrow> 'd list \<Rightarrow> 'd step" where
  "next_operator A iCur pointer [] pos vals = Exit (Failed ERROR_SYNTAX_ERROR pointer)"
| "next_operator A iCur pointer (iTop # op) pos vals = (let a = action_of iTop iCur in
     if a = -1 then Exit (Failed ERROR_UNPAIRED_PARENTHESIS (if length (iTop # op) > 1 then hd pos else pointer))
     else if a = 0 then
       (if length vals = 1 then Exit (Value (hd vals) pointer) else Exit (Failed ERROR_SYNTAX_ERROR pointer))
     else if a = 1 then Continue (iCur # iTop # op) (pointer # pos) vals
     else if a = 2 then
       (case maker A iTop vals of
          Inl st \<Rightarrow> Exit (Failed st (hd pos))
        | Inr vals' \<Rightarrow> Continue (iCur # op) (pointer # tl pos) vals')
     else if a = 3 then Continue op (tl pos) vals
     else
       (case maker A iTop vals of
          Inl st \<Rightarrow> Exit (Failed st (hd pos))
        | Inr vals' \<Rightarrow> next_operator A iCur pointer op (tl pos) vals'))"


subsection \<open>Progress, for the main loop\<close>

lemma skip_blanks_ge: "p \<le> skip_blanks buf fin p"
proof (induction buf fin p rule: skip_blanks.induct)
  case (1 buf fin p)
  then show ?case by (subst skip_blanks.simps) (auto simp: Suc_le_eq)
qed

lemma skip_name_ge: "p \<le> skip_name buf fin p"
proof (induction buf fin p rule: skip_name.induct)
  case (1 buf fin p)
  then show ?case by (subst skip_name.simps) (auto simp: Suc_le_eq)
qed

lemma call_result_Value: "call_result r start nxt = Value v q \<Longrightarrow> q = nxt"
  by (auto simp: call_result_def split: sum.splits)

lemma call_loop_ge:
  "call_loop nested dict buf fin start name pos par pb p = Some (Value v q) \<Longrightarrow> p \<le> q"
proof (induction nested dict buf fin start name pos par pb p rule: call_loop.induct)
  case (1 nested dict buf fin start name pos par pb p)
  show ?case
  proof (rule ccontr)
    assume "\<not> p \<le> q"
    then have no: "\<not> Suc p \<le> q" by simp
    show False
      using "1.prems"
      apply (subst (asm) call_loop.simps)
      apply (simp add: Let_def split: if_splits option.splits eval.splits)
      using "1.IH" no by (auto dest: call_result_Value simp: Let_def)
  qed
qed

lemma operand_ge: "operand nested A dict buf fin p = Some (Value v q) \<Longrightarrow> p \<le> q"
  using le_trans [OF skip_name_ge [of p buf fin] skip_blanks_ge [of "skip_name buf fin p" buf fin]]
  by (auto simp: operand_def Let_def split: if_splits option.splits dest!: call_loop_ge call_result_Value
      dest: Suc_leD le_trans)

lemma next_token_bounds:
  assumes "next_token buf fin p = Some (t, q)"
  shows "p \<le> q" and "t \<noteq> ENDL \<Longrightarrow> p < fin"
  using assms by (auto simp: next_token_def Let_def cur_char_def split: if_splits)

lemma ENDL_leaves: "next_operator A ENDL p op pos vals \<noteq> Continue op' pos' vals'"
proof (induction A ENDL p op pos vals rule: next_operator.induct)
  case (2 A p top op pos vals)
  then show ?case
    by (cases top) (auto simp: action_of_def ActionTable_def split: sum.splits)
qed simp

lemma syntax_of_operand: "syntax_of prev cur = Suc 0 \<Longrightarrow> cur = VALUE \<and> prev \<noteq> VALUE"
  by (cases prev; cases cur; simp add: syntax_of_def SyntaxTable_def)

text \<open>
  The main loop. \<open>iPrev\<close> is the previous token, \<open>op\<close>, \<open>pos\<close> and \<open>vals\<close> the stacks.
\<close>

function engine_loop :: "'d nested \<Rightarrow> 'd Arith \<Rightarrow> 'd dic_type \<Rightarrow> string \<Rightarrow> nat \<Rightarrow>
    tok \<Rightarrow> tok list \<Rightarrow> nat list \<Rightarrow> 'd list \<Rightarrow> nat \<Rightarrow> 'd eval option" where
  "engine_loop nested A dict buf fin iPrev op pos vals p =
     (if isspace (cur_char buf fin p) then engine_loop nested A dict buf fin iPrev op pos vals (Suc p)
      else case next_token buf fin p of
          None \<Rightarrow> Some (Failed ERROR_UNEXPECTED_SYMBOL p)
        | Some (iCur, pointer) \<Rightarrow>
            (let iWhat = syntax_of iPrev iCur in
             if iWhat = 0 then Some (Failed ERROR_SYNTAX_ERROR pointer)
             else if iWhat = 1 then
               (case operand nested A dict buf fin pointer of
                  None \<Rightarrow> None
                | Some (Failed st q) \<Rightarrow> Some (Failed st q)
                | Some (Value v nxt) \<Rightarrow> engine_loop nested A dict buf fin iCur op pos (v # vals) nxt)
             else
               (case next_operator A iCur pointer op pos (if iWhat = 2 then ar_zero A # vals else vals) of
                  Exit r \<Rightarrow> Some r
                | Continue op' pos' vals' \<Rightarrow> engine_loop nested A dict buf fin iCur op' pos' vals' (Suc pointer))))"
  by pat_completeness auto

termination
proof (relation "measures [\<lambda>(nested, A, dict, buf, fin, prev, op, pos, vals, p). fin - p,
    \<lambda>(nested, A, dict, buf, fin, prev, op, pos, vals, p). if prev = VALUE then 0 else 1]", goal_cases)
  case 1
  show ?case by simp
next
  case (2 nested A dict buf fin prev op pos vals p)
  then have "p < fin" by (auto simp: cur_char_def split: if_splits)
  then show ?case by simp
next
  case (3 nested A dict buf fin prev op pos vals p a cur q w b v nxt)
  then show ?case
    using next_token_bounds [of buf fin p cur q] operand_ge [of nested A dict buf fin q v nxt]
      syntax_of_operand [of prev cur]
    by auto
next
  case (4 nested A dict buf fin prev op pos vals p a cur q w op' pos' vals')
  then have "cur \<noteq> ENDL" using ENDL_leaves by metis
  then show ?case using 4 next_token_bounds [of buf fin p cur q] by auto
qed

declare engine_loop.simps [simp del] next_operator.simps [simp del]

definition engine_with :: "'d nested \<Rightarrow> 'd Arith \<Rightarrow> 'd dic_type \<Rightarrow> string \<Rightarrow> nat \<Rightarrow> nat \<Rightarrow> 'd eval option" where
  "engine_with nested A dict buf start fin = (let p = skip_blanks buf fin start in
     if cur_char buf fin p = nul then Some (Failed WARNING_BLANK_STRING start)
     else engine_loop nested A dict buf fin ENDL [ENDL] [start] [] p)"

text \<open>The engine with at most \<open>n\<close> activations nested in each other.\<close>

primrec engine :: "'d Arith \<Rightarrow> 'd dic_type \<Rightarrow> nat \<Rightarrow> 'd nested" where
  "engine A dict 0 = (\<lambda>buf start fin. None)"
| "engine A dict (Suc n) = (\<lambda>buf start fin. engine_with (engine A dict n) A dict buf start fin)"

subsection \<open>The evaluator object\<close>

text \<open>
  \<open>EvalStatus\<close> and \<open>evaluate\<close>; a pointer argument may be null, a position is the index in the expression.
\<close>

record 'd EvalStatus =
  es_position :: "nat option"
  es_status :: status
  es_result :: 'd

definition EvalStatus_new :: "'d Arith \<Rightarrow> 'd EvalStatus" where
  "EvalStatus_new A = \<lparr>es_position = None, es_status = OK, es_result = ar_zero A\<rparr>"

definition object_evaluate :: "'d Arith \<Rightarrow> nat \<Rightarrow> 'd dic_type \<Rightarrow> string option \<Rightarrow> 'd EvalStatus option" where
  "object_evaluate A n dict expression = (case expression of
       None \<Rightarrow> Some (EvalStatus_new A)
     | Some e \<Rightarrow> (case engine A dict n e 0 (length e) of
           None \<Rightarrow> None
         | Some (Value v p) \<Rightarrow> Some \<lparr>es_position = Some p, es_status = OK, es_result = v\<rparr>
         | Some (Failed st p) \<Rightarrow> Some \<lparr>es_position = Some p, es_status = st, es_result = ar_zero A\<rparr>))"

definition print_error_status :: "status \<Rightarrow> string option \<Rightarrow> string" where
  "print_error_status st extra =
     (let prefix = ''Evaluator::Object : ''; opt = (case extra of None \<Rightarrow> [] | Some x \<Rightarrow> x) in
      case st of
        WARNING_EXISTING_VARIABLE \<Rightarrow> prefix @ ''existing variable''
      | WARNING_EXISTING_FUNCTION \<Rightarrow> prefix @ ''existing function''
      | WARNING_BLANK_STRING \<Rightarrow> prefix @ ''blank string detected''
      | ERROR_NOT_A_NAME \<Rightarrow> prefix @ ''invalid name : '' @ opt
      | ERROR_SYNTAX_ERROR \<Rightarrow> prefix @ ''syntax error''
      | ERROR_UNPAIRED_PARENTHESIS \<Rightarrow> prefix @ ''unpaired parenthesis''
      | ERROR_UNEXPECTED_SYMBOL \<Rightarrow> prefix @ ''unexpected symbol : '' @ opt
      | ERROR_UNKNOWN_VARIABLE \<Rightarrow> prefix @ ''unknown variable : '' @ opt
      | ERROR_UNKNOWN_FUNCTION \<Rightarrow> prefix @ ''unknown function : '' @ opt
      | ERROR_EMPTY_PARAMETER \<Rightarrow> prefix @ ''empty parameter in function call: '' @ opt
      | ERROR_CALCULATION_ERROR \<Rightarrow> prefix @ ''calculation error''
      | OK \<Rightarrow> [])"

text \<open>\<open>EvalStatus::print_error\<close> prints the text from the position on.\<close>

definition status_print_error :: "string \<Rightarrow> 'd EvalStatus \<Rightarrow> string" where
  "status_print_error e s = print_error_status (es_status s) (map_option (\<lambda>p. drop p e) (es_position s))"

text \<open>The macro \<open>REMOVE_BLANKS\<close>: the name without blanks at both ends.\<close>

definition remove_blanks :: "string \<Rightarrow> string" where
  "remove_blanks name = rev (dropWhile isspace (rev (dropWhile isspace name)))"

definition setItem :: "string \<Rightarrow> string option \<Rightarrow> 'd Item \<Rightarrow> 'd dic_type \<Rightarrow> 'd dic_type \<times> status" where
  "setItem prefix name item dict = (case name of
       None \<Rightarrow> (dict, ERROR_NOT_A_NAME)
     | Some nm \<Rightarrow>
         if nm = [] then (dict, ERROR_NOT_A_NAME)
         else let t = remove_blanks nm in
           if t = [] then (dict, ERROR_NOT_A_NAME)
           else if \<not> list_all is_name_char t then (dict, ERROR_NOT_A_NAME)
           else let item_name = prefix @ t in
             (dict(item_name \<mapsto> item),
              if dict item_name \<noteq> None
              then (if item_name = nm then WARNING_EXISTING_VARIABLE else WARNING_EXISTING_FUNCTION) else OK))"

definition object_setVariable :: "'d Arith \<Rightarrow> string option \<Rightarrow> 'd \<Rightarrow> 'd dic_type \<Rightarrow> 'd dic_type \<times> status" where
  "object_setVariable A name x dict = setItem [] name (Item_variable A x) dict"

definition object_setExpression :: "'d Arith \<Rightarrow> string option \<Rightarrow> string \<Rightarrow> 'd dic_type \<Rightarrow> 'd dic_type \<times> status" where
  "object_setExpression A name e dict = setItem [] name (Item_expression A e) dict"

definition setVariableNoLock :: "'d Arith \<Rightarrow> string \<Rightarrow> 'd \<Rightarrow> 'd dic_type \<Rightarrow> 'd dic_type" where
  "setVariableNoLock A name x dict = dict(name \<mapsto> Item_variable A x)"

text \<open>The overloads of \<open>setFunction\<close> for 0 to 5 parameters.\<close>

definition object_setFunction :: "'d Arith \<Rightarrow> nat \<Rightarrow> string option \<Rightarrow> ('d list \<Rightarrow> 'd option) option \<Rightarrow>
    'd dic_type \<Rightarrow> 'd dic_type \<times> status" where
  "object_setFunction A npar name f dict = setItem [sss ! npar] name (Item_function A f) dict"

definition setFunctionNoLock :: "'d Arith \<Rightarrow> nat \<Rightarrow> string \<Rightarrow> ('d list \<Rightarrow> 'd option) option \<Rightarrow> 'd dic_type \<Rightarrow> 'd dic_type" where
  "setFunctionNoLock A npar name f dict = dict((sss ! npar) # name \<mapsto> Item_function A f)"

definition object_findVariable :: "string option \<Rightarrow> 'd dic_type \<Rightarrow> bool" where
  "object_findVariable name dict = (case name of
       None \<Rightarrow> False
     | Some nm \<Rightarrow> nm \<noteq> [] \<and> remove_blanks nm \<noteq> [] \<and> dict (remove_blanks nm) \<noteq> None)"

definition object_findFunction :: "string option \<Rightarrow> int \<Rightarrow> 'd dic_type \<Rightarrow> bool" where
  "object_findFunction name npar dict = (case name of
       None \<Rightarrow> False
     | Some nm \<Rightarrow> nm \<noteq> [] \<and> 0 \<le> npar \<and> npar \<le> int MAX_N_PAR \<and> remove_blanks nm \<noteq> [] \<and>
         dict (sss ! nat npar # remove_blanks nm) \<noteq> None)"

definition object_removeVariable :: "string option \<Rightarrow> 'd dic_type \<Rightarrow> 'd dic_type" where
  "object_removeVariable name dict = (case name of
       None \<Rightarrow> dict
     | Some nm \<Rightarrow> if nm = [] \<or> remove_blanks nm = [] then dict else dict(remove_blanks nm := None))"

definition object_removeFunction :: "string option \<Rightarrow> int \<Rightarrow> 'd dic_type \<Rightarrow> 'd dic_type" where
  "object_removeFunction name npar dict = (case name of
       None \<Rightarrow> dict
     | Some nm \<Rightarrow>
         if nm = [] \<or> npar < 0 \<or> int MAX_N_PAR < npar \<or> remove_blanks nm = [] then dict
         else dict(sss ! nat npar # remove_blanks nm := None))"

definition object_setEnviron :: "'d Arith \<Rightarrow> string \<Rightarrow> string \<Rightarrow> 'd dic_type \<Rightarrow> 'd dic_type \<times> status" where
  "object_setEnviron A name val dict = (let item_name = ''${'' @ name @ ''}'' in
     (dict(item_name \<mapsto> (Item_new A)\<lparr>it_what := STRING, it_expression := val\<rparr>),
      if dict item_name \<noteq> None
      then (if item_name = name then WARNING_EXISTING_VARIABLE else WARNING_EXISTING_FUNCTION) else OK))"

text \<open>\<open>getenv\<close>, the environment of the process, is a parameter.\<close>

definition object_getEnviron :: "(string \<Rightarrow> string option) \<Rightarrow> string \<Rightarrow> 'd dic_type \<Rightarrow> string option \<times> status" where
  "object_getEnviron getenv name dict = (case dict name of
       Some item \<Rightarrow> (Some (c_str (it_expression item)), OK)
     | None \<Rightarrow>
         (case (if length name > 3 then getenv (take (length name - 3) (drop 2 name)) else None) of
            Some v \<Rightarrow> (Some v, OK)
          | None \<Rightarrow> (None, ERROR_UNKNOWN_VARIABLE)))"

text \<open>
  The methods of \<open>Evaluator\<close>, which take a \<open>std::string\<close> and pass the C string in it on. Those with a stream
  also return what they print on it.
\<close>

definition ev_evaluate :: "'d Arith \<Rightarrow> nat \<Rightarrow> 'd dic_type \<Rightarrow> string \<Rightarrow> (status \<times> 'd) option" where
  "ev_evaluate A n dict expression =
     map_option (\<lambda>s. (es_status s, es_result s)) (object_evaluate A n dict (Some (c_str expression)))"

definition ev_evaluate_os :: "'d Arith \<Rightarrow> nat \<Rightarrow> 'd dic_type \<Rightarrow> string \<Rightarrow> ((status \<times> 'd) \<times> string) option" where
  "ev_evaluate_os A n dict expression = map_option (\<lambda>s. ((es_status s, es_result s),
      if es_status s \<noteq> OK then status_print_error (c_str expression) s else []))
     (object_evaluate A n dict (Some (c_str expression)))"

definition ev_setEnviron :: "'d Arith \<Rightarrow> string \<Rightarrow> string \<Rightarrow> 'd dic_type \<Rightarrow> 'd dic_type \<times> status" where
  "ev_setEnviron A name val dict = object_setEnviron A (c_str name) (c_str val) dict"

definition ev_getEnviron_os :: "(string \<Rightarrow> string option) \<Rightarrow> string \<Rightarrow> 'd dic_type \<Rightarrow> (status \<times> string) \<times> string" where
  "ev_getEnviron_os getenv name dict = (let (v, st) = object_getEnviron getenv (c_str name) dict in
     ((st, case v of None \<Rightarrow> [] | Some x \<Rightarrow> x),
      if st \<noteq> OK then print_error_status st (Some (c_str name)) else []))"

definition ev_setVariable_os :: "'d Arith \<Rightarrow> string \<Rightarrow> 'd \<Rightarrow> 'd dic_type \<Rightarrow> ('d dic_type \<times> status) \<times> string" where
  "ev_setVariable_os A name x dict = (let (dict', st) = object_setVariable A (Some (c_str name)) x dict in
     ((dict', st), if st \<noteq> OK then print_error_status st (Some (c_str name)) else []))"

definition ev_setExpression_os :: "'d Arith \<Rightarrow> string \<Rightarrow> string \<Rightarrow> 'd dic_type \<Rightarrow> ('d dic_type \<times> status) \<times> string" where
  "ev_setExpression_os A name e dict = (let (dict', st) = object_setExpression A (Some (c_str name)) (c_str e) dict in
     ((dict', st), if st \<noteq> OK then print_error_status st (Some (c_str name)) else []))"

definition ev_setFunction :: "'d Arith \<Rightarrow> nat \<Rightarrow> string \<Rightarrow> ('d list \<Rightarrow> 'd option) option \<Rightarrow> 'd dic_type \<Rightarrow> 'd dic_type \<times> status" where
  "ev_setFunction A npar name f dict = object_setFunction A npar (Some (c_str name)) f dict"

definition ev_findVariable :: "string \<Rightarrow> 'd dic_type \<Rightarrow> bool" where
  "ev_findVariable name dict = object_findVariable (Some (c_str name)) dict"

definition ev_findFunction :: "string \<Rightarrow> int \<Rightarrow> 'd dic_type \<Rightarrow> bool" where
  "ev_findFunction name npar dict = object_findFunction (Some (c_str name)) npar dict"

end
