(* ===== verification/ExpressionGrammar.thy ===== *)
theory ExpressionGrammar
  imports Evaluator
begin

text \<open>
  The language of the expressions that \<open>Evaluator\<close> reads, stated apart from the code: trees, the texts that
  spell a tree and the value of a tree. \<open>spells lvl lead e s\<close> says that \<open>s\<close> is a text of \<open>e\<close> where an operand of
  level \<open>lvl\<close> is expected; all operators, also the power, group to the left, and a sign may only stand at the
  start of an expression (\<open>lead\<close>), where it is the operator applied to zero. Then what the scanner makes of such
  texts: numbers, names, tokens, and the search for the end of a parameter.
\<close>

subsection \<open>The language\<close>

datatype expr =
    Number string
  | Name string
  | Apply string "expr list"
  | Binary tok expr expr
  | Signed tok expr

text \<open>The binding strength of the operators; 0 for what is none.\<close>

primrec level :: "tok \<Rightarrow> nat" where
  "level ENDL = 0"
| "level LBRA = 0"
| "level OROR = 1"
| "level ANDAND = 2"
| "level EQ = 3"
| "level NE = 3"
| "level GE = 4"
| "level GT = 4"
| "level LE = 4"
| "level LT = 4"
| "level PLUS = 5"
| "level MINUS = 5"
| "level MULT = 6"
| "level DIV = 6"
| "level POW = 7"
| "level RBRA = 0"
| "level VALUE = 0"

text \<open>The texts of an operator.\<close>

primrec spelling :: "tok \<Rightarrow> string list" where
  "spelling ENDL = []"
| "spelling LBRA = []"
| "spelling OROR = [''||'']"
| "spelling ANDAND = [''&&'']"
| "spelling EQ = [''=='']"
| "spelling NE = [''!='']"
| "spelling GE = [''>='']"
| "spelling GT = [''>'']"
| "spelling LE = [''<='']"
| "spelling LT = [''<'']"
| "spelling PLUS = [''+'']"
| "spelling MINUS = [''-'']"
| "spelling MULT = [''*'']"
| "spelling DIV = [''/'']"
| "spelling POW = [''^'', ''**'']"
| "spelling RBRA = []"
| "spelling VALUE = []"

text \<open>A number is a text that \<open>strtod\<close> takes completely; a name starts with a letter.\<close>

definition literal :: "string \<Rightarrow> bool" where
  "literal d \<longleftrightarrow> d \<noteq> [] \<and> (isdigit (hd d) \<or> hd d = CHR ''.'') \<and> strtod_len d = length d"

definition proper_name :: "string \<Rightarrow> bool" where
  "proper_name x \<longleftrightarrow> x \<noteq> [] \<and> isalpha (hd x) \<and> list_all is_name_char x"

text \<open>The texts of a tree and of the parameters of a call.\<close>

inductive spells :: "nat \<Rightarrow> bool \<Rightarrow> expr \<Rightarrow> string \<Rightarrow> bool"
  and spells_args :: "expr list \<Rightarrow> string \<Rightarrow> bool"
where
  number: "literal d \<Longrightarrow> spells lvl lead (Number d) d"
| name: "proper_name x \<Longrightarrow> spells lvl lead (Name x) x"
| apply_none: "\<lbrakk>proper_name f; list_all isspace a; list_all isspace b\<rbrakk> \<Longrightarrow>
    spells lvl lead (Apply f []) (f @ a @ CHR ''('' # b @ '')'')"
| apply_args: "\<lbrakk>proper_name f; list_all isspace a; spells_args es s\<rbrakk> \<Longrightarrow>
    spells lvl lead (Apply f es) (f @ a @ CHR ''('' # s @ '')'')"
| binary: "\<lbrakk>lvl \<le> level op; t \<in> set (spelling op); spells (level op) lead l s; spells (Suc (level op)) False r u\<rbrakk> \<Longrightarrow>
    spells lvl lead (Binary op l r) (s @ t @ u)"
| signed: "\<lbrakk>lvl \<le> level op; op = PLUS \<or> op = MINUS; t \<in> set (spelling op); spells (Suc (level op)) False r u\<rbrakk> \<Longrightarrow>
    spells lvl True (Signed op r) (t @ u)"
| parens: "spells 1 True e s \<Longrightarrow> spells lvl lead e (CHR ''('' # s @ '')'')"
| blank_before: "\<lbrakk>isspace c; spells lvl lead e s\<rbrakk> \<Longrightarrow> spells lvl lead e (c # s)"
| blank_after: "\<lbrakk>isspace c; spells lvl lead e s\<rbrakk> \<Longrightarrow> spells lvl lead e (s @ [c])"
| last_arg: "spells 1 True e s \<Longrightarrow> spells_args [e] s"
| next_arg: "\<lbrakk>spells 1 True e s; spells_args es t\<rbrakk> \<Longrightarrow> spells_args (e # es) (s @ CHR '','' # t)"

text \<open>The value of a tree, given the values of the names (\<open>look\<close>); the operands from the left, the first failure is the result.\<close>

fun expr_value :: "'d Arith \<Rightarrow> 'd dic_type \<Rightarrow> (string \<Rightarrow> status + 'd) \<Rightarrow> expr \<Rightarrow> status + 'd"
  and expr_values :: "'d Arith \<Rightarrow> 'd dic_type \<Rightarrow> (string \<Rightarrow> status + 'd) \<Rightarrow> expr list \<Rightarrow> status + 'd list"
where
  "expr_value A dict look (Number d) = (case ar_number A d of None \<Rightarrow> Inl ERROR_CALCULATION_ERROR | Some v \<Rightarrow> Inr v)"
| "expr_value A dict look (Name x) = look x"
| "expr_value A dict look (Apply f es) =
     bindE (expr_values A dict look es) (\<lambda>vs. execute_function dict f (rev vs))"
| "expr_value A dict look (Binary op l r) =
     bindE (expr_value A dict look l) (\<lambda>a. bindE (expr_value A dict look r) (\<lambda>b. binary A op a b))"
| "expr_value A dict look (Signed op r) = bindE (expr_value A dict look r) (\<lambda>b. binary A op (ar_zero A) b)"
| "expr_values A dict look [] = Inr []"
| "expr_values A dict look (e # es) =
     bindE (expr_value A dict look e) (\<lambda>v. bindE (expr_values A dict look es) (\<lambda>vs. Inr (v # vs)))"

text \<open>How deep calls are nested, and the names used.\<close>

fun call_depth :: "expr \<Rightarrow> nat" and calls_depth :: "expr list \<Rightarrow> nat" where
  "call_depth (Number d) = 0"
| "call_depth (Name x) = 0"
| "call_depth (Apply f es) = Suc (calls_depth es)"
| "call_depth (Binary op l r) = max (call_depth l) (call_depth r)"
| "call_depth (Signed op r) = call_depth r"
| "calls_depth [] = 0"
| "calls_depth (e # es) = max (call_depth e) (calls_depth es)"

fun variables :: "expr \<Rightarrow> string set" and variabless :: "expr list \<Rightarrow> string set" where
  "variables (Number d) = {}"
| "variables (Name x) = {x}"
| "variables (Apply f es) = variabless es"
| "variables (Binary op l r) = variables l \<union> variables r"
| "variables (Signed op r) = variables r"
| "variabless [] = {}"
| "variabless (e # es) = variables e \<union> variabless es"

subsection \<open>Characters\<close>

text \<open>A character that ends a number or a name.\<close>

definition stop :: "char \<Rightarrow> bool" where
  "stop c \<longleftrightarrow> \<not> is_name_char c \<and> c \<noteq> CHR ''.''"

lemmas char_classes = isdigit_def isalpha_def isalnum_def isxdigit_def isspace_def is_name_char_def stop_def char_code_def

lemma char_classes_disjoint:
  "isspace c \<Longrightarrow> stop c" "isspace c \<Longrightarrow> \<not> is_name_char c" "isspace c \<Longrightarrow> c \<noteq> nul"
  "is_name_char c \<Longrightarrow> \<not> isspace c" "isalpha c \<Longrightarrow> is_name_char c" "isdigit c \<Longrightarrow> is_name_char c"
  "isdigit c \<Longrightarrow> \<not> isalpha c" "isxdigit c \<Longrightarrow> is_name_char c" "isalnum c \<Longrightarrow> is_name_char c"
  by (auto simp: char_classes nul_def)

definition at :: "string \<Rightarrow> nat \<Rightarrow> string \<Rightarrow> bool" where
  "at buf p s \<longleftrightarrow> p + length s \<le> length buf \<and> take (length s) (drop p buf) = s"

lemma at_Nil [simp]: "at buf p [] \<longleftrightarrow> p \<le> length buf"
  by (simp add: at_def)

lemma at_Cons: "at buf p (c # s) \<longleftrightarrow> p < length buf \<and> buf ! p = c \<and> at buf (Suc p) s"
  by (cases "p < length buf") (auto simp: at_def Cons_nth_drop_Suc [symmetric])

lemma at_append: "at buf p (s @ t) \<longleftrightarrow> at buf p s \<and> at buf (p + length s) t"
proof (induction s arbitrary: p)
  case Nil
  then show ?case by (auto simp: at_def)
next
  case (Cons c s)
  then show ?case by (simp add: at_Cons)
qed

lemma at_drop: "at buf p s \<Longrightarrow> drop p buf = s @ drop (p + length s) buf"
  by (metis append_take_drop_id at_def drop_drop add.commute)

lemma at_whole: "at s 0 s"
  by (simp add: at_def)

subsection \<open>Numbers\<close>

lemma takeWhile_append_stop:
  "r = [] \<or> \<not> P (hd r) \<Longrightarrow> takeWhile P (s @ r) = takeWhile P s"
  by (induction s) (cases r; auto)+

lemma dropWhile_append_stop:
  "r = [] \<or> \<not> P (hd r) \<Longrightarrow> dropWhile P (s @ r) = dropWhile P s @ r"
  by (induction s) (cases r; auto)+

text \<open>\<open>r\<close> is what follows a number or name.\<close>

definition stops :: "string \<Rightarrow> bool" where
  "stops r \<longleftrightarrow> r = [] \<or> stop (hd r)"

lemma stops_not: "stops r \<Longrightarrow> r = [] \<or> \<not> isdigit (hd r)" "stops r \<Longrightarrow> r = [] \<or> \<not> isxdigit (hd r)"
  using char_classes_disjoint by (auto simp: stops_def stop_def)

lemma mantissa_len_append:
  assumes "\<And>r. stops r \<Longrightarrow> r = [] \<or> \<not> dig (hd r)" and r: "stops r"
  shows "mantissa_len dig (s @ r) = mantissa_len dig s"
proof -
  have n: "r = [] \<or> \<not> dig (hd r)" using assms by blast
  have pt: "r = [] \<or> hd r \<noteq> CHR ''.''" using r by (auto simp: stops_def stop_def)
  have tw: "takeWhile dig (t @ r) = takeWhile dig t" for t by (rule takeWhile_append_stop [of r dig, OF n])
  show ?thesis
  proof (cases "dropWhile dig s")
    case Nil
    then show ?thesis
      unfolding mantissa_len_def Let_def tw dropWhile_append_stop [of r dig, OF n] Nil
      using n pt by (cases r) auto
  next
    case (Cons c t)
    then show ?thesis by (simp add: mantissa_len_def Let_def tw dropWhile_append_stop [of r dig, OF n])
  qed
qed

lemma exponent_len_append:
  assumes s: "exponent_len marks s = length s" and r: "stops r" and m: "\<forall>m \<in> set marks. \<not> stop m"
  shows "exponent_len marks (s @ r) = length s"
proof (cases s)
  case Nil
  with r m show ?thesis by (cases r) (auto simp: exponent_len_def stops_def)
next
  case (Cons x xs)
  show ?thesis
  proof (cases xs)
    case Nil
    with Cons s show ?thesis by (auto simp: exponent_len_def split: if_splits)
  next
    case (Cons c ys)
    have tw: "takeWhile isdigit (t @ r) = takeWhile isdigit t" for t
      by (rule takeWhile_append_stop) (use stops_not(1) [OF r] in auto)
    have "takeWhile isdigit (c # ys @ r) = takeWhile isdigit (c # ys)" using tw [of "c # ys"] by simp
    with \<open>s = x # xs\<close> Cons s show ?thesis
      by (auto simp: exponent_len_def tw simp del: takeWhile.simps split: if_splits)
  qed
qed

lemma mantissa_len_le: "mantissa_len dig s \<le> length s"
proof -
  have s: "s = takeWhile dig s @ dropWhile dig s" by simp
  show ?thesis
    by (subst (2) s) (auto simp: mantissa_len_def Let_def length_takeWhile_le simp del: takeWhile_dropWhile_id split: list.splits)
qed


lemma marks_stop: "\<forall>m\<in>set ''eE''. \<not> stop m" "\<forall>m\<in>set ''pP''. \<not> stop m"
  by (simp_all add: stop_def is_name_char_def isalnum_def isalpha_def char_code_def)

lemma decimal_len_append:
  assumes l: "decimal_len s = length s" and r: "stops r" and ne: "s \<noteq> []"
  shows "decimal_len (s @ r) = length s"
proof -
  let ?m = "mantissa_len isdigit s"
  have m: "mantissa_len isdigit (s @ r) = ?m" using r by (intro mantissa_len_append stops_not)
  have nz: "?m \<noteq> 0" using l ne by (auto simp: decimal_len_def Let_def split: if_splits)
  then have "exponent_len ''eE'' (drop ?m s) = length (drop ?m s)"
    using l by (auto simp: decimal_len_def Let_def)
  then have "exponent_len ''eE'' (drop ?m s @ r) = length (drop ?m s)"
    using exponent_len_append r marks_stop by blast
  then show ?thesis
    using nz m mantissa_len_le [of isdigit s] by (simp add: decimal_len_def Let_def)
qed

lemma decimal_len_0x: "x = CHR ''x'' \<or> x = CHR ''X'' \<Longrightarrow> decimal_len (CHR ''0'' # x # s) = 1"
  by (auto simp: decimal_len_def mantissa_len_def exponent_len_def isdigit_def char_code_def)

lemma strtod_len_append:
  assumes l: "strtod_len s = length s" and r: "stops r" and ne: "s \<noteq> []"
  shows "strtod_len (s @ r) = length s"
proof (cases "hex_len s = 0")
  case True
  then have d: "decimal_len s = length s" using l by (simp add: strtod_len_def)
  have "hex_len (s @ r) = 0"
  proof (cases s)
    case (Cons z t)
    show ?thesis
    proof (cases t)
      case Nil
      have "stop x \<Longrightarrow> x \<noteq> CHR ''x'' \<and> x \<noteq> CHR ''X''" for x
        by (auto simp: stop_def is_name_char_def isalnum_def isalpha_def char_code_def)
      with Cons Nil r show ?thesis by (cases r) (auto simp: hex_len_def stops_def split: list.splits)
    next
      case (Cons x u)
      have "\<not> (z = CHR ''0'' \<and> (x = CHR ''x'' \<or> x = CHR ''X''))"
        using decimal_len_0x [of x u] d \<open>s = z # t\<close> Cons by auto
      then show ?thesis using \<open>s = z # t\<close> Cons by (auto simp: hex_len_def)
    qed
  qed (use ne in simp)
  then show ?thesis using decimal_len_append [OF d r ne] by (simp add: strtod_len_def)
next
  case False
  then have h: "hex_len s = length s" using l by (simp add: strtod_len_def)
  from False obtain z x t where s: "s = z # x # t" and zx: "z = CHR ''0''" "x = CHR ''x'' \<or> x = CHR ''X''"
    and nz: "mantissa_len isxdigit t \<noteq> 0"
    by (auto simp: hex_len_def Let_def split: list.splits if_splits)
  let ?m = "mantissa_len isxdigit t"
  have m: "mantissa_len isxdigit (t @ r) = ?m" using r by (intro mantissa_len_append stops_not)
  have "exponent_len ''pP'' (drop ?m t) = length (drop ?m t)"
    using h nz zx by (auto simp: hex_len_def Let_def s)
  then have "exponent_len ''pP'' (drop ?m t @ r) = length (drop ?m t)"
    using exponent_len_append r marks_stop by blast
  then have "hex_len (s @ r) = length s"
    using nz m zx mantissa_len_le [of isxdigit t] by (auto simp: hex_len_def Let_def s)
  then show ?thesis using ne by (simp add: strtod_len_def)
qed

subsection \<open>Tokens in place\<close>

lemma buf_at_at: "at buf p (c # s) \<Longrightarrow> buf_at buf p = c"
  by (simp add: at_Cons buf_at_def)

lemma cur_char_at: "at buf p (c # s) \<Longrightarrow> p < fin \<Longrightarrow> cur_char buf fin p = c"
  by (simp add: cur_char_def buf_at_at)

lemma cur_char_end: "fin \<le> p \<Longrightarrow> cur_char buf fin p = nul"
  by (simp add: cur_char_def)

lemma skip_blanks_space: "isspace (cur_char buf fin p) \<Longrightarrow> skip_blanks buf fin p = skip_blanks buf fin (Suc p)"
  by (subst skip_blanks.simps) simp

lemma skip_blanks_stay: "\<not> isspace (cur_char buf fin p) \<Longrightarrow> skip_blanks buf fin p = p"
  by (subst skip_blanks.simps) simp

lemma skip_blanks_all:
  "\<lbrakk>list_all isspace a; at buf p a; p + length a \<le> fin\<rbrakk> \<Longrightarrow> skip_blanks buf fin p = skip_blanks buf fin (p + length a)"
proof (induction a arbitrary: p)
  case (Cons c a)
  then have "skip_blanks buf fin p = skip_blanks buf fin (Suc p)"
    by (intro skip_blanks_space) (simp add: cur_char_at)
  with Cons.IH [of "Suc p"] Cons.prems show ?case by (simp add: at_Cons)
qed simp

lemma skip_blanks_end: "skip_blanks buf fin fin = fin"
  by (simp add: skip_blanks_stay cur_char_end)

lemma skip_blanks_no_space: "\<not> isspace (cur_char buf fin (skip_blanks buf fin p))"
proof (induction buf fin p rule: skip_blanks.induct)
  case (1 buf fin p)
  then show ?case by (cases "isspace (cur_char buf fin p)") (simp_all add: skip_blanks_space skip_blanks_stay)
qed

lemma skip_blanks_le: "p \<le> fin \<Longrightarrow> skip_blanks buf fin p \<le> fin"
proof (induction buf fin p rule: skip_blanks.induct)
  case (1 buf fin p)
  show ?case
  proof (cases "isspace (cur_char buf fin p)")
    case True
    then have "p < fin" by (auto simp: cur_char_def split: if_splits)
    with 1 True show ?thesis by (simp add: skip_blanks_space)
  qed (use 1 in \<open>simp add: skip_blanks_stay\<close>)
qed

lemma engine_loop_blank:
  "isspace (cur_char buf fin p) \<Longrightarrow>
    engine_loop nested A dict buf fin prev op pos vals p = engine_loop nested A dict buf fin prev op pos vals (Suc p)"
  by (subst engine_loop.simps) simp

lemma engine_loop_skip:
  "engine_loop nested A dict buf fin prev op pos vals (skip_blanks buf fin p) =
    engine_loop nested A dict buf fin prev op pos vals p"
proof (induction buf fin p rule: skip_blanks.induct)
  case (1 buf fin p)
  then show ?case
    by (cases "isspace (cur_char buf fin p)") (simp_all add: skip_blanks_space skip_blanks_stay engine_loop_blank)
qed

lemma skip_name_all:
  "\<lbrakk>list_all is_name_char x; at buf p x; p + length x \<le> fin\<rbrakk> \<Longrightarrow> skip_name buf fin p = skip_name buf fin (p + length x)"
proof (induction x arbitrary: p)
  case (Cons c x)
  then have "skip_name buf fin p = skip_name buf fin (Suc p)"
    by (subst skip_name.simps) (simp add: buf_at_at)
  with Cons.IH [of "Suc p"] Cons.prems show ?case by (simp add: at_Cons)
qed simp

lemma skip_name_stay: "\<not> (p < fin \<and> is_name_char (buf_at buf p)) \<Longrightarrow> skip_name buf fin p = p"
  by (subst skip_name.simps) (simp only: if_False)

text \<open>What the tokens need of the characters.\<close>

lemma next_token_VALUE:
  assumes "cur_char buf fin p = c" and c: "isalnum c \<or> c = CHR ''.''"
  shows "next_token buf fin p = Some (VALUE, p)"
proof -
  have "c \<noteq> nul" "c \<notin> set ''(|&=!><+-*/^)''"
    using c by (auto simp: isalnum_def isalpha_def isdigit_def char_code_def nul_def)
  then show ?thesis using assms by (auto simp: next_token_def)
qed

lemma next_token_ENDL: "next_token buf fin fin = Some (ENDL, fin)"
  by (simp add: next_token_def cur_char_end)

lemma next_token_operator:
  assumes t: "t \<in> set (spelling op)" and "at buf p t" and "p + length t \<le> fin"
    and n: "buf_at buf (p + length t) \<noteq> CHR ''=''" "buf_at buf (p + length t) \<noteq> CHR ''*''"
  shows "next_token buf fin p = Some (op, p + length t - 1)"
    and "\<not> isspace (cur_char buf fin p)" and "stop (cur_char buf fin p)" and "t \<noteq> []"
proof -
  have "t \<noteq> []" using t by (cases op) auto
  then obtain c u where cu: "t = c # u" by (cases t) auto
  have c: "cur_char buf fin p = c" using cur_char_at [of buf p c u fin] assms cu by simp
  have u: "u \<noteq> [] \<Longrightarrow> buf_at buf (Suc p) = hd u"
    using assms(2) cu buf_at_at [of buf "Suc p" "hd u" "tl u"] by (cases u) (simp_all add: at_Cons)
  have "op = OROR \<and> c = CHR ''|'' \<and> buf_at buf (Suc p) = CHR ''|'' \<and> length t = 2 \<or>
      op = ANDAND \<and> c = CHR ''&'' \<and> buf_at buf (Suc p) = CHR ''&'' \<and> length t = 2 \<or>
      op = EQ \<and> c = CHR ''='' \<and> buf_at buf (Suc p) = CHR ''='' \<and> length t = 2 \<or>
      op = NE \<and> c = CHR ''!'' \<and> buf_at buf (Suc p) = CHR ''='' \<and> length t = 2 \<or>
      op = GE \<and> c = CHR ''>'' \<and> buf_at buf (Suc p) = CHR ''='' \<and> length t = 2 \<or>
      op = GT \<and> c = CHR ''>'' \<and> length t = 1 \<or>
      op = LE \<and> c = CHR ''<'' \<and> buf_at buf (Suc p) = CHR ''='' \<and> length t = 2 \<or>
      op = LT \<and> c = CHR ''<'' \<and> length t = 1 \<or>
      op = PLUS \<and> c = CHR ''+'' \<and> length t = 1 \<or>
      op = MINUS \<and> c = CHR ''-'' \<and> length t = 1 \<or>
      op = MULT \<and> c = CHR ''*'' \<and> length t = 1 \<or>
      op = DIV \<and> c = CHR ''/'' \<and> length t = 1 \<or>
      op = POW \<and> c = CHR ''^'' \<and> length t = 1 \<or>
      op = POW \<and> c = CHR ''*'' \<and> buf_at buf (Suc p) = CHR ''*'' \<and> length t = 2"
    using t cu u by (cases op) auto
  moreover have "length t = 1 \<Longrightarrow> buf_at buf (Suc p) \<noteq> CHR ''='' \<and> buf_at buf (Suc p) \<noteq> CHR ''*''"
    using n by simp
  ultimately show "next_token buf fin p = Some (op, p + length t - 1)"
    and "\<not> isspace (cur_char buf fin p)" and "stop (cur_char buf fin p)"
    unfolding next_token_def c Let_def by (elim disjE conjE; simp add: nul_def char_classes)+
  show "t \<noteq> []" using cu by simp
qed

lemma next_token_paren:
  "\<lbrakk>at buf p (CHR ''('' # s); p < fin\<rbrakk> \<Longrightarrow> next_token buf fin p = Some (LBRA, p)"
  "\<lbrakk>at buf p (CHR '')'' # s); p < fin\<rbrakk> \<Longrightarrow> next_token buf fin p = Some (RBRA, p)"
  by (simp_all add: next_token_def cur_char_at nul_def)

subsection \<open>The tables\<close>

lemma syntax_of_operand_ok: "prev \<noteq> VALUE \<Longrightarrow> prev \<noteq> RBRA \<Longrightarrow> syntax_of prev VALUE = 1"
  by (cases prev) (simp_all add: syntax_of_def SyntaxTable_def)

lemma syntax_of_lbra: "prev \<noteq> VALUE \<Longrightarrow> prev \<noteq> RBRA \<Longrightarrow> syntax_of prev LBRA = 3"
  by (cases prev) (simp_all add: syntax_of_def SyntaxTable_def)

lemma syntax_of_sign: "prev = ENDL \<or> prev = LBRA \<Longrightarrow> op = PLUS \<or> op = MINUS \<Longrightarrow> syntax_of prev op = 2"
  by (cases prev; cases op) (simp_all add: syntax_of_def SyntaxTable_def)

lemma syntax_of_after: "prev = VALUE \<or> prev = RBRA \<Longrightarrow> cur \<noteq> LBRA \<Longrightarrow> cur \<noteq> VALUE \<Longrightarrow> syntax_of prev cur = 3"
  by (cases prev; cases cur) (simp_all add: syntax_of_def SyntaxTable_def)

lemmas action_tables = action_of_def ActionTable_def

lemma action_of_push:
  "\<lbrakk>tp \<noteq> RBRA; tp \<noteq> VALUE; level tp < level op\<rbrakk> \<Longrightarrow> action_of tp op = 1"
  by (cases tp; cases op) (simp_all add: action_tables)

lemma action_of_lbra: "\<lbrakk>tp \<noteq> RBRA; tp \<noteq> VALUE\<rbrakk> \<Longrightarrow> action_of tp LBRA = 1"
  by (cases tp) (simp_all add: action_tables)

lemma action_of_reduce:
  "\<lbrakk>0 < level op; level cur \<le> level op; cur \<noteq> LBRA; cur \<noteq> VALUE\<rbrakk> \<Longrightarrow>
    action_of op cur = 4 \<or> action_of op cur = 2 \<and> level cur = level op"
  by (cases op; cases cur) (simp_all add: action_tables)

subsection \<open>Scanning the parameters of a call\<close>

text \<open>
  The depth of open parentheses behind a text, None where the text would end a parameter or the call.
\<close>

fun balance :: "nat \<Rightarrow> string \<Rightarrow> nat option" where
  "balance d [] = Some d"
| "balance d (c # s) =
     (if c = nul then None
      else if c = CHR ''('' then balance (Suc d) s
      else if c = CHR '','' then (if d = 1 then None else balance d s)
      else if c = CHR '')'' then (if d > 1 then balance (d - 1) s else None)
      else balance d s)"

lemma balance_append: "balance d (s @ t) = Option.bind (balance d s) (\<lambda>d'. balance d' t)"
  by (induction d s rule: balance.induct) simp_all

lemma balance_scan:
  "\<lbrakk>balance (length pos) s = Some d; pos \<noteq> []; at buf p s; p + length s \<le> fin\<rbrakk> \<Longrightarrow>
    \<exists>pos'. length pos' = d \<and> pos' \<noteq> [] \<and>
      call_loop nested dict buf fin start f pos par pb p = call_loop nested dict buf fin start f pos' par pb (p + length s)"
proof (induction s arbitrary: p pos)
  case (Cons c s)
  have c: "cur_char buf fin p = c" using Cons.prems by (intro cur_char_at [of _ _ _ s]) auto
  have at: "at buf (Suc p) s" and le: "Suc p + length s \<le> fin" using Cons.prems by (auto simp: at_Cons)
  define pos' where "pos' = (if c = CHR ''('' then p # pos else if c = CHR '')'' then tl pos else pos)"
  have pos': "balance (length pos') s = Some d" "pos' \<noteq> []"
    using Cons.prems(1,2) by (auto simp: pos'_def neq_Nil_conv split: if_splits)
  have eq: "call_loop nested dict buf fin start f pos par pb p = call_loop nested dict buf fin start f pos' par pb (Suc p)"
    using Cons.prems(1,2) c
    by (subst call_loop.simps) (auto simp: Let_def pos'_def split: if_splits)
  from Cons.IH [OF pos' at le] show ?case by (simp add: eq)
qed auto

definition plain :: "char \<Rightarrow> bool" where
  "plain c \<longleftrightarrow> c \<noteq> nul \<and> c \<notin> set ''(),''"

lemma balance_plain: "list_all plain s \<Longrightarrow> balance d s = Some d"
  by (induction s) (auto simp: plain_def)

lemma plain_classes: "is_name_char c \<Longrightarrow> plain c" "isspace c \<Longrightarrow> plain c" "isdigit c \<Longrightarrow> plain c" "isxdigit c \<Longrightarrow> plain c"
  by (auto simp: plain_def char_classes nul_def)

lemma mantissa_plain:
  assumes "\<And>c. dig c \<Longrightarrow> plain c"
  shows "list_all plain (take (mantissa_len dig s) s)"
proof -
  have tw: "list_all plain (takeWhile dig t)" for t
    using assms by (auto simp: list_all_iff dest: set_takeWhileD)
  have s: "s = takeWhile dig s @ dropWhile dig s" by simp
  have tk: "take (length (takeWhile dig t)) t = takeWhile dig t" for t
    by (rule takeWhile_eq_take [symmetric])
  show ?thesis
  proof (cases "dropWhile dig s")
    case Nil
    then show ?thesis using tw [of s] tk [of s] by (simp add: mantissa_len_def Let_def del: dropWhile_eq_Nil_conv)
  next
    case (Cons c r)
    define a where "a = takeWhile dig s"
    have "s = a @ c # r" using s Cons by (simp add: a_def)
    then have "take (length a + Suc n) s = a @ c # take n r" for n by simp
    then show ?thesis
      using tw [of s] tw [of r] tk [of s] tk [of r] Cons
      by (auto simp: mantissa_len_def Let_def plain_def a_def [symmetric] nul_def)
  qed
qed

lemma exponent_plain:
  assumes "exponent_len marks s = length s" and "\<forall>m \<in> set marks. plain m"
  shows "list_all plain s"
proof -
  have tw: "length (takeWhile isdigit t) = length t \<Longrightarrow> list_all plain t" for t
  proof -
    assume "length (takeWhile isdigit t) = length t"
    then have "takeWhile isdigit t = t" by (subst takeWhile_eq_take) simp
    then have "\<forall>c \<in> set t. isdigit c" by (metis set_takeWhileD)
    then show ?thesis using plain_classes(3) by (simp add: list_all_iff)
  qed
  show ?thesis
  proof (cases s)
    case (Cons m r)
    show ?thesis
    proof (cases r)
      case Nil
      with Cons assms show ?thesis by (auto simp: exponent_len_def split: if_splits)
    next
      case (Cons c t)
      then show ?thesis
        using assms \<open>s = m # r\<close> tw [of t] tw [of "c # t"]
        by (simp add: exponent_len_def del: takeWhile.simps split: if_splits) (auto simp: plain_def nul_def)
    qed
  qed simp
qed

lemma literal_plain:
  assumes "literal d" shows "list_all plain d"
proof -
  have split: "list_all plain (take n t) \<Longrightarrow> list_all plain (drop n t) \<Longrightarrow> list_all plain t" for n t
    by (metis append_take_drop_id list_all_append)
  have marks: "\<forall>m \<in> set ''eE''. plain m" "\<forall>m \<in> set ''pP''. plain m" by (simp_all add: plain_def nul_def)
  have l: "strtod_len d = length d" "d \<noteq> []" using assms by (auto simp: literal_def)
  show ?thesis
  proof (cases "hex_len d = 0")
    case True
    then have "mantissa_len isdigit d + exponent_len ''eE'' (drop (mantissa_len isdigit d) d) = length d"
      using l by (auto simp: strtod_len_def decimal_len_def Let_def split: if_splits)
    then have "exponent_len ''eE'' (drop (mantissa_len isdigit d) d) = length (drop (mantissa_len isdigit d) d)" by simp
    then show ?thesis
      using marks(1) by (blast intro: split [OF mantissa_plain [of isdigit, OF plain_classes(3)]] exponent_plain)
  next
    case False
    then obtain z x t where d: "d = z # x # t" and zx: "z = CHR ''0''" "x = CHR ''x'' \<or> x = CHR ''X''"
      and nz: "mantissa_len isxdigit t \<noteq> 0"
      by (auto simp: hex_len_def Let_def split: list.splits if_splits)
    have "hex_len d = length d" using l False by (simp add: strtod_len_def)
    then have "exponent_len ''pP'' (drop (mantissa_len isxdigit t) t) = length (drop (mantissa_len isxdigit t) t)"
      using zx nz by (auto simp: d hex_len_def Let_def)
    then have "list_all plain t"
      using marks(2) by (blast intro: split [OF mantissa_plain [of isxdigit, OF plain_classes(4)]] exponent_plain)
    then show ?thesis using zx by (auto simp: d plain_def nul_def)
  qed
qed

lemma spelling_plain: "t \<in> set (spelling op) \<Longrightarrow> list_all plain t"
  by (cases op) (auto simp: plain_def nul_def)

lemma list_all_mono': "list_all P xs \<Longrightarrow> (\<And>x. P x \<Longrightarrow> Q x) \<Longrightarrow> list_all Q xs"
  by (auto simp: list_all_iff)

lemma spells_balance:
  "spells lvl lead e s \<Longrightarrow> 1 \<le> d \<Longrightarrow> balance d s = Some d"
  "spells_args es s \<Longrightarrow> 2 \<le> d' \<Longrightarrow> balance d' s = Some d'"
proof (induction arbitrary: d and d' rule: spells_spells_args.inducts)
  case (number x lvl lead)
  then show ?case by (simp add: balance_plain literal_plain)
next
  case (name x lvl lead)
  then show ?case by (auto simp: proper_name_def intro: balance_plain list_all_mono' plain_classes)
next
  case (apply_none f a b lvl lead)
  then have "list_all plain f" "list_all plain a" "list_all plain b"
    by (auto simp: proper_name_def intro: list_all_mono' plain_classes)
  then show ?case using apply_none by (simp add: balance_append balance_plain nul_def)
next
  case (apply_args f a es s lvl lead)
  then have "list_all plain f" "list_all plain a"
    by (auto simp: proper_name_def intro: list_all_mono' plain_classes)
  then show ?case using apply_args by (simp add: balance_append balance_plain nul_def)
next
  case (blank_before c lvl lead e s)
  then show ?case using balance_plain [of "[c]"] plain_classes(2) [of c] by (auto simp: plain_def)
next
  case (blank_after c lvl lead e s)
  then show ?case using balance_plain [of "[c]"] plain_classes(2) [of c] by (simp add: balance_append)
qed (simp_all add: balance_append balance_plain spelling_plain nul_def)

end
