(* ===== verification/EvaluatorProps.thy ===== *)
theory EvaluatorProps
  imports ExpressionGrammar
begin

text \<open>
  Properties of the evaluator: the table-driven engine computes the value of the tree that the text
  spells, with the first error in the order of evaluation; evaluation ends when the expressions
  of the dictionary can be ranked, and never for an expression that refers to itself; the
  stacks stay within the tables; variables and the dictionary.
\<close>

subsection \<open>More nesting changes nothing\<close>

definition le_opt :: "'a option \<Rightarrow> 'a option \<Rightarrow> bool" where
  "le_opt x y \<longleftrightarrow> (x = None \<or> x = y)"

lemma le_opt_refl [simp]: "le_opt x x"
  by (simp add: le_opt_def)

lemma le_opt_None [simp]: "le_opt None y"
  by (simp add: le_opt_def)

lemma le_opt_Some: "le_opt x y \<Longrightarrow> x = Some z \<Longrightarrow> y = Some z"
  by (auto simp: le_opt_def)

lemma le_opt_case:
  "\<lbrakk>le_opt x y; \<And>z. x = Some z \<Longrightarrow> y = Some z \<Longrightarrow> le_opt (f z) (g z)\<rbrakk> \<Longrightarrow>
    le_opt (case x of None \<Rightarrow> None | Some z \<Rightarrow> f z) (case y of None \<Rightarrow> None | Some z \<Rightarrow> g z)"
  by (auto simp: le_opt_def split: option.splits)

lemma le_opt_eval:
  "\<lbrakk>\<And>st q. z = Failed st q \<Longrightarrow> le_opt (f st q) (f' st q); \<And>v q. z = Value v q \<Longrightarrow> le_opt (g v q) (g' v q)\<rbrakk> \<Longrightarrow>
    le_opt (case z of Value v q \<Rightarrow> g v q | Failed st q \<Rightarrow> f st q) (case z of Value v q \<Rightarrow> g' v q | Failed st q \<Rightarrow> f' st q)"
  by (cases z) simp_all

lemma le_opt_if: "\<lbrakk>b \<Longrightarrow> le_opt x y; \<not> b \<Longrightarrow> le_opt x' y'\<rbrakk> \<Longrightarrow> le_opt (if b then x else x') (if b then y else y')"
  by simp

lemma call_loop_mono:
  assumes n: "\<And>b p q. le_opt (n1 b p q) (n2 b p q)"
  shows "le_opt (call_loop n1 dict buf fin start f pos par pb p) (call_loop n2 dict buf fin start f pos par pb p)"
proof (induction "fin - p" arbitrary: p pos par pb rule: less_induct)
  case less
  show ?case
  proof (cases "p < fin")
    case True
    have IH: "le_opt (call_loop n1 dict buf fin start f pos' par' pb' (Suc p)) (call_loop n2 dict buf fin start f pos' par' pb' (Suc p))"
      for pos' par' pb' using True by (intro less) simp
    show ?thesis
      by (subst (1 2) call_loop.simps, unfold Let_def)
        (intro le_opt_if le_opt_case le_opt_eval n IH le_opt_refl)
  next
    case False
    then show ?thesis by (subst (1 2) call_loop.simps) (simp add: cur_char_end Let_def)
  qed
qed

lemma variable_mono:
  assumes n: "\<And>b p q. le_opt (n1 b p q) (n2 b p q)"
  shows "le_opt (variable n1 dict x) (variable n2 dict x)"
proof (cases "dict x")
  case (Some item)
  show ?thesis
    by (cases "it_what item")
      (simp_all add: variable_def Some Let_def, intro le_opt_case n le_opt_refl)
qed (simp add: variable_def)

lemma operand_mono:
  assumes n: "\<And>b p q. le_opt (n1 b p q) (n2 b p q)"
  shows "le_opt (operand n1 A dict buf fin p) (operand n2 A dict buf fin p)"
  unfolding operand_def Let_def
  by (intro le_opt_if le_opt_case variable_mono call_loop_mono n le_opt_refl)

text \<open>One round of the main loop, and induction over its rounds.\<close>

lemma engine_loop_token:
  assumes "\<not> isspace (cur_char buf fin p)" and "next_token buf fin p = Some (cur, q)"
  shows "engine_loop nested A dict buf fin prev op pos vals p =
    (if syntax_of prev cur = 0 then Some (Failed ERROR_SYNTAX_ERROR q)
     else if syntax_of prev cur = 1 then
       (case operand nested A dict buf fin q of
          None \<Rightarrow> None
        | Some z \<Rightarrow> (case z of
            Value v nxt \<Rightarrow> engine_loop nested A dict buf fin cur op pos (v # vals) nxt
          | Failed st q \<Rightarrow> Some (Failed st q)))
     else
       (case next_operator A cur q op pos (if syntax_of prev cur = 2 then ar_zero A # vals else vals) of
          Exit r \<Rightarrow> Some r
        | Continue op' pos' vals' \<Rightarrow> engine_loop nested A dict buf fin cur op' pos' vals' (Suc q)))"
  using assms by (subst engine_loop.simps) (simp add: Let_def)

lemma engine_loop_unexpected:
  "\<lbrakk>\<not> isspace (cur_char buf fin p); next_token buf fin p = None\<rbrakk> \<Longrightarrow>
    engine_loop nested A dict buf fin prev op pos vals p = Some (Failed ERROR_UNEXPECTED_SYMBOL p)"
  by (subst engine_loop.simps) simp

lemma engine_loop_rounds:
  assumes "\<And>prev op pos vals p.
    \<lbrakk>isspace (cur_char buf fin p) \<Longrightarrow> P prev op pos vals (Suc p);
      \<And>cur q v nxt. \<lbrakk>\<not> isspace (cur_char buf fin p); next_token buf fin p = Some (cur, q); syntax_of prev cur = 1;
        operand nested A dict buf fin q = Some (Value v nxt)\<rbrakk> \<Longrightarrow> P cur op pos (v # vals) nxt;
      \<And>cur q op' pos' vals'. \<lbrakk>\<not> isspace (cur_char buf fin p); next_token buf fin p = Some (cur, q);
        syntax_of prev cur \<noteq> 0; syntax_of prev cur \<noteq> 1;
        next_operator A cur q op pos (if syntax_of prev cur = 2 then ar_zero A # vals else vals) = Continue op' pos' vals'\<rbrakk>
        \<Longrightarrow> P cur op' pos' vals' (Suc q)\<rbrakk> \<Longrightarrow> P prev op pos vals p"
  shows "P prev op pos vals p"
  using assms
proof (induction nested A dict buf fin prev op pos vals p rule: engine_loop.induct)
  case (1 nested A dict buf fin prev op pos vals p)
  show ?case
  proof (rule "1.prems", goal_cases)
    case 1
    then show ?case using "1.IH"(1) "1.prems" by blast
  next
    case (2 cur q v nxt)
    show ?case by (rule "1.IH"(2) [OF 2(1,2) refl refl _ 2(3,4) refl]) (use 2 "1.prems" in auto)
  next
    case (3 cur q op' pos' vals')
    show ?case by (rule "1.IH"(3) [OF 3(1,2) refl refl 3(3,4,5)]) (use "1.prems" in auto)
  qed
qed

lemma engine_loop_mono:
  assumes n: "\<And>b p q. le_opt (n1 b p q) (n2 b p q)"
  shows "le_opt (engine_loop n1 A dict buf fin prev op pos vals p) (engine_loop n2 A dict buf fin prev op pos vals p)"
proof (induction prev op pos vals p rule: engine_loop_rounds [where buf = buf and fin = fin and nested = n1 and A = A and dict = dict])
  case (1 prev op pos vals p)
  show ?case
  proof (cases "isspace (cur_char buf fin p)")
    case True
    then show ?thesis using 1(1) by (simp add: engine_loop_blank)
  next
    case no_space: False
    show ?thesis
    proof (cases "next_token buf fin p")
      case None
      then show ?thesis using no_space by (simp add: engine_loop_unexpected)
    next
      case (Some t)
      obtain cur q where t: "t = (cur, q)" by fastforce
      note IH = 1(2,3) [OF no_space Some [unfolded t]]
      show ?thesis
        unfolding engine_loop_token [OF no_space Some [unfolded t]]
      proof (intro le_opt_if le_opt_refl le_opt_case operand_mono n le_opt_eval)
        fix z v r
        assume "syntax_of prev cur = 1" "operand n1 A dict buf fin q = Some z" "z = Value v r"
        then show "le_opt (engine_loop n1 A dict buf fin cur op pos (v # vals) r) (engine_loop n2 A dict buf fin cur op pos (v # vals) r)"
          using IH(1) by simp
      next
        assume "syntax_of prev cur \<noteq> 0" "syntax_of prev cur \<noteq> 1"
        note IH = IH(2) [OF this]
        show "le_opt
          (case next_operator A cur q op pos (if syntax_of prev cur = 2 then ar_zero A # vals else vals) of Exit x \<Rightarrow> Some x
           | Continue op' pos' vals' \<Rightarrow> engine_loop n1 A dict buf fin cur op' pos' vals' (Suc q))
          (case next_operator A cur q op pos (if syntax_of prev cur = 2 then ar_zero A # vals else vals) of Exit x \<Rightarrow> Some x
           | Continue op' pos' vals' \<Rightarrow> engine_loop n2 A dict buf fin cur op' pos' vals' (Suc q))"
          by (cases "next_operator A cur q op pos (if syntax_of prev cur = 2 then ar_zero A # vals else vals)")
            (simp_all add: IH)
      qed
    qed
  qed
qed

lemma engine_with_mono:
  assumes "\<And>b p q. le_opt (n1 b p q) (n2 b p q)"
  shows "le_opt (engine_with n1 A dict buf p fin) (engine_with n2 A dict buf p fin)"
  unfolding engine_with_def Let_def using assms by (intro le_opt_if le_opt_refl engine_loop_mono)

lemma engine_step_mono: "le_opt (engine A dict n buf p fin) (engine A dict (Suc n) buf p fin)"
proof (induction n arbitrary: buf p fin)
  case (Suc n)
  then have "le_opt (engine_with (engine A dict n) A dict buf p fin) (engine_with (engine A dict (Suc n)) A dict buf p fin)"
    by (rule engine_with_mono)
  then show ?case by simp
qed simp

lemma engine_mono: "n \<le> m \<Longrightarrow> le_opt (engine A dict n buf p fin) (engine A dict m buf p fin)"
proof (induction m rule: dec_induct)
  case (step m)
  then show ?case using engine_step_mono [of A dict m buf p fin] by (auto simp: le_opt_def)
qed simp

subsection \<open>The engine evaluates the tree of an expression\<close>

text \<open>\<open>cur\<close>, ending at \<open>p'\<close>, is the token that follows a text ending at \<open>q\<close>.\<close>

definition follow :: "string \<Rightarrow> nat \<Rightarrow> nat \<Rightarrow> tok \<Rightarrow> nat \<Rightarrow> bool" where
  "follow buf fin q cur p' \<longleftrightarrow> next_token buf fin (skip_blanks buf fin q) = Some (cur, p') \<and> stops (drop q buf) \<and>
     cur \<noteq> LBRA \<and> cur \<noteq> VALUE"

definition go_on :: "'d nested \<Rightarrow> 'd Arith \<Rightarrow> 'd dic_type \<Rightarrow> string \<Rightarrow> nat \<Rightarrow> tok \<Rightarrow> nat \<Rightarrow> 'd step \<Rightarrow> 'd eval option" where
  "go_on nested A dict buf fin cur p step = (case step of
       Exit r \<Rightarrow> Some r
     | Continue op pos vals \<Rightarrow> engine_loop nested A dict buf fin cur op pos vals (Suc p))"

lemma go_on_simps [simp]:
  "go_on nested A dict buf fin cur p (Exit r) = Some r"
  "go_on nested A dict buf fin cur p (Continue op pos vals) = engine_loop nested A dict buf fin cur op pos vals (Suc p)"
  by (simp_all add: go_on_def)

lemma engine_loop_resume:
  assumes f: "follow buf fin q cur p'" and prev: "prev = VALUE \<or> prev = RBRA"
  shows "engine_loop nested A dict buf fin prev op pos vals q =
    go_on nested A dict buf fin cur p' (next_operator A cur p' op pos vals)"
proof -
  let ?r = "skip_blanks buf fin q"
  have t: "next_token buf fin ?r = Some (cur, p')" and s: "syntax_of prev cur = 3"
    using f prev syntax_of_after by (auto simp: follow_def)
  have "engine_loop nested A dict buf fin prev op pos vals q = engine_loop nested A dict buf fin prev op pos vals ?r"
    by (simp add: engine_loop_skip)
  also have "\<dots> = go_on nested A dict buf fin cur p' (next_operator A cur p' op pos vals)"
    by (simp add: engine_loop_token [OF skip_blanks_no_space t] s go_on_def)
  finally show ?thesis .
qed

lemma engine_loop_operator:
  assumes "\<not> isspace (cur_char buf fin p)" and "next_token buf fin p = Some (cur, q)" and "syntax_of prev cur = 3"
  shows "engine_loop nested A dict buf fin prev op pos vals p =
    go_on nested A dict buf fin cur q (next_operator A cur q op pos vals)"
  using assms by (simp add: engine_loop_token go_on_def)

lemma engine_loop_sign:
  assumes "\<not> isspace (cur_char buf fin p)" and "next_token buf fin p = Some (cur, q)" and "syntax_of prev cur = 2"
  shows "engine_loop nested A dict buf fin prev op pos vals p =
    go_on nested A dict buf fin cur q (next_operator A cur q op pos (ar_zero A # vals))"
  using assms by (simp add: engine_loop_token go_on_def)

lemma next_operator_push:
  "action_of tp cur = 1 \<Longrightarrow> next_operator A cur p (tp # op) pos vals = Continue (cur # tp # op) (p # pos) vals"
  by (simp add: next_operator.simps)

lemma next_operator_reduce:
  assumes op: "0 < level op" "level cur \<le> level op" "cur \<noteq> LBRA" "cur \<noteq> VALUE"
    and tp: "tp \<noteq> RBRA" "tp \<noteq> VALUE" "level tp < level op"
  shows "next_operator A cur p (op # tp # ops) (q # pos) (b # a # vals) = (case binary A op a b of
      Inl st \<Rightarrow> Exit (Failed st q)
    | Inr v \<Rightarrow> next_operator A cur p (tp # ops) pos (v # vals))"
proof -
  consider "action_of op cur = 4" | "action_of op cur = 2" "level cur = level op"
    using action_of_reduce [OF op] by blast
  then show ?thesis
  proof cases
    case 2
    then have "action_of tp cur = 1" using tp by (intro action_of_push) auto
    with 2 show ?thesis by (simp add: next_operator.simps maker_def split: sum.splits)
  qed (simp add: next_operator.simps(2) [of A cur p op] maker_def split: sum.splits)
qed

text \<open>
  What a run gives (\<open>r\<close>) agrees with the value of a tree: it goes on with the value, or leaves with the status.
\<close>

definition agrees :: "'d eval option \<Rightarrow> status + 'a \<Rightarrow> ('a \<Rightarrow> 'd eval option) \<Rightarrow> bool" where
  "agrees r v resume = (case v of Inr x \<Rightarrow> r = resume x | Inl st \<Rightarrow> (\<exists>q. r = Some (Failed st q)))"

lemma agrees_Inr [simp]: "agrees r (Inr x) resume \<longleftrightarrow> r = resume x"
  by (simp add: agrees_def)

lemma agrees_Inl [simp]: "agrees r (Inl st) resume \<longleftrightarrow> (\<exists>q. r = Some (Failed st q))"
  by (simp add: agrees_def)

lemma agrees_bindE:
  "\<lbrakk>agrees r v resume; \<And>x. v = Inr x \<Longrightarrow> agrees (resume x) (f x) resume'\<rbrakk> \<Longrightarrow> agrees r (bindE v f) resume'"
  by (cases v) simp_all

text \<open>The names a tree uses have the values \<open>look\<close> within \<open>m\<close> activations.\<close>

definition known :: "'d Arith \<Rightarrow> 'd dic_type \<Rightarrow> nat \<Rightarrow> (string \<Rightarrow> status + 'd) \<Rightarrow> string set \<Rightarrow> bool" where
  "known A dict m look X \<longleftrightarrow> (\<forall>x\<in>X. variable (engine A dict m) dict x = Some (look x))"

lemma known_later:
  "\<lbrakk>known A dict m look X; x \<in> X; m \<le> k\<rbrakk> \<Longrightarrow> variable (engine A dict k) dict x = Some (look x)"
  unfolding known_def by (metis le_opt_Some variable_mono engine_mono)

lemma known_Un [simp]: "known A dict m look (X \<union> Y) \<longleftrightarrow> known A dict m look X \<and> known A dict m look Y"
  by (auto simp: known_def)

text \<open>The failures of an evaluation.\<close>

definition failures :: "status set" where
  "failures = {ERROR_UNKNOWN_VARIABLE, ERROR_UNKNOWN_FUNCTION, ERROR_CALCULATION_ERROR}"

lemma failures_not [simp]: "WARNING_BLANK_STRING \<notin> failures" "OK \<notin> failures"
  by (simp_all add: failures_def)

lemma variable_failures: "variable nested dict x = Some (Inl st) \<Longrightarrow> st \<in> failures"
  by (auto simp: variable_def Let_def failures_def split: option.splits what.splits eval.splits)

lemma binary_failures: "binary A op a b = Inl st \<Longrightarrow> st \<in> failures"
  by (cases op) (auto simp: binary_def failures_def split: option.splits if_splits)

lemma execute_failures: "execute_function dict f vs = Inl st \<Longrightarrow> st \<in> failures"
  by (auto simp: execute_function_def Let_def failures_def split: option.splits if_splits)

lemma value_failures:
  "\<lbrakk>known A dict m look (variables e); expr_value A dict look e = Inl st\<rbrakk> \<Longrightarrow> st \<in> failures"
  "\<lbrakk>known A dict m look (variabless es); expr_values A dict look es = Inl st\<rbrakk> \<Longrightarrow> st \<in> failures"
proof (induction e and es arbitrary: st and st rule: variables_variabless.induct)
  case (2 x)
  then show ?case using variable_failures [of "engine A dict m" dict x] by (simp add: known_def)
qed (auto simp: bindE_Inl_iff failures_def [symmetric] dest: binary_failures execute_failures split: option.splits,
    simp add: failures_def)

lemma value_no_blank:
  "known A dict m look (variables e) \<Longrightarrow> expr_value A dict look e \<noteq> Inl WARNING_BLANK_STRING"
  using value_failures(1) failures_not by blast

text \<open>Where a text of the language can start.\<close>

definition starts :: "bool \<Rightarrow> char \<Rightarrow> bool" where
  "starts lead c \<longleftrightarrow> isalnum c \<or> c = CHR ''.'' \<or> c = CHR ''('' \<or> isspace c \<or> lead \<and> (c = CHR ''+'' \<or> c = CHR ''-'')"

lemma spells_starts:
  "spells lvl lead e s \<Longrightarrow> s \<noteq> [] \<and> starts lead (hd s)" "spells_args es t \<Longrightarrow> t \<noteq> []"
proof (induction rule: spells_spells_args.inducts)
  case (signed lvl op t r u)
  then show ?case by (auto simp: starts_def)
qed (auto simp: literal_def proper_name_def starts_def isalnum_def)

lemma starts_no_operator: "starts False c \<Longrightarrow> c \<noteq> CHR ''='' \<and> c \<noteq> CHR ''*''"
  by (auto simp: starts_def char_classes)

lemma balance_no_nul: "balance d s = Some d' \<Longrightarrow> nul \<notin> set s"
  by (induction d s rule: balance.induct) (auto split: if_splits)

lemma spells_nonblank:
  "spells lvl lead e s \<Longrightarrow> \<exists>c\<in>set s. \<not> isspace c" "spells_args es t \<Longrightarrow> \<exists>c\<in>set t. \<not> isspace c"
proof (induction rule: spells_spells_args.inducts)
  case (number d lvl lead)
  then show ?case by (cases d) (auto simp: literal_def char_classes)
next
  case (name x lvl lead)
  then show ?case using char_classes_disjoint(4,5) by (cases x) (auto simp: proper_name_def)
next
  case (apply_none f a b lvl lead)
  then show ?case by (auto simp: char_classes)
next
  case (apply_args f a es s lvl lead)
  then show ?case by auto
qed auto

lemma skip_to_text:
  "\<lbrakk>at buf p s; p + length s \<le> fin; \<exists>c\<in>set s. \<not> isspace c; nul \<notin> set s\<rbrakk> \<Longrightarrow>
    cur_char buf fin (skip_blanks buf fin p) \<noteq> nul"
proof (induction s arbitrary: p)
  case (Cons c s)
  have c: "cur_char buf fin p = c" using Cons.prems by (intro cur_char_at [of _ _ _ s]) auto
  show ?case
  proof (cases "isspace c")
    case True
    then show ?thesis using Cons.IH [of "Suc p"] Cons.prems c by (auto simp: skip_blanks_space at_Cons)
  qed (use c Cons.prems in \<open>auto simp: skip_blanks_stay\<close>)
qed simp

lemma follow_end: "stops (drop fin buf) \<Longrightarrow> follow buf fin fin ENDL fin"
  by (simp add: follow_def skip_blanks_end next_token_ENDL)

lemma last_operator: "next_operator A ENDL fin [ENDL] pos [v] = Exit (Value v fin)"
  by (simp add: next_operator.simps action_tables)

text \<open>From the main loop to the engine.\<close>

lemma engine_agrees:
  assumes s: "spells lvl lead e s" "at buf p s" "p + length s = fin"
    and loop: "agrees (engine_loop (engine A dict k) A dict buf fin ENDL [ENDL] [p] [] p) w
      (\<lambda>v. go_on (engine A dict k) A dict buf fin ENDL fin (next_operator A ENDL fin [ENDL] [p] [v]))"
  shows "agrees (engine A dict (Suc k) buf p fin) w (\<lambda>v. Some (Value v fin))"
proof -
  have "nul \<notin> set s" using spells_balance(1) [OF s(1), of 1] balance_no_nul by simp
  then have "cur_char buf fin (skip_blanks buf fin p) \<noteq> nul"
    using s spells_nonblank(1) [OF s(1)] by (intro skip_to_text [of buf p s]) auto
  then have "engine A dict (Suc k) buf p fin = engine_loop (engine A dict k) A dict buf fin ENDL [ENDL] [p] [] p"
    by (simp add: engine_with_def engine_loop_skip)
  with loop show ?thesis by (simp add: last_operator)
qed

text \<open>The operands.\<close>

lemma stops_drop: "stop (buf_at buf q) \<Longrightarrow> stops (drop q buf)"
  by (cases "q < length buf") (auto simp: stops_def buf_at_def hd_drop_conv_nth)

lemma engine_loop_operand:
  assumes "cur_char buf fin p = c" "isalnum c \<or> c = CHR ''.''" and "prev \<noteq> VALUE" "prev \<noteq> RBRA"
  shows "engine_loop nested A dict buf fin prev op pos vals p = (case operand nested A dict buf fin p of
      None \<Rightarrow> None
    | Some z \<Rightarrow> (case z of
        Value v nxt \<Rightarrow> engine_loop nested A dict buf fin VALUE op pos (v # vals) nxt
      | Failed st q \<Rightarrow> Some (Failed st q)))"
proof -
  have "\<not> isspace (cur_char buf fin p)" using assms by (auto simp: char_classes)
  note token = engine_loop_token [OF this next_token_VALUE [OF assms(1,2)]]
  show ?thesis by (simp add: token syntax_of_operand_ok [OF assms(3,4)])
qed

lemma engine_loop_number:
  assumes d: "literal d" "at buf p d" "p + length d \<le> fin" and prev: "prev \<noteq> VALUE" "prev \<noteq> RBRA"
    and f: "follow buf fin (p + length d) cur p'"
  shows "agrees (engine_loop nested A dict buf fin prev op pos vals p) (expr_value A dict look (Number d))
    (\<lambda>v. go_on nested A dict buf fin cur p' (next_operator A cur p' op pos (v # vals)))"
proof -
  have ne: "d \<noteq> []" and hd: "isdigit (hd d) \<or> hd d = CHR ''.''" and l: "strtod_len d = length d"
    using d(1) by (auto simp: literal_def)
  obtain c u where cu: "d = c # u" using ne by (cases d) auto
  have c: "cur_char buf fin p = c" using cur_char_at [of buf p c u fin] d cu by simp
  have bc: "buf_at buf p = c" using buf_at_at [of buf p c u] d cu by simp
  have dr: "drop p buf = d @ drop (p + length d) buf" by (rule at_drop [OF d(2)])
  have "strtod_len (d @ drop (p + length d) buf) = length d"
    using l f ne by (intro strtod_len_append) (auto simp: follow_def)
  then have "strtod_len (drop p buf) = length d" using dr by simp
  moreover have "take (length d) (drop p buf) = d" using d(2) by (simp add: at_def)
  moreover have "\<not> isalpha c" using hd cu by (auto simp: isalpha_def isdigit_def char_code_def)
  ultimately have "operand nested A dict buf fin p = (case ar_number A d of
      None \<Rightarrow> Some (Failed ERROR_CALCULATION_ERROR p) | Some v \<Rightarrow> Some (Value v (p + length d)))"
    by (simp add: operand_def bc)
  note opd = this
  have "isalnum c \<or> c = CHR ''.''" using hd cu by (auto simp: isalnum_def)
  note loop = engine_loop_operand [OF c this prev, of nested A dict op pos vals, unfolded opd]
  show ?thesis
    unfolding loop by (cases "ar_number A d") (simp_all add: engine_loop_resume [OF f disjI1 [OF refl]])
qed

text \<open>The name in front of an operand, and what stands behind it.\<close>

lemma name_scan:
  assumes x: "proper_name x" "at buf p x" "p + length x \<le> fin" and s: "stops (drop (p + length x) buf)"
  shows "skip_name buf fin p = p + length x" and "take (length x) (drop p buf) = x"
    and "isalpha (buf_at buf p)" and "cur_char buf fin p = buf_at buf p"
proof -
  have "skip_name buf fin p = skip_name buf fin (p + length x)"
    using x by (intro skip_name_all) (auto simp: proper_name_def)
  also have "\<dots> = p + length x"
  proof (rule skip_name_stay)
    show "\<not> (p + length x < fin \<and> is_name_char (buf_at buf (p + length x)))"
      using s by (cases "p + length x < length buf")
        (auto simp: stops_def stop_def buf_at_def hd_drop_conv_nth char_classes nul_def)
  qed
  finally show "skip_name buf fin p = p + length x" .
  show "take (length x) (drop p buf) = x" using x by (simp add: at_def)
  obtain c u where "x = c # u" using x by (cases x) (auto simp: proper_name_def)
  then show "isalpha (buf_at buf p)" "cur_char buf fin p = buf_at buf p"
    using x buf_at_at [of buf p c u] cur_char_at [of buf p c u fin] by (auto simp: proper_name_def)
qed

lemma engine_loop_name:
  assumes x: "proper_name x" "at buf p x" "p + length x \<le> fin" and prev: "prev \<noteq> VALUE" "prev \<noteq> RBRA"
    and f: "follow buf fin (p + length x) cur p'" and look: "variable nested dict x = Some w"
  shows "agrees (engine_loop nested A dict buf fin prev op pos vals p) w
    (\<lambda>v. go_on nested A dict buf fin cur p' (next_operator A cur p' op pos (v # vals)))"
proof -
  let ?q = "skip_blanks buf fin (p + length x)"
  note n = name_scan [OF x]
  have "stops (drop (p + length x) buf)" using f by (simp add: follow_def)
  note n = n [OF this]
  have "cur_char buf fin ?q \<noteq> CHR ''(''"
    using f by (auto simp: follow_def next_token_def Let_def nul_def)
  then have "operand nested A dict buf fin p = Some (call_result w p ?q)"
    using n look by (simp add: operand_def)
  note opd = this
  have "isalnum (cur_char buf fin p)" using n by (simp add: isalnum_def)
  note loop = engine_loop_operand [OF refl disjI1 [OF this] prev, of nested A dict op pos vals, unfolded opd]
  show ?thesis
    unfolding loop
    by (cases w) (simp_all add: call_result_def engine_loop_skip engine_loop_resume [OF f disjI1 [OF refl]])
qed

lemma engine_loop_call:
  assumes x: "proper_name f" "list_all isspace a" "at buf p (f @ a @ CHR ''('' # s @ '')'')"
      "p + length (f @ a @ CHR ''('' # s @ '')'') \<le> fin"
    and prev: "prev \<noteq> VALUE" "prev \<noteq> RBRA"
    and fo: "follow buf fin (p + length (f @ a @ CHR ''('' # s @ '')'')) cur p'"
    and args: "let q = Suc (p + length f + length a) in
      agrees (call_loop nested dict buf fin p f [q - 1] [] q q) vs
        (\<lambda>vs. Some (call_result (execute_function dict f (rev vs)) p (Suc (q + length s))))"
  shows "agrees (engine_loop nested A dict buf fin prev op pos vals p)
    (bindE vs (\<lambda>vs. execute_function dict f (rev vs)))
    (\<lambda>v. go_on nested A dict buf fin cur p' (next_operator A cur p' op pos (v # vals)))"
proof -
  let ?o = "p + length f + length a"
  have at: "at buf p f" "at buf (p + length f) a" "at buf ?o (CHR ''('' # s @ '')'')"
    using x by (auto simp: at_append add.assoc)
  have le: "p + length f \<le> fin" "?o < fin" using x by auto
  have o: "cur_char buf fin ?o = CHR ''(''" using at(3) le by (simp add: cur_char_at)
  have "stop (buf_at buf (p + length f))"
    using x(2) at buf_at_at [of buf "p + length f"]
    by (cases a) (auto simp: char_classes_disjoint(1), simp add: stop_def is_name_char_def isalnum_def isalpha_def isdigit_def char_code_def)
  note n = name_scan [OF x(1) at(1) le(1) stops_drop [OF this]]
  have q: "skip_blanks buf fin (p + length f) = ?o"
    using skip_blanks_all [OF x(2) at(2)] le skip_blanks_stay [of buf fin ?o] o by (simp add: isspace_def char_code_def)
  have step: "call_loop nested dict buf fin p f [] [] (Suc ?o) ?o = call_loop nested dict buf fin p f [?o] [] (Suc ?o) (Suc ?o)"
    using o by (subst call_loop.simps) (simp add: nul_def)
  have opd: "operand nested A dict buf fin p = call_loop nested dict buf fin p f [?o] [] (Suc ?o) (Suc ?o)"
    using n q o step by (simp add: operand_def Let_def)
  have "isalnum (cur_char buf fin p)" using n by (simp add: isalnum_def)
  note loop = engine_loop_operand [OF refl disjI1 [OF this] prev, of nested A dict op pos vals, unfolded opd]
  have e: "Suc (Suc ?o + length s) = p + length (f @ a @ CHR ''('' # s @ '')'')" by simp
  show ?thesis
  proof (cases vs)
    case (Inl st)
    then show ?thesis using args loop by (auto simp: Let_def)
  next
    case (Inr ws)
    then have "call_loop nested dict buf fin p f [?o] [] (Suc ?o) (Suc ?o) =
        Some (call_result (execute_function dict f (rev ws)) p (p + length (f @ a @ CHR ''('' # s @ '')'')))"
      using args by (simp add: Let_def add.assoc)
    note loop = loop [unfolded this]
    show ?thesis
      unfolding Inr bindE_simps loop
      by (cases "execute_function dict f (rev ws)")
        (simp_all add: call_result_def engine_loop_resume [OF fo disjI1 [OF refl], simplified])
  qed
qed

text \<open>One parameter of a call, ended by a comma or the closing parenthesis.\<close>

lemma call_loop_parameter:
  assumes "balance 1 s = Some 1" "at buf p s" "p + length s < fin" and pos: "length pos = 1"
  shows "\<exists>pos'. length pos' = 1 \<and> call_loop nested dict buf fin start f pos par p p =
    call_loop nested dict buf fin start f pos' par p (p + length s)"
proof -
  have "pos \<noteq> []" "balance (length pos) s = Some 1" using assms by auto
  from balance_scan [OF this(2,1) assms(2), of fin nested dict start f par p] assms(3) show ?thesis by auto
qed

lemma call_loop_comma:
  assumes s: "spells 1 True e s" "at buf p (s @ CHR '','' # t)" "p + length s < fin" and pos: "length pos = 1"
    and arg: "agrees (nested buf p (p + length s)) w (\<lambda>v. Some (Value v (p + length s)))" and nb: "w \<noteq> Inl WARNING_BLANK_STRING"
  shows "\<exists>pos'. length pos' = 1 \<and>
    agrees (call_loop nested dict buf fin start f pos par p p) w
      (\<lambda>v. call_loop nested dict buf fin start f pos' (v # par) (Suc (p + length s)) (Suc (p + length s)))"
proof -
  have at: "at buf p s" "at buf (p + length s) (CHR '','' # t)" using s by (auto simp: at_append)
  obtain pos' where pos': "length pos' = 1"
    and eq: "call_loop nested dict buf fin start f pos par p p = call_loop nested dict buf fin start f pos' par p (p + length s)"
    using call_loop_parameter [OF spells_balance(1) [OF s(1) order_refl] at(1) s(3) pos] by blast
  have c: "cur_char buf fin (p + length s) = CHR '',''" using at s by (simp add: cur_char_at)
  have "agrees (call_loop nested dict buf fin start f pos' par p (p + length s)) w
      (\<lambda>v. call_loop nested dict buf fin start f pos' (v # par) (Suc (p + length s)) (Suc (p + length s)))"
    using c pos' arg nb by (subst call_loop.simps) (cases w; auto simp: nul_def Let_def)
  then show ?thesis using pos' eq by auto
qed

lemma call_loop_close:
  assumes s: "spells 1 True e s" "at buf p (s @ CHR '')'' # t)" "p + length s < fin" and pos: "length pos = 1"
    and arg: "agrees (nested buf p (p + length s)) w (\<lambda>v. Some (Value v (p + length s)))" and nb: "w \<noteq> Inl WARNING_BLANK_STRING"
  shows "agrees (call_loop nested dict buf fin start f pos par p p) w
      (\<lambda>v. Some (call_result (execute_function dict f (v # par)) start (Suc (p + length s))))"
proof -
  have at: "at buf p s" "at buf (p + length s) (CHR '')'' # t)" using s by (auto simp: at_append)
  obtain pos' where pos': "length pos' = 1"
    and eq: "call_loop nested dict buf fin start f pos par p p = call_loop nested dict buf fin start f pos' par p (p + length s)"
    using call_loop_parameter [OF spells_balance(1) [OF s(1) order_refl] at(1) s(3) pos] by blast
  have c: "cur_char buf fin (p + length s) = CHR '')''" using at s by (simp add: cur_char_at)
  show ?thesis
    unfolding eq using c pos' arg nb by (subst call_loop.simps) (cases w; auto simp: nul_def Let_def)
qed

lemma call_loop_none:
  assumes b: "list_all isspace b" "at buf p (b @ CHR '')'' # t)" "p + length b < fin" and pos: "length pos = 1"
    and blank: "nested buf p (p + length b) = Some (Failed WARNING_BLANK_STRING q)"
  shows "call_loop nested dict buf fin start f pos [] p p =
    Some (call_result (execute_function dict f []) start (Suc (p + length b)))"
proof -
  have at: "at buf p b" "at buf (p + length b) (CHR '')'' # t)" using b by (auto simp: at_append)
  have "balance 1 b = Some 1"
    using b(1) by (intro balance_plain) (auto simp: list_all_iff plain_classes)
  then obtain pos' where pos': "length pos' = 1"
    and eq: "call_loop nested dict buf fin start f pos [] p p = call_loop nested dict buf fin start f pos' [] p (p + length b)"
    using call_loop_parameter [OF _ at(1) b(3) pos] by blast
  have c: "cur_char buf fin (p + length b) = CHR '')''" using at b by (simp add: cur_char_at)
  show ?thesis
    unfolding eq using c pos' blank by (subst call_loop.simps) (simp add: nul_def Let_def)
qed

lemma engine_blank:
  assumes "list_all isspace b" "at buf p b" "p + length b = fin"
  shows "engine A dict (Suc k) buf p fin = Some (Failed WARNING_BLANK_STRING p)"
  using skip_blanks_all [OF assms(1,2), of fin] assms(3)
  by (simp add: engine_with_def skip_blanks_end cur_char_end)

lemma stops_close: "at buf q (c # t) \<Longrightarrow> c = CHR '')'' \<or> c = CHR '','' \<Longrightarrow> stops (drop q buf)"
  by (intro stops_drop) (auto simp: buf_at_at char_classes)

text \<open>An operator between its operands: the left one is on the stack, the right one follows.\<close>

lemma operator_place:
  assumes t: "t \<in> set (spelling op)" and at: "at buf p (t @ u)" and le: "p + length (t @ u) \<le> fin"
    and u: "u \<noteq> []" "starts False (hd u)"
  obtains q where "Suc q = p + length t" "next_token buf fin p = Some (op, q)" "\<not> isspace (cur_char buf fin p)"
    "follow buf fin p op q" "0 < level op" "op \<noteq> RBRA" "op \<noteq> VALUE"
proof -
  have "at buf (p + length t) u" "at buf p t" using at by (simp_all add: at_append)
  then have b: "buf_at buf (p + length t) = hd u" using u buf_at_at [of buf "p + length t" "hd u" "tl u"] by simp
  have "p + length t \<le> fin" using le by simp
  note tok = next_token_operator [OF t \<open>at buf p t\<close> this, unfolded b]
  note tok = tok [OF starts_no_operator [OF u(2), THEN conjunct1] starts_no_operator [OF u(2), THEN conjunct2]]
  have "p < fin" using tok(4) le by (cases t) auto
  then have "stops (drop p buf)" using tok(3) by (intro stops_drop) (simp add: cur_char_def)
  moreover have "op \<noteq> LBRA" "op \<noteq> VALUE" "op \<noteq> RBRA" "0 < level op" using t by auto (cases op; simp)
  ultimately show ?thesis
    using tok that [of "p + length t - 1"] by (auto simp: follow_def skip_blanks_stay neq_Nil_conv)
qed

lemma engine_loop_right:
  assumes op: "0 < level op" "op \<noteq> RBRA" "op \<noteq> VALUE" and tp: "tp \<noteq> RBRA" "tp \<noteq> VALUE" "level tp < lvl" "lvl \<le> level op"
    and cur: "level cur \<le> lvl" "cur \<noteq> LBRA" "cur \<noteq> VALUE"
    and right: "agrees (engine_loop n A dict buf fin op (op # tp # ops) (q # pos) (a # vals) (Suc q)) w
      (\<lambda>b. go_on n A dict buf fin cur p' (next_operator A cur p' (op # tp # ops) (q # pos) (b # a # vals)))"
  shows "agrees (go_on n A dict buf fin op q (next_operator A op q (tp # ops) pos (a # vals)))
    (bindE w (\<lambda>b. binary A op a b))
    (\<lambda>v. go_on n A dict buf fin cur p' (next_operator A cur p' (tp # ops) pos (v # vals)))"
proof (rule agrees_bindE)
  have "action_of tp op = 1" using op tp by (intro action_of_push) auto
  then show "agrees (go_on n A dict buf fin op q (next_operator A op q (tp # ops) pos (a # vals))) w
      (\<lambda>b. go_on n A dict buf fin cur p' (next_operator A cur p' (op # tp # ops) (q # pos) (b # a # vals)))"
    using right by (simp add: next_operator_push)
next
  fix b
  have "level cur \<le> level op" "level tp < level op" using cur tp by auto
  then show "agrees (go_on n A dict buf fin cur p' (next_operator A cur p' (op # tp # ops) (q # pos) (b # a # vals)))
      (binary A op a b) (\<lambda>v. go_on n A dict buf fin cur p' (next_operator A cur p' (tp # ops) pos (v # vals)))"
    using next_operator_reduce [of op cur tp A p' ops q pos b a vals] op cur tp by (cases "binary A op a b") simp_all
qed

lemma spells_engine:
  "\<lbrakk>spells lvl lead e s; at buf p s; p + length s \<le> fin; follow buf fin (p + length s) cur p';
      prev \<noteq> VALUE; prev \<noteq> RBRA; lead \<longrightarrow> prev = ENDL \<or> prev = LBRA; tp \<noteq> RBRA; tp \<noteq> VALUE; level tp < lvl; level cur \<le> lvl;
      known A dict m look (variables e); m + call_depth e \<le> k\<rbrakk> \<Longrightarrow>
    agrees (engine_loop (engine A dict k) A dict buf fin prev (tp # ops) pos vals p) (expr_value A dict look e)
      (\<lambda>v. go_on (engine A dict k) A dict buf fin cur p' (next_operator A cur p' (tp # ops) pos (v # vals)))"
  "\<lbrakk>spells_args es t; at buf p1 (t @ '')''); p1 + length t < fin1; length pos1 = 1;
      known A dict m look (variabless es); m + Suc (calls_depth es) \<le> k\<rbrakk> \<Longrightarrow>
    agrees (call_loop (engine A dict k) dict buf fin1 start f pos1 par p1 p1) (expr_values A dict look es)
      (\<lambda>vs. Some (call_result (execute_function dict f (rev vs @ par)) start (Suc (p1 + length t))))"
proof (induction arbitrary: p fin cur p' prev tp ops pos vals k and p1 fin1 pos1 start f par k rule: spells_spells_args.inducts)
  case (number d lvl lead)
  then show ?case using engine_loop_number by blast
next
  case (name x lvl lead)
  have "variable (engine A dict k) dict x = Some (look x)" using name.prems by (intro known_later [of _ _ m]) auto
  then show ?case using engine_loop_name name by simp
next
  case (apply_none f a b lvl lead)
  obtain k' where k: "k = Suc k'" using apply_none.prems by (cases k) auto
  let ?q = "Suc (p + length f + length a)"
  have at: "at buf ?q (b @ '')'')" using apply_none.prems(1) by (auto simp: at_append at_Cons add.assoc)
  then have "engine A dict k buf ?q (?q + length b) = Some (Failed WARNING_BLANK_STRING ?q)"
    unfolding k using apply_none by (intro engine_blank) (auto simp: at_append)
  then have "call_loop (engine A dict k) dict buf fin p f [?q - 1] [] ?q ?q =
      Some (call_result (execute_function dict f []) p (Suc (?q + length b)))"
    using at apply_none by (intro call_loop_none) auto
  then show ?case
    using engine_loop_call [of f a buf p b fin prev cur p' "engine A dict k" dict "Inr []"] apply_none by simp
next
  case (apply_args f a es s lvl lead)
  let ?q = "Suc (p + length f + length a)"
  have at: "at buf ?q (s @ '')'')" using apply_args.prems(1) by (auto simp: at_append at_Cons add.assoc)
  have "agrees (call_loop (engine A dict k) dict buf fin p f [?q - 1] [] ?q ?q) (expr_values A dict look es)
      (\<lambda>vs. Some (call_result (execute_function dict f (rev vs)) p (Suc (?q + length s))))"
    using apply_args.IH [of ?q fin "[?q - 1]" k p f "[]"] at apply_args.prems by simp
  then show ?case
    using engine_loop_call [of f a buf p s fin prev cur p' "engine A dict k" dict "expr_values A dict look es"] apply_args
    by (simp add: Let_def)
next
  case (binary lvl op t lead l s r u)
  note prems = binary.prems
  have "u \<noteq> []" "starts False (hd u)" using spells_starts(1) [OF binary.hyps(4)] by auto
  then obtain q where q: "Suc q = p + length s + length t" and f: "follow buf fin (p + length s) op q"
    and op: "0 < level op" "op \<noteq> RBRA" "op \<noteq> VALUE"
    using operator_place [of t op buf "p + length s" u fin] binary.hyps(2) prems(1,2) by (auto simp: at_append add.assoc)
  have at: "at buf p s" "at buf (Suc q) u" using prems(1) unfolding q by (simp_all add: at_append add.assoc)
  have cur: "cur \<noteq> LBRA" "cur \<noteq> VALUE" using prems(3) by (auto simp: follow_def)
  have left: "agrees (engine_loop (engine A dict k) A dict buf fin prev (tp # op') pos vals p) (expr_value A dict look l)
      (\<lambda>a. go_on (engine A dict k) A dict buf fin op q (next_operator A op q (tp # op') pos (a # vals)))" for op'
    using at(1) f prems binary.hyps(1) by (intro binary.IH(1)) auto
  have right: "agrees (engine_loop (engine A dict k) A dict buf fin op (op # tp # op') (q # pos) (a # vals) (Suc q))
      (expr_value A dict look r)
      (\<lambda>b. go_on (engine A dict k) A dict buf fin cur p' (next_operator A cur p' (op # tp # op') (q # pos) (b # a # vals)))"
    for a op'
    using at(2) op prems binary.hyps(1) q by (intro binary.IH(2)) (auto simp: add.assoc)
  show ?case
    unfolding expr_value.simps
    by (rule agrees_bindE [OF left]) (rule engine_loop_right [OF op prems(7-9) binary.hyps(1) prems(10) cur right])
next
  case (signed lvl op t r u)
  note prems = signed.prems
  have "u \<noteq> []" "starts False (hd u)" using spells_starts(1) [OF signed.hyps(4)] by auto
  then obtain q where q: "Suc q = p + length t" and tok: "next_token buf fin p = Some (op, q)" "\<not> isspace (cur_char buf fin p)"
    and op: "0 < level op" "op \<noteq> RBRA" "op \<noteq> VALUE"
    using operator_place [of t op buf p u fin] signed.hyps(3) prems(1,2) by auto
  have at: "at buf (Suc q) u" using prems(1) unfolding q by (simp add: at_append)
  have cur: "cur \<noteq> LBRA" "cur \<noteq> VALUE" using prems(3) by (auto simp: follow_def)
  have right: "agrees (engine_loop (engine A dict k) A dict buf fin op (op # tp # op') (q # pos) (a # vals) (Suc q))
      (expr_value A dict look r)
      (\<lambda>b. go_on (engine A dict k) A dict buf fin cur p' (next_operator A cur p' (op # tp # op') (q # pos) (b # a # vals)))"
    for a op'
    using at op prems signed.hyps(1) q by (intro signed.IH) (auto simp: add.assoc)
  have "syntax_of prev op = 2" using prems signed.hyps(2) by (intro syntax_of_sign) auto
  note sign = engine_loop_sign [OF tok(2,1) this]
  show ?case
    unfolding expr_value.simps sign
    by (rule engine_loop_right [OF op prems(7-9) signed.hyps(1) prems(10) cur right])
next
  case (parens e s lvl lead)
  note prems = parens.prems
  let ?q = "Suc p + length s"
  have at: "at buf p (CHR ''('' # s @ '')'')" "at buf (Suc p) s" "at buf ?q '')''" and le: "p < fin" "?q < fin"
    using prems(1,2) by (auto simp: at_Cons at_append)
  have open_: "next_token buf fin p = Some (LBRA, p)" "\<not> isspace (cur_char buf fin p)"
    using next_token_paren(1) [OF at(1) le(1)] cur_char_at [OF at(1) le(1)] by (simp_all add: isspace_def char_code_def)
  have close: "next_token buf fin ?q = Some (RBRA, ?q)" "\<not> isspace (cur_char buf fin ?q)"
    using next_token_paren(2) [OF at(3) le(2)] cur_char_at [OF at(3) le(2)] by (simp_all add: isspace_def char_code_def)
  have f: "follow buf fin ?q RBRA ?q"
    using close stops_close [OF at(3)] by (simp add: follow_def skip_blanks_stay)
  have inner: "agrees (engine_loop (engine A dict k) A dict buf fin LBRA (LBRA # op') (p # pos) vals (Suc p))
      (expr_value A dict look e)
      (\<lambda>v. go_on (engine A dict k) A dict buf fin RBRA ?q (next_operator A RBRA ?q (LBRA # op') (p # pos) (v # vals)))" for op'
    using at(2) le f prems by (intro parens.IH) auto
  have start: "engine_loop (engine A dict k) A dict buf fin prev (tp # op') pos vals p =
      engine_loop (engine A dict k) A dict buf fin LBRA (LBRA # tp # op') (p # pos) vals (Suc p)" for op'
    by (simp add: engine_loop_operator [OF open_(2,1) syntax_of_lbra [OF prems(4,5)]]
        next_operator_push [OF action_of_lbra [OF prems(7,8)]])
  have "go_on (engine A dict k) A dict buf fin RBRA ?q (next_operator A RBRA ?q (LBRA # op') (p # pos) (v # vals)) =
      go_on (engine A dict k) A dict buf fin cur p' (next_operator A cur p' op' pos (v # vals))" for v op'
    using engine_loop_resume [of buf fin "Suc ?q" cur p' RBRA] prems(3) by (simp add: next_operator.simps action_tables)
  with inner [of "tp # ops"] start show ?case by simp
next
  case (blank_before c lvl lead e s)
  note prems = blank_before.prems
  have "cur_char buf fin p = c" using prems by (intro cur_char_at [of _ _ _ s]) auto
  then have "engine_loop (engine A dict k) A dict buf fin prev (tp # ops) pos vals p =
      engine_loop (engine A dict k) A dict buf fin prev (tp # ops) pos vals (Suc p)"
    using blank_before.hyps by (intro engine_loop_blank) simp
  then show ?case using blank_before.IH [of "Suc p"] prems by (simp add: at_Cons)
next
  case (blank_after c lvl lead e s)
  note prems = blank_after.prems
  have at: "at buf p s" "at buf (p + length s) [c]" using prems(1) by (simp_all add: at_append)
  have "cur_char buf fin (p + length s) = c" using at(2) prems(2) by (intro cur_char_at) auto
  then have "skip_blanks buf fin (p + length s) = skip_blanks buf fin (Suc (p + length s))"
    using blank_after.hyps by (intro skip_blanks_space) simp
  moreover have "stops (drop (p + length s) buf)"
    using at(2) blank_after.hyps by (intro stops_drop) (simp add: buf_at_at char_classes_disjoint)
  ultimately have "follow buf fin (p + length s) cur p'" using prems(3) by (simp add: follow_def)
  then show ?case using at(1) prems by (intro blank_after.IH) auto
next
  case (last_arg e s)
  note prems = last_arg.prems
  let ?q = "p1 + length s"
  obtain k' where k: "k = Suc k'" using prems by (cases k) auto
  have at: "at buf p1 s" "at buf ?q '')''" using prems by (simp_all add: at_append)
  have "agrees (engine A dict (Suc k') buf p1 ?q) (expr_value A dict look e) (\<lambda>v. Some (Value v ?q))"
    using at(1) prems k follow_end [OF stops_close [OF at(2)]]
    by (intro engine_agrees [OF last_arg.hyps at(1)] last_arg.IH) auto
  moreover have "expr_value A dict look e \<noteq> Inl WARNING_BLANK_STRING"
    using prems by (intro value_no_blank [of A dict m]) auto
  ultimately have "agrees (call_loop (engine A dict k) dict buf fin1 start f pos1 par p1 p1) (expr_value A dict look e)
      (\<lambda>v. Some (call_result (execute_function dict f (v # par)) start (Suc ?q)))"
    using call_loop_close [OF last_arg.hyps _ prems(2,3), of buf "[]" "engine A dict k"] prems k by simp
  then show ?case by (cases "expr_value A dict look e") simp_all
next
  case (next_arg e s es t)
  note prems = next_arg.prems
  let ?q = "p1 + length s"
  obtain k' where k: "k = Suc k'" using prems by (cases k) auto
  have at: "at buf p1 (s @ CHR '','' # t)" "at buf p1 s" "at buf ?q (CHR '','' # t)" "at buf (Suc ?q) (t @ '')'')"
    using prems(1) by (simp_all add: at_append at_Cons)
  have "agrees (engine A dict (Suc k') buf p1 ?q) (expr_value A dict look e) (\<lambda>v. Some (Value v ?q))"
    using at(2) prems k follow_end [OF stops_close [OF at(3)]]
    by (intro engine_agrees [OF next_arg.hyps(1) at(2)] next_arg.IH(1)) auto
  moreover have nb: "expr_value A dict look e \<noteq> Inl WARNING_BLANK_STRING"
    using prems by (intro value_no_blank [of A dict m]) auto
  moreover have "?q < fin1" using prems(2) by simp
  ultimately obtain pos' where pos': "length pos' = 1"
    and first: "agrees (call_loop (engine A dict k) dict buf fin1 start f pos1 par p1 p1) (expr_value A dict look e)
      (\<lambda>v. call_loop (engine A dict k) dict buf fin1 start f pos' (v # par) (Suc ?q) (Suc ?q))"
    using call_loop_comma [OF next_arg.hyps(1) at(1) _ prems(3), of fin1 "engine A dict k"] k by blast
  have "agrees (call_loop (engine A dict k) dict buf fin1 start f pos' (v # par) (Suc ?q) (Suc ?q)) (expr_values A dict look es)
      (\<lambda>vs. Some (call_result (execute_function dict f (rev vs @ v # par)) start (Suc (Suc ?q + length t))))" for v
    using next_arg.IH(2) [of "Suc ?q" fin1 pos' k start f "v # par"] at(4) pos' prems by simp
  note rest = this
  show ?case
    unfolding expr_values.simps
  proof (rule agrees_bindE [OF first])
    fix v
    show "agrees (call_loop (engine A dict k) dict buf fin1 start f pos' (v # par) (Suc ?q) (Suc ?q))
      (bindE (expr_values A dict look es) (\<lambda>vs. Inr (v # vs)))
      (\<lambda>vs. Some (call_result (execute_function dict f (rev vs @ par)) start (Suc (p1 + length (s @ CHR '','' # t)))))"
      using rest [of v] by (cases "expr_values A dict look es") (simp_all add: add.assoc)
  qed
qed



text \<open>A concrete arithmetic for the examples.\<close>

definition int_arith :: "int Arith" where
  "int_arith = \<lparr>ar_zero = 0, ar_one = 1, ar_eq = (=), ar_less = (<), ar_le = (\<le>), ar_add = (+), ar_sub = (-),
     ar_mul = (*), ar_div = (div), ar_pow = (\<lambda>a b. if b < 0 then None else Some (a ^ nat b)),
     ar_number = (\<lambda>s. Some (atol s))\<rparr>"

text \<open>Evaluation of a whole text.\<close>

lemma spells_value:
  assumes "spells 1 True e s" and "known A dict m look (variables e)" and "m + call_depth e < n"
  shows "ev_evaluate A n dict s = Some (case expr_value A dict look e of Inr v \<Rightarrow> (OK, v) | Inl st \<Rightarrow> (st, ar_zero A))"
proof -
  obtain k where k: "n = Suc k" "m + call_depth e \<le> k" using assms(3) by (cases n) auto
  have "nul \<notin> set s" using spells_balance(1) [OF assms(1), of 1] balance_no_nul by simp
  then have c: "c_str s = s" by (auto simp: c_str_def takeWhile_eq_all_conv)
  have "stops (drop (length s) s)" by (simp add: stops_def)
  note f = follow_end [OF this]
  have "agrees (engine_loop (engine A dict k) A dict s (length s) ENDL [ENDL] [0] [] 0) (expr_value A dict look e)
      (\<lambda>v. go_on (engine A dict k) A dict s (length s) ENDL (length s) (next_operator A ENDL (length s) [ENDL] [0] [v]))"
    using f assms(2) k(2) by (intro spells_engine(1) [OF assms(1) at_whole]) simp_all
  then have "agrees (engine A dict n s 0 (length s)) (expr_value A dict look e) (\<lambda>v. Some (Value v (length s)))"
    unfolding k(1) by (intro engine_agrees [OF assms(1) at_whole]) simp_all
  then show ?thesis
    by (cases "expr_value A dict look e") (auto simp: ev_evaluate_def object_evaluate_def c)
qed

text \<open>C12. The engine evaluates the language: for a text that spells a tree, whose
  names have values within some number of nested activations, the result is the value of the tree,
  computed operand by operand from the left, or the status of the first operation that fails.\<close>

theorem evaluates_expression:
  assumes "spells 1 True e s" and "known A dict m look (variables e)" and "m + call_depth e < n"
  shows "ev_evaluate A n dict s = Some (case expr_value A dict look e of Inr v \<Rightarrow> (OK, v) | Inl st \<Rightarrow> (st, ar_zero A))"
  using assms by (rule spells_value)

theorem evaluates_expression_witness:
  "ev_evaluate int_arith 2 [''x'' \<mapsto> Item_variable int_arith 5] ''7- x*2'' = Some (OK, -3)"
proof -
  let ?e = "Binary MINUS (Number ''7'') (Binary MULT (Name ''x'') (Number ''2''))"
  let ?d = "[''x'' \<mapsto> Item_variable int_arith 5]" and ?look = "\<lambda>x. Inr 5 :: status + int"
  have lit: "literal ''7''" "literal ''2''" and nm: "proper_name ''x''" by code_simp+
  have x: "spells 6 False (Name ''x'') '' x''"
    using blank_before [OF _ spells_spells_args.name [OF nm]] by (simp add: isspace_def char_code_def)
  have r: "spells 6 False (Binary MULT (Name ''x'') (Number ''2'')) ('' x'' @ ''*'' @ ''2'')"
    by (rule spells_spells_args.binary) (use x lit in \<open>auto intro: spells_spells_args.number\<close>)
  have s: "spells 1 True ?e (''7'' @ ''-'' @ '' x'' @ ''*'' @ ''2'')"
    by (rule spells_spells_args.binary) (use r lit in \<open>auto intro: spells_spells_args.number\<close>)
  have k: "known int_arith ?d 0 ?look (variables ?e)"
    by (simp add: known_def variable_def Item_variable_def)
  have a: "atol ''7'' = 7" "atol ''2'' = 2" by code_simp+
  have v: "expr_value int_arith ?d ?look ?e = Inr (-3)"
    by (simp add: int_arith_def a binary_def)
  show ?thesis using evaluates_expression [OF s k, of 2] v by simp
qed

subsection \<open>Evaluation ends\<close>

text \<open>The names that can start an operand of a text.\<close>

definition fresh :: "string \<Rightarrow> nat \<Rightarrow> bool" where
  "fresh buf p \<longleftrightarrow> p = 0 \<or> \<not> is_name_char (buf_at buf (p - 1))"

definition name_at :: "string \<Rightarrow> nat \<Rightarrow> string" where
  "name_at buf p = take (skip_name buf (length buf) p - p) (drop p buf)"

definition mentioned :: "string \<Rightarrow> string list" where
  "mentioned buf = map (name_at buf) (filter (\<lambda>p. isalpha (buf_at buf p) \<and> fresh buf p) [0..<length buf])"

lemma stop_nul [simp]: "stop nul"
  by (simp add: char_classes nul_def)

lemma buf_at_end [simp]: "buf_at buf (length buf) = nul"
  by (simp add: buf_at_def)

lemma skip_name_stop:
  assumes "stop (buf_at buf fin)" and "p \<le> fin" and "fin \<le> length buf"
  shows "skip_name buf fin p = skip_name buf (length buf) p"
  using assms(2)
proof (induction "fin - p" arbitrary: p)
  case 0
  then have "p = fin" by simp
  with assms show ?case by (simp add: skip_name_stay stop_def)
next
  case (Suc n)
  then have "p < fin" by simp
  then show ?case
    using Suc assms(3) by (subst (1 2) skip_name.simps) auto
qed

lemma call_loop_defined:
  assumes "\<And>b f. \<lbrakk>lo \<le> b; b \<le> f; f < fin; stop (buf_at buf f); fresh buf b\<rbrakk> \<Longrightarrow> nested buf b f \<noteq> None"
    and "lo \<le> pb" and "pb \<le> p" and "fresh buf pb"
  shows "call_loop nested dict buf fin start nm pos par pb p \<noteq> None"
  using assms(2,3,4)
proof (induction "fin - p" arbitrary: p pos par pb rule: less_induct)
  case less
  show ?case
  proof (cases "cur_char buf fin p = nul")
    case True
    then show ?thesis by (subst call_loop.simps) (simp add: Let_def)
  next
    case no_nul: False
    then have p: "p < fin" and c: "cur_char buf fin p = buf_at buf p" by (auto simp: cur_char_def split: if_splits)
    have IH: "call_loop nested dict buf fin start nm pos' par' pb' (Suc p) \<noteq> None" if "lo \<le> pb'" "pb' \<le> Suc p" "fresh buf pb'" for pos' par' pb'
      by (rule less(1)) (use that p in auto)
    have n: "\<exists>z. nested buf pb p = Some z" if "buf_at buf p = CHR '','' \<or> buf_at buf p = CHR '')''"
      using assms(1) [of pb p] less.prems p that by (auto simp: char_classes)
    consider "buf_at buf p = CHR '',''" | "buf_at buf p = CHR '')''" | "buf_at buf p \<noteq> CHR '',''" "buf_at buf p \<noteq> CHR '')''" by blast
    then show ?thesis
    proof cases
      case 1
      then obtain z where "nested buf pb p = Some z" using n by blast
      moreover have "fresh buf (Suc p)" using 1 by (simp add: fresh_def char_classes)
      ultimately show ?thesis
        using no_nul c 1 IH [of "Suc p"] IH [of pb] less.prems
        by (subst call_loop.simps) (cases z; simp add: Let_def)
    next
      case 2
      then obtain z where "nested buf pb p = Some z" using n by blast
      then show ?thesis
        using no_nul c 2 IH [of pb] less.prems
        by (subst call_loop.simps) (cases z; simp add: Let_def)
    next
      case 3
      then show ?thesis
        using no_nul c IH [of pb] less.prems by (subst call_loop.simps) (simp add: Let_def)
    qed
  qed
qed

lemma operand_defined:
  assumes n: "\<And>b f. \<lbrakk>p < b; b \<le> f; f < fin; stop (buf_at buf f); fresh buf b\<rbrakk> \<Longrightarrow> nested buf b f \<noteq> None"
    and v: "\<And>x. x \<in> set (mentioned buf) \<Longrightarrow> variable nested dict x \<noteq> None"
    and p: "p < fin" "fin \<le> length buf" "stop (buf_at buf fin)" "fresh buf p"
  shows "operand nested A dict buf fin p \<noteq> None"
proof (cases "isalpha (buf_at buf p)")
  case False
  then show ?thesis by (simp add: operand_def Let_def split: option.splits)
next
  case True
  let ?q = "skip_name buf fin p" let ?r = "skip_blanks buf fin ?q"
  have "take (?q - p) (drop p buf) = name_at buf p"
    using skip_name_stop [of buf fin p] p by (simp add: name_at_def)
  moreover have "name_at buf p \<in> set (mentioned buf)" using True p by (auto simp: mentioned_def)
  ultimately have "variable nested dict (take (?q - p) (drop p buf)) \<noteq> None" using v by simp
  moreover have "call_loop nested dict buf fin p (take (?q - p) (drop p buf)) [] [] (Suc ?r) ?r \<noteq> None"
    if c: "cur_char buf fin ?r = CHR ''(''"
  proof -
    have "p \<le> ?r" using le_trans [OF skip_name_ge skip_blanks_ge] .
    moreover have fr: "fresh buf (Suc ?r)"
      using c by (auto simp: fresh_def cur_char_def nul_def char_classes split: if_splits)
    ultimately have "call_loop nested dict buf fin p (take (?q - p) (drop p buf)) [?r] [] (Suc ?r) (Suc ?r) \<noteq> None"
      using n fr by (intro call_loop_defined [of "Suc ?r"]) auto
    then show ?thesis using c by (subst call_loop.simps) (simp add: nul_def Let_def)
  qed
  ultimately show ?thesis using True by (auto simp: operand_def Let_def split: option.splits)
qed

lemma next_token_fresh:
  "next_token buf fin p = Some (cur, q) \<Longrightarrow> cur \<noteq> ENDL \<Longrightarrow> cur \<noteq> VALUE \<Longrightarrow> fresh buf (Suc q)"
  by (auto simp: next_token_def Let_def fresh_def cur_char_def char_classes nul_def split: if_splits)

lemma syntax_of_VALUE: "syntax_of prev VALUE = 0 \<or> syntax_of prev VALUE = 1"
  by (cases prev) (simp_all add: syntax_of_def SyntaxTable_def)

lemma syntax_of_one: "syntax_of prev cur = 1 \<Longrightarrow> cur = VALUE \<and> prev \<noteq> VALUE \<and> prev \<noteq> RBRA"
  by (cases prev; cases cur; simp add: syntax_of_def SyntaxTable_def)

lemma engine_loop_defined:
  assumes n: "\<And>b f. \<lbrakk>lo < b; b \<le> f; f < fin; stop (buf_at buf f); fresh buf b\<rbrakk> \<Longrightarrow> nested buf b f \<noteq> None"
    and v: "\<And>x. x \<in> set (mentioned buf) \<Longrightarrow> variable nested dict x \<noteq> None"
    and fin: "fin \<le> length buf" "stop (buf_at buf fin)"
    and p: "lo \<le> p" "prev \<noteq> VALUE \<Longrightarrow> prev \<noteq> RBRA \<Longrightarrow> fresh buf p"
  shows "engine_loop nested A dict buf fin prev op pos vals p \<noteq> None"
  using p
proof (induction prev op pos vals p rule: engine_loop_rounds [where buf = buf and fin = fin and nested = nested and A = A and dict = dict])
  case (1 prev op pos vals p)
  show ?case
  proof (cases "isspace (cur_char buf fin p)")
    case True
    then have "fresh buf (Suc p)"
      by (auto simp: fresh_def cur_char_def char_classes_disjoint split: if_splits)
    then show ?thesis using 1(1) [OF True] 1(4) True by (simp add: engine_loop_blank)
  next
    case no_space: False
    show ?thesis
    proof (cases "next_token buf fin p")
      case None
      then show ?thesis using no_space by (simp add: engine_loop_unexpected)
    next
      case (Some t)
      obtain cur q where t: "t = (cur, q)" by fastforce
      note tok = Some [unfolded t]
      note IH = 1(2,3) [OF no_space tok]
      have q: "lo \<le> q" using next_token_bounds(1) [OF tok] 1(4) by simp
      consider "syntax_of prev cur = 0" | "syntax_of prev cur = 1" | "syntax_of prev cur \<noteq> 0" "syntax_of prev cur \<noteq> 1" by blast
      then show ?thesis
      proof cases
        case 1
        then show ?thesis by (simp add: engine_loop_token [OF no_space tok])
      next
        case 2
        then have cur: "cur = VALUE" "prev \<noteq> VALUE" "prev \<noteq> RBRA" using syntax_of_one by auto
        have "q = p" using tok cur by (auto simp: next_token_def Let_def split: if_splits)
        then have "operand nested A dict buf fin q \<noteq> None"
          using n v fin "1.prems" cur next_token_bounds(2) [OF tok] q by (intro operand_defined) auto
        then obtain z where z: "operand nested A dict buf fin q = Some z" by blast
        show ?thesis
        proof (cases z)
          case (Value w nxt)
          then have "lo \<le> nxt" using operand_ge z q by fastforce
          then show ?thesis
            using IH(1) [OF 2 z [unfolded Value]] cur 2 z Value by (simp add: engine_loop_token [OF no_space tok])
        qed (use 2 z in \<open>simp add: engine_loop_token [OF no_space tok]\<close>)
      next
        case 3
        then have nv: "cur \<noteq> VALUE" using syntax_of_VALUE [of prev] by auto
        show ?thesis
        proof (cases "next_operator A cur q op pos (if syntax_of prev cur = 2 then ar_zero A # vals else vals)")
          case (Continue op' pos' vals')
          then have "cur \<noteq> ENDL" using ENDL_leaves by metis
          then have "fresh buf (Suc q)" using next_token_fresh [OF tok _ nv] by simp
          then have "engine_loop nested A dict buf fin cur op' pos' vals' (Suc q) \<noteq> None"
            using IH(2) [OF 3 Continue] q by simp
          then show ?thesis using 3 Continue by (simp add: engine_loop_token [OF no_space tok])
        qed (use 3 in \<open>simp add: engine_loop_token [OF no_space tok]\<close>)
      qed
    qed
  qed
qed


lemma Item_simps [simp]:
  "it_what (Item_expression A e) = EXPRESSION" "it_expression (Item_expression A e) = e"
  "it_what (Item_variable A v) = VARIABLE" "it_variable (Item_variable A v) = v"
  "it_what (Item_function A f) = FUNCTION" "it_function (Item_function A f) = f"
  by (simp_all add: Item_expression_def Item_variable_def Item_function_def)

lemma c_str_idem [simp]: "c_str (c_str s) = c_str s"
  by (auto simp: c_str_def takeWhile_eq_all_conv dest: set_takeWhileD)

text \<open>The expressions of a dictionary, ranked so that each mentions only expressions of smaller rank.\<close>

definition ranked :: "'d dic_type \<Rightarrow> (string \<Rightarrow> nat) \<Rightarrow> nat \<Rightarrow> string \<Rightarrow> nat \<Rightarrow> bool" where
  "ranked dict rank M e R \<longleftrightarrow> length e \<le> M \<and>
     (\<forall>y\<in>set (mentioned e). \<forall>item. dict y = Some item \<longrightarrow> it_what item = EXPRESSION \<longrightarrow> rank y < R)"

lemma engine_defined:
  assumes dict: "\<And>x item. dict x = Some item \<Longrightarrow> it_what item = EXPRESSION \<Longrightarrow>
      ranked dict rank M (c_str (it_expression item)) (rank x)"
  shows "\<lbrakk>ranked dict rank (length e) e R; R * Suc M + (fin - start) < n; start \<le> fin; fin \<le> length e; stop (buf_at e fin);
    fresh e start\<rbrakk> \<Longrightarrow> engine A dict n e start fin \<noteq> None"
proof (induction n arbitrary: e R start fin)
  case (Suc n)
  have nested: "engine A dict n e b f \<noteq> None"
    if "start < b" "b \<le> f" "f < fin" "stop (buf_at e f)" "fresh e b" for b f
    using Suc.prems that by (intro Suc.IH [of e R]) auto
  have var: "variable (engine A dict n) dict x \<noteq> None" if x: "x \<in> set (mentioned e)" for x
  proof (cases "\<exists>item. dict x = Some item \<and> it_what item = EXPRESSION")
    case True
    then obtain item where item: "dict x = Some item" "it_what item = EXPRESSION" by blast
    let ?e = "c_str (it_expression item)"
    have r: "ranked dict rank M ?e (rank x)" using dict item by blast
    have "rank x < R" using x item Suc.prems(1) unfolding ranked_def by blast
    then have "Suc (rank x) * Suc M \<le> R * Suc M" by (intro mult_le_mono1) simp
    moreover have "length ?e \<le> M" "ranked dict rank (length ?e) ?e (rank x)" using r by (auto simp: ranked_def)
    ultimately have "engine A dict n ?e 0 (length ?e) \<noteq> None"
      using Suc.prems(2) by (intro Suc.IH [of ?e "rank x"]) (auto simp: fresh_def)
    then show ?thesis by (auto simp: variable_def item Let_def split: eval.splits)
  qed (auto simp: variable_def split: option.splits what.splits)
  have "engine_loop (engine A dict n) A dict e fin ENDL [ENDL] [start] [] start \<noteq> None"
    using nested var Suc.prems by (intro engine_loop_defined [of start]) auto
  then show ?case by (simp add: engine_with_def Let_def engine_loop_skip)
qed simp

text \<open>C13. Evaluation ends: if the expressions in the dictionary can be ranked so that each mentions
  only expressions of smaller rank, a number of nested activations that depends only on the ranks and
  lengths suffices for every text, well formed or not, and the result does not depend on it.\<close>

theorem evaluation_ends:
  assumes "\<forall>x item. dict x = Some item \<longrightarrow> it_what item = EXPRESSION \<longrightarrow>
      ranked dict rank M (c_str (it_expression item)) (rank x)"
    and "ranked dict rank L (c_str s) R" and "R * Suc M + L < n"
  shows "\<exists>r. \<forall>k\<ge>n. ev_evaluate A k dict s = Some r"
proof -
  let ?e = "c_str s"
  have l: "length ?e \<le> L" "ranked dict rank (length ?e) ?e R" using assms(2) by (auto simp: ranked_def)
  have "engine A dict n ?e 0 (length ?e) \<noteq> None"
    using assms(1,3) l by (intro engine_defined [of dict rank M ?e R]) (auto simp: fresh_def)
  then obtain z where z: "engine A dict n ?e 0 (length ?e) = Some z" by blast
  have "engine A dict k ?e 0 (length ?e) = Some z" if "n \<le> k" for k
    using engine_mono [OF that] z by (rule le_opt_Some)
  then have "\<forall>k\<ge>n. ev_evaluate A k dict s = ev_evaluate A n dict s"
    by (simp add: ev_evaluate_def object_evaluate_def)
  moreover obtain r where "ev_evaluate A n dict s = Some r"
    using z by (cases z) (simp_all add: ev_evaluate_def object_evaluate_def)
  ultimately have "\<forall>k\<ge>n. ev_evaluate A k dict s = Some r" by simp
  then show ?thesis ..
qed

theorem evaluation_ends_witness:
  "\<exists>r. ev_evaluate int_arith 20 [''a'' \<mapsto> Item_expression int_arith ''b+1'', ''b'' \<mapsto> Item_expression int_arith ''2''] ''a*b''
    = Some r"
proof -
  let ?d = "[''a'' \<mapsto> Item_expression int_arith ''b+1'', ''b'' \<mapsto> Item_expression int_arith ''2''] :: int dic_type"
  let ?rank = "\<lambda>x. if x = ''a'' then 1 else 0 :: nat"
  have m: "mentioned ''b+1'' = [''b'']" "mentioned ''2'' = []" "mentioned ''a*b'' = [''a'', ''b'']"
    "c_str ''b+1'' = ''b+1''" "c_str ''2'' = ''2''" "c_str ''a*b'' = ''a*b''" by code_simp+
  have "\<exists>r. \<forall>k\<ge>20. ev_evaluate int_arith k ?d ''a*b'' = Some r"
    by (rule evaluation_ends [where rank = ?rank and M = 3 and L = 3 and R = 2])
      (auto simp: ranked_def m split: if_splits)
  then show ?thesis by auto
qed

text \<open>C14. An expression that is its own name, which \<open>setVariable\<close> accepts, is never evaluated: no number
  of nested activations suffices, the code recurses until the stack is exhausted.\<close>

theorem self_reference_diverges:
  assumes "proper_name x" and "dict x = Some item" and "it_what item = EXPRESSION" and "c_str (it_expression item) = x"
  shows "ev_evaluate A n dict x = None"
proof -
  have x: "c_str x = x" using assms(4) c_str_idem by metis
  have "engine A dict n x 0 (length x) = None" for n
  proof (induction n)
    case (Suc n)
    note sc = name_scan [OF assms(1) at_whole, of "length x", simplified, unfolded stops_def, simplified]
    have "variable (engine A dict n) dict x = None"
      using Suc assms by (simp add: variable_def Let_def)
    then have "operand (engine A dict n) A dict x (length x) 0 = None"
      using sc by (simp add: operand_def Let_def skip_blanks_end cur_char_end nul_def)
    moreover have a: "isalnum (cur_char x (length x) 0)" using sc by (simp add: isalnum_def)
    ultimately have "engine_loop (engine A dict n) A dict x (length x) ENDL [ENDL] [0] [] 0 = None"
      by (simp add: engine_loop_operand [OF refl disjI1 [OF a]])
    moreover have "skip_blanks x (length x) 0 = 0" "cur_char x (length x) 0 \<noteq> nul"
      using a by (auto intro!: skip_blanks_stay simp: char_classes nul_def)
    ultimately show ?case by (simp add: engine_with_def)
  qed simp
  then show ?thesis by (simp add: ev_evaluate_def object_evaluate_def x)
qed

theorem self_reference_diverges_witness:
  "ev_evaluate int_arith 1000 [''x'' \<mapsto> Item_expression int_arith ''x''] ''x'' = None"
  by (rule self_reference_diverges [where item = "Item_expression int_arith ''x''"]) (code_simp, simp_all add: c_str_def nul_def)

subsection \<open>The stacks of the engine\<close>

text \<open>
  What holds between two tokens: every operator has its position, the end marker is at the bottom, and above
  it are only operators with a row in \<open>ActionTable\<close>.
\<close>

definition stacks_ok :: "tok list \<Rightarrow> nat list \<Rightarrow> bool" where
  "stacks_ok op pos \<longleftrightarrow> length pos = length op \<and> (\<exists>above. op = above @ [ENDL] \<and> set above \<inter> {ENDL, RBRA, VALUE} = {})"

lemma stacks_ok_Cons:
  "stacks_ok (t # op) pos \<longleftrightarrow>
    (\<exists>p ps. pos = p # ps \<and> (op = [] \<and> ps = [] \<and> t = ENDL \<or> stacks_ok op ps \<and> t \<noteq> ENDL \<and> t \<noteq> RBRA \<and> t \<noteq> VALUE))"
  by (cases pos) (auto simp: stacks_ok_def Cons_eq_append_conv)

lemma stacks_ok_nonempty: "stacks_ok op pos \<Longrightarrow> op \<noteq> []"
  by (auto simp: stacks_ok_def)

lemma action_of_row:
  "cur \<noteq> VALUE \<Longrightarrow> t \<noteq> RBRA \<Longrightarrow> t \<noteq> VALUE \<Longrightarrow> tok_code t < 15 \<and> tok_code cur < 16"
  by (cases t; cases cur; simp)

lemma action_of_cases:
  assumes "action_of t cur = 1 \<or> action_of t cur = 2" shows "cur \<noteq> ENDL \<and> cur \<noteq> RBRA \<and> cur \<noteq> VALUE"
  using assms by (cases t; cases cur; simp add: action_tables)

lemma action_of_ENDL: "cur \<noteq> VALUE \<Longrightarrow> action_of ENDL cur \<in> {-1, 0, 1}"
  by (cases cur) (simp_all add: action_tables)

text \<open>C15. The stacks of the engine: handling a token keeps the end marker at the bottom, operators with a row
  in the table above it and a position for each, so that no step reads outside the table or from an empty
  stack; success is reported only at the end of the text, with no open parenthesis on the stack.\<close>

theorem operators_stay_in_table:
  assumes "stacks_ok op pos" and "cur \<noteq> VALUE"
  shows "case next_operator A cur p op pos vals of
      Continue op' pos' vals' \<Rightarrow> stacks_ok op' pos' \<and> set pos' \<subseteq> insert p (set pos) \<and> cur \<noteq> ENDL
    | Exit (Value v q) \<Rightarrow> cur = ENDL \<and> q = p \<and> (\<forall>t\<in>set op. t \<noteq> LBRA)
    | Exit (Failed st q) \<Rightarrow> q \<in> insert p (set pos)"
  using assms
proof (induction op arbitrary: pos vals)
  case Nil
  then show ?case by (simp add: stacks_ok_def)
next
  case (Cons t op)
  obtain q ps where pos: "pos = q # ps" using Cons.prems(1) by (auto simp: stacks_ok_Cons)
  show ?case
  proof (cases "t = ENDL")
    case True
    then have op: "op = []" "ps = []" using Cons.prems(1) True by (simp_all add: stacks_ok_Cons pos)
    have s: "stacks_ok [cur, ENDL] [p, q]" if "action_of ENDL cur = 1"
      using that action_of_cases [of ENDL cur] by (auto simp: stacks_ok_Cons)
    have e: "action_of ENDL cur = 0 \<Longrightarrow> cur = ENDL" by (cases cur) (simp_all add: action_tables)
    show ?thesis
      using action_of_ENDL [OF Cons.prems(2)] s e action_of_cases [of ENDL cur]
      by (auto simp: next_operator.simps True op pos)
  next
    case False
    then have ps: "stacks_ok op ps" and t: "t \<noteq> RBRA" "t \<noteq> VALUE"
      using Cons.prems(1) by (auto simp: stacks_ok_Cons pos)
    have IH: "case next_operator A cur p op ps vals' of
        Continue op' pos' vals' \<Rightarrow> stacks_ok op' pos' \<and> set pos' \<subseteq> insert p (set ps) \<and> cur \<noteq> ENDL
      | Exit (Value v q) \<Rightarrow> cur = ENDL \<and> q = p \<and> (\<forall>t\<in>set op. t \<noteq> LBRA)
      | Exit (Failed st q) \<Rightarrow> q \<in> insert p (set ps)" for vals'
      using ps Cons.prems(2) by (rule Cons.IH)
    have n0: "action_of t cur \<noteq> 0" using False t by (cases t; cases cur; simp add: action_tables)
    have l4: "action_of LBRA cur \<notin> {-1, 1, 2, 3} \<Longrightarrow> False" by (cases cur) (simp_all add: action_tables)
    have l3: "action_of t cur = 3 \<Longrightarrow> cur \<noteq> ENDL" using False t by (cases t; cases cur; simp add: action_tables)
    have push: "stacks_ok (cur # t # op) (p # pos)" if "action_of t cur = 1"
      using that Cons.prems(1) action_of_cases [of t cur] by (subst stacks_ok_Cons) auto
    have swap: "stacks_ok (cur # op) (p # ps)" if "action_of t cur = 2"
      using that ps action_of_cases [of t cur] by (subst stacks_ok_Cons) auto
    consider "action_of t cur = -1" | "action_of t cur = 1" | "action_of t cur = 2" | "action_of t cur = 3"
      | "action_of t cur \<notin> {-1, 0, 1, 2, 3}" using n0 by auto
    then show ?thesis
    proof cases
      case 5
      have "t \<noteq> LBRA" using 5 l4 by auto
      show ?thesis
      proof (cases "maker A t vals")
        case (Inl st)
        then show ?thesis using 5 by (simp add: next_operator.simps pos)
      next
        case (Inr vals')
        then show ?thesis
          using 5 IH [of vals'] \<open>t \<noteq> LBRA\<close>
          by (cases "next_operator A cur p op ps vals'") (auto simp: next_operator.simps pos split: eval.splits)
      qed
    qed (use push swap action_of_cases [of t cur] l3 ps in
        \<open>auto simp: next_operator.simps pos split: sum.splits\<close>)
  qed
qed

theorem operators_stay_in_table_witness:
  "case next_operator int_arith RBRA 5 [PLUS, LBRA, ENDL] [3, 0, 0] [2, 1] of
      Continue op' pos' vals' \<Rightarrow> stacks_ok op' pos' \<and> set pos' \<subseteq> insert 5 (set [3, 0, 0]) \<and> RBRA \<noteq> ENDL
    | Exit (Value v q) \<Rightarrow> RBRA = ENDL \<and> q = 5 \<and> (\<forall>t\<in>set [PLUS, LBRA, ENDL]. t \<noteq> LBRA)
    | Exit (Failed st q) \<Rightarrow> q \<in> insert 5 (set [3, 0, 0])"
  by (rule operators_stay_in_table) (auto simp: stacks_ok_def)

subsection \<open>The dictionary\<close>

lemma variable_evaluates:
  assumes "proper_name x" and "dict x = Some (Item_variable A v)" and "0 < n"
  shows "ev_evaluate A n dict x = Some (OK, v)"
proof -
  have "known A dict 0 (\<lambda>_. Inr v) (variables (Name x))" using assms by (simp add: known_def variable_def)
  from spells_value [OF spells_spells_args.name [OF assms(1)] this, of n] assms(3) show ?thesis by simp
qed


lemma name_no_digit: "proper_name x \<Longrightarrow> \<not> isdigit (hd x)"
  by (auto simp: proper_name_def char_classes)

lemma function_keys: "n \<le> 5 \<Longrightarrow> isdigit (sss ! n)"
proof -
  assume "n \<le> 5"
  then have "n \<in> {0, 1, 2, 3, 4, 5}" by auto
  then show ?thesis by (auto simp: sss_def isdigit_def char_code_def)
qed

text \<open>Setting a variable succeeds silently exactly if it is new; it then evaluates to its value,
  is found, disturbs no function, and removing it makes it unknown again.\<close>

theorem variable_dictionary:
  assumes "remove_blanks nm = x" and "proper_name x"
    and "object_setVariable A (Some nm) v dict = (dict', st)"
  shows "(st = OK \<longleftrightarrow> dict x = None) \<and> (\<forall>n>0. ev_evaluate A n dict' x = Some (OK, v)) \<and>
    (\<forall>f par. execute_function dict' f par = execute_function dict f par) \<and>
    object_findVariable (Some nm) dict' \<and>
    object_removeVariable (Some nm) dict' = dict(x := None) \<and>
    (\<forall>n>0. ev_evaluate A n (object_removeVariable (Some nm) dict') x = Some (ERROR_UNKNOWN_VARIABLE, ar_zero A))"
proof -
  have x: "x \<noteq> []" "list_all is_name_char x" using assms(2) by (auto simp: proper_name_def)
  then have nm: "nm \<noteq> []" using assms(1) by (auto simp: remove_blanks_def)
  have d: "dict' = dict(x \<mapsto> Item_variable A v)"
    and st: "st = (if dict x \<noteq> None then (if x = nm then WARNING_EXISTING_VARIABLE else WARNING_EXISTING_FUNCTION) else OK)"
    using assms x nm by (auto simp: object_setVariable_def setItem_def Let_def)
  have f: "execute_function dict' f par = execute_function dict f par" for f par
  proof -
    have "sss ! length par # f \<noteq> x" if "length par \<le> MAX_N_PAR"
      using function_keys [of "length par"] name_no_digit [OF assms(2)] that by (auto simp: MAX_N_PAR_def)
    then show ?thesis by (simp add: execute_function_def Let_def d)
  qed
  have r: "object_removeVariable (Some nm) dict' = dict(x := None)"
    using nm x assms(1) by (simp add: object_removeVariable_def d)
  have "known A (dict(x := None)) 0 (\<lambda>_. Inl ERROR_UNKNOWN_VARIABLE) (variables (Name x))"
    by (simp add: known_def variable_def)
  note gone = spells_value [OF spells_spells_args.name [OF assms(2)] this]
  have f': "object_findVariable (Some nm) dict'" using nm x assms(1) by (simp add: object_findVariable_def d)
  show ?thesis
    using variable_evaluates [OF assms(2), of dict' A v] st f f' gone unfolding r by (auto simp: d)
qed

theorem variable_dictionary_witness:
  "ev_evaluate int_arith 1 (fst (object_setVariable int_arith (Some '' x '') 3 Map.empty)) ''x'' = Some (OK, 3)"
proof -
  have "remove_blanks '' x '' = ''x''" "proper_name ''x''" by code_simp+
  from variable_dictionary [OF this, of int_arith 3 Map.empty] show ?thesis
    by (cases "object_setVariable int_arith (Some '' x '') 3 Map.empty") simp
qed

end
