(* ===== verification/HandleValues.thy ===== *)
theory HandleValues
  imports EvaluatorProps
begin

text \<open>
  Values and environment variables in texts: the conversions of \<open>src/DDCore/src/Handle.cpp\<close> (and the inline
  ones of \<open>Handle.h\<close>), which every attribute of a compact detector description goes through. They
  evaluate with the one evaluator of the program, whose dictionary is passed along.

  \<open>n\<close> is the number of nested activations given to the evaluator, and None again means that it needs
  more. The conversions of a double to an integer type and \<open>printf\<close> of a double are parameters. The stream and
  log output is left out, except that a text that serves as a format is assumed to contain no percent sign.
\<close>

subsection \<open>Conversions\<close>

definition check_evaluation :: "string \<Rightarrow> status \<times> 'd \<Rightarrow> string \<Rightarrow> unit cpp" where
  "check_evaluation val res err = (if fst res \<noteq> OK
     then Inl (RuntimeError (''dd4hep: '' @ err @ '' : value='' @ val @ '' [Evaluation error]'')) else Inr ())"

definition toFloatingPoint :: "'d Arith \<Rightarrow> nat \<Rightarrow> 'd dic_type \<Rightarrow> string \<Rightarrow> (status \<times> 'd) cpp option" where
  "toFloatingPoint A n dict val = map_option (\<lambda>(res, err). bindE (check_evaluation val res err) (\<lambda>_. Inr res))
     (ev_evaluate_os A n dict val)"

text \<open>Erasing the first occurrence of a text, and the blanks in front.\<close>

definition erase_text :: "string \<Rightarrow> string \<Rightarrow> string" where
  "erase_text pat s = (case find_str pat 0 s of None \<Rightarrow> s | Some i \<Rightarrow> take i s @ drop (i + length pat) s)"

definition drop_blanks :: "string \<Rightarrow> string" where
  "drop_blanks s = dropWhile (\<lambda>c. c = CHR '' '') s"

definition toInteger :: "'d Arith \<Rightarrow> nat \<Rightarrow> 'd dic_type \<Rightarrow> string \<Rightarrow> (status \<times> 'd) cpp option" where
  "toInteger A n dict val =
     toFloatingPoint A n dict (drop_blanks (erase_text ''(long)'' (erase_text ''(int)'' val)))"

text \<open>\<open>_toShort\<close> to \<open>_toULong\<close>: \<open>cast\<close> converts to the type.\<close>

definition toIntegral :: "('d \<Rightarrow> 'i) \<Rightarrow> 'd Arith \<Rightarrow> nat \<Rightarrow> 'd dic_type \<Rightarrow> string \<Rightarrow> 'i cpp option" where
  "toIntegral cast A n dict val = map_option (\<lambda>r. bindE r (\<lambda>res. Inr (cast (snd res)))) (toInteger A n dict val)"

definition toBool :: "string \<Rightarrow> bool" where
  "toBool val \<longleftrightarrow> val = ''true'' \<or> val = ''yes'' \<or> val = ''True''"

definition toFloat :: "('d \<Rightarrow> 'f) \<Rightarrow> 'd Arith \<Rightarrow> nat \<Rightarrow> 'd dic_type \<Rightarrow> string \<Rightarrow> 'f cpp option" where
  "toFloat cast A n dict val = map_option (\<lambda>r. bindE r (\<lambda>res. Inr (cast (snd res)))) (toFloatingPoint A n dict val)"

definition toDouble :: "'d Arith \<Rightarrow> nat \<Rightarrow> 'd dic_type \<Rightarrow> string \<Rightarrow> 'd cpp option" where
  "toDouble A n dict val = map_option (\<lambda>r. bindE r (\<lambda>res. Inr (snd res))) (toFloatingPoint A n dict val)"

subsection \<open>Multiplication\<close>

text \<open>
  \<open>_multiply\<close> of two texts joins them with an asterisk. For the types \<open>char\<close> and \<open>short\<close> the product must lie
  between \<open>lo\<close> and \<open>hi\<close>; \<open>fmt\<close> is the output with \<open>%e\<close>.
\<close>

definition multiply_double :: "'d Arith \<Rightarrow> nat \<Rightarrow> 'd dic_type \<Rightarrow> string \<Rightarrow> string \<Rightarrow> 'd cpp option" where
  "multiply_double A n dict left right = toDouble A n dict (left @ ''*'' @ right)"

definition multiply_integral :: "('d \<Rightarrow> 'i) \<Rightarrow> 'd Arith \<Rightarrow> nat \<Rightarrow> 'd dic_type \<Rightarrow> string \<Rightarrow> string \<Rightarrow> 'i cpp option" where
  "multiply_integral cast A n dict left right =
     map_option (\<lambda>r. bindE r (\<lambda>v. Inr (cast v))) (toDouble A n dict (left @ ''*'' @ right))"

definition multiply_bounded :: "string \<Rightarrow> 'd \<Rightarrow> 'd \<Rightarrow> ('d \<Rightarrow> 'i) \<Rightarrow> ('d \<Rightarrow> string) \<Rightarrow>
    'd Arith \<Rightarrow> nat \<Rightarrow> 'd dic_type \<Rightarrow> string \<Rightarrow> string \<Rightarrow> 'i cpp option" where
  "multiply_bounded typ lo hi cast fmt A n dict left right =
     map_option (\<lambda>r. bindE r (\<lambda>v. if ar_le A lo v \<and> ar_le A v hi then Inr (cast v)
         else Inl (RuntimeError (''_multiply<'' @ typ @ ''>: Multiplication '' @ fmt v @ '' = '' @ c_str left @ '' * '' @
           c_str right @ '' out of bounds for conversion to '' @ typ @ ''.''))))
       (toDouble A n dict (left @ ''*'' @ right))"

text \<open>The overloads with a number on one side evaluate the text alone.\<close>

definition multiply_left :: "'d Arith \<Rightarrow> nat \<Rightarrow> 'd dic_type \<Rightarrow> 'd \<Rightarrow> string \<Rightarrow> 'd cpp option" where
  "multiply_left A n dict left right = map_option (\<lambda>r. bindE r (\<lambda>v. Inr (ar_mul A left v))) (toDouble A n dict right)"

definition multiply_right :: "'d Arith \<Rightarrow> nat \<Rightarrow> 'd dic_type \<Rightarrow> string \<Rightarrow> 'd \<Rightarrow> 'd cpp option" where
  "multiply_right A n dict left right = map_option (\<lambda>r. bindE r (\<lambda>v. Inr (ar_mul A v right))) (toDouble A n dict left)"

subsection \<open>The dictionary\<close>

text \<open>
  The dictionary keeps its changes also when the function throws, so both are returned. \<open>redefine\<close> is
  the flag \<open>s_allow_variable_redefine\<close>.
\<close>

definition toDictionary :: "bool \<Rightarrow> 'd Arith \<Rightarrow> nat \<Rightarrow> string \<Rightarrow> string \<Rightarrow> string \<Rightarrow> 'd dic_type \<Rightarrow>
    ('d dic_type \<times> unit cpp) option" where
  "toDictionary redefine A n name val typ dict =
     (if typ = ''string'' then Some (fst (ev_setEnviron A name val dict), Inr ())
      else let v = drop_blanks (erase_text ''(float)'' (erase_text ''(int)'' val)) in
        case ev_evaluate_os A n dict v of
          None \<Rightarrow> None
        | Some (res, err) \<Rightarrow> (case check_evaluation v res err of
              Inl e \<Rightarrow> Some (dict, Inl e)
            | Inr _ \<Rightarrow>
                (let ((dict', st), err2) = ev_setVariable_os A name (snd res) dict;
                     err_msg = ''name='' @ name @ '' value='' @ val @ ''  '' @ err2 @ '' [setVariable error]''
                 in Some (dict', if st = WARNING_EXISTING_VARIABLE \<and> \<not> redefine
                    then Inl (RuntimeError (''Evaluator: +++ Overwriting variable: '' @ err_msg)) else Inr ()))))"

subsection \<open>Environment variables in texts\<close>

text \<open>
  The loop of \<open>_getEnviron\<close> from the index \<open>cur\<close> with the output so far. Without a closing brace \<open>id2\<close> is
  \<open>npos\<close>: the length \<open>npos - id1 + 1\<close> is then zero for \<open>id1 = 0\<close> and beyond the end otherwise, and
  the next index \<open>npos + 1\<close> is zero.
\<close>

partial_function (option) getEnviron_loop ::
    "(string \<Rightarrow> string option) \<Rightarrow> 'd dic_type \<Rightarrow> string \<Rightarrow> nat \<Rightarrow> string \<Rightarrow> string cpp option" where
  "getEnviron_loop getenv dict env cur out = (case find_str ''${'' cur env of
       None \<Rightarrow> Some (bindE (substr_from env cur) (\<lambda>r. Inr (out @ r)))
     | Some id1 \<Rightarrow>
         (let id2 = find_str ''}'' id1 env;
              before = take (id1 - cur) (drop cur env);
              v = (case id2 of Some j \<Rightarrow> take (j - id1 + 1) (drop id1 env)
                   | None \<Rightarrow> if id1 = 0 then [] else drop id1 env);
              ((st, x), err) = ev_getEnviron_os getenv v dict
          in if st \<noteq> OK then
               Some (Inl (RuntimeError (''dd4hep: Severe error during environment lookup of '' @ v @ '' '' @ err)))
             else getEnviron_loop getenv dict env (case id2 of Some j \<Rightarrow> j + 1 | None \<Rightarrow> 0) (out @ before @ x)))"

definition getEnviron :: "(string \<Rightarrow> string option) \<Rightarrow> 'd dic_type \<Rightarrow> string \<Rightarrow> string cpp option" where
  "getEnviron getenv dict env = getEnviron_loop getenv dict env 0 []"

lemmas [code] = getEnviron_loop.simps

definition remove_whitespace :: "string \<Rightarrow> string" where
  "remove_whitespace v = [c \<leftarrow> c_str v. \<not> isspace c]"

subsection \<open>Values of texts\<close>

text \<open>What a conversion returns for a text with the value \<open>w\<close>.\<close>

definition returns_value :: "'d cpp option \<Rightarrow> status + 'd \<Rightarrow> bool" where
  "returns_value r w = (case w of Inr v \<Rightarrow> r = Some (Inr v) | Inl st \<Rightarrow> (\<exists>msg. r = Some (Inl (RuntimeError msg))))"

lemma evaluate_os_fst: "map_option fst (ev_evaluate_os A n dict s) = ev_evaluate A n dict s"
  by (simp add: ev_evaluate_os_def ev_evaluate_def option.map_comp o_def)

lemma evaluate_os_Some:
  "ev_evaluate A n dict s = Some r \<Longrightarrow> \<exists>err. ev_evaluate_os A n dict s = Some (r, err)"
  using evaluate_os_fst [of A n dict s] by (cases "ev_evaluate_os A n dict s") auto

lemma toDouble_value:
  assumes "spells 1 True e s" and "known A dict m look (variables e)" and "m + call_depth e < n"
  shows "returns_value (toDouble A n dict s) (expr_value A dict look e)"
proof (cases "expr_value A dict look e")
  case (Inl st)
  have "st \<noteq> OK" using Inl value_failures(1) [OF assms(2)] failures_not by auto
  obtain err where "ev_evaluate_os A n dict s = Some ((st, ar_zero A), err)"
    using evaluate_os_Some [OF spells_value [OF assms]] Inl by auto
  then show ?thesis
    using \<open>st \<noteq> OK\<close> Inl by (simp add: returns_value_def toDouble_def toFloatingPoint_def check_evaluation_def)
next
  case (Inr v)
  then show ?thesis
    using evaluate_os_Some [OF spells_value [OF assms]]
    by (auto simp: returns_value_def toDouble_def toFloatingPoint_def check_evaluation_def)
qed

text \<open>Multiplying two texts: if the left one is a product and the right one a power or less, the result is
  the product of their values. If the left one is a sum, only its last term is multiplied, unlike in the
  overloads with a number on one side, which evaluate the text alone.\<close>

theorem multiplication_of_texts:
  assumes l: "spells 6 True l sl" and a: "spells 5 True a sa" and b: "spells 6 False b sb" and r: "spells 7 False r sr"
    and "known A dict m look (variables l \<union> variables a \<union> variables b \<union> variables r)"
    and "m + max (max (call_depth l) (call_depth a)) (max (call_depth b) (call_depth r)) < n"
  shows "returns_value (multiply_double A n dict sl sr) (expr_value A dict look (Binary MULT l r)) \<and>
    returns_value (multiply_double A n dict (sa @ ''+'' @ sb) sr) (expr_value A dict look (Binary PLUS a (Binary MULT b r)))"
proof
  have "spells 1 True (Binary MULT l r) (sl @ ''*'' @ sr)"
    by (rule spells_spells_args.binary) (use l r in simp_all)
  then show "returns_value (multiply_double A n dict sl sr) (expr_value A dict look (Binary MULT l r))"
    unfolding multiply_double_def using assms(5,6) by (intro toDouble_value) auto
  have "spells 6 False (Binary MULT b r) (sb @ ''*'' @ sr)"
    by (rule spells_spells_args.binary) (use b r in simp_all)
  note mul = this
  have "spells 1 True (Binary PLUS a (Binary MULT b r)) (sa @ ''+'' @ sb @ ''*'' @ sr)"
    by (rule spells_spells_args.binary [where t = "''+''"]) (use a mul in simp_all)
  then show "returns_value (multiply_double A n dict (sa @ ''+'' @ sb) sr) (expr_value A dict look (Binary PLUS a (Binary MULT b r)))"
    unfolding multiply_double_def using assms(5,6) by (intro toDouble_value) auto
qed

theorem multiplication_of_texts_witness:
  "multiply_double int_arith 2 Map.empty ''3'' ''2'' = Some (Inr 6) \<and>
    multiply_double int_arith 2 Map.empty ''1+2'' ''3'' = Some (Inr 7) \<and>
    multiply_right int_arith 2 Map.empty ''1+2'' 3 = Some (Inr 9)"
proof -
  have lit: "literal ''1''" "literal ''2''" "literal ''3''" by code_simp+
  have a: "atol ''1'' = 1" "atol ''2'' = 2" "atol ''3'' = 3" by code_simp+
  note num = spells_spells_args.number
  have "known int_arith Map.empty 0 (\<lambda>x. Inl ERROR_UNKNOWN_VARIABLE) {}" by (simp add: known_def)
  then have "returns_value (multiply_double int_arith 2 Map.empty ''3'' ''3'') (Inr 9)"
      and s: "returns_value (multiply_double int_arith 2 Map.empty ''1+2'' ''3'') (Inr 7)"
    using multiplication_of_texts [OF num [OF lit(3)] num [OF lit(1)] num [OF lit(2)] num [OF lit(3)],
        of int_arith Map.empty 0 "\<lambda>x. Inl ERROR_UNKNOWN_VARIABLE" 2] a
    by (simp_all add: int_arith_def binary_def)
  have p: "returns_value (multiply_double int_arith 2 Map.empty ''3'' ''2'') (Inr 6)"
    using multiplication_of_texts [OF num [OF lit(3)] num [OF lit(1)] num [OF lit(2)] num [OF lit(2)],
        of int_arith Map.empty 0 "\<lambda>x. Inl ERROR_UNKNOWN_VARIABLE" 2] a
    by (simp add: int_arith_def binary_def known_def)
  have "spells 1 True (Binary PLUS (Number ''1'') (Number ''2'')) (''1'' @ ''+'' @ ''2'')"
    by (rule spells_spells_args.binary) (use num lit in auto)
  then have "returns_value (toDouble int_arith 2 Map.empty ''1+2'') (Inr 3)"
    using toDouble_value [of "Binary PLUS (Number ''1'') (Number ''2'')" "''1+2''" int_arith Map.empty 0 "\<lambda>x. Inl ERROR_UNKNOWN_VARIABLE" 2] a
    by (simp add: known_def int_arith_def binary_def)
  then have "multiply_right int_arith 2 Map.empty ''1+2'' 3 = Some (Inr 9)"
    by (simp add: returns_value_def multiply_right_def int_arith_def)
  then show ?thesis using p s by (simp add: returns_value_def)
qed

subsection \<open>Definitions in the dictionary\<close>

text \<open>Entering a value into the dictionary assigns it to the name, even when redefinition is forbidden and
  the function throws because the name was defined; a name that is not one is dropped without an error.\<close>

theorem dictionary_definition:
  assumes "typ \<noteq> ''string''" and "c_str nm = nm"
    and "ev_evaluate A n dict (drop_blanks (erase_text ''(float)'' (erase_text ''(int)'' val))) = Some (OK, x)"
  shows "(proper_name nm \<longrightarrow> (\<exists>r. toDictionary redefine A n nm val typ dict = Some (dict(nm \<mapsto> Item_variable A x), r) \<and>
      (is_ok r \<longleftrightarrow> redefine \<or> dict nm = None))) \<and>
    (\<not> list_all is_name_char (remove_blanks nm) \<longrightarrow> toDictionary redefine A n nm val typ dict = Some (dict, Inr ()))"
proof -
  obtain err where e: "ev_evaluate_os A n dict (drop_blanks (erase_text ''(float)'' (erase_text ''(int)'' val))) =
      Some ((OK, x), err)"
    using evaluate_os_Some [OF assms(3)] by blast
  have blanks: "remove_blanks nm = nm" if "proper_name nm"
  proof -
    have "\<forall>c\<in>set nm. \<not> isspace c" using that char_classes_disjoint(4) by (auto simp: proper_name_def list_all_iff)
    then have "dropWhile isspace nm = nm" "dropWhile isspace (rev nm) = rev nm"
      by (auto simp: dropWhile_eq_self_iff hd_rev)
    then show ?thesis by (simp add: remove_blanks_def)
  qed
  have "nm \<noteq> [] \<and> list_all is_name_char nm" if "proper_name nm" using that by (simp add: proper_name_def)
  then show ?thesis
    using blanks assms(1,2) e
    by (auto simp: toDictionary_def Let_def check_evaluation_def ev_setVariable_os_def object_setVariable_def setItem_def
        split: prod.splits if_splits)
qed

theorem dictionary_definition_witness:
  "\<exists>r. toDictionary False int_arith 1 ''x'' ''(int) 4'' ''number'' [''x'' \<mapsto> Item_variable int_arith 1] =
      Some ([''x'' \<mapsto> Item_variable int_arith 4], r) \<and> \<not> is_ok r"
proof -
  let ?d = "[''x'' \<mapsto> Item_variable int_arith 1]"
  have s: "drop_blanks (erase_text ''(float)'' (erase_text ''(int)'' ''(int) 4'')) = ''4''" "c_str ''x'' = ''x''"
    "proper_name ''x''" "literal ''4''" "atol ''4'' = 4" by code_simp+
  have "ev_evaluate int_arith 1 ?d ''4'' = Some (OK, 4)"
    using spells_value [OF spells_spells_args.number [OF s(4)], of int_arith ?d 0 "\<lambda>_. Inr 0" 1]
    by (simp add: known_def int_arith_def s)
  then show ?thesis
    using dictionary_definition [of "''number''" "''x''" int_arith 1 ?d "''(int) 4''" 4 False] s by simp
qed

subsection \<open>Environment variables\<close>

lemma find_from_skip:
  "c \<notin> set a \<Longrightarrow> find_from (c # pat) pos (a @ c # pat @ s) = Some (pos + length a)"
proof (induction a arbitrary: pos)
  case Nil
  then show ?case by simp
next
  case (Cons x a)
  then have "take (length (c # pat)) (x # a @ c # pat @ s) \<noteq> c # pat" by auto
  then show ?case using Cons by simp
qed

lemma find_from_absent: "c \<notin> set s \<Longrightarrow> find_from (c # pat) pos s = None"
  by (induction s arbitrary: pos) auto

text \<open>A text with the references \<open>xs\<close>, each after a text without a dollar sign, and its expansion.\<close>

definition with_references :: "(string \<times> string) list \<Rightarrow> string \<Rightarrow> string" where
  "with_references xs t = concat (map (\<lambda>(a, x). a @ ''${'' @ x @ ''}'') xs) @ t"

fun expansion :: "(string \<Rightarrow> string option) \<Rightarrow> 'd dic_type \<Rightarrow> (string \<times> string) list \<Rightarrow> string \<Rightarrow> string cpp" where
  "expansion getenv dict [] t = Inr t"
| "expansion getenv dict ((a, x) # xs) t =
     (case ev_getEnviron_os getenv (''${'' @ x @ ''}'') dict of ((st, v), err) \<Rightarrow>
        if st \<noteq> OK
        then Inl (RuntimeError (''dd4hep: Severe error during environment lookup of '' @ (''${'' @ x @ ''}'') @ '' '' @ err))
        else bindE (expansion getenv dict xs t) (\<lambda>r. Inr (a @ v @ r)))"

lemma getEnviron_loop_expansion:
  assumes "\<forall>(a, x)\<in>set xs. CHR ''$'' \<notin> set a \<and> CHR ''}'' \<notin> set x" and "CHR ''$'' \<notin> set t"
    and "drop cur env = with_references xs t" and "cur \<le> length env"
  shows "getEnviron_loop getenv dict env cur out = Some (bindE (expansion getenv dict xs t) (\<lambda>r. Inr (out @ r)))"
  using assms
proof (induction xs arbitrary: cur out)
  case Nil
  then have "find_str ''${'' cur env = None" by (simp add: find_str_def with_references_def find_from_absent)
  then show ?case
    using Nil by (subst getEnviron_loop.simps) (simp add: substr_from_def with_references_def)
next
  case (Cons ax xs)
  obtain a x where ax: "ax = (a, x)" by fastforce
  let ?rest = "with_references xs t"
  have d: "drop cur env = a @ ''${'' @ x @ ''}'' @ ?rest" using Cons.prems(3) by (simp add: ax with_references_def)
  have nodollar: "CHR ''$'' \<notin> set a" "CHR ''}'' \<notin> set (''${'' @ x)" using Cons.prems(1) ax by auto
  have l: "length env = cur + length (a @ ''${'' @ x @ ''}'' @ ?rest)"
    using arg_cong [OF d, of length] Cons.prems(4) by simp
  have f1: "find_str ''${'' cur env = Some (cur + length a)"
    using find_from_skip [OF nodollar(1), of "''{''" cur "x @ ''}'' @ ?rest"] Cons.prems(4) d by (simp add: find_str_def)
  have d1: "drop (cur + length a) env = (''${'' @ x) @ CHR ''}'' # ?rest"
    using arg_cong [OF d, of "drop (length a)"] by (simp add: add.commute)
  have f2: "find_str ''}'' (cur + length a) env = Some (cur + length a + length x + 2)"
    using find_from_skip [OF nodollar(2), of "[]" "cur + length a" ?rest] d1 l by (simp add: find_str_def)
  have v: "take (cur + length a + length x + 2 - (cur + length a) + 1) (drop (cur + length a) env) = ''${'' @ x @ ''}''"
    unfolding d1 by simp
  have b: "take (cur + length a - cur) (drop cur env) = a" unfolding d by simp
  have d2: "drop (cur + length a + length x + 2 + 1) env = ?rest"
    using arg_cong [OF d1, of "drop (length x + 3)"] by (simp add: add.commute add.left_commute numeral_3_eq_3)
  have IH: "getEnviron_loop getenv dict env (cur + length a + length x + 2 + 1) out' =
      Some (bindE (expansion getenv dict xs t) (\<lambda>r. Inr (out' @ r)))" for out'
    using Cons.prems(1,2) d2 l by (intro Cons.IH) auto
  obtain st w err where g: "ev_getEnviron_os getenv (''${'' @ x @ ''}'') dict = ((st, w), err)" by (metis prod.exhaust)
  show ?case
    unfolding getEnviron_loop.simps [of getenv dict env cur out] f1 option.case f2 v b ax expansion.simps g Let_def prod.case IH
    by (cases "expansion getenv dict xs t") simp_all
qed

text \<open>C16. Every reference to a variable in a text is replaced by its value, from the dictionary or else from the
  environment, and the rest is kept; the first variable without a value raises.\<close>

theorem environment_expansion:
  assumes "\<forall>(a, x)\<in>set xs. CHR ''$'' \<notin> set a \<and> CHR ''}'' \<notin> set x" and "CHR ''$'' \<notin> set t"
  shows "getEnviron getenv dict (with_references xs t) = Some (expansion getenv dict xs t)"
  using getEnviron_loop_expansion [OF assms, of 0 "with_references xs t" getenv dict "[]"]
  by (cases "expansion getenv dict xs t") (simp_all add: getEnviron_def)

theorem environment_expansion_witness:
  "getEnviron (\<lambda>x. if x = ''B'' then Some ''2'' else None) (fst (ev_setEnviron int_arith ''A'' ''1'' Map.empty)) ''x${A}y${B}z''
    = Some (Inr ''x1y2z'')"
proof -
  have c: "c_str ''${A}'' = ''${A}''" "c_str ''${B}'' = ''${B}''" "c_str ''A'' = ''A''" "c_str ''1'' = ''1''" by code_simp+
  show ?thesis
    using environment_expansion [of "[(''x'', ''A''), (''y'', ''B'')]" "''z''"
        "\<lambda>x. if x = ''B'' then Some ''2'' else None" "fst (ev_setEnviron int_arith ''A'' ''1'' Map.empty)"]
    by (simp add: with_references_def ev_getEnviron_os_def object_getEnviron_def ev_setEnviron_def object_setEnviron_def
        c Let_def)
qed

lemma getEnviron_unclosed_loop:
  assumes "getEnviron_loop getenv dict env cur out = Some y" and "find_str ''${'' 0 env = Some id1" and "find_str ''}'' id1 env = None"
    and "fst (fst (ev_getEnviron_os getenv (if id1 = 0 then [] else drop id1 env) dict)) = OK"
  shows "cur \<noteq> 0"
proof -
  obtain w err where g: "ev_getEnviron_os getenv (if id1 = 0 then [] else drop id1 env) dict = ((OK, w), err)"
    using assms(4) by (cases "ev_getEnviron_os getenv (if id1 = 0 then [] else drop id1 env) dict") auto
  have "getenv = getenv \<longrightarrow> dict = dict \<longrightarrow> env = env \<longrightarrow> cur \<noteq> 0"
    by (rule getEnviron_loop.raw_induct [OF _ assms(1),
          where P = "\<lambda>g d e c out y. g = getenv \<longrightarrow> d = dict \<longrightarrow> e = env \<longrightarrow> c \<noteq> 0"])
      (intro impI notI, hypsubst, simp add: assms(2,3) g Let_def, blast)
  then show ?thesis by simp
qed

text \<open>A reference without its closing brace whose text, looked up with the last character cut off, names a
  variable is replaced again and again: the function does not return.\<close>

theorem unclosed_reference_diverges:
  assumes "a \<noteq> []" and "CHR ''$'' \<notin> set a" and "CHR ''}'' \<notin> set x"
    and "fst (fst (ev_getEnviron_os getenv (''${'' @ x) dict)) = OK"
  shows "getEnviron getenv dict (a @ ''${'' @ x) = None"
proof (rule ccontr)
  let ?env = "a @ ''${'' @ x"
  assume "getEnviron getenv dict ?env \<noteq> None"
  then obtain y where y: "getEnviron_loop getenv dict ?env 0 [] = Some y" by (auto simp: getEnviron_def)
  have "find_str ''${'' 0 ?env = Some (length a)"
    using find_from_skip [OF assms(2), of "''{''" 0 x] by (simp add: find_str_def)
  moreover have "find_str ''}'' (length a) ?env = None"
    using assms(3) by (simp add: find_str_def find_from_absent)
  ultimately show False
    using getEnviron_unclosed_loop [OF y] assms by simp
qed

theorem unclosed_reference_diverges_witness:
  "getEnviron (\<lambda>x. if x = ''HOM'' then Some ''/root'' else None) (Map.empty :: int dic_type) ''p=${HOME'' = None"
proof -
  have c: "c_str ''${HOME'' = ''${HOME''" by code_simp
  show ?thesis
    using unclosed_reference_diverges [of "''p=''" "''HOME''" "\<lambda>x. if x = ''HOM'' then Some ''/root'' else None" "Map.empty :: int dic_type"]
    by (simp add: ev_getEnviron_os_def object_getEnviron_def c Let_def)
qed

end
