(* ===== verification/ParticleRecord.thy ===== *)
theory ParticleRecord
  imports StdMap
begin

text \<open>
  The Monte Carlo truth record of the simulation: \<open>src/DDG4/src/Geant4ParticleHandler.cpp\<close> with the particles of
  \<open>Geant4Particle.h\<close>. While Geant4 tracks particles the handler decides which of them to store; at the end of the
  event it removes the stored particles nobody needs, hands their properties to their parents, numbers
  the rest behind the generator's particles and links parents and daughters.

  Geant4 is not part of the repository: what a track says of itself when the handler is called is the record
  \<open>Track\<close>. Particles are objects of a store with counted references, because the maps of the handler, of
  the generator and of the event share them; an address is a number and 0 the null pointer. Floating point numbers are a type
  parameter, the three comparisons the code makes with them are in \<open>Settings\<close>. Masks are 32-bit words.
  Identifiers, counters and reference counts are unbounded (their overflow is undefined in the code). User handlers
  are functions of the particles they are given. Output, the unused parameter of \<open>rebaseSimulatedTracks\<close> and
  the assertion in \<open>clear\<close>, which release builds do not contain, are left out.
\<close>

unbundle bit_operations_syntax

subsection \<open>Properties of particles\<close>

definition G4PARTICLE_CREATED_HIT :: i32 where "G4PARTICLE_CREATED_HIT = push_bit 1 1"
definition G4PARTICLE_PRIMARY :: i32 where "G4PARTICLE_PRIMARY = push_bit 2 1"
definition G4PARTICLE_HAS_SECONDARIES :: i32 where "G4PARTICLE_HAS_SECONDARIES = push_bit 3 1"
definition G4PARTICLE_ABOVE_ENERGY_THRESHOLD :: i32 where "G4PARTICLE_ABOVE_ENERGY_THRESHOLD = push_bit 4 1"
definition G4PARTICLE_KEEP_PROCESS :: i32 where "G4PARTICLE_KEEP_PROCESS = push_bit 5 1"
definition G4PARTICLE_KEEP_PARENT :: i32 where "G4PARTICLE_KEEP_PARENT = push_bit 6 1"
definition G4PARTICLE_CREATED_CALORIMETER_HIT :: i32 where "G4PARTICLE_CREATED_CALORIMETER_HIT = push_bit 7 1"
definition G4PARTICLE_CREATED_TRACKER_HIT :: i32 where "G4PARTICLE_CREATED_TRACKER_HIT = push_bit 8 1"
definition G4PARTICLE_KEEP_USER :: i32 where "G4PARTICLE_KEEP_USER = push_bit 9 1"
definition G4PARTICLE_KEEP_ALWAYS :: i32 where "G4PARTICLE_KEEP_ALWAYS = push_bit 10 1"
definition G4PARTICLE_FORCE_KILL :: i32 where "G4PARTICLE_FORCE_KILL = push_bit 11 1"
definition G4PARTICLE_STARTED_IN_CALORIMETER :: i32 where "G4PARTICLE_STARTED_IN_CALORIMETER = push_bit 12 1"

definition G4PARTICLE_GEN_STATUS :: i32 where "G4PARTICLE_GEN_STATUS = 0x3FF"
definition G4PARTICLE_SIM_CREATED :: i32 where "G4PARTICLE_SIM_CREATED = push_bit 10 1"
definition G4PARTICLE_SIM_BACKSCATTER :: i32 where "G4PARTICLE_SIM_BACKSCATTER = push_bit 11 1"
definition G4PARTICLE_SIM_DECAY_CALO :: i32 where "G4PARTICLE_SIM_DECAY_CALO = push_bit 12 1"
definition G4PARTICLE_SIM_DECAY_TRACKER :: i32 where "G4PARTICLE_SIM_DECAY_TRACKER = push_bit 13 1"
definition G4PARTICLE_SIM_STOPPED :: i32 where "G4PARTICLE_SIM_STOPPED = push_bit 14 1"
definition G4PARTICLE_SIM_LEFT_DETECTOR :: i32 where "G4PARTICLE_SIM_LEFT_DETECTOR = push_bit 15 1"
definition G4PARTICLE_SIM_PARENT_RADIATED :: i32 where "G4PARTICLE_SIM_PARENT_RADIATED = push_bit 16 1"

lemmas particle_bits = G4PARTICLE_CREATED_HIT_def G4PARTICLE_PRIMARY_def G4PARTICLE_HAS_SECONDARIES_def
  G4PARTICLE_ABOVE_ENERGY_THRESHOLD_def G4PARTICLE_KEEP_PROCESS_def G4PARTICLE_KEEP_PARENT_def
  G4PARTICLE_CREATED_CALORIMETER_HIT_def G4PARTICLE_CREATED_TRACKER_HIT_def G4PARTICLE_KEEP_USER_def
  G4PARTICLE_KEEP_ALWAYS_def G4PARTICLE_FORCE_KILL_def G4PARTICLE_STARTED_IN_CALORIMETER_def
  G4PARTICLE_GEN_STATUS_def G4PARTICLE_SIM_CREATED_def G4PARTICLE_SIM_BACKSCATTER_def G4PARTICLE_SIM_DECAY_CALO_def
  G4PARTICLE_SIM_DECAY_TRACKER_def G4PARTICLE_SIM_STOPPED_def G4PARTICLE_SIM_LEFT_DETECTOR_def
  G4PARTICLE_SIM_PARENT_RADIATED_def

text \<open>\<open>ReferenceBitMask\<close>.\<close>

definition isSet :: "i32 \<Rightarrow> i32 \<Rightarrow> bool" where "isSet m a \<longleftrightarrow> m AND a = a"
definition anySet :: "i32 \<Rightarrow> i32 \<Rightarrow> bool" where "anySet m a \<longleftrightarrow> m AND a \<noteq> 0"

subsection \<open>Particles, tracks and the handler\<close>

type_synonym 'd vec = "'d \<times> 'd \<times> 'd"

text \<open>User data of a particle is a number that identifies the object; the creating process is its name.\<close>

record 'd Particle =
  pt_ref :: int
  pt_id :: int
  pt_originalG4ID :: int
  pt_g4Parent :: int
  pt_reason :: i32
  pt_mask :: i32
  pt_steps :: int
  pt_secondaries :: int
  pt_pdgID :: int
  pt_status :: i32
  pt_colorFlow :: "int \<times> int"
  pt_genStatus :: "16 word"
  pt_charge :: "8 word"
  pt_spin :: "'d vec"
  pt_vs :: "'d vec"
  pt_ve :: "'d vec"
  pt_ps :: "'d vec"
  pt_pe :: "'d vec"
  pt_mass :: 'd
  pt_time :: 'd
  pt_properTime :: 'd
  pt_parents :: "int set"
  pt_daughters :: "int set"
  pt_extension :: "nat option"
  pt_process :: "string option"

text \<open>
  \<open>tk_charge3\<close> is \<open>int(3.0 * charge)\<close>; \<open>tk_sensitive\<close> the type of the sensitive detector of the
  volume the track is in; \<open>tk_information\<close> the user information of the track, with the extension it still holds;
  \<open>tk_at_boundary\<close> tells that the last step ended at the boundary of the world.
\<close>

record 'd Track =
  tk_id :: int
  tk_parent :: int
  tk_primary :: "nat option"
  tk_energy :: 'd
  tk_charge3 :: "8 word"
  tk_pdgID :: int
  tk_mass :: 'd
  tk_process :: "string option"
  tk_time :: 'd
  tk_vertex :: "'d vec"
  tk_momentum :: "'d vec"
  tk_position :: "'d vec"
  tk_sensitive :: "string option"
  tk_at_boundary :: bool
  tk_information :: "nat option option"
  tk_suspended :: bool

record 'd UserHandler =
  uh_begin :: "'d Track \<Rightarrow> 'd Particle \<Rightarrow> 'd Particle"
  uh_step :: "'d Track \<Rightarrow> 'd Particle \<Rightarrow> 'd Particle"
  uh_end :: "'d Track \<Rightarrow> 'd Particle \<Rightarrow> 'd Particle"
  uh_mark :: "'d Track \<Rightarrow> 'd Particle \<Rightarrow> 'd Particle"
  uh_drop :: "'d Particle \<Rightarrow> 'd Particle \<times> bool"
  uh_combine :: "'d Particle \<Rightarrow> 'd Particle \<Rightarrow> 'd Particle \<times> 'd Particle"

text \<open>
  The properties of the handler. \<open>cf_above_cut e\<close> is \<open>e > m_kinEnergyCut\<close>, \<open>cf_at_rest e\<close> is \<open>e \<le> 0\<close> and
  \<open>cf_far a b\<close> tells that two points are further apart than \<open>m_minDistToParentVertex\<close>; \<open>cf_definition\<close> tells whether Geant4
  has a definition for a particle.
\<close>

record 'd Settings =
  cf_keepAll :: bool
  cf_processNames :: "string list"
  cf_above_cut :: "'d \<Rightarrow> bool"
  cf_at_rest :: "'d \<Rightarrow> bool"
  cf_far :: "'d vec \<Rightarrow> 'd vec \<Rightarrow> bool"
  cf_zero :: 'd
  cf_definition :: "'d Particle \<Rightarrow> bool"
  cf_userHandlers :: "'d UserHandler list"

text \<open>
  The state of the handler and the extensions of the event it uses: \<open>Geant4PrimaryMap\<close>, the merged
  \<open>Geant4PrimaryInteraction\<close> and the \<open>Geant4ParticleMap\<close> of the final record.
\<close>

record 'd MCState =
  mc_next :: nat
  mc_heap :: "nat \<Rightarrow> 'd Particle option"
  mc_globalParticleID :: int
  mc_primaryMap :: "(nat \<Rightarrow> nat option) option"
  mc_currTrack :: "'d Particle"
  mc_particleMap :: "(int, nat) std_map"
  mc_suspendedPM :: "(int, nat) std_map"
  mc_haveSuspended :: bool
  mc_equivalentTracks :: "(int, int) std_map"
  ev_primaryMap :: "nat \<Rightarrow> nat option"
  ev_particles :: "(int, nat) std_map"
  ev_nextPID :: int
  ev_particleMap :: "(int, nat) std_map"
  ev_equivalentTracks :: "(int, int) std_map"

definition Particle_new :: "'d Settings \<Rightarrow> 'd Particle" where
  "Particle_new cf = (let z = cf_zero cf in \<lparr>pt_ref = 1, pt_id = 0, pt_originalG4ID = 0, pt_g4Parent = 0, pt_reason = 0, pt_mask = 0,
     pt_steps = 0, pt_secondaries = 0, pt_pdgID = 0, pt_status = 0, pt_colorFlow = (0, 0), pt_genStatus = 0, pt_charge = 0,
     pt_spin = (z, z, z), pt_vs = (z, z, z), pt_ve = (z, z, z), pt_ps = (z, z, z), pt_pe = (z, z, z), pt_mass = z, pt_time = z,
     pt_properTime = z, pt_parents = {}, pt_daughters = {}, pt_extension = None, pt_process = None\<rparr>)"

text \<open>\<open>get_data\<close> copies almost everything and exchanges the extensions.\<close>

definition get_data :: "'d Particle \<Rightarrow> 'd Particle \<Rightarrow> 'd Particle \<times> 'd Particle" where
  "get_data p c = (c\<lparr>pt_ref := pt_ref p, pt_colorFlow := pt_colorFlow p, pt_spin := pt_spin p\<rparr>, c\<lparr>pt_extension := pt_extension p\<rparr>)"

definition no_particle :: cpp_error where
  "no_particle = UndefinedBehaviour ''access through an invalid particle pointer''"

definition endless_loop :: cpp_error where
  "endless_loop = UndefinedBehaviour ''loop without end''"

definition particle_get :: "'d MCState \<Rightarrow> nat \<Rightarrow> 'd Particle cpp" where
  "particle_get s a = (case mc_heap s a of Some p \<Rightarrow> if a = 0 then Inl no_particle else Inr p | None \<Rightarrow> Inl no_particle)"

definition particle_put :: "'d MCState \<Rightarrow> nat \<Rightarrow> 'd Particle \<Rightarrow> 'd MCState" where
  "particle_put s a p = s\<lparr>mc_heap := (mc_heap s)(a \<mapsto> p)\<rparr>"

definition particle_modify :: "'d MCState \<Rightarrow> nat \<Rightarrow> ('d Particle \<Rightarrow> 'd Particle) \<Rightarrow> 'd MCState cpp" where
  "particle_modify s a f = bindE (particle_get s a) (\<lambda>p. Inr (particle_put s a (f p)))"

definition particle_alloc :: "'d MCState \<Rightarrow> 'd Particle \<Rightarrow> 'd MCState \<times> nat" where
  "particle_alloc s p = (s\<lparr>mc_next := Suc (mc_next s), mc_heap := (mc_heap s)(mc_next s \<mapsto> p)\<rparr>, mc_next s)"

definition particle_addRef :: "'d MCState \<Rightarrow> nat \<Rightarrow> 'd MCState cpp" where
  "particle_addRef s a = particle_modify s a (\<lambda>p. p\<lparr>pt_ref := pt_ref p + 1\<rparr>)"

definition particle_release :: "'d MCState \<Rightarrow> nat \<Rightarrow> 'd MCState cpp" where
  "particle_release s a = bindE (particle_get s a) (\<lambda>p.
     if pt_ref p - 1 \<le> 0 then Inr (s\<lparr>mc_heap := (mc_heap s)(a := None)\<rparr>)
     else Inr (particle_put s a (p\<lparr>pt_ref := pt_ref p - 1\<rparr>)))"

definition release_particles :: "'d MCState \<Rightarrow> (int, nat) std_map \<Rightarrow> 'd MCState cpp" where
  "release_particles s m = foldE (\<lambda>s a. if a \<noteq> 0 then particle_release s a else Inr s) s (List.map snd m)"

definition mc_clear :: "'d MCState \<Rightarrow> 'd MCState cpp" where
  "mc_clear s = bindE (release_particles s (mc_particleMap s)) (\<lambda>s1. Inr (s1\<lparr>mc_particleMap := [], mc_equivalentTracks := []\<rparr>))"

definition or_reason :: "i32 \<Rightarrow> 'd Particle \<Rightarrow> 'd Particle" where
  "or_reason m p = p\<lparr>pt_reason := pt_reason p OR m\<rparr>"

definition or_status :: "i32 \<Rightarrow> 'd Particle \<Rightarrow> 'd Particle" where
  "or_status m p = p\<lparr>pt_status := pt_status p OR m\<rparr>"

subsection \<open>The user's handlers\<close>

text \<open>What the base class does, and the test of the default for dropping a particle.\<close>

definition defaultDropParticle :: "'d Particle \<Rightarrow> bool" where
  "defaultDropParticle p =
     (let r = pt_reason p;
          backscatter = isSet r G4PARTICLE_SIM_BACKSCATTER;
          secondaries = isSet r G4PARTICLE_HAS_SECONDARIES;
          tracker_track = isSet r G4PARTICLE_CREATED_TRACKER_HIT;
          calo_track = isSet r G4PARTICLE_CREATED_CALORIMETER_HIT;
          hits_produced = isSet r G4PARTICLE_CREATED_HIT;
          low_energy = \<not> isSet r G4PARTICLE_ABOVE_ENERGY_THRESHOLD
      in if backscatter then False
         else if r = 0 \<or> (secondaries \<and> low_energy \<and> \<not> hits_produced) then True
         else if \<not> hits_produced \<and> low_energy then True
         else if \<not> tracker_track \<and> calo_track \<and> low_energy then True
         else False)"

definition UserHandler_default :: "'d UserHandler" where
  "UserHandler_default = \<lparr>uh_begin = (\<lambda>_ p. p), uh_step = (\<lambda>_ p. p), uh_end = (\<lambda>_ p. p), uh_mark = (\<lambda>_ p. p),
     uh_drop = (\<lambda>p. (p, defaultDropParticle p)), uh_combine = (\<lambda>p q. (p, q))\<rparr>"

text \<open>The handlers that drop what starts outside of a tracking volume differ in the test of a point only.\<close>

definition setReason :: "bool \<Rightarrow> bool \<Rightarrow> 'd Particle \<Rightarrow> 'd Particle" where
  "setReason starts_in_trk_vol ends_in_trk_vol p =
     (let r = pt_reason p in
      if isSet r G4PARTICLE_PRIMARY then p
      else if starts_in_trk_vol \<and> \<not> isSet r G4PARTICLE_ABOVE_ENERGY_THRESHOLD then p\<lparr>pt_reason := 0\<rparr>
      else if isSet r G4PARTICLE_CREATED_TRACKER_HIT \<and> isSet r G4PARTICLE_ABOVE_ENERGY_THRESHOLD then p
      else if \<not> starts_in_trk_vol then
        (if \<not> ends_in_trk_vol then p\<lparr>pt_reason := 0\<rparr>
         else if \<not> isSet r G4PARTICLE_CREATED_TRACKER_HIT then p\<lparr>pt_reason := 0\<rparr>
         else p)
      else p)"

definition setSimulatorStatus :: "bool \<Rightarrow> bool \<Rightarrow> 'd Particle \<Rightarrow> 'd Particle" where
  "setSimulatorStatus starts_in_trk_vol ends_in_trk_vol p =
     (let p1 = (if ends_in_trk_vol then or_status G4PARTICLE_SIM_DECAY_TRACKER p else p);
          p2 = (if \<not> ends_in_trk_vol \<and> \<not> isSet (pt_status p1) G4PARTICLE_SIM_LEFT_DETECTOR then or_status G4PARTICLE_SIM_DECAY_CALO p1 else p1)
      in if \<not> starts_in_trk_vol \<and> ends_in_trk_vol then or_status G4PARTICLE_SIM_BACKSCATTER p2 else p2)"

definition tracking_volume_handler :: "('d vec \<Rightarrow> bool) \<Rightarrow> 'd UserHandler" where
  "tracking_volume_handler inside = UserHandler_default\<lparr>uh_end := (\<lambda>_ p. let starts = inside (pt_vs p); ends = inside (pt_ve p) in
     setSimulatorStatus starts ends (setReason starts ends p))\<rparr>"

subsection \<open>Tracking\<close>

definition mc_error :: "string \<Rightarrow> cpp_error" where
  "mc_error m = RuntimeError m"

definition mark_reason :: "'d MCState \<Rightarrow> 'd Track option \<Rightarrow> i32 \<Rightarrow> 'd MCState cpp" where
  "mark_reason s t reason = (if t \<noteq> None \<and> reason \<noteq> 0 then Inr (s\<lparr>mc_currTrack := or_reason reason (mc_currTrack s)\<rparr>)
     else Inl (mc_error ''Cannot mark the G4Track if the pointer is invalid!''))"

definition mark_track :: "'d Settings \<Rightarrow> 'd MCState \<Rightarrow> 'd Track option \<Rightarrow> 'd MCState cpp" where
  "mark_track cf s t = (case t of None \<Rightarrow> Inl no_particle
     | Some t \<Rightarrow>
        let hit = G4PARTICLE_CREATED_HIT OR (case tk_sensitive t of None \<Rightarrow> 0
              | Some typ \<Rightarrow> if typ = ''calorimeter'' then G4PARTICLE_CREATED_CALORIMETER_HIT else G4PARTICLE_CREATED_TRACKER_HIT)
        in Inr (s\<lparr>mc_currTrack := foldl (\<lambda>p h. uh_mark h t p) (or_reason hit (mc_currTrack s)) (cf_userHandlers cf)\<rparr>))"

text \<open>The same for the track of a step; a null step raises.\<close>

definition mark_step_reason :: "'d MCState \<Rightarrow> 'd Track option option \<Rightarrow> i32 \<Rightarrow> 'd MCState cpp" where
  "mark_step_reason s st reason = (case st of Some t \<Rightarrow> mark_reason s t reason
     | None \<Rightarrow> Inl (mc_error ''Cannot mark the G4Track if the step-pointer is invalid!''))"

definition mark_step :: "'d Settings \<Rightarrow> 'd MCState \<Rightarrow> 'd Track option option \<Rightarrow> 'd MCState cpp" where
  "mark_step cf s st = (case st of Some t \<Rightarrow> mark_track cf s t
     | None \<Rightarrow> Inl (mc_error ''Cannot mark the G4Track if the step-pointer is invalid!''))"

definition track_step :: "'d Settings \<Rightarrow> 'd MCState \<Rightarrow> 'd Track \<Rightarrow> bool \<Rightarrow> 'd MCState" where
  "track_step cf s t has_secondaries =
     (let p = mc_currTrack s; p1 = p\<lparr>pt_steps := pt_steps p + 1\<rparr>;
          p2 = (if pt_reason p1 AND G4PARTICLE_ABOVE_ENERGY_THRESHOLD \<noteq> 0 \<and> has_secondaries
                then or_reason G4PARTICLE_HAS_SECONDARIES p1 else p1)
      in s\<lparr>mc_currTrack := foldl (\<lambda>p h. uh_step h t p) p2 (cf_userHandlers cf)\<rparr>)"

text \<open>\<open>begin\<close> of a suspended track picks up the particle where it was left.\<close>

definition resume_track :: "'d MCState \<Rightarrow> nat \<Rightarrow> 'd MCState cpp" where
  "resume_track s a = bindE (particle_get s a) (\<lambda>p. let (c, p') = get_data (mc_currTrack s) p in
     Inr (particle_put (s\<lparr>mc_currTrack := c\<rparr>) a p'))"

definition start_generated :: "'d Particle \<Rightarrow> 'd Particle \<Rightarrow> i32 \<Rightarrow> 'd Track \<Rightarrow> 'd Particle" where
  "start_generated c p reason t = c\<lparr>pt_id := pt_id p, pt_reason := pt_reason p OR reason, pt_mask := pt_mask p, pt_status := pt_status p,
     pt_genStatus := pt_genStatus p, pt_spin := pt_spin p, pt_colorFlow := pt_colorFlow p, pt_parents := pt_parents p,
     pt_daughters := pt_daughters p, pt_pdgID := pt_pdgID p, pt_mass := pt_mass p, pt_charge := tk_charge3 t\<rparr>"

definition start_simulated :: "'d Settings \<Rightarrow> 'd Particle \<Rightarrow> int \<Rightarrow> i32 \<Rightarrow> 'd Track \<Rightarrow> 'd Particle" where
  "start_simulated cf c i reason t = c\<lparr>pt_id := i, pt_reason := reason, pt_mask := 0, pt_status := G4PARTICLE_SIM_CREATED,
     pt_genStatus := 0, pt_spin := (cf_zero cf, cf_zero cf, cf_zero cf), pt_colorFlow := (0, 0), pt_parents := {},
     pt_daughters := {}, pt_pdgID := tk_pdgID t, pt_mass := tk_mass t, pt_charge := tk_charge3 t\<rparr>"

definition start_track :: "'d Settings \<Rightarrow> 'd Track \<Rightarrow> 'd Particle \<Rightarrow> 'd Particle" where
  "start_track cf t c =
     (let z = (cf_zero cf, cf_zero cf, cf_zero cf);
          c1 = c\<lparr>pt_steps := 0, pt_secondaries := 0, pt_g4Parent := tk_parent t, pt_originalG4ID := tk_id t, pt_process := tk_process t,
                 pt_time := tk_time t, pt_vs := tk_vertex t, pt_ve := z, pt_ps := tk_momentum t, pt_pe := z\<rparr>;
          c2 = (case tk_process t of Some n \<Rightarrow> if n \<in> set (cf_processNames cf) then or_reason G4PARTICLE_KEEP_PROCESS c1 else c1
                | None \<Rightarrow> c1);
          c3 = (if cf_keepAll cf then or_reason G4PARTICLE_KEEP_ALWAYS c2 else c2);
          c4 = (if tk_sensitive t = Some ''calorimeter'' then or_reason G4PARTICLE_STARTED_IN_CALORIMETER c3 else c3)
      in foldl (\<lambda>p h. uh_begin h t p) c4 (cf_userHandlers cf))"

definition track_begin :: "'d Settings \<Rightarrow> 'd MCState \<Rightarrow> 'd Track \<Rightarrow> 'd MCState cpp" where
  "track_begin cf s t =
     (let reason = (if cf_above_cut cf (tk_energy t) then G4PARTICLE_ABOVE_ENERGY_THRESHOLD else 0);
          stored = (if mc_haveSuspended s then map_of (mc_particleMap s) (tk_id t) else None);
          left = (if mc_haveSuspended s then map_of (mc_suspendedPM s) (tk_id t) else None)
      in case stored of
        Some a \<Rightarrow> resume_track s a
      | None \<Rightarrow> (case left of
          Some a \<Rightarrow> bindE (resume_track s a) (\<lambda>s1.
            Inr (s1\<lparr>mc_heap := (mc_heap s1)(a := None), mc_suspendedPM := map_erase (tk_id t) (mc_suspendedPM s1)\<rparr>))
        | None \<Rightarrow> (case tk_primary t of
            Some g \<Rightarrow> (case mc_primaryMap s of
                None \<Rightarrow> Inl no_particle
              | Some pmap \<Rightarrow> (case pmap g of
                  None \<Rightarrow> Inl (mc_error ''+++ Tracking preaction: Primary particle without generator particle!'')
                | Some a \<Rightarrow>
                    if a = 0 then Inl (mc_error ''+++ Tracking preaction: Primary particle without generator particle!'')
                    else bindE (particle_addRef s a) (\<lambda>s1. bindE (particle_get s1 a) (\<lambda>p.
                      Inr (s1\<lparr>mc_particleMap := map_assign (tk_id t) a (mc_particleMap s1),
                              mc_currTrack := start_track cf t (start_generated (mc_currTrack s1) p
                                (reason OR (G4PARTICLE_PRIMARY OR G4PARTICLE_ABOVE_ENERGY_THRESHOLD)) t)\<rparr>)))))
          | None \<Rightarrow> Inr (s\<lparr>mc_currTrack := start_track cf t (start_simulated cf (mc_currTrack s) (mc_globalParticleID s) reason t),
                           mc_globalParticleID := mc_globalParticleID s + 1\<rparr>))))"

text \<open>
  The search for the last stored particle of a chain of equivalent tracks. It does not end when the chain is a
  cycle outside of the stored particles.
\<close>

partial_function (option) last_stored :: "(int, nat) std_map \<Rightarrow> (int, int) std_map \<Rightarrow> int \<Rightarrow> (int \<times> nat) option option" where
  "last_stored pm eq pid = (case map_of pm pid of
       Some a \<Rightarrow> Some (Some (pid, a))
     | None \<Rightarrow> (case map_of eq pid of
         None \<Rightarrow> Some None
       | Some q \<Rightarrow> last_stored pm eq q))"

definition store_track :: "'d Settings \<Rightarrow> 'd MCState \<Rightarrow> 'd Track \<Rightarrow> bool \<Rightarrow> 'd MCState cpp" where
  "store_track cf s t backscatter =
     (let c = mc_currTrack s;
          c1 = (if backscatter then or_reason G4PARTICLE_KEEP_ALWAYS c else c);
          (s1, a) = (case map_of (mc_particleMap s) (tk_id t) of
              Some a \<Rightarrow> (s, a)
            | None \<Rightarrow> let (s', a) = particle_alloc s (Particle_new cf) in (s'\<lparr>mc_particleMap := map_assign (tk_id t) a (mc_particleMap s')\<rparr>, a))
      in bindE (particle_get s1 a) (\<lambda>p.
           let (p1, c2) = (case tk_information t of
                 Some ext \<Rightarrow> (p\<lparr>pt_extension := ext\<rparr>, or_reason G4PARTICLE_KEEP_USER c1)
               | None \<Rightarrow> (p, c1));
               (p2, c3) = get_data p1 c2
           in Inr ((particle_put s1 a p2)\<lparr>mc_currTrack := c3, mc_equivalentTracks := map_assign (tk_id t) (tk_id t) (mc_equivalentTracks s1)\<rparr>)))"

definition forget_track :: "'d MCState \<Rightarrow> 'd Track \<Rightarrow> i32 \<Rightarrow> 'd MCState cpp" where
  "forget_track s t track_reason =
     (let pid = pt_g4Parent (mc_currTrack s);
          s1 = s\<lparr>mc_equivalentTracks := map_assign (tk_id t) pid (mc_equivalentTracks s)\<rparr>
      in case last_stored (mc_particleMap s1) (mc_equivalentTracks s1) pid of
        None \<Rightarrow> Inl endless_loop
      | Some None \<Rightarrow> Inr s1
      | Some (Some (k, a)) \<Rightarrow> particle_modify s1 a (or_reason track_reason))"

definition suspend_track :: "'d Settings \<Rightarrow> 'd MCState \<Rightarrow> 'd Track \<Rightarrow> 'd MCState cpp" where
  "suspend_track cf s t =
     (let s1 = s\<lparr>mc_haveSuspended := True\<rparr> in
      if map_of (mc_particleMap s1) (tk_id t) \<noteq> None then Inr s1
      else let (s2, a) = particle_alloc s1 (Particle_new cf);
               (m, inserted) = map_emplace (tk_id t) a (mc_suspendedPM s2);
               b = (case map_of m (tk_id t) of Some b \<Rightarrow> b | None \<Rightarrow> 0)
           in bindE (particle_get s2 b) (\<lambda>p. let (p', c) = get_data p (mc_currTrack s2) in
                Inr ((particle_put s2 b p')\<lparr>mc_currTrack := c, mc_suspendedPM := m\<rparr>)))"

definition track_end :: "'d Settings \<Rightarrow> 'd MCState \<Rightarrow> 'd Track \<Rightarrow> 'd MCState cpp" where
  "track_end cf s t =
     (let p = mc_currTrack s;
          track_reason = pt_reason p;
          p1 = p\<lparr>pt_pe := tk_momentum t, pt_ve := tk_position t\<rparr>;
          p2 = (if tk_at_boundary t then or_status G4PARTICLE_SIM_LEFT_DETECTOR p1 else p1);
          p3 = (if cf_at_rest cf (tk_energy t) then or_status G4PARTICLE_SIM_STOPPED p2 else p2);
          reason_mask = (if isSet track_reason G4PARTICLE_STARTED_IN_CALORIMETER \<and>
              (isSet track_reason G4PARTICLE_CREATED_TRACKER_HIT \<or> tk_sensitive t = Some ''tracker'')
            then track_reason OR G4PARTICLE_SIM_BACKSCATTER else track_reason);
          p4 = foldl (\<lambda>p h. uh_end h t p) p3 (cf_userHandlers cf);
          backscatter = isSet reason_mask G4PARTICLE_SIM_BACKSCATTER;
          s1 = s\<lparr>mc_currTrack := p4\<rparr>
      in bindE (if pt_reason p4 \<noteq> 0 \<or> tk_information t \<noteq> None \<or> backscatter then store_track cf s1 t backscatter
                else forget_track s1 t reason_mask)
           (\<lambda>s2. if tk_suspended t then suspend_track cf s2 t else Inr s2))"

subsection \<open>Events\<close>

definition event_generate :: "'d MCState \<Rightarrow> 'd MCState cpp" where
  "event_generate s = mc_clear s"

definition event_begin :: "'d MCState \<Rightarrow> 'd MCState" where
  "event_begin s = s\<lparr>mc_primaryMap := Some (ev_primaryMap s), ev_nextPID := ev_nextPID s + 1, mc_globalParticleID := ev_nextPID s + 1,
     mc_particleMap := [], mc_equivalentTracks := []\<rparr>"

text \<open>Removal of the particles that are not needed, the latest first.\<close>

definition drop_particle :: "'d Settings \<Rightarrow> 'd Particle \<Rightarrow> 'd Particle \<times> bool" where
  "drop_particle cf p = (if cf_userHandlers cf \<noteq> []
     then foldl (\<lambda>(p, r) h. let (p', d) = uh_drop h p in (p', r \<or> d)) (p, False) (cf_userHandlers cf)
     else (p, defaultDropParticle p))"

definition combine_particles :: "'d Settings \<Rightarrow> 'd Particle \<Rightarrow> 'd Particle \<Rightarrow> 'd Particle \<times> 'd Particle" where
  "combine_particles cf p q = foldl (\<lambda>(p, q) h. uh_combine h p q) (p, q) (cf_userHandlers cf)"

definition remove_particle :: "'d Settings \<Rightarrow> 'd MCState \<times> int list \<Rightarrow> int \<Rightarrow> nat \<Rightarrow> 'd Particle \<Rightarrow> ('d MCState \<times> int list) cpp" where
  "remove_particle cf = (\<lambda>(s, remove) g4_id a p.
     let s1 = s\<lparr>mc_equivalentTracks := map_assign g4_id (pt_g4Parent p) (mc_equivalentTracks s)\<rparr>
     in case map_of (mc_particleMap s1) (pt_g4Parent p) of
          None \<Rightarrow> Inr (s1, List.insert g4_id remove)
        | Some b \<Rightarrow> bindE (particle_modify s1 b (\<lambda>q. q\<lparr>pt_reason := pt_reason q OR pt_reason p, pt_steps := pt_steps q + pt_steps p,
                            pt_secondaries := pt_secondaries q + pt_secondaries p\<rparr>)) (\<lambda>s2.
            bindE (particle_get s2 a) (\<lambda>p'. bindE (particle_get s2 b) (\<lambda>q'. let (p'', q'') = combine_particles cf p' q' in
              Inr (particle_put (particle_put s2 a p'') b q'', List.insert g4_id remove)))))"

definition recombine_step :: "'d Settings \<Rightarrow> 'd MCState \<times> int list \<Rightarrow> int \<times> nat \<Rightarrow> ('d MCState \<times> int list) cpp" where
  "recombine_step cf = (\<lambda>(s, remove) (g4_id, a). bindE (particle_get s a) (\<lambda>p0.
     let (p, remove_me) = drop_particle cf p0;
         s1 = particle_put s a p;
         mask = pt_reason p;
         rest = (if remove_me then remove_particle cf (s1, remove) g4_id a p else Inr (s1, remove))
     in if mask = 0 \<or> isSet mask G4PARTICLE_FORCE_KILL then remove_particle cf (s1, remove) g4_id a p
        else if isSet mask G4PARTICLE_KEEP_USER then Inr (s1, remove)
        else if isSet mask G4PARTICLE_PRIMARY then Inr (s1, remove)
        else if isSet mask G4PARTICLE_KEEP_ALWAYS then Inr (s1, remove)
        else if isSet mask G4PARTICLE_KEEP_PARENT then rest
        else if isSet mask G4PARTICLE_KEEP_PROCESS then
          (case map_of (mc_particleMap s1) (pt_g4Parent p) of
             None \<Rightarrow> rest
           | Some b \<Rightarrow> bindE (particle_get s1 b) (\<lambda>q.
               if isSet (pt_reason q) G4PARTICLE_ABOVE_ENERGY_THRESHOLD
               then Inr (particle_put s1 b (or_reason G4PARTICLE_KEEP_PARENT q), remove)
               else rest))
        else rest))"

definition erase_particle :: "'d MCState \<Rightarrow> int \<Rightarrow> 'd MCState cpp" where
  "erase_particle s r = (case map_of (mc_particleMap s) r of
       None \<Rightarrow> Inr s
     | Some a \<Rightarrow> bindE (particle_release s a) (\<lambda>s1. Inr (s1\<lparr>mc_particleMap := map_erase r (mc_particleMap s1)\<rparr>)))"

definition recombineParents :: "'d Settings \<Rightarrow> 'd MCState \<Rightarrow> ('d MCState \<times> nat) cpp" where
  "recombineParents cf s = bindE (foldE (recombine_step cf) (s, []) (rev (mc_particleMap s))) (\<lambda>(s1, remove).
     bindE (foldE erase_particle s1 remove) (\<lambda>s2. Inr (s2, length remove)))"

text \<open>Every pass that removes a particle makes the map smaller, so the passes of \<open>endEvent\<close> come to an end.\<close>

lemma particle_put_frame [simp]:
  "mc_particleMap (particle_put s a p) = mc_particleMap s"
  "mc_equivalentTracks (particle_put s a p) = mc_equivalentTracks s"
  "ev_particles (particle_put s a p) = ev_particles s"
  by (simp_all add: particle_put_def)

lemma particle_modify_Inr: "particle_modify s a f = Inr s' \<longleftrightarrow> (\<exists>p. particle_get s a = Inr p \<and> s' = particle_put s a (f p))"
  by (auto simp: particle_modify_def bindE_Inr_iff)

lemma remove_particle_frame:
  assumes "remove_particle cf (s, remove) g4_id a p = Inr (s', remove')"
  shows "mc_particleMap s' = mc_particleMap s" "remove' = List.insert g4_id remove"
proof -
  let ?s1 = "s\<lparr>mc_equivalentTracks := map_assign g4_id (pt_g4Parent p) (mc_equivalentTracks s)\<rparr>"
  have "mc_particleMap s' = mc_particleMap s \<and> remove' = List.insert g4_id remove"
  proof (cases "map_of (mc_particleMap ?s1) (pt_g4Parent p)")
    case (Some b)
    then show ?thesis using assms
      by (auto simp: remove_particle_def Let_def particle_modify_Inr bindE_Inr_iff case_prod_unfold)
  qed (use assms in \<open>auto simp: remove_particle_def Let_def\<close>)
  then show "mc_particleMap s' = mc_particleMap s" "remove' = List.insert g4_id remove" by simp_all
qed

lemma recombine_step_cases:
  assumes "recombine_step cf (s, remove) (g, a) = Inr (s', remove')"
  obtains (removed) p0 where "particle_get s a = Inr p0"
      "remove_particle cf (particle_put s a (fst (drop_particle cf p0)), remove) g a (fst (drop_particle cf p0)) = Inr (s', remove')"
    | (kept) p0 where "particle_get s a = Inr p0" "s' = particle_put s a (fst (drop_particle cf p0))" "remove' = remove"
    | (marked) p0 b q where "particle_get s a = Inr p0" "map_of (mc_particleMap s) (pt_g4Parent (fst (drop_particle cf p0))) = Some b"
      "particle_get (particle_put s a (fst (drop_particle cf p0))) b = Inr q" "remove' = remove"
      "s' = particle_put (particle_put s a (fst (drop_particle cf p0))) b (or_reason G4PARTICLE_KEEP_PARENT q)"
proof -
  obtain p0 where p0: "particle_get s a = Inr p0" using assms by (auto simp: recombine_step_def bindE_Inr_iff)
  obtain p d where d: "drop_particle cf p0 = (p, d)" by fastforce
  let ?s1 = "particle_put s a p"
  let ?R = "remove_particle cf (?s1, remove) g a p"
  have R: thesis if "?R = Inr (s', remove')" using removed [OF p0] that d by simp
  have K: thesis if "Inr (?s1, remove) = (Inr (s', remove') :: ('a MCState \<times> int list) cpp)" using kept [OF p0] that d by simp
  show thesis
  proof (cases "map_of (mc_particleMap s) (pt_g4Parent p)")
    case None
    have "recombine_step cf (s, remove) (g, a) \<in> {?R, Inr (?s1, remove)}"
      by (simp add: recombine_step_def p0 d Let_def None)
    then show thesis using assms R K by auto
  next
    case (Some b)
    show thesis
    proof (cases "particle_get ?s1 b")
      case (Inl e)
      have "recombine_step cf (s, remove) (g, a) \<in> {?R, Inr (?s1, remove), Inl e}"
        by (simp add: recombine_step_def p0 d Let_def Some Inl)
      then show thesis using assms R K by auto
    next
      case (Inr q)
      have M: thesis if "Inr (particle_put ?s1 b (or_reason G4PARTICLE_KEEP_PARENT q), remove) =
          (Inr (s', remove') :: ('a MCState \<times> int list) cpp)"
        using marked [OF p0, of b q] that d Some Inr by simp
      have "recombine_step cf (s, remove) (g, a) \<in>
          {?R, Inr (?s1, remove), Inr (particle_put ?s1 b (or_reason G4PARTICLE_KEEP_PARENT q), remove)}"
        by (simp add: recombine_step_def p0 d Let_def Some Inr)
      then show thesis using assms R K M by auto
    qed
  qed
qed

lemma recombine_step_frame:
  assumes "recombine_step cf (s, remove) e = Inr (s', remove')"
  shows "mc_particleMap s' = mc_particleMap s" "remove' = remove \<or> remove' = List.insert (fst e) remove"
proof -
  obtain g a where e: "e = (g, a)" by fastforce
  have "mc_particleMap s' = mc_particleMap s \<and> (remove' = remove \<or> remove' = List.insert g remove)"
    using assms unfolding e by (cases rule: recombine_step_cases) (auto dest: remove_particle_frame)
  then show "mc_particleMap s' = mc_particleMap s" "remove' = remove \<or> remove' = List.insert (fst e) remove" by (simp_all add: e)
qed

lemma recombine_steps_frame:
  assumes "foldE (recombine_step cf) (s, remove) es = Inr (s', remove')"
  shows "mc_particleMap s' = mc_particleMap s" "set remove' \<subseteq> set remove \<union> fst ` set es"
proof -
  have "mc_particleMap (fst (s', remove')) = mc_particleMap s \<and> set (snd (s', remove')) \<subseteq> set remove \<union> fst ` set es"
    using assms
  proof (rule foldE_invariant)
    fix x e y assume x: "mc_particleMap (fst x) = mc_particleMap s \<and> set (snd x) \<subseteq> set remove \<union> fst ` set es"
      and e: "e \<in> set es" and y: "recombine_step cf x e = Inr y"
    obtain s1 r1 s2 r2 where xy: "x = (s1, r1)" "y = (s2, r2)" by fastforce
    have "set r2 \<subseteq> insert (fst e) (set r1)" using recombine_step_frame(2) [OF y [unfolded xy]] by auto
    then show "mc_particleMap (fst y) = mc_particleMap s \<and> set (snd y) \<subseteq> set remove \<union> fst ` set es"
      using recombine_step_frame(1) [OF y [unfolded xy]] x e by (auto simp: xy)
  qed simp
  then show "mc_particleMap s' = mc_particleMap s" "set remove' \<subseteq> set remove \<union> fst ` set es" by simp_all
qed

lemma erase_particle_map: "erase_particle s r = Inr s' \<Longrightarrow> mc_particleMap s' = map_erase r (mc_particleMap s)"
proof (induction "map_of (mc_particleMap s) r")
  case None
  then have "r \<notin> fst ` set (mc_particleMap s)" by (simp add: map_of_eq_None_iff [symmetric])
  then have "map_erase r (mc_particleMap s) = mc_particleMap s" unfolding map_erase_def by (intro filter_True) force
  then show ?case using None by (simp add: erase_particle_def)
qed (auto simp: erase_particle_def particle_release_def particle_put_def bindE_Inr_iff split: if_splits option.splits)

lemma erase_particles_map:
  "foldE erase_particle s rs = Inr s' \<Longrightarrow> mc_particleMap s' = filter (\<lambda>(k, a). k \<notin> set rs) (mc_particleMap s)"
proof (induction rs arbitrary: s)
  case (Cons r rs)
  then obtain s1 where s1: "erase_particle s r = Inr s1" "foldE erase_particle s1 rs = Inr s'" by (auto simp: bindE_Inr_iff)
  show ?case unfolding Cons.IH [OF s1(2)] erase_particle_map [OF s1(1)] map_erase_def filter_filter
    by (rule filter_cong) auto
qed simp

lemma recombineParents_map:
  assumes "recombineParents cf s = Inr (s', n)"
  obtains rs where "mc_particleMap s' = filter (\<lambda>(k, a). k \<notin> set rs) (mc_particleMap s)" "set rs \<subseteq> fst ` set (mc_particleMap s)"
    "n = length rs"
proof -
  obtain s1 rs where "foldE (recombine_step cf) (s, []) (rev (mc_particleMap s)) = Inr (s1, rs)" and e: "foldE erase_particle s1 rs = Inr s'"
    and n: "n = length rs" using assms by (auto simp: recombineParents_def bindE_Inr_iff)
  from recombine_steps_frame [OF this(1)] show thesis
    using erase_particles_map [OF e] n by (intro that [of rs]) auto
qed

lemma recombineParents_smaller:
  assumes "recombineParents cf s = Inr (s', n)" and "0 < n"
  shows "length (mc_particleMap s') < length (mc_particleMap s)"
proof -
  obtain rs where rs: "mc_particleMap s' = filter (\<lambda>(k, a). k \<notin> set rs) (mc_particleMap s)" "set rs \<subseteq> fst ` set (mc_particleMap s)"
    "n = length rs" using recombineParents_map [OF assms(1)] .
  then obtain r where "r \<in> set rs" using assms(2) by (cases rs) auto
  then obtain a where "(r, a) \<in> set (mc_particleMap s)" using rs(2) by force
  then show ?thesis unfolding rs(1) using \<open>r \<in> set rs\<close> by (intro length_filter_less [of "(r, a)"]) auto
qed

function recombine_all :: "'d Settings \<Rightarrow> 'd MCState \<Rightarrow> 'd MCState cpp" where
  "recombine_all cf s = (case recombineParents cf s of
       Inl e \<Rightarrow> Inl e
     | Inr (s1, n) \<Rightarrow> if 0 < n then recombine_all cf s1 else Inr s1)"
  by pat_completeness auto
termination by (relation "measure (\<lambda>(cf, s). length (mc_particleMap s))") (auto dest: recombineParents_smaller)

declare recombine_all.simps [simp del]

text \<open>The numbering of the final record.\<close>

definition is_primary :: "'d Particle \<Rightarrow> bool" where
  "is_primary p \<longleftrightarrow> pt_reason p AND G4PARTICLE_PRIMARY = G4PARTICLE_PRIMARY"

definition rebase_generated :: "'d MCState \<times> (int, nat) std_map \<times> int \<Rightarrow> int \<times> nat \<Rightarrow> ('d MCState \<times> (int, nat) std_map \<times> int) cpp" where
  "rebase_generated = (\<lambda>(s, final, count) (k, a). bindE (particle_get s a) (\<lambda>p.
     bindE (if is_primary p then Inr s else particle_addRef s a) (\<lambda>s1.
       Inr (s1, map_assign (pt_id p) a final, if count < pt_id p then pt_id p else count))))"

definition rebase_simulated :: "'d MCState \<times> (int, nat) std_map \<times> int \<Rightarrow> int \<times> nat \<Rightarrow> ('d MCState \<times> (int, nat) std_map \<times> int) cpp" where
  "rebase_simulated = (\<lambda>(s, final, count) (k, a). bindE (particle_get s a) (\<lambda>p.
     if is_primary p then Inr (s, final, count)
     else Inr (particle_put s a (p\<lparr>pt_id := count\<rparr>), map_assign count a final, count + 1)))"

definition rebase_equivalent :: "'d Settings \<Rightarrow> 'd MCState \<Rightarrow> (int, int) std_map \<Rightarrow> int \<times> int \<Rightarrow> (int, int) std_map cpp" where
  "rebase_equivalent cf s equivalents = (\<lambda>(g4_id, parent). case last_stored (mc_particleMap s) (mc_equivalentTracks s) g4_id of
       None \<Rightarrow> Inl endless_loop
     | Some None \<Rightarrow> Inr equivalents
     | Some (Some (k, a)) \<Rightarrow> bindE (particle_get s a) (\<lambda>p.
         if cf_definition cf p then Inr (map_assign g4_id (pt_id p) equivalents) else Inl no_particle))"

definition link_parent :: "(int, nat) std_map \<Rightarrow> (int, int) std_map \<Rightarrow> 'd MCState \<Rightarrow> int \<times> nat \<Rightarrow> 'd MCState cpp" where
  "link_parent final equivalents s = (\<lambda>(k, a). bindE (particle_get s a) (\<lambda>p.
     if pt_g4Parent p > 0 then
       (case map_of equivalents (pt_g4Parent p) of None \<Rightarrow> Inr s
        | Some equiv_id \<Rightarrow> (case map_of final equiv_id of None \<Rightarrow> Inr s
          | Some b \<Rightarrow> bindE (particle_get s b) (\<lambda>q.
              let parents = (if is_primary p then pt_parents p else insert (pt_id q) (pt_parents p)) in
              bindE (particle_modify s a (\<lambda>p. p\<lparr>pt_parents := parents\<rparr>)) (\<lambda>s1.
                if parents \<noteq> {} \<and> Min parents = pt_id q
                then particle_modify s1 b (\<lambda>q. q\<lparr>pt_daughters := insert (pt_id p) (pt_daughters q)\<rparr>)
                else Inr s1))))
     else Inr s))"

definition rebaseSimulatedTracks :: "'d Settings \<Rightarrow> 'd MCState \<Rightarrow> 'd MCState cpp" where
  "rebaseSimulatedTracks cf s =
     bindE (foldE rebase_generated (s, [], 0) (ev_particles s)) (\<lambda>(s1, final1, count1).
     bindE (foldE rebase_simulated (s1, final1, count1 + 1) (mc_particleMap s1)) (\<lambda>(s2, final2, count2).
     bindE (foldE (rebase_equivalent cf s2) [] (mc_equivalentTracks s2)) (\<lambda>equivalents.
     bindE (foldE (link_parent final2 equivalents) s2 final2) (\<lambda>s3.
       Inr (s3\<lparr>mc_equivalentTracks := equivalents, mc_particleMap := final2\<rparr>)))))"

text \<open>The check of the record raises when it finds a problem; the number of problems is only in the message.\<close>

definition particle_consistent :: "'d MCState \<Rightarrow> 'd Particle \<Rightarrow> bool" where
  "particle_consistent s p \<longleftrightarrow>
     (\<forall>d \<in> pt_daughters p. map_of (mc_particleMap s) d \<noteq> None) \<and>
     (\<not> isSet (pt_reason p) G4PARTICLE_PRIMARY \<and> \<not> anySet (pt_status p) G4PARTICLE_GEN_STATUS \<longrightarrow>
        (case map_of (mc_equivalentTracks s) (pt_g4Parent p) of
           None \<Rightarrow> False
         | Some parent_id \<Rightarrow> map_of (mc_particleMap s) parent_id \<noteq> None \<and> parent_id \<in> pt_parents p))"

definition checkConsistency :: "'d MCState \<Rightarrow> unit cpp" where
  "checkConsistency s = bindE (foldE (\<lambda>ok (k, a). bindE (particle_get s a) (\<lambda>p. Inr (ok \<and> particle_consistent s p))) True (mc_particleMap s))
     (\<lambda>ok. if ok then Inr () else Inl (mc_error ''+++ Consistency check failed.''))"

definition tracked_by_geant4 :: "'d Particle \<Rightarrow> bool" where
  "tracked_by_geant4 p \<longleftrightarrow> anySet (pt_status p) (G4PARTICLE_SIM_CREATED OR G4PARTICLE_SIM_BACKSCATTER OR
     G4PARTICLE_SIM_DECAY_TRACKER OR G4PARTICLE_SIM_DECAY_CALO OR G4PARTICLE_SIM_LEFT_DETECTOR OR G4PARTICLE_SIM_STOPPED)"

text \<open>\<open>m_particleMap[id]\<close> adds a null pointer for a parent that is not in the map, which the code then follows.\<close>

definition set_endpoint_bit :: "'d Settings \<Rightarrow> 'd MCState \<Rightarrow> int \<times> nat \<Rightarrow> 'd MCState cpp" where
  "set_endpoint_bit cf s = (\<lambda>(k, a). bindE (particle_get s a) (\<lambda>p.
     if pt_parents p \<noteq> {} \<and> tracked_by_geant4 p then
       (case map_of (mc_particleMap s) (Min (pt_parents p)) of
          None \<Rightarrow> Inl no_particle
        | Some b \<Rightarrow> bindE (particle_get s b) (\<lambda>q.
            if cf_far cf (pt_ve q) (pt_vs p) then particle_modify s a (or_status G4PARTICLE_SIM_PARENT_RADIATED) else Inr s))
     else Inr s))"

definition setVertexEndpointBit :: "'d Settings \<Rightarrow> 'd MCState \<Rightarrow> 'd MCState cpp" where
  "setVertexEndpointBit cf s = foldE (set_endpoint_bit cf) s (mc_particleMap s)"

subsection \<open>The final record\<close>

definition record_clear :: "'d MCState \<Rightarrow> 'd MCState cpp" where
  "record_clear s = bindE (release_particles s (ev_particleMap s)) (\<lambda>s1. Inr (s1\<lparr>ev_particleMap := [], ev_equivalentTracks := []\<rparr>))"

definition record_adopt :: "'d MCState \<Rightarrow> 'd MCState cpp" where
  "record_adopt s = bindE (record_clear s) (\<lambda>s1. Inr (s1\<lparr>ev_particleMap := mc_particleMap s1, ev_equivalentTracks := mc_equivalentTracks s1,
     mc_particleMap := [], mc_equivalentTracks := []\<rparr>))"

definition record_isValid :: "'d MCState \<Rightarrow> bool" where
  "record_isValid s \<longleftrightarrow> ev_equivalentTracks s \<noteq> []"

definition particleID :: "'d MCState \<Rightarrow> int \<Rightarrow> int" where
  "particleID s g4_id = (case map_of (ev_equivalentTracks s) g4_id of Some i \<Rightarrow> i | None \<Rightarrow> - 1)"

definition event_end :: "'d Settings \<Rightarrow> 'd MCState \<Rightarrow> 'd MCState cpp" where
  "event_end cf s = bindE (recombine_all cf s) (\<lambda>s1.
     bindE (rebaseSimulatedTracks cf s1) (\<lambda>s2.
     bindE (checkConsistency s2) (\<lambda>_.
     bindE (setVertexEndpointBit cf s2) (\<lambda>s3.
     bindE (record_adopt s3) (\<lambda>s4. mc_clear (s4\<lparr>mc_primaryMap := None\<rparr>))))))"

end
