(* ===== verification/PrimaryInput.thy ===== *)
theory PrimaryInput
  imports ParticleRecord
begin

text \<open>
  The input of the simulation: \<open>src/DDG4/src/Geant4InputHandling.cpp\<close> with \<open>Geant4Primary.cpp\<close>, \<open>Geant4Vertex.cpp\<close> and
  \<open>Geant4InputAction.cpp\<close>. Readers and generators (\<open>Geant4ParticleGenerator.cpp\<close>, \<open>Geant4ParticleGun.cpp\<close>,
  \<open>Geant4GeneratorWrapper.cpp\<close>) make interactions (particles and vertices with identifiers of
  their own), further actions displace their vertices (\<open>Geant4InteractionVertexSmear.cpp\<close>, \<open>Geant4InteractionVertexBoost.cpp\<close>);
  they are merged into one record with consecutive identifiers, and from the record the primary particles
  are made that Geant4 tracks.

  Particles are the objects of \<open>ParticleRecord\<close>; vertices and Geant4's primary particles are objects of stores of their
  own. Identifiers are unbounded, as there. \<open>abortRun\<close> reports to Geant4 and returns, so that the code after it runs: the report is an entry of
  \<open>in_aborts\<close>. Geant4 and the arithmetic of positions, energies and times are parameters (\<open>InputSettings\<close>), as is the
  reader of an event file. Output is left out.
\<close>

unbundle bit_operations_syntax

subsection \<open>Vertices and interactions\<close>

record 'd Vertex =
  vx_ref :: int
  vx_mask :: int
  vx_pos :: "'d vec"
  vx_time :: 'd
  vx_out :: "int set"
  vx_in :: "int set"

record Interaction =
  ia_vertices :: "(int, nat list) std_map"
  ia_particles :: "(int, nat) std_map"
  ia_mask :: int
  ia_locked :: bool
  ia_next :: int

text \<open>A primary particle of Geant4: how it is defined (by its code or by the definition), its kinematics and its daughters.\<close>

record 'd G4Primary =
  gp_code :: "int option"
  gp_momentum :: "'d vec"
  gp_energy :: 'd
  gp_charge :: "8 word option"
  gp_polarization :: "'d vec option"
  gp_properTime :: "'d option"
  gp_daughters :: "nat list"

text \<open>
  What Geant4 knows of a particle by its code and charge: \<open>is_known\<close>: there is a definition; \<open>is_stable\<close>: that definition is stable;
  \<open>is_encoding\<close>: its code. The arithmetic: \<open>is_energy\<close> is the energy after the correction of \<open>createG4Primary\<close>, from the code, charge,
  momentum and mass; \<open>is_properTime\<close> and \<open>is_zeroTime\<close> are the proper time of a decay and the test whether it is zero within the precision, from
  momentum, mass, time, and the time of the first daughter.
\<close>

record 'd InputSettings =
  is_rejectPDGs :: "int set"
  is_zeroTimePDGs :: "int set"
  is_decayByGeant :: "int set"
  is_known :: "int \<Rightarrow> bool"
  is_stable :: "int \<Rightarrow> 8 word \<Rightarrow> bool"
  is_encoding :: "int \<Rightarrow> int"
  is_energy :: "int \<Rightarrow> 8 word \<Rightarrow> 'd vec \<Rightarrow> 'd \<Rightarrow> 'd"
  is_properTime :: "'d vec \<Rightarrow> 'd \<Rightarrow> 'd \<Rightarrow> 'd \<Rightarrow> 'd"
  is_zeroTime :: "'d vec \<Rightarrow> 'd \<Rightarrow> 'd \<Rightarrow> 'd \<Rightarrow> bool"
  is_nonzero :: "'d \<Rightarrow> bool"
  is_plus :: "'d \<Rightarrow> 'd \<Rightarrow> 'd"
  is_times :: "'d \<Rightarrow> 'd \<Rightarrow> 'd"
  is_minusOne :: 'd
  is_new :: "'d Settings"

definition default_rejectPDGs :: "int set" where "default_rejectPDGs = {1, 2, 3, 4, 5, 6, 21, 23, 24, 25}"
definition default_zeroTimePDGs :: "int set" where "default_zeroTimePDGs = {11, 13, 15, 17}"

text \<open>
  The event: its interactions (\<open>Geant4PrimaryEvent\<close>), the vertices of the merged one (the extension
  \<open>Geant4PrimaryInteraction\<close>, whose particles and next identifier are \<open>ev_particles\<close> and \<open>ev_nextPID\<close>) and whether it is locked,
  the primary particles of Geant4, the vertices Geant4 is given with theirs, and what was reported.
\<close>

record 'd InputState =
  in_mc :: "'d MCState"
  in_vnext :: nat
  in_vertex :: "nat \<Rightarrow> 'd Vertex option"
  in_interactions :: "(int, Interaction) std_map"
  in_vertices :: "(int, nat list) std_map"
  in_locked :: bool
  in_gnext :: nat
  in_g4 :: "nat \<Rightarrow> 'd G4Primary option"
  in_g4vertices :: "('d vec \<times> 'd \<times> nat list) list"
  in_aborts :: "string list"

definition no_vertex :: cpp_error where
  "no_vertex = UndefinedBehaviour ''access through an invalid vertex pointer''"

definition vertex_get :: "'d InputState \<Rightarrow> nat \<Rightarrow> 'd Vertex cpp" where
  "vertex_get s a = (case in_vertex s a of Some v \<Rightarrow> if a = 0 then Inl no_vertex else Inr v | None \<Rightarrow> Inl no_vertex)"

definition vertex_put :: "'d InputState \<Rightarrow> nat \<Rightarrow> 'd Vertex \<Rightarrow> 'd InputState" where
  "vertex_put s a v = s\<lparr>in_vertex := (in_vertex s)(a \<mapsto> v)\<rparr>"

definition vertex_modify :: "'d InputState \<Rightarrow> nat \<Rightarrow> ('d Vertex \<Rightarrow> 'd Vertex) \<Rightarrow> 'd InputState cpp" where
  "vertex_modify s a f = bindE (vertex_get s a) (\<lambda>v. Inr (vertex_put s a (f v)))"

definition vertex_alloc :: "'d InputState \<Rightarrow> 'd Vertex \<Rightarrow> 'd InputState \<times> nat" where
  "vertex_alloc s v = (s\<lparr>in_vnext := Suc (in_vnext s), in_vertex := (in_vertex s)(in_vnext s \<mapsto> v)\<rparr>, in_vnext s)"

definition Vertex_new :: "'d InputSettings \<Rightarrow> 'd Vertex" where
  "Vertex_new cf = (let z = cf_zero (is_new cf) in \<lparr>vx_ref = 1, vx_mask = 0, vx_pos = (z, z, z), vx_time = z, vx_out = {}, vx_in = {}\<rparr>)"

definition Vertex_copy :: "'d Vertex \<Rightarrow> 'd Vertex" where
  "Vertex_copy v = v\<lparr>vx_ref := 1\<rparr>"

definition vertex_addRef :: "'d InputState \<Rightarrow> nat \<Rightarrow> 'd InputState cpp" where
  "vertex_addRef s a = vertex_modify s a (\<lambda>v. v\<lparr>vx_ref := vx_ref v + 1\<rparr>)"

text \<open>The operations on particles, in the input state.\<close>

definition in_particle :: "'d InputState \<Rightarrow> ('d MCState \<Rightarrow> 'd MCState cpp) \<Rightarrow> 'd InputState cpp" where
  "in_particle s f = bindE (f (in_mc s)) (\<lambda>m. Inr (s\<lparr>in_mc := m\<rparr>))"

definition abortRun :: "'d InputState \<Rightarrow> string \<Rightarrow> 'd InputState" where
  "abortRun s m = s\<lparr>in_aborts := in_aborts s @ [m]\<rparr>"

subsection \<open>Primary maps and events\<close>

definition primaryMap_insert :: "'d InputState \<Rightarrow> nat \<Rightarrow> nat \<Rightarrow> 'd InputState cpp" where
  "primaryMap_insert s g a = bindE (in_particle s (\<lambda>m. particle_addRef m a)) (\<lambda>s1.
     Inr (if ev_primaryMap (in_mc s1) g = None
       then s1\<lparr>in_mc := (in_mc s1)\<lparr>ev_primaryMap := (ev_primaryMap (in_mc s1))(g \<mapsto> a)\<rparr>\<rparr> else s1))"

definition primaryMap_get :: "'d InputState \<Rightarrow> nat \<Rightarrow> nat" where
  "primaryMap_get s g = (case ev_primaryMap (in_mc s) g of Some a \<Rightarrow> a | None \<Rightarrow> 0)"

definition Interaction_new :: Interaction where
  "Interaction_new = \<lparr>ia_vertices = [], ia_particles = [], ia_mask = 0, ia_locked = False, ia_next = - 1\<rparr>"

definition interaction_nextPID :: "Interaction \<Rightarrow> Interaction \<times> int" where
  "interaction_nextPID i = (i\<lparr>ia_next := ia_next i + 1\<rparr>, ia_next i + 1)"

text \<open>\<open>setNextPID\<close> of the merged interaction.\<close>

definition setNextPID :: "'d InputState \<Rightarrow> int \<Rightarrow> 'd InputState" where
  "setNextPID s v = s\<lparr>in_mc := (in_mc s)\<lparr>ev_nextPID := v - 1\<rparr>\<rparr>"

definition applyMask :: "'d InputState \<Rightarrow> Interaction \<Rightarrow> 'd InputState cpp" where
  "applyMask s i = bindE (foldE (\<lambda>s (k, a). in_particle s (\<lambda>m. particle_modify m a (\<lambda>p. p\<lparr>pt_mask := word_of_int (ia_mask i)\<rparr>))) s (ia_particles i)) (\<lambda>s1.
     foldE (\<lambda>s v. vertex_modify s v (\<lambda>v. v\<lparr>vx_mask := ia_mask i\<rparr>)) s1 (concat (List.map snd (ia_vertices i))))"

definition event_add :: "'d InputState \<Rightarrow> int \<Rightarrow> Interaction option \<Rightarrow> 'd InputState cpp" where
  "event_add s k i = (case i of
       None \<Rightarrow> Inl (RuntimeError ''+++ CANNOT add invalid Interaction!'')
     | Some i \<Rightarrow> (case map_of (in_interactions s) k of
           None \<Rightarrow> Inr (s\<lparr>in_interactions := map_assign k (i\<lparr>ia_mask := k\<rparr>) (in_interactions s)\<rparr>)
         | Some _ \<Rightarrow> Inl (RuntimeError ''+++ Interaction exists and cannot be added twice!'')))"

definition event_get :: "'d InputState \<Rightarrow> int \<Rightarrow> Interaction option" where
  "event_get s k = map_of (in_interactions s) k"

definition event_interactions :: "'d InputState \<Rightarrow> Interaction list" where
  "event_interactions s = List.map snd (in_interactions s)"

definition generationInitialization :: "'d InputState \<Rightarrow> 'd InputState" where
  "generationInitialization s = setNextPID
     (s\<lparr>in_mc := (in_mc s)\<lparr>ev_primaryMap := Map.empty, ev_particles := [], ev_particleMap := [], ev_equivalentTracks := []\<rparr>,
        in_interactions := [], in_vertices := [], in_locked := False\<rparr>) (- 1)"

subsection \<open>Merging of interactions\<close>

definition particle_offset :: "int \<Rightarrow> 'd Particle \<Rightarrow> 'd Particle" where
  "particle_offset off p = p\<lparr>pt_id := pt_id p + off, pt_daughters := (\<lambda>i. i + off) ` pt_daughters p, pt_parents := (\<lambda>i. i + off) ` pt_parents p\<rparr>"

definition rebase_particle :: "int \<Rightarrow> 'd InputState \<times> int \<Rightarrow> int \<times> nat \<Rightarrow> ('d InputState \<times> int) cpp" where
  "rebase_particle off = (\<lambda>(s, mx_id) (k, a). bindE (particle_get (in_mc s) a) (\<lambda>p.
     let p' = particle_offset off p
     in Inr (s\<lparr>in_mc := particle_put (in_mc s) a p'\<rparr>, if pt_id p' + 1 > mx_id then pt_id p' + 1 else mx_id)))"

definition rebaseParticles :: "'d InputState \<Rightarrow> (int, nat) std_map \<Rightarrow> int \<Rightarrow> ('d InputState \<times> int) cpp" where
  "rebaseParticles s particles off = foldE (rebase_particle off) (s, off) particles"

definition rebase_vertex :: "int \<Rightarrow> 'd Vertex \<Rightarrow> 'd Vertex" where
  "rebase_vertex off v = v\<lparr>vx_in := (\<lambda>i. i + off) ` vx_in v, vx_out := (\<lambda>i. i + off) ` vx_out v\<rparr>"

definition rebaseVertices :: "'d InputState \<Rightarrow> (int, nat list) std_map \<Rightarrow> int \<Rightarrow> 'd InputState cpp" where
  "rebaseVertices s vertices off = foldE (\<lambda>s v. vertex_modify s v (rebase_vertex off)) s (concat (List.map snd vertices))"

text \<open>\<open>vertices[mask].emplace_back(v)\<close>.\<close>

definition vertices_add :: "int \<Rightarrow> nat \<Rightarrow> (int, nat list) std_map \<Rightarrow> (int, nat list) std_map" where
  "vertices_add k v m = map_assign k ((case map_of m k of Some vs \<Rightarrow> vs | None \<Rightarrow> []) @ [v]) m"

definition append_particle :: "'d InputState \<Rightarrow> int \<times> nat \<Rightarrow> 'd InputState cpp" where
  "append_particle = (\<lambda>s (k, a). bindE (particle_get (in_mc s) a) (\<lambda>p. bindE (in_particle s (\<lambda>m. particle_addRef m a)) (\<lambda>s1.
     Inr (s1\<lparr>in_mc := (in_mc s1)\<lparr>ev_particles := fst (map_emplace (pt_id p) a (ev_particles (in_mc s1)))\<rparr>\<rparr>))))"

definition append_vertex :: "int \<Rightarrow> 'd InputState \<Rightarrow> nat \<Rightarrow> 'd InputState cpp" where
  "append_vertex k s v = bindE (vertex_addRef s v) (\<lambda>s1.
     Inr (s1\<lparr>in_vertices := vertices_add k v (in_vertices s1)\<rparr>))"

definition append_vertices :: "int \<Rightarrow> 'd InputState \<Rightarrow> int \<times> nat list \<Rightarrow> 'd InputState cpp" where
  "append_vertices theMask = (\<lambda>s (k, vs). foldE (append_vertex theMask)
     (if map_of (in_vertices s) theMask \<noteq> None then abortRun s ''Duplicate primary interaction identifier!'' else s) vs)"

definition appendInteraction :: "'d InputState \<Rightarrow> Interaction \<Rightarrow> 'd InputState cpp" where
  "appendInteraction s i = bindE (foldE append_particle s (ia_particles i)) (\<lambda>s1. foldE (append_vertices (ia_mask i)) s1 (ia_vertices i))"

definition merge_interaction :: "'d InputState \<times> int \<Rightarrow> Interaction \<Rightarrow> ('d InputState \<times> int) cpp" where
  "merge_interaction = (\<lambda>(s, off) i.
     bindE (applyMask s i) (\<lambda>s1.
     bindE (rebaseParticles s1 (ia_particles i) off) (\<lambda>(s2, off').
     bindE (rebaseVertices s2 (ia_vertices i) off) (\<lambda>s3.
     bindE (appendInteraction s3 i) (\<lambda>s4. Inr (s4, off'))))))"

definition mergeInteractions :: "'d InputState \<Rightarrow> 'd InputState cpp" where
  "mergeInteractions s = bindE (foldE merge_interaction (s, 0) (event_interactions s)) (\<lambda>(s1, off). Inr (setNextPID s1 off))"

subsection \<open>Displacement of an interaction\<close>

definition vec_plus :: "'d InputSettings \<Rightarrow> 'd vec \<Rightarrow> 'd vec \<Rightarrow> 'd vec" where
  "vec_plus cf = (\<lambda>(x, y, z) (dx, dy, dz). (is_plus cf x dx, is_plus cf y dy, is_plus cf z dz))"

definition smear_vertex :: "'d InputSettings \<Rightarrow> 'd vec \<times> 'd \<Rightarrow> 'd Vertex \<Rightarrow> 'd Vertex" where
  "smear_vertex cf = (\<lambda>(d, dt) v. v\<lparr>vx_pos := vec_plus cf (vx_pos v) d, vx_time := is_plus cf (vx_time v) dt\<rparr>)"

definition smear_particle :: "'d InputSettings \<Rightarrow> 'd vec \<times> 'd \<Rightarrow> 'd Particle \<Rightarrow> 'd Particle" where
  "smear_particle cf = (\<lambda>(d, dt) p. p\<lparr>pt_vs := vec_plus cf (pt_vs p) d, pt_ve := vec_plus cf (pt_ve p) d, pt_time := is_plus cf (pt_time p) dt\<rparr>)"

definition smearInteraction :: "'d InputSettings \<Rightarrow> 'd vec \<times> 'd \<Rightarrow> 'd InputState \<Rightarrow> Interaction \<Rightarrow> 'd InputState cpp" where
  "smearInteraction cf d s i =
     bindE (foldE (\<lambda>s v. vertex_modify s v (smear_vertex cf d))
       (if ia_locked i then abortRun s ''Locked interactions may not be smeared!'' else s) (concat (List.map snd (ia_vertices i)))) (\<lambda>s1.
     foldE (\<lambda>s (k, a). in_particle s (\<lambda>m. particle_modify m a (smear_particle cf d))) s1 (ia_particles i))"

text \<open>
  The action that displaces the vertices of one interaction, or of all; \<open>draw n\<close> are the random numbers of its n-th displacement. The
  boost has an angle; the functions of the mathematical library, the constant 1 and the speed of light are parameters.
\<close>

record 'd Boost =
  bo_angle :: 'd
  bo_tan :: "'d \<Rightarrow> 'd"
  bo_sqrt :: "'d \<Rightarrow> 'd"
  bo_divide :: "'d \<Rightarrow> 'd \<Rightarrow> 'd"
  bo_one :: 'd
  bo_light :: 'd

definition vertex_smear :: "'d InputSettings \<Rightarrow> int \<Rightarrow> (nat \<Rightarrow> 'd vec \<times> 'd) \<Rightarrow> 'd InputState \<Rightarrow> 'd InputState cpp" where
  "vertex_smear cf msk draw s =
     (if 0 \<le> msk then (case event_get s msk of None \<Rightarrow> Inr s | Some i \<Rightarrow> smearInteraction cf (draw 0) s i)
      else foldE (\<lambda>s (n, i). smearInteraction cf (draw n) s i) s (enumerate 0 (event_interactions s)))"

definition boost_gamma :: "'d InputSettings \<Rightarrow> 'd Boost \<Rightarrow> 'd" where
  "boost_gamma cf b = bo_sqrt b (is_plus cf (bo_one b) (is_times cf (bo_tan b (bo_angle b)) (bo_tan b (bo_angle b))))"

definition boost_time :: "'d InputSettings \<Rightarrow> 'd Boost \<Rightarrow> 'd \<Rightarrow> 'd \<Rightarrow> 'd" where
  "boost_time cf b x t = is_plus cf (is_times cf (boost_gamma cf b) t) (bo_divide b (is_times cf (bo_tan b (bo_angle b)) x) (bo_light b))"

definition boost_place :: "'d InputSettings \<Rightarrow> 'd Boost \<Rightarrow> 'd \<Rightarrow> 'd \<Rightarrow> 'd" where
  "boost_place cf b x t = is_plus cf (is_times cf (boost_gamma cf b) x) (is_times cf (is_times cf (bo_tan b (bo_angle b)) (bo_light b)) t)"

definition boost_vertex :: "'d InputSettings \<Rightarrow> 'd Boost \<Rightarrow> 'd Vertex \<Rightarrow> 'd Vertex" where
  "boost_vertex cf b v = (case vx_pos v of (x, y, z) \<Rightarrow>
     v\<lparr>vx_pos := (boost_place cf b x (vx_time v), y, z), vx_time := boost_time cf b x (vx_time v)\<rparr>)"

definition boost_particle :: "'d InputSettings \<Rightarrow> 'd Boost \<Rightarrow> 'd Particle \<Rightarrow> 'd Particle" where
  "boost_particle cf b p = (case (pt_vs p, pt_ps p) of ((x, y, z), (px, py, pz)) \<Rightarrow>
     let sqr = (\<lambda>a. is_times cf a a); m = pt_mass p;
         e2 = is_plus cf (is_plus cf (is_plus cf (sqr px) (sqr py)) (sqr pz)) (sqr m)
     in p\<lparr>pt_vs := (boost_place cf b x (pt_time p), y, z), pt_time := boost_time cf b x (pt_time p),
          pt_ps := (is_plus cf (is_times cf (bo_tan b (bo_angle b)) (bo_sqrt b e2)) (is_times cf (boost_gamma cf b) px), py, pz)\<rparr>)"

definition boostInteraction :: "'d InputSettings \<Rightarrow> 'd Boost \<Rightarrow> 'd InputState \<Rightarrow> Interaction \<Rightarrow> 'd InputState cpp" where
  "boostInteraction cf b s i =
     (if ia_locked i then Inr (abortRun s ''Locked interactions may not be boosted!'')
      else if is_nonzero cf (bo_angle b) then
        bindE (foldE (\<lambda>s v. vertex_modify s v (boost_vertex cf b)) s (concat (List.map snd (ia_vertices i)))) (\<lambda>s1.
        foldE (\<lambda>s (k, a). in_particle s (\<lambda>m. particle_modify m a (boost_particle cf b))) s1 (ia_particles i))
      else Inr s)"

definition vertex_boost :: "'d InputSettings \<Rightarrow> int \<Rightarrow> 'd Boost \<Rightarrow> 'd InputState \<Rightarrow> 'd InputState cpp" where
  "vertex_boost cf msk b s =
     (if 0 \<le> msk then (case event_get s msk of None \<Rightarrow> Inr s | Some i \<Rightarrow> boostInteraction cf b s i)
      else foldE (boostInteraction cf b) s (event_interactions s))"

subsection \<open>Reading of an interaction\<close>

text \<open>What the reader of an event has made: vertices and particles, in the order of the file.\<close>

definition G4PARTICLE_GEN_EMPTY :: i32 where "G4PARTICLE_GEN_EMPTY = push_bit 0 1"
definition G4PARTICLE_GEN_STABLE :: i32 where "G4PARTICLE_GEN_STABLE = push_bit 1 1"
definition G4PARTICLE_GEN_DECAYED :: i32 where "G4PARTICLE_GEN_DECAYED = push_bit 2 1"
definition G4PARTICLE_GEN_DOCUMENTATION :: i32 where "G4PARTICLE_GEN_DOCUMENTATION = push_bit 3 1"
definition G4PARTICLE_GEN_BEAM :: i32 where "G4PARTICLE_GEN_BEAM = push_bit 4 1"
definition G4PARTICLE_GEN_OTHER :: i32 where "G4PARTICLE_GEN_OTHER = push_bit 9 1"

lemmas generator_bits = G4PARTICLE_GEN_EMPTY_def G4PARTICLE_GEN_STABLE_def G4PARTICLE_GEN_DECAYED_def
  G4PARTICLE_GEN_DOCUMENTATION_def G4PARTICLE_GEN_BEAM_def G4PARTICLE_GEN_OTHER_def

definition setGeneratorStatus :: "int set \<Rightarrow> int set \<Rightarrow> int \<Rightarrow> i32 \<Rightarrow> i32" where
  "setGeneratorStatus decays stables genStatus status = status OR
     (if genStatus = 0 then G4PARTICLE_GEN_EMPTY
      else if genStatus = 1 then G4PARTICLE_GEN_STABLE
      else if genStatus = 2 then G4PARTICLE_GEN_DECAYED
      else if genStatus = 3 then G4PARTICLE_GEN_DOCUMENTATION
      else if genStatus = 4 then G4PARTICLE_GEN_BEAM
      else if genStatus \<in> decays then G4PARTICLE_GEN_DECAYED
      else if genStatus \<in> stables then G4PARTICLE_GEN_STABLE
      else G4PARTICLE_GEN_OTHER)"

definition read_particle :: "'d InputSettings \<Rightarrow> 'd \<Rightarrow> 'd InputState \<times> Interaction \<Rightarrow> nat \<Rightarrow> ('d InputState \<times> Interaction) cpp" where
  "read_particle cf mom_scale = (\<lambda>(s, i) a. bindE (particle_get (in_mc s) a) (\<lambda>p.
     let p' = p\<lparr>pt_ps := (case pt_ps p of (x, y, z) \<Rightarrow> (is_times cf mom_scale x, is_times cf mom_scale y, is_times cf mom_scale z))\<rparr>
     in Inr (s\<lparr>in_mc := particle_put (in_mc s) a p'\<rparr>, i\<lparr>ia_particles := fst (map_emplace (pt_id p) a (ia_particles i))\<rparr>)))"

definition read_interaction :: "'d InputSettings \<Rightarrow> 'd \<Rightarrow> 'd InputState \<Rightarrow> int \<Rightarrow> nat list \<Rightarrow> nat list \<Rightarrow> 'd InputState cpp" where
  "read_interaction cf mom_scale s k vertices primaries =
     bindE (event_add s k (Some Interaction_new)) (\<lambda>s1.
       if primaries = [] \<or> vertices = [] then Inr s1
       else let i = Interaction_new\<lparr>ia_mask := k, ia_vertices := [(k, vertices)]\<rparr>
         in bindE (foldE (read_particle cf mom_scale) (s1, i) primaries) (\<lambda>(s2, i2).
              Inr (s2\<lparr>in_interactions := map_assign k i2 (in_interactions s2)\<rparr>)))"

subsection \<open>Primary particles of Geant4\<close>

definition no_definition :: cpp_error where
  "no_definition = UndefinedBehaviour ''access through an invalid particle definition''"

definition pm_get :: "(int, nat) std_map \<Rightarrow> int \<Rightarrow> nat cpp" where
  "pm_get pm k = (case map_of pm k of Some a \<Rightarrow> Inr a | None \<Rightarrow> Inl no_particle)"

definition has_definition :: "'d InputSettings \<Rightarrow> 'd Particle \<Rightarrow> bool" where
  "has_definition cf p = is_known cf (pt_pdgID p)"

definition stable_definition :: "'d InputSettings \<Rightarrow> 'd Particle \<Rightarrow> bool" where
  "stable_definition cf p = is_stable cf (pt_pdgID p) (pt_charge p)"

definition proper_time :: "'d InputSettings \<Rightarrow> 'd Particle \<Rightarrow> 'd Particle \<Rightarrow> 'd" where
  "proper_time cf p d = is_properTime cf (pt_ps p) (pt_mass p) (pt_time p) (pt_time d)"

definition isProperTimeZero :: "'d InputSettings \<Rightarrow> 'd Particle \<Rightarrow> 'd Particle \<Rightarrow> bool" where
  "isProperTimeZero cf p d = is_zeroTime cf (pt_ps p) (pt_mass p) (pt_time p) (pt_time d)"

definition createG4Primary :: "'d InputSettings \<Rightarrow> 'd Particle \<Rightarrow> 'd G4Primary cpp" where
  "createG4Primary cf p =
     (let g4 = \<lparr>gp_code = None, gp_momentum = pt_ps p, gp_energy = is_energy cf (pt_pdgID p) (pt_charge p) (pt_ps p) (pt_mass p), gp_charge = None, gp_polarization = None,
                gp_properTime = None, gp_daughters = []\<rparr>;
          polarize = (\<lambda>g. case pt_spin p of (x, y, z) \<Rightarrow>
            if is_nonzero cf x \<or> is_nonzero cf y \<or> is_nonzero cf z then g\<lparr>gp_polarization := Some (x, y, z)\<rparr> else g)
      in if pt_pdgID p \<noteq> 0 then
           (if pt_pdgID p < 1000000000 then Inr (polarize (g4\<lparr>gp_code := Some (pt_pdgID p)\<rparr>))
            else if has_definition cf p then Inr (polarize (g4\<lparr>gp_code := Some (is_encoding cf (pt_pdgID p))\<rparr>))
            else Inl no_definition)
         else Inr (polarize (g4\<lparr>gp_charge := Some (pt_charge p)\<rparr>)))"

text \<open>The particles that were visited, the primary particle of each, and the primary particles made.\<close>

record 'd PrimaryState =
  ps_visited :: "int set"
  ps_prim :: "(int, nat) std_map"
  ps_next :: nat
  ps_g4 :: "nat \<Rightarrow> 'd G4Primary option"

definition new_primary :: "'d PrimaryState \<Rightarrow> int \<Rightarrow> 'd G4Primary \<Rightarrow> 'd PrimaryState \<times> nat" where
  "new_primary g k p4 = (g\<lparr>ps_prim := map_assign k (ps_next g) (ps_prim g), ps_next := Suc (ps_next g),
     ps_g4 := (ps_g4 g)(ps_next g \<mapsto> p4)\<rparr>, ps_next g)"

definition set_daughters :: "'d PrimaryState \<Rightarrow> nat \<Rightarrow> nat list \<Rightarrow> 'd PrimaryState" where
  "set_daughters g x ds = g\<lparr>ps_g4 := (ps_g4 g)(x := map_option (\<lambda>q. q\<lparr>gp_daughters := gp_daughters q @ ds\<rparr>) (ps_g4 g x))\<rparr>"

text \<open>Whether a stable particle is left out, and whether a decayed one is, with its first daughter.\<close>

definition reject_stable :: "'d InputSettings \<Rightarrow> 'd Particle \<Rightarrow> bool" where
  "reject_stable cf p \<longleftrightarrow> \<bar>pt_pdgID p\<bar> \<in> is_rejectPDGs cf"

definition reject_decayed :: "'d InputSettings \<Rightarrow> 'd Particle \<Rightarrow> 'd Particle \<Rightarrow> bool" where
  "reject_decayed cf p d \<longleftrightarrow> \<not> has_definition cf p \<or> \<bar>pt_pdgID p\<bar> \<in> is_rejectPDGs cf \<or> (isProperTimeZero cf p d \<and> stable_definition cf p) \<or>
     (isProperTimeZero cf p d \<and> \<bar>pt_pdgID p\<bar> \<in> is_zeroTimePDGs cf) \<or>
     isSet (pt_status p) G4PARTICLE_GEN_DOCUMENTATION \<or> isSet (pt_status p) G4PARTICLE_GEN_BEAM \<or> isSet (pt_status p) G4PARTICLE_GEN_OTHER"

text \<open>The loops over the daughters; \<open>rec\<close> is the recursive call.\<close>

definition relevant_daughters :: "('d PrimaryState \<Rightarrow> nat \<Rightarrow> ('d PrimaryState \<times> (nat \<times> nat) list) cpp) \<Rightarrow> (int, nat) std_map \<Rightarrow>
    'd PrimaryState \<Rightarrow> int list \<Rightarrow> ('d PrimaryState \<times> (nat \<times> nat) list) cpp" where
  "relevant_daughters rec pm g ds = foldE (\<lambda>(g, res) i. if i \<in> ps_visited g then Inr (g, res)
     else bindE (pm_get pm i) (\<lambda>a. bindE (rec g a) (\<lambda>(g', tmp). Inr (g', res @ tmp)))) (g, []) ds"

primrec getRelevant :: "nat \<Rightarrow> 'd InputSettings \<Rightarrow> 'd MCState \<Rightarrow> (int, nat) std_map \<Rightarrow>
    'd PrimaryState \<Rightarrow> nat \<Rightarrow> ('d PrimaryState \<times> (nat \<times> nat) list) cpp" where
  "getRelevant 0 cf s pm g a = Inl endless_loop"
| "getRelevant (Suc n) cf s pm g a = bindE (particle_get s a) (\<lambda>p.
     let g1 = g\<lparr>ps_visited := insert (pt_id p) (ps_visited g)\<rparr>; dau = sorted_list_of_set (pt_daughters p) in
     if isSet (pt_status p) G4PARTICLE_GEN_STABLE then
       (if \<not> reject_stable cf p \<and> map_of (ps_prim g1) (pt_id p) = None
        then bindE (createG4Primary cf p) (\<lambda>p4. let (g2, x) = new_primary g1 (pt_id p) p4 in Inr (g2, [(a, x)]))
        else Inr (g1, []))
     else if pt_daughters p \<noteq> {} then
       bindE (pm_get pm (Min (pt_daughters p))) (\<lambda>b. bindE (particle_get s b) (\<lambda>d.
         if reject_decayed cf p d then relevant_daughters (getRelevant n cf s pm) pm g1 dau
         else if stable_definition cf p then Inl (RuntimeError ''Cannot Simmulate this MC Record'')
         else (case map_of (ps_prim g1) (pt_id p) of
             Some x \<Rightarrow> Inr (g1, [(a, x)])
           | None \<Rightarrow> bindE (createG4Primary cf p) (\<lambda>p4.
               let t = (if \<bar>pt_pdgID p\<bar> \<in> is_decayByGeant cf then is_minusOne cf else proper_time cf p d);
                   (g2, x) = new_primary g1 (pt_id p) (p4\<lparr>gp_properTime := Some t\<rparr>)
               in bindE (relevant_daughters (getRelevant n cf s pm) pm g2 dau) (\<lambda>(g3, daughters).
                    Inr (set_daughters g3 x (List.map snd daughters), [(a, x)]))))))
     else Inr (g1, []))"

declare getRelevant.simps [simp del]

subsection \<open>Generation of the primary vertices\<close>

text \<open>The particles of one vertex; \<open>fuel\<close> bounds the depth of the decays that are followed.\<close>

definition mark_primary :: "'d InputState \<Rightarrow> nat \<times> nat \<Rightarrow> 'd InputState cpp" where
  "mark_primary s = (\<lambda>(a, x). in_particle s (\<lambda>m. particle_modify m a (or_reason G4PARTICLE_PRIMARY)))"

definition generate_particle :: "nat \<Rightarrow> 'd InputSettings \<Rightarrow> 'd InputState \<times> 'd PrimaryState \<times> nat list \<Rightarrow> int \<Rightarrow>
    ('d InputState \<times> 'd PrimaryState \<times> nat list) cpp" where
  "generate_particle fuel cf = (\<lambda>(s, g, xs) i.
     bindE (pm_get (ev_particles (in_mc s)) i) (\<lambda>a.
     bindE (particle_get (in_mc s) a) (\<lambda>p.
     bindE (if pt_daughters p \<noteq> {} then in_particle s (\<lambda>m. particle_modify m a (or_reason G4PARTICLE_HAS_SECONDARIES)) else Inr s) (\<lambda>s1.
     if pt_parents p = {} then
       bindE (getRelevant fuel cf (in_mc s1) (ev_particles (in_mc s1)) g a) (\<lambda>(g1, relevant).
       bindE (foldE mark_primary s1 relevant) (\<lambda>s2. Inr (s2, g1, xs @ List.map snd relevant)))
     else Inr (s1, g, xs)))))"

definition generate_vertex :: "nat \<Rightarrow> 'd InputSettings \<Rightarrow> 'd InputState \<times> 'd PrimaryState \<Rightarrow> nat \<Rightarrow> ('d InputState \<times> 'd PrimaryState) cpp" where
  "generate_vertex fuel cf = (\<lambda>(s, g) a.
     bindE (vertex_get s a) (\<lambda>v.
     bindE (foldE (generate_particle fuel cf) (s, g, []) (sorted_list_of_set (vx_out v))) (\<lambda>(s1, g1, xs).
       Inr (s1\<lparr>in_g4vertices := in_g4vertices s1 @ [(vx_pos v, vx_time v, xs)]\<rparr>, g1))))"

definition insert_primary :: "(int, nat) std_map \<Rightarrow> 'd InputState \<Rightarrow> int \<times> nat \<Rightarrow> 'd InputState cpp" where
  "insert_primary pm = (\<lambda>s (k, x). bindE (pm_get pm k) (primaryMap_insert s x))"

definition generatePrimaries :: "'d InputSettings \<Rightarrow> 'd InputState \<Rightarrow> ('d InputState \<times> int) cpp" where
  "generatePrimaries cf s =
     (if in_locked s then Inr (abortRun s ''Locked interactions may not be used to generate primaries!'', 0)
      else let g = \<lparr>ps_visited = {}, ps_prim = [], ps_next = in_gnext s, ps_g4 = in_g4 s\<rparr>; fuel = Suc (length (ev_particles (in_mc s))) in
        bindE (foldE (generate_vertex fuel cf) (s, g) (concat (List.map snd (in_vertices s)))) (\<lambda>(s1, g1).
        bindE (foldE (insert_primary (ev_particles (in_mc s1)))
            (s1\<lparr>in_gnext := ps_next g1, in_g4 := ps_g4 g1\<rparr>) (ps_prim g1)) (\<lambda>s2. Inr (s2, 1))))"

subsection \<open>Import of an interaction of Geant4\<close>

text \<open>
  A primary particle of Geant4 with the particles of its decay, by its address; \<open>charge3\<close> is \<open>int(3.0 * GetCharge())\<close>. A primary
  vertex is its position, its time and its particles.
\<close>

datatype 'd G4Tree = G4Tree (g4_address: nat) (g4_code: int) (g4_momentum: "'d vec") (g4_properTime: 'd) (g4_mass: 'd)
  (g4_charge3: "8 word") (g4_decay: "'d G4Tree list")

definition createPrimary_vertex :: "'d InputSettings \<Rightarrow> 'd vec \<Rightarrow> 'd \<Rightarrow> 'd Vertex" where
  "createPrimary_vertex cf pos t = (Vertex_new cf)\<lparr>vx_pos := pos, vx_time := t\<rparr>"

definition createPrimary_particle :: "'d InputSettings \<Rightarrow> int \<Rightarrow> 'd Vertex \<Rightarrow> 'd G4Tree \<Rightarrow> 'd Particle" where
  "createPrimary_particle cf pid v g = (let z = cf_zero (is_new cf) in
     or_status G4PARTICLE_GEN_STABLE ((Particle_new (is_new cf))\<lparr>pt_id := pid, pt_reason := 0, pt_pdgID := g4_code g, pt_ps := g4_momentum g,
       pt_time := g4_properTime g, pt_properTime := g4_properTime g, pt_vs := vx_pos v, pt_ve := vx_pos v, pt_spin := (z, z, z),
       pt_colorFlow := (0, snd (pt_colorFlow (Particle_new (is_new cf)))), pt_mass := g4_mass g, pt_charge := g4_charge3 g\<rparr>))"

text \<open>\<open>collect_particle\<close> is \<open>collectPrimaries\<close> up to the loop over the decay products, for a particle that is not known yet.\<close>

definition collect_particle :: "'d InputSettings \<Rightarrow> 'd InputState \<times> Interaction \<Rightarrow> nat \<Rightarrow> 'd G4Tree \<Rightarrow> ('d InputState \<times> Interaction \<times> nat) cpp" where
  "collect_particle cf = (\<lambda>(s, i) o_v g. bindE (vertex_get s o_v) (\<lambda>v.
     let pid = int (length (ia_particles i));
         p = or_status G4PARTICLE_PRIMARY ((createPrimary_particle cf pid v g)\<lparr>pt_mask := word_of_int (ia_mask i)\<rparr>);
         (m1, a) = particle_alloc (in_mc s) p;
         i1 = i\<lparr>ia_particles := fst (map_emplace pid a (ia_particles i))\<rparr>
     in bindE (vertex_modify (s\<lparr>in_mc := m1\<rparr>) o_v (\<lambda>v. v\<lparr>vx_out := insert pid (vx_out v)\<rparr>)) (\<lambda>s1.
        bindE (primaryMap_insert s1 (g4_address g) a) (\<lambda>s2.
          if g4_decay g = [] then Inr (s2, i1, o_v)
          else bindE (in_particle s2 (\<lambda>m. particle_modify m a (or_reason G4PARTICLE_HAS_SECONDARIES))) (\<lambda>s3.
               bindE (vertex_get s3 o_v) (\<lambda>w.
                 let (s4, dv) = vertex_alloc s3 ((Vertex_copy w)\<lparr>vx_mask := ia_mask i, vx_in := insert pid (vx_in w)\<rparr>)
                 in Inr (s4, i1\<lparr>ia_vertices := vertices_add (ia_mask i) dv (ia_vertices i1)\<rparr>, dv)))))))"

fun collectPrimaries :: "'d InputSettings \<Rightarrow> 'd InputState \<times> Interaction \<Rightarrow> nat \<Rightarrow> 'd G4Tree \<Rightarrow> ('d InputState \<times> Interaction) cpp"
  and collect_decay :: "'d InputSettings \<Rightarrow> 'd InputState \<times> Interaction \<Rightarrow> nat \<Rightarrow> 'd G4Tree list \<Rightarrow> ('d InputState \<times> Interaction) cpp" where
  "collectPrimaries cf (s, i) v (G4Tree x c mom t m q gs) =
     (if primaryMap_get s x \<noteq> 0 then Inr (s, i)
      else bindE (collect_particle cf (s, i) v (G4Tree x c mom t m q gs)) (\<lambda>(s1, i1, dv). collect_decay cf (s1, i1) dv gs))"
| "collect_decay cf si v [] = Inr si"
| "collect_decay cf si v (g # gs) = bindE (collectPrimaries cf si v g) (\<lambda>si1. collect_decay cf si1 v gs)"

definition import_vertex :: "'d InputSettings \<Rightarrow> 'd InputState \<times> Interaction \<Rightarrow> 'd vec \<times> 'd \<times> 'd G4Tree list \<Rightarrow> ('d InputState \<times> Interaction) cpp" where
  "import_vertex cf = (\<lambda>(s, i) (pos, t, gs).
     let (s1, v) = vertex_alloc s ((createPrimary_vertex cf pos t)\<lparr>vx_mask := ia_mask i\<rparr>)
     in foldE (\<lambda>si g. collectPrimaries cf si v g) (s1, i\<lparr>ia_vertices := vertices_add (ia_mask i) v (ia_vertices i)\<rparr>) gs)"

definition createPrimary :: "'d InputSettings \<Rightarrow> 'd InputState \<Rightarrow> int \<Rightarrow> ('d vec \<times> 'd \<times> 'd G4Tree list) list \<Rightarrow> ('d InputState \<times> Interaction) cpp" where
  "createPrimary cf s msk gvs = foldE (import_vertex cf) (s, Interaction_new\<lparr>ia_locked := True, ia_mask := msk\<rparr>) gvs"

text \<open>The generator action of Geant4's own generators; the generator itself has made the vertices \<open>gvs\<close>.\<close>

definition generator_wrapper :: "'d InputSettings \<Rightarrow> 'd InputState \<Rightarrow> int \<Rightarrow> ('d vec \<times> 'd \<times> 'd G4Tree list) list \<Rightarrow> 'd InputState cpp" where
  "generator_wrapper cf s msk gvs = bindE (createPrimary cf s msk gvs) (\<lambda>(s1, i). event_add s1 msk (Some i))"

subsection \<open>The particle generator\<close>

text \<open>
  \<open>gn_definition\<close>: code, mass and three times the charge of the particle, when Geant4 knows its name; \<open>gn_particle i\<close>: momentum
  and spin of the i-th particle, with the random numbers drawn, or nothing for an optical photon without momentum.
\<close>

record 'd Generator =
  gn_mask :: int
  gn_multiplicity :: nat
  gn_definition :: "(int \<times> 'd \<times> 8 word) option"
  gn_position :: "'d vec"
  gn_particle :: "nat \<Rightarrow> ('d vec \<times> 'd vec) option"

definition generated_particle :: "'d InputSettings \<Rightarrow> 'd Generator \<Rightarrow> int \<times> 'd \<times> 8 word \<Rightarrow> int \<Rightarrow> 'd vec \<Rightarrow> 'd vec \<Rightarrow> 'd Particle" where
  "generated_particle cf gn d pid mom spin = (case d of (pdg, mass, charge) \<Rightarrow>
     (or_status G4PARTICLE_GEN_STABLE (Particle_new (is_new cf)))\<lparr>pt_id := pid, pt_mask := word_of_int (gn_mask gn), pt_pdgID := pdg, pt_ps := mom,
       pt_mass := mass, pt_charge := charge, pt_spin := spin, pt_colorFlow := (0, 0), pt_vs := gn_position gn\<rparr>)"

definition generator_step :: "'d InputSettings \<Rightarrow> 'd Generator \<Rightarrow> int \<times> 'd \<times> 8 word \<Rightarrow> nat \<Rightarrow> 'd InputState \<times> Interaction \<Rightarrow> nat \<Rightarrow> ('d InputState \<times> Interaction) cpp" where
  "generator_step cf gn d v = (\<lambda>(s, i) n. let (i1, pid) = interaction_nextPID i in
     case gn_particle gn n of
       None \<Rightarrow> Inl (RuntimeError ''Cannot assign polarization to optical photon with zero momentum!'')
     | Some (mom, spin) \<Rightarrow>
         let (m1, a) = particle_alloc (in_mc s) (generated_particle cf gn d pid mom spin)
         in bindE (vertex_modify (s\<lparr>in_mc := m1\<rparr>) v (\<lambda>v. v\<lparr>vx_out := insert pid (vx_out v)\<rparr>)) (\<lambda>s1.
              Inr (s1, i1\<lparr>ia_particles := fst (map_emplace pid a (ia_particles i1))\<rparr>)))"

definition particle_generator :: "'d InputSettings \<Rightarrow> 'd Generator \<Rightarrow> 'd InputState \<Rightarrow> 'd InputState cpp" where
  "particle_generator cf gn s = (case gn_definition gn of
       None \<Rightarrow> Inl (RuntimeError ''Bad particle type!'')
     | Some d \<Rightarrow>
         bindE (event_add s (gn_mask gn) (Some Interaction_new)) (\<lambda>s1.
         let (s2, v) = vertex_alloc s1 ((Vertex_new cf)\<lparr>vx_mask := gn_mask gn, vx_pos := gn_position gn\<rparr>);
             i = Interaction_new\<lparr>ia_mask := gn_mask gn, ia_vertices := [(gn_mask gn, [v])]\<rparr>
         in bindE (foldE (generator_step cf gn d v) (s2, i) [0..<gn_multiplicity gn]) (\<lambda>(s3, i3).
              Inr (s3\<lparr>in_interactions := map_assign (gn_mask gn) i3 (in_interactions s3)\<rparr>))))"

text \<open>The particle gun: standing alone it initializes the event, merges its one interaction and hands it over, with the default configuration.\<close>

definition default_config :: "'d InputSettings \<Rightarrow> 'd InputSettings" where
  "default_config cf = cf\<lparr>is_rejectPDGs := default_rejectPDGs, is_zeroTimePDGs := default_zeroTimePDGs, is_decayByGeant := {}\<rparr>"

definition particle_gun :: "'d InputSettings \<Rightarrow> 'd Generator \<Rightarrow> bool \<Rightarrow> 'd InputState \<Rightarrow> 'd InputState cpp" where
  "particle_gun cf gn standalone s =
     bindE (particle_generator cf gn (if standalone then generationInitialization s else s)) (\<lambda>s1.
       if standalone then bindE (mergeInteractions s1) (\<lambda>s2. bindE (generatePrimaries (default_config cf) s2) (\<lambda>(s3, _). Inr s3))
       else Inr s1)"

end
