(* ===== verification/PrimaryGeneration.thy ===== *)
theory PrimaryGeneration
  imports PrimaryInput MapMultiset
begin

text \<open>
  What the generation of primary particles does with the merged record: which particles of the generator are given to Geant4, under
  which vertex or decay, and that each is given once.
\<close>

section \<open>The record of the generator\<close>

definition pv :: "'d MCState \<Rightarrow> (int, nat) std_map \<Rightarrow> int \<Rightarrow> 'd Particle option" where
  "pv m pm k = Option.bind (map_of pm k) (mc_heap m)"

text \<open>Particles whose decay products are looked at, those that are given to Geant4, and those the code refuses.\<close>

definition decays_followed :: "'d Particle \<Rightarrow> bool" where
  "decays_followed p \<longleftrightarrow> \<not> isSet (pt_status p) G4PARTICLE_GEN_STABLE \<and> pt_daughters p \<noteq> {}"

definition first_daughter :: "(int \<Rightarrow> 'd Particle option) \<Rightarrow> 'd Particle \<Rightarrow> 'd Particle" where
  "first_daughter V p = the (V (Min (pt_daughters p)))"

definition relevant :: "'d InputSettings \<Rightarrow> (int \<Rightarrow> 'd Particle option) \<Rightarrow> 'd Particle \<Rightarrow> bool" where
  "relevant cf V p \<longleftrightarrow> (if isSet (pt_status p) G4PARTICLE_GEN_STABLE then \<not> reject_stable cf p
     else pt_daughters p \<noteq> {} \<and> \<not> reject_decayed cf p (first_daughter V p))"

definition inconsistent :: "'d InputSettings \<Rightarrow> (int \<Rightarrow> 'd Particle option) \<Rightarrow> 'd Particle \<Rightarrow> bool" where
  "inconsistent cf V p \<longleftrightarrow> decays_followed p \<and> relevant cf V p \<and> stable_definition cf p"

text \<open>The relation that is followed, and the part of it below particles that are left out.\<close>

definition follows :: "(int \<Rightarrow> 'd Particle option) \<Rightarrow> (int \<times> int) set" where
  "follows V = {(k, d). \<exists>p. V k = Some p \<and> decays_followed p \<and> d \<in> pt_daughters p}"

definition through :: "'d InputSettings \<Rightarrow> (int \<Rightarrow> 'd Particle option) \<Rightarrow> (int \<times> int) set" where
  "through cf V = {(k, d). \<exists>p. V k = Some p \<and> decays_followed p \<and> \<not> relevant cf V p \<and> d \<in> pt_daughters p}"

text \<open>The primary particle of Geant4 for a particle of the generator, up to its decay products.\<close>

definition primary_of :: "'d InputSettings \<Rightarrow> (int \<Rightarrow> 'd Particle option) \<Rightarrow> 'd Particle \<Rightarrow> 'd G4Primary \<Rightarrow> bool" where
  "primary_of cf V p q \<longleftrightarrow> (\<exists>p4. createG4Primary cf p = Inr p4 \<and> q\<lparr>gp_daughters := []\<rparr> =
     (if isSet (pt_status p) G4PARTICLE_GEN_STABLE then p4
      else p4\<lparr>gp_properTime := Some (if \<bar>pt_pdgID p\<bar> \<in> is_decayByGeant cf then is_minusOne cf else proper_time cf p (first_daughter V p))\<rparr>))"

definition record_ok :: "'d InputSettings \<Rightarrow> 'd MCState \<Rightarrow> (int, nat) std_map \<Rightarrow> bool" where
  "record_ok cf m pm \<longleftrightarrow> map_ok pm \<and> (\<forall>(k, a) \<in> set pm. a \<noteq> 0 \<and> (\<exists>p. mc_heap m a = Some p \<and> pt_id p = k \<and>
     pt_daughters p \<subseteq> fst ` set pm \<and> (pt_pdgID p < 1000000000 \<or> has_definition cf p)))"

lemma record_particle:
  assumes "record_ok cf m pm" and "map_of pm k = Some a"
  shows "\<exists>p. pv m pm k = Some p \<and> particle_get m a = Inr p \<and> pt_id p = k \<and> finite (pt_daughters p) \<and> pt_daughters p \<subseteq> fst ` set pm \<and>
    (\<exists>p4. createG4Primary cf p = Inr p4 \<and> gp_daughters p4 = [])"
proof -
  have "(k, a) \<in> set pm" using assms by (simp add: record_ok_def map_of_mem)
  then obtain p where p: "a \<noteq> 0" "mc_heap m a = Some p" "pt_id p = k" "pt_daughters p \<subseteq> fst ` set pm" "pt_pdgID p < 1000000000 \<or> has_definition cf p"
    using assms(1) by (auto simp: record_ok_def)
  have "finite (pt_daughters p)" by (rule finite_subset [OF p(4)]) simp
  moreover have "\<exists>p4. createG4Primary cf p = Inr p4 \<and> gp_daughters p4 = []"
    using p(5) by (auto simp: createG4Primary_def Let_def split: prod.split)
  ultimately show ?thesis using p assms(2) by (simp add: pv_def particle_get_def)
qed

section \<open>What one search has done\<close>

definition prim_ok :: "'d PrimaryState \<Rightarrow> bool" where
  "prim_ok g \<longleftrightarrow> map_ok (ps_prim g) \<and> fst ` set (ps_prim g) \<subseteq> ps_visited g"

definition daughters_of :: "'d PrimaryState \<Rightarrow> nat \<Rightarrow> nat list" where
  "daughters_of g x = (case ps_g4 g x of Some q \<Rightarrow> gp_daughters q | None \<Rightarrow> [])"

definition given :: "'d PrimaryState \<Rightarrow> nat \<Rightarrow> nat \<Rightarrow> nat list" where
  "given g lo hi = concat (List.map (daughters_of g) [lo..<hi])"

definition entered :: "(int \<Rightarrow> 'd Particle option) \<Rightarrow> 'd InputSettings \<Rightarrow> 'd PrimaryState \<Rightarrow> int \<Rightarrow> nat \<Rightarrow> bool" where
  "entered V cf g k x \<longleftrightarrow> (\<exists>p q. V k = Some p \<and> relevant cf V p \<and> ps_g4 g x = Some q \<and> primary_of cf V p q \<and>
     (\<forall>y \<in> set (gp_daughters q). decays_followed p \<and> (\<exists>k'. map_of (ps_prim g) k' = Some y \<and> k' \<in> (through cf V)\<^sup>* `` pt_daughters p)))"

definition searched :: "'d InputSettings \<Rightarrow> (int \<Rightarrow> 'd Particle option) \<Rightarrow> int set \<Rightarrow> 'd PrimaryState \<Rightarrow> 'd PrimaryState \<Rightarrow> bool" where
  "searched cf V D g g' \<longleftrightarrow> prim_ok g' \<and> ps_visited g \<subseteq> ps_visited g' \<and> map_of (ps_prim g) \<subseteq>\<^sub>m map_of (ps_prim g') \<and>
     ps_next g \<le> ps_next g' \<and> (\<forall>x < ps_next g. ps_g4 g' x = ps_g4 g x) \<and>
     (\<forall>k \<in> ps_visited g' - ps_visited g. k \<in> (follows V)\<^sup>* `` D \<and>
        (\<exists>p. V k = Some p \<and> (decays_followed p \<longrightarrow> pt_daughters p \<subseteq> ps_visited g') \<and> (relevant cf V p \<longrightarrow> map_of (ps_prim g') k \<noteq> None))) \<and>
     (\<forall>k x. map_of (ps_prim g') k = Some x \<longrightarrow> map_of (ps_prim g) k = None \<longrightarrow> k \<notin> ps_visited g \<and> ps_next g \<le> x \<and> x < ps_next g' \<and> entered V cf g' k x) \<and>
     mset (List.map snd (ps_prim g')) = mset (List.map snd (ps_prim g)) + mset [ps_next g..<ps_next g']"

definition found :: "'d InputSettings \<Rightarrow> 'd MCState \<Rightarrow> (int, nat) std_map \<Rightarrow> int set \<Rightarrow> 'd PrimaryState \<Rightarrow> 'd PrimaryState \<Rightarrow> (nat \<times> nat) list \<Rightarrow> bool" where
  "found cf m pm D g g' res \<longleftrightarrow>
     mset (List.map snd res) + mset (given g' (ps_next g) (ps_next g')) = mset [ps_next g..<ps_next g'] \<and>
     (\<forall>(a, x) \<in> set res. \<exists>k. map_of pm k = Some a \<and> map_of (ps_prim g') k = Some x \<and> k \<in> (through cf (pv m pm))\<^sup>* `` D)"

definition refusal :: cpp_error where
  "refusal = RuntimeError ''Cannot Simmulate this MC Record''"

definition outcome :: "'d InputSettings \<Rightarrow> 'd MCState \<Rightarrow> (int, nat) std_map \<Rightarrow> int set \<Rightarrow> 'd PrimaryState \<Rightarrow> ('d PrimaryState \<times> (nat \<times> nat) list) cpp \<Rightarrow> bool" where
  "outcome cf m pm D g r \<longleftrightarrow> (case r of
       Inl e \<Rightarrow> e = refusal \<and> (\<exists>k p. pv m pm k = Some p \<and> inconsistent cf (pv m pm) p)
     | Inr (g', res) \<Rightarrow> searched cf (pv m pm) D g g' \<and> found cf m pm D g g' res \<and> D \<subseteq> ps_visited g')"

lemma searched_refl: "prim_ok g \<Longrightarrow> searched cf V D g g"
  by (simp add: searched_def)

lemma found_refl: "found cf m pm D g g []"
  by (simp add: found_def given_def)

lemma entered_later:
  assumes "entered V cf g k x" and "ps_g4 g' x = ps_g4 g x" and "map_of (ps_prim g) \<subseteq>\<^sub>m map_of (ps_prim g')"
  shows "entered V cf g' k x"
proof -
  obtain p q where p: "V k = Some p" "relevant cf V p" "ps_g4 g x = Some q" "primary_of cf V p q"
    "\<forall>y \<in> set (gp_daughters q). decays_followed p \<and> (\<exists>k'. map_of (ps_prim g) k' = Some y \<and> k' \<in> (through cf V)\<^sup>* `` pt_daughters p)"
    using assms(1) by (auto simp: entered_def)
  have "map_of (ps_prim g') k' = Some y" if "map_of (ps_prim g) k' = Some y" for k' y
    using assms(3) that by (auto simp: map_le_def dom_def)
  then show ?thesis using p assms(2) unfolding entered_def by metis
qed

lemma searched_dest:
  assumes "searched cf V D g g'"
  shows "prim_ok g'" "ps_visited g \<subseteq> ps_visited g'" "map_of (ps_prim g) \<subseteq>\<^sub>m map_of (ps_prim g')" "ps_next g \<le> ps_next g'"
    "x < ps_next g \<Longrightarrow> ps_g4 g' x = ps_g4 g x"
    "\<lbrakk>k \<in> ps_visited g'; k \<notin> ps_visited g\<rbrakk> \<Longrightarrow> k \<in> (follows V)\<^sup>* `` D \<and>
        (\<exists>p. V k = Some p \<and> (decays_followed p \<longrightarrow> pt_daughters p \<subseteq> ps_visited g') \<and> (relevant cf V p \<longrightarrow> map_of (ps_prim g') k \<noteq> None))"
    "\<lbrakk>map_of (ps_prim g') k = Some x; map_of (ps_prim g) k = None\<rbrakk> \<Longrightarrow>
        k \<notin> ps_visited g \<and> ps_next g \<le> x \<and> x < ps_next g' \<and> entered V cf g' k x"
    "mset (List.map snd (ps_prim g')) = mset (List.map snd (ps_prim g)) + mset [ps_next g..<ps_next g']"
  using assms unfolding searched_def by blast+

lemma later_entry: "map_of m \<subseteq>\<^sub>m map_of m' \<Longrightarrow> map_of m k = Some x \<Longrightarrow> map_of m' k = Some x"
  by (auto simp: map_le_def dom_def)

lemma upt_split: "lo \<le> mi \<Longrightarrow> mi \<le> hi \<Longrightarrow> [lo..<hi] = [lo..<mi] @ [mi..<hi]"
  by (metis le_Suc_ex upt_add_eq_append)

lemma searched_trans:
  assumes "searched cf V D g g1" and "searched cf V D g1 g2"
  shows "searched cf V D g g2"
proof -
  note a = searched_dest [OF assms(1)] and b = searched_dest [OF assms(2)]
  have sub: "map_of (ps_prim g) \<subseteq>\<^sub>m map_of (ps_prim g2)" using a(3) b(3) by (rule map_le_trans)
  have visited: "k \<in> (follows V)\<^sup>* `` D \<and>
        (\<exists>p. V k = Some p \<and> (decays_followed p \<longrightarrow> pt_daughters p \<subseteq> ps_visited g2) \<and> (relevant cf V p \<longrightarrow> map_of (ps_prim g2) k \<noteq> None))"
    if k: "k \<in> ps_visited g2" "k \<notin> ps_visited g" for k
  proof (cases "k \<in> ps_visited g1")
    case True
    from a(6) [OF True k(2)] show ?thesis using b(2) later_entry [OF b(3)] by (metis option.distinct(1) not_None_eq subset_trans)
  next
    case False
    from b(6) [OF k(1) False] show ?thesis .
  qed
  have new: "k \<notin> ps_visited g \<and> ps_next g \<le> x \<and> x < ps_next g2 \<and> entered V cf g2 k x"
    if k: "map_of (ps_prim g2) k = Some x" "map_of (ps_prim g) k = None" for k x
  proof (cases "map_of (ps_prim g1) k")
    case None
    from b(7) [OF k(1) None] show ?thesis using a(2,4) by auto
  next
    case (Some y)
    then have y: "y = x" using later_entry [OF b(3) Some] k(1) by simp
    from a(7) [OF Some k(2)] have "k \<notin> ps_visited g" "ps_next g \<le> x" "x < ps_next g1" "entered V cf g1 k x" by (simp_all add: y)
    then show ?thesis using entered_later [OF _ b(5) b(3)] b(4) by simp
  qed
  have "mset (List.map snd (ps_prim g2)) = mset (List.map snd (ps_prim g)) + mset [ps_next g..<ps_next g2]"
    using a(8) b(8) by (simp add: upt_split [OF a(4) b(4)] del: map_map)
  moreover have "\<forall>x < ps_next g. ps_g4 g2 x = ps_g4 g x" using a(4,5) b(5) by simp
  ultimately show ?thesis unfolding searched_def using a(2,4) b(1,2,4) sub visited new by (meson DiffD1 DiffD2 le_trans subset_trans)
qed

lemma searched_more: "searched cf V D g g' \<Longrightarrow> D \<subseteq> E \<Longrightarrow> searched cf V E g g'"
  unfolding searched_def by blast

lemma found_more: "found cf m pm D g g' res \<Longrightarrow> D \<subseteq> E \<Longrightarrow> found cf m pm E g g' res"
  unfolding found_def by blast

lemma given_split: "lo \<le> mi \<Longrightarrow> mi \<le> hi \<Longrightarrow> given g lo hi = given g lo mi @ given g mi hi"
  by (simp add: given_def upt_split [of lo mi hi])

lemma given_same: "(\<And>x. lo \<le> x \<Longrightarrow> x < hi \<Longrightarrow> ps_g4 g' x = ps_g4 g x) \<Longrightarrow> given g' lo hi = given g lo hi"
  by (auto simp: given_def daughters_of_def intro!: arg_cong [where f = concat] map_cong)

lemma found_trans:
  assumes "found cf m pm D g g1 r1" and "searched cf V E g g1" and "found cf m pm D g1 g2 r2" and "searched cf V F g1 g2"
  shows "found cf m pm D g g2 (r1 @ r2)"
proof -
  note a = searched_dest [OF assms(2)] and b = searched_dest [OF assms(4)]
  have "given g2 (ps_next g) (ps_next g1) = given g1 (ps_next g) (ps_next g1)" by (rule given_same) (rule b(5))
  then have "given g2 (ps_next g) (ps_next g2) = given g1 (ps_next g) (ps_next g1) @ given g2 (ps_next g1) (ps_next g2)"
    by (simp add: given_split [OF a(4) b(4)])
  then have "mset (List.map snd (r1 @ r2)) + mset (given g2 (ps_next g) (ps_next g2)) = mset [ps_next g..<ps_next g2]"
  proof -
    have "(M + N) + (G + H) = (M + G) + (N + H)" for M N G H :: "nat multiset" by (simp add: ac_simps)
    moreover have "mset (List.map snd r1) + mset (given g1 (ps_next g) (ps_next g1)) = mset [ps_next g..<ps_next g1]"
      "mset (List.map snd r2) + mset (given g2 (ps_next g1) (ps_next g2)) = mset [ps_next g1..<ps_next g2]"
      using assms(1,3) by (simp_all add: found_def)
    ultimately show ?thesis using \<open>given g2 (ps_next g) (ps_next g2) = _\<close> by (simp only: map_append mset_append upt_split [OF a(4) b(4)]) metis
  qed
  moreover have "\<exists>k. map_of pm k = Some a \<and> map_of (ps_prim g2) k = Some x \<and> k \<in> (through cf (pv m pm))\<^sup>* `` D" if "(a, x) \<in> set (r1 @ r2)" for a x
  proof (cases "(a, x) \<in> set r2")
    case True
    then show ?thesis using assms(3) by (auto simp: found_def)
  next
    case False
    then have "(a, x) \<in> set r1" using that by simp
    then obtain k where "map_of pm k = Some a" "map_of (ps_prim g1) k = Some x" "k \<in> (through cf (pv m pm))\<^sup>* `` D"
      using assms(1) unfolding found_def by fast
    then show ?thesis using later_entry [OF b(3)] by blast
  qed
  ultimately show ?thesis by (auto simp: found_def)
qed

section \<open>The search\<close>

lemma outcome_Inr: "outcome cf m pm D g (Inr (g', res)) \<longleftrightarrow> searched cf (pv m pm) D g g' \<and> found cf m pm D g g' res \<and> D \<subseteq> ps_visited g'"
  by (simp add: outcome_def)

lemma outcome_refusal: "\<lbrakk>pv m pm k = Some p; inconsistent cf (pv m pm) p\<rbrakk> \<Longrightarrow> outcome cf m pm D g (Inl refusal)"
  by (auto simp: outcome_def)

text \<open>The number of particles not visited yet bounds the depth of the search.\<close>

definition unvisited :: "(int, nat) std_map \<Rightarrow> 'd PrimaryState \<Rightarrow> nat" where
  "unvisited pm g = card (fst ` set pm - ps_visited g)"

lemma unvisited_mono: "ps_visited g \<subseteq> ps_visited g' \<Longrightarrow> unvisited pm g' \<le> unvisited pm g"
  unfolding unvisited_def by (rule card_mono) auto

definition searches :: "'d InputSettings \<Rightarrow> 'd MCState \<Rightarrow> (int, nat) std_map \<Rightarrow> nat \<Rightarrow> ('d PrimaryState \<Rightarrow> nat \<Rightarrow> ('d PrimaryState \<times> (nat \<times> nat) list) cpp) \<Rightarrow> bool" where
  "searches cf m pm n rec \<longleftrightarrow> (\<forall>g k a. map_of pm k = Some a \<longrightarrow> k \<notin> ps_visited g \<longrightarrow> prim_ok g \<longrightarrow> unvisited pm g < n \<longrightarrow>
     outcome cf m pm {k} g (rec g a))"

lemma search_daughters:
  assumes "searches cf m pm n rec" and "set ds \<subseteq> fst ` set pm" and "prim_ok g" and "unvisited pm g < n"
  shows "outcome cf m pm (set ds) g (relevant_daughters rec pm g ds)"
proof -
  let ?step = "\<lambda>(g, res) i. if i \<in> ps_visited g then Inr (g, res)
     else bindE (pm_get pm i) (\<lambda>a. bindE (rec g a) (\<lambda>(g', tmp). Inr (g', res @ tmp)))"
  let ?V = "pv m pm"
  have "(\<exists>g' res. foldE ?step (g, res0) ds = Inr (g', res0 @ res) \<and> searched cf ?V D g g' \<and> found cf m pm D g g' res \<and> set ds \<subseteq> ps_visited g') \<or>
      (foldE ?step (g, res0) ds = Inl refusal \<and> (\<exists>k p. ?V k = Some p \<and> inconsistent cf ?V p))"
    if "set ds \<subseteq> D" for res0 D
    using assms(2-4) that
  proof (induction ds arbitrary: g res0)
    case Nil
    then show ?case by (auto intro: searched_refl found_refl)
  next
    case (Cons d ds)
    show ?case
    proof (cases "d \<in> ps_visited g")
      case True
      have "(\<exists>g' res. foldE ?step (g, res0) ds = Inr (g', res0 @ res) \<and> searched cf ?V D g g' \<and> found cf m pm D g g' res \<and> set ds \<subseteq> ps_visited g') \<or>
        (foldE ?step (g, res0) ds = Inl refusal \<and> (\<exists>k p. ?V k = Some p \<and> inconsistent cf ?V p))"
        by (rule Cons.IH) (use Cons.prems in auto)
      then show ?thesis using True searched_dest(2) by fastforce
    next
      case False
      obtain a where a: "map_of pm d = Some a" using Cons.prems(1) by (metis list.set_intros(1) map_of_eq_None_iff not_Some_eq subsetD)
      have o: "outcome cf m pm {d} g (rec g a)" using assms(1) a False Cons.prems(2,3) by (simp add: searches_def)
      show ?thesis
      proof (cases "rec g a")
        case (Inl e)
        then show ?thesis using o False a by (auto simp: pm_get_def outcome_def)
      next
        case (Inr r)
        obtain g1 tmp where r: "r = (g1, tmp)" by (cases r)
        have o1: "searched cf ?V D g g1" "found cf m pm D g g1 tmp" "d \<in> ps_visited g1"
          using o Cons.prems(4) by (auto simp: Inr r outcome_Inr intro: searched_more found_more)
        have "unvisited pm g1 < n" using unvisited_mono [OF searched_dest(2) [OF o1(1)], of pm] Cons.prems(3) by simp
        then have rest: "(\<exists>g' res. foldE ?step (g1, res0 @ tmp) ds = Inr (g', (res0 @ tmp) @ res) \<and> searched cf ?V D g1 g' \<and> found cf m pm D g1 g' res \<and> set ds \<subseteq> ps_visited g') \<or>
          (foldE ?step (g1, res0 @ tmp) ds = Inl refusal \<and> (\<exists>k p. ?V k = Some p \<and> inconsistent cf ?V p))"
          by (intro Cons.IH) (use Cons.prems searched_dest(1) [OF o1(1)] in auto)
        have here: "foldE ?step (g, res0) (d # ds) = foldE ?step (g1, res0 @ tmp) ds" using False a by (simp add: pm_get_def Inr r)
        from rest show ?thesis
        proof (elim disjE exE conjE)
          fix g' res
          assume g': "foldE ?step (g1, res0 @ tmp) ds = Inr (g', (res0 @ tmp) @ res)" "searched cf ?V D g1 g'" "found cf m pm D g1 g' res" "set ds \<subseteq> ps_visited g'"
          have "foldE ?step (g, res0) (d # ds) = Inr (g', res0 @ (tmp @ res))" using g'(1) unfolding here by simp
          moreover have "set (d # ds) \<subseteq> ps_visited g'" using o1(3) g'(4) searched_dest(2) [OF g'(2)] by auto
          ultimately show ?thesis using searched_trans [OF o1(1) g'(2)] found_trans [OF o1(2,1) g'(3,2)] by blast
        next
          fix k p
          assume "foldE ?step (g1, res0 @ tmp) ds = Inl refusal" "?V k = Some p" "inconsistent cf ?V p"
          then show ?thesis unfolding here by blast
        qed
      qed
    qed
  qed
  from this [of "set ds" "[]", OF subset_refl] show ?thesis unfolding relevant_daughters_def outcome_def
    by (elim disjE exE conjE) (simp, simp, blast)
qed

text \<open>A particle that is left out: what is below it is found as if below its mother.\<close>

definition visit :: "int \<Rightarrow> 'd PrimaryState \<Rightarrow> 'd PrimaryState" where
  "visit k g = g\<lparr>ps_visited := insert k (ps_visited g)\<rparr>"

lemma visit_simps [simp]:
  "ps_visited (visit k g) = insert k (ps_visited g)" "ps_prim (visit k g) = ps_prim g" "ps_next (visit k g) = ps_next g" "ps_g4 (visit k g) = ps_g4 g"
  by (simp_all add: visit_def)

lemma visit_prim_ok: "prim_ok g \<Longrightarrow> prim_ok (visit k g)"
  by (auto simp: prim_ok_def)

lemma fewer_unvisited:
  assumes "map_of pm k = Some a" and "k \<notin> ps_visited g" and "unvisited pm g < Suc n" and "ps_visited g' = insert k (ps_visited g)"
  shows "unvisited pm g' < n"
proof -
  have "k \<in> fst ` set pm" using assms(1) by (force dest: map_of_SomeD)
  then have "fst ` set pm - ps_visited g' \<subset> fst ` set pm - ps_visited g" using assms(2,4) by auto
  then have "unvisited pm g' < unvisited pm g" unfolding unvisited_def by (intro psubset_card_mono) simp_all
  then show ?thesis using assms(3) by simp
qed

lemma below_mother:
  assumes "V k = Some p" and "decays_followed p" and "x \<in> (follows V)\<^sup>* `` pt_daughters p"
  shows "x \<in> (follows V)\<^sup>* `` {k}"
proof -
  obtain d where "d \<in> pt_daughters p" "(d, x) \<in> (follows V)\<^sup>*" using assms(3) by blast
  moreover from this have "(k, d) \<in> follows V" using assms(1,2) by (simp add: follows_def)
  ultimately show ?thesis by (simp add: converse_rtrancl_into_rtrancl)
qed

lemma through_mother:
  assumes "V k = Some p" and "decays_followed p" and "\<not> relevant cf V p" and "x \<in> (through cf V)\<^sup>* `` pt_daughters p"
  shows "x \<in> (through cf V)\<^sup>* `` {k}"
proof -
  obtain d where "d \<in> pt_daughters p" "(d, x) \<in> (through cf V)\<^sup>*" using assms(4) by blast
  moreover from this have "(k, d) \<in> through cf V" using assms(1-3) by (simp add: through_def)
  ultimately show ?thesis by (simp add: converse_rtrancl_into_rtrancl)
qed

lemma left_out:
  assumes "prim_ok g" and "k \<notin> ps_visited g" and "V k = Some p" and "\<not> relevant cf V p"
    and "searched cf V E (visit k g) g'" and "E = (if decays_followed p then pt_daughters p else {})" and "E \<subseteq> ps_visited g'"
  shows "searched cf V {k} g g'"
proof -
  note b = searched_dest [OF assms(5)]
  have "j \<in> (follows V)\<^sup>* `` {k} \<and> (\<exists>p. V j = Some p \<and> (decays_followed p \<longrightarrow> pt_daughters p \<subseteq> ps_visited g') \<and>
      (relevant cf V p \<longrightarrow> map_of (ps_prim g') j \<noteq> None))" if j: "j \<in> ps_visited g'" "j \<notin> ps_visited g" for j
  proof (cases "j = k")
    case True
    then show ?thesis using assms(3,4,6,7) by auto
  next
    case False
    then have "j \<in> (follows V)\<^sup>* `` E" "\<exists>p. V j = Some p \<and> (decays_followed p \<longrightarrow> pt_daughters p \<subseteq> ps_visited g') \<and>
      (relevant cf V p \<longrightarrow> map_of (ps_prim g') j \<noteq> None)" using b(6) [of j] j by auto
    then show ?thesis using below_mother [where p = p and V = V and k = k and x = j] assms(3,6) by (auto split: if_splits)
  qed
  moreover have "j \<notin> ps_visited g \<and> ps_next g \<le> x \<and> x < ps_next g' \<and> entered V cf g' j x"
    if "map_of (ps_prim g') j = Some x" "map_of (ps_prim g) j = None" for j x using b(7) [of j x] that by simp
  ultimately show ?thesis using b(1-5,8) unfolding searched_def by simp
qed

lemma left_out_found:
  assumes "V = pv m pm" and "V k = Some p" and "\<not> relevant cf V p" and "found cf m pm E (visit k g) g' res" and "E = (if decays_followed p then pt_daughters p else {})"
  shows "found cf m pm {k} g g' res"
  using assms(4) through_mother [where V = V and k = k and p = p and cf = cf] assms(2,3,5) unfolding found_def assms(1)
  by (fastforce split: if_splits)

text \<open>A particle that is given to Geant4: what is found below it becomes its decay.\<close>

lemma new_primary_simps [simp]:
  "fst (new_primary g k p4) = g\<lparr>ps_prim := map_assign k (ps_next g) (ps_prim g), ps_next := Suc (ps_next g), ps_g4 := (ps_g4 g)(ps_next g \<mapsto> p4)\<rparr>"
  "snd (new_primary g k p4) = ps_next g"
  by (simp_all add: new_primary_def)

lemma set_daughters_simps [simp]:
  "ps_visited (set_daughters g x ds) = ps_visited g" "ps_prim (set_daughters g x ds) = ps_prim g" "ps_next (set_daughters g x ds) = ps_next g"
  "y \<noteq> x \<Longrightarrow> ps_g4 (set_daughters g x ds) y = ps_g4 g y"
  "ps_g4 (set_daughters g x ds) x = map_option (\<lambda>q. q\<lparr>gp_daughters := gp_daughters q @ ds\<rparr>) (ps_g4 g x)"
  by (simp_all add: set_daughters_def)

lemma entered_relevant:
  assumes "V = pv m pm" and "prim_ok g" and "k \<notin> ps_visited g" and "V k = Some p" and "relevant cf V p"
    and p4: "createG4Primary cf p = Inr p4" "gp_daughters p4 = []"
    and p5: "p5 = (if isSet (pt_status p) G4PARTICLE_GEN_STABLE then p4
      else p4\<lparr>gp_properTime := Some (if \<bar>pt_pdgID p\<bar> \<in> is_decayByGeant cf then is_minusOne cf else proper_time cf p (first_daughter V p))\<rparr>)"
    and g2: "g2 = fst (new_primary (visit k g) k p5)"
    and s: "searched cf V E g2 g'" and f: "found cf m pm E g2 g' res" and E: "E = (if decays_followed p then pt_daughters p else {})" and "E \<subseteq> ps_visited g'"
    and g3: "g3 = set_daughters g' (ps_next g) (List.map snd res)"
    and a: "map_of pm k = Some a"
  shows "searched cf V {k} g g3 \<and> found cf m pm {k} g g3 [(a, ps_next g)]"
proof -
  let ?x = "ps_next g"
  note b = searched_dest [OF s]
  have none: "map_of (ps_prim g) k = None" using assms(2,3) by (auto simp: prim_ok_def map_of_eq_None_iff)
  have g2s: "ps_visited g2 = insert k (ps_visited g)" "ps_next g2 = Suc ?x" "map_of (ps_prim g2) = (map_of (ps_prim g))(k \<mapsto> ?x)"
    "ps_g4 g2 = (ps_g4 g)(?x \<mapsto> p5)" "mset (List.map snd (ps_prim g2)) = mset (List.map snd (ps_prim g)) + {#?x#}"
    using mset_assign [OF none, of ?x] by (simp_all add: g2)
  have at_x: "ps_g4 g' ?x = Some p5" using b(5) [of ?x] by (simp add: g2s)
  have p5d: "gp_daughters p5 = []" using p4(2) by (simp add: p5)
  have g3x: "ps_g4 g3 ?x = Some (p5\<lparr>gp_daughters := List.map snd res\<rparr>)" by (simp add: g3 at_x p5d)
  have g3y: "y \<noteq> ?x \<Longrightarrow> ps_g4 g3 y = ps_g4 g' y" for y by (simp add: g3)
  have g3s: "ps_visited g3 = ps_visited g'" "ps_prim g3 = ps_prim g'" "ps_next g3 = ps_next g'" by (simp_all add: g3)
  have sub: "map_of (ps_prim g) \<subseteq>\<^sub>m map_of (ps_prim g')"
    by (rule map_le_trans [OF _ b(3)]) (use none in \<open>auto simp: g2s map_le_def\<close>)
  have kx: "map_of (ps_prim g') k = Some ?x" using later_entry [OF b(3), of k ?x] by (simp add: g2s)
  have ns: "Suc ?x \<le> ps_next g'" using b(4) by (simp add: g2s)
  have "entered V cf g3 k ?x"
  proof -
    have "primary_of cf V p (p5\<lparr>gp_daughters := List.map snd res\<rparr>)" using p4 p5 by (auto simp: primary_of_def)
    moreover have "decays_followed p \<and> (\<exists>k'. map_of (ps_prim g3) k' = Some y \<and> k' \<in> (through cf V)\<^sup>* `` pt_daughters p)" if y: "y \<in> set (List.map snd res)" for y
    proof -
      obtain c where "(c, y) \<in> set res" using y by auto
      then obtain k' where "map_of (ps_prim g') k' = Some y" "k' \<in> (through cf V)\<^sup>* `` E" using f assms(1) unfolding found_def by blast
      then show ?thesis by (auto simp: g3s E split: if_splits)
    qed
    ultimately show ?thesis using assms(4,5) g3x by (auto simp: entered_def)
  qed
  moreover have "entered V cf g3 j x" if "entered V cf g' j x" "?x < x" for j x using entered_later [OF that(1)] that(2) g3y g3s by simp
  ultimately have new: "j \<notin> ps_visited g \<and> ?x \<le> x \<and> x < ps_next g3 \<and> entered V cf g3 j x"
    if "map_of (ps_prim g3) j = Some x" "map_of (ps_prim g) j = None" for j x
    using that b(7) [of j x] kx assms(3) ns by (cases "j = k") (auto simp: g3s g2s)
  have visited: "j \<in> (follows V)\<^sup>* `` {k} \<and> (\<exists>p. V j = Some p \<and> (decays_followed p \<longrightarrow> pt_daughters p \<subseteq> ps_visited g') \<and>
      (relevant cf V p \<longrightarrow> map_of (ps_prim g') j \<noteq> None))" if j: "j \<in> ps_visited g'" "j \<notin> ps_visited g" for j
  proof (cases "j = k")
    case True
    then show ?thesis using assms(4,13) E kx by auto
  next
    case False
    then have "j \<in> (follows V)\<^sup>* `` E" "\<exists>p. V j = Some p \<and> (decays_followed p \<longrightarrow> pt_daughters p \<subseteq> ps_visited g') \<and>
      (relevant cf V p \<longrightarrow> map_of (ps_prim g') j \<noteq> None)" using b(6) [of j] j by (auto simp: g2s)
    then show ?thesis using below_mother [where p = p and V = V and k = k and x = j] assms(4) E by (auto simp only: split: if_splits)
  qed
  have up: "[?x..<ps_next g'] = ?x # [Suc ?x..<ps_next g']" using ns by (simp add: upt_conv_Cons)
  have "mset (List.map snd (ps_prim g')) = mset (List.map snd (ps_prim g)) + mset [?x..<ps_next g']"
    unfolding up b(8) g2s(2,5) by simp
  then have "searched cf V {k} g g3"
    unfolding searched_def g3s using b(1,2) sub ns visited new b(5) g3y
    by (auto simp: g2s g3s prim_ok_def simp del: mset_map)
  moreover have "given g3 ?x (ps_next g3) = List.map snd res @ given g' (Suc ?x) (ps_next g')"
  proof -
    have "given g3 ?x (ps_next g3) = daughters_of g3 ?x @ given g3 (Suc ?x) (ps_next g')" by (simp add: given_def g3s up)
    moreover have "given g3 (Suc ?x) (ps_next g') = given g' (Suc ?x) (ps_next g')" by (rule given_same) (simp add: g3y)
    ultimately show ?thesis by (simp add: daughters_of_def g3x)
  qed
  then have "found cf m pm {k} g g3 [(a, ?x)]"
    using f kx a by (auto simp: found_def g3s g2s up)
  ultimately show ?thesis by blast
qed

lemma set_daughters_none: "set_daughters g x [] = g"
  by (simp add: set_daughters_def option.map_ident)

lemma getRelevant_searches:
  assumes "record_ok cf m pm"
  shows "searches cf m pm n (getRelevant n cf m pm)"
proof (induction n)
  case 0
  then show ?case by (simp add: searches_def)
next
  case (Suc n)
  let ?V = "pv m pm"
  show ?case
    unfolding searches_def
  proof (intro allI impI)
    fix g :: "'a PrimaryState" and k a
    assume k: "map_of pm k = Some a" "k \<notin> ps_visited g" and g: "prim_ok g" "unvisited pm g < Suc n"
    obtain p p4 where p: "?V k = Some p" "particle_get m a = Inr p" "pt_id p = k" "finite (pt_daughters p)" "pt_daughters p \<subseteq> fst ` set pm"
      and p4: "createG4Primary cf p = Inr p4" "gp_daughters p4 = []" using record_particle [OF assms k(1)] by blast
    have none: "map_of (ps_prim g) k = None" using g(1) k(2) by (auto simp: prim_ok_def map_of_eq_None_iff)
    have g1: "g\<lparr>ps_visited := insert k (ps_visited g)\<rparr> = visit k g" by (simp add: visit_def)
    note run = getRelevant.simps(2) [of n cf m pm g a, unfolded p(2) bindE_simps p(3) Let_def g1]
    show "outcome cf m pm {k} g (getRelevant (Suc n) cf m pm g a)"
    proof (cases "decays_followed p")
      case False
      have leaf: "outcome cf m pm {k} g (Inr (visit k g, []))" if "\<not> relevant cf ?V p"
        using left_out [OF g(1) k(2) p(1) that searched_refl [OF visit_prim_ok [OF g(1)]], of "{}"]
          left_out_found [OF refl p(1) that found_refl [of cf m pm "{}" "visit k g"]] False by (auto simp: outcome_Inr found_def given_def)
      show ?thesis
      proof (cases "isSet (pt_status p) G4PARTICLE_GEN_STABLE")
        case True
        show ?thesis
        proof (cases "reject_stable cf p")
          case reject: True
          then show ?thesis using True leaf unfolding run by (simp add: relevant_def)
        next
          case reject: False
          let ?g2 = "fst (new_primary (visit k g) k p4)"
          have "prim_ok ?g2" using visit_prim_ok [OF g(1), of k] by (auto simp: prim_ok_def keys_assign)
          moreover have "relevant cf ?V p" using True reject by (simp add: relevant_def)
          ultimately have "searched cf ?V {k} g ?g2 \<and> found cf m pm {k} g ?g2 [(a, ps_next g)]"
            by (intro entered_relevant [OF refl g(1) k(2) p(1) _ p4 _ refl searched_refl found_refl [of cf m pm "{}"] _ _ _ k(1)])
              (use True False in \<open>simp_all add: set_daughters_none\<close>)
          then show ?thesis using True reject none unfolding run by (simp add: p4(1) case_prod_unfold outcome_Inr)
        qed
      next
        case stable: False
        then have "pt_daughters p = {}" using False by (simp add: decays_followed_def)
        then show ?thesis using leaf stable unfolding run by (simp add: relevant_def)
      qed
    next
      case True
      then have un: "\<not> isSet (pt_status p) G4PARTICLE_GEN_STABLE" "pt_daughters p \<noteq> {}" by (simp_all add: decays_followed_def)
      have "Min (pt_daughters p) \<in> fst ` set pm" using Min_in [OF p(4) un(2)] p(5) by blast
      then obtain b where b: "map_of pm (Min (pt_daughters p)) = Some b" by (metis map_of_eq_None_iff not_Some_eq)
      obtain d where d: "?V (Min (pt_daughters p)) = Some d" "particle_get m b = Inr d" using record_particle [OF assms b] by blast
      have fd: "first_daughter ?V p = d" by (simp add: first_daughter_def d(1))
      have ds: "set (sorted_list_of_set (pt_daughters p)) = pt_daughters p" using p(4) by simp
      note run = run [unfolded if_not_P [OF un(1)] if_P [OF un(2)] pm_get_def b option.case bindE_simps d(2)]
      have loop: "outcome cf m pm (pt_daughters p) h (relevant_daughters (getRelevant n cf m pm) pm h (sorted_list_of_set (pt_daughters p)))"
        if h: "prim_ok h" "ps_visited h = insert k (ps_visited g)" for h
        using search_daughters [OF Suc.IH _ h(1) fewer_unvisited [OF k g(2) h(2)], of "sorted_list_of_set (pt_daughters p)"] p(5) by (simp only: ds)
      show ?thesis
      proof (cases "reject_decayed cf p d")
        case reject: True
        then have nr: "\<not> relevant cf ?V p" using un fd by (simp add: relevant_def)
        have "outcome cf m pm {k} g r" if r: "outcome cf m pm (pt_daughters p) (visit k g) r" for r
        proof (cases r)
          case (Inl e)
          then show ?thesis using r by (simp add: outcome_def)
        next
          case (Inr x)
          obtain g' res where x: "x = (g', res)" by (cases x)
          have o: "searched cf ?V (pt_daughters p) (visit k g) g'" "found cf m pm (pt_daughters p) (visit k g) g' res" "pt_daughters p \<subseteq> ps_visited g'"
            using r by (simp_all add: Inr x outcome_Inr)
          have "searched cf ?V {k} g g'" by (rule left_out [OF g(1) k(2) p(1) nr o(1) _ o(3)]) (simp add: True)
          moreover have "found cf m pm {k} g g' res" by (rule left_out_found [OF refl p(1) nr o(2)]) (simp add: True)
          ultimately show ?thesis using searched_dest(2) [OF o(1)] by (simp add: Inr x outcome_Inr)
        qed
        from this [OF loop [OF visit_prim_ok [OF g(1)]]] show ?thesis unfolding run by (simp add: reject)
      next
        case reject: False
        then have rel: "relevant cf ?V p" using un fd by (simp add: relevant_def)
        show ?thesis
        proof (cases "stable_definition cf p")
          case st: True
          then have "inconsistent cf ?V p" using True rel by (simp add: inconsistent_def)
          then show ?thesis using outcome_refusal [OF p(1)] unfolding run by (simp add: reject st refusal_def)
        next
          case st: False
          let ?p5 = "p4\<lparr>gp_properTime := Some (if \<bar>pt_pdgID p\<bar> \<in> is_decayByGeant cf then is_minusOne cf else proper_time cf p d)\<rparr>"
          define g2 where "g2 = fst (new_primary (visit k g) k ?p5)"
          have ok2: "prim_ok g2" "ps_visited g2 = insert k (ps_visited g)" using visit_prim_ok [OF g(1), of k] by (auto simp: g2_def prim_ok_def keys_assign)
          have run: "getRelevant (Suc n) cf m pm g a = bindE (relevant_daughters (getRelevant n cf m pm) pm g2 (sorted_list_of_set (pt_daughters p)))
              (\<lambda>(g3, daughters). Inr (set_daughters g3 (ps_next g) (List.map snd daughters), [(a, ps_next g)]))"
            unfolding run by (simp add: reject st none p4(1) case_prod_unfold g2_def)
          show ?thesis
          proof (cases "relevant_daughters (getRelevant n cf m pm) pm g2 (sorted_list_of_set (pt_daughters p))")
            case (Inl e)
            then show ?thesis using loop [OF ok2] by (simp add: run outcome_def)
          next
            case (Inr x)
            obtain g' res where x: "x = (g', res)" by (cases x)
            have o: "searched cf ?V (pt_daughters p) g2 g'" "found cf m pm (pt_daughters p) g2 g' res" "pt_daughters p \<subseteq> ps_visited g'"
              using loop [OF ok2] by (simp_all add: Inr x outcome_Inr)
            have "searched cf ?V {k} g (set_daughters g' (ps_next g) (List.map snd res)) \<and>
                found cf m pm {k} g (set_daughters g' (ps_next g) (List.map snd res)) [(a, ps_next g)]"
              by (rule entered_relevant [OF refl g(1) k(2) p(1) rel p4 _ g2_def o(1,2) _ o(3) refl k(1)]) (simp_all add: un(1) fd True)
            moreover have "k \<in> ps_visited g'" using searched_dest(2) [OF o(1)] ok2(2) by blast
            ultimately show ?thesis by (simp add: run Inr x outcome_Inr)
          qed
        qed
      qed
    qed
  qed
qed

end
