(* ===== verification/InteractionMerging.thy ===== *)
theory InteractionMerging
  imports PrimaryInput
begin

text \<open>
  What the merging of interactions does: every interaction keeps its particles and their relations under identifiers that
  are shifted behind those of the interactions before, so that the merged record is one of consistent identifiers. The loops over
  particles and vertices are reduced to one change of the stores (\<open>on_set\<close>).
\<close>

section \<open>Loops over objects\<close>

definition on_set :: "nat set \<Rightarrow> ('a \<Rightarrow> 'a) \<Rightarrow> (nat \<Rightarrow> 'a option) \<Rightarrow> nat \<Rightarrow> 'a option" where
  "on_set A f h = (\<lambda>a. if a \<in> A then map_option f (h a) else h a)"

lemma on_set_empty [simp]: "on_set {} f h = h"
  by (simp add: on_set_def)

lemma on_set_in: "a \<in> A \<Longrightarrow> on_set A f h a = map_option f (h a)"
  by (simp add: on_set_def)

lemma on_set_out: "a \<notin> A \<Longrightarrow> on_set A f h a = h a"
  by (simp add: on_set_def)

lemma on_set_None [simp]: "on_set A f h a = None \<longleftrightarrow> h a = None"
  by (simp add: on_set_def)

lemma on_set_comp: "on_set A f (on_set A g h) = on_set A (f \<circ> g) h"
  by (rule ext) (simp add: on_set_def option.map_comp)

lemma on_set_insert: "x \<notin> A \<Longrightarrow> on_set A f (h(x := map_option f (h x))) = on_set (insert x A) f h"
  by (rule ext) (simp add: on_set_def)

definition heap_on :: "nat set \<Rightarrow> ('d Particle \<Rightarrow> 'd Particle) \<Rightarrow> 'd InputState \<Rightarrow> 'd InputState" where
  "heap_on A f s = s\<lparr>in_mc := (in_mc s)\<lparr>mc_heap := on_set A f (mc_heap (in_mc s))\<rparr>\<rparr>"

definition vertices_on :: "nat set \<Rightarrow> ('d Vertex \<Rightarrow> 'd Vertex) \<Rightarrow> 'd InputState \<Rightarrow> 'd InputState" where
  "vertices_on A f s = s\<lparr>in_vertex := on_set A f (in_vertex s)\<rparr>"

definition valid_particles :: "'d InputState \<Rightarrow> nat list \<Rightarrow> bool" where
  "valid_particles s as \<longleftrightarrow> (\<forall>a \<in> set as. a \<noteq> 0 \<and> mc_heap (in_mc s) a \<noteq> None)"

definition valid_vertices :: "'d InputState \<Rightarrow> nat list \<Rightarrow> bool" where
  "valid_vertices s vs \<longleftrightarrow> (\<forall>v \<in> set vs. v \<noteq> 0 \<and> in_vertex s v \<noteq> None)"

named_theorems on_simps \<open>what the changes of the stores keep\<close>

lemma heap_on_simps [on_simps]:
  "mc_heap (in_mc (heap_on A f s)) = on_set A f (mc_heap (in_mc s))" "ev_particles (in_mc (heap_on A f s)) = ev_particles (in_mc s)"
  "in_vertex (heap_on A f s) = in_vertex s" "in_vertices (heap_on A f s) = in_vertices s" "in_aborts (heap_on A f s) = in_aborts s"
  "valid_particles (heap_on A f s) as = valid_particles s as" "valid_vertices (heap_on A f s) vs = valid_vertices s vs"
  by (simp_all add: heap_on_def valid_particles_def valid_vertices_def)

lemma vertices_on_simps [on_simps]:
  "in_vertex (vertices_on A g s) = on_set A g (in_vertex s)" "in_mc (vertices_on A g s) = in_mc s" "in_vertices (vertices_on A g s) = in_vertices s"
  "in_aborts (vertices_on A g s) = in_aborts s"
  "valid_particles (vertices_on A g s) as = valid_particles s as" "valid_vertices (vertices_on A g s) vs = valid_vertices s vs"
  by (simp_all add: vertices_on_def valid_particles_def valid_vertices_def)

lemma heap_on_comp: "heap_on A f (heap_on A g s) = heap_on A (f \<circ> g) s"
  by (simp add: heap_on_def on_set_comp)

lemma vertices_on_comp: "vertices_on A f (vertices_on A g s) = vertices_on A (f \<circ> g) s"
  by (simp add: vertices_on_def on_set_comp)

lemma on_commute: "heap_on A f (vertices_on B g s) = vertices_on B g (heap_on A f s)"
  by (simp add: heap_on_def vertices_on_def)

lemma heap_on_insert:
  assumes "a \<notin> A" and "mc_heap (in_mc s) a = Some p"
  shows "heap_on A f (s\<lparr>in_mc := particle_put (in_mc s) a (f p)\<rparr>) = heap_on (insert a A) f s"
  using on_set_insert [OF assms(1), of f "mc_heap (in_mc s)"] assms(2) by (simp add: heap_on_def particle_put_def)

lemma vertices_on_insert:
  assumes "a \<notin> A" and "in_vertex s a = Some v"
  shows "vertices_on A f (vertex_put s a (f v)) = vertices_on (insert a A) f s"
  using on_set_insert [OF assms(1), of f "in_vertex s"] assms(2) by (simp add: vertices_on_def vertex_put_def)

lemma heap_on_empty [simp]: "heap_on {} f s = s"
  by (simp add: heap_on_def)

lemma vertices_on_empty [simp]: "vertices_on {} f s = s"
  by (simp add: vertices_on_def)

lemma valid_put: "valid_particles s as \<Longrightarrow> valid_particles (s\<lparr>in_mc := particle_put (in_mc s) a p\<rparr>) as"
  by (auto simp: valid_particles_def particle_put_def)

lemma valid_vertex_put: "valid_vertices s as \<Longrightarrow> valid_vertices (vertex_put s a p) as"
  by (auto simp: valid_vertices_def vertex_put_def)

lemma particle_loop:
  assumes "distinct (List.map snd m)" and "valid_particles s (List.map snd m)"
  shows "foldE (\<lambda>s (k, a). in_particle s (\<lambda>m. particle_modify m a f)) s m = Inr (heap_on (snd ` set m) f s)"
  using assms
proof (induction m arbitrary: s)
  case (Cons x m)
  obtain k a where x: "x = (k, a)" by (cases x)
  obtain p where p: "a \<noteq> 0" "mc_heap (in_mc s) a = Some p" using Cons.prems(2) by (auto simp: valid_particles_def x)
  have "in_particle s (\<lambda>m. particle_modify m a f) = Inr (s\<lparr>in_mc := particle_put (in_mc s) a (f p)\<rparr>)"
    using p by (simp add: in_particle_def particle_modify_def particle_get_def)
  moreover have "valid_particles (s\<lparr>in_mc := particle_put (in_mc s) a (f p)\<rparr>) (List.map snd m)"
    using Cons.prems(2) by (intro valid_put) (simp add: valid_particles_def)
  moreover have "a \<notin> snd ` set m" using Cons.prems(1) by (simp add: x)
  ultimately show ?case using Cons.IH [of "s\<lparr>in_mc := particle_put (in_mc s) a (f p)\<rparr>"] Cons.prems(1) p(2)
    by (simp add: x heap_on_insert)
qed simp

lemma vertex_loop:
  assumes "distinct vs" and "valid_vertices s vs"
  shows "foldE (\<lambda>s v. vertex_modify s v f) s vs = Inr (vertices_on (set vs) f s)"
  using assms
proof (induction vs arbitrary: s)
  case (Cons a vs)
  obtain v where v: "a \<noteq> 0" "in_vertex s a = Some v" using Cons.prems(2) by (auto simp: valid_vertices_def)
  have "vertex_modify s a f = Inr (vertex_put s a (f v))" using v by (simp add: vertex_modify_def vertex_get_def)
  moreover have "valid_vertices (vertex_put s a (f v)) vs"
    using Cons.prems(2) by (intro valid_vertex_put) (simp add: valid_vertices_def)
  ultimately show ?case using Cons.IH [of "vertex_put s a (f v)"] Cons.prems(1) v(2) by (simp add: vertices_on_insert)
qed simp

section \<open>One interaction\<close>

definition particle_objects :: "Interaction \<Rightarrow> nat list" where
  "particle_objects i = List.map snd (ia_particles i)"

definition vertex_objects :: "Interaction \<Rightarrow> nat list" where
  "vertex_objects i = concat (List.map snd (ia_vertices i))"

text \<open>The number of identifiers an interaction takes.\<close>

definition extent :: "Interaction \<Rightarrow> int" where
  "extent i = (if ia_particles i = [] then 0 else fst (last (ia_particles i)) + 1)"

definition shifted :: "int \<Rightarrow> Interaction \<Rightarrow> (int, nat) std_map" where
  "shifted off i = List.map (\<lambda>(k, a). (k + off, a)) (ia_particles i)"

lemma applyMask_effect:
  assumes "distinct (particle_objects i)" and "valid_particles s (particle_objects i)"
    and "distinct (vertex_objects i)" and "valid_vertices s (vertex_objects i)"
  shows "applyMask s i = Inr (vertices_on (set (vertex_objects i)) (\<lambda>v. v\<lparr>vx_mask := ia_mask i\<rparr>)
    (heap_on (set (particle_objects i)) (\<lambda>p. p\<lparr>pt_mask := word_of_int (ia_mask i)\<rparr>) s))"
proof -
  have "foldE (\<lambda>s (k, a). in_particle s (\<lambda>m. particle_modify m a (\<lambda>p. p\<lparr>pt_mask := word_of_int (ia_mask i)\<rparr>))) s (ia_particles i) =
    Inr (heap_on (set (particle_objects i)) (\<lambda>p. p\<lparr>pt_mask := word_of_int (ia_mask i)\<rparr>) s)"
    using particle_loop [of "ia_particles i" s "\<lambda>p. p\<lparr>pt_mask := word_of_int (ia_mask i)\<rparr>"] assms(1,2) by (simp add: particle_objects_def)
  moreover have "foldE (\<lambda>s v. vertex_modify s v (\<lambda>v. v\<lparr>vx_mask := ia_mask i\<rparr>)) (heap_on A f s) (vertex_objects i) =
    Inr (vertices_on (set (vertex_objects i)) (\<lambda>v. v\<lparr>vx_mask := ia_mask i\<rparr>) (heap_on A f s))" for A f
    using assms(3,4) by (intro vertex_loop) (simp_all add: on_simps)
  ultimately show ?thesis by (simp add: applyMask_def vertex_objects_def)
qed

text \<open>Identifiers of the particles are their keys in the map.\<close>

definition keyed_particles :: "'d InputState \<Rightarrow> (int, nat) std_map \<Rightarrow> bool" where
  "keyed_particles s m \<longleftrightarrow> (\<forall>(k, a) \<in> set m. a \<noteq> 0 \<and> map_option pt_id (mc_heap (in_mc s) a) = Some k)"

lemma keyed_valid: "keyed_particles s m \<Longrightarrow> valid_particles s (List.map snd m)"
  by (auto simp: keyed_particles_def valid_particles_def)

lemma rebase_loop:
  assumes "distinct (List.map snd m)" and "keyed_particles s m"
  shows "foldE (rebase_particle off) (s, x) m =
    Inr (heap_on (snd ` set m) (particle_offset off) s, foldl (\<lambda>x k. max x (k + off + 1)) x (List.map fst m))"
  using assms
proof (induction m arbitrary: s x)
  case (Cons y m)
  obtain k a where y: "y = (k, a)" by (cases y)
  obtain p where p: "a \<noteq> 0" "mc_heap (in_mc s) a = Some p" "pt_id p = k" using Cons.prems(2) by (auto simp: keyed_particles_def y)
  let ?s = "s\<lparr>in_mc := particle_put (in_mc s) a (particle_offset off p)\<rparr>"
  have new: "a \<notin> snd ` set m" using Cons.prems(1) by (simp add: y)
  have "rebase_particle off (s, x) (k, a) = Inr (?s, max x (k + off + 1))"
    using p by (simp add: rebase_particle_def particle_get_def particle_offset_def max_def Let_def)
  moreover have "keyed_particles ?s m" using Cons.prems(2) new by (force simp: keyed_particles_def particle_put_def y)
  ultimately show ?case using Cons.IH [of ?s "max x (k + off + 1)"] Cons.prems(1) heap_on_insert [OF new p(2), of "particle_offset off"]
    by (simp add: y)
qed simp

lemma highest:
  assumes "sorted_wrt (<) ks" and "\<forall>k \<in> set ks. 0 \<le> k" and "x = off"
  shows "foldl (\<lambda>x k. max x (k + off + 1)) x ks = (if ks = [] then off else last ks + off + (1::int))"
  using assms(1,2)
proof (induction ks rule: rev_induct)
  case (snoc k ks)
  have "ks \<noteq> [] \<Longrightarrow> last ks < k" using snoc.prems(1) by (simp add: sorted_wrt_append)
  then have "ks \<noteq> [] \<Longrightarrow> max (last ks + off + 1) (k + off + 1) = k + off + 1" by simp
  then show ?case using snoc.IH snoc.prems by (auto simp: sorted_wrt_append)
qed (simp add: assms(3))

lemma rebaseParticles_effect:
  assumes "distinct (particle_objects i)" and "keyed_particles s (ia_particles i)" and "map_ok (ia_particles i)" and "\<forall>k \<in> fst ` set (ia_particles i). 0 \<le> k"
  shows "rebaseParticles s (ia_particles i) off = Inr (heap_on (set (particle_objects i)) (particle_offset off) s, off + extent i)"
  using rebase_loop [OF assms(1) [unfolded particle_objects_def] assms(2), of off off]
    highest [OF assms(3) [unfolded map_ok_def], of off off] assms(4)
  by (simp add: rebaseParticles_def particle_objects_def extent_def last_map)

lemma rebaseVertices_effect:
  assumes "distinct (vertex_objects i)" and "valid_vertices s (vertex_objects i)"
  shows "rebaseVertices s (ia_vertices i) off = Inr (vertices_on (set (vertex_objects i)) (rebase_vertex off) s)"
  using vertex_loop [OF assms] by (simp add: rebaseVertices_def vertex_objects_def)

text \<open>The particles of an interaction are appended behind those that are there.\<close>

lemma assign_last: "\<forall>k' \<in> fst ` set m. k' < k \<Longrightarrow> map_assign k v m = m @ [(k, v)]"
  by (induction k v m rule: map_assign.induct) auto

lemma emplace_last:
  assumes "\<forall>k' \<in> fst ` set m. k' < k"
  shows "fst (map_emplace k v m) = m @ [(k, v)]"
proof -
  have "map_of m k = None" using assms by (auto simp: map_of_eq_None_iff)
  then show ?thesis by (simp add: map_emplace_def assign_last [OF assms])
qed

abbreviation with_particles :: "(int, nat) std_map \<Rightarrow> 'd InputState \<Rightarrow> 'd InputState" where
  "with_particles m s \<equiv> s\<lparr>in_mc := (in_mc s)\<lparr>ev_particles := m\<rparr>\<rparr>"

lemma particles_heap_order: "m\<lparr>ev_particles := x, mc_heap := h\<rparr> = m\<lparr>mc_heap := h, ev_particles := x\<rparr>"
  by (rule MCState.equality) simp_all

lemma append_loop:
  assumes "distinct (List.map snd m)" and "\<forall>(k, a) \<in> set m. a \<noteq> 0 \<and> map_option pt_id (mc_heap (in_mc s) a) = Some (k + off)"
    and "map_ok m" and "\<forall>k \<in> fst ` set m. \<forall>j \<in> fst ` set (ev_particles (in_mc s)). j < k + off"
  shows "foldE append_particle s m = Inr (with_particles (ev_particles (in_mc s) @ List.map (\<lambda>(k, a). (k + off, a)) m)
    (heap_on (snd ` set m) (\<lambda>p. p\<lparr>pt_ref := pt_ref p + 1\<rparr>) s))"
  using assms
proof (induction m arbitrary: s)
  case (Cons y m)
  obtain k a where y: "y = (k, a)" by (cases y)
  obtain p where p: "a \<noteq> 0" "mc_heap (in_mc s) a = Some p" "pt_id p = k + off" using Cons.prems(2) by (auto simp: y)
  let ?f = "\<lambda>p :: 'a Particle. p\<lparr>pt_ref := pt_ref p + 1\<rparr>"
  let ?s1 = "s\<lparr>in_mc := particle_put (in_mc s) a (?f p)\<rparr>"
  let ?s = "with_particles (ev_particles (in_mc s) @ [(k + off, a)]) ?s1"
  have new: "a \<notin> snd ` set m" using Cons.prems(1) by (simp add: y)
  have "fst (map_emplace (pt_id p) a (ev_particles (in_mc s))) = ev_particles (in_mc s) @ [(k + off, a)]"
    using Cons.prems(4) by (simp add: p(3) y emplace_last)
  then have "append_particle s (k, a) = Inr ?s"
    using p by (simp add: append_particle_def particle_get_def in_particle_def particle_addRef_def particle_modify_def particle_put_def)
  moreover have "foldE append_particle ?s m = Inr (with_particles (ev_particles (in_mc ?s) @ List.map (\<lambda>(k, a). (k + off, a)) m)
      (heap_on (snd ` set m) ?f ?s))"
  proof (rule Cons.IH)
    show "distinct (List.map snd m)" "map_ok m" using Cons.prems(1,3) by (simp_all add: y map_ok_Cons)
    show "\<forall>(k, a) \<in> set m. a \<noteq> 0 \<and> map_option pt_id (mc_heap (in_mc ?s) a) = Some (k + off)"
      using Cons.prems(2) new by (force simp: particle_put_def y)
    show "\<forall>k \<in> fst ` set m. \<forall>j \<in> fst ` set (ev_particles (in_mc ?s)). j < k + off"
      using Cons.prems(3,4) by (auto simp: y map_ok_Cons particle_put_def)
  qed
  moreover have "heap_on (snd ` set m) ?f ?s = with_particles (ev_particles (in_mc ?s)) (heap_on (insert a (snd ` set m)) ?f s)"
    using on_set_insert [OF new, of ?f "mc_heap (in_mc s)"] p(2) by (simp add: heap_on_def particle_put_def particles_heap_order)
  ultimately show ?case by (simp add: y)
qed (simp add: heap_on_def)

text \<open>The vertices of an interaction with one mask, under a mask that is above those that are there.\<close>

lemma append_vertices_loop:
  assumes "distinct vs" and "valid_vertices s vs" and "\<forall>j \<in> fst ` set m. j < k" and "in_vertices s = m @ (if ws = [] then [] else [(k, ws)])"
  shows "foldE (append_vertex k) s vs = Inr ((vertices_on (set vs) (\<lambda>v. v\<lparr>vx_ref := vx_ref v + 1\<rparr>) s)
    \<lparr>in_vertices := m @ (if ws @ vs = [] then [] else [(k, ws @ vs)])\<rparr>)"
  using assms
proof (induction vs arbitrary: s ws)
  case (Cons a vs)
  obtain v where v: "a \<noteq> 0" "in_vertex s a = Some v" using Cons.prems(2) by (auto simp: valid_vertices_def)
  let ?f = "\<lambda>v :: 'a Vertex. v\<lparr>vx_ref := vx_ref v + 1\<rparr>"
  let ?s = "(vertex_put s a (?f v))\<lparr>in_vertices := m @ [(k, ws @ [a])]\<rparr>"
  have new: "a \<notin> set vs" using Cons.prems(1) by simp
  have none: "map_of m k = None" using Cons.prems(3) by (auto simp: map_of_eq_None_iff)
  have "vertices_add k a (in_vertices s) = m @ [(k, ws @ [a])]"
  proof (cases "ws = []")
    case True
    then show ?thesis using none assign_last [OF Cons.prems(3)] by (simp add: vertices_add_def Cons.prems(4))
  next
    case False
    have "map_assign k w (m @ [(k, u)]) = m @ [(k, w)]" for w u :: "nat list" using Cons.prems(3)
      by (induction m) (auto)
    then show ?thesis using none False by (simp add: vertices_add_def Cons.prems(4) map_of_append map_add_def)
  qed
  then have "append_vertex k s a = Inr ?s"
    using v by (simp add: append_vertex_def vertex_addRef_def vertex_modify_def vertex_get_def vertex_put_def)
  moreover have "foldE (append_vertex k) ?s vs = Inr ((vertices_on (set vs) ?f ?s)\<lparr>in_vertices := m @ (if (ws @ [a]) @ vs = [] then [] else [(k, (ws @ [a]) @ vs)])\<rparr>)"
    by (rule Cons.IH) (use Cons.prems in \<open>auto simp: valid_vertices_def vertex_put_def\<close>)
  moreover have "(vertices_on (set vs) ?f ?s)\<lparr>in_vertices := x\<rparr> = (vertices_on (insert a (set vs)) ?f s)\<lparr>in_vertices := x\<rparr>" for x
    using on_set_insert [OF new, of ?f "in_vertex s"] v(2) by (intro InputState.equality) (simp_all add: vertices_on_def vertex_put_def)
  ultimately show ?case by simp
qed (simp add: vertices_on_def)

text \<open>
  An interaction as the readers and generators make it: particles under their identifiers, at most one mask, and objects of its own.
\<close>

definition interaction_ok :: "'d InputState \<Rightarrow> Interaction \<Rightarrow> bool" where
  "interaction_ok s i \<longleftrightarrow> map_ok (ia_particles i) \<and> (\<forall>k \<in> fst ` set (ia_particles i). 0 \<le> k) \<and> keyed_particles s (ia_particles i) \<and>
     distinct (particle_objects i) \<and> distinct (vertex_objects i) \<and> valid_vertices s (vertex_objects i) \<and> length (ia_vertices i) \<le> 1"

definition merged_particle :: "int \<Rightarrow> Interaction \<Rightarrow> 'd Particle \<Rightarrow> 'd Particle" where
  "merged_particle off i p = (particle_offset off p)\<lparr>pt_mask := word_of_int (ia_mask i), pt_ref := pt_ref p + 1\<rparr>"

definition merged_vertex :: "int \<Rightarrow> Interaction \<Rightarrow> 'd Vertex \<Rightarrow> 'd Vertex" where
  "merged_vertex off i v = (rebase_vertex off v)\<lparr>vx_mask := ia_mask i, vx_ref := vx_ref v + 1\<rparr>"

definition own_vertices :: "Interaction \<Rightarrow> (int, nat list) std_map" where
  "own_vertices i = (if vertex_objects i = [] then [] else [(ia_mask i, vertex_objects i)])"

definition merged_into :: "int \<Rightarrow> Interaction \<Rightarrow> 'd InputState \<Rightarrow> 'd InputState" where
  "merged_into off i s = (with_particles (ev_particles (in_mc s) @ shifted off i)
     (vertices_on (set (vertex_objects i)) (merged_vertex off i) (heap_on (set (particle_objects i)) (merged_particle off i) s)))
     \<lparr>in_vertices := in_vertices s @ own_vertices i\<rparr>"

lemma merged_into_simps [on_simps]:
  "mc_heap (in_mc (merged_into off i s)) = on_set (set (particle_objects i)) (merged_particle off i) (mc_heap (in_mc s))"
  "ev_particles (in_mc (merged_into off i s)) = ev_particles (in_mc s) @ shifted off i"
  "in_vertex (merged_into off i s) = on_set (set (vertex_objects i)) (merged_vertex off i) (in_vertex s)"
  "in_vertices (merged_into off i s) = in_vertices s @ own_vertices i"
  "in_aborts (merged_into off i s) = in_aborts s"
  by (simp_all add: merged_into_def heap_on_def vertices_on_def)

lemma append_one:
  assumes "length (ia_vertices i) \<le> 1" and "distinct (vertex_objects i)" and "valid_vertices s (vertex_objects i)" and "\<forall>j \<in> fst ` set (in_vertices s). j < ia_mask i"
  shows "foldE (append_vertices (ia_mask i)) s (ia_vertices i) =
    Inr ((vertices_on (set (vertex_objects i)) (\<lambda>v. v\<lparr>vx_ref := vx_ref v + 1\<rparr>) s)\<lparr>in_vertices := in_vertices s @ own_vertices i\<rparr>)"
proof (cases "ia_vertices i")
  case Nil
  then show ?thesis by (simp add: vertex_objects_def own_vertices_def)
next
  case (Cons y r)
  then obtain k vs where i: "ia_vertices i = [(k, vs)]" using assms(1) by (cases y) auto
  then have vs: "vertex_objects i = vs" by (simp add: vertex_objects_def)
  have "map_of (in_vertices s) (ia_mask i) = None" using assms(4) by (auto simp: map_of_eq_None_iff)
  then have "foldE (append_vertices (ia_mask i)) s (ia_vertices i) = foldE (append_vertex (ia_mask i)) s vs"
    by (simp add: i append_vertices_def bindE_def split: sum.split)
  then show ?thesis using append_vertices_loop [of vs s "in_vertices s" "ia_mask i" "[]"] assms(2-4) by (simp add: vs own_vertices_def)
qed

lemma merge_one:
  assumes "interaction_ok s i" and "\<forall>j \<in> fst ` set (ev_particles (in_mc s)). j < off" and "\<forall>j \<in> fst ` set (in_vertices s). j < ia_mask i"
  shows "merge_interaction (s, off) i = Inr (merged_into off i s, off + extent i)"
proof -
  let ?P = "set (particle_objects i)" and ?V = "set (vertex_objects i)"
  let ?m = "\<lambda>p :: 'a Particle. p\<lparr>pt_mask := word_of_int (ia_mask i)\<rparr>" and ?n = "\<lambda>v :: 'a Vertex. v\<lparr>vx_mask := ia_mask i\<rparr>"
  let ?r = "\<lambda>p :: 'a Particle. p\<lparr>pt_ref := pt_ref p + 1\<rparr>" and ?q = "\<lambda>v :: 'a Vertex. v\<lparr>vx_ref := vx_ref v + 1\<rparr>"
  have ok: "map_ok (ia_particles i)" "\<forall>k \<in> fst ` set (ia_particles i). 0 \<le> k" "keyed_particles s (ia_particles i)" "distinct (particle_objects i)"
    "distinct (vertex_objects i)" "valid_vertices s (vertex_objects i)" "length (ia_vertices i) \<le> 1"
    using assms(1) by (auto simp: interaction_ok_def)
  have vp: "valid_particles s (particle_objects i)" using keyed_valid [OF ok(3)] by (simp add: particle_objects_def)
  let ?s1 = "vertices_on ?V ?n (heap_on ?P ?m s)"
  have 1: "applyMask s i = Inr ?s1" by (rule applyMask_effect [OF ok(4) vp ok(5,6)])
  have k1: "keyed_particles ?s1 (ia_particles i)"
    using ok(3) by (force simp: keyed_particles_def on_simps on_set_def)
  let ?s2 = "heap_on ?P (particle_offset off) ?s1"
  have 2: "rebaseParticles ?s1 (ia_particles i) off = Inr (?s2, off + extent i)" by (rule rebaseParticles_effect [OF ok(4) k1 ok(1,2)])
  let ?s3 = "vertices_on ?V (rebase_vertex off) ?s2"
  have 3: "rebaseVertices ?s2 (ia_vertices i) off = Inr ?s3" by (rule rebaseVertices_effect [OF ok(5)]) (simp add: on_simps ok(6))
  let ?s4 = "with_particles (ev_particles (in_mc s) @ shifted off i) (heap_on ?P ?r ?s3)"
  have 4: "foldE append_particle ?s3 (ia_particles i) = Inr ?s4"
  proof -
    have "\<forall>(k, a) \<in> set (ia_particles i). a \<noteq> 0 \<and> map_option pt_id (mc_heap (in_mc ?s3) a) = Some (k + off)"
    proof clarify
      fix k a assume a: "(k, a) \<in> set (ia_particles i)"
      then have P: "a \<in> ?P" by (force simp: particle_objects_def)
      obtain p where "a \<noteq> 0" "mc_heap (in_mc s) a = Some p" "pt_id p = k" using ok(3) a by (auto simp: keyed_particles_def)
      then show "a \<noteq> 0 \<and> map_option pt_id (mc_heap (in_mc ?s3) a) = Some (k + off)" using P by (simp add: on_simps on_set_in particle_offset_def)
    qed
    moreover have "j < k + off" if "k \<in> fst ` set (ia_particles i)" "j \<in> fst ` set (ev_particles (in_mc s))" for j k
      using bspec [OF ok(2) that(1)] bspec [OF assms(2) that(2)] by simp
    ultimately show ?thesis using append_loop [OF ok(4) [unfolded particle_objects_def] _ ok(1), of ?s3 off]
      by (simp add: on_simps particle_objects_def shifted_def)
  qed
  have 5: "foldE (append_vertices (ia_mask i)) ?s4 (ia_vertices i) = Inr ((vertices_on ?V ?q ?s4)\<lparr>in_vertices := in_vertices ?s4 @ own_vertices i\<rparr>)"
    by (rule append_one [OF ok(7,5)]) (use ok(6) assms(3) in \<open>simp_all add: on_simps valid_vertices_def\<close>)
  have "?r \<circ> (particle_offset off \<circ> ?m) = merged_particle off i" by (rule ext) (simp add: merged_particle_def particle_offset_def)
  moreover have "?q \<circ> (rebase_vertex off \<circ> ?n) = merged_vertex off i" by (rule ext) (simp add: merged_vertex_def rebase_vertex_def)
  ultimately have "(vertices_on ?V ?q ?s4)\<lparr>in_vertices := in_vertices ?s4 @ own_vertices i\<rparr> = merged_into off i s"
    unfolding merged_into_def
    by (intro InputState.equality MCState.equality) (simp_all add: heap_on_def vertices_on_def on_set_comp comp_assoc)
  then show ?thesis using 1 2 3 4 5 by (simp add: merge_interaction_def appendInteraction_def)
qed

section \<open>All interactions\<close>

text \<open>The interactions with the number by which their identifiers are shifted.\<close>

fun offsets :: "int \<Rightarrow> Interaction list \<Rightarrow> (int \<times> Interaction) list" where
  "offsets off [] = []"
| "offsets off (i # is) = (off, i) # offsets (off + extent i) is"

definition interactions_ok :: "'d InputState \<Rightarrow> Interaction list \<Rightarrow> bool" where
  "interactions_ok s is \<longleftrightarrow> (\<forall>i \<in> set is. interaction_ok s i) \<and> sorted_wrt (<) (List.map ia_mask is) \<and>
     distinct (concat (List.map particle_objects is)) \<and> distinct (concat (List.map vertex_objects is))"

definition merged_all :: "(int \<times> Interaction) list \<Rightarrow> 'd InputState \<Rightarrow> 'd InputState" where
  "merged_all ois s = foldl (\<lambda>s (off, i). merged_into off i s) s ois"

lemma merged_all_Cons [simp]: "merged_all ((off, i) # ois) s = merged_all ois (merged_into off i s)"
  by (simp add: merged_all_def)

lemma merged_all_Nil [simp]: "merged_all [] s = s"
  by (simp add: merged_all_def)

lemma offsets_snd [simp]: "List.map snd (offsets off is) = is"
  by (induction off "is" rule: offsets.induct) auto

lemma extent_positive: "interaction_ok s i \<Longrightarrow> 0 \<le> extent i"
  by (auto simp: interaction_ok_def extent_def)

lemma below_extent:
  assumes "interaction_ok s i" and "k \<in> fst ` set (ia_particles i)"
  shows "k < extent i"
proof -
  let ?m = "ia_particles i"
  have "?m \<noteq> []" using assms(2) by auto
  then obtain m y where m: "?m = m @ [y]" by (metis rev_exhaust)
  have "sorted_wrt (<) (List.map fst m @ [fst y])" using assms(1) by (simp add: interaction_ok_def map_ok_def m)
  then show ?thesis using assms(2) by (auto simp: extent_def m sorted_wrt_append)
qed

lemma own_vertices_keys: "fst ` set (own_vertices i) \<subseteq> {ia_mask i}"
  by (auto simp: own_vertices_def)

lemma interaction_ok_other:
  assumes "interaction_ok s j" and "set (particle_objects j) \<inter> set (particle_objects i) = {}" and "set (vertex_objects j) \<inter> set (vertex_objects i) = {}"
  shows "interaction_ok (merged_into off i s) j"
proof -
  have "keyed_particles s (ia_particles j) \<Longrightarrow> keyed_particles (merged_into off i s) (ia_particles j)"
  proof -
    assume k: "keyed_particles s (ia_particles j)"
    have "mc_heap (in_mc (merged_into off i s)) a = mc_heap (in_mc s) a" if "(k, a) \<in> set (ia_particles j)" for k a
    proof -
      have "a \<in> set (particle_objects j)" using that by (force simp: particle_objects_def)
      then have "a \<notin> set (particle_objects i)" using assms(2) by blast
      then show ?thesis by (simp add: on_simps on_set_out)
    qed
    then show ?thesis using k unfolding keyed_particles_def by (metis (no_types, lifting) case_prodE case_prodI)
  qed
  moreover have "valid_vertices s (vertex_objects j) \<Longrightarrow> valid_vertices (merged_into off i s) (vertex_objects j)"
    by (simp add: valid_vertices_def on_simps)
  ultimately show ?thesis using assms(1) by (simp add: interaction_ok_def)
qed

lemma merge_loop:
  assumes "interactions_ok s is" and "\<forall>j \<in> fst ` set (ev_particles (in_mc s)). j < off"
    and "\<forall>i \<in> set is. \<forall>j \<in> fst ` set (in_vertices s). j < ia_mask i"
  shows "foldE merge_interaction (s, off) is = Inr (merged_all (offsets off is) s, off + sum_list (List.map extent is))"
  using assms
proof (induction "is" arbitrary: s off)
  case (Cons i "is")
  have ok: "interaction_ok s i" and ord: "\<forall>j \<in> set is. ia_mask i < ia_mask j"
    and disj: "\<forall>j \<in> set is. set (particle_objects j) \<inter> set (particle_objects i) = {} \<and> set (vertex_objects j) \<inter> set (vertex_objects i) = {}"
    using Cons.prems(1) by (auto simp: interactions_ok_def)
  have "merge_interaction (s, off) i = Inr (merged_into off i s, off + extent i)"
    by (rule merge_one [OF ok Cons.prems(2)]) (use Cons.prems(3) in simp)
  moreover have "interactions_ok (merged_into off i s) is"
    using Cons.prems(1) disj interaction_ok_other [where i = i and s = s and off = off] by (auto simp: interactions_ok_def)
  moreover have "\<forall>j \<in> fst ` set (ev_particles (in_mc (merged_into off i s))). j < off + extent i"
    using Cons.prems(2) below_extent [OF ok] extent_positive [OF ok] by (fastforce simp: on_simps shifted_def)
  moreover have "\<forall>l \<in> set is. \<forall>j \<in> fst ` set (in_vertices (merged_into off i s)). j < ia_mask l"
    using Cons.prems(3) ord own_vertices_keys [of i] by (auto simp: on_simps)
  ultimately show ?case using Cons.IH [of "merged_into off i s" "off + extent i"] by simp
qed simp

lemma merged_all_fields:
  "ev_particles (in_mc (merged_all ois s)) = ev_particles (in_mc s) @ concat (List.map (\<lambda>(off, i). shifted off i) ois) \<and>
   in_vertices (merged_all ois s) = in_vertices s @ concat (List.map (own_vertices \<circ> snd) ois) \<and> in_aborts (merged_all ois s) = in_aborts s"
  by (induction ois arbitrary: s) (auto simp: on_simps)

definition mc_frame :: "'d MCState \<Rightarrow> 'd MCState" where
  "mc_frame m = m\<lparr>mc_heap := Map.empty, ev_particles := [], ev_nextPID := 0\<rparr>"

lemma merged_all_frame: "mc_frame (in_mc (merged_all ois s)) = mc_frame (in_mc s) \<and> (mc_heap (in_mc (merged_all ois s)) a = None \<longleftrightarrow> mc_heap (in_mc s) a = None)"
proof (induction ois arbitrary: s)
  case (Cons oi ois)
  obtain off i where oi: "oi = (off, i)" by (cases oi)
  have "mc_frame (in_mc (merged_into off i s)) = mc_frame (in_mc s)" by (simp add: mc_frame_def merged_into_def heap_on_def vertices_on_def)
  then show ?case using Cons.IH [of "merged_into off i s"] by (simp add: oi on_simps)
qed simp

text \<open>What has become of the objects of the interactions; others are as they were.\<close>

lemma merged_objects:
  assumes "distinct (concat (List.map (f \<circ> snd) ois))" and "\<And>s off i. sel (merged_into off i s) = on_set (set (f i)) (g off i) (sel s)"
  shows "\<forall>(off, i) \<in> set ois. \<forall>a \<in> set (f i). sel (merged_all ois s) a = map_option (g off i) (sel s a)"
    and "a \<notin> set (concat (List.map (f \<circ> snd) ois)) \<Longrightarrow> sel (merged_all ois s) a = sel s a"
proof -
  show out: "a \<notin> set (concat (List.map (f \<circ> snd) ois)) \<Longrightarrow> sel (merged_all ois s) a = sel s a" for a s
  proof (induction ois arbitrary: s)
    case (Cons oi ois)
    then show ?case by (cases oi) (simp add: assms(2) on_set_out)
  qed simp
  show "\<forall>(off, i) \<in> set ois. \<forall>a \<in> set (f i). sel (merged_all ois s) a = map_option (g off i) (sel s a)"
    using assms(1) out
  proof (induction ois arbitrary: s)
    case (Cons oi ois)
    obtain off i where oi: "oi = (off, i)" by (cases oi)
    have o: "a \<notin> set (concat (List.map (f \<circ> snd) ois)) \<Longrightarrow> sel (merged_all ois s) a = sel s a" for a s
      by (induction ois arbitrary: s) (auto simp: assms(2) on_set_out)
    have d: "distinct (concat (List.map (f \<circ> snd) ois))" "set (f i) \<inter> set (concat (List.map (f \<circ> snd) ois)) = {}"
      using Cons.prems(1) by (auto simp: oi comp_def)
    have IH: "\<forall>(off', i') \<in> set ois. \<forall>a \<in> set (f i'). sel (merged_all ois t) a = map_option (g off' i') (sel t a)" for t
      by (rule Cons.IH [OF d(1) o])
    have here: "sel (merged_all ois (merged_into off i s)) a = map_option (g off i) (sel s a)" if "a \<in> set (f i)" for a
    proof -
      have "a \<notin> set (concat (List.map (f \<circ> snd) ois))" using that d(2) by blast
      from o [OF this, of "merged_into off i s"] show ?thesis using that by (simp add: assms(2) on_set_in)
    qed
    have there: "sel (merged_into off i s) a = sel s a" if "(off', i') \<in> set ois" "a \<in> set (f i')" for off' i' a
    proof -
      have "a \<in> set (concat (List.map (f \<circ> snd) ois))" using that by force
      then have "a \<notin> set (f i)" using d(2) by blast
      then show ?thesis by (simp add: assms(2) on_set_out)
    qed
    show ?case using here IH [of "merged_into off i s"] there by (fastforce simp: oi)
  qed simp
qed

section \<open>The merged record\<close>

text \<open>The input of an event as it is merged: interactions under their masks, with objects of their own, and nothing merged yet.\<close>

definition inputs_ok :: "'d InputState \<Rightarrow> bool" where
  "inputs_ok s \<longleftrightarrow> map_ok (in_interactions s) \<and> (\<forall>(k, i) \<in> set (in_interactions s). ia_mask i = k) \<and>
     (\<forall>i \<in> set (event_interactions s). interaction_ok s i) \<and> distinct (concat (List.map particle_objects (event_interactions s))) \<and>
     distinct (concat (List.map vertex_objects (event_interactions s))) \<and> ev_particles (in_mc s) = [] \<and> in_vertices s = []"

lemma inputs_interactions:
  assumes "inputs_ok s"
  shows "interactions_ok s (event_interactions s)"
proof -
  have "List.map ia_mask (event_interactions s) = List.map fst (in_interactions s)"
    using assms by (auto simp: inputs_ok_def event_interactions_def)
  then show ?thesis using assms by (simp add: inputs_ok_def interactions_ok_def map_ok_def)
qed

lemma merge_input:
  assumes "inputs_ok s"
  shows "mergeInteractions s = Inr (setNextPID (merged_all (offsets 0 (event_interactions s)) s) (sum_list (List.map extent (event_interactions s))))"
  using merge_loop [OF inputs_interactions [OF assms], of 0] assms by (simp add: mergeInteractions_def inputs_ok_def)

lemma offsets_range:
  assumes "\<forall>i \<in> set is. interaction_ok s i" and "(o', i) \<in> set (offsets off is)"
  shows "off \<le> o' \<and> o' + extent i \<le> off + sum_list (List.map extent is)"
  using assms
proof (induction off "is" rule: offsets.induct)
  case (2 off j js)
  have j: "0 \<le> extent j" and js: "\<forall>i \<in> set js. 0 \<le> extent i" using 2(2) extent_positive by auto
  have "0 \<le> sum_list (List.map extent js)" using js by (induction js) auto
  then show ?case using 2 j by auto
qed simp

lemma shifted_range:
  assumes "interaction_ok s i" and "(k, a) \<in> set (shifted off i)"
  shows "off \<le> k \<and> k < off + extent i"
proof -
  obtain j where "(j, a) \<in> set (ia_particles i)" "k = j + off" using assms(2) by (auto simp: shifted_def)
  moreover from this have "j \<in> fst ` set (ia_particles i)" by force
  ultimately show ?thesis using below_extent [OF assms(1)] assms(1) by (fastforce simp: interaction_ok_def)
qed

lemma merged_sorted:
  assumes "\<forall>i \<in> set is. interaction_ok s i"
  shows "map_ok (concat (List.map (\<lambda>(off, i). shifted off i) (offsets off is)))"
  using assms
proof (induction off "is" rule: offsets.induct)
  case (2 off i "is")
  have ok: "interaction_ok s i" using "2.prems" by simp
  have here: "sorted_wrt (<) (List.map fst (shifted off i))"
    using ok by (simp add: interaction_ok_def map_ok_def shifted_def sorted_wrt_map case_prod_unfold comp_def)
  have "off + extent i \<le> k" if ka: "(k, a) \<in> set (concat (List.map (\<lambda>(off, i). shifted off i) (offsets (off + extent i) is)))" for k a
  proof -
    obtain o' j where j: "(o', j) \<in> set (offsets (off + extent i) is)" "(k, a) \<in> set (shifted o' j)" using ka by auto
    have "j \<in> set is" using j(1) offsets_snd [of "off + extent i" "is"] by (metis image_eqI list.set_map snd_conv)
    then have "interaction_ok s j" using "2.prems" by simp
    then show ?thesis using shifted_range [OF _ j(2)] offsets_range [OF _ j(1)] "2.prems" by fastforce
  qed
  moreover have "k < off + extent i" if "(k, a) \<in> set (shifted off i)" for k a using shifted_range [OF ok that] by simp
  ultimately have "\<forall>x \<in> fst ` set (shifted off i). \<forall>y \<in> fst ` set (concat (List.map (\<lambda>(off, i). shifted off i) (offsets (off + extent i) is))). x < y"
    by force
  then show ?case using here "2.IH" "2.prems" by (simp add: map_ok_def sorted_wrt_append)
qed simp

lemma merged_input:
  assumes "inputs_ok s"
  defines "ois \<equiv> offsets 0 (event_interactions s)"
  defines "t \<equiv> setNextPID (merged_all ois s) (sum_list (List.map extent (event_interactions s)))"
  shows "ev_particles (in_mc t) = concat (List.map (\<lambda>(off, i). shifted off i) ois)"
    and "in_vertices t = concat (List.map own_vertices (event_interactions s))"
    and "in_aborts t = in_aborts s" and "map_ok (ev_particles (in_mc t))"
    and "\<lbrakk>(off, i) \<in> set ois; (k, a) \<in> set (ia_particles i)\<rbrakk> \<Longrightarrow> mc_heap (in_mc t) a = map_option (merged_particle off i) (mc_heap (in_mc s) a)"
    and "\<lbrakk>(off, i) \<in> set ois; v \<in> set (vertex_objects i)\<rbrakk> \<Longrightarrow> in_vertex t v = map_option (merged_vertex off i) (in_vertex s v)"
    and "(off, i) \<in> set ois \<Longrightarrow> interaction_ok s i"
    and "(k, a) \<in> set (ev_particles (in_mc t)) \<Longrightarrow> 0 \<le> k \<and> k \<le> ev_nextPID (in_mc t)"
proof -
  let ?is = "event_interactions s"
  have none: "ev_particles (in_mc s) = []" "in_vertices s = []" and oks: "\<forall>i \<in> set ?is. interaction_ok s i"
    and dp: "distinct (concat (List.map particle_objects ?is))" and dv: "distinct (concat (List.map vertex_objects ?is))"
    using assms(1) by (auto simp: inputs_ok_def)
  have is': "List.map (f \<circ> snd) ois = List.map f ?is" for f :: "Interaction \<Rightarrow> 'z"
  proof -
    have "List.map (f \<circ> snd) ois = List.map f (List.map snd ois)" by simp
    then show ?thesis by (simp only: ois_def offsets_snd)
  qed
  have t: "mc_heap (in_mc t) = mc_heap (in_mc (merged_all ois s))" "ev_particles (in_mc t) = ev_particles (in_mc (merged_all ois s))"
    "in_vertices t = in_vertices (merged_all ois s)" "in_vertex t = in_vertex (merged_all ois s)" "in_aborts t = in_aborts (merged_all ois s)"
    "ev_nextPID (in_mc t) = sum_list (List.map extent ?is) - 1"
    by (simp_all add: t_def setNextPID_def)
  show p: "ev_particles (in_mc t) = concat (List.map (\<lambda>(off, i). shifted off i) ois)" using merged_all_fields [of ois s] none by (simp add: t)
  show "in_vertices t = concat (List.map own_vertices ?is)" using merged_all_fields [of ois s] none is' [of own_vertices] by (simp add: t)
  show "in_aborts t = in_aborts s" using merged_all_fields [of ois s] by (simp add: t)
  show "map_ok (ev_particles (in_mc t))" unfolding p ois_def by (rule merged_sorted [OF oks])
  show ok: "interaction_ok s i" if oi: "(off, i) \<in> set ois" for off i
  proof -
    have "i \<in> set ?is" using oi offsets_snd [of 0 ?is] unfolding ois_def by (metis image_eqI list.set_map snd_conv)
    then show ?thesis using oks by simp
  qed
  show "mc_heap (in_mc t) a = map_option (merged_particle off i) (mc_heap (in_mc s) a)" if oi: "(off, i) \<in> set ois" "(k, a) \<in> set (ia_particles i)"
  proof -
    have "a \<in> set (particle_objects i)" using oi(2) by (force simp: particle_objects_def)
    moreover have "\<forall>(off, i) \<in> set ois. \<forall>a \<in> set (particle_objects i). mc_heap (in_mc (merged_all ois s)) a = map_option (merged_particle off i) (mc_heap (in_mc s) a)"
      by (rule merged_objects (1) [where sel = "\<lambda>s. mc_heap (in_mc s)"]) (simp_all add: on_simps is' dp)
    ultimately show ?thesis using oi(1) by (auto simp: t)
  qed
  show "in_vertex t v = map_option (merged_vertex off i) (in_vertex s v)" if oi: "(off, i) \<in> set ois" "v \<in> set (vertex_objects i)"
  proof -
    have "\<forall>(off, i) \<in> set ois. \<forall>a \<in> set (vertex_objects i). in_vertex (merged_all ois s) a = map_option (merged_vertex off i) (in_vertex s a)"
      by (rule merged_objects (1) [where sel = in_vertex]) (simp_all add: on_simps is' dv)
    then show ?thesis using oi by (auto simp: t)
  qed
  show "0 \<le> k \<and> k \<le> ev_nextPID (in_mc t)" if k: "(k, a) \<in> set (ev_particles (in_mc t))"
  proof -
    obtain off i where oi: "(off, i) \<in> set ois" "(k, a) \<in> set (shifted off i)" using k by (auto simp: p)
    then show ?thesis using shifted_range [OF ok [OF oi(1)] oi(2)] offsets_range [OF oks, of off i 0] by (simp add: ois_def t)
  qed
qed

text \<open>C32. Merging succeeds for any interactions of the readers and generators, without a report. The merged record is that of the
  interactions in the order of their masks, each shifted behind the ones before: every particle keeps its object under its shifted identifier, its relations
  are shifted with it, it carries the mask of its interaction and one more reference; so do the vertices. The next identifier is above all.\<close>

theorem merging_spec:
  assumes "inputs_ok s"
  shows "\<exists>t. mergeInteractions s = Inr t \<and> in_aborts t = in_aborts s \<and> map_ok (ev_particles (in_mc t)) \<and>
    ev_particles (in_mc t) = concat (List.map (\<lambda>(off, i). List.map (\<lambda>(k, a). (k + off, a)) (ia_particles i)) (offsets 0 (event_interactions s))) \<and>
    in_vertices t = concat (List.map own_vertices (event_interactions s)) \<and>
    (\<forall>(off, i) \<in> set (offsets 0 (event_interactions s)).
      (\<forall>(k, a) \<in> set (ia_particles i). \<exists>p. mc_heap (in_mc s) a = Some p \<and> mc_heap (in_mc t) a = Some (p\<lparr>pt_id := k + off,
         pt_daughters := (\<lambda>j. j + off) ` pt_daughters p, pt_parents := (\<lambda>j. j + off) ` pt_parents p,
         pt_mask := word_of_int (ia_mask i), pt_ref := pt_ref p + 1\<rparr>)) \<and>
      (\<forall>v \<in> set (vertex_objects i). in_vertex t v = map_option (merged_vertex off i) (in_vertex s v))) \<and>
    (\<forall>k \<in> fst ` set (ev_particles (in_mc t)). 0 \<le> k \<and> k \<le> ev_nextPID (in_mc t))"
proof -
  let ?ois = "offsets 0 (event_interactions s)"
  let ?t = "setNextPID (merged_all ?ois s) (sum_list (List.map extent (event_interactions s)))"
  note m = merged_input [OF assms]
  have particle: "\<exists>p. mc_heap (in_mc s) a = Some p \<and> map_option (merged_particle off i) (mc_heap (in_mc s) a) = Some (p\<lparr>pt_id := k + off,
         pt_daughters := (\<lambda>j. j + off) ` pt_daughters p, pt_parents := (\<lambda>j. j + off) ` pt_parents p,
         pt_mask := word_of_int (ia_mask i), pt_ref := pt_ref p + 1\<rparr>)"
    if oi: "(off, i) \<in> set (offsets 0 (event_interactions s))" "(k, a) \<in> set (ia_particles i)" for off i k a
    using m(7) [OF oi(1)] oi(2) by (auto simp: interaction_ok_def keyed_particles_def merged_particle_def particle_offset_def)
  have range: "\<forall>k \<in> fst ` set (ev_particles (in_mc ?t)). 0 \<le> k \<and> k \<le> ev_nextPID (in_mc ?t)" using m(8) by fastforce
  have parts: "ev_particles (in_mc ?t) = concat (List.map (\<lambda>(off, i). List.map (\<lambda>(k, a). (k + off, a)) (ia_particles i)) ?ois)"
    using m(1) by (simp add: shifted_def [abs_def])
  have objects: "\<forall>(off, i) \<in> set ?ois. (\<forall>(k, a) \<in> set (ia_particles i). \<exists>p. mc_heap (in_mc s) a = Some p \<and> mc_heap (in_mc ?t) a = Some (p\<lparr>pt_id := k + off,
         pt_daughters := (\<lambda>j. j + off) ` pt_daughters p, pt_parents := (\<lambda>j. j + off) ` pt_parents p,
         pt_mask := word_of_int (ia_mask i), pt_ref := pt_ref p + 1\<rparr>)) \<and>
      (\<forall>v \<in> set (vertex_objects i). in_vertex ?t v = map_option (merged_vertex off i) (in_vertex s v))"
  proof (intro ballI, clarify)
    fix off i assume oi: "(off, i) \<in> set ?ois"
    show "(\<forall>(k, a) \<in> set (ia_particles i). \<exists>p. mc_heap (in_mc s) a = Some p \<and> mc_heap (in_mc ?t) a = Some (p\<lparr>pt_id := k + off,
         pt_daughters := (\<lambda>j. j + off) ` pt_daughters p, pt_parents := (\<lambda>j. j + off) ` pt_parents p,
         pt_mask := word_of_int (ia_mask i), pt_ref := pt_ref p + 1\<rparr>)) \<and>
      (\<forall>v \<in> set (vertex_objects i). in_vertex ?t v = map_option (merged_vertex off i) (in_vertex s v))"
      using particle [OF oi] m(5) [OF oi] m(6) [OF oi] by auto
  qed
  show ?thesis by (intro exI [of _ ?t] conjI merge_input [OF assms] m(2-4) range parts objects)
qed

text \<open>Two interactions with one particle each.\<close>

definition sample_electron :: "nat Particle" where
  "sample_electron = \<lparr>pt_ref = 1, pt_id = 0, pt_originalG4ID = 0, pt_g4Parent = 0, pt_reason = 0, pt_mask = 0,
     pt_steps = 0, pt_secondaries = 0, pt_pdgID = 11, pt_status = G4PARTICLE_GEN_STABLE, pt_colorFlow = (0, 0), pt_genStatus = 0, pt_charge = 0,
     pt_spin = (0, 0, 0), pt_vs = (0, 0, 0), pt_ve = (0, 0, 0), pt_ps = (0, 0, 0), pt_pe = (0, 0, 0), pt_mass = 0, pt_time = 0,
     pt_properTime = 0, pt_parents = {}, pt_daughters = {}, pt_extension = None, pt_process = None\<rparr>"

definition sample_vertex :: "nat Vertex" where
  "sample_vertex = \<lparr>vx_ref = 1, vx_mask = 0, vx_pos = (0, 0, 0), vx_time = 0, vx_out = {0}, vx_in = {}\<rparr>"

definition sample_mc :: "nat MCState" where
  "sample_mc = \<lparr>mc_next = 3, mc_heap = [1 \<mapsto> sample_electron, 2 \<mapsto> sample_electron], mc_globalParticleID = 0, mc_primaryMap = None, mc_currTrack = sample_electron,
     mc_particleMap = [], mc_suspendedPM = [], mc_haveSuspended = False, mc_equivalentTracks = [], ev_primaryMap = Map.empty, ev_particles = [],
     ev_nextPID = - 2, ev_particleMap = [], ev_equivalentTracks = []\<rparr>"

definition sample_interaction :: "int \<Rightarrow> nat \<Rightarrow> Interaction" where
  "sample_interaction k a = \<lparr>ia_vertices = [(k, [a])], ia_particles = [(0, a)], ia_mask = k, ia_locked = False, ia_next = - 1\<rparr>"

definition sample_inputs :: "nat InputState" where
  "sample_inputs = \<lparr>in_mc = sample_mc, in_vnext = 3, in_vertex = [1 \<mapsto> sample_vertex, 2 \<mapsto> sample_vertex],
     in_interactions = [(0, sample_interaction 0 1), (7, sample_interaction 7 2)], in_vertices = [], in_locked = False,
     in_gnext = 1, in_g4 = Map.empty, in_g4vertices = [], in_aborts = []\<rparr>"

lemma sample_inputs_ok: "inputs_ok sample_inputs"
  by (simp add: inputs_ok_def sample_inputs_def map_ok_def sample_interaction_def event_interactions_def interaction_ok_def keyed_particles_def
      particle_objects_def vertex_objects_def valid_vertices_def sample_mc_def sample_electron_def)

theorem merging_spec_witness:
  "\<exists>t. mergeInteractions sample_inputs = Inr t \<and> ev_particles (in_mc t) = [(0, 1), (1, 2)] \<and> in_vertices t = [(0, [1]), (7, [2])] \<and> in_aborts t = []"
proof -
  have e: "event_interactions sample_inputs = [sample_interaction 0 1, sample_interaction 7 2]" "in_aborts sample_inputs = []"
    by (simp_all add: event_interactions_def sample_inputs_def)
  from merging_spec [OF sample_inputs_ok] obtain t where "mergeInteractions sample_inputs = Inr t" "in_aborts t = in_aborts sample_inputs"
    "ev_particles (in_mc t) = concat (List.map (\<lambda>(off, i). List.map (\<lambda>(k, a). (k + off, a)) (ia_particles i)) (offsets 0 (event_interactions sample_inputs)))"
    "in_vertices t = concat (List.map own_vertices (event_interactions sample_inputs))" by (elim exE conjE) (rule that)
  then show ?thesis by (simp add: e own_vertices_def vertex_objects_def extent_def sample_interaction_def)
qed

end
