(* ===== verification/ParticleRecordProps.thy ===== *)
theory ParticleRecordProps
  imports ParticleRecord
begin

text \<open>
  Properties of the Monte Carlo truth record: an abstract sweep over particles by identifier that the removal of particles
  refines, what removal keeps and hands to parents, what a forced removal does, and the numbering of the record.
\<close>

unbundle bit_operations_syntax

section \<open>The stored particles by identifier\<close>

definition pview :: "'d MCState \<Rightarrow> int \<Rightarrow> 'd Particle option" where
  "pview s k = (case map_of (mc_particleMap s) k of None \<Rightarrow> None | Some a \<Rightarrow> mc_heap s a)"

definition stored_ok :: "'d MCState \<Rightarrow> bool" where
  "stored_ok s \<longleftrightarrow> map_ok (mc_particleMap s) \<and> distinct (List.map snd (mc_particleMap s)) \<and>
     (\<forall>(k, a) \<in> set (mc_particleMap s). a \<noteq> 0 \<and> mc_heap s a \<noteq> None)"

lemma stored_get:
  assumes "stored_ok s" and "map_of (mc_particleMap s) k = Some a"
  obtains p where "particle_get s a = Inr p" "pview s k = Some p" "a \<noteq> 0"
proof -
  have "(k, a) \<in> set (mc_particleMap s)" using assms(2) by (rule map_of_SomeD)
  then obtain p where "mc_heap s a = Some p" "a \<noteq> 0" using assms(1) unfolding stored_ok_def by fastforce
  then show thesis using assms(2) by (intro that [of p]) (simp_all add: particle_get_def pview_def)
qed

lemma pview_dom: "stored_ok s \<Longrightarrow> pview s k = None \<longleftrightarrow> map_of (mc_particleMap s) k = None"
  by (cases "map_of (mc_particleMap s) k") (auto simp: pview_def stored_ok_def dest!: map_of_SomeD)

lemma stored_inj:
  assumes "stored_ok s" and "map_of (mc_particleMap s) k = Some a" and "map_of (mc_particleMap s) l = Some a"
  shows "k = l"
proof -
  have "inj_on snd (set (mc_particleMap s))" using assms(1) by (simp add: stored_ok_def distinct_map)
  from inj_onD [OF this _ map_of_SomeD [OF assms(2)] map_of_SomeD [OF assms(3)]] show ?thesis by simp
qed

lemma pview_put:
  assumes "stored_ok s" and "map_of (mc_particleMap s) k = Some a"
  shows "pview (particle_put s a p) = (pview s)(k \<mapsto> p)" "stored_ok (particle_put s a p)"
proof -
  show "pview (particle_put s a p) = (pview s)(k \<mapsto> p)"
  proof
    fix l
    show "pview (particle_put s a p) l = ((pview s)(k \<mapsto> p)) l"
      using stored_inj [OF assms, of l] assms(2)
      by (cases "map_of (mc_particleMap s) l") (auto simp: pview_def particle_put_def)
  qed
  show "stored_ok (particle_put s a p)" using assms(1) by (auto simp: stored_ok_def particle_put_def)
qed

lemma pview_same: "\<lbrakk>mc_particleMap t = mc_particleMap s; mc_heap t = mc_heap s\<rbrakk> \<Longrightarrow> pview t = pview s"
  by (rule ext) (simp add: pview_def split: option.split)

lemma stored_ok_same: "\<lbrakk>mc_particleMap t = mc_particleMap s; mc_heap t = mc_heap s\<rbrakk> \<Longrightarrow> stored_ok t = stored_ok s"
  by (simp add: stored_ok_def)

section \<open>The sweep over the particles\<close>

text \<open>
  One pass of the removal without user handlers, on particles by identifier: which particles are killed, which are
  protected, what a parent takes over.
\<close>

definition killed :: "'d Particle \<Rightarrow> bool" where
  "killed p \<longleftrightarrow> pt_reason p = 0 \<or> isSet (pt_reason p) G4PARTICLE_FORCE_KILL"

definition protected :: "'d Particle \<Rightarrow> bool" where
  "protected p \<longleftrightarrow> isSet (pt_reason p) G4PARTICLE_KEEP_USER \<or> isSet (pt_reason p) G4PARTICLE_PRIMARY \<or>
     isSet (pt_reason p) G4PARTICLE_KEEP_ALWAYS"

definition kept_by_process :: "(int \<Rightarrow> 'd Particle option) \<Rightarrow> 'd Particle \<Rightarrow> bool" where
  "kept_by_process V p \<longleftrightarrow> isSet (pt_reason p) G4PARTICLE_KEEP_PROCESS \<and> \<not> isSet (pt_reason p) G4PARTICLE_KEEP_PARENT \<and>
     (case V (pt_g4Parent p) of None \<Rightarrow> False | Some q \<Rightarrow> isSet (pt_reason q) G4PARTICLE_ABOVE_ENERGY_THRESHOLD)"

definition removable :: "(int \<Rightarrow> 'd Particle option) \<Rightarrow> 'd Particle \<Rightarrow> bool" where
  "removable V p \<longleftrightarrow> killed p \<or> \<not> protected p \<and> \<not> kept_by_process V p \<and> defaultDropParticle p"

definition merged :: "'d Particle \<Rightarrow> 'd Particle \<Rightarrow> 'd Particle" where
  "merged p q = q\<lparr>pt_reason := pt_reason q OR pt_reason p, pt_steps := pt_steps q + pt_steps p,
     pt_secondaries := pt_secondaries q + pt_secondaries p\<rparr>"

definition parent_takes :: "(int \<Rightarrow> 'd Particle option) \<Rightarrow> 'd Particle \<Rightarrow> ('d Particle \<Rightarrow> 'd Particle) \<Rightarrow> int \<Rightarrow> 'd Particle option" where
  "parent_takes V p f = (case V (pt_g4Parent p) of None \<Rightarrow> V | Some q \<Rightarrow> V(pt_g4Parent p \<mapsto> f q))"

definition sweep_step :: "(int \<Rightarrow> 'd Particle option) \<Rightarrow> int \<Rightarrow> int \<Rightarrow> 'd Particle option" where
  "sweep_step V k = (case V k of None \<Rightarrow> V
     | Some p \<Rightarrow> if removable V p then parent_takes V p (merged p)
         else if \<not> protected p \<and> kept_by_process V p then parent_takes V p (or_reason G4PARTICLE_KEEP_PARENT)
         else V)"

definition sweep :: "(int \<Rightarrow> 'd Particle option) \<Rightarrow> int list \<Rightarrow> int \<Rightarrow> 'd Particle option" where
  "sweep V ks = foldl sweep_step V ks"

fun swept :: "(int \<Rightarrow> 'd Particle option) \<Rightarrow> int list \<Rightarrow> int list" where
  "swept V [] = []"
| "swept V (k # ks) = (case V k of None \<Rightarrow> swept V ks
     | Some p \<Rightarrow> if removable V p then k # swept (sweep_step V k) ks else swept (sweep_step V k) ks)"

lemma sweep_simps [simp]: "sweep V [] = V" "sweep V (k # ks) = sweep (sweep_step V k) ks"
  by (simp_all add: sweep_def)

definition other_state :: "'d MCState \<Rightarrow> 'd MCState \<Rightarrow> bool" where
  "other_state s t \<longleftrightarrow> (\<exists>h e. t = s\<lparr>mc_heap := h, mc_equivalentTracks := e\<rparr> \<and>
     (\<forall>a. a \<notin> snd ` set (mc_particleMap s) \<longrightarrow> h a = mc_heap s a))"

lemma other_state_refl: "other_state s s"
  unfolding other_state_def by (intro exI [of _ "mc_heap s"] exI [of _ "mc_equivalentTracks s"]) simp

lemma other_state_map: "other_state s t \<Longrightarrow> mc_particleMap t = mc_particleMap s"
  by (auto simp: other_state_def)

lemma other_state_trans: "\<lbrakk>other_state s t; other_state t u\<rbrakk> \<Longrightarrow> other_state s u"
  unfolding other_state_def by (elim exE conjE) (intro exI conjI, auto)

lemma other_state_put: "map_of (mc_particleMap s) k = Some a \<Longrightarrow> other_state s (particle_put s a p)"
  unfolding other_state_def particle_put_def
  by (intro exI [of _ "(mc_heap s)(a \<mapsto> p)"] exI [of _ "mc_equivalentTracks s"]) (force dest: map_of_SomeD)

lemma other_state_equivalents: "other_state s (s\<lparr>mc_equivalentTracks := e\<rparr>)"
  unfolding other_state_def by (intro exI [of _ "mc_heap s"] exI [of _ e]) simp

lemma particle_put_self: "particle_get s a = Inr p \<Longrightarrow> particle_put s a p = s"
  by (auto simp: particle_get_def particle_put_def fun_upd_idem split: option.splits if_splits)

lemma particle_get_put [simp]: "a \<noteq> 0 \<Longrightarrow> particle_get (particle_put s a p) a = Inr p"
  by (simp add: particle_get_def particle_put_def)

lemma particle_put_put [simp]: "particle_put (particle_put s a p) a q = particle_put s a q"
  by (simp add: particle_put_def)

text \<open>The code's steps are those of the sweep.\<close>

lemma remove_particle_view:
  assumes "stored_ok s" and "cf_userHandlers cf = []" and "map_of (mc_particleMap s) k = Some a" and "pview s k = Some p"
  shows "\<exists>s'. remove_particle cf (s, rm) k a p = Inr (s', List.insert k rm) \<and> stored_ok s' \<and> pview s' = parent_takes (pview s) p (merged p) \<and>
    mc_equivalentTracks s' = map_assign k (pt_g4Parent p) (mc_equivalentTracks s) \<and> other_state s s'"
proof -
  let ?s1 = "s\<lparr>mc_equivalentTracks := map_assign k (pt_g4Parent p) (mc_equivalentTracks s)\<rparr>"
  have s1: "stored_ok ?s1" "pview ?s1 = pview s" "mc_particleMap ?s1 = mc_particleMap s" "other_state s ?s1"
    using assms(1) stored_ok_same [of ?s1 s] pview_same [of ?s1 s] other_state_equivalents by auto
  show ?thesis
  proof (cases "map_of (mc_particleMap s) (pt_g4Parent p)")
    case None
    then have "pview s (pt_g4Parent p) = None" by (simp add: pview_def)
    then show ?thesis using None s1 by (auto simp: remove_particle_def Let_def parent_takes_def)
  next
    case (Some b)
    then have b: "map_of (mc_particleMap ?s1) (pt_g4Parent p) = Some b" by simp
    obtain q where q: "particle_get ?s1 b = Inr q" "pview ?s1 (pt_g4Parent p) = Some q" "b \<noteq> 0" using stored_get [OF s1(1) b] .
    let ?s2 = "particle_put ?s1 b (merged p q)"
    note s2 = pview_put [OF s1(1) b, of "merged p q"]
    have a: "map_of (mc_particleMap ?s2) k = Some a" using assms(3) by simp
    obtain p' where p': "particle_get ?s2 a = Inr p'" using stored_get [OF s2(2) a] .
    have m: "particle_modify ?s1 b (\<lambda>q. q\<lparr>pt_reason := pt_reason q OR pt_reason p, pt_steps := pt_steps q + pt_steps p,
        pt_secondaries := pt_secondaries q + pt_secondaries p\<rparr>) = Inr ?s2"
      by (simp add: particle_modify_def q(1) merged_def)
    have "remove_particle cf (s, rm) k a p = Inr (particle_put (particle_put ?s2 a p') b (merged p q), List.insert k rm)"
      unfolding remove_particle_def prod.case Let_def b option.case m bindE_simps p' particle_get_put [OF q(3)]
      by (simp add: combine_particles_def assms(2))
    moreover have "particle_put (particle_put ?s2 a p') b (merged p q) = ?s2"
      using particle_put_self [OF p'] by simp
    moreover have "pview ?s2 = parent_takes (pview s) p (merged p)" using s2(1) q(2) s1(2) by (simp add: parent_takes_def)
    moreover have "other_state s ?s2" using other_state_trans [OF s1(4) other_state_put [OF b]] .
    ultimately show ?thesis using s2(2) by (intro exI [of _ ?s2]) simp
  qed
qed

lemma recombine_step_view:
  assumes "stored_ok s" and "cf_userHandlers cf = []" and "map_of (mc_particleMap s) k = Some a" and "pview s k = Some p"
  shows "\<exists>s'. recombine_step cf (s, rm) (k, a) = Inr (s', if removable (pview s) p then List.insert k rm else rm) \<and>
    stored_ok s' \<and> pview s' = sweep_step (pview s) k \<and> other_state s s' \<and>
    mc_equivalentTracks s' = (if removable (pview s) p then map_assign k (pt_g4Parent p) (mc_equivalentTracks s) else mc_equivalentTracks s)"
proof -
  have p: "particle_get s a = Inr p" using stored_get [OF assms(1,3)] assms(4) by (metis option.inject)
  let ?r = "pt_reason p" and ?V = "pview s"
  have d: "drop_particle cf p = (p, defaultDropParticle p)" by (simp add: drop_particle_def assms(2))
  obtain s' where s': "remove_particle cf (s, rm) k a p = Inr (s', List.insert k rm)" "stored_ok s'"
    "pview s' = parent_takes ?V p (merged p)" "other_state s s'"
    "mc_equivalentTracks s' = map_assign k (pt_g4Parent p) (mc_equivalentTracks s)" using remove_particle_view [OF assms] by blast
  note step = recombine_step_def p d particle_put_self [OF p] Let_def
  show ?thesis
  proof (cases "removable ?V p")
    case True
    have "recombine_step cf (s, rm) (k, a) = remove_particle cf (s, rm) k a p"
    proof (cases "killed p")
      case False
      then have n: "\<not> protected p" "\<not> kept_by_process ?V p" "defaultDropParticle p" using True by (auto simp: removable_def)
      show ?thesis
      proof (cases "map_of (mc_particleMap s) (pt_g4Parent p)")
        case None
        then show ?thesis using n False by (auto simp: step killed_def protected_def)
      next
        case (Some b)
        obtain q where q: "particle_get s b = Inr q" "?V (pt_g4Parent p) = Some q" using stored_get [OF assms(1) Some] .
        then show ?thesis using n False Some by (auto simp: step killed_def protected_def kept_by_process_def)
      qed
    qed (auto simp: step killed_def)
    then show ?thesis using True s' assms(4) by (simp add: sweep_step_def)
  next
    case False
    then have n: "\<not> killed p" "protected p \<or> kept_by_process ?V p \<or> \<not> defaultDropParticle p" by (auto simp: removable_def)
    show ?thesis
    proof (cases "\<not> protected p \<and> kept_by_process ?V p")
      case True
      then obtain q where q: "?V (pt_g4Parent p) = Some q" "isSet (pt_reason q) G4PARTICLE_ABOVE_ENERGY_THRESHOLD"
        by (auto simp: kept_by_process_def split: option.splits)
      then obtain b where b: "map_of (mc_particleMap s) (pt_g4Parent p) = Some b"
        by (cases "map_of (mc_particleMap s) (pt_g4Parent p)") (auto simp: pview_def)
      have g: "particle_get s b = Inr q" using stored_get [OF assms(1) b] q(1) by (metis option.inject)
      have "recombine_step cf (s, rm) (k, a) = Inr (particle_put s b (or_reason G4PARTICLE_KEEP_PARENT q), rm)"
        using True n(1) b g q(2) by (simp add: step killed_def protected_def kept_by_process_def)
      moreover have "parent_takes ?V p (or_reason G4PARTICLE_KEEP_PARENT) = pview (particle_put s b (or_reason G4PARTICLE_KEEP_PARENT q))"
        using pview_put(1) [OF assms(1) b] q(1) by (simp add: parent_takes_def)
      ultimately show ?thesis using True False pview_put(2) [OF assms(1) b] other_state_put [OF b] assms(4)
        by (intro exI [of _ "particle_put s b (or_reason G4PARTICLE_KEEP_PARENT q)"]) (simp add: sweep_step_def)
    next
      case F: False
      have "recombine_step cf (s, rm) (k, a) = Inr (s, rm)"
      proof (cases "protected p")
        case True
        then show ?thesis using n(1) by (auto simp: step killed_def protected_def)
      next
        case P: False
        then have nd: "\<not> defaultDropParticle p" "\<not> kept_by_process ?V p" using n(2) F by auto
        show ?thesis
        proof (cases "map_of (mc_particleMap s) (pt_g4Parent p)")
          case None
          then show ?thesis using n(1) P nd by (auto simp: step killed_def protected_def)
        next
          case (Some b)
          obtain q where q: "particle_get s b = Inr q" "?V (pt_g4Parent p) = Some q" using stored_get [OF assms(1) Some] .
          then show ?thesis using n(1) P nd Some by (auto simp: step killed_def protected_def kept_by_process_def)
        qed
      qed
      then show ?thesis using F False assms(1,4) other_state_refl by (auto simp: sweep_step_def)
    qed
  qed
qed

text \<open>What the sweep changes.\<close>

definition unsummed :: "'d Particle \<Rightarrow> 'd Particle" where
  "unsummed p = p\<lparr>pt_reason := 0, pt_steps := 0, pt_secondaries := 0\<rparr>"

definition grown :: "'d Particle \<Rightarrow> 'd Particle \<Rightarrow> bool" where
  "grown p q \<longleftrightarrow> unsummed q = unsummed p \<and> isSet (pt_reason q) (pt_reason p)"

lemma isSet_trans: "\<lbrakk>isSet a b; isSet b c\<rbrakk> \<Longrightarrow> isSet a c"
  by (auto simp: isSet_def) (metis and.assoc)

lemma isSet_refl [simp]: "isSet a a"
  by (simp add: isSet_def)

lemma isSet_or [simp]: "isSet (a OR b) a" "isSet (a OR b) b"
  unfolding isSet_def by (rule bit_word_eqI, auto simp: bit_simps)+

lemma grown_refl: "grown p p"
  by (simp add: grown_def)

lemma grown_trans: "\<lbrakk>grown p q; grown q r\<rbrakk> \<Longrightarrow> grown p r"
  by (auto simp: grown_def intro: isSet_trans)

lemma grown_bits: "\<lbrakk>grown p q; isSet (pt_reason p) m\<rbrakk> \<Longrightarrow> isSet (pt_reason q) m"
  by (auto simp: grown_def intro: isSet_trans)

lemma grown_parent: "grown p q \<Longrightarrow> pt_g4Parent q = pt_g4Parent p"
proof -
  have "pt_g4Parent (unsummed p) = pt_g4Parent p" for p :: "'a Particle" by (simp add: unsummed_def)
  then show "grown p q \<Longrightarrow> pt_g4Parent q = pt_g4Parent p" unfolding grown_def by metis
qed

lemma grown_protected: "\<lbrakk>grown p q; protected p\<rbrakk> \<Longrightarrow> protected q"
  by (auto simp: protected_def dest: grown_bits)

lemma grown_merged: "grown q (merged p q)" and grown_or: "grown q (or_reason m q)"
  by (simp_all add: grown_def unsummed_def merged_def or_reason_def)

definition outgrown :: "(int \<Rightarrow> 'd Particle option) \<Rightarrow> (int \<Rightarrow> 'd Particle option) \<Rightarrow> bool" where
  "outgrown V W \<longleftrightarrow> (\<forall>k. (V k = None \<longleftrightarrow> W k = None) \<and> (\<forall>p q. V k = Some p \<longrightarrow> W k = Some q \<longrightarrow> grown p q))"

lemma outgrown_refl: "outgrown V V"
  by (auto simp: outgrown_def grown_refl)

lemma outgrown_trans: "\<lbrakk>outgrown U V; outgrown V W\<rbrakk> \<Longrightarrow> outgrown U W"
  unfolding outgrown_def
proof (intro allI conjI impI, goal_cases)
  case (2 k p q)
  then obtain r where "V k = Some r" by (cases "V k") auto
  then show ?case using 2 by (blast intro: grown_trans)
qed simp

lemma outgrown_None: "outgrown V W \<Longrightarrow> W k = None \<longleftrightarrow> V k = None"
  by (simp add: outgrown_def)

lemma outgrown_Some: "\<lbrakk>outgrown V W; V k = Some p\<rbrakk> \<Longrightarrow> \<exists>q. W k = Some q \<and> grown p q"
  by (cases "W k") (auto simp: outgrown_def dest: spec [of _ k])

lemma outgrown_parent: "outgrown V W \<Longrightarrow> map_option pt_g4Parent (W k) = map_option pt_g4Parent (V k)"
  by (cases "V k") (auto dest: outgrown_Some outgrown_None grown_parent)

lemma parent_takes_outgrown: "(\<And>q. grown q (f q)) \<Longrightarrow> outgrown V (parent_takes V p f)"
  by (auto simp: outgrown_def parent_takes_def grown_refl split: option.splits)

lemma sweep_step_outgrown: "outgrown V (sweep_step V j)"
  by (auto simp: sweep_step_def outgrown_refl intro: parent_takes_outgrown grown_merged grown_or split: option.splits)

lemma sweep_outgrown: "outgrown V (sweep V js)"
  by (induction js arbitrary: V) (auto intro: outgrown_refl outgrown_trans sweep_step_outgrown)

lemma swept_subset: "set (swept V ks) \<subseteq> set ks"
  by (induction V ks rule: swept.induct) (auto split: option.splits)

lemma swept_dom: "k \<in> set (swept V ks) \<Longrightarrow> V k \<noteq> None"
proof (induction ks arbitrary: V)
  case (Cons j ks)
  show ?case using Cons.prems Cons.IH [of "sweep_step V j"] outgrown_None [OF sweep_step_outgrown, of V j k]
    by (cases "V j") (auto simp: sweep_step_def split: if_splits)
qed simp

text \<open>The pass of the code, without the erasure at its end.\<close>

lemma recombine_steps_view:
  assumes "stored_ok s" and "cf_userHandlers cf = []" and "\<forall>(k, a) \<in> set es. map_of (mc_particleMap s) k = Some a"
  shows "\<exists>s' rm'. foldE (recombine_step cf) (s, rm) es = Inr (s', rm') \<and> stored_ok s' \<and> pview s' = sweep (pview s) (List.map fst es) \<and>
    set rm' = set rm \<union> set (swept (pview s) (List.map fst es)) \<and> (distinct rm \<longrightarrow> distinct rm') \<and> other_state s s' \<and>
    (map_ok (mc_equivalentTracks s) \<longrightarrow> map_ok (mc_equivalentTracks s')) \<and>
    (\<forall>k. map_of (mc_equivalentTracks s') k = (if k \<in> set (swept (pview s) (List.map fst es))
       then map_option pt_g4Parent (pview s k) else map_of (mc_equivalentTracks s) k))"
  using assms
proof (induction es arbitrary: s rm)
  case Nil
  then show ?case using other_state_refl by auto
next
  case (Cons e es)
  obtain k a where e: "e = (k, a)" by fastforce
  have ka: "map_of (mc_particleMap s) k = Some a" using Cons.prems(3) by (simp add: e)
  obtain p where p: "pview s k = Some p" using stored_get [OF Cons.prems(1) ka] by blast
  let ?rm = "if removable (pview s) p then List.insert k rm else rm"
  obtain s1 where s1: "recombine_step cf (s, rm) (k, a) = Inr (s1, ?rm)" "stored_ok s1" "pview s1 = sweep_step (pview s) k" "other_state s s1"
    "mc_equivalentTracks s1 = (if removable (pview s) p then map_assign k (pt_g4Parent p) (mc_equivalentTracks s) else mc_equivalentTracks s)"
    using recombine_step_view [OF Cons.prems(1,2) ka p] by blast
  have es: "\<forall>(k, a) \<in> set es. map_of (mc_particleMap s1) k = Some a" using Cons.prems(3) other_state_map [OF s1(4)] by auto
  obtain s' rm' where s': "foldE (recombine_step cf) (s1, ?rm) es = Inr (s', rm')" "stored_ok s'"
    "pview s' = sweep (pview s1) (List.map fst es)" "set rm' = set ?rm \<union> set (swept (pview s1) (List.map fst es))"
    "distinct ?rm \<longrightarrow> distinct rm'" "other_state s1 s'" "map_ok (mc_equivalentTracks s1) \<longrightarrow> map_ok (mc_equivalentTracks s')"
    "\<forall>k. map_of (mc_equivalentTracks s') k = (if k \<in> set (swept (pview s1) (List.map fst es))
       then map_option pt_g4Parent (pview s1 k) else map_of (mc_equivalentTracks s1) k)"
    using Cons.IH [OF s1(2) Cons.prems(2) es, of ?rm] by blast
  have sw: "swept (pview s) (List.map fst (e # es)) = (if removable (pview s) p then k # swept (pview s1) (List.map fst es)
      else swept (pview s1) (List.map fst es))" by (simp add: e p s1(3))
  have par: "map_option pt_g4Parent (pview s1 j) = map_option pt_g4Parent (pview s j)" for j
    unfolding s1(3) by (rule outgrown_parent [OF sweep_step_outgrown])
  show ?case
  proof (intro exI conjI)
    show "foldE (recombine_step cf) (s, rm) (e # es) = Inr (s', rm')" by (simp add: e s1(1) s'(1))
    show "pview s' = sweep (pview s) (List.map fst (e # es))" by (simp add: s'(3) s1(3) e)
    show "set rm' = set rm \<union> set (swept (pview s) (List.map fst (e # es)))" unfolding s'(4) sw by auto
    show "distinct rm \<longrightarrow> distinct rm'" using s'(5) by simp
    show "other_state s s'" by (rule other_state_trans [OF s1(4) s'(6)])
    show "map_ok (mc_equivalentTracks s) \<longrightarrow> map_ok (mc_equivalentTracks s')" using s'(7) s1(5) by simp
    show "\<forall>j. map_of (mc_equivalentTracks s') j = (if j \<in> set (swept (pview s) (List.map fst (e # es)))
       then map_option pt_g4Parent (pview s j) else map_of (mc_equivalentTracks s) j)"
      unfolding sw using s'(8) s1(5) p by (auto simp: par)
  qed (rule s'(2))
qed

definition elsewhere :: "'d MCState \<Rightarrow> 'd MCState \<Rightarrow> bool" where
  "elsewhere s t \<longleftrightarrow> (\<exists>h e m. t = s\<lparr>mc_heap := h, mc_equivalentTracks := e, mc_particleMap := m\<rparr> \<and> set m \<subseteq> set (mc_particleMap s) \<and>
     (\<forall>a. a \<notin> snd ` set (mc_particleMap s) \<longrightarrow> h a = mc_heap s a))"

lemma elsewhere_other: "other_state s t \<Longrightarrow> elsewhere s t"
  unfolding other_state_def elsewhere_def by (elim exE conjE, rule exI, rule exI, rule exI [of _ "mc_particleMap s"]) simp

lemma elsewhere_refl: "elsewhere s s"
  by (rule elsewhere_other [OF other_state_refl])

lemma elsewhere_trans: "\<lbrakk>elsewhere s t; elsewhere t u\<rbrakk> \<Longrightarrow> elsewhere s u"
proof -
  assume "elsewhere s t" and "elsewhere t u"
  then obtain h e m h' e' m' where t: "t = s\<lparr>mc_heap := h, mc_equivalentTracks := e, mc_particleMap := m\<rparr>" "set m \<subseteq> set (mc_particleMap s)"
    "\<forall>a. a \<notin> snd ` set (mc_particleMap s) \<longrightarrow> h a = mc_heap s a"
    and u: "u = t\<lparr>mc_heap := h', mc_equivalentTracks := e', mc_particleMap := m'\<rparr>" "set m' \<subseteq> set (mc_particleMap t)"
    "\<forall>a. a \<notin> snd ` set (mc_particleMap t) \<longrightarrow> h' a = mc_heap t a" unfolding elsewhere_def by blast
  have "u = s\<lparr>mc_heap := h', mc_equivalentTracks := e', mc_particleMap := m'\<rparr>" using t(1) u(1) by simp
  moreover have "set m' \<subseteq> set (mc_particleMap s)" using t(1,2) u(2) by auto
  moreover have "\<forall>a. a \<notin> snd ` set (mc_particleMap s) \<longrightarrow> h' a = mc_heap s a"
  proof (intro allI impI)
    fix a assume a: "a \<notin> snd ` set (mc_particleMap s)"
    then have "a \<notin> snd ` set (mc_particleMap t)" using t(1,2) by auto
    then show "h' a = mc_heap s a" using a t(1,3) u(3) by auto
  qed
  ultimately show ?thesis unfolding elsewhere_def by blast
qed

lemma erase_particle_view:
  assumes "stored_ok s"
  shows "\<exists>s'. erase_particle s r = Inr s' \<and> stored_ok s' \<and> pview s' = (pview s)(r := None) \<and> elsewhere s s' \<and>
    mc_equivalentTracks s' = mc_equivalentTracks s"
proof (cases "map_of (mc_particleMap s) r")
  case None
  then have "(pview s)(r := None) = pview s" by (auto simp: pview_def)
  then show ?thesis using None assms elsewhere_refl by (auto simp: erase_particle_def)
next
  case (Some a)
  obtain p where p: "particle_get s a = Inr p" "pview s r = Some p" "a \<noteq> 0" using stored_get [OF assms Some] .
  define h where "h = (if pt_ref p - 1 \<le> 0 then (mc_heap s)(a := None) else (mc_heap s)(a \<mapsto> p\<lparr>pt_ref := pt_ref p - 1\<rparr>))"
  let ?s = "s\<lparr>mc_heap := h, mc_particleMap := map_erase r (mc_particleMap s)\<rparr>"
  have e: "erase_particle s r = Inr ?s"
    by (simp add: erase_particle_def Some particle_release_def p(1) h_def particle_put_def)
  have h: "h b = mc_heap s b" if "b \<noteq> a" for b using that by (simp add: h_def)
  have other: "b \<noteq> a" if "(k, b) \<in> set (map_erase r (mc_particleMap s))" for k b
  proof
    assume "b = a"
    moreover have "(k, b) \<in> set (mc_particleMap s)" "k \<noteq> r" using that by (auto simp: map_erase_def)
    moreover have "map_of (mc_particleMap s) k = Some b"
      using assms calculation(2) by (simp add: stored_ok_def map_of_mem)
    ultimately show False using stored_inj [OF assms Some] by auto
  qed
  have "stored_ok ?s"
  proof -
    have "distinct (List.map snd (map_erase r (mc_particleMap s)))"
      using assms unfolding stored_ok_def map_erase_def by (blast intro: distinct_map_filter)
    moreover have "\<forall>(k, b) \<in> set (map_erase r (mc_particleMap s)). b \<noteq> 0 \<and> h b \<noteq> None"
    proof (rule ballI)
      fix x assume x: "x \<in> set (map_erase r (mc_particleMap s))"
      obtain k b where kb: "x = (k, b)" by fastforce
      have "x \<in> set (mc_particleMap s)" using x by (auto simp: map_erase_def)
      then show "case x of (k, b) \<Rightarrow> b \<noteq> 0 \<and> h b \<noteq> None" using assms h [OF other [OF x [unfolded kb]]] by (auto simp: stored_ok_def kb)
    qed
    ultimately show ?thesis using assms by (simp add: stored_ok_def)
  qed
  moreover have "pview ?s = (pview s)(r := None)"
  proof
    fix k
    show "pview ?s k = ((pview s)(r := None)) k"
      using stored_inj [OF assms Some, of k] h by (cases "map_of (mc_particleMap s) k") (auto simp: pview_def)
  qed
  moreover have "elsewhere s ?s" unfolding elsewhere_def
    using h Some by (intro exI [of _ h] exI [of _ "mc_equivalentTracks s"] exI [of _ "map_erase r (mc_particleMap s)"])
      (force simp: map_erase_def dest: map_of_SomeD)
  ultimately show ?thesis using e by (intro exI [of _ ?s]) simp
qed

lemma erase_particles_view:
  assumes "stored_ok s"
  shows "\<exists>s'. foldE erase_particle s rs = Inr s' \<and> stored_ok s' \<and> pview s' = (pview s) |` (- set rs) \<and> elsewhere s s' \<and>
    mc_equivalentTracks s' = mc_equivalentTracks s"
  using assms
proof (induction rs arbitrary: s)
  case (Cons r rs)
  obtain s1 where s1: "erase_particle s r = Inr s1" "stored_ok s1" "pview s1 = (pview s)(r := None)" "elsewhere s s1"
    "mc_equivalentTracks s1 = mc_equivalentTracks s" using erase_particle_view [OF Cons.prems] by blast
  obtain s' where s': "foldE erase_particle s1 rs = Inr s'" "stored_ok s'" "pview s' = (pview s1) |` (- set rs)" "elsewhere s1 s'"
    "mc_equivalentTracks s' = mc_equivalentTracks s1" using Cons.IH [OF s1(2)] by blast
  have "pview s' = (pview s) |` (- set (r # rs))" unfolding s'(3) s1(3) by (auto simp: restrict_map_def)
  then show ?case using s1 s' elsewhere_trans by auto
qed (auto intro: elsewhere_refl)

text \<open>One call of \<open>recombineParents\<close>.\<close>

definition descending :: "'d MCState \<Rightarrow> int list" where
  "descending s = rev (List.map fst (mc_particleMap s))"

lemma recombineParents_view:
  assumes "stored_ok s" and "cf_userHandlers cf = []"
  shows "\<exists>s'. recombineParents cf s = Inr (s', length (remdups (swept (pview s) (descending s)))) \<and> stored_ok s' \<and>
    pview s' = (sweep (pview s) (descending s)) |` (- set (swept (pview s) (descending s))) \<and> elsewhere s s' \<and>
    (map_ok (mc_equivalentTracks s) \<longrightarrow> map_ok (mc_equivalentTracks s')) \<and>
    (\<forall>k. map_of (mc_equivalentTracks s') k = (if k \<in> set (swept (pview s) (descending s))
       then map_option pt_g4Parent (pview s k) else map_of (mc_equivalentTracks s) k))"
proof -
  let ?es = "rev (mc_particleMap s)"
  have ds: "List.map fst ?es = descending s" by (simp add: descending_def rev_map)
  have es: "\<forall>(k, a) \<in> set ?es. map_of (mc_particleMap s) k = Some a"
    using assms(1) by (auto simp: stored_ok_def map_of_mem)
  obtain s1 rm where s1: "foldE (recombine_step cf) (s, []) ?es = Inr (s1, rm)" "stored_ok s1" "pview s1 = sweep (pview s) (descending s)"
    "set rm = set (swept (pview s) (descending s))" "distinct rm" "other_state s s1"
    "map_ok (mc_equivalentTracks s) \<longrightarrow> map_ok (mc_equivalentTracks s1)"
    "\<forall>k. map_of (mc_equivalentTracks s1) k = (if k \<in> set (swept (pview s) (descending s))
       then map_option pt_g4Parent (pview s k) else map_of (mc_equivalentTracks s) k)"
    using recombine_steps_view [OF assms es, of "[]"] unfolding ds by auto
  obtain s' where s': "foldE erase_particle s1 rm = Inr s'" "stored_ok s'" "pview s' = (pview s1) |` (- set rm)" "elsewhere s1 s'"
    "mc_equivalentTracks s' = mc_equivalentTracks s1" using erase_particles_view [OF s1(2)] by blast
  have "length rm = length (remdups (swept (pview s) (descending s)))"
    using s1(4,5) by (metis distinct_card length_remdups_card_conv)
  then have "recombineParents cf s = Inr (s', length (remdups (swept (pview s) (descending s))))"
    by (simp add: recombineParents_def s1(1) s'(1))
  then show ?thesis using s' s1 elsewhere_trans [OF elsewhere_other [OF s1(6)] s'(4)] by (intro exI [of _ s']) simp
qed


section \<open>What a sweep in descending order does\<close>

definition parents_first :: "(int \<Rightarrow> 'd Particle option) \<Rightarrow> bool" where
  "parents_first V \<longleftrightarrow> (\<forall>k p. V k = Some p \<longrightarrow> pt_g4Parent p < k)"

lemma parents_firstD: "\<lbrakk>parents_first V; V k = Some p\<rbrakk> \<Longrightarrow> pt_g4Parent p < k"
  by (simp add: parents_first_def)

lemma parents_first_outgrown: "\<lbrakk>parents_first V; outgrown V W\<rbrakk> \<Longrightarrow> parents_first W"
  unfolding parents_first_def
proof (intro allI impI)
  fix k p assume V: "\<forall>k p. V k = Some p \<longrightarrow> pt_g4Parent p < k" and W: "outgrown V W" "W k = Some p"
  then obtain p0 where "V k = Some p0" using outgrown_None [OF W(1), of k] by auto
  then show "pt_g4Parent p < k" using V outgrown_Some [OF W(1)] W(2) grown_parent by fastforce
qed

lemma sweep_step_untouched: "\<lbrakk>parents_first V; j \<le> k\<rbrakk> \<Longrightarrow> sweep_step V j k = V k"
  by (auto simp: sweep_step_def parent_takes_def dest: parents_firstD split: option.splits)

lemma sweep_untouched: "\<lbrakk>parents_first V; \<forall>j \<in> set js. j \<le> k\<rbrakk> \<Longrightarrow> sweep V js k = V k"
proof (induction js arbitrary: V)
  case (Cons j js)
  have "sweep (sweep_step V j) js k = sweep_step V j k"
    using Cons parents_first_outgrown [OF Cons.prems(1) sweep_step_outgrown] by simp
  then show ?case using sweep_step_untouched [OF Cons.prems(1), of j k] Cons.prems(2) by simp
qed simp

definition dropped_by :: "'d Particle \<Rightarrow> bool" where
  "dropped_by p \<longleftrightarrow> killed p \<or> \<not> protected p \<and> defaultDropParticle p"

text \<open>A removed particle has handed its properties to its parent.\<close>

lemma swept_spec:
  assumes "parents_first V" and "sorted_wrt (>) js" and "k \<in> set (swept V js)"
  shows "\<exists>p. sweep V js k = Some p \<and> dropped_by p \<and>
    (case sweep V js (pt_g4Parent p) of None \<Rightarrow> True | Some q \<Rightarrow> isSet (pt_reason q) (pt_reason p))"
  using assms
proof (induction js arbitrary: V)
  case (Cons j js)
  let ?V = "sweep_step V j"
  have pf: "parents_first ?V" by (rule parents_first_outgrown [OF Cons.prems(1) sweep_step_outgrown])
  have js: "sorted_wrt (>) js" "\<forall>i \<in> set js. i < j" using Cons.prems(2) by auto
  show ?case
  proof (cases "k \<in> set (swept ?V js)")
    case True
    then show ?thesis using Cons.IH [OF pf js(1)] by simp
  next
    case False
    have "V j \<noteq> None"
    proof
      assume n: "V j = None"
      then have "?V = V" by (simp add: sweep_step_def)
      then show False using False Cons.prems(3) n by simp
    qed
    then obtain p where p: "V j = Some p" by blast
    then have kj: "k = j" "removable V p" using False Cons.prems(3) by (auto split: if_splits)
    have "sweep ?V js k = ?V k" using js(2) kj(1) by (intro sweep_untouched [OF pf]) auto
    then have Wk: "sweep V (j # js) k = Some p" using sweep_step_untouched [OF Cons.prems(1), of j k] p kj(1) by simp
    moreover have "dropped_by p" using kj(2) by (auto simp: removable_def dropped_by_def)
    moreover have "case sweep V (j # js) (pt_g4Parent p) of None \<Rightarrow> True | Some q \<Rightarrow> isSet (pt_reason q) (pt_reason p)"
    proof (cases "V (pt_g4Parent p)")
      case None
      then have "sweep V (j # js) (pt_g4Parent p) = None" using outgrown_None [OF sweep_outgrown] by blast
      then show ?thesis by (simp del: sweep_simps)
    next
      case (Some q)
      then have "?V (pt_g4Parent p) = Some (merged p q)" using p kj(2) by (simp add: sweep_step_def parent_takes_def)
      from outgrown_Some [OF sweep_outgrown [of ?V js] this] obtain q' where q': "sweep ?V js (pt_g4Parent p) = Some q'" "grown (merged p q) q'" by blast
      have "isSet (pt_reason q') (pt_reason p)" by (rule grown_bits [OF q'(2)]) (simp add: merged_def)
      then show ?thesis using q'(1) by simp
    qed
    ultimately show ?thesis by blast
  qed
qed simp

lemma kept_by_process_outgrown: "\<lbrakk>kept_by_process V p; outgrown V W\<rbrakk> \<Longrightarrow> kept_by_process W p"
proof -
  assume k: "kept_by_process V p" and W: "outgrown V W"
  then obtain q where q: "V (pt_g4Parent p) = Some q" "isSet (pt_reason q) G4PARTICLE_ABOVE_ENERGY_THRESHOLD"
    by (auto simp: kept_by_process_def split: option.splits)
  obtain q' where "W (pt_g4Parent p) = Some q'" "grown q q'" using outgrown_Some [OF W q(1)] by blast
  then show ?thesis using k grown_bits q(2) by (auto simp: kept_by_process_def)
qed

text \<open>A particle that is not removed was needed.\<close>

lemma unswept_spec:
  assumes "parents_first V" and "sorted_wrt (>) js" and "k \<in> set js" and "k \<notin> set (swept V js)" and "sweep V js k = Some p"
  shows "\<not> removable (sweep V js) p"
  using assms
proof (induction js arbitrary: V)
  case (Cons j js)
  let ?V = "sweep_step V j"
  have pf: "parents_first ?V" by (rule parents_first_outgrown [OF Cons.prems(1) sweep_step_outgrown])
  have js: "sorted_wrt (>) js" "\<forall>i \<in> set js. i < j" using Cons.prems(2) by auto
  have tail: "k \<notin> set (swept ?V js)"
    using Cons.prems(4) by (cases "V j") (auto simp: sweep_step_def split: if_splits)
  show ?case
  proof (cases "k = j")
    case True
    have "sweep ?V js k = ?V k" using js(2) True by (intro sweep_untouched [OF pf]) auto
    then have Vj: "V j = Some p" using sweep_step_untouched [OF Cons.prems(1), of j k] Cons.prems(5) True by simp
    then have "\<not> removable V p" using Cons.prems(4) True by (auto split: if_splits)
    then show ?thesis using kept_by_process_outgrown [OF _ sweep_outgrown [of V "j # js"], of p] by (auto simp: removable_def)
  next
    case False
    then show ?thesis using Cons.IH [OF pf js(1) _ tail] Cons.prems(3,5) by simp
  qed
qed simp

text \<open>Nothing is killed when no particle was marked for it.\<close>

lemma isSet_bit: "n < 32 \<Longrightarrow> isSet m (push_bit n 1 :: i32) \<longleftrightarrow> bit m n"
  unfolding isSet_def
proof
  assume n: "n < 32" and m: "bit m n"
  show "m AND push_bit n 1 = push_bit n 1" by (rule bit_word_eqI) (use n m in \<open>auto simp: bit_simps\<close>)
next
  assume n: "n < 32" and e: "m AND push_bit n 1 = push_bit n 1"
  have "bit (m AND push_bit n 1) n" unfolding e using n by (simp add: bit_simps)
  then show "bit m n" by (simp add: bit_simps)
qed

definition no_kill :: "(int \<Rightarrow> 'd Particle option) \<Rightarrow> bool" where
  "no_kill V \<longleftrightarrow> (\<forall>k p. V k = Some p \<longrightarrow> \<not> killed p)"

lemma force_kill_bit: "isSet m G4PARTICLE_FORCE_KILL \<longleftrightarrow> bit m 11"
  unfolding G4PARTICLE_FORCE_KILL_def by (rule isSet_bit) simp

lemma killed_or: "\<lbrakk>\<not> killed p; \<not> isSet m G4PARTICLE_FORCE_KILL\<rbrakk> \<Longrightarrow> pt_reason p OR m \<noteq> 0 \<and> \<not> isSet (pt_reason p OR m) G4PARTICLE_FORCE_KILL"
  by (simp add: killed_def force_kill_bit bit_or_iff or_eq_0_iff)

lemma killed_merged: "\<lbrakk>\<not> killed p; \<not> killed q\<rbrakk> \<Longrightarrow> \<not> killed (merged p q)"
  using killed_or [of q "pt_reason p"] by (auto simp: killed_def merged_def)

lemma killed_marked: "\<not> killed q \<Longrightarrow> \<not> killed (or_reason G4PARTICLE_KEEP_PARENT q)"
proof -
  have "\<not> isSet G4PARTICLE_KEEP_PARENT G4PARTICLE_FORCE_KILL" by (simp add: particle_bits isSet_def)
  then show "\<not> killed q \<Longrightarrow> \<not> killed (or_reason G4PARTICLE_KEEP_PARENT q)"
    using killed_or [of q G4PARTICLE_KEEP_PARENT] by (auto simp: killed_def or_reason_def)
qed

lemma no_kill_takes: "\<lbrakk>no_kill V; \<And>q. \<not> killed q \<Longrightarrow> \<not> killed (f q)\<rbrakk> \<Longrightarrow> no_kill (parent_takes V p f)"
  by (auto simp: no_kill_def parent_takes_def split: option.splits)

lemma no_kill_step: "no_kill V \<Longrightarrow> no_kill (sweep_step V j)"
proof (cases "V j")
  case (Some p)
  assume V: "no_kill V"
  then have "\<not> killed p" using Some by (auto simp: no_kill_def)
  then have "no_kill (parent_takes V p (merged p))" "no_kill (parent_takes V p (or_reason G4PARTICLE_KEEP_PARENT))"
    by (simp_all add: no_kill_takes [OF V] killed_merged killed_marked)
  then show ?thesis using V Some by (simp add: sweep_step_def)
qed (simp add: sweep_step_def)

lemma no_kill_sweep: "no_kill V \<Longrightarrow> no_kill (sweep V js)"
  by (induction js arbitrary: V) (simp_all add: no_kill_step)

text \<open>States in which nothing can be removed, and which stay so.\<close>

definition settled :: "(int \<Rightarrow> 'd Particle option) \<Rightarrow> bool" where
  "settled V \<longleftrightarrow> (\<forall>k p. V k = Some p \<longrightarrow> \<not> removable V p)"

lemma above_not_dropped:
  assumes "\<not> killed p" and "isSet (pt_reason p) G4PARTICLE_ABOVE_ENERGY_THRESHOLD"
  shows "\<not> defaultDropParticle p"
  using assms by (simp add: defaultDropParticle_def Let_def killed_def)

lemma settled_step:
  assumes "settled V"
  shows "settled (sweep_step V j)"
proof (cases "V j")
  case (Some p)
  then have nr: "\<not> removable V p" using assms by (simp add: settled_def)
  show ?thesis
  proof (cases "\<not> protected p \<and> kept_by_process V p")
    case True
    then obtain q where q: "V (pt_g4Parent p) = Some q" "isSet (pt_reason q) G4PARTICLE_ABOVE_ENERGY_THRESHOLD"
      by (auto simp: kept_by_process_def split: option.splits)
    let ?q = "or_reason G4PARTICLE_KEEP_PARENT q"
    have W: "sweep_step V j = V(pt_g4Parent p \<mapsto> ?q)" using True nr Some q(1) by (simp add: sweep_step_def parent_takes_def)
    have "\<not> killed q" using assms q(1) by (auto simp: settled_def removable_def)
    then have nk: "\<not> killed ?q" by (rule killed_marked)
    have q': "isSet (pt_reason ?q) G4PARTICLE_ABOVE_ENERGY_THRESHOLD" by (rule grown_bits [OF grown_or q(2)])
    have "\<not> removable (sweep_step V j) x" if x: "sweep_step V j k = Some x" for k x
    proof (cases "k = pt_g4Parent p")
      case True
      then have "x = ?q" using x by (simp add: W)
      then show ?thesis using nk above_not_dropped [OF nk q'] by (simp add: removable_def)
    next
      case False
      then have "\<not> removable V x" using x assms by (auto simp: W settled_def)
      then show ?thesis using kept_by_process_outgrown [OF _ sweep_step_outgrown, of V x j] by (auto simp: removable_def)
    qed
    then show ?thesis by (simp add: settled_def)
  next
    case False
    then have "sweep_step V j = V" using nr Some by (auto simp: sweep_step_def)
    then show ?thesis using assms by simp
  qed
qed (use assms in \<open>simp add: sweep_step_def\<close>)

lemma settled_swept: "settled V \<Longrightarrow> swept V js = []"
  by (induction js arbitrary: V) (auto simp: settled_step split: option.splits, auto simp: settled_def)

lemma settled_sweep: "settled V \<Longrightarrow> settled (sweep V js)"
  by (induction js arbitrary: V) (simp_all add: settled_step)

text \<open>One sweep settles everything.\<close>

lemma sweep_settles:
  assumes "parents_first V" and "sorted_wrt (>) js" and "\<forall>k. V k \<noteq> None \<longrightarrow> k \<in> set js" and "no_kill V"
  shows "settled ((sweep V js) |` (- set (swept V js)))"
  unfolding settled_def
proof (intro allI impI)
  fix k p assume "((sweep V js) |` (- set (swept V js))) k = Some p"
  then have k: "k \<notin> set (swept V js)" "sweep V js k = Some p" by (auto simp: restrict_map_def split: if_splits)
  have "k \<in> set js" using assms(3) k(2) outgrown_None [OF sweep_outgrown, of V js k] by auto
  then have nr: "\<not> removable (sweep V js) p" using unswept_spec [OF assms(1,2)] k by blast
  have "kept_by_process ((sweep V js) |` (- set (swept V js))) p" if kept: "kept_by_process (sweep V js) p"
  proof -
    obtain q where q: "sweep V js (pt_g4Parent p) = Some q" "isSet (pt_reason q) G4PARTICLE_ABOVE_ENERGY_THRESHOLD"
      using kept by (auto simp: kept_by_process_def split: option.splits)
    have "\<not> killed q" using no_kill_sweep [OF assms(4)] q(1) by (auto simp: no_kill_def)
    then have "\<not> dropped_by q" using above_not_dropped q(2) by (auto simp: dropped_by_def)
    then have "pt_g4Parent p \<notin> set (swept V js)" using swept_spec [OF assms(1,2), of "pt_g4Parent p"] q(1) by auto
    then show ?thesis using kept q(1) by (simp add: kept_by_process_def)
  qed
  then show "\<not> removable ((sweep V js) |` (- set (swept V js))) p" using nr by (auto simp: removable_def)
qed

lemma descending_sorted: "stored_ok s \<Longrightarrow> sorted_wrt (>) (descending s)"
  by (simp add: stored_ok_def map_ok_def descending_def sorted_wrt_rev)

lemma descending_all: "stored_ok s \<Longrightarrow> pview s k \<noteq> None \<longleftrightarrow> k \<in> set (descending s)"
  using pview_dom [of s k] by (auto simp: descending_def map_of_eq_None_iff)

text \<open>The passes of \<open>endEvent\<close> together.\<close>

lemma recombine_all_total:
  assumes "stored_ok s" and "cf_userHandlers cf = []"
  shows "\<exists>s'. recombine_all cf s = Inr s' \<and> (\<forall>k. pview s k = None \<longrightarrow> pview s' k = None)"
  using assms
proof (induction cf s rule: recombine_all.induct)
  case (1 cf s)
  obtain s1 n where s1: "recombineParents cf s = Inr (s1, n)" "stored_ok s1"
    "pview s1 = (sweep (pview s) (descending s)) |` (- set (swept (pview s) (descending s)))" using recombineParents_view [OF "1.prems"] by blast
  have "pview s k = None \<longrightarrow> pview s1 k = None" for k
    using outgrown_None [OF sweep_outgrown, of "pview s" "descending s" k] by (simp add: s1(3) restrict_map_def)
  then show ?case using "1.IH" [OF s1(1) refl] s1(1,2) "1.prems"(2) by (cases "0 < n") (auto simp: recombine_all.simps [of cf s])
qed

lemma recombine_all_view:
  assumes "stored_ok s" and "cf_userHandlers cf = []" and "parents_first (pview s)" and "no_kill (pview s)"
  shows "\<exists>s'. recombine_all cf s = Inr s' \<and> stored_ok s' \<and> settled (pview s') \<and> elsewhere s s' \<and>
    outgrown ((sweep (pview s) (descending s)) |` (- set (swept (pview s) (descending s)))) (pview s') \<and>
    (\<exists>ks. pview s' = sweep ((sweep (pview s) (descending s)) |` (- set (swept (pview s) (descending s)))) ks) \<and>
    (map_ok (mc_equivalentTracks s) \<longrightarrow> map_ok (mc_equivalentTracks s')) \<and>
    (\<forall>k. map_of (mc_equivalentTracks s') k = (if k \<in> set (swept (pview s) (descending s))
       then map_option pt_g4Parent (pview s k) else map_of (mc_equivalentTracks s) k))"
proof -
  let ?W = "(sweep (pview s) (descending s)) |` (- set (swept (pview s) (descending s)))"
  obtain s1 n where s1: "recombineParents cf s = Inr (s1, n)" "stored_ok s1" "pview s1 = ?W" "elsewhere s s1"
    "map_ok (mc_equivalentTracks s) \<longrightarrow> map_ok (mc_equivalentTracks s1)"
    "\<forall>k. map_of (mc_equivalentTracks s1) k = (if k \<in> set (swept (pview s) (descending s))
       then map_option pt_g4Parent (pview s k) else map_of (mc_equivalentTracks s) k)"
    using recombineParents_view [OF assms(1,2)] by blast
  have st: "settled (pview s1)" unfolding s1(3)
    using sweep_settles [OF assms(3) descending_sorted [OF assms(1)] _ assms(4)] descending_all [OF assms(1)] by blast
  have nil: "swept (pview s1) (descending s1) = []" by (rule settled_swept [OF st])
  have "\<exists>s2. recombineParents cf s1 = Inr (s2, 0) \<and> stored_ok s2 \<and> pview s2 = sweep (pview s1) (descending s1) \<and> elsewhere s1 s2 \<and>
    (map_ok (mc_equivalentTracks s1) \<longrightarrow> map_ok (mc_equivalentTracks s2)) \<and>
    (\<forall>k. map_of (mc_equivalentTracks s2) k = map_of (mc_equivalentTracks s1) k)"
    using recombineParents_view [OF s1(2) assms(2)] unfolding nil by (simp add: restrict_map_def)
  then obtain s2 where s2: "recombineParents cf s1 = Inr (s2, 0)" "stored_ok s2" "pview s2 = sweep (pview s1) (descending s1)" "elsewhere s1 s2"
    "map_ok (mc_equivalentTracks s1) \<longrightarrow> map_ok (mc_equivalentTracks s2)"
    "\<forall>k. map_of (mc_equivalentTracks s2) k = map_of (mc_equivalentTracks s1) k" by blast
  show ?thesis
  proof (cases "0 < n")
    case True
    then have "recombine_all cf s = Inr s2" using s1(1) s2(1) by (simp add: recombine_all.simps [of cf s] recombine_all.simps [of cf s1])
    moreover have "settled (pview s2)" unfolding s2(3) by (rule settled_sweep [OF st])
    moreover have "outgrown ?W (pview s2)" using sweep_outgrown [of "pview s1" "descending s1"] s1(3) s2(3) by simp
    moreover have "\<exists>ks. pview s2 = sweep ?W ks" using s1(3) s2(3) by auto
    ultimately show ?thesis using s2 s1(5,6) elsewhere_trans [OF s1(4) s2(4)] by (intro exI [of _ s2]) simp
  next
    case False
    then have "recombine_all cf s = Inr s1" using s1(1) by (simp add: recombine_all.simps [of cf s])
    moreover have "\<exists>ks. ?W = sweep ?W ks" by (intro exI [of _ "[]"]) simp
    ultimately show ?thesis using s1 st outgrown_refl by (intro exI [of _ s1]) simp
  qed
qed


section \<open>Properties of the removal\<close>

lemma sweep_Some: "V k = Some p \<Longrightarrow> \<exists>q. sweep V js k = Some q \<and> grown p q"
  by (rule outgrown_Some [OF sweep_outgrown])

lemma last_stored_here: "map_of pm k = Some a \<Longrightarrow> last_stored pm eq k = Some (Some (k, a))"
  by (simp add: last_stored.simps [of pm eq k])

lemma last_stored_next: "\<lbrakk>map_of pm k = None; map_of eq k = Some j\<rbrakk> \<Longrightarrow> last_stored pm eq k = last_stored pm eq j"
  by (simp add: last_stored.simps [of pm eq k])

lemma removed_chain:
  assumes "stored_ok s" and "cf_userHandlers cf = []" and "parents_first (pview s)" and "no_kill (pview s)"
    and "\<forall>k p. pview s k = Some p \<longrightarrow> protected p \<or> pview s (pt_g4Parent p) \<noteq> None"
    and "outgrown ((sweep (pview s) (descending s)) |` (- set (swept (pview s) (descending s)))) F"
    and "\<forall>k. (map_of pm k = None) = (F k = None)"
    and "\<forall>k \<in> set (swept (pview s) (descending s)). map_of eq k = map_option pt_g4Parent (pview s k)"
    and "sweep (pview s) (descending s) k = Some p"
  shows "\<exists>j b q. last_stored pm eq k = Some (Some (j, b)) \<and> F j = Some q \<and> isSet (pt_reason q) (pt_reason p)"
  using assms(9)
proof (induction k arbitrary: p rule: measure_induct_rule [where f = "\<lambda>k. card {i \<in> set (descending s). i < k}"])
  case (less k)
  let ?V = "pview s" and ?ks = "descending s"
  let ?W = "sweep ?V ?ks" and ?R = "set (swept ?V ?ks)"
  show ?case
  proof (cases "k \<in> ?R")
    case False
    then have "(?W |` (- ?R)) k = Some p" using less.prems by simp
    from outgrown_Some [OF assms(6) this] obtain q where q: "F k = Some q" "grown p q" by blast
    then obtain b where "map_of pm k = Some b" using assms(7) by fastforce
    then show ?thesis using last_stored_here q by (auto simp: grown_def)
  next
    case True
    note sp = swept_spec [OF assms(3) descending_sorted [OF assms(1)] True]
    have p: "dropped_by p" "case ?W (pt_g4Parent p) of None \<Rightarrow> True | Some q \<Rightarrow> isSet (pt_reason q) (pt_reason p)"
      using sp less.prems by auto
    have "\<not> killed p" using no_kill_sweep [OF assms(4)] less.prems by (auto simp: no_kill_def)
    then have np: "\<not> protected p" using p(1) by (simp add: dropped_by_def)
    obtain p0 where p0: "?V k = Some p0" using outgrown_None [OF sweep_outgrown, of ?V ?ks k] less.prems by auto
    then have g: "grown p0 p" using sweep_Some [where V = ?V and js = ?ks, OF p0] less.prems by simp
    let ?j = "pt_g4Parent p0"
    have j: "pt_g4Parent p = ?j" by (rule grown_parent [OF g])
    have "?V ?j \<noteq> None" using assms(5) p0 np grown_protected [OF g] by blast
    then obtain q where q: "?W ?j = Some q" using outgrown_None [OF sweep_outgrown, of ?V ?ks ?j] by auto
    have "?j \<in> set ?ks" "?j < k" using descending_all [OF assms(1)] \<open>?V ?j \<noteq> None\<close> parents_firstD [OF assms(3) p0] by blast+
    then have "{i \<in> set ?ks. i < ?j} \<subset> {i \<in> set ?ks. i < k}" by auto
    then have "card {i \<in> set ?ks. i < ?j} < card {i \<in> set ?ks. i < k}" by (intro psubset_card_mono) auto
    from less.IH [OF this q] obtain i b r where r: "last_stored pm eq ?j = Some (Some (i, b))" "F i = Some r" "isSet (pt_reason r) (pt_reason q)" by blast
    have "F k = None" using outgrown_None [OF assms(6)] True by simp
    then have "map_of pm k = None" using assms(7) by simp
    moreover have "map_of eq k = Some ?j" using assms(8) True p0 by simp
    ultimately have "last_stored pm eq k = Some (Some (i, b))" using r(1) last_stored_next by metis
    moreover have "isSet (pt_reason r) (pt_reason p)" using p(2) q j r(3) by (auto intro: isSet_trans)
    ultimately show ?thesis using r(2) by blast
  qed
qed

text \<open>C39. The removal at the end of an event, without user handlers and forced removals, when parents have smaller identifiers and the Geant4 parent
  of every stored particle that is not protected is stored: it ends; protected particles stay; what stays is
  protected, not to be dropped, or kept for its process; what is
  removed is mapped to a particle that stays and that has all the properties of the removed one, so no hit is lost.\<close>

theorem recombination_spec:
  assumes "stored_ok s" and "cf_userHandlers cf = []" and "\<forall>k p. pview s k = Some p \<longrightarrow> pt_g4Parent p < k \<and> \<not> killed p"
    and "\<forall>k p. pview s k = Some p \<longrightarrow> protected p \<or> pview s (pt_g4Parent p) \<noteq> None"
  shows "\<exists>s'. recombine_all cf s = Inr s' \<and>
    (\<forall>k p. pview s k = Some p \<longrightarrow> (case pview s' k of Some p' \<Rightarrow> unsummed p' = unsummed p \<and> isSet (pt_reason p') (pt_reason p)
      | None \<Rightarrow> \<not> protected p \<and> (\<exists>j b q. last_stored (mc_particleMap s') (mc_equivalentTracks s') k = Some (Some (j, b)) \<and>
          pview s' j = Some q \<and> isSet (pt_reason q) (pt_reason p)))) \<and>
    (\<forall>k p'. pview s' k = Some p' \<longrightarrow> pview s k \<noteq> None \<and> (protected p' \<or> \<not> defaultDropParticle p' \<or> kept_by_process (pview s') p'))"
proof -
  have pf: "parents_first (pview s)" and nk: "no_kill (pview s)" using assms(3) by (auto simp: parents_first_def no_kill_def)
  let ?V = "pview s" and ?ks = "descending s"
  let ?W = "sweep ?V ?ks" and ?R = "set (swept ?V ?ks)"
  obtain s' where s': "recombine_all cf s = Inr s'" "stored_ok s'" "settled (pview s')" "outgrown (?W |` (- ?R)) (pview s')"
    "\<forall>k. map_of (mc_equivalentTracks s') k = (if k \<in> ?R then map_option pt_g4Parent (?V k) else map_of (mc_equivalentTracks s) k)"
    using recombine_all_view [OF assms(1,2) pf nk] by blast
  have chain: "\<exists>j b q. last_stored (mc_particleMap s') (mc_equivalentTracks s') k = Some (Some (j, b)) \<and> pview s' j = Some q \<and> isSet (pt_reason q) (pt_reason p)"
    if "?W k = Some p" for k p
    by (rule removed_chain [OF assms(1,2) pf nk assms(4) s'(4) _ _ that]) (use s'(5) pview_dom [OF s'(2)] in auto)
  show ?thesis
  proof (intro exI conjI allI impI)
    fix k p assume p: "?V k = Some p"
    obtain w where w: "?W k = Some w" "grown p w" using sweep_Some [where V = ?V and js = ?ks, OF p] by blast
    show "case pview s' k of Some p' \<Rightarrow> unsummed p' = unsummed p \<and> isSet (pt_reason p') (pt_reason p)
      | None \<Rightarrow> \<not> protected p \<and> (\<exists>j b q. last_stored (mc_particleMap s') (mc_equivalentTracks s') k = Some (Some (j, b)) \<and>
          pview s' j = Some q \<and> isSet (pt_reason q) (pt_reason p))"
    proof (cases "k \<in> ?R")
      case True
      then have "pview s' k = None" using outgrown_None [OF s'(4)] by simp
      moreover have "dropped_by w" using swept_spec [OF pf descending_sorted [OF assms(1)] True] w(1) by auto
      moreover have "\<not> killed w" using no_kill_sweep [OF nk] w(1) by (auto simp: no_kill_def)
      ultimately have "pview s' k = None" "\<not> protected p" using grown_protected [OF w(2)] by (auto simp: dropped_by_def)
      moreover obtain j b q where q: "last_stored (mc_particleMap s') (mc_equivalentTracks s') k = Some (Some (j, b))"
        "pview s' j = Some q" "isSet (pt_reason q) (pt_reason w)" using chain [OF w(1)] by blast
      moreover have "isSet (pt_reason q) (pt_reason p)" by (rule isSet_trans [OF q(3)]) (use w(2) in \<open>simp add: grown_def\<close>)
      ultimately show ?thesis by simp
    next
      case False
      then have "(?W |` (- ?R)) k = Some w" using w(1) by simp
      from outgrown_Some [OF s'(4) this] obtain q where "pview s' k = Some q" "grown w q" by blast
      then show ?thesis using grown_trans [OF w(2)] by (auto simp: grown_def)
    qed
  next
    fix k p' assume p': "pview s' k = Some p'"
    then have "(?W |` (- ?R)) k \<noteq> None" using outgrown_None [OF s'(4), of k] by auto
    then have "?W k \<noteq> None" by (auto simp: restrict_map_def split: if_splits)
    then show "?V k \<noteq> None" using outgrown_None [OF sweep_outgrown, of ?V ?ks k] by simp
    show "protected p' \<or> \<not> defaultDropParticle p' \<or> kept_by_process (pview s') p'"
      using s'(3) p' by (auto simp: settled_def removable_def)
  qed (rule s'(1))
qed

text \<open>A primary particle and two generations of its secondaries: the last one made a hit in a calorimeter, or is to be killed.\<close>

definition sample_settings :: "nat Settings" where
  "sample_settings = \<lparr>cf_keepAll = False, cf_processNames = [], cf_above_cut = (\<lambda>e. e > 10), cf_at_rest = (\<lambda>e. e = 0), cf_far = (\<noteq>),
     cf_zero = 0, cf_definition = (\<lambda>p. True), cf_userHandlers = []\<rparr>"

definition sample_stored :: "int \<Rightarrow> int \<Rightarrow> i32 \<Rightarrow> nat Particle" where
  "sample_stored i parent reason = (Particle_new sample_settings)\<lparr>pt_id := i, pt_originalG4ID := i, pt_g4Parent := parent, pt_reason := reason\<rparr>"

definition sample_record :: "i32 \<Rightarrow> nat MCState" where
  "sample_record r = \<lparr>mc_next = 4, mc_heap = [1 \<mapsto> sample_stored 0 0 G4PARTICLE_PRIMARY, 2 \<mapsto> sample_stored 2 1 G4PARTICLE_CREATED_HIT, 3 \<mapsto> sample_stored 3 2 r],
     mc_globalParticleID = 4, mc_primaryMap = None, mc_currTrack = Particle_new sample_settings, mc_particleMap = [(1, 1), (2, 2), (3, 3)],
     mc_suspendedPM = [], mc_haveSuspended = False, mc_equivalentTracks = [(1, 1), (2, 2), (3, 3)], ev_primaryMap = Map.empty,
     ev_particles = [(0, 1)], ev_nextPID = 1, ev_particleMap = [], ev_equivalentTracks = []\<rparr>"

lemma sample_record_view: "pview (sample_record r) = [1 \<mapsto> sample_stored 0 0 G4PARTICLE_PRIMARY, 2 \<mapsto> sample_stored 2 1 G4PARTICLE_CREATED_HIT, 3 \<mapsto> sample_stored 3 2 r]"
  by (rule ext) (simp add: pview_def sample_record_def)

lemma sample_record_ok: "stored_ok (sample_record r)"
  by (simp add: stored_ok_def sample_record_def map_ok_def)

lemma sample_settings_handlers: "cf_userHandlers sample_settings = []"
  by (simp add: sample_settings_def)

theorem recombination_spec_witness:
  "\<exists>s' p'. recombine_all sample_settings (sample_record G4PARTICLE_CREATED_CALORIMETER_HIT) = Inr s' \<and> pview s' 1 = Some p' \<and> isSet (pt_reason p') G4PARTICLE_PRIMARY"
proof -
  let ?s = "sample_record G4PARTICLE_CREATED_CALORIMETER_HIT"
  have a: "\<forall>k p. pview ?s k = Some p \<longrightarrow> pt_g4Parent p < k \<and> \<not> killed p"
    by (simp add: sample_record_view sample_stored_def killed_def isSet_def particle_bits)
  have b: "\<forall>k p. pview ?s k = Some p \<longrightarrow> protected p \<or> pview ?s (pt_g4Parent p) \<noteq> None"
    by (simp add: sample_record_view sample_stored_def protected_def)
  obtain s' where s': "recombine_all sample_settings ?s = Inr s'" and v: "\<forall>k p. pview ?s k = Some p \<longrightarrow> (case pview s' k of
        Some p' \<Rightarrow> unsummed p' = unsummed p \<and> isSet (pt_reason p') (pt_reason p)
      | None \<Rightarrow> \<not> protected p \<and> (\<exists>j b q. last_stored (mc_particleMap s') (mc_equivalentTracks s') k = Some (Some (j, b)) \<and>
          pview s' j = Some q \<and> isSet (pt_reason q) (pt_reason p)))"
    using recombination_spec [OF sample_record_ok sample_settings_handlers a b] by blast
  have "pview ?s 1 = Some (sample_stored 0 0 G4PARTICLE_PRIMARY)" by (simp add: sample_record_view)
  from v [rule_format, OF this] have "\<exists>p'. pview s' 1 = Some p' \<and> isSet (pt_reason p') G4PARTICLE_PRIMARY"
    by (cases "pview s' 1") (simp_all add: sample_stored_def protected_def)
  then show ?thesis using s' by blast
qed

text \<open>C40. A particle marked to be killed takes all its stored ancestors with it, up to the primary particle: its parent inherits the
  mark together with the other properties, and is visited next.\<close>

theorem forced_kill_cascades:
  assumes "stored_ok s" and "cf_userHandlers cf = []" and "\<forall>k p. pview s k = Some p \<longrightarrow> pt_g4Parent p < k"
    and "pview s k = Some p" and "isSet (pt_reason p) G4PARTICLE_FORCE_KILL"
    and "(\<lambda>i j. \<exists>q. pview s i = Some q \<and> pt_g4Parent q = j \<and> pview s j \<noteq> None)\<^sup>*\<^sup>* k j"
  shows "\<exists>s'. recombine_all cf s = Inr s' \<and> pview s' j = None"
proof -
  have pf: "parents_first (pview s)" using assms(3) by (simp add: parents_first_def)
  let ?V = "pview s" and ?ks = "descending s"
  let ?W = "sweep ?V ?ks" and ?R = "set (swept ?V ?ks)"
  have gone: "i \<in> ?R" if i: "?W i = Some q" "isSet (pt_reason q) G4PARTICLE_FORCE_KILL" for i q
  proof (rule ccontr)
    assume n: "i \<notin> ?R"
    have "i \<in> set ?ks" using descending_all [OF assms(1)] outgrown_None [OF sweep_outgrown, of ?V ?ks i] i(1) by auto
    from unswept_spec [OF pf descending_sorted [OF assms(1)] this n i(1)] i(2) show False by (simp add: removable_def killed_def)
  qed
  have "\<exists>q. ?W j = Some q \<and> isSet (pt_reason q) G4PARTICLE_FORCE_KILL"
    using assms(6)
  proof (induction rule: rtranclp_induct)
    case base
    obtain w where "?W k = Some w" "grown p w" using sweep_Some [where V = ?V and js = ?ks, OF assms(4)] by blast
    then show ?case using grown_bits assms(5) by blast
  next
    case (step i j)
    then obtain w q where w: "?W i = Some w" "isSet (pt_reason w) G4PARTICLE_FORCE_KILL" and q: "?V i = Some q" "pt_g4Parent q = j" "?V j \<noteq> None" by blast
    have "grown q w" using sweep_Some [where V = ?V and js = ?ks, OF q(1)] w(1) by simp
    then have "pt_g4Parent w = j" using grown_parent q(2) by metis
    moreover obtain r where "?W j = Some r" using outgrown_None [OF sweep_outgrown, of ?V ?ks j] q(3) by auto
    ultimately have "isSet (pt_reason r) (pt_reason w)"
      using swept_spec [OF pf descending_sorted [OF assms(1)] gone [OF w]] w(1) by auto
    then show ?case using \<open>?W j = Some r\<close> w(2) isSet_trans by blast
  qed
  then have "j \<in> ?R" using gone by blast
  obtain s1 n where s1: "recombineParents cf s = Inr (s1, n)" "stored_ok s1" "pview s1 = ?W |` (- ?R)"
    using recombineParents_view [OF assms(1,2)] by blast
  have "pview s1 j = None" using \<open>j \<in> ?R\<close> s1(3) by simp
  moreover obtain s' where "recombine_all cf s1 = Inr s'" "\<forall>k. pview s1 k = None \<longrightarrow> pview s' k = None"
    using recombine_all_total [OF s1(2) assms(2)] by blast
  ultimately show ?thesis using s1(1) by (cases "0 < n") (auto simp: recombine_all.simps [of cf s])
qed

theorem forced_kill_cascades_witness:
  "\<exists>s'. recombine_all sample_settings (sample_record G4PARTICLE_FORCE_KILL) = Inr s' \<and> pview s' 1 = None"
proof (rule forced_kill_cascades [OF sample_record_ok sample_settings_handlers])
  let ?s = "sample_record G4PARTICLE_FORCE_KILL"
  let ?R = "\<lambda>i j. \<exists>q. pview ?s i = Some q \<and> pt_g4Parent q = j \<and> pview ?s j \<noteq> None"
  show "\<forall>k p. pview ?s k = Some p \<longrightarrow> pt_g4Parent p < k" by (simp add: sample_record_view sample_stored_def)
  show "pview ?s 3 = Some (sample_stored 3 2 G4PARTICLE_FORCE_KILL)" by (simp add: sample_record_view)
  show "isSet (pt_reason (sample_stored 3 2 G4PARTICLE_FORCE_KILL)) G4PARTICLE_FORCE_KILL" by (simp add: sample_stored_def)
  have "?R 3 2" by (simp add: sample_record_view sample_stored_def)
  moreover have "?R 2 1" by (simp add: sample_record_view sample_stored_def)
  ultimately show "?R\<^sup>*\<^sup>* 3 1" by (rule converse_rtranclp_into_rtranclp [OF _ r_into_rtranclp])
qed

section \<open>Tracking\<close>

definition track_whole :: "'d Settings \<Rightarrow> 'd MCState \<Rightarrow> 'd Track \<Rightarrow> 'd MCState cpp" where
  "track_whole cf s t = bindE (track_begin cf s t) (\<lambda>s1. track_end cf s1 t)"

lemma start_track_keeps:
  assumes "cf_userHandlers cf = []"
  shows "isSet (pt_reason (start_track cf t c)) (pt_reason c)" "pt_extension (start_track cf t c) = pt_extension c"
    "pt_g4Parent (start_track cf t c) = tk_parent t"
proof -
  have or: "isSet (pt_reason (or_reason m p)) r" if "isSet (pt_reason p) r" for m r and p :: "'a Particle"
    using that isSet_trans isSet_or by (fastforce simp: or_reason_def)
  show "isSet (pt_reason (start_track cf t c)) (pt_reason c)"
    by (auto simp: start_track_def Let_def assms split: option.split intro!: or)
  show "pt_extension (start_track cf t c) = pt_extension c" "pt_g4Parent (start_track cf t c) = tk_parent t"
    by (auto simp: start_track_def Let_def assms or_reason_def split: option.split)
qed

lemma store_new_track:
  assumes "map_of (mc_particleMap s) (tk_id t) = None" and "0 < mc_next s"
  shows "\<exists>s' q. store_track cf s t b = Inr s' \<and> mc_haveSuspended s' = mc_haveSuspended s \<and> mc_next s' = Suc (mc_next s) \<and>
    mc_heap s' = (mc_heap s)(mc_next s \<mapsto> q) \<and> mc_particleMap s' = map_assign (tk_id t) (mc_next s) (mc_particleMap s) \<and>
    pt_extension q = pt_extension (mc_currTrack s) \<and> pt_extension (mc_currTrack s') = (case tk_information t of Some e \<Rightarrow> e | None \<Rightarrow> None)"
proof -
  have upd: "\<exists>q. (mc_heap s)(mc_next s \<mapsto> x) = (mc_heap s)(mc_next s \<mapsto> q) \<and> pt_extension q = e" if "pt_extension x = e" for x e
    using that by blast
  show ?thesis using assms by (cases "tk_information t"; cases b)
    (simp_all add: store_track_def Let_def particle_alloc_def particle_get_def particle_put_def get_data_def or_reason_def Particle_new_def upd)
qed

lemma bindE_Inr: "bindE r Inr = r"
  by (cases r) simp_all

lemma track_end_stores:
  assumes "cf_userHandlers cf = []" and "\<not> tk_suspended t" and "pt_reason (mc_currTrack s) \<noteq> 0 \<or> tk_information t \<noteq> None"
  shows "\<exists>p b. pt_extension p = pt_extension (mc_currTrack s) \<and> track_end cf s t = store_track cf (s\<lparr>mc_currTrack := p\<rparr>) t b"
proof -
  let ?p1 = "(mc_currTrack s)\<lparr>pt_pe := tk_momentum t, pt_ve := tk_position t\<rparr>"
  let ?p2 = "if tk_at_boundary t then or_status G4PARTICLE_SIM_LEFT_DETECTOR ?p1 else ?p1"
  define p where "p = (if cf_at_rest cf (tk_energy t) then or_status G4PARTICLE_SIM_STOPPED ?p2 else ?p2)"
  have p: "pt_reason p = pt_reason (mc_currTrack s)" "pt_extension p = pt_extension (mc_currTrack s)"
    by (simp_all add: p_def or_status_def)
  have "\<exists>b. track_end cf s t = bindE (if pt_reason p \<noteq> 0 \<or> tk_information t \<noteq> None \<or> b then store_track cf (s\<lparr>mc_currTrack := p\<rparr>) t b
      else forget_track (s\<lparr>mc_currTrack := p\<rparr>) t (pt_reason p)) (\<lambda>s2. if tk_suspended t then suspend_track cf s2 t else Inr s2) \<or> pt_reason p = 0 \<and> tk_information t = None"
    unfolding track_end_def Let_def assms(1) foldl.simps p_def [symmetric] using assms(3) p(1) by auto
  then show ?thesis using p assms(2,3) by (auto simp: bindE_Inr)
qed

lemma whole_new_track:
  assumes "cf_userHandlers cf = []" and "\<not> mc_haveSuspended s" and "0 < mc_next s" and "tk_primary t = None" and "\<not> tk_suspended t"
    and "map_of (mc_particleMap s) (tk_id t) = None" and "tk_information t \<noteq> None \<or> cf_above_cut cf (tk_energy t)"
  shows "\<exists>s' q. track_whole cf s t = Inr s' \<and> \<not> mc_haveSuspended s' \<and> mc_next s' = Suc (mc_next s) \<and> mc_heap s' = (mc_heap s)(mc_next s \<mapsto> q) \<and>
    mc_particleMap s' = map_assign (tk_id t) (mc_next s) (mc_particleMap s) \<and> pt_extension q = pt_extension (mc_currTrack s) \<and>
    pt_extension (mc_currTrack s') = (case tk_information t of Some e \<Rightarrow> e | None \<Rightarrow> None)"
proof -
  let ?r = "if cf_above_cut cf (tk_energy t) then G4PARTICLE_ABOVE_ENERGY_THRESHOLD else 0"
  let ?c = "start_track cf t (start_simulated cf (mc_currTrack s) (mc_globalParticleID s) ?r t)"
  let ?s1 = "s\<lparr>mc_currTrack := ?c, mc_globalParticleID := mc_globalParticleID s + 1\<rparr>"
  have begin1: "track_begin cf s t = Inr ?s1" using assms(2,4) by (simp add: track_begin_def Let_def)
  have ext: "pt_extension ?c = pt_extension (mc_currTrack s)" by (simp add: start_track_keeps(2) [OF assms(1)] start_simulated_def)
  have "pt_reason ?c \<noteq> 0 \<or> tk_information t \<noteq> None"
  proof (cases "cf_above_cut cf (tk_energy t)")
    case True
    have "isSet (pt_reason ?c) (pt_reason (start_simulated cf (mc_currTrack s) (mc_globalParticleID s) ?r t))"
      by (rule start_track_keeps(1) [OF assms(1)])
    then have "isSet (pt_reason ?c) G4PARTICLE_ABOVE_ENERGY_THRESHOLD" using True by (simp add: start_simulated_def)
    then show ?thesis by (auto simp: isSet_def G4PARTICLE_ABOVE_ENERGY_THRESHOLD_def)
  qed (use assms(7) in simp)
  then have "pt_reason (mc_currTrack ?s1) \<noteq> 0 \<or> tk_information t \<noteq> None" by simp
  from track_end_stores [OF assms(1,5) this]
  obtain p b where p: "pt_extension p = pt_extension (mc_currTrack ?s1)" "track_end cf ?s1 t = store_track cf (?s1\<lparr>mc_currTrack := p\<rparr>) t b" by blast
  obtain s' q where q: "store_track cf (?s1\<lparr>mc_currTrack := p\<rparr>) t b = Inr s'" "mc_haveSuspended s' = mc_haveSuspended s"
      "mc_next s' = Suc (mc_next s)" "mc_heap s' = (mc_heap s)(mc_next s \<mapsto> q)"
      "mc_particleMap s' = map_assign (tk_id t) (mc_next s) (mc_particleMap s)" "pt_extension q = pt_extension p"
      "pt_extension (mc_currTrack s') = (case tk_information t of Some e \<Rightarrow> e | None \<Rightarrow> None)"
    using store_new_track [of "?s1\<lparr>mc_currTrack := p\<rparr>" t cf b] assms(3,6) by auto
  have "track_whole cf s t = Inr s'" using begin1 p(2) q(1) by (simp add: track_whole_def)
  moreover have "pt_extension q = pt_extension (mc_currTrack s)" using q(6) p(1) ext by simp
  ultimately show ?thesis using q assms(2) by blast
qed

text \<open>User information of a track is attached to the wrong particle: the particle of the track itself
  gets none, and the particle of the next stored track gets it. The extension is set just before \<open>get_data\<close>
  exchanges it with that of the current track.\<close>

theorem information_of_the_previous_track:
  assumes "cf_userHandlers cf = []" and "\<not> mc_haveSuspended s" and "0 < mc_next s" and "pt_extension (mc_currTrack s) = None"
    and "tk_primary t = None" and "\<not> tk_suspended t" and "map_of (mc_particleMap s) (tk_id t) = None" and "tk_information t = Some (Some x)"
    and "tk_primary u = None" and "\<not> tk_suspended u" and "map_of (mc_particleMap s) (tk_id u) = None" and "tk_information u = None"
    and "tk_id u \<noteq> tk_id t" and "cf_above_cut cf (tk_energy u)"
  shows "\<exists>s1 s2 a b p q. track_whole cf s t = Inr s1 \<and> track_whole cf s1 u = Inr s2 \<and>
    map_of (mc_particleMap s2) (tk_id t) = Some a \<and> mc_heap s2 a = Some p \<and> pt_extension p = None \<and>
    map_of (mc_particleMap s2) (tk_id u) = Some b \<and> mc_heap s2 b = Some q \<and> pt_extension q = Some x"
proof -
  obtain s1 p where s1: "track_whole cf s t = Inr s1" "\<not> mc_haveSuspended s1" "mc_next s1 = Suc (mc_next s)" "mc_heap s1 = (mc_heap s)(mc_next s \<mapsto> p)"
    "mc_particleMap s1 = map_assign (tk_id t) (mc_next s) (mc_particleMap s)" "pt_extension p = pt_extension (mc_currTrack s)"
    "pt_extension (mc_currTrack s1) = Some x" using whole_new_track [OF assms(1-3,5-7)] assms(8) by auto
  have "map_of (mc_particleMap s1) (tk_id u) = None" "0 < mc_next s1" using assms(11,13) s1(3,5) by simp_all
  then obtain s2 q where "track_whole cf s1 u = Inr s2" "mc_heap s2 = (mc_heap s1)(mc_next s1 \<mapsto> q)"
    "mc_particleMap s2 = map_assign (tk_id u) (mc_next s1) (mc_particleMap s1)" "pt_extension q = Some x"
    using whole_new_track [OF assms(1) s1(2) _ assms(9,10)] assms(14) s1(7) by auto
  then show ?thesis using s1 assms(4,13) by auto
qed

definition sample_track :: "int \<Rightarrow> nat option option \<Rightarrow> nat Track" where
  "sample_track i info = \<lparr>tk_id = i, tk_parent = 1, tk_primary = None, tk_energy = 20, tk_charge3 = 0, tk_pdgID = 22, tk_mass = 0,
     tk_process = None, tk_time = 0, tk_vertex = (0, 0, 0), tk_momentum = (1, 0, 0), tk_position = (5, 0, 0), tk_sensitive = None,
     tk_at_boundary = False, tk_information = info, tk_suspended = False\<rparr>"

theorem information_of_the_previous_track_witness:
  "\<exists>s1 s2 a b p q. track_whole sample_settings (sample_record 0) (sample_track 4 (Some (Some 7))) = Inr s1 \<and>
    track_whole sample_settings s1 (sample_track 5 None) = Inr s2 \<and>
    map_of (mc_particleMap s2) 4 = Some a \<and> mc_heap s2 a = Some p \<and> pt_extension p = None \<and>
    map_of (mc_particleMap s2) 5 = Some b \<and> mc_heap s2 b = Some q \<and> pt_extension q = Some 7"
  using information_of_the_previous_track [OF sample_settings_handlers, of "sample_record 0" "sample_track 4 (Some (Some 7))" 7 "sample_track 5 None"]
  by (simp add: sample_record_def sample_track_def sample_settings_def Particle_new_def)

end
