(* ===== verification/ParticleNumbering.thy ===== *)
theory ParticleNumbering
  imports ParticleRecordProps
begin

text \<open>
  The final record of an event: the numbers of the particles, the particle every Geant4 track is mapped to, the links of
  parents and daughters, and that a record of which the generator's part is consistent passes the check.
\<close>

unbundle bit_operations_syntax

section \<open>Changes of particles up to some of their fields\<close>

definition heap_like :: "('d Particle \<Rightarrow> 'd Particle) \<Rightarrow> 'd MCState \<Rightarrow> 'd MCState \<Rightarrow> bool" where
  "heap_like f s t \<longleftrightarrow> t = s\<lparr>mc_heap := mc_heap t\<rparr> \<and> (\<forall>a. map_option f (mc_heap t a) = map_option f (mc_heap s a))"

lemma heap_like_refl: "heap_like f s s"
  by (simp add: heap_like_def)

lemma heap_like_trans: "\<lbrakk>heap_like f s t; heap_like f t u\<rbrakk> \<Longrightarrow> heap_like f s u"
  unfolding heap_like_def by (metis MCState.unfold_congs(2) MCState.surjective MCState.update_convs(2))

lemma heap_like_put: "\<lbrakk>mc_heap s a = Some p; f q = f p\<rbrakk> \<Longrightarrow> heap_like f s (particle_put s a q)"
  by (simp add: heap_like_def particle_put_def)

lemma heap_like_Some: "\<lbrakk>heap_like f s t; mc_heap s a = Some p\<rbrakk> \<Longrightarrow> \<exists>q. mc_heap t a = Some q \<and> f q = f p"
  unfolding heap_like_def by (metis map_option_eq_Some option.simps(9))

lemma heap_like_back: "\<lbrakk>heap_like f s t; mc_heap t a = Some q\<rbrakk> \<Longrightarrow> \<exists>p. mc_heap s a = Some p \<and> f q = f p"
  unfolding heap_like_def by (metis map_option_eq_Some option.simps(9))

lemma heap_like_maps:
  assumes "heap_like f s t"
  shows "mc_particleMap t = mc_particleMap s" "mc_equivalentTracks t = mc_equivalentTracks s" "ev_particles t = ev_particles s"
    "ev_particleMap t = ev_particleMap s"
proof -
  have t: "t = s\<lparr>mc_heap := mc_heap t\<rparr>" using assms by (simp add: heap_like_def)
  show "mc_particleMap t = mc_particleMap s" "mc_equivalentTracks t = mc_equivalentTracks s" "ev_particles t = ev_particles s"
    "ev_particleMap t = ev_particleMap s" by (subst t, simp)+
qed

lemma particle_get_heap: "a \<noteq> 0 \<Longrightarrow> mc_heap s a = Some p \<Longrightarrow> particle_get s a = Inr p"
  by (simp add: particle_get_def)

definition unreferenced :: "'d Particle \<Rightarrow> 'd Particle" where
  "unreferenced p = p\<lparr>pt_ref := 0\<rparr>"

definition unlinked :: "'d Particle \<Rightarrow> 'd Particle" where
  "unlinked p = p\<lparr>pt_parents := {}, pt_daughters := {}\<rparr>"

lemma unreferenced_fields:
  assumes "unreferenced q = unreferenced p"
  shows "pt_id q = pt_id p" "pt_reason q = pt_reason p" "pt_status q = pt_status p" "pt_g4Parent q = pt_g4Parent p"
    "pt_parents q = pt_parents p" "pt_daughters q = pt_daughters p" "is_primary q = is_primary p"
proof -
  have "pt_id p = pt_id (unreferenced p) \<and> pt_reason p = pt_reason (unreferenced p) \<and> pt_status p = pt_status (unreferenced p) \<and>
    pt_g4Parent p = pt_g4Parent (unreferenced p) \<and> pt_parents p = pt_parents (unreferenced p) \<and>
    pt_daughters p = pt_daughters (unreferenced p)" for p :: "'a Particle" by (simp add: unreferenced_def)
  then show "pt_id q = pt_id p" "pt_reason q = pt_reason p" "pt_status q = pt_status p" "pt_g4Parent q = pt_g4Parent p"
    "pt_parents q = pt_parents p" "pt_daughters q = pt_daughters p" "is_primary q = is_primary p"
    unfolding is_primary_def using assms by metis+
qed

lemma unlinked_fields:
  assumes "unlinked q = unlinked p"
  shows "pt_id q = pt_id p" "pt_reason q = pt_reason p" "pt_status q = pt_status p" "pt_g4Parent q = pt_g4Parent p" "is_primary q = is_primary p"
proof -
  have "pt_id p = pt_id (unlinked p) \<and> pt_reason p = pt_reason (unlinked p) \<and> pt_status p = pt_status (unlinked p) \<and>
    pt_g4Parent p = pt_g4Parent (unlinked p)" for p :: "'a Particle" by (simp add: unlinked_def)
  then show "pt_id q = pt_id p" "pt_reason q = pt_reason p" "pt_status q = pt_status p" "pt_g4Parent q = pt_g4Parent p" "is_primary q = is_primary p"
    unfolding is_primary_def using assms by metis+
qed

section \<open>Numbering\<close>

text \<open>The particles of the generator keep their numbers, the stored ones follow in the order of their tracks.\<close>

lemma rebase_generated_fold:
  assumes "\<forall>(k, a) \<in> set es. a \<noteq> 0 \<and> (\<exists>p. mc_heap s a = Some p \<and> pt_id p = k)"
  shows "\<exists>s' count'. foldE rebase_generated (s, final, count) es = Inr (s', foldl (\<lambda>m (k, a). map_assign k a m) final es, count') \<and>
    heap_like unreferenced s s' \<and> count \<le> count' \<and> (\<forall>k \<in> fst ` set es. k \<le> count')"
  using assms
proof (induction es arbitrary: s final count)
  case Nil
  then show ?case by (simp add: heap_like_refl)
next
  case (Cons e es)
  obtain k a where e: "e = (k, a)" by fastforce
  from Cons.prems obtain p where p: "a \<noteq> 0" "mc_heap s a = Some p" "pt_id p = k" by (auto simp: e)
  let ?c = "if count < k then k else count"
  obtain s1 where s1: "(if is_primary p then Inr s else particle_addRef s a) = Inr s1" "heap_like unreferenced s s1"
  proof (cases "is_primary p")
    case True
    then show thesis by (intro that [of s]) (simp_all add: heap_like_refl)
  next
    case False
    then show thesis using p
      by (intro that [of "particle_put s a (p\<lparr>pt_ref := pt_ref p + 1\<rparr>)"])
        (simp_all add: particle_addRef_def particle_modify_def particle_get_heap heap_like_put unreferenced_def)
  qed
  have step: "rebase_generated (s, final, count) e = Inr (s1, map_assign k a final, ?c)"
    using p s1(1) by (simp add: rebase_generated_def e particle_get_heap)
  have "\<forall>(k, a) \<in> set es. a \<noteq> 0 \<and> (\<exists>p. mc_heap s1 a = Some p \<and> pt_id p = k)"
  proof safe
    fix l b assume "(l, b) \<in> set es"
    then show "0 < b" "\<exists>p. mc_heap s1 b = Some p \<and> pt_id p = l"
      using Cons.prems heap_like_Some [OF s1(2), of b] unreferenced_fields(1) by fastforce+
  qed
  from Cons.IH [OF this, of "map_assign k a final" ?c]
  obtain s' count' where "foldE rebase_generated (s1, map_assign k a final, ?c) es =
      Inr (s', foldl (\<lambda>m (k, a). map_assign k a m) (map_assign k a final) es, count')"
    "heap_like unreferenced s1 s'" "?c \<le> count'" "\<forall>k \<in> fst ` set es. k \<le> count'" by blast
  then show ?case using step heap_like_trans [OF s1(2)] by (auto simp: e split: if_splits)
qed

lemma assign_all: "map_ok m \<Longrightarrow> foldl (\<lambda>m (k, a). map_assign k a m) [] m = m"
proof (rule map_ok_ext)
  have *: "foldl (\<lambda>m (k, a). map_assign k a m) [] m = sm.of_pairs m" by (simp add: sm.of_pairs_def)
  show "map_ok (foldl (\<lambda>m (k, a). map_assign k a m) [] m)" unfolding * by (rule sm.ok_of_pairs)
  show "map_of (foldl (\<lambda>m (k, a). map_assign k a m) [] m) = map_of m" if "map_ok m"
    unfolding * sm.find_of_pairs using map_ok_distinct [OF that] by (intro map_of_inject_set [THEN iffD2]) (simp_all add: rev_map [symmetric])
qed simp

text \<open>What the second loop does with the object of a stored particle.\<close>

definition numbered :: "int \<Rightarrow> int \<Rightarrow> (int, nat) std_map \<Rightarrow> 'd MCState \<Rightarrow> 'd MCState \<Rightarrow> nat \<Rightarrow> bool" where
  "numbered low high final s t a \<longleftrightarrow> (\<exists>p q. mc_heap s a = Some p \<and> mc_heap t a = Some q \<and>
     (if is_primary p then q = p else q = p\<lparr>pt_id := pt_id q\<rparr> \<and> low \<le> pt_id q \<and> pt_id q < high \<and> map_of final (pt_id q) = Some a))"

definition number_before :: "'d MCState \<Rightarrow> int \<times> nat \<Rightarrow> int \<times> nat \<Rightarrow> bool" where
  "number_before t = (\<lambda>(_, a) (_, b). \<forall>p q. mc_heap t a = Some p \<and> mc_heap t b = Some q \<and> \<not> is_primary p \<and> \<not> is_primary q \<longrightarrow>
     pt_id p < pt_id q)"

lemma is_primary_id [simp]: "is_primary (p\<lparr>pt_id := i\<rparr>) = is_primary p"
  by (simp add: is_primary_def)

lemma rebase_simulated_fold:
  assumes "\<forall>(k, a) \<in> set es. a \<noteq> 0 \<and> mc_heap s a \<noteq> None" and "distinct (List.map snd es)"
  shows "\<exists>t final' count'. foldE rebase_simulated (s, final, count) es = Inr (t, final', count') \<and>
    t = s\<lparr>mc_heap := mc_heap t\<rparr> \<and> (\<forall>a. a \<notin> snd ` set es \<longrightarrow> mc_heap t a = mc_heap s a) \<and> count \<le> count' \<and>
    (map_ok final \<longrightarrow> map_ok final') \<and> (\<forall>n. n < count \<or> count' \<le> n \<longrightarrow> map_of final' n = map_of final n) \<and>
    (\<forall>n a. count \<le> n \<longrightarrow> n < count' \<longrightarrow> map_of final' n = Some a \<longrightarrow> a \<in> snd ` set es \<and> map_option pt_id (mc_heap t a) = Some n) \<and>
    (\<forall>a \<in> snd ` set es. numbered count count' final' s t a) \<and> sorted_wrt (number_before t) es"
  using assms
proof (induction es arbitrary: s final count)
  case Nil
  then show ?case by simp
next
  case (Cons e es)
  obtain k a where e: "e = (k, a)" by fastforce
  from Cons.prems obtain p where p: "a \<noteq> 0" "mc_heap s a = Some p" and fresh: "a \<notin> snd ` set es" by (auto simp: e)
  show ?case
  proof (cases "is_primary p")
    case True
    then have step: "rebase_simulated (s, final, count) e = Inr (s, final, count)"
      using p by (simp add: rebase_simulated_def e particle_get_heap)
    from Cons.IH [of s final count] Cons.prems obtain t final' count' where t:
      "foldE rebase_simulated (s, final, count) es = Inr (t, final', count')"
      "t = s\<lparr>mc_heap := mc_heap t\<rparr>" "\<forall>a. a \<notin> snd ` set es \<longrightarrow> mc_heap t a = mc_heap s a" "count \<le> count'"
      "map_ok final \<longrightarrow> map_ok final'" "\<forall>n. n < count \<or> count' \<le> n \<longrightarrow> map_of final' n = map_of final n"
      "\<forall>n a. count \<le> n \<longrightarrow> n < count' \<longrightarrow> map_of final' n = Some a \<longrightarrow> a \<in> snd ` set es \<and> map_option pt_id (mc_heap t a) = Some n"
      "\<forall>a \<in> snd ` set es. numbered count count' final' s t a" "sorted_wrt (number_before t) es" by auto
    have here: "mc_heap t a = Some p" using t(3) fresh p by simp
    have "numbered count count' final' s t a" using p here True by (simp add: numbered_def)
    moreover have "\<forall>f \<in> set es. number_before t e f" using here True by (simp add: number_before_def e case_prod_unfold)
    ultimately show ?thesis using t step by (intro exI [of _ t] exI [of _ final'] exI [of _ count']) (auto simp: e)
  next
    case False
    let ?s1 = "particle_put s a (p\<lparr>pt_id := count\<rparr>)" and ?f1 = "map_assign count a final"
    have step: "rebase_simulated (s, final, count) e = Inr (?s1, ?f1, count + 1)"
      using p False by (simp add: rebase_simulated_def e particle_get_heap)
    have "\<forall>(k, a) \<in> set es. a \<noteq> 0 \<and> mc_heap ?s1 a \<noteq> None" using Cons.prems by (auto simp: particle_put_def)
    with Cons.IH [of ?s1 ?f1 "count + 1"] Cons.prems obtain t final' count' where t:
      "foldE rebase_simulated (?s1, ?f1, count + 1) es = Inr (t, final', count')"
      "t = ?s1\<lparr>mc_heap := mc_heap t\<rparr>" "\<forall>a. a \<notin> snd ` set es \<longrightarrow> mc_heap t a = mc_heap ?s1 a" "count + 1 \<le> count'"
      "map_ok ?f1 \<longrightarrow> map_ok final'" "\<forall>n. n < count + 1 \<or> count' \<le> n \<longrightarrow> map_of final' n = map_of ?f1 n"
      "\<forall>n a. count + 1 \<le> n \<longrightarrow> n < count' \<longrightarrow> map_of final' n = Some a \<longrightarrow> a \<in> snd ` set es \<and> map_option pt_id (mc_heap t a) = Some n"
      "\<forall>a \<in> snd ` set es. numbered (count + 1) count' final' ?s1 t a" "sorted_wrt (number_before t) es" by auto
    have here: "mc_heap t a = Some (p\<lparr>pt_id := count\<rparr>)" using t(3) fresh by (simp add: particle_put_def)
    have num: "map_of final' count = Some a" using t(6) by simp
    have others: "numbered count count' final' s t b" if "b \<in> snd ` set es" for b
    proof -
      have "b \<noteq> a" using that fresh by blast
      moreover have "numbered (count + 1) count' final' ?s1 t b" using t(8) that by blast
      ultimately show ?thesis unfolding numbered_def by (auto simp: particle_put_def split: if_splits)
    qed
    have before: "number_before t e (l, b)" if "(l, b) \<in> set es" for l b
    proof -
      from t(8) that have "numbered (count + 1) count' final' ?s1 t b" by force
      then have "\<exists>q. mc_heap t b = Some q \<and> (is_primary q \<or> count + 1 \<le> pt_id q)"
        unfolding numbered_def by (metis (full_types))
      then show ?thesis using here by (auto simp: number_before_def e)
    qed
    show ?thesis
    proof (intro exI conjI)
      show "foldE rebase_simulated (s, final, count) (e # es) = Inr (t, final', count')" using step t(1) by simp
      show "t = s\<lparr>mc_heap := mc_heap t\<rparr>" using t(2) by (metis MCState.update_convs(2) MCState.surjective particle_put_def)
      show "\<forall>b. b \<notin> snd ` set (e # es) \<longrightarrow> mc_heap t b = mc_heap s b" using t(3) by (simp add: e particle_put_def)
      show "count \<le> count'" using t(4) by simp
      show "map_ok final \<longrightarrow> map_ok final'" using t(5) by simp
      show "\<forall>n. n < count \<or> count' \<le> n \<longrightarrow> map_of final' n = map_of final n" using t(4,6) by auto
      show "\<forall>n b. count \<le> n \<longrightarrow> n < count' \<longrightarrow> map_of final' n = Some b \<longrightarrow> b \<in> snd ` set (e # es) \<and> map_option pt_id (mc_heap t b) = Some n"
      proof (intro allI impI)
        fix n b assume n: "count \<le> n" "n < count'" "map_of final' n = Some b"
        show "b \<in> snd ` set (e # es) \<and> map_option pt_id (mc_heap t b) = Some n"
        proof (cases "n = count")
          case True
          then show ?thesis using n num here by (simp add: e)
        next
          case False
          then have "count + 1 \<le> n" using n(1) by simp
          then show ?thesis using t(7) n(2,3) by auto
        qed
      qed
      show "\<forall>b \<in> snd ` set (e # es). numbered count count' final' s t b"
        using others here num p(2) False t(4) by (simp add: e numbered_def)
      show "sorted_wrt (number_before t) (e # es)" using before t(9) by auto
    qed
  qed
qed

section \<open>The links of parents and daughters\<close>

text \<open>The parent by Geant4's record that is in the final record, the parents a particle gets and the one it becomes a daughter of.\<close>

definition tracked_parent :: "(int, nat) std_map \<Rightarrow> (int, int) std_map \<Rightarrow> 'd Particle \<Rightarrow> int option" where
  "tracked_parent final eqv p = (if pt_g4Parent p > 0 then
     (case map_of eqv (pt_g4Parent p) of None \<Rightarrow> None | Some e \<Rightarrow> if map_of final e = None then None else Some e) else None)"

definition new_parents :: "(int, nat) std_map \<Rightarrow> (int, int) std_map \<Rightarrow> 'd Particle \<Rightarrow> int set" where
  "new_parents final eqv p = (case tracked_parent final eqv p of None \<Rightarrow> pt_parents p
     | Some e \<Rightarrow> if is_primary p then pt_parents p else insert e (pt_parents p))"

definition adopted_by :: "(int, nat) std_map \<Rightarrow> (int, int) std_map \<Rightarrow> 'd Particle \<Rightarrow> int option" where
  "adopted_by final eqv p = (case tracked_parent final eqv p of None \<Rightarrow> None
     | Some e \<Rightarrow> if new_parents final eqv p \<noteq> {} \<and> Min (new_parents final eqv p) = e then Some e else None)"

definition kids :: "(int, nat) std_map \<Rightarrow> (int, int) std_map \<Rightarrow> 'd MCState \<Rightarrow> (int \<times> nat) set \<Rightarrow> int \<Rightarrow> int set" where
  "kids final eqv s S i = {k. \<exists>a p. (k, a) \<in> S \<and> mc_heap s a = Some p \<and> adopted_by final eqv p = Some i}"

definition relinked :: "int set \<Rightarrow> int set \<Rightarrow> 'd Particle \<Rightarrow> 'd Particle" where
  "relinked ps ks q = q\<lparr>pt_parents := ps, pt_daughters := pt_daughters q \<union> ks\<rparr>"

definition linked_heap :: "(int, nat) std_map \<Rightarrow> (int, int) std_map \<Rightarrow> 'd MCState \<Rightarrow> (int \<times> nat) set \<Rightarrow> nat \<Rightarrow> 'd Particle option" where
  "linked_heap final eqv s S b = (case mc_heap s b of None \<Rightarrow> None
     | Some q \<Rightarrow> if b \<notin> snd ` set final then Some q
         else Some (relinked (if b \<in> snd ` S then new_parents final eqv q else pt_parents q) (kids final eqv s S (pt_id q)) q))"

lemma relinked_fields [simp]:
  "pt_id (relinked ps ks q) = pt_id q" "pt_g4Parent (relinked ps ks q) = pt_g4Parent q" "pt_parents (relinked ps ks q) = ps"
  "pt_reason (relinked ps ks q) = pt_reason q" "pt_status (relinked ps ks q) = pt_status q"
  "is_primary (relinked ps ks q) = is_primary q" "pt_daughters (relinked ps ks q) = pt_daughters q \<union> ks"
  by (simp_all add: relinked_def is_primary_def)

lemma relinked_update [simp]:
  "(relinked ps ks q)\<lparr>pt_parents := qs\<rparr> = relinked qs ks q"
  "(relinked ps ks q)\<lparr>pt_daughters := insert k (pt_daughters q \<union> ks)\<rparr> = relinked ps (insert k ks) q"
  by (simp_all add: relinked_def)

lemma relinked_nothing [simp]: "relinked (pt_parents q) {} q = q"
  by (simp add: relinked_def)

lemma kids_Nil [simp]: "kids final eqv s {} i = {}"
  by (simp add: kids_def)

lemma kids_insert:
  "mc_heap s a = Some p \<Longrightarrow> kids final eqv s (insert (k, a) S) i = (if adopted_by final eqv p = Some i then insert k (kids final eqv s S i) else kids final eqv s S i)"
  by (auto simp: kids_def)

definition keyed :: "(int, nat) std_map \<Rightarrow> 'd MCState \<Rightarrow> bool" where
  "keyed final s \<longleftrightarrow> map_ok final \<and> (\<forall>(n, a) \<in> set final. a \<noteq> 0 \<and> (\<exists>p. mc_heap s a = Some p \<and> pt_id p = n))"

lemma keyed_find:
  assumes "keyed final s" and "map_of final n = Some a"
  obtains p where "a \<noteq> 0" "mc_heap s a = Some p" "pt_id p = n"
  using assms map_of_SomeD [OF assms(2)] unfolding keyed_def by fastforce

lemma linked_heap_mem:
  assumes "b \<in> snd ` set final" and "mc_heap s b = Some q"
  shows "linked_heap final eqv s S b = Some (relinked (if b \<in> snd ` S then new_parents final eqv q else pt_parents q) (kids final eqv s S (pt_id q)) q)"
  using assms by (simp add: linked_heap_def)

lemma linked_heap_Nil: "linked_heap final eqv s {} = mc_heap s"
  by (rule ext) (simp add: linked_heap_def split: option.split)

lemma linked_heap_other:
  assumes "mc_heap s a = Some p" and "x \<noteq> a" and "\<And>r. x \<in> snd ` set final \<Longrightarrow> mc_heap s x = Some r \<Longrightarrow> adopted_by final eqv p \<noteq> Some (pt_id r)"
  shows "linked_heap final eqv s (insert (k, a) S) x = linked_heap final eqv s S x"
  using assms(2,3) kids_insert [OF assms(1), of final eqv k S] by (auto simp: linked_heap_def split: option.split)

lemma link_parent_step:
  assumes "keyed final s" and "(k, a) \<in> set final" and "a \<notin> snd ` S"
  shows "link_parent final eqv (s\<lparr>mc_heap := linked_heap final eqv s S\<rparr>) (k, a) = Inr (s\<lparr>mc_heap := linked_heap final eqv s (insert (k, a) S)\<rparr>)"
proof -
  let ?L = "linked_heap final eqv s" and ?K = "kids final eqv s"
  let ?t = "s\<lparr>mc_heap := ?L S\<rparr>"
  from assms obtain p where p: "a \<noteq> 0" "mc_heap s a = Some p" "pt_id p = k" unfolding keyed_def by blast
  have mem: "a \<in> snd ` set final" using assms(2) by force
  have La: "?L S a = Some (relinked (pt_parents p) (?K S k) p)" unfolding linked_heap_mem [OF mem p(2)] using assms(3) p(3) by simp
  have La': "?L (insert (k, a) S) a = Some (relinked (new_parents final eqv p) (?K (insert (k, a) S) k) p)"
    unfolding linked_heap_mem [OF mem p(2)] using p(3) by simp
  have get: "particle_get ?t a = Inr (relinked (pt_parents p) (?K S k) p)" using p(1) La by (simp add: particle_get_heap)
  show ?thesis
  proof (cases "tracked_parent final eqv p")
    case None
    then have no: "adopted_by final eqv p = None" "new_parents final eqv p = pt_parents p" by (simp_all add: adopted_by_def new_parents_def)
    have "?L (insert (k, a) S) x = ?L S x" for x
      using linked_heap_other [OF p(2), of x final eqv] no La La' kids_insert [OF p(2), of final eqv k S k] by (cases "x = a") auto
    then have "?L (insert (k, a) S) = ?L S" by blast
    moreover have "link_parent final eqv ?t (k, a) = Inr ?t"
      using None get by (auto simp: link_parent_def tracked_parent_def split: option.splits if_splits)
    ultimately show ?thesis by simp
  next
    case (Some e)
    then obtain b where b: "pt_g4Parent p > 0" "map_of eqv (pt_g4Parent p) = Some e" "map_of final e = Some b"
      by (auto simp: tracked_parent_def split: option.splits if_splits)
    obtain q where q: "b \<noteq> 0" "mc_heap s b = Some q" "pt_id q = e" using keyed_find [OF assms(1) b(3)] .
    have bmem: "b \<in> snd ` set final" using map_of_SomeD [OF b(3)] by force
    let ?ps = "new_parents final eqv p"
    let ?qs = "if b \<in> snd ` S then new_parents final eqv q else pt_parents q"
    have ps: "?ps = (if is_primary p then pt_parents p else insert e (pt_parents p))" using Some by (simp add: new_parents_def)
    have Lb: "?L S b = Some (relinked ?qs (?K S e) q)" unfolding linked_heap_mem [OF bmem q(2)] using q(3) by simp
    let ?s1 = "particle_put ?t a (relinked ?ps (?K S k) p)"
    have step: "link_parent final eqv ?t (k, a) = (if ?ps \<noteq> {} \<and> Min ?ps = e
        then particle_modify ?s1 b (\<lambda>q. q\<lparr>pt_daughters := insert k (pt_daughters q)\<rparr>) else Inr ?s1)"
      using b q(1,3) get p(3) Lb La p(1) by (simp add: link_parent_def ps particle_modify_def particle_get_heap Let_def)
    have inj: "x = b" if x: "x \<in> snd ` set final" "mc_heap s x = Some r" "pt_id r = e" for x r
    proof -
      from x(1) obtain n where n: "(n, x) \<in> set final" by auto
      then have "n = e" using assms(1) x(2,3) unfolding keyed_def by fastforce
      then have "map_of final e = Some x" using n assms(1) by (simp add: keyed_def map_of_mem)
      then show ?thesis using b(3) by simp
    qed
    show ?thesis
    proof (cases "?ps \<noteq> {} \<and> Min ?ps = e")
      case False
      then have no: "adopted_by final eqv p = None" using Some by (auto simp: adopted_by_def)
      have "?L (insert (k, a) S) x = ((?L S)(a \<mapsto> relinked ?ps (?K S k) p)) x" for x
        using linked_heap_other [OF p(2), of x final eqv] no La' kids_insert [OF p(2), of final eqv k S k] by (cases "x = a") auto
      then have "?L (insert (k, a) S) = (?L S)(a \<mapsto> relinked ?ps (?K S k) p)" by blast
      then show ?thesis using step False by (auto simp: particle_put_def)
    next
      case True
      then have yes: "adopted_by final eqv p = Some e" using Some by (simp add: adopted_by_def)
      have K: "?K (insert (k, a) S) i = (if i = e then insert k (?K S e) else ?K S i)" for i
        using kids_insert [OF p(2), of final eqv k S i] yes by auto
      have other: "?L (insert (k, a) S) x = ?L S x" if "x \<noteq> a" "x \<noteq> b" for x
        by (rule linked_heap_other [OF p(2) that(1)]) (use inj that(2) yes in auto)
      show ?thesis
      proof (cases "a = b")
        case ab: True
        then have pq: "p = q" using p(2) q(2) by simp
        have "?L (insert (k, a) S) x = ((?L S)(a \<mapsto> relinked ?ps (insert k (?K S k)) p)) x" for x
        proof (cases "x = a")
          case x: True
          have "k = e" using pq p(3) q(3) by simp
          then show ?thesis unfolding x La' using K [of k] by simp
        qed (use other [of x] ab in simp)
        then have "?L (insert (k, a) S) = (?L S)(a \<mapsto> relinked ?ps (insert k (?K S k)) p)" by blast
        then show ?thesis using step True ab p(1)
          by (simp add: particle_modify_def particle_get_def particle_put_def)
      next
        case ab: False
        have Lb': "?L (insert (k, a) S) b = Some (relinked ?qs (insert k (?K S e)) q)"
          unfolding linked_heap_mem [OF bmem q(2)] using K q(3) ab by simp
        have ke: "k \<noteq> e" using inj [OF mem p(2)] ab p(3) by auto
        have "?L (insert (k, a) S) x = ((?L S)(a \<mapsto> relinked ?ps (?K S k) p, b \<mapsto> relinked ?qs (insert k (?K S e)) q)) x" for x
        proof (cases "x = a \<or> x = b")
          case x: True
          then show ?thesis using La' Lb' K [of k] ke ab by auto
        qed (use other [of x] in simp)
        then have "?L (insert (k, a) S) = (?L S)(a \<mapsto> relinked ?ps (?K S k) p, b \<mapsto> relinked ?qs (insert k (?K S e)) q)" by blast
        then show ?thesis using step True ab q(1) Lb
          by (simp add: particle_modify_def particle_get_def particle_put_def)
      qed
    qed
  qed
qed

lemma link_parents:
  assumes "keyed final s" and "set es \<subseteq> set final" and "distinct (List.map snd es)" and "snd ` set es \<inter> snd ` S = {}"
  shows "foldE (link_parent final eqv) (s\<lparr>mc_heap := linked_heap final eqv s S\<rparr>) es =
    Inr (s\<lparr>mc_heap := linked_heap final eqv s (set es \<union> S)\<rparr>)"
  using assms(2-4)
proof (induction es arbitrary: S)
  case (Cons e es)
  obtain k a where e: "e = (k, a)" by fastforce
  have "foldE (link_parent final eqv) (s\<lparr>mc_heap := linked_heap final eqv s S\<rparr>) (e # es) =
      foldE (link_parent final eqv) (s\<lparr>mc_heap := linked_heap final eqv s (insert e S)\<rparr>) es"
    using link_parent_step [OF assms(1), of k a S] Cons.prems by (simp add: e)
  also have "\<dots> = Inr (s\<lparr>mc_heap := linked_heap final eqv s (set es \<union> insert e S)\<rparr>)"
    by (rule Cons.IH) (use Cons.prems in \<open>auto simp: e\<close>)
  finally show ?case by simp
qed simp

section \<open>The particle of a Geant4 track\<close>

lemma rebase_equivalent_fold:
  assumes "\<forall>g \<in> fst ` set es. \<exists>r. last_stored (mc_particleMap s) (mc_equivalentTracks s) g = Some r \<and>
     (\<forall>k a. r = Some (k, a) \<longrightarrow> a \<noteq> 0 \<and> (\<exists>p. mc_heap s a = Some p \<and> cf_definition cf p))"
  shows "\<exists>eqv'. foldE (rebase_equivalent cf s) eqv es = Inr eqv' \<and> (map_ok eqv \<longrightarrow> map_ok eqv') \<and>
    (\<forall>g. map_of eqv' g = (if g \<in> fst ` set es then (case last_stored (mc_particleMap s) (mc_equivalentTracks s) g of
        Some (Some (k, a)) \<Rightarrow> map_option pt_id (mc_heap s a) | _ \<Rightarrow> map_of eqv g) else map_of eqv g))"
  using assms
proof (induction es arbitrary: eqv)
  case (Cons e es)
  obtain g h where e: "e = (g, h)" by fastforce
  let ?L = "last_stored (mc_particleMap s) (mc_equivalentTracks s)"
  from Cons.prems obtain r where r: "?L g = Some r" "\<forall>k a. r = Some (k, a) \<longrightarrow> a \<noteq> 0 \<and> (\<exists>p. mc_heap s a = Some p \<and> cf_definition cf p)"
    by (auto simp: e)
  show ?case
  proof (cases r)
    case None
    then have "rebase_equivalent cf s eqv e = Inr eqv" using r(1) by (simp add: rebase_equivalent_def e)
    moreover obtain eqv' where "foldE (rebase_equivalent cf s) eqv es = Inr eqv'" "map_ok eqv \<longrightarrow> map_ok eqv'"
      "\<forall>g. map_of eqv' g = (if g \<in> fst ` set es then (case ?L g of Some (Some (k, a)) \<Rightarrow> map_option pt_id (mc_heap s a) | _ \<Rightarrow> map_of eqv g) else map_of eqv g)"
      using Cons.IH [of eqv] Cons.prems by auto
    ultimately show ?thesis using r(1) None by (intro exI [of _ eqv']) (auto simp: e)
  next
    case (Some ka)
    obtain k a where ka: "ka = (k, a)" by fastforce
    then obtain p where p: "a \<noteq> 0" "mc_heap s a = Some p" "cf_definition cf p" using r(2) Some by blast
    have "rebase_equivalent cf s eqv e = Inr (map_assign g (pt_id p) eqv)"
      using r(1) Some ka p by (simp add: rebase_equivalent_def e particle_get_heap)
    moreover obtain eqv' where "foldE (rebase_equivalent cf s) (map_assign g (pt_id p) eqv) es = Inr eqv'" "map_ok (map_assign g (pt_id p) eqv) \<longrightarrow> map_ok eqv'"
      "\<forall>i. map_of eqv' i = (if i \<in> fst ` set es then (case ?L i of Some (Some (k, a)) \<Rightarrow> map_option pt_id (mc_heap s a)
          | _ \<Rightarrow> map_of (map_assign g (pt_id p) eqv) i) else map_of (map_assign g (pt_id p) eqv) i)"
      using Cons.IH [of "map_assign g (pt_id p) eqv"] Cons.prems by auto
    ultimately show ?thesis using r(1) Some ka p(2)
      by (intro exI [of _ eqv']) (auto simp: e split: option.split)
  qed
qed simp

section \<open>The final record\<close>

text \<open>
  What the generator and the tracking have to have established: the generator's particles are stored under their own numbers,
  starting at 0, and a stored particle is a primary one exactly when it is an object of the generator.
\<close>

definition generator_ok :: "'d MCState \<Rightarrow> bool" where
  "generator_ok s \<longleftrightarrow> map_ok (ev_particles s) \<and>
     (\<forall>(k, a) \<in> set (ev_particles s). a \<noteq> 0 \<and> 0 \<le> k \<and> (\<exists>p. mc_heap s a = Some p \<and> pt_id p = k)) \<and>
     (\<forall>(k, a) \<in> set (mc_particleMap s). \<forall>p. mc_heap s a = Some p \<longrightarrow> is_primary p = (a \<in> snd ` set (ev_particles s)))"

definition unnumbered :: "'d Particle \<Rightarrow> 'd Particle" where
  "unnumbered p = p\<lparr>pt_ref := 0, pt_id := 0\<rparr>"

definition heap_only :: "'d MCState \<Rightarrow> 'd MCState \<Rightarrow> bool" where
  "heap_only s t \<longleftrightarrow> t = s\<lparr>mc_heap := mc_heap t\<rparr>"

definition renumbered :: "'d MCState \<Rightarrow> 'd MCState \<Rightarrow> (int, nat) std_map \<Rightarrow> bool" where
  "renumbered s t final \<longleftrightarrow> heap_only s t \<and> keyed final t \<and>
     (\<forall>k a. map_of (ev_particles s) k = Some a \<longrightarrow> map_of final k = Some a) \<and>
     (\<forall>a \<in> snd ` set (ev_particles s) \<union> snd ` set (mc_particleMap s). \<exists>p q. mc_heap s a = Some p \<and> mc_heap t a = Some q \<and>
        unnumbered q = unnumbered p \<and> (is_primary p \<longrightarrow> pt_id q = pt_id p) \<and> map_of final (pt_id q) = Some a) \<and>
     snd ` set final \<subseteq> snd ` set (ev_particles s) \<union> snd ` set (mc_particleMap s) \<and>
     sorted_wrt (number_before t) (mc_particleMap s) \<and>
     (\<forall>(k, a) \<in> set (mc_particleMap s). \<forall>q. mc_heap t a = Some q \<longrightarrow> is_primary q \<or> (\<forall>i \<in> fst ` set (ev_particles s). i < pt_id q))"

lemma unnumbered_fields:
  assumes "unnumbered q = unnumbered p"
  shows "pt_reason q = pt_reason p" "pt_status q = pt_status p" "pt_g4Parent q = pt_g4Parent p"
    "pt_parents q = pt_parents p" "pt_daughters q = pt_daughters p" "is_primary q = is_primary p"
proof -
  have "pt_reason p = pt_reason (unnumbered p) \<and> pt_status p = pt_status (unnumbered p) \<and>
    pt_g4Parent p = pt_g4Parent (unnumbered p) \<and> pt_parents p = pt_parents (unnumbered p) \<and>
    pt_daughters p = pt_daughters (unnumbered p)" for p :: "'a Particle" by (simp add: unnumbered_def)
  then show "pt_reason q = pt_reason p" "pt_status q = pt_status p" "pt_g4Parent q = pt_g4Parent p"
    "pt_parents q = pt_parents p" "pt_daughters q = pt_daughters p" "is_primary q = is_primary p"
    unfolding is_primary_def using assms by metis+
qed

lemma unreferenced_unnumbered: "unreferenced q = unreferenced p \<Longrightarrow> unnumbered (q\<lparr>pt_id := i\<rparr>) = unnumbered p"
proof -
  assume "unreferenced q = unreferenced p"
  then have "(unreferenced q)\<lparr>pt_id := 0\<rparr> = (unreferenced p)\<lparr>pt_id := 0\<rparr>" by simp
  then show ?thesis by (simp add: unreferenced_def unnumbered_def)
qed

lemma renumbering:
  assumes "stored_ok s" and "generator_ok s"
  shows "\<exists>s1 t final count1 count2. foldE rebase_generated (s, [], 0) (ev_particles s) = Inr (s1, ev_particles s, count1) \<and>
    mc_particleMap s1 = mc_particleMap s \<and>
    foldE rebase_simulated (s1, ev_particles s, count1 + 1) (mc_particleMap s) = Inr (t, final, count2) \<and> renumbered s t final"
proof -
  note ev = assms(2) [unfolded generator_ok_def]
  have ok: "map_ok (ev_particles s)" using ev by blast
  have evm: "a \<noteq> 0 \<and> 0 \<le> k \<and> (\<exists>p. mc_heap s a = Some p \<and> pt_id p = k)" if "(k, a) \<in> set (ev_particles s)" for k a
    using ev that by blast
  then have "\<forall>(k, a) \<in> set (ev_particles s). a \<noteq> 0 \<and> (\<exists>p. mc_heap s a = Some p \<and> pt_id p = k)" by blast
  from rebase_generated_fold [OF this, of "[]" 0] assign_all [OF ok]
  obtain s1 c where s1: "foldE rebase_generated (s, [], 0) (ev_particles s) = Inr (s1, ev_particles s, c)" "heap_like unreferenced s s1"
    "0 \<le> c" "\<forall>k \<in> fst ` set (ev_particles s). k \<le> c" by auto
  have s1m: "mc_particleMap s1 = mc_particleMap s" by (rule heap_like_maps(1) [OF s1(2)])
  have live: "a \<noteq> 0 \<and> (\<exists>p. mc_heap s a = Some p)" if "(k, a) \<in> set (mc_particleMap s)" for k a
    using assms(1) that unfolding stored_ok_def by blast
  have live1: "\<forall>(k, a) \<in> set (mc_particleMap s). a \<noteq> 0 \<and> mc_heap s1 a \<noteq> None"
    using live heap_like_Some [OF s1(2)] by fastforce
  have "distinct (List.map snd (mc_particleMap s))" using assms(1) by (simp add: stored_ok_def)
  from rebase_simulated_fold [OF live1 this, of "ev_particles s" "c + 1"]
  obtain t final count2 where t: "foldE rebase_simulated (s1, ev_particles s, c + 1) (mc_particleMap s) = Inr (t, final, count2)"
    "t = s1\<lparr>mc_heap := mc_heap t\<rparr>" "\<forall>a. a \<notin> snd ` set (mc_particleMap s) \<longrightarrow> mc_heap t a = mc_heap s1 a" "c + 1 \<le> count2"
    "map_ok (ev_particles s) \<longrightarrow> map_ok final" "\<forall>n. n < c + 1 \<or> count2 \<le> n \<longrightarrow> map_of final n = map_of (ev_particles s) n"
    "\<forall>n a. c + 1 \<le> n \<longrightarrow> n < count2 \<longrightarrow> map_of final n = Some a \<longrightarrow> a \<in> snd ` set (mc_particleMap s) \<and> map_option pt_id (mc_heap t a) = Some n"
    "\<forall>a \<in> snd ` set (mc_particleMap s). numbered (c + 1) count2 final s1 t a" "sorted_wrt (number_before t) (mc_particleMap s)"
    by (elim exE conjE) (rule that)
  have keep: "map_of final k = Some a" if "map_of (ev_particles s) k = Some a" for k a
  proof -
    have "k \<in> fst ` set (ev_particles s)" using map_of_SomeD [OF that] by force
    then show ?thesis using s1(4) t(6) that by force
  qed
  have prim: "is_primary p = (a \<in> snd ` set (ev_particles s))" if "(k, a) \<in> set (mc_particleMap s)" "mc_heap s a = Some p" for k a p
    using ev that by blast
  have of_ev: "\<exists>p q. mc_heap s a = Some p \<and> mc_heap t a = Some q \<and> unnumbered q = unnumbered p \<and> pt_id q = pt_id p \<and> pt_id p = k"
    if ka: "(k, a) \<in> set (ev_particles s)" for k a
  proof -
    from evm [OF ka] obtain p where p: "mc_heap s a = Some p" "pt_id p = k" by blast
    obtain q where q: "mc_heap s1 a = Some q" "unreferenced q = unreferenced p" using heap_like_Some [OF s1(2) p(1)] by blast
    have "mc_heap t a = Some q"
    proof (cases "a \<in> snd ` set (mc_particleMap s)")
      case True
      then obtain l where "(l, a) \<in> set (mc_particleMap s)" by auto
      then have "is_primary p" using prim p(1) ka by force
      then have "is_primary q" using unreferenced_fields(7) [OF q(2)] by simp
      then show ?thesis using t(8) True q(1) unfolding numbered_def by fastforce
    qed (use t(3) q(1) in simp)
    moreover have "unnumbered q = unnumbered p" using unreferenced_unnumbered [OF q(2), of "pt_id q"] by simp
    ultimately show ?thesis using p unreferenced_fields(1) [OF q(2)] by simp
  qed
  have of_pm: "\<exists>p q. mc_heap s a = Some p \<and> mc_heap t a = Some q \<and> unnumbered q = unnumbered p \<and> c < pt_id q \<and> map_of final (pt_id q) = Some a"
    if ka: "(k, a) \<in> set (mc_particleMap s)" "a \<notin> snd ` set (ev_particles s)" for k a
  proof -
    from live [OF ka(1)] obtain p where p: "mc_heap s a = Some p" by blast
    obtain p1 where p1: "mc_heap s1 a = Some p1" "unreferenced p1 = unreferenced p" using heap_like_Some [OF s1(2) p] by blast
    have "\<not> is_primary p1" using prim [OF ka(1) p] ka(2) unreferenced_fields(7) [OF p1(2)] by simp
    moreover have "numbered (c + 1) count2 final s1 t a" using t(8) ka(1) by force
    ultimately obtain q where q: "mc_heap t a = Some q" "q = p1\<lparr>pt_id := pt_id q\<rparr>" "c + 1 \<le> pt_id q" "map_of final (pt_id q) = Some a"
      using p1(1) unfolding numbered_def by auto
    have "unnumbered q = unnumbered p" using unreferenced_unnumbered [OF p1(2), of "pt_id q"] q(2) by simp
    then show ?thesis using p q by force
  qed
  have kd: "keyed final t"
    unfolding keyed_def
  proof (intro conjI ballI, goal_cases)
    case 1
    show ?case using t(5) ok by blast
  next
    case (2 x)
    obtain n a where x: "x = (n, a)" by fastforce
    then have "map_of final n = Some a" using 2 t(5) ok by (simp add: map_of_mem)
    show ?case
    proof (cases "c + 1 \<le> n \<and> n < count2")
      case True
      then have a: "a \<in> snd ` set (mc_particleMap s)" "map_option pt_id (mc_heap t a) = Some n" using t(7) \<open>map_of final n = Some a\<close> by blast+
      then show ?thesis using live x by auto
    next
      case False
      then have "map_of (ev_particles s) n = Some a" using t(6) \<open>map_of final n = Some a\<close> by auto
      from map_of_SomeD [OF this] show ?thesis using evm of_ev x by fastforce
    qed
  qed
  have hp: "t = s\<lparr>mc_heap := mc_heap t\<rparr>"
  proof -
    have "s1 = s\<lparr>mc_heap := mc_heap s1\<rparr>" using s1(2) by (simp add: heap_like_def)
    then show ?thesis using t(2) by (metis MCState.update_convs(2) MCState.surjective)
  qed
  have both: "\<exists>p q. mc_heap s a = Some p \<and> mc_heap t a = Some q \<and> unnumbered q = unnumbered p \<and>
      (is_primary p \<longrightarrow> pt_id q = pt_id p) \<and> map_of final (pt_id q) = Some a"
    if a: "a \<in> snd ` set (ev_particles s) \<union> snd ` set (mc_particleMap s)" for a
  proof (cases "a \<in> snd ` set (ev_particles s)")
    case True
    then obtain k where k: "(k, a) \<in> set (ev_particles s)" by auto
    then have "map_of final k = Some a" using keep ok by (simp add: map_of_mem)
    then show ?thesis using of_ev [OF k] by auto
  next
    case False
    then obtain k where k: "(k, a) \<in> set (mc_particleMap s)" using a by auto
    then show ?thesis using of_pm [OF k False] prim [OF k] False by blast
  qed
  have sub: "snd ` set final \<subseteq> snd ` set (ev_particles s) \<union> snd ` set (mc_particleMap s)"
  proof
    fix a assume "a \<in> snd ` set final"
    then obtain n where "(n, a) \<in> set final" by auto
    then have "map_of final n = Some a" using t(5) ok by (simp add: map_of_mem)
    show "a \<in> snd ` set (ev_particles s) \<union> snd ` set (mc_particleMap s)"
    proof (cases "c + 1 \<le> n \<and> n < count2")
      case True
      then show ?thesis using t(7) \<open>map_of final n = Some a\<close> by blast
    next
      case False
      then have "map_of (ev_particles s) n = Some a" using t(6) \<open>map_of final n = Some a\<close> by auto
      from map_of_SomeD [OF this] show ?thesis by force
    qed
  qed
  have num: "is_primary q \<or> (\<forall>i \<in> fst ` set (ev_particles s). i < pt_id q)"
    if "(k, a) \<in> set (mc_particleMap s)" "mc_heap t a = Some q" for k a q
  proof (cases "a \<in> snd ` set (ev_particles s)")
    case True
    then obtain i where i: "(i, a) \<in> set (ev_particles s)" by auto
    then obtain p q' where p: "mc_heap s a = Some p" "mc_heap t a = Some q'" "unnumbered q' = unnumbered p" using of_ev by blast
    then have "is_primary p" using prim [OF that(1)] True by blast
    then show ?thesis using p(2) that(2) unnumbered_fields(6) [OF p(3)] by simp
  next
    case False
    then have "c < pt_id q" using of_pm [OF that(1) False] that(2) by auto
    then show ?thesis using s1(4) by fastforce
  qed
  have "renumbered s t final"
    unfolding renumbered_def
  proof (intro conjI)
    show "heap_only s t" unfolding heap_only_def by (rule hp)
    show "keyed final t" by (rule kd)
    show "\<forall>k a. map_of (ev_particles s) k = Some a \<longrightarrow> map_of final k = Some a" using keep by blast
    show "\<forall>a \<in> snd ` set (ev_particles s) \<union> snd ` set (mc_particleMap s). \<exists>p q. mc_heap s a = Some p \<and> mc_heap t a = Some q \<and>
        unnumbered q = unnumbered p \<and> (is_primary p \<longrightarrow> pt_id q = pt_id p) \<and> map_of final (pt_id q) = Some a"
      by (rule ballI) (rule both)
    show "snd ` set final \<subseteq> snd ` set (ev_particles s) \<union> snd ` set (mc_particleMap s)" by (rule sub)
    show "sorted_wrt (number_before t) (mc_particleMap s)" by (rule t(9))
    show "\<forall>(k, a) \<in> set (mc_particleMap s). \<forall>q. mc_heap t a = Some q \<longrightarrow> is_primary q \<or> (\<forall>i \<in> fst ` set (ev_particles s). i < pt_id q)"
      using num by (auto split: prod.split)
  qed
  then show ?thesis using s1(1) s1m t(1) by blast
qed

definition track_number :: "'d MCState \<Rightarrow> 'd MCState \<Rightarrow> int \<Rightarrow> int option" where
  "track_number s t g = (if g \<notin> fst ` set (mc_equivalentTracks s) then None
     else (case last_stored (mc_particleMap s) (mc_equivalentTracks s) g of Some (Some (k, a)) \<Rightarrow> map_option pt_id (mc_heap t a) | _ \<Rightarrow> None))"

definition chains_end :: "'d MCState \<Rightarrow> bool" where
  "chains_end s \<longleftrightarrow> (\<forall>g \<in> fst ` set (mc_equivalentTracks s). \<exists>k a. last_stored (mc_particleMap s) (mc_equivalentTracks s) g = Some (Some (k, a)))"

lemma last_stored_mem: "last_stored pm eq g = Some (Some (k, a)) \<Longrightarrow> map_of pm k = Some a"
proof -
  have "\<forall>k a. y = Some (k, a) \<longrightarrow> map_of pm k = Some a" if "last_stored pm eq g = Some y" for y
    by (rule last_stored.raw_induct [OF _ that]) (auto split: option.splits)
  then show "last_stored pm eq g = Some (Some (k, a)) \<Longrightarrow> map_of pm k = Some a" by blast
qed

lemma keyed_distinct: "keyed final t \<Longrightarrow> distinct (List.map snd final)"
proof -
  assume k: "keyed final t"
  have "inj_on snd (set final)"
  proof (rule inj_onI)
    fix x y assume x: "x \<in> set final" and y: "y \<in> set final" and xy: "snd x = snd y"
    have "\<exists>p. mc_heap t (snd z) = Some p \<and> pt_id p = fst z" if "z \<in> set final" for z
      using k that unfolding keyed_def by (cases z) auto
    from this [OF x] this [OF y] show "x = y" using xy by (auto intro: prod_eqI)
  qed
  then show ?thesis using k map_ok_distinct [of final] by (simp add: keyed_def distinct_map)
qed

lemma renumberedD:
  assumes "renumbered s t final"
  shows "heap_only s t" "keyed final t" "map_of (ev_particles s) k = Some a \<Longrightarrow> map_of final k = Some a"
    "a \<in> snd ` set (ev_particles s) \<union> snd ` set (mc_particleMap s) \<Longrightarrow> \<exists>p q. mc_heap s a = Some p \<and> mc_heap t a = Some q \<and>
        unnumbered q = unnumbered p \<and> (is_primary p \<longrightarrow> pt_id q = pt_id p) \<and> map_of final (pt_id q) = Some a"
    "a \<in> snd ` set final \<Longrightarrow> a \<in> snd ` set (ev_particles s) \<union> snd ` set (mc_particleMap s)"
proof -
  note r = assms [unfolded renumbered_def]
  show "heap_only s t" by (rule r [THEN conjunct1])
  show "keyed final t" by (rule r [THEN conjunct2, THEN conjunct1])
  show "map_of (ev_particles s) k = Some a \<Longrightarrow> map_of final k = Some a"
    by (rule r [THEN conjunct2, THEN conjunct2, THEN conjunct1, rule_format])
  show "a \<in> snd ` set (ev_particles s) \<union> snd ` set (mc_particleMap s) \<Longrightarrow> \<exists>p q. mc_heap s a = Some p \<and> mc_heap t a = Some q \<and>
        unnumbered q = unnumbered p \<and> (is_primary p \<longrightarrow> pt_id q = pt_id p) \<and> map_of final (pt_id q) = Some a"
    by (rule bspec [OF r [THEN conjunct2, THEN conjunct2, THEN conjunct2, THEN conjunct1]])
  show "a \<in> snd ` set final \<Longrightarrow> a \<in> snd ` set (ev_particles s) \<union> snd ` set (mc_particleMap s)"
    by (rule subsetD [OF r [THEN conjunct2, THEN conjunct2, THEN conjunct2, THEN conjunct2, THEN conjunct1]])
qed

lemma rebase_view:
  assumes "stored_ok s" and "generator_ok s" and "chains_end s" and "\<forall>p. cf_definition cf p"
  shows "\<exists>t final eqv. rebaseSimulatedTracks cf s =
      Inr (t\<lparr>mc_heap := linked_heap final eqv t (set final), mc_equivalentTracks := eqv, mc_particleMap := final\<rparr>) \<and>
    renumbered s t final \<and> map_ok eqv \<and> (\<forall>g. map_of eqv g = track_number s t g)"
proof -
  obtain s1 t final c1 c2 where r: "foldE rebase_generated (s, [], 0) (ev_particles s) = Inr (s1, ev_particles s, c1)"
    "mc_particleMap s1 = mc_particleMap s"
    "foldE rebase_simulated (s1, ev_particles s, c1 + 1) (mc_particleMap s) = Inr (t, final, c2)" "renumbered s t final"
    using renumbering [OF assms(1,2)] by blast
  have tm: "mc_particleMap t = mc_particleMap s" "mc_equivalentTracks t = mc_equivalentTracks s"
  proof -
    note t = renumberedD(1) [OF r(4), unfolded heap_only_def]
    show "mc_particleMap t = mc_particleMap s" "mc_equivalentTracks t = mc_equivalentTracks s" by (subst t, simp)+
  qed
  have both: "\<exists>p q. mc_heap s a = Some p \<and> mc_heap t a = Some q" if "(k, a) \<in> set (mc_particleMap s)" for k a
  proof -
    have "a \<in> snd ` set (mc_particleMap s)" using that by force
    then show ?thesis using renumberedD(4) [OF r(4), of a] by blast
  qed
  note kd = renumberedD(2) [OF r(4)]
  have "\<forall>g \<in> fst ` set (mc_equivalentTracks t). \<exists>r. last_stored (mc_particleMap t) (mc_equivalentTracks t) g = Some r \<and>
     (\<forall>k a. r = Some (k, a) \<longrightarrow> a \<noteq> 0 \<and> (\<exists>p. mc_heap t a = Some p \<and> cf_definition cf p))"
  proof
    fix g assume "g \<in> fst ` set (mc_equivalentTracks t)"
    then obtain k a where l: "last_stored (mc_particleMap s) (mc_equivalentTracks s) g = Some (Some (k, a))"
      using assms(3) unfolding chains_end_def tm by blast
    have ka: "(k, a) \<in> set (mc_particleMap s)" using map_of_SomeD [OF last_stored_mem [OF l]] .
    then have "a \<noteq> 0" using assms(1) unfolding stored_ok_def by blast
    then show "\<exists>r. last_stored (mc_particleMap t) (mc_equivalentTracks t) g = Some r \<and>
     (\<forall>k a. r = Some (k, a) \<longrightarrow> a \<noteq> 0 \<and> (\<exists>p. mc_heap t a = Some p \<and> cf_definition cf p))"
      using l both [OF ka] assms(4) by (auto simp: tm)
  qed
  from rebase_equivalent_fold [OF this, of "[]"] obtain eqv where eqv:
    "foldE (rebase_equivalent cf t) [] (mc_equivalentTracks t) = Inr eqv" "map_ok eqv"
    "\<forall>g. map_of eqv g = track_number s t g"
    unfolding tm by (fastforce simp: track_number_def split: option.split)
  have "foldE (link_parent final eqv) t final = Inr (t\<lparr>mc_heap := linked_heap final eqv t (set final)\<rparr>)"
    using link_parents [OF kd subset_refl keyed_distinct [OF kd], of "{}" eqv] by (simp add: linked_heap_Nil)
  then have "rebaseSimulatedTracks cf s =
      Inr (t\<lparr>mc_heap := linked_heap final eqv t (set final), mc_equivalentTracks := eqv, mc_particleMap := final\<rparr>)"
    unfolding rebaseSimulatedTracks_def r(1) bindE_simps prod.case r(2,3) eqv(1) by simp
  then show ?thesis using r(4) eqv(2,3) by blast
qed

text \<open>
  The particles of the generator are primary or have a generator status, and refer to each other; a simulated particle
  has no relations yet and a parent among the tracks that have ended.
\<close>

definition relations_ok :: "'d MCState \<Rightarrow> bool" where
  "relations_ok s \<longleftrightarrow>
     (\<forall>a \<in> snd ` set (ev_particles s). \<forall>p. mc_heap s a = Some p \<longrightarrow> (is_primary p \<or> anySet (pt_status p) G4PARTICLE_GEN_STATUS) \<and>
        pt_parents p \<union> pt_daughters p \<subseteq> fst ` set (ev_particles s)) \<and>
     (\<forall>a \<in> snd ` set (mc_particleMap s). \<forall>p. mc_heap s a = Some p \<longrightarrow> \<not> is_primary p \<longrightarrow> pt_parents p = {} \<and> pt_daughters p = {} \<and>
        0 < pt_g4Parent p \<and> pt_g4Parent p \<in> fst ` set (mc_equivalentTracks s))"

lemma is_primary_isSet: "is_primary p = isSet (pt_reason p) G4PARTICLE_PRIMARY"
  by (simp add: is_primary_def isSet_def)

lemma particle_consistentI:
  assumes "pt_daughters p \<subseteq> fst ` set (mc_particleMap s)"
    and "\<lbrakk>\<not> is_primary p; \<not> anySet (pt_status p) G4PARTICLE_GEN_STATUS\<rbrakk> \<Longrightarrow>
      \<exists>e. map_of (mc_equivalentTracks s) (pt_g4Parent p) = Some e \<and> map_of (mc_particleMap s) e \<noteq> None \<and> e \<in> pt_parents p"
  shows "particle_consistent s p"
  unfolding particle_consistent_def is_primary_isSet [symmetric]
  using assms by (force simp: map_of_eq_None_iff)

text \<open>The record after the numbering, particle by particle.\<close>

definition record_complete :: "'d MCState \<Rightarrow> bool" where
  "record_complete s \<longleftrightarrow> keyed (mc_particleMap s) s \<and>
     (\<forall>(k, a) \<in> set (mc_particleMap s). \<forall>p. mc_heap s a = Some p \<longrightarrow>
        pt_daughters p \<union> pt_parents p \<subseteq> fst ` set (mc_particleMap s) \<and> particle_consistent s p)"

lemma linked_record_complete:
  assumes "renumbered s t final" and "generator_ok s" and "relations_ok s" and "chains_end s" and "\<forall>g. map_of eqv g = track_number s t g"
  shows "record_complete (t\<lparr>mc_heap := linked_heap final eqv t (set final), mc_equivalentTracks := eqv, mc_particleMap := final\<rparr>)"
    (is "record_complete ?u")
proof -
  note rn = renumberedD [OF assms(1)]
  note kd = rn(2)
  have ok: "map_ok final" "map_ok (ev_particles s)" using kd assms(2) by (auto simp: keyed_def generator_ok_def)
  have ev_sub: "fst ` set (ev_particles s) \<subseteq> fst ` set final"
  proof
    fix i assume "i \<in> fst ` set (ev_particles s)"
    then have "map_of (ev_particles s) i \<noteq> None" by (simp add: map_of_eq_None_iff)
    then obtain a where "map_of (ev_particles s) i = Some a" by blast
    from map_of_SomeD [OF rn(3) [OF this]] show "i \<in> fst ` set final" by force
  qed
  have kids_sub: "kids final eqv t (set final) i \<subseteq> fst ` set final" for i by (force simp: kids_def)
  have tp_sub: "tracked_parent final eqv p = Some e \<Longrightarrow> e \<in> fst ` set final" for p and e :: int
    by (auto simp: tracked_parent_def map_of_eq_None_iff split: option.splits if_splits)
  have np_sub: "new_parents final eqv p \<subseteq> pt_parents p \<union> fst ` set final" for p
    using tp_sub by (auto simp: new_parents_def split: option.splits)
  have entry: "\<exists>r. mc_heap t a = Some r \<and> mc_heap ?u a = Some (relinked (new_parents final eqv r) (kids final eqv t (set final) k) r) \<and> pt_id r = k \<and> a \<noteq> 0"
    if "(k, a) \<in> set final" for k a
  proof -
    from kd that obtain r where r: "mc_heap t a = Some r" "pt_id r = k" "a \<noteq> 0" unfolding keyed_def by blast
    have "a \<in> snd ` set final" using that by force
    then show ?thesis using r linked_heap_mem [of a final t r eqv "set final"] by simp
  qed
  have "keyed final ?u" using entry kd by (fastforce simp: keyed_def)
  moreover have "pt_daughters q \<union> pt_parents q \<subseteq> fst ` set final \<and> particle_consistent ?u q"
    if ka: "(k, a) \<in> set final" and q: "mc_heap ?u a = Some q" for k a q
  proof -
    obtain r where r: "mc_heap t a = Some r" "q = relinked (new_parents final eqv r) (kids final eqv t (set final) k) r" using entry [OF ka] q by auto
    have mem: "a \<in> snd ` set (ev_particles s) \<union> snd ` set (mc_particleMap s)" using rn(5) [of a] ka by force
    then obtain p where p: "mc_heap s a = Some p" "unnumbered r = unnumbered p" using rn(4) [OF mem] r(1) by auto
    note f = unnumbered_fields [OF p(2)]
    have rel: "pt_parents p \<union> pt_daughters p \<subseteq> fst ` set final"
      and tracked: "is_primary p \<or> anySet (pt_status p) G4PARTICLE_GEN_STATUS \<or>
        a \<in> snd ` set (mc_particleMap s) \<and> 0 < pt_g4Parent p \<and> pt_g4Parent p \<in> fst ` set (mc_equivalentTracks s)"
    proof -
      have "(is_primary p \<or> anySet (pt_status p) G4PARTICLE_GEN_STATUS) \<and> pt_parents p \<union> pt_daughters p \<subseteq> fst ` set (ev_particles s)"
        if "a \<in> snd ` set (ev_particles s)" using assms(3) that p(1) unfolding relations_ok_def by blast
      moreover have "pt_parents p = {} \<and> pt_daughters p = {} \<and> 0 < pt_g4Parent p \<and> pt_g4Parent p \<in> fst ` set (mc_equivalentTracks s)"
        if "a \<in> snd ` set (mc_particleMap s)" "\<not> is_primary p" using assms(3) that p(1) unfolding relations_ok_def by blast
      moreover have "is_primary p = (a \<in> snd ` set (ev_particles s))" if "a \<in> snd ` set (mc_particleMap s)"
        using assms(2) that p(1) unfolding generator_ok_def by fastforce
      ultimately show "pt_parents p \<union> pt_daughters p \<subseteq> fst ` set final"
        "is_primary p \<or> anySet (pt_status p) G4PARTICLE_GEN_STATUS \<or>
        a \<in> snd ` set (mc_particleMap s) \<and> 0 < pt_g4Parent p \<and> pt_g4Parent p \<in> fst ` set (mc_equivalentTracks s)"
        using mem ev_sub by blast+
    qed
    have sub: "pt_daughters q \<union> pt_parents q \<subseteq> fst ` set final"
      using rel kids_sub np_sub [of r] by (auto simp: r(2) f)
    have "particle_consistent ?u q"
    proof (cases "is_primary p \<or> anySet (pt_status p) G4PARTICLE_GEN_STATUS")
      case True
      then show ?thesis using sub by (intro particle_consistentI) (simp_all add: r(2) f)
    next
      case False
      then have g: "0 < pt_g4Parent p" "pt_g4Parent p \<in> fst ` set (mc_equivalentTracks s)" using tracked by blast+
      obtain l b where l: "last_stored (mc_particleMap s) (mc_equivalentTracks s) (pt_g4Parent p) = Some (Some (l, b))"
        using assms(4) g(2) unfolding chains_end_def by blast
      have "b \<in> snd ` set (mc_particleMap s)" using map_of_SomeD [OF last_stored_mem [OF l]] by force
      then obtain w where w: "mc_heap t b = Some w" "map_of final (pt_id w) = Some b" using rn(4) [of b] by blast
      have e: "map_of eqv (pt_g4Parent p) = Some (pt_id w)" using assms(5) g(2) l w(1) by (simp add: track_number_def)
      have "tracked_parent final eqv r = Some (pt_id w)" using g(1) e w(2) by (simp add: tracked_parent_def f)
      then have "pt_id w \<in> pt_parents q" using False by (simp add: r(2) f new_parents_def)
      then show ?thesis using sub e w(2) by (intro particle_consistentI) (simp_all add: r(2) f)
    qed
    then show ?thesis using sub by blast
  qed
  then have "\<forall>(k, a) \<in> set final. \<forall>q. mc_heap ?u a = Some q \<longrightarrow>
      pt_daughters q \<union> pt_parents q \<subseteq> fst ` set final \<and> particle_consistent ?u q" by blast
  ultimately show ?thesis unfolding record_complete_def by simp
qed

section \<open>The checks of the record\<close>

lemma complete_get:
  assumes "record_complete s" and "(k, a) \<in> set (mc_particleMap s)"
  obtains p where "mc_heap s a = Some p" "particle_get s a = Inr p" "a \<noteq> 0" "particle_consistent s p"
    "pt_parents p \<subseteq> fst ` set (mc_particleMap s)"
proof -
  obtain p where p: "mc_heap s a = Some p" "a \<noteq> 0" using assms unfolding record_complete_def keyed_def by fastforce
  moreover have "particle_consistent s p" "pt_parents p \<subseteq> fst ` set (mc_particleMap s)"
    using assms p(1) unfolding record_complete_def by blast+
  ultimately show thesis using that particle_get_heap by blast
qed

lemma check_complete: "record_complete s \<Longrightarrow> checkConsistency s = Inr ()"
proof -
  assume c: "record_complete s"
  have "foldE (\<lambda>ok (k, a). bindE (particle_get s a) (\<lambda>p. Inr (ok \<and> particle_consistent s p))) True es = Inr True"
    if "set es \<subseteq> set (mc_particleMap s)" for es
    using that
  proof (induction es)
    case (Cons e es)
    obtain k a where e: "e = (k, a)" by fastforce
    obtain p where "particle_get s a = Inr p" "particle_consistent s p" by (rule complete_get [OF c, of k a]) (use Cons.prems e in auto)
    then show ?case using Cons by (simp add: e)
  qed simp
  from this [OF subset_refl] show ?thesis by (simp add: checkConsistency_def)
qed

text \<open>What the last pass does with a particle: its parent is the one with the least number.\<close>

definition radiated_parent :: "'d Settings \<Rightarrow> 'd MCState \<Rightarrow> 'd Particle \<Rightarrow> bool" where
  "radiated_parent cf s p \<longleftrightarrow> pt_parents p \<noteq> {} \<and> tracked_by_geant4 p \<and>
     (\<exists>b q. map_of (mc_particleMap s) (Min (pt_parents p)) = Some b \<and> mc_heap s b = Some q \<and> cf_far cf (pt_ve q) (pt_vs p))"

definition endpoint :: "'d Settings \<Rightarrow> 'd MCState \<Rightarrow> 'd Particle \<Rightarrow> 'd Particle" where
  "endpoint cf s p = (if radiated_parent cf s p then or_status G4PARTICLE_SIM_PARENT_RADIATED p else p)"

definition endpoints_set :: "'d Settings \<Rightarrow> 'd MCState \<Rightarrow> nat set \<Rightarrow> nat \<Rightarrow> 'd Particle option" where
  "endpoints_set cf s S a = map_option (\<lambda>p. if a \<in> S then endpoint cf s p else p) (mc_heap s a)"

lemma endpoint_ve: "pt_ve (endpoint cf s q) = pt_ve q"
  by (simp add: endpoint_def or_status_def)

lemma set_endpoint_step:
  assumes "record_complete s" and "(k, a) \<in> set (mc_particleMap s)" and "a \<notin> S"
  shows "set_endpoint_bit cf (s\<lparr>mc_heap := endpoints_set cf s S\<rparr>) (k, a) = Inr (s\<lparr>mc_heap := endpoints_set cf s (insert a S)\<rparr>)"
proof -
  let ?t = "s\<lparr>mc_heap := endpoints_set cf s S\<rparr>"
  obtain p where p: "mc_heap s a = Some p" "a \<noteq> 0" "pt_parents p \<subseteq> fst ` set (mc_particleMap s)" by (rule complete_get [OF assms(1,2)])
  have get: "particle_get ?t a = Inr p" using p(1,2) assms(3) by (simp add: particle_get_heap endpoints_set_def)
  have after: "endpoints_set cf s (insert a S) = (endpoints_set cf s S)(a \<mapsto> endpoint cf s p)"
    using p(1) by (auto simp: endpoints_set_def fun_eq_iff)
  show ?thesis
  proof (cases "pt_parents p \<noteq> {} \<and> tracked_by_geant4 p")
    case True
    have "finite (pt_parents p)" using p(3) by (rule finite_subset) simp
    then have "Min (pt_parents p) \<in> fst ` set (mc_particleMap s)" using True p(3) by (meson Min_in subsetD)
    then have "map_of (mc_particleMap s) (Min (pt_parents p)) \<noteq> None" by (simp add: map_of_eq_None_iff)
    then obtain b where b: "map_of (mc_particleMap s) (Min (pt_parents p)) = Some b" by blast
    obtain q where q: "mc_heap s b = Some q" "b \<noteq> 0" by (rule complete_get [OF assms(1) map_of_SomeD [OF b]])
    have "particle_get ?t b = Inr (if b \<in> S then endpoint cf s q else q)" using q by (simp add: particle_get_heap endpoints_set_def)
    moreover have "pt_ve (if b \<in> S then endpoint cf s q else q) = pt_ve q" by (simp add: endpoint_ve)
    ultimately have "set_endpoint_bit cf ?t (k, a) =
        (if cf_far cf (pt_ve q) (pt_vs p) then particle_modify ?t a (or_status G4PARTICLE_SIM_PARENT_RADIATED) else Inr ?t)"
      using True b get by (simp add: set_endpoint_bit_def)
    moreover have "endpoint cf s p = (if cf_far cf (pt_ve q) (pt_vs p) then or_status G4PARTICLE_SIM_PARENT_RADIATED p else p)"
      using True b q(1) by (simp add: endpoint_def radiated_parent_def)
    moreover have "endpoints_set cf s S a = Some p" using p(1) assms(3) by (simp add: endpoints_set_def)
    ultimately show ?thesis using get by (simp add: after particle_modify_def particle_put_def fun_upd_idem)
  next
    case False
    then have "endpoint cf s p = p" by (auto simp: endpoint_def radiated_parent_def)
    moreover have "endpoints_set cf s S a = Some p" using p(1) assms(3) by (simp add: endpoints_set_def)
    ultimately show ?thesis using get False by (auto simp: set_endpoint_bit_def after fun_upd_idem)
  qed
qed

lemma set_endpoints:
  assumes "record_complete s" and "set es \<subseteq> set (mc_particleMap s)" and "distinct (List.map snd es)" and "snd ` set es \<inter> S = {}"
  shows "foldE (set_endpoint_bit cf) (s\<lparr>mc_heap := endpoints_set cf s S\<rparr>) es = Inr (s\<lparr>mc_heap := endpoints_set cf s (snd ` set es \<union> S)\<rparr>)"
  using assms(2-4)
proof (induction es arbitrary: S)
  case (Cons e es)
  obtain k a where e: "e = (k, a)" by fastforce
  have "foldE (set_endpoint_bit cf) (s\<lparr>mc_heap := endpoints_set cf s S\<rparr>) (e # es) =
      foldE (set_endpoint_bit cf) (s\<lparr>mc_heap := endpoints_set cf s (insert a S)\<rparr>) es"
    using set_endpoint_step [OF assms(1), of k a S] Cons.prems by (simp add: e)
  also have "\<dots> = Inr (s\<lparr>mc_heap := endpoints_set cf s (snd ` set es \<union> insert a S)\<rparr>)"
    by (rule Cons.IH) (use Cons.prems in \<open>auto simp: e\<close>)
  finally show ?case by (simp add: e)
qed simp

lemma setVertexEndpointBit_complete:
  assumes "record_complete s"
  shows "setVertexEndpointBit cf s = Inr (s\<lparr>mc_heap := endpoints_set cf s (snd ` set (mc_particleMap s))\<rparr>)"
proof -
  have "distinct (List.map snd (mc_particleMap s))" using assms keyed_distinct by (auto simp: record_complete_def)
  moreover have "endpoints_set cf s {} = mc_heap s" by (rule ext) (simp add: endpoints_set_def option.map_ident)
  then have "s\<lparr>mc_heap := endpoints_set cf s {}\<rparr> = s" by simp
  ultimately show ?thesis using set_endpoints [OF assms subset_refl, of "{}" cf] by (simp add: setVertexEndpointBit_def)
qed

section \<open>Properties of the record\<close>

text \<open>C38. After the removal the record is numbered: under the assumptions about the generator's particles and the tracks, the
  record is made, passes the consistency check and the pass over the end points; every entry is a particle with
  the number it is stored under; the generator's particles keep theirs and the stored ones follow, in the order of their tracks;
  every track is mapped to the number of its last stored particle; a simulated particle has exactly one parent, which
  has it as a daughter.\<close>

theorem numbering_spec:
  assumes "stored_ok s" and "generator_ok s" and "relations_ok s" and "chains_end s" and "\<forall>p. cf_definition cf p"
  shows "\<exists>s'. rebaseSimulatedTracks cf s = Inr s' \<and> checkConsistency s' = Inr () \<and> is_ok (setVertexEndpointBit cf s') \<and>
    (\<forall>k a. map_of (mc_particleMap s') k = Some a \<longrightarrow> map_option pt_id (mc_heap s' a) = Some k) \<and>
    (\<forall>k a. map_of (ev_particles s) k = Some a \<longrightarrow> map_of (mc_particleMap s') k = Some a) \<and>
    sorted_wrt (number_before s') (mc_particleMap s) \<and>
    (\<forall>g \<in> fst ` set (mc_equivalentTracks s). \<exists>k a n. last_stored (mc_particleMap s) (mc_equivalentTracks s) g = Some (Some (k, a)) \<and>
       map_of (mc_equivalentTracks s') g = Some n \<and> map_of (mc_particleMap s') n = Some a) \<and>
    (\<forall>(k, a) \<in> set (mc_particleMap s). \<exists>q. mc_heap s' a = Some q \<and> map_of (mc_particleMap s') (pt_id q) = Some a \<and>
       (is_primary q \<or> (\<exists>e b r. map_of (mc_equivalentTracks s') (pt_g4Parent q) = Some e \<and> pt_parents q = {e} \<and>
          map_of (mc_particleMap s') e = Some b \<and> mc_heap s' b = Some r \<and> pt_id q \<in> pt_daughters r)))"
proof -
  obtain t final eqv where t: "rebaseSimulatedTracks cf s =
      Inr (t\<lparr>mc_heap := linked_heap final eqv t (set final), mc_equivalentTracks := eqv, mc_particleMap := final\<rparr>)"
    "renumbered s t final" "\<forall>g. map_of eqv g = track_number s t g"
    using rebase_view [OF assms(1,2,4,5)] by blast
  let ?u = "t\<lparr>mc_heap := linked_heap final eqv t (set final), mc_equivalentTracks := eqv, mc_particleMap := final\<rparr>"
  have rc: "record_complete ?u" by (rule linked_record_complete [OF t(2) assms(2-4) t(3)])
  note rn = renumberedD [OF t(2)]
  have linked: "mc_heap ?u a = Some (relinked (new_parents final eqv r) (kids final eqv t (set final) (pt_id r)) r)"
    if "(k, a) \<in> set final" "mc_heap t a = Some r" for k a r
    using linked_heap_mem [of a final t r eqv "set final"] that by force
  have entry: "\<exists>p r. mc_heap s a = Some p \<and> mc_heap t a = Some r \<and> unnumbered r = unnumbered p \<and> map_of final (pt_id r) = Some a"
    if "(k, a) \<in> set (mc_particleMap s)" for k a
  proof -
    have "a \<in> snd ` set (mc_particleMap s)" using that by force
    then show ?thesis using rn(4) [of a] by blast
  qed
  have number: "\<exists>k a n. last_stored (mc_particleMap s) (mc_equivalentTracks s) g = Some (Some (k, a)) \<and> map_of eqv g = Some n \<and> map_of final n = Some a"
    if g: "g \<in> fst ` set (mc_equivalentTracks s)" for g
  proof -
    obtain k a where l: "last_stored (mc_particleMap s) (mc_equivalentTracks s) g = Some (Some (k, a))"
      using assms(4) g unfolding chains_end_def by blast
    obtain r where "mc_heap t a = Some r" "map_of final (pt_id r) = Some a" using entry [OF map_of_SomeD [OF last_stored_mem [OF l]]] by blast
    then show ?thesis using l t(3) g by (simp add: track_number_def)
  qed
  have stored: "\<exists>q. mc_heap ?u a = Some q \<and> map_of final (pt_id q) = Some a \<and>
       (is_primary q \<or> (\<exists>e b r. map_of eqv (pt_g4Parent q) = Some e \<and> pt_parents q = {e} \<and>
          map_of final e = Some b \<and> mc_heap ?u b = Some r \<and> pt_id q \<in> pt_daughters r))" if ka: "(k, a) \<in> set (mc_particleMap s)" for k a
  proof -
    obtain p r where r: "mc_heap s a = Some p" "mc_heap t a = Some r" "unnumbered r = unnumbered p" "map_of final (pt_id r) = Some a"
      using entry [OF ka] by blast
    note f = unnumbered_fields [OF r(3)]
    note fa = map_of_SomeD [OF r(4)]
    let ?q = "relinked (new_parents final eqv r) (kids final eqv t (set final) (pt_id r)) r"
    have q: "mc_heap ?u a = Some ?q" by (rule linked [OF fa r(2)])
    show ?thesis
    proof (cases "is_primary r")
      case False
      have "a \<in> snd ` set (mc_particleMap s)" using ka by force
      then have rel: "pt_parents p = {} \<and> pt_daughters p = {} \<and> 0 < pt_g4Parent p \<and> pt_g4Parent p \<in> fst ` set (mc_equivalentTracks s)"
        using assms(3) r(1) False [unfolded f(6)] unfolding relations_ok_def by blast
      then obtain b e where b: "map_of eqv (pt_g4Parent r) = Some e" "map_of final e = Some b" using number [of "pt_g4Parent p"] f by auto
      have tp: "tracked_parent final eqv r = Some e" using b rel by (simp add: tracked_parent_def f)
      then have np: "new_parents final eqv r = {e}" using False rel by (simp add: new_parents_def f)
      then have ad: "adopted_by final eqv r = Some e" using tp by (simp add: adopted_by_def)
      obtain w where w: "mc_heap t b = Some w" "pt_id w = e" using keyed_find [OF rn(2) b(2)] by metis
      have "pt_id r \<in> kids final eqv t (set final) e" unfolding kids_def using fa r(2) ad by blast
      moreover have "mc_heap ?u b = Some (relinked (new_parents final eqv w) (kids final eqv t (set final) (pt_id w)) w)"
        by (rule linked [OF map_of_SomeD [OF b(2)] w(1)])
      ultimately show ?thesis using q r(4) b np w(2) by (auto simp: f)
    qed (use q r(4) in auto)
  qed
  show ?thesis
  proof (intro exI conjI)
    show "rebaseSimulatedTracks cf s = Inr ?u" by (rule t(1))
    show "checkConsistency ?u = Inr ()" by (rule check_complete [OF rc])
    show "is_ok (setVertexEndpointBit cf ?u)" unfolding setVertexEndpointBit_complete [OF rc] by simp
    show "\<forall>k a. map_of (mc_particleMap ?u) k = Some a \<longrightarrow> map_option pt_id (mc_heap ?u a) = Some k"
    proof (intro allI impI)
      fix k a assume "map_of (mc_particleMap ?u) k = Some a"
      then have ka: "map_of final k = Some a" by simp
      obtain r where "mc_heap t a = Some r" "pt_id r = k" using keyed_find [OF rn(2) ka] by metis
      then show "map_option pt_id (mc_heap ?u a) = Some k" using linked [OF map_of_SomeD [OF ka]] by simp
    qed
    show "\<forall>k a. map_of (ev_particles s) k = Some a \<longrightarrow> map_of (mc_particleMap ?u) k = Some a" using rn(3) by simp
    have "number_before ?u x y" if nb: "number_before t x y" and mem: "x \<in> set (mc_particleMap s)" "y \<in> set (mc_particleMap s)" for x y
    proof -
      obtain k a l b where xy: "x = (k, a)" "y = (l, b)" by fastforce
      obtain p q where "mc_heap t a = Some p" "map_of final (pt_id p) = Some a" "mc_heap t b = Some q" "map_of final (pt_id q) = Some b"
        using entry mem xy by blast
      then show ?thesis using nb linked [OF map_of_SomeD] unfolding number_before_def xy by simp
    qed
    moreover have "sorted_wrt (number_before t) (mc_particleMap s)" using t(2) unfolding renumbered_def by blast
    ultimately show "sorted_wrt (number_before ?u) (mc_particleMap s)"
      using sorted_wrt_mono_rel [of "mc_particleMap s" "number_before t" "number_before ?u"] by blast
  qed (use number stored in auto)
qed

lemma sample_record_ready:
  "generator_ok (sample_record r)" if "\<not> isSet r G4PARTICLE_PRIMARY"
  using that by (simp add: generator_ok_def sample_record_def sample_stored_def map_ok_def is_primary_isSet isSet_def particle_bits)

lemma sample_record_relations:
  "relations_ok (sample_record r)" "chains_end (sample_record r)"
proof -
  show "relations_ok (sample_record r)"
    by (simp add: relations_ok_def sample_record_def sample_stored_def is_primary_isSet Particle_new_def Let_def)
  show "chains_end (sample_record r)"
    by (simp add: chains_end_def sample_record_def last_stored_here)
qed

theorem numbering_spec_witness:
  "\<exists>s'. rebaseSimulatedTracks sample_settings (sample_record G4PARTICLE_CREATED_HIT) = Inr s' \<and> checkConsistency s' = Inr () \<and>
    map_of (mc_particleMap s') 0 = Some 1"
proof -
  let ?s = "sample_record G4PARTICLE_CREATED_HIT"
  have g: "generator_ok ?s" by (rule sample_record_ready) (simp add: isSet_def particle_bits)
  have "\<forall>p. cf_definition sample_settings p" by (simp add: sample_settings_def)
  note n = numbering_spec [OF sample_record_ok g sample_record_relations this]
  from n obtain s' where s': "rebaseSimulatedTracks sample_settings ?s = Inr s'" "checkConsistency s' = Inr ()"
    "\<forall>k a. map_of (ev_particles ?s) k = Some a \<longrightarrow> map_of (mc_particleMap s') k = Some a" by (elim exE conjE) (rule that)
  have "map_of (ev_particles ?s) 0 = Some 1" by (simp add: sample_record_def)
  then show ?thesis using s' by blast
qed

end
