(* ===== verification/ParticleEvents.thy ===== *)
theory ParticleEvents
  imports ParticleNumbering
begin

text \<open>
  Whole events: the invariant of the tracking that lets the end of the event complete, and what the final
  record then holds. Tracks are followed from their begin to their end, without user handlers and without suspended tracks.
\<close>

unbundle bit_operations_syntax

section \<open>Primary particles stay what they are\<close>

lemma primary_bit: "is_primary p \<longleftrightarrow> bit (pt_reason p) 2"
  unfolding is_primary_isSet G4PARTICLE_PRIMARY_def by (rule isSet_bit) simp

lemma removable_not_primary: "\<lbrakk>removable V p; \<not> killed p\<rbrakk> \<Longrightarrow> \<not> is_primary p"
  by (auto simp: removable_def protected_def is_primary_isSet)

lemma merged_primary: "\<not> is_primary p \<Longrightarrow> is_primary (merged p q) = is_primary q"
  by (simp add: primary_bit merged_def bit_or_iff)

lemma marked_primary: "is_primary (or_reason G4PARTICLE_KEEP_PARENT q) = is_primary q"
  by (simp add: primary_bit or_reason_def bit_or_iff G4PARTICLE_KEEP_PARENT_def bit_simps)

lemma takes_primary:
  "(\<And>q. is_primary (f q) = is_primary q) \<Longrightarrow> map_option is_primary (parent_takes V p f k) = map_option is_primary (V k)"
  by (auto simp: parent_takes_def split: option.split)

lemma sweep_step_primary:
  assumes "no_kill V"
  shows "map_option is_primary (sweep_step V j k) = map_option is_primary (V k)"
proof (cases "V j")
  case None
  then show ?thesis by (simp add: sweep_step_def)
next
  case (Some p)
  then have "\<not> killed p" using assms by (auto simp: no_kill_def)
  then show ?thesis using Some
    by (auto simp: sweep_step_def intro!: takes_primary merged_primary marked_primary dest: removable_not_primary)
qed

lemma sweep_primary: "no_kill V \<Longrightarrow> map_option is_primary (sweep V ks k) = map_option is_primary (V k)"
proof (induction ks arbitrary: V)
  case (Cons j ks)
  then show ?case using Cons.IH [OF no_kill_step [OF Cons.prems]] by (simp add: sweep_step_primary)
qed simp

section \<open>The state in which an event can end\<close>

text \<open>
  A chain of equivalent tracks leads to smaller identifiers until it comes to a stored particle.
\<close>

definition chains_down :: "'d MCState \<Rightarrow> bool" where
  "chains_down s \<longleftrightarrow>
     (\<forall>g j. map_of (mc_equivalentTracks s) g = Some j \<longrightarrow> map_of (mc_particleMap s) g = None \<longrightarrow> j < g \<and> map_of (mc_equivalentTracks s) j \<noteq> None) \<and>
     (\<forall>k. map_of (mc_particleMap s) k \<noteq> None \<longrightarrow> map_of (mc_equivalentTracks s) k \<noteq> None)"

lemma chains_down_end:
  assumes "chains_down s"
  shows "chains_end s"
  unfolding chains_end_def
proof
  fix g
  let ?K = "fst ` set (mc_equivalentTracks s)"
  let ?L = "last_stored (mc_particleMap s) (mc_equivalentTracks s)"
  have fin: "finite {i \<in> ?K. i < g}" for g by simp
  show "g \<in> ?K \<Longrightarrow> \<exists>k a. ?L g = Some (Some (k, a))"
  proof (induction g rule: measure_induct_rule [where f = "\<lambda>g. card {i \<in> ?K. i < g}"])
    case (less g)
    show ?case
    proof (cases "map_of (mc_particleMap s) g")
      case None
      obtain j where j: "map_of (mc_equivalentTracks s) g = Some j" using less.prems by (metis map_of_eq_None_iff not_Some_eq)
      then have down: "j < g" "j \<in> ?K" using assms None unfolding chains_down_def by (metis map_of_eq_None_iff)+
      then have "{i \<in> ?K. i < j} \<subset> {i \<in> ?K. i < g}" by auto
      then have "card {i \<in> ?K. i < j} < card {i \<in> ?K. i < g}" by (rule psubset_card_mono [OF fin])
      from less.IH [OF this down(2)] show ?thesis by (simp add: last_stored_next [OF None j])
    next
      case (Some a)
      then show ?thesis by (auto simp: last_stored_here)
    qed
  qed
qed

definition event_ok :: "'d MCState \<Rightarrow> bool" where
  "event_ok s \<longleftrightarrow> stored_ok s \<and> parents_first (pview s) \<and> no_kill (pview s) \<and> chains_down s \<and> generator_ok s \<and> relations_ok s"

lemma grown_fields:
  assumes "grown p q"
  shows "pt_id q = pt_id p" "pt_status q = pt_status p" "pt_g4Parent q = pt_g4Parent p" "pt_parents q = pt_parents p" "pt_daughters q = pt_daughters p"
proof -
  have "pt_id p = pt_id (unsummed p) \<and> pt_status p = pt_status (unsummed p) \<and> pt_g4Parent p = pt_g4Parent (unsummed p) \<and>
    pt_parents p = pt_parents (unsummed p) \<and> pt_daughters p = pt_daughters (unsummed p)" for p :: "'a Particle" by (simp add: unsummed_def)
  moreover have "unsummed q = unsummed p" using assms by (simp add: grown_def)
  ultimately show "pt_id q = pt_id p" "pt_status q = pt_status p" "pt_g4Parent q = pt_g4Parent p" "pt_parents q = pt_parents p" "pt_daughters q = pt_daughters p"
    by metis+
qed

lemma pview_mem: "stored_ok s \<Longrightarrow> (k, a) \<in> set (mc_particleMap s) \<Longrightarrow> map_of (mc_particleMap s) k = Some a \<and> pview s k = mc_heap s a"
proof -
  assume "stored_ok s" "(k, a) \<in> set (mc_particleMap s)"
  then have "map_of (mc_particleMap s) k = Some a" by (simp add: stored_ok_def map_of_mem)
  then show ?thesis by (simp add: pview_def)
qed

lemma elsewhere_frame:
  assumes "elsewhere s t"
  shows "set (mc_particleMap t) \<subseteq> set (mc_particleMap s)" "a \<notin> snd ` set (mc_particleMap s) \<Longrightarrow> mc_heap t a = mc_heap s a"
    "ev_particles t = ev_particles s" "ev_particleMap t = ev_particleMap s"
  using assms unfolding elsewhere_def by (elim exE conjE, simp)+

lemma recombined_event:
  assumes "event_ok s" and "cf_userHandlers cf = []"
  shows "\<exists>t. recombine_all cf s = Inr t \<and> event_ok t \<and> ev_particles t = ev_particles s \<and> ev_particleMap t = ev_particleMap s \<and>
    fst ` set (mc_equivalentTracks s) \<subseteq> fst ` set (mc_equivalentTracks t) \<and>
    (\<forall>k a p. map_of (mc_particleMap s) k = Some a \<longrightarrow> mc_heap s a = Some p \<longrightarrow> protected p \<longrightarrow> map_of (mc_particleMap t) k = Some a)"
proof -
  have so: "stored_ok s" and pf: "parents_first (pview s)" and nk: "no_kill (pview s)" and cd: "chains_down s"
    and gen: "generator_ok s" and rel: "relations_ok s" using assms(1) by (auto simp: event_ok_def)
  let ?V = "pview s" and ?ks = "descending s"
  let ?R = "set (swept ?V ?ks)"
  let ?W = "(sweep ?V ?ks) |` (- ?R)"
  obtain t ks where t: "recombine_all cf s = Inr t" "stored_ok t" "elsewhere s t" "outgrown ?W (pview t)" "pview t = sweep ?W ks"
    "\<forall>k. map_of (mc_equivalentTracks t) k = (if k \<in> ?R then map_option pt_g4Parent (?V k) else map_of (mc_equivalentTracks s) k)"
    using recombine_all_view [OF so assms(2) pf nk] by blast
  note fr = elsewhere_frame [OF t(3)]
  have nkW: "no_kill ?W" using no_kill_sweep [OF nk, of ?ks] by (auto simp: no_kill_def restrict_map_def split: if_splits)
  have gone: "pview t k = None" if "k \<in> ?R" for k using outgrown_None [OF t(4), of k] that by simp
  have stays: "\<exists>q. pview t k = Some q \<and> grown p q \<and> is_primary q = is_primary p" if k: "?V k = Some p" "k \<notin> ?R" for k p
  proof -
    obtain w where w: "sweep ?V ?ks k = Some w" "grown p w" using sweep_Some [where V = ?V and js = ?ks, OF k(1)] by blast
    then have W: "?W k = Some w" using k(2) by simp
    obtain q where q: "pview t k = Some q" "grown w q" using outgrown_Some [OF t(4) W] by blast
    have "is_primary q = is_primary w" using sweep_primary [OF nkW, of ks k] q(1) W t(5) by simp
    moreover have "is_primary w = is_primary p" using sweep_primary [OF nk, of ?ks k] w(1) k(1) by simp
    ultimately show ?thesis using q w(2) grown_trans by blast
  qed
  have from_s: "\<exists>p. ?V k = Some p \<and> k \<notin> ?R \<and> grown p q \<and> is_primary q = is_primary p" if q: "pview t k = Some q" for k q
  proof -
    have n: "k \<notin> ?R" using gone q by fastforce
    then have "sweep ?V ?ks k \<noteq> None" using outgrown_None [OF t(4), of k] q by auto
    then obtain p where "?V k = Some p" using outgrown_None [OF sweep_outgrown, of ?V ?ks k] by auto
    then show ?thesis using stays n q by fastforce
  qed
  have unprotected: "\<not> protected p" if k: "k \<in> ?R" "?V k = Some p" for k p
  proof -
    obtain w where w: "sweep ?V ?ks k = Some w" "grown p w" using sweep_Some [where V = ?V and js = ?ks, OF k(2)] by blast
    have "dropped_by w" using swept_spec [OF pf descending_sorted [OF so] k(1)] w(1) by auto
    moreover have "\<not> killed w" using no_kill_sweep [OF nk, of ?ks] w(1) by (auto simp: no_kill_def)
    ultimately show ?thesis using grown_protected [OF w(2)] by (auto simp: dropped_by_def)
  qed
  have nonprimary: "\<not> is_primary p" if "k \<in> ?R" "?V k = Some p" for k p
    using unprotected [OF that] by (simp add: protected_def is_primary_isSet)
  have prot: "map_of (mc_particleMap t) k = Some a" if k: "map_of (mc_particleMap s) k = Some a" "mc_heap s a = Some p" "protected p" for k a p
  proof -
    have V: "?V k = Some p" using k by (simp add: pview_def)
    then have "k \<notin> ?R" using unprotected k(3) by blast
    then obtain q where "pview t k = Some q" using stays V by blast
    then obtain b where b: "map_of (mc_particleMap t) k = Some b" by (auto simp: pview_def split: option.splits)
    then have "(k, b) \<in> set (mc_particleMap s)" using fr(1) map_of_SomeD [OF b] by blast
    then show ?thesis using pview_mem [OF so] k(1) b by simp
  qed
  have eqt: "map_of (mc_equivalentTracks t) k \<noteq> None" if "map_of (mc_equivalentTracks s) k \<noteq> None" for k
  proof (cases "k \<in> ?R")
    case True
    then have "?V k \<noteq> None" by (rule swept_dom)
    then show ?thesis using t(6) True by auto
  qed (use t(6) that in simp)
  have eqt': "g \<in> fst ` set (mc_equivalentTracks t)" if "g \<in> fst ` set (mc_equivalentTracks s)" for g
    using eqt [of g] that by (simp add: map_of_eq_None_iff)
  have ev: "\<exists>q. mc_heap t a = Some q \<and> grown p q \<and> is_primary q = is_primary p"
    if a: "a \<in> snd ` set (ev_particles s)" "mc_heap s a = Some p" for a p
  proof (cases "a \<in> snd ` set (mc_particleMap s)")
    case True
    then obtain k where k: "(k, a) \<in> set (mc_particleMap s)" by auto
    then have "is_primary p" using gen a unfolding generator_ok_def by blast
    then have "map_of (mc_particleMap t) k = Some a" using prot pview_mem [OF so k] a(2) by (simp add: protected_def is_primary_isSet)
    then have "pview t k = mc_heap t a" by (simp add: pview_def)
    moreover have "?V k = Some p" using pview_mem [OF so k] a(2) by simp
    moreover have "pview t k \<noteq> None" using pview_dom [OF t(2), of k] \<open>map_of (mc_particleMap t) k = Some a\<close> by simp
    ultimately show ?thesis using stays gone by (metis)
  next
    case False
    then show ?thesis using fr(2) a(2) grown_refl by auto
  qed
  have stored: "\<exists>p. mc_heap s a = Some p \<and> (k, a) \<in> set (mc_particleMap s) \<and> k \<notin> ?R \<and> grown p q \<and> is_primary q = is_primary p"
    if ka: "(k, a) \<in> set (mc_particleMap t)" "mc_heap t a = Some q" for k a q
  proof -
    have "pview t k = Some q" using pview_mem [OF t(2) ka(1)] ka(2) by simp
    from from_s [OF this] obtain p where p: "?V k = Some p" "k \<notin> ?R" "grown p q" "is_primary q = is_primary p" by blast
    have "(k, a) \<in> set (mc_particleMap s)" using fr(1) ka(1) by blast
    then show ?thesis using p pview_mem [OF so] by simp
  qed
  have "parents_first (pview t)"
    unfolding parents_first_def using from_s grown_parent parents_firstD [OF pf] by metis
  moreover have "no_kill (pview t)" unfolding t(5) by (rule no_kill_sweep [OF nkW])
  moreover have "chains_down t"
    unfolding chains_down_def
  proof (rule conjI; intro allI impI)
    fix g j assume gj: "map_of (mc_equivalentTracks t) g = Some j" "map_of (mc_particleMap t) g = None"
    show "j < g \<and> map_of (mc_equivalentTracks t) j \<noteq> None"
    proof (cases "g \<in> ?R")
      case True
      then obtain p where p: "?V g = Some p" using swept_dom by blast
      obtain a where a: "map_of (mc_particleMap s) g = Some a" "mc_heap s a = Some p" using p by (auto simp: pview_def split: option.splits)
      have "a \<in> snd ` set (mc_particleMap s)" using map_of_SomeD [OF a(1)] by force
      then have "pt_g4Parent p \<in> fst ` set (mc_equivalentTracks s)" using rel a(2) nonprimary [OF True p] unfolding relations_ok_def by blast
      moreover have "j = pt_g4Parent p" using gj(1) t(6) True p by simp
      ultimately show ?thesis using eqt [of j] parents_firstD [OF pf p] by (simp add: map_of_eq_None_iff)
    next
      case False
      then have "map_of (mc_equivalentTracks s) g = Some j" using gj(1) t(6) by simp
      moreover have "map_of (mc_particleMap s) g = None"
        using stays [of g] False gj(2) pview_dom [OF t(2), of g] pview_dom [OF so, of g] by (cases "?V g") auto
      ultimately show ?thesis using cd eqt [of j] unfolding chains_down_def by blast
    qed
  next
    fix k assume "map_of (mc_particleMap t) k \<noteq> None"
    then obtain q where "pview t k = Some q" using pview_dom [OF t(2), of k] by auto
    then have "map_of (mc_particleMap s) k \<noteq> None" using from_s pview_dom [OF so, of k] by fastforce
    then show "map_of (mc_equivalentTracks t) k \<noteq> None" using cd eqt unfolding chains_down_def by blast
  qed
  moreover have "generator_ok t"
    unfolding generator_ok_def fr(3)
  proof (intro conjI)
    show "map_ok (ev_particles s)" using gen by (simp add: generator_ok_def)
    show "\<forall>(k, a) \<in> set (ev_particles s). a \<noteq> 0 \<and> 0 \<le> k \<and> (\<exists>p. mc_heap t a = Some p \<and> pt_id p = k)"
    proof safe
      fix k a assume ka: "(k, a) \<in> set (ev_particles s)"
      then obtain p where p: "a \<noteq> 0" "0 \<le> k" "mc_heap s a = Some p" "pt_id p = k" using gen unfolding generator_ok_def by blast
      have "a \<in> snd ` set (ev_particles s)" using ka by force
      then show "0 < a" "0 \<le> k" "\<exists>p. mc_heap t a = Some p \<and> pt_id p = k" using ev p grown_fields(1) by fastforce+
    qed
    have "is_primary q = (a \<in> snd ` set (ev_particles s))" if ka: "(k, a) \<in> set (mc_particleMap t)" "mc_heap t a = Some q" for k a q
    proof -
      obtain p where "mc_heap s a = Some p" "(k, a) \<in> set (mc_particleMap s)" "is_primary q = is_primary p" using stored [OF ka] by blast
      then show ?thesis using gen unfolding generator_ok_def by blast
    qed
    then show "\<forall>(k, a) \<in> set (mc_particleMap t). \<forall>p. mc_heap t a = Some p \<longrightarrow> is_primary p = (a \<in> snd ` set (ev_particles s))" by blast
  qed
  moreover have "relations_ok t"
    unfolding relations_ok_def fr(3)
  proof (intro conjI ballI allI impI)
    fix a q assume a: "a \<in> snd ` set (ev_particles s)" "mc_heap t a = Some q"
    obtain k p where p: "(k, a) \<in> set (ev_particles s)" "mc_heap s a = Some p" using a(1) gen unfolding generator_ok_def by fastforce
    obtain q' where q': "mc_heap t a = Some q'" "grown p q'" "is_primary q' = is_primary p" using ev [OF a(1) p(2)] by blast
    have "q' = q" using q'(1) a(2) by simp
    then have g: "grown p q" "is_primary q = is_primary p" using q' by simp_all
    note r = rel [unfolded relations_ok_def, THEN conjunct1, THEN bspec, OF a(1), rule_format, OF p(2)]
    show "is_primary q \<or> anySet (pt_status q) G4PARTICLE_GEN_STATUS" "pt_parents q \<union> pt_daughters q \<subseteq> fst ` set (ev_particles s)"
      using r g grown_fields [OF g(1)] by simp_all
  next
    fix a q assume a: "a \<in> snd ` set (mc_particleMap t)" "mc_heap t a = Some q" "\<not> is_primary q"
    then obtain k where "(k, a) \<in> set (mc_particleMap t)" by auto
    from stored [OF this a(2)] obtain p where p: "mc_heap s a = Some p" "(k, a) \<in> set (mc_particleMap s)" "grown p q" "is_primary q = is_primary p" by blast
    have mem: "a \<in> snd ` set (mc_particleMap s)" using p(2) by force
    have np: "\<not> is_primary p" using a(3) p(4) by simp
    note r = rel [unfolded relations_ok_def, THEN conjunct2, THEN bspec, OF mem, rule_format, OF p(1) np]
    show "pt_parents q = {}" "pt_daughters q = {}" "0 < pt_g4Parent q" "pt_g4Parent q \<in> fst ` set (mc_equivalentTracks t)"
      using r eqt' grown_fields [OF p(3)] by simp_all
  qed
  ultimately have "event_ok t" using t(2) by (simp add: event_ok_def)
  then show ?thesis using t(1) fr(3,4) eqt' prot by blast
qed

section \<open>The end of an event\<close>

lemma ended_event:
  assumes "event_ok s" and "cf_userHandlers cf = []" and "\<forall>p. cf_definition cf p" and "ev_particleMap s = []"
  shows "\<exists>t. event_end cf s = Inr t \<and> mc_particleMap t = [] \<and> mc_equivalentTracks t = [] \<and>
    (\<forall>k a. map_of (ev_particleMap t) k = Some a \<longrightarrow> map_option pt_id (mc_heap t a) = Some k) \<and>
    (\<forall>k a. map_of (ev_particles s) k = Some a \<longrightarrow> map_of (ev_particleMap t) k = Some a) \<and>
    (\<forall>g \<in> fst ` set (mc_equivalentTracks s). map_of (ev_particleMap t) (particleID t g) \<noteq> None) \<and>
    (\<forall>k a p. map_of (mc_particleMap s) k = Some a \<longrightarrow> mc_heap s a = Some p \<longrightarrow> protected p \<longrightarrow>
       map_of (ev_particleMap t) (particleID t k) = Some a)"
proof -
  obtain r where r: "recombine_all cf s = Inr r" "event_ok r" "ev_particles r = ev_particles s" "ev_particleMap r = ev_particleMap s"
    "fst ` set (mc_equivalentTracks s) \<subseteq> fst ` set (mc_equivalentTracks r)"
    "\<forall>k a p. map_of (mc_particleMap s) k = Some a \<longrightarrow> mc_heap s a = Some p \<longrightarrow> protected p \<longrightarrow> map_of (mc_particleMap r) k = Some a"
    using recombined_event [OF assms(1,2)] by blast
  have ok: "stored_ok r" "generator_ok r" "relations_ok r" "chains_down r" using r(2) by (auto simp: event_ok_def)
  note ce = chains_down_end [OF ok(4)]
  obtain t final eqv where t: "rebaseSimulatedTracks cf r =
      Inr (t\<lparr>mc_heap := linked_heap final eqv t (set final), mc_equivalentTracks := eqv, mc_particleMap := final\<rparr>)"
    "renumbered r t final" "\<forall>g. map_of eqv g = track_number r t g"
    using rebase_view [OF ok(1,2) ce assms(3)] by blast
  let ?u = "t\<lparr>mc_heap := linked_heap final eqv t (set final), mc_equivalentTracks := eqv, mc_particleMap := final\<rparr>"
  have rc: "record_complete ?u" by (rule linked_record_complete [OF t(2) ok(2,3) ce t(3)])
  let ?w = "?u\<lparr>mc_heap := endpoints_set cf ?u (snd ` set final)\<rparr>"
  have sv: "setVertexEndpointBit cf ?u = Inr ?w" using setVertexEndpointBit_complete [OF rc, of cf] by simp
  note rn = renumberedD [OF t(2)]
  have tr: "t = r\<lparr>mc_heap := mc_heap t\<rparr>" using rn(1) by (simp add: heap_only_def)
  have evt: "ev_particleMap t = []" using r(4) assms(4) by (subst tr) simp
  let ?z = "?w\<lparr>ev_particleMap := final, ev_equivalentTracks := eqv, mc_particleMap := [], mc_equivalentTracks := [], mc_primaryMap := None\<rparr>"
  have "event_end cf s = Inr ?z"
    unfolding event_end_def r(1) bindE_simps t(1) check_complete [OF rc] sv
    by (simp add: record_adopt_def record_clear_def release_particles_def mc_clear_def evt)
  moreover have "map_option pt_id (mc_heap ?z a) = Some k" if ka: "map_of (ev_particleMap ?z) k = Some a" for k a
  proof -
    have fa: "(k, a) \<in> set (mc_particleMap ?u)" using map_of_SomeD [OF ka] by simp
    obtain q where q: "mc_heap ?u a = Some q" "pt_id q = k" using rc fa unfolding record_complete_def keyed_def by blast
    have "pt_id (endpoint cf ?u q) = pt_id q" by (simp add: endpoint_def or_status_def)
    then show ?thesis using q by (simp add: endpoints_set_def)
  qed
  moreover have "map_of (ev_particleMap ?z) k = Some a" if "map_of (ev_particles s) k = Some a" for k a
    using rn(3) [of k a] that r(3) by simp
  moreover have last: "map_of (ev_particleMap ?z) (particleID ?z g) = Some a"
    if g: "g \<in> fst ` set (mc_equivalentTracks r)" and l: "last_stored (mc_particleMap r) (mc_equivalentTracks r) g = Some (Some (k, a))" for g k a
  proof -
    have "a \<in> snd ` set (mc_particleMap r)" using map_of_SomeD [OF last_stored_mem [OF l]] by force
    then obtain q where q: "mc_heap t a = Some q" "map_of final (pt_id q) = Some a" using rn(4) [of a] by blast
    have "map_of eqv g = Some (pt_id q)" using t(3) g l q(1) by (simp add: track_number_def)
    then show ?thesis using q(2) by (simp add: particleID_def)
  qed
  moreover have "map_of (ev_particleMap ?z) (particleID ?z g) \<noteq> None" if "g \<in> fst ` set (mc_equivalentTracks s)" for g
  proof -
    have g: "g \<in> fst ` set (mc_equivalentTracks r)" using that r(5) by blast
    then obtain k a where "last_stored (mc_particleMap r) (mc_equivalentTracks r) g = Some (Some (k, a))" using ce unfolding chains_end_def by blast
    from last [OF g this] show ?thesis by simp
  qed
  moreover have "map_of (ev_particleMap ?z) (particleID ?z k) = Some a"
    if k: "map_of (mc_particleMap s) k = Some a" "mc_heap s a = Some p" "protected p" for k a p
  proof -
    have m: "map_of (mc_particleMap r) k = Some a" using r(6) k by blast
    then have "k \<in> fst ` set (mc_equivalentTracks r)" using ok(4) unfolding chains_down_def by (metis map_of_eq_None_iff option.distinct(1))
    from last [OF this last_stored_here [OF m]] show ?thesis .
  qed
  ultimately show ?thesis by (intro exI [of _ ?z] conjI) (simp | blast)+
qed

section \<open>Tracks\<close>

text \<open>What the rest of the simulation does while a track is followed: steps and marks.\<close>

datatype track_call = Stepped bool | Marked | MarkedFor i32

definition do_call :: "'d Settings \<Rightarrow> 'd MCState \<Rightarrow> 'd Track \<times> track_call \<Rightarrow> 'd MCState cpp" where
  "do_call cf s = (\<lambda>(t, c). case c of
       Stepped b \<Rightarrow> Inr (track_step cf s t b)
     | Marked \<Rightarrow> mark_track cf s (Some t)
     | MarkedFor r \<Rightarrow> mark_reason s (Some t) r)"

definition follow_track :: "'d Settings \<Rightarrow> 'd MCState \<Rightarrow> 'd Track \<Rightarrow> ('d Track \<times> track_call) list \<Rightarrow> 'd Track \<Rightarrow> 'd MCState cpp" where
  "follow_track cf s t calls t' = bindE (track_begin cf s t) (\<lambda>s1. bindE (foldE (do_call cf) s1 calls) (\<lambda>s2. track_end cf s2 t'))"

text \<open>What the steps of a track do not change of its particle.\<close>

definition same_kin :: "'d Particle \<Rightarrow> 'd Particle \<Rightarrow> bool" where
  "same_kin p q \<longleftrightarrow> pt_id q = pt_id p \<and> pt_g4Parent q = pt_g4Parent p \<and> pt_parents q = pt_parents p \<and> pt_daughters q = pt_daughters p \<and>
     bit (pt_reason q) 2 = bit (pt_reason p) 2 \<and> bit (pt_reason q) 11 = bit (pt_reason p) 11"

definition harmless :: "i32 \<Rightarrow> bool" where
  "harmless m \<longleftrightarrow> \<not> bit m 2 \<and> \<not> bit m 11"

lemma same_kin_refl: "same_kin p p"
  by (simp add: same_kin_def)

lemma same_kin_trans: "\<lbrakk>same_kin p q; same_kin q r\<rbrakk> \<Longrightarrow> same_kin p r"
  by (simp add: same_kin_def)

lemma same_kin_or: "harmless m \<Longrightarrow> same_kin p (or_reason m p)"
  by (simp add: same_kin_def or_reason_def harmless_def bit_or_iff)

lemma harmless_bits:
  "harmless G4PARTICLE_CREATED_HIT" "harmless G4PARTICLE_HAS_SECONDARIES" "harmless G4PARTICLE_ABOVE_ENERGY_THRESHOLD"
  "harmless G4PARTICLE_KEEP_PROCESS" "harmless G4PARTICLE_CREATED_CALORIMETER_HIT" "harmless G4PARTICLE_CREATED_TRACKER_HIT"
  "harmless G4PARTICLE_KEEP_USER" "harmless G4PARTICLE_KEEP_ALWAYS" "harmless G4PARTICLE_STARTED_IN_CALORIMETER" "harmless 0"
  by (simp_all add: harmless_def particle_bits bit_simps)

lemma harmless_or: "\<lbrakk>harmless m; harmless n\<rbrakk> \<Longrightarrow> harmless (m OR n)"
  by (simp add: harmless_def bit_or_iff)

lemma call_keeps:
  assumes "cf_userHandlers cf = []" and "case c of MarkedFor r \<Rightarrow> r \<noteq> 0 \<and> harmless r | _ \<Rightarrow> True"
  shows "\<exists>p. do_call cf s (t, c) = Inr (s\<lparr>mc_currTrack := p\<rparr>) \<and> same_kin (mc_currTrack s) p"
proof (cases c)
  case (Stepped b)
  let ?p = "(mc_currTrack s)\<lparr>pt_steps := pt_steps (mc_currTrack s) + 1\<rparr>"
  have "same_kin (mc_currTrack s) ?p" by (simp add: same_kin_def)
  moreover have "same_kin ?p (or_reason G4PARTICLE_HAS_SECONDARIES ?p)" by (rule same_kin_or) (rule harmless_bits)
  ultimately show ?thesis using Stepped same_kin_trans assms(1) by (auto simp: do_call_def track_step_def Let_def)
next
  case Marked
  have "harmless (G4PARTICLE_CREATED_HIT OR (case tk_sensitive t of None \<Rightarrow> 0
              | Some typ \<Rightarrow> if typ = ''calorimeter'' then G4PARTICLE_CREATED_CALORIMETER_HIT else G4PARTICLE_CREATED_TRACKER_HIT))"
    by (auto intro!: harmless_or harmless_bits split: option.split)
  then show ?thesis using Marked same_kin_or assms(1) by (auto simp: do_call_def mark_track_def Let_def)
next
  case (MarkedFor r)
  then show ?thesis using assms(2) same_kin_or by (auto simp: do_call_def mark_reason_def)
qed

lemma calls_keep:
  assumes "cf_userHandlers cf = []" and "\<forall>(t, c) \<in> set cs. case c of MarkedFor r \<Rightarrow> r \<noteq> 0 \<and> harmless r | _ \<Rightarrow> True"
  shows "\<exists>p. foldE (do_call cf) s cs = Inr (s\<lparr>mc_currTrack := p\<rparr>) \<and> same_kin (mc_currTrack s) p"
  using assms(2)
proof (induction cs arbitrary: s)
  case Nil
  show ?case by (intro exI [of _ "mc_currTrack s"]) (simp add: same_kin_refl)
next
  case (Cons x cs)
  obtain t c where x: "x = (t, c)" by fastforce
  obtain p where p: "do_call cf s x = Inr (s\<lparr>mc_currTrack := p\<rparr>)" "same_kin (mc_currTrack s) p"
    using call_keeps [OF assms(1), of c s t] Cons.prems by (auto simp: x)
  obtain q where "foldE (do_call cf) (s\<lparr>mc_currTrack := p\<rparr>) cs = Inr (s\<lparr>mc_currTrack := q\<rparr>)" "same_kin p q"
    using Cons.IH [of "s\<lparr>mc_currTrack := p\<rparr>"] Cons.prems by auto
  then show ?case using p same_kin_trans by (intro exI [of _ q]) auto
qed

lemma track_end_effect:
  assumes "cf_userHandlers cf = []" and "\<not> tk_suspended t"
  shows "\<exists>c b. same_kin (mc_currTrack s) c \<and> track_end cf s t = (if pt_reason c \<noteq> 0 \<or> tk_information t \<noteq> None \<or> b
     then store_track cf (s\<lparr>mc_currTrack := c\<rparr>) t b else forget_track (s\<lparr>mc_currTrack := c\<rparr>) t 0)"
proof -
  let ?p1 = "(mc_currTrack s)\<lparr>pt_pe := tk_momentum t, pt_ve := tk_position t\<rparr>"
  let ?p2 = "if tk_at_boundary t then or_status G4PARTICLE_SIM_LEFT_DETECTOR ?p1 else ?p1"
  define c where "c = (if cf_at_rest cf (tk_energy t) then or_status G4PARTICLE_SIM_STOPPED ?p2 else ?p2)"
  let ?r = "pt_reason (mc_currTrack s)"
  define m where "m = (if isSet ?r G4PARTICLE_STARTED_IN_CALORIMETER \<and> (isSet ?r G4PARTICLE_CREATED_TRACKER_HIT \<or> tk_sensitive t = Some ''tracker'')
    then ?r OR G4PARTICLE_SIM_BACKSCATTER else ?r)"
  have c: "same_kin (mc_currTrack s) c" "pt_reason c = ?r" by (simp_all add: c_def or_status_def same_kin_def)
  have "track_end cf s t = (if pt_reason c \<noteq> 0 \<or> tk_information t \<noteq> None \<or> isSet m G4PARTICLE_SIM_BACKSCATTER
     then store_track cf (s\<lparr>mc_currTrack := c\<rparr>) t (isSet m G4PARTICLE_SIM_BACKSCATTER) else forget_track (s\<lparr>mc_currTrack := c\<rparr>) t m)"
    unfolding track_end_def Let_def assms(1) foldl.simps c_def [symmetric] m_def [symmetric] using assms(2) by (simp add: bindE_Inr)
  moreover have "m = 0" if "pt_reason c = 0"
    using that c(2) by (simp add: m_def isSet_def G4PARTICLE_STARTED_IN_CALORIMETER_def)
  ultimately show ?thesis using c(1) by (intro exI [of _ c] exI [of _ "isSet m G4PARTICLE_SIM_BACKSCATTER"]) auto
qed

lemma track_end_current:
  assumes "cf_userHandlers cf = []" and "\<not> tk_suspended t"
  shows "\<exists>c b. same_kin p c \<and> track_end cf (s\<lparr>mc_currTrack := p\<rparr>) t = (if pt_reason c \<noteq> 0 \<or> tk_information t \<noteq> None \<or> b
     then store_track cf (s\<lparr>mc_currTrack := c\<rparr>) t b else forget_track (s\<lparr>mc_currTrack := c\<rparr>) t 0)"
proof -
  have "(s\<lparr>mc_currTrack := p\<rparr>)\<lparr>mc_currTrack := c\<rparr> = s\<lparr>mc_currTrack := c\<rparr>" for c by simp
  moreover have "mc_currTrack (s\<lparr>mc_currTrack := p\<rparr>) = p" by simp
  ultimately show ?thesis using track_end_effect [OF assms, of "s\<lparr>mc_currTrack := p\<rparr>"] by (simp only:)
qed

lemma stored_reason:
  assumes "pt_reason c \<noteq> 0 \<or> info \<or> b"
  shows "(pt_reason c OR (if b then G4PARTICLE_KEEP_ALWAYS else 0)) OR (if info then G4PARTICLE_KEEP_USER else 0) \<noteq> 0"
  using assms by (auto simp: or_eq_0_iff particle_bits)

lemma get_data_fields:
  "pt_reason (fst (get_data p c)) = pt_reason c" "pt_id (fst (get_data p c)) = pt_id c" "pt_g4Parent (fst (get_data p c)) = pt_g4Parent c"
  "pt_parents (fst (get_data p c)) = pt_parents c" "pt_daughters (fst (get_data p c)) = pt_daughters c"
  by (simp_all add: get_data_def)

lemma store_track_effect:
  assumes "case map_of (mc_particleMap s) (tk_id t) of Some a \<Rightarrow> a \<noteq> 0 \<and> mc_heap s a \<noteq> None | None \<Rightarrow> 0 < mc_next s"
    and "pt_reason (mc_currTrack s) \<noteq> 0 \<or> tk_information t \<noteq> None \<or> b"
  shows "\<exists>c q n h m. store_track cf s t b = Inr (s\<lparr>mc_next := n, mc_heap := h, mc_particleMap := m,
      mc_currTrack := c, mc_equivalentTracks := map_assign (tk_id t) (tk_id t) (mc_equivalentTracks s)\<rparr>) \<and>
    same_kin (mc_currTrack s) q \<and> pt_reason q \<noteq> 0 \<and>
    (case map_of (mc_particleMap s) (tk_id t) of
       Some a \<Rightarrow> n = mc_next s \<and> h = (mc_heap s)(a \<mapsto> q) \<and> m = mc_particleMap s
     | None \<Rightarrow> n = Suc (mc_next s) \<and> h = (mc_heap s)(mc_next s \<mapsto> q) \<and> m = map_assign (tk_id t) (mc_next s) (mc_particleMap s))"
proof -
  let ?c = "mc_currTrack s"
  let ?r = "(pt_reason ?c OR (if b then G4PARTICLE_KEEP_ALWAYS else 0)) OR (if tk_information t \<noteq> None then G4PARTICLE_KEEP_USER else 0)"
  have r: "?r \<noteq> 0" by (rule stored_reason [OF assms(2)])
  have bits: "bit ?r 2 = bit (pt_reason ?c) 2 \<and> bit ?r 11 = bit (pt_reason ?c) 11"
    using harmless_bits(7,8) by (auto simp: harmless_def bit_or_iff)
  have q: "same_kin ?c q \<and> pt_reason q \<noteq> 0"
    if "pt_reason q = ?r" "pt_id q = pt_id ?c" "pt_g4Parent q = pt_g4Parent ?c" "pt_parents q = pt_parents ?c" "pt_daughters q = pt_daughters ?c" for q
    using that r bits by (simp add: same_kin_def)
  obtain x where x: "(case tk_information t of Some ext \<Rightarrow> (p\<lparr>pt_extension := ext\<rparr>, or_reason G4PARTICLE_KEEP_USER c) | None \<Rightarrow> (p, c)) =
      (p\<lparr>pt_extension := x p\<rparr>, or_reason (if tk_information t \<noteq> None then G4PARTICLE_KEEP_USER else 0) c)" for p c :: "'a Particle"
  proof
    show "(case tk_information t of Some ext \<Rightarrow> (p\<lparr>pt_extension := ext\<rparr>, or_reason G4PARTICLE_KEEP_USER c) | None \<Rightarrow> (p, c)) =
      (p\<lparr>pt_extension := (case tk_information t of Some ext \<Rightarrow> ext | None \<Rightarrow> pt_extension p)\<rparr>,
       or_reason (if tk_information t \<noteq> None then G4PARTICLE_KEEP_USER else 0) c)" for p c :: "'a Particle"
      by (cases "tk_information t") (simp_all add: or_reason_def)
  qed
  have c1: "(if b then or_reason G4PARTICLE_KEEP_ALWAYS ?c else ?c) = or_reason (if b then G4PARTICLE_KEEP_ALWAYS else 0) ?c"
    by (simp add: or_reason_def)
  let ?C = "or_reason (if tk_information t \<noteq> None then G4PARTICLE_KEEP_USER else 0) (or_reason (if b then G4PARTICLE_KEEP_ALWAYS else 0) ?c)"
  have C: "pt_reason ?C = ?r" "pt_id ?C = pt_id ?c" "pt_g4Parent ?C = pt_g4Parent ?c" "pt_parents ?C = pt_parents ?c" "pt_daughters ?C = pt_daughters ?c"
    unfolding or_reason_def by simp_all
  show ?thesis
  proof (cases "map_of (mc_particleMap s) (tk_id t)")
    case None
    let ?p = "(Particle_new cf)\<lparr>pt_extension := x (Particle_new cf)\<rparr>"
    let ?q = "fst (get_data ?p ?C)"
    have "same_kin ?c ?q \<and> pt_reason ?q \<noteq> 0" by (rule q) (simp_all only: get_data_fields C)
    moreover have "store_track cf s t b = Inr (s\<lparr>mc_next := Suc (mc_next s), mc_heap := (mc_heap s)(mc_next s \<mapsto> ?q),
        mc_particleMap := map_assign (tk_id t) (mc_next s) (mc_particleMap s), mc_currTrack := snd (get_data ?p ?C),
        mc_equivalentTracks := map_assign (tk_id t) (tk_id t) (mc_equivalentTracks s)\<rparr>)"
      using assms(1) None
      by (simp add: store_track_def Let_def c1 x particle_alloc_def particle_get_def particle_put_def case_prod_unfold del: fun_upd_apply)
        (simp add: fun_upd_def)
    ultimately show ?thesis using None
      by (intro exI [of _ "snd (get_data ?p ?C)"] exI [of _ ?q] exI [of _ "Suc (mc_next s)"] exI [of _ "(mc_heap s)(mc_next s \<mapsto> ?q)"]
        exI [of _ "map_assign (tk_id t) (mc_next s) (mc_particleMap s)"]) (simp only: option.case simp_thms)
  next
    case (Some a)
    then obtain p where p: "a \<noteq> 0" "mc_heap s a = Some p" using assms(1) by auto
    let ?p = "p\<lparr>pt_extension := x p\<rparr>"
    let ?q = "fst (get_data ?p ?C)"
    have "same_kin ?c ?q \<and> pt_reason ?q \<noteq> 0" by (rule q) (simp_all only: get_data_fields C)
    moreover have "store_track cf s t b = Inr (s\<lparr>mc_next := mc_next s, mc_heap := (mc_heap s)(a \<mapsto> ?q),
        mc_particleMap := mc_particleMap s, mc_currTrack := snd (get_data ?p ?C),
        mc_equivalentTracks := map_assign (tk_id t) (tk_id t) (mc_equivalentTracks s)\<rparr>)"
      using Some p
      by (simp add: store_track_def Let_def c1 x particle_get_def particle_put_def case_prod_unfold)
    ultimately show ?thesis using Some
      by (intro exI [of _ "snd (get_data ?p ?C)"] exI [of _ ?q] exI [of _ "mc_next s"] exI [of _ "(mc_heap s)(a \<mapsto> ?q)"]
        exI [of _ "mc_particleMap s"]) (simp only: option.case simp_thms)
  qed
qed

section \<open>The invariant of the tracking\<close>

lemma assign_new_set: "map_of m k = None \<Longrightarrow> set (map_assign k v m) = insert (k, v) (set m)"
  by (induction k v m rule: map_assign.induct) (auto split: if_splits)

lemma assign_new:
  assumes "map_of m k = None"
  shows "set (map_assign k v m) = insert (k, v) (set m)" "distinct (List.map snd m) \<Longrightarrow> v \<notin> snd ` set m \<Longrightarrow> distinct (List.map snd (map_assign k v m))"
proof -
  show "set (map_assign k v m) = insert (k, v) (set m)" by (rule assign_new_set [OF assms])
  show "distinct (List.map snd m) \<Longrightarrow> v \<notin> snd ` set m \<Longrightarrow> distinct (List.map snd (map_assign k v m))"
    using assms
  proof (induction k v m rule: map_assign.induct)
    case (2 k v k' v' m)
    then show ?case using assign_new_set [of m k v] by (auto split: if_splits)
  qed simp
qed

lemma event_ok_stored:
  assumes "event_ok s" and "map_of (mc_particleMap s) k = None" and "a \<noteq> 0" and "a \<notin> snd ` set (mc_particleMap s)"
    and "mc_heap t = (mc_heap s)(a \<mapsto> q)" and "mc_particleMap t = map_assign k a (mc_particleMap s)"
    and "mc_equivalentTracks t = map_assign k k (mc_equivalentTracks s)" and "ev_particles t = ev_particles s"
    and "pt_g4Parent q < k" and "\<not> killed q" and "is_primary q = (a \<in> snd ` set (ev_particles s))"
    and "is_primary q \<Longrightarrow> \<exists>p. mc_heap s a = Some p \<and> pt_id q = pt_id p \<and> pt_parents q = pt_parents p \<and> pt_daughters q = pt_daughters p"
    and "\<not> is_primary q \<Longrightarrow> pt_parents q = {} \<and> pt_daughters q = {} \<and> 0 < pt_g4Parent q \<and> pt_g4Parent q \<in> fst ` set (mc_equivalentTracks s)"
  shows "event_ok t"
proof -
  have so: "stored_ok s" and pf: "parents_first (pview s)" and nk: "no_kill (pview s)" and cd: "chains_down s"
    and gen: "generator_ok s" and rel: "relations_ok s" using assms(1) by (auto simp: event_ok_def)
  note pm = assign_new(1) [OF assms(2), of a]
  have other: "mc_heap t b = mc_heap s b" if "b \<noteq> a" for b using that assms(5) by simp
  have V: "pview t = (pview s)(k \<mapsto> q)"
  proof
    fix l
    show "pview t l = ((pview s)(k \<mapsto> q)) l"
    proof (cases "map_of (mc_particleMap s) l")
      case (Some b)
      then have "b \<noteq> a" using assms(4) map_of_SomeD [OF Some] by force
      then show ?thesis using Some assms(2) by (auto simp: pview_def assms(5,6))
    qed (simp add: pview_def assms(5,6))
  qed
  have "stored_ok t"
    using so assms(2-4) assign_new [OF assms(2), of a] other unfolding stored_ok_def assms(6) by (auto simp: assms(5))
  moreover have "parents_first (pview t)" using pf assms(9) unfolding V by (auto simp: parents_first_def)
  moreover have "no_kill (pview t)" using nk assms(10) unfolding V by (auto simp: no_kill_def)
  moreover have "chains_down t" using cd unfolding chains_down_def assms(6,7) by (auto split: if_splits)
  moreover have "generator_ok t"
    unfolding generator_ok_def assms(8)
  proof (intro conjI)
    show "map_ok (ev_particles s)" using gen by (simp add: generator_ok_def)
    have "b \<noteq> 0 \<and> 0 \<le> i \<and> (\<exists>p. mc_heap t b = Some p \<and> pt_id p = i)" if ib: "(i, b) \<in> set (ev_particles s)" for i b
    proof -
      have g: "b \<noteq> 0 \<and> 0 \<le> i \<and> (\<exists>p. mc_heap s b = Some p \<and> pt_id p = i)" using gen ib unfolding generator_ok_def by blast
      show ?thesis
      proof (cases "b = a")
        case True
        then have "is_primary q" using ib assms(11) by force
        then show ?thesis using g assms(12) True assms(5) by auto
      qed (use g other in simp)
    qed
    then show "\<forall>(i, b) \<in> set (ev_particles s). b \<noteq> 0 \<and> 0 \<le> i \<and> (\<exists>p. mc_heap t b = Some p \<and> pt_id p = i)" by blast
    have "is_primary p = (b \<in> snd ` set (ev_particles s))" if ib: "(i, b) \<in> set (mc_particleMap t)" "mc_heap t b = Some p" for i b p
    proof (cases "b = a")
      case True
      then show ?thesis using ib(2) assms(5,11) by simp
    next
      case False
      then have "(i, b) \<in> set (mc_particleMap s)" "mc_heap s b = Some p" using ib pm other [OF False] by (simp_all add: assms(6))
      then show ?thesis using gen unfolding generator_ok_def by blast
    qed
    then show "\<forall>(i, b) \<in> set (mc_particleMap t). \<forall>p. mc_heap t b = Some p \<longrightarrow> is_primary p = (b \<in> snd ` set (ev_particles s))" by blast
  qed
  moreover have "relations_ok t"
    unfolding relations_ok_def assms(8)
  proof (intro conjI ballI allI impI)
    fix b p assume b: "b \<in> snd ` set (ev_particles s)" "mc_heap t b = Some p"
    note r = rel [unfolded relations_ok_def, THEN conjunct1, THEN bspec, OF b(1), rule_format]
    have "(is_primary p \<or> anySet (pt_status p) G4PARTICLE_GEN_STATUS) \<and> pt_parents p \<union> pt_daughters p \<subseteq> fst ` set (ev_particles s)"
    proof (cases "b = a")
      case True
      then have "p = q" "is_primary q" using b assms(5,11) by auto
      then show ?thesis using assms(12) r True by auto
    qed (use r b(2) other in auto)
    then show "is_primary p \<or> anySet (pt_status p) G4PARTICLE_GEN_STATUS" "pt_parents p \<union> pt_daughters p \<subseteq> fst ` set (ev_particles s)" by blast+
  next
    fix b p assume b: "b \<in> snd ` set (mc_particleMap t)" "mc_heap t b = Some p" "\<not> is_primary p"
    have "pt_parents p = {} \<and> pt_daughters p = {} \<and> 0 < pt_g4Parent p \<and> pt_g4Parent p \<in> fst ` set (mc_equivalentTracks s)"
    proof (cases "b = a")
      case True
      then show ?thesis using b assms(5,13) by simp
    next
      case False
      then have "b \<in> snd ` set (mc_particleMap s)" "mc_heap s b = Some p" using b pm other [OF False] by (simp_all add: assms(6))
      then show ?thesis using rel b(3) unfolding relations_ok_def by blast
    qed
    then show "pt_parents p = {}" "pt_daughters p = {}" "0 < pt_g4Parent p" "pt_g4Parent p \<in> fst ` set (mc_equivalentTracks t)"
      by (simp_all add: assms(7) keys_assign)
  qed
  ultimately show ?thesis by (simp add: event_ok_def)
qed

lemma event_ok_forgotten:
  assumes "event_ok s" and "map_of (mc_particleMap s) k = None" and "j < k" and "j \<in> fst ` set (mc_equivalentTracks s)"
    and "mc_heap t = mc_heap s" and "mc_particleMap t = mc_particleMap s"
    and "mc_equivalentTracks t = map_assign k j (mc_equivalentTracks s)" and "ev_particles t = ev_particles s"
  shows "event_ok t"
proof -
  have V: "pview t = pview s" by (rule pview_same [OF assms(6,5)])
  have "map_of (mc_equivalentTracks s) j \<noteq> None" using assms(4) by (simp add: map_of_eq_None_iff)
  then have "chains_down s \<Longrightarrow> chains_down t"
    using assms(2,3) unfolding chains_down_def assms(6,7) by (auto split: if_splits)
  moreover have "generator_ok t = generator_ok s" by (simp add: generator_ok_def assms(5,6,8))
  moreover have "relations_ok s \<Longrightarrow> relations_ok t" unfolding relations_ok_def assms(5,6,7,8) by (auto simp: keys_assign)
  ultimately show ?thesis using assms(1) V stored_ok_same [OF assms(6,5)] by (simp add: event_ok_def)
qed

text \<open>
  What Geant4 promises of a track: it is new, and its parent was followed before and has a smaller identifier. A track with
  a primary particle belongs to a generator particle that was not followed yet; it has no parent, or it is a decay
  product assigned to a primary particle beforehand (\<open>SetDaughter\<close> in the generation), whose parent is the track that decayed. Reasons given in marks are not
  empty and are neither that of a primary nor that of a killed particle.
\<close>

definition admissible :: "'d MCState \<Rightarrow> 'd Track \<Rightarrow> ('d Track \<times> track_call) list \<Rightarrow> 'd Track \<Rightarrow> bool" where
  "admissible s t calls t' \<longleftrightarrow> tk_id t' = tk_id t \<and> \<not> tk_suspended t' \<and> 0 < tk_id t \<and> map_of (mc_equivalentTracks s) (tk_id t) = None \<and>
     (\<forall>(u, c) \<in> set calls. case c of MarkedFor r \<Rightarrow> r \<noteq> 0 \<and> harmless r | _ \<Rightarrow> True) \<and>
     (case tk_primary t of
        Some g \<Rightarrow> (tk_parent t = 0 \<or> 0 < tk_parent t \<and> tk_parent t < tk_id t \<and> tk_parent t \<in> fst ` set (mc_equivalentTracks s)) \<and>
          (\<exists>m a. mc_primaryMap s = Some m \<and> m g = Some a \<and> a \<in> snd ` set (ev_particles s) \<and> a \<notin> snd ` set (mc_particleMap s))
      | None \<Rightarrow> 0 < tk_parent t \<and> tk_parent t < tk_id t \<and> tk_parent t \<in> fst ` set (mc_equivalentTracks s))"

definition tracking_ok :: "'d MCState \<Rightarrow> bool" where
  "tracking_ok s \<longleftrightarrow> event_ok s \<and> \<not> mc_haveSuspended s \<and> 0 < mc_next s \<and> (\<forall>a. mc_next s \<le> a \<longrightarrow> mc_heap s a = None) \<and>
     (\<forall>a \<in> snd ` set (ev_particles s). \<forall>p. mc_heap s a = Some p \<longrightarrow> \<not> bit (pt_reason p) 11)"

lemma start_track_kin:
  assumes "cf_userHandlers cf = []"
  shows "same_kin (c\<lparr>pt_g4Parent := tk_parent t\<rparr>) (start_track cf t c)"
proof -
  let ?z = "(cf_zero cf, cf_zero cf, cf_zero cf)"
  let ?c1 = "c\<lparr>pt_steps := 0, pt_secondaries := 0, pt_g4Parent := tk_parent t, pt_originalG4ID := tk_id t, pt_process := tk_process t,
                 pt_time := tk_time t, pt_vs := tk_vertex t, pt_ve := ?z, pt_ps := tk_momentum t, pt_pe := ?z\<rparr>"
  let ?c2 = "case tk_process t of Some n \<Rightarrow> if n \<in> set (cf_processNames cf) then or_reason G4PARTICLE_KEEP_PROCESS ?c1 else ?c1 | None \<Rightarrow> ?c1"
  let ?c3 = "if cf_keepAll cf then or_reason G4PARTICLE_KEEP_ALWAYS ?c2 else ?c2"
  let ?c4 = "if tk_sensitive t = Some ''calorimeter'' then or_reason G4PARTICLE_STARTED_IN_CALORIMETER ?c3 else ?c3"
  have "same_kin (c\<lparr>pt_g4Parent := tk_parent t\<rparr>) ?c1" by (simp add: same_kin_def)
  also have "same_kin ?c1 ?c2" by (auto intro: same_kin_refl same_kin_or harmless_bits split: option.split)
  finally (same_kin_trans) have "same_kin (c\<lparr>pt_g4Parent := tk_parent t\<rparr>) ?c2" .
  also have "same_kin ?c2 ?c3" by (auto intro: same_kin_refl same_kin_or harmless_bits)
  finally (same_kin_trans) have "same_kin (c\<lparr>pt_g4Parent := tk_parent t\<rparr>) ?c3" .
  also have "same_kin ?c3 ?c4" by (auto intro: same_kin_refl same_kin_or harmless_bits)
  finally (same_kin_trans) show ?thesis by (simp only: start_track_def Let_def assms foldl.simps)
qed

lemma begin_simulated:
  assumes "cf_userHandlers cf = []" and "\<not> mc_haveSuspended s" and "tk_primary t = None"
  shows "\<exists>c. track_begin cf s t = Inr (s\<lparr>mc_globalParticleID := mc_globalParticleID s + 1, mc_currTrack := c\<rparr>) \<and>
    pt_g4Parent c = tk_parent t \<and> pt_parents c = {} \<and> pt_daughters c = {} \<and> harmless (pt_reason c)"
proof -
  let ?r = "if cf_above_cut cf (tk_energy t) then G4PARTICLE_ABOVE_ENERGY_THRESHOLD else 0"
  let ?c0 = "start_simulated cf (mc_currTrack s) (mc_globalParticleID s) ?r t"
  have k: "same_kin (?c0\<lparr>pt_g4Parent := tk_parent t\<rparr>) (start_track cf t ?c0)" by (rule start_track_kin [OF assms(1)])
  have r: "harmless ?r" using harmless_bits by simp
  have "s\<lparr>mc_currTrack := c, mc_globalParticleID := i\<rparr> = s\<lparr>mc_globalParticleID := i, mc_currTrack := c\<rparr>" for c i
    by (rule MCState.equality) simp_all
  moreover have "pt_reason ?c0 = ?r" "pt_parents ?c0 = {}" "pt_daughters ?c0 = {}" by (simp_all add: start_simulated_def)
  ultimately show ?thesis using k r assms(2,3)
    by (intro exI [of _ "start_track cf t ?c0"]) (simp add: track_begin_def Let_def same_kin_def harmless_def)
qed

lemma begin_generated:
  assumes "cf_userHandlers cf = []" and "\<not> mc_haveSuspended s" and "tk_primary t = Some g" and "mc_primaryMap s = Some m" and "m g = Some a"
    and "a \<noteq> 0" and "mc_heap s a = Some p"
  shows "\<exists>c q. track_begin cf s t = Inr (s\<lparr>mc_heap := (mc_heap s)(a \<mapsto> q), mc_particleMap := map_assign (tk_id t) a (mc_particleMap s), mc_currTrack := c\<rparr>) \<and>
    pt_g4Parent c = tk_parent t \<and> pt_id c = pt_id p \<and> pt_parents c = pt_parents p \<and> pt_daughters c = pt_daughters p \<and>
    is_primary c \<and> bit (pt_reason c) 11 = bit (pt_reason p) 11"
proof -
  let ?r = "(if cf_above_cut cf (tk_energy t) then G4PARTICLE_ABOVE_ENERGY_THRESHOLD else 0) OR (G4PARTICLE_PRIMARY OR G4PARTICLE_ABOVE_ENERGY_THRESHOLD)"
  let ?q = "p\<lparr>pt_ref := pt_ref p + 1\<rparr>"
  let ?c0 = "start_generated (mc_currTrack s) ?q ?r t"
  have k: "same_kin (?c0\<lparr>pt_g4Parent := tk_parent t\<rparr>) (start_track cf t ?c0)" by (rule start_track_kin [OF assms(1)])
  have c0: "pt_reason ?c0 = pt_reason p OR ?r" "pt_id ?c0 = pt_id p" "pt_parents ?c0 = pt_parents p" "pt_daughters ?c0 = pt_daughters p"
    by (simp_all add: start_generated_def)
  have "bit ?r 2" "\<not> bit ?r 11" by (auto simp: particle_bits bit_simps)
  then have "bit (pt_reason ?c0) 2" "bit (pt_reason ?c0) 11 = bit (pt_reason p) 11" unfolding c0(1) by (auto simp: bit_or_iff)
  moreover have "track_begin cf s t = Inr (s\<lparr>mc_heap := (mc_heap s)(a \<mapsto> ?q), mc_particleMap := map_assign (tk_id t) a (mc_particleMap s),
      mc_currTrack := start_track cf t ?c0\<rparr>)"
    using assms(2-7) by (simp add: track_begin_def Let_def particle_addRef_def particle_modify_def particle_get_def particle_put_def)
  ultimately show ?thesis using k c0(2-4)
    by (intro exI [of _ "start_track cf t ?c0"] exI [of _ ?q]) (simp add: same_kin_def primary_bit)
qed

lemma not_killed: "\<lbrakk>pt_reason p \<noteq> 0; \<not> bit (pt_reason p) 11\<rbrakk> \<Longrightarrow> \<not> killed p"
  by (simp add: killed_def force_kill_bit)

lemma follow_simulated:
  assumes "tracking_ok s" and "admissible s t calls t'" and "cf_userHandlers cf = []" and "tk_primary t = None"
  shows "\<exists>s'. follow_track cf s t calls t' = Inr s' \<and> tracking_ok s' \<and> ev_particleMap s' = ev_particleMap s"
proof -
  note tok = assms(1) [unfolded tracking_ok_def]
  have ad: "tk_id t' = tk_id t" "\<not> tk_suspended t'" "map_of (mc_equivalentTracks s) (tk_id t) = None"
    "\<forall>(u, c) \<in> set calls. case c of MarkedFor r \<Rightarrow> r \<noteq> 0 \<and> harmless r | _ \<Rightarrow> True"
    "0 < tk_parent t" "tk_parent t < tk_id t" "tk_parent t \<in> fst ` set (mc_equivalentTracks s)"
    using assms(2,4) by (auto simp: admissible_def)
  have ok: "event_ok s" "stored_ok s" "chains_down s" "generator_ok s" using tok by (auto simp: event_ok_def)
  have new: "map_of (mc_particleMap s) (tk_id t) = None" using ok(3) ad(3) unfolding chains_down_def by blast
  obtain c1 where c1: "track_begin cf s t = Inr (s\<lparr>mc_globalParticleID := mc_globalParticleID s + 1, mc_currTrack := c1\<rparr>)"
    "pt_g4Parent c1 = tk_parent t" "pt_parents c1 = {}" "pt_daughters c1 = {}" "harmless (pt_reason c1)"
    using begin_simulated [OF assms(3) _ assms(4)] tok by blast
  let ?g = "mc_globalParticleID s + 1"
  obtain c2 where c2: "foldE (do_call cf) (s\<lparr>mc_globalParticleID := ?g, mc_currTrack := c1\<rparr>) calls =
      Inr (s\<lparr>mc_globalParticleID := ?g, mc_currTrack := c2\<rparr>)" "same_kin c1 c2"
    using calls_keep [OF assms(3) ad(4), of "s\<lparr>mc_globalParticleID := ?g, mc_currTrack := c1\<rparr>"] by auto
  obtain c b where c: "same_kin c2 c" "track_end cf (s\<lparr>mc_globalParticleID := ?g, mc_currTrack := c2\<rparr>) t' =
    (if pt_reason c \<noteq> 0 \<or> tk_information t' \<noteq> None \<or> b
     then store_track cf (s\<lparr>mc_globalParticleID := ?g, mc_currTrack := c\<rparr>) t' b
     else forget_track (s\<lparr>mc_globalParticleID := ?g, mc_currTrack := c\<rparr>) t' 0)"
    using track_end_current [OF assms(3) ad(2), of c2 "s\<lparr>mc_globalParticleID := ?g\<rparr>"] by blast
  let ?s = "s\<lparr>mc_globalParticleID := ?g, mc_currTrack := c\<rparr>"
  have kin: "same_kin c1 c" by (rule same_kin_trans [OF c2(2) c(1)])
  have run: "follow_track cf s t calls t' = (if pt_reason c \<noteq> 0 \<or> tk_information t' \<noteq> None \<or> b
     then store_track cf ?s t' b else forget_track ?s t' 0)"
    by (simp add: follow_track_def c1(1) c2(1) c(2))
  show ?thesis
  proof (cases "pt_reason c \<noteq> 0 \<or> tk_information t' \<noteq> None \<or> b")
    case True
    have "case map_of (mc_particleMap ?s) (tk_id t') of Some a \<Rightarrow> a \<noteq> 0 \<and> mc_heap ?s a \<noteq> None | None \<Rightarrow> 0 < mc_next ?s"
      using new tok by (simp add: ad(1))
    moreover have "pt_reason (mc_currTrack ?s) \<noteq> 0 \<or> tk_information t' \<noteq> None \<or> b" using True by simp
    ultimately obtain c3 q n h m where st: "store_track cf ?s t' b = Inr (?s\<lparr>mc_next := n, mc_heap := h, mc_particleMap := m,
      mc_currTrack := c3, mc_equivalentTracks := map_assign (tk_id t) (tk_id t) (mc_equivalentTracks s)\<rparr>)"
      "same_kin c q" "pt_reason q \<noteq> 0" "n = Suc (mc_next s)" "h = (mc_heap s)(mc_next s \<mapsto> q)"
      "m = map_assign (tk_id t) (mc_next s) (mc_particleMap s)"
      using store_track_effect [of ?s t' b cf] new by (auto simp: ad(1))
    let ?t = "?s\<lparr>mc_next := n, mc_heap := h, mc_particleMap := m, mc_currTrack := c3,
      mc_equivalentTracks := map_assign (tk_id t) (tk_id t) (mc_equivalentTracks s)\<rparr>"
    have q: "same_kin c1 q" by (rule same_kin_trans [OF kin st(2)])
    then have qf: "pt_g4Parent q = tk_parent t" "pt_parents q = {}" "pt_daughters q = {}" "\<not> is_primary q" "\<not> bit (pt_reason q) 11"
      using c1 by (simp_all add: same_kin_def harmless_def primary_bit)
    have free: "mc_heap s (mc_next s) = None" "mc_next s \<noteq> 0" using tok by auto
    have fresh: "mc_next s \<notin> snd ` set (mc_particleMap s)" "mc_next s \<notin> snd ` set (ev_particles s)"
      using ok(2,4) free(1) unfolding stored_ok_def generator_ok_def by fastforce+
    have "event_ok ?t"
      by (rule event_ok_stored [OF ok(1) new free(2) fresh(1), where q = q])
        (use st(5,6) qf ad fresh(2) not_killed [OF st(3)] in auto)
    moreover have "\<forall>a. mc_next ?t \<le> a \<longrightarrow> mc_heap ?t a = None" using tok st(4,5) by simp
    moreover have "\<forall>a \<in> snd ` set (ev_particles ?t). \<forall>p. mc_heap ?t a = Some p \<longrightarrow> \<not> bit (pt_reason p) 11" using tok qf(5) st(5) by auto
    ultimately have "tracking_ok ?t" using tok st(4) by (simp add: tracking_ok_def)
    then show ?thesis using run True st(1) by auto
  next
    case False
    let ?t = "?s\<lparr>mc_equivalentTracks := map_assign (tk_id t) (tk_parent t) (mc_equivalentTracks s)\<rparr>"
    have par: "pt_g4Parent c = tk_parent t" using kin c1(2) by (simp add: same_kin_def)
    have ev: "event_ok ?t" by (rule event_ok_forgotten [OF ok(1) new ad(6,7)]) simp_all
    then have "chains_down ?t" unfolding event_ok_def by blast
    then have "chains_end ?t" by (rule chains_down_end)
    then obtain k a where l: "last_stored (mc_particleMap ?t) (mc_equivalentTracks ?t) (tk_parent t) = Some (Some (k, a))"
      using ad(7) unfolding chains_end_def by (fastforce simp: keys_assign)
    have ka: "(k, a) \<in> set (mc_particleMap s)" using map_of_SomeD [OF last_stored_mem [OF l]] by simp
    then obtain p where p: "mc_heap s a = Some p" "a \<noteq> 0" using ok(2) unfolding stored_ok_def by blast
    have "forget_track ?s t' 0 = Inr ?t" using l p
      by (simp add: forget_track_def Let_def par ad(1) particle_modify_def particle_get_def particle_put_def or_reason_def fun_upd_idem)
    moreover have "tracking_ok ?t" using tok ev by (simp add: tracking_ok_def)
    ultimately show ?thesis using run False by auto
  qed
qed

lemma follow_generated:
  assumes "tracking_ok s" and "admissible s t calls t'" and "cf_userHandlers cf = []" and "tk_primary t = Some g"
  shows "\<exists>s'. follow_track cf s t calls t' = Inr s' \<and> tracking_ok s' \<and> ev_particleMap s' = ev_particleMap s"
proof -
  note tok = assms(1) [unfolded tracking_ok_def]
  have "\<exists>m a. mc_primaryMap s = Some m \<and> m g = Some a \<and> a \<in> snd ` set (ev_particles s) \<and> a \<notin> snd ` set (mc_particleMap s)"
    using assms(2,4) by (simp add: admissible_def)
  then obtain m a where a: "mc_primaryMap s = Some m" "m g = Some a" "a \<in> snd ` set (ev_particles s)" "a \<notin> snd ` set (mc_particleMap s)"
    by blast
  have "tk_id t' = tk_id t" "\<not> tk_suspended t'" "0 < tk_id t" "map_of (mc_equivalentTracks s) (tk_id t) = None"
    "\<forall>(u, c) \<in> set calls. case c of MarkedFor r \<Rightarrow> r \<noteq> 0 \<and> harmless r | _ \<Rightarrow> True" "tk_parent t < tk_id t"
    using assms(2,4) by (auto simp: admissible_def)
  note ad = this a
  have ok: "event_ok s" "stored_ok s" "chains_down s" "generator_ok s" using tok by (auto simp: event_ok_def)
  have new: "map_of (mc_particleMap s) (tk_id t) = None" using ok(3) ad(4) unfolding chains_down_def by blast
  obtain p where p: "a \<noteq> 0" "mc_heap s a = Some p" using ad(9) ok(4) unfolding generator_ok_def by fastforce
  have np: "\<not> bit (pt_reason p) 11" using tok ad(9) p(2) by blast
  obtain c1 q1 where c1: "track_begin cf s t = Inr (s\<lparr>mc_heap := (mc_heap s)(a \<mapsto> q1), mc_particleMap := map_assign (tk_id t) a (mc_particleMap s), mc_currTrack := c1\<rparr>)"
    "pt_g4Parent c1 = tk_parent t" "pt_id c1 = pt_id p" "pt_parents c1 = pt_parents p" "pt_daughters c1 = pt_daughters p"
    "is_primary c1" "bit (pt_reason c1) 11 = bit (pt_reason p) 11"
    using begin_generated [OF assms(3) _ assms(4) ad(7,8) p] tok by blast
  let ?s1 = "s\<lparr>mc_heap := (mc_heap s)(a \<mapsto> q1), mc_particleMap := map_assign (tk_id t) a (mc_particleMap s)\<rparr>"
  obtain c2 where c2: "foldE (do_call cf) (?s1\<lparr>mc_currTrack := c1\<rparr>) calls = Inr (?s1\<lparr>mc_currTrack := c2\<rparr>)" "same_kin c1 c2"
    using calls_keep [OF assms(3) ad(5), of "?s1\<lparr>mc_currTrack := c1\<rparr>"] by auto
  obtain c b where c: "same_kin c2 c" "track_end cf (?s1\<lparr>mc_currTrack := c2\<rparr>) t' =
    (if pt_reason c \<noteq> 0 \<or> tk_information t' \<noteq> None \<or> b then store_track cf (?s1\<lparr>mc_currTrack := c\<rparr>) t' b
     else forget_track (?s1\<lparr>mc_currTrack := c\<rparr>) t' 0)"
    using track_end_current [OF assms(3) ad(2), of c2 ?s1] by blast
  have kin: "same_kin c1 c" by (rule same_kin_trans [OF c2(2) c(1)])
  then have "bit (pt_reason c) 2" using c1(6) by (simp add: same_kin_def primary_bit)
  then have nz: "pt_reason c \<noteq> 0" by auto
  then have run: "follow_track cf s t calls t' = store_track cf (?s1\<lparr>mc_currTrack := c\<rparr>) t' b"
    by (simp add: follow_track_def c1(1) c2(1) c(2))
  have "case map_of (mc_particleMap (?s1\<lparr>mc_currTrack := c\<rparr>)) (tk_id t') of
      Some a \<Rightarrow> a \<noteq> 0 \<and> mc_heap (?s1\<lparr>mc_currTrack := c\<rparr>) a \<noteq> None | None \<Rightarrow> 0 < mc_next (?s1\<lparr>mc_currTrack := c\<rparr>)"
    using p by (simp add: ad(1))
  moreover have "pt_reason (mc_currTrack (?s1\<lparr>mc_currTrack := c\<rparr>)) \<noteq> 0 \<or> tk_information t' \<noteq> None \<or> b" using nz by simp
  ultimately obtain c3 q n h m where st: "store_track cf (?s1\<lparr>mc_currTrack := c\<rparr>) t' b = Inr ((?s1\<lparr>mc_currTrack := c\<rparr>)\<lparr>mc_next := n, mc_heap := h, mc_particleMap := m,
      mc_currTrack := c3, mc_equivalentTracks := map_assign (tk_id t) (tk_id t) (mc_equivalentTracks s)\<rparr>)"
    "same_kin c q" "pt_reason q \<noteq> 0" "n = mc_next s" "h = ((mc_heap s)(a \<mapsto> q1))(a \<mapsto> q)" "m = map_assign (tk_id t) a (mc_particleMap s)"
    using store_track_effect [of "?s1\<lparr>mc_currTrack := c\<rparr>" t' b cf] by (auto simp: ad(1))
  let ?t = "(?s1\<lparr>mc_currTrack := c\<rparr>)\<lparr>mc_next := n, mc_heap := h, mc_particleMap := m,
      mc_currTrack := c3, mc_equivalentTracks := map_assign (tk_id t) (tk_id t) (mc_equivalentTracks s)\<rparr>"
  have h: "h = (mc_heap s)(a \<mapsto> q)" using st(5) by simp
  have "same_kin c1 q" by (rule same_kin_trans [OF kin st(2)])
  then have qf: "pt_g4Parent q < tk_id t" "pt_id q = pt_id p" "pt_parents q = pt_parents p" "pt_daughters q = pt_daughters p" "is_primary q"
    "\<not> bit (pt_reason q) 11"
    using c1 ad(6) np by (simp_all add: same_kin_def primary_bit)
  have "event_ok ?t"
    by (rule event_ok_stored [OF ok(1) new p(1) ad(10), where q = q])
      (use h st(6) qf ad p(2) not_killed [OF st(3) qf(6)] in auto)
  moreover have "\<forall>x. mc_next ?t \<le> x \<longrightarrow> mc_heap ?t x = None" using tok st(4) h p(2) by auto
  moreover have "\<forall>x \<in> snd ` set (ev_particles ?t). \<forall>p. mc_heap ?t x = Some p \<longrightarrow> \<not> bit (pt_reason p) 11" using tok qf(6) h by auto
  ultimately have "tracking_ok ?t" using tok st(4) by (simp add: tracking_ok_def)
  then show ?thesis using run st(1) by auto
qed

text \<open>The states of an event while its tracks are followed.\<close>

inductive tracked :: "'d Settings \<Rightarrow> 'd MCState \<Rightarrow> 'd MCState \<Rightarrow> bool" for cf s0 where
  tracked_begin: "tracked cf s0 (event_begin s0)"
| tracked_next: "\<lbrakk>tracked cf s0 s; admissible s t calls t'; follow_track cf s t calls t' = Inr s'\<rbrakk> \<Longrightarrow> tracked cf s0 s'"

inductive_cases tracked_elim: "tracked cf s0 s"

text \<open>
  The input of an event: the generator's particles under their own numbers, each of them a primary one or of a generator
  status, with relations among themselves, and none marked to be killed.
\<close>

definition generated :: "'d MCState \<Rightarrow> bool" where
  "generated s \<longleftrightarrow> map_ok (ev_particles s) \<and> \<not> mc_haveSuspended s \<and> 0 < mc_next s \<and> (\<forall>a. mc_next s \<le> a \<longrightarrow> mc_heap s a = None) \<and>
     (\<forall>(k, a) \<in> set (ev_particles s). a \<noteq> 0 \<and> 0 \<le> k \<and> (\<exists>p. mc_heap s a = Some p \<and> pt_id p = k \<and>
        (is_primary p \<or> anySet (pt_status p) G4PARTICLE_GEN_STATUS) \<and> pt_parents p \<union> pt_daughters p \<subseteq> fst ` set (ev_particles s) \<and>
        \<not> isSet (pt_reason p) G4PARTICLE_FORCE_KILL))"

lemma begin_tracking:
  assumes "generated s"
  shows "tracking_ok (event_begin s)"
proof -
  let ?b = "event_begin s"
  have b: "mc_heap ?b = mc_heap s" "mc_particleMap ?b = []" "mc_equivalentTracks ?b = []" "ev_particles ?b = ev_particles s"
    "mc_next ?b = mc_next s" "mc_haveSuspended ?b = mc_haveSuspended s" by (simp_all add: event_begin_def)
  have g: "a \<noteq> 0 \<and> 0 \<le> k \<and> (\<exists>p. mc_heap s a = Some p \<and> pt_id p = k \<and>
        (is_primary p \<or> anySet (pt_status p) G4PARTICLE_GEN_STATUS) \<and> pt_parents p \<union> pt_daughters p \<subseteq> fst ` set (ev_particles s) \<and>
        \<not> bit (pt_reason p) 11)" if "(k, a) \<in> set (ev_particles s)" for k a
    using bspec [OF assms [unfolded generated_def force_kill_bit, THEN conjunct2, THEN conjunct2, THEN conjunct2, THEN conjunct2] that] by simp
  have V: "pview ?b = Map.empty" by (rule ext) (simp add: pview_def b)
  have "stored_ok ?b" "chains_down ?b" by (simp_all add: stored_ok_def chains_down_def b)
  moreover have "parents_first (pview ?b)" "no_kill (pview ?b)" by (simp_all add: V parents_first_def no_kill_def)
  moreover have "generator_ok ?b"
    unfolding generator_ok_def b
  proof (intro conjI)
    show "map_ok (ev_particles s)" using assms by (simp add: generated_def)
    show "\<forall>(k, a) \<in> set (ev_particles s). a \<noteq> 0 \<and> 0 \<le> k \<and> (\<exists>p. mc_heap s a = Some p \<and> pt_id p = k)" using g by blast
  qed simp
  moreover have "relations_ok ?b"
  proof -
    have "(is_primary p \<or> anySet (pt_status p) G4PARTICLE_GEN_STATUS) \<and> pt_parents p \<union> pt_daughters p \<subseteq> fst ` set (ev_particles s)"
      if a: "a \<in> snd ` set (ev_particles s)" "mc_heap s a = Some p" for a p
    proof -
      obtain k where "(k, a) \<in> set (ev_particles s)" using a(1) by auto
      from g [OF this] show ?thesis using a(2) by auto
    qed
    then show ?thesis unfolding relations_ok_def b by simp
  qed
  ultimately have "event_ok ?b" by (simp add: event_ok_def)
  moreover have "\<forall>a \<in> snd ` set (ev_particles s). \<forall>p. mc_heap s a = Some p \<longrightarrow> \<not> bit (pt_reason p) 11" using g by fastforce
  ultimately show ?thesis using assms by (simp add: tracking_ok_def b generated_def)
qed

lemma follow_keeps:
  assumes "tracking_ok s" and "admissible s t calls t'" and "cf_userHandlers cf = []"
  shows "\<exists>s'. follow_track cf s t calls t' = Inr s' \<and> tracking_ok s' \<and> ev_particleMap s' = ev_particleMap s"
proof (cases "tk_primary t")
  case None
  then show ?thesis using follow_simulated [OF assms] by blast
next
  case (Some g)
  then show ?thesis using follow_generated [OF assms] by blast
qed

lemma tracked_ok:
  assumes "tracked cf s0 s" and "cf_userHandlers cf = []" and "generated s0"
  shows "tracking_ok s \<and> ev_particleMap s = ev_particleMap s0"
  using assms(1)
proof induction
  case tracked_begin
  then show ?case using begin_tracking [OF assms(3)] by (simp add: event_begin_def)
next
  case (tracked_next s t calls t' s')
  then show ?case using follow_keeps [of s t calls t' cf] assms(2) by auto
qed

text \<open>C31. An event completes: without user handlers and suspended tracks, with all particles known to Geant4 and from a
  consistent input of the generator, every track that Geant4 may present next (a particle of the generator or one of its decay products assigned beforehand, each followed once, or
  a secondary of a track followed before) can be followed, and at any time the event can end, without an error of the consistency check. The record then
  holds every particle under its number, the generator's under theirs, every track that was followed is mapped to a particle of the record,
  a protected one to itself, and the handler is empty for the next event.\<close>

theorem event_completes:
  assumes "tracked cf s0 s" and "cf_userHandlers cf = []" and "\<forall>p. cf_definition cf p" and "generated s0" and "ev_particleMap s0 = []"
  shows "(\<forall>t calls t'. admissible s t calls t' \<longrightarrow> is_ok (follow_track cf s t calls t')) \<and>
    (\<exists>r. event_end cf s = Inr r \<and> mc_particleMap r = [] \<and> mc_equivalentTracks r = [] \<and>
      (\<forall>k a. map_of (ev_particleMap r) k = Some a \<longrightarrow> map_option pt_id (mc_heap r a) = Some k) \<and>
      (\<forall>k a. map_of (ev_particles s) k = Some a \<longrightarrow> map_of (ev_particleMap r) k = Some a) \<and>
      (\<forall>g \<in> fst ` set (mc_equivalentTracks s). map_of (ev_particleMap r) (particleID r g) \<noteq> None) \<and>
      (\<forall>k a p. map_of (mc_particleMap s) k = Some a \<longrightarrow> mc_heap s a = Some p \<longrightarrow> protected p \<longrightarrow>
         map_of (ev_particleMap r) (particleID r k) = Some a))"
proof
  have tok: "tracking_ok s" "ev_particleMap s = []" using tracked_ok [OF assms(1,2,4)] assms(5) by simp_all
  show "\<forall>t calls t'. admissible s t calls t' \<longrightarrow> is_ok (follow_track cf s t calls t')"
    using follow_keeps [OF tok(1) _ assms(2)] by (fastforce simp: is_ok_iff)
  show "\<exists>r. event_end cf s = Inr r \<and> mc_particleMap r = [] \<and> mc_equivalentTracks r = [] \<and>
      (\<forall>k a. map_of (ev_particleMap r) k = Some a \<longrightarrow> map_option pt_id (mc_heap r a) = Some k) \<and>
      (\<forall>k a. map_of (ev_particles s) k = Some a \<longrightarrow> map_of (ev_particleMap r) k = Some a) \<and>
      (\<forall>g \<in> fst ` set (mc_equivalentTracks s). map_of (ev_particleMap r) (particleID r g) \<noteq> None) \<and>
      (\<forall>k a p. map_of (mc_particleMap s) k = Some a \<longrightarrow> mc_heap s a = Some p \<longrightarrow> protected p \<longrightarrow>
         map_of (ev_particleMap r) (particleID r k) = Some a)"
    by (rule ended_event [OF _ assms(2,3) tok(2)]) (use tok(1) in \<open>simp add: tracking_ok_def\<close>)
qed

text \<open>A generator particle with a decay product assigned to it, and their two tracks.\<close>

definition sample_event :: "nat MCState" where
  "sample_event = (sample_record 0)\<lparr>mc_next := 4, mc_heap := [1 \<mapsto> sample_stored 0 0 G4PARTICLE_PRIMARY, 3 \<mapsto> sample_stored 1 0 G4PARTICLE_PRIMARY],
     mc_particleMap := [], mc_equivalentTracks := [], ev_particles := [(0, 1), (1, 3)], ev_nextPID := 2, ev_primaryMap := [0 \<mapsto> 1, 1 \<mapsto> 3]\<rparr>"

definition sample_primary :: "nat Track" where
  "sample_primary = (sample_track 1 None)\<lparr>tk_parent := 0, tk_primary := Some 0\<rparr>"

definition sample_daughter :: "nat Track" where
  "sample_daughter = (sample_track 2 None)\<lparr>tk_parent := 1, tk_primary := Some 1\<rparr>"

lemma sample_generated: "generated sample_event"
  by (auto simp: generated_def sample_event_def sample_record_def sample_stored_def map_ok_def is_primary_isSet Particle_new_def Let_def
      isSet_def particle_bits)

lemma sample_tracked:
  "\<exists>s. follow_track sample_settings (event_begin sample_event) sample_primary [(sample_primary, Marked)] sample_primary = Inr s \<and>
    tracked sample_settings sample_event s \<and> admissible s sample_daughter [] sample_daughter"
proof -
  have ad: "admissible (event_begin sample_event) sample_primary [(sample_primary, Marked)] sample_primary"
    by (simp add: admissible_def event_begin_def sample_event_def sample_record_def sample_primary_def sample_track_def)
  obtain s where s: "follow_track sample_settings (event_begin sample_event) sample_primary [(sample_primary, Marked)] sample_primary = Inr s"
    "mc_equivalentTracks s = [(1, 1)]" "mc_particleMap s = [(1, 1)]" "mc_primaryMap s = Some [0 \<mapsto> 1, 1 \<mapsto> 3]"
    "ev_particles s = [(0, 1), (1, 3)]"
    by (simp add: follow_track_def do_call_def event_begin_def sample_event_def sample_record_def sample_primary_def sample_track_def
      sample_settings_def track_begin_def start_generated_def start_track_def mark_track_def track_end_def store_track_def Let_def
      particle_addRef_def particle_modify_def particle_get_def particle_put_def get_data_def or_reason_def or_status_def isSet_def
      particle_bits sample_stored_def Particle_new_def)
  have "tracked sample_settings sample_event s" by (rule tracked_next [OF tracked_begin ad s(1)])
  moreover have "admissible s sample_daughter [] sample_daughter"
    by (simp add: admissible_def s sample_daughter_def sample_track_def)
  ultimately show ?thesis using s(1) by blast
qed

theorem event_completes_witness:
  "\<exists>s s' r. follow_track sample_settings (event_begin sample_event) sample_primary [(sample_primary, Marked)] sample_primary = Inr s \<and>
    follow_track sample_settings s sample_daughter [] sample_daughter = Inr s' \<and>
    event_end sample_settings s' = Inr r \<and> mc_particleMap r = []"
proof -
  have d: "\<forall>p. cf_definition sample_settings p" "ev_particleMap sample_event = []"
    by (simp_all add: sample_settings_def sample_event_def sample_record_def)
  obtain s where s: "follow_track sample_settings (event_begin sample_event) sample_primary [(sample_primary, Marked)] sample_primary = Inr s"
    "tracked sample_settings sample_event s" "admissible s sample_daughter [] sample_daughter" using sample_tracked by blast
  have "is_ok (follow_track sample_settings s sample_daughter [] sample_daughter)"
    by (rule event_completes [OF s(2) sample_settings_handlers d(1) sample_generated d(2), THEN conjunct1, rule_format, OF s(3)])
  then obtain s' where s': "follow_track sample_settings s sample_daughter [] sample_daughter = Inr s'" by (auto simp: is_ok_iff)
  have "tracked sample_settings sample_event s'" by (rule tracked_next [OF s(2,3) s'])
  from event_completes [OF this sample_settings_handlers d(1) sample_generated d(2), THEN conjunct2]
  obtain r where "event_end sample_settings s' = Inr r" "mc_particleMap r = []" by (elim exE conjE) (rule that)
  then show ?thesis using s(1) s' by blast
qed

end
