(* ===== verification/PrimaryVertices.thy ===== *)
theory PrimaryVertices
  imports PrimaryGeneration InteractionMerging ParticleEvents
begin

text \<open>
  The generation of all primary vertices: particles are given to Geant4 while reasons are marked in the record, which has no
  influence on the search.
\<close>

unbundle bit_operations_syntax

section \<open>Marks do not matter\<close>

definition unmarked :: "'d Particle \<Rightarrow> 'd Particle" where
  "unmarked p = p\<lparr>pt_reason := 0, pt_ref := 0\<rparr>"

definition bare :: "(int \<Rightarrow> 'd Particle option) \<Rightarrow> int \<Rightarrow> 'd Particle option" where
  "bare V = (\<lambda>k. map_option unmarked (V k))"

lemma unmarked_fields [simp]:
  "pt_status (unmarked p) = pt_status p" "pt_daughters (unmarked p) = pt_daughters p" "pt_parents (unmarked p) = pt_parents p"
  "pt_id (unmarked p) = pt_id p" "pt_pdgID (unmarked p) = pt_pdgID p" "pt_charge (unmarked p) = pt_charge p"
  "decays_followed (unmarked p) = decays_followed p" "reject_stable cf (unmarked p) = reject_stable cf p"
  "reject_decayed cf (unmarked p) d = reject_decayed cf p d" "reject_decayed cf p (unmarked d) = reject_decayed cf p d"
  "stable_definition cf (unmarked p) = stable_definition cf p" "has_definition cf (unmarked p) = has_definition cf p"
  "proper_time cf (unmarked p) d = proper_time cf p d" "proper_time cf p (unmarked d) = proper_time cf p d"
  by (simp_all add: unmarked_def decays_followed_def reject_stable_def reject_decayed_def stable_definition_def has_definition_def
      proper_time_def isProperTimeZero_def)

lemma createG4Primary_unmarked [simp]: "createG4Primary cf (unmarked p) = createG4Primary cf p"
proof -
  have "pt_ps (unmarked p) = pt_ps p" "pt_mass (unmarked p) = pt_mass p" "pt_spin (unmarked p) = pt_spin p" by (simp_all add: unmarked_def)
  then show ?thesis unfolding createG4Primary_def unmarked_fields by (simp only:)
qed

lemma ex_bare: "(\<exists>q. bare V k = Some q \<and> P q) = (\<exists>p. V k = Some p \<and> P (unmarked p))"
  by (auto simp: bare_def)

lemma first_daughter_bare:
  "reject_decayed cf q (first_daughter (bare V) (unmarked p)) = reject_decayed cf q (first_daughter V p)"
  "proper_time cf q (first_daughter (bare V) (unmarked p)) = proper_time cf q (first_daughter V p)"
  by (cases "V (Min (pt_daughters p))"; simp add: first_daughter_def bare_def)+

lemma relevant_bare [simp]: "relevant cf (bare V) (unmarked p) = relevant cf V p"
  by (simp add: relevant_def first_daughter_bare)

lemma primary_bare [simp]: "primary_of cf (bare V) (unmarked p) q = primary_of cf V p q"
  by (simp add: primary_of_def first_daughter_bare)

lemma inconsistent_bare [simp]: "inconsistent cf (bare V) (unmarked p) = inconsistent cf V p"
  by (simp add: inconsistent_def)

lemma follows_bare [simp]: "follows (bare V) = follows V"
  by (simp add: follows_def ex_bare)

lemma through_bare [simp]: "through cf (bare V) = through cf V"
  by (simp add: through_def ex_bare)

lemma entered_bare [simp]: "entered (bare V) cf g k x = entered V cf g k x"
proof -
  have "entered W cf g k x \<longleftrightarrow> (\<exists>p. W k = Some p \<and> (\<exists>q. relevant cf W p \<and> ps_g4 g x = Some q \<and> primary_of cf W p q \<and>
     (\<forall>y \<in> set (gp_daughters q). decays_followed p \<and> (\<exists>k'. map_of (ps_prim g) k' = Some y \<and> k' \<in> (through cf W)\<^sup>* `` pt_daughters p))))" for W
    by (auto simp: entered_def)
  then show ?thesis by (simp add: ex_bare)
qed

lemma searched_bare: "searched cf (bare V) D g g' = searched cf V D g g'"
  unfolding searched_def by (simp add: ex_bare)

lemma some_inconsistent_bare: "(\<exists>k p. bare V k = Some p \<and> inconsistent cf (bare V) p) = (\<exists>k p. V k = Some p \<and> inconsistent cf V p)"
  by (simp add: ex_bare)

text \<open>A record in which only reasons (those of primaries and of secondaries) and references have changed.\<close>

definition marked :: "'d Particle \<Rightarrow> 'd Particle \<Rightarrow> bool" where
  "marked p q \<longleftrightarrow> unmarked q = unmarked p \<and> (\<forall>n. n \<noteq> 2 \<longrightarrow> n \<noteq> 3 \<longrightarrow> bit (pt_reason q) n = bit (pt_reason p) n) \<and> (bit (pt_reason p) 2 \<longrightarrow> bit (pt_reason q) 2)"

definition remarked :: "'d MCState \<Rightarrow> 'd MCState \<Rightarrow> bool" where
  "remarked m m' \<longleftrightarrow> (\<forall>a. rel_option marked (mc_heap m a) (mc_heap m' a)) \<and> ev_particles m' = ev_particles m"

lemma marked_refl: "marked p p"
  by (simp add: marked_def)

lemma marked_trans: "marked p q \<Longrightarrow> marked q r \<Longrightarrow> marked p r"
  by (simp add: marked_def)

lemma remarked_refl: "remarked m m"
  by (auto simp: remarked_def option.rel_refl marked_refl)

lemma remarked_trans: "remarked a b \<Longrightarrow> remarked b c \<Longrightarrow> remarked a c"
proof -
  assume r: "remarked a b" "remarked b c"
  have "rel_option marked (mc_heap a x) (mc_heap c x)" for x
  proof -
    have "rel_option marked (mc_heap a x) (mc_heap b x)" "rel_option marked (mc_heap b x) (mc_heap c x)" using r by (simp_all add: remarked_def)
    then show ?thesis by (auto elim!: option.rel_cases intro: marked_trans)
  qed
  then show ?thesis using r by (simp add: remarked_def)
qed

lemma remarked_Some: "remarked m m' \<Longrightarrow> mc_heap m a = Some p \<Longrightarrow> \<exists>q. mc_heap m' a = Some q \<and> marked p q"
  unfolding remarked_def by (metis option_rel_Some1)

lemma remarked_bare:
  assumes "remarked m m'"
  shows "bare (pv m' pm) = bare (pv m pm)"
proof
  fix k
  have r: "rel_option marked (mc_heap m a) (mc_heap m' a)" for a using assms by (simp add: remarked_def)
  show "bare (pv m' pm) k = bare (pv m pm) k"
  proof (cases "map_of pm k")
    case (Some a)
    then show ?thesis using r [of a] by (cases "mc_heap m a"; cases "mc_heap m' a") (auto simp: bare_def pv_def marked_def)
  qed (simp add: bare_def pv_def)
qed

lemma remarked_same:
  assumes "remarked m m'"
  shows "searched cf (pv m' pm) D g g' = searched cf (pv m pm) D g g'" "through cf (pv m' pm) = through cf (pv m pm)"
    "found cf m' pm D g g' res = found cf m pm D g g' res"
    "(\<exists>k p. pv m' pm k = Some p \<and> inconsistent cf (pv m' pm) p) = (\<exists>k p. pv m pm k = Some p \<and> inconsistent cf (pv m pm) p)"
proof -
  note b = remarked_bare [OF assms, of pm]
  show "searched cf (pv m' pm) D g g' = searched cf (pv m pm) D g g'" using b searched_bare by metis
  show t: "through cf (pv m' pm) = through cf (pv m pm)" using b through_bare by metis
  show "found cf m' pm D g g' res = found cf m pm D g g' res" by (simp add: found_def t)
  show "(\<exists>k p. pv m' pm k = Some p \<and> inconsistent cf (pv m' pm) p) = (\<exists>k p. pv m pm k = Some p \<and> inconsistent cf (pv m pm) p)"
    using b some_inconsistent_bare [of "pv m pm" cf] some_inconsistent_bare [of "pv m' pm" cf] by simp
qed

lemma remarked_outcome:
  assumes "remarked m m'"
  shows "outcome cf m' pm D g r = outcome cf m pm D g r"
  by (cases r) (simp_all add: outcome_def remarked_same [OF assms] split: prod.split)

lemma remarked_record_ok:
  assumes "remarked m m'" and "record_ok cf m pm"
  shows "record_ok cf m' pm"
proof -
  have "a \<noteq> 0 \<and> (\<exists>p. mc_heap m' a = Some p \<and> pt_id p = k \<and> pt_daughters p \<subseteq> fst ` set pm \<and> (pt_pdgID p < 1000000000 \<or> has_definition cf p))"
    if ka: "(k, a) \<in> set pm" for k a
  proof -
    obtain p where p: "a \<noteq> 0" "mc_heap m a = Some p" "pt_id p = k" "pt_daughters p \<subseteq> fst ` set pm" "pt_pdgID p < 1000000000 \<or> has_definition cf p"
      using assms(2) ka by (auto simp: record_ok_def)
    obtain q where q: "mc_heap m' a = Some q" "marked p q" using remarked_Some [OF assms(1) p(2)] by blast
    then have "unmarked q = unmarked p" by (simp add: marked_def)
    then have "pt_id q = pt_id p" "pt_daughters q = pt_daughters p" "pt_pdgID q = pt_pdgID p" "has_definition cf q = has_definition cf p"
      by (metis unmarked_fields)+
    then show ?thesis using p q by simp
  qed
  then show ?thesis using assms(2) unfolding record_ok_def by blast
qed

section \<open>One particle of a vertex\<close>

definition input_rest :: "'d InputState \<Rightarrow> 'd InputState" where
  "input_rest s = s\<lparr>in_mc := (in_mc s)\<lparr>mc_heap := Map.empty\<rparr>, in_g4vertices := []\<rparr>"

definition kept :: "'d InputState \<Rightarrow> 'd InputState \<Rightarrow> bool" where
  "kept s t \<longleftrightarrow> remarked (in_mc s) (in_mc t) \<and> input_rest t = input_rest s"

lemma kept_fields:
  assumes "kept s t"
  shows "ev_particles (in_mc t) = ev_particles (in_mc s)" "in_vertex t = in_vertex s" "in_vertices t = in_vertices s"
    "ev_primaryMap (in_mc t) = ev_primaryMap (in_mc s)" "mc_next (in_mc t) = mc_next (in_mc s)" "mc_haveSuspended (in_mc t) = mc_haveSuspended (in_mc s)"
    "ev_particleMap (in_mc t) = ev_particleMap (in_mc s)" "ev_nextPID (in_mc t) = ev_nextPID (in_mc s)" "in_gnext t = in_gnext s" "in_aborts t = in_aborts s"
proof -
  have r: "input_rest t = input_rest s" using assms by (simp add: kept_def)
  show "ev_particles (in_mc t) = ev_particles (in_mc s)" using arg_cong [OF r, of "\<lambda>s. ev_particles (in_mc s)"] by (simp add: input_rest_def)
  show "in_vertex t = in_vertex s" using arg_cong [OF r, of in_vertex] by (simp add: input_rest_def)
  show "in_vertices t = in_vertices s" using arg_cong [OF r, of in_vertices] by (simp add: input_rest_def)
  show "ev_primaryMap (in_mc t) = ev_primaryMap (in_mc s)" using arg_cong [OF r, of "\<lambda>s. ev_primaryMap (in_mc s)"] by (simp add: input_rest_def)
  show "mc_next (in_mc t) = mc_next (in_mc s)" using arg_cong [OF r, of "\<lambda>s. mc_next (in_mc s)"] by (simp add: input_rest_def)
  show "mc_haveSuspended (in_mc t) = mc_haveSuspended (in_mc s)" using arg_cong [OF r, of "\<lambda>s. mc_haveSuspended (in_mc s)"] by (simp add: input_rest_def)
  show "ev_particleMap (in_mc t) = ev_particleMap (in_mc s)" using arg_cong [OF r, of "\<lambda>s. ev_particleMap (in_mc s)"] by (simp add: input_rest_def)
  show "ev_nextPID (in_mc t) = ev_nextPID (in_mc s)" using arg_cong [OF r, of "\<lambda>s. ev_nextPID (in_mc s)"] by (simp add: input_rest_def)
  show "in_gnext t = in_gnext s" using arg_cong [OF r, of in_gnext] by (simp add: input_rest_def)
  show "in_aborts t = in_aborts s" using arg_cong [OF r, of in_aborts] by (simp add: input_rest_def)
qed

lemma kept_refl: "kept s s"
  by (simp add: kept_def remarked_refl)

lemma kept_trans: "kept s t \<Longrightarrow> kept t u \<Longrightarrow> kept s u"
  by (auto simp: kept_def intro: remarked_trans)

lemma mark_bits: "bit G4PARTICLE_PRIMARY n \<longleftrightarrow> n = 2" "bit G4PARTICLE_HAS_SECONDARIES n \<longleftrightarrow> n = 3"
  unfolding G4PARTICLE_PRIMARY_def G4PARTICLE_HAS_SECONDARIES_def bit_push_bit_iff by (auto simp: bit_1_iff)

lemma marked_reason: "w = G4PARTICLE_PRIMARY \<or> w = G4PARTICLE_HAS_SECONDARIES \<Longrightarrow> marked p (or_reason w p)"
  by (auto simp: marked_def or_reason_def unmarked_def bit_or_iff mark_bits)

lemma modify_kept:
  assumes "a \<noteq> 0" and "mc_heap (in_mc s) a = Some p" and "marked p (f p)"
  shows "\<exists>t. in_particle s (\<lambda>m. particle_modify m a f) = Inr t \<and> kept s t \<and> in_g4vertices t = in_g4vertices s \<and> mc_heap (in_mc t) a = Some (f p)"
proof -
  let ?t = "s\<lparr>in_mc := particle_put (in_mc s) a (f p)\<rparr>"
  have "remarked (in_mc s) (in_mc ?t)"
    using assms(2,3) by (auto simp: remarked_def particle_put_def marked_refl option.rel_refl)
  moreover have "input_rest ?t = input_rest s" by (simp add: input_rest_def particle_put_def)
  ultimately have "kept s ?t" by (simp add: kept_def)
  then show ?thesis using assms(1,2)
    by (intro exI [of _ ?t]) (simp add: in_particle_def particle_modify_def particle_get_def particle_put_def)
qed

definition valid_entries :: "'d InputState \<Rightarrow> (nat \<times> nat) list \<Rightarrow> bool" where
  "valid_entries s rs \<longleftrightarrow> (\<forall>(a, x) \<in> set rs. a \<noteq> 0 \<and> mc_heap (in_mc s) a \<noteq> None)"

lemma kept_valid:
  assumes "kept s t" and "valid_entries s rs"
  shows "valid_entries t rs"
proof -
  have "mc_heap (in_mc t) a \<noteq> None" if "mc_heap (in_mc s) a \<noteq> None" for a
    using that assms(1) remarked_Some unfolding kept_def by fastforce
  then show ?thesis using assms(2) unfolding valid_entries_def by fast
qed

lemma mark_primaries:
  assumes "valid_entries s rs"
  shows "\<exists>t. foldE mark_primary s rs = Inr t \<and> kept s t \<and> in_g4vertices t = in_g4vertices s \<and>
    (\<forall>(a, x) \<in> set rs. \<exists>p. mc_heap (in_mc t) a = Some p \<and> bit (pt_reason p) 2)"
  using assms
proof (induction rs arbitrary: s)
  case Nil
  then show ?case by (simp add: kept_refl)
next
  case (Cons r rs)
  obtain a x where r: "r = (a, x)" by (cases r)
  obtain p where p: "a \<noteq> 0" "mc_heap (in_mc s) a = Some p" using Cons.prems by (auto simp: valid_entries_def r)
  obtain u where u: "in_particle s (\<lambda>m. particle_modify m a (or_reason G4PARTICLE_PRIMARY)) = Inr u" "kept s u" "in_g4vertices u = in_g4vertices s"
    "mc_heap (in_mc u) a = Some (or_reason G4PARTICLE_PRIMARY p)"
    using modify_kept [OF p, of "or_reason G4PARTICLE_PRIMARY"] marked_reason by blast
  have "valid_entries s rs" using Cons.prems by (simp add: valid_entries_def)
  then have "valid_entries u rs" by (rule kept_valid [OF u(2)])
  then obtain t where t: "foldE mark_primary u rs = Inr t" "kept u t" "in_g4vertices t = in_g4vertices u"
    "\<forall>(a, x) \<in> set rs. \<exists>p. mc_heap (in_mc t) a = Some p \<and> bit (pt_reason p) 2" using Cons.IH by blast
  obtain q where q: "mc_heap (in_mc t) a = Some q" "marked (or_reason G4PARTICLE_PRIMARY p) q"
    using t(2) u(4) remarked_Some unfolding kept_def by blast
  moreover have "bit (pt_reason (or_reason G4PARTICLE_PRIMARY p)) 2" by (simp add: or_reason_def bit_or_iff mark_bits)
  ultimately have "bit (pt_reason q) 2" by (simp add: marked_def)
  moreover have "mark_primary s (a, x) = Inr u" using u(1) by (simp add: mark_primary_def)
  ultimately show ?case using u(3) t kept_trans [OF u(2) t(2)] q(1) by (simp add: r)
qed

definition view :: "'d InputState \<Rightarrow> int \<Rightarrow> 'd Particle option" where
  "view s = pv (in_mc s) (ev_particles (in_mc s))"

definition is_root :: "(int \<Rightarrow> 'd Particle option) \<Rightarrow> int \<Rightarrow> bool" where
  "is_root V i \<longleftrightarrow> (\<exists>p. V i = Some p \<and> pt_parents p = {})"

text \<open>Daughters have parents.\<close>

definition related :: "(int \<Rightarrow> 'd Particle option) \<Rightarrow> bool" where
  "related V \<longleftrightarrow> (\<forall>k p d. V k = Some p \<longrightarrow> d \<in> pt_daughters p \<longrightarrow> \<not> is_root V d)"

definition no_search :: "'d InputState \<Rightarrow> 'd PrimaryState" where
  "no_search s = \<lparr>ps_visited = {}, ps_prim = [], ps_next = in_gnext s, ps_g4 = in_g4 s\<rparr>"

text \<open>The state after the roots \<open>D\<close>, with what was given to Geant4 so far.\<close>

definition progress :: "'d InputSettings \<Rightarrow> 'd InputState \<Rightarrow> int set \<Rightarrow> 'd InputState \<Rightarrow> 'd PrimaryState \<Rightarrow> (nat \<times> nat) list \<Rightarrow> bool" where
  "progress cf s0 D s g res \<longleftrightarrow> kept s0 s \<and> searched cf (view s0) D (no_search s0) g \<and>
     found cf (in_mc s0) (ev_particles (in_mc s0)) D (no_search s0) g res \<and> D \<subseteq> ps_visited g"

definition refused :: "'d InputSettings \<Rightarrow> 'd InputState \<Rightarrow> 'e cpp \<Rightarrow> bool" where
  "refused cf s r \<longleftrightarrow> r = Inl refusal \<and> (\<exists>k p. view s k = Some p \<and> inconsistent cf (view s) p)"

lemma root_not_visited:
  assumes "searched cf V D g0 g" and "ps_visited g0 = {}" and "related V" and "is_root V i" and "i \<notin> D"
  shows "i \<notin> ps_visited g"
proof
  assume "i \<in> ps_visited g"
  then have "i \<in> (follows V)\<^sup>* `` D" using searched_dest(6) [OF assms(1), of i] assms(2) by simp
  then obtain d where "d \<in> D" "(d, i) \<in> (follows V)\<^sup>*" by blast
  then obtain c where "(c, i) \<in> follows V" using assms(5) by (metis rtranclE)
  then show False using assms(3,4) by (auto simp: follows_def related_def)
qed

lemma unvisited_bound: "unvisited pm g < Suc (length pm)"
proof -
  have "card (fst ` set pm - ps_visited g) \<le> card (fst ` set pm)" by (rule card_mono) auto
  also have "\<dots> \<le> card (set pm)" by (rule card_image_le) simp
  also have "\<dots> \<le> length pm" by (rule card_length)
  finally show ?thesis by (simp add: unvisited_def)
qed

lemma progress_more:
  assumes "progress cf s0 D s g res" and "kept s t"
  shows "progress cf s0 D t g res"
  using assms kept_trans unfolding progress_def by blast

lemma one_particle:
  assumes "record_ok cf (in_mc s0) (ev_particles (in_mc s0))" and "related (view s0)" and "progress cf s0 D s g res"
    and "i \<in> fst ` set (ev_particles (in_mc s0))" and "is_root (view s0) i \<longrightarrow> i \<notin> D"
  shows "refused cf s0 (generate_particle (Suc (length (ev_particles (in_mc s0)))) cf (s, g, xs) i) \<or>
    (\<exists>s' g' r. generate_particle (Suc (length (ev_particles (in_mc s0)))) cf (s, g, xs) i = Inr (s', g', xs @ List.map snd r) \<and>
      progress cf s0 (D \<union> {i. is_root (view s0) i} \<inter> {i}) s' g' (res @ r) \<and> kept s s' \<and> in_g4vertices s' = in_g4vertices s \<and>
      map_of (ps_prim g) \<subseteq>\<^sub>m map_of (ps_prim g') \<and>
      (\<forall>(a, x) \<in> set r. is_root (view s0) i \<and> (\<exists>k. map_of (ev_particles (in_mc s0)) k = Some a \<and> map_of (ps_prim g') k = Some x \<and> k \<in> (through cf (view s0))\<^sup>* `` {i}) \<and>
         (\<exists>p. mc_heap (in_mc s') a = Some p \<and> bit (pt_reason p) 2)))"
proof -
  let ?pm = "ev_particles (in_mc s0)" and ?V = "view s0" and ?fuel = "Suc (length (ev_particles (in_mc s0)))"
  have pr: "kept s0 s" "searched cf ?V D (no_search s0) g" "found cf (in_mc s0) ?pm D (no_search s0) g res" "D \<subseteq> ps_visited g"
    using assms(3) by (auto simp: progress_def)
  note ks = kept_fields [OF pr(1)]
  have rok: "record_ok cf (in_mc s) ?pm" using remarked_record_ok [OF _ assms(1)] pr(1) by (simp add: kept_def)
  obtain a where a: "map_of ?pm i = Some a" using assms(4) by (metis map_of_eq_None_iff not_Some_eq)
  obtain p where p: "pv (in_mc s) ?pm i = Some p" "particle_get (in_mc s) a = Inr p" using record_particle [OF rok a] by blast
  then have ap: "a \<noteq> 0" "mc_heap (in_mc s) a = Some p" by (auto simp: particle_get_def split: option.splits if_splits)
  obtain p0 where p0: "?V i = Some p0" "marked p0 p"
  proof -
    have "a \<noteq> 0" "\<exists>p. mc_heap (in_mc s0) a = Some p" using record_particle [OF assms(1) a] a by (auto simp: pv_def particle_get_def split: if_splits)
    then obtain q where "mc_heap (in_mc s0) a = Some q" by blast
    moreover from remarked_Some [OF _ this, of "in_mc s"] have "marked q p" using pr(1) ap(2) by (auto simp: kept_def)
    ultimately show ?thesis using that a by (simp add: view_def pv_def)
  qed
  have root: "pt_parents p = {} \<longleftrightarrow> is_root ?V i" using p0 by (auto simp: is_root_def marked_def dest: arg_cong [where f = pt_parents])
  obtain s1 where s1: "(if pt_daughters p \<noteq> {} then in_particle s (\<lambda>m. particle_modify m a (or_reason G4PARTICLE_HAS_SECONDARIES)) else Inr s) = Inr s1"
    "kept s s1" "in_g4vertices s1 = in_g4vertices s"
  proof (cases "pt_daughters p = {}")
    case True
    then show ?thesis by (intro that [OF _ kept_refl refl]) simp
  next
    case False
    obtain t where "in_particle s (\<lambda>m. particle_modify m a (or_reason G4PARTICLE_HAS_SECONDARIES)) = Inr t" "kept s t" "in_g4vertices t = in_g4vertices s"
      using modify_kept [OF ap, of "or_reason G4PARTICLE_HAS_SECONDARIES"] marked_reason [of G4PARTICLE_HAS_SECONDARIES p] by blast
    then show ?thesis by (intro that [of t]) (simp_all add: False)
  qed
  have k1: "kept s0 s1" by (rule kept_trans [OF pr(1) s1(2)])
  note run = generate_particle_def [of ?fuel cf, THEN fun_cong, THEN fun_cong, of "(s, g, xs)" i, unfolded prod.case ks(1) pm_get_def a option.case bindE_simps p(2) s1(1)]
  show ?thesis
  proof (cases "is_root ?V i")
    case False
    then have "generate_particle ?fuel cf (s, g, xs) i = Inr (s1, g, xs @ List.map snd [])" using run root by simp
    moreover have "progress cf s0 (D \<union> {i. is_root ?V i} \<inter> {i}) s1 g (res @ [])" using progress_more [OF assms(3) s1(2)] False by simp
    ultimately show ?thesis using s1(2,3) by (intro disjI2 exI [of _ s1] exI [of _ g] exI [of _ "[]"]) (simp del: append_Nil2)
  next
    case True
    have nv: "i \<notin> ps_visited g" by (rule root_not_visited [OF pr(2) _ assms(2) True mp [OF assms(5) True]]) (simp add: no_search_def)
    have "record_ok cf (in_mc s1) ?pm" using remarked_record_ok [OF _ assms(1)] k1 by (simp add: kept_def)
    from getRelevant_searches [OF this, of ?fuel] have "outcome cf (in_mc s1) ?pm {i} g (getRelevant ?fuel cf (in_mc s1) ?pm g a)"
      using a nv searched_dest(1) [OF pr(2)] unvisited_bound [of ?pm g] unfolding searches_def by blast
    then have o: "outcome cf (in_mc s0) ?pm {i} g (getRelevant ?fuel cf (in_mc s1) ?pm g a)"
      using remarked_outcome [of "in_mc s0" "in_mc s1"] k1 by (simp add: kept_def)
    have run: "generate_particle ?fuel cf (s, g, xs) i = bindE (getRelevant ?fuel cf (in_mc s1) ?pm g a) (\<lambda>(g1, relevant).
        bindE (foldE mark_primary s1 relevant) (\<lambda>s2. Inr (s2, g1, xs @ List.map snd relevant)))"
      using run True root kept_fields(1) [OF k1] by simp
    show ?thesis
    proof (cases "getRelevant ?fuel cf (in_mc s1) ?pm g a")
      case (Inl e)
      then show ?thesis using o by (simp add: run outcome_def refused_def view_def)
    next
      case (Inr x)
      obtain g' r where x: "x = (g', r)" by (cases x)
      have o: "searched cf ?V {i} g g'" "found cf (in_mc s0) ?pm {i} g g' r" "i \<in> ps_visited g'" using o by (simp_all add: Inr x outcome_Inr view_def)
      have found_r: "\<exists>k. map_of ?pm k = Some b \<and> map_of (ps_prim g') k = Some y \<and> k \<in> (through cf ?V)\<^sup>* `` {i}" if "(b, y) \<in> set r" for b y
        using o(2) that unfolding found_def view_def by fast
      have "valid_entries s1 r"
        unfolding valid_entries_def
      proof clarify
        fix b y assume bx: "(b, y) \<in> set r"
        then obtain k where "map_of ?pm k = Some b" using found_r [OF bx] by blast
        from record_particle [OF \<open>record_ok cf (in_mc s1) ?pm\<close> this] show "b \<noteq> 0 \<and> mc_heap (in_mc s1) b \<noteq> None"
          by (auto simp: particle_get_def split: option.splits if_splits)
      qed
      then obtain t where t: "foldE mark_primary s1 r = Inr t" "kept s1 t" "in_g4vertices t = in_g4vertices s1"
        "\<forall>(a, x) \<in> set r. \<exists>p. mc_heap (in_mc t) a = Some p \<and> bit (pt_reason p) 2" using mark_primaries by blast
      have D: "D \<subseteq> D \<union> {i}" "{i} \<subseteq> D \<union> {i}" by auto
      have "searched cf ?V (D \<union> {i}) (no_search s0) g'"
        by (rule searched_trans [OF searched_more [OF pr(2) D(1)] searched_more [OF o(1) D(2)]])
      moreover have "found cf (in_mc s0) ?pm (D \<union> {i}) (no_search s0) g' (res @ r)"
        by (rule found_trans [OF found_more [OF pr(3) D(1)] pr(2) found_more [OF o(2) D(2)] o(1)])
      moreover have "D \<union> {i} \<subseteq> ps_visited g'" using pr(4) o(3) searched_dest(2) [OF o(1)] by blast
      ultimately have "progress cf s0 (D \<union> {i}) t g' (res @ r)" using kept_trans [OF k1 t(2)] by (simp add: progress_def)
      moreover have "D \<union> {i. is_root ?V i} \<inter> {i} = D \<union> {i}" using True by auto
      moreover have "generate_particle ?fuel cf (s, g, xs) i = Inr (t, g', xs @ List.map snd r)" by (simp add: run Inr x t(1))
      moreover have "kept s t" by (rule kept_trans [OF s1(2) t(2)])
      ultimately show ?thesis using t(3,4) s1(3) searched_dest(3) [OF o(1)] found_r True
        by (intro disjI2 exI [of _ t] exI [of _ g'] exI [of _ r]) auto
    qed
  qed
qed

section \<open>All vertices\<close>

lemma still_primary:
  assumes "kept s t" and "\<exists>p. mc_heap (in_mc s) a = Some p \<and> bit (pt_reason p) 2"
  shows "\<exists>p. mc_heap (in_mc t) a = Some p \<and> bit (pt_reason p) 2"
proof -
  obtain p where p: "mc_heap (in_mc s) a = Some p" "bit (pt_reason p) 2" using assms(2) by blast
  obtain q where "mc_heap (in_mc t) a = Some q" "marked p q" using remarked_Some [OF _ p(1)] assms(1) by (auto simp: kept_def)
  then show ?thesis using p(2) by (auto simp: marked_def)
qed

text \<open>Entries of a list of particles that were given below the roots \<open>R\<close>, marked as primary.\<close>

definition given_below :: "'d InputSettings \<Rightarrow> 'd InputState \<Rightarrow> int set \<Rightarrow> 'd InputState \<Rightarrow> 'd PrimaryState \<Rightarrow> (nat \<times> nat) list \<Rightarrow> bool" where
  "given_below cf s0 R s g r \<longleftrightarrow> (\<forall>(a, x) \<in> set r. (\<exists>k. map_of (ev_particles (in_mc s0)) k = Some a \<and> map_of (ps_prim g) k = Some x \<and>
     k \<in> (through cf (view s0))\<^sup>* `` R) \<and> (\<exists>p. mc_heap (in_mc s) a = Some p \<and> bit (pt_reason p) 2))"

lemma given_below_later:
  assumes "given_below cf s0 R s g r" and "kept s t" and "map_of (ps_prim g) \<subseteq>\<^sub>m map_of (ps_prim h)" and "R \<subseteq> Q"
  shows "given_below cf s0 Q t h r"
  unfolding given_below_def
proof clarify
  fix a x assume ax: "(a, x) \<in> set r"
  then obtain k where k: "map_of (ev_particles (in_mc s0)) k = Some a" "map_of (ps_prim g) k = Some x" "k \<in> (through cf (view s0))\<^sup>* `` R"
    and p: "\<exists>p. mc_heap (in_mc s) a = Some p \<and> bit (pt_reason p) 2" using assms(1) unfolding given_below_def by fast
  show "(\<exists>k. map_of (ev_particles (in_mc s0)) k = Some a \<and> map_of (ps_prim h) k = Some x \<and> k \<in> (through cf (view s0))\<^sup>* `` Q) \<and>
    (\<exists>p. mc_heap (in_mc t) a = Some p \<and> bit (pt_reason p) 2)"
    using k later_entry [OF assms(3) k(2)] still_primary [OF assms(2) p] assms(4) by blast
qed

lemma refused_bind: "refused cf s (r :: 'a cpp) \<Longrightarrow> refused cf s (bindE r f)"
  by (simp add: refused_def)

lemma vertex_particles:
  assumes "record_ok cf (in_mc s0) (ev_particles (in_mc s0))" and "related (view s0)" and "progress cf s0 D s g res"
    and "set is \<subseteq> fst ` set (ev_particles (in_mc s0))" and "distinct (filter (is_root (view s0)) is)" and "\<forall>i \<in> set is. is_root (view s0) i \<longrightarrow> i \<notin> D"
  defines "fuel \<equiv> Suc (length (ev_particles (in_mc s0)))"
  shows "refused cf s0 (foldE (generate_particle fuel cf) (s, g, xs) is) \<or>
    (\<exists>s' g' r. foldE (generate_particle fuel cf) (s, g, xs) is = Inr (s', g', xs @ List.map snd r) \<and>
      progress cf s0 (D \<union> {i. is_root (view s0) i} \<inter> set is) s' g' (res @ r) \<and> kept s s' \<and> in_g4vertices s' = in_g4vertices s \<and>
      map_of (ps_prim g) \<subseteq>\<^sub>m map_of (ps_prim g') \<and> given_below cf s0 ({i. is_root (view s0) i} \<inter> set is) s' g' r)"
  using assms(3-6)
proof (induction "is" arbitrary: D s g res xs)
  case Nil
  then show ?case by (intro disjI2 exI [of _ s] exI [of _ g] exI [of _ "[]"]) (simp add: kept_refl given_below_def)
next
  case (Cons i "is")
  let ?R = "{i. is_root (view s0) i}"
  have i: "i \<in> fst ` set (ev_particles (in_mc s0))" "is_root (view s0) i \<longrightarrow> i \<notin> D" using Cons.prems by auto
  from one_particle [OF assms(1,2) Cons.prems(1) i, of xs, folded fuel_def] show ?case
  proof (elim disjE exE conjE)
    assume "refused cf s0 (generate_particle fuel cf (s, g, xs) i)"
    then show ?thesis by (simp add: refused_bind)
  next
    fix s1 g1 r1
    assume one: "generate_particle fuel cf (s, g, xs) i = Inr (s1, g1, xs @ List.map snd r1)" "progress cf s0 (D \<union> ?R \<inter> {i}) s1 g1 (res @ r1)"
      "kept s s1" "in_g4vertices s1 = in_g4vertices s" "map_of (ps_prim g) \<subseteq>\<^sub>m map_of (ps_prim g1)"
      and g1: "\<forall>(a, x) \<in> set r1. is_root (view s0) i \<and> (\<exists>k. map_of (ev_particles (in_mc s0)) k = Some a \<and> map_of (ps_prim g1) k = Some x \<and> k \<in> (through cf (view s0))\<^sup>* `` {i}) \<and>
         (\<exists>p. mc_heap (in_mc s1) a = Some p \<and> bit (pt_reason p) 2)"
    have below1: "given_below cf s0 (?R \<inter> {i}) s1 g1 r1"
      using g1 unfolding given_below_def by (auto simp: Int_insert_right)
    have "refused cf s0 (foldE (generate_particle fuel cf) (s1, g1, xs @ List.map snd r1) is) \<or>
      (\<exists>s' g' r. foldE (generate_particle fuel cf) (s1, g1, xs @ List.map snd r1) is = Inr (s', g', (xs @ List.map snd r1) @ List.map snd r) \<and>
        progress cf s0 ((D \<union> ?R \<inter> {i}) \<union> ?R \<inter> set is) s' g' ((res @ r1) @ r) \<and> kept s1 s' \<and> in_g4vertices s' = in_g4vertices s1 \<and>
        map_of (ps_prim g1) \<subseteq>\<^sub>m map_of (ps_prim g') \<and> given_below cf s0 (?R \<inter> set is) s' g' r)"
      by (rule Cons.IH [OF one(2)]) (use Cons.prems in \<open>auto split: if_splits\<close>)
    then show ?thesis
    proof (elim disjE exE conjE)
      assume "refused cf s0 (foldE (generate_particle fuel cf) (s1, g1, xs @ List.map snd r1) is)"
      then show ?thesis by (simp add: one(1))
    next
      fix s' g' r
      assume rest: "foldE (generate_particle fuel cf) (s1, g1, xs @ List.map snd r1) is = Inr (s', g', (xs @ List.map snd r1) @ List.map snd r)"
        "progress cf s0 ((D \<union> ?R \<inter> {i}) \<union> ?R \<inter> set is) s' g' ((res @ r1) @ r)" "kept s1 s'" "in_g4vertices s' = in_g4vertices s1"
        "map_of (ps_prim g1) \<subseteq>\<^sub>m map_of (ps_prim g')" "given_below cf s0 (?R \<inter> set is) s' g' r"
      have "(D \<union> ?R \<inter> {i}) \<union> ?R \<inter> set is = D \<union> ?R \<inter> set (i # is)" by auto
      moreover have "given_below cf s0 (?R \<inter> set (i # is)) s' g' r1" by (rule given_below_later [OF below1 rest(3,5)]) auto
      moreover have "given_below cf s0 (?R \<inter> set (i # is)) s' g' r" by (rule given_below_later [OF rest(6) kept_refl map_le_refl]) auto
      moreover have "map_of (ps_prim g) \<subseteq>\<^sub>m map_of (ps_prim g')" using one(5) rest(5) by (rule map_le_trans)
      ultimately show ?thesis using one(1,4) rest(1,2,4) kept_trans [OF one(3) rest(3)]
        by (intro disjI2 exI [of _ s'] exI [of _ g'] exI [of _ "r1 @ r"]) (auto simp: given_below_def)
    qed
  qed
qed

definition vertex_of :: "'d InputState \<Rightarrow> nat \<Rightarrow> 'd Vertex" where
  "vertex_of s v = the (in_vertex s v)"

definition roots_of :: "'d InputState \<Rightarrow> nat \<Rightarrow> int list" where
  "roots_of s v = filter (is_root (view s)) (sorted_list_of_set (vx_out (vertex_of s v)))"

definition vertices_consistent :: "'d InputState \<Rightarrow> nat list \<Rightarrow> bool" where
  "vertices_consistent s vs \<longleftrightarrow> (\<forall>v \<in> set vs. v \<noteq> 0 \<and> in_vertex s v \<noteq> None \<and> vx_out (vertex_of s v) \<subseteq> fst ` set (ev_particles (in_mc s)))"

definition filled :: "'d InputState \<Rightarrow> nat \<Rightarrow> (nat \<times> nat) list \<Rightarrow> 'd vec \<times> 'd \<times> nat list" where
  "filled s v r = (vx_pos (vertex_of s v), vx_time (vertex_of s v), List.map snd r)"

lemma kept_vertices: "kept s (s\<lparr>in_g4vertices := x\<rparr>)"
  by (simp add: kept_def input_rest_def remarked_refl)

lemma roots_set: "finite (vx_out (vertex_of s v)) \<Longrightarrow> set (roots_of s v) = {i. is_root (view s) i} \<inter> set (sorted_list_of_set (vx_out (vertex_of s v)))"
  by (auto simp: roots_of_def)

lemma one_vertex:
  assumes "record_ok cf (in_mc s0) (ev_particles (in_mc s0))" and "related (view s0)" and "progress cf s0 D s g res"
    and "vertices_consistent s0 [v]" and "\<forall>i \<in> set (roots_of s0 v). i \<notin> D"
  defines "fuel \<equiv> Suc (length (ev_particles (in_mc s0)))"
  shows "refused cf s0 (generate_vertex fuel cf (s, g) v) \<or>
    (\<exists>s' g' r. generate_vertex fuel cf (s, g) v = Inr (s', g') \<and> progress cf s0 (D \<union> set (roots_of s0 v)) s' g' (res @ r) \<and> kept s s' \<and>
      in_g4vertices s' = in_g4vertices s @ [filled s0 v r] \<and> map_of (ps_prim g) \<subseteq>\<^sub>m map_of (ps_prim g') \<and> given_below cf s0 (set (roots_of s0 v)) s' g' r)"
proof -
  let ?w = "vertex_of s0 v" and ?is = "sorted_list_of_set (vx_out (vertex_of s0 v))" and ?R = "{i. is_root (view s0) i}"
  have v: "v \<noteq> 0" "in_vertex s0 v = Some ?w" "vx_out ?w \<subseteq> fst ` set (ev_particles (in_mc s0))"
    using assms(4) by (auto simp: vertices_consistent_def vertex_of_def)
  have fin: "finite (vx_out ?w)" by (rule finite_subset [OF v(3)]) simp
  have out: "set ?is = vx_out ?w" using fin by simp
  have rs: "set (roots_of s0 v) = ?R \<inter> set ?is" by (rule roots_set [OF fin])
  have "kept s0 s" using assms(3) by (simp add: progress_def)
  then have get: "vertex_get s v = Inr ?w" using v(1,2) kept_fields(2) by (fastforce simp: vertex_get_def)
  have run: "generate_vertex fuel cf (s, g) v = bindE (foldE (generate_particle fuel cf) (s, g, []) ?is) (\<lambda>(s1, g1, xs).
       Inr (s1\<lparr>in_g4vertices := in_g4vertices s1 @ [(vx_pos ?w, vx_time ?w, xs)]\<rparr>, g1))"
    by (simp add: generate_vertex_def get)
  have "refused cf s0 (foldE (generate_particle fuel cf) (s, g, []) ?is) \<or>
    (\<exists>s' g' r. foldE (generate_particle fuel cf) (s, g, []) ?is = Inr (s', g', [] @ List.map snd r) \<and>
      progress cf s0 (D \<union> ?R \<inter> set ?is) s' g' (res @ r) \<and> kept s s' \<and> in_g4vertices s' = in_g4vertices s \<and>
      map_of (ps_prim g) \<subseteq>\<^sub>m map_of (ps_prim g') \<and> given_below cf s0 (?R \<inter> set ?is) s' g' r)"
    unfolding fuel_def
    by (rule vertex_particles [OF assms(1-3)]) (use v(3) out rs assms(5) in auto)
  then show ?thesis
  proof (elim disjE exE conjE)
    assume "refused cf s0 (foldE (generate_particle fuel cf) (s, g, []) ?is)"
    then show ?thesis by (simp add: run refused_bind)
  next
    fix s1 g1 r
    assume one: "foldE (generate_particle fuel cf) (s, g, []) ?is = Inr (s1, g1, [] @ List.map snd r)"
      "progress cf s0 (D \<union> ?R \<inter> set ?is) s1 g1 (res @ r)" "kept s s1" "in_g4vertices s1 = in_g4vertices s"
      "map_of (ps_prim g) \<subseteq>\<^sub>m map_of (ps_prim g1)" "given_below cf s0 (?R \<inter> set ?is) s1 g1 r"
    let ?t = "s1\<lparr>in_g4vertices := in_g4vertices s1 @ [(vx_pos ?w, vx_time ?w, List.map snd r)]\<rparr>"
    have "kept s1 ?t" by (rule kept_vertices)
    then have "progress cf s0 (D \<union> set (roots_of s0 v)) ?t g1 (res @ r)" "kept s ?t" "given_below cf s0 (set (roots_of s0 v)) ?t g1 r"
      using progress_more [OF one(2)] kept_trans [OF one(3)] given_below_later [OF one(6) _ map_le_refl subset_refl] by (simp_all add: rs)
    then show ?thesis using one(1,4,5) by (intro disjI2 exI [of _ ?t] exI [of _ g1] exI [of _ r]) (simp add: run filled_def)
  qed
qed

lemma all_vertices:
  assumes "record_ok cf (in_mc s0) (ev_particles (in_mc s0))" and "related (view s0)" and "progress cf s0 D s g res"
    and "vertices_consistent s0 vs" and "distinct (concat (List.map (roots_of s0) vs))" and "\<forall>v \<in> set vs. \<forall>i \<in> set (roots_of s0 v). i \<notin> D"
  defines "fuel \<equiv> Suc (length (ev_particles (in_mc s0)))"
  shows "refused cf s0 (foldE (generate_vertex fuel cf) (s, g) vs) \<or>
    (\<exists>s' g' rs. foldE (generate_vertex fuel cf) (s, g) vs = Inr (s', g') \<and>
      progress cf s0 (D \<union> set (concat (List.map (roots_of s0) vs))) s' g' (res @ concat rs) \<and> kept s s' \<and>
      in_g4vertices s' = in_g4vertices s @ map2 (filled s0) vs rs \<and> map_of (ps_prim g) \<subseteq>\<^sub>m map_of (ps_prim g') \<and>
      list_all2 (\<lambda>v r. given_below cf s0 (set (roots_of s0 v)) s' g' r) vs rs)"
  using assms(3-6)
proof (induction vs arbitrary: D s g res)
  case Nil
  then show ?case by (intro disjI2 exI [of _ s] exI [of _ g] exI [of _ "[]"]) (simp add: kept_refl)
next
  case (Cons v vs)
  let ?R = "\<lambda>v. set (roots_of s0 v)"
  have v: "vertices_consistent s0 [v]" "\<forall>i \<in> ?R v. i \<notin> D" using Cons.prems by (auto simp: vertices_consistent_def)
  from one_vertex [OF assms(1,2) Cons.prems(1) v, folded fuel_def] show ?case
  proof (elim disjE exE conjE)
    assume "refused cf s0 (generate_vertex fuel cf (s, g) v)"
    then show ?thesis by (simp add: refused_bind)
  next
    fix s1 g1 r
    assume one: "generate_vertex fuel cf (s, g) v = Inr (s1, g1)" "progress cf s0 (D \<union> ?R v) s1 g1 (res @ r)" "kept s s1"
      "in_g4vertices s1 = in_g4vertices s @ [filled s0 v r]" "map_of (ps_prim g) \<subseteq>\<^sub>m map_of (ps_prim g1)" "given_below cf s0 (?R v) s1 g1 r"
    have "refused cf s0 (foldE (generate_vertex fuel cf) (s1, g1) vs) \<or>
      (\<exists>s' g' rs. foldE (generate_vertex fuel cf) (s1, g1) vs = Inr (s', g') \<and>
        progress cf s0 ((D \<union> ?R v) \<union> set (concat (List.map (roots_of s0) vs))) s' g' ((res @ r) @ concat rs) \<and> kept s1 s' \<and>
        in_g4vertices s' = in_g4vertices s1 @ map2 (filled s0) vs rs \<and> map_of (ps_prim g1) \<subseteq>\<^sub>m map_of (ps_prim g') \<and>
        list_all2 (\<lambda>v r. given_below cf s0 (?R v) s' g' r) vs rs)"
      by (rule Cons.IH [OF one(2)]) (use Cons.prems in \<open>auto simp: vertices_consistent_def\<close>)
    then show ?thesis
    proof (elim disjE exE conjE)
      assume "refused cf s0 (foldE (generate_vertex fuel cf) (s1, g1) vs)"
      then show ?thesis by (simp add: one(1))
    next
      fix s' g' rs
      assume rest: "foldE (generate_vertex fuel cf) (s1, g1) vs = Inr (s', g')"
        "progress cf s0 ((D \<union> ?R v) \<union> set (concat (List.map (roots_of s0) vs))) s' g' ((res @ r) @ concat rs)" "kept s1 s'"
        "in_g4vertices s' = in_g4vertices s1 @ map2 (filled s0) vs rs" "map_of (ps_prim g1) \<subseteq>\<^sub>m map_of (ps_prim g')"
        "list_all2 (\<lambda>v r. given_below cf s0 (?R v) s' g' r) vs rs"
      have "given_below cf s0 (?R v) s' g' r" by (rule given_below_later [OF one(6) rest(3,5) subset_refl])
      moreover have "(D \<union> ?R v) \<union> set (concat (List.map (roots_of s0) vs)) = D \<union> set (concat (List.map (roots_of s0) (v # vs)))" by auto
      moreover have "map_of (ps_prim g) \<subseteq>\<^sub>m map_of (ps_prim g')" using one(5) rest(5) by (rule map_le_trans)
      ultimately show ?thesis using one(1,4) rest(1,2,4,6) kept_trans [OF one(3) rest(3)]
        by (intro disjI2 exI [of _ s'] exI [of _ g'] exI [of _ "r # rs"]) simp
    qed
  qed
qed

section \<open>The map of primary particles\<close>

definition loose_rest :: "'d InputState \<Rightarrow> 'd InputState" where
  "loose_rest s = s\<lparr>in_mc := (in_mc s)\<lparr>mc_heap := Map.empty, ev_primaryMap := Map.empty\<rparr>\<rparr>"

lemma loose_fields:
  assumes "loose_rest t = loose_rest s"
  shows "in_gnext t = in_gnext s" "in_g4 t = in_g4 s" "in_g4vertices t = in_g4vertices s" "mc_next (in_mc t) = mc_next (in_mc s)"
    "mc_haveSuspended (in_mc t) = mc_haveSuspended (in_mc s)" "ev_particleMap (in_mc t) = ev_particleMap (in_mc s)"
    "ev_nextPID (in_mc t) = ev_nextPID (in_mc s)" "in_aborts t = in_aborts s"
proof -
  show "in_gnext t = in_gnext s" using arg_cong [OF assms, of in_gnext] by (simp add: loose_rest_def)
  show "in_g4 t = in_g4 s" using arg_cong [OF assms, of in_g4] by (simp add: loose_rest_def)
  show "in_g4vertices t = in_g4vertices s" using arg_cong [OF assms, of in_g4vertices] by (simp add: loose_rest_def)
  show "in_aborts t = in_aborts s" using arg_cong [OF assms, of in_aborts] by (simp add: loose_rest_def)
  show "mc_next (in_mc t) = mc_next (in_mc s)" using arg_cong [OF assms, of "\<lambda>s. mc_next (in_mc s)"] by (simp add: loose_rest_def)
  show "mc_haveSuspended (in_mc t) = mc_haveSuspended (in_mc s)" using arg_cong [OF assms, of "\<lambda>s. mc_haveSuspended (in_mc s)"] by (simp add: loose_rest_def)
  show "ev_particleMap (in_mc t) = ev_particleMap (in_mc s)" using arg_cong [OF assms, of "\<lambda>s. ev_particleMap (in_mc s)"] by (simp add: loose_rest_def)
  show "ev_nextPID (in_mc t) = ev_nextPID (in_mc s)" using arg_cong [OF assms, of "\<lambda>s. ev_nextPID (in_mc s)"] by (simp add: loose_rest_def)
qed

lemma insert_one:
  assumes "map_of pm k = Some a" and "a \<noteq> 0" and "mc_heap (in_mc s) a \<noteq> None" and "ev_primaryMap (in_mc s) x = None"
  shows "\<exists>t. insert_primary pm s (k, x) = Inr t \<and> remarked (in_mc s) (in_mc t) \<and> loose_rest t = loose_rest s \<and>
    ev_primaryMap (in_mc t) = (ev_primaryMap (in_mc s))(x \<mapsto> a)"
proof -
  obtain p where p: "mc_heap (in_mc s) a = Some p" using assms(3) by blast
  let ?q = "p\<lparr>pt_ref := pt_ref p + 1\<rparr>"
  let ?t = "s\<lparr>in_mc := (particle_put (in_mc s) a ?q)\<lparr>ev_primaryMap := (ev_primaryMap (in_mc s))(x \<mapsto> a)\<rparr>\<rparr>"
  have "marked p ?q" by (simp add: marked_def unmarked_def)
  then have "remarked (in_mc s) (in_mc ?t)"
    using p by (auto simp: remarked_def particle_put_def marked_refl option.rel_refl)
  moreover have "loose_rest ?t = loose_rest s" by (simp add: loose_rest_def particle_put_def)
  ultimately show ?thesis using assms(1,2,4) p
    by (intro exI [of _ ?t]) (simp add: insert_primary_def pm_get_def primaryMap_insert_def in_particle_def particle_addRef_def particle_modify_def
        particle_get_def particle_put_def)
qed

lemma insert_all:
  assumes "distinct (List.map snd ps)" and "\<forall>(k, x) \<in> set ps. ev_primaryMap (in_mc s) x = None \<and> (\<exists>a. map_of pm k = Some a \<and> a \<noteq> 0 \<and> mc_heap (in_mc s) a \<noteq> None)"
  shows "\<exists>t. foldE (insert_primary pm) s ps = Inr t \<and> remarked (in_mc s) (in_mc t) \<and> loose_rest t = loose_rest s \<and>
    (\<forall>(k, x) \<in> set ps. ev_primaryMap (in_mc t) x = map_of pm k) \<and> (\<forall>x. x \<notin> snd ` set ps \<longrightarrow> ev_primaryMap (in_mc t) x = ev_primaryMap (in_mc s) x)"
  using assms
proof (induction ps arbitrary: s)
  case Nil
  then show ?case by (simp add: remarked_refl)
next
  case (Cons kx ps)
  obtain k x where kx: "kx = (k, x)" by (cases kx)
  obtain a where a: "map_of pm k = Some a" "a \<noteq> 0" "mc_heap (in_mc s) a \<noteq> None" "ev_primaryMap (in_mc s) x = None"
    using Cons.prems(2) by (auto simp: kx)
  obtain u where u: "insert_primary pm s (k, x) = Inr u" "remarked (in_mc s) (in_mc u)" "loose_rest u = loose_rest s"
    "ev_primaryMap (in_mc u) = (ev_primaryMap (in_mc s))(x \<mapsto> a)" using insert_one [OF a] by blast
  have "\<forall>(k, x) \<in> set ps. ev_primaryMap (in_mc u) x = None \<and> (\<exists>a. map_of pm k = Some a \<and> a \<noteq> 0 \<and> mc_heap (in_mc u) a \<noteq> None)"
  proof clarify
    fix j y assume jy: "(j, y) \<in> set ps"
    then have "y \<noteq> x" using Cons.prems(1) by (force simp: kx)
    moreover obtain b where "ev_primaryMap (in_mc s) y = None" "map_of pm j = Some b" "b \<noteq> 0" "mc_heap (in_mc s) b \<noteq> None"
      using Cons.prems(2) jy by fastforce
    ultimately show "ev_primaryMap (in_mc u) y = None \<and> (\<exists>a. map_of pm j = Some a \<and> a \<noteq> 0 \<and> mc_heap (in_mc u) a \<noteq> None)"
      using remarked_Some [OF u(2), of b] by (auto simp: u(4))
  qed
  then obtain t where t: "foldE (insert_primary pm) u ps = Inr t" "remarked (in_mc u) (in_mc t)" "loose_rest t = loose_rest u"
    "\<forall>(k, x) \<in> set ps. ev_primaryMap (in_mc t) x = map_of pm k" "\<forall>x. x \<notin> snd ` set ps \<longrightarrow> ev_primaryMap (in_mc t) x = ev_primaryMap (in_mc u) x"
    using Cons.IH [of u] Cons.prems(1) by (auto simp: kx)
  have "x \<notin> snd ` set ps" using Cons.prems(1) by (simp add: kx)
  then have "ev_primaryMap (in_mc t) x = map_of pm k" using t(5) by (simp add: u(4) a(1))
  moreover have "\<forall>y. y \<noteq> x \<and> y \<notin> snd ` set ps \<longrightarrow> ev_primaryMap (in_mc t) y = ev_primaryMap (in_mc s) y" using t(5) by (simp add: u(4))
  ultimately show ?case using u(1,3) t(1,3,4) remarked_trans [OF u(2) t(2)] by (simp add: kx)
qed

section \<open>All primary particles\<close>

text \<open>
  A merged record that is consistent: identifiers are keys, relations go both ways, vertices emit particles of the record, and no particle without
  parents is emitted by two vertices; the addresses of new primary particles are not in use.
\<close>

definition input_consistent :: "'d InputSettings \<Rightarrow> 'd InputState \<Rightarrow> bool" where
  "input_consistent cf s \<longleftrightarrow> record_ok cf (in_mc s) (ev_particles (in_mc s)) \<and> related (view s) \<and> \<not> in_locked s \<and>
     (let vs = concat (List.map snd (in_vertices s)) in vertices_consistent s vs \<and> distinct (concat (List.map (roots_of s) vs))) \<and>
     (\<forall>x \<ge> in_gnext s. ev_primaryMap (in_mc s) x = None)"

abbreviation input_vertices :: "'d InputState \<Rightarrow> nat list" where
  "input_vertices s \<equiv> concat (List.map snd (in_vertices s))"

abbreviation input_roots :: "'d InputState \<Rightarrow> int set" where
  "input_roots s \<equiv> set (concat (List.map (roots_of s) (input_vertices s)))"

lemma visited_closed:
  assumes "searched cf V D g0 g" and "ps_visited g0 = {}" and "D \<subseteq> ps_visited g"
  shows "ps_visited g = (follows V)\<^sup>* `` D"
proof
  show "ps_visited g \<subseteq> (follows V)\<^sup>* `` D" using searched_dest(6) [OF assms(1)] assms(2) by blast
  have "k \<in> ps_visited g" if "(d, k) \<in> (follows V)\<^sup>*" "d \<in> D" for d k
    using that(1)
  proof induction
    case base
    then show ?case using that(2) assms(3) by blast
  next
    case (step j k)
    then have "\<exists>p. V j = Some p \<and> (decays_followed p \<longrightarrow> pt_daughters p \<subseteq> ps_visited g)"
      using searched_dest(6) [OF assms(1), of j] assms(2) by auto
    then show ?case using step.hyps(2) by (auto simp: follows_def)
  qed
  then show "(follows V)\<^sup>* `` D \<subseteq> ps_visited g" by blast
qed

lemma bij_entries:
  assumes "map_ok m" and "mset (List.map snd m) = mset xs" and "distinct xs"
  shows "bij_betw (\<lambda>k. the (map_of m k)) (dom (map_of m)) (set xs)"
proof -
  have d: "distinct (List.map snd m)" and v: "snd ` set m = set xs"
    using assms(2,3) by (metis mset_eq_imp_distinct_iff, metis list.set_map mset_eq_setD)
  have "inj_on (\<lambda>k. the (map_of m k)) (dom (map_of m))"
  proof (rule inj_onI)
    fix j k assume jk: "j \<in> dom (map_of m)" "k \<in> dom (map_of m)" "the (map_of m j) = the (map_of m k)"
    then obtain x where "map_of m j = Some x" "map_of m k = Some x" by auto
    then have "(j, x) \<in> set m" "(k, x) \<in> set m" by (simp_all add: map_of_SomeD)
    then show "j = k" using d inj_onD [of snd "set m" "(j, x)" "(k, x)"] by (simp add: distinct_map)
  qed
  moreover have "(\<lambda>k. the (map_of m k)) ` dom (map_of m) = snd ` set m"
  proof -
    have "the (map_of m k) = x" "k \<in> dom (map_of m)" if "(k, x) \<in> set m" for k x using that map_of_mem [OF assms(1), of k x] by auto
    moreover have "the (map_of m k) \<in> snd ` set m" if "k \<in> dom (map_of m)" for k using that by (force dest: map_of_SomeD)
    ultimately show ?thesis by (force simp: image_iff)
  qed
  ultimately show ?thesis by (simp add: bij_betw_def v)
qed

lemma search_domain:
  assumes "searched cf V D (no_search s) g" and "D \<subseteq> ps_visited g"
  shows "dom (map_of (ps_prim g)) = {k \<in> (follows V)\<^sup>* `` D. \<exists>p. V k = Some p \<and> relevant cf V p}"
    and "bij_betw (\<lambda>k. the (map_of (ps_prim g) k)) (dom (map_of (ps_prim g))) {in_gnext s..<ps_next g}"
proof -
  note sd = searched_dest [OF assms(1)]
  let ?P = "map_of (ps_prim g)"
  have n0: "ps_visited (no_search s) = {}" "ps_next (no_search s) = in_gnext s" "ps_prim (no_search s) = []" by (simp_all add: no_search_def)
  have vis: "ps_visited g = (follows V)\<^sup>* `` D" by (rule visited_closed [OF assms(1) n0(1) assms(2)])
  have ent: "entered V cf g k x" if "?P k = Some x" for k x using sd(7) [OF that] by (simp add: n0)
  show "dom ?P = {k \<in> (follows V)\<^sup>* `` D. \<exists>p. V k = Some p \<and> relevant cf V p}"
  proof (intro set_eqI iffI)
    fix k assume "k \<in> dom ?P"
    then obtain x where x: "?P k = Some x" by blast
    then have "k \<in> ps_visited g" using sd(1) by (force simp: prim_ok_def dest: map_of_SomeD)
    then show "k \<in> {k \<in> (follows V)\<^sup>* `` D. \<exists>p. V k = Some p \<and> relevant cf V p}" using ent [OF x] by (auto simp: entered_def vis)
  next
    fix k assume "k \<in> {k \<in> (follows V)\<^sup>* `` D. \<exists>p. V k = Some p \<and> relevant cf V p}"
    then show "k \<in> dom ?P" using sd(6) [of k] by (auto simp: vis n0)
  qed
  show "bij_betw (\<lambda>k. the (?P k)) (dom ?P) {in_gnext s..<ps_next g}"
    using bij_entries [of "ps_prim g" "[in_gnext s..<ps_next g]"] sd(1,8) by (simp add: prim_ok_def n0)
qed

lemma generate_all:
  assumes "input_consistent cf s"
  defines "V \<equiv> view s" and "pm \<equiv> ev_particles (in_mc s)"
  shows "refused cf s (generatePrimaries cf s) \<or>
    (\<exists>t g rs. generatePrimaries cf s = Inr (t, 1) \<and> remarked (in_mc s) (in_mc t) \<and> in_gnext t = ps_next g \<and> in_g4 t = ps_g4 g \<and>
      searched cf V (input_roots s) (no_search s) g \<and> found cf (in_mc s) pm (input_roots s) (no_search s) g (concat rs) \<and> input_roots s \<subseteq> ps_visited g \<and>
      in_g4vertices t = in_g4vertices s @ map2 (filled s) (input_vertices s) rs \<and>
      list_all2 (\<lambda>v r. given_below cf s (set (roots_of s v)) t g r) (input_vertices s) rs \<and>
      (\<forall>(k, x) \<in> set (ps_prim g). ev_primaryMap (in_mc t) x = map_of pm k) \<and>
      (\<forall>x. x \<notin> snd ` set (ps_prim g) \<longrightarrow> ev_primaryMap (in_mc t) x = ev_primaryMap (in_mc s) x) \<and>
      mc_next (in_mc t) = mc_next (in_mc s) \<and> mc_haveSuspended (in_mc t) = mc_haveSuspended (in_mc s) \<and> ev_particleMap (in_mc t) = ev_particleMap (in_mc s) \<and>
      ev_nextPID (in_mc t) = ev_nextPID (in_mc s))"
proof -
  let ?fuel = "Suc (length (ev_particles (in_mc s)))" and ?vs = "input_vertices s"
  have c: "record_ok cf (in_mc s) (ev_particles (in_mc s))" "related (view s)" "\<not> in_locked s" "vertices_consistent s ?vs" "distinct (concat (List.map (roots_of s) ?vs))"
    "\<forall>x \<ge> in_gnext s. ev_primaryMap (in_mc s) x = None" using assms(1) by (simp_all add: input_consistent_def Let_def)
  have run: "generatePrimaries cf s = bindE (foldE (generate_vertex ?fuel cf) (s, no_search s) ?vs) (\<lambda>(s1, g1).
      bindE (foldE (insert_primary (ev_particles (in_mc s1))) (s1\<lparr>in_gnext := ps_next g1, in_g4 := ps_g4 g1\<rparr>) (ps_prim g1)) (\<lambda>s2. Inr (s2, 1)))"
    using c(3) by (simp add: generatePrimaries_def no_search_def)
  have start: "progress cf s {} s (no_search s) []"
    by (auto simp: progress_def kept_refl found_refl prim_ok_def no_search_def intro: searched_refl)
  have "refused cf s (foldE (generate_vertex ?fuel cf) (s, no_search s) ?vs) \<or>
    (\<exists>s' g' rs. foldE (generate_vertex ?fuel cf) (s, no_search s) ?vs = Inr (s', g') \<and>
      progress cf s ({} \<union> input_roots s) s' g' ([] @ concat rs) \<and> kept s s' \<and>
      in_g4vertices s' = in_g4vertices s @ map2 (filled s) ?vs rs \<and> map_of (ps_prim (no_search s)) \<subseteq>\<^sub>m map_of (ps_prim g') \<and>
      list_all2 (\<lambda>v r. given_below cf s (set (roots_of s v)) s' g' r) ?vs rs)"
    by (rule all_vertices [OF c(1,2) start c(4,5)]) simp
  then show ?thesis
  proof (elim disjE exE conjE)
    assume "refused cf s (foldE (generate_vertex ?fuel cf) (s, no_search s) ?vs)"
    then show ?thesis by (simp add: run refused_bind)
  next
    fix s1 g rs
    assume v: "foldE (generate_vertex ?fuel cf) (s, no_search s) ?vs = Inr (s1, g)" "progress cf s ({} \<union> input_roots s) s1 g ([] @ concat rs)" "kept s s1"
      "in_g4vertices s1 = in_g4vertices s @ map2 (filled s) ?vs rs" "list_all2 (\<lambda>v r. given_below cf s (set (roots_of s v)) s1 g r) ?vs rs"
    have sf: "searched cf V (input_roots s) (no_search s) g" "found cf (in_mc s) pm (input_roots s) (no_search s) g (concat rs)" "input_roots s \<subseteq> ps_visited g"
      using v(2) by (simp_all add: progress_def V_def pm_def)
    note sd = searched_dest [OF sf(1)]
    have ms: "mset (List.map snd (ps_prim g)) = mset [in_gnext s..<ps_next g]" using sd(8) by (simp add: no_search_def)
    let ?s2 = "s1\<lparr>in_gnext := ps_next g, in_g4 := ps_g4 g\<rparr>"
    have d: "distinct (List.map snd (ps_prim g))" using ms by (metis distinct_upt mset_eq_imp_distinct_iff)
    have "snd ` set (ps_prim g) = {in_gnext s..<ps_next g}" using ms by (metis atLeastLessThan_upt list.set_map mset_eq_setD)
    have entries: "\<forall>(k, x) \<in> set (ps_prim g). ev_primaryMap (in_mc ?s2) x = None \<and> (\<exists>a. map_of pm k = Some a \<and> a \<noteq> 0 \<and> mc_heap (in_mc ?s2) a \<noteq> None)"
    proof clarify
      fix k x assume kx: "(k, x) \<in> set (ps_prim g)"
      then have "x \<in> {in_gnext s..<ps_next g}" using \<open>snd ` set (ps_prim g) = _\<close> by force
      then have "ev_primaryMap (in_mc ?s2) x = None" using c(6) kept_fields(4) [OF v(3)] by simp
      moreover have "map_of (ps_prim g) k = Some x" using kx sd(1) by (simp add: prim_ok_def map_of_mem)
      then have "entered V cf g k x" using sd(7) [of k x] by (simp add: no_search_def)
      then obtain p where "V k = Some p" by (auto simp: entered_def)
      then obtain a where a: "map_of pm k = Some a" "mc_heap (in_mc s) a = Some p" by (auto simp: V_def view_def pm_def pv_def bind_eq_Some_conv)
      then have "a \<noteq> 0" using c(1) by (auto simp: record_ok_def pm_def dest!: map_of_SomeD)
      moreover have "mc_heap (in_mc s1) a \<noteq> None" using remarked_Some [OF _ a(2)] v(3) by (auto simp: kept_def)
      ultimately show "ev_primaryMap (in_mc ?s2) x = None \<and> (\<exists>a. map_of pm k = Some a \<and> a \<noteq> 0 \<and> mc_heap (in_mc ?s2) a \<noteq> None)" using a(1) by simp
    qed
    from insert_all [OF d entries]
    obtain t where t: "foldE (insert_primary pm) ?s2 (ps_prim g) = Inr t" "remarked (in_mc ?s2) (in_mc t)" "loose_rest t = loose_rest ?s2"
      "\<forall>(k, x) \<in> set (ps_prim g). ev_primaryMap (in_mc t) x = map_of pm k"
      "\<forall>x. x \<notin> snd ` set (ps_prim g) \<longrightarrow> ev_primaryMap (in_mc t) x = ev_primaryMap (in_mc ?s2) x" by blast
    have "generatePrimaries cf s = Inr (t, 1)" using v(1) t(1) kept_fields(1) [OF v(3)] by (simp add: run pm_def)
    moreover have "remarked (in_mc s) (in_mc t)" using v(3) t(2) by (auto simp: kept_def intro: remarked_trans)
    moreover have "list_all2 (\<lambda>v r. given_below cf s (set (roots_of s v)) t g r) ?vs rs"
    proof (rule list_all2_mono [OF v(5)])
      fix v r assume b: "given_below cf s (set (roots_of s v)) s1 g r"
      have "\<exists>p. mc_heap (in_mc t) a = Some p \<and> bit (pt_reason p) 2" if "\<exists>p. mc_heap (in_mc s1) a = Some p \<and> bit (pt_reason p) 2" for a
        using that remarked_Some [OF t(2), of a] by (auto simp: marked_def)
      then show "given_below cf s (set (roots_of s v)) t g r" using b unfolding given_below_def by fast
    qed
    moreover note lf = loose_fields [OF t(3)] and kf = kept_fields [OF v(3)]
    ultimately show ?thesis using sf v(4) t(4,5) by (intro disjI2 exI [of _ t] exI [of _ g] exI [of _ rs]) simp
  qed
qed

text \<open>C33. Generation of the primary particles from a consistent record: it ends, and either refuses the record, which then has a stable particle with
  daughters that is not left out, or gives to Geant4 exactly the particles that are relevant among those that descend from the roots, each under one
  primary particle of its own with its kinematics (\<open>P\<close>), which is mapped back to it and appears exactly once: at the vertex of its root when only particles
  that are left out are between them, then marked as primary, or among the decay products of the nearest particle above it that was given.\<close>

theorem generation_spec:
  assumes "input_consistent cf s"
  shows "(generatePrimaries cf s = Inl (RuntimeError ''Cannot Simmulate this MC Record'') \<and> (\<exists>k p. view s k = Some p \<and> inconsistent cf (view s) p)) \<or>
    (\<exists>t P rs. generatePrimaries cf s = Inr (t, 1) \<and> remarked (in_mc s) (in_mc t) \<and>
      dom P = {k \<in> (follows (view s))\<^sup>* `` input_roots s. \<exists>p. view s k = Some p \<and> relevant cf (view s) p} \<and>
      bij_betw (\<lambda>k. the (P k)) (dom P) {in_gnext s..<in_gnext t} \<and>
      (\<forall>k x. P k = Some x \<longrightarrow> ev_primaryMap (in_mc t) x = map_of (ev_particles (in_mc s)) k \<and>
        (\<exists>p q. view s k = Some p \<and> in_g4 t x = Some q \<and> primary_of cf (view s) p q \<and>
           (\<forall>y \<in> set (gp_daughters q). \<exists>k'. P k' = Some y \<and> k' \<in> (through cf (view s))\<^sup>* `` pt_daughters p))) \<and>
      in_g4vertices t = in_g4vertices s @ map2 (filled s) (input_vertices s) rs \<and>
      list_all2 (\<lambda>v r. \<forall>(a, x) \<in> set r. (\<exists>k. map_of (ev_particles (in_mc s)) k = Some a \<and> P k = Some x \<and>
        k \<in> (through cf (view s))\<^sup>* `` set (roots_of s v)) \<and> (\<exists>p. mc_heap (in_mc t) a = Some p \<and> is_primary p)) (input_vertices s) rs \<and>
      mset (List.map snd (concat rs)) + mset (concat (List.map (\<lambda>x. case in_g4 t x of Some q \<Rightarrow> gp_daughters q | None \<Rightarrow> []) [in_gnext s..<in_gnext t])) =
        mset [in_gnext s..<in_gnext t])"
proof -
  from generate_all [OF assms] show ?thesis
  proof (elim disjE exE conjE)
    assume "refused cf s (generatePrimaries cf s)"
    then show ?thesis by (simp add: refused_def refusal_def)
  next
    fix t g rs
    let ?D = "input_roots s" and ?V = "view s" and ?pm = "ev_particles (in_mc s)"
    assume t: "generatePrimaries cf s = Inr (t, 1)" "remarked (in_mc s) (in_mc t)" "in_gnext t = ps_next g" "in_g4 t = ps_g4 g"
      and g: "searched cf ?V ?D (no_search s) g" "found cf (in_mc s) ?pm ?D (no_search s) g (concat rs)" "?D \<subseteq> ps_visited g"
      and v: "in_g4vertices t = in_g4vertices s @ map2 (filled s) (input_vertices s) rs"
        "list_all2 (\<lambda>v r. given_below cf s (set (roots_of s v)) t g r) (input_vertices s) rs"
      and m: "\<forall>(k, x) \<in> set (ps_prim g). ev_primaryMap (in_mc t) x = map_of ?pm k"
    note sd = searched_dest [OF g(1)]
    let ?P = "map_of (ps_prim g)"
    have n0: "ps_visited (no_search s) = {}" "ps_next (no_search s) = in_gnext s" "ps_prim (no_search s) = []" by (simp_all add: no_search_def)
    have ent: "entered ?V cf g k x" if "?P k = Some x" for k x using sd(7) [OF that] by (simp add: n0)
    note domP = search_domain(1) [OF g(1,3)] and bij = search_domain(2) [OF g(1,3), folded t(3)]
    have primaries: "ev_primaryMap (in_mc t) x = map_of ?pm k \<and> (\<exists>p q. ?V k = Some p \<and> in_g4 t x = Some q \<and> primary_of cf ?V p q \<and>
           (\<forall>y \<in> set (gp_daughters q). \<exists>k'. ?P k' = Some y \<and> k' \<in> (through cf ?V)\<^sup>* `` pt_daughters p))" if kx: "?P k = Some x" for k x
    proof -
      have "ev_primaryMap (in_mc t) x = map_of ?pm k" using m map_of_SomeD [OF kx] by blast
      then show ?thesis using ent [OF kx] unfolding entered_def t(4) by blast
    qed
    have below: "list_all2 (\<lambda>v r. \<forall>(a, x) \<in> set r. (\<exists>k. map_of ?pm k = Some a \<and> ?P k = Some x \<and>
        k \<in> (through cf ?V)\<^sup>* `` set (roots_of s v)) \<and> (\<exists>p. mc_heap (in_mc t) a = Some p \<and> is_primary p)) (input_vertices s) rs"
      by (rule list_all2_mono [OF v(2)]) (simp add: given_below_def primary_bit)
    have once: "mset (List.map snd (concat rs)) + mset (concat (List.map (\<lambda>x. case in_g4 t x of Some q \<Rightarrow> gp_daughters q | None \<Rightarrow> []) [in_gnext s..<in_gnext t])) =
        mset [in_gnext s..<in_gnext t]"
      using g(2) by (simp add: found_def given_def daughters_of_def [abs_def] n0 t(3,4))
    show ?thesis by (intro disjI2 exI [of _ t] exI [of _ ?P] exI [of _ rs] conjI t(1,2) domP bij v(1) below once allI impI primaries)
  qed
qed

text \<open>A boson that is left out and the electron it decays to.\<close>

definition sample_boson :: "nat Particle" where
  "sample_boson = sample_electron\<lparr>pt_pdgID := 23, pt_status := G4PARTICLE_GEN_DECAYED, pt_daughters := {1}\<rparr>"

definition sample_decay :: "nat InputState" where
  "sample_decay = sample_inputs\<lparr>in_mc := sample_mc\<lparr>mc_heap := [1 \<mapsto> sample_boson, 2 \<mapsto> sample_electron\<lparr>pt_id := 1, pt_parents := {0}\<rparr>],
     ev_particles := [(0, 1), (1, 2)]\<rparr>, in_interactions := [], in_vertices := [(0, [1])]\<rparr>"

definition sample_physics :: "nat InputSettings" where
  "sample_physics = \<lparr>is_rejectPDGs = default_rejectPDGs, is_zeroTimePDGs = default_zeroTimePDGs, is_decayByGeant = {}, is_known = (\<lambda>_. True),
     is_stable = (\<lambda>_ _. False), is_encoding = (\<lambda>c. c), is_energy = (\<lambda>_ _ _ m. m), is_properTime = (\<lambda>_ _ t u. u - t), is_zeroTime = (\<lambda>_ _ t u. t = u),
     is_nonzero = (\<lambda>x. x \<noteq> 0), is_plus = (+), is_times = (*), is_minusOne = 0,
     is_new = \<lparr>cf_keepAll = False, cf_processNames = [], cf_above_cut = (\<lambda>_. True), cf_at_rest = (\<lambda>_. False), cf_far = (\<lambda>_ _. False), cf_zero = 0,
       cf_definition = (\<lambda>_. True), cf_userHandlers = []\<rparr>\<rparr>"

lemma sample_decay_view: "view sample_decay k = (if k = 0 then Some sample_boson else if k = 1 then Some (sample_electron\<lparr>pt_id := 1, pt_parents := {0}\<rparr>) else None)"
  by (simp add: view_def pv_def sample_decay_def)

lemma sample_decay_consistent: "input_consistent sample_physics sample_decay"
proof -
  have r: "is_root (view sample_decay) k \<longleftrightarrow> k = 0" for k by (auto simp: is_root_def sample_decay_view sample_boson_def sample_electron_def)
  have "record_ok sample_physics (in_mc sample_decay) (ev_particles (in_mc sample_decay))"
    by (simp add: record_ok_def sample_decay_def map_ok_def sample_boson_def sample_electron_def)
  moreover have "related (view sample_decay)"
    unfolding related_def r by (auto simp: sample_decay_view sample_boson_def sample_electron_def split: if_splits)
  moreover have "vertices_consistent sample_decay [1]"
    by (simp add: vertices_consistent_def vertex_of_def sample_decay_def sample_inputs_def sample_vertex_def)
  moreover have "distinct (concat (List.map (roots_of sample_decay) [1]))" by (simp add: roots_of_def)
  moreover have "concat (List.map snd (in_vertices sample_decay)) = [1]" "\<not> in_locked sample_decay" "\<forall>x. ev_primaryMap (in_mc sample_decay) x = None"
    by (simp_all add: sample_decay_def sample_inputs_def sample_mc_def)
  ultimately show ?thesis by (simp add: input_consistent_def)
qed

theorem generation_spec_witness:
  "\<exists>t rs. generatePrimaries sample_physics sample_decay = Inr (t, 1) \<and> in_g4vertices t = map2 (filled sample_decay) [1] rs \<and>
    mset (List.map snd (concat rs)) + mset (concat (List.map (\<lambda>x. case in_g4 t x of Some q \<Rightarrow> gp_daughters q | None \<Rightarrow> []) [1..<in_gnext t])) = mset [1..<in_gnext t]"
proof -
  have ni: "\<not> inconsistent sample_physics (view sample_decay) p" for p by (simp add: inconsistent_def stable_definition_def sample_physics_def)
  have e: "input_vertices sample_decay = [1]" "in_gnext sample_decay = 1" "in_g4vertices sample_decay = []" by (simp_all add: sample_decay_def sample_inputs_def)
  from generation_spec [OF sample_decay_consistent] show ?thesis
  proof (elim disjE exE conjE)
    fix k p assume "inconsistent sample_physics (view sample_decay) p"
    then show ?thesis using ni by blast
  next
    fix t P rs
    assume "generatePrimaries sample_physics sample_decay = Inr (t, 1)"
      "in_g4vertices t = in_g4vertices sample_decay @ map2 (filled sample_decay) (input_vertices sample_decay) rs"
      "mset (List.map snd (concat rs)) + mset (concat (List.map (\<lambda>x. case in_g4 t x of Some q \<Rightarrow> gp_daughters q | None \<Rightarrow> []) [in_gnext sample_decay..<in_gnext t])) =
        mset [in_gnext sample_decay..<in_gnext t]"
    then show ?thesis unfolding e by auto
  qed
qed

end
