(* ===== verification/PrimaryEvents.thy ===== *)
theory PrimaryEvents
  imports PrimaryVertices
begin

text \<open>
  From the interactions of the readers and generators to an event that can be tracked: merging and generation composed, and the
  interactions that the particle generator and the import from Geant4 make.
\<close>

unbundle bit_operations_syntax

section \<open>Interactions that can be simulated\<close>

definition interaction_view :: "'d InputState \<Rightarrow> Interaction \<Rightarrow> int \<Rightarrow> 'd Particle option" where
  "interaction_view s i = pv (in_mc s) (ia_particles i)"

definition interaction_roots :: "'d InputState \<Rightarrow> Interaction \<Rightarrow> nat \<Rightarrow> int list" where
  "interaction_roots s i v = filter (is_root (interaction_view s i)) (sorted_list_of_set (vx_out (vertex_of s v)))"

text \<open>
  An interaction as the readers of the repository make it: relations within the interaction and both ways, every particle with a status of the generator,
  known to Geant4 when it is an ion, and not killed; vertices emit its particles, and no particle without parents is emitted twice.
\<close>

definition interaction_ready :: "'d InputSettings \<Rightarrow> 'd InputState \<Rightarrow> Interaction \<Rightarrow> bool" where
  "interaction_ready cf s i \<longleftrightarrow> related (interaction_view s i) \<and>
     (\<forall>k p. interaction_view s i k = Some p \<longrightarrow> pt_parents p \<union> pt_daughters p \<subseteq> fst ` set (ia_particles i) \<and>
        anySet (pt_status p) G4PARTICLE_GEN_STATUS \<and> \<not> isSet (pt_reason p) G4PARTICLE_FORCE_KILL \<and> (pt_pdgID p < 1000000000 \<or> has_definition cf p)) \<and>
     (\<forall>v \<in> set (vertex_objects i). vx_out (vertex_of s v) \<subseteq> fst ` set (ia_particles i)) \<and>
     distinct (concat (List.map (interaction_roots s i) (vertex_objects i)))"

lemma shift_sorted: "finite A \<Longrightarrow> sorted_list_of_set ((\<lambda>i. i + off) ` A) = List.map (\<lambda>i. i + (off :: int)) (sorted_list_of_set A)"
  by (rule sorted_distinct_set_unique) (simp_all add: sorted_map sorted_wrt_map_mono distinct_map inj_on_def)

lemma pv_mem: "map_ok pm \<Longrightarrow> (k, a) \<in> set pm \<Longrightarrow> pv m pm k = mc_heap m a"
  by (simp add: pv_def map_of_mem [symmetric])

section \<open>The merged record is consistent\<close>

definition merged_state :: "'d InputState \<Rightarrow> 'd InputState" where
  "merged_state s = setNextPID (merged_all (offsets 0 (event_interactions s)) s) (sum_list (List.map extent (event_interactions s)))"

lemma merged_view:
  assumes "inputs_ok s" and "(off, i) \<in> set (offsets 0 (event_interactions s))" and "interaction_view s i k = Some p"
  shows "view (merged_state s) (k + off) = Some (merged_particle off i p)"
proof -
  note mi = merged_input [OF assms(1), folded merged_state_def]
  obtain a where a: "map_of (ia_particles i) k = Some a" "mc_heap (in_mc s) a = Some p"
    using assms(3) by (auto simp: interaction_view_def pv_def bind_eq_Some_conv)
  have ka: "(k, a) \<in> set (ia_particles i)" by (rule map_of_SomeD [OF a(1)])
  have "(k + off, a) \<in> set (ev_particles (in_mc (merged_state s)))" using assms(2) ka by (force simp: mi(1) shifted_def)
  from pv_mem [OF mi(4) this, of "in_mc (merged_state s)"] show ?thesis using mi(5) [OF assms(2) ka] a(2) by (simp add: view_def)
qed

lemma merged_view_from:
  assumes "inputs_ok s" and "view (merged_state s) j = Some q"
  shows "\<exists>off i k p. (off, i) \<in> set (offsets 0 (event_interactions s)) \<and> j = k + off \<and> interaction_view s i k = Some p \<and> q = merged_particle off i p"
proof -
  note mi = merged_input [OF assms(1), folded merged_state_def]
  obtain a where a: "map_of (ev_particles (in_mc (merged_state s))) j = Some a"
    using assms(2) by (auto simp: view_def pv_def bind_eq_Some_conv)
  then obtain off i k where oi: "(off, i) \<in> set (offsets 0 (event_interactions s))" "(k, a) \<in> set (ia_particles i)" "j = k + off"
    using map_of_SomeD [OF a] by (auto simp: mi(1) shifted_def)
  have iok: "interaction_ok s i" by (rule mi(7) [OF oi(1)])
  then obtain p where p: "mc_heap (in_mc s) a = Some p" using oi(2) by (auto simp: interaction_ok_def keyed_particles_def)
  have "interaction_view s i k = Some p" using pv_mem [OF _ oi(2), of "in_mc s"] iok p by (simp add: interaction_view_def interaction_ok_def)
  moreover from merged_view [OF assms(1) oi(1) this] assms(2) have "q = merged_particle off i p" by (simp add: oi(3))
  ultimately show ?thesis using oi by blast
qed

lemma merged_fields [simp]:
  "pt_parents (merged_particle off i p) = (\<lambda>j. j + off) ` pt_parents p" "pt_daughters (merged_particle off i p) = (\<lambda>j. j + off) ` pt_daughters p"
  "pt_id (merged_particle off i p) = pt_id p + off" "pt_status (merged_particle off i p) = pt_status p" "pt_reason (merged_particle off i p) = pt_reason p"
  "pt_pdgID (merged_particle off i p) = pt_pdgID p" "has_definition cf (merged_particle off i p) = has_definition cf p"
  by (simp_all add: merged_particle_def particle_offset_def has_definition_def)

lemma view_keys: "inputs_ok s \<Longrightarrow> (off, i) \<in> set (offsets 0 (event_interactions s)) \<Longrightarrow> k \<in> fst ` set (ia_particles i) \<Longrightarrow> \<exists>p. interaction_view s i k = Some p"
proof -
  assume a: "inputs_ok s" "(off, i) \<in> set (offsets 0 (event_interactions s))" "k \<in> fst ` set (ia_particles i)"
  obtain b where b: "(k, b) \<in> set (ia_particles i)" using a(3) by auto
  have iok: "interaction_ok s i" by (rule merged_input(7) [OF a(1,2)])
  then show ?thesis using pv_mem [OF _ b, of "in_mc s"] b by (auto simp: interaction_view_def interaction_ok_def keyed_particles_def)
qed

lemma merged_root:
  assumes "inputs_ok s" and "(off, i) \<in> set (offsets 0 (event_interactions s))" and "k \<in> fst ` set (ia_particles i)"
  shows "is_root (view (merged_state s)) (k + off) = is_root (interaction_view s i) k"
proof -
  obtain p where p: "interaction_view s i k = Some p" using view_keys [OF assms] by blast
  from merged_view [OF assms(1,2) p] p show ?thesis by (simp add: is_root_def)
qed

lemma merged_related:
  assumes "inputs_ok s" and "\<forall>i \<in> set (event_interactions s). interaction_ready cf s i"
  shows "related (view (merged_state s))"
  unfolding related_def
proof (intro allI impI)
  fix j q e assume j: "view (merged_state s) j = Some q" "e \<in> pt_daughters q"
  obtain off i k p where oi: "(off, i) \<in> set (offsets 0 (event_interactions s))" "j = k + off" "interaction_view s i k = Some p" "q = merged_particle off i p"
    using merged_view_from [OF assms(1) j(1)] by blast
  have "i \<in> set (event_interactions s)" using oi(1) offsets_snd [of 0 "event_interactions s"] by (metis image_eqI list.set_map snd_conv)
  then have rd: "interaction_ready cf s i" using assms(2) by blast
  obtain d where d: "d \<in> pt_daughters p" "e = d + off" using j(2) oi(4) by auto
  have "pt_daughters p \<subseteq> fst ` set (ia_particles i)" "related (interaction_view s i)" using rd oi(3) unfolding interaction_ready_def by blast+
  then have "d \<in> fst ` set (ia_particles i)" "\<not> is_root (interaction_view s i) d" using d(1) oi(3) by (auto simp: related_def)
  then show "\<not> is_root (view (merged_state s)) e" using merged_root [OF assms(1) oi(1)] d(2) by simp
qed

lemma merged_record_ok:
  assumes "inputs_ok s" and "\<forall>i \<in> set (event_interactions s). interaction_ready cf s i"
  shows "record_ok cf (in_mc (merged_state s)) (ev_particles (in_mc (merged_state s)))"
    and "\<forall>(j, a) \<in> set (ev_particles (in_mc (merged_state s))). a \<noteq> 0 \<and> 0 \<le> j \<and> (\<exists>q. mc_heap (in_mc (merged_state s)) a = Some q \<and> pt_id q = j \<and>
        anySet (pt_status q) G4PARTICLE_GEN_STATUS \<and> pt_parents q \<union> pt_daughters q \<subseteq> fst ` set (ev_particles (in_mc (merged_state s))) \<and>
        \<not> isSet (pt_reason q) G4PARTICLE_FORCE_KILL)"
proof -
  let ?t = "merged_state s"
  note mi = merged_input [OF assms(1), folded merged_state_def]
  have each: "a \<noteq> 0 \<and> 0 \<le> j \<and> (\<exists>q. mc_heap (in_mc ?t) a = Some q \<and> pt_id q = j \<and>
        anySet (pt_status q) G4PARTICLE_GEN_STATUS \<and> pt_parents q \<union> pt_daughters q \<subseteq> fst ` set (ev_particles (in_mc ?t)) \<and>
        \<not> isSet (pt_reason q) G4PARTICLE_FORCE_KILL \<and> (pt_pdgID q < 1000000000 \<or> has_definition cf q))"
    if ja: "(j, a) \<in> set (ev_particles (in_mc ?t))" for j a
  proof -
    obtain off i k where oi: "(off, i) \<in> set (offsets 0 (event_interactions s))" "(k, a) \<in> set (ia_particles i)" "j = k + off"
      using ja by (auto simp: mi(1) shifted_def)
    have iok: "interaction_ok s i" by (rule mi(7) [OF oi(1)])
    then obtain p where p: "a \<noteq> 0" "mc_heap (in_mc s) a = Some p" "pt_id p = k" using oi(2) by (auto simp: interaction_ok_def keyed_particles_def)
    have v: "interaction_view s i k = Some p" using pv_mem [OF _ oi(2), of "in_mc s"] iok p by (simp add: interaction_view_def interaction_ok_def)
    have "i \<in> set (event_interactions s)" using oi(1) offsets_snd [of 0 "event_interactions s"] by (metis image_eqI list.set_map snd_conv)
    then have rd: "interaction_ready cf s i" using assms(2) by blast
    have keys: "(\<lambda>j. j + off) ` fst ` set (ia_particles i) \<subseteq> fst ` set (ev_particles (in_mc ?t))" using oi(1) by (force simp: mi(1) shifted_def)
    have pd: "pt_parents p \<union> pt_daughters p \<subseteq> fst ` set (ia_particles i)" "anySet (pt_status p) G4PARTICLE_GEN_STATUS"
      "\<not> isSet (pt_reason p) G4PARTICLE_FORCE_KILL" "pt_pdgID p < 1000000000 \<or> has_definition cf p" using rd v by (auto simp: interaction_ready_def)
    have "(\<lambda>j. j + off) ` (pt_parents p \<union> pt_daughters p) \<subseteq> fst ` set (ev_particles (in_mc ?t))" using pd(1) keys by blast
    then show ?thesis using mi(5) [OF oi(1,2)] mi(8) [OF ja] p pd oi(3) by (simp add: image_Un)
  qed
  show "record_ok cf (in_mc ?t) (ev_particles (in_mc ?t))" using each mi(4) unfolding record_ok_def by fast
  show "\<forall>(j, a) \<in> set (ev_particles (in_mc ?t)). a \<noteq> 0 \<and> 0 \<le> j \<and> (\<exists>q. mc_heap (in_mc ?t) a = Some q \<and> pt_id q = j \<and>
        anySet (pt_status q) G4PARTICLE_GEN_STATUS \<and> pt_parents q \<union> pt_daughters q \<subseteq> fst ` set (ev_particles (in_mc ?t)) \<and>
        \<not> isSet (pt_reason q) G4PARTICLE_FORCE_KILL)" using each by fast
qed

text \<open>The roots of the merged vertices are those of the interactions, shifted.\<close>

lemma interaction_vertex:
  assumes "inputs_ok s" and "(off, i) \<in> set (offsets 0 (event_interactions s))" and "v \<in> set (vertex_objects i)"
  shows "v \<noteq> 0 \<and> in_vertex (merged_state s) v \<noteq> None \<and> vx_out (vertex_of (merged_state s) v) = (\<lambda>j. j + off) ` vx_out (vertex_of s v)"
proof -
  note mi = merged_input [OF assms(1), folded merged_state_def]
  have "interaction_ok s i" by (rule mi(7) [OF assms(2)])
  then obtain w where "v \<noteq> 0" "in_vertex s v = Some w" using assms(3) by (auto simp: interaction_ok_def valid_vertices_def)
  then show ?thesis using mi(6) [OF assms(2,3)] by (simp add: vertex_of_def merged_vertex_def rebase_vertex_def)
qed

lemma merged_roots:
  assumes "inputs_ok s" and "interaction_ready cf s i" and "(off, i) \<in> set (offsets 0 (event_interactions s))" and "v \<in> set (vertex_objects i)"
  shows "roots_of (merged_state s) v = List.map (\<lambda>j. j + off) (interaction_roots s i v)"
proof -
  have out: "vx_out (vertex_of s v) \<subseteq> fst ` set (ia_particles i)" using assms(2,4) by (simp add: interaction_ready_def)
  have fin: "finite (vx_out (vertex_of s v))" by (rule finite_subset [OF out]) simp
  have "filter (is_root (view (merged_state s))) (List.map (\<lambda>j. j + off) ks) = List.map (\<lambda>j. j + off) (filter (is_root (interaction_view s i)) ks)"
    if "set ks \<subseteq> fst ` set (ia_particles i)" for ks
    using that by (induction ks) (simp_all add: merged_root [OF assms(1,3)])
  from this [of "sorted_list_of_set (vx_out (vertex_of s v))"] show ?thesis using fin out interaction_vertex [OF assms(1,3,4)]
    by (simp add: roots_of_def interaction_roots_def shift_sorted)
qed

lemma roots_range:
  assumes "interaction_ok s i" and "interaction_ready cf s i" and "v \<in> set (vertex_objects i)" and "k \<in> set (interaction_roots s i v)"
  shows "0 \<le> k \<and> k < extent i"
proof -
  have out: "vx_out (vertex_of s v) \<subseteq> fst ` set (ia_particles i)" using assms(2,3) by (simp add: interaction_ready_def)
  then have "finite (vx_out (vertex_of s v))" by (rule finite_subset) simp
  then have "k \<in> fst ` set (ia_particles i)" using assms(4) out by (auto simp: interaction_roots_def)
  then show ?thesis using below_extent [OF assms(1)] assms(1) by (auto simp: interaction_ok_def)
qed

lemma distinct_ranges:
  assumes "\<forall>i \<in> set is. distinct (R i) \<and> (\<forall>k \<in> set (R i). 0 \<le> k \<and> k < extent i) \<and> 0 \<le> extent i"
  shows "distinct (concat (List.map (\<lambda>(off, i). List.map (\<lambda>j. j + off) (R i)) (offsets off is))) \<and>
    (\<forall>k \<in> set (concat (List.map (\<lambda>(off, i). List.map (\<lambda>j. j + off) (R i)) (offsets off is))). off \<le> k)"
  using assms
proof (induction off "is" rule: offsets.induct)
  case (2 off i "is")
  let ?rest = "concat (List.map (\<lambda>(off, i). List.map (\<lambda>j. j + off) (R i)) (offsets (off + extent i) is))"
  have IH: "distinct ?rest" "\<forall>k \<in> set ?rest. off + extent i \<le> k" using "2.IH" "2.prems" by simp_all
  have i: "distinct (R i)" "\<forall>k \<in> set (R i). 0 \<le> k \<and> k < extent i" "0 \<le> extent i" using "2.prems" by simp_all
  have "\<forall>k \<in> set (List.map (\<lambda>j. j + off) (R i)). off \<le> k \<and> k < off + extent i" using i(2) by auto
  then have "set (List.map (\<lambda>j. j + off) (R i)) \<inter> set ?rest = {}" "\<forall>k \<in> set (List.map (\<lambda>j. j + off) (R i) @ ?rest). off \<le> k"
    using IH(2) i(3) by fastforce+
  moreover have "distinct (List.map (\<lambda>j. j + off) (R i))" using i(1) by (simp add: distinct_map inj_on_def)
  moreover have "concat (List.map (\<lambda>(off, i). List.map (\<lambda>j. j + off) (R i)) (offsets off (i # is))) = List.map (\<lambda>j. j + off) (R i) @ ?rest" by simp
  ultimately show ?case using IH(1) by (simp only: distinct_append)
qed simp

lemma merged_vertices:
  assumes "inputs_ok s"
  shows "input_vertices (merged_state s) = concat (List.map (vertex_objects \<circ> snd) (offsets 0 (event_interactions s)))"
proof -
  note mi = merged_input [OF assms, folded merged_state_def]
  have own: "concat (List.map snd (own_vertices i)) = vertex_objects i" for i by (simp add: own_vertices_def)
  have "concat (List.map snd (concat (List.map own_vertices is))) = concat (List.map vertex_objects is)" for "is"
    by (induction "is") (simp_all add: own)
  moreover have "concat (List.map (vertex_objects \<circ> snd) xs) = concat (List.map vertex_objects (List.map snd xs))" for xs :: "(int \<times> Interaction) list" by simp
  ultimately show ?thesis by (simp only: mi(2) offsets_snd)
qed

lemma merged_roots_distinct:
  assumes "inputs_ok s" and "\<forall>i \<in> set (event_interactions s). interaction_ready cf s i"
  shows "distinct (concat (List.map (roots_of (merged_state s)) (input_vertices (merged_state s))))"
proof -
  let ?ois = "offsets 0 (event_interactions s)" and ?is = "event_interactions s"
  let ?R = "\<lambda>i. concat (List.map (interaction_roots s i) (vertex_objects i))"
  have each: "concat (List.map (roots_of (merged_state s)) (vertex_objects i)) = List.map (\<lambda>j. j + off) (?R i)" if oi: "(off, i) \<in> set ?ois" for off i
  proof -
    have "i \<in> set ?is" using oi offsets_snd [of 0 ?is] by (metis image_eqI list.set_map snd_conv)
    then have rd: "interaction_ready cf s i" using assms(2) by blast
    have "List.map (roots_of (merged_state s)) (vertex_objects i) = List.map (\<lambda>v. List.map (\<lambda>j. j + off) (interaction_roots s i v)) (vertex_objects i)"
      using merged_roots [OF assms(1) rd oi] by simp
    then show ?thesis by (simp only: map_concat map_map comp_def)
  qed
  have "concat (List.map (roots_of (merged_state s)) (concat (List.map (vertex_objects \<circ> snd) xs))) =
      concat (List.map (\<lambda>(off, i). List.map (\<lambda>j. j + off) (?R i)) xs)" if "set xs \<subseteq> set ?ois" for xs
    using that by (induction xs) (auto simp: each)
  moreover have "\<forall>i \<in> set ?is. distinct (?R i) \<and> (\<forall>k \<in> set (?R i). 0 \<le> k \<and> k < extent i) \<and> 0 \<le> extent i"
  proof
    fix i assume i: "i \<in> set ?is"
    then have iok: "interaction_ok s i" and rd: "interaction_ready cf s i" using assms by (auto simp: inputs_ok_def)
    show "distinct (?R i) \<and> (\<forall>k \<in> set (?R i). 0 \<le> k \<and> k < extent i) \<and> 0 \<le> extent i"
      using rd roots_range [OF iok rd] extent_positive [OF iok] by (auto simp: interaction_ready_def)
  qed
  from distinct_ranges [OF this, of 0] have "distinct (concat (List.map (\<lambda>(off, i). List.map (\<lambda>j. j + off) (?R i)) ?ois))" by blast
  ultimately show ?thesis by (simp add: merged_vertices [OF assms(1)])
qed

section \<open>Events that can be tracked\<close>

text \<open>The input of an event after its initialization and after the readers and generators.\<close>

definition event_input :: "'d InputSettings \<Rightarrow> 'd InputState \<Rightarrow> bool" where
  "event_input cf s \<longleftrightarrow> inputs_ok s \<and> (\<forall>i \<in> set (event_interactions s). interaction_ready cf s i) \<and> \<not> in_locked s \<and>
     (\<forall>x \<ge> in_gnext s. ev_primaryMap (in_mc s) x = None) \<and> \<not> mc_haveSuspended (in_mc s) \<and> 0 < mc_next (in_mc s) \<and>
     (\<forall>a. mc_next (in_mc s) \<le> a \<longrightarrow> mc_heap (in_mc s) a = None) \<and> 0 < in_vnext s \<and> (\<forall>v. in_vnext s \<le> v \<longrightarrow> in_vertex s v = None)"

lemma merged_frame:
  "in_locked (merged_state s) = in_locked s" "in_gnext (merged_state s) = in_gnext s" "ev_primaryMap (in_mc (merged_state s)) = ev_primaryMap (in_mc s)"
  "mc_haveSuspended (in_mc (merged_state s)) = mc_haveSuspended (in_mc s)" "mc_next (in_mc (merged_state s)) = mc_next (in_mc s)"
  "ev_particleMap (in_mc (merged_state s)) = ev_particleMap (in_mc s)" "mc_heap (in_mc (merged_state s)) a = None \<longleftrightarrow> mc_heap (in_mc s) a = None"
proof -
  let ?ois = "offsets 0 (event_interactions s)"
  have one: "in_locked (merged_into off i u) = in_locked u" "in_gnext (merged_into off i u) = in_gnext u" for off i and u :: "'a InputState"
    by (simp_all add: merged_into_def heap_on_def vertices_on_def)
  have "in_locked (merged_all ois u) = in_locked u \<and> in_gnext (merged_all ois u) = in_gnext u" for ois and u :: "'a InputState"
  proof (induction ois arbitrary: u)
    case (Cons oi ois)
    then show ?case by (cases oi) (simp add: one)
  qed simp
  then show "in_locked (merged_state s) = in_locked s" "in_gnext (merged_state s) = in_gnext s" by (simp_all add: merged_state_def setNextPID_def)
  have f: "mc_frame (in_mc (merged_all ?ois s)) = mc_frame (in_mc s)" using merged_all_frame by blast
  have h: "mc_heap (in_mc (merged_all ?ois s)) a = None \<longleftrightarrow> mc_heap (in_mc s) a = None" using merged_all_frame by blast
  show "ev_primaryMap (in_mc (merged_state s)) = ev_primaryMap (in_mc s)"
    using arg_cong [OF f, of ev_primaryMap] by (simp add: mc_frame_def merged_state_def setNextPID_def)
  show "mc_haveSuspended (in_mc (merged_state s)) = mc_haveSuspended (in_mc s)"
    using arg_cong [OF f, of mc_haveSuspended] by (simp add: mc_frame_def merged_state_def setNextPID_def)
  show "mc_next (in_mc (merged_state s)) = mc_next (in_mc s)"
    using arg_cong [OF f, of mc_next] by (simp add: mc_frame_def merged_state_def setNextPID_def)
  show "ev_particleMap (in_mc (merged_state s)) = ev_particleMap (in_mc s)"
    using arg_cong [OF f, of ev_particleMap] by (simp add: mc_frame_def merged_state_def setNextPID_def)
  show "mc_heap (in_mc (merged_state s)) a = None \<longleftrightarrow> mc_heap (in_mc s) a = None" using h by (simp add: merged_state_def setNextPID_def)
qed

lemma merged_consistent:
  assumes "event_input cf s"
  shows "input_consistent cf (merged_state s)"
proof -
  have a: "inputs_ok s" "\<forall>i \<in> set (event_interactions s). interaction_ready cf s i" "\<not> in_locked s" "\<forall>x \<ge> in_gnext s. ev_primaryMap (in_mc s) x = None"
    using assms by (auto simp: event_input_def)
  note mi = merged_input [OF a(1), folded merged_state_def]
  have "v \<noteq> 0 \<and> in_vertex (merged_state s) v \<noteq> None \<and> vx_out (vertex_of (merged_state s) v) \<subseteq> fst ` set (ev_particles (in_mc (merged_state s)))"
    if v: "v \<in> set (input_vertices (merged_state s))" for v
  proof -
    obtain off i where oi: "(off, i) \<in> set (offsets 0 (event_interactions s))" "v \<in> set (vertex_objects i)"
      using v [unfolded merged_vertices [OF a(1)]] by auto
    have "i \<in> set (event_interactions s)" using oi(1) offsets_snd [of 0 "event_interactions s"] by (metis image_eqI list.set_map snd_conv)
    then have "vx_out (vertex_of s v) \<subseteq> fst ` set (ia_particles i)" using a(2) oi(2) by (simp add: interaction_ready_def)
    moreover have "(\<lambda>j. j + off) ` fst ` set (ia_particles i) \<subseteq> fst ` set (ev_particles (in_mc (merged_state s)))" 
    proof -
      have "set (shifted off i) \<subseteq> set (ev_particles (in_mc (merged_state s)))" using oi(1) by (auto simp: mi(1))
      then have "fst ` set (shifted off i) \<subseteq> fst ` set (ev_particles (in_mc (merged_state s)))" by (rule image_mono)
      moreover have "fst ` set (shifted off i) = (\<lambda>j. j + off) ` fst ` set (ia_particles i)" by (force simp: shifted_def)
      ultimately show ?thesis by simp
    qed
    ultimately show ?thesis using interaction_vertex [OF a(1) oi] by blast
  qed
  then have "vertices_consistent (merged_state s) (input_vertices (merged_state s))" by (simp add: vertices_consistent_def)
  then show ?thesis
    using merged_record_ok(1) [OF a(1,2)] merged_related [OF a(1,2)] merged_roots_distinct [OF a(1,2)] a(3,4)
    by (simp add: input_consistent_def Let_def merged_frame)
qed

lemma generated_input:
  assumes "event_input cf s" and "remarked (in_mc (merged_state s)) (in_mc t)" and "mc_next (in_mc t) = mc_next (in_mc s)"
    and "mc_haveSuspended (in_mc t) = mc_haveSuspended (in_mc s)"
  shows "generated (in_mc t)"
  unfolding generated_def
proof (intro conjI)
  let ?m = "merged_state s"
  have a: "inputs_ok s" "\<forall>i \<in> set (event_interactions s). interaction_ready cf s i" "\<not> mc_haveSuspended (in_mc s)" "0 < mc_next (in_mc s)"
    "\<forall>a. mc_next (in_mc s) \<le> a \<longrightarrow> mc_heap (in_mc s) a = None" using assms(1) by (auto simp: event_input_def)
  have pe: "ev_particles (in_mc t) = ev_particles (in_mc ?m)" using assms(2) by (simp add: remarked_def)
  have rel: "rel_option marked (mc_heap (in_mc ?m) x) (mc_heap (in_mc t) x)" for x using assms(2) by (simp add: remarked_def)
  show "map_ok (ev_particles (in_mc t))" using merged_input(4) [OF a(1), folded merged_state_def] by (simp add: pe)
  show "\<not> mc_haveSuspended (in_mc t)" "0 < mc_next (in_mc t)" using a(3,4) assms(3,4) by simp_all
  show "\<forall>x \<ge> mc_next (in_mc t). mc_heap (in_mc t) x = None"
  proof (intro allI impI)
    fix x assume "mc_next (in_mc t) \<le> x"
    then have "mc_heap (in_mc ?m) x = None" using a(5) assms(3) by (simp add: merged_frame)
    then show "mc_heap (in_mc t) x = None" using rel [of x] by simp
  qed
  show "\<forall>(k, a) \<in> set (ev_particles (in_mc t)). a \<noteq> 0 \<and> 0 \<le> k \<and> (\<exists>p. mc_heap (in_mc t) a = Some p \<and> pt_id p = k \<and>
        (is_primary p \<or> anySet (pt_status p) G4PARTICLE_GEN_STATUS) \<and> pt_parents p \<union> pt_daughters p \<subseteq> fst ` set (ev_particles (in_mc t)) \<and>
        \<not> isSet (pt_reason p) G4PARTICLE_FORCE_KILL)"
  proof clarify
    fix k a assume "(k, a) \<in> set (ev_particles (in_mc t))"
    then obtain q where q: "a \<noteq> 0" "0 \<le> k" "mc_heap (in_mc ?m) a = Some q" "pt_id q = k" "anySet (pt_status q) G4PARTICLE_GEN_STATUS"
      "pt_parents q \<union> pt_daughters q \<subseteq> fst ` set (ev_particles (in_mc ?m))" "\<not> isSet (pt_reason q) G4PARTICLE_FORCE_KILL"
      using merged_record_ok(2) [OF a(1,2)] by (fastforce simp: pe)
    obtain p where p: "mc_heap (in_mc t) a = Some p" "marked q p" using remarked_Some [OF assms(2) q(3)] by blast
    have u: "unmarked p = unmarked q" using p(2) by (simp add: marked_def)
    have f: "pt_id p = pt_id q" "pt_status p = pt_status q" "pt_parents p = pt_parents q" "pt_daughters p = pt_daughters q"
      using u by (metis unmarked_fields)+
    have "\<not> isSet (pt_reason p) G4PARTICLE_FORCE_KILL" using q(7) p(2) by (simp add: force_kill_bit marked_def)
    then show "a \<noteq> 0 \<and> 0 \<le> k \<and> (\<exists>p. mc_heap (in_mc t) a = Some p \<and> pt_id p = k \<and>
        (is_primary p \<or> anySet (pt_status p) G4PARTICLE_GEN_STATUS) \<and> pt_parents p \<union> pt_daughters p \<subseteq> fst ` set (ev_particles (in_mc t)) \<and>
        \<not> isSet (pt_reason p) G4PARTICLE_FORCE_KILL)" using q p(1) by (simp add: f pe)
  qed
qed

section \<open>The particle generator\<close>

definition gun_kinematics :: "'d Generator \<Rightarrow> nat \<Rightarrow> 'd vec \<times> 'd vec" where
  "gun_kinematics gn n = the (gn_particle gn n)"

definition gun_particle :: "'d InputSettings \<Rightarrow> 'd Generator \<Rightarrow> int \<times> 'd \<times> 8 word \<Rightarrow> nat \<Rightarrow> 'd Particle" where
  "gun_particle cf gn d n = generated_particle cf gn d (int n) (fst (gun_kinematics gn n)) (snd (gun_kinematics gn n))"

text \<open>The state and the interaction after \<open>n\<close> particles.\<close>

definition gun_state :: "'d InputSettings \<Rightarrow> 'd Generator \<Rightarrow> int \<times> 'd \<times> 8 word \<Rightarrow> 'd InputState \<Rightarrow> nat \<Rightarrow> 'd Vertex \<Rightarrow> nat \<Rightarrow> 'd InputState" where
  "gun_state cf gn d s v w n = s\<lparr>in_mc := (in_mc s)\<lparr>mc_next := mc_next (in_mc s) + n,
     mc_heap := (\<lambda>a. if mc_next (in_mc s) \<le> a \<and> a < mc_next (in_mc s) + n then Some (gun_particle cf gn d (a - mc_next (in_mc s))) else mc_heap (in_mc s) a)\<rparr>,
     in_vertex := (in_vertex s)(v \<mapsto> w\<lparr>vx_out := int ` {0..<n}\<rparr>)\<rparr>"

definition gun_interaction :: "Interaction \<Rightarrow> nat \<Rightarrow> nat \<Rightarrow> Interaction" where
  "gun_interaction i base n = i\<lparr>ia_particles := List.map (\<lambda>k. (int k, base + k)) [0..<n], ia_next := int n - 1\<rparr>"

lemma gun_keys: "fst ` set (ia_particles (gun_interaction i base n)) = int ` {0..<n}"
  by (force simp: gun_interaction_def)

lemma gun_step:
  assumes "gn_particle gn n \<noteq> None" and "v \<noteq> 0"
  shows "generator_step cf gn d v (gun_state cf gn d s v w n, gun_interaction i (mc_next (in_mc s)) n) n =
    Inr (gun_state cf gn d s v w (Suc n), gun_interaction i (mc_next (in_mc s)) (Suc n))"
proof -
  let ?b = "mc_next (in_mc s)" and ?S = "gun_state cf gn d s v w" and ?I = "gun_interaction i (mc_next (in_mc s))"
  obtain mom spin where g: "gn_particle gn n = Some (mom, spin)" using assms(1) by auto
  then have gp: "generated_particle cf gn d (int n) mom spin = gun_particle cf gn d n" by (simp add: gun_particle_def gun_kinematics_def)
  have nid: "interaction_nextPID (?I n) = ((?I n)\<lparr>ia_next := int n\<rparr>, int n)" by (simp add: interaction_nextPID_def gun_interaction_def)
  have "\<forall>k' \<in> fst ` set (ia_particles (?I n)). k' < int n" by (simp add: gun_keys)
  from emplace_last [OF this] have ps: "fst (map_emplace (int n) a (ia_particles (?I n))) = ia_particles (?I n) @ [(int n, a)]" for a .
  have I: "(?I n)\<lparr>ia_next := int n, ia_particles := ia_particles (?I n) @ [(int n, ?b + n)]\<rparr> = ?I (Suc n)"
    by (rule Interaction.equality) (simp_all add: gun_interaction_def)
  have heap: "(mc_heap (in_mc (?S n)))(?b + n \<mapsto> gun_particle cf gn d n) = mc_heap (in_mc (?S (Suc n)))"
    by (rule ext) (auto simp: gun_state_def)
  have out: "(in_vertex (?S n))(v \<mapsto> w\<lparr>vx_out := insert (int n) (int ` {0..<n})\<rparr>) = in_vertex (?S (Suc n))"
    by (auto simp: gun_state_def atLeast0_lessThan_Suc)
  have S: "(?S n)\<lparr>in_mc := (in_mc (?S n))\<lparr>mc_next := Suc (?b + n), mc_heap := mc_heap (in_mc (?S (Suc n)))\<rparr>, in_vertex := in_vertex (?S (Suc n))\<rparr> = ?S (Suc n)"
    by (intro InputState.equality MCState.equality) (simp_all add: gun_state_def)
  have nx: "mc_next (in_mc (?S n)) = ?b + n" by (simp add: gun_state_def)
  have vx: "in_vertex (?S n) v = Some (w\<lparr>vx_out := int ` {0..<n}\<rparr>)" by (simp add: gun_state_def)
  have vm: "vertex_modify ((?S n)\<lparr>in_mc := fst (particle_alloc (in_mc (?S n)) (gun_particle cf gn d n))\<rparr>) v (\<lambda>v. v\<lparr>vx_out := insert (int n) (vx_out v)\<rparr>) = Inr (?S (Suc n))"
    using assms(2) by (simp add: vertex_modify_def vertex_get_def vertex_put_def vx particle_alloc_def nx heap out S)
  have al: "particle_alloc (in_mc (?S n)) (gun_particle cf gn d n) = (fst (particle_alloc (in_mc (?S n)) (gun_particle cf gn d n)), ?b + n)"
    by (simp add: particle_alloc_def nx)
  show ?thesis unfolding generator_step_def prod.case nid Let_def g option.case gp by (subst al) (simp add: vm ps I)
qed

lemma gun_loop:
  assumes "\<forall>k < n. gn_particle gn k \<noteq> None" and "v \<noteq> 0"
  shows "foldE (generator_step cf gn d v) (gun_state cf gn d s v w 0, gun_interaction i (mc_next (in_mc s)) 0) [0..<n] =
    Inr (gun_state cf gn d s v w n, gun_interaction i (mc_next (in_mc s)) n)"
  using assms
proof (induction n)
  case (Suc n)
  then show ?case using gun_step [of gn n v cf d s w i] by (simp add: foldE_append)
qed simp

section \<open>One more interaction\<close>

lemma concat_objects: "mset (concat (List.map f xs)) = sum_mset (image_mset (\<lambda>x. mset (f x)) (mset xs))"
  by (induction xs) simp_all

lemma distinct_added:
  assumes "map_of m k = None"
  shows "distinct (concat (List.map f (List.map snd (map_assign k I m)))) = distinct (concat (List.map f (I # List.map snd m)))"
proof -
  have "mset (List.map snd (map_assign k I m)) = mset (I # List.map snd m)" by (simp add: mset_assign [OF assms])
  then have "mset (concat (List.map f (List.map snd (map_assign k I m)))) = mset (concat (List.map f (I # List.map snd m)))"
    by (simp only: concat_objects)
  then show ?thesis by (rule mset_eq_imp_distinct_iff)
qed

text \<open>The stores of \<open>t\<close> extend those of \<open>s\<close>.\<close>

definition extends :: "'d InputState \<Rightarrow> 'd InputState \<Rightarrow> bool" where
  "extends s t \<longleftrightarrow> (\<forall>a. mc_heap (in_mc s) a \<noteq> None \<longrightarrow> mc_heap (in_mc t) a = mc_heap (in_mc s) a) \<and> (\<forall>v. in_vertex s v \<noteq> None \<longrightarrow> in_vertex t v = in_vertex s v)"

lemma extends_ok:
  assumes "extends s t" and "interaction_ok s i"
  shows "interaction_ok t i" and "interaction_view t i = interaction_view s i" and "v \<in> set (vertex_objects i) \<Longrightarrow> vertex_of t v = vertex_of s v"
    and "interaction_ready cf s i \<Longrightarrow> interaction_ready cf t i"
proof -
  have iok: "keyed_particles s (ia_particles i)" "valid_vertices s (vertex_objects i)" using assms(2) by (simp_all add: interaction_ok_def)
  have heap: "mc_heap (in_mc t) a = mc_heap (in_mc s) a" if "(k, a) \<in> set (ia_particles i)" for k a
    using iok(1) that assms(1) by (auto simp: keyed_particles_def extends_def)
  have "keyed_particles t (ia_particles i)" using iok(1) heap unfolding keyed_particles_def by (metis (no_types, lifting) case_prodE case_prodI)
  moreover have "valid_vertices t (vertex_objects i)" using iok(2) assms(1) by (auto simp: valid_vertices_def extends_def)
  ultimately show "interaction_ok t i" using assms(2) by (simp add: interaction_ok_def)
  show v: "interaction_view t i = interaction_view s i"
  proof
    fix k show "interaction_view t i k = interaction_view s i k"
      by (cases "map_of (ia_particles i) k") (auto simp: interaction_view_def pv_def dest: heap map_of_SomeD)
  qed
  show w: "vertex_of t v = vertex_of s v" if "v \<in> set (vertex_objects i)" for v
    using that iok(2) assms(1) by (auto simp: vertex_of_def valid_vertices_def extends_def)
  have "List.map (interaction_roots t i) (vertex_objects i) = List.map (interaction_roots s i) (vertex_objects i)"
    by (simp add: interaction_roots_def v w)
  then have "distinct (concat (List.map (interaction_roots t i) (vertex_objects i))) = distinct (concat (List.map (interaction_roots s i) (vertex_objects i)))"
    by (simp only:)
  then show "interaction_ready cf t i" if "interaction_ready cf s i"
    using that w unfolding interaction_ready_def v by (simp only:) simp
qed

lemma input_added:
  assumes "event_input cf s" and "map_of (in_interactions s) k = None" and "in_interactions t = map_assign k I (in_interactions s)" and "ia_mask I = k"
    and "extends s t" and "interaction_ok t I" and "interaction_ready cf t I"
    and "\<forall>a \<in> set (particle_objects I). mc_heap (in_mc s) a = None" and "\<forall>v \<in> set (vertex_objects I). in_vertex s v = None"
    and "ev_particles (in_mc t) = ev_particles (in_mc s)" and "in_vertices t = in_vertices s" and "in_locked t = in_locked s" and "in_gnext t = in_gnext s"
    and "ev_primaryMap (in_mc t) = ev_primaryMap (in_mc s)" and "mc_haveSuspended (in_mc t) = mc_haveSuspended (in_mc s)"
    and "0 < mc_next (in_mc t)" and "\<forall>a. mc_next (in_mc t) \<le> a \<longrightarrow> mc_heap (in_mc t) a = None"
    and "0 < in_vnext t" and "\<forall>v. in_vnext t \<le> v \<longrightarrow> in_vertex t v = None"
  shows "event_input cf t"
proof -
  have s: "inputs_ok s" "\<forall>i \<in> set (event_interactions s). interaction_ready cf s i" "\<not> in_locked s" "\<forall>x \<ge> in_gnext s. ev_primaryMap (in_mc s) x = None"
    "\<not> mc_haveSuspended (in_mc s)" using assms(1) by (auto simp: event_input_def)
  have is': "event_interactions t = List.map snd (map_assign k I (in_interactions s))" by (simp add: event_interactions_def assms(3))
  have set_is: "set (event_interactions t) = insert I (set (event_interactions s))"
  proof -
    have "set (map_assign k I (in_interactions s)) = insert (k, I) (set (in_interactions s))" by (rule set_assign [OF assms(2)])
    then show ?thesis by (simp add: event_interactions_def assms(3))
  qed
  have old: "interaction_ok s i" "interaction_ready cf s i" if "i \<in> set (event_interactions s)" for i using s(1,2) that by (auto simp: inputs_ok_def)
  have oks: "\<forall>i \<in> set (event_interactions t). interaction_ok t i \<and> interaction_ready cf t i"
    using extends_ok [OF assms(5)] old assms(6,7) by (auto simp: set_is)
  have dp: "distinct (concat (List.map particle_objects (event_interactions t)))"
  proof -
    have "mc_heap (in_mc s) a \<noteq> None" if "i \<in> set (event_interactions s)" "a \<in> set (particle_objects i)" for i a
      using old(1) [OF that(1)] that(2) by (auto simp: interaction_ok_def keyed_particles_def particle_objects_def)
    then have "set (particle_objects I) \<inter> set (concat (List.map particle_objects (event_interactions s))) = {}" using assms(8) by fastforce
    moreover have "distinct (particle_objects I)" using assms(6) by (simp add: interaction_ok_def)
    ultimately show ?thesis using s(1) unfolding is' distinct_added [OF assms(2)] by (simp add: inputs_ok_def event_interactions_def)
  qed
  have dv: "distinct (concat (List.map vertex_objects (event_interactions t)))"
  proof -
    have "in_vertex s v \<noteq> None" if "i \<in> set (event_interactions s)" "v \<in> set (vertex_objects i)" for i v
      using old(1) [OF that(1)] that(2) by (auto simp: interaction_ok_def valid_vertices_def)
    then have "set (vertex_objects I) \<inter> set (concat (List.map vertex_objects (event_interactions s))) = {}" using assms(9) by fastforce
    moreover have "distinct (vertex_objects I)" using assms(6) by (simp add: interaction_ok_def)
    ultimately show ?thesis using s(1) unfolding is' distinct_added [OF assms(2)] by (simp add: inputs_ok_def event_interactions_def)
  qed
  have "map_ok (in_interactions t)" using s(1) by (simp add: assms(3) inputs_ok_def)
  moreover have "\<forall>(k, i) \<in> set (in_interactions t). ia_mask i = k"
    using s(1) assms(4) mset_assign [OF assms(2), of I] by (auto simp: inputs_ok_def assms(3) dest!: arg_cong [where f = set_mset])
  ultimately have "inputs_ok t" using s(1) oks dp dv by (simp add: inputs_ok_def assms(10,11))
  then show ?thesis using s oks assms(12-19) by (simp add: event_input_def)
qed

lemma merged_gen_status: "G4PARTICLE_GEN_STABLE AND G4PARTICLE_GEN_STATUS \<noteq> 0"
  by (simp add: G4PARTICLE_GEN_STABLE_def G4PARTICLE_GEN_STATUS_def)

lemma gun_particle_fields:
  "pt_id (gun_particle cf gn d n) = int n" "pt_parents (gun_particle cf gn d n) = {}" "pt_daughters (gun_particle cf gn d n) = {}"
  "pt_pdgID (gun_particle cf gn d n) = fst d" "pt_status (gun_particle cf gn d n) = G4PARTICLE_GEN_STABLE" "pt_reason (gun_particle cf gn d n) = 0"
  by (simp_all add: gun_particle_def generated_particle_def or_status_def Particle_new_def Let_def split: prod.split)

lemma gun_run:
  fixes cf :: "'d InputSettings"
  assumes "gn_definition gn = Some d" and "map_of (in_interactions s) (gn_mask gn) = None" and "\<forall>k < gn_multiplicity gn. gn_particle gn k \<noteq> None"
    and "0 < in_vnext s"
  defines "v \<equiv> in_vnext s" and "n \<equiv> gn_multiplicity gn"
  defines "w \<equiv> (Vertex_new cf)\<lparr>vx_mask := gn_mask gn, vx_pos := gn_position gn\<rparr>"
  defines "i \<equiv> Interaction_new\<lparr>ia_mask := gn_mask gn, ia_vertices := [(gn_mask gn, [v])]\<rparr>"
  shows "\<exists>t. particle_generator cf gn s = Inr t \<and> in_interactions t = map_assign (gn_mask gn) (gun_interaction i (mc_next (in_mc s)) n)
      (map_assign (gn_mask gn) (Interaction_new\<lparr>ia_mask := gn_mask gn\<rparr>) (in_interactions s)) \<and>
    in_mc t = in_mc (gun_state cf gn d s v w n) \<and> in_vertex t = in_vertex (gun_state cf gn d s v w n) \<and> in_vnext t = Suc v \<and>
    in_vertices t = in_vertices s \<and> in_locked t = in_locked s \<and> in_gnext t = in_gnext s \<and> in_g4vertices t = in_g4vertices s"
proof -
  let ?I0 = "Interaction_new\<lparr>ia_mask := gn_mask gn\<rparr>"
  let ?s1 = "s\<lparr>in_interactions := map_assign (gn_mask gn) ?I0 (in_interactions s)\<rparr>"
  define s2 where "s2 = ?s1\<lparr>in_vnext := Suc v, in_vertex := (in_vertex s)(v \<mapsto> w)\<rparr>"
  have s2: "in_mc s2 = in_mc s" "in_vertex s2 = (in_vertex s)(v \<mapsto> w)" "in_vnext s2 = Suc v" "in_interactions s2 = in_interactions ?s1"
    "in_vertices s2 = in_vertices s" "in_locked s2 = in_locked s" "in_gnext s2 = in_gnext s" "in_g4vertices s2 = in_g4vertices s" by (simp_all add: s2_def)
  have add: "event_add s (gn_mask gn) (Some Interaction_new) = Inr ?s1" using assms(2) by (simp add: event_add_def)
  have "vx_out w = {}" by (simp add: w_def Vertex_new_def Let_def)
  then have w0: "w\<lparr>vx_out := {}\<rparr> = w" by simp
  have start: "gun_state cf gn d s2 v w 0 = s2" by (intro InputState.equality MCState.equality) (auto simp: gun_state_def w0 s2 fun_eq_iff)
  have i0: "gun_interaction i (mc_next (in_mc s)) 0 = i" by (rule Interaction.equality) (simp_all add: gun_interaction_def i_def Interaction_new_def)
  have v0: "v \<noteq> 0" using assms(4) by (simp add: v_def)
  have "foldE (generator_step cf gn d v) (s2, i) [0..<n] = Inr (gun_state cf gn d s2 v w n, gun_interaction i (mc_next (in_mc s)) n)"
    using gun_loop [of n gn v cf d s2 w i] assms(3) v0 by (simp add: start i0 n_def s2(1))
  then have "particle_generator cf gn s = Inr ((gun_state cf gn d s2 v w n)\<lparr>in_interactions := map_assign (gn_mask gn) (gun_interaction i (mc_next (in_mc s)) n)
      (in_interactions (gun_state cf gn d s2 v w n))\<rparr>)"
    using assms(1) by (simp add: particle_generator_def add vertex_alloc_def v_def w_def i_def n_def s2_def)
  moreover have "in_mc (gun_state cf gn d s2 v w n) = in_mc (gun_state cf gn d s v w n)" "in_vertex (gun_state cf gn d s2 v w n) = in_vertex (gun_state cf gn d s v w n)"
    unfolding gun_state_def s2 by simp_all
  moreover have "in_interactions (gun_state cf gn d s2 v w n) = in_interactions ?s1" "in_vnext (gun_state cf gn d s2 v w n) = Suc v"
    "in_vertices (gun_state cf gn d s2 v w n) = in_vertices s" "in_locked (gun_state cf gn d s2 v w n) = in_locked s" "in_gnext (gun_state cf gn d s2 v w n) = in_gnext s"
    "in_g4vertices (gun_state cf gn d s2 v w n) = in_g4vertices s"
    by (simp_all add: gun_state_def s2)
  ultimately show ?thesis by simp
qed

lemma generator_adds:
  assumes "event_input cf s" and "gn_definition gn = Some (pdg, mass, charge)" and "map_of (in_interactions s) (gn_mask gn) = None"
    and "\<forall>k < gn_multiplicity gn. gn_particle gn k \<noteq> None"
  shows "\<exists>t i v. particle_generator cf gn s = Inr t \<and> (pdg < 1000000000 \<or> is_known cf pdg \<longrightarrow> event_input cf t) \<and> in_interactions t = map_assign (gn_mask gn) i (in_interactions s) \<and>
    List.map fst (ia_particles i) = List.map int [0..<gn_multiplicity gn] \<and> ia_vertices i = [(gn_mask gn, [v])] \<and>
    vx_out (vertex_of t v) = int ` {0..<gn_multiplicity gn} \<and> vx_pos (vertex_of t v) = gn_position gn \<and> vx_time (vertex_of t v) = cf_zero (is_new cf) \<and>
    (\<forall>j p. interaction_view t i j = Some p \<longleftrightarrow> (\<exists>k < gn_multiplicity gn. j = int k \<and> p = gun_particle cf gn (pdg, mass, charge) k)) \<and>
    in_gnext t = in_gnext s \<and> in_g4vertices t = in_g4vertices s \<and> ev_particleMap (in_mc t) = ev_particleMap (in_mc s)"
proof -
  let ?n = "gn_multiplicity gn" and ?v = "in_vnext s" and ?b = "mc_next (in_mc s)" and ?d = "(pdg, mass, charge)"
  let ?w = "(Vertex_new cf)\<lparr>vx_mask := gn_mask gn, vx_pos := gn_position gn\<rparr>"
  define i where "i = gun_interaction (Interaction_new\<lparr>ia_mask := gn_mask gn, ia_vertices := [(gn_mask gn, [?v])]\<rparr>) ?b ?n"
  have s: "inputs_ok s" "0 < ?b" "\<forall>a. ?b \<le> a \<longrightarrow> mc_heap (in_mc s) a = None" "0 < ?v" "\<forall>v. ?v \<le> v \<longrightarrow> in_vertex s v = None"
    using assms(1) by (auto simp: event_input_def)
  obtain t where t: "particle_generator cf gn s = Inr t"
    "in_interactions t = map_assign (gn_mask gn) i (map_assign (gn_mask gn) (Interaction_new\<lparr>ia_mask := gn_mask gn\<rparr>) (in_interactions s))"
    "in_mc t = in_mc (gun_state cf gn ?d s ?v ?w ?n)" "in_vertex t = in_vertex (gun_state cf gn ?d s ?v ?w ?n)" "in_vnext t = Suc ?v"
    "in_vertices t = in_vertices s" "in_locked t = in_locked s" "in_gnext t = in_gnext s" "in_g4vertices t = in_g4vertices s"
    using gun_run [OF assms(2-4) s(4), folded i_def] by blast
  have ti: "in_interactions t = map_assign (gn_mask gn) i (in_interactions s)"
    using sm.assign_twice [of "in_interactions s" "gn_mask gn" i] s(1) by (simp add: t(2) inputs_ok_def)
  have heap: "mc_heap (in_mc t) a = (if ?b \<le> a \<and> a < ?b + ?n then Some (gun_particle cf gn ?d (a - ?b)) else mc_heap (in_mc s) a)" for a
    by (simp add: t(3) gun_state_def)
  have vx: "in_vertex t = (in_vertex s)(?v \<mapsto> ?w\<lparr>vx_out := int ` {0..<?n}\<rparr>)" by (simp add: t(4) gun_state_def)
  have old_heap: "mc_heap (in_mc s) a \<noteq> None \<Longrightarrow> a < ?b" for a using s(3) by (meson not_le)
  have old_vx: "in_vertex s v \<noteq> None \<Longrightarrow> v < ?v" for v using s(5) by (meson not_le)
  have ps: "ia_particles i = List.map (\<lambda>k. (int k, ?b + k)) [0..<?n]" by (simp add: i_def gun_interaction_def)
  have ps_ok: "map_ok (ia_particles i)" by (simp add: map_ok_def ps sorted_wrt_map comp_def)
  have vo: "vertex_objects i = [?v]" by (simp add: i_def vertex_objects_def gun_interaction_def)
  have po: "particle_objects i = List.map (\<lambda>k. ?b + k) [0..<?n]" by (simp add: particle_objects_def ps)
  have view: "interaction_view t i (int k) = Some (gun_particle cf gn ?d k)" if "k < ?n" for k
  proof -
    have "(int k, ?b + k) \<in> set (ia_particles i)" using that by (auto simp: ps)
    from pv_mem [OF ps_ok this, of "in_mc t"] show ?thesis using that by (simp add: interaction_view_def heap)
  qed
  have view_from: "\<exists>k < ?n. j = int k \<and> p = gun_particle cf gn ?d k" if "interaction_view t i j = Some p" for j p
  proof -
    have "map_of (ia_particles i) j \<noteq> None" using that by (auto simp: interaction_view_def pv_def bind_eq_Some_conv)
    then have "j \<in> fst ` set (ia_particles i)" by (simp add: map_of_eq_None_iff)
    then obtain k where "k < ?n" "j = int k" by (auto simp: ps)
    then show ?thesis using view that by auto
  qed
  have "keyed_particles t (ia_particles i)" using s(2) by (auto simp: keyed_particles_def ps heap gun_particle_fields)
  moreover have "\<forall>k \<in> fst ` set (ia_particles i). 0 \<le> k" by (auto simp: ps)
  moreover have "valid_vertices t [?v]" using s(4) by (simp add: valid_vertices_def vx)
  moreover have "length (ia_vertices i) \<le> 1" by (simp add: i_def gun_interaction_def)
  ultimately have iok: "interaction_ok t i" using ps_ok by (simp add: interaction_ok_def vo po distinct_map inj_on_def)
  have vo_out: "vx_out (vertex_of t ?v) = int ` {0..<?n}" by (simp add: vertex_of_def vx)
  have ready: "interaction_ready cf t i" if known: "pdg < 1000000000 \<or> is_known cf pdg"
    unfolding interaction_ready_def
  proof (intro conjI)
    show "related (interaction_view t i)" using view_from by (fastforce simp: related_def gun_particle_fields)
    show "\<forall>k p. interaction_view t i k = Some p \<longrightarrow> pt_parents p \<union> pt_daughters p \<subseteq> fst ` set (ia_particles i) \<and>
        anySet (pt_status p) G4PARTICLE_GEN_STATUS \<and> \<not> isSet (pt_reason p) G4PARTICLE_FORCE_KILL \<and> (pt_pdgID p < 1000000000 \<or> has_definition cf p)"
      using view_from known merged_gen_status by (fastforce simp: gun_particle_fields anySet_def has_definition_def force_kill_bit)
    show "\<forall>v \<in> set (vertex_objects i). vx_out (vertex_of t v) \<subseteq> fst ` set (ia_particles i)" by (force simp: vo vo_out ps)
    show "distinct (concat (List.map (interaction_roots t i) (vertex_objects i)))" by (simp add: vo interaction_roots_def)
  qed
  have ext: "extends s t" using old_heap old_vx by (fastforce simp: extends_def heap vx)
  have tf: "ev_particles (in_mc t) = ev_particles (in_mc s)" "ev_primaryMap (in_mc t) = ev_primaryMap (in_mc s)"
    "mc_haveSuspended (in_mc t) = mc_haveSuspended (in_mc s)" "mc_next (in_mc t) = ?b + ?n" "ev_particleMap (in_mc t) = ev_particleMap (in_mc s)" by (simp_all add: t(3) gun_state_def)
  have "ia_mask i = gn_mask gn" by (simp add: i_def gun_interaction_def)
  moreover have "\<forall>a \<in> set (particle_objects i). mc_heap (in_mc s) a = None" "\<forall>v \<in> set (vertex_objects i). in_vertex s v = None"
    using s(3,5) by (auto simp: po vo)
  moreover have "0 < mc_next (in_mc t)" "\<forall>a. mc_next (in_mc t) \<le> a \<longrightarrow> mc_heap (in_mc t) a = None" "0 < in_vnext t" "\<forall>v. in_vnext t \<le> v \<longrightarrow> in_vertex t v = None"
    using s(2,3,5) by (auto simp: tf heap t(5) vx)
  ultimately have "pdg < 1000000000 \<or> is_known cf pdg \<longrightarrow> event_input cf t"
    using tf t(6-8) by (intro impI) (rule input_added [OF assms(1,3) ti _ ext iok ready])
  moreover have "List.map fst (ia_particles i) = List.map int [0..<?n]" "ia_vertices i = [(gn_mask gn, [?v])]" by (simp_all add: i_def gun_interaction_def)
  moreover have "vx_pos (vertex_of t ?v) = gn_position gn" "vx_time (vertex_of t ?v) = cf_zero (is_new cf)"
    by (simp_all add: vertex_of_def vx Vertex_new_def Let_def)
  moreover have "\<forall>j p. interaction_view t i j = Some p \<longleftrightarrow> (\<exists>k < ?n. j = int k \<and> p = gun_particle cf gn ?d k)" using view view_from by metis
  ultimately show ?thesis using t(1,8,9) ti vo_out tf(5) by blast
qed

text \<open>A photon without momentum ends the loop at its turn.\<close>

lemma gun_fails:
  assumes "gn_definition gn = Some d" and "map_of (in_interactions s) (gn_mask gn) = None" and "\<exists>k < gn_multiplicity gn. gn_particle gn k = None"
    and "0 < in_vnext s"
  shows "particle_generator cf gn s = Inl (RuntimeError ''Cannot assign polarization to optical photon with zero momentum!'')"
proof -
  let ?v = "in_vnext s" and ?w = "(Vertex_new cf)\<lparr>vx_mask := gn_mask gn, vx_pos := gn_position gn\<rparr>"
  let ?i = "Interaction_new\<lparr>ia_mask := gn_mask gn, ia_vertices := [(gn_mask gn, [in_vnext s])]\<rparr>" and ?n = "gn_multiplicity gn"
  let ?s1 = "s\<lparr>in_interactions := map_assign (gn_mask gn) (Interaction_new\<lparr>ia_mask := gn_mask gn\<rparr>) (in_interactions s)\<rparr>"
  define s2 where "s2 = ?s1\<lparr>in_vnext := Suc ?v, in_vertex := (in_vertex s)(?v \<mapsto> ?w)\<rparr>"
  define k where "k = (LEAST k. k < ?n \<and> gn_particle gn k = None)"
  have k: "k < ?n" "gn_particle gn k = None" using LeastI_ex [OF assms(3)] by (simp_all add: k_def)
  have before: "\<forall>j < k. gn_particle gn j \<noteq> None"
  proof (intro allI impI)
    fix j assume "j < k"
    then show "gn_particle gn j \<noteq> None" using not_less_Least [of j "\<lambda>k. k < ?n \<and> gn_particle gn k = None"] k(1) by (auto simp: k_def)
  qed
  have add: "event_add s (gn_mask gn) (Some Interaction_new) = Inr ?s1" using assms(2) by (simp add: event_add_def)
  have "?w\<lparr>vx_out := {}\<rparr> = ?w" by (simp add: Vertex_new_def Let_def)
  then have start: "gun_state cf gn d s2 ?v ?w 0 = s2" by (intro InputState.equality MCState.equality) (auto simp: gun_state_def s2_def fun_eq_iff)
  have i0: "gun_interaction ?i (mc_next (in_mc s2)) 0 = ?i" by (rule Interaction.equality) (simp_all add: gun_interaction_def Interaction_new_def)
  have "[0..<?n] = [0..<k] @ k # [Suc k..<?n]" using k(1) upt_add_eq_append [of 0 k "?n - k"] upt_conv_Cons [OF k(1)] by simp
  moreover have "foldE (generator_step cf gn d ?v) (s2, ?i) [0..<k] = Inr (gun_state cf gn d s2 ?v ?w k, gun_interaction ?i (mc_next (in_mc s2)) k)"
    using gun_loop [OF before, of ?v cf d s2 ?w ?i] assms(4) by (simp add: start i0)
  moreover have "generator_step cf gn d ?v x k = Inl (RuntimeError ''Cannot assign polarization to optical photon with zero momentum!'')" for x
    by (cases x) (simp add: generator_step_def k(2) interaction_nextPID_def)
  ultimately have "foldE (generator_step cf gn d ?v) (s2, ?i) [0..<?n] = Inl (RuntimeError ''Cannot assign polarization to optical photon with zero momentum!'')"
    by (simp add: foldE_append)
  then show ?thesis using assms(1) by (simp add: particle_generator_def add vertex_alloc_def s2_def)
qed

text \<open>C34. The particle generator on any consistent input of an event, in each case: a name that Geant4 does not know, a mask that another interaction has already
  (two generators with the default mask) and an optical photon without momentum are its three errors, in this order. Otherwise it adds one
  interaction of exactly \<open>m_multiplicity\<close> particles with the identifiers from 0, all stable and without parents, all emitted by its one vertex, and leaves the other
  interactions alone; the input of the event stays one that can be merged, handed over and tracked, unless the particles are ions that the handler does
  not find in Geant4.\<close>

theorem particle_generator_spec:
  assumes "event_input cf s"
  shows "case gn_definition gn of
      None \<Rightarrow> particle_generator cf gn s = Inl (RuntimeError ''Bad particle type!'')
    | Some (pdg, mass, charge) \<Rightarrow>
        if event_get s (gn_mask gn) \<noteq> None then particle_generator cf gn s = Inl (RuntimeError ''+++ Interaction exists and cannot be added twice!'')
        else if \<exists>k < gn_multiplicity gn. gn_particle gn k = None
        then particle_generator cf gn s = Inl (RuntimeError ''Cannot assign polarization to optical photon with zero momentum!'')
        else \<exists>t i v. particle_generator cf gn s = Inr t \<and> (pdg < 1000000000 \<or> is_known cf pdg \<longrightarrow> event_input cf t) \<and> event_get t (gn_mask gn) = Some i \<and>
          (\<forall>k. k \<noteq> gn_mask gn \<longrightarrow> event_get t k = event_get s k) \<and> List.map fst (ia_particles i) = List.map int [0..<gn_multiplicity gn] \<and>
          ia_vertices i = [(gn_mask gn, [v])] \<and> vx_out (vertex_of t v) = int ` {0..<gn_multiplicity gn} \<and>
          (\<forall>k < gn_multiplicity gn. \<exists>p. interaction_view t i (int k) = Some p \<and> pt_pdgID p = pdg \<and> pt_parents p = {} \<and> isSet (pt_status p) G4PARTICLE_GEN_STABLE)"
proof (cases "gn_definition gn")
  case None
  then show ?thesis by (simp add: particle_generator_def)
next
  case (Some d)
  obtain pdg mass charge where d: "d = (pdg, mass, charge)" by (rule prod_cases3)
  have vn: "0 < in_vnext s" using assms by (simp add: event_input_def)
  consider (taken) "event_get s (gn_mask gn) \<noteq> None" | (photon) "event_get s (gn_mask gn) = None" "\<exists>k < gn_multiplicity gn. gn_particle gn k = None"
    | (runs) "event_get s (gn_mask gn) = None" "\<forall>k < gn_multiplicity gn. gn_particle gn k \<noteq> None"
    by (cases "event_get s (gn_mask gn)"; cases "\<exists>k < gn_multiplicity gn. gn_particle gn k = None") auto
  then show ?thesis
  proof cases
    case taken
    then show ?thesis using Some by (auto simp: particle_generator_def event_add_def event_get_def d)
  next
    case photon
    then show ?thesis using gun_fails [OF Some _ photon(2) vn] Some by (simp add: d event_get_def)
  next
    case runs
    have free: "map_of (in_interactions s) (gn_mask gn) = None" using runs(1) by (simp add: event_get_def)
    obtain t i v where t: "particle_generator cf gn s = Inr t" "pdg < 1000000000 \<or> is_known cf pdg \<longrightarrow> event_input cf t"
      "in_interactions t = map_assign (gn_mask gn) i (in_interactions s)"
      "List.map fst (ia_particles i) = List.map int [0..<gn_multiplicity gn]" "ia_vertices i = [(gn_mask gn, [v])]" "vx_out (vertex_of t v) = int ` {0..<gn_multiplicity gn}"
      and view: "\<forall>j p. interaction_view t i j = Some p \<longleftrightarrow> (\<exists>k < gn_multiplicity gn. j = int k \<and> p = gun_particle cf gn (pdg, mass, charge) k)"
      using generator_adds [OF assms Some [unfolded d] free runs(2)] by (elim exE conjE) (rule that)
    have "event_get t (gn_mask gn) = Some i" "\<forall>k. k \<noteq> gn_mask gn \<longrightarrow> event_get t k = event_get s k" by (simp_all add: event_get_def t(3))
    moreover have "\<forall>k < gn_multiplicity gn. \<exists>p. interaction_view t i (int k) = Some p \<and> pt_pdgID p = pdg \<and> pt_parents p = {} \<and> isSet (pt_status p) G4PARTICLE_GEN_STABLE"
      using view by (auto simp: gun_particle_fields isSet_def)
    moreover have no_error: "(event_get s (gn_mask gn) \<noteq> None) = False" "(\<exists>k < gn_multiplicity gn. gn_particle gn k = None) = False" using runs by simp_all
    ultimately show ?thesis using t(1,2,4-6) unfolding Some d option.case prod.case no_error if_False by blast
  qed
qed

section \<open>From the input to the record of the event\<close>

text \<open>What the input of the generator promises of the tracks of the event.\<close>

lemma event_followed:
  assumes "generated s0" and "ev_particleMap s0 = []" and "tracked st s0 r" and "cf_userHandlers st = []"
  shows "(\<forall>u calls u'. admissible r u calls u' \<longrightarrow> is_ok (follow_track st r u calls u')) \<and> ((\<forall>p. cf_definition st p) \<longrightarrow> is_ok (event_end st r))"
proof (intro conjI allI impI)
  have tok: "tracking_ok r" "ev_particleMap r = []" using tracked_ok [OF assms(3,4,1)] assms(2) by simp_all
  show "is_ok (follow_track st r u calls u')" if u: "admissible r u calls u'" for u calls u'
  proof -
    from follow_keeps [OF tok(1) u assms(4)] obtain r' where "follow_track st r u calls u' = Inr r'" by (elim exE conjE) (rule that)
    then show ?thesis by simp
  qed
  show "is_ok (event_end st r)" if d: "\<forall>p. cf_definition st p"
  proof -
    have "event_ok r" using tok(1) by (simp add: tracking_ok_def)
    from ended_event [OF this assms(4) d tok(2)] obtain u where "event_end st r = Inr u" by (elim exE conjE) (rule that)
    then show ?thesis by simp
  qed
qed

text \<open>C35. The whole preparation of an event, from any consistent input: its interactions are merged; then either the record is refused because a stable
  particle has daughters, or Geant4 gets its primary particles, each mapped to a particle of the merged record, and the event can be followed to its end: with a
  particle handler that has no user handlers, and without suspended tracks, every track that Geant4 may present in a state that is reached by following tracks,
  those of the decay products that this generation assigned included, is followed without an error, and in any such state the event can end without an error,
  as long as Geant4 knows all particles.\<close>

theorem prepared_event:
  assumes "event_input cf s" and "ev_particleMap (in_mc s) = []"
  shows "\<exists>m. mergeInteractions s = Inr m \<and>
    ((generatePrimaries cf m = Inl (RuntimeError ''Cannot Simmulate this MC Record'') \<and> (\<exists>k p. view m k = Some p \<and> inconsistent cf (view m) p)) \<or>
     (\<exists>t. generatePrimaries cf m = Inr (t, 1) \<and> ev_particles (in_mc t) = ev_particles (in_mc m) \<and> generated (in_mc t) \<and>
        (\<forall>k \<in> fst ` set (ev_particles (in_mc t)). k \<le> ev_nextPID (in_mc t)) \<and>
        (\<forall>x. in_gnext s \<le> x \<and> x < in_gnext t \<longrightarrow> (\<exists>a \<in> snd ` set (ev_particles (in_mc t)). ev_primaryMap (in_mc t) x = Some a)) \<and>
        (\<forall>st r. tracked st (in_mc t) r \<longrightarrow> cf_userHandlers st = [] \<longrightarrow>
          (\<forall>u calls u'. admissible r u calls u' \<longrightarrow> is_ok (follow_track st r u calls u')) \<and> ((\<forall>p. cf_definition st p) \<longrightarrow> is_ok (event_end st r)))))"
proof -
  let ?m = "merged_state s"
  have ok: "inputs_ok s" using assms(1) by (simp add: event_input_def)
  have merged: "mergeInteractions s = Inr ?m" using merge_input [OF ok] by (simp add: merged_state_def)
  note mi = merged_input [OF ok, folded merged_state_def]
  from generate_all [OF merged_consistent [OF assms(1)]]
  have "(generatePrimaries cf ?m = Inl (RuntimeError ''Cannot Simmulate this MC Record'') \<and> (\<exists>k p. view ?m k = Some p \<and> inconsistent cf (view ?m) p)) \<or>
     (\<exists>t. generatePrimaries cf ?m = Inr (t, 1) \<and> ev_particles (in_mc t) = ev_particles (in_mc ?m) \<and> generated (in_mc t) \<and>
        (\<forall>k \<in> fst ` set (ev_particles (in_mc t)). k \<le> ev_nextPID (in_mc t)) \<and>
        (\<forall>x. in_gnext s \<le> x \<and> x < in_gnext t \<longrightarrow> (\<exists>a \<in> snd ` set (ev_particles (in_mc t)). ev_primaryMap (in_mc t) x = Some a)) \<and>
        (\<forall>st r. tracked st (in_mc t) r \<longrightarrow> cf_userHandlers st = [] \<longrightarrow>
          (\<forall>u calls u'. admissible r u calls u' \<longrightarrow> is_ok (follow_track st r u calls u')) \<and> ((\<forall>p. cf_definition st p) \<longrightarrow> is_ok (event_end st r))))"
  proof (elim disjE exE conjE)
    assume "refused cf ?m (generatePrimaries cf ?m)"
    then show ?thesis by (simp add: refused_def refusal_def)
  next
    fix t g rs
    assume t: "generatePrimaries cf ?m = Inr (t, 1)" "remarked (in_mc ?m) (in_mc t)" "in_gnext t = ps_next g"
      and g: "searched cf (view ?m) (input_roots ?m) (no_search ?m) g"
      and pm: "\<forall>(k, x) \<in> set (ps_prim g). ev_primaryMap (in_mc t) x = map_of (ev_particles (in_mc ?m)) k"
      and fr: "mc_next (in_mc t) = mc_next (in_mc ?m)" "mc_haveSuspended (in_mc t) = mc_haveSuspended (in_mc ?m)"
        "ev_particleMap (in_mc t) = ev_particleMap (in_mc ?m)" "ev_nextPID (in_mc t) = ev_nextPID (in_mc ?m)"
    have pe: "ev_particles (in_mc t) = ev_particles (in_mc ?m)" using t(2) by (simp add: remarked_def)
    have gen: "generated (in_mc t)" by (rule generated_input [OF assms(1) t(2)]) (simp_all add: fr merged_frame)
    have none: "ev_particleMap (in_mc t) = []" using assms(2) by (simp add: fr merged_frame)
    have known: "\<exists>a \<in> snd ` set (ev_particles (in_mc t)). ev_primaryMap (in_mc t) x = Some a" if x: "in_gnext s \<le> x \<and> x < in_gnext t" for x
    proof -
      note sd = searched_dest [OF g]
      have "mset (List.map snd (ps_prim g)) = mset [in_gnext s..<ps_next g]" using sd(8) by (simp add: no_search_def merged_frame)
      then have "snd ` set (ps_prim g) = {in_gnext s..<ps_next g}" by (metis atLeastLessThan_upt list.set_map mset_eq_setD)
      then obtain k where k: "(k, x) \<in> set (ps_prim g)" using x t(3) by force
      then have "map_of (ps_prim g) k = Some x" using sd(1) by (simp add: prim_ok_def map_of_mem)
      then have "entered (view ?m) cf g k x" using sd(7) [of k x] by (simp add: no_search_def)
      then obtain a where "map_of (ev_particles (in_mc ?m)) k = Some a" by (auto simp: entered_def view_def pv_def bind_eq_Some_conv)
      then show ?thesis using pm k pe by (force dest: map_of_SomeD)
    qed
    have below: "\<forall>k \<in> fst ` set (ev_particles (in_mc t)). k \<le> ev_nextPID (in_mc t)" using mi(8) by (force simp: pe fr)
    have all_known: "\<forall>x. in_gnext s \<le> x \<and> x < in_gnext t \<longrightarrow> (\<exists>a \<in> snd ` set (ev_particles (in_mc t)). ev_primaryMap (in_mc t) x = Some a)"
      using known by blast
    have all_end: "\<forall>st r. tracked st (in_mc t) r \<longrightarrow> cf_userHandlers st = [] \<longrightarrow>
        (\<forall>u calls u'. admissible r u calls u' \<longrightarrow> is_ok (follow_track st r u calls u')) \<and> ((\<forall>p. cf_definition st p) \<longrightarrow> is_ok (event_end st r))"
      using event_followed [OF gen none] by blast
    show ?thesis by (intro disjI2 exI [of _ t] conjI t(1) pe gen below all_known all_end)
  qed
  then show ?thesis using merged by blast
qed

text \<open>The initialization of an event makes an input without interactions.\<close>

lemma initial_input:
  assumes "\<not> mc_haveSuspended (in_mc s)" and "0 < mc_next (in_mc s)" and "\<forall>a. mc_next (in_mc s) \<le> a \<longrightarrow> mc_heap (in_mc s) a = None"
    and "0 < in_vnext s" and "\<forall>v. in_vnext s \<le> v \<longrightarrow> in_vertex s v = None"
  shows "event_input cf (generationInitialization s)"
  using assms by (simp add: event_input_def inputs_ok_def generationInitialization_def setNextPID_def event_interactions_def)

lemma sample_event_input: "event_input sample_physics sample_inputs"
proof -
  have v: "interaction_view sample_inputs (sample_interaction k a) j = (if j = 0 then Some sample_electron else None)" if "a = 1 \<or> a = 2" for j k a
    using that by (auto simp: interaction_view_def pv_def sample_inputs_def sample_mc_def sample_interaction_def)
  have vv: "vx_out (vertex_of sample_inputs a) = {0}" if "a = 1 \<or> a = 2" for a
    using that by (auto simp: vertex_of_def sample_inputs_def sample_vertex_def)
  have "interaction_ready sample_physics sample_inputs (sample_interaction k a)" if a: "a = 1 \<or> a = 2" for k a
  proof -
    have o: "vertex_objects (sample_interaction k a) = [a]" "fst ` set (ia_particles (sample_interaction k a)) = {0}"
      by (simp_all add: vertex_objects_def sample_interaction_def)
    show ?thesis using merged_gen_status
      by (simp add: interaction_ready_def o v [OF a] vv [OF a] related_def interaction_roots_def is_root_def sample_electron_def anySet_def force_kill_bit)
  qed
  then have "\<forall>i \<in> set (event_interactions sample_inputs). interaction_ready sample_physics sample_inputs i"
    by (simp add: event_interactions_def sample_inputs_def)
  then show ?thesis using sample_inputs_ok by (simp add: event_input_def) (simp add: sample_inputs_def sample_mc_def)
qed

definition sample_gun :: "nat Generator" where
  "sample_gun = \<lparr>gn_mask = 3, gn_multiplicity = 2, gn_definition = Some (13, 105, 3), gn_position = (0, 0, 0), gn_particle = (\<lambda>n. Some ((n, 0, 0), (0, 0, 0)))\<rparr>"

theorem particle_generator_spec_witness:
  "\<exists>t i. particle_generator sample_physics sample_gun sample_inputs = Inr t \<and> event_input sample_physics t \<and> event_get t 3 = Some i \<and>
    List.map fst (ia_particles i) = [0, 1]"
proof -
  have g: "gn_definition sample_gun = Some (13, 105, 3)" "gn_mask sample_gun = 3" "gn_multiplicity sample_gun = 2" "\<forall>k < gn_multiplicity sample_gun. gn_particle sample_gun k \<noteq> None"
    by (simp_all add: sample_gun_def)
  have none: "map_of (in_interactions sample_inputs) (gn_mask sample_gun) = None" by (simp add: g(2) sample_inputs_def)
  have free: "event_get sample_inputs (gn_mask sample_gun) = None" by (simp add: event_get_def none)
  have no_photon: "(\<exists>k < gn_multiplicity sample_gun. gn_particle sample_gun k = None) = False" using g(4) by blast
  have known: "((13 :: int) < 1000000000 \<or> is_known sample_physics 13) = True" by simp
  from particle_generator_spec [OF sample_event_input, of sample_gun, unfolded g(1) option.case prod.case free no_photon known simp_thms if_False]
  obtain t i v where "particle_generator sample_physics sample_gun sample_inputs = Inr t" "event_input sample_physics t"
    "event_get t (gn_mask sample_gun) = Some i" "List.map fst (ia_particles i) = List.map int [0..<gn_multiplicity sample_gun]" by (elim exE conjE) (rule that)
  then show ?thesis by (simp add: g upt_rec)
qed

theorem prepared_event_witness:
  "\<exists>m t. mergeInteractions sample_inputs = Inr m \<and> generatePrimaries sample_physics m = Inr (t, 1) \<and> generated (in_mc t)"
proof -
  have none: "ev_particleMap (in_mc sample_inputs) = []" by (simp add: sample_inputs_def sample_mc_def)
  have ni: "\<not> inconsistent sample_physics V p" for V p by (simp add: inconsistent_def stable_definition_def sample_physics_def)
  from prepared_event [OF sample_event_input none] obtain m where m: "mergeInteractions sample_inputs = Inr m"
    "(\<exists>k p. view m k = Some p \<and> inconsistent sample_physics (view m) p) \<or> (\<exists>t. generatePrimaries sample_physics m = Inr (t, 1) \<and> generated (in_mc t))"
    by blast
  then show ?thesis using ni by blast
qed

section \<open>The import of an interaction of Geant4\<close>

text \<open>The import of a decay: the vertex of the decay products, which is a copy of the vertex the mother comes from, has the mother among the incoming particles,
  but also among the outgoing ones, with all particles that came out of her vertex before. The mother is a particle with the next identifier, and it is marked
  as primary in the status, where the bit means that it was decayed by the generator, and not in the reason.\<close>

theorem imported_decay:
  assumes "collect_particle cf (s, i) o_v g = Inr (t, j, dv)" and "g4_decay g \<noteq> []" and "in_vertex s o_v = Some u"
    and "ev_primaryMap (in_mc s) (g4_address g) = None" and "map_of (ia_particles i) (int (length (ia_particles i))) = None"
  shows "\<exists>w a p. in_vertex t dv = Some w \<and> vx_in w = insert (int (length (ia_particles i))) (vx_in u) \<and> vx_out w = insert (int (length (ia_particles i))) (vx_out u) \<and>
    map_of (ia_particles j) (int (length (ia_particles i))) = Some a \<and> ev_primaryMap (in_mc t) (g4_address g) = Some a \<and> mc_heap (in_mc t) a = Some p \<and>
    isSet (pt_status p) G4PARTICLE_GEN_DECAYED \<and> isSet (pt_status p) G4PARTICLE_GEN_STABLE \<and> \<not> is_primary p \<and> pt_daughters p = {}"
proof -
  let ?pid = "int (length (ia_particles i))" and ?a = "mc_next (in_mc s)"
  let ?p = "or_status G4PARTICLE_PRIMARY ((createPrimary_particle cf ?pid u g)\<lparr>pt_mask := word_of_int (ia_mask i)\<rparr>)"
  let ?q = "or_reason G4PARTICLE_HAS_SECONDARIES (?p\<lparr>pt_ref := pt_ref ?p + 1\<rparr>)"
  let ?i1 = "i\<lparr>ia_particles := fst (map_emplace ?pid ?a (ia_particles i))\<rparr>"
  have o: "o_v \<noteq> 0" using assms(1,3) by (cases "o_v = 0") (simp_all add: collect_particle_def vertex_get_def)
  define u1 where "u1 = u\<lparr>vx_out := insert ?pid (vx_out u)\<rparr>"
  define s1 where "s1 = vertex_put (s\<lparr>in_mc := fst (particle_alloc (in_mc s) ?p)\<rparr>) o_v u1"
  have s1: "mc_heap (in_mc s1) ?a = Some ?p" "in_vertex s1 = (in_vertex s)(o_v \<mapsto> u1)" "ev_primaryMap (in_mc s1) = ev_primaryMap (in_mc s)" "in_vnext s1 = in_vnext s"
    by (simp_all add: s1_def vertex_put_def particle_alloc_def)
  have run: "bindE (primaryMap_insert s1 (g4_address g) ?a) (\<lambda>s2.
      bindE (in_particle s2 (\<lambda>m. particle_modify m ?a (or_reason G4PARTICLE_HAS_SECONDARIES))) (\<lambda>s3.
        bindE (vertex_get s3 o_v) (\<lambda>w. let (s4, dv) = vertex_alloc s3 ((Vertex_copy w)\<lparr>vx_mask := ia_mask i, vx_in := insert ?pid (vx_in w)\<rparr>)
          in Inr (s4, ?i1\<lparr>ia_vertices := vertices_add (ia_mask i) dv (ia_vertices ?i1)\<rparr>, dv)))) = Inr (t, j, dv)"
    using assms(1,2,3) o by (simp add: collect_particle_def vertex_get_def particle_alloc_def vertex_modify_def Let_def s1_def u1_def)
  obtain s2 where s2: "primaryMap_insert s1 (g4_address g) ?a = Inr s2" using run by (auto simp: bindE_Inr_iff)
  then have a0: "?a \<noteq> 0" using s1(1) by (auto simp: primaryMap_insert_def in_particle_def particle_addRef_def particle_modify_def particle_get_def bindE_Inr_iff split: if_splits)
  have s2': "mc_heap (in_mc s2) ?a = Some (?p\<lparr>pt_ref := pt_ref ?p + 1\<rparr>)" "in_vertex s2 = (in_vertex s)(o_v \<mapsto> u1)" "ev_primaryMap (in_mc s2) (g4_address g) = Some ?a" "in_vnext s2 = in_vnext s"
    using s2 s1 a0 assms(4) by (auto simp: primaryMap_insert_def in_particle_def particle_addRef_def particle_modify_def particle_get_def particle_put_def)
  obtain s3 where s3: "in_particle s2 (\<lambda>m. particle_modify m ?a (or_reason G4PARTICLE_HAS_SECONDARIES)) = Inr s3" using run by (auto simp: s2 bindE_Inr_iff)
  then have s3': "mc_heap (in_mc s3) ?a = Some ?q" "in_vertex s3 = (in_vertex s)(o_v \<mapsto> u1)" "ev_primaryMap (in_mc s3) (g4_address g) = Some ?a" "in_vnext s3 = in_vnext s"
    using s2' a0 by (auto simp: in_particle_def particle_modify_def particle_get_def particle_put_def)
  have fin: "t = fst (vertex_alloc s3 ((Vertex_copy u1)\<lparr>vx_mask := ia_mask i, vx_in := insert ?pid (vx_in u1)\<rparr>))" "dv = in_vnext s"
    "ia_particles j = fst (map_emplace ?pid ?a (ia_particles i))"
    using run s3'(2) o by (auto simp: s2 s3 vertex_get_def vertex_alloc_def s3'(4))
  have "in_vertex t dv = Some ((Vertex_copy u1)\<lparr>vx_mask := ia_mask i, vx_in := insert ?pid (vx_in u1)\<rparr>)" "in_mc t = in_mc s3"
    by (simp_all add: fin vertex_alloc_def s3'(4))
  moreover have "map_of (ia_particles j) ?pid = Some ?a" using assms(5) by (simp add: fin(3) map_emplace_def)
  moreover have "\<not> is_primary ?q" "pt_daughters ?q = {}"
    by (simp_all add: is_primary_def or_reason_def or_status_def createPrimary_particle_def Particle_new_def Let_def particle_bits)
  moreover have "isSet (pt_status ?q) G4PARTICLE_GEN_DECAYED" "isSet (pt_status ?q) G4PARTICLE_GEN_STABLE"
    by (simp_all add: isSet_def or_reason_def or_status_def createPrimary_particle_def Particle_new_def Let_def particle_bits generator_bits)
  ultimately show ?thesis using s3'(1,3) by (intro exI [of _ "(Vertex_copy u1)\<lparr>vx_mask := ia_mask i, vx_in := insert ?pid (vx_in u1)\<rparr>"] exI [of _ ?a] exI [of _ ?q])
      (simp add: Vertex_copy_def u1_def)
qed

definition sample_tree :: "nat G4Tree" where
  "sample_tree = G4Tree 5 23 (0, 0, 0) 0 91 0 [G4Tree 6 11 (0, 0, 0) 0 1 (- 3) []]"

theorem imported_decay_witness:
  "\<exists>t j dv w. collect_particle sample_physics (sample_inputs, Interaction_new) 1 sample_tree = Inr (t, j, dv) \<and> in_vertex t dv = Some w \<and> 0 \<in> vx_in w \<and> 0 \<in> vx_out w"
proof -
  have "is_ok (collect_particle sample_physics (sample_inputs, Interaction_new) 1 sample_tree)"
    by (simp add: collect_particle_def vertex_get_def sample_inputs_def sample_tree_def Interaction_new_def particle_alloc_def sample_mc_def vertex_modify_def
        vertex_put_def primaryMap_insert_def in_particle_def particle_addRef_def particle_modify_def particle_get_def particle_put_def vertex_alloc_def Let_def)
  then obtain t j dv where c: "collect_particle sample_physics (sample_inputs, Interaction_new) 1 sample_tree = Inr (t, j, dv)" by (auto simp: is_ok_iff)
  have d: "g4_decay sample_tree \<noteq> []" "in_vertex sample_inputs 1 = Some sample_vertex" "ev_primaryMap (in_mc sample_inputs) (g4_address sample_tree) = None"
    "map_of (ia_particles Interaction_new) (int (length (ia_particles Interaction_new))) = None"
    by (simp_all add: sample_tree_def sample_inputs_def sample_mc_def Interaction_new_def)
  from imported_decay [OF c d] obtain w where "in_vertex t dv = Some w" "vx_in w = insert (int (length (ia_particles Interaction_new))) (vx_in sample_vertex)"
    "vx_out w = insert (int (length (ia_particles Interaction_new))) (vx_out sample_vertex)" by (elim exE conjE) (rule that)
  then show ?thesis using c by (auto simp: Interaction_new_def)
qed

end
