(* ===== verification/Displacement.thy ===== *)
theory Displacement
  imports PrimaryEvents
begin

text \<open>
  The actions that displace or boost the interactions of an event before they are merged: what they move, and that an input
  of the event stays one that can be simulated.
\<close>

section \<open>Changes that keep the relations\<close>

definition keeps_relations :: "('d Particle \<Rightarrow> 'd Particle) \<Rightarrow> bool" where
  "keeps_relations f \<longleftrightarrow> (\<forall>p. pt_id (f p) = pt_id p \<and> pt_parents (f p) = pt_parents p \<and> pt_daughters (f p) = pt_daughters p \<and>
     pt_status (f p) = pt_status p \<and> pt_reason (f p) = pt_reason p \<and> pt_pdgID (f p) = pt_pdgID p)"

definition keeps_outgoing :: "('d Vertex \<Rightarrow> 'd Vertex) \<Rightarrow> bool" where
  "keeps_outgoing g \<longleftrightarrow> (\<forall>v. vx_out (g v) = vx_out v)"

definition displace :: "('d Particle \<Rightarrow> 'd Particle) \<Rightarrow> ('d Vertex \<Rightarrow> 'd Vertex) \<Rightarrow> Interaction \<Rightarrow> 'd InputState \<Rightarrow> 'd InputState" where
  "displace f g i s = heap_on (set (particle_objects i)) f (vertices_on (set (vertex_objects i)) g s)"

definition displaced :: "('d Particle \<Rightarrow> 'd Particle) \<Rightarrow> ('d Vertex \<Rightarrow> 'd Vertex) \<Rightarrow> Interaction \<Rightarrow> 'd InputState \<Rightarrow> 'd InputState \<Rightarrow> bool" where
  "displaced f g i s t \<longleftrightarrow> (\<forall>a \<in> set (particle_objects i). mc_heap (in_mc t) a = map_option f (mc_heap (in_mc s) a)) \<and>
     (\<forall>v \<in> set (vertex_objects i). in_vertex t v = map_option g (in_vertex s v))"

lemma displace_frame [simp]:
  "event_interactions (displace f g i s) = event_interactions s" "in_interactions (displace f g i s) = in_interactions s"
  "in_aborts (displace f g i s) = in_aborts s"
  by (simp_all add: displace_def heap_on_def vertices_on_def event_interactions_def)

lemma displace_heap: "mc_heap (in_mc (displace f g i s)) = on_set (set (particle_objects i)) f (mc_heap (in_mc s))"
  "in_vertex (displace f g i s) = on_set (set (vertex_objects i)) g (in_vertex s)"
  by (simp_all add: displace_def on_simps)

lemma on_set_id: "on_set A id h = h"
  by (rule ext) (simp add: on_set_def option.map_id)

lemma displace_id: "displace id id i s = s"
  unfolding displace_def heap_on_def vertices_on_def on_set_id by simp

lemma objects_disjoint:
  assumes "distinct (concat (List.map g xs))" and "x \<in> set xs" and "y \<in> set xs" and "x \<noteq> y"
  shows "set (g x) \<inter> set (g y) = {}"
  using assms by (induction xs) auto

lemma moved_view:
  assumes "keeps_relations f" and "interaction_view (displace f g i s) j k = Some p"
  shows "\<exists>q. interaction_view s j k = Some q \<and> pt_parents p = pt_parents q \<and> pt_daughters p = pt_daughters q \<and> pt_status p = pt_status q \<and>
    pt_reason p = pt_reason q \<and> pt_pdgID p = pt_pdgID q"
  using assms by (auto simp: interaction_view_def pv_def displace_heap on_set_def keeps_relations_def bind_eq_Some_conv split: if_splits)

lemma moved_root:
  assumes "keeps_relations f"
  shows "is_root (interaction_view (displace f g i s) j) = is_root (interaction_view s j)"
proof
  fix k
  show "is_root (interaction_view (displace f g i s) j) k = is_root (interaction_view s j) k"
  proof (cases "map_of (ia_particles j) k")
    case (Some a)
    then show ?thesis using assms
      by (cases "mc_heap (in_mc s) a") (simp_all add: is_root_def interaction_view_def pv_def displace_heap on_set_def keeps_relations_def)
  qed (simp add: is_root_def interaction_view_def pv_def)
qed

lemma moved_out:
  assumes "keeps_outgoing g" and "in_vertex s v \<noteq> None"
  shows "vx_out (vertex_of (displace f g i s) v) = vx_out (vertex_of s v)"
  using assms by (auto simp: vertex_of_def displace_heap on_set_def keeps_outgoing_def)

lemma moved_ready:
  assumes "keeps_relations f" and "keeps_outgoing g" and "interaction_ok s j" and "interaction_ready cf s j"
  shows "interaction_ready cf (displace f g i s) j"
proof -
  let ?t = "displace f g i s"
  note view = moved_view [OF assms(1), of g i s j] and root = moved_root [OF assms(1), of g i s j]
  have out: "vx_out (vertex_of ?t v) = vx_out (vertex_of s v)" if v: "v \<in> set (vertex_objects j)" for v
    using assms(3) v by (intro moved_out [OF assms(2)]) (auto simp: interaction_ok_def valid_vertices_def)
  have "related (interaction_view ?t j)" using assms(4) view unfolding related_def root interaction_ready_def by metis
  moreover have roots: "List.map (interaction_roots ?t j) (vertex_objects j) = List.map (interaction_roots s j) (vertex_objects j)"
    by (simp add: interaction_roots_def root out)
  have "distinct (concat (List.map (interaction_roots ?t j) (vertex_objects j)))" using assms(4) unfolding roots by (simp add: interaction_ready_def)
  moreover have "\<forall>k p. interaction_view ?t j k = Some p \<longrightarrow> pt_parents p \<union> pt_daughters p \<subseteq> fst ` set (ia_particles j) \<and>
        anySet (pt_status p) G4PARTICLE_GEN_STATUS \<and> \<not> isSet (pt_reason p) G4PARTICLE_FORCE_KILL \<and> (pt_pdgID p < 1000000000 \<or> has_definition cf p)"
    using assms(4) view unfolding interaction_ready_def has_definition_def by metis
  ultimately show ?thesis using assms(4) out by (simp add: interaction_ready_def)
qed

lemma moved_ok:
  assumes "keeps_relations f"
  shows "interaction_ok (displace f g i s) j = interaction_ok s j"
proof -
  have "map_option pt_id (mc_heap (in_mc (displace f g i s)) a) = map_option pt_id (mc_heap (in_mc s) a)" for a
    using assms by (cases "mc_heap (in_mc s) a") (auto simp: displace_heap on_set_def keeps_relations_def)
  then show ?thesis by (simp add: interaction_ok_def keyed_particles_def valid_vertices_def displace_heap)
qed

text \<open>A displacement keeps the input of the event.\<close>

lemma moved_input:
  assumes "event_input cf s" and "keeps_relations f" and "keeps_outgoing g"
  shows "event_input cf (displace f g i s)"
proof -
  let ?t = "displace f g i s"
  have frame: "in_locked ?t = in_locked s" "in_gnext ?t = in_gnext s" "ev_primaryMap (in_mc ?t) = ev_primaryMap (in_mc s)" "in_vnext ?t = in_vnext s"
    "mc_haveSuspended (in_mc ?t) = mc_haveSuspended (in_mc s)" "mc_next (in_mc ?t) = mc_next (in_mc s)"
    "ev_particles (in_mc ?t) = ev_particles (in_mc s)" "in_vertices ?t = in_vertices s"
    by (simp_all add: displace_def heap_on_def vertices_on_def)
  have "inputs_ok ?t" using assms(1) by (simp add: event_input_def inputs_ok_def moved_ok [OF assms(2)] frame)
  moreover have "\<forall>j \<in> set (event_interactions ?t). interaction_ready cf ?t j"
    using assms by (auto simp: event_input_def inputs_ok_def intro!: moved_ready)
  ultimately show ?thesis using assms(1) by (simp add: event_input_def frame displace_heap)
qed

lemma aborted_input: "event_input cf (s\<lparr>in_aborts := x\<rparr>) = event_input cf s"
proof -
  have "interaction_roots (s\<lparr>in_aborts := x\<rparr>) = interaction_roots s"
    by (intro ext) (simp add: interaction_roots_def interaction_view_def vertex_of_def)
  then show ?thesis
    by (simp add: event_input_def inputs_ok_def event_interactions_def interaction_ok_def keyed_particles_def valid_vertices_def interaction_ready_def
        interaction_view_def vertex_of_def)
qed

section \<open>The loop over the interactions\<close>

lemma displacement_loop:
  assumes "event_input cf s" and "snd ` set xs \<subseteq> set (event_interactions s)"
    and "distinct (concat (List.map (particle_objects \<circ> snd) xs))" and "distinct (concat (List.map (vertex_objects \<circ> snd) xs))"
    and keeps: "\<And>x. keeps_relations (F x)" "\<And>x. keeps_outgoing (G x)"
    and step: "\<And>s x. interaction_ok s (snd x) \<Longrightarrow> step s x = Inr (displace (F x) (G x) (snd x) (s\<lparr>in_aborts := in_aborts s @ L (snd x)\<rparr>))"
  shows "\<exists>t. foldE step s xs = Inr t \<and> event_input cf t \<and> in_interactions t = in_interactions s \<and> in_aborts t = in_aborts s @ concat (List.map (L \<circ> snd) xs) \<and>
    (\<forall>x \<in> set xs. displaced (F x) (G x) (snd x) s t) \<and>
    (\<forall>a. a \<notin> set (concat (List.map (particle_objects \<circ> snd) xs)) \<longrightarrow> mc_heap (in_mc t) a = mc_heap (in_mc s) a) \<and>
    (\<forall>v. v \<notin> set (concat (List.map (vertex_objects \<circ> snd) xs)) \<longrightarrow> in_vertex t v = in_vertex s v)"
  using assms(1-4)
proof (induction xs arbitrary: s)
  case (Cons x xs)
  let ?s = "displace (F x) (G x) (snd x) (s\<lparr>in_aborts := in_aborts s @ L (snd x)\<rparr>)"
  have ok: "interaction_ok s (snd x)" using Cons.prems(1,2) by (auto simp: event_input_def inputs_ok_def)
  have ei: "event_input cf ?s" by (rule moved_input [OF _ keeps]) (simp add: aborted_input Cons.prems(1))
  have es: "event_interactions ?s = event_interactions s" by (simp add: event_interactions_def)
  have parts: "snd ` set xs \<subseteq> set (event_interactions ?s)" "distinct (concat (List.map (particle_objects \<circ> snd) xs))"
    "distinct (concat (List.map (vertex_objects \<circ> snd) xs))" using Cons.prems(2-4) by (simp_all add: event_interactions_def comp_def)
  obtain t where t: "foldE step ?s xs = Inr t" "event_input cf t" "in_interactions t = in_interactions ?s"
    "in_aborts t = in_aborts ?s @ concat (List.map (L \<circ> snd) xs)" "\<forall>x \<in> set xs. displaced (F x) (G x) (snd x) ?s t"
    "\<forall>a. a \<notin> set (concat (List.map (particle_objects \<circ> snd) xs)) \<longrightarrow> mc_heap (in_mc t) a = mc_heap (in_mc ?s) a"
    "\<forall>v. v \<notin> set (concat (List.map (vertex_objects \<circ> snd) xs)) \<longrightarrow> in_vertex t v = in_vertex ?s v"
    using Cons.IH [OF ei parts] by (elim exE conjE) (rule that)
  have h: "mc_heap (in_mc ?s) = on_set (set (particle_objects (snd x))) (F x) (mc_heap (in_mc s))"
    "in_vertex ?s = on_set (set (vertex_objects (snd x))) (G x) (in_vertex s)" by (simp_all add: displace_heap)
  have apart: "set (particle_objects (snd x)) \<inter> set (particle_objects (snd y)) = {}" "set (vertex_objects (snd x)) \<inter> set (vertex_objects (snd y)) = {}"
    if "y \<in> set xs" for y using Cons.prems(3,4) that by auto
  have "displaced (F y) (G y) (snd y) s t" if y: "y \<in> set (x # xs)" for y
  proof (cases "y \<in> set xs")
    case True
    then show ?thesis using t(5) apart [OF True] by (auto simp: displaced_def h on_set_def disjoint_iff)
  next
    case False
    then have "y = x" using y by simp
    then show ?thesis using t(6,7) Cons.prems(3,4) by (auto simp: displaced_def h on_set_in disjoint_iff)
  qed
  then show ?case using t by (intro exI [of _ t]) (simp add: step [OF ok] h on_set_out comp_def)
qed simp

lemma smear_effect:
  assumes "interaction_ok s i"
  shows "smearInteraction cf d s i = Inr (displace (smear_particle cf d) (smear_vertex cf d) i
    (s\<lparr>in_aborts := in_aborts s @ (if ia_locked i then [''Locked interactions may not be smeared!''] else [])\<rparr>))"
proof -
  let ?s = "s\<lparr>in_aborts := in_aborts s @ (if ia_locked i then [''Locked interactions may not be smeared!''] else [])\<rparr>"
  have s: "(if ia_locked i then abortRun s ''Locked interactions may not be smeared!'' else s) = ?s" by (simp add: abortRun_def)
  have d: "distinct (concat (List.map snd (ia_vertices i)))" "distinct (List.map snd (ia_particles i))"
    using assms by (simp_all add: interaction_ok_def particle_objects_def vertex_objects_def)
  have v: "valid_vertices ?s (concat (List.map snd (ia_vertices i)))" using assms by (simp add: interaction_ok_def valid_vertices_def vertex_objects_def)
  have p: "valid_particles ?s (List.map snd (ia_particles i))"
    using assms keyed_valid [of s "ia_particles i"] by (simp add: interaction_ok_def valid_particles_def)
  have "smearInteraction cf d s i = foldE (\<lambda>s (k, a). in_particle s (\<lambda>m. particle_modify m a (smear_particle cf d)))
      (vertices_on (set (vertex_objects i)) (smear_vertex cf d) ?s) (ia_particles i)"
    unfolding smearInteraction_def s vertex_loop [OF d(1) v] by (simp add: vertex_objects_def)
  also have "\<dots> = Inr (displace (smear_particle cf d) (smear_vertex cf d) i ?s)"
    using particle_loop [OF d(2), of "vertices_on (set (vertex_objects i)) (smear_vertex cf d) ?s"] p by (simp add: on_simps displace_def particle_objects_def)
  finally show ?thesis .
qed

text \<open>What the boost does to the particles and vertices of an interaction; it leaves locked interactions alone.\<close>

definition boosted :: "'d InputSettings \<Rightarrow> 'd Boost \<Rightarrow> Interaction \<Rightarrow> bool" where
  "boosted cf b i \<longleftrightarrow> \<not> ia_locked i \<and> is_nonzero cf (bo_angle b)"

lemma boost_effect:
  assumes "interaction_ok s i"
  shows "boostInteraction cf b s i = Inr (displace (if boosted cf b i then boost_particle cf b else id) (if boosted cf b i then boost_vertex cf b else id) i
    (s\<lparr>in_aborts := in_aborts s @ (if ia_locked i then [''Locked interactions may not be boosted!''] else [])\<rparr>))"
proof (cases "boosted cf b i")
  case True
  have d: "distinct (concat (List.map snd (ia_vertices i)))" "distinct (List.map snd (ia_particles i))"
    using assms by (simp_all add: interaction_ok_def particle_objects_def vertex_objects_def)
  have v: "valid_vertices s (concat (List.map snd (ia_vertices i)))" using assms by (simp add: interaction_ok_def valid_vertices_def vertex_objects_def)
  have p: "valid_particles s (List.map snd (ia_particles i))" using assms keyed_valid [of s "ia_particles i"] by (simp add: interaction_ok_def)
  show ?thesis using True particle_loop [OF d(2), of "vertices_on (set (vertex_objects i)) (boost_vertex cf b) s"] p vertex_loop [OF d(1) v, of "boost_vertex cf b"]
    by (simp add: boosted_def boostInteraction_def on_simps displace_def particle_objects_def vertex_objects_def)
qed (auto simp: boosted_def boostInteraction_def displace_id abortRun_def)

lemma displacements_keep:
  "keeps_relations (smear_particle cf d)" "keeps_outgoing (smear_vertex cf d)" "keeps_relations (boost_particle cf b)" "keeps_outgoing (boost_vertex cf b)"
  "keeps_relations id" "keeps_outgoing id"
  by (simp_all add: keeps_relations_def keeps_outgoing_def smear_particle_def smear_vertex_def boost_particle_def boost_vertex_def Let_def split: prod.split)

section \<open>The two actions\<close>

lemma enumerate_nth: "(n, i) \<in> set (enumerate 0 is) \<longleftrightarrow> n < length is \<and> i = is ! n"
  by (auto simp: in_set_enumerate_eq)

lemma untouched:
  assumes "displaced f g j s t" and "inputs_ok s" and "i \<in> set (event_interactions s)" and "j \<in> set (event_interactions s)" and "i \<noteq> j"
    and "\<forall>a. a \<notin> set (particle_objects j) \<longrightarrow> mc_heap (in_mc t) a = mc_heap (in_mc s) a"
    and "\<forall>v. v \<notin> set (vertex_objects j) \<longrightarrow> in_vertex t v = in_vertex s v"
  shows "displaced id id i s t"
proof -
  have d: "distinct (concat (List.map particle_objects (event_interactions s)))" "distinct (concat (List.map vertex_objects (event_interactions s)))"
    using assms(2) by (simp_all add: inputs_ok_def)
  show ?thesis using objects_disjoint [OF d(1) assms(3-5)] objects_disjoint [OF d(2) assms(3-5)] assms(6,7)
    by (auto simp: displaced_def disjoint_iff option.map_id)
qed

lemma masked_interaction:
  assumes "inputs_ok s"
  shows "event_get s k = Some i \<longleftrightarrow> i \<in> set (event_interactions s) \<and> ia_mask i = k"
proof -
  have m: "map_ok (in_interactions s)" "\<forall>(k, i) \<in> set (in_interactions s). ia_mask i = k" using assms by (simp_all add: inputs_ok_def)
  show ?thesis using m(2) by (force simp: event_get_def event_interactions_def map_of_mem [OF m(1)])
qed

lemma filter_unique: "distinct (List.map f xs) \<Longrightarrow> x \<in> set xs \<Longrightarrow> filter (\<lambda>y. f y = f x) xs = [x]"
  by (induction xs) (auto simp: filter_empty_conv image_iff)

text \<open>An action on the interaction with a mask, or with all of them.\<close>

definition chosen :: "int \<Rightarrow> Interaction \<Rightarrow> nat \<Rightarrow> nat option" where
  "chosen msk i n = (if msk < 0 then Some n else if ia_mask i = msk then Some 0 else None)"

definition moved_by :: "('x \<Rightarrow> 'd Particle \<Rightarrow> 'd Particle) \<Rightarrow> ('x \<Rightarrow> 'd Vertex \<Rightarrow> 'd Vertex) \<Rightarrow> 'x option \<Rightarrow> Interaction \<Rightarrow> 'd InputState \<Rightarrow> 'd InputState \<Rightarrow> bool" where
  "moved_by F G c i s t = (case c of Some x \<Rightarrow> displaced (F x) (G x) i s t | None \<Rightarrow> displaced id id i s t)"

lemma action_moves:
  fixes F :: "nat \<Rightarrow> Interaction \<Rightarrow> 'd Particle \<Rightarrow> 'd Particle"
  assumes "event_input cf s"
    and keeps: "\<And>n i. keeps_relations (F n i)" "\<And>n i. keeps_outgoing (G n i)"
    and step: "\<And>s n i. interaction_ok s i \<Longrightarrow> step n s i = Inr (displace (F n i) (G n i) i (s\<lparr>in_aborts := in_aborts s @ L i\<rparr>))"
  shows "\<exists>t. (if 0 \<le> msk then (case event_get s msk of None \<Rightarrow> Inr s | Some i \<Rightarrow> step 0 s i)
        else foldE (\<lambda>s (n, i). step n s i) s (enumerate 0 (event_interactions s))) = Inr t \<and>
      event_input cf t \<and> in_interactions t = in_interactions s \<and>
      in_aborts t = in_aborts s @ concat (List.map L (filter (\<lambda>i. msk < 0 \<or> ia_mask i = msk) (event_interactions s))) \<and>
      (\<forall>n < length (event_interactions s). moved_by (\<lambda>x. F x (event_interactions s ! n)) (\<lambda>x. G x (event_interactions s ! n))
         (chosen msk (event_interactions s ! n) n) (event_interactions s ! n) s t)"
proof -
  let ?is = "event_interactions s" and ?F = "\<lambda>(n, i). F n i" and ?G = "\<lambda>(n, i). G n i" and ?step = "\<lambda>s (n, i). step n s i"
  have s: "inputs_ok s" using assms(1) by (simp add: event_input_def)
  have k: "keeps_relations (?F x)" "keeps_outgoing (?G x)" for x using keeps by (simp_all split: prod.split)
  have st: "?step s x = Inr (displace (?F x) (?G x) (snd x) (s\<lparr>in_aborts := in_aborts s @ L (snd x)\<rparr>))" if "interaction_ok s (snd x)" for s x
    using step [OF that] by (cases x) simp
  have d: "distinct (concat (List.map particle_objects ?is))" "distinct (concat (List.map vertex_objects ?is))"
    using s by (simp_all add: inputs_ok_def)
  show ?thesis
  proof (cases "0 \<le> msk")
    case neg: False
    have e: "List.map (particle_objects \<circ> snd) (enumerate 0 ?is) = List.map particle_objects ?is" "List.map (vertex_objects \<circ> snd) (enumerate 0 ?is) = List.map vertex_objects ?is"
      "List.map (L \<circ> snd) (enumerate 0 ?is) = List.map L ?is" by (simp_all flip: map_map)
    have sub: "snd ` set (enumerate 0 ?is) \<subseteq> set ?is" by (auto simp: enumerate_nth)
    obtain t where t: "foldE ?step s (enumerate 0 ?is) = Inr t" "event_input cf t" "in_interactions t = in_interactions s"
      "in_aborts t = in_aborts s @ concat (List.map L ?is)" "\<forall>x \<in> set (enumerate 0 ?is). displaced (?F x) (?G x) (snd x) s t"
      using displacement_loop [OF assms(1) sub, of ?F ?G ?step L, OF _ _ k st] d unfolding e by blast
    have "displaced (F n (?is ! n)) (G n (?is ! n)) (?is ! n) s t" if "n < length ?is" for n
      using bspec [OF t(5), of "(n, ?is ! n)"] that by (simp add: enumerate_nth)
    then show ?thesis using t(1-4) neg by (intro exI [of _ t]) (simp add: chosen_def moved_by_def)
  next
    case pos: True
    show ?thesis
    proof (cases "event_get s msk")
      case None
      then have none: "ia_mask i \<noteq> msk" if "i \<in> set ?is" for i using masked_interaction [OF s, of msk i] that by auto
      have "displaced id id i s s" for i by (simp add: displaced_def option.map_id)
      then show ?thesis using none pos assms(1) by (intro exI [of _ s]) (auto simp: None chosen_def moved_by_def filter_empty_conv)
    next
      case (Some i)
      then have i: "i \<in> set ?is" "ia_mask i = msk" using masked_interaction [OF s, of msk i] by auto
      have "distinct (List.map fst (in_interactions s))" using s by (simp add: inputs_ok_def map_ok_def strict_sorted_iff)
      moreover have masks: "List.map ia_mask ?is = List.map fst (in_interactions s)" using s by (auto simp: inputs_ok_def event_interactions_def)
      ultimately have own: "filter (\<lambda>j. ia_mask j = ia_mask i) ?is = [i]" using i(1) by (intro filter_unique) simp_all
      have sub: "snd ` set [(0 :: nat, i)] \<subseteq> set ?is" using i(1) by simp
      have ok: "interaction_ok s i" using s i(1) by (simp add: inputs_ok_def)
      obtain t where t: "foldE ?step s [(0, i)] = Inr t" "event_input cf t" "in_interactions t = in_interactions s"
        "in_aborts t = in_aborts s @ L i" "displaced (F 0 i) (G 0 i) i s t"
        "\<forall>a. a \<notin> set (particle_objects i) \<longrightarrow> mc_heap (in_mc t) a = mc_heap (in_mc s) a" "\<forall>v. v \<notin> set (vertex_objects i) \<longrightarrow> in_vertex t v = in_vertex s v"
        using displacement_loop [OF assms(1) sub, of ?F ?G ?step L, OF _ _ k st] ok by (auto simp: interaction_ok_def)
      have run: "step 0 s i = Inr t" using t(1) by (cases "step 0 s i") simp_all
      have same: "j = i" if "j \<in> set ?is" "ia_mask j = msk" for j
        using masked_interaction [OF s, of msk j] that Some by simp
      have "moved_by (\<lambda>x. F x j) (\<lambda>x. G x j) (chosen msk j n) j s t" if j: "j \<in> set ?is" for j n
        using pos t(5) same [OF j] untouched [OF t(5) s j i(1) _ t(6,7)] i(2) by (auto simp: chosen_def moved_by_def)
      then show ?thesis using run t(2-4) pos own i(2) by (intro exI [of _ t]) (auto simp: Some)
    qed
  qed
qed

text \<open>C37. The actions that displace and boost interactions succeed on any input of an event and leave one that can be merged, handed over and tracked.
  The displacement moves exactly the particles and vertices of the interaction with its mask, or those of every interaction by a draw of its own; a locked interaction is
  reported, but moved all the same. The boost changes exactly the interactions chosen that are not locked, and reports the locked ones.\<close>

theorem displacement_spec:
  assumes "event_input cf s"
  shows "(\<exists>t. vertex_smear cf msk draw s = Inr t \<and> event_input cf t \<and> in_interactions t = in_interactions s \<and>
      in_aborts t = in_aborts s @ List.map (\<lambda>_. ''Locked interactions may not be smeared!'')
        (filter (\<lambda>i. (msk < 0 \<or> ia_mask i = msk) \<and> ia_locked i) (event_interactions s)) \<and>
      (\<forall>n < length (event_interactions s). moved_by
        (\<lambda>k p. p\<lparr>pt_vs := vec_plus cf (pt_vs p) (fst (draw k)), pt_ve := vec_plus cf (pt_ve p) (fst (draw k)), pt_time := is_plus cf (pt_time p) (snd (draw k))\<rparr>)
        (\<lambda>k v. v\<lparr>vx_pos := vec_plus cf (vx_pos v) (fst (draw k)), vx_time := is_plus cf (vx_time v) (snd (draw k))\<rparr>)
        (chosen msk (event_interactions s ! n) n) (event_interactions s ! n) s t)) \<and>
    (\<exists>t. vertex_boost cf msk b s = Inr t \<and> event_input cf t \<and> in_interactions t = in_interactions s \<and>
      in_aborts t = in_aborts s @ List.map (\<lambda>_. ''Locked interactions may not be boosted!'')
        (filter (\<lambda>i. (msk < 0 \<or> ia_mask i = msk) \<and> ia_locked i) (event_interactions s)) \<and>
      (\<forall>i \<in> set (event_interactions s). if (msk < 0 \<or> ia_mask i = msk) \<and> \<not> ia_locked i \<and> is_nonzero cf (bo_angle b)
        then displaced (boost_particle cf b) (boost_vertex cf b) i s t else displaced id id i s t))" (is "?smeared \<and> ?boosted")
proof
  have reports: "concat (List.map (\<lambda>i. if ia_locked i then [m] else []) (filter P is)) = List.map (\<lambda>_. m) (filter (\<lambda>i. P i \<and> ia_locked i) is)" for m :: string and P "is"
    by (induction "is") auto
  have draws: "(\<lambda>k. smear_particle cf (draw k)) = (\<lambda>k p. p\<lparr>pt_vs := vec_plus cf (pt_vs p) (fst (draw k)), pt_ve := vec_plus cf (pt_ve p) (fst (draw k)), pt_time := is_plus cf (pt_time p) (snd (draw k))\<rparr>)"
    "(\<lambda>k. smear_vertex cf (draw k)) = (\<lambda>k v. v\<lparr>vx_pos := vec_plus cf (vx_pos v) (fst (draw k)), vx_time := is_plus cf (vx_time v) (snd (draw k))\<rparr>)"
    by (simp_all add: fun_eq_iff smear_particle_def smear_vertex_def case_prod_unfold)
  show ?smeared
    using action_moves [where F = "\<lambda>n _. smear_particle cf (draw n)" and G = "\<lambda>n _. smear_vertex cf (draw n)" and step = "\<lambda>n. smearInteraction cf (draw n)"
        and L = "\<lambda>i. if ia_locked i then [''Locked interactions may not be smeared!''] else []", OF assms displacements_keep(1,2) smear_effect]
    unfolding vertex_smear_def reports draws .
  let ?F = "\<lambda>i. if boosted cf b i then boost_particle cf b else id" and ?G = "\<lambda>i. if boosted cf b i then boost_vertex cf b else id"
  have k: "keeps_relations (?F i)" "keeps_outgoing (?G i)" for i by (simp_all add: displacements_keep)
  have e: "foldE (\<lambda>s (n, i). boostInteraction cf b s i) s (enumerate m xs) = foldE (boostInteraction cf b) s xs" for s xs and m :: nat
    by (induction xs arbitrary: s m) simp_all
  obtain t where t: "vertex_boost cf msk b s = Inr t" "event_input cf t" "in_interactions t = in_interactions s"
    "in_aborts t = in_aborts s @ concat (List.map (\<lambda>i. if ia_locked i then [''Locked interactions may not be boosted!''] else [])
       (filter (\<lambda>i. msk < 0 \<or> ia_mask i = msk) (event_interactions s)))"
    "\<forall>n < length (event_interactions s). moved_by (\<lambda>_. ?F (event_interactions s ! n)) (\<lambda>_. ?G (event_interactions s ! n))
         (chosen msk (event_interactions s ! n) n) (event_interactions s ! n) s t"
    using action_moves [where F = "\<lambda>_. ?F" and G = "\<lambda>_. ?G" and step = "\<lambda>_. boostInteraction cf b" and msk = msk
        and L = "\<lambda>i. if ia_locked i then [''Locked interactions may not be boosted!''] else []", OF assms k boost_effect]
    by (simp only: vertex_boost_def e implies_True_equals triv_forall_equality True_implies_equals) (elim exE conjE, rule that, simp_all only: vertex_boost_def)
  have "if (msk < 0 \<or> ia_mask i = msk) \<and> \<not> ia_locked i \<and> is_nonzero cf (bo_angle b)
        then displaced (boost_particle cf b) (boost_vertex cf b) i s t else displaced id id i s t" if i: "i \<in> set (event_interactions s)" for i
  proof -
    obtain n where "n < length (event_interactions s)" "i = event_interactions s ! n" using i unfolding in_set_conv_nth by blast
    then have "moved_by (\<lambda>_. ?F i) (\<lambda>_. ?G i) (chosen msk i n) i s t" using t(5) by blast
    then show ?thesis by (auto simp: moved_by_def chosen_def boosted_def split: if_splits)
  qed
  then show ?boosted
    using t(1-4) reports by (intro exI [of _ t]) simp
qed

theorem displacement_spec_witness:
  "\<exists>t. vertex_smear sample_physics 7 (\<lambda>_. ((1, 2, 3), 4)) sample_inputs = Inr t \<and> map_option vx_pos (in_vertex t 2) = Some (1, 2, 3) \<and>
    map_option vx_pos (in_vertex t 1) = Some (0, 0, 0) \<and> in_aborts t = []"
proof -
  let ?draw = "\<lambda>_ :: nat. ((1 :: nat, 2 :: nat, 3 :: nat), 4 :: nat)"
  have ints: "event_interactions sample_inputs = [sample_interaction 0 1, sample_interaction 7 2]" by (simp add: event_interactions_def sample_inputs_def)
  from displacement_spec [OF sample_event_input, of 7 ?draw] obtain t where t: "vertex_smear sample_physics 7 ?draw sample_inputs = Inr t"
    "in_aborts t = in_aborts sample_inputs @ List.map (\<lambda>_. ''Locked interactions may not be smeared!'')
        (filter (\<lambda>i. ((7 :: int) < 0 \<or> ia_mask i = 7) \<and> ia_locked i) (event_interactions sample_inputs))"
    "\<forall>n < length (event_interactions sample_inputs). moved_by
        (\<lambda>k p. p\<lparr>pt_vs := vec_plus sample_physics (pt_vs p) (fst (?draw k)), pt_ve := vec_plus sample_physics (pt_ve p) (fst (?draw k)), pt_time := is_plus sample_physics (pt_time p) (snd (?draw k))\<rparr>)
        (\<lambda>k v. v\<lparr>vx_pos := vec_plus sample_physics (vx_pos v) (fst (?draw k)), vx_time := is_plus sample_physics (vx_time v) (snd (?draw k))\<rparr>)
        (chosen 7 (event_interactions sample_inputs ! n) n) (event_interactions sample_inputs ! n) sample_inputs t" by blast
  have "in_aborts t = []" using t(2) unfolding ints by (simp add: sample_interaction_def sample_inputs_def)
  moreover have "in_vertex t 2 = map_option (\<lambda>v. v\<lparr>vx_pos := vec_plus sample_physics (vx_pos v) (1, 2, 3), vx_time := is_plus sample_physics (vx_time v) 4\<rparr>) (in_vertex sample_inputs 2)"
    using spec [OF t(3), of 1] unfolding ints by (simp add: moved_by_def chosen_def displaced_def sample_interaction_def vertex_objects_def)
  moreover have "in_vertex t 1 = map_option id (in_vertex sample_inputs 1)"
    using spec [OF t(3), of 0] unfolding ints by (simp add: moved_by_def chosen_def displaced_def sample_interaction_def vertex_objects_def)
  ultimately show ?thesis using t(1) by (simp add: sample_inputs_def sample_vertex_def smear_vertex_def vec_plus_def sample_physics_def)
qed

end
