(* ===== verification/ParticleGun.thy ===== *)
theory ParticleGun
  imports PrimaryEvents
begin

text \<open>
  The particle gun that stands alone: initialization, generation, merging and the handing over to Geant4 in one action.
\<close>

lemma default_config_fields [simp]: "has_definition (default_config cf) p = has_definition cf p" "is_rejectPDGs (default_config cf) = default_rejectPDGs"
  by (simp_all add: has_definition_def default_config_def)










end
