(* ===== verification/Spec2Isabelle.thy ===== *)
theory Spec2Isabelle
  imports BitField64 VolumeManagerProps ConditionsLoadingProps HandleValues Displacement ParticleGun
begin

text \<open>
  A verification development for DD4hep, the detector description toolkit under \<open>src/\<close>.

  \<^bold>\<open>The program.\<close> A detector is a tree of detector elements with a parallel tree of placed volumes.
  The readout gives every sensitive volume a 64-bit identifier whose bit fields are named by a
  description string; the volume manager registers all sensitive volumes under their identifiers
  and finds the detector element of a hit. Conditions (calibrations, alignments) are attached to
  detector elements by 64-bit keys, are valid for an interval and live in pools, one pool for every
  interval; a user selects the conditions for one time into a user pool, where further conditions are
  derived from them by user callbacks. Every number of a compact description, and every
  environment variable in one, goes through an evaluator of arithmetic expressions. The simulation keeps a record of the
  particles that made the hits. This is the core modelled here, in the order in which the parts build on each other.

  \<^bold>\<open>The theories.\<close>
  \<^item> \<open>Prelude\<close>, \<open>StdMap\<close>, \<open>MapMultiset\<close>, \<open>CxxString\<close>: C++ code that may throw or be undefined is a value of type
    \<open>cpp\<close>, a sum with the error type \<open>cpp_error\<close> (exceptions by their class, null and dangling
    pointers, undefined shifts, a run that never returns), sequenced by \<open>bindE\<close> and \<open>foldE\<close>;
    machine integers are words; \<open>std::map\<close> is a list of pairs in ascending order
    (\<open>map_assign\<close>, \<open>map_emplace\<close>, \<open>map_erase\<close>), the contract of such a container is the
    locale \<open>ordered_container\<close>; number parsing and printing and the string functions the code uses.
  \<^item> \<open>BitFieldCoder\<close>, \<open>BitField64\<close> (\<open>DDCore/src/segmentations/BitFieldCoder.cpp\<close>, \<open>BitField64.cpp\<close> and their headers):
    a field is the record \<open>BitFieldElement\<close>, a coder the record \<open>BitFieldCoder\<close> of its fields, index and
    joined mask. The locale \<open>word_slot\<close> is the contract of one field. Lemmas: what construction,
    reading and writing do and when they throw; the invariant of the constructor; the round trip of
    printing and parsing; the mutable view refines the coder and stays within its mask.
  \<^item> \<open>IDDescriptor\<close> (\<open>DDCore/src/IDDescriptor.cpp\<close>): encoding and decoding of volume identifiers, as
    round trips in both directions, and the agreement with the checked writing of the coder.
  \<^item> \<open>DetElement\<close> (\<open>DDCore/src/DetElement.cpp\<close>, \<open>DetectorInterna.cpp\<close>): elements are objects of an explicit store
    (\<open>Heap\<close>) because handles share them and paths are cached in place; \<open>chain\<close> is the
    ancestor relation, \<open>tree_ok\<close> the invariant that creation, the adding of a new child and the queries of paths and levels keep.
  \<^item> \<open>DetectorTools\<close> (\<open>DDCore/src/DetectorTools.cpp\<close>): paths and searches over both trees.
  \<^item> \<open>VolumeManager\<close>, \<open>VolumeManagerProps\<close> (\<open>DDCore/src/VolumeManager.cpp\<close>): population and lookup. Managers are
    objects of a store of their own beside the one of detector elements.
  \<^item> \<open>IOV\<close> (\<open>DDCore/src/IOV.cpp\<close>, \<open>IOV.h\<close>): intervals of validity; \<open>ConditionsPool\<close> (\<open>Conditions.cpp\<close>,
    \<open>ConditionsIOVPool.cpp\<close>, \<open>ConditionsLinearPool.cpp\<close>, \<open>ConditionsMappedPool.cpp\<close>): the store \<open>CondState\<close> of conditions,
    intervals and pools, selections from a pool and ageing; the locale \<open>condition_container\<close> is
    the contract of the kinds of pools.
  \<^item> \<open>ConditionsManager\<close> (\<open>Type1/Manager_Type1.cpp\<close>, \<open>ConditionsManager.cpp\<close>, \<open>ConditionsCleanup.cpp\<close>): registration of
    interval types, intervals and conditions, selection by time and range, cleaning; the invariant
    \<open>mgr_ok\<close> that all of these keep.
  \<^item> \<open>ConditionsUserPool\<close> (\<open>plugins/ConditionsUserPool.cpp\<close>): the view of the user, a map from keys to conditions
    kept beside the pool that owns them.
  \<^item> \<open>DependencyHandler\<close>, \<open>HandlerRuns\<close>, \<open>DerivedRegistration\<close>, \<open>DependencyProps\<close> (\<open>ConditionsDependencyHandler.cpp\<close>,
    \<open>ConditionDerived.cpp\<close>): the two passes that create and resolve derived conditions. User callbacks are not part
    of the repository; a callback is any tree of the calls it can make. \<open>DerivedRegistration\<close> follows the derived conditions
    into the pools of the manager and the user (\<open>register_all\<close>); an access through the resolver counts for
    their validity as one of the creation does (\<open>derived_validity\<close>). Every statement about runs
    goes through the locale \<open>handler_relation\<close> (a relation all elementary steps respect is
    respected by every run) and its extension \<open>handler_depth\<close> (a potential that falls with
    each callback bounds the nesting).
  \<^item> \<open>ConditionsContent\<close> (\<open>ConditionsContent.cpp\<close>): what a slice needs, keys with load information and
    dependencies, both objects that contents share by counted references. Lemmas: the counts are the
    references that exist, for every sequence of calls of a client that adds fresh objects and objects it holds a
    reference of (\<open>disciplined\<close>); where this discipline breaks.
  \<^item> \<open>ConditionsLoading\<close>, \<open>ConditionsLoadingProps\<close> (\<open>ConditionsSlice.cpp\<close>, \<open>prepare\<close>, \<open>load\<close> and \<open>compute\<close> of
    \<open>ConditionsUserPool.cpp\<close> and \<open>Manager_Type1.cpp\<close>): slices and the filling of a user pool for a point in time,
    with the automatic cleanup. The loader is a parameter. Lemmas: what a pool holds and what is reported
    missing after loading, for all settings of the manager; every missing derived condition is derived by one call of its callback
    and registered (another interpretation of \<open>handler_relation\<close>); preparing is loading and then computing; which
    pools survive a cleanup.
  \<^item> \<open>Evaluator\<close> (\<open>DDParsers/src/Evaluator/Evaluator.cpp\<close>): the operator precedence parser with its two tables and
    two stacks, the dictionary of numbers, functions and expressions, and the interface of the class. Double
    precision numbers are a type parameter, their operations and the functions of the mathematical
    library the record \<open>Arith\<close>. \<open>ExpressionGrammar\<close>: expression trees, the texts that spell them
    (\<open>spells\<close>, by precedence levels) and their value with the first error in the order of
    evaluation (\<open>expr_value\<close>). \<open>EvaluatorProps\<close>: the engine computes the value of the tree; when
    evaluation ends and when it cannot; the operator stack stays within the tables; variables.
  \<^item> \<open>HandleValues\<close> (\<open>DDCore/src/Handle.cpp\<close>, \<open>Handle.h\<close>): conversions of texts to numbers, products of texts, definitions of
    constants and the expansion of references to environment variables. The conversions of a double to
    integers, \<open>printf\<close> and \<open>getenv\<close> are parameters.
  \<^item> \<open>ParticleRecord\<close> (\<open>DDG4/src/Geant4ParticleHandler.cpp\<close>, \<open>Geant4Particle.h\<close> and the user handlers): the Monte Carlo truth
    record of the simulation, particles as objects of a store with counted references (\<open>MCState\<close>). A track of
    Geant4 is the record \<open>Track\<close> of what it says of itself. \<open>ParticleRecordProps\<close>: the removal of particles at the
    end of an event refines a sweep over particles by identifier (\<open>sweep\<close>); what stays, what parents inherit.
    \<open>ParticleNumbering\<close>: the numbering of the final record, its links (the loop refines \<open>linked_heap\<close>) and its
    consistency. \<open>ParticleEvents\<close>: the invariant \<open>tracking_ok\<close> of a whole event, the states an event can reach (\<open>tracked\<close>) when Geant4 presents
    its tracks in order (\<open>admissible\<close>, decay products assigned beforehand included), and that every event can end.
  \<^item> \<open>PrimaryInput\<close> (\<open>DDG4/src/Geant4InputHandling.cpp\<close>, \<open>Geant4Primary.cpp\<close>, \<open>Geant4Vertex.cpp\<close>, \<open>Geant4InputAction.cpp\<close>,
    \<open>Geant4ParticleGenerator.cpp\<close>, \<open>Geant4ParticleGun.cpp\<close>, \<open>Geant4GeneratorWrapper.cpp\<close> and the actions that displace vertices): the input of
    the simulation. The state \<open>InputState\<close> is that of the record with the interactions of the event, the vertices and the primary particles
    of Geant4. \<open>InteractionMerging\<close>: merging is one change of the stores (\<open>on_set\<close>) that shifts every
    interaction behind those before it (\<open>merging_spec\<close>). \<open>PrimaryGeneration\<close>: \<open>getRelevant\<close> is a search over the decays of the
    generator; \<open>PrimaryVertices\<close>: what the loops over all vertices give to Geant4, each particle once (\<open>generation_spec\<close>).
    \<open>PrimaryEvents\<close>: the two composed, up to an event that \<open>ParticleEvents\<close> can follow (\<open>prepared_event\<close>), and what the generator adds, or which error it raises (\<open>particle_generator_spec\<close>), and what
    the import from Geant4 adds. \<open>Displacement\<close>: the actions that displace or boost interactions keep the input consistent. \<open>ParticleGun\<close>: the gun that
    does all of it in one action.

  \<^bold>\<open>Interaction.\<close> \<open>VolumeManager\<close> calls \<open>IDDescriptor\<close> for masks and identifiers and \<open>DetElement\<close> for volume
  identifiers and callbacks; \<open>DetectorTools\<close> reads the store of \<open>DetElement\<close>. \<open>ConditionsManager\<close> creates and searches
  the pools of \<open>ConditionsPool\<close>, which compare keys of \<open>IOV\<close>; \<open>ConditionsUserPool\<close> registers through the manager, and the
  dependency handler inserts the derived conditions through both. Preparing a slice runs through all
  of them: the manager selects from its pools into the user pool, the difference to the content of the slice
  goes to the loader and to the dependency handler, and a cleanup may follow. \<open>HandleValues\<close> reads and writes the dictionary
  of the evaluator, whose operations take and return it. The input of the simulation
  makes the particles that the truth record then follows: the state that \<open>generatePrimaries\<close> leaves meets the predicate \<open>generated\<close>, under which
  \<open>event_completes\<close> shows that an event can be followed and ends.

  \<^bold>\<open>Loops and depth.\<close> Loops over lists are structural. The ancestor walks take the level of the element as
  bound, which the tree invariant justifies; the coverage test of a range runs at most once per
  key, with one pass more as fuel (\<open>range_complete_spec\<close>). Nested accesses of the
  dependency handler are limited by a depth; \<open>derivation_terminates\<close> shows that a run never nests
  deeper than two per dependency, so that the bound used by \<open>run_handler\<close> is never reached and
  any larger one gives the same result. A registration that never returns in the code
  (\<open>adoptPlacement\<close> with the flag ONE) is a \<open>partial_function\<close> and shown to be undefined. The engine of the
  evaluator scans its text in a terminating loop; an expression in the dictionary starts another engine, and the
  number of engines nested in each other is the fuel. When every expression of the dictionary
  has at most \<open>M\<close> characters and mentions only expressions of smaller rank, and the text at hand has at most
  \<open>L\<close> characters and mentions only ranks below \<open>R\<close>, then any number of engines above
  \<open>R * (M + 1) + L\<close> suffices and gives the same result (\<open>evaluation_ends\<close>);
  for an expression that is its own name no number does (\<open>self_reference_diverges\<close>). The passes of the removal of particles
  are a terminating recursion, since every pass but the last makes the map smaller; the search along
  equivalent tracks is a \<open>partial_function\<close>, and \<open>chains_down_end\<close> shows that it ends in every state of an event. The search for
  primary particles follows decays with one level of fuel more than there are particles; every level visits a particle not visited
  before, so that it is never used up (\<open>generation_spec\<close> has no such outcome).

  \<^bold>\<open>Not modelled.\<close>
  \<^item> Locks and threads: the conditions code is modelled for one thread.
  \<^item> ROOT's geometry (\<open>Shapes\<close>, \<open>Volumes\<close>, matrices), Geant4, XML and JSON libraries, plugins: external
    code; placements are a tree of named nodes, matrices a parameter with their three operations.
  \<^item> The global and local coordinates of the volume manager and the segmentations: floating point geometry.
  \<^item> The loaders of conditions and their persistency: reading and writing of XML, ROOT and text files.
  \<^item> The tables of standard functions and units that fill the dictionary of the evaluator.
  \<^item> The readers of event files, which make the particles and vertices that \<open>read_interaction\<close> takes, and the random distributions of
    the generators, which are parameters.
  \<^item> The rest of DDG4, and DDEve, DDCAD, DDDigi, DDRec, DDAlign, examples and tests: glue to external code or clients.
\<close>

end
